(* ===== verification/Prelude.thy ===== *)
theory Prelude
  imports Complex_Main "HOL-Library.Word" "HOL-Library.Multiset" "HOL-Library.AList"
    "HOL-Library.List_Lexorder" "HOL-Library.Product_Lexorder"
begin

text \<open>
  The prelude of the development: JavaScript strings as lists of UTF-16 code units with their
  code-unit order, the JavaScript \<open>Map\<close> and \<open>Set\<close> as insertion-ordered lists,
  \<open>Array.prototype.sort\<close> with a comparator as a stable sort, and the generic lemmas the
  components share. Strings are compared by the lexicographic order of HOL-Library.List_Lexorder,
  which is the order of the operators \<open><\<close> and \<open>></\<close> on JavaScript strings.
\<close>

named_theorems js_eval "equations that evaluate closed model terms"
named_theorems defect_simps "membership facts about the defects a check emits"

section \<open>Strings\<close>

type_synonym jsstr = "16 word list"

definition unit_of :: "char \<Rightarrow> 16 word" where
  "unit_of c = of_nat (of_char c)"

definition js :: "string \<Rightarrow> jsstr" where
  "js s = map unit_of s"

lemma unat_unit_of: "unat (unit_of c) = of_char c"
proof -
  have "of_char c < (65536 :: nat)"
    using nat_of_char_less_256 [of c] by linarith
  then show ?thesis
    by (simp add: unit_of_def unat_of_nat take_bit_nat_def)
qed

lemma unit_of_inject [simp]: "unit_of c = unit_of d \<longleftrightarrow> c = d"
proof
  assume "unit_of c = unit_of d"
  then have "unat (unit_of c) = unat (unit_of d)" by simp
  then show "c = d" by (simp add: unat_unit_of of_char_eq_iff)
qed simp

lemma js_inject [simp]: "js s = js t \<longleftrightarrow> s = t"
  unfolding js_def by (rule inj_map_eq_map) (simp add: inj_on_def)

lemma js_append: "js (s @ t) = js s @ js t"
  by (simp add: js_def)

lemma js_Nil [simp]: "js [] = []"
  by (simp add: js_def)

lemma js_eq_Nil [simp]: "js s = [] \<longleftrightarrow> s = []" "[] = js s \<longleftrightarrow> s = []"
  by (auto simp: js_def)

text \<open>A code unit given by a character, for comparisons with a literal character.\<close>

definition is_digit_unit :: "16 word \<Rightarrow> bool" where
  "is_digit_unit u \<longleftrightarrow> 48 \<le> u \<and> u \<le> 57"

definition digit_value :: "16 word \<Rightarrow> int" where
  "digit_value u = uint u - 48"

text \<open>The number a string of decimal digits denotes, most significant digit first.\<close>

definition int_of_digits :: "jsstr \<Rightarrow> int" where
  "int_of_digits s = foldl (\<lambda>n u. 10 * n + digit_value u) 0 s"

text \<open>The decimal digits of a non-negative number, without leading zeros.\<close>

definition digit_unit :: "int \<Rightarrow> 16 word" where
  "digit_unit d = word_of_int (48 + d)"

function digits_of :: "int \<Rightarrow> jsstr" where
  "digits_of n =
     (if n < 10 then [digit_unit n] else digits_of (n div 10) @ [digit_unit (n mod 10)])"
  by pat_completeness auto
termination
  by (relation "measure nat") auto

declare digits_of.simps [simp del]

definition text_of_int :: "int \<Rightarrow> jsstr" where
  "text_of_int i = (if i < 0 then js ''-'' @ digits_of (- i) else digits_of i)"

definition nat_text :: "nat \<Rightarrow> jsstr" where
  "nat_text n = digits_of (int n)"

lemma uint_digit_unit: "0 \<le> d \<Longrightarrow> d < 10 \<Longrightarrow> uint (digit_unit d) = 48 + d"
  by (simp add: digit_unit_def uint_word_of_int take_bit_int_eq_self del: of_int_add)

lemma digit_unit_is_digit: "0 \<le> d \<Longrightarrow> d < 10 \<Longrightarrow> is_digit_unit (digit_unit d)"
  by (simp add: is_digit_unit_def word_le_def uint_digit_unit)

lemma digit_value_unit: "0 \<le> d \<Longrightarrow> d < 10 \<Longrightarrow> digit_value (digit_unit d) = d"
  by (simp add: digit_value_def uint_digit_unit)

lemma int_of_digits_snoc: "int_of_digits (s @ [u]) = 10 * int_of_digits s + digit_value u"
  by (simp add: int_of_digits_def)

lemma int_of_digits_of [simp]: "0 \<le> n \<Longrightarrow> int_of_digits (digits_of n) = n"
proof (induction n rule: digits_of.induct)
  case (1 n)
  show ?case
  proof (cases "n < 10")
    case True
    with 1 show ?thesis
      by (simp add: digits_of.simps [of n] int_of_digits_def digit_value_unit)
  next
    case False
    with 1 show ?thesis
      by (simp add: digits_of.simps [of n] int_of_digits_snoc digit_value_unit)
  qed
qed

lemma digits_of_nonempty [simp]: "digits_of n \<noteq> []"
  by (subst digits_of.simps) simp

lemma digits_of_digits: "0 \<le> n \<Longrightarrow> u \<in> set (digits_of n) \<Longrightarrow> is_digit_unit u"
proof (induction n rule: digits_of.induct)
  case (1 n)
  then show ?case
    by (cases "n < 10") (auto simp: digits_of.simps [of n] digit_unit_is_digit)
qed

lemma digits_of_inject: "0 \<le> m \<Longrightarrow> 0 \<le> n \<Longrightarrow> digits_of m = digits_of n \<longleftrightarrow> m = n"
  by (metis int_of_digits_of)

section \<open>Insertion-ordered sets and maps\<close>

text \<open>
  A JavaScript \<open>Set\<close> is the list of its members in insertion order. A \<open>Map\<close> is an
  association list with distinct keys in insertion order; \<open>Map.set\<close> is \<^const>\<open>AList.update\<close>,
  which replaces a present key in place and appends an absent one, and \<open>Map.get\<close> is
  \<^const>\<open>map_of\<close>.
\<close>

definition set_add :: "'a \<Rightarrow> 'a list \<Rightarrow> 'a list" where
  "set_add x xs = (if x \<in> set xs then xs else xs @ [x])"

definition set_from :: "'a list \<Rightarrow> 'a list" where
  "set_from xs = fold set_add xs []"

definition map_from :: "('k \<times> 'v) list \<Rightarrow> ('k \<times> 'v) list" where
  "map_from ps = fold (\<lambda>(k, v). AList.update k v) ps []"

lemma set_set_add [simp]: "set (set_add x xs) = insert x (set xs)"
  by (auto simp: set_add_def)

lemma distinct_set_add [simp]: "distinct (set_add x xs) = distinct xs"
  by (auto simp: set_add_def)

lemma set_fold_set_add [simp]: "set (fold set_add xs acc) = set acc \<union> set xs"
  by (induction xs arbitrary: acc) auto

lemma set_set_from [simp]: "set (set_from xs) = set xs"
  by (simp add: set_from_def)

lemma distinct_set_from [simp]: "distinct (set_from xs)"
proof -
  have "distinct acc \<Longrightarrow> distinct (fold set_add xs acc)" for acc
    by (induction xs arbitrary: acc) auto
  then show ?thesis by (simp add: set_from_def)
qed

lemma set_from_distinct: "distinct xs \<Longrightarrow> set_from xs = xs"
proof -
  have "distinct (acc @ xs) \<Longrightarrow> fold set_add xs acc = acc @ xs" for acc
    by (induction xs arbitrary: acc) (auto simp: set_add_def)
  from this [of "[]"] show "distinct xs \<Longrightarrow> set_from xs = xs"
    by (simp add: set_from_def)
qed

lemma map_of_fold_update:
  "map_of (fold (\<lambda>(k, v). AList.update k v) ps m) k =
     (case map_of (rev ps) k of None \<Rightarrow> map_of m k | Some v \<Rightarrow> Some v)"
proof (induction ps arbitrary: m)
  case (Cons p ps)
  then show ?case
    by (cases p) (simp add: map_add_def update_conv' split: option.splits)
qed simp

lemma map_of_map_from: "map_of (map_from ps) k = map_of (rev ps) k"
  by (simp add: map_from_def map_of_fold_update split: option.splits)

lemma dom_map_from: "set (map fst (map_from ps)) = set (map fst ps)"
proof -
  have "dom (map_of (map_from ps)) = dom (map_of (rev ps))"
    by (simp add: map_of_map_from [abs_def] dom_def)
  then show ?thesis by (simp add: dom_map_of_conv_image_fst)
qed

lemma distinct_map_from: "distinct (map fst (map_from ps))"
proof -
  have "distinct (map fst m) \<Longrightarrow> distinct (map fst (fold (\<lambda>(k, v). AList.update k v) ps m))" for m
    by (induction ps arbitrary: m) (auto simp: distinct_update split: prod.splits)
  then show ?thesis by (simp add: map_from_def)
qed

lemma map_from_distinct: "distinct (map fst ps) \<Longrightarrow> map_from ps = ps"
proof -
  have step: "k \<notin> set (map fst m) \<Longrightarrow> AList.update k v m = m @ [(k, v)]" for k v and m :: "('a \<times> 'b) list"
    by (induction m) auto
  have "distinct (map fst (m @ ps)) \<Longrightarrow> fold (\<lambda>(k, v). AList.update k v) ps m = m @ ps" for m
  proof (induction ps arbitrary: m)
    case (Cons p ps)
    then show ?case
      by (cases p) (simp add: step)
  qed simp
  from this [of "[]"] show "distinct (map fst ps) \<Longrightarrow> map_from ps = ps"
    by (simp add: map_from_def)
qed

section \<open>Comparators and stable sorting\<close>

text \<open>
  \<open>Array.prototype.sort(cmp)\<close> is stable (ECMA-262 since 2019), so for a consistent comparator
  its result is the stable sort. \<open>stable_sort\<close> inserts each element before the first one it does
  not exceed, from the right.
\<close>

fun insert_by :: "('a \<Rightarrow> 'a \<Rightarrow> int) \<Rightarrow> 'a \<Rightarrow> 'a list \<Rightarrow> 'a list" where
  "insert_by cmp x [] = [x]"
| "insert_by cmp x (y # ys) = (if cmp x y \<le> 0 then x # y # ys else y # insert_by cmp x ys)"

definition stable_sort :: "('a \<Rightarrow> 'a \<Rightarrow> int) \<Rightarrow> 'a list \<Rightarrow> 'a list" where
  "stable_sort cmp xs = foldr (insert_by cmp) xs []"

lemma mset_insert_by [simp]: "mset (insert_by cmp x xs) = add_mset x (mset xs)"
  by (induction xs) auto

lemma set_insert_by [simp]: "set (insert_by cmp x xs) = insert x (set xs)"
  by (induction xs) auto

lemma mset_stable_sort [simp]: "mset (stable_sort cmp xs) = mset xs"
  by (induction xs) (auto simp: stable_sort_def)

lemma set_stable_sort [simp]: "set (stable_sort cmp xs) = set xs"
  by (metis mset_stable_sort set_mset_mset)

lemma length_stable_sort [simp]: "length (stable_sort cmp xs) = length xs"
  by (metis mset_stable_sort size_mset)

lemma distinct_stable_sort [simp]: "distinct (stable_sort cmp xs) = distinct xs"
  by (metis mset_stable_sort mset_eq_imp_distinct_iff)

lemma distinct_map_stable_sort [simp]:
  "distinct (map f (stable_sort cmp xs)) = distinct (map f xs)"
  by (metis mset_stable_sort mset_eq_imp_distinct_iff mset_map)

lemma stable_sort_Nil [simp]: "stable_sort cmp [] = []"
  by (simp add: stable_sort_def)

lemma stable_sort_Cons: "stable_sort cmp (x # xs) = insert_by cmp x (stable_sort cmp xs)"
  by (simp add: stable_sort_def)

lemma insert_by_map:
  "insert_by cmp (f x) (map f xs) = map f (insert_by (\<lambda>a b. cmp (f a) (f b)) x xs)"
  by (induction xs) auto

lemma stable_sort_map:
  "stable_sort cmp (map f xs) = map f (stable_sort (\<lambda>a b. cmp (f a) (f b)) xs)"
  by (induction xs) (simp_all add: stable_sort_Cons insert_by_map)

lemma insert_by_cong:
  "(\<And>y. y \<in> set xs \<Longrightarrow> (c x y \<le> 0) = (d x y \<le> 0)) \<Longrightarrow> insert_by c x xs = insert_by d x xs"
  by (induction xs) auto

lemma stable_sort_cong:
  "(\<And>x y. x \<in> set xs \<Longrightarrow> y \<in> set xs \<Longrightarrow> (c x y \<le> 0) = (d x y \<le> 0)) \<Longrightarrow>
    stable_sort c xs = stable_sort d xs"
proof (induction xs)
  case (Cons x xs)
  then have "stable_sort c xs = stable_sort d xs" by simp
  moreover have "insert_by c x (stable_sort d xs) = insert_by d x (stable_sort d xs)"
    by (rule insert_by_cong) (simp add: Cons.prems)
  ultimately show ?case by (simp add: stable_sort_Cons)
qed simp

text \<open>
  The laws a comparator owes \<open>sort\<close>: the sign of a comparison flips with its arguments and
  \<open>\<le> 0\<close> is transitive. What the sort then promises is proved once here.
\<close>

locale comparator_law =
  fixes cmp :: "'a \<Rightarrow> 'a \<Rightarrow> int"
  assumes flip: "0 < cmp a b \<longleftrightarrow> cmp b a < 0"
    and trans_le: "cmp a b \<le> 0 \<Longrightarrow> cmp b c \<le> 0 \<Longrightarrow> cmp a c \<le> 0"
begin

lemma total: "cmp a b \<le> 0 \<or> cmp b a \<le> 0"
  using flip [of a b] by linarith

lemma refl_zero: "cmp a a = 0"
  using flip [of a a] by linarith

lemma zero_sym: "cmp a b = 0 \<longleftrightarrow> cmp b a = 0"
  using flip [of a b] flip [of b a] by linarith

lemma zero_left: "cmp a b = 0 \<Longrightarrow> cmp b c \<le> 0 \<longleftrightarrow> cmp a c \<le> 0"
  using trans_le [of a b c] trans_le [of b a c] zero_sym [of a b] by auto

lemma zero_trans: "cmp a b = 0 \<Longrightarrow> cmp b c = 0 \<Longrightarrow> cmp a c = 0"
  using trans_le [of a b c] trans_le [of c b a] zero_sym [of a b] zero_sym [of b c]
    flip [of a c] flip [of c a] by auto

lemma sorted_insert_by:
  "sorted_wrt (\<lambda>a b. cmp a b \<le> 0) xs \<Longrightarrow> sorted_wrt (\<lambda>a b. cmp a b \<le> 0) (insert_by cmp x xs)"
proof (induction xs)
  case (Cons y ys)
  then show ?case
    using total [of x y] by (auto intro: trans_le)
qed simp

lemma sorted_stable_sort: "sorted_wrt (\<lambda>a b. cmp a b \<le> 0) (stable_sort cmp xs)"
  by (induction xs) (simp_all add: stable_sort_Cons sorted_insert_by)

lemma head_stable_sort: "stable_sort cmp xs = y # ys \<Longrightarrow> x \<in> set xs \<Longrightarrow> cmp y x \<le> 0"
proof -
  assume s: "stable_sort cmp xs = y # ys" and x: "x \<in> set xs"
  have "x \<in> set (y # ys)"
    using x set_stable_sort [of cmp xs] unfolding s by simp
  then show ?thesis
    using sorted_stable_sort [of xs] refl_zero [of y] unfolding s by auto
qed

lemma filter_insert_by:
  "filter (\<lambda>y. cmp k y = 0) (insert_by cmp x xs) =
     (if cmp k x = 0 then x # filter (\<lambda>y. cmp k y = 0) xs else filter (\<lambda>y. cmp k y = 0) xs)"
proof (induction xs)
  case (Cons y ys)
  have "cmp k x = 0 \<Longrightarrow> 0 < cmp x y \<Longrightarrow> cmp k y \<noteq> 0"
    using zero_trans [of x k y] zero_sym [of k x] by auto
  with Cons show ?case by auto
qed simp

text \<open>Stability: elements that compare equal keep their order.\<close>

lemma stable: "filter (\<lambda>y. cmp k y = 0) (stable_sort cmp xs) = filter (\<lambda>y. cmp k y = 0) xs"
  by (induction xs) (simp_all add: stable_sort_Cons filter_insert_by)

text \<open>A list that is already in order is left as it is.\<close>

lemma insert_by_front: "\<forall>y \<in> set xs. cmp x y \<le> 0 \<Longrightarrow> insert_by cmp x xs = x # xs"
  by (cases xs) auto

lemma sorted_idem: "sorted_wrt (\<lambda>a b. cmp a b \<le> 0) xs \<Longrightarrow> stable_sort cmp xs = xs"
  by (induction xs) (simp_all add: stable_sort_Cons insert_by_front)

lemma stable_sort_idem [simp]: "stable_sort cmp (stable_sort cmp xs) = stable_sort cmp xs"
  by (rule sorted_idem) (rule sorted_stable_sort)

text \<open>Where equal comparison means equality, the result depends on the members only.\<close>

lemma sorted_unique:
  "sorted_wrt (\<lambda>a b. cmp a b \<le> 0) xs \<Longrightarrow> sorted_wrt (\<lambda>a b. cmp a b \<le> 0) ys \<Longrightarrow>
    mset xs = mset ys \<Longrightarrow>
    (\<And>a b. a \<in> set xs \<Longrightarrow> b \<in> set xs \<Longrightarrow> cmp a b = 0 \<Longrightarrow> a = b) \<Longrightarrow> xs = ys"
proof (induction xs arbitrary: ys)
  case (Cons x xs)
  from Cons.prems(3) obtain y zs where ys: "ys = y # zs"
    by (cases ys) auto
  have mem: "set (x # xs) = set ys"
    using Cons.prems(3) by (rule mset_eq_setD)
  have xy: "cmp x y \<le> 0" and yx: "cmp y x \<le> 0"
    using Cons.prems(1,2) mem ys refl_zero [of x] refl_zero [of y] by auto
  then have "cmp x y = 0"
    using flip [of x y] flip [of y x] by linarith
  then have "x = y"
    using Cons.prems(4) mem ys by auto
  moreover have "xs = zs"
    using Cons.prems ys \<open>x = y\<close> by (intro Cons.IH) auto
  ultimately show ?case by (simp add: ys)
qed simp

lemma stable_sort_perm:
  assumes "mset xs = mset ys"
    and "\<And>a b. a \<in> set xs \<Longrightarrow> b \<in> set xs \<Longrightarrow> cmp a b = 0 \<Longrightarrow> a = b"
  shows "stable_sort cmp xs = stable_sort cmp ys"
  using assms by (intro sorted_unique sorted_stable_sort) auto

lemma take_is_least:
  assumes "a \<in> set (take n (stable_sort cmp xs))" and "b \<in> set (drop n (stable_sort cmp xs))"
  shows "cmp a b \<le> 0"
proof -
  have "sorted_wrt (\<lambda>a b. cmp a b \<le> 0) (take n (stable_sort cmp xs) @ drop n (stable_sort cmp xs))"
    by (simp add: sorted_stable_sort)
  with assms show ?thesis
    unfolding sorted_wrt_append by blast
qed

end

text \<open>A comparator that tells all its arguments apart.\<close>

locale total_comparator = comparator_law +
  assumes zero_eq: "cmp a b = 0 \<Longrightarrow> a = b"
begin

lemma order_independent: "mset xs = mset ys \<Longrightarrow> stable_sort cmp xs = stable_sort cmp ys"
  by (rule stable_sort_perm) (auto dest: zero_eq)

lemma strictly_sorted:
  "distinct xs \<Longrightarrow> sorted_wrt (\<lambda>a b. cmp a b < 0) (stable_sort cmp xs)"
proof -
  assume d: "distinct xs"
  have "sorted_wrt (\<lambda>a b. cmp a b \<le> 0) zs \<Longrightarrow> distinct zs \<Longrightarrow> sorted_wrt (\<lambda>a b. cmp a b < 0) zs" for zs
  proof (induction zs)
    case (Cons z zs)
    have "cmp z b < 0" if "b \<in> set zs" for b
    proof -
      from that Cons.prems have "cmp z b \<le> 0" and "z \<noteq> b" by auto
      then show ?thesis using zero_eq [of z b] by linarith
    qed
    with Cons show ?case by simp
  qed simp
  with d show ?thesis by (simp add: sorted_stable_sort)
qed

end

text \<open>A comparator read through a key keeps the laws.\<close>

lemma comparator_law_key:
  "comparator_law cmp \<Longrightarrow> comparator_law (\<lambda>a b. cmp (f a) (f b))"
  by (auto simp: comparator_law_def)

lemma length_dropWhile_Suc [termination_simp]: "length (dropWhile P xs) < Suc (length xs)"
  by (simp add: less_Suc_eq_le length_dropWhile_le)

text \<open>The comparator of any linear order.\<close>

definition by_order :: "'a::linorder \<Rightarrow> 'a \<Rightarrow> int" where
  "by_order l r = (if l < r then -1 else if r < l then 1 else 0)"

interpretation orders: total_comparator by_order
  by unfold_locales (auto simp: by_order_def split: if_splits)

lemma by_order_le [simp]: "by_order a b \<le> 0 \<longleftrightarrow> a \<le> b"
  by (auto simp: by_order_def)

lemma by_order_zero [simp]: "by_order a b = 0 \<longleftrightarrow> a = b"
  by (auto simp: by_order_def)

definition by_code_units :: "jsstr \<Rightarrow> jsstr \<Rightarrow> int" where
  "by_code_units l r = (if l < r then -1 else if r < l then 1 else 0)"

interpretation code_units: total_comparator by_code_units
  by unfold_locales (auto simp: by_code_units_def split: if_splits)

lemma by_code_units_le [simp]: "by_code_units a b \<le> 0 \<longleftrightarrow> a \<le> b"
  by (auto simp: by_code_units_def)

lemma by_code_units_zero [simp]: "by_code_units a b = 0 \<longleftrightarrow> a = b"
  by (auto simp: by_code_units_def)

lemma by_code_units_less [simp]: "by_code_units a b < 0 \<longleftrightarrow> a < b"
  by (auto simp: by_code_units_def)

text \<open>Sorting by a string key: the form every sort of the program but one takes.\<close>

definition sort_on :: "('a \<Rightarrow> jsstr) \<Rightarrow> 'a list \<Rightarrow> 'a list" where
  "sort_on f = stable_sort (\<lambda>l r. by_code_units (f l) (f r))"

lemma sort_on_law: "comparator_law (\<lambda>l r. by_code_units (f l) (f r))"
  by (rule comparator_law_key) (rule code_units.comparator_law_axioms)

lemma mset_sort_on [simp]: "mset (sort_on f xs) = mset xs"
  by (simp add: sort_on_def)

lemma set_sort_on [simp]: "set (sort_on f xs) = set xs"
  by (simp add: sort_on_def)

lemma length_sort_on [simp]: "length (sort_on f xs) = length xs"
  by (simp add: sort_on_def)

lemma sort_on_Nil [simp]: "sort_on f [] = []"
  by (simp add: sort_on_def)

lemma distinct_map_sort_on [simp]: "distinct (map g (sort_on f xs)) = distinct (map g xs)"
  by (simp add: sort_on_def)

lemma sorted_sort_on: "sorted (map f (sort_on f xs))"
  using comparator_law.sorted_stable_sort [OF sort_on_law, of f xs]
  by (simp add: sort_on_def sorted_map)

lemma sort_on_perm: "mset xs = mset ys \<Longrightarrow> inj_on f (set xs) \<Longrightarrow> sort_on f xs = sort_on f ys"
  unfolding sort_on_def
  by (rule comparator_law.stable_sort_perm [OF sort_on_law]) (auto dest: inj_onD)

lemma sort_on_sorted: "sorted (map f xs) \<Longrightarrow> sort_on f xs = xs"
  unfolding sort_on_def
  by (rule comparator_law.sorted_idem [OF sort_on_law]) (simp add: sorted_map)

lemma sort_on_idem [simp]: "sort_on f (sort_on f xs) = sort_on f xs"
  by (rule sort_on_sorted) (rule sorted_sort_on)

lemma size_list_insert_by [simp]: "size_list s (insert_by c x xs) = Suc (s x + size_list s xs)"
  by (induction xs) auto

lemma size_list_sort_on [simp]: "size_list s (sort_on f xs) = size_list s xs"
  by (induction xs) (auto simp: sort_on_def stable_sort_Cons)

section \<open>Acyclic relations on closed sets\<close>

lemma closed_reach:
  assumes "\<forall>a\<in>D. \<forall>b. (a, b) \<in> r \<longrightarrow> b \<in> D" and "a \<in> D" and "(a, b) \<in> r\<^sup>*"
  shows "b \<in> D"
  using assms(3,2) by (induction rule: rtrancl_induct) (use assms(1) in auto)

lemma closed_trancl:
  assumes "\<forall>a\<in>D. \<forall>b. (a, b) \<in> r \<longrightarrow> b \<in> D" and "a \<in> D" and "(a, b) \<in> r\<^sup>+"
  shows "b \<in> D \<and> (a, b) \<in> (r \<inter> D \<times> D)\<^sup>+"
  using assms(3,2)
proof (induction rule: trancl_induct)
  case (base b)
  then show ?case using assms(1) by auto
next
  case (step b c)
  then have "b \<in> D" "c \<in> D" using assms(1) by auto
  with step show ?case by (meson IntI SigmaI trancl.simps)
qed

text \<open>A node whose successors are all settled can be settled.\<close>

lemma acyclic_insert:
  assumes c: "\<forall>a\<in>D. \<forall>b. (a, b) \<in> r \<longrightarrow> b \<in> D" and a: "acyclic (r \<inter> D \<times> D)"
    and n: "n \<notin> D" and s: "\<forall>b. (n, b) \<in> r \<longrightarrow> b \<in> D"
  shows "acyclic (r \<inter> insert n D \<times> insert n D)"
proof (rule acyclicI, rule allI, rule notI)
  fix x
  assume xx: "(x, x) \<in> (r \<inter> insert n D \<times> insert n D)\<^sup>+"
  then have x: "(x, x) \<in> r\<^sup>+" by (rule trancl_mono) simp
  from tranclD [OF xx] have "x \<in> insert n D" by blast
  show False
  proof (cases "x \<in> D")
    case True
    then show False using closed_trancl [OF c True x] a by (simp add: acyclic_def)
  next
    case False
    then have "x = n" using \<open>x \<in> insert n D\<close> by simp
    from x obtain y where "(x, y) \<in> r" "(y, x) \<in> r\<^sup>*" by (meson tranclD)
    then have "x \<in> D" using s closed_reach [OF c] \<open>x = n\<close> by blast
    then show False using n \<open>x = n\<close> by simp
  qed
qed

section \<open>Maxima\<close>

lemma fold_max_le: "fold max xs (a :: nat) \<le> b \<longleftrightarrow> a \<le> b \<and> (\<forall>x\<in>set xs. x \<le> b)"
  by (induction xs arbitrary: a) auto

lemma add_fold_max_le:
  "d + fold max xs (0 :: nat) \<le> b \<longleftrightarrow> d \<le> b \<and> (\<forall>x\<in>set xs. d + x \<le> b)"
proof -
  have "d + fold max xs 0 \<le> b \<longleftrightarrow> d \<le> b \<and> fold max xs 0 \<le> b - d" by auto
  also have "\<dots> \<longleftrightarrow> d \<le> b \<and> (\<forall>x\<in>set xs. x \<le> b - d)" by (simp add: fold_max_le)
  finally show ?thesis by force
qed

section \<open>Recursion over a list with fuel for nested lists\<close>

lemma fuel_list_induct [case_names Nil Cons]:
  assumes nil: "\<And>fuel. P fuel []"
    and cons: "\<And>fuel x xs. P fuel xs \<Longrightarrow> (\<And>f ys. fuel = Suc f \<Longrightarrow> P f ys) \<Longrightarrow> P fuel (x # xs)"
  shows "P fuel xs"
proof (induction fuel arbitrary: xs rule: less_induct)
  case (less fuel xs)
  show ?case
  proof (induction xs)
    case (Cons x xs)
    show ?case by (rule cons) (use Cons less.IH in auto)
  qed (rule nil)
qed

end
