(* ===== verification/JsNumber.thy ===== *)
theory JsNumber
  imports Prelude
begin

text \<open>
  JavaScript numbers. A finite IEEE 754 value is the rational it denotes (\<open>-0\<close> and \<open>0\<close>,
  which no operation of the program tells apart, are one value). Rounding to binary64 and
  binary32 is round-half-even on exact rationals, so \<open>Number(digits)\<close> and
  \<open>Math.fround\<close> are computed, and \<open>num_text\<close> is the Number-to-string algorithm of
  ECMA-262: the shortest decimal that reads back as the same binary64 value.
\<close>

datatype jsnum = Fin rat | NaN | PosInf | NegInf

section \<open>Powers and rounding\<close>

definition power_of :: "rat \<Rightarrow> int \<Rightarrow> rat" where
  "power_of b e = (if 0 \<le> e then b ^ nat e else 1 / b ^ nat (- e))"

lemma power_of_pos: "0 < b \<Longrightarrow> 0 < power_of b e"
  by (simp add: power_of_def)

lemma power_of_nat [simp]: "power_of b (int n) = b ^ n"
  by (simp add: power_of_def)

function bit_count :: "int \<Rightarrow> int" where
  "bit_count n = (if n \<le> 0 then 0 else 1 + bit_count (n div 2))"
  by pat_completeness auto
termination
  by (relation "measure nat") auto

declare bit_count.simps [simp del]

text \<open>The binary exponent of a positive rational: \<open>2 ^ e \<le> q < 2 ^ (e + 1)\<close>.\<close>

definition ilog2 :: "rat \<Rightarrow> int" where
  "ilog2 q =
     (let (a, b) = quotient_of q;
          e = bit_count a - bit_count b
      in if power_of 2 e \<le> q then e else e - 1)"

definition round_half_even :: "rat \<Rightarrow> int" where
  "round_half_even q =
     (let f = \<lfloor>q\<rfloor>; r = q - of_int f
      in if r < 1 / 2 then f
         else if 1 / 2 < r then f + 1
         else if even f then f else f + 1)"

text \<open>
  Rounding a non-negative rational to a binary format of \<open>p\<close> significant bits whose least
  exponent is \<open>emin\<close>; \<open>2 ^ emax\<close> and above overflows.
\<close>

definition round_binary :: "int \<Rightarrow> int \<Rightarrow> int \<Rightarrow> rat \<Rightarrow> jsnum" where
  "round_binary p emin emax q =
     (if q = 0 then Fin 0
      else
        let e = max (ilog2 \<bar>q\<bar> - (p - 1)) emin;
            v = of_int (round_half_even (\<bar>q\<bar> / power_of 2 e)) * power_of 2 e
        in if power_of 2 emax \<le> v then (if q < 0 then NegInf else PosInf)
           else Fin (if q < 0 then - v else v))"

definition round64 :: "rat \<Rightarrow> jsnum" where
  "round64 = round_binary 53 (-1074) 1024"

definition round32 :: "rat \<Rightarrow> jsnum" where
  "round32 = round_binary 24 (-149) 128"

text \<open>\<open>Math.fround\<close> on a binary64 value.\<close>

definition fround :: "jsnum \<Rightarrow> jsnum" where
  "fround n = (case n of Fin q \<Rightarrow> round32 q | _ \<Rightarrow> n)"

definition is_double :: "rat \<Rightarrow> bool" where
  "is_double q \<longleftrightarrow> round64 q = Fin q"

text \<open>\<open>Number(text)\<close> on a string of decimal digits.\<close>

definition number_of_digits :: "jsstr \<Rightarrow> jsnum" where
  "number_of_digits s = round64 (of_int (int_of_digits s))"

section \<open>Tests and comparisons\<close>

definition num_is_finite :: "jsnum \<Rightarrow> bool" where
  "num_is_finite n = (case n of Fin _ \<Rightarrow> True | _ \<Rightarrow> False)"

definition num_is_integer :: "jsnum \<Rightarrow> bool" where
  "num_is_integer n = (case n of Fin q \<Rightarrow> of_int \<lfloor>q\<rfloor> = q | _ \<Rightarrow> False)"

definition num_less :: "jsnum \<Rightarrow> jsnum \<Rightarrow> bool" where
  "num_less a b =
     (case (a, b) of
        (NaN, _) \<Rightarrow> False | (_, NaN) \<Rightarrow> False
      | (NegInf, NegInf) \<Rightarrow> False | (NegInf, _) \<Rightarrow> True | (_, NegInf) \<Rightarrow> False
      | (PosInf, _) \<Rightarrow> False | (_, PosInf) \<Rightarrow> True
      | (Fin p, Fin q) \<Rightarrow> p < q)"

definition num_eq :: "jsnum \<Rightarrow> jsnum \<Rightarrow> bool" where
  "num_eq a b \<longleftrightarrow> a = b \<and> a \<noteq> NaN"

definition num_le :: "jsnum \<Rightarrow> jsnum \<Rightarrow> bool" where
  "num_le a b \<longleftrightarrow> num_less a b \<or> num_eq a b"

text \<open>
  The sign of the difference of two numbers, as a comparator returns it. The program subtracts
  only numbers it found different, so the \<open>Infinity - Infinity\<close> case does not arise.
\<close>

definition num_sign :: "jsnum \<Rightarrow> jsnum \<Rightarrow> int" where
  "num_sign a b = (if num_less a b then -1 else if num_less b a then 1 else 0)"

lemma num_less_Fin [simp]: "num_less (Fin p) (Fin q) \<longleftrightarrow> p < q"
  by (simp add: num_less_def)

lemma num_eq_Fin [simp]: "num_eq (Fin p) (Fin q) \<longleftrightarrow> p = q"
  by (simp add: num_eq_def)

lemma num_le_Fin [simp]: "num_le (Fin p) (Fin q) \<longleftrightarrow> p \<le> q"
  by (auto simp: num_le_def)

lemma num_sign_flip: "0 < num_sign a b \<longleftrightarrow> num_sign b a < 0"
  by (cases a; cases b) (auto simp: num_sign_def num_less_def)

lemma num_sign_zero: "a \<noteq> NaN \<Longrightarrow> b \<noteq> NaN \<Longrightarrow> num_sign a b = 0 \<longleftrightarrow> a = b"
  by (cases a; cases b) (auto simp: num_sign_def num_less_def)

lemma num_sign_trans:
  "a \<noteq> NaN \<Longrightarrow> b \<noteq> NaN \<Longrightarrow> c \<noteq> NaN \<Longrightarrow> num_sign a b \<le> 0 \<Longrightarrow> num_sign b c \<le> 0 \<Longrightarrow> num_sign a c \<le> 0"
  by (cases a; cases b; cases c) (auto simp: num_sign_def num_less_def split: if_splits)

lemma round_binary_not_NaN [simp]: "round_binary p emin emax q \<noteq> NaN"
  by (simp add: round_binary_def Let_def)

lemma number_of_digits_not_NaN [simp]: "number_of_digits s \<noteq> NaN"
  by (simp add: number_of_digits_def round64_def)

section \<open>Number to string\<close>

fun exponent_up :: "nat \<Rightarrow> rat \<Rightarrow> int \<Rightarrow> int" where
  "exponent_up 0 q n = n"
| "exponent_up (Suc f) q n = (if q < power_of 10 n then n else exponent_up f q (n + 1))"

fun exponent_down :: "nat \<Rightarrow> rat \<Rightarrow> int \<Rightarrow> int" where
  "exponent_down 0 q n = n"
| "exponent_down (Suc f) q n =
     (if power_of 10 (n - 1) \<le> q then n else exponent_down f q (n - 1))"

text \<open>
  The \<open>n\<close> with \<open>10 ^ (n - 1) \<le> q < 10 ^ n\<close>; a binary64 value has \<open>-323 \<le> n \<le> 309\<close>, so
  400 steps are enough.
\<close>

definition decimal_exponent :: "rat \<Rightarrow> int" where
  "decimal_exponent q = (if 1 \<le> q then exponent_up 400 q 1 else exponent_down 400 q 0)"

text \<open>
  The shortest digit string: for \<open>k = 1, 2, ...\<close> the two \<open>k\<close>-digit neighbours of \<open>q\<close>, the
  nearer first, until one reads back as \<open>q\<close>. Every finite binary64 value is an exact decimal of
  fewer than 1500 digits, so the search ends; 17 digits are always enough.
\<close>

fun shortest :: "nat \<Rightarrow> nat \<Rightarrow> rat \<Rightarrow> int \<Rightarrow> int \<times> int" where
  "shortest fuel k q n =
     (let t = n - int k;
          lo = \<lfloor>q / power_of 10 t\<rfloor>;
          near = (if q - of_int lo * power_of 10 t \<le> of_int (lo + 1) * power_of 10 t - q
                  then [lo, lo + 1] else [lo + 1, lo])
      in case filter (\<lambda>s. round64 (of_int s * power_of 10 t) = Fin q) near of
           s # _ \<Rightarrow> (s, t)
         | [] \<Rightarrow> (case fuel of 0 \<Rightarrow> (lo, t) | Suc f \<Rightarrow> shortest f (Suc k) q n))"

declare shortest.simps [simp del]

text \<open>The layout of \<open>k\<close> digits with the decimal point after \<open>n\<close> of them.\<close>

definition decimal_layout :: "jsstr \<Rightarrow> int \<Rightarrow> jsstr" where
  "decimal_layout ds n =
     (let k = int (length ds)
      in if k \<le> n \<and> n \<le> 21 then ds @ replicate (nat (n - k)) (digit_unit 0)
         else if 0 < n \<and> n \<le> 21 then take (nat n) ds @ js ''.'' @ drop (nat n) ds
         else if -6 < n \<and> n \<le> 0 then js ''0.'' @ replicate (nat (- n)) (digit_unit 0) @ ds
         else
           take 1 ds @ (if k = 1 then [] else js ''.'' @ drop 1 ds) @ js ''e''
             @ (if 0 \<le> n - 1 then js ''+'' else js ''-'') @ digits_of \<bar>n - 1\<bar>)"

text \<open>
  The upper neighbour of a run of nines is a power of ten, found with one digit as \<open>10\<close>; every
  other digit string ending in a zero would have been found one step earlier.
\<close>

fun without_zero :: "int \<times> int \<Rightarrow> int \<times> int" where
  "without_zero (s, t) = (if s = 10 then (1, t + 1) else (s, t))"

definition positive_text :: "rat \<Rightarrow> jsstr" where
  "positive_text q =
     (let (s, t) = without_zero (shortest 1500 1 q (decimal_exponent q));
          ds = digits_of s
      in decimal_layout ds (t + int (length ds)))"

fun num_text :: "jsnum \<Rightarrow> jsstr" where
  "num_text NaN = js ''NaN''"
| "num_text PosInf = js ''Infinity''"
| "num_text NegInf = js ''-Infinity''"
| "num_text (Fin q) =
     (if q = 0 then js ''0''
      else if q < 0 then js ''-'' @ positive_text (- q)
      else positive_text q)"

end
