(* ===== verification/JsVal.thy ===== *)
theory JsVal
  imports JsNumber
begin

text \<open>
  JavaScript values as the compiler handles them: what \<open>JSON.parse\<close> returns, plus
  \<open>undefined\<close>, the value of an absent member. An object is the list of its own members in
  enumeration order (\<open>Object.keys\<close>); its keys are distinct in every value the program builds
  (\<open>wf_value\<close>). Reading a member of a value that is not an object gives \<open>undefined\<close>, as the
  optional chaining the program uses does.
\<close>

datatype jsval =
    Undefined
  | Null
  | Bool bool
  | Num jsnum
  | Str jsstr
  | Arr "jsval list"
  | Obj "(jsstr \<times> jsval) list"

section \<open>Tests and members\<close>

definition is_object :: "jsval \<Rightarrow> bool" where
  "is_object v = (case v of Obj _ \<Rightarrow> True | _ \<Rightarrow> False)"

definition is_array :: "jsval \<Rightarrow> bool" where
  "is_array v = (case v of Arr _ \<Rightarrow> True | _ \<Rightarrow> False)"

definition is_string :: "jsval \<Rightarrow> bool" where
  "is_string v = (case v of Str _ \<Rightarrow> True | _ \<Rightarrow> False)"

definition is_boolean :: "jsval \<Rightarrow> bool" where
  "is_boolean v = (case v of Bool _ \<Rightarrow> True | _ \<Rightarrow> False)"

lemma is_object_simps [simp]:
  "is_object (Obj ms)" "\<not> is_object Undefined" "\<not> is_object Null" "\<not> is_object (Bool b)"
  "\<not> is_object (Num n)" "\<not> is_object (Str s)" "\<not> is_object (Arr xs)"
  by (simp_all add: is_object_def)

lemma is_array_simps [simp]:
  "is_array (Arr xs)" "\<not> is_array Undefined" "\<not> is_array Null" "\<not> is_array (Bool b)"
  "\<not> is_array (Num n)" "\<not> is_array (Str s)" "\<not> is_array (Obj ms)"
  by (simp_all add: is_array_def)

lemma is_string_simps [simp]:
  "is_string (Str s)" "\<not> is_string Undefined" "\<not> is_string Null" "\<not> is_string (Bool b)"
  "\<not> is_string (Num n)" "\<not> is_string (Arr xs)" "\<not> is_string (Obj ms)"
  by (simp_all add: is_string_def)

lemma is_boolean_simps [simp]:
  "is_boolean (Bool b)" "\<not> is_boolean Undefined" "\<not> is_boolean Null" "\<not> is_boolean (Str s)"
  "\<not> is_boolean (Num n)" "\<not> is_boolean (Arr xs)" "\<not> is_boolean (Obj ms)"
  by (simp_all add: is_boolean_def)

lemma is_object_iff: "is_object v \<longleftrightarrow> (\<exists>ms. v = Obj ms)"
  by (cases v) auto

lemma is_array_iff: "is_array v \<longleftrightarrow> (\<exists>xs. v = Arr xs)"
  by (cases v) auto

lemma is_string_iff: "is_string v \<longleftrightarrow> (\<exists>s. v = Str s)"
  by (cases v) auto

definition members_of :: "jsval \<Rightarrow> (jsstr \<times> jsval) list" where
  "members_of v = (case v of Obj ms \<Rightarrow> ms | _ \<Rightarrow> [])"

definition get_at :: "jsval \<Rightarrow> jsstr \<Rightarrow> jsval" where
  "get_at v k = (case map_of (members_of v) k of None \<Rightarrow> Undefined | Some w \<Rightarrow> w)"

definition get :: "jsval \<Rightarrow> string \<Rightarrow> jsval" where
  "get v k = get_at v (js k)"

definition has_own :: "jsval \<Rightarrow> string \<Rightarrow> bool" where
  "has_own v k \<longleftrightarrow> map_of (members_of v) (js k) \<noteq> None"

lemma members_of_simps [simp]:
  "members_of (Obj ms) = ms" "members_of Undefined = []" "members_of Null = []"
  "members_of (Bool b) = []" "members_of (Num n) = []" "members_of (Str s) = []"
  "members_of (Arr xs) = []"
  by (simp_all add: members_of_def)

lemma get_Obj_Nil [simp]: "get (Obj []) k = Undefined"
  by (simp add: get_def get_at_def)

lemma get_Obj_Cons [simp]:
  "get (Obj ((k', v) # ms)) k = (if js k = k' then v else get (Obj ms) k)"
  by (simp add: get_def get_at_def)

lemma get_other [simp]:
  "get Undefined k = Undefined" "get Null k = Undefined" "get (Bool b) k = Undefined"
  "get (Num n) k = Undefined" "get (Str s) k = Undefined" "get (Arr xs) k = Undefined"
  by (simp_all add: get_def get_at_def)

lemma has_own_Obj [simp]:
  "\<not> has_own (Obj []) k"
  "has_own (Obj ((k', v) # ms)) k \<longleftrightarrow> js k = k' \<or> has_own (Obj ms) k"
  by (auto simp: has_own_def)

lemma get_member: "get v k \<noteq> Undefined \<Longrightarrow> (js k, get v k) \<in> set (members_of v)"
  by (auto simp: get_def get_at_def split: option.splits dest: map_of_SomeD)

lemma get_not_Undefined_object: "get v k \<noteq> Undefined \<Longrightarrow> is_object v"
  by (cases v) auto

text \<open>The members of an array, and the object members of an array (\<open>asArray\<close>).\<close>

definition list_of :: "jsval \<Rightarrow> jsval list" where
  "list_of v = (case v of Arr xs \<Rightarrow> xs | _ \<Rightarrow> [])"

definition as_array :: "jsval \<Rightarrow> jsval list" where
  "as_array v = filter is_object (list_of v)"

lemma list_of_simps [simp]:
  "list_of (Arr xs) = xs" "list_of Undefined = []" "list_of Null = []" "list_of (Bool b) = []"
  "list_of (Num n) = []" "list_of (Str s) = []" "list_of (Obj ms) = []"
  by (simp_all add: list_of_def)

lemma as_array_objects: "d \<in> set (as_array v) \<Longrightarrow> is_object d"
  by (simp add: as_array_def)

definition nullish :: "jsval \<Rightarrow> bool" where
  "nullish v \<longleftrightarrow> v = Undefined \<or> v = Null"

text \<open>The operator \<open>??\<close>.\<close>

definition coalesce :: "jsval \<Rightarrow> jsval \<Rightarrow> jsval" where
  "coalesce v w = (if nullish v then w else v)"

definition truthy :: "jsval \<Rightarrow> bool" where
  "truthy v =
     (case v of
        Undefined \<Rightarrow> False
      | Null \<Rightarrow> False
      | Bool b \<Rightarrow> b
      | Num n \<Rightarrow> n \<noteq> Fin 0 \<and> n \<noteq> NaN
      | Str s \<Rightarrow> s \<noteq> []
      | Arr _ \<Rightarrow> True
      | Obj _ \<Rightarrow> True)"

text \<open>
  The operator \<open>===\<close> on values of different documents: two objects or arrays parsed separately
  are never the same reference.
\<close>

fun strict_eq :: "jsval \<Rightarrow> jsval \<Rightarrow> bool" where
  "strict_eq Undefined Undefined = True"
| "strict_eq Null Null = True"
| "strict_eq (Bool a) (Bool b) = (a = b)"
| "strict_eq (Num a) (Num b) = num_eq a b"
| "strict_eq (Str a) (Str b) = (a = b)"
| "strict_eq _ _ = False"

lemma strict_eq_Str [simp]: "strict_eq v (Str s) \<longleftrightarrow> v = Str s"
  by (cases v) auto

lemma strict_eq_imp_eq: "strict_eq v w \<Longrightarrow> v = w"
  by (cases v; cases w) (auto simp: num_eq_def)

lemma strict_eq_sym: "strict_eq v w = strict_eq w v"
  by (cases v; cases w) (auto simp: num_eq_def)

section \<open>Strings\<close>

fun join :: "jsstr \<Rightarrow> jsstr list \<Rightarrow> jsstr" where
  "join sep [] = []"
| "join sep [x] = x"
| "join sep (x # y # ys) = x @ sep @ join sep (y # ys)"

text \<open>\<open>String.prototype.split\<close> at one code unit.\<close>

fun split_at :: "16 word \<Rightarrow> jsstr \<Rightarrow> jsstr list" where
  "split_at u [] = [[]]"
| "split_at u (c # cs) =
     (if c = u then [] # split_at u cs
      else (case split_at u cs of [] \<Rightarrow> [[c]] | p # ps \<Rightarrow> (c # p) # ps))"

lemma split_at_nonempty [simp]: "split_at u s \<noteq> []"
  by (induction s) (auto split: list.splits)

lemma join_split_at: "join [u] (split_at u s) = s"
proof (induction s)
  case (Cons c cs)
  then show ?case
    by (cases "split_at u cs" rule: list.exhaust; cases "tl (split_at u cs)") auto
qed simp

definition starts_with :: "jsstr \<Rightarrow> jsstr \<Rightarrow> bool" where
  "starts_with s p \<longleftrightarrow> take (length p) s = p"

lemma starts_with_iff: "starts_with s p \<longleftrightarrow> (\<exists>r. s = p @ r)"
  by (metis append_eq_conv_conj append_take_drop_id starts_with_def)

definition ends_with :: "jsstr \<Rightarrow> jsstr \<Rightarrow> bool" where
  "ends_with s p \<longleftrightarrow> length p \<le> length s \<and> drop (length s - length p) s = p"

text \<open>\<open>String(v)\<close>, also the text a template literal inserts.\<close>

fun to_text :: "jsval \<Rightarrow> jsstr" where
  "to_text Undefined = js ''undefined''"
| "to_text Null = js ''null''"
| "to_text (Bool b) = (if b then js ''true'' else js ''false'')"
| "to_text (Num n) = num_text n"
| "to_text (Str s) = s"
| "to_text (Arr xs) =
     join (js '','') (map (\<lambda>x. if x = Undefined \<or> x = Null then [] else to_text x) xs)"
| "to_text (Obj ms) = js ''[object Object]''"

text \<open>
  \<open>String\<close> throws a \<open>TypeError\<close> on a JSON object that has a member \<open>toString\<close>, and on an array that
  reaches one; the text of such a value is never read.
\<close>

fun prints :: "jsval \<Rightarrow> bool" where
  "prints (Arr xs) \<longleftrightarrow> list_all (\<lambda>x. prints x) xs"
| "prints (Obj ms) \<longleftrightarrow> js ''toString'' \<notin> set (map fst ms)"
| "prints v \<longleftrightarrow> True"

text \<open>No object anywhere in the value has such a member: the documents the model is about.\<close>

fun all_print :: "jsval \<Rightarrow> bool" where
  "all_print (Arr xs) \<longleftrightarrow> list_all (\<lambda>x. all_print x) xs"
| "all_print (Obj ms) \<longleftrightarrow> list_all (\<lambda>m. fst m \<noteq> js ''toString'' \<and> all_print (snd m)) ms"
| "all_print v \<longleftrightarrow> True"

text \<open>\<open>Array.prototype.join\<close> on arbitrary values.\<close>

definition join_values :: "jsstr \<Rightarrow> jsval list \<Rightarrow> jsstr" where
  "join_values sep vs = join sep (map (\<lambda>v. if nullish v then [] else to_text v) vs)"

section \<open>Size and depth\<close>

lemma size_member: "(k, w) \<in> set (members_of v) \<Longrightarrow> size w < size v"
proof (cases v)
  case (Obj ms)
  assume "(k, w) \<in> set (members_of v)"
  then have "size w < Suc (size_list (size_prod (\<lambda>_. 0) size) ms)"
    unfolding Obj by (induction ms) auto
  with Obj show ?thesis by simp
qed auto

lemma size_get: "is_object v \<Longrightarrow> size (get v k) \<le> size v"
proof -
  assume v: "is_object v"
  show ?thesis
  proof (cases "get v k = Undefined")
    case False
    from get_member [OF this] show ?thesis
      by (rule less_imp_le [OF size_member])
  qed simp
qed

fun value_depth :: "jsval \<Rightarrow> nat" where
  "value_depth (Arr xs) = fold max (map (\<lambda>x. Suc (value_depth x)) xs) 0"
| "value_depth (Obj ms) = fold max (map (\<lambda>m. Suc (value_depth (snd m))) ms) 0"
| "value_depth _ = 0"

text \<open>
  The values \<open>JSON.parse\<close> can return, at every level: distinct member names, no \<open>undefined\<close>
  and finite binary64 numbers.
\<close>

fun wf_value :: "jsval \<Rightarrow> bool" where
  "wf_value Undefined = False"
| "wf_value (Num (Fin q)) = is_double q"
| "wf_value (Num _) = False"
| "wf_value (Arr xs) = list_all wf_value xs"
| "wf_value (Obj ms) = (distinct (map fst ms) \<and> list_all (\<lambda>m. wf_value (snd m)) ms)"
| "wf_value _ = True"

lemma wf_value_get: "wf_value v \<Longrightarrow> get v k \<noteq> Undefined \<Longrightarrow> wf_value (get v k)"
proof -
  assume wf: "wf_value v" and p: "get v k \<noteq> Undefined"
  from p have "is_object v" by (rule get_not_Undefined_object)
  then obtain ms where v: "v = Obj ms" by (auto simp: is_object_iff)
  from get_member [OF p] have "(js k, get v k) \<in> set ms" by (simp add: v)
  with wf show ?thesis by (auto simp: v list_all_iff)
qed

section \<open>White space, well-formed UTF-16\<close>

text \<open>The code units ECMA-262 counts as white space or line terminators (\<open>\s\<close>).\<close>

definition is_js_space :: "16 word \<Rightarrow> bool" where
  "is_js_space c \<longleftrightarrow>
     9 \<le> c \<and> c \<le> 13 \<or> c = 32 \<or> c = 160 \<or> c = 0x1680 \<or> 0x2000 \<le> c \<and> c \<le> 0x200A \<or>
     c = 0x2028 \<or> c = 0x2029 \<or> c = 0x202F \<or> c = 0x205F \<or> c = 0x3000 \<or> c = 0xFEFF"

definition hex_value :: "16 word \<Rightarrow> int option" where
  "hex_value c =
     (if is_digit_unit c then Some (uint c - 48)
      else if 97 \<le> c \<and> c \<le> 102 then Some (uint c - 87)
      else if 65 \<le> c \<and> c \<le> 70 then Some (uint c - 55)
      else None)"

text \<open>Every surrogate belongs to a pair.\<close>

definition high_surrogate :: "16 word \<Rightarrow> bool" where
  "high_surrogate c \<longleftrightarrow> 0xD800 \<le> c \<and> c \<le> 0xDBFF"

definition low_surrogate :: "16 word \<Rightarrow> bool" where
  "low_surrogate c \<longleftrightarrow> 0xDC00 \<le> c \<and> c \<le> 0xDFFF"

fun utf16_ok :: "jsstr \<Rightarrow> bool" where
  "utf16_ok [] = True"
| "utf16_ok (c # cs) =
     (if high_surrogate c
      then (case cs of [] \<Rightarrow> False | d # ds \<Rightarrow> low_surrogate d \<and> utf16_ok ds)
      else \<not> low_surrogate c \<and> utf16_ok cs)"

text \<open>The code points of a string (\<open>[...text]\<close>): pairs together, a lone surrogate by itself.\<close>

fun code_points :: "jsstr \<Rightarrow> jsstr list" where
  "code_points [] = []"
| "code_points [c] = [[c]]"
| "code_points (c # d # ds) =
     (if high_surrogate c \<and> low_surrogate d then [c, d] # code_points ds
      else [c] # code_points (d # ds))"

lemma surrogates_disjoint: "high_surrogate c \<Longrightarrow> \<not> low_surrogate c"
  by (auto simp: high_surrogate_def low_surrogate_def word_le_def)

lemma concat_code_points [simp]: "concat (code_points s) = s"
  by (induction s rule: code_points.induct) auto

lemma code_points_small: "p \<in> set (code_points s) \<Longrightarrow> length p \<le> 2 \<and> p \<noteq> []"
  by (induction s rule: code_points.induct) (auto split: if_splits)

lemma utf16_ok_prefix: "utf16_ok s \<Longrightarrow> utf16_ok (concat (take n (code_points s)))"
proof (induction s arbitrary: n rule: code_points.induct)
  case (3 c d ds)
  show ?case
  proof (cases n)
    case (Suc m)
    with 3 show ?thesis
      by (cases "high_surrogate c"; cases "code_points (d # ds)") auto
  qed simp
qed (auto simp: take_Cons' split: if_splits)

section \<open>Relational comparison\<close>

text \<open>
  The operator \<open><\<close> on arbitrary values (IsLessThan of ECMA-262): two strings compare by code
  units, everything else as numbers. \<open>string_to_number\<close> is the StringToNumber conversion,
  \<open>None\<close> being \<open>NaN\<close>; \<open>undefined\<close> and \<open>NaN\<close> compare false both ways.
\<close>

definition trim_spaces :: "jsstr \<Rightarrow> jsstr" where
  "trim_spaces s = rev (dropWhile is_js_space (rev (dropWhile is_js_space s)))"

definition digits_in :: "int \<Rightarrow> jsstr \<Rightarrow> int option" where
  "digits_in base s =
     (if s = [] then None
      else fold (\<lambda>c acc. case (acc, hex_value c) of
             (Some n, Some d) \<Rightarrow> if d < base then Some (base * n + d) else None
           | _ \<Rightarrow> None) s (Some 0))"

definition signed_part :: "jsstr \<Rightarrow> int \<times> jsstr" where
  "signed_part s =
     (case s of
        c # cs \<Rightarrow> if c = 45 then (-1, cs) else if c = 43 then (1, cs) else (1, s)
      | [] \<Rightarrow> (1, []))"

text \<open>\<open>digits [. digits] [e [sign] digits]\<close>, at least one digit before the exponent.\<close>

definition decimal_literal :: "jsstr \<Rightarrow> rat option" where
  "decimal_literal s =
     (let mant = takeWhile (\<lambda>c. c \<noteq> 101 \<and> c \<noteq> 69) s;
          rest = drop (length mant) s;
          (esign, edigits) = signed_part (tl rest);
          whole = takeWhile is_digit_unit mant;
          frac = drop (length whole) mant;
          fdigits = tl frac
      in if (frac = [] \<or> hd frac = 46) \<and> list_all is_digit_unit fdigits \<and>
            whole @ fdigits \<noteq> [] \<and>
            (rest = [] \<or> edigits \<noteq> [] \<and> list_all is_digit_unit edigits)
         then Some (of_int (int_of_digits (whole @ fdigits)) *
                power_of 10 ((if rest = [] then 0 else esign * int_of_digits edigits)
                  - int (length fdigits)))
         else None)"

definition string_to_number :: "jsstr \<Rightarrow> jsnum" where
  "string_to_number s =
     (let t = trim_spaces s; (sign, u) = signed_part t
      in if t = [] then Fin 0
         else if u = js ''Infinity'' then (if sign = 1 then PosInf else NegInf)
         else if starts_with t (js ''0x'') \<or> starts_with t (js ''0X'')
           then (case digits_in 16 (drop 2 t) of None \<Rightarrow> NaN | Some n \<Rightarrow> round64 (of_int n))
         else if starts_with t (js ''0o'') \<or> starts_with t (js ''0O'')
           then (case digits_in 8 (drop 2 t) of None \<Rightarrow> NaN | Some n \<Rightarrow> round64 (of_int n))
         else if starts_with t (js ''0b'') \<or> starts_with t (js ''0B'')
           then (case digits_in 2 (drop 2 t) of None \<Rightarrow> NaN | Some n \<Rightarrow> round64 (of_int n))
         else (case decimal_literal u of
                 None \<Rightarrow> NaN
               | Some q \<Rightarrow> round64 (of_int sign * q)))"

definition to_number :: "jsval \<Rightarrow> jsnum" where
  "to_number v =
     (case v of
        Undefined \<Rightarrow> NaN
      | Null \<Rightarrow> Fin 0
      | Bool b \<Rightarrow> Fin (if b then 1 else 0)
      | Num n \<Rightarrow> n
      | Str s \<Rightarrow> string_to_number s
      | _ \<Rightarrow> string_to_number (to_text v))"

definition to_primitive :: "jsval \<Rightarrow> jsval" where
  "to_primitive v = (case v of Arr _ \<Rightarrow> Str (to_text v) | Obj _ \<Rightarrow> Str (to_text v) | _ \<Rightarrow> v)"

definition js_less :: "jsval \<Rightarrow> jsval \<Rightarrow> bool" where
  "js_less v w =
     (case (to_primitive v, to_primitive w) of
        (Str a, Str b) \<Rightarrow> a < b
      | (a, b) \<Rightarrow> num_less (to_number a) (to_number b))"

text \<open>The operator \<open>>=\<close>.\<close>

definition js_ge :: "jsval \<Rightarrow> jsval \<Rightarrow> bool" where
  "js_ge v w =
     (case (to_primitive v, to_primitive w) of
        (Str a, Str b) \<Rightarrow> b \<le> a
      | (a, b) \<Rightarrow> num_le (to_number b) (to_number a))"

lemma js_less_simps [simp]:
  "js_less (Str a) (Str b) \<longleftrightarrow> a < b" "js_less (Num m) (Num n) \<longleftrightarrow> num_less m n"
  "js_ge (Str a) (Str b) \<longleftrightarrow> b \<le> a" "js_ge (Num m) (Num n) \<longleftrightarrow> num_le n m"
  by (simp_all add: js_less_def js_ge_def to_primitive_def to_number_def)

end
