(* ===== verification/Diagnostics.thy ===== *)
theory Diagnostics
  imports JsVal
begin

text \<open>
  \<open>src/src/compiler/diagnostics.mjs\<close>: the closed registry of diagnostic codes, the
  construction of a diagnostic, the truncation of input-derived text, and the deterministic order
  and limit of a report. A registry entry is a record; a diagnostic is a datatype, since its
  causes are diagnostics. A locus is the JavaScript value the caller passes.
\<close>

datatype severity = SevError | SevWarning | SevInfo

record entry =
  code :: jsstr
  severity :: severity
  blocking :: bool
  owner :: jsstr

datatype diag =
  Diag (d_code: jsstr) (d_severity: severity) (d_message: jsstr) (d_owner: jsstr)
    (d_blocking: bool) (d_causes: "diag list") (d_related: "jsval list") (d_locus: "jsval option")

section \<open>The registry\<close>

definition COMPILER :: jsstr where
  "COMPILER = js ''ix://agent-ix/filament-core-data/compiler''"

definition READER :: jsstr where
  "READER = js ''ix://agent-ix/filament-core-data/semantic-ir''"

definition blocking_entry :: "jsstr \<Rightarrow> jsstr \<Rightarrow> entry" where
  "blocking_entry c own = \<lparr>code = c, severity = SevError, blocking = True, owner = own\<rparr>"

definition advisory_entry :: "jsstr \<Rightarrow> jsstr \<Rightarrow> entry" where
  "advisory_entry c own = \<lparr>code = c, severity = SevWarning, blocking = False, owner = own\<rparr>"

definition COMPILER_CODES :: "string list" where
  "COMPILER_CODES =
    [''KERNEL_UNCONSTRAINED_VALUE'', ''KERNEL_REQUIRED_COLLECTION_PRESENCE'',
     ''UNSUPPORTED_SCHEMA_KEYWORD'', ''UNSUPPORTED_SCHEMA_SHAPE'', ''KERNEL_INVENTORY_MISMATCH'',
     ''FRONTEND_NOT_IMPLEMENTED'', ''TYPESPEC_COMPILE_ERROR'', ''DUPLICATE_DECORATOR'',
     ''INVALID_DECORATOR_ARGUMENT'', ''UNKNOWN_EDGE_VERB'', ''EDGE_CATEGORY_MISMATCH'',
     ''UNSLUGGABLE_NAME'', ''UNSUPPORTED_SCALAR_BASE'', ''AMBIGUOUS_NUMERIC'',
     ''DECIMAL_POLICY_MISSING'', ''DECIMAL_PRECISION_EXCEEDS_BASE'', ''UNSUPPORTED_DECLARATION'',
     ''MULTIPLICITY_CONTRADICTS_OPTIONALITY'', ''DEFAULT_KIND_WITHOUT_VALUE'',
     ''SOURCE_OUTSIDE_PACKAGE'', ''UNSUPPORTED_LOSS'', ''PATH_ESCAPE'', ''UNTRUSTED_MODULE'',
     ''INVALID_MANIFEST'', ''INVALID_MAPPING'', ''INVALID_PROFILE'',
     ''UNSUPPORTED_VERSION_CONSTRAINT'', ''IMPORT_NOT_FOUND'', ''IMPORT_VERSION_UNSATISFIED'',
     ''IMPORT_VERSION_CONFLICT'', ''IMPORT_EXPORT_MISSING'', ''IMPORT_EXPORT_PRIVATE'',
     ''IMPORT_CAPABILITY_MISSING'', ''PACKAGE_CYCLE'', ''DUPLICATE_EXPORT'', ''UNKNOWN_PROFILE'',
     ''UNKNOWN_MAPPING'', ''UNKNOWN_TARGET'', ''UNDECLARED_LOSS'', ''AMBIGUOUS_PROFILE'',
     ''INVALID_IR'', ''UNKNOWN_CONTRACT_VERSION'', ''LIMIT_MAX_INPUT_BYTES'', ''LIMIT_MAX_DEPTH'',
     ''LIMIT_MAX_NODES'', ''LIMIT_MAX_COLLECTION_ITEMS'', ''BACKEND_NOT_IMPLEMENTED'',
     ''INVALID_REQUEST'', ''UNSUPPORTED_IR_VERSION'', ''UNSUPPORTED_CONSTRUCT_SHAPE'',
     ''BACKEND_CONTRACT_VIOLATION'', ''FRONTEND_CONTRACT_VIOLATION'']"

definition READER_CODES :: "string list" where
  "READER_CODES =
    [''INVALID_CLOCK_MEMBER'', ''INVALID_OPTION_INNER'', ''UNRESOLVED_OPTION_INNER'',
     ''INVALID_OPTION_PRESENCE'', ''INVALID_QUANTITY_MEMBER'', ''INVALID_UNIT_GRAPH'',
     ''UNRESOLVED_DIMENSION_REF'', ''UNRESOLVED_UNIT_REF'', ''SCHEMA_VIOLATION'',
     ''INVALID_DOCUMENT'', ''INVALID_MULTIPLICITY'', ''MISSING_MULTIPLICITY'',
     ''UNRESOLVED_TYPE_REF'', ''INVALID_UNIT'', ''UNIT_ON_NON_SCALAR'',
     ''UNKNOWN_CONSTRAINT_KEYWORD'', ''CONSTRAINT_NOT_APPLICABLE'', ''INVALID_PATTERN'',
     ''INVALID_OPERAND'', ''INVALID_DEFAULT_VALUE'', ''INTEGER_OUTSIDE_I128'',
     ''DECIMAL_POLICY_MISSING'', ''DECIMAL_POLICY_CONFLICT'', ''NODES_ON_NON_RECORD'',
     ''UNRESOLVED_RELATIONSHIP_TARGET'', ''INVALID_RELATIONSHIP_SOURCE'',
     ''UNKNOWN_EDGE_CATEGORY'', ''COMPOSITE_CYCLE'', ''DUPLICATE_CLAUSE_ID'',
     ''UNKNOWN_CLAUSE_LANGUAGE'', ''MISSING_SOURCE_SPAN'', ''DANGLING_CLAUSE_REF'',
     ''DUPLICATE_PARAM'', ''DUPLICATE_IDENTITY'']"

text \<open>The entries assigned one by one after the two lists.\<close>

definition extra_entries :: "(string \<times> entry) list" where
  "extra_entries =
    [(''CLAUSE_LANGUAGE_UNCHECKED'',
       \<lparr>code = js ''agent-ix.semantic-ir.CLAUSE_LANGUAGE_UNCHECKED'',
         severity = SevInfo, blocking = False, owner = READER\<rparr>),
     (''CONSTRUCT_MEMBER_UNENFORCED'',
       \<lparr>code = js ''agent-ix.compiler.CONSTRUCT_MEMBER_UNENFORCED'',
         severity = SevInfo, blocking = False, owner = COMPILER\<rparr>),
     (''SYSML_DECLARED_LOSS'',
       \<lparr>code = js ''agent-ix.sysml-target.DECLARED_LOSS'', severity = SevWarning,
         blocking = False, owner = js ''ix://agent-ix/filament-core-data/sysml-target''\<rparr>),
     (''SYSML_UNSUPPORTED_CONSTRUCT'',
       \<lparr>code = js ''agent-ix.sysml-target.UNSUPPORTED_CONSTRUCT'', severity = SevError,
         blocking = True, owner = js ''ix://agent-ix/filament-core-data/sysml-target''\<rparr>),
     (''DIAGNOSTIC_LIMIT_REACHED'',
       advisory_entry (js ''agent-ix.compiler.DIAGNOSTIC_LIMIT_REACHED'') COMPILER)]"

definition compiler_entry :: "string \<Rightarrow> entry" where
  "compiler_entry name = blocking_entry (js (''agent-ix.compiler.'' @ name)) COMPILER"

definition reader_entry :: "string \<Rightarrow> entry" where
  "reader_entry name = blocking_entry (js (''agent-ix.semantic-ir.'' @ name)) READER"

text \<open>Member assignment on the registry object replaces an entry of the same name.\<close>

definition buildRegistry :: "(string \<times> entry) list" where
  "buildRegistry =
     (let compiler = fold (\<lambda>name. AList.update name (compiler_entry name)) COMPILER_CODES [];
          reader = fold (\<lambda>name. AList.update name (reader_entry name)) READER_CODES compiler
      in fold (\<lambda>(name, e). AList.update name e) extra_entries reader)"

definition DIAGNOSTIC_CODES :: "(string \<times> entry) list" where
  "DIAGNOSTIC_CODES = buildRegistry"

record limits =
  maxInputBytes :: nat
  maxDepth :: nat
  maxNodes :: nat
  maxCollectionItems :: nat
  maxDiagnostics :: nat

definition DEFAULT_LIMITS :: limits where
  "DEFAULT_LIMITS = \<lparr>maxInputBytes = 16777216, maxDepth = 128, maxNodes = 100000,
     maxCollectionItems = 10000, maxDiagnostics = 1000\<rparr>"

section \<open>Message fragments\<close>

definition MAX_MESSAGE_FRAGMENT :: nat where
  "MAX_MESSAGE_FRAGMENT = 120"

text \<open>\<open>replace(/\s+/g, " ")\<close>: every run of white space becomes one space.\<close>

fun collapse_spaces :: "jsstr \<Rightarrow> jsstr" where
  "collapse_spaces [] = []"
| "collapse_spaces (c # cs) =
     (if is_js_space c then 32 # collapse_spaces (dropWhile is_js_space cs)
      else c # collapse_spaces cs)"

function drop_points :: "jsstr list \<Rightarrow> jsstr list" where
  "drop_points points =
     (if MAX_MESSAGE_FRAGMENT - 1 < length (concat points) then drop_points (butlast points)
      else points)"
  by pat_completeness auto
termination
proof (relation "measure length")
  fix points :: "jsstr list"
  assume "MAX_MESSAGE_FRAGMENT - 1 < length (concat points)"
  then have "points \<noteq> []" by auto
  then show "(butlast points, points) \<in> measure length" by simp
qed simp

declare drop_points.simps [simp del]

definition fragment :: "jsval \<Rightarrow> jsstr" where
  "fragment v =
     (let t = collapse_spaces (to_text v)
      in if length t \<le> MAX_MESSAGE_FRAGMENT then t
         else concat (drop_points (take (MAX_MESSAGE_FRAGMENT - 1) (code_points t))) @ [0x2026])"

section \<open>Building a diagnostic\<close>

record diag_options =
  o_message :: "jsstr option"
  o_causes :: "diag list"
  o_related :: "jsval list"
  o_locus :: "jsval option"

datatype type_error = NotAnEntry | UnregisteredCode jsstr

definition diagnostic :: "entry option \<Rightarrow> diag_options \<Rightarrow> type_error + diag" where
  "diagnostic en opts =
     (case en of
        None \<Rightarrow> Inl NotAnEntry
      | Some e \<Rightarrow>
          if e \<notin> snd ` set DIAGNOSTIC_CODES then Inl (UnregisteredCode (code e))
          else Inr (Diag (code e) (severity e)
            (case o_message opts of None \<Rightarrow> code e | Some m \<Rightarrow> m) (owner e) (blocking e)
            (o_causes opts) (o_related opts)
            (case o_locus opts of
               None \<Rightarrow> None
             | Some l \<Rightarrow> if truthy l then Some l else None)))"

text \<open>
  The call \<open>diagnostic(DIAGNOSTIC_CODES.NAME, ...)\<close> for a registered name; on any other name
  the code throws, and \<open>diag_named\<close> is not used.
\<close>

definition diag_named ::
  "string \<Rightarrow> jsstr \<Rightarrow> diag list \<Rightarrow> jsval list \<Rightarrow> jsval option \<Rightarrow> diag" where
  "diag_named name message causes related locus =
     (case diagnostic (map_of DIAGNOSTIC_CODES name)
        \<lparr>o_message = Some message, o_causes = causes, o_related = related, o_locus = locus\<rparr> of
        Inr d \<Rightarrow> d
      | Inl _ \<Rightarrow> Diag [] SevError message [] True [] [] None)"

section \<open>Order and limit\<close>

text \<open>\<open>sortKey\<close>, and the comparison of two keys entry by entry.\<close>

definition sortKey :: "diag \<Rightarrow> jsval list" where
  "sortKey d =
     (case d_locus d of
        Some l \<Rightarrow> [Num (Fin 0), get l ''path'', get l ''startLine'', get l ''startColumn'',
          Str (d_code d), Str (d_message d)]
      | None \<Rightarrow> [Num (Fin 1), Str [], Num (Fin 0), Num (Fin 0), Str (d_code d), Str (d_message d)])"

definition byCodePoint_val :: "jsval \<Rightarrow> jsval \<Rightarrow> int" where
  "byCodePoint_val l r = (if js_less l r then -1 else if js_less r l then 1 else 0)"

fun compare_keys :: "jsval list \<Rightarrow> jsval list \<Rightarrow> int" where
  "compare_keys (Num m # as) (b # bs) =
     (if strict_eq (Num m) b then compare_keys as bs else num_sign m (to_number b))"
| "compare_keys (a # as) (b # bs) =
     (if byCodePoint_val a b \<noteq> 0 then byCodePoint_val a b else compare_keys as bs)"
| "compare_keys _ _ = 0"

definition compare_diags :: "diag \<Rightarrow> diag \<Rightarrow> int" where
  "compare_diags l r = compare_keys (sortKey l) (sortKey r)"

definition sortDiagnostics :: "diag list \<Rightarrow> diag list" where
  "sortDiagnostics ds = stable_sort compare_diags ds"

definition applyDiagnosticLimit :: "diag list \<Rightarrow> nat \<Rightarrow> diag list" where
  "applyDiagnosticLimit ds max_count =
     (let sorted_ds = sortDiagnostics ds
      in if length sorted_ds \<le> max_count then sorted_ds
         else take max_count sorted_ds @
           [diag_named ''DIAGNOSTIC_LIMIT_REACHED''
              (js ''diagnostic limit '' @ digits_of (int max_count) @ js '' reached; ''
                 @ digits_of (int (length sorted_ds - max_count))
                 @ js '' further diagnostics were dropped'') [] [] None])"

definition hasBlocking :: "diag list \<Rightarrow> bool" where
  "hasBlocking ds = list_ex d_blocking ds"

section \<open>Lemmas on the registry\<close>

definition ADVISORY_NAMES :: "string list" where
  "ADVISORY_NAMES = [''CLAUSE_LANGUAGE_UNCHECKED'', ''CONSTRUCT_MEMBER_UNENFORCED'',
     ''SYSML_DECLARED_LOSS'', ''DIAGNOSTIC_LIMIT_REACHED'']"

lemma map_of_fold_names:
  "map_of (fold (\<lambda>n. AList.update n (f n)) ns m) k = (if k \<in> set ns then Some (f k) else map_of m k)"
  by (induction ns arbitrary: m) (auto simp: update_conv')

lemma distinct_fold_update:
  "distinct (map fst m) \<Longrightarrow> distinct (map fst (fold (\<lambda>(k, v). AList.update k v) ps m))"
  by (induction ps arbitrary: m) (auto simp: distinct_update split: prod.splits)

lemma distinct_fold_names:
  "distinct (map fst m) \<Longrightarrow> distinct (map fst (fold (\<lambda>n. AList.update n (f n)) ns m))"
  by (induction ns arbitrary: m) (auto simp: distinct_update)

lemma registry_distinct: "distinct (map fst DIAGNOSTIC_CODES)"
  by (simp add: DIAGNOSTIC_CODES_def buildRegistry_def Let_def distinct_fold_update distinct_fold_names)

lemma registry_lookup:
  "map_of DIAGNOSTIC_CODES n =
     (case map_of (rev extra_entries) n of
        Some e \<Rightarrow> Some e
      | None \<Rightarrow>
          if n \<in> set READER_CODES then Some (reader_entry n)
          else if n \<in> set COMPILER_CODES then Some (compiler_entry n)
          else None)"
  by (simp add: DIAGNOSTIC_CODES_def buildRegistry_def Let_def map_of_fold_update map_of_fold_names
      split: option.splits)

lemma registry_mem: "(n, e) \<in> set DIAGNOSTIC_CODES \<longleftrightarrow> map_of DIAGNOSTIC_CODES n = Some e"
  using registry_distinct by (simp add: map_of_eq_Some_iff)

definition extra_names :: "string list" where
  "extra_names = [''CLAUSE_LANGUAGE_UNCHECKED'', ''CONSTRUCT_MEMBER_UNENFORCED'',
     ''SYSML_DECLARED_LOSS'', ''SYSML_UNSUPPORTED_CONSTRUCT'', ''DIAGNOSTIC_LIMIT_REACHED'']"

lemma extra_lookup_None: "map_of (rev extra_entries) n = None \<longleftrightarrow> n \<notin> set extra_names"
  by (auto simp: extra_entries_def extra_names_def)

lemma extra_fresh: "set extra_names \<inter> (set READER_CODES \<union> set COMPILER_CODES) = {}"
  by (simp add: extra_names_def READER_CODES_def COMPILER_CODES_def)

lemma reader_lookup: "n \<in> set READER_CODES \<Longrightarrow> map_of DIAGNOSTIC_CODES n = Some (reader_entry n)"
  using extra_fresh extra_lookup_None [of n] by (auto simp: registry_lookup)

lemma compiler_lookup:
  "n \<in> set COMPILER_CODES \<Longrightarrow> n \<notin> set READER_CODES \<Longrightarrow>
    map_of DIAGNOSTIC_CODES n = Some (compiler_entry n)"
  using extra_fresh extra_lookup_None [of n] by (auto simp: registry_lookup)

lemma registry_cases:
  assumes "(n, e) \<in> set DIAGNOSTIC_CODES"
  obtains (reader) "n \<in> set READER_CODES" "e = reader_entry n"
  | (compiler) "n \<in> set COMPILER_CODES" "n \<notin> set READER_CODES" "e = compiler_entry n"
  | (extra) "(n, e) \<in> set extra_entries"
proof (cases "map_of (rev extra_entries) n")
  case None
  with assms have eq: "(if n \<in> set READER_CODES then Some (reader_entry n)
      else if n \<in> set COMPILER_CODES then Some (compiler_entry n) else None) = Some e"
    by (simp add: registry_mem registry_lookup)
  then consider (r) "n \<in> set READER_CODES" | (c) "n \<notin> set READER_CODES" "n \<in> set COMPILER_CODES"
    by (metis option.distinct(1))
  then show ?thesis
  proof cases
    case r
    with eq show ?thesis by (intro reader) simp_all
  next
    case c
    with eq show ?thesis by (intro compiler) simp_all
  qed
next
  case (Some e')
  with assms have "(n, e) \<in> set (rev extra_entries)"
    by (auto simp: registry_mem registry_lookup dest: map_of_SomeD)
  then show ?thesis by (intro extra) simp
qed

lemma code_of_entries [simp]:
  "code (reader_entry n) = js (''agent-ix.semantic-ir.'' @ n)"
  "code (compiler_entry n) = js (''agent-ix.compiler.'' @ n)"
  "blocking (reader_entry n)" "blocking (compiler_entry n)"
  by (simp_all add: reader_entry_def compiler_entry_def blocking_entry_def)

text \<open>The code a name is registered under: a namespace followed by the name.\<close>

definition namespaced_code :: "string \<Rightarrow> string" where
  "namespaced_code n =
     (if n \<in> set READER_CODES \<or> n = ''CLAUSE_LANGUAGE_UNCHECKED'' then ''agent-ix.semantic-ir.'' @ n
      else if n = ''SYSML_DECLARED_LOSS'' \<or> n = ''SYSML_UNSUPPORTED_CONSTRUCT''
        then ''agent-ix.sysml-target.'' @ drop 6 n
      else ''agent-ix.compiler.'' @ n)"

lemma extra_code:
  "(n, e) \<in> set extra_entries \<Longrightarrow> code e = js (namespaced_code n)"
proof -
  have not_reader: "\<forall>x \<in> set extra_names. x \<notin> set READER_CODES"
    using extra_fresh by blast
  have "list_all (\<lambda>(n, e). code e = js (namespaced_code n)) extra_entries"
    using not_reader
    by (simp add: extra_entries_def extra_names_def namespaced_code_def advisory_entry_def)
  then show "(n, e) \<in> set extra_entries \<Longrightarrow> code e = js (namespaced_code n)"
    by (auto simp: list_all_iff)
qed

lemma registry_code:
  assumes "(n, e) \<in> set DIAGNOSTIC_CODES"
  shows "code e = js (namespaced_code n)"
  using assms
proof (cases rule: registry_cases)
  case compiler
  then have "n \<notin> set extra_names" using extra_fresh by blast
  with compiler show ?thesis
    by (simp add: namespaced_code_def extra_names_def)
qed (simp_all add: namespaced_code_def extra_code)

text \<open>A code determines the name it is registered under.\<close>

lemma namespaced_code_inject:
  assumes eq: "namespaced_code n = namespaced_code m"
  shows "n = m"
proof -
  let ?r = "\<lambda>n. n \<in> set READER_CODES \<or> n = ''CLAUSE_LANGUAGE_UNCHECKED''"
  let ?s = "\<lambda>n. n = ''SYSML_DECLARED_LOSS'' \<or> n = ''SYSML_UNSUPPORTED_CONSTRUCT''"
  have form: "(?r x \<and> namespaced_code x = ''agent-ix.semantic-ir.'' @ x) \<or>
      (?s x \<and> namespaced_code x = ''agent-ix.sysml-target.'' @ drop 6 x) \<or>
      namespaced_code x = ''agent-ix.compiler.'' @ x" for x
    unfolding namespaced_code_def by (cases "?r x"; cases "?s x") (simp_all only: if_True if_False simp_thms)
  have apart: "''agent-ix.semantic-ir.'' @ a \<noteq> ''agent-ix.compiler.'' @ b"
    "''agent-ix.semantic-ir.'' @ a \<noteq> ''agent-ix.sysml-target.'' @ b"
    "''agent-ix.compiler.'' @ a \<noteq> ''agent-ix.sysml-target.'' @ b" for a b
    by simp_all
  have sysml: "?s n \<Longrightarrow> ?s m \<Longrightarrow> drop 6 n = drop 6 m \<Longrightarrow> n = m"
    by (elim disjE) simp_all
  from form [of n] form [of m] eq apart sysml show ?thesis
    by (metis same_append_eq)
qed

lemma registry_code_inject:
  assumes "(n, e) \<in> set DIAGNOSTIC_CODES" and "(m, f) \<in> set DIAGNOSTIC_CODES" and "code e = code f"
  shows "n = m"
proof (rule namespaced_code_inject)
  have "js (namespaced_code n) = js (namespaced_code m)"
    using registry_code [OF assms(1)] registry_code [OF assms(2)] assms(3) by (simp only:)
  then show "namespaced_code n = namespaced_code m" by (simp only: js_inject)
qed

lemma registry_blocking:
  assumes "(n, e) \<in> set DIAGNOSTIC_CODES"
  shows "blocking e \<longleftrightarrow> n \<notin> set ADVISORY_NAMES"
proof -
  have ex: "set ADVISORY_NAMES \<subseteq> set extra_names"
    by (auto simp: ADVISORY_NAMES_def extra_names_def)
  show ?thesis
    using assms
  proof (cases rule: registry_cases)
    case extra
    have "list_all (\<lambda>(n, e). blocking e \<longleftrightarrow> n \<notin> set ADVISORY_NAMES) extra_entries"
      by (simp add: extra_entries_def ADVISORY_NAMES_def advisory_entry_def)
    with extra show ?thesis by (auto simp: list_all_iff)
  qed (use extra_fresh ex in auto)
qed

lemma diagnostic_registered:
  assumes "map_of DIAGNOSTIC_CODES n = Some e"
  shows "diagnostic (map_of DIAGNOSTIC_CODES n) opts =
    Inr (Diag (code e) (severity e) (case o_message opts of None \<Rightarrow> code e | Some m \<Rightarrow> m)
      (owner e) (blocking e) (o_causes opts) (o_related opts)
      (case o_locus opts of None \<Rightarrow> None | Some l \<Rightarrow> if truthy l then Some l else None))"
proof -
  have "e \<in> snd ` set DIAGNOSTIC_CODES"
    using map_of_SomeD [OF assms] by (force simp: image_iff)
  with assms show ?thesis by (simp add: diagnostic_def)
qed

text \<open>What \<open>diag_named\<close> builds for a reader code; the form the reader's checks use.\<close>

lemma diag_named_reader:
  "n \<in> set READER_CODES \<Longrightarrow>
    diag_named n m cs rs l =
      Diag (js (''agent-ix.semantic-ir.'' @ n)) SevError m READER True cs rs
        (case l of None \<Rightarrow> None | Some v \<Rightarrow> if truthy v then Some v else None)"
  by (simp add: diag_named_def diagnostic_registered [OF reader_lookup])
    (simp add: reader_entry_def blocking_entry_def)

lemma diag_named_compiler:
  "n \<in> set COMPILER_CODES \<Longrightarrow> n \<notin> set READER_CODES \<Longrightarrow>
    diag_named n m cs rs l =
      Diag (js (''agent-ix.compiler.'' @ n)) SevError m COMPILER True cs rs
        (case l of None \<Rightarrow> None | Some v \<Rightarrow> if truthy v then Some v else None)"
  by (simp add: diag_named_def diagnostic_registered [OF compiler_lookup])
    (simp add: compiler_entry_def blocking_entry_def)

lemma limit_reached_entry:
  "map_of DIAGNOSTIC_CODES ''DIAGNOSTIC_LIMIT_REACHED'' =
    Some (advisory_entry (js ''agent-ix.compiler.DIAGNOSTIC_LIMIT_REACHED'') COMPILER)"
  by (simp add: registry_lookup extra_entries_def)

lemma diag_named_limit_reached:
  "d_code (diag_named ''DIAGNOSTIC_LIMIT_REACHED'' m cs rs l) =
      js ''agent-ix.compiler.DIAGNOSTIC_LIMIT_REACHED'' \<and>
   \<not> d_blocking (diag_named ''DIAGNOSTIC_LIMIT_REACHED'' m cs rs l) \<and>
   d_message (diag_named ''DIAGNOSTIC_LIMIT_REACHED'' m cs rs l) = m"
  by (simp add: diag_named_def diagnostic_registered [OF limit_reached_entry] advisory_entry_def)

section \<open>Lemmas on fragments\<close>

lemma drop_points_prefix: "\<exists>n. drop_points ps = take n ps"
proof (induction ps rule: drop_points.induct)
  case (1 ps)
  show ?case
  proof (cases "MAX_MESSAGE_FRAGMENT - 1 < length (concat ps)")
    case True
    with 1 obtain n where "drop_points (butlast ps) = take n (butlast ps)" by blast
    with True have "drop_points ps = take (min n (length ps - 1)) ps"
      by (simp add: drop_points.simps [of ps] butlast_conv_take min.commute)
    then show ?thesis ..
  next
    case False
    then have "drop_points ps = take (length ps) ps" by (simp add: drop_points.simps [of ps])
    then show ?thesis ..
  qed
qed

lemma drop_points_length: "length (concat (drop_points ps)) \<le> MAX_MESSAGE_FRAGMENT - 1"
proof (induction ps rule: drop_points.induct)
  case (1 ps)
  then show ?case
    by (cases "MAX_MESSAGE_FRAGMENT - 1 < length (concat ps)") (simp_all add: drop_points.simps [of ps])
qed

lemma space_not_surrogate: "is_js_space c \<Longrightarrow> \<not> high_surrogate c \<and> \<not> low_surrogate c"
  by (auto simp: is_js_space_def high_surrogate_def low_surrogate_def word_le_def)

lemma utf16_ok_dropWhile_space: "utf16_ok s \<Longrightarrow> utf16_ok (dropWhile is_js_space s)"
  by (induction s) (auto dest: space_not_surrogate)

lemma utf16_ok_space: "utf16_ok (32 # s) = utf16_ok s"
  by (simp add: high_surrogate_def low_surrogate_def word_le_def)

lemma utf16_ok_collapse: "utf16_ok s \<Longrightarrow> utf16_ok (collapse_spaces s)"
proof (induction s rule: length_induct)
  case (1 s)
  note IH = "1.IH" [rule_format]
  show ?case
  proof (cases s)
    case (Cons c cs)
    consider (space) "is_js_space c" | (high) "\<not> is_js_space c" "high_surrogate c"
      | (plain) "\<not> is_js_space c" "\<not> high_surrogate c"
      by blast
    then show ?thesis
    proof cases
      case space
      then have "utf16_ok (dropWhile is_js_space cs)"
        using "1.prems" space_not_surrogate [of c]
        by (auto simp: Cons intro: utf16_ok_dropWhile_space)
      then have "utf16_ok (collapse_spaces (dropWhile is_js_space cs))"
        by (intro IH) (simp_all add: Cons length_dropWhile_Suc)
      with space show ?thesis by (simp add: Cons utf16_ok_space del: utf16_ok.simps)
    next
      case high
      with "1.prems" obtain d ds where cs: "cs = d # ds" and d: "low_surrogate d" "utf16_ok ds"
        by (auto simp: Cons split: list.splits)
      have "\<not> is_js_space d" using d(1) space_not_surrogate by blast
      moreover have "utf16_ok (collapse_spaces ds)"
        using d(2) by (intro IH) (simp_all add: Cons cs)
      ultimately show ?thesis using high d(1) by (simp add: Cons cs)
    next
      case plain
      with "1.prems" have "utf16_ok (collapse_spaces cs)" "\<not> low_surrogate c"
        by (auto simp: Cons intro: IH)
      with plain show ?thesis by (simp add: Cons)
    qed
  qed simp
qed

lemma utf16_ok_snoc: "utf16_ok s \<Longrightarrow> \<not> high_surrogate c \<Longrightarrow> \<not> low_surrogate c \<Longrightarrow> utf16_ok (s @ [c])"
  by (induction s rule: utf16_ok.induct) (auto split: list.splits if_splits)

section \<open>Lemmas on the order of a report\<close>

text \<open>
  A diagnostic located as the compiler locates it: a locus with a string path and numeric start.
\<close>

definition located_ok :: "diag \<Rightarrow> bool" where
  "located_ok d \<longleftrightarrow>
     (case d_locus d of
        None \<Rightarrow> True
      | Some l \<Rightarrow> (\<exists>p a b. get l ''path'' = Str p \<and> get l ''startLine'' = Num (Fin a) \<and>
          get l ''startColumn'' = Num (Fin b)))"

definition text_at :: "jsval \<Rightarrow> jsstr" where
  "text_at v = (case v of Str s \<Rightarrow> s | _ \<Rightarrow> [])"

definition rat_at :: "jsval \<Rightarrow> rat" where
  "rat_at v = (case v of Num (Fin q) \<Rightarrow> q | _ \<Rightarrow> 0)"

text \<open>The order the specification names: located first, then path, line, column, code, message.\<close>

definition report_key :: "diag \<Rightarrow> bool \<times> jsstr \<times> rat \<times> rat \<times> jsstr \<times> jsstr" where
  "report_key d =
     (case d_locus d of
        Some l \<Rightarrow> (False, text_at (get l ''path''), rat_at (get l ''startLine''),
          rat_at (get l ''startColumn''), d_code d, d_message d)
      | None \<Rightarrow> (True, [], 0, 0, d_code d, d_message d))"

lemma compare_keys_num:
  "compare_keys (Num (Fin p) # as) (Num (Fin q) # bs) =
     (if p < q then -1 else if q < p then 1 else compare_keys as bs)"
  by (simp add: to_number_def num_sign_def)

lemma compare_keys_str:
  "compare_keys (Str p # as) (Str q # bs) =
     (if p < q then -1 else if q < p then 1 else compare_keys as bs)"
  by (simp add: byCodePoint_val_def)

lemma by_order_pair:
  "by_order (a, b) (c, d) = (if a < c then -1 else if c < a then 1 else by_order b d)"
  by (auto simp: by_order_def less_prod_simp)

lemma sortKey_located:
  "located_ok d \<Longrightarrow> \<exists>f p a b.
    sortKey d = [Num (Fin (if f then 1 else 0)), Str p, Num (Fin a), Num (Fin b),
      Str (d_code d), Str (d_message d)] \<and>
    report_key d = (f, p, a, b, d_code d, d_message d)"
proof (cases "d_locus d")
  case None
  then have "sortKey d = [Num (Fin (if True then 1 else 0)), Str [], Num (Fin 0), Num (Fin 0),
        Str (d_code d), Str (d_message d)]"
      and "report_key d = (True, [], 0, 0, d_code d, d_message d)"
    by (simp_all add: sortKey_def report_key_def)
  then show ?thesis by blast
next
  case (Some l)
  assume "located_ok d"
  with Some obtain p a b where "get l ''path'' = Str p" "get l ''startLine'' = Num (Fin a)"
      "get l ''startColumn'' = Num (Fin b)"
    by (auto simp: located_ok_def)
  with Some have "sortKey d = [Num (Fin (if False then 1 else 0)), Str p, Num (Fin a), Num (Fin b),
        Str (d_code d), Str (d_message d)]"
      and "report_key d = (False, p, a, b, d_code d, d_message d)"
    by (simp_all add: sortKey_def report_key_def text_at_def rat_at_def)
  then show ?thesis by blast
qed

lemma compare_diags_key:
  assumes "located_ok a" and "located_ok b"
  shows "compare_diags a b = by_order (report_key a) (report_key b)"
proof -
  from sortKey_located [OF assms(1)] obtain f p m n where
    a: "sortKey a = [Num (Fin (if f then 1 else 0)), Str p, Num (Fin m), Num (Fin n),
      Str (d_code a), Str (d_message a)]" "report_key a = (f, p, m, n, d_code a, d_message a)"
    by blast
  from sortKey_located [OF assms(2)] obtain f' p' m' n' where
    b: "sortKey b = [Num (Fin (if f' then 1 else 0)), Str p', Num (Fin m'), Num (Fin n'),
      Str (d_code b), Str (d_message b)]" "report_key b = (f', p', m', n', d_code b, d_message b)"
    by blast
  show ?thesis
    unfolding compare_diags_def a b by_order_pair compare_keys_num compare_keys_str
    by (cases f; cases f') (simp_all add: by_order_def)
qed

lemma sortDiagnostics_key:
  "\<forall>d \<in> set ds. located_ok d \<Longrightarrow>
    sortDiagnostics ds = stable_sort (\<lambda>a b. by_order (report_key a) (report_key b)) ds"
  unfolding sortDiagnostics_def
  by (rule stable_sort_cong) (simp add: compare_diags_key)

lemma report_key_law: "comparator_law (\<lambda>a b. by_order (report_key a) (report_key b))"
  by (rule comparator_law_key) (rule orders.comparator_law_axioms)

section \<open>Properties\<close>

text \<open>
  The registry is closed and unambiguous: a registered name builds a diagnostic that carries
  its own namespaced code, blocking unless it is one of the four advisories, no two names share a
  code, and an entry that is not in the registry is refused.
\<close>

lemma diagnostic_registry:
  "(n, e) \<in> set DIAGNOSTIC_CODES \<Longrightarrow>
    (\<exists>d. diagnostic (map_of DIAGNOSTIC_CODES n) opts = Inr d \<and>
        d_code d = js (namespaced_code n) \<and>
        (d_blocking d \<longleftrightarrow> n \<notin> set ADVISORY_NAMES)) \<and>
    (\<forall>(m, f) \<in> set DIAGNOSTIC_CODES. code f = code e \<longrightarrow> m = n) \<and>
    (\<forall>f. f \<notin> snd ` set DIAGNOSTIC_CODES \<longrightarrow>
        diagnostic (Some f) opts = Inl (UnregisteredCode (code f)))"
proof -
  assume mem: "(n, e) \<in> set DIAGNOSTIC_CODES"
  then have "map_of DIAGNOSTIC_CODES n = Some e" by (simp only: registry_mem)
  note built = diagnostic_registered [OF this, of opts]
  have "\<exists>d. diagnostic (map_of DIAGNOSTIC_CODES n) opts = Inr d \<and>
      d_code d = js (namespaced_code n) \<and> (d_blocking d \<longleftrightarrow> n \<notin> set ADVISORY_NAMES)"
    by (rule exI, rule conjI [OF built])
      (simp only: diag.sel registry_code [OF mem] registry_blocking [OF mem] simp_thms)
  moreover have "\<forall>(m, f) \<in> set DIAGNOSTIC_CODES. code f = code e \<longrightarrow> m = n"
    using registry_code_inject [OF _ mem] by blast
  moreover have "\<forall>f. f \<notin> snd ` set DIAGNOSTIC_CODES \<longrightarrow>
      diagnostic (Some f) opts = Inl (UnregisteredCode (code f))"
    by (simp add: diagnostic_def)
  ultimately show ?thesis by (intro conjI)
qed

lemma diagnostic_registry_witness:
  "\<exists>d. diagnostic (map_of DIAGNOSTIC_CODES ''INVALID_OPERAND'')
        \<lparr>o_message = None, o_causes = [], o_related = [], o_locus = None\<rparr> = Inr d \<and>
      d_code d = js (namespaced_code ''INVALID_OPERAND'') \<and>
      (d_blocking d \<longleftrightarrow> ''INVALID_OPERAND'' \<notin> set ADVISORY_NAMES)"
proof -
  have "''INVALID_OPERAND'' \<in> set READER_CODES" by (simp add: READER_CODES_def)
  then have "(''INVALID_OPERAND'', reader_entry ''INVALID_OPERAND'') \<in> set DIAGNOSTIC_CODES"
    unfolding registry_mem by (rule reader_lookup)
  from diagnostic_registry [OF this] show ?thesis by (rule conjunct1)
qed

text \<open>
  \<open>fragment\<close> never yields more than 120 code units, and it never splits a surrogate pair:
  text that is well-formed UTF-16 stays so.
\<close>

lemma fragment_bounded:
  "length (fragment v) \<le> 120 \<and> (utf16_ok (to_text v) \<longrightarrow> utf16_ok (fragment v))"
proof -
  let ?t = "collapse_spaces (to_text v)"
  let ?ps = "take (MAX_MESSAGE_FRAGMENT - 1) (code_points ?t)"
  obtain k where k: "drop_points ?ps = take k ?ps" using drop_points_prefix by blast
  have prefix: "concat (drop_points ?ps) =
      concat (take (min k (MAX_MESSAGE_FRAGMENT - 1)) (code_points ?t))"
    unfolding k by simp
  have "utf16_ok (concat (drop_points ?ps) @ [0x2026])" if "utf16_ok (to_text v)"
    unfolding prefix
    by (rule utf16_ok_snoc)
      (use that in \<open>auto intro: utf16_ok_prefix utf16_ok_collapse
        simp: high_surrogate_def low_surrogate_def word_le_def\<close>)
  moreover have "length (concat (drop_points ?ps)) \<le> 119"
    using drop_points_length [of ?ps] by (simp add: MAX_MESSAGE_FRAGMENT_def)
  ultimately show ?thesis
    by (auto simp: fragment_def Let_def MAX_MESSAGE_FRAGMENT_def intro: utf16_ok_collapse)
qed

lemma fragment_bounded_witness:
  "length (fragment (Str [65, 32, 32])) \<le> 120 \<and> utf16_ok (fragment (Str [65, 32, 32]))"
  using fragment_bounded [of "Str [65, 32, 32]"]
  by (simp add: high_surrogate_def low_surrogate_def word_le_nat_alt)

text \<open>
  The report does not depend on the order in which analysis found the defects: for located
  diagnostics that the specified order tells apart, any permutation of the input gives the same
  limited report.
\<close>

lemma applyDiagnosticLimit_order_independent:
  assumes "mset ds = mset es"
    and "\<forall>d \<in> set ds. located_ok d"
    and "inj_on report_key (set ds)"
  shows "applyDiagnosticLimit ds n = applyDiagnosticLimit es n"
proof -
  have set_eq: "set ds = set es" using assms(1) by (rule mset_eq_setD)
  have "sortDiagnostics ds = sortDiagnostics es"
    using assms set_eq
    by (simp add: sortDiagnostics_key)
      (rule comparator_law.stable_sort_perm [OF report_key_law], auto dest: inj_onD)
  then show ?thesis by (simp only: applyDiagnosticLimit_def)
qed

definition located_example :: "string \<Rightarrow> nat \<Rightarrow> diag" where
  "located_example name at_line =
     Diag (js name) SevError [] [] True [] []
       (Some (Obj [(js ''path'', Str (js ''a.json'')), (js ''startLine'', Num (Fin (of_nat at_line))),
         (js ''startColumn'', Num (Fin 1))]))"

lemma applyDiagnosticLimit_order_independent_witness:
  "applyDiagnosticLimit [located_example ''B'' 2, located_example ''A'' 1] 5 =
   applyDiagnosticLimit [located_example ''A'' 1, located_example ''B'' 2] 5"
  by (rule applyDiagnosticLimit_order_independent)
    (simp_all add: located_example_def located_ok_def report_key_def rat_at_def)

text \<open>
  C3. Truncation keeps the least diagnostics. Below the limit the report is the input in order; over
  it, the first \<open>n\<close> entries and the dropped ones together are the input, the kept ones are in order
  and none of them sorts after a dropped one, and the last entry is the non-blocking notice whose
  message gives the limit and the number of the dropped ones in decimal. The order is that of the
  code: located diagnostics first, by path, line, column, code and message, texts compared by their
  UTF-16 code units.
\<close>

theorem applyDiagnosticLimit_keeps_least:
  assumes "\<forall>d \<in> set ds. located_ok d"
  shows "if length ds \<le> n
    then mset (applyDiagnosticLimit ds n) = mset ds \<and> sorted (map report_key (applyDiagnosticLimit ds n))
    else \<exists>kept dropped notice. applyDiagnosticLimit ds n = kept @ [notice] \<and> length kept = n \<and>
      mset (kept @ dropped) = mset ds \<and> sorted (map report_key kept) \<and>
      list_all (\<lambda>a. list_all (\<lambda>b. report_key a \<le> report_key b) dropped) kept \<and>
      d_code notice = js ''agent-ix.compiler.DIAGNOSTIC_LIMIT_REACHED'' \<and> \<not> d_blocking notice \<and>
      d_message notice = js ''diagnostic limit '' @ nat_text n @ js '' reached; '' @
        nat_text (length dropped) @ js '' further diagnostics were dropped''"
proof -
  let ?s = "sortDiagnostics ds"
  have key: "?s = stable_sort (\<lambda>a b. by_order (report_key a) (report_key b)) ds"
    using assms by (rule sortDiagnostics_key)
  have sorted: "sorted (map report_key ?s)"
    using comparator_law.sorted_stable_sort [OF report_key_law, of ds]
    by (simp add: key sorted_map)
  have len: "length ?s = length ds" by (simp add: sortDiagnostics_def)
  show ?thesis
  proof (cases "length ds \<le> n")
    case True
    then show ?thesis using sorted by (simp add: applyDiagnosticLimit_def len) (simp add: sortDiagnostics_def)
  next
    case False
    let ?m = "js ''diagnostic limit '' @ nat_text n @ js '' reached; '' @ nat_text (length (drop n ?s)) @
      js '' further diagnostics were dropped''"
    define notice where "notice = diag_named ''DIAGNOSTIC_LIMIT_REACHED'' ?m [] [] None"
    have parts: "applyDiagnosticLimit ds n = take n ?s @ [notice]" "length (take n ?s) = n"
      "mset (take n ?s @ drop n ?s) = mset ds" "sorted (map report_key (take n ?s))"
      "list_all (\<lambda>a. list_all (\<lambda>b. report_key a \<le> report_key b) (drop n ?s)) (take n ?s)"
      "d_code notice = js ''agent-ix.compiler.DIAGNOSTIC_LIMIT_REACHED''" "\<not> d_blocking notice"
      "d_message notice = ?m"
    proof -
      show "applyDiagnosticLimit ds n = take n ?s @ [notice]" "length (take n ?s) = n"
        using False len by (simp_all add: applyDiagnosticLimit_def Let_def notice_def nat_text_def)
      show "mset (take n ?s @ drop n ?s) = mset ds" by (simp add: sortDiagnostics_def)
      show "sorted (map report_key (take n ?s))" using sorted by (simp add: take_map [symmetric] sorted_wrt_take)
      show "list_all (\<lambda>a. list_all (\<lambda>b. report_key a \<le> report_key b) (drop n ?s)) (take n ?s)"
        unfolding list_all_iff key
        using comparator_law.take_is_least [OF report_key_law, of _ n ds] by auto
    qed (simp_all add: notice_def diag_named_limit_reached)
    have "\<exists>kept dropped notice. applyDiagnosticLimit ds n = kept @ [notice] \<and> length kept = n \<and>
      mset (kept @ dropped) = mset ds \<and> sorted (map report_key kept) \<and>
      list_all (\<lambda>a. list_all (\<lambda>b. report_key a \<le> report_key b) dropped) kept \<and>
      d_code notice = js ''agent-ix.compiler.DIAGNOSTIC_LIMIT_REACHED'' \<and> \<not> d_blocking notice \<and>
      d_message notice = js ''diagnostic limit '' @ nat_text n @ js '' reached; '' @
        nat_text (length dropped) @ js '' further diagnostics were dropped''"
      by (intro exI conjI) (rule parts)+
    with False show ?thesis by (simp only: if_False)
  qed
qed

definition limited_example :: "diag list" where
  "limited_example = [located_example ''B'' 2, located_example ''A'' 1]"

theorem applyDiagnosticLimit_keeps_least_witness:
  "\<exists>kept dropped notice. applyDiagnosticLimit limited_example 1 = kept @ [notice] \<and>
      mset (kept @ dropped) = mset limited_example \<and>
      list_all (\<lambda>a. list_all (\<lambda>b. report_key a \<le> report_key b) dropped) kept \<and>
      d_message notice = js ''diagnostic limit '' @ nat_text 1 @ js '' reached; '' @
        nat_text (length dropped) @ js '' further diagnostics were dropped''"
proof -
  have "\<forall>d \<in> set limited_example. located_ok d"
    by (simp add: limited_example_def located_example_def located_ok_def)
  from applyDiagnosticLimit_keeps_least [OF this, of 1] show ?thesis
    by (auto simp: limited_example_def)
qed

end
