(* ===== verification/Canonical.thy ===== *)
theory Canonical
  imports Diagnostics
begin

text \<open>
  \<open>src/src/compiler/packages/canonical.mjs\<close>, the RFC 8785 canonical form with
  identity-sorted sets, and \<open>src/src/compiler/ir/normalize.mjs\<close>, the normalized form of a
  Semantic IR document built on it. The exceptions the canonicaliser throws are the left values of
  a sum. \<open>canon_form\<close> is the specification: the value with its members sorted, its set-valued
  arrays sorted by identity and its undefined members dropped; \<open>render\<close> writes a value down.
\<close>

datatype canon_error =
    CanonicalLimit nat
  | UnpairedSurrogate jsstr
  | NonFinite jsnum

section \<open>\<open>JSON.stringify\<close> of a string\<close>

definition hex_unit :: "int \<Rightarrow> 16 word" where
  "hex_unit d = (if d < 10 then word_of_int (48 + d) else word_of_int (87 + d))"

definition unicode_escape :: "16 word \<Rightarrow> jsstr" where
  "unicode_escape c =
     (let n = uint c
      in [92, 117, hex_unit (n div 4096), hex_unit (n div 256 mod 16), hex_unit (n div 16 mod 16),
          hex_unit (n mod 16)])"

definition escape_unit :: "16 word \<Rightarrow> jsstr" where
  "escape_unit c =
     (if c = 34 then [92, 34]
      else if c = 92 then [92, 92]
      else if c = 8 then [92, 98]
      else if c = 9 then [92, 116]
      else if c = 10 then [92, 110]
      else if c = 12 then [92, 102]
      else if c = 13 then [92, 114]
      else if c < 32 then unicode_escape c
      else [c])"

text \<open>A surrogate that belongs to no pair is escaped (well-formed \<open>JSON.stringify\<close>).\<close>

fun quote_body :: "jsstr \<Rightarrow> jsstr" where
  "quote_body [] = []"
| "quote_body [c] = (if high_surrogate c \<or> low_surrogate c then unicode_escape c else escape_unit c)"
| "quote_body (c # d # ds) =
     (if high_surrogate c \<and> low_surrogate d then c # d # quote_body ds
      else if high_surrogate c \<or> low_surrogate c then unicode_escape c @ quote_body (d # ds)
      else escape_unit c @ quote_body (d # ds))"

definition quote :: "jsstr \<Rightarrow> jsstr" where
  "quote s = [34] @ quote_body s @ [34]"

text \<open>\<open>renderString\<close> refuses a string with an unpaired surrogate before it stringifies.\<close>

definition renderString :: "jsstr \<Rightarrow> jsstr \<Rightarrow> canon_error + jsstr" where
  "renderString s path = (if utf16_ok s then Inr (quote s) else Inl (UnpairedSurrogate path))"

section \<open>The canonicaliser\<close>

definition identity_key :: "jsval \<Rightarrow> jsstr" where
  "identity_key v =
     (if is_object v then to_text (coalesce (get v ''identity'') (Str [])) else to_text v)"

lemma size_list_filter_less [termination_simp]: "size_list s (filter P xs) \<le> size_list s xs"
  by (induction xs) auto

function (sequential)
      canon_walk :: "jsstr list \<Rightarrow> nat \<Rightarrow> jsval \<Rightarrow> jsstr \<Rightarrow> nat \<Rightarrow> canon_error + jsstr"
  and canon_items :: "jsstr list \<Rightarrow> nat \<Rightarrow> jsval list \<Rightarrow> jsstr \<Rightarrow> nat \<Rightarrow> canon_error + jsstr list"
  and canon_members ::
    "jsstr list \<Rightarrow> nat \<Rightarrow> (jsstr \<times> jsval) list \<Rightarrow> jsstr \<Rightarrow> nat \<Rightarrow> canon_error + jsstr list"
where
  "canon_walk sets maxd node path depth =
     (if maxd < depth then Inl (CanonicalLimit depth)
      else (case node of
          Arr xs \<Rightarrow>
            (case canon_items sets maxd
                (if path \<in> set sets then sort_on identity_key xs else xs)
                (path @ js ''/*'') (Suc depth) of
               Inl e \<Rightarrow> Inl e
             | Inr ts \<Rightarrow> Inr (js ''['' @ join (js '','') ts @ js '']''))
        | Obj ms \<Rightarrow>
            (case canon_members sets maxd (sort_on fst (filter (\<lambda>m. snd m \<noteq> Undefined) ms))
                path (Suc depth) of
               Inl e \<Rightarrow> Inl e
             | Inr ts \<Rightarrow> Inr (js ''{'' @ join (js '','') ts @ js ''}''))
        | Num n \<Rightarrow> if num_is_finite n then Inr (num_text n) else Inl (NonFinite n)
        | Str s \<Rightarrow> renderString s path
        | Bool b \<Rightarrow> Inr (if b then js ''true'' else js ''false'')
        | _ \<Rightarrow> Inr (js ''null'')))"
| "canon_items sets maxd [] path depth = Inr []"
| "canon_items sets maxd (x # xs) path depth =
     (case canon_walk sets maxd x path depth of
        Inl e \<Rightarrow> Inl e
      | Inr t \<Rightarrow> (case canon_items sets maxd xs path depth of Inl e \<Rightarrow> Inl e | Inr ts \<Rightarrow> Inr (t # ts)))"
| "canon_members sets maxd [] path depth = Inr []"
| "canon_members sets maxd ((k, v) # ms) path depth =
     (case renderString k (path @ js ''/'' @ k) of
        Inl e \<Rightarrow> Inl e
      | Inr kt \<Rightarrow>
          (case canon_walk sets maxd v (path @ js ''/'' @ k) depth of
             Inl e \<Rightarrow> Inl e
           | Inr vt \<Rightarrow>
               (case canon_members sets maxd ms path depth of
                  Inl e \<Rightarrow> Inl e
                | Inr ts \<Rightarrow> Inr ((kt @ js '':'' @ vt) # ts))))"
  by pat_completeness auto
termination
  by (relation "measure (\<lambda>x. case x of
        Inl (_, _, v, _) \<Rightarrow> size v
      | Inr (Inl (_, _, xs, _)) \<Rightarrow> size_list size xs
      | Inr (Inr (_, _, ms, _)) \<Rightarrow> size_list (size_prod (\<lambda>_. 0) size) ms)")
    (auto simp: less_Suc_eq_le intro: size_list_filter_less)

declare canon_walk.simps [simp del]

definition canonicalize_with :: "jsstr list \<Rightarrow> nat \<Rightarrow> jsval \<Rightarrow> canon_error + jsstr" where
  "canonicalize_with sets maxd v = canon_walk sets maxd v [] 0"

text \<open>\<open>canonicalize(value)\<close> with no options.\<close>

definition canonicalize :: "jsval \<Rightarrow> canon_error + jsstr" where
  "canonicalize v = canonicalize_with [] (maxDepth DEFAULT_LIMITS) v"

section \<open>The normalized form of an IR document\<close>

definition IDENTITY_SETS :: "jsstr list" where
  "IDENTITY_SETS = map js
    [''/types'', ''/types/*/variants'', ''/types/*/constraints'', ''/types/*/relationships'',
     ''/types/*/operations'', ''/types/*/clauses'', ''/types/*/extensions'',
     ''/types/*/fields/*/extensions'', ''/types/*/operations/*/params/*/extensions'',
     ''/occurrences'', ''/extensions'']"

text \<open>\<open>options\<close> may replace the sets and the depth bound.\<close>

definition canonicalIr :: "jsstr list option \<Rightarrow> nat option \<Rightarrow> jsval \<Rightarrow> canon_error + jsstr" where
  "canonicalIr sets maxd document =
     canonicalize_with (case sets of None \<Rightarrow> IDENTITY_SETS | Some s \<Rightarrow> s)
       (case maxd of None \<Rightarrow> maxDepth DEFAULT_LIMITS | Some d \<Rightarrow> d) document"

text \<open>Member assignment on an object: in place, or appended.\<close>

definition set_member :: "string \<Rightarrow> jsval \<Rightarrow> jsval \<Rightarrow> jsval" where
  "set_member k w v = (case v of Obj ms \<Rightarrow> Obj (AList.update (js k) w ms) | _ \<Rightarrow> v)"

text \<open>The update of one member of an object that has it, in place.\<close>

definition map_member :: "string \<Rightarrow> (jsval \<Rightarrow> jsval) \<Rightarrow> jsval \<Rightarrow> jsval" where
  "map_member k f v =
     (if get v k = Undefined then v else set_member k (f (get v k)) v)"

text \<open>A loop over \<open>asArray\<close> that mutates the object members of an array.\<close>

definition map_objects :: "(jsval \<Rightarrow> jsval) \<Rightarrow> jsval \<Rightarrow> jsval" where
  "map_objects f v =
     (case v of Arr xs \<Rightarrow> Arr (map (\<lambda>x. if is_object x then f x else x) xs) | _ \<Rightarrow> v)"

definition materialize :: "jsval \<Rightarrow> jsval" where
  "materialize field = set_member ''nullable'' (Bool (get field ''nullable'' = Bool True)) field"

definition materialize_operation :: "jsval \<Rightarrow> jsval" where
  "materialize_operation operation = map_member ''params'' (map_objects materialize) operation"

definition materialize_definition :: "jsval \<Rightarrow> jsval" where
  "materialize_definition d =
     map_member ''operations'' (map_objects materialize_operation)
       (map_member ''fields'' (map_objects materialize) d)"

definition materialize_document :: "jsval \<Rightarrow> jsval" where
  "materialize_document document =
     map_member ''types'' (map_objects materialize_definition)
       (set_member ''canonicalization'' (Obj [(js ''algorithm'', Str (js ''rfc8785-v1''))]) document)"

definition normalizeIr :: "jsstr list option \<Rightarrow> nat option \<Rightarrow> jsval \<Rightarrow> canon_error + jsstr" where
  "normalizeIr sets maxd document =
     (if is_object document then canonicalIr sets maxd (materialize_document document)
      else canonicalIr sets maxd document)"

end
