(* ===== verification/NumberText.thy ===== *)
theory NumberText
  imports JsVal
begin

text \<open>
  The number-to-string algorithm reads back: \<open>Number(String(x))\<close> is \<open>x\<close> for every finite
  binary64 value, so the text the canonicaliser writes for a number determines the number. The
  proof decodes each of the four decimal layouts with the StringToNumber conversion.
\<close>

section \<open>Powers of ten\<close>

lemma power_of_add: "b \<noteq> 0 \<Longrightarrow> power_of b (m + n) = power_of b m * power_of b n"
proof -
  assume b: "b \<noteq> 0"
  have p: "power_of b e = b powi e" for e
    using b by (simp add: power_of_def power_int_def inverse_eq_divide power_one_over)
  show ?thesis unfolding p using b by (rule power_int_add [OF disjI1])
qed

lemma power_of_minus: "b \<noteq> 0 \<Longrightarrow> power_of b (- n) * power_of b n = 1"
  using power_of_add [of b "- n" n] by (simp add: power_of_def)

lemma power_of_diff_nat: "b \<noteq> 0 \<Longrightarrow> b ^ n * power_of b (- int n) = 1"
  using power_of_minus [of b "int n"] by (simp add: mult.commute)

section \<open>Digits\<close>

lemma int_of_digits_append:
  "int_of_digits (a @ b) = int_of_digits a * 10 ^ length b + int_of_digits b"
proof (induction b rule: rev_induct)
  case (snoc u b)
  have "int_of_digits (a @ b @ [u]) = 10 * int_of_digits (a @ b) + digit_value u"
    using int_of_digits_snoc [of "a @ b" u] by simp
  then show ?case by (simp add: snoc int_of_digits_snoc algebra_simps)
qed (simp add: int_of_digits_def)

lemma digit_value_zero [simp]: "digit_value (digit_unit 0) = 0"
  by (simp add: digit_value_unit)

lemma int_of_digits_zeros [simp]: "int_of_digits (replicate n (digit_unit 0)) = 0"
proof (induction n)
  case (Suc n)
  have "int_of_digits (replicate n (digit_unit 0) @ [digit_unit 0]) = 0"
    by (simp add: int_of_digits_snoc Suc del: replicate_append_same)
  then show ?case by (simp add: replicate_append_same)
qed (simp add: int_of_digits_def)

lemma zero_unit: "digit_unit 0 = 48"
  by (simp add: digit_unit_def)

lemma zero_is_digit [simp]: "is_digit_unit (digit_unit 0)"
  by (rule digit_unit_is_digit) simp_all

lemma zeros_digits [simp]: "list_all is_digit_unit (replicate n (digit_unit 0))"
  by (simp add: list_all_iff)

lemma digits_of_all: "0 \<le> n \<Longrightarrow> list_all is_digit_unit (digits_of n)"
  by (simp add: list_all_iff digits_of_digits)

lemma digit_not_special:
  "is_digit_unit c \<Longrightarrow> c \<noteq> 101 \<and> c \<noteq> 69 \<and> c \<noteq> 46 \<and> c \<noteq> 45 \<and> c \<noteq> 43"
  by (auto simp: is_digit_unit_def)

lemma js_chars: "js ''.'' = [46]" "js ''e'' = [101]" "js ''+'' = [43]" "js ''-'' = [45]"
  "js ''0.'' = [48, 46]" "js ''0'' = [48]"
  by (simp_all add: js_def unit_of_def)

section \<open>Reading a layout\<close>

lemma takeWhile_all: "list_all P xs \<Longrightarrow> takeWhile P xs = xs"
  by (induction xs) auto

lemma takeWhile_digits_stop:
  "list_all is_digit_unit a \<Longrightarrow> \<not> is_digit_unit c \<Longrightarrow> takeWhile is_digit_unit (a @ c # b) = a"
  by (induction a) auto

lemma no_exponent:
  "list_all (\<lambda>c. is_digit_unit c \<or> c = 46) s \<Longrightarrow> takeWhile (\<lambda>c. c \<noteq> 101 \<and> c \<noteq> 69) s = s"
  by (rule takeWhile_all) (auto simp: list_all_iff is_digit_unit_def)

lemma list_all_or: "list_all P s \<Longrightarrow> list_all (\<lambda>c. P c \<or> Q c) s"
  by (auto simp: list_all_iff)

lemma decimal_literal_whole:
  assumes "list_all is_digit_unit a" and "a \<noteq> []"
  shows "decimal_literal a = Some (of_int (int_of_digits a))"
proof -
  have m: "takeWhile (\<lambda>c. c \<noteq> 101 \<and> c \<noteq> 69) a = a"
    using assms(1) by (intro no_exponent list_all_or)
  note w = takeWhile_all [OF assms(1)]
  have "decimal_literal a = Some (of_int (int_of_digits a) * power_of 10 0)"
    unfolding decimal_literal_def Let_def m w using assms(2)
    by (simp add: signed_part_def)
  then show ?thesis by (simp add: power_of_def)
qed

lemma decimal_literal_point:
  assumes "list_all is_digit_unit a" and "list_all is_digit_unit b" and "a @ b \<noteq> []"
  shows "decimal_literal (a @ 46 # b) =
    Some (of_int (int_of_digits (a @ b)) * power_of 10 (- int (length b)))"
proof -
  have m: "takeWhile (\<lambda>c. c \<noteq> 101 \<and> c \<noteq> 69) (a @ 46 # b) = a @ 46 # b"
    using assms(1,2) by (intro no_exponent) (auto simp: list_all_iff)
  have w: "takeWhile is_digit_unit (a @ 46 # b) = a"
    using assms(1) by (rule takeWhile_digits_stop) (simp add: is_digit_unit_def)
  show ?thesis
    using assms by (simp add: decimal_literal_def Let_def m w signed_part_def)
qed

lemma decimal_literal_exponent:
  assumes "list_all is_digit_unit a" and "list_all is_digit_unit b" and "a @ b \<noteq> []"
    and "x = a \<and> b = [] \<or> x = a @ 46 # b"
    and "list_all is_digit_unit ex" and "ex \<noteq> []" and "sg = 43 \<or> sg = 45"
  shows "decimal_literal (x @ 101 # sg # ex) =
    Some (of_int (int_of_digits (a @ b)) *
      power_of 10 ((if sg = 45 then - int_of_digits ex else int_of_digits ex) - int (length b)))"
proof -
  have all: "list_all (\<lambda>c. c \<noteq> 101 \<and> c \<noteq> 69) x"
    using assms(1,2,4) digit_not_special [of 101] digit_not_special [of 69]
    by (auto simp: list_all_iff)
  have m: "takeWhile (\<lambda>c. c \<noteq> 101 \<and> c \<noteq> 69) (x @ 101 # sg # ex) = x"
    using all by (induction x) auto
  have sp: "signed_part (sg # ex) = (if sg = 45 then (-1, ex) else (1, ex))"
    using assms(7) by (auto simp: signed_part_def)
  have w: "takeWhile is_digit_unit x = a"
    using assms(4)
  proof
    assume "x = a \<and> b = []"
    then show ?thesis using takeWhile_all [OF assms(1)] by metis
  next
    assume "x = a @ 46 # b"
    then show ?thesis
      using assms(1) by (simp add: takeWhile_digits_stop is_digit_unit_def)
  qed
  have f: "drop (length a) x = [] \<and> b = [] \<or> drop (length a) x = 46 # b"
    using assms(4) by auto
  then have t: "tl (drop (length a) x) = b" and h: "drop (length a) x = [] \<or> hd (drop (length a) x) = 46"
    by auto
  have r: "drop (length x) (x @ 101 # sg # ex) = 101 # sg # ex" by simp
  show ?thesis
    unfolding decimal_literal_def m w Let_def r list.sel sp t
    using assms(2,3,5,6) h by simp
qed

lemma decimal_literal_layout:
  assumes d: "list_all is_digit_unit ds" and ne: "ds \<noteq> []"
  shows "decimal_literal (decimal_layout ds n) =
    Some (of_int (int_of_digits ds) * power_of 10 (n - int (length ds)))"
proof -
  let ?k = "int (length ds)"
  have dt: "list_all is_digit_unit (take i ds)" "list_all is_digit_unit (drop i ds)" for i
    using d by (auto simp: list_all_iff dest: in_set_takeD in_set_dropD)
  consider (whole) "?k \<le> n" "n \<le> 21" | (point) "n < ?k" "0 < n" "n \<le> 21"
    | (small) "n < ?k" "-6 < n" "n \<le> 0" | (expo) "n > 21 \<or> n \<le> -6"
    by linarith
  then show ?thesis
  proof cases
    case whole
    then have e: "power_of 10 (n - ?k) = (10 :: rat) ^ nat (n - ?k)"
      by (metis diff_ge_0_iff_ge int_nat_eq power_of_nat)
    have "decimal_layout ds n = ds @ replicate (nat (n - ?k)) (digit_unit 0)"
      using whole by (simp add: decimal_layout_def Let_def)
    moreover have "decimal_literal (ds @ replicate (nat (n - ?k)) (digit_unit 0)) =
        Some (of_int (int_of_digits (ds @ replicate (nat (n - ?k)) (digit_unit 0))))"
      using d ne by (intro decimal_literal_whole) auto
    ultimately show ?thesis
      unfolding e by (simp add: int_of_digits_append)
  next
    case point
    then have "decimal_layout ds n = take (nat n) ds @ 46 # drop (nat n) ds"
      by (simp add: decimal_layout_def Let_def js_chars)
    moreover have "decimal_literal (take (nat n) ds @ 46 # drop (nat n) ds) =
        Some (of_int (int_of_digits (take (nat n) ds @ drop (nat n) ds)) *
          power_of 10 (- int (length (drop (nat n) ds))))"
      using dt ne by (intro decimal_literal_point) auto
    moreover have "- int (length (drop (nat n) ds)) = n - ?k" using point by simp
    ultimately show ?thesis by (simp only: append_take_drop_id)
  next
    case small
    let ?z = "replicate (nat (- n)) (digit_unit 0)"
    from small have "decimal_layout ds n = [48] @ 46 # ?z @ ds"
      by (simp add: decimal_layout_def Let_def js_chars)
    moreover have "decimal_literal ([48] @ 46 # ?z @ ds) =
        Some (of_int (int_of_digits ([48] @ ?z @ ds)) * power_of 10 (- int (length (?z @ ds))))"
      using d zero_is_digit zeros_digits [of "nat (- n)"]
      by (intro decimal_literal_point) (simp_all add: zero_unit)
    moreover have "int_of_digits ([48] @ ?z @ ds) = int_of_digits ds"
    proof -
      have "[48] @ ?z = replicate (Suc (nat (- n))) (digit_unit 0)" by (simp add: zero_unit)
      then have "int_of_digits (([48] @ ?z) @ ds) = int_of_digits ds"
        by (simp only: int_of_digits_append int_of_digits_zeros)
      then show ?thesis by simp
    qed
    moreover have "- int (length (?z @ ds)) = n - ?k" using small by simp
    ultimately show ?thesis by (simp only:)
  next
    case expo
    let ?sg = "if 0 \<le> n - 1 then 43 else 45 :: 16 word"
    let ?ex = "digits_of \<bar>n - 1\<bar>"
    let ?x = "take 1 ds @ (if ?k = 1 then [] else 46 # drop 1 ds)"
    from expo have lay: "decimal_layout ds n = ?x @ 101 # ?sg # ?ex"
      by (auto simp: decimal_layout_def Let_def js_chars)
    have x: "?x = take 1 ds \<and> drop 1 ds = [] \<or> ?x = take 1 ds @ 46 # drop 1 ds"
      using ne by auto
    have "decimal_literal (?x @ 101 # ?sg # ?ex) =
        Some (of_int (int_of_digits (take 1 ds @ drop 1 ds)) *
          power_of 10 ((if ?sg = 45 then - int_of_digits ?ex else int_of_digits ?ex)
            - int (length (drop 1 ds))))"
      using dt ne x by (intro decimal_literal_exponent) (auto intro: digits_of_all)
    moreover have "(if ?sg = 45 then - int_of_digits ?ex else int_of_digits ?ex)
        - int (length (drop 1 ds)) = n - ?k"
      using ne by (cases ds) auto
    ultimately show ?thesis unfolding lay by (simp only: append_take_drop_id)
  qed
qed

section \<open>The shortest digits read back\<close>

lemma double_scaled: "is_double q \<Longrightarrow> \<exists>m :: int. q * 2 ^ 1074 = of_int m"
proof -
  assume "is_double q"
  then have r: "round64 q = Fin q" by (simp add: is_double_def)
  show ?thesis
  proof (cases "q = 0")
    case False
    define e where "e = max (ilog2 \<bar>q\<bar> - (53 - 1)) (-1074)"
    define h where "h = round_half_even (\<bar>q\<bar> / power_of 2 e)"
    have "q = of_int h * power_of 2 e \<or> q = - (of_int h * power_of 2 e)"
      using r False
      by (auto simp: round64_def round_binary_def Let_def e_def h_def split: if_splits)
    then have q: "q = of_int h * power_of 2 e \<or> q = of_int (- h) * power_of 2 e" by simp
    have "power_of 2 e * (2 :: rat) ^ 1074 = 2 ^ nat (e + 1074)"
    proof -
      have "-1074 \<le> e" by (simp add: e_def)
      then have "int (nat (e + 1074)) = e + 1074" by simp
      then have "(2 :: rat) ^ nat (e + 1074) = power_of 2 (e + int 1074)"
        by (metis of_nat_numeral power_of_nat)
      moreover have "power_of (2 :: rat) (e + int 1074) = power_of 2 e * power_of 2 (int 1074)"
        by (rule power_of_add) simp
      ultimately show ?thesis by (simp only: power_of_nat)
    qed
    with q have "q * 2 ^ 1074 = of_int (h * 2 ^ nat (e + 1074)) \<or>
        q * 2 ^ 1074 = of_int (- h * 2 ^ nat (e + 1074))"
      by (auto simp: mult.assoc)
    then show ?thesis by blast
  qed (auto intro: exI [of _ 0])
qed

lemma double_decimal:
  assumes "is_double q" and "t \<le> -1074"
  shows "of_int \<lfloor>q / power_of 10 t\<rfloor> * power_of 10 t = q"
proof -
  from double_scaled [OF assms(1)] obtain m :: int where m: "q * 2 ^ 1074 = of_int m" by blast
  have nz: "power_of 10 t \<noteq> 0" using power_of_pos [of 10 t] by simp
  have "1 / power_of 10 t = (10 :: rat) ^ nat (- t)"
    using assms(2) by (simp add: power_of_def)
  then have "q / power_of 10 t = q * 10 ^ nat (- t)" by (simp add: divide_inverse)
  also have "\<dots> = q * (2 ^ 1074 * (5 ^ nat (- t) * 2 ^ (nat (- t) - 1074)))"
  proof -
    have "(10 :: rat) ^ nat (- t) = 2 ^ nat (- t) * 5 ^ nat (- t)"
      by (simp flip: power_mult_distrib)
    also have "nat (- t) = 1074 + (nat (- t) - 1074)" using assms(2) by simp
    then have "(2 :: rat) ^ nat (- t) = 2 ^ 1074 * 2 ^ (nat (- t) - 1074)"
      by (metis power_add)
    finally show ?thesis by (simp only: mult.assoc mult.commute mult.left_commute)
  qed
  also have "\<dots> = of_int (m * (5 ^ nat (- t) * 2 ^ (nat (- t) - 1074)))"
    using m by (simp add: mult.assoc [symmetric])
  finally have fl: "of_int \<lfloor>q / power_of 10 t\<rfloor> = q / power_of 10 t" by (metis floor_of_int)
  show ?thesis unfolding fl using nz by (rule nonzero_eq_divide_eq [THEN iffD1, OF _ refl])
qed

lemma exponent_up_le: "exponent_up f q n \<le> n + int f"
  by (induction f q n rule: exponent_up.induct) auto

lemma exponent_down_le: "exponent_down f q n \<le> n"
  by (induction f q n rule: exponent_down.induct) auto

lemma decimal_exponent_le: "decimal_exponent q \<le> 401"
  using exponent_up_le [of 400 q 1] exponent_down_le [of 400 q 0]
  by (simp add: decimal_exponent_def)

text \<open>The search succeeds at the latest where the neighbour of \<open>q\<close> is \<open>q\<close> itself.\<close>

lemma shortest_hit:
  assumes "0 < q" and "filter (\<lambda>s. round64 (of_int s * power_of 10 t) = Fin q) near = s # r"
    and "set near = {\<lfloor>q / power_of 10 t\<rfloor>, \<lfloor>q / power_of 10 t\<rfloor> + 1}"
  shows "round64 (of_int s * power_of 10 t) = Fin q \<and> 0 \<le> s"
proof -
  have "s \<in> set (filter (\<lambda>s. round64 (of_int s * power_of 10 t) = Fin q) near)"
    using assms(2) by simp
  then have "s \<in> set near" and r: "round64 (of_int s * power_of 10 t) = Fin q" by simp_all
  moreover have "0 \<le> \<lfloor>q / power_of 10 t\<rfloor>"
    using assms(1) power_of_pos [of 10 t] by simp
  ultimately show ?thesis using assms(3) by auto
qed

lemma shortest_reads_back:
  assumes "is_double q" and "0 < q" and "n - int (k + fuel) \<le> -1074"
    and "shortest fuel k q n = (s, t)"
  shows "round64 (of_int s * power_of 10 t) = Fin q \<and> 0 \<le> s"
  using assms(3,4)
proof (induction fuel arbitrary: k)
  case (0 k)
  define u where "u = n - int k"
  define lo where "lo = \<lfloor>q / power_of 10 u\<rfloor>"
  define near where "near = (if q - of_int lo * power_of 10 u \<le> of_int (lo + 1) * power_of 10 u - q
    then [lo, lo + 1] else [lo + 1, lo])"
  have n: "set near = {lo, lo + 1}" by (auto simp: near_def)
  have "of_int lo * power_of 10 u = q"
    unfolding lo_def using double_decimal [OF assms(1)] 0 by (simp add: u_def)
  then have "round64 (of_int lo * power_of 10 u) = Fin q"
    using assms(1) by (simp add: is_double_def)
  then obtain a r where f: "filter (\<lambda>s. round64 (of_int s * power_of 10 u) = Fin q) near = a # r"
    using n by (cases "filter (\<lambda>s. round64 (of_int s * power_of 10 u) = Fin q) near")
      (auto simp: filter_empty_conv)
  have "shortest 0 k q n = (a, u)"
    by (subst shortest.simps, unfold Let_def, fold u_def, fold lo_def, fold near_def) (simp add: f)
  then have "s = a" "t = u" using 0 by simp_all
  then show ?case using shortest_hit [OF assms(2) f] n by (simp add: lo_def)
next
  case (Suc fuel k)
  define u where "u = n - int k"
  define lo where "lo = \<lfloor>q / power_of 10 u\<rfloor>"
  define near where "near = (if q - of_int lo * power_of 10 u \<le> of_int (lo + 1) * power_of 10 u - q
    then [lo, lo + 1] else [lo + 1, lo])"
  have n: "set near = {lo, lo + 1}" by (auto simp: near_def)
  let ?f = "filter (\<lambda>s. round64 (of_int s * power_of 10 u) = Fin q) near"
  have e: "shortest (Suc fuel) k q n =
      (case ?f of a # _ \<Rightarrow> (a, u) | [] \<Rightarrow> shortest fuel (Suc k) q n)"
    by (subst shortest.simps, unfold Let_def, fold u_def, fold lo_def, fold near_def)
      (simp split: list.splits)
  show ?case
  proof (cases ?f)
    case Nil
    then have "shortest fuel (Suc k) q n = (s, t)" using Suc(3) e by simp
    moreover have "n - int (Suc k + fuel) \<le> -1074" using Suc(2) by simp
    ultimately show ?thesis using Suc(1) by blast
  next
    case (Cons a r)
    then have "s = a" "t = u" using Suc(3) e by simp_all
    then show ?thesis using shortest_hit [OF assms(2) Cons] n by (simp add: lo_def)
  qed
qed

section \<open>The whole conversion\<close>

lemma positive_text_reads_back:
  assumes "is_double q" and "0 < q"
  shows "\<exists>v. decimal_literal (positive_text q) = Some v \<and> round64 v = Fin q"
proof -
  obtain s t where st: "shortest 1500 1 q (decimal_exponent q) = (s, t)" by fastforce
  have r: "round64 (of_int s * power_of 10 t) = Fin q" "0 \<le> s"
    using shortest_reads_back [OF assms _ st] decimal_exponent_le [of q] by simp_all
  obtain s' t' where w: "without_zero (s, t) = (s', t')" by fastforce
  then have e: "of_int s' * power_of 10 t' = (of_int s * power_of 10 t :: rat)" "0 \<le> s'"
    using r(2) by (auto simp: power_of_add power_of_def [of _ 1] split: if_splits)
  have "positive_text q = decimal_layout (digits_of s') (t' + int (length (digits_of s')))"
    by (simp only: positive_text_def st w Let_def prod.case)
  moreover have "decimal_literal (decimal_layout (digits_of s') (t' + int (length (digits_of s')))) =
      Some (of_int (int_of_digits (digits_of s')) * power_of 10 t')"
    using decimal_literal_layout [OF digits_of_all [OF e(2)] digits_of_nonempty] by simp
  ultimately show ?thesis using e r(1) by simp
qed

text \<open>The text is made of digits, the point, the exponent mark and signs, and starts with a digit.\<close>

lemma decimal_layout_units:
  assumes "list_all is_digit_unit ds" and "c \<in> set (decimal_layout ds n)"
  shows "is_digit_unit c \<or> c = 46 \<or> c = 101 \<or> c = 43 \<or> c = 45"
proof -
  have d: "\<forall>c\<in>set ds. is_digit_unit c" using assms(1) by (simp add: list_all_iff)
  have "is_digit_unit 48" using zero_is_digit by (simp add: zero_unit)
  moreover have "c \<in> set (digits_of \<bar>n - 1\<bar>) \<Longrightarrow> is_digit_unit c"
    by (rule digits_of_digits) simp_all
  ultimately show ?thesis
    using assms(2) d
    by (auto simp: decimal_layout_def Let_def js_chars zero_unit split: if_splits
        dest: in_set_takeD in_set_dropD)
qed

lemma decimal_layout_head:
  assumes "list_all is_digit_unit ds" and "ds \<noteq> []"
  shows "\<exists>c r. decimal_layout ds n = c # r \<and> is_digit_unit c"
proof -
  obtain c ds' where ds: "ds = c # ds'" and c: "is_digit_unit c" using assms by (cases ds) auto
  have z: "is_digit_unit 48" using zero_is_digit by (simp add: zero_unit)
  have t: "0 < n \<Longrightarrow> take (nat n) ds = c # take (nat n - 1) ds'"
    by (simp add: ds take_Cons')
  show ?thesis
    using c z t by (auto simp: decimal_layout_def Let_def js_chars ds)
qed

lemma round64_minus: "round64 q = Fin v \<Longrightarrow> round64 (- q) = Fin (- v)"
  by (auto simp: round64_def round_binary_def Let_def split: if_splits)

lemma trim_spaces_none: "\<forall>c\<in>set s. \<not> is_js_space c \<Longrightarrow> trim_spaces s = s"
proof -
  assume a: "\<forall>c\<in>set s. \<not> is_js_space c"
  have "dropWhile is_js_space s = s" "dropWhile is_js_space (rev s) = rev s"
    using a last_in_set [of s] by (auto simp: dropWhile_eq_self_iff hd_rev)
  then show ?thesis by (simp add: trim_spaces_def)
qed

definition number_unit :: "16 word \<Rightarrow> bool" where
  "number_unit c \<longleftrightarrow> is_digit_unit c \<or> c = 46 \<or> c = 101 \<or> c = 43 \<or> c = 45"

lemma number_unit_cases: "number_unit c \<Longrightarrow> 43 \<le> c \<and> c \<le> 57 \<or> c = 101"
  by (auto simp: number_unit_def is_digit_unit_def word_le_nat_alt)

lemma number_unit_plain: "number_unit c \<Longrightarrow> \<not> is_js_space c"
  by (drule number_unit_cases) (auto simp: is_js_space_def word_le_nat_alt word_unat_eq_iff)

lemma number_unit_letter: "c \<in> {120, 88, 111, 79, 98, 66, 73} \<Longrightarrow> \<not> number_unit c"
  by (auto dest!: number_unit_cases)

lemma string_to_number_signed:
  assumes "\<forall>c\<in>set s. number_unit c" and "s \<noteq> []" and "signed_part s = (sg, u)"
    and "decimal_literal u = Some v"
  shows "string_to_number s = round64 (of_int sg * v)"
proof -
  have t: "trim_spaces s = s" using assms(1) number_unit_plain by (intro trim_spaces_none) blast
  have no: "\<not> starts_with s (a # b # r)" if "b \<in> {120, 88, 111, 79, 98, 66, 73}" for a b r
  proof
    assume "starts_with s (a # b # r)"
    then have "b \<in> set s" by (auto simp: starts_with_iff)
    then show False using assms(1) number_unit_letter [OF that] by blast
  qed
  have u: "set u \<subseteq> set s" using assms(3) by (auto simp: signed_part_def split: list.splits if_splits)
  have inf: "u \<noteq> js ''Infinity''"
  proof
    assume "u = js ''Infinity''"
    then have "73 \<in> set s" using u by (auto simp: js_def unit_of_def)
    then show False using assms(1) number_unit_letter [of 73] by blast
  qed
  have p: "js ''0x'' = [48, 120]" "js ''0X'' = [48, 88]" "js ''0o'' = [48, 111]" "js ''0O'' = [48, 79]"
    "js ''0b'' = [48, 98]" "js ''0B'' = [48, 66]"
    by (simp_all add: js_def unit_of_def)
  show ?thesis
    using assms(2) by (simp add: string_to_number_def t assms(3,4) inf p no)
qed

lemma positive_text_units:
  assumes "is_double q" and "0 < q"
  shows "\<forall>c\<in>set (positive_text q). number_unit c"
    and "\<exists>c r. positive_text q = c # r \<and> is_digit_unit c"
proof -
  obtain s t where st: "shortest 1500 1 q (decimal_exponent q) = (s, t)" by fastforce
  have "0 \<le> s"
    using shortest_reads_back [OF assms _ st] decimal_exponent_le [of q] by simp_all
  then obtain s' t' where w: "without_zero (s, t) = (s', t')" "0 \<le> s'"
    by (cases "s = 10") auto
  have e: "positive_text q = decimal_layout (digits_of s') (t' + int (length (digits_of s')))"
    by (simp only: positive_text_def st w Let_def prod.case)
  note d = digits_of_all [OF w(2)]
  show "\<forall>c\<in>set (positive_text q). number_unit c"
    using decimal_layout_units [OF d] unfolding e number_unit_def by blast
  show "\<exists>c r. positive_text q = c # r \<and> is_digit_unit c"
    unfolding e by (rule decimal_layout_head [OF d]) simp
qed

lemma string_to_number_text:
  assumes "is_double q"
  shows "string_to_number (num_text (Fin q)) = Fin q"
proof -
  have pos: "string_to_number (js sg @ positive_text p) = round64 (of_int k * v)"
    if "is_double p" "0 < p" "decimal_literal (positive_text p) = Some v"
      "sg = [] \<and> k = 1 \<or> sg = ''-'' \<and> k = -1" for p v sg k
  proof (rule string_to_number_signed [OF _ _ _ that(3)])
    show "\<forall>c\<in>set (js sg @ positive_text p). number_unit c"
      using positive_text_units [OF that(1,2)] that(4) by (auto simp: js_chars number_unit_def)
    note starts = positive_text_units(2) [OF that(1,2)]
    obtain c r where c: "positive_text p = c # r" "is_digit_unit c"
      using starts by blast
    then show "js sg @ positive_text p \<noteq> []" by simp
    show "signed_part (js sg @ positive_text p) = (k, positive_text p)"
      using that(4) digit_not_special [OF c(2)] by (auto simp: signed_part_def js_chars c)
  qed
  consider "q = 0" | "0 < q" | "q < 0" by linarith
  then show ?thesis
  proof cases
    case 1
    have "string_to_number (js ''0'') = Fin 0" by code_simp
    then show ?thesis using 1 by simp
  next
    case 2
    then obtain v where "decimal_literal (positive_text q) = Some v" "round64 v = Fin q"
      using positive_text_reads_back [OF assms] by blast
    then show ?thesis using 2 pos [OF assms 2, of v "[]" 1] by simp
  next
    case 3
    have d: "is_double (- q)"
      using round64_minus [of q q] assms by (simp add: is_double_def)
    then obtain v where "decimal_literal (positive_text (- q)) = Some v" "round64 v = Fin (- q)"
      using positive_text_reads_back [OF d] 3 by auto
    then show ?thesis
      using 3 pos [OF d, of v "''-''" "-1"] round64_minus [of v "- q"] by simp
  qed
qed

lemma num_text_injective:
  assumes "is_double p" and "is_double q" and "num_text (Fin p) = num_text (Fin q)"
  shows "p = q"
  using string_to_number_text [OF assms(1)] string_to_number_text [OF assms(2)] assms(3)
  by (metis jsnum.inject)

end
