(* ===== verification/JsonLocus.thy ===== *)
theory JsonLocus
  imports JsVal
begin

text \<open>
  \<open>src/src/compiler/json-locus.mjs\<close>: the scanner that records the source position of every
  JSON pointer of a text. The scanner's state is its text and index; the model carries the
  unread rest of the text, so the index is \<open>length text - length rest\<close>. An exception is the
  left value of a sum and holds the message and position the error object carries. The recursive
  walk spends one unit of fuel per call; \<open>scan_fuel_enough\<close> shows that the fuel
  \<open>indexJsonPointers\<close> starts with is never exhausted, on any text.
\<close>

record position =
  line :: nat
  column :: nat

datatype scan_error = ScanError jsstr position

type_synonym pointer_index = "(jsstr \<times> (position \<times> position)) list"

section \<open>Pointers and positions\<close>

text \<open>RFC 6901 escaping: \<open>~\<close> is code unit 126, \<open>/\<close> is 47.\<close>

fun escapeToken :: "jsstr \<Rightarrow> jsstr" where
  "escapeToken [] = []"
| "escapeToken (c # cs) =
     (if c = 126 then js ''~0'' else if c = 47 then js ''~1'' else [c]) @ escapeToken cs"

definition jsonPointer :: "jsstr list \<Rightarrow> jsstr" where
  "jsonPointer segments =
     (if segments = [] then [] else js ''/'' @ join (js ''/'') (map escapeToken segments))"

fun position_loop :: "jsstr \<Rightarrow> nat \<Rightarrow> nat \<Rightarrow> nat \<Rightarrow> nat \<Rightarrow> nat \<times> nat" where
  "position_loop [] index bound lineNo lineStart = (lineNo, lineStart)"
| "position_loop (c # cs) index bound lineNo lineStart =
     (if index < bound
      then (if c = 10 then position_loop cs (Suc index) bound (Suc lineNo) (Suc index)
            else position_loop cs (Suc index) bound lineNo lineStart)
      else (lineNo, lineStart))"

definition offsetToPosition :: "jsstr \<Rightarrow> nat \<Rightarrow> position" where
  "offsetToPosition text offset =
     (let bound = min offset (length text);
          (lineNo, lineStart) = position_loop text 0 bound 1 0
      in \<lparr>line = lineNo, column = bound - lineStart + 1\<rparr>)"

section \<open>The scanner\<close>

definition is_whitespace :: "16 word \<Rightarrow> bool" where
  "is_whitespace c \<longleftrightarrow> c = 32 \<or> c = 9 \<or> c = 10 \<or> c = 13"

definition skipWhitespace :: "jsstr \<Rightarrow> jsstr" where
  "skipWhitespace rest = dropWhile is_whitespace rest"

definition peek :: "jsstr \<Rightarrow> 16 word option" where
  "peek rest = (case rest of [] \<Rightarrow> None | c # _ \<Rightarrow> Some c)"

definition scan_offset :: "jsstr \<Rightarrow> jsstr \<Rightarrow> nat" where
  "scan_offset text rest = length text - length rest"

definition scan_error :: "jsstr \<Rightarrow> jsstr \<Rightarrow> jsstr \<Rightarrow> scan_error" where
  "scan_error text rest message =
     (let p = offsetToPosition text (scan_offset text rest)
      in ScanError
           (message @ js '' at line '' @ digits_of (int (line p)) @ js '' column ''
              @ digits_of (int (column p)))
           p)"

text \<open>\<open>Number.parseInt(slice, 16)\<close>, \<open>None\<close> being \<open>NaN\<close>.\<close>

fun hex_prefix :: "int option \<Rightarrow> jsstr \<Rightarrow> int option" where
  "hex_prefix acc [] = acc"
| "hex_prefix acc (c # cs) =
     (case hex_value c of
        None \<Rightarrow> acc
      | Some d \<Rightarrow> hex_prefix (Some (16 * (case acc of None \<Rightarrow> 0 | Some n \<Rightarrow> n) + d)) cs)"

definition parse_hex :: "jsstr \<Rightarrow> int option" where
  "parse_hex s =
     (let t = dropWhile is_js_space s;
          (sign, u) = (case t of
              c # cs \<Rightarrow> if c = 45 then (-1, cs) else if c = 43 then (1, cs) else (1, t)
            | [] \<Rightarrow> (1, t));
          v = (case u of
              a # b # cs \<Rightarrow> if a = 48 \<and> (b = 120 \<or> b = 88) then cs else u
            | _ \<Rightarrow> u)
      in map_option (\<lambda>n. sign * n) (hex_prefix None v))"

text \<open>\<open>String.fromCharCode\<close>, which reads \<open>NaN\<close> as 0 and keeps the low sixteen bits.\<close>

definition from_char_code :: "int option \<Rightarrow> 16 word" where
  "from_char_code n = (case n of None \<Rightarrow> 0 | Some i \<Rightarrow> word_of_int i)"

definition simple_escape :: "16 word \<Rightarrow> 16 word option" where
  "simple_escape e =
     (if e = 34 then Some 34
      else if e = 92 then Some 92
      else if e = 47 then Some 47
      else if e = 98 then Some 8
      else if e = 102 then Some 12
      else if e = 110 then Some 10
      else if e = 114 then Some 13
      else if e = 116 then Some 9
      else None)"

text \<open>The loop of \<open>readString\<close> after the opening quote.\<close>

function string_loop :: "jsstr \<Rightarrow> jsstr \<Rightarrow> jsstr \<Rightarrow> scan_error + (jsstr \<times> jsstr)" where
  "string_loop text value [] = Inl (scan_error text [] (js ''unterminated string''))"
| "string_loop text value (c # cs) =
     (if c = 34 then Inr (value, cs)
      else if c = 92 then
        (case cs of
           [] \<Rightarrow> Inl (scan_error text [] (js ''unknown escape '' @ [92] @ js ''undefined''))
         | e # es \<Rightarrow>
             if e = 117
             then string_loop text (value @ [from_char_code (parse_hex (take 4 es))]) (drop 4 es)
             else (case simple_escape e of
                     None \<Rightarrow> Inl (scan_error text es (js ''unknown escape '' @ [92, e]))
                   | Some u \<Rightarrow> string_loop text (value @ [u]) es))
      else string_loop text (value @ [c]) cs)"
  by pat_completeness auto
termination
  by (relation "measure (\<lambda>(text, value, rest). length rest)") auto

definition readString :: "jsstr \<Rightarrow> jsstr \<Rightarrow> scan_error + (jsstr \<times> jsstr)" where
  "readString text rest =
     (if peek rest \<noteq> Some 34 then Inl (scan_error text rest (js ''expected a string''))
      else string_loop text [] (tl rest))"

definition ends_primitive :: "16 word \<Rightarrow> bool" where
  "ends_primitive c \<longleftrightarrow> is_whitespace c \<or> c = 44 \<or> c = 93 \<or> c = 125"

definition readPrimitive :: "jsstr \<Rightarrow> jsstr \<Rightarrow> scan_error + (jsstr \<times> jsstr)" where
  "readPrimitive text rest =
     (let tok = takeWhile (\<lambda>c. \<not> ends_primitive c) rest;
          rest' = dropWhile (\<lambda>c. \<not> ends_primitive c) rest
      in if tok = [] then Inl (scan_error text rest' (js ''expected a value''))
         else Inr (tok, rest'))"

definition record_pointer ::
  "jsstr \<Rightarrow> jsstr \<Rightarrow> nat \<Rightarrow> nat option \<Rightarrow> pointer_index \<Rightarrow> pointer_index" where
  "record_pointer text pointer valueOffset keyOffset index =
     (if map_of index pointer \<noteq> None then index
      else index @
        [(pointer,
          (offsetToPosition text valueOffset,
           offsetToPosition text (case keyOffset of None \<Rightarrow> valueOffset | Some k \<Rightarrow> k)))])"

definition quoted :: "string \<Rightarrow> jsstr" where
  "quoted s = [39] @ js s @ [39]"

type_synonym scan_result = "(scan_error + (jsstr \<times> pointer_index)) option"

function (sequential) walk :: "nat \<Rightarrow> jsstr \<Rightarrow> jsstr list \<Rightarrow> nat option \<Rightarrow> jsstr \<Rightarrow> pointer_index \<Rightarrow> scan_result"
and walk_members :: "nat \<Rightarrow> jsstr \<Rightarrow> jsstr list \<Rightarrow> jsstr \<Rightarrow> pointer_index \<Rightarrow> scan_result"
and walk_items :: "nat \<Rightarrow> jsstr \<Rightarrow> jsstr list \<Rightarrow> nat \<Rightarrow> jsstr \<Rightarrow> pointer_index \<Rightarrow> scan_result"
where
  "walk 0 text segments keyOffset rest index = None"
| "walk (Suc fuel) text segments keyOffset rest index =
     (let r0 = skipWhitespace rest;
          index0 = record_pointer text (jsonPointer segments) (scan_offset text r0) keyOffset index
      in if peek r0 = Some 123 then
           (let r1 = skipWhitespace (tl r0)
            in if peek r1 = Some 125 then Some (Inr (tl r1, index0))
               else walk_members fuel text segments r1 index0)
         else if peek r0 = Some 91 then
           (let r1 = skipWhitespace (tl r0)
            in if peek r1 = Some 93 then Some (Inr (tl r1, index0))
               else walk_items fuel text segments 0 r1 index0)
         else if peek r0 = Some 34 then
           (case readString text r0 of
              Inl e \<Rightarrow> Some (Inl e)
            | Inr (_, r1) \<Rightarrow> Some (Inr (r1, index0)))
         else
           (case readPrimitive text r0 of
              Inl e \<Rightarrow> Some (Inl e)
            | Inr (_, r1) \<Rightarrow> Some (Inr (r1, index0))))"
| "walk_members 0 text segments rest index = None"
| "walk_members (Suc fuel) text segments rest index =
     (let r0 = skipWhitespace rest; memberKeyOffset = scan_offset text r0
      in case readString text r0 of
           Inl e \<Rightarrow> Some (Inl e)
         | Inr (name, r1) \<Rightarrow>
             (let r2 = skipWhitespace r1
              in if peek r2 \<noteq> Some 58
                 then Some (Inl (scan_error text r2 (js ''expected '' @ quoted '':'')))
                 else
                   (case walk fuel text (segments @ [name]) (Some memberKeyOffset) (tl r2) index of
                      None \<Rightarrow> None
                    | Some (Inl e) \<Rightarrow> Some (Inl e)
                    | Some (Inr (r3, index')) \<Rightarrow>
                        (let r4 = skipWhitespace r3
                         in if peek r4 = Some 44 then walk_members fuel text segments (tl r4) index'
                            else if peek r4 = Some 125 then Some (Inr (tl r4, index'))
                            else Some (Inl (scan_error text r4
                              (js ''expected '' @ quoted '','' @ js '' or '' @ quoted ''}'')))))))"
| "walk_items 0 text segments pos rest index = None"
| "walk_items (Suc fuel) text segments pos rest index =
     (case walk fuel text (segments @ [digits_of (int pos)]) None rest index of
        None \<Rightarrow> None
      | Some (Inl e) \<Rightarrow> Some (Inl e)
      | Some (Inr (r1, index')) \<Rightarrow>
          (let r2 = skipWhitespace r1
           in if peek r2 = Some 44 then walk_items fuel text segments (Suc pos) (tl r2) index'
              else if peek r2 = Some 93 then Some (Inr (tl r2, index'))
              else Some (Inl (scan_error text r2
                (js ''expected '' @ quoted '','' @ js '' or '' @ quoted '']'')))))"
  by pat_completeness auto
termination
  by (relation "measure (\<lambda>x. case x of
        Inl (fuel, _) \<Rightarrow> fuel | Inr (Inl (fuel, _)) \<Rightarrow> fuel | Inr (Inr (fuel, _)) \<Rightarrow> fuel)") simp_all

declare walk.simps [simp del] walk_members.simps [simp del] walk_items.simps [simp del]

definition scan_fuel :: "jsstr \<Rightarrow> nat" where
  "scan_fuel text = 2 * length text + 1"

definition indexJsonPointers :: "jsstr \<Rightarrow> (scan_error + pointer_index) option" where
  "indexJsonPointers text =
     (case walk (scan_fuel text) text [] None text [] of
        None \<Rightarrow> None
      | Some (Inl e) \<Rightarrow> Some (Inl e)
      | Some (Inr (_, index)) \<Rightarrow> Some (Inr index))"

section \<open>Locating a pointer\<close>

datatype preference = PreferKey | PreferValue

text \<open>
  \<open>candidate.lastIndexOf("/")\<close>, cut there: the parent pointer, the root for a cut at 0 or
  none.
\<close>

definition parent_pointer :: "jsstr \<Rightarrow> jsstr" where
  "parent_pointer candidate =
     (let tail = takeWhile (\<lambda>c. c \<noteq> 47) (rev candidate)
      in if length tail < length candidate
         then take (length candidate - length tail - 1) candidate
         else [])"

lemma length_parent_pointer [termination_simp]:
  "candidate \<noteq> [] \<Longrightarrow> length (parent_pointer candidate) < length candidate"
  by (simp add: parent_pointer_def Let_def)

fun locate_in_index :: "pointer_index \<Rightarrow> jsstr \<Rightarrow> preference \<Rightarrow> position" where
  "locate_in_index index candidate prefer =
     (case map_of index candidate of
        Some (value, key) \<Rightarrow> (if prefer = PreferKey then key else value)
      | None \<Rightarrow>
          if candidate = [] then \<lparr>line = 1, column = 1\<rparr>
          else locate_in_index index (parent_pointer candidate) prefer)"

declare locate_in_index.simps [simp del]

text \<open>\<open>locateJsonPointer\<close> on a text indexes it first and so may raise the scan error.\<close>

definition locateJsonPointer :: "jsstr \<Rightarrow> jsstr \<Rightarrow> preference \<Rightarrow> (scan_error + position) option" where
  "locateJsonPointer text pointer prefer =
     (case indexJsonPointers text of
        None \<Rightarrow> None
      | Some (Inl e) \<Rightarrow> Some (Inl e)
      | Some (Inr index) \<Rightarrow> Some (Inr (locate_in_index index pointer prefer)))"

section \<open>Progress and fuel\<close>

lemma length_skipWhitespace: "length (skipWhitespace r) \<le> length r"
  by (simp add: skipWhitespace_def length_dropWhile_le)

lemma peek_Some: "peek r = Some c \<Longrightarrow> r = c # tl r"
  by (cases r) (auto simp: peek_def)

lemma length_tl_peek: "peek r = Some c \<Longrightarrow> length (tl r) < length r"
  by (cases r) (auto simp: peek_def)

lemma string_loop_progress:
  "string_loop tx v r = Inr (s, r') \<Longrightarrow> length r' < length r"
proof (induction tx v r rule: string_loop.induct)
  case (2 tx v c cs)
  show ?case
  proof (cases "c = 34 \<or> c \<noteq> 92")
    case True
    then show ?thesis
      using "2.IH"(3) "2.prems" by (fastforce split: if_splits)
  next
    case False
    then have c: "c = 92" by simp
    from "2.prems" c obtain e es where cs: "cs = e # es"
      by (cases cs) auto
    show ?thesis
    proof (cases "e = 117")
      case True
      with "2.prems" c cs
      have "string_loop tx (v @ [from_char_code (parse_hex (take 4 es))]) (drop 4 es) = Inr (s, r')"
        by simp
      with "2.IH"(1) [of e es] c cs True have "length r' < length (drop 4 es)" by simp
      then show ?thesis by (simp add: cs)
    next
      case False
      with "2.prems" c cs obtain u where "simple_escape e = Some u"
          and "string_loop tx (v @ [u]) es = Inr (s, r')"
        by (auto split: option.splits)
      with "2.IH"(2) [of e es u] c cs False show ?thesis by simp
    qed
  qed
qed simp

lemma readString_progress: "readString tx r = Inr (s, r') \<Longrightarrow> length r' < length r"
proof -
  assume a: "readString tx r = Inr (s, r')"
  then have "peek r = Some 34" and "string_loop tx [] (tl r) = Inr (s, r')"
    by (auto simp: readString_def split: if_splits)
  then show ?thesis
    using string_loop_progress [of tx "[]" "tl r" s r'] length_tl_peek [of r 34] by simp
qed

lemma readPrimitive_progress: "readPrimitive tx r = Inr (s, r') \<Longrightarrow> length r' < length r"
proof -
  assume a: "readPrimitive tx r = Inr (s, r')"
  let ?P = "\<lambda>c. \<not> ends_primitive c"
  from a have "takeWhile ?P r \<noteq> []" and r': "r' = dropWhile ?P r"
    by (auto simp: readPrimitive_def Let_def split: if_splits)
  moreover have "length r = length (takeWhile ?P r) + length (dropWhile ?P r)"
    by (metis length_append takeWhile_dropWhile_id)
  ultimately show ?thesis by simp
qed

text \<open>Every call of the walk that succeeds consumes input.\<close>

lemma walk_progress:
  shows "walk f tx segs ko r ix = Some (Inr (r', ix')) \<Longrightarrow> length r' < length r"
    and "walk_members f tx segs r ix = Some (Inr (r', ix')) \<Longrightarrow> length r' < length r"
    and "walk_items f tx segs pos r ix = Some (Inr (r', ix')) \<Longrightarrow> length r' < length r"
proof (induction f arbitrary: segs ko r ix r' ix' pos)
  case 0
  {
    case 1
    then show ?case by (simp add: walk.simps)
  next
    case 2
    then show ?case by (simp add: walk_members.simps)
  next
    case 3
    then show ?case by (simp add: walk_items.simps)
  }
next
  case (Suc f)
  note sw = length_skipWhitespace
  {
    case 1
    let ?r = "skipWhitespace r"
    from 1 sw [of r] sw [of "tl ?r"] show ?case
      by (auto simp: walk.simps Let_def split: if_splits sum.splits
          dest!: Suc.IH(2) Suc.IH(3) readString_progress readPrimitive_progress length_tl_peek)
  next
    case 2
    let ?r = "skipWhitespace r"
    from 2 obtain name r1 where r1: "readString tx ?r = Inr (name, r1)"
      by (auto simp: walk_members.simps Let_def split: sum.splits)
    let ?r2 = "skipWhitespace r1"
    from 2 r1 have p2: "peek ?r2 = Some 58"
      by (auto simp: walk_members.simps Let_def split: if_splits)
    with 2 r1 obtain r3 ix3 where r3:
      "walk f tx (segs @ [name]) (Some (scan_offset tx ?r)) (tl ?r2) ix = Some (Inr (r3, ix3))"
      by (auto simp: walk_members.simps Let_def split: option.splits sum.splits)
    have "length r3 < length r"
      using Suc.IH(1) [OF r3] readString_progress [OF r1] length_tl_peek [OF p2] sw [of r] sw [of r1]
      by linarith
    with 2 r1 p2 r3 sw [of r3] show ?case
      by (auto simp: walk_members.simps Let_def split: if_splits dest!: Suc.IH(2) length_tl_peek)
  next
    case 3
    from 3 obtain r1 ix1 where r1:
      "walk f tx (segs @ [digits_of (int pos)]) None r ix = Some (Inr (r1, ix1))"
      by (auto simp: walk_items.simps Let_def split: option.splits sum.splits)
    have "length r1 < length r" using Suc.IH(1) [OF r1] .
    with 3 r1 sw [of r1] show ?case
      by (auto simp: walk_items.simps Let_def split: if_splits dest!: Suc.IH(3) length_tl_peek)
  }
qed

lemma scan_fuel_enough:
  shows "2 * length r + 1 \<le> f \<Longrightarrow> walk f tx segs ko r ix \<noteq> None"
    and "2 * length r + 1 \<le> f \<Longrightarrow> walk_members f tx segs r ix \<noteq> None"
    and "2 * length r + 2 \<le> f \<Longrightarrow> walk_items f tx segs pos r ix \<noteq> None"
proof (induction f arbitrary: segs ko r ix pos)
  case (Suc f)
  note sw = length_skipWhitespace
  {
    case 1
    let ?r = "skipWhitespace r"
    have "length (skipWhitespace (tl ?r)) < length r" if "peek ?r = Some c" for c
      using length_tl_peek [OF that] sw [of r] sw [of "tl ?r"] by linarith
    with 1 show ?case
      using Suc.IH(2) [of "skipWhitespace (tl ?r)" segs] Suc.IH(3) [of "skipWhitespace (tl ?r)" segs 0]
      by (auto simp: walk.simps Let_def split: sum.splits)
  next
    case 2
    let ?r = "skipWhitespace r"
    show ?case
    proof (cases "readString tx ?r")
      case (Inr nr)
      then obtain name r1 where r1: "readString tx ?r = Inr (name, r1)" by (cases nr) auto
      let ?r2 = "skipWhitespace r1"
      show ?thesis
      proof (cases "peek ?r2 = Some 58")
        case True
        have l: "length (tl ?r2) < length r"
          using readString_progress [OF r1] length_tl_peek [OF True] sw [of r] sw [of r1] by linarith
        then have w: "walk f tx (segs @ [name]) (Some (scan_offset tx ?r)) (tl ?r2) ix \<noteq> None"
          using 2 by (intro Suc.IH(1)) simp
        have m: "walk_members f tx segs (tl (skipWhitespace r3)) ix3 \<noteq> None"
          if "walk f tx (segs @ [name]) (Some (scan_offset tx ?r)) (tl ?r2) ix = Some (Inr (r3, ix3))"
          for r3 ix3
        proof -
          have "length (tl (skipWhitespace r3)) \<le> length r3"
            using sw [of r3] by (simp add: le_diff_conv)
          with walk_progress(1) [OF that] l 2 show ?thesis by (intro Suc.IH(2)) simp
        qed
        from r1 True w m show ?thesis
          by (auto simp: walk_members.simps Let_def split: option.splits sum.splits)
      qed (simp add: walk_members.simps Let_def r1)
    qed (simp add: walk_members.simps Let_def)
  next
    case 3
    have w: "walk f tx (segs @ [digits_of (int pos)]) None r ix \<noteq> None"
      using 3 by (intro Suc.IH(1)) simp
    have m: "walk_items f tx segs (Suc pos) (tl (skipWhitespace r1)) ix1 \<noteq> None"
      if w1: "walk f tx (segs @ [digits_of (int pos)]) None r ix = Some (Inr (r1, ix1))"
        and c: "peek (skipWhitespace r1) = Some 44" for r1 ix1
      using walk_progress(1) [OF w1] sw [of r1] length_tl_peek [OF c] 3
      by (intro Suc.IH(3)) simp
    from w m show ?case
      by (auto simp: walk_items.simps Let_def split: option.splits sum.splits)
  }
qed simp_all

section \<open>Positions\<close>

lemma position_loop_line:
  "i \<le> b \<Longrightarrow> fst (position_loop cs i b n s) = n + count_list (take (b - i) cs) 10"
proof (induction cs arbitrary: i n s)
  case (Cons c cs)
  then show ?case
    by (cases "i < b") (auto simp: take_Cons' Suc_diff_Suc)
qed simp

lemma position_loop_start:
  "i \<le> b \<Longrightarrow> s \<le> i \<Longrightarrow>
    snd (position_loop cs i b n s) =
      (if 10 \<in> set (take (b - i) cs)
       then i + length (take (b - i) cs) - length (takeWhile (\<lambda>c. c \<noteq> 10) (rev (take (b - i) cs)))
       else s)"
proof (induction cs arbitrary: i n s)
  case (Cons c cs)
  show ?case
  proof (cases "i < b")
    case True
    then obtain k where k: "b - i = Suc k" "b - Suc i = k"
      by (cases "b - i") auto
    have le: "length (takeWhile (\<lambda>c. c \<noteq> 10) (rev (take k cs))) \<le> length (take k cs)"
      by (metis length_rev length_takeWhile_le)
    have tw: "takeWhile (\<lambda>c. c \<noteq> 10) (rev (take k cs) @ [c]) =
        (if 10 \<in> set (take k cs) then takeWhile (\<lambda>c. c \<noteq> 10) (rev (take k cs))
         else rev (take k cs) @ (if c = 10 then [] else [c]))"
      by (auto simp: takeWhile_append)
    show ?thesis
      using Cons.IH [of "Suc i" "Suc i" "Suc n"] Cons.IH [of "Suc i" s n] True Cons.prems le
      by (auto simp: k tw)
  qed (use Cons.prems in auto)
qed simp

text \<open>The column counts from the last line feed before the offset.\<close>

definition column_at :: "jsstr \<Rightarrow> nat" where
  "column_at p = length (takeWhile (\<lambda>c. c \<noteq> 10) (rev p)) + 1"

lemma offsetToPosition_prefix:
  "offsetToPosition tx off =
     \<lparr>line = 1 + count_list (take off tx) 10, column = column_at (take off tx)\<rparr>"
proof -
  let ?b = "min off (length tx)"
  let ?p = "take ?b tx"
  have p: "take off tx = ?p" by (simp add: min_def)
  have le: "length (takeWhile (\<lambda>c. c \<noteq> 10) (rev ?p)) \<le> length ?p"
    by (metis length_rev length_takeWhile_le)
  have none: "length (takeWhile (\<lambda>c. c \<noteq> 10) (rev ?p)) = length ?p" if "10 \<notin> set ?p"
  proof -
    from that have "takeWhile (\<lambda>c. c \<noteq> 10) (rev ?p) = rev ?p"
      by (subst takeWhile_eq_all_conv) auto
    from arg_cong [OF this, of length] show ?thesis by simp
  qed
  have "snd (position_loop tx 0 ?b 1 0) =
      (if 10 \<in> set ?p then length ?p - length (takeWhile (\<lambda>c. c \<noteq> 10) (rev ?p)) else 0)"
    using position_loop_start [of 0 ?b 0 tx 1] by simp
  moreover have "fst (position_loop tx 0 ?b 1 0) = 1 + count_list ?p 10"
    using position_loop_line [of 0 ?b tx 1 0] by simp
  ultimately show ?thesis
    using le none unfolding p
    by (auto simp: offsetToPosition_def Let_def column_at_def split: prod.splits)
qed

lemma column_at_snoc: "column_at (p @ [c]) = (if c = 10 then 1 else Suc (column_at p))"
  by (simp add: column_at_def)

lemma count_list_snoc: "count_list (p @ [c]) x = count_list p x + (if c = x then 1 else 0)"
  by (induction p) auto

lemma take_Suc_snoc: "n < length xs \<Longrightarrow> take (Suc n) xs = take n xs @ [xs ! n]"
  by (rule take_Suc_conv_app_nth)

text \<open>The position moves strictly forward, by line and then by column, with the offset.\<close>

definition position_key :: "position \<Rightarrow> nat \<times> nat" where
  "position_key p = (line p, column p)"

lemma position_step:
  "n < length tx \<Longrightarrow>
    position_key (offsetToPosition tx n) < position_key (offsetToPosition tx (Suc n))"
  by (simp add: position_key_def offsetToPosition_prefix take_Suc_snoc column_at_snoc
      count_list_snoc less_prod_simp)

lemma position_mono:
  "m < n \<Longrightarrow> n \<le> length tx \<Longrightarrow>
    position_key (offsetToPosition tx m) < position_key (offsetToPosition tx n)"
proof (induction n)
  case (Suc n)
  have step: "position_key (offsetToPosition tx n) < position_key (offsetToPosition tx (Suc n))"
    using Suc.prems by (intro position_step) simp
  show ?case
  proof (cases "m = n")
    case False
    with Suc have "position_key (offsetToPosition tx m) < position_key (offsetToPosition tx n)"
      by simp
    then show ?thesis using step by (rule less_trans)
  qed (use step in simp)
qed simp

section \<open>What the index holds\<close>

definition good_entry :: "jsstr \<Rightarrow> jsstr \<times> (position \<times> position) \<Rightarrow> bool" where
  "good_entry tx e \<longleftrightarrow>
     (\<exists>a b. a \<le> length tx \<and> b \<le> length tx \<and>
        snd e = (offsetToPosition tx a, offsetToPosition tx b))"

lemma scan_offset_le [simp]: "scan_offset tx r \<le> length tx"
  by (simp add: scan_offset_def)

lemma good_record:
  assumes "list_all (good_entry tx) ix" and "v \<le> length tx" and "\<And>k. ko = Some k \<Longrightarrow> k \<le> length tx"
  shows "list_all (good_entry tx) (record_pointer tx p v ko ix)"
proof -
  have "good_entry tx (p, offsetToPosition tx v,
      offsetToPosition tx (case ko of None \<Rightarrow> v | Some k \<Rightarrow> k))"
    using assms(2,3) unfolding good_entry_def by (cases ko) auto
  with assms(1) show ?thesis by (simp add: record_pointer_def)
qed

lemma set_record_pointer: "set ix \<subseteq> set (record_pointer tx p v ko ix)"
  by (auto simp: record_pointer_def)

lemma map_of_record_pointer: "map_of (record_pointer tx p v ko ix) p \<noteq> None"
  by (auto simp: record_pointer_def map_add_def split: option.splits)

definition good_index :: "jsstr \<Rightarrow> pointer_index \<Rightarrow> pointer_index \<Rightarrow> bool" where
  "good_index tx ix ix' \<longleftrightarrow>
     set ix \<subseteq> set ix' \<and> (list_all (good_entry tx) ix \<longrightarrow> list_all (good_entry tx) ix')"

lemma good_index_refl [simp]: "good_index tx ix ix"
  by (simp add: good_index_def)

lemma good_index_trans: "good_index tx a b \<Longrightarrow> good_index tx b c \<Longrightarrow> good_index tx a c"
  by (auto simp: good_index_def)

lemma good_index_record:
  "v \<le> length tx \<Longrightarrow> (\<And>k. ko = Some k \<Longrightarrow> k \<le> length tx) \<Longrightarrow>
    good_index tx ix (record_pointer tx p v ko ix)"
  by (simp add: good_index_def set_record_pointer good_record)

lemma walk_good:
  shows "walk f tx segs ko r ix = Some (Inr (r', ix')) \<Longrightarrow> (\<And>k. ko = Some k \<Longrightarrow> k \<le> length tx) \<Longrightarrow>
      good_index tx (record_pointer tx (jsonPointer segs) (scan_offset tx (skipWhitespace r)) ko ix) ix'"
    and "walk_members f tx segs r ix = Some (Inr (r', ix')) \<Longrightarrow> good_index tx ix ix'"
    and "walk_items f tx segs pos r ix = Some (Inr (r', ix')) \<Longrightarrow> good_index tx ix ix'"
proof (induction f arbitrary: segs ko r ix r' ix' pos)
  case 0
  {
    case 1
    then show ?case by (simp add: walk.simps)
  next
    case 2
    then show ?case by (simp add: walk_members.simps)
  next
    case 3
    then show ?case by (simp add: walk_items.simps)
  }
next
  case (Suc f)
  {
    case 1
    then show ?case
      by (auto simp: walk.simps Let_def split: if_splits sum.splits
          dest!: Suc.IH(2) Suc.IH(3))
  next
    case 2
    then obtain name r1 r3 ix3 where
      w: "walk f tx (segs @ [name]) (Some (scan_offset tx (skipWhitespace r)))
          (tl (skipWhitespace r1)) ix = Some (Inr (r3, ix3))"
      and rest: "peek (skipWhitespace r3) = Some 44 \<and>
          walk_members f tx segs (tl (skipWhitespace r3)) ix3 = Some (Inr (r', ix')) \<or> ix' = ix3"
      by (auto simp: walk_members.simps Let_def split: if_splits option.splits sum.splits)
    have "good_index tx ix ix3"
      by (rule good_index_trans [OF good_index_record Suc.IH(1) [OF w]]) auto
    with rest show ?case by (auto dest: Suc.IH(2) intro: good_index_trans)
  next
    case 3
    then obtain r1 ix1 where
      w: "walk f tx (segs @ [digits_of (int pos)]) None r ix = Some (Inr (r1, ix1))"
      and rest: "walk_items f tx segs (Suc pos) (tl (skipWhitespace r1)) ix1 = Some (Inr (r', ix'))
          \<or> ix' = ix1"
      by (auto simp: walk_items.simps Let_def split: if_splits option.splits sum.splits)
    have "good_index tx ix ix1"
      by (rule good_index_trans [OF good_index_record Suc.IH(1) [OF w]]) auto
    with rest show ?case by (auto dest: Suc.IH(3) intro: good_index_trans)
  }
qed

lemma index_good:
  assumes "indexJsonPointers tx = Some (Inr ix)"
  shows "list_all (good_entry tx) ix" and "map_of ix [] \<noteq> None"
proof -
  let ?i0 = "record_pointer tx (jsonPointer []) (scan_offset tx (skipWhitespace tx)) None []"
  from assms obtain r where "walk (scan_fuel tx) tx [] None tx [] = Some (Inr (r, ix))"
    by (auto simp: indexJsonPointers_def split: option.splits sum.splits)
  then have g: "good_index tx ?i0 ix" by (rule walk_good(1)) simp
  have "list_all (good_entry tx) ?i0" by (rule good_record) auto
  with g show "list_all (good_entry tx) ix" by (simp add: good_index_def)
  have "[] \<in> fst ` set ?i0"
    using map_of_record_pointer [of tx "[]" _ None "[]"]
    by (simp add: jsonPointer_def map_of_eq_None_iff)
  with g have "[] \<in> fst ` set ix" by (auto simp: good_index_def)
  then show "map_of ix [] \<noteq> None" by (simp add: map_of_eq_None_iff)
qed

lemma locate_in_index_hit:
  "map_of ix [] \<noteq> None \<Longrightarrow>
    \<exists>p value key. map_of ix p = Some (value, key) \<and>
      locate_in_index ix c pref = (if pref = PreferKey then key else value)"
proof (induction ix c pref rule: locate_in_index.induct)
  case (1 ix c pref)
  show ?case
  proof (cases "map_of ix c")
    case None
    with 1 have "c \<noteq> []" by auto
    with None 1 show ?thesis by (subst locate_in_index.simps) simp
  next
    case (Some e)
    then show ?thesis
      by (cases e) (force simp: locate_in_index.simps [of ix c])
  qed
qed

lemma index_ends: "\<exists>r. indexJsonPointers source = Some r"
proof -
  have "walk (scan_fuel source) source [] None source [] \<noteq> None"
    by (rule scan_fuel_enough(1)) (simp add: scan_fuel_def)
  then show ?thesis
    by (auto simp: indexJsonPointers_def split: option.splits sum.splits)
qed

text \<open>A looked-up position is that of an offset of the text.\<close>

lemma located_offset:
  assumes "indexJsonPointers source = Some (Inr ix)"
  shows "\<exists>off \<le> length source. locate_in_index ix pointer pref = offsetToPosition source off"
proof -
  obtain q v k where q: "map_of ix q = Some (v, k)"
    and p: "locate_in_index ix pointer pref = (if pref = PreferKey then k else v)"
    using locate_in_index_hit [OF index_good(2) [OF assms]] by blast
  have "(q, v, k) \<in> set ix" using q by (rule map_of_SomeD)
  then have "good_entry source (q, v, k)"
    using index_good(1) [OF assms] by (auto simp: list_all_iff)
  with p show ?thesis unfolding good_entry_def by auto
qed

section \<open>Properties\<close>

text \<open>
  \<open>indexJsonPointers\<close> ends on every text, malformed or not: it returns an index or raises a
  scan error with its position, and never runs on.
\<close>

lemma indexJsonPointers_ends: "\<exists>r. indexJsonPointers source = Some r"
  by (rule index_ends)

text \<open>
  Within a text the position of an offset is one more than the number of line feeds before it
  and the column after the last of them, and positions order offsets strictly, so a reported
  position names one offset.
\<close>

lemma offsetToPosition_orders:
  assumes "m \<le> length source" and "n \<le> length source"
  shows "line (offsetToPosition source m) = 1 + count_list (take m source) 10 \<and>
    (m < n \<longleftrightarrow>
      line (offsetToPosition source m) < line (offsetToPosition source n) \<or>
      line (offsetToPosition source m) = line (offsetToPosition source n) \<and>
      column (offsetToPosition source m) < column (offsetToPosition source n))"
proof -
  have "m < n \<longleftrightarrow>
      position_key (offsetToPosition source m) < position_key (offsetToPosition source n)"
    using position_mono [of m n source] position_mono [of n m source] assms
    by (metis less_asym linorder_neqE_nat order_less_irrefl)
  then show ?thesis
    by (auto simp: offsetToPosition_prefix position_key_def less_prod_simp)
qed

lemma offsetToPosition_orders_witness:
  "line (offsetToPosition [123, 10, 125] 2) = 1 + count_list (take 2 [123, 10, 125 :: 16 word]) 10 \<and>
   (2 < (3::nat) \<longleftrightarrow>
      line (offsetToPosition [123, 10, 125] 2) < line (offsetToPosition [123, 10, 125] 3) \<or>
      line (offsetToPosition [123, 10, 125] 2) = line (offsetToPosition [123, 10, 125] 3) \<and>
      column (offsetToPosition [123, 10, 125] 2) < column (offsetToPosition [123, 10, 125] 3))"
  by (rule offsetToPosition_orders) simp_all

text \<open>
  Whatever pointer is asked for, present or not, \<open>locateJsonPointer\<close> on a text that scans
  gives the position of an offset of that text: that of the value, or of the member key, recorded
  for the pointer or for the nearest ancestor the text has.
\<close>

lemma locateJsonPointer_in_text:
  "locateJsonPointer source pointer pref = Some (Inr p) \<Longrightarrow>
    \<exists>ix q value key off. indexJsonPointers source = Some (Inr ix) \<and>
      map_of ix q = Some (value, key) \<and> p = (if pref = PreferKey then key else value) \<and>
      off \<le> length source \<and> p = offsetToPosition source off"
proof -
  assume "locateJsonPointer source pointer pref = Some (Inr p)"
  then obtain ix where ix: "indexJsonPointers source = Some (Inr ix)"
    and p: "p = locate_in_index ix pointer pref"
    by (auto simp: locateJsonPointer_def split: option.splits sum.splits)
  obtain q v k where q: "map_of ix q = Some (v, k)" and pq: "p = (if pref = PreferKey then k else v)"
    using locate_in_index_hit [OF index_good(2) [OF ix]] unfolding p by blast
  have "(q, v, k) \<in> set ix" using q by (rule map_of_SomeD)
  then have "good_entry source (q, v, k)"
    using index_good(1) [OF ix] by (auto simp: list_all_iff)
  with ix q pq show ?thesis unfolding good_entry_def by auto
qed

lemma locateJsonPointer_in_text_witness:
  "\<exists>ix q value key off.
      indexJsonPointers [123, 34, 97, 34, 58, 10, 91, 49, 93, 125] = Some (Inr ix) \<and>
      map_of ix q = Some (value, key) \<and>
      \<lparr>line = 2, column = 2\<rparr> = (if PreferValue = PreferKey then key else value) \<and>
      off \<le> length ([123, 34, 97, 34, 58, 10, 91, 49, 93, 125] :: jsstr) \<and>
      \<lparr>line = 2, column = 2\<rparr> = offsetToPosition [123, 34, 97, 34, 58, 10, 91, 49, 93, 125] off"
proof -
  have "locateJsonPointer [123, 34, 97, 34, 58, 10, 91, 49, 93, 125] (js ''/a/0/x'') PreferValue
      = Some (Inr \<lparr>line = 2, column = 2\<rparr>)"
    by code_simp
  from locateJsonPointer_in_text [OF this] show ?thesis .
qed

end
