(* ===== verification/CanonicalForm.thy ===== *)
theory CanonicalForm
  imports Canonical NumberText JsonLocus
begin

text \<open>
  What the canonicaliser promises. \<open>canon_form\<close> is its specification on values: members sorted by
  name, undefined ones dropped, the set-valued arrays sorted by identity. \<open>render\<close> writes a value
  as compact JSON. The canonical text is the rendering of the canonical form, and two values have
  the same text exactly when they have the same form.
\<close>

section \<open>The specification\<close>

function (sequential) canon_form :: "jsstr list \<Rightarrow> jsstr \<Rightarrow> jsval \<Rightarrow> jsval" where
  "canon_form sets path (Arr xs) =
     Arr (map (canon_form sets (path @ js ''/*''))
       (if path \<in> set sets then sort_on identity_key xs else xs))"
| "canon_form sets path (Obj ms) =
     Obj (map (\<lambda>m. (fst m, canon_form sets (path @ js ''/'' @ fst m) (snd m)))
       (sort_on fst (filter (\<lambda>m. snd m \<noteq> Undefined) ms)))"
| "canon_form sets path Undefined = Null"
| "canon_form sets path v = v"
  by pat_completeness auto
termination
  by (relation "measure (\<lambda>(sets, path, v). size v)")
    (auto simp: less_Suc_eq_le intro!: size_list_estimation' split: if_splits)

fun render :: "jsval \<Rightarrow> jsstr" where
  "render (Arr xs) = [91] @ join [44] (map render xs) @ [93]"
| "render (Obj ms) = [123] @ join [44] (map (\<lambda>m. quote (fst m) @ [58] @ render (snd m)) ms) @ [125]"
| "render (Num n) = num_text n"
| "render (Str s) = quote s"
| "render (Bool b) = (if b then js ''true'' else js ''false'')"
| "render _ = js ''null''"

text \<open>The values that have a canonical text: finite numbers and well-formed strings throughout.\<close>

fun storable :: "jsval \<Rightarrow> bool" where
  "storable (Num n) = num_is_finite n"
| "storable (Str s) = utf16_ok s"
| "storable (Arr xs) = list_all storable xs"
| "storable (Obj ms) = list_all (\<lambda>m. utf16_ok (fst m) \<and> storable (snd m)) ms"
| "storable _ = True"

definition writes :: "jsstr list \<Rightarrow> nat \<Rightarrow> jsval \<Rightarrow> jsstr \<Rightarrow> nat \<Rightarrow> bool" where
  "writes sets maxd v path depth \<longleftrightarrow>
     storable (canon_form sets path v) \<and> depth + value_depth (canon_form sets path v) \<le> maxd"

lemma js_marks: "js ''['' = [91]" "js '']'' = [93]" "js ''{'' = [123]" "js ''}'' = [125]"
  "js '','' = [44]" "js '':'' = [58]"
  by (simp_all add: js_def unit_of_def)

text \<open>The outcome of a routine that either gives a text or throws.\<close>

definition outcome :: "'e + 'a \<Rightarrow> bool \<Rightarrow> 'a \<Rightarrow> bool" where
  "outcome c ok t \<longleftrightarrow> (if ok then c = Inr t else isl c)"

lemma writes_Arr:
  "writes sets maxd (Arr xs) path depth \<longleftrightarrow>
     depth \<le> maxd \<and> list_all (\<lambda>x. writes sets maxd x (path @ js ''/*'') (Suc depth))
       (if path \<in> set sets then sort_on identity_key xs else xs)"
  by (auto simp: writes_def list_all_iff add_fold_max_le)

lemma writes_Obj:
  "writes sets maxd (Obj ms) path depth \<longleftrightarrow>
     depth \<le> maxd \<and> list_all (\<lambda>m. utf16_ok (fst m) \<and>
       writes sets maxd (snd m) (path @ js ''/'' @ fst m) (Suc depth))
       (sort_on fst (filter (\<lambda>m. snd m \<noteq> Undefined) ms))"
  by (auto simp: writes_def list_all_iff add_fold_max_le)

lemma writes_deep: "writes sets maxd v path depth \<Longrightarrow> depth \<le> maxd"
  by (simp add: writes_def)

lemma canon_walk_outcome:
  "outcome (canon_walk sets maxd v path depth) (writes sets maxd v path depth)
     (render (canon_form sets path v))"
  "outcome (canon_items sets maxd xs path depth)
     (list_all (\<lambda>x. writes sets maxd x path depth) xs)
     (map (\<lambda>x. render (canon_form sets path x)) xs)"
  "outcome (canon_members sets maxd ms path depth)
     (list_all (\<lambda>m. utf16_ok (fst m) \<and>
       writes sets maxd (snd m) (path @ js ''/'' @ fst m) depth) ms)
     (map (\<lambda>m. quote (fst m) @ js '':'' @ render (canon_form sets (path @ js ''/'' @ fst m) (snd m))) ms)"
proof (induction sets maxd v path depth and sets maxd xs path depth and sets maxd ms path depth
    rule: canon_walk_canon_items_canon_members.induct)
  case (1 sets maxd node path depth)
  show ?case
  proof (cases "maxd < depth")
    case True
    then show ?thesis using writes_deep [of sets maxd node path depth]
      by (auto simp: outcome_def canon_walk.simps)
  next
    case False
    show ?thesis
    proof (cases node)
      case (Arr xs)
      define ys where "ys = (if path \<in> set sets then sort_on identity_key xs else xs)"
      have "canon_walk sets maxd node path depth =
          (case canon_items sets maxd ys (path @ js ''/*'') (Suc depth) of
             Inl e \<Rightarrow> Inl e | Inr ts \<Rightarrow> Inr (js ''['' @ join (js '','') ts @ js '']''))"
        using False by (simp add: Arr canon_walk.simps ys_def)
      moreover have "writes sets maxd node path depth \<longleftrightarrow>
          list_all (\<lambda>x. writes sets maxd x (path @ js ''/*'') (Suc depth)) ys"
        using False by (simp add: Arr writes_Arr ys_def)
      moreover have "canon_form sets path node = Arr (map (canon_form sets (path @ js ''/*'')) ys)"
        by (simp add: Arr ys_def)
      ultimately show ?thesis using 1(1) [OF False Arr, folded ys_def]
        by (auto simp: outcome_def js_marks comp_def split: sum.splits)
    next
      case (Obj ms)
      define ns where "ns = sort_on fst (filter (\<lambda>m. snd m \<noteq> Undefined) ms)"
      have "canon_walk sets maxd node path depth =
          (case canon_members sets maxd ns path (Suc depth) of
             Inl e \<Rightarrow> Inl e | Inr ts \<Rightarrow> Inr (js ''{'' @ join (js '','') ts @ js ''}''))"
        using False by (simp add: Obj canon_walk.simps ns_def)
      moreover have "writes sets maxd node path depth \<longleftrightarrow>
          list_all (\<lambda>m. utf16_ok (fst m) \<and>
            writes sets maxd (snd m) (path @ js ''/'' @ fst m) (Suc depth)) ns"
        using False by (simp add: Obj writes_Obj ns_def)
      moreover have "canon_form sets path node =
          Obj (map (\<lambda>m. (fst m, canon_form sets (path @ js ''/'' @ fst m) (snd m))) ns)"
        by (simp add: Obj ns_def)
      ultimately show ?thesis using 1(2) [OF False Obj, folded ns_def]
        by (auto simp: outcome_def js_marks comp_def split: sum.splits)
    qed (use False in \<open>auto simp: outcome_def canon_walk.simps writes_def renderString_def\<close>)
  qed
next
  case (3 sets maxd x xs path depth)
  then show ?case
    by (cases "canon_walk sets maxd x path depth") (auto simp: outcome_def split: sum.splits if_splits)
next
  case (5 sets maxd k v ms path depth)
  show ?case
  proof (cases "utf16_ok k \<and> writes sets maxd v (path @ js ''/'' @ k) depth")
    case True
    then have k: "renderString k (path @ js ''/'' @ k) = Inr (quote k)"
      by (simp add: renderString_def)
    have w: "canon_walk sets maxd v (path @ js ''/'' @ k) depth =
        Inr (render (canon_form sets (path @ js ''/'' @ k) v))"
      using 5(1) [OF k] True by (simp add: outcome_def)
    show ?thesis using 5(2) [OF k w] True
      by (auto simp: outcome_def k w split: sum.splits if_splits)
  next
    case False
    then show ?thesis
      using 5(1) [of "quote k"]
      by (cases "utf16_ok k") (auto simp: outcome_def renderString_def split: sum.splits if_splits)
  qed
qed (simp_all add: outcome_def)

text \<open>A canonical text exists exactly for the storable values within the depth bound.\<close>

lemma canonicalize_succeeds:
  "canonicalize_with sets maxd v = Inr t \<longleftrightarrow>
     storable (canon_form sets [] v) \<and> value_depth (canon_form sets [] v) \<le> maxd \<and>
     t = render (canon_form sets [] v)"
  using canon_walk_outcome(1) [of sets maxd v "[]" 0]
  by (auto simp: canonicalize_with_def outcome_def writes_def split: if_splits)

section \<open>The scanner reads a string back\<close>

lemma unicode_escape_control:
  "c < 32 \<Longrightarrow> from_char_code (parse_hex (drop 2 (unicode_escape c))) = c \<and> length (unicode_escape c) = 6"
proof -
  assume "c < 32"
  then have "unat c < 32" by (simp add: word_less_nat_alt)
  then have "c \<in> set (map word_of_nat [0..<32])"
    by (auto intro!: image_eqI [of _ _ "unat c"])
  moreover have "list_all (\<lambda>c :: 16 word. from_char_code (parse_hex (drop 2 (unicode_escape c))) = c)
      (map word_of_nat [0..<32])"
    by code_simp
  ultimately have "from_char_code (parse_hex (drop 2 (unicode_escape c))) = c"
    unfolding list_all_iff by blast
  then show ?thesis by (simp add: unicode_escape_def Let_def)
qed

lemma string_loop_escape:
  assumes "\<not> high_surrogate c" and "\<not> low_surrogate c"
  shows "string_loop text v (escape_unit c @ r) = string_loop text (v @ [c]) r"
proof (cases "c < 32 \<and> c \<notin> {8, 9, 10, 12, 13}")
  case True
  then have e: "escape_unit c = unicode_escape c" by (auto simp: escape_unit_def)
  obtain h where h: "unicode_escape c = 92 # 117 # h" "length h = 4"
    by (simp add: unicode_escape_def Let_def)
  then have "from_char_code (parse_hex h) = c"
    using unicode_escape_control [of c] True by simp
  then show ?thesis using h(2) by (simp add: e h(1))
next
  case False
  then show ?thesis by (auto simp: escape_unit_def simple_escape_def)
qed

lemma string_loop_quote:
  "utf16_ok s \<Longrightarrow> string_loop text v (quote_body s @ 34 # r) = Inr (v @ s, r)"
proof (induction s arbitrary: v rule: quote_body.induct)
  case (3 c d ds)
  note string_loop.simps [simp]
  have big: "e \<noteq> 34 \<and> e \<noteq> 92" if "high_surrogate e \<or> low_surrogate e" for e
    using that by (auto simp: high_surrogate_def low_surrogate_def word_le_nat_alt)
  show ?case
  proof (cases "high_surrogate c")
    case True
    then show ?thesis using 3 big [of c] big [of d] by auto
  next
    case False
    then show ?thesis using 3 by (auto simp: string_loop_escape)
  qed
qed (auto simp: string_loop_escape split: if_splits)

lemma readString_quote: "utf16_ok s \<Longrightarrow> readString text (quote s @ r) = Inr (s, r)"
  by (simp add: readString_def quote_def peek_def string_loop_quote)

section \<open>The text determines the form\<close>

text \<open>
  A value that can be told from its rendering: no \<open>undefined\<close>, finite binary64 numbers and
  well-formed strings. \<open>stops r\<close>: what may follow a value in a text.
\<close>

fun exact :: "jsval \<Rightarrow> bool" where
  "exact Undefined = False"
| "exact (Num (Fin q)) = is_double q"
| "exact (Num _) = False"
| "exact (Str s) = utf16_ok s"
| "exact (Arr xs) = list_all exact xs"
| "exact (Obj ms) = list_all (\<lambda>m. utf16_ok (fst m) \<and> exact (snd m)) ms"
| "exact _ = True"

definition stops :: "jsstr \<Rightarrow> bool" where
  "stops r \<longleftrightarrow> r = [] \<or> hd r = 44 \<or> hd r = 93 \<or> hd r = 125"

lemma words: "js ''true'' = [116, 114, 117, 101]" "js ''false'' = [102, 97, 108, 115, 101]"
  "js ''null'' = [110, 117, 108, 108]"
  by (simp_all add: js_def unit_of_def)

lemma num_text_units:
  assumes "is_double q"
  shows "(\<forall>c\<in>set (num_text (Fin q)). number_unit c)" and "num_text (Fin q) \<noteq> []"
proof -
  consider "q = 0" | "0 < q" | "q < 0" by linarith
  then have "(\<forall>c\<in>set (num_text (Fin q)). number_unit c) \<and> num_text (Fin q) \<noteq> []"
  proof cases
    case 1
    then show ?thesis by (simp add: js_chars number_unit_def is_digit_unit_def word_le_nat_alt)
  next
    case 2
    then show ?thesis using positive_text_units [OF assms 2] by auto
  next
    case 3
    have "is_double (- q)" using round64_minus [of q q] assms by (simp add: is_double_def)
    then show ?thesis using positive_text_units [of "- q"] 3 by (auto simp: js_chars number_unit_def)
  qed
  then show "(\<forall>c\<in>set (num_text (Fin q)). number_unit c)" and "num_text (Fin q) \<noteq> []" by auto
qed

text \<open>Whether a text begins as a number.\<close>

definition numeric_start :: "jsstr \<Rightarrow> bool" where
  "numeric_start t \<longleftrightarrow> t \<noteq> [] \<and> number_unit (hd t)"

lemma not_number_unit:
  "\<not> number_unit 34" "\<not> number_unit 91" "\<not> number_unit 123" "\<not> number_unit 110"
  "\<not> number_unit 116" "\<not> number_unit 102" "\<not> number_unit 44" "\<not> number_unit 93"
  "\<not> number_unit 125"
  by (auto simp: number_unit_def is_digit_unit_def word_le_nat_alt)

lemma num_text_prefix:
  assumes "is_double p" and "is_double q" and "stops r" and "stops r'"
    and "num_text (Fin p) @ r = num_text (Fin q) @ r'"
  shows "p = q \<and> r = r'"
proof -
  have t: "takeWhile number_unit (num_text (Fin x) @ y) = num_text (Fin x)"
    if "is_double x" "stops y" for x y
  proof -
    have "takeWhile number_unit y = []"
      using that(2) not_number_unit by (cases y) (auto simp: stops_def)
    then show ?thesis using num_text_units [OF that(1)] by (simp add: takeWhile_append2)
  qed
  have "num_text (Fin p) = num_text (Fin q)"
    using t [OF assms(1,3)] t [OF assms(2,4)] assms(5) by metis
  then show ?thesis using num_text_injective [OF assms(1,2)] assms(5) by auto
qed

lemma quote_prefix:
  "utf16_ok s \<Longrightarrow> utf16_ok s' \<Longrightarrow> quote s @ r = quote s' @ r' \<Longrightarrow> s = s' \<and> r = r'"
  using readString_quote [of s "[]" r] readString_quote [of s' "[]" r']
  by (metis sum.inject(2) prod.inject)

lemma quote_start: "quote s @ r = 34 # tl (quote s @ r)"
  by (simp add: quote_def)

definition tails :: "('a \<Rightarrow> jsstr) \<Rightarrow> 'a list \<Rightarrow> jsstr" where
  "tails f xs = concat (map (\<lambda>x. 44 # f x) xs)"

lemma join_tails: "join [44] (map f (x # xs)) = f x @ tails f xs"
proof (induction xs arbitrary: x)
  case (Cons y ys)
  then show ?case by (simp add: tails_def)
qed (simp add: tails_def)

text \<open>
  Lists of texts separated by commas: if every item can be told from what follows it, and no item
  begins as the closing mark does, the list can be told from what follows it.
\<close>

lemma tails_prefix:
  assumes "\<And>x y r r'. x \<in> set xs \<Longrightarrow> P y \<Longrightarrow> stops r \<Longrightarrow> stops r' \<Longrightarrow>
      f x @ r = f y @ r' \<Longrightarrow> x = y \<and> r = r'"
    and "list_all P ys" and "e = 93 \<or> e = 125" and "tails f xs @ e # r = tails f ys @ e # r'"
  shows "xs = ys \<and> r = r'"
  using assms
proof (induction xs arbitrary: ys)
  case Nil
  then show ?case by (cases ys) (auto simp: tails_def)
next
  case (Cons x xs)
  from Cons.prems(3,4) obtain y zs where ys: "ys = y # zs"
    by (cases ys) (auto simp: tails_def)
  have st: "stops (tails f us @ e # s)" for us s
    using Cons.prems(3) by (cases us) (auto simp: tails_def stops_def)
  have "f x @ tails f xs @ e # r = f y @ tails f zs @ e # r'"
    using Cons.prems(4) by (simp add: ys tails_def)
  then have "x = y" "tails f xs @ e # r = tails f zs @ e # r'"
    using Cons.prems(1) [of x y, OF _ _ st st] Cons.prems(2) by (auto simp: ys)
  moreover have "xs = zs \<and> r = r'"
    using Cons.prems calculation(2) by (intro Cons.IH) (auto simp: ys)
  ultimately show ?case by (simp add: ys)
qed

lemma join_prefix:
  assumes "\<And>x y r r'. x \<in> set xs \<Longrightarrow> P y \<Longrightarrow> stops r \<Longrightarrow> stops r' \<Longrightarrow>
      f x @ r = f y @ r' \<Longrightarrow> x = y \<and> r = r'"
    and "list_all P ys" and "e = 93 \<or> e = 125"
    and "\<And>x. x \<in> set xs \<or> P x \<Longrightarrow> f x \<noteq> [] \<and> hd (f x) \<noteq> e"
    and "join [44] (map f xs) @ e # r = join [44] (map f ys) @ e # r'"
  shows "xs = ys \<and> r = r'"
proof (cases xs)
  case Nil
  have "ys = []"
  proof (rule ccontr)
    assume "ys \<noteq> []"
    then obtain y zs where ys: "ys = y # zs" by (cases ys) auto
    have "e # r = f y @ tails f zs @ e # r'"
      using assms(5) unfolding ys join_tails Nil by simp
    then show False using assms(2) assms(4) [of y] ys by (cases "f y") auto
  qed
  then show ?thesis using assms(5) Nil by simp
next
  case (Cons x us)
  then obtain y zs where ys: "ys = y # zs"
  proof (cases ys)
    case Nil
    have "f x @ tails f us @ e # r = e # r'"
      using assms(5) unfolding Nil Cons join_tails by simp
    then show ?thesis using assms(4) [of x] Cons by (cases "f x") auto
  qed auto
  have "tails f xs @ e # r = tails f ys @ e # r'"
    using arg_cong [OF assms(5), of "Cons 44"] unfolding Cons ys join_tails by (simp add: tails_def)
  then show ?thesis using tails_prefix [OF assms(1-3)] by blast
qed

definition mark :: "jsval \<Rightarrow> 16 word" where
  "mark v = hd (render v)"

lemma render_mark:
  assumes "exact v"
  shows "render v \<noteq> []" and "number_unit (mark v) \<longleftrightarrow> (\<exists>n. v = Num n)"
    and "mark v \<in> {91, 123, 34, 116, 102, 110} \<or> number_unit (mark v)"
proof -
  have "render v \<noteq> [] \<and> (number_unit (mark v) \<longleftrightarrow> (\<exists>n. v = Num n)) \<and>
      (mark v \<in> {91, 123, 34, 116, 102, 110} \<or> number_unit (mark v))"
  proof (cases v)
    case (Num n)
    then obtain q where q: "n = Fin q" "is_double q" using assms by (cases n) auto
    then show ?thesis using num_text_units [OF q(2)] Num by (auto simp: mark_def)
  qed (use assms not_number_unit in \<open>auto simp: mark_def words quote_def\<close>)
  then show "render v \<noteq> []" and "number_unit (mark v) \<longleftrightarrow> (\<exists>n. v = Num n)"
    and "mark v \<in> {91, 123, 34, 116, 102, 110} \<or> number_unit (mark v)" by blast+
qed

lemma render_no_close: "exact v \<Longrightarrow> e = 93 \<or> e = 125 \<Longrightarrow> render v \<noteq> [] \<and> hd (render v) \<noteq> e"
  using render_mark [of v] not_number_unit by (auto simp: mark_def)

lemma mark_eq:
  "exact v \<Longrightarrow> exact w \<Longrightarrow> render v @ r = render w @ r' \<Longrightarrow> mark v = mark w"
  using render_mark(1) [of v] render_mark(1) [of w] by (metis hd_append2 mark_def)

lemma mark_simps:
  "mark (Arr xs) = 91" "mark (Obj ms) = 123" "mark (Str s) = 34" "mark Null = 110"
  "mark (Bool b) = (if b then 116 else 102)"
  by (simp_all add: mark_def words quote_def)

lemma render_prefix:
  "exact v \<Longrightarrow> exact w \<Longrightarrow> stops r \<Longrightarrow> stops r' \<Longrightarrow> render v @ r = render w @ r' \<Longrightarrow>
    v = w \<and> r = r'"
proof (induction v arbitrary: w r r')
  case (Num n)
  then have "number_unit (mark w)" using mark_eq render_mark(2) by metis
  then obtain m where m: "w = Num m" using render_mark(2) Num.prems(2) by blast
  with Num show ?case by (cases n; cases m) (auto dest: num_text_prefix)
next
  case (Arr xs)
  have "mark w = 91" using mark_eq [OF Arr.prems(1,2,5)] by (simp add: mark_simps)
  then obtain ys where w: "w = Arr ys"
    using render_mark(2) [OF Arr.prems(2)] not_number_unit Arr.prems(2)
    by (cases w) (auto simp: mark_simps split: if_splits)
  have "xs = ys \<and> r = r'"
  proof (rule join_prefix [where P = exact and f = render and e = 93])
    show "x = y \<and> s = s'" if "x \<in> set xs" "exact y" "stops s" "stops s'"
      "render x @ s = render y @ s'" for x y s s'
      using Arr.IH [OF that(1) _ that(2-5)] Arr.prems(1) that(1) by (auto simp: list_all_iff)
    show "list_all exact ys" using Arr.prems(2) by (simp add: w)
    show "render x \<noteq> [] \<and> hd (render x) \<noteq> 93" if "x \<in> set xs \<or> exact x" for x
      using render_no_close that Arr.prems(1) by (auto simp: list_all_iff)
    show "join [44] (map render xs) @ 93 # r = join [44] (map render ys) @ 93 # r'"
      using Arr.prems(5) by (simp add: w)
  qed simp
  then show ?case by (simp add: w)
next
  case (Obj ms)
  let ?f = "\<lambda>m. quote (fst m) @ [58] @ render (snd m)"
  let ?P = "\<lambda>m. utf16_ok (fst m) \<and> exact (snd m)"
  have "mark w = 123" using mark_eq [OF Obj.prems(1,2,5)] by (simp add: mark_simps)
  then obtain ns where w: "w = Obj ns"
    using render_mark(2) [OF Obj.prems(2)] not_number_unit Obj.prems(2)
    by (cases w) (auto simp: mark_simps split: if_splits)
  have "ms = ns \<and> r = r'"
  proof (rule join_prefix [where P = ?P and f = ?f and e = 125])
    show "x = y \<and> s = s'" if x: "x \<in> set ms" and y: "?P y" and s: "stops s" "stops s'"
      and e: "?f x @ s = ?f y @ s'" for x y s s'
    proof -
      have px: "?P x" using Obj.prems(1) x by (auto simp: list_all_iff)
      have "quote (fst x) @ (58 # render (snd x) @ s) = quote (fst y) @ (58 # render (snd y) @ s')"
        using e by simp
      then have k: "fst x = fst y" and "render (snd x) @ s = render (snd y) @ s'"
        using quote_prefix px y by blast+
      then have "snd x = snd y \<and> s = s'"
        using Obj.IH [of x "snd x"] x px y s by (cases x) auto
      with k show ?thesis by (simp add: prod_eq_iff)
    qed
    show "list_all ?P ns" using Obj.prems(2) by (simp add: w)
    show "?f x \<noteq> [] \<and> hd (?f x) \<noteq> 125" for x by (simp add: quote_def)
    show "join [44] (map ?f ms) @ 125 # r = join [44] (map ?f ns) @ 125 # r'"
      using Obj.prems(5) by (simp add: w)
  qed simp
  then show ?case by (simp add: w)
next
  case (Str s)
  have "mark w = 34" using mark_eq [OF Str.prems(1,2,5)] by (simp add: mark_simps)
  then obtain t where "w = Str t"
    using render_mark(2) [OF Str.prems(2)] not_number_unit Str.prems(2)
    by (cases w) (auto simp: mark_simps split: if_splits)
  then show ?case using Str quote_prefix [of s t r r'] by auto
next
  case (Bool b)
  have "mark w = (if b then 116 else 102)" using mark_eq [OF Bool.prems(1,2,5)] by (simp add: mark_simps)
  then have "w = Bool b"
    using render_mark(2) [OF Bool.prems(2)] not_number_unit Bool.prems(2)
    by (cases w) (auto simp: mark_simps split: if_splits)
  then show ?case using Bool by auto
next
  case Null
  have "mark w = 110" using mark_eq [OF Null.prems(1,2,5)] by (simp add: mark_simps)
  then have "w = Null"
    using render_mark(2) [OF Null.prems(2)] not_number_unit Null.prems(2)
    by (cases w) (auto simp: mark_simps split: if_splits)
  then show ?case using Null by auto
qed simp

lemma render_inject: "exact v \<Longrightarrow> exact w \<Longrightarrow> render v = render w \<longleftrightarrow> v = w"
  using render_prefix [of v w "[]" "[]"] by (auto simp: stops_def)

section \<open>The canonical text is a normal form\<close>

lemma exact_Num: "wf_value (Num n) \<Longrightarrow> exact (Num n)"
  by (cases n) auto

lemma exact_canon_form:
  "wf_value v \<Longrightarrow> storable (canon_form sets path v) \<Longrightarrow> exact (canon_form sets path v)"
proof (induction sets path v rule: canon_form.induct)
  case (1 sets path xs)
  then show ?case by (auto simp: list_all_iff)
next
  case (2 sets path ms)
  then show ?case by (fastforce simp: list_all_iff)
qed (auto simp del: wf_value.simps(2,3) exact.simps(2,3) simp: exact_Num)

text \<open>
  The same data written differently: members in another order, an identity set in another order,
  at any depth.
\<close>

inductive same_data :: "jsstr list \<Rightarrow> jsstr \<Rightarrow> jsval \<Rightarrow> jsval \<Rightarrow> bool" for sets where
  same_refl: "same_data sets path v v"
| same_trans: "same_data sets path u v \<Longrightarrow> same_data sets path v w \<Longrightarrow> same_data sets path u w"
| same_members: "mset ms = mset ns \<Longrightarrow> distinct (map fst ms) \<Longrightarrow>
    same_data sets path (Obj ms) (Obj ns)"
| same_set: "path \<in> set sets \<Longrightarrow> mset xs = mset ys \<Longrightarrow> inj_on identity_key (set xs) \<Longrightarrow>
    same_data sets path (Arr xs) (Arr ys)"
| same_member: "same_data sets (path @ js ''/'' @ k) v w \<Longrightarrow> (v = Undefined \<longleftrightarrow> w = Undefined) \<Longrightarrow>
    same_data sets path (Obj (ms @ (k, v) # ns)) (Obj (ms @ (k, w) # ns))"
| same_item: "same_data sets (path @ js ''/*'') v w \<Longrightarrow>
    path \<in> set sets \<longrightarrow> identity_key v = identity_key w \<Longrightarrow>
    same_data sets path (Arr (xs @ v # ys)) (Arr (xs @ w # ys))"

lemma sort_on_map: "sort_on f (map g xs) = map g (sort_on (\<lambda>x. f (g x)) xs)"
  by (simp add: sort_on_def stable_sort_map)

text \<open>Two lists with the same keys, whose members have the same image, sort to the same image.\<close>

lemma sort_on_pairs:
  assumes "map f xs = map f ys" and "map g xs = map g ys"
  shows "map g (sort_on f xs) = map g (sort_on f ys)"
proof -
  have e: "map (\<lambda>x. (f x, g x)) xs = map (\<lambda>x. (f x, g x)) ys"
    using assms by (induction xs ys rule: list_induct2') auto
  have "map g (sort_on f zs) = map snd (sort_on fst (map (\<lambda>x. (f x, g x)) zs))" for zs
    by (simp add: sort_on_map comp_def)
  then show ?thesis by (simp only: e)
qed

lemma same_data_form: "same_data sets path v w \<Longrightarrow> canon_form sets path v = canon_form sets path w"
proof (induction rule: same_data.induct)
  case (same_members ms ns path)
  have "sort_on fst (filter (\<lambda>m. snd m \<noteq> Undefined) ms) =
      sort_on fst (filter (\<lambda>m. snd m \<noteq> Undefined) ns)"
    using same_members by (intro sort_on_perm) (auto simp: distinct_map intro: inj_on_subset)
  then show ?case by simp
next
  case (same_set path xs ys)
  then have "sort_on identity_key xs = sort_on identity_key ys" by (intro sort_on_perm)
  with same_set show ?case by simp
next
  case (same_member path k v w ms ns)
  let ?g = "\<lambda>m. (fst m, canon_form sets (path @ js ''/'' @ fst m) (snd m))"
  have "map ?g (sort_on fst (filter (\<lambda>m. snd m \<noteq> Undefined) (ms @ (k, v) # ns))) =
      map ?g (sort_on fst (filter (\<lambda>m. snd m \<noteq> Undefined) (ms @ (k, w) # ns)))"
    using same_member by (intro sort_on_pairs) auto
  then show ?case by simp
next
  case (same_item path v w xs ys)
  have "map (canon_form sets (path @ js ''/*'')) (sort_on identity_key (xs @ v # ys)) =
      map (canon_form sets (path @ js ''/*'')) (sort_on identity_key (xs @ w # ys))"
    if "path \<in> set sets"
    using same_item that by (intro sort_on_pairs) auto
  with same_item show ?case by simp
qed auto

lemma canon_form_defined: "canon_form sets path v \<noteq> Undefined"
  by (cases v) auto

text \<open>Canonicalising the form, with no sets left to sort, gives what the value gives.\<close>

lemma canon_walk_form:
  "canon_walk sets maxd v path depth = canon_walk [] maxd (canon_form sets path v) path depth"
  "canon_items sets maxd xs path depth = canon_items [] maxd (map (canon_form sets path) xs) path depth"
  "canon_members sets maxd ms path depth =
     canon_members [] maxd (map (\<lambda>m. (fst m, canon_form sets (path @ js ''/'' @ fst m) (snd m))) ms)
       path depth"
proof (induction sets maxd v path depth and sets maxd xs path depth and sets maxd ms path depth
    rule: canon_walk_canon_items_canon_members.induct)
  case (1 sets maxd node path depth)
  show ?case
  proof (cases "maxd < depth")
    case False
    show ?thesis
    proof (cases node)
      case (Arr xs)
      show ?thesis using 1(1) [OF False Arr] False
        by (simp add: Arr canon_walk.simps)
    next
      case (Obj ms)
      let ?g = "\<lambda>m. (fst m, canon_form sets (path @ js ''/'' @ fst m) (snd m))"
      define ns where "ns = sort_on fst (filter (\<lambda>m. snd m \<noteq> Undefined) ms)"
      have "filter (\<lambda>m. snd m \<noteq> Undefined) (map ?g ns) = map ?g ns"
        by (simp add: filter_map comp_def canon_form_defined)
      moreover have "sort_on fst (map ?g ns) = map ?g ns"
        using sorted_sort_on [of fst "filter (\<lambda>m. snd m \<noteq> Undefined) ms"]
        by (intro sort_on_sorted) (simp add: comp_def ns_def)
      ultimately show ?thesis using 1(2) [OF False Obj, folded ns_def] False
        by (simp add: Obj canon_walk.simps ns_def [symmetric])
    qed (simp_all add: canon_walk.simps)
  qed (simp add: canon_walk.simps)
next
  case (5 sets maxd k v ms path depth)
  then show ?case by (auto split: sum.splits)
qed (auto split: sum.splits)

lemma same_data_canonical:
  "same_data sets [] v w \<Longrightarrow> canonicalize_with sets maxd v = canonicalize_with sets maxd w"
  using canon_walk_form(1) [of sets maxd v "[]" 0] canon_walk_form(1) [of sets maxd w "[]" 0]
  by (simp add: canonicalize_with_def same_data_form)

section \<open>Materialising \<open>nullable\<close>\<close>

lemma update_same: "map_of xs k = Some w \<Longrightarrow> AList.update k w xs = xs"
  by (induction xs) (auto split: if_splits)

lemma get_set_member [simp]:
  "is_object v \<Longrightarrow> get (set_member k w v) k = w"
  "j \<noteq> k \<Longrightarrow> get (set_member k w v) j = get v j"
  by (auto simp: get_def get_at_def set_member_def update_conv' split: jsval.splits)

lemma is_object_set_member [simp]: "is_object (set_member k w v) = is_object v"
  by (simp add: set_member_def split: jsval.splits)

lemma set_member_same: "get v k = w \<Longrightarrow> w \<noteq> Undefined \<Longrightarrow> set_member k w v = v"
  by (cases v) (auto simp: set_member_def get_def get_at_def update_same split: option.splits)

lemma get_map_member [simp]:
  "f Undefined = Undefined \<Longrightarrow> get (map_member k f v) k = f (get v k)"
  "j \<noteq> k \<Longrightarrow> get (map_member k f v) j = get v j"
  using get_not_Undefined_object [of v k] by (auto simp: map_member_def)

lemma is_object_map_member [simp]: "is_object (map_member k f v) = is_object v"
  by (simp add: map_member_def)

lemma map_member_fixed: "f (get v k) = get v k \<Longrightarrow> map_member k f v = v"
  by (simp add: map_member_def set_member_same)

lemma map_objects_Undefined [simp]: "map_objects f Undefined = Undefined"
  by (simp add: map_objects_def)

lemma map_objects_idem:
  assumes "\<And>x. is_object x \<Longrightarrow> is_object (f x) \<and> f (f x) = f x"
  shows "map_objects f (map_objects f v) = map_objects f v"
  using assms by (cases v) (auto simp: map_objects_def)

lemma as_array_map_objects:
  assumes "\<And>x. is_object x \<Longrightarrow> is_object (f x)"
  shows "as_array (map_objects f v) = map f (as_array v)"
proof (cases v)
  case (Arr xs)
  have "filter is_object (map (\<lambda>x. if is_object x then f x else x) xs) = map f (filter is_object xs)"
    using assms by (induction xs) auto
  then show ?thesis by (simp add: Arr as_array_def map_objects_def)
qed (simp_all add: as_array_def map_objects_def)

lemma is_object_materialize [simp]: "is_object (materialize x) = is_object x"
  by (simp add: materialize_def)

lemma materialize_idem: "is_object x \<Longrightarrow> materialize (materialize x) = materialize x"
  by (simp add: materialize_def set_member_same)

lemma is_object_materialize_operation [simp]: "is_object (materialize_operation x) = is_object x"
  by (simp add: materialize_operation_def)

lemma fields_idem: "map_objects materialize (map_objects materialize v) = map_objects materialize v"
  by (rule map_objects_idem) (simp add: materialize_idem)

lemma materialize_operation_idem:
  "materialize_operation (materialize_operation x) = materialize_operation x"
  by (simp add: materialize_operation_def map_member_fixed fields_idem)

lemma operations_idem:
  "map_objects materialize_operation (map_objects materialize_operation v) =
     map_objects materialize_operation v"
  by (rule map_objects_idem) (simp add: materialize_operation_idem)

lemma is_object_materialize_definition [simp]: "is_object (materialize_definition x) = is_object x"
  by (simp add: materialize_definition_def)

lemma materialize_definition_idem:
  "materialize_definition (materialize_definition x) = materialize_definition x"
  by (simp add: materialize_definition_def map_member_fixed fields_idem operations_idem)

lemma materialize_document_idem:
  "materialize_document (materialize_document d) = materialize_document d"
proof (cases "is_object d")
  case True
  have t: "map_objects materialize_definition (map_objects materialize_definition v) =
      map_objects materialize_definition v" for v
    by (rule map_objects_idem) (simp add: materialize_definition_idem)
  let ?c = "Obj [(js ''algorithm'', Str (js ''rfc8785-v1''))]"
  have "get (materialize_document d) ''canonicalization'' = ?c"
    using True by (simp add: materialize_document_def)
  then have "set_member ''canonicalization'' ?c (materialize_document d) = materialize_document d"
    by (rule set_member_same) simp
  moreover have "map_member ''types'' (map_objects materialize_definition) (materialize_document d) =
      materialize_document d"
    by (rule map_member_fixed) (simp add: materialize_document_def t)
  ultimately show ?thesis by (simp only: materialize_document_def [of "materialize_document d"])
next
  case False
  then show ?thesis
    by (cases d) (simp_all add: materialize_document_def map_member_def set_member_def)
qed

text \<open>Every field and every operation parameter of a document.\<close>

definition slots_of :: "jsval \<Rightarrow> jsval list" where
  "slots_of document =
     concat (map (\<lambda>d. as_array (get d ''fields'') @
         concat (map (\<lambda>op. as_array (get op ''params'')) (as_array (get d ''operations''))))
       (as_array (get document ''types'')))"

lemma slots_of_materialize: "slots_of (materialize_document d) = map materialize (slots_of d)"
  by (simp add: slots_of_def materialize_document_def materialize_definition_def
      materialize_operation_def as_array_map_objects map_concat comp_def)

section \<open>Properties\<close>

text \<open>
  C2. \<open>canonicalize\<close> gives a text exactly for the values whose canonical form holds only finite
  numbers and well-formed strings and is no deeper than the bound; the text is then the compact
  JSON rendering of the canonical form: members sorted by name, identity sets sorted by identity,
  undefined members dropped.
\<close>

theorem canonicalize_specification:
  "canonicalize_with sets maxd v = Inr t \<longleftrightarrow>
     storable (canon_form sets [] v) \<and> value_depth (canon_form sets [] v) \<le> maxd \<and>
     t = render (canon_form sets [] v)"
  by (rule canonicalize_succeeds)

text \<open>
  C1. The canonical text is an identity: two parsed JSON values that canonicalise have the same
  text exactly when their canonical forms are equal, so no two different values collide and
  nothing but the order of members and of identity sets is forgotten.
\<close>

theorem canonical_text_identifies:
  assumes "wf_value v" and "wf_value w"
    and "canonicalize_with sets maxd v = Inr t" and "canonicalize_with sets maxd w = Inr u"
  shows "t = u \<longleftrightarrow> canon_form sets [] v = canon_form sets [] w"
  using assms render_inject exact_canon_form by (simp add: canonicalize_succeeds)

definition example_left :: jsval where
  "example_left = Obj [(js ''b'', Bool True), (js ''a'', Str (js ''x''))]"

definition example_right :: jsval where
  "example_right = Obj [(js ''a'', Str (js ''x'')), (js ''b'', Bool False)]"

lemma example_texts:
  "canonicalize_with [] 128 example_left = Inr (render (canon_form [] [] example_left))"
  "canonicalize_with [] 128 example_right = Inr (render (canon_form [] [] example_right))"
  "wf_value example_left" "wf_value example_right"
  by (simp only: canonicalize_succeeds, code_simp)+ code_simp+

theorem canonical_text_identifies_witness:
  "render (canon_form [] [] example_left) \<noteq> render (canon_form [] [] example_right)"
proof -
  have "canon_form [] [] example_left \<noteq> canon_form [] [] example_right" by code_simp
  then show ?thesis
    using canonical_text_identifies [OF example_texts(3,4,1,2)] by simp
qed

text \<open>
  The canonical text, or the refusal, does not depend on how the data is written down: members
  in any order and identity-keyed sets in any order, at any depth, give the same result.
\<close>

lemma canonicalize_order_free:
  assumes "same_data sets [] v w"
  shows "canonicalize_with sets maxd v = canonicalize_with sets maxd w"
  using assms by (rule same_data_canonical)

lemma canonicalize_order_free_witness:
  "canonicalize_with [[]] 3 (Arr [Obj [(js ''identity'', Str (js ''b''))], Obj [(js ''identity'', Str (js ''a''))]]) =
   canonicalize_with [[]] 3 (Arr [Obj [(js ''identity'', Str (js ''a''))], Obj [(js ''identity'', Str (js ''b''))]])"
  by (rule canonicalize_order_free, rule same_set)
    (auto simp: identity_key_def coalesce_def nullish_def inj_on_def)

text \<open>
  A string the canonicaliser writes is read back by the compiler's own JSON scanner, to the
  same string and with nothing left over, whatever follows it in the text.
\<close>

lemma renderString_reads_back:
  assumes "renderString s path = Inr t"
  shows "readString full (t @ rest) = Inr (s, rest)"
  using assms readString_quote [of s full rest] by (simp add: renderString_def split: if_splits)

lemma renderString_reads_back_witness:
  "readString [] ([34, 97, 92, 34, 92, 117, 48, 48, 48, 49, 34] @ [44]) = Inr ([97, 34, 1], [44])"
  by (rule renderString_reads_back [where path = "[]"]) code_simp

text \<open>
  Normalisation writes an explicit boolean \<open>nullable\<close> on every field and every operation
  parameter, true exactly where it was literally true, changes no other slot, and normalising a
  normalised document changes nothing.
\<close>

lemma normalizeIr_materializes:
  "slots_of (materialize_document d) = map materialize (slots_of d) \<and>
   list_all (\<lambda>s. get (materialize s) ''nullable'' = Bool (get s ''nullable'' = Bool True)) (slots_of d) \<and>
   normalizeIr sets maxd (materialize_document d) = normalizeIr sets maxd d"
proof (intro conjI)
  show "slots_of (materialize_document d) = map materialize (slots_of d)"
    by (rule slots_of_materialize)
  have "is_object s" if "s \<in> set (slots_of d)" for s
    using that by (auto simp: slots_of_def dest: as_array_objects)
  then show "list_all (\<lambda>s. get (materialize s) ''nullable'' = Bool (get s ''nullable'' = Bool True)) (slots_of d)"
    by (simp add: list_all_iff materialize_def)
  show "normalizeIr sets maxd (materialize_document d) = normalizeIr sets maxd d"
  proof (cases "is_object d")
    case True
    then have "is_object (materialize_document d)" by (simp add: materialize_document_def)
    with True show ?thesis by (simp add: normalizeIr_def materialize_document_idem)
  next
    case False
    then have "materialize_document d = d"
      by (cases d) (simp_all add: materialize_document_def map_member_def set_member_def)
    then show ?thesis by simp
  qed
qed

end
