(* ===== verification/Versions.thy ===== *)
theory Versions
  imports JsVal
begin

text \<open>
  Semantic versions and version constraints: the first part of
  \<open>src/src/compiler/packages/resolve.mjs\<close>. The regular expression \<open>SEMVER\<close> is the function
  \<open>semver_match\<close>; its alternatives do not overlap, so it needs no backtracking. The order of
  versions is shown to be the order of a key (\<open>version_key\<close>), from which its laws follow.
\<close>

section \<open>Parsing\<close>

record version =
  major :: jsnum
  minor :: jsnum
  patch :: jsnum
  prerelease :: jsstr

text \<open>\<open>(0|[1-9][0-9]*)\<close> and what follows it.\<close>

definition numeric_identifier :: "jsstr \<Rightarrow> (jsstr \<times> jsstr) option" where
  "numeric_identifier s =
     (let ds = takeWhile is_digit_unit s
      in if ds = [] \<or> hd ds = 48 \<and> ds \<noteq> [48] then None else Some (ds, drop (length ds) s))"

definition is_tag_unit :: "16 word \<Rightarrow> bool" where
  "is_tag_unit c \<longleftrightarrow>
     is_digit_unit c \<or> 65 \<le> c \<and> c \<le> 90 \<or> 97 \<le> c \<and> c \<le> 122 \<or> c = 46 \<or> c = 45"

text \<open>\<open>(?:-([0-9A-Za-z.-]+))?(?:\+[0-9A-Za-z.-]+)?$\<close>: the prerelease, if the rest matches.\<close>

definition build_matches :: "jsstr \<Rightarrow> bool" where
  "build_matches s \<longleftrightarrow> s = [] \<or> hd s = 43 \<and> tl s \<noteq> [] \<and> list_all is_tag_unit (tl s)"

definition tags_match :: "jsstr \<Rightarrow> jsstr option" where
  "tags_match s =
     (if s \<noteq> [] \<and> hd s = 45
      then (let tag = takeWhile is_tag_unit (tl s); rest = drop (length tag) (tl s)
            in if tag \<noteq> [] \<and> build_matches rest then Some tag else None)
      else if build_matches s then Some [] else None)"

definition dotted_identifier :: "jsstr \<Rightarrow> (jsstr \<times> jsstr) option" where
  "dotted_identifier s =
     (case numeric_identifier s of
        Some (ds, r) \<Rightarrow> if r \<noteq> [] \<and> hd r = 46 then Some (ds, tl r) else None
      | None \<Rightarrow> None)"

definition semver_match :: "jsstr \<Rightarrow> (jsstr \<times> jsstr \<times> jsstr \<times> jsstr) option" where
  "semver_match s =
     (case dotted_identifier s of
        None \<Rightarrow> None
      | Some (a, s1) \<Rightarrow>
          (case dotted_identifier s1 of
             None \<Rightarrow> None
           | Some (b, s2) \<Rightarrow>
               (case numeric_identifier s2 of
                  None \<Rightarrow> None
                | Some (c, s3) \<Rightarrow> map_option (\<lambda>tag. (a, b, c, tag)) (tags_match s3))))"

definition parseVersion :: "jsval \<Rightarrow> version option" where
  "parseVersion value =
     (case semver_match (to_text value) of
        None \<Rightarrow> None
      | Some (a, b, c, tag) \<Rightarrow>
          Some \<lparr>major = number_of_digits a, minor = number_of_digits b,
            patch = number_of_digits c, prerelease = tag\<rparr>)"

section \<open>Precedence\<close>

text \<open>\<open>/^\d+$/\<close>.\<close>

definition all_digits :: "jsstr \<Rightarrow> bool" where
  "all_digits s \<longleftrightarrow> s \<noteq> [] \<and> list_all is_digit_unit s"

fun compare_fields :: "jsstr list \<Rightarrow> jsstr list \<Rightarrow> int" where
  "compare_fields [] [] = 0"
| "compare_fields [] (y # ys) = -1"
| "compare_fields (x # xs) [] = 1"
| "compare_fields (x # xs) (y # ys) =
     (if all_digits x \<and> all_digits y then
        (if \<not> num_eq (number_of_digits x) (number_of_digits y)
         then num_sign (number_of_digits x) (number_of_digits y)
         else compare_fields xs ys)
      else if all_digits x \<noteq> all_digits y then (if all_digits x then -1 else 1)
      else if by_code_units x y \<noteq> 0 then by_code_units x y
      else compare_fields xs ys)"

definition compareVersions :: "version \<Rightarrow> version \<Rightarrow> int" where
  "compareVersions left right =
     (if \<not> num_eq (major left) (major right) then num_sign (major left) (major right)
      else if \<not> num_eq (minor left) (minor right) then num_sign (minor left) (minor right)
      else if \<not> num_eq (patch left) (patch right) then num_sign (patch left) (patch right)
      else if prerelease left = prerelease right then 0
      else if prerelease left = [] then 1
      else if prerelease right = [] then -1
      else compare_fields (split_at 46 (prerelease left)) (split_at 46 (prerelease right)))"

section \<open>Constraints\<close>

datatype constraint_kind = Caret | Exact

record version_constraint =
  ckind :: constraint_kind
  cversion :: version

definition parseConstraint :: "jsval \<Rightarrow> version_constraint option" where
  "parseConstraint value =
     (let txt = to_text value
      in if starts_with txt (js ''^'')
         then map_option (\<lambda>v. \<lparr>ckind = Caret, cversion = v\<rparr>) (parseVersion (Str (drop 1 txt)))
         else map_option (\<lambda>v. \<lparr>ckind = Exact, cversion = v\<rparr>) (parseVersion (Str txt)))"

definition satisfies :: "version \<Rightarrow> version_constraint \<Rightarrow> bool" where
  "satisfies v c =
     (if ckind c = Exact then compareVersions v (cversion c) = 0
      else
        let base = cversion c
        in if prerelease v \<noteq> [] \<and>
              (prerelease base = [] \<or> \<not> num_eq (major v) (major base) \<or>
               \<not> num_eq (minor v) (minor base) \<or> \<not> num_eq (patch v) (patch base))
           then False
           else if compareVersions v base < 0 then False
           else if num_less (Fin 0) (major base) then num_eq (major v) (major base)
           else if num_less (Fin 0) (minor base)
             then num_eq (major v) (Fin 0) \<and> num_eq (minor v) (minor base)
           else num_eq (major v) (Fin 0) \<and> num_eq (minor v) (Fin 0) \<and>
             num_eq (patch v) (patch base))"

section \<open>The order of versions is the order of a key\<close>

text \<open>The numbers a digit string denotes: non-negative, or infinite past the range of binary64.\<close>

definition count_number :: "jsnum \<Rightarrow> bool" where
  "count_number n \<longleftrightarrow> n = PosInf \<or> (\<exists>q \<ge> 0. n = Fin q)"

definition wf_version :: "version \<Rightarrow> bool" where
  "wf_version v \<longleftrightarrow> count_number (major v) \<and> count_number (minor v) \<and> count_number (patch v)"

definition number_key :: "jsnum \<Rightarrow> bool \<times> rat" where
  "number_key n = (case n of Fin q \<Rightarrow> (False, q) | _ \<Rightarrow> (True, 0))"

definition field_key :: "jsstr \<Rightarrow> bool \<times> (bool \<times> rat) \<times> jsstr" where
  "field_key s =
     (if all_digits s then (False, number_key (number_of_digits s), []) else (True, (False, 0), s))"

definition version_key ::
  "version \<Rightarrow> (bool \<times> rat) \<times> (bool \<times> rat) \<times> (bool \<times> rat) \<times> bool \<times>
     (bool \<times> (bool \<times> rat) \<times> jsstr) list" where
  "version_key v =
     (number_key (major v), number_key (minor v), number_key (patch v), prerelease v = [],
      (if prerelease v = [] then [] else map field_key (split_at 46 (prerelease v))))"

lemma power_of_two_pos: "0 < power_of 2 e"
  by (rule power_of_pos) simp

lemma round_half_even_nonneg: "0 \<le> q \<Longrightarrow> 0 \<le> round_half_even q"
  by (auto simp: round_half_even_def Let_def)

lemma round_binary_count: "0 \<le> q \<Longrightarrow> count_number (round_binary p emin emax q)"
proof -
  assume q: "0 \<le> q"
  have "0 \<le> round_half_even (\<bar>q\<bar> / power_of 2 e)" for e
    using power_of_two_pos [of e] by (intro round_half_even_nonneg) simp
  then show ?thesis
    using q power_of_two_pos by (auto simp: round_binary_def Let_def count_number_def less_imp_le)
qed

lemma int_of_digits_nonneg: "list_all is_digit_unit s \<Longrightarrow> 0 \<le> int_of_digits s"
proof (induction s rule: rev_induct)
  case (snoc u s)
  then have "0 \<le> digit_value u" by (simp add: is_digit_unit_def digit_value_def word_le_def)
  with snoc show ?case by (simp add: int_of_digits_snoc)
qed (simp add: int_of_digits_def)

lemma count_number_of_digits: "list_all is_digit_unit s \<Longrightarrow> count_number (number_of_digits s)"
  unfolding number_of_digits_def round64_def
  by (rule round_binary_count) (simp add: int_of_digits_nonneg)

lemma numeric_identifier_digits:
  "numeric_identifier s = Some (ds, r) \<Longrightarrow> list_all is_digit_unit ds"
  by (auto simp: numeric_identifier_def Let_def list_all_iff dest: set_takeWhileD split: if_splits)

lemma dotted_identifier_digits:
  "dotted_identifier s = Some (ds, r) \<Longrightarrow> list_all is_digit_unit ds"
  by (auto simp: dotted_identifier_def dest: numeric_identifier_digits split: option.splits if_splits)

lemma parseVersion_wf: "parseVersion value = Some v \<Longrightarrow> wf_version v"
  by (auto simp: parseVersion_def semver_match_def wf_version_def
      dest!: numeric_identifier_digits dotted_identifier_digits
      simp: count_number_of_digits split: option.splits)

lemma num_sign_key:
  "count_number a \<Longrightarrow> count_number b \<Longrightarrow> num_sign a b = by_order (number_key a) (number_key b)"
  by (auto simp: count_number_def num_sign_def num_less_def number_key_def by_order_def)

lemma num_eq_key:
  "count_number a \<Longrightarrow> count_number b \<Longrightarrow> num_eq a b \<longleftrightarrow> number_key a = number_key b"
  by (auto simp: count_number_def num_eq_def number_key_def)

lemma compare_fields_key: "compare_fields xs ys = by_order (map field_key xs) (map field_key ys)"
proof (induction xs ys rule: compare_fields.induct)
  case (4 x xs y ys)
  have "all_digits z \<Longrightarrow> count_number (number_of_digits z)" for z
    by (simp add: all_digits_def count_number_of_digits)
  with 4 show ?case
    by (auto simp: num_eq_key num_sign_key field_key_def by_order_def by_code_units_def
        split: if_splits)
qed (simp_all add: by_order_def)

lemma compareVersions_key:
  "wf_version v \<Longrightarrow> wf_version w \<Longrightarrow> compareVersions v w = by_order (version_key v) (version_key w)"
  by (auto simp: compareVersions_def wf_version_def num_eq_key num_sign_key compare_fields_key
      version_key_def by_order_def split: if_splits)


interpretation version_order: comparator_law "\<lambda>v w. by_order (version_key v) (version_key w)"
  by (rule comparator_law_key) (rule orders.comparator_law_axioms)

section \<open>Reading back a version text\<close>

definition version_text :: "int \<Rightarrow> int \<Rightarrow> int \<Rightarrow> jsstr \<Rightarrow> jsstr" where
  "version_text a b c tag =
     digits_of a @ 46 # digits_of b @ 46 # digits_of c @ (if tag = [] then [] else 45 # tag)"

lemma digits_of_head: "0 \<le> n \<Longrightarrow> hd (digits_of n) = 48 \<Longrightarrow> digits_of n = [48]"
proof (induction n rule: digits_of.induct)
  case (1 n)
  show ?case
  proof (cases "n < 10")
    case False
    then have "0 < n div 10" by simp
    moreover have "hd (digits_of (n div 10)) = 48"
      using 1(3) False by (simp add: digits_of.simps [of n])
    ultimately have "digits_of (n div 10) = [48]" using 1 False by simp
    moreover have "int_of_digits [48] = 0" by (simp add: int_of_digits_def digit_value_def)
    ultimately have "n div 10 = 0"
      using int_of_digits_of [of "n div 10"] \<open>0 < n div 10\<close> by simp
    with \<open>0 < n div 10\<close> show ?thesis by simp
  qed (use 1 in \<open>simp add: digits_of.simps [of n]\<close>)
qed

lemma takeWhile_digits:
  "0 \<le> n \<Longrightarrow> r = [] \<or> \<not> is_digit_unit (hd r) \<Longrightarrow>
    takeWhile is_digit_unit (digits_of n @ r) = digits_of n"
  using digits_of_digits [of n] by (cases r) (auto simp: takeWhile_append)

lemma numeric_identifier_text:
  "0 \<le> n \<Longrightarrow> r = [] \<or> \<not> is_digit_unit (hd r) \<Longrightarrow>
    numeric_identifier (digits_of n @ r) = Some (digits_of n, r)"
  using digits_of_head [of n]
  by (simp add: numeric_identifier_def takeWhile_digits Let_def)

lemma point_not_digit: "\<not> is_digit_unit 46" "\<not> is_digit_unit 45"
  by (simp_all add: is_digit_unit_def)

lemma dotted_identifier_text:
  "0 \<le> n \<Longrightarrow> dotted_identifier (digits_of n @ 46 # r) = Some (digits_of n, r)"
  by (simp add: dotted_identifier_def numeric_identifier_text point_not_digit)

lemma tags_match_text:
  assumes "list_all is_tag_unit tag"
  shows "tags_match (if tag = [] then [] else 45 # tag) = Some tag"
proof -
  have w: "takeWhile is_tag_unit tag = tag"
    using assms by (simp add: list_all_iff takeWhile_eq_all_conv)
  show ?thesis
    by (cases "tag = []") (simp_all add: tags_match_def build_matches_def Let_def w del: takeWhile_eq_all_conv)
qed

lemma parseVersion_text:
  assumes "0 \<le> a" "0 \<le> b" "0 \<le> c" and "list_all is_tag_unit tag"
  shows "parseVersion (Str (version_text a b c tag)) =
    Some \<lparr>major = round64 (of_int a), minor = round64 (of_int b), patch = round64 (of_int c),
      prerelease = tag\<rparr>"
  using assms
  by (simp add: parseVersion_def version_text_def semver_match_def dotted_identifier_text
      numeric_identifier_text point_not_digit tags_match_text number_of_digits_def)

section \<open>Caret ranges\<close>

definition release :: "nat \<Rightarrow> nat \<Rightarrow> nat \<Rightarrow> jsstr \<Rightarrow> version" where
  "release a b c tag =
     \<lparr>major = Fin (of_nat a), minor = Fin (of_nat b), patch = Fin (of_nat c), prerelease = tag\<rparr>"

text \<open>The first release a caret range excludes.\<close>

fun breaking_after :: "nat \<times> nat \<times> nat \<Rightarrow> nat \<times> nat \<times> nat" where
  "breaking_after (a, b, c) =
     (if 0 < a then (a + 1, 0, 0) else if 0 < b then (0, b + 1, 0) else (0, 0, c + 1))"

lemma compare_release:
  "compareVersions (release a b c []) (release x y z tag) < 0 \<longleftrightarrow> (a, b, c) < (x, y, z)"
  by (auto simp: compareVersions_def release_def num_sign_def less_prod_def)

section \<open>Properties\<close>

text \<open>
  A version text of three numbers and an optional prerelease tag parses to exactly those
  parts, each number rounded to binary64.
\<close>

lemma parseVersion_reads_back:
  assumes "0 \<le> a" "0 \<le> b" "0 \<le> c" and "list_all is_tag_unit tag"
  shows "parseVersion (Str (version_text a b c tag)) =
    Some \<lparr>major = round64 (of_int a), minor = round64 (of_int b), patch = round64 (of_int c),
      prerelease = tag\<rparr>"
  using assms by (rule parseVersion_text)

lemma parseVersion_reads_back_witness:
  "parseVersion (Str (version_text 1 20 0 (js ''beta.2''))) =
    Some \<lparr>major = round64 (of_int 1), minor = round64 (of_int 20), patch = round64 (of_int 0),
      prerelease = js ''beta.2''\<rparr>"
  by (rule parseVersion_reads_back) (simp_all, code_simp)

text \<open>
  Version precedence is a total preorder on the versions the compiler parses: comparing both
  ways gives opposite signs, and precedence is transitive, numeric identifiers, prereleases and
  numbers past the range of binary64 included.
\<close>

lemma compareVersions_total_preorder:
  assumes "parseVersion t = Some u" "parseVersion t' = Some v" "parseVersion t'' = Some w"
  shows "(0 < compareVersions u v \<longleftrightarrow> compareVersions v u < 0) \<and>
    (compareVersions u v \<le> 0 \<longrightarrow> compareVersions v w \<le> 0 \<longrightarrow> compareVersions u w \<le> 0)"
  using version_order.flip [of u v] version_order.trans_le [of u v w]
    compareVersions_key assms [THEN parseVersion_wf] by simp

lemma compareVersions_total_preorder_witness:
  "0 < compareVersions (release 1 0 0 []) (release 1 0 0 (js ''rc.1'')) \<longleftrightarrow>
    compareVersions (release 1 0 0 (js ''rc.1'')) (release 1 0 0 []) < 0"
proof -
  have r: "round64 (of_int 1) = Fin (of_nat 1)" "round64 (of_int 0) = Fin (of_nat 0)" by code_simp+
  have a: "parseVersion (Str (version_text 1 0 0 [])) = Some (release 1 0 0 [])"
    unfolding release_def by (subst parseVersion_text) (simp_all only: r order_refl zero_le_one list.pred_inject)
  have t: "list_all is_tag_unit (js ''rc.1'')" by code_simp
  have b: "parseVersion (Str (version_text 1 0 0 (js ''rc.1''))) = Some (release 1 0 0 (js ''rc.1''))"
    unfolding release_def by (subst parseVersion_text) (simp_all only: r order_refl zero_le_one t)
  show ?thesis using compareVersions_total_preorder [OF a b a] by (rule conjunct1)
qed

text \<open>
  A caret range admits exactly the releases from its base up to, and not including, the next
  breaking release: the next major version, or the next minor one below 1.0.0, or the next patch
  below 0.1.0.
\<close>

lemma satisfies_caret_release:
  "satisfies (release a b c []) \<lparr>ckind = Caret, cversion = release x y z tag\<rparr> \<longleftrightarrow>
     (x, y, z) \<le> (a, b, c) \<and> (a, b, c) < breaking_after (x, y, z)"
  using compare_release [of a b c x y z tag]
  by (auto simp: satisfies_def release_def less_prod_def less_eq_prod_def)

end
