(* ===== verification/Manifest.thy ===== *)
theory Manifest
  imports JsonLocus Diagnostics
begin

text \<open>
  \<open>src/src/compiler/packages/manifest.mjs\<close> (\<open>readDocument\<close>), the schema error texts of
  \<open>src/src/compiler/schema-validate.mjs\<close> and \<open>sourceFiles\<close> of
  \<open>src/src/compiler/packages/graph.mjs\<close>. What is not the program's own is the record \<open>host\<close>: the
  file system and path functions of Node behind \<open>host.mjs\<close>, \<open>JSON.parse\<close> and the ajv validator of
  the published schemas. An exception a host operation throws is a left value.
\<close>

record read_error =
  escaped :: bool
  error_text :: jsstr

record host =
  h_resolve :: "jsstr list \<Rightarrow> jsstr"
  h_relative :: "jsstr \<Rightarrow> jsstr \<Rightarrow> jsstr"
  h_basename :: "jsstr \<Rightarrow> jsstr"
  h_isDirectory :: "jsstr \<Rightarrow> jsstr + bool"
  h_readDir :: "jsstr \<Rightarrow> jsstr list"
  h_exists :: "jsstr \<Rightarrow> jsstr + bool"
  h_walk :: "jsstr \<Rightarrow> (bool \<times> jsstr) + jsstr list"
  h_sizeOf :: "jsstr \<Rightarrow> nat option"
  h_readBytes :: "jsstr \<Rightarrow> read_error + (nat \<times> jsstr)"
  h_parse :: "jsstr \<Rightarrow> jsstr + jsval"
  h_schemaErrors :: "string \<Rightarrow> jsval \<Rightarrow> jsval list"

section \<open>Schema errors\<close>

definition errorPointer :: "jsval \<Rightarrow> jsstr" where
  "errorPointer e =
     (if get e ''keyword'' = Str (js ''required'') \<and> truthy (get (get e ''params'') ''missingProperty'')
      then to_text (get e ''instancePath'') @ js ''/'' @ to_text (get (get e ''params'') ''missingProperty'')
      else if get e ''keyword'' = Str (js ''additionalProperties'') \<and>
              truthy (get (get e ''params'') ''additionalProperty'')
      then to_text (get e ''instancePath'') @ js ''/'' @ to_text (get (get e ''params'') ''additionalProperty'')
      else to_text (get e ''instancePath''))"

definition errorMessage :: "jsval \<Rightarrow> jsstr" where
  "errorMessage e =
     (if errorPointer e = [] then js ''(document root)'' else errorPointer e) @ js '' ''
       @ to_text (coalesce (get e ''message'') (get e ''keyword''))"

section \<open>Reading a document\<close>

text \<open>The path splits at either separator.\<close>

definition posix :: "jsstr \<Rightarrow> jsstr" where
  "posix p = map (\<lambda>c. if c = 92 then 47 else c) p"

definition relativePosix :: "host \<Rightarrow> jsstr \<Rightarrow> jsstr \<Rightarrow> jsstr" where
  "relativePosix h base path =
     (let rel = posix (h_relative h (h_resolve h [base]) (h_resolve h [path]))
      in if rel = [] \<or> starts_with rel (js ''../'') \<or> rel = js ''..'' then h_basename h path else rel)"

definition start_locus :: "jsstr \<Rightarrow> jsstr \<Rightarrow> position \<Rightarrow> jsval" where
  "start_locus source path p =
     Obj [(js ''sourceIdentity'', Str source), (js ''path'', Str path),
       (js ''startLine'', Num (Fin (of_nat (line p)))),
       (js ''startColumn'', Num (Fin (of_nat (column p))))]"

record document =
  doc_value :: jsval
  doc_path :: jsstr
  doc_source :: jsstr
  doc_index :: pointer_index

text \<open>The \<open>locate\<close> closure a read document carries, at the key of the pointed member.\<close>

definition locate :: "document \<Rightarrow> jsstr \<Rightarrow> jsval" where
  "locate d pointer =
     start_locus (doc_source d) (doc_path d) (locate_in_index (doc_index d) pointer PreferKey)"

definition over_limit :: "jsstr \<Rightarrow> nat \<Rightarrow> nat \<Rightarrow> jsval \<Rightarrow> diag" where
  "over_limit path bytes limit loc =
     diag_named ''LIMIT_MAX_INPUT_BYTES''
       (path @ js '' is '' @ digits_of (int bytes) @ js '' bytes, over the maxInputBytes limit of ''
         @ digits_of (int limit)) [] [] (Some loc)"

text \<open>
  \<open>identity\<close> is the caller's \<open>sourceIdentity\<close>: a function of the parsed value, \<open>undefined\<close> before
  it is known. The index is the scanner's, which ends on every text; its error carries a position,
  that of \<open>JSON.parse\<close> does not.
\<close>

definition parsed_document ::
  "host \<Rightarrow> jsstr \<Rightarrow> string \<Rightarrow> string \<Rightarrow> (jsval \<Rightarrow> jsstr) \<Rightarrow> jsstr \<Rightarrow> diag list + document" where
  "parsed_document h path schemaName entry_name identity input =
     (let invalid = (\<lambda>message p. Inl [diag_named entry_name
            (path @ js '' is not valid JSON: '' @ fragment (Str message)) [] []
            (Some (start_locus (identity Undefined) path p))])
      in case indexJsonPointers input of
           None \<Rightarrow> Inl []
         | Some (Inl (ScanError message p)) \<Rightarrow> invalid message p
         | Some (Inr ix) \<Rightarrow>
             (case h_parse h input of
                Inl message \<Rightarrow> invalid message \<lparr>line = 1, column = 1\<rparr>
              | Inr value \<Rightarrow>
                  let d = \<lparr>doc_value = value, doc_path = path, doc_source = identity value,
                        doc_index = ix\<rparr>;
                      ds = map (\<lambda>e. diag_named entry_name
                        (path @ js '': '' @ fragment (Str (errorMessage e))) [] []
                        (Some (locate d (errorPointer e)))) (h_schemaErrors h schemaName value)
                  in if ds \<noteq> [] then Inl ds else Inr d))"

definition readDocument ::
  "host \<Rightarrow> limits \<Rightarrow> jsstr \<Rightarrow> jsstr \<Rightarrow> string \<Rightarrow> string \<Rightarrow> (jsval \<Rightarrow> jsstr) \<Rightarrow> diag list + document" where
  "readDocument h lims absolutePath packageRoot schemaName entry_name identity =
     (let path = relativePosix h packageRoot absolutePath;
          top = start_locus (identity Undefined) path \<lparr>line = 1, column = 1\<rparr>;
          declared = h_sizeOf h absolutePath
      in if (case declared of None \<Rightarrow> False | Some n \<Rightarrow> maxInputBytes lims < n)
         then Inl [over_limit path (case declared of None \<Rightarrow> 0 | Some n \<Rightarrow> n) (maxInputBytes lims) top]
         else
           (case h_readBytes h absolutePath of
              Inl e \<Rightarrow>
                Inl [diag_named (if escaped e then ''PATH_ESCAPE'' else entry_name)
                  (if escaped e then path @ js '' lies outside every declared root''
                   else js ''cannot read '' @ fragment (Str path) @ js '': '' @ fragment (Str (error_text e)))
                  [] [] (Some top)]
            | Inr (bytes, input) \<Rightarrow>
                if maxInputBytes lims < bytes then Inl [over_limit path bytes (maxInputBytes lims) top]
                else parsed_document h path schemaName entry_name identity input))"

section \<open>Source files\<close>

definition strip_slash :: "jsstr \<Rightarrow> jsstr" where
  "strip_slash s = (if s \<noteq> [] \<and> last s = 47 then butlast s else s)"

fun source_files_loop ::
  "host \<Rightarrow> jsstr \<Rightarrow> jsstr list \<Rightarrow> jsstr list \<Rightarrow> (bool \<times> jsstr) + jsstr list" where
  "source_files_loop h packageRoot [] files = Inr files"
| "source_files_loop h packageRoot (r # rs) files =
     (case h_isDirectory h (h_resolve h [packageRoot, r]) of
        Inl message \<Rightarrow> Inl (False, message)
      | Inr False \<Rightarrow> source_files_loop h packageRoot rs files
      | Inr True \<Rightarrow>
          (case h_walk h (h_resolve h [packageRoot, r]) of
             Inl e \<Rightarrow> Inl e
           | Inr names \<Rightarrow>
               source_files_loop h packageRoot rs
                 (files @ map (\<lambda>n. strip_slash r @ js ''/'' @ n) names)))"

text \<open>
  \<open>sourceFiles\<close>: the files below the declared roots, each once, in code unit order. The flag of a
  left value tells the depth limit from a path escape.
\<close>

definition sourceFiles :: "host \<Rightarrow> jsstr \<Rightarrow> jsstr list \<Rightarrow> (bool \<times> jsstr) + jsstr list" where
  "sourceFiles h packageRoot roots =
     (case source_files_loop h packageRoot roots [] of
        Inl e \<Rightarrow> Inl e
      | Inr files \<Rightarrow> Inr (sort_on (\<lambda>f. f) (set_from files)))"

section \<open>What a read document guarantees\<close>

lemma parsed_document_cases:
  assumes "parsed_document h path schemaName entry_name identity input = Inl ds"
  shows "ds \<noteq> []"
proof -
  obtain r where "indexJsonPointers input = Some r"
    using index_ends by blast
  then show ?thesis
    using assms by (auto simp: parsed_document_def Let_def split: sum.splits scan_error.splits if_splits)
qed

lemma readDocument_defect: "readDocument h lims p dir sn en identity = Inl ds \<Longrightarrow> ds \<noteq> []"
  by (auto simp: readDocument_def Let_def dest: parsed_document_cases split: sum.splits if_splits)

lemma readDocument_valid:
  assumes "readDocument h lims p dir sn en identity = Inr d"
  shows "h_schemaErrors h sn (doc_value d) = [] \<and>
    (\<exists>bytes input. h_readBytes h p = Inr (bytes, input) \<and> bytes \<le> maxInputBytes lims \<and>
      h_parse h input = Inr (doc_value d) \<and> indexJsonPointers input = Some (Inr (doc_index d)))"
  using assms
  by (auto simp: readDocument_def parsed_document_def Let_def
      split: sum.splits if_splits option.splits scan_error.splits)

section \<open>Properties\<close>

text \<open>
  \<open>readDocument\<close> never hands out a half-read document: it returns at least one diagnostic, or
  a value that was read within the byte limit, parsed, and accepted by the schema without errors,
  with every locus it gives pointing at a position of the text that was read.
\<close>

lemma readDocument_contract:
  "case readDocument h lims p dir sn en identity of
     Inl ds \<Rightarrow> ds \<noteq> []
   | Inr d \<Rightarrow> h_schemaErrors h sn (doc_value d) = [] \<and>
      (\<exists>bytes input. h_readBytes h p = Inr (bytes, input) \<and> bytes \<le> maxInputBytes lims \<and>
        h_parse h input = Inr (doc_value d) \<and>
        (\<forall>pointer. \<exists>off. off \<le> length input \<and>
          locate d pointer = start_locus (doc_source d) (doc_path d) (offsetToPosition input off)))"
proof (cases "readDocument h lims p dir sn en identity")
  case (Inl ds)
  then show ?thesis using readDocument_defect [OF Inl] by simp
next
  case (Inr d)
  then obtain bytes input where t: "h_readBytes h p = Inr (bytes, input)" "bytes \<le> maxInputBytes lims"
    "h_parse h input = Inr (doc_value d)" "indexJsonPointers input = Some (Inr (doc_index d))"
    and v: "h_schemaErrors h sn (doc_value d) = []"
    using readDocument_valid [OF Inr] by blast
  have "\<exists>off. off \<le> length input \<and>
      locate d pointer = start_locus (doc_source d) (doc_path d) (offsetToPosition input off)" for pointer
    using located_offset [OF t(4), of pointer PreferKey] unfolding locate_def by auto
  with t v show ?thesis unfolding Inr by auto
qed

end
