(* ===== verification/Resolve.thy ===== *)
theory Resolve
  imports Versions Manifest
begin

text \<open>
  \<open>src/src/compiler/packages/resolve.mjs\<close>: the package graph resolver. A manifest the schema
  accepts is read into the record \<open>manifest\<close>. The queue loop is \<open>resolve_loop\<close>, one \<open>import_step\<close>
  per import of the package at the head of the queue; \<open>enough_steps\<close> shows that one more round
  than there are candidates always empties the queue. Maps and sets are insertion-ordered lists.
\<close>

section \<open>Manifests\<close>

record export =
  x_name :: jsstr
  x_type :: jsstr
  x_visibility :: jsstr

record import_decl =
  i_package :: jsstr
  i_constraint :: jsstr
  i_exports :: "jsstr list"
  i_capabilities :: "jsstr list"

record profile =
  f_name :: jsstr
  f_version :: jsstr
  f_targets :: "jsstr list"
  f_mappings :: "jsstr list"
  f_options :: jsval
  f_posture :: jsstr

record manifest =
  m_identity :: jsstr
  m_version :: jsstr
  m_sourceRoots :: "jsstr list"
  m_exports :: "export list"
  m_imports :: "import_decl list"
  m_profiles :: "profile list"
  m_targets :: "jsstr list"
  m_mappings :: "jsstr list"

text \<open>The members of a schema-valid manifest; the schema requires each of them.\<close>

definition text_at :: "jsval \<Rightarrow> string \<Rightarrow> jsstr" where
  "text_at v k = (case get v k of Str s \<Rightarrow> s | _ \<Rightarrow> [])"

definition texts_at :: "jsval \<Rightarrow> string \<Rightarrow> jsstr list" where
  "texts_at v k = map to_text (list_of (get v k))"

definition export_of :: "jsval \<Rightarrow> export" where
  "export_of v = \<lparr>x_name = text_at v ''name'', x_type = text_at v ''typeIdentity'',
     x_visibility = text_at v ''visibility''\<rparr>"

definition import_of :: "jsval \<Rightarrow> import_decl" where
  "import_of v = \<lparr>i_package = text_at v ''packageIdentity'', i_constraint = text_at v ''versionConstraint'',
     i_exports = texts_at v ''exports'', i_capabilities = texts_at v ''capabilities''\<rparr>"

definition profile_of :: "jsval \<Rightarrow> profile" where
  "profile_of v = \<lparr>f_name = text_at v ''name'', f_version = text_at v ''version'',
     f_targets = texts_at v ''targets'', f_mappings = texts_at v ''mappings'',
     f_options = get v ''options'', f_posture = text_at v ''compatibilityPosture''\<rparr>"

definition manifest_of :: "jsval \<Rightarrow> manifest" where
  "manifest_of v =
     \<lparr>m_identity = text_at (get v ''package'') ''identity'',
      m_version = text_at (get v ''package'') ''version'',
      m_sourceRoots = texts_at v ''sourceRoots'',
      m_exports = map export_of (list_of (get v ''exports'')),
      m_imports = map import_of (list_of (get v ''imports'')),
      m_profiles = map profile_of (list_of (get v ''profiles'')),
      m_targets = texts_at v ''targets'', m_mappings = texts_at v ''mappings''\<rparr>"

section \<open>Candidates\<close>

text \<open>
  \<open>p_version\<close> is \<open>None\<close> only for a root whose version text is no version, which the schema
  excludes; no constraint is satisfied by it.
\<close>

record package =
  p_identity :: jsstr
  p_version :: "version option"
  p_versionText :: jsstr
  p_order :: int
  p_root :: jsstr
  p_manifest :: manifest
  p_document :: document

definition meets :: "package \<Rightarrow> version_constraint \<Rightarrow> bool" where
  "meets p c = (case p_version p of None \<Rightarrow> False | Some v \<Rightarrow> satisfies v c)"

definition sourceIdentityFor :: "jsstr \<Rightarrow> string \<Rightarrow> jsstr" where
  "sourceIdentityFor identity kind = js ''ix://'' @ identity @ js ''/source/'' @ js kind"

text \<open>\<open>value?.package?.identity ?? "agent-ix/unresolved"\<close>.\<close>

definition manifest_source :: "jsval \<Rightarrow> jsstr" where
  "manifest_source v =
     sourceIdentityFor
       (to_text (coalesce (get (get v ''package'') ''identity'') (Str (js ''agent-ix/unresolved''))))
       ''manifest''"

record discovery =
  s_candidates :: "((jsstr \<times> jsstr) \<times> package) list"
  s_rejected :: "(jsstr \<times> diag list) list"
  s_diags :: "diag list"

text \<open>One entry of a search directory; the key \<open>identity@version\<close> is the pair of its parts.\<close>

definition discover_entry ::
  "host \<Rightarrow> limits \<Rightarrow> nat \<Rightarrow> jsstr \<Rightarrow> jsstr \<Rightarrow> discovery \<Rightarrow> discovery" where
  "discover_entry h lims order dir name st =
     (let packageRoot = h_resolve h [dir, name];
          manifestPath = h_resolve h [packageRoot, js ''package-manifest.json'']
      in case h_isDirectory h packageRoot of
           Inl e \<Rightarrow> st\<lparr>s_diags := s_diags st @
             [diag_named ''PATH_ESCAPE''
               (fragment (Str name) @ js '' in a declared search directory resolves outside it: ''
                 @ fragment (Str e)) [] [] None]\<rparr>
         | Inr False \<Rightarrow> st
         | Inr True \<Rightarrow>
             (case h_exists h manifestPath of
                Inl e \<Rightarrow> st
              | Inr False \<Rightarrow> st
              | Inr True \<Rightarrow>
                  (case readDocument h lims manifestPath packageRoot ''package-manifest.schema.json''
                      ''INVALID_MANIFEST'' manifest_source of
                     Inl ds \<Rightarrow> st\<lparr>s_rejected := s_rejected st @ [(packageRoot, ds)]\<rparr>
                   | Inr d \<Rightarrow>
                       let m = manifest_of (doc_value d)
                       in case parseVersion (Str (m_version m)) of
                            None \<Rightarrow> st
                          | Some v \<Rightarrow>
                              if map_of (s_candidates st) (m_identity m, m_version m) \<noteq> None then st
                              else st\<lparr>s_candidates := s_candidates st @
                                [((m_identity m, m_version m),
                                  \<lparr>p_identity = m_identity m, p_version = Some v,
                                   p_versionText = m_version m, p_order = int order,
                                   p_root = packageRoot, p_manifest = m, p_document = d\<rparr>)]\<rparr>)))"

text \<open>The search path, in the declared order; a refused root aborts the resolution.\<close>

fun discover_roots ::
  "host \<Rightarrow> limits \<Rightarrow> nat \<Rightarrow> jsstr list \<Rightarrow> discovery \<Rightarrow> jsstr + discovery" where
  "discover_roots h lims order [] st = Inr st"
| "discover_roots h lims order (directory # rest) st =
     (let dir = h_resolve h [directory]
      in case h_isDirectory h dir of
           Inl e \<Rightarrow> Inl e
         | Inr False \<Rightarrow> discover_roots h lims (Suc order) rest st
         | Inr True \<Rightarrow> discover_roots h lims (Suc order) rest
             (fold (discover_entry h lims order dir) (h_readDir h dir) st))"

definition discoverCandidates :: "host \<Rightarrow> jsstr list \<Rightarrow> limits \<Rightarrow> jsstr + discovery" where
  "discoverCandidates h searchPath lims =
     discover_roots h lims 0 searchPath \<lparr>s_candidates = [], s_rejected = [], s_diags = []\<rparr>"

text \<open>Highest version first, the declared order breaking ties.\<close>

definition compare_candidates :: "package \<Rightarrow> package \<Rightarrow> int" where
  "compare_candidates left right =
     (let c = (case (p_version right, p_version left) of
          (Some r, Some l) \<Rightarrow> compareVersions r l | _ \<Rightarrow> 0)
      in if c \<noteq> 0 then c else p_order left - p_order right)"

definition list_at :: "('k \<times> 'v list) list \<Rightarrow> 'k \<Rightarrow> 'v list" where
  "list_at m k = (case map_of m k of None \<Rightarrow> [] | Some vs \<Rightarrow> vs)"

definition byIdentity :: "package list \<Rightarrow> (jsstr \<times> package list) list" where
  "byIdentity candidates =
     map (\<lambda>(k, ps). (k, stable_sort compare_candidates ps))
       (fold (\<lambda>p m. AList.update (p_identity p) (list_at m (p_identity p) @ [p]) m) candidates [])"

section \<open>The queue\<close>

record constraint_item =
  c_constraint :: version_constraint
  c_locus :: jsval
  c_from :: jsstr
  c_text :: jsstr

record edge =
  e_target :: jsstr
  e_locus :: jsval

record resolution =
  r_selected :: "(jsstr \<times> package) list"
  r_constraints :: "(jsstr \<times> constraint_item list) list"
  r_edges :: "(jsstr \<times> edge list) list"
  r_queue :: "package list"
  r_diags :: "diag list"

type_synonym grouped = "(jsstr \<times> package list) list"

definition index_pointer :: "string \<Rightarrow> nat \<Rightarrow> jsstr" where
  "index_pointer base n = js base @ digits_of (int n)"

text \<open>\<open>select\<close>: the first, that is the highest, candidate every constraint so far admits.\<close>

definition applicable :: "(jsstr \<times> constraint_item list) list \<Rightarrow> jsstr \<Rightarrow> package list \<Rightarrow> package list" where
  "applicable constraints identity offered =
     filter (\<lambda>p. list_all (\<lambda>i. meets p (c_constraint i)) (list_at constraints identity)) offered"

definition report :: "diag \<Rightarrow> resolution \<Rightarrow> resolution" where
  "report d st = st\<lparr>r_diags := r_diags st @ [d]\<rparr>"

text \<open>The selection at the end of an import, given the candidate \<open>select\<close> returned.\<close>

definition choose_candidate :: "jsstr \<Rightarrow> package \<Rightarrow> resolution \<Rightarrow> resolution" where
  "choose_candidate identity chosen st =
     (if (case map_of (r_selected st) identity of
            None \<Rightarrow> True | Some previous \<Rightarrow> p_versionText previous \<noteq> p_versionText chosen)
      then st\<lparr>r_selected := AList.update identity chosen (r_selected st),
              r_queue := r_queue st @ [chosen]\<rparr>
      else st)"

definition record_constraint ::
  "package \<Rightarrow> version_constraint \<Rightarrow> jsval \<Rightarrow> import_decl \<Rightarrow> resolution \<Rightarrow> resolution" where
  "record_constraint current c loc i st =
     st\<lparr>r_constraints := AList.update (i_package i)
          (list_at (r_constraints st) (i_package i) @
            [\<lparr>c_constraint = c, c_locus = loc, c_from = p_identity current, c_text = i_constraint i\<rparr>])
          (r_constraints st),
        r_edges := AList.update (p_identity current)
          (list_at (r_edges st) (p_identity current) @
            [\<lparr>e_target = i_package i, e_locus = loc\<rparr>])
          (r_edges st)\<rparr>"

definition import_step ::
  "grouped \<Rightarrow> (jsstr \<times> diag list) list \<Rightarrow> package \<Rightarrow> nat \<times> import_decl \<Rightarrow> resolution \<Rightarrow> resolution" where
  "import_step grouped rejected current e st =
     (let (index, i) = e;
          loc = locate (p_document current) (index_pointer ''/imports/'' index)
      in case parseConstraint (Str (i_constraint i)) of
           None \<Rightarrow> report (diag_named ''UNSUPPORTED_VERSION_CONSTRAINT''
             (fragment (Str (i_constraint i)) @ js '' is neither an exact version nor a caret range; this compiler implements no other form'')
             [] [] (Some (locate (p_document current) (index_pointer ''/imports/'' index @ js ''/versionConstraint'')))) st
         | Some c \<Rightarrow>
             let st' = record_constraint current c loc i st;
                 offered = list_at grouped (i_package i)
             in if offered = [] then
                  report (diag_named ''IMPORT_NOT_FOUND''
                    (js ''no search directory supplies '' @ fragment (Str (i_package i)))
                    (concat (map snd rejected)) [] (Some loc)) st'
                else if filter (\<lambda>p. meets p c) offered = [] then
                  report (diag_named ''IMPORT_VERSION_UNSATISFIED''
                    (fragment (Str (i_package i)) @ js '' '' @ fragment (Str (i_constraint i))
                      @ js '' is satisfied by none of ''
                      @ fragment (Str (join (js '', '') (map p_versionText offered)))) [] [] (Some loc)) st'
                else
                  (case applicable (r_constraints st') (i_package i) offered of
                     [] \<Rightarrow> st'
                   | chosen # _ \<Rightarrow> choose_candidate (i_package i) chosen st'))"

definition process ::
  "grouped \<Rightarrow> (jsstr \<times> diag list) list \<Rightarrow> package \<Rightarrow> resolution \<Rightarrow> resolution" where
  "process grouped rejected current st =
     fold (import_step grouped rejected current)
       (List.enumerate 0 (m_imports (p_manifest current)))
       (st\<lparr>r_edges := AList.update (p_identity current) [] (r_edges st)\<rparr>)"

text \<open>
  The \<open>while\<close> loop; the left value is the state at the \<open>break\<close> of the node limit, \<open>None\<close> means out
  of rounds.
\<close>

fun resolve_loop ::
  "nat \<Rightarrow> grouped \<Rightarrow> (jsstr \<times> diag list) list \<Rightarrow> nat \<Rightarrow> diag \<Rightarrow> resolution \<Rightarrow>
     (resolution + resolution) option" where
  "resolve_loop fuel grouped rejected limit over st =
     (case r_queue st of
        [] \<Rightarrow> Some (Inr st)
      | current # rest \<Rightarrow>
          if limit < length (r_selected st) then Some (Inl (report over st))
          else (case fuel of
              0 \<Rightarrow> None
            | Suc f \<Rightarrow> resolve_loop f grouped rejected limit over
                (process grouped rejected current (st\<lparr>r_queue := rest\<rparr>))))"

declare resolve_loop.simps [simp del]

end
