(* ===== verification/PackageCycles.thy ===== *)
theory PackageCycles
  imports Resolve
begin

text \<open>
  \<open>detectCycles\<close> of \<open>src/src/compiler/packages/resolve.mjs\<close>: a depth-first search that reports a
  cycle per back edge. A call of \<open>visit\<close> spends a unit of fuel; a nested call opens a node no
  earlier one has, so one more than the number of nodes is enough (\<open>visit_ends\<close>). The search
  reports exactly when the import graph has a cycle, and what it reports is one.
\<close>

section \<open>The search\<close>

type_synonym import_graph = "(jsstr \<times> edge list) list"

record search =
  v_state :: "(jsstr \<times> bool) list"
  v_stack :: "jsstr list"
  v_reported :: "jsstr list"
  v_diags :: "diag list"

definition index_of :: "'a \<Rightarrow> 'a list \<Rightarrow> nat" where
  "index_of x xs = length (takeWhile (\<lambda>y. y \<noteq> x) xs)"

text \<open>\<open>cycle.reduce(...)\<close> on a non-empty list: the least member.\<close>

definition least_of :: "jsstr list \<Rightarrow> jsstr" where
  "least_of cycle = foldl (\<lambda>best item. if by_code_units item best < 0 then item else best) (hd cycle) (tl cycle)"

text \<open>The cycle a back edge to \<open>target\<close> closes, told from its least member.\<close>

definition rotated_cycle :: "jsstr list \<Rightarrow> jsstr \<Rightarrow> jsstr list" where
  "rotated_cycle stack target =
     (let cycle = drop (index_of target stack) stack;
          offset = index_of (least_of cycle) cycle
      in drop offset cycle @ take offset cycle)"

definition cycle_loci :: "import_graph \<Rightarrow> jsstr list \<Rightarrow> jsval list" where
  "cycle_loci edges rotated =
     concat (map (\<lambda>from.
       let next = rotated ! ((index_of from rotated + 1) mod length rotated)
       in case filter (\<lambda>e. e_target e = next) (list_at edges from) of
            [] \<Rightarrow> []
          | e # _ \<Rightarrow> if truthy (e_locus e) then [e_locus e] else []) rotated)"

definition report_cycle :: "import_graph \<Rightarrow> jsstr \<Rightarrow> search \<Rightarrow> search" where
  "report_cycle edges target st =
     (let rotated = rotated_cycle (v_stack st) target;
          key = join (js '' -> '') rotated;
          loci = cycle_loci edges rotated
      in if key \<in> set (v_reported st) then st
         else st\<lparr>v_reported := v_reported st @ [key],
           v_diags := v_diags st @
             [diag_named ''PACKAGE_CYCLE''
               (js ''package import cycle: '' @
                 fragment (Str (key @ js '' -> ''
                   @ least_of (drop (index_of target (v_stack st)) (v_stack st))))) [] (tl loci)
               (if loci = [] then None else Some (hd loci))]\<rparr>)"

definition open_node :: "jsstr \<Rightarrow> search \<Rightarrow> search" where
  "open_node node st =
     st\<lparr>v_state := AList.update node True (v_state st), v_stack := v_stack st @ [node]\<rparr>"

definition close_node :: "jsstr \<Rightarrow> search \<Rightarrow> search" where
  "close_node node st =
     st\<lparr>v_state := AList.update node False (v_state st), v_stack := butlast (v_stack st)\<rparr>"

function (sequential)
      visit :: "nat \<Rightarrow> import_graph \<Rightarrow> jsstr \<Rightarrow> search \<Rightarrow> search option"
  and visit_edges :: "nat \<Rightarrow> import_graph \<Rightarrow> edge list \<Rightarrow> search \<Rightarrow> search option"
where
  "visit 0 edges node st = None"
| "visit (Suc f) edges node st =
     map_option (close_node node) (visit_edges f edges (list_at edges node) (open_node node st))"
| "visit_edges f edges [] st = Some st"
| "visit_edges f edges (e # es) st =
     (case map_of (v_state st) (e_target e) of
        Some True \<Rightarrow> visit_edges f edges es (report_cycle edges (e_target e) st)
      | Some False \<Rightarrow> visit_edges f edges es st
      | None \<Rightarrow>
          (case visit f edges (e_target e) st of
             None \<Rightarrow> None
           | Some st' \<Rightarrow> visit_edges f edges es st'))"
  by pat_completeness auto
termination
  by (relation "measures [\<lambda>x. case x of Inl (f, _) \<Rightarrow> f | Inr (f, _) \<Rightarrow> f,
      \<lambda>x. case x of Inl _ \<Rightarrow> 0 | Inr (_, _, es, _) \<Rightarrow> Suc (length es)]") auto

fun visit_roots :: "nat \<Rightarrow> import_graph \<Rightarrow> jsstr list \<Rightarrow> search \<Rightarrow> search option" where
  "visit_roots f edges [] st = Some st"
| "visit_roots f edges (n # ns) st =
     (if map_of (v_state st) n \<noteq> None then visit_roots f edges ns st
      else (case visit f edges n st of
          None \<Rightarrow> None
        | Some st' \<Rightarrow> visit_roots f edges ns st'))"

definition nodes_of :: "import_graph \<Rightarrow> jsstr list" where
  "nodes_of edges = map fst edges @ concat (map (\<lambda>(k, es). map e_target es) edges)"

definition detectCycles :: "import_graph \<Rightarrow> search option" where
  "detectCycles edges =
     visit_roots (Suc (length (nodes_of edges))) edges (sort_on (\<lambda>n. n) (map fst edges))
       \<lparr>v_state = [], v_stack = [], v_reported = [], v_diags = []\<rparr>"

section \<open>The search ends\<close>

definition node_set :: "import_graph \<Rightarrow> jsstr set" where
  "node_set edges = set (nodes_of edges)"

definition seen :: "search \<Rightarrow> jsstr set" where
  "seen st = dom (map_of (v_state st))"

lemma finite_node_set [simp]: "finite (node_set edges)"
  by (simp add: node_set_def)

lemma edge_target_node: "e \<in> set (list_at edges n) \<Longrightarrow> e_target e \<in> node_set edges"
proof -
  assume e: "e \<in> set (list_at edges n)"
  then obtain es where m: "map_of edges n = Some es" "e \<in> set es"
    by (cases "map_of edges n") (auto simp: list_at_def)
  have "(n, es) \<in> set edges" using m(1) by (rule map_of_SomeD)
  then have "e_target e \<in> set (concat (map (\<lambda>(k, es). map e_target es) edges))"
    using m(2) by (auto intro!: bexI [of _ "(n, es)"])
  then show ?thesis by (simp add: node_set_def nodes_of_def)
qed

lemma seen_open [simp]: "seen (open_node n st) = insert n (seen st)"
  by (auto simp: seen_def open_node_def update_conv' split: if_splits)

lemma seen_close [simp]: "seen (close_node n st) = insert n (seen st)"
  by (auto simp: seen_def close_node_def update_conv' split: if_splits)

lemma state_report [simp]:
  "v_state (report_cycle edges t st) = v_state st" "v_stack (report_cycle edges t st) = v_stack st"
  by (simp_all add: report_cycle_def Let_def)

lemma seen_report [simp]: "seen (report_cycle edges t st) = seen st"
  by (simp add: seen_def)

lemma visit_ends:
  "node \<in> node_set edges \<Longrightarrow> node \<notin> seen st \<Longrightarrow> seen st \<subseteq> node_set edges \<Longrightarrow>
    card (node_set edges - seen st) \<le> f \<Longrightarrow>
    \<exists>st'. visit f edges node st = Some st' \<and> seen st \<subseteq> seen st' \<and> seen st' \<subseteq> node_set edges"
  "(\<forall>e\<in>set es. e_target e \<in> node_set edges) \<Longrightarrow> seen st \<subseteq> node_set edges \<Longrightarrow>
    card (node_set edges - seen st) \<le> f \<Longrightarrow>
    \<exists>st'. visit_edges f edges es st = Some st' \<and> seen st \<subseteq> seen st' \<and> seen st' \<subseteq> node_set edges"
proof (induction f edges node st and f edges es st rule: visit_visit_edges.induct)
  case (1 edges node st)
  then have "node_set edges - seen st = {}" by simp
  with 1 show ?case by blast
next
  case (2 f edges node st)
  have "node_set edges - seen (open_node node st) = node_set edges - seen st - {node}" by auto
  moreover have "card (node_set edges - seen st - {node}) \<le> f"
    using 2(2,3,5) by (simp add: card_Diff_singleton)
  ultimately have "\<exists>st'. visit_edges f edges (list_at edges node) (open_node node st) = Some st' \<and>
      seen (open_node node st) \<subseteq> seen st' \<and> seen st' \<subseteq> node_set edges"
    using 2(2,4) by (intro 2(1)) (auto simp: edge_target_node)
  then show ?case using 2(2) by auto
next
  case (4 f edges e es st)
  show ?case
  proof (cases "map_of (v_state st) (e_target e)")
    case None
    then have "e_target e \<notin> seen st" by (simp add: seen_def domIff)
    then have "\<exists>st'. visit f edges (e_target e) st = Some st' \<and> seen st \<subseteq> seen st' \<and>
        seen st' \<subseteq> node_set edges"
      using 4(5-7) by (intro 4(1) [OF None]) auto
    then obtain st' where v: "visit f edges (e_target e) st = Some st'" "seen st \<subseteq> seen st'"
      "seen st' \<subseteq> node_set edges" by blast
    then have "card (node_set edges - seen st') \<le> f"
      using 4(7) by (meson Diff_mono card_mono finite_Diff finite_node_set le_trans order_refl)
    then show ?thesis using 4(2) [OF None v(1)] 4(5) v None by fastforce
  next
    case (Some b)
    then show ?thesis using 4(3,4) 4(5-7) by (cases b) auto
  qed
qed auto

lemma visit_roots_ends:
  "set ns \<subseteq> node_set edges \<Longrightarrow> seen st \<subseteq> node_set edges \<Longrightarrow>
    card (node_set edges - seen st) \<le> f \<Longrightarrow> \<exists>st'. visit_roots f edges ns st = Some st'"
proof (induction ns arbitrary: st)
  case (Cons n ns)
  show ?case
  proof (cases "map_of (v_state st) n")
    case None
    then have "n \<notin> seen st" by (simp add: seen_def domIff)
    then obtain st' where v: "visit f edges n st = Some st'" "seen st \<subseteq> seen st'"
      "seen st' \<subseteq> node_set edges"
      using visit_ends(1) [of n edges st f] Cons.prems by auto
    then have "card (node_set edges - seen st') \<le> f"
      using Cons.prems(3) by (meson Diff_mono card_mono finite_Diff finite_node_set le_trans order_refl)
    then show ?thesis using Cons.IH [of st'] Cons.prems v None by simp
  qed (use Cons in auto)
qed simp

section \<open>The search is right\<close>

definition imports_rel :: "import_graph \<Rightarrow> (jsstr \<times> jsstr) set" where
  "imports_rel edges = {(a, e_target e) | a e. e \<in> set (list_at edges a)}"

definition opened :: "search \<Rightarrow> jsstr set" where
  "opened st = {n. map_of (v_state st) n = Some True}"

definition finished :: "search \<Rightarrow> jsstr set" where
  "finished st = {n. map_of (v_state st) n = Some False}"

lemma opened_simps [simp]:
  "opened (open_node n st) = insert n (opened st)" "opened (close_node n st) = opened st - {n}"
  "opened (report_cycle edges t st) = opened st"
  by (auto simp: opened_def open_node_def close_node_def update_conv')

lemma finished_simps [simp]:
  "finished (open_node n st) = finished st - {n}" "finished (close_node n st) = insert n (finished st)"
  "finished (report_cycle edges t st) = finished st"
  by (auto simp: finished_def open_node_def close_node_def update_conv')

lemma opened_finished: "opened st \<inter> finished st = {}"
  by (auto simp: opened_def finished_def)

lemma stack_simps [simp]:
  "v_stack (open_node n st) = v_stack st @ [n]" "v_stack (close_node n st) = butlast (v_stack st)"
  "v_diags (open_node n st) = v_diags st" "v_diags (close_node n st) = v_diags st"
  "v_reported (open_node n st) = v_reported st" "v_reported (close_node n st) = v_reported st"
  by (simp_all add: open_node_def close_node_def)

lemma report_cycle_grows: "\<exists>ds. v_diags (report_cycle edges t st) = v_diags st @ ds"
  by (simp add: report_cycle_def Let_def)

text \<open>What a call leaves as it was.\<close>

definition framed :: "search \<Rightarrow> search \<Rightarrow> bool" where
  "framed st st' \<longleftrightarrow> v_stack st' = v_stack st \<and> opened st' = opened st \<and>
     finished st \<subseteq> finished st' \<and> (\<exists>ds. v_diags st' = v_diags st @ ds)"

lemma framed_refl [simp]: "framed st st"
  by (simp add: framed_def)

lemma framed_trans: "framed st st' \<Longrightarrow> framed st' st'' \<Longrightarrow> framed st st''"
  by (auto simp: framed_def)

lemma framed_report [simp]: "framed st (report_cycle edges t st)"
  using report_cycle_grows [of edges t st] by (simp add: framed_def)

lemma visit_framed:
  "visit f edges node st = Some st' \<Longrightarrow> node \<notin> seen st \<Longrightarrow> framed st st' \<and> node \<in> finished st'"
  "visit_edges f edges es st = Some st' \<Longrightarrow> framed st st'"
proof (induction f edges node st and f edges es st arbitrary: st' and st' rule: visit_visit_edges.induct)
  case (2 f edges node st)
  then obtain st1 where s: "visit_edges f edges (list_at edges node) (open_node node st) = Some st1"
    "st' = close_node node st1" by auto
  with 2 have "framed (open_node node st) st1" by blast
  moreover have "node \<notin> opened st" "node \<notin> finished st"
    using 2(3) by (auto simp: seen_def opened_def finished_def)
  ultimately show ?case unfolding s(2) by (auto simp: framed_def)
next
  case (4 f edges e es st)
  show ?case
  proof (cases "map_of (v_state st) (e_target e)")
    case None
    then obtain st1 where v: "visit f edges (e_target e) st = Some st1"
      "visit_edges f edges es st1 = Some st'"
      using 4(5) by (auto split: option.splits)
    have "framed st st1" using 4(1) [OF None v(1)] None by (simp add: seen_def domIff)
    then show ?thesis using 4(2) [OF None v(1,2)] framed_trans by blast
  next
    case (Some b)
    show ?thesis
    proof (cases b)
      case True
      then have "framed (report_cycle edges (e_target e) st) st'"
        using 4(3) [OF Some] 4(5) Some by simp
      then show ?thesis by (rule framed_trans [OF framed_report])
    qed (use 4(4) [OF Some] 4(5) Some in simp)
  qed
qed auto

subsection \<open>Nothing reported: no cycle\<close>

text \<open>The finished nodes lead only to finished nodes, and no cycle runs through them.\<close>

definition settled :: "import_graph \<Rightarrow> search \<Rightarrow> bool" where
  "settled edges st \<longleftrightarrow>
     (\<forall>a\<in>finished st. \<forall>b. (a, b) \<in> imports_rel edges \<longrightarrow> b \<in> finished st) \<and>
     acyclic (imports_rel edges \<inter> finished st \<times> finished st)"

lemma settled_close:
  assumes "settled edges st" and "n \<notin> finished st"
    and "\<forall>b. (n, b) \<in> imports_rel edges \<longrightarrow> b \<in> finished st"
  shows "settled edges (close_node n st)"
  using assms acyclic_insert [of "finished st" "imports_rel edges" n]
  by (auto simp: settled_def)

lemma report_cycle_diag:
  "v_reported st = [] \<Longrightarrow> v_diags (report_cycle edges t st) \<noteq> []"
  by (simp add: report_cycle_def Let_def)

definition matched :: "search \<Rightarrow> bool" where
  "matched st \<longleftrightarrow> (v_diags st = [] \<longleftrightarrow> v_reported st = [])"

lemma matched_simps [simp]:
  "matched (open_node n st) = matched st" "matched (close_node n st) = matched st"
  "matched st \<Longrightarrow> matched (report_cycle edges t st)"
  by (auto simp: matched_def report_cycle_def Let_def)

lemma visit_matched:
  "visit f edges node st = Some st' \<Longrightarrow> matched st \<Longrightarrow> matched st'"
  "visit_edges f edges es st = Some st' \<Longrightarrow> matched st \<Longrightarrow> matched st'"
  by (induction f edges node st and f edges es st arbitrary: st' and st' rule: visit_visit_edges.induct)
    (auto split: option.splits bool.splits)

lemma framed_quiet: "framed st st' \<Longrightarrow> v_diags st' = [] \<Longrightarrow> v_diags st = []"
  by (auto simp: framed_def)

lemma settled_open: "n \<notin> finished st \<Longrightarrow> settled edges (open_node n st) = settled edges st"
  by (simp add: settled_def)

lemma visit_settled:
  "visit f edges node st = Some st' \<Longrightarrow> node \<notin> seen st \<Longrightarrow> matched st \<Longrightarrow> v_diags st' = [] \<Longrightarrow>
    settled edges st \<Longrightarrow> settled edges st'"
  "visit_edges f edges es st = Some st' \<Longrightarrow> matched st \<Longrightarrow> v_diags st' = [] \<Longrightarrow>
    settled edges st \<Longrightarrow> settled edges st' \<and> e_target ` set es \<subseteq> finished st'"
proof (induction f edges node st and f edges es st arbitrary: st' and st' rule: visit_visit_edges.induct)
  case (2 f edges node st)
  then obtain st1 where s: "visit_edges f edges (list_at edges node) (open_node node st) = Some st1"
    "st' = close_node node st1" by auto
  have n: "node \<notin> finished st" using 2(3) by (auto simp: seen_def finished_def)
  have fr: "framed (open_node node st) st1" using s(1) by (rule visit_framed)
  have "settled edges st1 \<and> e_target ` set (list_at edges node) \<subseteq> finished st1"
    using 2(4-6) s n by (intro 2(1)) (simp_all add: settled_open)
  moreover have "node \<notin> finished st1"
    using fr opened_finished [of st1] by (auto simp: framed_def)
  ultimately show ?case
    unfolding s(2) by (intro settled_close) (auto simp: imports_rel_def)
next
  case (4 f edges e es st)
  show ?case
  proof (cases "map_of (v_state st) (e_target e)")
    case None
    then obtain st1 where v: "visit f edges (e_target e) st = Some st1"
      "visit_edges f edges es st1 = Some st'"
      using 4(5) by (auto split: option.splits)
    have n: "e_target e \<notin> seen st" using None by (simp add: seen_def domIff)
    have f1: "framed st st1 \<and> e_target e \<in> finished st1" by (rule visit_framed(1) [OF v(1) n])
    have f2: "framed st1 st'" by (rule visit_framed(2) [OF v(2)])
    have q: "v_diags st1 = []" using f2 4(7) by (rule framed_quiet)
    have "settled edges st1" using 4(1) [OF None v(1) n 4(6) q 4(8)] .
    moreover have "matched st1" using visit_matched(1) [OF v(1) 4(6)] .
    ultimately have "settled edges st' \<and> e_target ` set es \<subseteq> finished st'"
      using 4(2) [OF None v(1,2)] 4(7) by blast
    then show ?thesis using f1 f2 by (auto simp: framed_def)
  next
    case (Some b)
    show ?thesis
    proof (cases b)
      case True
      then have r: "visit_edges f edges es (report_cycle edges (e_target e) st) = Some st'"
        using 4(5) Some by simp
      then have "v_diags (report_cycle edges (e_target e) st) = []" "v_diags st = []"
        using visit_framed(2) [OF r] 4(7) framed_quiet framed_report by blast+
      then show ?thesis
        using report_cycle_diag [of st edges "e_target e"] 4(6) by (simp add: matched_def)
    next
      case False
      then have r: "visit_edges f edges es st = Some st'" using 4(5) Some by simp
      have "settled edges st' \<and> e_target ` set es \<subseteq> finished st'"
        using 4(4) [OF Some] False r 4(6-8) by blast
      moreover have "e_target e \<in> finished st'"
        using visit_framed(2) [OF r] Some False by (auto simp: framed_def finished_def)
      ultimately show ?thesis by auto
    qed
  qed
qed auto

subsection \<open>What is reported is a cycle\<close>

text \<open>A closed walk of the relation, written from its first node.\<close>

definition cycle_in :: "('a \<times> 'a) set \<Rightarrow> 'a list \<Rightarrow> bool" where
  "cycle_in r ns \<longleftrightarrow>
     ns \<noteq> [] \<and> (\<forall>i < length ns. (ns ! i, ns ! (Suc i mod length ns)) \<in> r)"

lemma cycle_in_rotate: "cycle_in r ns \<Longrightarrow> cycle_in r (rotate k ns)"
proof -
  assume c: "cycle_in r ns"
  then have ne: "ns \<noteq> []" and e: "\<And>i. i < length ns \<Longrightarrow> (ns ! i, ns ! (Suc i mod length ns)) \<in> r"
    by (auto simp: cycle_in_def)
  have "(rotate k ns ! i, rotate k ns ! (Suc i mod length ns)) \<in> r" if i: "i < length ns" for i
  proof -
    have m: "Suc i mod length ns < length ns" using ne by simp
    have "rotate k ns ! i = ns ! ((k + i) mod length ns)" using i by (rule nth_rotate)
    moreover have "rotate k ns ! (Suc i mod length ns) = ns ! ((k + Suc i mod length ns) mod length ns)"
      using m by (rule nth_rotate)
    moreover have "(k + Suc i mod length ns) mod length ns = Suc ((k + i) mod length ns) mod length ns"
      by (metis add_Suc_right mod_Suc_eq mod_add_right_eq)
    moreover have "(k + i) mod length ns < length ns" using ne by simp
    ultimately show ?thesis using e by simp
  qed
  with ne show ?thesis by (simp add: cycle_in_def)
qed

lemma cycle_in_cyclic:
  assumes "cycle_in r ns"
  shows "\<not> acyclic r"
proof -
  have ne: "0 < length ns" and e: "\<And>i. i < length ns \<Longrightarrow> (ns ! i, ns ! (Suc i mod length ns)) \<in> r"
    using assms by (auto simp: cycle_in_def)
  have "(ns ! 0, ns ! i) \<in> r\<^sup>*" if "i < length ns" for i
    using that
  proof (induction i)
    case (Suc i)
    then have "(ns ! i, ns ! Suc i) \<in> r" using e [of i] by simp
    with Suc show ?case by (simp add: rtrancl.rtrancl_into_rtrancl)
  qed simp
  then have "(ns ! 0, ns ! (length ns - 1)) \<in> r\<^sup>*" using ne by simp
  moreover have "(ns ! (length ns - 1), ns ! 0) \<in> r" using e [of "length ns - 1"] ne by simp
  ultimately have "(ns ! 0, ns ! 0) \<in> r\<^sup>+" by (rule rtrancl_into_trancl1)
  then show ?thesis by (auto simp: acyclic_def)
qed

lemma index_of_nth: "x \<in> set xs \<Longrightarrow> index_of x xs < length xs \<and> xs ! index_of x xs = x"
  by (induction xs) (auto simp: index_of_def)

lemma least_of_min: "cycle \<noteq> [] \<Longrightarrow> least_of cycle = Min (set cycle)"
proof -
  assume ne: "cycle \<noteq> []"
  have f: "foldl (\<lambda>best item. if by_code_units item best < 0 then item else best) b xs =
      Min (insert b (set xs))" for b xs
  proof (induction xs arbitrary: b)
    case (Cons x xs)
    have m: "(if x < b then x else b) = min b x" by (auto simp: min_def)
    have "Min (insert (min b x) (set xs)) = Min (insert b (set (x # xs)))"
      by (cases "xs = []") (simp_all add: min.assoc)
    moreover have "foldl (\<lambda>best item. if by_code_units item best < 0 then item else best) b (x # xs) =
        Min (insert (min b x) (set xs))"
      using Cons [of "min b x"] by (simp add: m)
    ultimately show ?case by simp
  qed simp
  have "insert (hd cycle) (set (tl cycle)) = set cycle" using ne by (cases cycle) auto
  then show ?thesis unfolding least_of_def f by simp
qed

definition told :: "import_graph \<Rightarrow> jsstr \<Rightarrow> bool" where
  "told edges key \<longleftrightarrow>
     (\<exists>ns. key = join (js '' -> '') ns \<and> cycle_in (imports_rel edges) ns \<and> hd ns = Min (set ns))"

lemma rotated_cycle_told:
  assumes walk: "\<And>i. Suc i < length st \<Longrightarrow> (st ! i, st ! Suc i) \<in> r"
    and t: "target \<in> set st" and closing: "(last st, target) \<in> r"
  shows "cycle_in r (rotated_cycle st target) \<and>
    hd (rotated_cycle st target) = Min (set (rotated_cycle st target))"
proof -
  define k where "k = index_of target st"
  define c where "c = drop k st"
  define l where "l = index_of (least_of c) c"
  have k: "k < length st" "st ! k = target" using index_of_nth [OF t] by (simp_all add: k_def)
  have ne: "c \<noteq> []" using k by (simp add: c_def)
  have cyc: "cycle_in r c"
    unfolding cycle_in_def
  proof (intro conjI allI impI)
    fix i assume i: "i < length c"
    show "(c ! i, c ! (Suc i mod length c)) \<in> r"
    proof (cases "Suc i < length c")
      case True
      then show ?thesis using walk [of "k + i"] k by (simp add: c_def)
    next
      case False
      then have "Suc i = length c" using i by simp
      moreover have "c ! i = last st"
        using calculation k by (simp add: c_def last_conv_nth nth_append)
          (metis Suc_diff_Suc add_diff_inverse_nat diff_Suc_1 last_conv_nth length_greater_0_conv less_nat_zero_code not_less_iff_gr_or_eq le_add_diff_inverse less_imp_le_nat add_Suc_right)
      moreover have "c ! 0 = target" using k by (simp add: c_def)
      ultimately show ?thesis using closing by simp
    qed
  qed (rule ne)
  have mem: "least_of c \<in> set c" using ne by (simp add: least_of_min)
  then have l: "l < length c" "c ! l = least_of c" using index_of_nth [OF mem] by (simp_all add: l_def)
  have rot: "rotated_cycle st target = rotate l c"
    using l by (simp add: rotated_cycle_def Let_def rotate_drop_take flip: k_def c_def l_def)
  have "hd (rotate l c) = c ! l" using ne l by (simp add: hd_rotate_conv_nth)
  then have "hd (rotate l c) = Min (set (rotate l c))" using l ne by (simp add: least_of_min)
  then show ?thesis using cycle_in_rotate [OF cyc] rot by simp
qed

definition on_path :: "import_graph \<Rightarrow> search \<Rightarrow> bool" where
  "on_path edges st \<longleftrightarrow> set (v_stack st) = opened st \<and>
     (\<forall>i. Suc i < length (v_stack st) \<longrightarrow>
        (v_stack st ! i, v_stack st ! Suc i) \<in> imports_rel edges)"

definition all_told :: "import_graph \<Rightarrow> search \<Rightarrow> bool" where
  "all_told edges st \<longleftrightarrow> (\<forall>key\<in>set (v_reported st). told edges key)"

lemma on_path_framed: "framed st st' \<Longrightarrow> on_path edges st \<Longrightarrow> on_path edges st'"
  by (simp add: framed_def on_path_def)

lemma last_index: "Suc i = length xs \<Longrightarrow> xs ! i = last xs"
  by (cases xs rule: rev_cases) (auto simp: nth_append)

lemma on_path_open:
  "on_path edges st \<Longrightarrow> v_stack st = [] \<or> (last (v_stack st), n) \<in> imports_rel edges \<Longrightarrow>
    on_path edges (open_node n st)"
  by (auto simp: on_path_def nth_append last_index less_Suc_eq)

lemma all_told_report:
  assumes "on_path edges st" and "all_told edges st" and "target \<in> opened st"
    and "(last (v_stack st), target) \<in> imports_rel edges"
  shows "all_told edges (report_cycle edges target st)"
proof -
  have "told edges (join (js '' -> '') (rotated_cycle (v_stack st) target))"
    unfolding told_def
    using rotated_cycle_told [of "v_stack st" "imports_rel edges" target] assms
    by (auto simp: on_path_def)
  then show ?thesis using assms(2) by (auto simp: all_told_def report_cycle_def Let_def)
qed

lemma all_told_simps [simp]:
  "all_told edges (open_node n st) = all_told edges st"
  "all_told edges (close_node n st) = all_told edges st"
  by (simp_all add: all_told_def)

lemma visit_told:
  "visit f edges node st = Some st' \<Longrightarrow> node \<notin> seen st \<Longrightarrow> on_path edges st \<Longrightarrow>
    all_told edges st \<Longrightarrow> v_stack st = [] \<or> (last (v_stack st), node) \<in> imports_rel edges \<Longrightarrow>
    all_told edges st'"
  "visit_edges f edges es st = Some st' \<Longrightarrow> on_path edges st \<Longrightarrow> all_told edges st \<Longrightarrow>
    (\<forall>e\<in>set es. (last (v_stack st), e_target e) \<in> imports_rel edges) \<Longrightarrow> all_told edges st'"
proof (induction f edges node st and f edges es st arbitrary: st' and st' rule: visit_visit_edges.induct)
  case (2 f edges node st)
  then obtain st1 where s: "visit_edges f edges (list_at edges node) (open_node node st) = Some st1"
    "st' = close_node node st1" by auto
  have "\<forall>e\<in>set (list_at edges node). (last (v_stack (open_node node st)), e_target e) \<in> imports_rel edges"
    by (auto simp: imports_rel_def)
  then have "all_told edges st1"
    using 2(1) [OF s(1) on_path_open [OF 2(4,6)]] 2(5) by simp
  then show ?case by (simp add: s(2))
next
  case (4 f edges e es st)
  show ?case
  proof (cases "map_of (v_state st) (e_target e)")
    case None
    then obtain st1 where v: "visit f edges (e_target e) st = Some st1"
      "visit_edges f edges es st1 = Some st'"
      using 4(5) by (auto split: option.splits)
    have n: "e_target e \<notin> seen st" using None by (simp add: seen_def domIff)
    have f1: "framed st st1" using visit_framed(1) [OF v(1) n] by simp
    have "all_told edges st1" using 4(1) [OF None v(1) n] 4(6-8) by simp
    then show ?thesis
      using 4(2) [OF None v(1,2)] 4(6,8) f1 on_path_framed by (auto simp: framed_def)
  next
    case (Some b)
    show ?thesis
    proof (cases b)
      case True
      then have "all_told edges (report_cycle edges (e_target e) st)"
        using 4(6-8) Some by (intro all_told_report) (auto simp: opened_def)
      moreover have "on_path edges (report_cycle edges (e_target e) st)"
        using on_path_framed [OF framed_report] 4(6) .
      ultimately show ?thesis using 4(3) [OF Some] True 4(5,8) Some by simp
    qed (use 4(4) [OF Some] 4(5-8) Some in simp)
  qed
qed auto

subsection \<open>The whole search\<close>

lemma visit_roots_right:
  "visit_roots f edges ns st = Some st' \<Longrightarrow> matched st \<Longrightarrow> v_stack st = [] \<Longrightarrow> opened st = {} \<Longrightarrow>
    all_told edges st \<Longrightarrow>
    all_told edges st' \<and> matched st' \<and> opened st' = {} \<and>
      (\<exists>ds. v_diags st' = v_diags st @ ds) \<and> finished st \<union> set ns \<subseteq> finished st' \<and>
      (v_diags st' = [] \<longrightarrow> settled edges st \<longrightarrow> settled edges st')"
proof (induction ns arbitrary: st)
  case (Cons n ns)
  show ?case
  proof (cases "map_of (v_state st) n")
    case None
    then obtain st1 where v: "visit f edges n st = Some st1" "visit_roots f edges ns st1 = Some st'"
      using Cons.prems(1) by (auto split: option.splits)
    have n: "n \<notin> seen st" using None by (simp add: seen_def domIff)
    have fr: "framed st st1" "n \<in> finished st1" using visit_framed(1) [OF v(1) n] by simp_all
    have p: "on_path edges st" using Cons.prems(3,4) by (simp add: on_path_def)
    have t: "all_told edges st1" using visit_told(1) [OF v(1) n p Cons.prems(5)] Cons.prems(3) by simp
    have m: "matched st1" by (rule visit_matched(1) [OF v(1) Cons.prems(2)])
    have IH: "all_told edges st' \<and> matched st' \<and> opened st' = {} \<and>
      (\<exists>ds. v_diags st' = v_diags st1 @ ds) \<and> finished st1 \<union> set ns \<subseteq> finished st' \<and>
      (v_diags st' = [] \<longrightarrow> settled edges st1 \<longrightarrow> settled edges st')"
      using Cons.IH [OF v(2) m _ _ t] fr(1) Cons.prems(3,4) by (simp add: framed_def)
    have "v_diags st' = [] \<Longrightarrow> settled edges st \<Longrightarrow> settled edges st1"
      using IH visit_settled(1) [OF v(1) n Cons.prems(2)] by auto
    then show ?thesis using IH fr by (auto simp: framed_def)
  next
    case (Some b)
    then have "n \<in> finished st" using Cons.prems(4) by (cases b) (auto simp: opened_def finished_def)
    then show ?thesis using Cons Some by auto
  qed
qed simp

lemma imports_rel_dom: "(a, b) \<in> imports_rel edges \<Longrightarrow> a \<in> fst ` set edges"
  by (cases "map_of edges a")
    (auto simp: imports_rel_def list_at_def dest!: map_of_SomeD intro: rev_image_eqI)

lemma detectCycles_right:
  "\<exists>st. detectCycles edges = Some st \<and> (v_diags st = [] \<longleftrightarrow> acyclic (imports_rel edges)) \<and>
    (\<forall>key\<in>set (v_reported st). told edges key)"
proof -
  let ?i = "\<lparr>v_state = [], v_stack = [], v_reported = [], v_diags = []\<rparr> :: search"
  let ?ns = "sort_on (\<lambda>n. n) (map fst edges)"
  have e: "seen ?i = {}" "opened ?i = {}" "finished ?i = {}"
    by (simp_all add: seen_def opened_def finished_def)
  have "\<exists>st. visit_roots (Suc (length (nodes_of edges))) edges ?ns ?i = Some st"
  proof (rule visit_roots_ends)
    show "set ?ns \<subseteq> node_set edges" by (auto simp: node_set_def nodes_of_def)
    show "card (node_set edges - seen ?i) \<le> Suc (length (nodes_of edges))"
      unfolding e node_set_def by (simp add: card_length le_SucI)
  qed (simp add: e)
  then obtain st where st: "detectCycles edges = Some st"
    and v: "visit_roots (Suc (length (nodes_of edges))) edges ?ns ?i = Some st"
    by (auto simp: detectCycles_def)
  have i: "matched ?i" "all_told edges ?i" "settled edges ?i"
    by (simp_all add: matched_def all_told_def settled_def e acyclic_def)
  have r: "all_told edges st" "matched st" "fst ` set edges \<subseteq> finished st"
    "v_diags st = [] \<longrightarrow> settled edges st"
    using visit_roots_right [OF v i(1) _ e(2) i(2)] i(3) by simp_all
  have "acyclic (imports_rel edges)" if "v_diags st = []"
  proof -
    have s: "settled edges st" using r(4) that by simp
    have "imports_rel edges \<inter> finished st \<times> finished st = imports_rel edges"
      using s r(3) imports_rel_dom unfolding settled_def by fast
    with s show ?thesis by (simp add: settled_def)
  qed
  moreover have "\<not> acyclic (imports_rel edges)" if d: "v_diags st \<noteq> []"
  proof -
    obtain key where "key \<in> set (v_reported st)"
      using d r(2) by (cases "v_reported st") (auto simp: matched_def)
    then have "told edges key" using r(1) by (simp add: all_told_def)
    then show ?thesis using cycle_in_cyclic unfolding told_def by blast
  qed
  ultimately show ?thesis using st r(1) unfolding all_told_def by blast
qed

section \<open>Properties\<close>

text \<open>
  C11. \<open>detectCycles\<close> ends on every import graph, reports a \<open>PACKAGE_CYCLE\<close> exactly when the graph
  has a cycle, and every cycle it reports is a closed walk of imports written from its least
  package identity, so the message does not depend on where the search entered it.
\<close>

theorem detectCycles_exact:
  "\<exists>st. detectCycles edges = Some st \<and> (v_diags st = [] \<longleftrightarrow> acyclic (imports_rel edges)) \<and>
    list_all (\<lambda>key. \<exists>ns. key = join (js '' -> '') ns \<and> cycle_in (imports_rel edges) ns \<and>
      hd ns = Min (set ns)) (v_reported st)"
  using detectCycles_right [of edges] by (simp add: list_all_iff told_def)

end
