(* ===== verification/Selection.thy ===== *)
theory Selection
  imports Resolve "HOL-Library.Option_ord"
begin

text \<open>
  What the queue of \<open>resolvePackageGraph\<close> (\<open>src/src/compiler/packages/resolve.mjs\<close>) promises: it
  empties after at most one round per candidate and one for the root, and it leaves each imported
  identity at the highest candidate version that satisfies every constraint met.
\<close>

section \<open>Grouping and sorting the candidates\<close>

definition sound_candidate :: "package \<Rightarrow> bool" where
  "sound_candidate p \<longleftrightarrow> 0 \<le> p_order p \<and> (\<exists>v. p_version p = Some v \<and> wf_version v)"

definition candidate_order :: "package \<Rightarrow> package \<Rightarrow> int" where
  "candidate_order l r =
     (let c = by_order (map_option version_key (p_version r)) (map_option version_key (p_version l))
      in if c \<noteq> 0 then c else p_order l - p_order r)"

interpretation candidates: comparator_law candidate_order
  by unfold_locales (auto simp: candidate_order_def Let_def by_order_def split: if_splits)

lemma compare_candidates_order:
  "sound_candidate l \<Longrightarrow> sound_candidate r \<Longrightarrow> compare_candidates l r = candidate_order l r"
  by (auto simp: sound_candidate_def compare_candidates_def candidate_order_def Let_def
      compareVersions_key by_order_def)

lemma sort_candidates:
  "list_all sound_candidate ps \<Longrightarrow> stable_sort compare_candidates ps = stable_sort candidate_order ps"
  by (rule stable_sort_cong) (auto simp: list_all_iff compare_candidates_order)

lemma list_at_update:
  "list_at (AList.update k v m) j = (if j = k then v else list_at m j)"
  by (simp add: list_at_def update_conv')

definition group :: "package list \<Rightarrow> (jsstr \<times> package list) list \<Rightarrow> (jsstr \<times> package list) list" where
  "group ps m =
     fold (\<lambda>p m. AList.update (p_identity p) (list_at m (p_identity p) @ [p]) m) ps m"

lemma list_at_group: "list_at (group ps m) k = list_at m k @ filter (\<lambda>p. p_identity p = k) ps"
  by (induction ps arbitrary: m) (auto simp: group_def list_at_update)

lemma keys_group: "fst ` set (group ps m) = fst ` set m \<union> p_identity ` set ps"
proof (induction ps arbitrary: m)
  case (Cons p ps)
  have "fst ` set (AList.update (p_identity p) v m) = insert (p_identity p) (fst ` set m)" for v
    by (simp add: dom_update)
  then show ?case using Cons by (simp add: group_def)
qed (simp add: group_def)

lemma list_at_map:
  "f [] = [] \<Longrightarrow> list_at (map (\<lambda>(k, ps). (k, f ps)) m) j = f (list_at m j)"
  by (induction m) (auto simp: list_at_def)

lemma list_at_byIdentity:
  "list_at (byIdentity cs) k = stable_sort compare_candidates (filter (\<lambda>p. p_identity p = k) cs)"
  using list_at_map [of "stable_sort compare_candidates" "group cs []" k] list_at_group [of cs "[]" k]
  by (simp add: byIdentity_def group_def list_at_def)

lemma keys_byIdentity: "fst ` set (byIdentity cs) = p_identity ` set cs"
  using keys_group [of cs "[]"]
  by (simp add: byIdentity_def group_def image_image case_prod_beta)

lemma sum_groups:
  "finite K \<Longrightarrow> p_identity ` set cs \<subseteq> K \<Longrightarrow>
    (\<Sum>k\<in>K. length (filter (\<lambda>p. p_identity p = k) cs)) = length cs"
proof (induction cs)
  case (Cons p cs)
  have "(\<Sum>k\<in>K. length (filter (\<lambda>p. p_identity p = k) (p # cs))) =
      (\<Sum>k\<in>K. (if k = p_identity p then 1 else 0) + length (filter (\<lambda>p. p_identity p = k) cs))"
    by (rule sum.cong) auto
  also have "\<dots> = Suc (length cs)"
    using Cons by (simp add: sum.distrib)
  finally show ?case by simp
qed simp

section \<open>The queue empties\<close>

definition allowed :: "resolution \<Rightarrow> jsstr \<Rightarrow> package \<Rightarrow> bool" where
  "allowed st k p \<longleftrightarrow> list_all (\<lambda>i. meets p (c_constraint i)) (list_at (r_constraints st) k)"

definition first_allowed :: "grouped \<Rightarrow> resolution \<Rightarrow> jsstr \<Rightarrow> nat" where
  "first_allowed g st k = length (takeWhile (\<lambda>p. \<not> allowed st k p) (list_at g k))"

definition place :: "package \<Rightarrow> package list \<Rightarrow> nat" where
  "place p ps = length (takeWhile (\<lambda>q. q \<noteq> p) ps)"

text \<open>How many candidates of an identity come after the selected one.\<close>

definition left_over :: "grouped \<Rightarrow> resolution \<Rightarrow> jsstr \<Rightarrow> nat" where
  "left_over g st k =
     (case map_of (r_selected st) k of
        Some p \<Rightarrow> length (list_at g k) - (if p \<in> set (list_at g k) then Suc (place p (list_at g k)) else 0)
      | None \<Rightarrow> length (list_at g k))"

definition work :: "grouped \<Rightarrow> resolution \<Rightarrow> nat" where
  "work g st = (\<Sum>k\<in>fst ` set g. left_over g st k) + length (r_queue st)"

text \<open>A selected candidate never comes after the first one still allowed.\<close>

definition in_order :: "grouped \<Rightarrow> resolution \<Rightarrow> bool" where
  "in_order g st \<longleftrightarrow>
     (\<forall>k p. map_of (r_selected st) k = Some p \<longrightarrow> p \<in> set (list_at g k) \<longrightarrow>
        place p (list_at g k) \<le> first_allowed g st k)"

text \<open>Every identity with an allowed candidate is at the version of the first such.\<close>

definition at_best :: "grouped \<Rightarrow> resolution \<Rightarrow> bool" where
  "at_best g st \<longleftrightarrow>
     (\<forall>k. list_at (r_constraints st) k \<noteq> [] \<longrightarrow> first_allowed g st k < length (list_at g k) \<longrightarrow>
        (\<exists>p. map_of (r_selected st) k = Some p \<and>
          p_versionText p = p_versionText (list_at g k ! first_allowed g st k)))"

lemma place_nth: "p \<in> set ps \<Longrightarrow> place p ps < length ps \<and> ps ! place p ps = p"
  by (induction ps) (auto simp: place_def)

lemma takeWhile_mono:
  "(\<And>x. x \<in> set xs \<Longrightarrow> P x \<Longrightarrow> Q x) \<Longrightarrow> length (takeWhile P xs) \<le> length (takeWhile Q xs)"
  by (induction xs) auto

lemma filter_takeWhile:
  "filter P xs = x # ys \<Longrightarrow> length (takeWhile (\<lambda>x. \<not> P x) xs) < length xs \<and>
    xs ! length (takeWhile (\<lambda>x. \<not> P x) xs) = x \<and> P x"
  by (induction xs) (auto split: if_splits)

lemma filter_takeWhile_Nil: "filter P xs = [] \<Longrightarrow> length (takeWhile (\<lambda>x. \<not> P x) xs) = length xs"
  by (induction xs) (auto split: if_splits)

lemma place_first:
  "P x \<Longrightarrow> filter P xs = x # ys \<Longrightarrow> place x xs = length (takeWhile (\<lambda>x. \<not> P x) xs)"
  by (induction xs) (auto simp: place_def split: if_splits)

lemma applicable_allowed: "applicable (r_constraints st) k ps = filter (allowed st k) ps"
  by (simp add: applicable_def allowed_def [abs_def])

text \<open>The parts of an import step.\<close>

lemma report_simps [simp]:
  "r_selected (report d st) = r_selected st" "r_constraints (report d st) = r_constraints st"
  "r_queue (report d st) = r_queue st" "r_edges (report d st) = r_edges st"
  by (simp_all add: report_def)

lemma record_simps [simp]:
  "r_selected (record_constraint cur c l i st) = r_selected st"
  "r_queue (record_constraint cur c l i st) = r_queue st"
  "list_at (r_constraints (record_constraint cur c l i st)) k =
    (if k = i_package i then list_at (r_constraints st) k @
        [\<lparr>c_constraint = c, c_locus = l, c_from = p_identity cur, c_text = i_constraint i\<rparr>]
     else list_at (r_constraints st) k)"
  by (simp_all add: record_constraint_def list_at_update)

lemma allowed_record:
  "allowed (record_constraint cur c l i st) k p \<longleftrightarrow>
    allowed st k p \<and> (k = i_package i \<longrightarrow> meets p c)"
  by (auto simp: allowed_def)

lemma first_allowed_record:
  "first_allowed g st k \<le> first_allowed g (record_constraint cur c l i st) k"
  unfolding first_allowed_def by (rule takeWhile_mono) (simp add: allowed_record)

lemma left_over_cong: "r_selected st = r_selected st' \<Longrightarrow> left_over g st k = left_over g st' k"
  by (simp add: left_over_def)

lemma work_cong:
  "r_selected st = r_selected st' \<Longrightarrow> r_queue st = r_queue st' \<Longrightarrow> work g st = work g st'"
  by (simp add: work_def left_over_def)

lemma in_order_record:
  "in_order g st \<Longrightarrow> in_order g (record_constraint cur c l i st)"
  unfolding in_order_def using first_allowed_record order_trans by (simp, blast)

text \<open>Choosing the first allowed candidate.\<close>

lemma work_choose:
  assumes o: "in_order g st" and k: "k \<in> fst ` set g"
    and f: "filter (allowed st k) (list_at g k) = p # ps"
  shows "work g (choose_candidate k p st) \<le> work g st"
proof (cases "case map_of (r_selected st) k of None \<Rightarrow> True
    | Some q \<Rightarrow> p_versionText q \<noteq> p_versionText p")
  case True
  define st' where "st' = choose_candidate k p st"
  have s: "r_selected st' = AList.update k p (r_selected st)" "r_queue st' = r_queue st @ [p]"
    using True by (simp_all add: st'_def choose_candidate_def)
  have first: "first_allowed g st k < length (list_at g k)" "list_at g k ! first_allowed g st k = p"
    "place p (list_at g k) = first_allowed g st k" "p \<in> set (list_at g k)"
    using filter_takeWhile [OF f] place_first [OF _ f] by (auto simp: first_allowed_def)
  have "left_over g st' k = length (list_at g k) - Suc (first_allowed g st k)"
    using first by (simp add: left_over_def s update_conv')
  moreover have "length (list_at g k) - first_allowed g st k \<le> left_over g st k"
  proof (cases "map_of (r_selected st) k")
    case (Some q)
    show ?thesis
    proof (cases "q \<in> set (list_at g k)")
      case q: True
      have "place q (list_at g k) \<le> first_allowed g st k"
        using o Some q by (auto simp: in_order_def)
      moreover have "place q (list_at g k) \<noteq> first_allowed g st k"
        using place_nth [OF q] first(2) True Some by auto
      ultimately show ?thesis using Some q by (simp add: left_over_def)
    qed (simp add: left_over_def Some)
  qed (simp add: left_over_def)
  ultimately have k_less: "Suc (left_over g st' k) \<le> left_over g st k" using first(1) by simp
  have other: "left_over g st' j = left_over g st j" if "j \<noteq> k" for j
    using that by (simp add: left_over_def s update_conv')
  have "(\<Sum>j\<in>fst ` set g. left_over g st' j) < (\<Sum>j\<in>fst ` set g. left_over g st j)"
  proof (rule sum_strict_mono_ex1)
    show "\<forall>j\<in>fst ` set g. left_over g st' j \<le> left_over g st j"
    proof
      fix j
      show "left_over g st' j \<le> left_over g st j"
        using k_less other [of j] by (cases "j = k") auto
    qed
    show "\<exists>j\<in>fst ` set g. left_over g st' j < left_over g st j"
      using k k_less by (intro bexI [of _ k]) auto
  qed simp
  then show ?thesis unfolding st'_def [symmetric] by (simp add: work_def s)
next
  case False
  then show ?thesis by (auto simp: choose_candidate_def split: option.splits)
qed

lemma list_at_choose [simp]:
  "r_constraints (choose_candidate k p st) = r_constraints st"
  by (simp add: choose_candidate_def)

lemma allowed_choose [simp]: "allowed (choose_candidate k p st) = allowed st"
  by (simp add: allowed_def fun_eq_iff)

lemma first_allowed_choose [simp]: "first_allowed g (choose_candidate k p st) = first_allowed g st"
  by (simp add: first_allowed_def fun_eq_iff)

lemma selected_choose:
  "map_of (r_selected (choose_candidate k p st)) j =
    (if j = k \<and> (case map_of (r_selected st) k of None \<Rightarrow> True
        | Some q \<Rightarrow> p_versionText q \<noteq> p_versionText p) then Some p else map_of (r_selected st) j)"
  by (simp add: choose_candidate_def update_conv')

lemma in_order_choose:
  assumes "in_order g st" and f: "filter (allowed st k) (list_at g k) = p # ps"
  shows "in_order g (choose_candidate k p st)"
proof -
  have "place p (list_at g k) = first_allowed g st k"
    using filter_takeWhile [OF f] place_first [OF _ f] by (simp add: first_allowed_def)
  with assms(1) show ?thesis by (auto simp: in_order_def selected_choose split: if_splits)
qed

text \<open>One import, one package, the loop.\<close>

definition on_track :: "grouped \<Rightarrow> resolution \<Rightarrow> bool" where
  "on_track g st \<longleftrightarrow> in_order g st \<and> at_best g st"

lemma at_best_choose:
  assumes b: "\<And>j. j \<noteq> k \<Longrightarrow> list_at (r_constraints st) j \<noteq> [] \<Longrightarrow>
        first_allowed g st j < length (list_at g j) \<Longrightarrow>
        \<exists>p. map_of (r_selected st) j = Some p \<and>
          p_versionText p = p_versionText (list_at g j ! first_allowed g st j)"
    and f: "filter (allowed st k) (list_at g k) = p # ps"
  shows "at_best g (choose_candidate k p st)"
  unfolding at_best_def
proof (intro allI impI)
  fix j
  assume j: "list_at (r_constraints (choose_candidate k p st)) j \<noteq> []"
    "first_allowed g (choose_candidate k p st) j < length (list_at g j)"
  have first: "list_at g k ! first_allowed g st k = p"
    using filter_takeWhile [OF f] by (simp add: first_allowed_def)
  show "\<exists>q. map_of (r_selected (choose_candidate k p st)) j = Some q \<and>
      p_versionText q = p_versionText (list_at g j ! first_allowed g (choose_candidate k p st) j)"
  proof (cases "j = k")
    case True
    then show ?thesis
      by (cases "map_of (r_selected st) k") (auto simp: selected_choose first)
  next
    case False
    then show ?thesis using b j by (simp add: selected_choose)
  qed
qed

lemma at_best_record:
  assumes "at_best g st" and "j \<noteq> i_package i"
    and "list_at (r_constraints (record_constraint cur c l i st)) j \<noteq> []"
    and "first_allowed g (record_constraint cur c l i st) j < length (list_at g j)"
  shows "\<exists>p. map_of (r_selected (record_constraint cur c l i st)) j = Some p \<and>
    p_versionText p = p_versionText (list_at g j ! first_allowed g (record_constraint cur c l i st) j)"
proof -
  have "first_allowed g (record_constraint cur c l i st) j = first_allowed g st j"
    using assms(2) by (simp add: first_allowed_def allowed_record)
  with assms show ?thesis by (simp add: at_best_def)
qed

lemma no_candidate_at_best:
  assumes "at_best g st" and "filter (allowed (record_constraint cur c l i st) (i_package i))
      (list_at g (i_package i)) = []"
  shows "at_best g (record_constraint cur c l i st)"
  unfolding at_best_def
proof (intro allI impI)
  fix j
  assume j: "list_at (r_constraints (record_constraint cur c l i st)) j \<noteq> []"
    "first_allowed g (record_constraint cur c l i st) j < length (list_at g j)"
  have "first_allowed g (record_constraint cur c l i st) (i_package i) = length (list_at g (i_package i))"
    using filter_takeWhile_Nil [OF assms(2)] by (simp add: first_allowed_def)
  with j(2) have "j \<noteq> i_package i" by auto
  then show "\<exists>p. map_of (r_selected (record_constraint cur c l i st)) j = Some p \<and>
      p_versionText p = p_versionText (list_at g j ! first_allowed g (record_constraint cur c l i st) j)"
    using at_best_record [OF assms(1)] j by blast
qed

lemma on_track_report [simp]: "on_track g (report d st) = on_track g st"
  by (simp add: on_track_def in_order_def at_best_def first_allowed_def allowed_def)

lemma work_report [simp]: "work g (report d st) = work g st"
  by (rule work_cong) simp_all

lemma import_step_on_track:
  assumes "on_track g st"
  shows "on_track g (import_step g rej cur (n, i) st) \<and> work g (import_step g rej cur (n, i) st) \<le> work g st"
proof (cases "parseConstraint (Str (i_constraint i))")
  case None
  then show ?thesis using assms by (simp add: import_step_def Let_def)
next
  case (Some c)
  define l where "l = locate (p_document cur) (index_pointer ''/imports/'' n)"
  define st' where "st' = record_constraint cur c l i st"
  define offered where "offered = list_at g (i_package i)"
  have w: "work g st' = work g st" unfolding st'_def by (rule work_cong) simp_all
  have o: "in_order g st'" using assms unfolding st'_def on_track_def by (simp add: in_order_record)
  have empty: "on_track g st'" if "filter (allowed st' (i_package i)) offered = []"
    using no_candidate_at_best that assms o unfolding st'_def offered_def on_track_def by blast
  consider (none) "offered = []" | (unmet) "offered \<noteq> []" "filter (\<lambda>p. meets p c) offered = []"
    | (dead) "offered \<noteq> []" "filter (\<lambda>p. meets p c) offered \<noteq> []"
        "filter (allowed st' (i_package i)) offered = []"
    | (found) p ps where "offered \<noteq> []" "filter (\<lambda>p. meets p c) offered \<noteq> []"
        "filter (allowed st' (i_package i)) offered = p # ps"
    by (meson neq_Nil_conv)
  then show ?thesis
  proof cases
    case none
    then show ?thesis using Some empty w
      by (simp add: import_step_def Let_def flip: l_def st'_def offered_def)
  next
    case unmet
    have "filter (allowed st' (i_package i)) offered = []"
      using unmet(2) by (auto simp: filter_empty_conv st'_def allowed_record)
    with unmet show ?thesis using Some empty w
      by (simp add: import_step_def Let_def flip: l_def st'_def offered_def)
  next
    case dead
    then show ?thesis using Some empty w
      by (simp add: import_step_def Let_def applicable_allowed flip: l_def st'_def offered_def)
  next
    case found
    have f: "filter (allowed st' (i_package i)) (list_at g (i_package i)) = p # ps"
      using found(3) by (simp add: offered_def)
    have k: "i_package i \<in> fst ` set g"
      using found(1) by (auto simp: offered_def list_at_def dest!: map_of_SomeD split: option.splits intro: rev_image_eqI)
    have e: "import_step g rej cur (n, i) st = choose_candidate (i_package i) p st'"
      using found Some
      by (simp add: import_step_def Let_def applicable_allowed flip: l_def st'_def offered_def)
    have "at_best g (choose_candidate (i_package i) p st')"
      using at_best_record [of g st _ i cur c l] assms
      by (intro at_best_choose [OF _ f]) (simp add: on_track_def st'_def)
    then show ?thesis
      using in_order_choose [OF o f] work_choose [OF o k f] w unfolding e on_track_def by simp
  qed
qed

lemma fold_import_step_on_track:
  "on_track g st \<Longrightarrow> on_track g (fold (import_step g rej cur) es st) \<and>
    work g (fold (import_step g rej cur) es st) \<le> work g st"
proof (induction es arbitrary: st)
  case (Cons e es)
  obtain n i where e: "e = (n, i)" by (cases e)
  show ?case
    using import_step_on_track [OF Cons.prems, of rej cur n i]
      Cons.IH [of "import_step g rej cur e st"]
    unfolding e by auto
qed simp

lemma process_on_track:
  assumes "on_track g st"
  shows "on_track g (process g rej cur st) \<and> work g (process g rej cur st) \<le> work g st"
proof -
  define st' where "st' = st\<lparr>r_edges := AList.update (p_identity cur) [] (r_edges st)\<rparr>"
  have s: "r_selected st' = r_selected st" "r_constraints st' = r_constraints st" "r_queue st' = r_queue st"
    by (simp_all add: st'_def)
  have "on_track g st'"
    using assms by (simp add: on_track_def in_order_def at_best_def first_allowed_def allowed_def s)
  moreover have "work g st' = work g st" by (rule work_cong) (simp_all add: s)
  ultimately show ?thesis
    using fold_import_step_on_track [of g st' rej cur] unfolding process_def st'_def by simp
qed

lemma resolve_loop_ends:
  "on_track g st \<Longrightarrow> work g st \<le> fuel \<Longrightarrow>
    \<exists>r. resolve_loop fuel g rej limit over st = Some r \<and>
      (case r of Inr st' \<Rightarrow> on_track g st' \<and> r_queue st' = [] | Inl _ \<Rightarrow> True)"
proof (induction fuel arbitrary: st)
  case 0
  then show ?case by (cases "r_queue st") (simp_all add: work_def resolve_loop.simps [of 0])
next
  case (Suc fuel)
  show ?case
  proof (cases "r_queue st")
    case Nil
    then show ?thesis using Suc by (simp add: resolve_loop.simps [of "Suc fuel"])
  next
    case (Cons cur rest)
    define st' where "st' = st\<lparr>r_queue := rest\<rparr>"
    have s: "r_selected st' = r_selected st" "r_constraints st' = r_constraints st" "r_queue st' = rest"
      by (simp_all add: st'_def)
    have t: "on_track g st'"
      using Suc.prems(1) by (simp add: on_track_def in_order_def at_best_def first_allowed_def allowed_def s)
    have "Suc (work g st') = work g st"
      by (simp add: work_def s Cons left_over_cong [OF s(1)])
    then have "work g (process g rej cur st') \<le> fuel"
      using process_on_track [OF t, of rej cur] Suc.prems(2) by linarith
    then have "\<exists>r. resolve_loop fuel g rej limit over (process g rej cur st') = Some r \<and>
        (case r of Inr st' \<Rightarrow> on_track g st' \<and> r_queue st' = [] | Inl _ \<Rightarrow> True)"
      using process_on_track [OF t, of rej cur] by (intro Suc.IH) simp_all
    then show ?thesis
      using Cons by (simp add: resolve_loop.simps [of "Suc fuel"] flip: st'_def)
  qed
qed

section \<open>What discovery supplies\<close>

lemma discover_entry_sound:
  "list_all (\<lambda>c. sound_candidate (snd c)) (s_candidates st) \<Longrightarrow>
    list_all (\<lambda>c. sound_candidate (snd c)) (s_candidates (discover_entry h lims n dir name st))"
  by (auto simp: discover_entry_def Let_def sound_candidate_def parseVersion_wf
      split: sum.splits option.splits bool.splits)

lemma fold_discover_sound:
  "list_all (\<lambda>c. sound_candidate (snd c)) (s_candidates st) \<Longrightarrow>
    list_all (\<lambda>c. sound_candidate (snd c)) (s_candidates (fold (discover_entry h lims n dir) names st))"
  by (induction names arbitrary: st) (simp_all add: discover_entry_sound)

lemma discover_roots_sound:
  "discover_roots h lims n dirs st = Inr st' \<Longrightarrow>
    list_all (\<lambda>c. sound_candidate (snd c)) (s_candidates st) \<Longrightarrow>
    list_all (\<lambda>c. sound_candidate (snd c)) (s_candidates st')"
  by (induction h lims n dirs st rule: discover_roots.induct)
    (auto simp: Let_def fold_discover_sound split: sum.splits bool.splits)

lemma discoverCandidates_sound:
  "discoverCandidates h dirs lims = Inr d \<Longrightarrow> list_all sound_candidate (map snd (s_candidates d))"
  using discover_roots_sound [of h lims 0 dirs _ d]
  by (auto simp: discoverCandidates_def list_all_iff)

section \<open>The loop from its initial state\<close>

definition initial_state :: "package \<Rightarrow> diag list \<Rightarrow> resolution" where
  "initial_state start ds =
     \<lparr>r_selected = [(p_identity start, start)], r_constraints = [], r_edges = [], r_queue = [start],
      r_diags = ds\<rparr>"

lemma list_at_byIdentity_sound:
  "list_all sound_candidate cs \<Longrightarrow> p \<in> set (list_at (byIdentity cs) k) \<Longrightarrow>
    sound_candidate p \<and> p \<in> set cs \<and> p_identity p = k"
  by (auto simp: list_at_byIdentity list_all_iff)

lemma initial_on_track:
  assumes "list_all sound_candidate cs" and "p_order start < 0"
  shows "on_track (byIdentity cs) (initial_state start ds)"
proof -
  have "start \<notin> set (list_at (byIdentity cs) k)" for k
  proof
    assume "start \<in> set (list_at (byIdentity cs) k)"
    then have "sound_candidate start" using list_at_byIdentity_sound [OF assms(1)] by blast
    then show False using assms(2) by (simp add: sound_candidate_def)
  qed
  then show ?thesis
    by (auto simp: on_track_def in_order_def at_best_def initial_state_def list_at_def split: if_splits)
qed

lemma initial_work: "work (byIdentity cs) (initial_state start ds) \<le> Suc (length cs)"
proof -
  have "(\<Sum>k\<in>fst ` set (byIdentity cs). left_over (byIdentity cs) (initial_state start ds) k) \<le>
      (\<Sum>k\<in>p_identity ` set cs. length (filter (\<lambda>p. p_identity p = k) cs))"
    unfolding keys_byIdentity
    by (rule sum_mono) (auto simp: left_over_def list_at_byIdentity split: option.splits)
  also have "\<dots> = length cs" by (rule sum_groups) simp_all
  finally show ?thesis by (simp add: work_def initial_state_def)
qed

lemma allowed_highest:
  assumes "list_all sound_candidate cs" and "at_best (byIdentity cs) st"
    and "list_at (r_constraints st) k \<noteq> []" and "p \<in> set cs" "p_identity p = k" "allowed st k p"
  shows "\<exists>q best. map_of (r_selected st) k = Some q \<and> best \<in> set cs \<and> p_identity best = k \<and>
    p_versionText q = p_versionText best \<and> allowed st k best \<and>
    by_order (map_option version_key (p_version p)) (map_option version_key (p_version best)) \<le> 0"
proof -
  let ?ps = "list_at (byIdentity cs) k"
  have p: "p \<in> set ?ps" using assms(4,5) by (simp add: list_at_byIdentity)
  then obtain best rest where f: "filter (allowed st k) ?ps = best # rest"
    using assms(6) by (cases "filter (allowed st k) ?ps") (auto simp: filter_empty_conv)
  note first = filter_takeWhile [OF f, folded first_allowed_def]
  have "best \<in> set (filter (allowed st k) ?ps)" by (simp add: f)
  then have best: "best \<in> set cs" "p_identity best = k"
    using list_at_byIdentity_sound [OF assms(1)] by auto
  obtain q where q: "map_of (r_selected st) k = Some q" "p_versionText q = p_versionText best"
    using assms(2,3) first unfolding at_best_def by (auto simp: first_allowed_def)
  have "sorted_wrt (\<lambda>a b. candidate_order a b \<le> 0) ?ps"
    using assms(1) by (simp add: list_at_byIdentity sort_candidates candidates.sorted_stable_sort list_all_iff)
  then have "sorted_wrt (\<lambda>a b. candidate_order a b \<le> 0) (best # rest)"
    unfolding f [symmetric] by (rule sorted_wrt_filter)
  moreover have "p \<in> set (best # rest)" unfolding f [symmetric] using p assms(6) by simp
  ultimately have "candidate_order best p \<le> 0"
    using candidates.refl_zero [of best] by auto
  then have "by_order (map_option version_key (p_version p)) (map_option version_key (p_version best)) \<le> 0"
    by (auto simp: candidate_order_def Let_def split: if_splits)
  with q best first show ?thesis by blast
qed

section \<open>A concrete run\<close>

definition demo_package :: "string \<Rightarrow> nat \<Rightarrow> int \<Rightarrow> import_decl list \<Rightarrow> package" where
  "demo_package identity n order imports =
     \<lparr>p_identity = js identity,
      p_version = Some \<lparr>major = Fin 1, minor = Fin (of_nat n), patch = Fin 0, prerelease = []\<rparr>,
      p_versionText = js ''1.'' @ digits_of (int n) @ js ''.0'', p_order = order, p_root = [],
      p_manifest = \<lparr>m_identity = js identity, m_version = [], m_sourceRoots = [], m_exports = [],
        m_imports = imports, m_profiles = [], m_targets = [], m_mappings = []\<rparr>,
      p_document = \<lparr>doc_value = Null, doc_path = [], doc_source = [], doc_index = []\<rparr>\<rparr>"

definition demo_candidates :: "package list" where
  "demo_candidates = [demo_package ''x/lib'' 2 0 [], demo_package ''x/lib'' 10 0 []]"

definition demo_start :: package where
  "demo_start = demo_package ''x/app'' 0 (-1)
     [\<lparr>i_package = js ''x/lib'', i_constraint = js ''^1.1.0'', i_exports = [], i_capabilities = []\<rparr>]"
definition demo_over :: diag where
  "demo_over = Diag [] SevError [] [] True [] [] None"

lemma demo_constraint: "parseConstraint (Str (js ''^1.1.0'')) = Some \<lparr>ckind = Caret, cversion = 
   \<lparr>major = Fin 1, minor = Fin 1, patch = Fin 0, prerelease = []\<rparr>\<rparr>"
  by code_simp
lemma demo_grouped: "byIdentity demo_candidates = [(js ''x/lib'', [demo_package ''x/lib'' 10 0 [], demo_package ''x/lib'' 2 0 []])]"
  by code_simp

definition demo_item :: constraint_item where
  "demo_item = \<lparr>c_constraint = \<lparr>ckind = Caret, cversion =
     \<lparr>major = Fin 1, minor = Fin 1, patch = Fin 0, prerelease = []\<rparr>\<rparr>,
     c_locus = locate (p_document demo_start) (index_pointer ''/imports/'' 0), c_from = js ''x/app'', c_text = js ''^1.1.0''\<rparr>"

definition demo_end :: resolution where
  "demo_end =
     \<lparr>r_selected = [(js ''x/app'', demo_start), (js ''x/lib'', demo_package ''x/lib'' 10 0 [])],
      r_constraints = [(js ''x/lib'', [demo_item])],
      r_edges = [(js ''x/app'', [\<lparr>e_target = js ''x/lib'', e_locus = c_locus demo_item\<rparr>]), (js ''x/lib'', [])],
      r_queue = [], r_diags = []\<rparr>"

lemma demo_meets: "meets (demo_package ''x/lib'' 10 0 []) (c_constraint demo_item)"
   "meets (demo_package ''x/lib'' 2 0 []) (c_constraint demo_item)"
  by (simp_all add: meets_def demo_package_def demo_item_def satisfies_def Let_def compareVersions_def num_sign_def)

lemma demo_run: "resolve_loop 3 (byIdentity demo_candidates) [] 9 
   demo_over (initial_state demo_start []) = Some (Inr demo_end)"
  unfolding demo_grouped
  using demo_meets
  by (simp add: resolve_loop.simps initial_state_def process_def import_step_def Let_def demo_constraint
    demo_start_def record_constraint_def list_at_def  choose_candidate_def applicable_def demo_end_def demo_item_def
    eval_nat_numeral demo_package_def digits_of.simps digit_unit_def)

lemma demo_sound: "list_all sound_candidate demo_candidates" "p_order demo_start < 0"
  by (auto simp: demo_candidates_def demo_start_def demo_package_def sound_candidate_def wf_version_def
      count_number_def)

section \<open>Properties\<close>

text \<open>
  The resolution loop always empties its queue (or stops at the node limit) within one round
  per discovered candidate plus one for the root, whatever the manifests import: a re-selected
  package moves to a candidate further down its list, so no two manifests can keep each other
  being re-resolved. (\<open>discoverCandidates_sound\<close>: what discovery supplies is such a list.)
\<close>

lemma resolve_loop_terminates:
  assumes "list_all sound_candidate cs" and "p_order start < 0"
  shows "\<exists>r. resolve_loop (Suc (length cs)) (byIdentity cs) rejected limit over (initial_state start ds) =
    Some r"
  using resolve_loop_ends [OF initial_on_track [OF assms], of ds "Suc (length cs)"]
    initial_work [of cs start ds]
  by fastforce

lemma resolve_loop_terminates_witness:
  "\<exists>r. resolve_loop (Suc (length demo_candidates)) (byIdentity demo_candidates) [] 9 demo_over
    (initial_state demo_start []) = Some r"
  by (rule resolve_loop_terminates) (rule demo_sound)+

text \<open>
  C10. When the loop ends, every identity some manifest constrained, and for which some candidate
  satisfies all its constraints, is selected at the version of such a candidate, and no candidate
  that satisfies them all has a higher version.
\<close>

theorem resolve_selects_highest:
  assumes "list_all sound_candidate cs" and "p_order start < 0"
    and "resolve_loop fuel (byIdentity cs) rejected limit over (initial_state start ds) = Some (Inr st)"
    and "Suc (length cs) \<le> fuel"
    and "list_at (r_constraints st) k \<noteq> []" and "p \<in> set cs" and "p_identity p = k"
    and "list_all (\<lambda>i. meets p (c_constraint i)) (list_at (r_constraints st) k)"
  shows "\<exists>q best v w. map_of (r_selected st) k = Some q \<and> best \<in> set cs \<and> p_identity best = k \<and>
    p_versionText q = p_versionText best \<and>
    list_all (\<lambda>i. meets best (c_constraint i)) (list_at (r_constraints st) k) \<and>
    p_version p = Some v \<and> p_version best = Some w \<and> compareVersions v w \<le> 0"
proof -
  have "on_track (byIdentity cs) (initial_state start ds)" by (rule initial_on_track [OF assms(1,2)])
  moreover have "work (byIdentity cs) (initial_state start ds) \<le> fuel"
    using initial_work [of cs start ds] assms(4) by simp
  ultimately have "at_best (byIdentity cs) st"
    using resolve_loop_ends [of "byIdentity cs" "initial_state start ds" fuel rejected limit over] assms(3)
    by (auto simp: on_track_def)
  then obtain q best where qb: "map_of (r_selected st) k = Some q" "best \<in> set cs" "p_identity best = k"
    "p_versionText q = p_versionText best" "allowed st k best"
    "by_order (map_option version_key (p_version p)) (map_option version_key (p_version best)) \<le> 0"
    using allowed_highest [OF assms(1) _ assms(5-7)] assms(8) unfolding allowed_def by blast
  have "sound_candidate p" "sound_candidate best"
    using assms(1,6) qb(2) by (auto simp: list_all_iff)
  then obtain v w where v: "p_version p = Some v" "wf_version v" "p_version best = Some w" "wf_version w"
    by (auto simp: sound_candidate_def)
  have "compareVersions v w \<le> 0"
    using qb(6) by (simp add: v compareVersions_key)
  then show ?thesis using qb v unfolding allowed_def by blast
qed

theorem resolve_selects_highest_witness:
  "\<exists>q best v w. map_of (r_selected demo_end) (js ''x/lib'') = Some q \<and> best \<in> set demo_candidates \<and>
    p_identity best = js ''x/lib'' \<and> p_versionText q = p_versionText best \<and>
    list_all (\<lambda>i. meets best (c_constraint i)) (list_at (r_constraints demo_end) (js ''x/lib'')) \<and>
    p_version (demo_package ''x/lib'' 2 0 []) = Some v \<and> p_version best = Some w \<and>
    compareVersions v w \<le> 0"
  by (rule resolve_selects_highest [OF demo_sound demo_run])
    (use demo_meets in \<open>simp_all add: demo_candidates_def demo_end_def list_at_def demo_package_def\<close>)

end
