(* ===== verification/PackageGraph.thy ===== *)
theory PackageGraph
  imports PackageCycles Selection
begin

text \<open>
  The rest of \<open>resolvePackageGraph\<close> (\<open>src/src/compiler/packages/resolve.mjs\<close>): the checks on the
  selected packages, the profile with its mappings and targets, and the result; and
  \<open>resolvedPackageGraph\<close> of \<open>src/src/compiler/packages/graph.mjs\<close>. Each check is the list of
  diagnostics it pushes; \<open>resolvePackageGraph\<close> appends them in the order of the code.
\<close>

section \<open>Version conflicts\<close>

definition conflict_diags ::
  "(jsstr \<times> package) list \<Rightarrow> (jsstr \<times> constraint_item list) list \<Rightarrow> diag list" where
  "conflict_diags selected constraints =
     concat (map (\<lambda>(identity, items).
       case map_of selected identity of
         None \<Rightarrow> []
       | Some chosen \<Rightarrow>
           if list_all (\<lambda>i. meets chosen (c_constraint i)) items then []
           else
             let ordered = sort_on c_from items
             in [diag_named ''IMPORT_VERSION_CONFLICT''
                  (js ''no single version of '' @ fragment (Str identity)
                    @ js '' satisfies every constraint on it: ''
                    @ fragment (Str (join (js '', '') (map c_text ordered))))
                  [] (map c_locus (tl ordered)) (Some (c_locus (hd ordered)))])
       (sort_on fst constraints))"

section \<open>Exports\<close>

record export_info =
  owner_of :: jsstr
  visibility_of :: jsstr
  name_of :: jsstr
  locus_of :: jsval

record export_scan =
  n_names :: "jsstr list"
  n_types :: "jsstr list"
  n_known :: "(jsstr \<times> export_info) list"
  n_diags :: "diag list"

definition export_locus :: "package \<Rightarrow> nat \<Rightarrow> jsval" where
  "export_locus p n = locate (p_document p) (index_pointer ''/exports/'' n)"

definition scan_export :: "package \<Rightarrow> nat \<times> export \<Rightarrow> export_scan \<Rightarrow> export_scan" where
  "scan_export p e st =
     (let (n, x) = e;
          loc = export_locus p n;
          twice_type = (if x_type x \<in> set (n_types st) then
            [diag_named ''DUPLICATE_EXPORT'' (fragment (Str (p_identity p)) @ js '' exports ''
               @ fragment (Str (x_type x)) @ js '' under two names'') [] [] (Some loc)] else []);
          twice_name = (if x_name x \<in> set (n_names st) then
            [diag_named ''DUPLICATE_EXPORT'' (fragment (Str (p_identity p)) @ js '' exports ''
               @ fragment (Str (x_name x)) @ js '' twice'') [] [] (Some loc)] else [])
      in \<lparr>n_names = set_add (x_name x) (n_names st), n_types = set_add (x_type x) (n_types st),
          n_known = (if map_of (n_known st) (x_type x) = None
            then n_known st @ [(x_type x, \<lparr>owner_of = p_identity p, visibility_of = x_visibility x,
              name_of = x_name x, locus_of = loc\<rparr>)]
            else n_known st),
          n_diags = n_diags st @ twice_type @ twice_name @
            (case map_of (n_known st) (x_type x) of
               None \<Rightarrow> []
             | Some previous \<Rightarrow>
                 [diag_named ''DUPLICATE_EXPORT'' (fragment (Str (x_type x)) @ js '' is exported by both ''
                    @ fragment (Str (owner_of previous)) @ js '' and '' @ fragment (Str (p_identity p)))
                    [] [locus_of previous] (Some loc)])\<rparr>)"

definition scan_package :: "package \<Rightarrow> export_scan \<Rightarrow> export_scan" where
  "scan_package p st =
     fold (scan_export p) (List.enumerate 0 (m_exports (p_manifest p)))
       (st\<lparr>n_names := [], n_types := []\<rparr>)"

definition scan_exports :: "package list \<Rightarrow> export_scan" where
  "scan_exports ps =
     fold scan_package ps \<lparr>n_names = [], n_types = [], n_known = [], n_diags = []\<rparr>"

section \<open>Imports against the selected packages\<close>

definition declared_exports :: "package \<Rightarrow> (jsstr \<times> export) list" where
  "declared_exports p = map_from (map (\<lambda>x. (x_name x, x)) (m_exports (p_manifest p)))"

text \<open>\<open>profile.options?.capabilities ?? []\<close>, flattened.\<close>

definition profile_capabilities :: "profile \<Rightarrow> jsval list" where
  "profile_capabilities f =
     (let c = coalesce (get (f_options f) ''capabilities'') (Arr [])
      in if is_array c then list_of c else [c])"

definition offered_capabilities :: "package \<Rightarrow> jsval list" where
  "offered_capabilities p = concat (map profile_capabilities (m_profiles (p_manifest p)))"

definition named_export_diags :: "import_decl \<Rightarrow> package \<Rightarrow> jsval \<Rightarrow> jsstr \<Rightarrow> diag list" where
  "named_export_diags i target loc name =
     (case map_of (declared_exports target) name of
        None \<Rightarrow> [diag_named ''IMPORT_EXPORT_MISSING''
          (fragment (Str (i_package i)) @ js '' declares no export named '' @ fragment (Str name))
          [] [] (Some loc)]
      | Some x \<Rightarrow>
          if x_visibility x = js ''private'' then [diag_named ''IMPORT_EXPORT_PRIVATE''
            (fragment (Str (i_package i)) @ js '' declares '' @ fragment (Str name) @ js '' private'')
            [] [] (Some loc)]
          else [])"

definition capability_diags :: "import_decl \<Rightarrow> package \<Rightarrow> jsval \<Rightarrow> jsstr \<Rightarrow> diag list" where
  "capability_diags i target loc capability =
     (if Str capability \<in> set (offered_capabilities target) then []
      else [diag_named ''IMPORT_CAPABILITY_MISSING''
        (js ''no profile of '' @ fragment (Str (i_package i)) @ js '' declares the capability ''
          @ fragment (Str capability))
        [] [] (Some loc)])"

definition import_diags :: "(jsstr \<times> package) list \<Rightarrow> package \<Rightarrow> nat \<times> import_decl \<Rightarrow> diag list" where
  "import_diags selected p e =
     (let (n, i) = e; base = index_pointer ''/imports/'' n
      in case map_of selected (i_package i) of
           None \<Rightarrow> []
         | Some target \<Rightarrow>
             concat (map (named_export_diags i target (locate (p_document p) (base @ js ''/exports'')))
               (i_exports i)) @
             concat (map (capability_diags i target (locate (p_document p) (base @ js ''/capabilities'')))
               (i_capabilities i)))"

definition all_import_diags :: "(jsstr \<times> package) list \<Rightarrow> package list \<Rightarrow> diag list" where
  "all_import_diags selected ps =
     concat (map (\<lambda>p. concat (map (import_diags selected p) (List.enumerate 0 (m_imports (p_manifest p))))) ps)"

section \<open>Profile, mappings, targets\<close>

definition profile_names :: "profile list \<Rightarrow> jsstr" where
  "profile_names ps = join (js '', '') (map f_name ps)"

definition choose_profile :: "document \<Rightarrow> profile list \<Rightarrow> jsstr option \<Rightarrow> profile option \<times> diag list" where
  "choose_profile doc declared profileName =
     (case profileName of
        None \<Rightarrow>
          (case declared of
             [] \<Rightarrow> (None, [])
           | [p] \<Rightarrow> (Some p, [])
           | _ \<Rightarrow> (None, [diag_named ''AMBIGUOUS_PROFILE''
               (js ''the manifest declares '' @ digits_of (int (length declared)) @ js '' profiles (''
                 @ fragment (Str (profile_names declared)) @ js ''); name one with --profile'')
               [] [] (Some (locate doc (js ''/profiles'')))]))
      | Some name \<Rightarrow>
          (case filter (\<lambda>p. f_name p = name) declared of
             p # _ \<Rightarrow> (Some p, [])
           | [] \<Rightarrow> (None, [diag_named ''UNKNOWN_PROFILE''
               (js ''the manifest declares no profile named '' @ fragment (Str name)
                 @ js ''; it declares '' @ fragment (Str (if profile_names declared = [] then js ''none'' else profile_names declared)))
               [] [] (Some (locate doc (js ''/profiles'')))])))"

record mapping =
  p_mapping :: jsstr
  p_mapping_document :: document

text \<open>\<open>identity.slice(identity.lastIndexOf("/") + 1)\<close>.\<close>

definition last_segment :: "jsstr \<Rightarrow> jsstr" where
  "last_segment s = rev (takeWhile (\<lambda>c. c \<noteq> 47) (rev s))"

definition mapping_locus :: "document \<Rightarrow> nat \<Rightarrow> string \<Rightarrow> nat \<Rightarrow> jsval" where
  "mapping_locus doc index member position =
     locate doc (index_pointer ''/profiles/'' index @ js ''/'' @ js member @ js ''/'' @ digits_of (int position))"

definition read_mapping ::
  "host \<Rightarrow> limits \<Rightarrow> jsstr \<Rightarrow> document \<Rightarrow> manifest \<Rightarrow> profile \<Rightarrow> nat \<Rightarrow> nat \<times> jsstr \<Rightarrow> mapping list \<times> diag list \<Rightarrow>
     jsstr + mapping list \<times> diag list" where
  "read_mapping h lims packageRoot doc m f index e st =
     (let (position, identity) = e; (mappings, ds) = st;
          loc = Some (mapping_locus doc index ''mappings'' position);
          tail = last_segment identity;
          path = h_resolve h [packageRoot, js ''mappings'', tail @ js ''.json'']
      in if identity \<notin> set (m_mappings m) then
           Inr (mappings, ds @ [diag_named ''UNKNOWN_MAPPING''
             (js ''profile '' @ fragment (Str (f_name f)) @ js '' selects '' @ fragment (Str identity)
               @ js '', which the manifest's mappings do not contain'') [] [] loc])
         else
           (case h_exists h path of
              Inl message \<Rightarrow> Inl message
            | Inr False \<Rightarrow> Inr (mappings, ds @ [diag_named ''UNKNOWN_MAPPING''
                (js ''profile '' @ fragment (Str (f_name f)) @ js '' selects '' @ fragment (Str identity)
                  @ js '', whose document is absent at mappings/'' @ fragment (Str tail) @ js ''.json'') [] [] loc])
            | Inr True \<Rightarrow>
                (case readDocument h lims path packageRoot ''mapping.schema.json'' ''INVALID_MAPPING''
                    (\<lambda>_. sourceIdentityFor (m_identity m) ''mapping'') of
                   Inl unread \<Rightarrow> Inr (mappings, ds @ unread)
                 | Inr d \<Rightarrow> Inr (mappings @ [\<lparr>p_mapping = identity, p_mapping_document = d\<rparr>],
                     ds @ (if f_posture f = js ''strict'' \<and>
                         get (get (doc_value d) ''transformation'') ''preservation'' = Str (js ''declared-lossy'')
                       then [diag_named ''UNDECLARED_LOSS''
                         (js ''profile '' @ fragment (Str (f_name f)) @ js '' is strict, but mapping ''
                           @ fragment (Str identity) @ js '' declares lossy preservation'')
                         [] [] (Some (locate d (js ''/transformation/preservation'')))]
                       else [])))))"

fun read_mappings ::
  "host \<Rightarrow> limits \<Rightarrow> jsstr \<Rightarrow> document \<Rightarrow> manifest \<Rightarrow> profile \<Rightarrow> nat \<Rightarrow> (nat \<times> jsstr) list \<Rightarrow>
     mapping list \<times> diag list \<Rightarrow> jsstr + mapping list \<times> diag list" where
  "read_mappings h lims packageRoot doc m f index [] st = Inr st"
| "read_mappings h lims packageRoot doc m f index (e # es) st =
     (case read_mapping h lims packageRoot doc m f index e st of
        Inl message \<Rightarrow> Inl message
      | Inr st' \<Rightarrow> read_mappings h lims packageRoot doc m f index es st')"

definition target_diags :: "document \<Rightarrow> manifest \<Rightarrow> profile \<Rightarrow> nat \<Rightarrow> diag list" where
  "target_diags doc m f index =
     concat (map (\<lambda>(position, target).
       if target \<in> set (m_targets m) then []
       else [diag_named ''UNKNOWN_TARGET''
         (js ''profile '' @ fragment (Str (f_name f)) @ js '' selects the target '' @ fragment (Str target)
           @ js '', which the manifest does not declare'')
         [] [] (Some (mapping_locus doc index ''targets'' position))])
       (List.enumerate 0 (f_targets f)))"

text \<open>The representation profile beside the manifest, when there is one.\<close>

definition profile_document ::
  "host \<Rightarrow> limits \<Rightarrow> jsstr \<Rightarrow> manifest \<Rightarrow> profile \<Rightarrow> jsstr + document option \<times> diag list" where
  "profile_document h lims packageRoot m f =
     (let path = h_resolve h [packageRoot, js ''profiles'', f_name f @ js ''.json'']
      in case h_exists h path of
           Inl message \<Rightarrow> Inl message
         | Inr False \<Rightarrow> Inr (None, [])
         | Inr True \<Rightarrow>
             (case readDocument h lims path packageRoot ''profile.schema.json'' ''INVALID_PROFILE''
                 (\<lambda>_. sourceIdentityFor (m_identity m) ''profile'') of
                Inl ds \<Rightarrow> Inr (None, ds)
              | Inr d \<Rightarrow> Inr (Some d, [])))"

section \<open>The result\<close>

record graph_package =
  g_identity :: jsstr
  g_version :: jsstr
  g_files :: "jsstr list"
  g_source :: jsstr
  g_dependencies :: "jsstr list"
  g_package :: package

record package_graph =
  pg_root :: "jsstr \<times> document"
  pg_packages :: "graph_package list"
  pg_profile :: "profile option"
  pg_profile_document :: "document option"
  pg_mappings :: "mapping list"
  pg_exports :: "(jsstr \<times> export_info) list"
  pg_imported :: "jsstr list"
  pg_diags :: "diag list"

definition files_of :: "host \<Rightarrow> package \<Rightarrow> jsstr list \<times> diag list" where
  "files_of h p =
     (case sourceFiles h (p_root p) (m_sourceRoots (p_manifest p)) of
        Inr files \<Rightarrow> (files, [])
      | Inl (too_deep, message) \<Rightarrow>
          ([], [diag_named (if too_deep then ''LIMIT_MAX_DEPTH'' else ''PATH_ESCAPE'')
             (fragment (Str (p_identity p)) @ js '': '' @ fragment (Str message)) [] []
             (Some (locate (p_document p) (js ''/sourceRoots'')))]))"

definition graph_package_of :: "host \<Rightarrow> package \<Rightarrow> graph_package" where
  "graph_package_of h p =
     \<lparr>g_identity = p_identity p, g_version = p_versionText p, g_files = fst (files_of h p),
      g_source = sourceIdentityFor (p_identity p) ''typespec'',
      g_dependencies = sort_on (\<lambda>d. d) (set_from (map i_package (m_imports (p_manifest p)))),
      g_package = p\<rparr>"

text \<open>The packages of the graph in identity order.\<close>

definition sorted_packages :: "resolution \<Rightarrow> package list" where
  "sorted_packages st = sort_on p_identity (map snd (r_selected st))"

text \<open>What the checks push once the queue is empty, up to the profile.\<close>

definition graph_diags :: "resolution \<Rightarrow> diag list" where
  "graph_diags st =
     r_diags st @ conflict_diags (r_selected st) (r_constraints st) @
     (case detectCycles (r_edges st) of None \<Rightarrow> [] | Some found \<Rightarrow> v_diags found) @
     n_diags (scan_exports (sorted_packages st)) @
     all_import_diags (r_selected st) (sorted_packages st)"

definition profile_stage ::
  "host \<Rightarrow> limits \<Rightarrow> jsstr \<Rightarrow> package \<Rightarrow> profile option \<Rightarrow>
     jsstr + document option \<times> mapping list \<times> diag list" where
  "profile_stage h lims packageRoot start chosen =
     (case chosen of
        None \<Rightarrow> Inr (None, [], [])
      | Some f \<Rightarrow>
          let m = p_manifest start; doc = p_document start; index = index_of f (m_profiles m)
          in (case profile_document h lims packageRoot m f of
                Inl message \<Rightarrow> Inl message
              | Inr (pd, ds) \<Rightarrow>
                  (case read_mappings h lims packageRoot doc m f index
                      (List.enumerate 0 (f_mappings f)) ([], ds) of
                     Inl message \<Rightarrow> Inl message
                   | Inr (mappings, ds') \<Rightarrow> Inr (pd, mappings, ds' @ target_diags doc m f index))))"

definition finish_graph ::
  "host \<Rightarrow> limits \<Rightarrow> jsstr \<Rightarrow> jsstr option \<Rightarrow> package \<Rightarrow> resolution \<Rightarrow> jsstr + package_graph" where
  "finish_graph h lims packageRoot profileName start st =
     (let (chosen, profile_ds) = choose_profile (p_document start) (m_profiles (p_manifest start)) profileName;
          ps = sorted_packages st;
          known = n_known (scan_exports ps)
      in case profile_stage h lims packageRoot start chosen of
           Inl message \<Rightarrow> Inl message
         | Inr (pd, mappings, ds) \<Rightarrow>
             Inr \<lparr>pg_root = (p_identity start, p_document start),
               pg_packages = map (graph_package_of h) ps, pg_profile = chosen,
               pg_profile_document = pd, pg_mappings = mappings, pg_exports = known,
               pg_imported = map fst (filter (\<lambda>(k, x). owner_of x \<noteq> p_identity start) known),
               pg_diags = graph_diags st @ profile_ds @ ds @ concat (map (\<lambda>p. snd (files_of h p)) ps)\<rparr>)"

definition root_package :: "host \<Rightarrow> jsstr \<Rightarrow> document \<Rightarrow> package" where
  "root_package h packageRoot d =
     (let m = manifest_of (doc_value d)
      in \<lparr>p_identity = m_identity m, p_version = parseVersion (Str (m_version m)),
          p_versionText = m_version m, p_order = -1, p_root = h_resolve h [packageRoot],
          p_manifest = m, p_document = d\<rparr>)"

text \<open>
  The left value is an exception the host threw; the inner one the diagnostics of an unreadable
  root manifest. \<open>None\<close> never happens (\<open>resolvePackageGraph_ends\<close>).
\<close>

definition resolvePackageGraph ::
  "host \<Rightarrow> jsstr \<Rightarrow> jsstr list \<Rightarrow> jsstr option \<Rightarrow> limits \<Rightarrow> (jsstr + diag list + package_graph) option" where
  "resolvePackageGraph h packageRoot searchPath profileName lims =
     (case readDocument h lims (h_resolve h [packageRoot, js ''package-manifest.json'']) packageRoot
         ''package-manifest.schema.json'' ''INVALID_MANIFEST'' manifest_source of
        Inl ds \<Rightarrow> Some (Inr (Inl ds))
      | Inr d \<Rightarrow>
          (case discoverCandidates h searchPath lims of
             Inl message \<Rightarrow> Some (Inl message)
           | Inr found \<Rightarrow>
               let start = root_package h packageRoot d;
                   over = diag_named ''LIMIT_MAX_NODES''
                     (js ''package graph exceeds the maxNodes limit of '' @ digits_of (int (maxNodes lims)))
                     [] [] (Some (locate d (js ''/package'')));
                   cs = map snd (s_candidates found)
               in map_option (\<lambda>r. map_sum id Inr
                      (finish_graph h lims packageRoot profileName start (case r of Inl st \<Rightarrow> st | Inr st \<Rightarrow> st)))
                    (resolve_loop (Suc (length cs)) (byIdentity cs) (s_rejected found) (maxNodes lims) over
                      (initial_state start (s_diags found)))))"

text \<open>\<open>resolvedPackageGraph\<close>: the graph as the inspect command prints it.\<close>

definition CONTRACT_IR_VERSION :: jsstr where
  "CONTRACT_IR_VERSION = js ''2.0.0''"

definition text_array :: "jsstr list \<Rightarrow> jsval" where
  "text_array xs = Arr (map Str xs)"

definition resolvedPackageGraph :: "package_graph \<Rightarrow> jsstr \<Rightarrow> jsval" where
  "resolvedPackageGraph g contractVersion =
     Obj [(js ''rootPackage'', Str (fst (pg_root g))), (js ''contractVersion'', Str contractVersion),
       (js ''profile'', (case pg_profile g of None \<Rightarrow> Null | Some f \<Rightarrow> Str (f_name f))),
       (js ''packages'', Arr (map (\<lambda>p.
          Obj [(js ''identity'', Str (g_identity p)), (js ''version'', Str (g_version p)),
            (js ''imports'', text_array (sort_on (\<lambda>d. d)
              (set_from (map i_package (m_imports (p_manifest (g_package p))))))),
            (js ''exports'', text_array (sort_on (\<lambda>d. d)
              (set_from (map x_type (m_exports (p_manifest (g_package p)))))))])
          (sort_on g_identity (pg_packages g))))]"

section \<open>What a clean resolution means\<close>

lemma clean_conflicts:
  "conflict_diags sel cons = [] \<Longrightarrow> (k, items) \<in> set cons \<Longrightarrow> map_of sel k = Some p \<Longrightarrow>
    i \<in> set items \<Longrightarrow> meets p (c_constraint i)"
  by (fastforce simp: conflict_diags_def Let_def list_all_iff split: option.splits if_splits)

lemma clean_named_export:
  "named_export_diags i target l name = [] \<Longrightarrow>
    \<exists>x. map_of (declared_exports target) name = Some x \<and> x_visibility x \<noteq> js ''private''"
  by (auto simp: named_export_diags_def split: option.splits if_splits)

lemma clean_capability [simp]:
  "capability_diags i target l c = [] \<longleftrightarrow> Str c \<in> set (offered_capabilities target)"
  by (simp add: capability_diags_def)

lemma clean_import:
  assumes "import_diags sel p (n, i) = []" and "map_of sel (i_package i) = Some target"
  shows "list_all (\<lambda>name. \<exists>x. map_of (declared_exports target) name = Some x \<and>
      x_visibility x \<noteq> js ''private'') (i_exports i)"
    and "list_all (\<lambda>c. Str c \<in> set (offered_capabilities target)) (i_capabilities i)"
  using assms clean_named_export
  by (simp_all add: import_diags_def Let_def list_all_iff, blast)

subsection \<open>What the queue has recorded\<close>

text \<open>An import of the selected package is in the constraints and in the edges.\<close>

definition served :: "resolution \<Rightarrow> package \<Rightarrow> import_decl \<Rightarrow> bool" where
  "served st p i \<longleftrightarrow>
     (\<exists>c. parseConstraint (Str (i_constraint i)) = Some c \<and>
        c \<in> c_constraint ` set (list_at (r_constraints st) (i_package i))) \<and>
     i_package i \<in> e_target ` set (list_at (r_edges st) (p_identity p))"

definition served_all :: "resolution \<Rightarrow> package \<Rightarrow> bool" where
  "served_all st p \<longleftrightarrow> (\<forall>i\<in>set (m_imports (p_manifest p)). served st p i)"

definition waiting :: "jsstr \<Rightarrow> resolution \<Rightarrow> package list" where
  "waiting k st = filter (\<lambda>p. p_identity p = k) (r_queue st)"

text \<open>
  The invariant of the queue. \<open>cur\<close> is the package being processed, if any: the only selected one
  that may be neither waiting nor served.
\<close>

definition faithful :: "package option \<Rightarrow> resolution \<Rightarrow> bool" where
  "faithful cur st \<longleftrightarrow>
     (\<forall>k p. map_of (r_selected st) k = Some p \<longrightarrow> p_identity p = k) \<and>
     (\<forall>k. waiting k st \<noteq> [] \<longrightarrow> map_of (r_selected st) k = Some (last (waiting k st))) \<and>
     (r_diags st = [] \<longrightarrow>
       (\<forall>k p. map_of (r_selected st) k = Some p \<longrightarrow> waiting k st = [] \<longrightarrow>
          cur = Some p \<or> (\<forall>q. cur = Some q \<longrightarrow> p_identity q \<noteq> k) \<and> served_all st p) \<and>
       (\<forall>k. list_at (r_constraints st) k \<noteq> [] \<longrightarrow> map_of (r_selected st) k \<noteq> None))"

definition keyed :: "grouped \<Rightarrow> bool" where
  "keyed g \<longleftrightarrow> (\<forall>k. \<forall>p\<in>set (list_at g k). p_identity p = k)"

text \<open>What an import step keeps: it only adds constraints, edges of the current package, diagnostics.\<close>

definition extends :: "package \<Rightarrow> resolution \<Rightarrow> resolution \<Rightarrow> bool" where
  "extends cur st st' \<longleftrightarrow>
     (\<forall>k. set (list_at (r_constraints st) k) \<subseteq> set (list_at (r_constraints st') k)) \<and>
     (\<forall>k. set (list_at (r_edges st) k) \<subseteq> set (list_at (r_edges st') k)) \<and>
     (r_diags st' = [] \<longrightarrow> r_diags st = [])"

lemma served_extends: "extends cur st st' \<Longrightarrow> served st p i \<Longrightarrow> served st' p i"
  by (auto simp: extends_def served_def) (blast, meson image_eqI subset_iff)

lemma extends_trans: "extends cur st st' \<Longrightarrow> extends cur st' st'' \<Longrightarrow> extends cur st st''"
  unfolding extends_def by (meson order_trans)

lemma edges_record:
  "list_at (r_edges (record_constraint cur c l i st)) k =
    (if k = p_identity cur then list_at (r_edges st) k @ [\<lparr>e_target = i_package i, e_locus = l\<rparr>]
     else list_at (r_edges st) k)"
  by (simp add: record_constraint_def list_at_update)

lemma diags_simps [simp]:
  "r_diags (record_constraint cur c l i st) = r_diags st"
  "r_diags (choose_candidate k p st) = r_diags st"
  "r_edges (choose_candidate k p st) = r_edges st"
  "r_diags (report d st) = r_diags st @ [d]"
  by (simp_all add: record_constraint_def choose_candidate_def report_def)

lemma extends_record: "extends cur st (record_constraint cur c l i st)"
  by (auto simp: extends_def edges_record)

lemma extends_choose: "extends cur st (choose_candidate k p st)"
  by (auto simp: extends_def)

lemma extends_report: "extends cur st (report d st)"
  by (auto simp: extends_def)

lemma served_record:
  "parseConstraint (Str (i_constraint i)) = Some c \<Longrightarrow> served (record_constraint cur c l i st) cur i"
  by (auto simp: served_def edges_record)

text \<open>The three ways a step ends, from the state with the constraint recorded.\<close>

lemma import_step_cases:
  obtains (unparsed) d where "parseConstraint (Str (i_constraint i)) = None"
      "import_step g rej cur (n, i) st = report d st"
  | (refused) c l d where "parseConstraint (Str (i_constraint i)) = Some c"
      "import_step g rej cur (n, i) st = report d (record_constraint cur c l i st)"
  | (dead) c l where "parseConstraint (Str (i_constraint i)) = Some c"
      "import_step g rej cur (n, i) st = record_constraint cur c l i st"
      "filter (\<lambda>p. meets p c) (list_at g (i_package i)) \<noteq> []"
      "filter (allowed (record_constraint cur c l i st) (i_package i)) (list_at g (i_package i)) = []"
  | (found) c l p ps where "parseConstraint (Str (i_constraint i)) = Some c"
      "import_step g rej cur (n, i) st =
        choose_candidate (i_package i) p (record_constraint cur c l i st)"
      "filter (allowed (record_constraint cur c l i st) (i_package i)) (list_at g (i_package i)) = p # ps"
proof (cases "parseConstraint (Str (i_constraint i))")
  case None
  show ?thesis
    by (rule unparsed [OF None]) (simp add: import_step_def Let_def None)
next
  case (Some c)
  define l where "l = locate (p_document cur) (index_pointer ''/imports/'' n)"
  define st' where "st' = record_constraint cur c l i st"
  define offered where "offered = list_at g (i_package i)"
  consider (none) "offered = []" | (unmet) "offered \<noteq> []" "filter (\<lambda>p. meets p c) offered = []"
    | (unchosen) "offered \<noteq> []" "filter (\<lambda>p. meets p c) offered \<noteq> []"
        "filter (allowed st' (i_package i)) offered = []"
    | (some) p ps where "offered \<noteq> []" "filter (\<lambda>p. meets p c) offered \<noteq> []"
        "filter (allowed st' (i_package i)) offered = p # ps"
    by (meson neq_Nil_conv)
  then show ?thesis
  proof cases
    case none
    show ?thesis
      by (rule refused [OF Some, of _ l])
        (use none in \<open>simp add: import_step_def Let_def Some flip: l_def st'_def offered_def\<close>)
  next
    case unmet
    show ?thesis
      by (rule refused [OF Some, of _ l])
        (use unmet in \<open>simp add: import_step_def Let_def Some flip: l_def st'_def offered_def\<close>)
  next
    case unchosen
    have "import_step g rej cur (n, i) st = st'"
      using unchosen
      by (simp add: import_step_def Let_def Some applicable_allowed flip: l_def st'_def offered_def)
    then show ?thesis
      using dead [OF Some] unchosen(2,3) unfolding st'_def offered_def by blast
  next
    case some
    have "import_step g rej cur (n, i) st = choose_candidate (i_package i) p st'"
      using some
      by (simp add: import_step_def Let_def Some applicable_allowed flip: l_def st'_def offered_def)
    then show ?thesis
      using found [OF Some] some(3) unfolding st'_def offered_def by blast
  qed
qed

lemma import_step_extends: "extends cur st (import_step g rej cur (n, i) st)"
proof (cases g rej cur n i st rule: import_step_cases)
  case (unparsed d)
  then show ?thesis by (simp add: extends_report)
next
  case (refused c l d)
  then show ?thesis using extends_trans [OF extends_record extends_report] by simp
next
  case (dead c l)
  then show ?thesis by (simp add: extends_record)
next
  case (found c l p ps)
  then show ?thesis using extends_trans [OF extends_record extends_choose] by simp
qed

lemma import_step_served:
  assumes "r_diags (import_step g rej cur (n, i) st) = []"
  shows "served (import_step g rej cur (n, i) st) cur i"
proof (cases g rej cur n i st rule: import_step_cases)
  case (dead c l)
  then show ?thesis by (simp add: served_record)
next
  case (found c l p ps)
  have "served (record_constraint cur c l i st) cur i" by (rule served_record [OF found(1)])
  then show ?thesis unfolding found(2) by (rule served_extends [OF extends_choose])
qed (use assms in simp_all)

lemma served_all_extends: "extends cur st st' \<Longrightarrow> served_all st p \<Longrightarrow> served_all st' p"
  unfolding served_all_def using served_extends by blast

lemma waiting_simps [simp]:
  "waiting k (record_constraint cur c l i st) = waiting k st"
  "waiting k (report d st) = waiting k st"
  by (simp_all add: waiting_def)

lemma faithful_record:
  assumes "faithful (Some cur) st" and "map_of (r_selected st) (i_package i) \<noteq> None \<or> r_diags st \<noteq> []"
  shows "faithful (Some cur) (record_constraint cur c l i st)"
proof -
  have "served_all (record_constraint cur c l i st) q"
    if "r_diags st = []" "map_of (r_selected st) k = Some q" "waiting k st = []" "cur \<noteq> q" for k q
    using assms(1) that served_all_extends [OF extends_record] unfolding faithful_def by blast
  then show ?thesis using assms unfolding faithful_def by (auto split: if_splits)
qed

lemma faithful_report:
  "faithful (Some cur) st \<Longrightarrow> faithful (Some cur) (report d (record_constraint cur c l i st))"
  "faithful (Some cur) st \<Longrightarrow> faithful (Some cur) (report d st)"
  unfolding faithful_def by simp_all

lemma faithful_choose:
  assumes f: "faithful (Some cur) st" and k: "p_identity p = i_package i"
  shows "faithful (Some cur) (choose_candidate (i_package i) p (record_constraint cur c l i st))"
proof (cases "case map_of (r_selected st) (i_package i) of None \<Rightarrow> True
    | Some q \<Rightarrow> p_versionText q \<noteq> p_versionText p")
  case True
  define st1 where "st1 = record_constraint cur c l i st"
  define st2 where "st2 = choose_candidate (i_package i) p st1"
  have e: "extends cur st st2"
    unfolding st2_def st1_def by (rule extends_trans [OF extends_record extends_choose])
  have s: "map_of (r_selected st2) j = (if j = i_package i then Some p else map_of (r_selected st) j)" for j
    using True by (simp add: st2_def st1_def selected_choose)
  have w: "waiting j st2 = (if j = i_package i then waiting j st @ [p] else waiting j st)" for j
    using True k by (simp add: st2_def st1_def choose_candidate_def waiting_def)
  have d: "r_diags st2 = r_diags st" by (simp add: st2_def st1_def)
  have c: "list_at (r_constraints st2) j = list_at (r_constraints st) j" if "j \<noteq> i_package i" for j
    using that by (simp add: st2_def st1_def)
  have "served_all st2 q"
    if "r_diags st = []" "map_of (r_selected st) k = Some q" "waiting k st = []" "cur \<noteq> q" for k q
    using f that served_all_extends [OF e] unfolding faithful_def by blast
  then show ?thesis
    unfolding st1_def [symmetric] st2_def [symmetric]
    using f k unfolding faithful_def d by (auto simp: s w c split: if_splits)
next
  case False
  then have "choose_candidate (i_package i) p (record_constraint cur c l i st) = record_constraint cur c l i st"
    by (auto simp: choose_candidate_def split: option.splits)
  then show ?thesis using faithful_record [OF f] False by (auto split: option.splits)
qed

lemma import_step_faithful:
  assumes f: "faithful (Some cur) st" and g: "keyed g"
  shows "faithful (Some cur) (import_step g rej cur (n, i) st)"
proof (cases g rej cur n i st rule: import_step_cases)
  case (unparsed d)
  then show ?thesis using faithful_report(2) [OF f] by simp
next
  case (refused c l d)
  then show ?thesis using faithful_report(1) [OF f] by simp
next
  case (dead c l)
  have "list_at (r_constraints st) (i_package i) \<noteq> []"
  proof
    assume "list_at (r_constraints st) (i_package i) = []"
    then have "allowed (record_constraint cur c l i st) (i_package i) = (\<lambda>p. meets p c)"
      by (simp add: allowed_def fun_eq_iff)
    then show False using dead(3,4) by simp
  qed
  then have "map_of (r_selected st) (i_package i) \<noteq> None \<or> r_diags st \<noteq> []"
    using f unfolding faithful_def by blast
  then show ?thesis unfolding dead(2) by (rule faithful_record [OF f])
next
  case (found c l p ps)
  have "p \<in> set (filter (allowed (record_constraint cur c l i st) (i_package i)) (list_at g (i_package i)))"
    by (simp add: found(3))
  then have "p_identity p = i_package i" using g by (auto simp: keyed_def)
  then show ?thesis unfolding found(2) by (rule faithful_choose [OF f])
qed

lemma fold_import_step_extends: "extends cur st (fold (import_step g rej cur) es st)"
proof (induction es arbitrary: st)
  case Nil
  show ?case by (simp add: extends_def)
next
  case (Cons e es)
  obtain n i where e: "e = (n, i)" by (cases e)
  show ?case unfolding fold.simps o_apply e by (rule extends_trans [OF import_step_extends Cons.IH])
qed

lemma fold_import_step_faithful:
  "faithful (Some cur) st \<Longrightarrow> keyed g \<Longrightarrow> faithful (Some cur) (fold (import_step g rej cur) es st)"
proof (induction es arbitrary: st)
  case Nil
  then show ?case by simp
next
  case (Cons e es)
  obtain n i where e: "e = (n, i)" by (cases e)
  show ?case unfolding fold.simps o_apply e
    by (rule Cons.IH [OF import_step_faithful [OF Cons.prems] Cons.prems(2)])
qed

lemma fold_import_step_served:
  "r_diags (fold (import_step g rej cur) es st) = [] \<Longrightarrow> (n, i) \<in> set es \<Longrightarrow>
    served (fold (import_step g rej cur) es st) cur i"
proof (induction es arbitrary: st)
  case Nil
  then show ?case by simp
next
  case (Cons e es)
  obtain m j where e: "e = (m, j)" by (cases e)
  define st1 where "st1 = import_step g rej cur (m, j) st"
  have x: "extends cur st1 (fold (import_step g rej cur) es st1)" by (rule fold_import_step_extends)
  have d: "r_diags (fold (import_step g rej cur) es st1) = []"
    using Cons.prems(1) unfolding fold.simps o_apply e st1_def .
  have "served (fold (import_step g rej cur) es st1) cur i"
  proof (cases "(n, i) \<in> set es")
    case True
    then show ?thesis using Cons.IH [OF d] by blast
  next
    case False
    then have "j = i" using Cons.prems(2) e by simp
    moreover have "r_diags st1 = []" using x d unfolding extends_def by blast
    ultimately have "served st1 cur i" unfolding st1_def using import_step_served by blast
    then show ?thesis by (rule served_extends [OF x])
  qed
  then show ?case unfolding fold.simps o_apply e st1_def .
qed

text \<open>The node taken from the queue: its old edges are dropped and its imports recorded anew.\<close>

lemma faithful_pop:
  assumes f: "faithful None st" and q: "r_queue st = cur # rest"
  shows "faithful (Some cur)
    (st\<lparr>r_queue := rest, r_edges := AList.update (p_identity cur) [] (r_edges st)\<rparr>)"
proof -
  define st1 where "st1 = st\<lparr>r_queue := rest, r_edges := AList.update (p_identity cur) [] (r_edges st)\<rparr>"
  have w: "waiting k st = (if p_identity cur = k then cur # waiting k st1 else waiting k st1)" for k
    by (simp add: waiting_def q st1_def)
  have sel: "r_selected st1 = r_selected st" "r_diags st1 = r_diags st" "r_constraints st1 = r_constraints st"
    by (simp_all add: st1_def)
  have s: "served_all st1 p" if "p_identity p \<noteq> p_identity cur" "served_all st p" for p
    using that by (simp add: served_all_def served_def list_at_update st1_def)
  have id: "p_identity p = k" if "map_of (r_selected st) k = Some p" for k p
    using f that unfolding faithful_def by blast
  have last1: "map_of (r_selected st1) k = Some (last (waiting k st1))" if "waiting k st1 \<noteq> []" for k
    using f that w [of k] unfolding faithful_def sel by (cases "p_identity cur = k") auto
  have others: "Some cur = Some p \<or> (\<forall>q. Some cur = Some q \<longrightarrow> p_identity q \<noteq> k) \<and> served_all st1 p"
    if d: "r_diags st = []" and p: "map_of (r_selected st) k = Some p" and n: "waiting k st1 = []" for k p
  proof (cases "p_identity cur = k")
    case True
    then have v: "waiting k st = [cur]" using w [of k] n by simp
    have "map_of (r_selected st) k = Some (last (waiting k st))" if "waiting k st \<noteq> []"
      using f that unfolding faithful_def by blast
    then show ?thesis using p v by simp
  next
    case False
    then have "waiting k st = []" using w [of k] n by simp
    then have "served_all st p" using f d p unfolding faithful_def by blast
    then show ?thesis using False s id [OF p] by auto
  qed
  show ?thesis
    unfolding st1_def [symmetric] faithful_def sel
    using id last1 others f [unfolded faithful_def] unfolding sel by blast
qed

lemma faithful_push:
  assumes f: "faithful (Some cur) st" and s: "r_diags st = [] \<Longrightarrow> served_all st cur"
  shows "faithful None st"
proof -
  have "served_all st p"
    if "r_diags st = []" "map_of (r_selected st) k = Some p" "waiting k st = []" for k p
    using f s that unfolding faithful_def by blast
  then show ?thesis using f unfolding faithful_def by blast
qed

lemma process_faithful:
  assumes "faithful None st" and "r_queue st = cur # rest" and "keyed g"
  shows "faithful None (process g rej cur (st\<lparr>r_queue := rest\<rparr>))"
proof -
  define st1 where "st1 = st\<lparr>r_queue := rest, r_edges := AList.update (p_identity cur) [] (r_edges st)\<rparr>"
  define es where "es = List.enumerate 0 (m_imports (p_manifest cur))"
  have p: "process g rej cur (st\<lparr>r_queue := rest\<rparr>) = fold (import_step g rej cur) es st1"
    by (simp add: process_def st1_def es_def)
  have "faithful (Some cur) (fold (import_step g rej cur) es st1)"
    by (rule fold_import_step_faithful [OF faithful_pop [OF assms(1,2), folded st1_def] assms(3)])
  moreover have "served_all (fold (import_step g rej cur) es st1) cur"
    if "r_diags (fold (import_step g rej cur) es st1) = []"
  proof -
    have "served (fold (import_step g rej cur) es st1) cur i" if i: "i \<in> set (m_imports (p_manifest cur))" for i
    proof -
      obtain n where "(n, i) \<in> set es"
        using i unfolding es_def by (metis in_set_impl_in_set_zip2 enumerate_eq_zip length_upt diff_add_inverse)
      then show ?thesis using fold_import_step_served \<open>r_diags _ = []\<close> by blast
    qed
    then show ?thesis by (simp add: served_all_def)
  qed
  ultimately show ?thesis unfolding p by (rule faithful_push)
qed

lemma resolve_loop_faithful:
  "resolve_loop fuel g rej limit over st = Some r \<Longrightarrow> faithful None st \<Longrightarrow> keyed g \<Longrightarrow>
    (case r of Inl st' \<Rightarrow> r_diags st' \<noteq> [] | Inr st' \<Rightarrow> faithful None st' \<and> r_queue st' = [])"
proof (induction fuel g rej limit over st rule: resolve_loop.induct)
  case (1 fuel g rej limit over st)
  show ?case
  proof (cases "r_queue st")
    case Nil
    then show ?thesis using "1.prems" by (auto simp: resolve_loop.simps)
  next
    case (Cons cur rest)
    show ?thesis
    proof (cases "limit < length (r_selected st)")
      case True
      then show ?thesis using "1.prems" Cons by (auto simp: resolve_loop.simps)
    next
      case False
      then obtain f where f: "fuel = Suc f"
        using "1.prems"(1) Cons by (cases fuel) (simp_all add: resolve_loop.simps)
      have "resolve_loop f g rej limit over (process g rej cur (st\<lparr>r_queue := rest\<rparr>)) = Some r"
        using "1.prems"(1) Cons False f by (simp add: resolve_loop.simps)
      then show ?thesis
        using "1.IH" [OF Cons False f] process_faithful [OF "1.prems"(2) Cons "1.prems"(3)] "1.prems"(3)
        by blast
    qed
  qed
qed

subsection \<open>One package per identity\<close>

lemma choose_distinct:
  "distinct (map fst (r_selected st)) \<Longrightarrow> distinct (map fst (r_selected (choose_candidate k p st)))"
  by (simp add: choose_candidate_def distinct_update)

lemma import_step_distinct:
  assumes d: "distinct (map fst (r_selected st))"
  shows "distinct (map fst (r_selected (import_step g rej cur (n, i) st)))"
proof (cases g rej cur n i st rule: import_step_cases)
  case (found c l p ps)
  show ?thesis unfolding found(2) by (rule choose_distinct) (simp add: d)
qed (simp_all add: d)

lemma process_distinct:
  assumes "distinct (map fst (r_selected st))"
  shows "distinct (map fst (r_selected (process g rej cur st)))"
proof -
  have "distinct (map fst (r_selected (fold (import_step g rej cur) es st')))"
    if "distinct (map fst (r_selected st'))" for es :: "(nat \<times> import_decl) list" and st'
    using that
  proof (induction es arbitrary: st')
    case (Cons e es)
    obtain n i where e: "e = (n, i)" by (cases e)
    show ?case unfolding fold.simps o_apply e by (rule Cons.IH [OF import_step_distinct [OF Cons.prems]])
  qed simp
  then show ?thesis using assms unfolding process_def by simp
qed

lemma resolve_loop_distinct:
  "resolve_loop fuel g rej limit over st = Some (Inr st') \<Longrightarrow> distinct (map fst (r_selected st)) \<Longrightarrow>
    distinct (map fst (r_selected st'))"
proof (induction fuel g rej limit over st rule: resolve_loop.induct)
  case (1 fuel g rej limit over st)
  show ?case
  proof (cases "r_queue st")
    case Nil
    then show ?thesis using "1.prems" by (auto simp: resolve_loop.simps)
  next
    case (Cons cur rest)
    have l: "\<not> limit < length (r_selected st)"
      using "1.prems"(1) Cons by (auto simp: resolve_loop.simps)
    then obtain f where f: "fuel = Suc f"
      using "1.prems"(1) Cons by (cases fuel) (simp_all add: resolve_loop.simps)
    have "resolve_loop f g rej limit over (process g rej cur (st\<lparr>r_queue := rest\<rparr>)) = Some (Inr st')"
      using "1.prems"(1) Cons l f by (simp add: resolve_loop.simps)
    then show ?thesis
      using "1.IH" [OF Cons l f] process_distinct [of "st\<lparr>r_queue := rest\<rparr>"] "1.prems"(2) by simp
  qed
qed

section \<open>The graph without diagnostics\<close>

definition resolved_import :: "package_graph \<Rightarrow> import_decl \<Rightarrow> bool" where
  "resolved_import g i \<longleftrightarrow>
     (\<exists>target\<in>set (pg_packages g). g_identity target = i_package i \<and>
        (\<exists>c. parseConstraint (Str (i_constraint i)) = Some c \<and> meets (g_package target) c) \<and>
        list_all (\<lambda>name. \<exists>x. map_of (declared_exports (g_package target)) name = Some x \<and>
          x_visibility x \<noteq> js ''private'') (i_exports i) \<and>
        list_all (\<lambda>c. Str c \<in> set (offered_capabilities (g_package target))) (i_capabilities i))"

definition graph_imports :: "package_graph \<Rightarrow> (jsstr \<times> jsstr) set" where
  "graph_imports g =
     {(a, b). \<exists>p\<in>set (pg_packages g). g_identity p = a \<and>
        b \<in> i_package ` set (m_imports (p_manifest (g_package p)))}"

lemma finish_graph_packages:
  assumes "finish_graph h lims dir pn start st = Inr g"
  shows "set (pg_packages g) = graph_package_of h ` snd ` set (r_selected st)"
    and "pg_diags g = [] \<Longrightarrow> graph_diags st = []"
proof -
  have "pg_packages g = map (graph_package_of h) (sorted_packages st) \<and>
      (\<exists>ds. pg_diags g = graph_diags st @ ds)"
    using assms by (auto simp: finish_graph_def Let_def split: prod.splits sum.splits)
  then show "set (pg_packages g) = graph_package_of h ` snd ` set (r_selected st)"
    and "pg_diags g = [] \<Longrightarrow> graph_diags st = []"
    by (auto simp: sorted_packages_def)
qed

lemma faithfulD:
  assumes "faithful None st" "r_diags st = []" "r_queue st = []" "map_of (r_selected st) k = Some p"
  shows "p_identity p = k" and "served_all st p"
  using assms unfolding faithful_def waiting_def by auto

lemma faithful_constrained:
  "faithful None st \<Longrightarrow> r_diags st = [] \<Longrightarrow> list_at (r_constraints st) k \<noteq> [] \<Longrightarrow>
    \<exists>p. map_of (r_selected st) k = Some p"
  unfolding faithful_def by blast

lemma graph_complete:
  assumes f: "faithful None st" and q: "r_queue st = []" and d: "distinct (map fst (r_selected st))"
    and g: "finish_graph h lims dir pn start st = Inr g" and c: "pg_diags g = []"
    and p: "p \<in> set (pg_packages g)" and i: "i \<in> set (m_imports (p_manifest (g_package p)))"
  shows "resolved_import g i"
    and "(g_identity p, i_package i) \<in> imports_rel (r_edges st)"
proof -
  note gd = finish_graph_packages(2) [OF g c]
  have rd: "r_diags st = []" using gd by (simp add: graph_diags_def)
  obtain k q0 where k: "(k, q0) \<in> set (r_selected st)" and pq: "p = graph_package_of h q0"
    using p finish_graph_packages(1) [OF g] by auto
  have m: "map_of (r_selected st) k = Some q0" using k d by simp
  have gp: "g_package p = q0" "g_identity p = p_identity q0" by (simp_all add: pq graph_package_of_def)
  have "served st q0 i"
    using faithfulD(2) [OF f rd q m] i by (simp add: served_all_def gp)
  then obtain c where c: "parseConstraint (Str (i_constraint i)) = Some c"
      "c \<in> c_constraint ` set (list_at (r_constraints st) (i_package i))"
    and e: "i_package i \<in> e_target ` set (list_at (r_edges st) (p_identity q0))"
    unfolding served_def by blast
  show "(g_identity p, i_package i) \<in> imports_rel (r_edges st)"
    using e by (auto simp: imports_rel_def gp)
  obtain t where t: "map_of (r_selected st) (i_package i) = Some t"
    using faithful_constrained [OF f rd, of "i_package i"] c(2) by (cases "list_at (r_constraints st) (i_package i)") auto
  have tid: "p_identity t = i_package i" by (rule faithfulD(1) [OF f rd q t])
  have tg: "graph_package_of h t \<in> set (pg_packages g)"
    using map_of_SomeD [OF t] finish_graph_packages(1) [OF g] by (auto intro!: image_eqI)
  obtain items where items: "(i_package i, items) \<in> set (r_constraints st)" "c \<in> c_constraint ` set items"
    using c(2) unfolding list_at_def
    by (cases "map_of (r_constraints st) (i_package i)") (auto dest: map_of_SomeD)
  have "conflict_diags (r_selected st) (r_constraints st) = []" using gd by (simp add: graph_diags_def)
  then have mt: "meets t c" using clean_conflicts [OF _ items(1) t] items(2) by blast
  have "q0 \<in> set (sorted_packages st)" using k by (force simp: sorted_packages_def)
  moreover obtain n where n: "(n, i) \<in> set (List.enumerate 0 (m_imports (p_manifest q0)))"
    using i unfolding gp by (metis in_set_impl_in_set_zip2 enumerate_eq_zip length_upt diff_add_inverse)
  moreover have "all_import_diags (r_selected st) (sorted_packages st) = []"
    using gd by (simp add: graph_diags_def)
  ultimately have "import_diags (r_selected st) q0 (n, i) = []"
    unfolding all_import_diags_def by auto
  note ci = clean_import [OF this t]
  show "resolved_import g i"
    unfolding resolved_import_def
    using tg c(1) mt ci tid by (intro bexI [OF _ tg]) (simp add: graph_package_of_def)
qed

lemma initial_faithful: "faithful None (initial_state start ds)"
  by (auto simp: faithful_def initial_state_def waiting_def list_at_def)

lemma keyed_byIdentity: "keyed (byIdentity cs)"
  by (auto simp: keyed_def list_at_byIdentity list_all_iff)

lemma graph_acyclic:
  assumes f: "faithful None st" and q: "r_queue st = []" and d: "distinct (map fst (r_selected st))"
    and g: "finish_graph h lims dir pn start st = Inr g" and c: "pg_diags g = []"
  shows "acyclic (graph_imports g)"
proof -
  have "graph_imports g \<subseteq> imports_rel (r_edges st)"
    using graph_complete(2) [OF f q d g c] by (auto simp: graph_imports_def)
  moreover have "acyclic (imports_rel (r_edges st))"
    using finish_graph_packages(2) [OF g c] detectCycles_right [of "r_edges st"]
    by (auto simp: graph_diags_def)
  ultimately show ?thesis by (rule acyclic_subset [rotated])
qed

lemma graph_distinct:
  assumes f: "faithful None st" and d: "distinct (map fst (r_selected st))"
    and g: "finish_graph h lims dir pn start st = Inr g"
  shows "distinct (map g_identity (pg_packages g))"
proof -
  have "pg_packages g = map (graph_package_of h) (sorted_packages st)"
    using g by (auto simp: finish_graph_def Let_def split: prod.splits sum.splits)
  then have e: "map g_identity (pg_packages g) = map p_identity (sorted_packages st)"
    by (simp add: graph_package_of_def o_def)
  have "p_identity (snd kp) = fst kp" if "kp \<in> set (r_selected st)" for kp
    using f d that unfolding faithful_def by (cases kp) simp
  then have "map p_identity (map snd (r_selected st)) = map fst (r_selected st)" by simp
  moreover have "mset (map p_identity (sorted_packages st)) = mset (map p_identity (map snd (r_selected st)))"
    by (simp add: sorted_packages_def del: map_map)
  ultimately show ?thesis unfolding e using d mset_eq_imp_distinct_iff by metis
qed

lemma map_sum_graph: "map_sum id Inr x = Inr (Inr g) \<longleftrightarrow> x = Inr g"
  by (cases x) simp_all

text \<open>What a run that returned a graph went through.\<close>

lemma resolvePackageGraph_run:
  assumes "resolvePackageGraph h dir sp pn lims = Some (Inr (Inr g))" and "pg_diags g = []"
  obtains start st where "faithful None st" "r_queue st = []" "distinct (map fst (r_selected st))"
    "finish_graph h lims dir pn start st = Inr g"
proof -
  obtain cs start rej over r ds where
    run: "resolve_loop (Suc (length cs)) (byIdentity cs) rej (maxNodes lims) over (initial_state start ds) = Some r"
    and g: "finish_graph h lims dir pn start (case r of Inl st \<Rightarrow> st | Inr st \<Rightarrow> st) = Inr g"
  proof (cases "readDocument h lims (h_resolve h [dir, js ''package-manifest.json'']) dir
      ''package-manifest.schema.json'' ''INVALID_MANIFEST'' manifest_source")
    case (Inl ds)
    then show ?thesis using assms(1) by (simp add: resolvePackageGraph_def Let_def)
  next
    case (Inr d)
    show ?thesis
    proof (cases "discoverCandidates h sp lims")
      case (Inl m)
      then show ?thesis using assms(1) Inr by (simp add: resolvePackageGraph_def Let_def)
    next
      case (Inr found)
      note e = assms(1) [unfolded resolvePackageGraph_def Let_def \<open>readDocument _ _ _ _ _ _ _ = _\<close> Inr sum.case
          map_option_eq_Some map_sum_graph]
      show ?thesis using e that [of "map snd (s_candidates found)"] by blast
    qed
  qed
  note out = resolve_loop_faithful [OF run initial_faithful keyed_byIdentity]
  show ?thesis
  proof (cases r)
    case (Inl st)
    have "graph_diags st = []" using finish_graph_packages(2) [OF g assms(2)] by (simp add: Inl)
    then show ?thesis using out by (simp add: Inl graph_diags_def)
  next
    case (Inr st)
    have "distinct (map fst (r_selected st))"
      using resolve_loop_distinct run unfolding Inr by (simp add: initial_state_def)
    then show ?thesis using that out g unfolding Inr sum.case by blast
  qed
qed

section \<open>A concrete graph\<close>

text \<open>An application importing an export of a library found on the search path.\<close>

definition demo_manifest :: "string \<Rightarrow> string \<Rightarrow> jsval list \<Rightarrow> jsval list \<Rightarrow> jsval" where
  "demo_manifest identity version imports exports =
     Obj [(js ''package'', Obj [(js ''identity'', Str (js identity)), (js ''version'', Str (js version))]),
       (js ''imports'', Arr imports), (js ''exports'', Arr exports)]"

definition demo_root :: jsval where
  "demo_root = demo_manifest ''x/app'' ''1.0.0''
     [Obj [(js ''packageIdentity'', Str (js ''x/lib'')), (js ''versionConstraint'', Str (js ''^1.1.0'')),
       (js ''exports'', Arr [Str (js ''Thing'')])]] []"

definition demo_lib :: jsval where
  "demo_lib = demo_manifest ''x/lib'' ''1.2.0'' []
     [Obj [(js ''name'', Str (js ''Thing'')), (js ''typeIdentity'', Str (js ''x/lib/Thing'')),
       (js ''visibility'', Str (js ''public''))]]"

definition demo_host :: host where
  "demo_host = \<lparr>h_resolve = concat, h_relative = (\<lambda>b p. p), h_basename = (\<lambda>p. p),
     h_isDirectory = (\<lambda>p. Inr True), h_readDir = (\<lambda>p. [js ''lib'']), h_exists = (\<lambda>p. Inr True),
     h_walk = (\<lambda>p. Inr []), h_sizeOf = (\<lambda>p. None),
     h_readBytes = (\<lambda>p. Inr (1, if p = js ''apppackage-manifest.json'' then js ''1'' else js ''2'')),
     h_parse = (\<lambda>t. Inr (if t = js ''1'' then demo_root else demo_lib)), h_schemaErrors = (\<lambda>s v. [])\<rparr>"

definition demo_lib_manifest :: manifest where
  "demo_lib_manifest = \<lparr>m_identity = js ''x/lib'', m_version = js ''1.2.0'', m_sourceRoots = [],
     m_exports = [\<lparr>x_name = js ''Thing'', x_type = js ''x/lib/Thing'', x_visibility = js ''public''\<rparr>],
     m_imports = [], m_profiles = [], m_targets = [], m_mappings = []\<rparr>"

definition demo_root_manifest :: manifest where
  "demo_root_manifest = \<lparr>m_identity = js ''x/app'', m_version = js ''1.0.0'', m_sourceRoots = [],
     m_exports = [],
     m_imports = [\<lparr>i_package = js ''x/lib'', i_constraint = js ''^1.1.0'', i_exports = [js ''Thing''], i_capabilities = []\<rparr>],
     m_profiles = [], m_targets = [], m_mappings = []\<rparr>"

lemma demo_manifests: "manifest_of demo_root = demo_root_manifest" "manifest_of demo_lib = demo_lib_manifest"
  by code_simp+

lemma demo_index: "indexJsonPointers (js ''1'') = Some (Inr [([], \<lparr>line = 1, column = 1\<rparr>, \<lparr>line = 1, column = 1\<rparr>)])"
 "indexJsonPointers (js ''2'') = Some (Inr [([], \<lparr>line = 1, column = 1\<rparr>, \<lparr>line = 1, column = 1\<rparr>)])"
  by code_simp+

lemma demo_version: "parseVersion (Str (js ''1.2.0'')) = Some \<lparr>major = Fin 1, minor = Fin 2, patch = Fin 0, prerelease = []\<rparr>"
  by code_simp

definition demo_document :: "jsstr \<Rightarrow> jsval \<Rightarrow> document" where
  "demo_document path v = \<lparr>doc_value = v, doc_path = path, doc_source = manifest_source v,
     doc_index = [([], \<lparr>line = 1, column = 1\<rparr>, \<lparr>line = 1, column = 1\<rparr>)]\<rparr>"

definition demo_lims :: limits where
  "demo_lims = \<lparr>maxInputBytes = 10, maxDepth = 10, maxNodes = 10, maxCollectionItems = 10, maxDiagnostics = 10\<rparr>"

lemma demo_read: "readDocument demo_host demo_lims p dir sn en manifest_source =
  Inr (demo_document (relativePosix demo_host dir p) (if p = js ''apppackage-manifest.json'' then demo_root else demo_lib))"
  using demo_index
  by (simp add: readDocument_def parsed_document_def Let_def demo_host_def demo_lims_def demo_document_def)

definition demo_app_package :: package where
  "demo_app_package = root_package demo_host (js ''app'') (demo_document (relativePosix demo_host (js ''app'') (js ''apppackage-manifest.json'')) demo_root)"

definition demo_lib_package :: package where
  "demo_lib_package = \<lparr>p_identity = js ''x/lib'',
     p_version = Some \<lparr>major = Fin 1, minor = Fin 2, patch = Fin 0, prerelease = []\<rparr>,
     p_versionText = js ''1.2.0'', p_order = 0, p_root = js ''lib'' @ js ''lib'', p_manifest = demo_lib_manifest,
     p_document = demo_document (relativePosix demo_host (js ''lib'' @ js ''lib'') (js ''lib'' @ js ''lib'' @ js ''package-manifest.json'')) demo_lib\<rparr>"

lemma demo_path: "js ''lib'' @ js ''lib'' @ js ''package-manifest.json'' \<noteq> js ''apppackage-manifest.json''"
  "js ''app'' @ js ''package-manifest.json'' = js ''apppackage-manifest.json''"
    by (simp_all add: js_def unit_of_def)

lemmas demo_host_simps =
  demo_host_def [THEN arg_cong, of h_resolve, simplified]
  demo_host_def [THEN arg_cong, of h_isDirectory, simplified]
  demo_host_def [THEN arg_cong, of h_exists, simplified]
  demo_host_def [THEN arg_cong, of h_readDir, simplified]

lemma demo_document_value [simp]: "doc_value (demo_document p v) = v" by (simp add: demo_document_def)

lemma demo_discover: "discoverCandidates demo_host [js ''lib''] demo_lims =
   Inr \<lparr>s_candidates = [((js ''x/lib'', js ''1.2.0''), demo_lib_package)], s_rejected = [], s_diags = []\<rparr>"
  using demo_path
  by (simp add: discoverCandidates_def discover_entry_def Let_def demo_read
     demo_manifests demo_lib_package_def demo_lib_manifest_def demo_version demo_host_simps)

definition demo_graph_item :: constraint_item where
  "demo_graph_item = \<lparr>c_constraint = \<lparr>ckind = Caret, cversion =
     \<lparr>major = Fin 1, minor = Fin 1, patch = Fin 0, prerelease = []\<rparr>\<rparr>,
     c_locus = locate (p_document demo_app_package) (index_pointer ''/imports/'' 0), c_from = js ''x/app'', c_text = js ''^1.1.0''\<rparr>"

definition demo_graph_end :: resolution where
  "demo_graph_end =
     \<lparr>r_selected = [(js ''x/app'', demo_app_package), (js ''x/lib'', demo_lib_package)],
      r_constraints = [(js ''x/lib'', [demo_graph_item])],
      r_edges = [(js ''x/app'', [\<lparr>e_target = js ''x/lib'', e_locus = c_locus demo_graph_item\<rparr>]), (js ''x/lib'', [])],
      r_queue = [], r_diags = []\<rparr>"

lemma demo_app [simp]: "p_identity demo_app_package = js ''x/app''" "p_manifest demo_app_package = demo_root_manifest"
  by (simp_all add: demo_app_package_def root_package_def Let_def demo_manifests demo_root_manifest_def)

lemma demo_lib_simps [simp]: "p_identity demo_lib_package = js ''x/lib''" "p_manifest demo_lib_package = demo_lib_manifest" "p_versionText demo_lib_package = js ''1.2.0''"
  by (simp_all add: demo_lib_package_def)

lemma demo_names [simp]: "js ''x/lib'' \<noteq> js ''x/app''" "js ''x/app'' \<noteq> js ''x/lib''" by (simp_all add: js_def unit_of_def)

lemma demo_group: "byIdentity [demo_lib_package] = [(js ''x/lib'', [demo_lib_package])]"
  by (simp add: byIdentity_def list_at_def stable_sort_def)

lemma demo_graph_meets: "meets demo_lib_package (c_constraint demo_graph_item)"
  by (simp add: meets_def demo_lib_package_def demo_graph_item_def satisfies_def Let_def compareVersions_def num_sign_def)

lemma demo_graph_run: "resolve_loop (Suc (Suc 0)) (byIdentity [demo_lib_package]) [] 10 over (initial_state demo_app_package []) = Some (Inr demo_graph_end)"
  using demo_graph_meets
  unfolding demo_group
  by (simp add: resolve_loop.simps initial_state_def process_def import_step_def Let_def demo_constraint
    demo_root_manifest_def demo_lib_manifest_def record_constraint_def list_at_def  choose_candidate_def applicable_def demo_graph_end_def demo_graph_item_def
    eval_nat_numeral)

lemma demo_acyclic: "acyclic (imports_rel (r_edges demo_graph_end))"
proof -
  have "imports_rel (r_edges demo_graph_end) = {(js ''x/app'', js ''x/lib'')}"
    by (auto simp: imports_rel_def demo_graph_end_def list_at_def split: if_splits
      intro!: exI [of _ "js ''x/app''"])
  moreover have "acyclic ({} :: (jsstr \<times> jsstr) set)" by (simp add: acyclic_def)
  ultimately show ?thesis by (simp add: Transitive_Closure.acyclic_insert)
qed

lemma demo_no_cycles: "(case detectCycles (r_edges demo_graph_end) of None \<Rightarrow> [] | Some found \<Rightarrow> v_diags found) = []"
  using detectCycles_right [of "r_edges demo_graph_end"] demo_acyclic by auto

lemma demo_sorted: "sorted_packages demo_graph_end = [demo_app_package, demo_lib_package]"
  by (simp add: sorted_packages_def demo_graph_end_def sort_on_def stable_sort_def by_code_units_def js_def unit_of_def)

lemma demo_graph_diags: "graph_diags demo_graph_end = []"
  unfolding graph_diags_def demo_no_cycles demo_sorted
  using demo_graph_meets
  by (simp add: demo_graph_end_def conflict_diags_def demo_graph_item_def scan_exports_def scan_package_def demo_root_manifest_def
     demo_lib_manifest_def scan_export_def all_import_diags_def import_diags_def named_export_diags_def declared_exports_def map_from_def
     Let_def js_def unit_of_def)

lemma demo_files: "files_of demo_host demo_app_package = ([], [])" "files_of demo_host demo_lib_package = ([], [])"
  by (simp_all add: files_of_def sourceFiles_def demo_root_manifest_def demo_lib_manifest_def set_from_def)

lemma demo_finish: "\<exists>g. finish_graph demo_host demo_lims (js ''app'') None demo_app_package demo_graph_end = Inr g \<and> pg_diags g = []"
  by (simp add: finish_graph_def demo_graph_diags demo_sorted demo_files choose_profile_def demo_root_manifest_def profile_stage_def Let_def)

lemma demo_resolved: "\<exists>g. resolvePackageGraph demo_host (js ''app'') [js ''lib''] None demo_lims = Some (Inr (Inr g)) \<and> pg_diags g = []"
proof -
  obtain g where g: "finish_graph demo_host demo_lims (js ''app'') None demo_app_package demo_graph_end = Inr g" "pg_diags g = []"
    using demo_finish by blast
  have p: "h_resolve demo_host [js ''app'', js ''package-manifest.json''] = js ''apppackage-manifest.json''"
    by (simp add: demo_host_simps demo_path)
  have l: "maxNodes demo_lims = 10" "Suc (length [demo_lib_package]) = 2" by (simp_all add: demo_lims_def)
  show ?thesis
    unfolding resolvePackageGraph_def p demo_read Let_def if_True simp_thms sum.case demo_discover
      demo_app_package_def [symmetric]
    using g by (simp add: demo_lims_def demo_graph_run flip: demo_app_package_def)
qed

lemma resolvePackageGraph_returns: "\<exists>outcome. resolvePackageGraph h dir sp pn lims = Some outcome"
proof -
  have "\<exists>r. resolve_loop (Suc (length (map snd (s_candidates found)))) (byIdentity (map snd (s_candidates found)))
      (s_rejected found) limit over (initial_state (root_package h dir d) ds) = Some r"
    if "discoverCandidates h sp lims = Inr found" for found limit over d ds
    using resolve_loop_ends [OF initial_on_track, of "map snd (s_candidates found)" "root_package h dir d" ds
        "Suc (length (map snd (s_candidates found)))"]
      initial_work [of "map snd (s_candidates found)" "root_package h dir d" ds]
      discoverCandidates_sound [OF that]
    by (fastforce simp: root_package_def Let_def)
  then show ?thesis
    by (fastforce simp: resolvePackageGraph_def Let_def split: sum.splits)
qed

section \<open>Properties\<close>

text \<open>
  \<open>resolvePackageGraph\<close> returns on every host: whatever manifests the search path holds, the
  queue of packages to resolve and the cycle search both end.
\<close>

lemma resolvePackageGraph_ends: "\<exists>outcome. resolvePackageGraph h dir sp pn lims = Some outcome"
  by (rule resolvePackageGraph_returns)

text \<open>
  C9. A graph without diagnostics is sound: it holds one package per identity, every import of
  every package is met by the package the graph holds for that identity - its version satisfies
  the constraint as written, it declares every named export without \<open>private\<close>, and its profiles
  offer every capability asked for - and no package imports itself through others. This is an
  invariant of the queue, through every re-selection, joined to the checks after it.
\<close>

theorem clean_graph_sound:
  assumes "resolvePackageGraph h dir sp pn lims = Some (Inr (Inr g))" and "pg_diags g = []"
  shows "distinct (map g_identity (pg_packages g)) \<and>
    list_all (\<lambda>p. list_all (resolved_import g) (m_imports (p_manifest (g_package p)))) (pg_packages g) \<and>
    acyclic (graph_imports g)"
  by (rule resolvePackageGraph_run [OF assms])
    (use graph_complete(1) graph_acyclic graph_distinct assms(2) in \<open>simp add: list_all_iff\<close>)

theorem clean_graph_sound_witness:
  "\<exists>g. resolvePackageGraph demo_host (js ''app'') [js ''lib''] None demo_lims = Some (Inr (Inr g)) \<and>
    distinct (map g_identity (pg_packages g)) \<and>
    list_all (\<lambda>p. list_all (resolved_import g) (m_imports (p_manifest (g_package p)))) (pg_packages g) \<and>
    acyclic (graph_imports g)"
proof -
  obtain g where g: "resolvePackageGraph demo_host (js ''app'') [js ''lib''] None demo_lims = Some (Inr (Inr g))"
    "pg_diags g = []"
    using demo_resolved by blast
  show ?thesis using g(1) clean_graph_sound [OF g] by blast
qed

end
