(* ===== verification/Results.thy ===== *)
theory Results
  imports Prelude
begin

text \<open>
  Operations that stop at their first defect: the left value of a sum is the defect, the right one
  the result. \<open>try_then\<close> is an early return between two steps, \<open>try_fold\<close> a loop with an early
  return, \<open>refuse_if\<close> a guard.
\<close>

definition try_then :: "'e + 'a \<Rightarrow> ('a \<Rightarrow> 'e + 'b) \<Rightarrow> 'e + 'b" where
  "try_then r f = (case r of Inl e \<Rightarrow> Inl e | Inr x \<Rightarrow> f x)"

fun try_fold :: "('x \<Rightarrow> 'a \<Rightarrow> 'e + 'a) \<Rightarrow> 'x list \<Rightarrow> 'a \<Rightarrow> 'e + 'a" where
  "try_fold f [] acc = Inr acc"
| "try_fold f (x # xs) acc = try_then (f x acc) (try_fold f xs)"

definition refuse_if :: "bool \<Rightarrow> 'e \<Rightarrow> 'e + unit" where
  "refuse_if bad e = (if bad then Inl e else Inr ())"

lemma try_then_simps [simp]: "try_then (Inl e) f = Inl e" "try_then (Inr x) f = f x"
  by (simp_all add: try_then_def)

lemma try_then_Inr: "try_then r f = Inr y \<longleftrightarrow> (\<exists>x. r = Inr x \<and> f x = Inr y)"
  by (cases r) simp_all

lemma try_then_Inl: "try_then r f = Inl e \<longleftrightarrow> r = Inl e \<or> (\<exists>x. r = Inr x \<and> f x = Inl e)"
  by (cases r) auto

lemma refuse_if_Inr [simp]: "refuse_if bad e = Inr u \<longleftrightarrow> \<not> bad"
  by (simp add: refuse_if_def)

lemma refuse_if_Inl [simp]: "refuse_if bad e = Inl d \<longleftrightarrow> bad \<and> d = e"
  by (auto simp: refuse_if_def)

lemma try_then_cong [fundef_cong]:
  "r = r' \<Longrightarrow> (\<And>x. r' = Inr x \<Longrightarrow> f x = g x) \<Longrightarrow> try_then r f = try_then r' g"
  by (cases r') simp_all

text \<open>An invariant of the accumulator holds at the end of a loop that was not left early.\<close>

lemma try_fold_invariant:
  assumes "try_fold f xs acc = Inr acc'" and "I acc"
    and "\<And>x a a'. x \<in> set xs \<Longrightarrow> I a \<Longrightarrow> f x a = Inr a' \<Longrightarrow> I a'"
  shows "I acc'"
  using assms
proof (induction xs arbitrary: acc)
  case (Cons x xs)
  then obtain a where "f x acc = Inr a" "try_fold f xs a = Inr acc'" by (auto simp: try_then_Inr)
  then show ?case using Cons.IH [of a] Cons.prems(2,3) by auto
qed simp

text \<open>Every element was accepted in some state.\<close>

lemma try_fold_each:
  "try_fold f xs acc = Inr acc' \<Longrightarrow> x \<in> set xs \<Longrightarrow> \<exists>a a'. f x a = Inr a'"
proof (induction xs arbitrary: acc)
  case (Cons y ys)
  then show ?case by (auto simp: try_then_Inr)
qed simp

end
