(* ===== verification/Constructs.thy ===== *)
theory Constructs
  imports Results JsonLocus
begin

text \<open>
  \<open>src/src/compiler/constructs.mjs\<close>, first half: the construct vocabulary and the reading of a
  construct declaration, up to the shape, identity and member tests of a bound type. The
  vocabulary is the data of \<open>src/schema/semantic/v1/construct-vocabulary.json\<close>, the core kinds and
  their required members that of \<open>semantic-ir.schema.json\<close> beside it.
\<close>

section \<open>The vocabulary\<close>

record vocab_member =
  vm_name :: jsstr
  vm_default :: jsstr
  vm_references :: "jsstr list option"

record vocab_rule =
  vr_name :: jsstr
  vr_member :: jsstr
  vr_presence :: jsstr
  vr_nonEmpty :: bool

definition IDENTITIES :: "jsstr list" where
  "IDENTITIES = map js [''identified'', ''value'', ''none'']"

definition SHAPES :: "jsstr list" where
  "SHAPES = map js [''record'', ''enumeration'', ''interface'', ''state_machine'', ''sequence'',
     ''namespace'', ''alias'', ''tuple'']"

definition PRESENCES :: "jsstr list" where
  "PRESENCES = map js [''required'', ''optional'', ''forbidden'']"

definition vocab_entry :: "string \<Rightarrow> string \<Rightarrow> string list option \<Rightarrow> vocab_member" where
  "vocab_entry name dflt items =
     \<lparr>vm_name = js name, vm_default = js dflt, vm_references = map_option (map js) items\<rparr>"

definition MEMBERS :: "vocab_member list" where
  "MEMBERS =
     map (\<lambda>n. vocab_entry n ''optional'' None)
       [''fields'', ''variants'', ''relationships'', ''operations'', ''clauses'', ''supertypes'', ''abstract''] @
     map (\<lambda>(n, items). vocab_entry n ''forbidden'' items)
       [(''identityFields'', None), (''owner'', Some []), (''members'', Some []),
        (''occurrenceField'', None), (''states'', None), (''transitions'', Some [''emits'']),
        (''steps'', Some [''consumes'', ''emits'']), (''persists'', Some []), (''vocabulary'', None),
        (''direction'', None), (''interfaceType'', Some []), (''multiplicity'', None),
        (''declaredType'', Some []), (''flowDirection'', None), (''sourceEnd'', Some [''type'']),
        (''targetEnd'', Some [''type'']), (''sourceElement'', Some []), (''targetElement'', Some []),
        (''featureOrder'', None), (''target'', Some []), (''positions'', None)]"

definition RULES :: "vocab_rule list" where
  "RULES =
     map (\<lambda>(n, m, p, e). \<lparr>vr_name = js n, vr_member = js m, vr_presence = js p, vr_nonEmpty = e\<rparr>)
       [(''identity_field_required'', ''identityFields'', ''required'', False),
        (''identity_field_forbidden'', ''identityFields'', ''forbidden'', False),
        (''min_clauses'', ''clauses'', ''required'', True),
        (''occurrence_field_required'', ''occurrenceField'', ''required'', False),
        (''no_fields'', ''fields'', ''forbidden'', False),
        (''no_operations'', ''operations'', ''forbidden'', False),
        (''min_operations'', ''operations'', ''required'', True),
        (''single_owner'', ''owner'', ''required'', False),
        (''exclusive_membership'', ''members'', ''required'', False),
        (''members_not_namespace'', ''members'', ''required'', False)]"

text \<open>Requirements: a term, the member and the presence a declaration of the term needs.\<close>

definition identityRequirements :: "(jsstr \<times> jsstr \<times> jsstr) list" where
  "identityRequirements = [(js ''identified'', js ''identityFields'', js ''required'')]"

definition shapeRequirements :: "(jsstr \<times> jsstr \<times> jsstr) list" where
  "shapeRequirements =
     [(js ''enumeration'', js ''variants'', js ''required''), (js ''alias'', js ''target'', js ''required''),
      (js ''tuple'', js ''positions'', js ''required'')]"

text \<open>The flags with their defaults.\<close>

definition FLAGS :: "(jsstr \<times> bool) list" where
  "FLAGS = [(js ''immutable'', False)]"

definition CORE_KINDS :: "jsstr list" where
  "CORE_KINDS = map js [''scalar'', ''record'', ''enum'', ''union'', ''alias'', ''sequence'', ''map'',
     ''reference'', ''option'']"

definition CORE_REQUIRED_MEMBERS :: "jsstr list" where
  "CORE_REQUIRED_MEMBERS = map js [''kind'', ''scalar'', ''fields'', ''variants'', ''target'', ''items'',
     ''values'', ''inner'']"

definition member_of :: "jsstr \<Rightarrow> vocab_member option" where
  "member_of name = find (\<lambda>m. vm_name m = name) MEMBERS"

definition ruleOf :: "jsstr \<Rightarrow> vocab_rule option" where
  "ruleOf name = find (\<lambda>r. vr_name r = name) RULES"

definition SHAPE_RENDERINGS :: "(jsstr \<times> jsstr) list" where
  "SHAPE_RENDERINGS =
     [(js ''record'', js ''record''), (js ''enumeration'', js ''enum''), (js ''interface'', js ''interface''),
      (js ''state_machine'', js ''state_machine''), (js ''sequence'', js ''record''),
      (js ''namespace'', js ''namespace''), (js ''alias'', js ''alias''), (js ''tuple'', js ''tuple'')]"

definition IDENTITY_EQUALITIES :: "(jsstr \<times> jsstr option) list" where
  "IDENTITY_EQUALITIES =
     [(js ''identified'', Some (js ''identity'')), (js ''value'', Some (js ''value'')), (js ''none'', None)]"

definition constructFeatures :: "jsstr \<Rightarrow> jsstr list" where
  "constructFeatures prefix =
     map (\<lambda>s. prefix @ js ''shape:'' @ s) SHAPES @ map (\<lambda>i. prefix @ js ''identity:'' @ i) IDENTITIES"

section \<open>Kinds\<close>

definition isConstructKind :: "jsval \<Rightarrow> bool" where
  "isConstructKind kind = is_object kind"

definition kindName :: "jsval \<Rightarrow> jsstr" where
  "kindName kind =
     (if is_string kind then to_text kind
      else if is_object kind \<and> is_string (get kind ''name'') then to_text (get kind ''name'')
      else to_text kind)"

definition kindLabel :: "jsval \<Rightarrow> jsstr" where
  "kindLabel kind =
     (if is_object kind then to_text (get kind ''module'') @ js ''/'' @ to_text (get kind ''name'')
      else to_text kind)"

text \<open>
  \<open>kindKey\<close>: the JSON text of \<open>[kind.module, kind.name]\<close>. Two such texts of parsed values are equal
  exactly when the entries are, an absent one counting as \<open>null\<close>; the key is the pair.
\<close>

definition kindKey :: "jsval \<Rightarrow> jsval \<times> jsval" where
  "kindKey kind =
     (let f = (\<lambda>v. if v = Undefined then Null else v)
      in (f (get kind ''module''), f (get kind ''name'')))"

definition pointerToken :: "jsstr \<Rightarrow> jsstr" where
  "pointerToken name = js ''/'' @ escapeToken name"

section \<open>Declarations\<close>

record construct_decl =
  dc_identity :: jsstr
  dc_shape :: jsstr
  dc_members :: "(jsstr \<times> jsstr) list"
  dc_references :: "(jsstr \<times> jsstr list) list"
  dc_rules :: "jsstr list"
  dc_meaning :: jsstr
  dc_flags :: "(jsstr \<times> bool) list"

text \<open>A refusal: the pointer below the declaration and the message.\<close>

type_synonym refusal = "jsstr \<times> jsstr"

definition presenceOf :: "construct_decl \<Rightarrow> jsstr \<Rightarrow> jsstr option" where
  "presenceOf d name =
     (case map_of (dc_members d) name of
        Some p \<Rightarrow> Some p
      | None \<Rightarrow> map_option vm_default (member_of name))"

definition rolesOf :: "construct_decl \<Rightarrow> jsstr \<Rightarrow> jsstr list option" where
  "rolesOf d name = map_of (dc_references d) name"

text \<open>\<open>term\<close>: the text, when it is one of the names.\<close>

definition read_term :: "jsval \<Rightarrow> jsstr \<Rightarrow> jsstr list \<Rightarrow> jsstr \<Rightarrow> refusal + jsstr" where
  "read_term v pointer names what =
     (case v of
        Str s \<Rightarrow> if s \<in> set names then Inr s
          else Inl (pointer, what @ js '' is one of '' @ join (js '', '') names)
      | _ \<Rightarrow> Inl (pointer, what @ js '' is one of '' @ join (js '', '') names))"

definition declaration_keys :: "jsstr list" where
  "declaration_keys =
     map js [''identity'', ''shape'', ''members'', ''references'', ''rules'', ''meaning''] @ map fst FLAGS"

definition read_keys :: "jsval \<Rightarrow> refusal + unit" where
  "read_keys v =
     try_then
       (try_fold (\<lambda>(name, _) _. refuse_if (name \<notin> set declaration_keys)
           ([], js ''the member '' @ name @ js '' is not one a declaration admits'')) (members_of v) ())
       (try_fold (\<lambda>name _. refuse_if (\<not> has_own v name)
           ([], js ''a required member '' @ js name @ js '' is absent''))
         [''identity'', ''shape'', ''members'', ''meaning''])"

definition read_member ::
  "jsstr \<times> jsval \<Rightarrow> (jsstr \<times> jsstr) list \<Rightarrow> refusal + (jsstr \<times> jsstr) list" where
  "read_member e acc =
     (let (name, presence) = e; at_ptr = js ''/members'' @ pointerToken name
      in try_then (refuse_if (member_of name = None)
             (at_ptr, js ''members names the core members only and '' @ name @ js '' is not one''))
           (\<lambda>_. try_then (read_term presence at_ptr PRESENCES (js ''a member presence''))
             (\<lambda>p. Inr (acc @ [(name, p)]))))"

definition read_members :: "jsval \<Rightarrow> refusal + (jsstr \<times> jsstr) list" where
  "read_members v =
     try_then (refuse_if (\<not> is_object v) (js ''/members'', js ''members is an object''))
       (\<lambda>_. try_fold read_member (members_of v) [])"

definition read_role ::
  "jsstr \<Rightarrow> jsstr \<Rightarrow> nat \<times> jsval \<Rightarrow> jsstr list \<Rightarrow> refusal + jsstr list" where
  "read_role name at_ptr e acc =
     (let (position, role) = e; item_at = at_ptr @ js ''/'' @ digits_of (int position)
      in try_then (refuse_if (\<not> is_string role \<or> to_text role = [] \<or> to_text role = js ''*'')
             (item_at, js ''a role is a non-empty role name and not *''))
           (\<lambda>_. try_then (refuse_if (to_text role \<in> set acc)
               (item_at, name @ js '' admits the role '' @ to_text role @ js '' once''))
             (\<lambda>_. Inr (acc @ [to_text role]))))"

definition is_reference_member :: "jsstr \<Rightarrow> bool" where
  "is_reference_member name =
     (case member_of name of None \<Rightarrow> False | Some m \<Rightarrow> vm_references m \<noteq> None)"

definition read_reference ::
  "jsstr \<times> jsval \<Rightarrow> (jsstr \<times> jsstr list) list \<Rightarrow> refusal + (jsstr \<times> jsstr list) list" where
  "read_reference e acc =
     (let (name, roles) = e; at_ptr = js ''/references'' @ pointerToken name
      in try_then (refuse_if (\<not> is_reference_member name)
             (at_ptr, js ''references names core reference members only and '' @ name @ js '' is not one''))
           (\<lambda>_. try_then (refuse_if (list_of roles = [])
               (at_ptr, js ''a reference admits a non-empty list of roles''))
             (\<lambda>_. try_then (try_fold (read_role name at_ptr) (List.enumerate 0 (list_of roles)) [])
               (\<lambda>read. Inr (acc @ [(name, read)])))))"

definition read_references :: "jsval \<Rightarrow> refusal + (jsstr \<times> jsstr list) list" where
  "read_references v =
     (if \<not> has_own v ''references'' then Inr []
      else try_then (refuse_if (\<not> is_object (get v ''references''))
             (js ''/references'', js ''references is an object''))
           (\<lambda>_. try_fold read_reference (members_of (get v ''references'')) []))"

definition read_rule :: "nat \<times> jsval \<Rightarrow> jsstr list \<Rightarrow> refusal + jsstr list" where
  "read_rule e acc =
     (let (position, rule) = e; at_ptr = js ''/rules/'' @ digits_of (int position)
      in try_then (read_term rule at_ptr (map vr_name RULES) (js ''a rule''))
           (\<lambda>r. try_then (refuse_if (r \<in> set acc) (at_ptr, js ''rules selects '' @ r @ js '' once''))
             (\<lambda>_. Inr (acc @ [r]))))"

definition read_rules :: "jsval \<Rightarrow> refusal + jsstr list" where
  "read_rules v =
     (if \<not> has_own v ''rules'' then Inr []
      else try_then (refuse_if (\<not> is_array (get v ''rules'')) (js ''/rules'', js ''rules is an array''))
           (\<lambda>_. try_fold read_rule (List.enumerate 0 (list_of (get v ''rules''))) []))"

definition read_flag ::
  "jsval \<Rightarrow> jsstr \<times> bool \<Rightarrow> (jsstr \<times> bool) list \<Rightarrow> refusal + (jsstr \<times> bool) list" where
  "read_flag v e acc =
     (let (name, dflt) = e
      in if map_of (members_of v) name = None then Inr (acc @ [(name, dflt)])
         else (case get_at v name of
             Bool b \<Rightarrow> Inr (acc @ [(name, b)])
           | _ \<Rightarrow> Inl (js ''/'' @ name, name @ js '' is a boolean'')))"

text \<open>The presences the identity, the shape, the rules and the references ask of the members.\<close>

definition check_requirements ::
  "construct_decl \<Rightarrow> jsstr \<Rightarrow> jsstr \<Rightarrow> (jsstr \<times> jsstr \<times> jsstr) list \<Rightarrow> refusal + unit" where
  "check_requirements d pointer selected requirements =
     try_fold (\<lambda>(t, m, p) _. refuse_if (t = selected \<and> presenceOf d m \<noteq> Some p)
       (pointer, js ''a '' @ selected @ js '' declaration requires '' @ m @ js '' to be '' @ p))
       requirements ()"

definition check_rules :: "construct_decl \<Rightarrow> refusal + unit" where
  "check_rules d =
     try_fold (\<lambda>(position, rule) _.
       case ruleOf rule of
         None \<Rightarrow> Inr ()
       | Some r \<Rightarrow> refuse_if (presenceOf d (vr_member r) \<noteq> Some (vr_presence r))
           (js ''/rules/'' @ digits_of (int position),
            js ''the rule '' @ rule @ js '' requires '' @ vr_member r @ js '' to be '' @ vr_presence r))
       (List.enumerate 0 (dc_rules d)) ()"

definition check_references :: "construct_decl \<Rightarrow> refusal + unit" where
  "check_references d =
     try_fold (\<lambda>(m, _) _. refuse_if (presenceOf d m = Some (js ''forbidden''))
       (js ''/references'' @ pointerToken m,
        js ''the reference '' @ m @ js '' is to a member the declaration forbids''))
       (dc_references d) ()"

definition check_declaration :: "construct_decl \<Rightarrow> refusal + unit" where
  "check_declaration d =
     try_then (check_requirements d (js ''/identity'') (dc_identity d) identityRequirements)
       (\<lambda>_. try_then (check_requirements d (js ''/shape'') (dc_shape d) shapeRequirements)
         (\<lambda>_. try_then (check_rules d) (\<lambda>_. check_references d)))"

definition readDeclaration :: "jsval \<Rightarrow> refusal + construct_decl" where
  "readDeclaration v =
     try_then (refuse_if (\<not> is_object v) ([], js ''a construct declaration is an object''))
     (\<lambda>_. try_then (read_keys v)
     (\<lambda>_. try_then (read_term (get v ''identity'') (js ''/identity'') IDENTITIES (js ''identity''))
     (\<lambda>identity. try_then (read_term (get v ''shape'') (js ''/shape'') SHAPES (js ''shape''))
     (\<lambda>shape. try_then (read_members (get v ''members''))
     (\<lambda>members. try_then (read_references v)
     (\<lambda>references. try_then (read_rules v)
     (\<lambda>rules. try_then (refuse_if (\<not> is_string (get v ''meaning'') \<or> to_text (get v ''meaning'') = [])
         (js ''/meaning'', js ''meaning is a non-empty Quire meaning id''))
     (\<lambda>_. try_then (try_fold (read_flag v) FLAGS [])
     (\<lambda>flags.
        let d = \<lparr>dc_identity = identity, dc_shape = shape, dc_members = members,
                 dc_references = references, dc_rules = rules,
                 dc_meaning = to_text (get v ''meaning''), dc_flags = flags\<rparr>
        in try_then (check_declaration d) (\<lambda>_. Inr d))))))))))"

section \<open>Construct members of core types, reference entries\<close>

definition constructOnlyMembers :: "jsstr list" where
  "constructOnlyMembers =
     map vm_name (filter (\<lambda>m. vm_default m = js ''forbidden'' \<and>
       vm_name m \<notin> set CORE_REQUIRED_MEMBERS) MEMBERS)"

text \<open>The named types of a value: itself, or the string entries of a list.\<close>

definition named_entries :: "jsval \<Rightarrow> jsstr \<Rightarrow> (jsstr \<times> jsstr) list" where
  "named_entries v at_ptr =
     (case v of
        Str s \<Rightarrow> [(at_ptr, s)]
      | _ \<Rightarrow> concat (map (\<lambda>(position, e).
            case e of Str s \<Rightarrow> [(at_ptr @ js ''/'' @ digits_of (int position), s)] | _ \<Rightarrow> [])
          (List.enumerate 0 (list_of v))))"

definition referenceEntries :: "jsval \<Rightarrow> jsstr \<Rightarrow> jsstr \<Rightarrow> (jsstr \<times> jsstr) list" where
  "referenceEntries ty type_at member =
     (case member_of member of
        None \<Rightarrow> []
      | Some m \<Rightarrow>
          (case vm_references m of
             None \<Rightarrow> []
           | Some items \<Rightarrow>
               let member_at = type_at @ js ''/'' @ member; v = get_at ty member
               in if v = Undefined then []
                  else if items = [] then named_entries v member_at
                  else
                    let entries = (if is_array v
                        then map (\<lambda>(position, item). (item, member_at @ js ''/'' @ digits_of (int position)))
                          (List.enumerate 0 (list_of v))
                        else [(v, member_at)])
                    in concat (map (\<lambda>(item, item_at).
                         if is_object item
                         then concat (map (\<lambda>name. named_entries (get_at item name) (item_at @ js ''/'' @ name)) items)
                         else []) entries)))"

section \<open>Binding\<close>

type_synonym construct_table = "((jsval \<times> jsval) \<times> construct_decl) list"

definition construct_entry :: "jsval \<Rightarrow> construct_table \<Rightarrow> construct_table" where
  "construct_entry e table =
     (if \<not> is_object e \<or> \<not> is_object (get e ''kind'') then table
      else if map_of table (kindKey (get e ''kind'')) \<noteq> None then table
      else (case readDeclaration (get e ''construct'') of
          Inl _ \<Rightarrow> table
        | Inr d \<Rightarrow> table @ [(kindKey (get e ''kind''), d)]))"

definition constructTable :: "jsval \<Rightarrow> construct_table" where
  "constructTable ir = fold construct_entry (list_of (get ir ''constructs'')) []"

text \<open>
  \<open>declarationOf\<close>: the binding \<open>bindConstructs\<close> records for a type object of the document with the
  table; it depends on the type's kind only. The code keeps it in a \<open>WeakMap\<close> of the objects.
\<close>

definition declarationOf :: "construct_table \<Rightarrow> jsval \<Rightarrow> construct_decl option" where
  "declarationOf table node =
     (if is_object node \<and> is_object (get node ''kind'') then map_of table (kindKey (get node ''kind''))
      else None)"

definition renderingOf :: "construct_table \<Rightarrow> jsval \<Rightarrow> jsstr option" where
  "renderingOf table node =
     (case declarationOf table node of
        Some d \<Rightarrow> map_of SHAPE_RENDERINGS (dc_shape d)
      | None \<Rightarrow> (case get node ''kind'' of Str s \<Rightarrow> Some s | _ \<Rightarrow> None))"

definition isRecordShaped :: "construct_table \<Rightarrow> jsval \<Rightarrow> bool" where
  "isRecordShaped table node \<longleftrightarrow>
     renderingOf table node \<in> {Some (js ''record''), Some (js ''state_machine'')}"

definition isAliasShaped :: "construct_table \<Rightarrow> jsval \<Rightarrow> bool" where
  "isAliasShaped table node \<longleftrightarrow> renderingOf table node = Some (js ''alias'')"

definition isEnumerationShaped :: "construct_table \<Rightarrow> jsval \<Rightarrow> bool" where
  "isEnumerationShaped table node \<longleftrightarrow> renderingOf table node = Some (js ''enum'')"

definition isInstanceless :: "construct_table \<Rightarrow> jsval \<Rightarrow> bool" where
  "isInstanceless table node \<longleftrightarrow>
     renderingOf table node \<in> {Some (js ''interface''), Some (js ''namespace'')}"

definition equalityOf :: "construct_table \<Rightarrow> jsval \<Rightarrow> jsstr option" where
  "equalityOf table node =
     (case declarationOf table node of
        None \<Rightarrow> None
      | Some d \<Rightarrow> (case map_of IDENTITY_EQUALITIES (dc_identity d) of None \<Rightarrow> None | Some e \<Rightarrow> e))"

definition admits :: "construct_table \<Rightarrow> jsval \<Rightarrow> string \<Rightarrow> bool" where
  "admits table node member =
     (case declarationOf table node of
        None \<Rightarrow> False
      | Some d \<Rightarrow> presenceOf d (js member) \<noteq> Some (js ''forbidden''))"

definition UNRENDERED_SHAPES :: "jsstr list" where
  "UNRENDERED_SHAPES = [js ''tuple'']"

definition UNRENDERED_KINDS :: "jsstr list" where
  "UNRENDERED_KINDS = [js ''option'']"

record unrendered =
  un_identity :: jsval
  un_shape :: jsstr
  un_pointer :: jsstr

definition unrendered_at :: "construct_table \<Rightarrow> nat \<Rightarrow> jsval \<Rightarrow> unrendered option" where
  "unrendered_at table position ty =
     (let at_ptr = js ''/types/'' @ digits_of (int position)
      in case declarationOf table ty of
           Some d \<Rightarrow> if dc_shape d \<in> set UNRENDERED_SHAPES
             then Some \<lparr>un_identity = get ty ''identity'', un_shape = dc_shape d, un_pointer = at_ptr\<rparr>
             else None
         | None \<Rightarrow>
             (case get ty ''kind'' of
                Str k \<Rightarrow> if k \<in> set UNRENDERED_KINDS
                  then Some \<lparr>un_identity = get ty ''identity'', un_shape = k, un_pointer = at_ptr\<rparr> else None
              | _ \<Rightarrow> None))"

fun first_some :: "'a option list \<Rightarrow> 'a option" where
  "first_some [] = None"
| "first_some (None # xs) = first_some xs"
| "first_some (Some x # xs) = Some x"

definition firstUnrenderedType :: "jsval \<Rightarrow> unrendered option" where
  "firstUnrenderedType ir =
     first_some (map (\<lambda>(position, ty). unrendered_at (constructTable ir) position ty)
       (List.enumerate 0 (list_of (get ir ''types''))))"

section \<open>Accepted declarations\<close>

definition term_ok :: "jsstr list \<Rightarrow> jsstr \<Rightarrow> bool" where
  "term_ok names s \<longleftrightarrow> s \<in> set names"

definition meets_requirements :: "construct_decl \<Rightarrow> jsstr \<Rightarrow> (jsstr \<times> jsstr \<times> jsstr) list \<Rightarrow> bool" where
  "meets_requirements d selected = list_all (\<lambda>(t, m, p). t = selected \<longrightarrow> presenceOf d m = Some p)"

definition rule_met :: "construct_decl \<Rightarrow> jsstr \<Rightarrow> bool" where
  "rule_met d rule =
     (case ruleOf rule of None \<Rightarrow> False | Some r \<Rightarrow> presenceOf d (vr_member r) = Some (vr_presence r))"

text \<open>What \<open>readDeclaration\<close> promises its callers.\<close>

definition wf_declaration :: "construct_decl \<Rightarrow> bool" where
  "wf_declaration d \<longleftrightarrow>
     dc_identity d \<in> set IDENTITIES \<and> dc_shape d \<in> set SHAPES \<and>
     list_all (\<lambda>(m, p). member_of m \<noteq> None \<and> p \<in> set PRESENCES) (dc_members d) \<and>
     list_all (\<lambda>(m, rs). is_reference_member m \<and> rs \<noteq> [] \<and> distinct rs \<and>
       list_all (\<lambda>r. r \<noteq> [] \<and> r \<noteq> js ''*'') rs \<and> presenceOf d m \<noteq> Some (js ''forbidden'')) (dc_references d) \<and>
     distinct (dc_rules d) \<and> list_all (rule_met d) (dc_rules d) \<and>
     meets_requirements d (dc_identity d) identityRequirements \<and>
     meets_requirements d (dc_shape d) shapeRequirements \<and>
     dc_meaning d \<noteq> [] \<and> map fst (dc_flags d) = map fst FLAGS"

lemma read_term_Inr: "read_term v p names what = Inr s \<longleftrightarrow> v = Str s \<and> s \<in> set names"
  by (cases v) (auto simp: read_term_def)

lemma read_member_Inr:
  "read_member (name, v) acc = Inr acc' \<longleftrightarrow>
    (\<exists>p. v = Str p \<and> p \<in> set PRESENCES \<and> member_of name \<noteq> None \<and> acc' = acc @ [(name, p)])"
  by (auto simp: read_member_def Let_def try_then_Inr read_term_Inr)

lemma read_members_ok:
  "read_members v = Inr ms \<Longrightarrow> list_all (\<lambda>(m, p). member_of m \<noteq> None \<and> p \<in> set PRESENCES) ms"
proof -
  assume r: "read_members v = Inr ms"
  then have "try_fold read_member (members_of v) [] = Inr ms"
    by (simp add: read_members_def try_then_Inr)
  then show ?thesis
    by (rule try_fold_invariant) (auto simp: read_member_Inr)
qed

lemma read_role_Inr:
  "read_role name at_ptr (n, v) acc = Inr acc' \<longleftrightarrow>
    (\<exists>r. v = Str r \<and> r \<noteq> [] \<and> r \<noteq> js ''*'' \<and> r \<notin> set acc \<and> acc' = acc @ [r])"
  by (cases v) (auto simp: read_role_def Let_def try_then_Inr)

lemma read_roles_ok:
  "try_fold (read_role name at_ptr) es [] = Inr rs \<Longrightarrow>
    distinct rs \<and> list_all (\<lambda>r. r \<noteq> [] \<and> r \<noteq> js ''*'') rs \<and> length rs = length es"
proof -
  have "try_fold (read_role name at_ptr) es acc = Inr rs \<Longrightarrow>
      distinct acc \<and> list_all (\<lambda>r. r \<noteq> [] \<and> r \<noteq> js ''*'') acc \<Longrightarrow>
      distinct rs \<and> list_all (\<lambda>r. r \<noteq> [] \<and> r \<noteq> js ''*'') rs \<and> length rs = length acc + length es" for acc
  proof (induction es arbitrary: acc)
    case (Cons e es)
    obtain n v where e: "e = (n, v)" by (cases e)
    obtain acc1 where a: "read_role name at_ptr (n, v) acc = Inr acc1"
      "try_fold (read_role name at_ptr) es acc1 = Inr rs"
      using Cons.prems(1) by (auto simp: e try_then_Inr)
    then obtain r where "r \<noteq> []" "r \<noteq> js ''*''" "r \<notin> set acc" "acc1 = acc @ [r]"
      by (auto simp: read_role_Inr)
    then show ?case using Cons.IH [OF a(2)] Cons.prems(2) by simp
  qed simp
  then show "try_fold (read_role name at_ptr) es [] = Inr rs \<Longrightarrow> ?thesis" by fastforce
qed

definition reference_ok :: "jsstr \<times> jsstr list \<Rightarrow> bool" where
  "reference_ok e \<longleftrightarrow> is_reference_member (fst e) \<and> snd e \<noteq> [] \<and> distinct (snd e) \<and>
     list_all (\<lambda>r. r \<noteq> [] \<and> r \<noteq> js ''*'') (snd e)"

lemma read_reference_ok:
  assumes "read_reference (name, v) acc = Inr acc'" and "list_all reference_ok acc"
  shows "list_all reference_ok acc'"
proof -
  obtain rs where rs: "is_reference_member name" "list_of v \<noteq> []" "acc' = acc @ [(name, rs)]"
    "try_fold (read_role name (js ''/references'' @ pointerToken name)) (List.enumerate 0 (list_of v)) [] = Inr rs"
    using assms(1) by (auto simp: read_reference_def Let_def try_then_Inr)
  have "rs \<noteq> []" using read_roles_ok [OF rs(4)] rs(2) by auto
  then show ?thesis using assms(2) rs read_roles_ok [OF rs(4)] by (simp add: reference_ok_def)
qed

lemma read_references_fold:
  "try_fold read_reference es acc = Inr refs \<Longrightarrow> list_all reference_ok acc \<Longrightarrow> list_all reference_ok refs"
proof (induction es arbitrary: acc)
  case (Cons e es)
  obtain n v where e: "e = (n, v)" by (cases e)
  obtain a where "read_reference (n, v) acc = Inr a" "try_fold read_reference es a = Inr refs"
    using Cons.prems(1) unfolding e try_fold.simps try_then_Inr by blast
  then show ?case using Cons.IH read_reference_ok Cons.prems(2) by blast
qed simp

lemma read_references_ok: "read_references v = Inr refs \<Longrightarrow> list_all reference_ok refs"
proof (cases "has_own v ''references''")
  case True
  assume "read_references v = Inr refs"
  then have "try_fold read_reference (members_of (get v ''references'')) [] = Inr refs"
    using True by (simp add: read_references_def try_then_Inr)
  then show ?thesis by (rule read_references_fold) simp
qed (simp add: read_references_def)

lemma read_rule_Inr:
  "read_rule (n, v) acc = Inr acc' \<longleftrightarrow>
    (\<exists>r. v = Str r \<and> r \<in> set (map vr_name RULES) \<and> r \<notin> set acc \<and> acc' = acc @ [r])"
  by (auto simp: read_rule_def Let_def try_then_Inr read_term_Inr)

lemma read_rules_fold:
  "try_fold read_rule es acc = Inr rules \<Longrightarrow> distinct acc \<Longrightarrow> set acc \<subseteq> set (map vr_name RULES) \<Longrightarrow>
    distinct rules \<and> set rules \<subseteq> set (map vr_name RULES)"
proof (induction es arbitrary: acc)
  case (Cons e es)
  obtain n v where e: "e = (n, v)" by (cases e)
  obtain a where a: "read_rule (n, v) acc = Inr a" "try_fold read_rule es a = Inr rules"
    using Cons.prems(1) unfolding e try_fold.simps try_then_Inr by blast
  then obtain r where "r \<in> set (map vr_name RULES)" "r \<notin> set acc" "a = acc @ [r]"
    unfolding read_rule_Inr by blast
  then show ?case using Cons.IH [OF a(2)] Cons.prems(2,3) by simp
qed simp

lemma read_rules_ok:
  "read_rules v = Inr rules \<Longrightarrow> distinct rules \<and> set rules \<subseteq> set (map vr_name RULES)"
proof (cases "has_own v ''rules''")
  case True
  assume "read_rules v = Inr rules"
  then have "try_fold read_rule (List.enumerate 0 (list_of (get v ''rules''))) [] = Inr rules"
    using True by (simp add: read_rules_def try_then_Inr)
  then show ?thesis by (rule read_rules_fold) simp_all
qed (simp add: read_rules_def)

lemma find_some: "x \<in> set xs \<Longrightarrow> P x \<Longrightarrow> \<exists>y. find P xs = Some y"
  by (induction xs) auto

lemma ruleOf_known: "r \<in> set (map vr_name RULES) \<Longrightarrow> \<exists>x. ruleOf r = Some x"
  unfolding ruleOf_def by (metis (mono_tags, lifting) find_some image_iff set_map)

lemma try_fold_unit:
  "try_fold (\<lambda>x _. refuse_if (bad x) (e x)) xs () = Inr () \<longleftrightarrow> list_all (\<lambda>x. \<not> bad x) xs"
  by (induction xs) (auto simp: try_then_Inr)

lemma check_requirements_Inr:
  "check_requirements d p selected reqs = Inr () \<longleftrightarrow> meets_requirements d selected reqs"
proof -
  have f: "(\<lambda>(t, m, pr) _. refuse_if (t = selected \<and> presenceOf d m \<noteq> Some pr)
       (p, js ''a '' @ selected @ js '' declaration requires '' @ m @ js '' to be '' @ pr)) =
     (\<lambda>x _. refuse_if ((\<lambda>(t, m, pr). t = selected \<and> presenceOf d m \<noteq> Some pr) x)
       ((\<lambda>(t, m, pr). (p, js ''a '' @ selected @ js '' declaration requires '' @ m @ js '' to be '' @ pr)) x))"
    by (simp add: fun_eq_iff split: prod.splits)
  show ?thesis
    unfolding check_requirements_def f try_fold_unit meets_requirements_def
    by (auto simp: list_all_iff)
qed

lemma check_rules_Inr:
  "set (dc_rules d) \<subseteq> set (map vr_name RULES) \<Longrightarrow>
    check_rules d = Inr () \<longleftrightarrow> list_all (rule_met d) (dc_rules d)"
proof -
  assume known: "set (dc_rules d) \<subseteq> set (map vr_name RULES)"
  define f :: "nat \<times> jsstr \<Rightarrow> unit \<Rightarrow> refusal + unit" where
    "f = (\<lambda>(position, rule) _.
       case ruleOf rule of
         None \<Rightarrow> Inr ()
       | Some r \<Rightarrow> refuse_if (presenceOf d (vr_member r) \<noteq> Some (vr_presence r))
           (js ''/rules/'' @ digits_of (int position),
            js ''the rule '' @ rule @ js '' requires '' @ vr_member r @ js '' to be '' @ vr_presence r))"
  have step: "f (n, rule) () = Inr () \<longleftrightarrow> rule_met d rule" if "rule \<in> set (map vr_name RULES)" for n rule
    using ruleOf_known [OF that] by (auto simp: f_def rule_met_def)
  have "try_fold f es () = Inr () \<longleftrightarrow> list_all (rule_met d) (map snd es)"
    if "snd ` set es \<subseteq> set (map vr_name RULES)" for es
    using that
  proof (induction es)
    case (Cons e es)
    obtain n rule where e: "e = (n, rule)" by (cases e)
    have "try_fold f (e # es) () = Inr () \<longleftrightarrow> f (n, rule) () = Inr () \<and> try_fold f es () = Inr ()"
      unfolding try_fold.simps e try_then_Inr by auto
    moreover have "f (n, rule) () = Inr () \<longleftrightarrow> rule_met d rule"
      by (rule step) (use Cons.prems e in simp)
    moreover have "try_fold f es () = Inr () \<longleftrightarrow> list_all (rule_met d) (map snd es)"
      using Cons.IH Cons.prems by simp
    ultimately show ?case by (simp add: e)
  qed simp
  from this [of "List.enumerate 0 (dc_rules d)"] known
  show ?thesis by (simp add: check_rules_def f_def flip: set_map)
qed

lemma check_references_Inr:
  "check_references d = Inr () \<longleftrightarrow>
    list_all (\<lambda>e. presenceOf d (fst e) \<noteq> Some (js ''forbidden'')) (dc_references d)"
proof -
  have f: "(\<lambda>(m, _) _. refuse_if (presenceOf d m = Some (js ''forbidden''))
       (js ''/references'' @ pointerToken m,
        js ''the reference '' @ m @ js '' is to a member the declaration forbids'')) =
     (\<lambda>x _. refuse_if (presenceOf d (fst x) = Some (js ''forbidden''))
       (js ''/references'' @ pointerToken (fst x),
        js ''the reference '' @ fst x @ js '' is to a member the declaration forbids''))"
    by (simp add: fun_eq_iff split: prod.splits)
  show ?thesis unfolding check_references_def f try_fold_unit by simp
qed

lemma read_flags_keys:
  "try_fold (read_flag v) fs acc = Inr flags \<Longrightarrow> map fst flags = map fst acc @ map fst fs"
proof (induction fs arbitrary: acc)
  case (Cons x fs)
  obtain name dflt where x: "x = (name, dflt)" by (cases x)
  obtain a where a: "read_flag v x acc = Inr a" "try_fold (read_flag v) fs a = Inr flags"
    using Cons.prems by (auto simp: try_then_Inr)
  have "map fst a = map fst acc @ [name]"
    using a(1) by (auto simp: read_flag_def x split: if_splits jsval.splits)
  then show ?case using Cons.IH [OF a(2)] by (simp add: x)
qed simp

lemma wf_references:
  "list_all reference_ok refs \<Longrightarrow> list_all (\<lambda>e. presenceOf d (fst e) \<noteq> Some (js ''forbidden'')) refs \<Longrightarrow>
    list_all (\<lambda>(m, rs). is_reference_member m \<and> rs \<noteq> [] \<and> distinct rs \<and>
       list_all (\<lambda>r. r \<noteq> [] \<and> r \<noteq> js ''*'') rs \<and> presenceOf d m \<noteq> Some (js ''forbidden'')) refs"
  by (auto simp: list_all_iff reference_ok_def case_prod_unfold)

lemma check_declaration_ok:
  assumes "check_declaration d = Inr ()" and "set (dc_rules d) \<subseteq> set (map vr_name RULES)"
  shows "meets_requirements d (dc_identity d) identityRequirements \<and>
    meets_requirements d (dc_shape d) shapeRequirements \<and> list_all (rule_met d) (dc_rules d) \<and>
    list_all (\<lambda>e. presenceOf d (fst e) \<noteq> Some (js ''forbidden'')) (dc_references d)"
  using assms
  by (simp add: check_declaration_def try_then_Inr check_requirements_Inr check_rules_Inr check_references_Inr)

lemma readDeclaration_ok:
  assumes "readDeclaration v = Inr d"
  shows "wf_declaration d"
proof -
  obtain identity shape members references rules flags where
    parts: "get v ''identity'' = Str identity" "identity \<in> set IDENTITIES"
      "get v ''shape'' = Str shape" "shape \<in> set SHAPES"
      "read_members (get v ''members'') = Inr members" "read_references v = Inr references"
      "read_rules v = Inr rules" "try_fold (read_flag v) FLAGS [] = Inr flags"
      "to_text (get v ''meaning'') \<noteq> []" "check_declaration d = Inr ()"
    and d: "d = \<lparr>dc_identity = identity, dc_shape = shape, dc_members = members,
       dc_references = references, dc_rules = rules, dc_meaning = to_text (get v ''meaning''),
       dc_flags = flags\<rparr>"
    using assms unfolding readDeclaration_def try_then_Inr read_term_Inr refuse_if_Inr Let_def
    by (elim exE conjE) simp
  have r: "distinct (dc_rules d)" "set (dc_rules d) \<subseteq> set (map vr_name RULES)"
    using read_rules_ok [OF parts(7)] by (simp_all add: d)
  note ok = check_declaration_ok [OF parts(10) r(2)]
  have m: "list_all (\<lambda>(m, p). member_of m \<noteq> None \<and> p \<in> set PRESENCES) (dc_members d)"
    using read_members_ok [OF parts(5)] by (simp add: d)
  have refs: "list_all (\<lambda>(m, rs). is_reference_member m \<and> rs \<noteq> [] \<and> distinct rs \<and>
      list_all (\<lambda>r. r \<noteq> [] \<and> r \<noteq> js ''*'') rs \<and> presenceOf d m \<noteq> Some (js ''forbidden'')) (dc_references d)"
    by (rule wf_references) (use read_references_ok [OF parts(6)] ok in \<open>simp_all add: d\<close>)
  have "map fst (dc_flags d) = map fst FLAGS"
    using read_flags_keys [OF parts(8)] by (simp add: d)
  then show ?thesis
    unfolding wf_declaration_def using parts(2,4,9) r(1) ok m refs by (simp add: d)
qed

section \<open>Writing a declaration\<close>

definition declaration_value :: "construct_decl \<Rightarrow> jsval" where
  "declaration_value d =
     Obj ([(js ''identity'', Str (dc_identity d)), (js ''shape'', Str (dc_shape d)),
       (js ''members'', Obj (map (\<lambda>(m, p). (m, Str p)) (dc_members d))),
       (js ''references'', Obj (map (\<lambda>(m, rs). (m, Arr (map Str rs))) (dc_references d))),
       (js ''rules'', Arr (map Str (dc_rules d))), (js ''meaning'', Str (dc_meaning d))] @
       map (\<lambda>(k, b). (k, Bool b)) (dc_flags d))"

lemma enumerate_Cons [simp]: "List.enumerate n (x # xs) = (n, x) # List.enumerate (Suc n) xs"
  by simp

lemma write_members:
  "list_all (\<lambda>(m, p). member_of m \<noteq> None \<and> p \<in> set PRESENCES) ms \<Longrightarrow>
    try_fold read_member (map (\<lambda>(m, p). (m, Str p)) ms) acc = Inr (acc @ ms)"
proof (induction ms arbitrary: acc)
  case (Cons e ms)
  obtain m p where e: "e = (m, p)" by (cases e)
  have "read_member (m, Str p) acc = Inr (acc @ [(m, p)])"
    using Cons.prems by (simp add: read_member_Inr e)
  then show ?case using Cons by (simp add: e)
qed simp

lemma write_roles:
  "list_all (\<lambda>r. r \<noteq> [] \<and> r \<noteq> js ''*'') rs \<Longrightarrow> distinct (acc @ rs) \<Longrightarrow>
    try_fold (read_role name p) (List.enumerate n (map Str rs)) acc = Inr (acc @ rs)"
proof (induction rs arbitrary: acc n)
  case (Cons r rs)
  have "read_role name p (n, Str r) acc = Inr (acc @ [r])"
    using Cons.prems by (simp add: read_role_Inr)
  then show ?case using Cons by simp
qed simp

lemma write_references:
  "list_all reference_ok refs \<Longrightarrow>
    try_fold read_reference (map (\<lambda>(m, rs). (m, Arr (map Str rs))) refs) acc = Inr (acc @ refs)"
proof (induction refs arbitrary: acc)
  case (Cons e refs)
  obtain m rs where e: "e = (m, rs)" by (cases e)
  have "read_reference (m, Arr (map Str rs)) acc = Inr (acc @ [(m, rs)])"
    using Cons.prems write_roles [of rs "[]"] by (simp add: read_reference_def Let_def e reference_ok_def refuse_if_def)
  then show ?case using Cons by (simp add: e)
qed simp

lemma write_rules:
  "distinct (acc @ rs) \<Longrightarrow> set rs \<subseteq> set (map vr_name RULES) \<Longrightarrow>
    try_fold read_rule (List.enumerate n (map Str rs)) acc = Inr (acc @ rs)"
proof (induction rs arbitrary: acc n)
  case (Cons r rs)
  have "read_rule (n, Str r) acc = Inr (acc @ [r])"
    unfolding read_rule_Inr using Cons.prems by simp
  then show ?case using Cons by simp
qed simp

lemma rule_met_known: "rule_met d r \<Longrightarrow> r \<in> set (map vr_name RULES)"
  unfolding rule_met_def ruleOf_def
  by (auto simp: find_Some_iff split: option.splits intro!: imageI nth_mem)

lemma wf_flags: "map fst (dc_flags d) = map fst FLAGS \<Longrightarrow> \<exists>b. dc_flags d = [(js ''immutable'', b)]"
  by (auto simp: FLAGS_def map_eq_Cons_conv)

lemma wf_declaration_parts:
  assumes "wf_declaration d"
  shows "list_all reference_ok (dc_references d)" and "set (dc_rules d) \<subseteq> set (map vr_name RULES)"
    and "check_declaration d = Inr ()"
proof -
  note wf = assms [unfolded wf_declaration_def]
  show "list_all reference_ok (dc_references d)"
    using wf by (auto simp: list_all_iff reference_ok_def case_prod_unfold)
  show known: "set (dc_rules d) \<subseteq> set (map vr_name RULES)"
    using wf rule_met_known unfolding list_all_iff by blast
  have "list_all (\<lambda>e. presenceOf d (fst e) \<noteq> Some (js ''forbidden'')) (dc_references d)"
    using wf by (auto simp: list_all_iff case_prod_unfold)
  then show "check_declaration d = Inr ()"
    using wf by (simp add: check_declaration_def check_requirements_Inr [THEN iffD2]
        check_rules_Inr [OF known, THEN iffD2] check_references_Inr [THEN iffD2])
qed

lemma declaration_value_get:
  assumes "dc_flags d = [(js ''immutable'', b)]"
  shows "get (declaration_value d) ''identity'' = Str (dc_identity d)"
    "get (declaration_value d) ''shape'' = Str (dc_shape d)"
    "get (declaration_value d) ''members'' = Obj (map (\<lambda>(m, p). (m, Str p)) (dc_members d))"
    "get (declaration_value d) ''references'' = Obj (map (\<lambda>(m, rs). (m, Arr (map Str rs))) (dc_references d))"
    "get (declaration_value d) ''rules'' = Arr (map Str (dc_rules d))"
    "get (declaration_value d) ''meaning'' = Str (dc_meaning d)"
    "has_own (declaration_value d) ''references''" "has_own (declaration_value d) ''rules''"
    "read_keys (declaration_value d) = Inr ()"
    "try_fold (read_flag (declaration_value d)) FLAGS [] = Inr (dc_flags d)"
  using assms
  by (simp_all add: declaration_value_def read_keys_def declaration_keys_def FLAGS_def refuse_if_def
      read_flag_def get_at_def)

lemma readDeclaration_write:
  assumes "wf_declaration d"
  shows "readDeclaration (declaration_value d) = Inr d"
proof -
  note wf = assms [unfolded wf_declaration_def]
  obtain b where b: "dc_flags d = [(js ''immutable'', b)]" using wf wf_flags by blast
  note v = declaration_value_get [OF b]
  have o: "is_object (declaration_value d)" by (simp add: declaration_value_def)
  have ms: "read_members (Obj (map (\<lambda>(m, p). (m, Str p)) (dc_members d))) = Inr (dc_members d)"
    using write_members [of "dc_members d" "[]"] wf by (simp add: read_members_def refuse_if_def)
  have refs: "read_references (declaration_value d) = Inr (dc_references d)"
    using write_references [OF wf_declaration_parts(1) [OF assms], of "[]"]
    by (simp add: read_references_def v refuse_if_def)
  have rules: "read_rules (declaration_value d) = Inr (dc_rules d)"
    using write_rules [of "[]" "dc_rules d" 0] wf wf_declaration_parts(2) [OF assms]
    by (simp add: read_rules_def v refuse_if_def)
  have i: "read_term (Str (dc_identity d)) p IDENTITIES w = Inr (dc_identity d)"
    "read_term (Str (dc_shape d)) p SHAPES w = Inr (dc_shape d)" for p w
    using wf by (simp_all add: read_term_Inr)
  have same: "\<lparr>dc_identity = dc_identity d, dc_shape = dc_shape d, dc_members = dc_members d,
      dc_references = dc_references d, dc_rules = dc_rules d, dc_meaning = dc_meaning d,
      dc_flags = dc_flags d\<rparr> = d" by (cases d) simp
  show ?thesis
    unfolding readDeclaration_def v refs rules ms i try_then_simps Let_def to_text.simps same
    using o wf wf_declaration_parts(3) [OF assms] by (simp add: refuse_if_def)
qed

section \<open>Properties\<close>

text \<open>
  C14. \<open>readDeclaration\<close> accepts the written form of a declaration exactly when the declaration is
  well formed, and reads back the declaration itself: nothing the checks promise is weaker or
  stronger than \<open>wf_declaration\<close>, and no member, reference, rule or flag is lost or reordered.
\<close>

theorem readDeclaration_exact:
  "readDeclaration (declaration_value d) = Inr d \<longleftrightarrow> wf_declaration d"
  using readDeclaration_ok readDeclaration_write by blast

text \<open>
  A declaration \<open>readDeclaration\<close> accepts is well typed: its identity and shape are of the
  vocabulary, every listed member is a core member with a legal presence, every reference is to a
  reference member the declaration does not forbid with distinct proper roles, its rules are known,
  selected once and met by its presences, and the presences its identity and shape require are the
  ones it declares. So a table built from accepted declarations never holds an inconsistent one.
\<close>

lemma constructTable_typed:
  "list_all (\<lambda>(key, d). wf_declaration d) (constructTable ir)"
proof -
  have "list_all (\<lambda>(key, d). wf_declaration d) (fold construct_entry es table)"
    if "list_all (\<lambda>(key, d). wf_declaration d) table" for es table
    using that
  proof (induction es arbitrary: table)
    case (Cons e es)
    have "list_all (\<lambda>(key, d). wf_declaration d) (construct_entry e table)"
      using Cons.prems readDeclaration_ok by (auto simp: construct_entry_def split: sum.splits)
    then show ?case using Cons.IH by simp
  qed simp
  then show ?thesis unfolding constructTable_def by simp
qed

end
