(* ===== verification/Components.thy ===== *)
theory Components
  imports Prelude
begin

text \<open>
  \<open>components\<close> of \<open>src/src/compiler/ir/unit-graph.mjs\<close>: the strong components of a graph given by
  adjacency lists, computed with two explicit stacks (Kosaraju's algorithm). A stack is a list
  with its top at the head. Both \<open>while\<close> loops carry a fuel that \<open>components\<close> sets to the number
  of edges and nodes; \<open>components_exact\<close> shows that it never runs out.
\<close>

type_synonym graph = "nat list list"

section \<open>The algorithm\<close>

text \<open>One pass of the first loop from a root: the nodes seen and the order they finish in.\<close>

fun finish_loop ::
  "nat \<Rightarrow> graph \<Rightarrow> (nat \<times> nat) list \<Rightarrow> nat list \<Rightarrow> nat list \<Rightarrow> (nat list \<times> nat list) option" where
  "finish_loop fuel g [] visited order = Some (visited, order)"
| "finish_loop fuel g ((v, i) # stack) visited order =
     (case fuel of
        0 \<Rightarrow> None
      | Suc f \<Rightarrow>
          if i < length (g ! v) then
            let next_node = g ! v ! i
            in if next_node \<in> set visited then finish_loop f g ((v, Suc i) # stack) visited order
               else finish_loop f g ((next_node, 0) # (v, Suc i) # stack) (visited @ [next_node]) order
          else finish_loop f g stack visited (order @ [v]))"

declare finish_loop.simps(2) [simp del]

definition edge_count :: "graph \<Rightarrow> nat" where
  "edge_count g = (\<Sum>es\<leftarrow>g. Suc (length es))"

fun finish_roots :: "graph \<Rightarrow> nat list \<Rightarrow> nat list \<times> nat list \<Rightarrow> (nat list \<times> nat list) option" where
  "finish_roots g [] st = Some st"
| "finish_roots g (r # rs) (visited, order) =
     (if r \<in> set visited then finish_roots g rs (visited, order)
      else (case finish_loop (edge_count g) g [(r, 0)] (visited @ [r]) order of
          None \<Rightarrow> None
        | Some st \<Rightarrow> finish_roots g rs st))"

definition reverse_graph :: "graph \<Rightarrow> graph" where
  "reverse_graph g =
     fold (\<lambda>(source, targets) rev_g.
         fold (\<lambda>target r. r[target := r ! target @ [source]]) targets rev_g)
       (List.enumerate 0 g) (map (\<lambda>_. []) g)"

text \<open>The second loop: \<open>pending\<close> has its last element first.\<close>

definition push_unseen :: "nat list \<Rightarrow> nat list \<times> nat list \<Rightarrow> nat list \<times> nat list" where
  "push_unseen sources st =
     fold (\<lambda>s (pending, visited).
         if s \<in> set visited then (pending, visited) else (s # pending, visited @ [s])) sources st"

fun collect_loop ::
  "nat \<Rightarrow> graph \<Rightarrow> nat list \<Rightarrow> nat list \<Rightarrow> nat list \<Rightarrow> (nat list \<times> nat list) option" where
  "collect_loop fuel r [] visited members = Some (visited, members)"
| "collect_loop fuel r (node # pending) visited members =
     (case fuel of
        0 \<Rightarrow> None
      | Suc f \<Rightarrow>
          (case push_unseen (r ! node) (pending, visited) of
             (pending', visited') \<Rightarrow> collect_loop f r pending' visited' (members @ [node])))"

declare collect_loop.simps(2) [simp del]

fun collect_roots ::
  "graph \<Rightarrow> graph \<Rightarrow> nat list \<Rightarrow> nat list \<Rightarrow> nat list list \<Rightarrow> nat list list option" where
  "collect_roots g r [] visited groups = Some groups"
| "collect_roots g r (root_node # rest) visited groups =
     (if root_node \<in> set visited then collect_roots g r rest visited groups
      else (case collect_loop (length g) r [root_node] (visited @ [root_node]) [] of
          None \<Rightarrow> None
        | Some (visited', members) \<Rightarrow>
            collect_roots g r rest visited'
              (if 1 < length members \<or> root_node \<in> set (g ! root_node)
               then groups @ [sort members] else groups)))"

definition components :: "graph \<Rightarrow> nat list list option" where
  "components g =
     (case finish_roots g [0..<length g] ([], []) of
        None \<Rightarrow> None
      | Some (visited, order) \<Rightarrow> collect_roots g (reverse_graph g) (rev order) [] [])"

section \<open>The relation of a graph\<close>

definition arcs :: "graph \<Rightarrow> (nat \<times> nat) set" where
  "arcs g = {(u, v). u < length g \<and> v \<in> set (g ! u)}"

definition in_range :: "graph \<Rightarrow> bool" where
  "in_range g = list_all (list_all (\<lambda>v. v < length g)) g"

text \<open>The strong component of a node.\<close>

definition scc :: "graph \<Rightarrow> nat \<Rightarrow> nat set" where
  "scc g v = {w. (v, w) \<in> (arcs g)\<^sup>* \<and> (w, v) \<in> (arcs g)\<^sup>*}"

lemma arcs_range: "in_range g \<Longrightarrow> (u, v) \<in> arcs g \<Longrightarrow> u < length g \<and> v < length g"
  unfolding arcs_def in_range_def list_all_iff using nth_mem by fastforce

lemma reach_range: "(u, v) \<in> (arcs g)\<^sup>* \<Longrightarrow> in_range g \<Longrightarrow> u < length g \<Longrightarrow> v < length g"
  by (induction rule: rtrancl_induct) (auto dest: arcs_range)

lemma scc_refl [simp]: "v \<in> scc g v"
  by (simp add: scc_def)

lemma scc_sym: "w \<in> scc g v \<Longrightarrow> v \<in> scc g w"
  by (simp add: scc_def)

lemma scc_trans: "w \<in> scc g v \<Longrightarrow> x \<in> scc g w \<Longrightarrow> x \<in> scc g v"
  unfolding scc_def by (auto intro: rtrancl_trans)

lemma scc_eq: "w \<in> scc g v \<Longrightarrow> scc g w = scc g v"
  by (blast intro: scc_sym scc_trans)

section \<open>The first pass\<close>

subsection \<open>It ends\<close>

definition unvisited :: "graph \<Rightarrow> nat list \<Rightarrow> nat" where
  "unvisited g visited = (\<Sum>u | u < length g \<and> u \<notin> set visited. Suc (length (g ! u)))"

definition stack_left :: "graph \<Rightarrow> (nat \<times> nat) list \<Rightarrow> nat" where
  "stack_left g stack = (\<Sum>(v, i)\<leftarrow>stack. Suc (length (g ! v) - i))"

lemma unvisited_add:
  assumes "u < length g" and "u \<notin> set visited"
  shows "unvisited g visited = unvisited g (visited @ [u]) + Suc (length (g ! u))"
proof -
  have s: "{w. w < length g \<and> w \<notin> set visited} = insert u {w. w < length g \<and> w \<notin> set (visited @ [u])}"
    using assms by auto
  show ?thesis unfolding unvisited_def s by (subst sum.insert) auto
qed

lemma finish_loop_ends:
  assumes "in_range g"
  shows "stack_left g stack + unvisited g visited \<le> fuel \<Longrightarrow> fst ` set stack \<subseteq> {..<length g} \<Longrightarrow>
    \<exists>st. finish_loop fuel g stack visited order = Some st"
proof (induction fuel arbitrary: stack visited order)
  case 0
  then show ?case by (cases stack) (auto simp: stack_left_def)
next
  case (Suc f)
  show ?case
  proof (cases stack)
    case (Cons top rest)
    obtain v i where top: "top = (v, i)" by (cases top)
    have v: "v < length g" using Suc.prems(2) by (simp add: Cons top)
    show ?thesis
    proof (cases "i < length (g ! v)")
      case True
      define u where "u = g ! v ! i"
      have u: "u < length g"
        using assms v True nth_mem [OF v] nth_mem [OF True]
        unfolding in_range_def list_all_iff u_def by blast
      show ?thesis
      proof (cases "u \<in> set visited")
        case True: True
        have "stack_left g ((v, Suc i) # rest) + unvisited g visited \<le> f"
          using Suc.prems(1) \<open>i < length (g ! v)\<close> by (simp add: Cons top stack_left_def)
        then show ?thesis
          using Suc.IH [of "(v, Suc i) # rest" visited order] Suc.prems(2) True \<open>i < length (g ! v)\<close>
          by (simp add: Cons top finish_loop.simps(2) Let_def u_def)
      next
        case False
        have "stack_left g ((u, 0) # (v, Suc i) # rest) + unvisited g (visited @ [u]) \<le> f"
          using Suc.prems(1) \<open>i < length (g ! v)\<close> unvisited_add [OF u False]
          by (simp add: Cons top stack_left_def)
        then show ?thesis
          using Suc.IH [of "(u, 0) # (v, Suc i) # rest" "visited @ [u]" order] Suc.prems(2) False u
            \<open>i < length (g ! v)\<close>
          by (simp add: Cons top finish_loop.simps(2) Let_def u_def)
      qed
    next
      case False
      have "stack_left g rest + unvisited g visited \<le> f"
        using Suc.prems(1) by (simp add: Cons top stack_left_def)
      then show ?thesis
        using Suc.IH [of rest visited "order @ [v]"] Suc.prems(2) False
        by (simp add: Cons top finish_loop.simps(2))
    qed
  qed simp
qed

lemma edge_count_unvisited: "edge_count g = unvisited g []"
proof -
  have "edge_count g = (\<Sum>i = 0..<length g. Suc (length (g ! i)))"
    unfolding edge_count_def by (simp add: sum_list_sum_nth)
  also have "{0..<length g} = {u. u < length g \<and> u \<notin> set []}" by auto
  finally show ?thesis unfolding unvisited_def .
qed

lemma unvisited_le: "unvisited g visited \<le> edge_count g"
  unfolding edge_count_unvisited unvisited_def by (rule sum_mono2) auto

lemma finish_loop_root_ends:
  assumes "in_range g" and "r < length g" and "r \<notin> set visited"
  shows "\<exists>st. finish_loop (edge_count g) g [(r, 0)] (visited @ [r]) order = Some st"
  using finish_loop_ends [OF assms(1), of "[(r, 0)]" "visited @ [r]" "edge_count g" order]
    unvisited_add [OF assms(2,3)] unvisited_le [of g visited] assms(2)
  by (simp add: stack_left_def)

subsection \<open>What the finishing order knows\<close>

text \<open>
  The state of the depth-first search: the stack is a path of the graph, the successors a node has
  passed are visited, and every finished node is either in the component of a node still on the
  stack or has all it reaches finished, nothing of it later than its own component's last node.
\<close>

definition settled_in :: "graph \<Rightarrow> nat list \<Rightarrow> nat \<Rightarrow> nat \<Rightarrow> bool" where
  "settled_in g order x y \<longleftrightarrow>
     (\<exists>w p q. w \<in> scc g x \<and> p < length order \<and> q < length order \<and> order ! p = y \<and>
        order ! q = w \<and> p \<le> q)"

definition passed :: "graph \<Rightarrow> (nat \<times> nat) list \<Rightarrow> nat set \<Rightarrow> bool" where
  "passed g stack vis \<longleftrightarrow> (\<forall>v i. (v, i) \<in> set stack \<longrightarrow> set (take i (g ! v)) \<subseteq> vis)"

definition finished_ok :: "graph \<Rightarrow> (nat \<times> nat) list \<Rightarrow> nat list \<Rightarrow> bool" where
  "finished_ok g stack order \<longleftrightarrow>
     (\<forall>x\<in>set order. (\<exists>v\<in>fst ` set stack. v \<in> scc g x) \<or>
        (\<forall>y. (x, y) \<in> (arcs g)\<^sup>* \<longrightarrow> settled_in g order x y))"

definition search_state :: "graph \<Rightarrow> (nat \<times> nat) list \<Rightarrow> nat list \<Rightarrow> nat list \<Rightarrow> bool" where
  "search_state g stack visited order \<longleftrightarrow>
     set visited = fst ` set stack \<union> set order \<and>
     distinct (map fst stack @ order) \<and> set visited \<subseteq> {..<length g} \<and>
     sorted_wrt (\<lambda>a b. (b, a) \<in> (arcs g)\<^sup>*) (map fst stack) \<and>
     passed g stack (set visited) \<and> (\<Union>x\<in>set order. set (g ! x)) \<subseteq> set visited \<and>
     finished_ok g stack order"

lemma passed_mono: "passed g stack vis \<Longrightarrow> vis \<subseteq> vis' \<Longrightarrow> passed g stack vis'"
  unfolding passed_def by blast

lemma passed_Cons: "passed g ((v, i) # stack) vis \<longleftrightarrow> set (take i (g ! v)) \<subseteq> vis \<and> passed g stack vis"
  unfolding passed_def by auto

lemma passed_next:
  "i < length (g ! v) \<Longrightarrow> set (take (Suc i) (g ! v)) \<subseteq> vis \<longleftrightarrow> set (take i (g ! v)) \<subseteq> vis \<and> g ! v ! i \<in> vis"
  by (auto simp: take_Suc_conv_app_nth)

lemma finished_ok_stack:
  "finished_ok g stack order \<Longrightarrow> fst ` set stack \<subseteq> fst ` set stack' \<Longrightarrow> finished_ok g stack' order"
  unfolding finished_ok_def by blast

lemma settled_in_snoc:
  assumes "settled_in g order x y"
  shows "settled_in g (order @ [v]) x y"
proof -
  obtain w p q where "w \<in> scc g x" "p < length order" "q < length order" "order ! p = y" "order ! q = w" "p \<le> q"
    using assms unfolding settled_in_def by blast
  then show ?thesis
    unfolding settled_in_def
    by (intro exI [of _ w] exI [of _ p] exI [of _ q]) (simp add: nth_append)
qed

lemma settled_in_mem: "settled_in g order x y \<Longrightarrow> y \<in> set order"
  unfolding settled_in_def by auto

lemma settled_in_last: "y \<in> set (order @ [v]) \<Longrightarrow> v \<in> scc g x \<Longrightarrow> settled_in g (order @ [v]) x y"
proof -
  assume y: "y \<in> set (order @ [v])" and v: "v \<in> scc g x"
  obtain p where "p < length (order @ [v])" "(order @ [v]) ! p = y"
    using y by (meson in_set_conv_nth)
  then show ?thesis
    unfolding settled_in_def using v
    by (intro exI [of _ v] exI [of _ p] exI [of _ "length order"]) auto
qed

text \<open>The node just popped: unless a node below it is in its component, all it reaches is finished.\<close>

lemma popped_settled:
  assumes st: "search_state g ((v, i) # stack) visited order" and i: "length (g ! v) \<le> i"
    and below: "fst ` set stack \<inter> scc g v = {}" and y: "(v, y) \<in> (arcs g)\<^sup>*"
  shows "y \<in> set (order @ [v])"
  using y
proof (induction rule: rtrancl_induct)
  case (step y z)
  have s: "set visited = insert v (fst ` set stack \<union> set order)"
    "set (take i (g ! v)) \<subseteq> set visited" "(\<Union>x\<in>set order. set (g ! x)) \<subseteq> set visited"
    "\<And>u. u \<in> fst ` set stack \<Longrightarrow> (u, v) \<in> (arcs g)\<^sup>*"
    using st by (auto simp: search_state_def passed_Cons)
  have vz: "(v, z) \<in> (arcs g)\<^sup>*" using step.hyps by auto
  have vis: "z \<in> set visited"
  proof (cases "y = v")
    case True
    then show ?thesis using step.hyps(2) i s(2) by (auto simp: arcs_def)
  next
    case False
    then have "y \<in> set order" using step.IH by simp
    then show ?thesis using s(3) step.hyps(2) by (auto simp: arcs_def)
  qed
  have "z \<notin> fst ` set stack"
    using s(4) vz below by (auto simp: scc_def)
  then show ?case using vis s(1) by auto
qed simp

lemma finished_ok_pop:
  assumes st: "search_state g ((v, i) # stack) visited order" and i: "length (g ! v) \<le> i"
  shows "finished_ok g stack (order @ [v])"
proof -
  have v_ok: "(\<exists>u\<in>fst ` set stack. u \<in> scc g x) \<or>
      (\<forall>y. (x, y) \<in> (arcs g)\<^sup>* \<longrightarrow> settled_in g (order @ [v]) x y)" if x: "v \<in> scc g x" for x
  proof (cases "fst ` set stack \<inter> scc g v = {}")
    case False
    then show ?thesis using x scc_trans by blast
  next
    case True
    have "settled_in g (order @ [v]) x y" if "(x, y) \<in> (arcs g)\<^sup>*" for y
    proof (rule settled_in_last [OF _ x])
      have "(v, y) \<in> (arcs g)\<^sup>*" using that x by (auto simp: scc_def)
      then show "y \<in> set (order @ [v])" by (rule popped_settled [OF st i True])
    qed
    then show ?thesis by blast
  qed
  have f: "finished_ok g ((v, i) # stack) order" using st by (simp add: search_state_def)
  have "(\<exists>u\<in>fst ` set stack. u \<in> scc g x) \<or>
      (\<forall>y. (x, y) \<in> (arcs g)\<^sup>* \<longrightarrow> settled_in g (order @ [v]) x y)" if x: "x \<in> set (order @ [v])" for x
  proof (cases "v \<in> scc g x")
    case False
    then have "x \<in> set order" using x by auto
    then have "(\<exists>u\<in>fst ` set stack. u \<in> scc g x) \<or>
        (\<forall>y. (x, y) \<in> (arcs g)\<^sup>* \<longrightarrow> settled_in g order x y)"
      using f False unfolding finished_ok_def by fastforce
    then show ?thesis using settled_in_snoc by blast
  qed (rule v_ok)
  then show ?thesis unfolding finished_ok_def by blast
qed

lemma search_state_pop:
  assumes st: "search_state g ((v, i) # stack) visited order" and i: "length (g ! v) \<le> i"
  shows "search_state g stack visited (order @ [v])"
proof -
  have "set (g ! v) \<subseteq> set visited" using st i by (auto simp: search_state_def passed_Cons)
  then show ?thesis
    using st finished_ok_pop [OF assms] unfolding search_state_def passed_Cons by (elim conjE) simp
qed

lemma search_state_skip:
  "search_state g ((v, i) # stack) visited order \<Longrightarrow> i < length (g ! v) \<Longrightarrow> g ! v ! i \<in> set visited \<Longrightarrow>
    search_state g ((v, Suc i) # stack) visited order"
  unfolding search_state_def passed_Cons by (elim conjE) (simp add: passed_next finished_ok_def)

lemma search_state_push:
  assumes st: "search_state g ((v, i) # stack) visited order" and i: "i < length (g ! v)"
    and u: "g ! v ! i \<notin> set visited" and r: "in_range g"
  shows "search_state g ((g ! v ! i, 0) # (v, Suc i) # stack) (visited @ [g ! v ! i]) order"
proof -
  have s: "set visited = fst ` set ((v, i) # stack) \<union> set order"
    "distinct (map fst ((v, i) # stack) @ order)" "set visited \<subseteq> {..<length g}"
    "sorted_wrt (\<lambda>a b. (b, a) \<in> (arcs g)\<^sup>*) (map fst ((v, i) # stack))"
    "set (take i (g ! v)) \<subseteq> set visited" "passed g stack (set visited)"
    "(\<Union>x\<in>set order. set (g ! x)) \<subseteq> set visited" "finished_ok g ((v, i) # stack) order"
    using st unfolding search_state_def passed_Cons by blast+
  have v: "v < length g" using s(1,3) by auto
  have e: "(v, g ! v ! i) \<in> arcs g" using v i by (simp add: arcs_def)
  then have l: "g ! v ! i < length g" using arcs_range [OF r] by blast
  have path: "(w, g ! v ! i) \<in> (arcs g)\<^sup>*" if "w = v \<or> w \<in> fst ` set stack" for w
  proof -
    have "(w, v) \<in> (arcs g)\<^sup>*" using that s(4) by auto
    then show ?thesis using e by auto
  qed
  show ?thesis
    unfolding search_state_def
  proof (intro conjI)
    show "set (visited @ [g ! v ! i]) = fst ` set ((g ! v ! i, 0) # (v, Suc i) # stack) \<union> set order"
      using s(1) by auto
    show "distinct (map fst ((g ! v ! i, 0) # (v, Suc i) # stack) @ order)"
      using s(2) u s(1) by auto
    show "set (visited @ [g ! v ! i]) \<subseteq> {..<length g}" using s(3) l by simp
    show "sorted_wrt (\<lambda>a b. (b, a) \<in> (arcs g)\<^sup>*) (map fst ((g ! v ! i, 0) # (v, Suc i) # stack))"
      using s(4) path by auto
    have "passed g stack (set (visited @ [g ! v ! i]))" by (rule passed_mono [OF s(6)]) auto
    moreover have "set (take (Suc i) (g ! v)) \<subseteq> set (visited @ [g ! v ! i])"
      using s(5) unfolding passed_next [OF i] by auto
    ultimately show "passed g ((g ! v ! i, 0) # (v, Suc i) # stack) (set (visited @ [g ! v ! i]))"
      by (simp add: passed_Cons)
    show "(\<Union>x\<in>set order. set (g ! x)) \<subseteq> set (visited @ [g ! v ! i])" using s(7) by auto
    show "finished_ok g ((g ! v ! i, 0) # (v, Suc i) # stack) order"
      by (rule finished_ok_stack [OF s(8)]) auto
  qed
qed

lemma finish_loop_state:
  "finish_loop fuel g stack visited order = Some (visited', order') \<Longrightarrow> in_range g \<Longrightarrow>
    search_state g stack visited order \<Longrightarrow>
    search_state g [] visited' order' \<and> set visited \<subseteq> set visited'"
proof (induction fuel g stack visited order rule: finish_loop.induct)
  case (2 fuel g v i stack visited order)
  then obtain f where f: "fuel = Suc f" by (cases fuel) (auto simp: finish_loop.simps)
  show ?case
  proof (cases "i < length (g ! v)")
    case True
    then show ?thesis
      using 2 f search_state_skip [OF "2.prems"(3) True] search_state_push [OF "2.prems"(3) True _ "2.prems"(2)]
      by (auto simp: finish_loop.simps Let_def split: if_splits)
  next
    case False
    then show ?thesis
      using 2 f search_state_pop [OF "2.prems"(3)] by (auto simp: finish_loop.simps)
  qed
qed simp

subsection \<open>The whole first pass\<close>

lemma search_state_root:
  assumes "search_state g [] visited order" and "r < length g" and "r \<notin> set visited"
  shows "search_state g [(r, 0)] (visited @ [r]) order"
  using assms unfolding search_state_def finished_ok_def passed_def by auto

lemma finish_roots_state:
  "in_range g \<Longrightarrow> search_state g [] visited order \<Longrightarrow> set rs \<subseteq> {..<length g} \<Longrightarrow>
    \<exists>visited' order'. finish_roots g rs (visited, order) = Some (visited', order') \<and>
      search_state g [] visited' order' \<and> set rs \<union> set visited \<subseteq> set visited'"
proof (induction rs arbitrary: visited order)
  case (Cons r rs)
  show ?case
  proof (cases "r \<in> set visited")
    case True
    then show ?thesis using Cons.IH [OF Cons.prems(1,2)] Cons.prems(3) by auto
  next
    case False
    have r: "r < length g" using Cons.prems(3) by simp
    obtain v1 o1 where l: "finish_loop (edge_count g) g [(r, 0)] (visited @ [r]) order = Some (v1, o1)"
      using finish_loop_root_ends [OF Cons.prems(1) r False] by fastforce
    have st: "search_state g [] v1 o1 \<and> set (visited @ [r]) \<subseteq> set v1"
      by (rule finish_loop_state [OF l Cons.prems(1) search_state_root [OF Cons.prems(2) r False]])
    then obtain v2 o2 where "finish_roots g rs (v1, o1) = Some (v2, o2)" "search_state g [] v2 o2"
      "set rs \<union> set v1 \<subseteq> set v2"
      using Cons.IH [OF Cons.prems(1)] Cons.prems(3) by force
    then show ?thesis using st False by (auto simp: l)
  qed
qed auto

lemma finish_order:
  assumes "in_range g"
  obtains visited order where "finish_roots g [0..<length g] ([], []) = Some (visited, order)"
    "set order = {..<length g}" "distinct order"
    "\<And>x y. x < length g \<Longrightarrow> (x, y) \<in> (arcs g)\<^sup>* \<Longrightarrow> settled_in g order x y"
proof -
  have "search_state g [] [] []" by (simp add: search_state_def passed_def finished_ok_def)
  then obtain visited order where f: "finish_roots g [0..<length g] ([], []) = Some (visited, order)"
    and s: "search_state g [] visited order" and v: "set [0..<length g] \<union> set [] \<subseteq> set visited"
    using finish_roots_state [OF assms, of "[]" "[]" "[0..<length g]"] by (auto simp: atLeast0LessThan)
  have o: "set order = {..<length g}" "distinct order"
    using s v unfolding search_state_def by auto
  have "settled_in g order x y" if "x < length g" "(x, y) \<in> (arcs g)\<^sup>*" for x y
    using s that o unfolding search_state_def finished_ok_def by auto
  with f o show ?thesis by (rule that)
qed

section \<open>The second pass\<close>

lemma fold_append_at:
  "length (fold (\<lambda>t r. r[t := r ! t @ [u]]) ts r) = length r"
  "list_all (\<lambda>t. t < length r) ts \<Longrightarrow> v < length r \<Longrightarrow>
    set (fold (\<lambda>t r. r[t := r ! t @ [u]]) ts r ! v) = set (r ! v) \<union> (if v \<in> set ts then {u} else {})"
  by (induction ts arbitrary: r) (auto simp: nth_list_update)

lemma reverse_step:
  "list_all (\<lambda>(u, ts). list_all (\<lambda>t. t < length r) ts) ps \<Longrightarrow>
    length (fold (\<lambda>(source, targets) rg. fold (\<lambda>t r. r[t := r ! t @ [source]]) targets rg) ps r) = length r \<and>
    (\<forall>v<length r. set (fold (\<lambda>(source, targets) rg. fold (\<lambda>t r. r[t := r ! t @ [source]]) targets rg) ps r ! v) =
      set (r ! v) \<union> {u. \<exists>ts. (u, ts) \<in> set ps \<and> v \<in> set ts})"
proof (induction ps arbitrary: r)
  case (Cons p ps)
  obtain u ts where p: "p = (u, ts)" by (cases p)
  let ?r = "fold (\<lambda>t r. r[t := r ! t @ [u]]) ts r"
  have l: "length ?r = length r" by (rule fold_append_at)
  have "list_all (\<lambda>(u, ts). list_all (\<lambda>t. t < length ?r) ts) ps" using Cons.prems by (simp add: l)
  note IH = Cons.IH [OF this]
  have "set (?r ! v) = set (r ! v) \<union> (if v \<in> set ts then {u} else {})" if "v < length r" for v
    using fold_append_at(2) [of r ts v u] Cons.prems that by (simp add: p)
  then show ?case using IH by (auto simp: p l)
qed simp

lemma reverse_graph_length [simp]: "in_range g \<Longrightarrow> length (reverse_graph g) = length g"
  and reverse_graph_nth: "in_range g \<Longrightarrow> v < length g \<Longrightarrow> set (reverse_graph g ! v) = {u. (u, v) \<in> arcs g}"
proof -
  have r: "list_all (\<lambda>(u, ts). list_all (\<lambda>t. t < length (map (\<lambda>_. [] :: nat list) g)) ts) (List.enumerate 0 g)"
    if "in_range g"
    using that by (auto simp: in_range_def list_all_iff in_set_enumerate_eq)
  show "in_range g \<Longrightarrow> length (reverse_graph g) = length g"
    using reverse_step [OF r] by (simp add: reverse_graph_def)
  show "in_range g \<Longrightarrow> v < length g \<Longrightarrow> set (reverse_graph g ! v) = {u. (u, v) \<in> arcs g}"
    using reverse_step [OF r]
    by (simp add: reverse_graph_def) (auto simp: arcs_def in_set_enumerate_eq)
qed

lemma push_unseen_new:
  "\<exists>fresh. push_unseen ss (pending, visited) = (rev fresh @ pending, visited @ fresh) \<and>
    distinct fresh \<and> set fresh = set ss - set visited"
proof (induction ss arbitrary: pending visited)
  case (Cons x ss)
  show ?case
  proof (cases "x \<in> set visited")
    case True
    then show ?thesis using Cons.IH [of pending visited] by (auto simp: push_unseen_def)
  next
    case False
    obtain fresh where "push_unseen ss (x # pending, visited @ [x]) =
        (rev fresh @ x # pending, (visited @ [x]) @ fresh)"
      "distinct fresh" "set fresh = set ss - set (visited @ [x])"
      using Cons.IH [of "x # pending" "visited @ [x]"] by blast
    then show ?thesis using False
      by (intro exI [of _ "x # fresh"]) (auto simp: push_unseen_def)
  qed
qed (simp add: push_unseen_def)

text \<open>The state of the collection from \<open>root\<close>, \<open>V0\<close> being what was visited before it.\<close>

definition collect_state ::
  "graph \<Rightarrow> nat set \<Rightarrow> nat \<Rightarrow> nat list \<Rightarrow> nat list \<Rightarrow> nat list \<Rightarrow> bool" where
  "collect_state g V0 r pending visited members \<longleftrightarrow>
     set visited = V0 \<union> set (pending @ members) \<and> distinct (pending @ members) \<and>
     V0 \<inter> set (pending @ members) = {} \<and> r \<in> set (pending @ members) \<and>
     (\<forall>x\<in>set (pending @ members). x < length g \<and> (x, r) \<in> (arcs g)\<^sup>*) \<and>
     (\<forall>y\<in>set members. \<forall>x. (x, y) \<in> arcs g \<longrightarrow> x \<in> set visited)"

lemma collect_step:
  assumes "in_range g" and st: "collect_state g V0 r (node # pending) visited members"
    and p: "push_unseen (reverse_graph g ! node) (pending, visited) = (pending', visited')"
  shows "collect_state g V0 r pending' visited' (members @ [node]) \<and>
    (\<exists>fresh. pending' = rev fresh @ pending \<and> visited' = visited @ fresh \<and> distinct fresh \<and>
      set fresh \<inter> set visited = {} \<and> set fresh \<subseteq> {..<length g})"
proof -
  have n: "node < length g" "(node, r) \<in> (arcs g)\<^sup>*" using st by (simp_all add: collect_state_def)
  obtain fresh where f: "pending' = rev fresh @ pending" "visited' = visited @ fresh" "distinct fresh"
    "set fresh = {u. (u, node) \<in> arcs g} - set visited"
    using push_unseen_new [of "reverse_graph g ! node" pending visited] p
      reverse_graph_nth [OF assms(1) n(1)] by auto
  have r: "x < length g \<and> (x, r) \<in> (arcs g)\<^sup>*" if "x \<in> set fresh" for x
    using that f(4) arcs_range [OF assms(1)] n(2) by (auto intro: converse_rtrancl_into_rtrancl)
  have "collect_state g V0 r pending' visited' (members @ [node])"
    using st f r unfolding collect_state_def by auto
  then show ?thesis using f r by auto
qed

definition unseen_count :: "graph \<Rightarrow> nat list \<Rightarrow> nat" where
  "unseen_count g visited = card ({..<length g} - set visited)"

lemma unseen_fresh:
  "distinct fresh \<Longrightarrow> set fresh \<inter> set visited = {} \<Longrightarrow> set fresh \<subseteq> {..<length g} \<Longrightarrow>
    unseen_count g (visited @ fresh) + length fresh = unseen_count g visited"
proof -
  assume d: "distinct fresh" "set fresh \<inter> set visited = {}" "set fresh \<subseteq> {..<length g}"
  have "{..<length g} - set visited = ({..<length g} - set (visited @ fresh)) \<union> set fresh"
    using d(2,3) by auto
  moreover have "card (({..<length g} - set (visited @ fresh)) \<union> set fresh) =
      card ({..<length g} - set (visited @ fresh)) + card (set fresh)"
    by (rule card_Un_disjoint) auto
  ultimately show ?thesis using distinct_card [OF d(1)] by (simp add: unseen_count_def)
qed

lemma collect_loop_ends:
  "in_range g \<Longrightarrow> collect_state g V0 r pending visited members \<Longrightarrow>
    length pending + unseen_count g visited \<le> fuel \<Longrightarrow>
    \<exists>visited' members'. collect_loop fuel (reverse_graph g) pending visited members = Some (visited', members') \<and>
      collect_state g V0 r [] visited' members'"
proof (induction fuel arbitrary: pending visited members)
  case 0
  then show ?case by (cases pending) simp_all
next
  case (Suc f)
  show ?case
  proof (cases pending)
    case (Cons node rest)
    obtain p' v' where p: "push_unseen (reverse_graph g ! node) (rest, visited) = (p', v')"
      by fastforce
    note step = collect_step [OF Suc.prems(1) Suc.prems(2) [unfolded Cons] p]
    then obtain fresh where "p' = rev fresh @ rest" "v' = visited @ fresh" "distinct fresh"
      "set fresh \<inter> set visited = {}" "set fresh \<subseteq> {..<length g}" by blast
    then have "length p' + unseen_count g v' \<le> f"
      using unseen_fresh [of fresh visited g] Suc.prems(3) by (simp add: Cons)
    then show ?thesis
      using Suc.IH [OF Suc.prems(1) conjunct1 [OF step]] by (simp add: Cons collect_loop.simps(2) p)
  qed (use Suc.prems in simp)
qed

text \<open>
  What is collected from the latest finished node not yet visited: its strong component. \<open>done\<close>
  are the roots before it, the later finished nodes.
\<close>

lemma collected_component:
  assumes g: "in_range g" and c: "collect_state g V0 r [] visited members"
    and closed: "\<And>x. x \<in> V0 \<Longrightarrow> scc g x \<subseteq> V0"
    and last: "\<And>x. (x, r) \<in> (arcs g)\<^sup>* \<Longrightarrow> x < length g \<Longrightarrow> x \<notin> V0 \<Longrightarrow> r \<in> scc g x"
  shows "set members = scc g r"
proof
  have m: "set visited = V0 \<union> set members" "V0 \<inter> set members = {}" "r \<in> set members"
    "\<And>x. x \<in> set members \<Longrightarrow> x < length g \<and> (x, r) \<in> (arcs g)\<^sup>*"
    "\<And>x y. y \<in> set members \<Longrightarrow> (x, y) \<in> arcs g \<Longrightarrow> x \<in> set visited"
    using c unfolding collect_state_def by auto
  show "set members \<subseteq> scc g r"
    using m(2,4) last scc_sym by blast
  have "x \<in> set members" if "(x, r) \<in> (arcs g)\<^sup>*" "(r, x) \<in> (arcs g)\<^sup>*" for x
    using that
  proof (induction rule: converse_rtrancl_induct)
    case (step x y)
    have "(r, y) \<in> (arcs g)\<^sup>*" using step.hyps(1) step.prems by auto
    then have y: "y \<in> set members" by (rule step.IH)
    have "x \<in> scc g r" using step by (auto simp: scc_def intro: converse_rtrancl_into_rtrancl)
    then have "x \<notin> V0" using closed [of x] scc_sym m(2,3) by blast
    then show ?case using m(5) [OF y step.hyps(1)] m(1) by blast
  qed (rule m(3))
  then show "scc g r \<subseteq> set members" by (auto simp: scc_def)
qed

lemma cyclic_root:
  assumes "set members = scc g r" and "distinct members" and "r < length g"
  shows "1 < length members \<or> r \<in> set (g ! r) \<longleftrightarrow> (r, r) \<in> (arcs g)\<^sup>+"
proof
  assume "1 < length members \<or> r \<in> set (g ! r)"
  then show "(r, r) \<in> (arcs g)\<^sup>+"
  proof
    assume "1 < length members"
    then have "1 < card (scc g r)" using assms distinct_card by metis
    then obtain w where w: "w \<in> scc g r" "w \<noteq> r"
      by (metis card_1_singleton_iff is_singletonI' is_singleton_altdef less_irrefl
          card.empty empty_iff not_less_zero One_nat_def)
    then have "(r, w) \<in> (arcs g)\<^sup>+" by (auto simp: scc_def rtrancl_eq_or_trancl)
    then show ?thesis using w(1) by (auto simp: scc_def)
  next
    assume "r \<in> set (g ! r)"
    then show ?thesis using assms(3) by (auto simp: arcs_def)
  qed
next
  assume "(r, r) \<in> (arcs g)\<^sup>+"
  then obtain w where w: "(r, w) \<in> arcs g" "(w, r) \<in> (arcs g)\<^sup>*"
    by (meson tranclD)
  show "1 < length members \<or> r \<in> set (g ! r)"
  proof (cases "w = r")
    case True
    then show ?thesis using w(1) by (simp add: arcs_def)
  next
    case False
    have "w \<in> set members" using w assms(1) by (auto simp: scc_def)
    moreover have "r \<in> set members" using assms(1) by simp
    ultimately have "card {r, w} \<le> card (set members)" by (intro card_mono) auto
    then show ?thesis using False assms(2) distinct_card by fastforce
  qed
qed

definition cyclic_components :: "graph \<Rightarrow> nat set \<Rightarrow> nat set set" where
  "cyclic_components g nodes = {scc g v | v. v \<in> nodes \<and> (v, v) \<in> (arcs g)\<^sup>+}"

lemma scc_cyclic: "w \<in> scc g v \<Longrightarrow> (v, v) \<in> (arcs g)\<^sup>+ \<Longrightarrow> (w, w) \<in> (arcs g)\<^sup>+"
  by (auto simp: scc_def)

lemma cyclic_components_scc:
  "cyclic_components g (V \<union> scc g r) =
    (if (r, r) \<in> (arcs g)\<^sup>+ then insert (scc g r) (cyclic_components g V) else cyclic_components g V)"
proof -
  have "cyclic_components g (scc g r) = (if (r, r) \<in> (arcs g)\<^sup>+ then {scc g r} else {})"
  proof (cases "(r, r) \<in> (arcs g)\<^sup>+")
    case True
    have "cyclic_components g (scc g r) = (\<lambda>v. scc g v) ` scc g r"
      using scc_cyclic [OF _ True] unfolding cyclic_components_def by blast
    also have "\<dots> = (\<lambda>v. scc g r) ` scc g r" by (rule image_cong [OF refl scc_eq])
    also have "\<dots> = {scc g r}" using scc_refl [of r g] by blast
    finally show ?thesis using True by simp
  next
    case False
    then have "(v, v) \<notin> (arcs g)\<^sup>+" if "v \<in> scc g r" for v
      using that scc_cyclic scc_sym by blast
    then show ?thesis using False unfolding cyclic_components_def by simp
  qed
  moreover have "cyclic_components g (V \<union> scc g r) = cyclic_components g V \<union> cyclic_components g (scc g r)"
    unfolding cyclic_components_def by blast
  ultimately show ?thesis by simp
qed

definition groups_state :: "graph \<Rightarrow> nat set \<Rightarrow> nat list list \<Rightarrow> bool" where
  "groups_state g nodes groups \<longleftrightarrow>
     set ` set groups = cyclic_components g nodes \<and> distinct (map set groups) \<and>
     list_all (\<lambda>c. sorted c \<and> distinct c) groups"

lemma collect_roots_right:
  assumes g: "in_range g" and o: "set order = {..<length g}" "distinct order"
    and k: "\<And>x y. x < length g \<Longrightarrow> (x, y) \<in> (arcs g)\<^sup>* \<Longrightarrow> settled_in g order x y"
  shows "order = rev (later @ rs) \<Longrightarrow> set later \<subseteq> set visited \<Longrightarrow> set visited \<subseteq> {..<length g} \<Longrightarrow>
    (\<And>x. x \<in> set visited \<Longrightarrow> scc g x \<subseteq> set visited) \<Longrightarrow> groups_state g (set visited) groups \<Longrightarrow>
    \<exists>groups'. collect_roots g (reverse_graph g) rs visited groups = Some groups' \<and>
      groups_state g {..<length g} groups'"
proof (induction rs arbitrary: later visited groups)
  case Nil
  then have "set visited = {..<length g}" using o(1) by auto
  then show ?case using Nil by simp
next
  case (Cons r rs)
  have later: "order = rev ((later @ [r]) @ rs)" using Cons.prems(1) by simp
  show ?case
  proof (cases "r \<in> set visited")
    case True
    have "set (later @ [r]) \<subseteq> set visited" using True Cons.prems(2) by simp
    then show ?thesis using Cons.IH [OF later _ Cons.prems(3-5)] True by simp
  next
    case False
    have r: "r < length g" using o(1) Cons.prems(1) by auto
    have "collect_state g (set visited) r [r] (visited @ [r]) []"
      using False r by (simp add: collect_state_def)
    moreover have "unseen_count g (visited @ [r]) < length g"
      unfolding unseen_count_def using r by (intro order.strict_trans2 [OF psubset_card_mono [of "{..<length g}"]]) auto
    ultimately obtain v' ms where l: "collect_loop (length g) (reverse_graph g) [r] (visited @ [r]) [] = Some (v', ms)"
      and c: "collect_state g (set visited) r [] v' ms"
      using collect_loop_ends [OF g, of "set visited" r "[r]" "visited @ [r]" "[]" "length g"] by auto
    have "r \<in> scc g x" if x: "(x, r) \<in> (arcs g)\<^sup>*" "x < length g" "x \<notin> set visited" for x
    proof -
      obtain w p q where w: "w \<in> scc g x" "p < length order" "q < length order" "order ! p = r"
        "order ! q = w" "p \<le> q" using k [OF x(2,1)] unfolding settled_in_def by blast
      have "order ! length rs = r" using Cons.prems(1) by (simp add: nth_append)
      then have pr: "p = length rs"
        using w(2,4) o(2) Cons.prems(1) by (metis distinct_conv_nth length_append length_rev
            length_Cons less_add_Suc1 add.commute add_Suc_right)
      have "w = r \<or> w \<in> set later"
      proof (cases "q = p")
        case False
        then have "length rs < q" using w(6) pr by simp
        then have "order ! q = rev later ! (q - Suc (length rs))" "q - Suc (length rs) < length later"
          using w(3) Cons.prems(1) by (simp_all add: nth_append)
        then show ?thesis using w(5) nth_mem [of "q - Suc (length rs)" "rev later"] by auto
      qed (use w in simp)
      moreover have "w \<notin> set visited"
        using Cons.prems(4) [of w] scc_sym [OF w(1)] x(3) by blast
      ultimately show ?thesis using w(1) Cons.prems(2) by blast
    qed
    then have m: "set ms = scc g r"
      using collected_component [OF g c] Cons.prems(4) by blast
    have v': "set v' = set visited \<union> scc g r" "distinct ms" "set visited \<inter> scc g r = {}" "scc g r \<subseteq> {..<length g}"
      using c m unfolding collect_state_def by auto
    define groups1 where "groups1 = (if 1 < length ms \<or> r \<in> set (g ! r) then groups @ [sort ms] else groups)"
    have "scc g r \<notin> cyclic_components g (set visited)"
      using v'(3) Cons.prems(4) unfolding cyclic_components_def by (auto dest: scc_eq)
    then have "groups_state g (set v') groups1"
      using Cons.prems(5) v' cyclic_root [OF m v'(2) r] m
      unfolding groups_state_def groups1_def cyclic_components_scc v'(1) by auto
    moreover have "set (later @ [r]) \<subseteq> set v'" using Cons.prems(2) v'(1) by auto
    moreover have "set v' \<subseteq> {..<length g}" using Cons.prems(3) v' by auto
    moreover have "scc g x \<subseteq> set v'" if "x \<in> set v'" for x
      using that Cons.prems(4) v'(1) scc_eq by blast
    ultimately obtain groups' where "collect_roots g (reverse_graph g) rs v' groups1 = Some groups'"
      "groups_state g {..<length g} groups'"
      using Cons.IH [OF later] by blast
    then show ?thesis using False by (simp add: l groups1_def)
  qed
qed

section \<open>Properties\<close>

text \<open>
  C13. \<open>components\<close> ends on every graph whose edges stay in the graph, and its result is exactly the
  strong components that hold a cycle, each once and each as a sorted list of its nodes: a node
  on no cycle is in no group, and a cycle of any length or a self-loop is found.
\<close>

theorem components_exact:
  assumes "in_range g"
  shows "\<exists>groups. components g = Some groups \<and>
    set ` set groups = {scc g v | v. v < length g \<and> (v, v) \<in> (arcs g)\<^sup>+} \<and>
    distinct (map set groups) \<and> list_all (\<lambda>c. sorted c \<and> distinct c) groups"
proof -
  obtain visited order where f: "finish_roots g [0..<length g] ([], []) = Some (visited, order)"
    and o: "set order = {..<length g}" "distinct order"
    and k: "\<And>x y. x < length g \<Longrightarrow> (x, y) \<in> (arcs g)\<^sup>* \<Longrightarrow> settled_in g order x y"
    using finish_order [OF assms] by blast
  have "groups_state g (set []) []" by (simp add: groups_state_def cyclic_components_def)
  then obtain groups where "collect_roots g (reverse_graph g) (rev order) [] [] = Some groups"
    "groups_state g {..<length g} groups"
    using collect_roots_right [OF assms o k, of "[]" "rev order" "[]" "[]"] by auto
  then show ?thesis
    using f by (auto simp: components_def groups_state_def cyclic_components_def)
qed

theorem components_exact_witness:
  "components [[1], [0], [2], [0]] = Some [[2], [0, 1]] \<and>
   (\<exists>groups. components [[1], [0], [2], [0]] = Some groups \<and>
    set ` set groups = {scc [[1], [0], [2], [0]] v | v. v < length ([[1], [0], [2], [0]] :: graph) \<and>
      (v, v) \<in> (arcs [[1], [0], [2], [0]])\<^sup>+} \<and>
    distinct (map set groups) \<and> list_all (\<lambda>c. sorted c \<and> distinct c) groups)"
  by (rule conjI [OF _ components_exact]) (code_simp, simp add: in_range_def)

end
