(* ===== verification/Operands.thy ===== *)
theory Operands
  imports JsVal
begin

text \<open>
  The exact numeric texts of the IR: the canonical \<open>i128\<close> integers and rationals of
  \<open>src/src/compiler/ir/unit-graph.mjs\<close> (\<open>integer\<close>, \<open>rational\<close>, \<open>rationalOperand\<close>) and the operand
  and default value checks at the end of \<open>src/src/compiler/ir/reader.mjs\<close>. A \<open>BigInt\<close> is an
  \<open>int\<close>; the result objects \<open>{ value }\<close>, \<open>{ invalid }\<close> and \<open>{ outside }\<close> are the constructors of
  \<open>operand\<close>.
\<close>

datatype operand = OpValue int | OpInvalid | OpOutside

definition I128_MIN :: int where
  "I128_MIN = - (2 ^ 127)"

definition I128_MAX :: int where
  "I128_MAX = 2 ^ 127 - 1"

section \<open>Canonical integers\<close>

text \<open>\<open>[1-9][0-9]*\<close>, and the expression \<open>0|-?[1-9][0-9]*\<close> on a whole text.\<close>

definition positive_digits :: "jsstr \<Rightarrow> bool" where
  "positive_digits s \<longleftrightarrow> s \<noteq> [] \<and> list_all is_digit_unit s \<and> hd s \<noteq> 48"

definition unsigned_part :: "jsstr \<Rightarrow> jsstr" where
  "unsigned_part s = (if starts_with s (js ''-'') then drop 1 s else s)"

definition canonical_integer :: "jsstr \<Rightarrow> bool" where
  "canonical_integer s \<longleftrightarrow> s = js ''0'' \<or> positive_digits (unsigned_part s)"

text \<open>\<open>BigInt(text)\<close> on a canonical text.\<close>

definition big_int :: "jsstr \<Rightarrow> int" where
  "big_int s =
     (if starts_with s (js ''-'') then - int_of_digits (unsigned_part s) else int_of_digits s)"

definition integer_operand :: "jsval \<Rightarrow> operand" where
  "integer_operand v =
     (case v of
        Str s \<Rightarrow>
          if \<not> canonical_integer s then OpInvalid
          else if 40 < length s then OpOutside
          else if big_int s < I128_MIN \<or> I128_MAX < big_int s then OpOutside
          else OpValue (big_int s)
      | _ \<Rightarrow> OpInvalid)"

section \<open>Canonical rationals\<close>

text \<open>The loop of \<open>rational\<close>: Euclid's algorithm on non-negative numbers.\<close>

function euclid :: "int \<Rightarrow> int \<Rightarrow> int" where
  "euclid a b = (if b \<le> 0 then a else euclid b (a mod b))"
  by pat_completeness auto
termination
  by (relation "measure (\<lambda>(a, b). nat b)") auto

declare euclid.simps [simp del]

definition rationalOperand :: "jsval \<Rightarrow> operand" where
  "rationalOperand v =
     (case v of
        Str s \<Rightarrow>
          (case split_at 47 s of
             [p] \<Rightarrow> integer_operand (Str s)
           | [p, q] \<Rightarrow>
               (case (integer_operand (Str p), integer_operand (Str q)) of
                  (OpOutside, _) \<Rightarrow> OpOutside
                | (_, OpOutside) \<Rightarrow> OpOutside
                | (OpValue n, OpValue d) \<Rightarrow>
                    if n = 0 \<or> d < 2 then OpInvalid
                    else if euclid \<bar>n\<bar> d = 1 then OpValue n else OpInvalid
                | _ \<Rightarrow> OpInvalid)
           | _ \<Rightarrow> OpInvalid)
      | _ \<Rightarrow> OpInvalid)"

section \<open>Operand and default value checks\<close>

text \<open>\<open>withinI128\<close>, which the code asks of canonical texts only.\<close>

definition withinI128 :: "jsstr \<Rightarrow> bool" where
  "withinI128 s \<longleftrightarrow> I128_MIN \<le> big_int s \<and> big_int s \<le> I128_MAX"

definition integerAdmitted :: "jsval \<Rightarrow> bool" where
  "integerAdmitted v = (case v of Str s \<Rightarrow> canonical_integer s \<and> withinI128 s | _ \<Rightarrow> False)"

text \<open>\<open>0|-?(0\.[0-9]*[1-9]|[1-9][0-9]*(\.[0-9]*[1-9])?)\<close> on a whole text.\<close>

definition fraction_digits :: "jsstr \<Rightarrow> bool" where
  "fraction_digits f \<longleftrightarrow> f \<noteq> [] \<and> list_all is_digit_unit f \<and> last f \<noteq> 48"

definition canonical_decimal :: "jsstr \<Rightarrow> bool" where
  "canonical_decimal s \<longleftrightarrow>
     s = js ''0'' \<or>
     (case split_at 46 (unsigned_part s) of
        [w] \<Rightarrow> positive_digits w
      | [w, f] \<Rightarrow> (w = js ''0'' \<or> positive_digits w) \<and> fraction_digits f
      | _ \<Rightarrow> False)"

definition num_sub :: "jsnum \<Rightarrow> jsnum \<Rightarrow> jsnum" where
  "num_sub a b =
     (case (a, b) of
        (NaN, _) \<Rightarrow> NaN | (_, NaN) \<Rightarrow> NaN
      | (PosInf, PosInf) \<Rightarrow> NaN | (NegInf, NegInf) \<Rightarrow> NaN
      | (PosInf, _) \<Rightarrow> PosInf | (NegInf, _) \<Rightarrow> NegInf
      | (_, PosInf) \<Rightarrow> NegInf | (_, NegInf) \<Rightarrow> PosInf
      | (Fin p, Fin q) \<Rightarrow> round64 (p - q))"

definition decimalAdmitted :: "jsval \<Rightarrow> jsval \<Rightarrow> bool" where
  "decimalAdmitted v policy =
     (case v of
        Str s \<Rightarrow>
          canonical_decimal s \<and> truthy policy \<and>
          (let parts = split_at 46 (unsigned_part s);
               whole = hd parts;
               fraction = (case parts of _ # f # _ \<Rightarrow> f | _ \<Rightarrow> []);
               integerDigits = (if whole = js ''0'' then 0 else length whole)
           in num_le (Fin (of_nat integerDigits))
                (num_sub (to_number (get policy ''precision'')) (to_number (get policy ''scale''))) \<and>
              num_le (Fin (of_nat (length fraction))) (to_number (get policy ''scale'')))
      | _ \<Rightarrow> False)"

definition floatAdmitted :: "bool \<Rightarrow> jsval \<Rightarrow> bool" where
  "floatAdmitted single v =
     (case v of Num n \<Rightarrow> num_is_finite n \<and> (single \<longrightarrow> num_eq (fround n) n) | _ \<Rightarrow> False)"

text \<open>A scalar is the name a reference resolved to, or \<open>None\<close> for \<open>undefined\<close>.\<close>

definition is_scalar :: "jsstr option \<Rightarrow> string \<Rightarrow> bool" where
  "is_scalar scalar name \<longleftrightarrow> scalar = Some (js name)"

definition valueAdmitted :: "jsstr option \<Rightarrow> jsval \<Rightarrow> jsval \<Rightarrow> bool" where
  "valueAdmitted scalar v policy =
     (if is_scalar scalar ''boolean'' then is_boolean v
      else if is_scalar scalar ''integer'' then integerAdmitted v
      else if is_scalar scalar ''decimal'' then decimalAdmitted v policy
      else if is_scalar scalar ''float32'' \<or> is_scalar scalar ''float64''
        then floatAdmitted (is_scalar scalar ''float32'') v
      else True)"

definition operandAdmitted :: "bool \<Rightarrow> jsstr option \<Rightarrow> jsval \<Rightarrow> jsval \<Rightarrow> bool" where
  "operandAdmitted numeric scalar v policy =
     (if \<not> numeric then is_string v
      else if is_scalar scalar ''integer'' then integerAdmitted v
      else if is_scalar scalar ''decimal'' then decimalAdmitted v policy
      else floatAdmitted (is_scalar scalar ''float32'') v)"

definition defaultValueAdmitted :: "jsval \<Rightarrow> jsstr option \<Rightarrow> jsval \<Rightarrow> bool" where
  "defaultValueAdmitted field scalar policy =
     (let v = get field ''defaultValue'';
          upper = get (get field ''multiplicity'') ''upper''
      in if v = Null \<and> get field ''nullable'' = Bool True then True
         else if upper = Undefined \<or> js_less (Num (Fin 1)) upper
           then is_array v \<and> list_all (\<lambda>item. valueAdmitted scalar item policy) (list_of v)
         else valueAdmitted scalar v policy)"

section \<open>Texts of integers\<close>

lemma digit_value_range: "is_digit_unit u \<Longrightarrow> 0 \<le> digit_value u \<and> digit_value u < 10"
  by (auto simp: is_digit_unit_def digit_value_def word_le_def)

lemma digit_value_inj: "digit_value u = digit_value w \<Longrightarrow> u = w"
  by (auto simp: digit_value_def intro: word_uint_eqI)

lemma digit_unit_value: "is_digit_unit u \<Longrightarrow> digit_unit (digit_value u) = u"
  using digit_value_range [of u] digit_value_unit [of "digit_value u"] digit_value_inj by blast

lemma digits_nonneg: "list_all is_digit_unit s \<Longrightarrow> 0 \<le> int_of_digits s"
proof (induction s rule: rev_induct)
  case (snoc u s)
  then have "0 \<le> digit_value u" using digit_value_range [of u] by simp
  with snoc show ?case by (simp add: int_of_digits_snoc)
qed (simp add: int_of_digits_def)

text \<open>A digit string without a leading zero is the text of its value, and is at least a power of ten.\<close>

lemma positive_digits_least: "positive_digits s \<Longrightarrow> 10 ^ (length s - 1) \<le> int_of_digits s"
proof (induction s rule: rev_induct)
  case (snoc u s)
  show ?case
  proof (cases "s = []")
    case True
    have "digit_value u \<noteq> digit_value 48"
      using snoc.prems True digit_value_inj [of u 48] by (auto simp: positive_digits_def)
    moreover have "digit_value 48 = 0" by (simp add: digit_value_def)
    moreover have "0 \<le> digit_value u"
      using snoc.prems digit_value_range [of u] by (simp add: positive_digits_def)
    ultimately show ?thesis by (simp add: True int_of_digits_def)
  next
    case False
    then have "positive_digits s" using snoc.prems by (auto simp: positive_digits_def)
    note IH = snoc.IH [OF this]
    have "0 \<le> digit_value u"
      using snoc.prems digit_value_range [of u] by (simp add: positive_digits_def)
    then have "(10 :: int) * 10 ^ (length s - 1) \<le> int_of_digits (s @ [u])"
      using IH by (simp add: int_of_digits_snoc)
    then show ?thesis using False by (simp flip: power_Suc)
  qed
qed (simp add: positive_digits_def)

lemma positive_digits_pos: "positive_digits s \<Longrightarrow> 0 < int_of_digits s"
  using positive_digits_least [of s] by (smt (verit) zero_less_power)

lemma digits_of_positive: "positive_digits s \<Longrightarrow> digits_of (int_of_digits s) = s"
proof (induction s rule: rev_induct)
  case (snoc u s)
  have u: "is_digit_unit u" using snoc.prems by (simp add: positive_digits_def)
  note r = digit_value_range [OF u]
  show ?case
  proof (cases "s = []")
    case True
    have "digits_of (digit_value u) = [digit_unit (digit_value u)]"
      using r by (subst digits_of.simps) simp
    then show ?thesis by (simp add: True int_of_digits_def digit_unit_value [OF u])
  next
    case False
    then have p: "positive_digits s" using snoc.prems by (auto simp: positive_digits_def)
    have "int_of_digits (s @ [u]) div 10 = int_of_digits s"
      "int_of_digits (s @ [u]) mod 10 = digit_value u" "\<not> int_of_digits (s @ [u]) < 10"
      using r positive_digits_pos [OF p] by (simp_all add: int_of_digits_snoc)
    then have "digits_of (int_of_digits (s @ [u])) = digits_of (int_of_digits s) @ [digit_unit (digit_value u)]"
      by (subst digits_of.simps) simp
    then show ?thesis by (simp only: snoc.IH [OF p] digit_unit_value [OF u])
  qed
qed (simp add: positive_digits_def)

lemma positive_digits_of: "0 < n \<Longrightarrow> positive_digits (digits_of n)"
proof (induction n rule: digits_of.induct)
  case (1 n)
  have d: "list_all is_digit_unit (digits_of n)"
    using digits_of_digits [of n] "1.prems" by (simp add: list_all_iff)
  show ?case
  proof (cases "n < 10")
    case True
    have "digit_unit n \<noteq> 48"
      using digit_value_unit [of n] "1.prems" True by (auto simp: digit_value_def)
    then show ?thesis using True d by (simp add: positive_digits_def digits_of.simps [of n])
  next
    case False
    then have "positive_digits (digits_of (n div 10))" using 1 by simp
    then show ?thesis using False d
      by (simp add: positive_digits_def digits_of.simps [of n])
  qed
qed

lemma js_minus: "js ''-'' = [45]"
  by (simp add: js_def unit_of_def)

lemma js_zero: "js ''0'' = [48]"
  by (simp add: js_def unit_of_def)

lemma starts_with_minus: "starts_with s (js ''-'') \<longleftrightarrow> (\<exists>t. s = 45 # t)"
  by (auto simp: starts_with_iff js_minus)

lemma positive_not_minus: "positive_digits s \<Longrightarrow> \<not> starts_with s (js ''-'')"
  by (auto simp: starts_with_minus positive_digits_def is_digit_unit_def word_le_def)

lemma unsigned_minus [simp]: "unsigned_part (45 # t) = t"
  by (simp add: unsigned_part_def starts_with_minus)

lemma unsigned_other: "\<not> starts_with s (js ''-'') \<Longrightarrow> unsigned_part s = s"
  by (simp add: unsigned_part_def)

lemma digits_of_zero: "digits_of 0 = js ''0''"
  by (simp add: digits_of.simps js_zero digit_unit_def)

lemma zero_not_minus: "\<not> starts_with (js ''0'') (js ''-'')"
  by (simp add: starts_with_minus js_zero)

text \<open>The canonical texts are the decimal texts of the integers.\<close>

lemma canonical_integer_text: "canonical_integer s \<Longrightarrow> s = text_of_int (big_int s)"
proof -
  assume c: "canonical_integer s"
  show ?thesis
  proof (cases "starts_with s (js ''-'')")
    case True
    then obtain t where t: "s = 45 # t" by (auto simp: starts_with_minus)
    then have p: "positive_digits t" using c by (auto simp: canonical_integer_def js_zero)
    then have "big_int s = - int_of_digits t" by (simp add: big_int_def True t starts_with_minus)
    then show ?thesis
      using positive_digits_pos [OF p] digits_of_positive [OF p]
      by (simp add: text_of_int_def t js_minus)
  next
    case False
    then have b: "big_int s = int_of_digits s" by (simp add: big_int_def)
    show ?thesis
    proof (cases "s = js ''0''")
      case True
      then have "big_int s = 0" using b by (simp add: js_zero int_of_digits_def digit_value_def)
      then show ?thesis by (simp add: text_of_int_def digits_of_zero True)
    next
      case s: False
      then have p: "positive_digits s"
        using c False by (simp add: canonical_integer_def unsigned_other)
      then show ?thesis
        using positive_digits_pos [OF p] digits_of_positive [OF p] b by (simp add: text_of_int_def)
    qed
  qed
qed

lemma canonical_text_of_int [simp]: "canonical_integer (text_of_int i)" "big_int (text_of_int i) = i"
proof -
  consider "i < 0" | "i = 0" | "0 < i" by linarith
  then have "canonical_integer (text_of_int i) \<and> big_int (text_of_int i) = i"
  proof cases
    case 1
    then have "text_of_int i = 45 # digits_of (- i)" by (simp add: text_of_int_def js_minus)
    then show ?thesis
      using positive_digits_of [of "- i"] 1
      by (simp add: canonical_integer_def big_int_def starts_with_minus)
  next
    case 2
    then show ?thesis
      by (simp add: text_of_int_def digits_of_zero canonical_integer_def big_int_def zero_not_minus
          int_of_digits_def digit_value_def js_zero starts_with_minus)
  next
    case 3
    then have p: "positive_digits (digits_of i)" by (rule positive_digits_of)
    then show ?thesis
      using 3 positive_not_minus [OF p]
      by (simp add: text_of_int_def canonical_integer_def big_int_def unsigned_other)
  qed
  then show "canonical_integer (text_of_int i)" "big_int (text_of_int i) = i" by simp_all
qed

lemma text_of_int_inject [simp]: "text_of_int i = text_of_int j \<longleftrightarrow> i = j"
  by (metis canonical_text_of_int(2))

lemma length_positive: "positive_digits s \<Longrightarrow> n < length s \<Longrightarrow> 10 ^ n \<le> int_of_digits s"
proof -
  assume p: "positive_digits s" and n: "n < length s"
  have "(10 :: int) ^ n \<le> 10 ^ (length s - 1)" using n by (intro power_increasing) auto
  then show ?thesis using positive_digits_least [OF p] by linarith
qed

text \<open>The length test of \<open>integer\<close> only spares work: such a text is out of range anyway.\<close>

lemma long_integer_outside:
  assumes "canonical_integer s" and "40 < length s"
  shows "big_int s < I128_MIN \<or> I128_MAX < big_int s"
proof -
  define t where "t = unsigned_part s"
  have "s \<noteq> js ''0''" using assms(2) by (auto simp: js_zero)
  then have p: "positive_digits t" using assms(1) by (simp add: canonical_integer_def t_def)
  have "39 < length t" using assms(2) by (auto simp: t_def unsigned_part_def)
  then have b: "(10 :: int) ^ 39 \<le> int_of_digits t" by (rule length_positive [OF p])
  have "(2 :: int) ^ 127 < 10 ^ 39" by simp
  then have o: "2 ^ 127 < int_of_digits t" using b by linarith
  show ?thesis
  proof (cases "starts_with s (js ''-'')")
    case True
    then show ?thesis using o by (simp add: big_int_def I128_MIN_def flip: t_def)
  next
    case False
    then have "t = s" by (simp add: t_def unsigned_part_def)
    then show ?thesis using o False by (simp add: big_int_def I128_MAX_def)
  qed
qed

definition in_i128 :: "int \<Rightarrow> bool" where
  "in_i128 i \<longleftrightarrow> I128_MIN \<le> i \<and> i \<le> I128_MAX"

text \<open>The reference definition: the canonical text of a number of the range.\<close>

lemma integer_operand_Str:
  "integer_operand (Str s) =
    (if \<not> canonical_integer s then OpInvalid else if in_i128 (big_int s) then OpValue (big_int s) else OpOutside)"
  using long_integer_outside [of s] by (auto simp: integer_operand_def in_i128_def)

lemma integer_operand_value:
  "integer_operand (Str s) = OpValue i \<longleftrightarrow> s = text_of_int i \<and> in_i128 i"
  using canonical_integer_text [of s] by (auto simp: integer_operand_Str split: if_splits)

lemma integerAdmitted_operand: "integerAdmitted v \<longleftrightarrow> (\<exists>i. integer_operand v = OpValue i)"
  by (cases v) (auto simp: integerAdmitted_def integer_operand_Str withinI128_def in_i128_def,
    simp_all add: integer_operand_def)

lemma euclid_gcd: "0 \<le> b \<Longrightarrow> 0 \<le> a \<Longrightarrow> euclid a b = gcd a b"
proof (induction a b rule: euclid.induct)
  case (1 a b)
  show ?case
  proof (cases "b \<le> 0")
    case True
    then show ?thesis using 1 by (simp add: euclid.simps)
  next
    case False
    then have "euclid a b = gcd b (a mod b)" using 1 by (subst euclid.simps) simp
    then show ?thesis using gcd_red_int [of a b] by simp
  qed
qed

section \<open>Texts of rationals\<close>

lemma split_at_none: "u \<notin> set a \<Longrightarrow> split_at u a = [a]"
  by (induction a) auto

lemma split_at_append: "u \<notin> set a \<Longrightarrow> split_at u (a @ u # b) = a # split_at u b"
  by (induction a) auto

lemma split_at_one: "split_at u s = [p] \<Longrightarrow> s = p"
  using join_split_at [of u s] by simp

lemma split_at_two: "split_at u s = [p, q] \<Longrightarrow> s = p @ u # q"
  using join_split_at [of u s] by simp

lemma text_units: "u \<in> set (text_of_int i) \<Longrightarrow> u = 45 \<or> is_digit_unit u"
  using digits_of_digits [of i] digits_of_digits [of "- i"]
  by (auto simp: text_of_int_def js_minus split: if_splits)

lemma text_no_separator: "47 \<notin> set (text_of_int i)" "46 \<notin> set (text_of_int i)"
  using text_units [of 47 i] text_units [of 46 i] by (auto simp: is_digit_unit_def word_le_def)

lemma rational_integer_text: "rationalOperand (Str (text_of_int i)) = integer_operand (Str (text_of_int i))"
  by (simp add: rationalOperand_def split_at_none text_no_separator)

definition rational_text :: "int \<Rightarrow> int \<Rightarrow> jsstr" where
  "rational_text n d = (if d = 1 then text_of_int n else text_of_int n @ js ''/'' @ text_of_int d)"

definition lowest_terms :: "int \<Rightarrow> int \<Rightarrow> bool" where
  "lowest_terms n d \<longleftrightarrow> 0 < d \<and> coprime n d"

lemma js_slash: "js ''/'' = [47]"
  by (simp add: js_def unit_of_def)

lemma lowest_terms_split: "lowest_terms n d \<longleftrightarrow> d = 1 \<or> 2 \<le> d \<and> n \<noteq> 0 \<and> coprime n d"
  by (auto simp: lowest_terms_def)

lemma rational_fraction:
  "rationalOperand (Str (text_of_int n @ 47 # text_of_int d)) = OpValue m \<longleftrightarrow>
    m = n \<and> in_i128 n \<and> in_i128 d \<and> n \<noteq> 0 \<and> 2 \<le> d \<and> coprime n d"
proof -
  have s: "split_at 47 (text_of_int n @ 47 # text_of_int d) = [text_of_int n, text_of_int d]"
    by (simp add: split_at_append split_at_none text_no_separator)
  have "euclid \<bar>n\<bar> d = 1 \<longleftrightarrow> coprime n d" if "2 \<le> d"
    using that euclid_gcd [of d "\<bar>n\<bar>"] by (simp add: coprime_iff_gcd_eq_1)
  then show ?thesis
    by (auto simp: rationalOperand_def s integer_operand_Str)
qed

lemma rational_value_text:
  assumes "rationalOperand (Str s) = OpValue n"
  shows "\<exists>d. lowest_terms n d \<and> in_i128 n \<and> in_i128 d \<and> s = rational_text n d"
proof -
  consider (int) p where "split_at 47 s = [p]" "integer_operand (Str s) = OpValue n"
    | (ratio) p q m d where "split_at 47 s = [p, q]" "integer_operand (Str p) = OpValue m"
        "integer_operand (Str q) = OpValue d"
    using assms unfolding rationalOperand_def
    by (auto split: list.splits operand.splits)
  then show ?thesis
  proof cases
    case int
    then show ?thesis
      by (intro exI [of _ 1])
        (auto simp: integer_operand_value rational_text_def lowest_terms_def in_i128_def I128_MIN_def I128_MAX_def)
  next
    case ratio
    then have s: "s = text_of_int m @ 47 # text_of_int d"
      by (simp add: integer_operand_value split_at_two)
    then have "n = m \<and> in_i128 m \<and> in_i128 d \<and> m \<noteq> 0 \<and> 2 \<le> d \<and> coprime m d"
      using assms rational_fraction by simp
    then show ?thesis
      by (intro exI [of _ d]) (auto simp: s rational_text_def js_slash lowest_terms_split)
  qed
qed

section \<open>Properties\<close>

text \<open>
  \<open>rationalOperand\<close> accepts exactly the texts of the \<open>i128\<close> rationals in lowest terms (a whole
  number without a denominator, no leading zeros, no \<open>-0\<close>) and returns the numerator; so every
  rational has one accepted spelling and every accepted spelling is read back exactly.
\<close>

lemma rationalOperand_exact:
  "rationalOperand v = OpValue n \<longleftrightarrow>
    (\<exists>d. v = Str (rational_text n d) \<and> lowest_terms n d \<and> in_i128 n \<and> in_i128 d)"
proof
  assume v: "rationalOperand v = OpValue n"
  then obtain s where "v = Str s" by (cases v) (auto simp: rationalOperand_def)
  then show "\<exists>d. v = Str (rational_text n d) \<and> lowest_terms n d \<and> in_i128 n \<and> in_i128 d"
    using rational_value_text [of s n] v by auto
next
  assume "\<exists>d. v = Str (rational_text n d) \<and> lowest_terms n d \<and> in_i128 n \<and> in_i128 d"
  then obtain d where "v = Str (rational_text n d)" "lowest_terms n d" "in_i128 n" "in_i128 d" by blast
  then show "rationalOperand v = OpValue n"
    using rational_fraction [of n d n]
    by (auto simp: lowest_terms_split rational_text_def js_slash rational_integer_text integer_operand_value)
qed

text \<open>
  The length test of \<open>integer\<close> only spares work: a text of more than forty characters that it
  refuses unread as outside the range is outside it. On every input the routine agrees with the
  definition that always converts.
\<close>

lemma integer_operand_reference:
  "integer_operand v =
    (case v of
       Str s \<Rightarrow> if \<not> canonical_integer s then OpInvalid
         else if in_i128 (big_int s) then OpValue (big_int s) else OpOutside
     | _ \<Rightarrow> OpInvalid)"
  by (cases v) (simp_all add: integer_operand_Str, simp_all add: integer_operand_def)

end
