(* ===== verification/UnitGraph.thy ===== *)
theory UnitGraph
  imports Components Operands Diagnostics
begin

text \<open>
  \<open>checkUnitGraph\<close> of \<open>src/src/compiler/ir/unit-graph.mjs\<close>: the defects of a document's dimensions
  and units, in the order the code raises them. A JavaScript \<open>Map\<close> keyed by a member of a node is
  an association list searched with \<open>===\<close>: two nodes never share an object, so an object key is
  found only by itself.
\<close>

definition raise_at :: "string \<Rightarrow> jsstr \<Rightarrow> jsval \<Rightarrow> diag" where
  "raise_at name message locus = diag_named name message [] [] (Some locus)"

text \<open>\<open>node?.origin?.source\<close>.\<close>

definition source_of :: "jsval \<Rightarrow> jsval" where
  "source_of node = get (get node ''origin'') ''source''"

definition emit :: "string \<Rightarrow> jsstr \<Rightarrow> jsstr \<Rightarrow> jsval \<Rightarrow> diag" where
  "emit name pointer message node = raise_at name (pointer @ js '': '' @ message) (source_of node)"

definition slot :: "(jsval \<times> 'a) list \<Rightarrow> jsval \<Rightarrow> 'a option" where
  "slot m k = map_option snd (find (\<lambda>e. strict_eq (fst e) k) m)"

section \<open>Identities\<close>

definition expected_identity :: "jsval \<Rightarrow> bool \<Rightarrow> jsval \<Rightarrow> jsstr" where
  "expected_identity document of_unit node =
     js ''ix://'' @ to_text (get (get document ''package'') ''identity'') @ js ''/'' @
       (if of_unit then js ''unit'' else js ''dimension'') @ js ''/'' @ to_text (get node ''name'')"

definition label_text :: "bool \<Rightarrow> jsstr" where
  "label_text of_unit = (if of_unit then js ''units'' else js ''dimensions'')"

definition index_node ::
  "jsval \<Rightarrow> bool \<Rightarrow> nat \<times> jsval \<Rightarrow> (jsval \<times> nat) list \<times> diag list \<Rightarrow> (jsval \<times> nat) list \<times> diag list" where
  "index_node document of_unit e st =
     (let (position, node) = e; (found, ds) = st; identity = get node ''identity'';
          at_ptr = js ''/ir/'' @ label_text of_unit @ js ''/'' @ nat_text position @ js ''/identity'';
          known = slot found identity \<noteq> None
      in if \<not> is_object node then (found, ds)
         else (if known then found else found @ [(identity, position)],
           ds @ (if known then [emit ''DUPLICATE_IDENTITY'' at_ptr (js ''the identity is already declared'') node]
                 else []) @
             (if identity = Str (expected_identity document of_unit node) then []
              else [emit ''INVALID_UNIT_GRAPH'' at_ptr
                (js ''identity must name the package and declaration'') node])))"

definition index_nodes :: "jsval \<Rightarrow> bool \<Rightarrow> jsval list \<Rightarrow> (jsval \<times> nat) list \<times> diag list" where
  "index_nodes document of_unit nodes =
     fold (index_node document of_unit) (List.enumerate 0 nodes) ([], [])"

section \<open>Dimensions\<close>

definition exponent_diags :: "jsstr \<Rightarrow> jsval \<Rightarrow> jsval \<Rightarrow> diag list" where
  "exponent_diags term_at node t =
     (case integer_operand (get t ''exponent'') of
        OpOutside \<Rightarrow> [emit ''INTEGER_OUTSIDE_I128'' (term_at @ js ''/exponent'')
          (js ''expected a canonical i128 integer'') node]
      | OpInvalid \<Rightarrow> [emit ''INVALID_OPERAND'' (term_at @ js ''/exponent'')
          (js ''expected a canonical i128 integer'') node]
      | OpValue i \<Rightarrow> if i = 0 then [emit ''INVALID_UNIT_GRAPH'' (term_at @ js ''/exponent'')
          (js ''dimension exponents are nonzero'') node] else [])"

definition check_term ::
  "(jsval \<times> nat) list \<Rightarrow> jsval \<Rightarrow> jsstr \<Rightarrow> jsval list \<Rightarrow> nat \<times> jsval \<Rightarrow> nat list \<times> diag list" where
  "check_term ids node at_ptr terms e =
     (let (offset, t) = e; term_at = at_ptr @ js ''/terms/'' @ nat_text offset
      in if \<not> is_object t then ([], [])
         else
           ((case slot ids (get t ''dimension'') of None \<Rightarrow> [] | Some target \<Rightarrow> [target]),
            (case slot ids (get t ''dimension'') of
               None \<Rightarrow> [emit ''UNRESOLVED_DIMENSION_REF'' (term_at @ js ''/dimension'')
                 (js ''no dimension has this identity'') node]
             | Some _ \<Rightarrow> []) @
            exponent_diags term_at node t @
            (if 0 < offset \<and> js_ge (get (terms ! (offset - 1)) ''dimension'') (get t ''dimension'')
             then [emit ''INVALID_UNIT_GRAPH'' term_at (js ''dimension terms must be strictly ordered'') node]
             else [])))"

definition check_dimension :: "(jsval \<times> nat) list \<Rightarrow> nat \<times> jsval \<Rightarrow> nat list \<times> diag list" where
  "check_dimension ids e =
     (let (position, node) = e; at_ptr = js ''/ir/dimensions/'' @ nat_text position;
          terms = list_of (get node ''terms'');
          checked = map (check_term ids node at_ptr terms) (List.enumerate 0 terms)
      in if \<not> is_object node then ([], [])
         else (concat (map fst checked),
           (if truthy (get node ''base'') \<and> terms \<noteq> []
            then [emit ''INVALID_UNIT_GRAPH'' (at_ptr @ js ''/terms'') (js ''a base dimension has no terms'') node]
            else []) @ concat (map snd checked)))"

text \<open>\<open>findIndex\<close> of the first term that stays in the group.\<close>

fun term_index :: "(jsval \<times> nat) list \<Rightarrow> nat list \<Rightarrow> int \<Rightarrow> jsval list \<Rightarrow> int" where
  "term_index ids nodes n [] = -1"
| "term_index ids nodes n (t # ts) =
     (case slot ids (get t ''dimension'') of
        Some target \<Rightarrow> if target \<in> set nodes then n else term_index ids nodes (n + 1) ts
      | None \<Rightarrow> term_index ids nodes (n + 1) ts)"

definition dimension_cycle :: "jsval list \<Rightarrow> (jsval \<times> nat) list \<Rightarrow> nat list \<Rightarrow> diag" where
  "dimension_cycle dimensions ids nodes =
     (let first = hd nodes
      in emit ''INVALID_UNIT_GRAPH''
           (js ''/ir/dimensions/'' @ nat_text first @ js ''/terms/'' @
             text_of_int (term_index ids nodes 0 (list_of (get (dimensions ! first) ''terms''))))
           (js ''dimension cycle: '' @ join_values (js '', '') (map (\<lambda>i. get (dimensions ! i) ''name'') nodes))
           (dimensions ! first))"

section \<open>Units\<close>

definition rational_diags :: "jsstr \<Rightarrow> jsval \<Rightarrow> string \<Rightarrow> diag list" where
  "rational_diags at_ptr node name =
     (case rationalOperand (get node name) of
        OpOutside \<Rightarrow> [emit ''INTEGER_OUTSIDE_I128'' (at_ptr @ js ''/'' @ js name)
          (js ''expected a canonical i128 rational'') node]
      | OpInvalid \<Rightarrow> [emit ''INVALID_OPERAND'' (at_ptr @ js ''/'' @ js name)
          (js ''expected a canonical i128 rational'') node]
      | OpValue _ \<Rightarrow> [])"

text \<open>\<open>rational(node[name]).value !== undefined\<close>.\<close>

definition readable_rational :: "jsval \<Rightarrow> bool" where
  "readable_rational v = (case rationalOperand v of OpValue _ \<Rightarrow> True | _ \<Rightarrow> False)"

record unit_state =
  u_edges :: "nat list list"
  u_roots :: "(jsval \<times> nat) list"
  u_diags :: "diag list"

definition target_diags_of ::
  "(jsval \<times> nat) list \<Rightarrow> jsval list \<Rightarrow> jsstr \<Rightarrow> jsval \<Rightarrow> nat option \<Rightarrow> diag list" where
  "target_diags_of dims units at_ptr node target =
     (case target of
        None \<Rightarrow> [emit ''UNRESOLVED_UNIT_REF'' (at_ptr @ js ''/target'') (js ''no unit has this identity'') node]
      | Some t \<Rightarrow>
          (let mine = get node ''dimension''; theirs = get (units ! t) ''dimension''
           in if slot dims mine \<noteq> None \<and> slot dims theirs \<noteq> None \<and> \<not> strict_eq theirs mine
              then [emit ''INVALID_UNIT_GRAPH'' (at_ptr @ js ''/target'')
                (js ''unit dimensions differ: '' @ to_text mine @ js '', '' @ to_text theirs) node]
              else []))"

definition root_diags :: "jsval list \<Rightarrow> jsstr \<Rightarrow> jsval \<Rightarrow> nat option \<Rightarrow> diag list" where
  "root_diags units at_ptr node previous =
     (case previous of
        Some p \<Rightarrow> [emit ''INVALID_UNIT_GRAPH'' at_ptr
          (js ''dimension '' @ to_text (get node ''dimension'') @ js '' already has root ''
            @ to_text (get (units ! p) ''name'')) node]
      | None \<Rightarrow> []) @
     (if get node ''scale'' \<noteq> Str (js ''1'') \<and> get node ''scale'' \<noteq> Str (js ''0'') \<and>
         readable_rational (get node ''scale'')
      then [emit ''INVALID_UNIT_GRAPH'' (at_ptr @ js ''/scale'') (js ''a root unit has scale 1'') node] else []) @
     (if get node ''offset'' \<noteq> Str (js ''0'') \<and> readable_rational (get node ''offset'')
      then [emit ''INVALID_UNIT_GRAPH'' (at_ptr @ js ''/offset'') (js ''a root unit has offset 0'') node] else [])"

definition unit_diags :: "(jsval \<times> nat) list \<Rightarrow> jsstr \<Rightarrow> jsval \<Rightarrow> diag list" where
  "unit_diags dims at_ptr node =
     (if slot dims (get node ''dimension'') = None
      then [emit ''UNRESOLVED_DIMENSION_REF'' (at_ptr @ js ''/dimension'')
        (js ''no dimension has this identity'') node] else []) @
     rational_diags at_ptr node ''scale'' @ rational_diags at_ptr node ''offset'' @
     (if get node ''scale'' = Str (js ''0'')
      then [emit ''INVALID_UNIT_GRAPH'' (at_ptr @ js ''/scale'') (js ''a unit scale is nonzero'') node] else [])"

definition check_unit ::
  "(jsval \<times> nat) list \<Rightarrow> (jsval \<times> nat) list \<Rightarrow> jsval list \<Rightarrow> nat \<times> jsval \<Rightarrow> unit_state \<Rightarrow> unit_state" where
  "check_unit dims ids units e st =
     (let (position, node) = e; at_ptr = js ''/ir/units/'' @ nat_text position
      in if \<not> is_object node then st\<lparr>u_edges := u_edges st @ [[]]\<rparr>
         else if get node ''target'' \<noteq> Undefined then
           let target = slot ids (get node ''target'')
           in st\<lparr>u_edges := u_edges st @ [case target of None \<Rightarrow> [] | Some t \<Rightarrow> [t]],
                 u_diags := u_diags st @ unit_diags dims at_ptr node @
                   target_diags_of dims units at_ptr node target\<rparr>
         else
           let previous = slot (u_roots st) (get node ''dimension'')
           in \<lparr>u_edges = u_edges st @ [[]],
               u_roots = (if previous = None then u_roots st @ [(get node ''dimension'', position)] else u_roots st),
               u_diags = u_diags st @ unit_diags dims at_ptr node @ root_diags units at_ptr node previous\<rparr>)"

definition check_units ::
  "(jsval \<times> nat) list \<Rightarrow> (jsval \<times> nat) list \<Rightarrow> jsval list \<Rightarrow> unit_state" where
  "check_units dims ids units =
     fold (check_unit dims ids units) (List.enumerate 0 units)
       \<lparr>u_edges = [], u_roots = [], u_diags = []\<rparr>"

text \<open>The \<open>do ... while\<close> walk along the only edge of each unit of a cycle; \<open>None\<close> is out of fuel.\<close>

fun cycle_walk :: "nat \<Rightarrow> graph \<Rightarrow> nat \<Rightarrow> nat \<Rightarrow> nat list option" where
  "cycle_walk fuel edges first cursor =
     (case fuel of
        0 \<Rightarrow> None
      | Suc f \<Rightarrow>
          (case edges ! cursor of
             [] \<Rightarrow> None
           | next_node # _ \<Rightarrow>
               if next_node = first then Some [cursor]
               else map_option (Cons cursor) (cycle_walk f edges first next_node)))"

declare cycle_walk.simps [simp del]

definition unit_cycle :: "jsval list \<Rightarrow> graph \<Rightarrow> nat list \<Rightarrow> diag option" where
  "unit_cycle units edges nodes =
     (let first = hd nodes
      in map_option (\<lambda>walk. emit ''INVALID_UNIT_GRAPH''
             (js ''/ir/units/'' @ nat_text first @ js ''/target'')
             (js ''unit cycle: '' @ join_values (js '', '') (map (\<lambda>i. get (units ! i) ''name'') walk))
             (units ! first))
           (cycle_walk (length edges) edges first first))"

fun all_some :: "'a option list \<Rightarrow> 'a list option" where
  "all_some [] = Some []"
| "all_some (None # xs) = None"
| "all_some (Some x # xs) = map_option (Cons x) (all_some xs)"

section \<open>The whole check\<close>

text \<open>\<open>None\<close> never happens: see \<open>checkUnitGraph_ends\<close>.\<close>

definition checkUnitGraph :: "jsval \<Rightarrow> diag list option" where
  "checkUnitGraph document =
     (let dimensions = list_of (get document ''dimensions''); units = list_of (get document ''units'');
          (dims, ds1) = index_nodes document False dimensions;
          (ids, ds2) = index_nodes document True units;
          checked = map (check_dimension dims) (List.enumerate 0 dimensions);
          st = check_units dims ids units
      in case components (map fst checked) of
           None \<Rightarrow> None
         | Some dimension_groups \<Rightarrow>
             (case components (u_edges st) of
                None \<Rightarrow> None
              | Some unit_groups \<Rightarrow>
                  map_option (\<lambda>cycles.
                    ds1 @ ds2 @ concat (map snd checked) @
                    map (dimension_cycle dimensions dims) dimension_groups @ u_diags st @ cycles)
                    (all_some (map (unit_cycle units (u_edges st)) unit_groups))))"

section \<open>Edges stay in the document\<close>

lemma slot_Some: "slot m k = Some p \<Longrightarrow> \<exists>k'. (k', p) \<in> set m \<and> strict_eq k' k"
  by (auto simp: slot_def find_Some_iff) (metis fst_conv nth_mem)

lemma slot_append: "slot (m @ [(j, p)]) k = None \<longleftrightarrow> slot m k = None \<and> \<not> strict_eq j k"
  by (auto simp: slot_def find_None_iff)

definition indexed :: "jsval list \<Rightarrow> (jsval \<times> nat) list \<Rightarrow> bool" where
  "indexed nodes found \<longleftrightarrow>
     (\<forall>(k, p)\<in>set found. p < length nodes \<and> is_object (nodes ! p) \<and> k = get (nodes ! p) ''identity'')"

lemma index_nodes_indexed: "indexed nodes (fst (index_nodes document b nodes))"
proof -
  have step: "indexed nodes (fst (fold (index_node document b) es st))"
    if "indexed nodes (fst st)" "\<forall>(p, node)\<in>set es. p < length nodes \<and> node = nodes ! p" for es st
    using that
  proof (induction es arbitrary: st)
    case (Cons e es)
    obtain p node where e: "e = (p, node)" by (cases e)
    obtain found ds where st: "st = (found, ds)" by (cases st)
    have "indexed nodes (fst (index_node document b e st))"
      using Cons.prems by (auto simp: indexed_def index_node_def Let_def e st)
    then show ?case using Cons.IH Cons.prems(2) by simp
  qed simp
  show ?thesis unfolding index_nodes_def
    by (rule step) (auto simp: indexed_def in_set_enumerate_eq)
qed

lemma slot_indexed:
  "indexed nodes found \<Longrightarrow> slot found k = Some p \<Longrightarrow>
    p < length nodes \<and> is_object (nodes ! p) \<and> get (nodes ! p) ''identity'' = k"
  using slot_Some [of found k p] by (fastforce simp: indexed_def dest: strict_eq_imp_eq)

definition unit_edges :: "(jsval \<times> nat) list \<Rightarrow> jsval \<Rightarrow> nat list" where
  "unit_edges ids node =
     (if is_object node \<and> get node ''target'' \<noteq> Undefined
      then (case slot ids (get node ''target'') of None \<Rightarrow> [] | Some t \<Rightarrow> [t]) else [])"

lemma check_units_edges: "u_edges (check_units dims ids units) = map (unit_edges ids) units"
proof -
  have "u_edges (fold (check_unit dims ids units) (List.enumerate n ns) st) = u_edges st @ map (unit_edges ids) ns"
    for n ns st
  proof (induction ns arbitrary: n st)
    case (Cons node ns)
    have "u_edges (check_unit dims ids units (n, node) st) = u_edges st @ [unit_edges ids node]"
      by (simp add: check_unit_def Let_def unit_edges_def)
    then show ?case by (simp add: Cons.IH)
  qed simp
  then show ?thesis by (simp add: check_units_def)
qed

lemma unit_edges_range:
  "indexed units ids \<Longrightarrow> in_range (map (unit_edges ids) units)"
  unfolding in_range_def unit_edges_def using slot_indexed
  by (fastforce simp: list_all_iff split: option.splits)

lemma check_term_targets: "t \<in> set (fst (check_term dims node at_ptr terms e)) \<Longrightarrow> \<exists>k. slot dims k = Some t"
  by (cases e) (auto simp: check_term_def Let_def split: option.splits if_splits)

lemma check_dimension_targets: "t \<in> set (fst (check_dimension dims e)) \<Longrightarrow> \<exists>k. slot dims k = Some t"
  by (cases e) (auto simp: check_dimension_def Let_def split: if_splits dest: check_term_targets)

lemma dimension_edges_range:
  assumes "indexed nodes dims"
  shows "in_range (map (\<lambda>e. fst (check_dimension dims e)) (List.enumerate 0 nodes))"
proof -
  have "t < length nodes" if "t \<in> set (fst (check_dimension dims e))" for t e
    using check_dimension_targets [OF that] slot_indexed [OF assms] by blast
  then show ?thesis by (simp add: in_range_def list_all_iff)
qed

section \<open>The walk along a cycle ends\<close>

definition one_out :: "graph \<Rightarrow> bool" where
  "one_out g = list_all (\<lambda>es. length es \<le> 1) g"

definition succ_of :: "graph \<Rightarrow> nat \<Rightarrow> nat" where
  "succ_of g v = hd (g ! v)"

lemma arcs_succ:
  assumes "one_out g" and "(u, v) \<in> arcs g"
  shows "g ! u = [v] \<and> v = succ_of g u"
proof -
  have "length (g ! u) \<le> 1" "v \<in> set (g ! u)"
    using assms by (auto simp: one_out_def list_all_iff arcs_def)
  then have "g ! u = [v]" by (cases "g ! u") auto
  then show ?thesis by (simp add: succ_of_def)
qed

lemma trancl_iterate:
  assumes "one_out g" and "(u, v) \<in> (arcs g)\<^sup>+"
  shows "\<exists>k>0. (succ_of g ^^ k) u = v \<and> (\<forall>j<k. g ! ((succ_of g ^^ j) u) = [(succ_of g ^^ Suc j) u])"
  using assms(2)
proof (induction rule: trancl_induct)
  case (base v)
  then show ?case using arcs_succ [OF assms(1)] by (intro exI [of _ 1]) fastforce
next
  case (step v w)
  then obtain k where k: "0 < k" "(succ_of g ^^ k) u = v"
    "\<forall>j<k. g ! ((succ_of g ^^ j) u) = [(succ_of g ^^ Suc j) u]" by blast
  have w: "g ! v = [w]" "w = succ_of g v" using arcs_succ [OF assms(1) step.hyps(2)] by simp_all
  have "(succ_of g ^^ Suc k) u = w" using k(2) w by simp
  moreover have "\<forall>j<Suc k. g ! ((succ_of g ^^ j) u) = [(succ_of g ^^ Suc j) u]"
    using k w by (auto simp: less_Suc_eq)
  ultimately show ?case using k(1) by blast
qed

lemma cycle_walk_steps:
  "0 < k \<Longrightarrow> k \<le> fuel \<Longrightarrow> (succ_of g ^^ k) c = first \<Longrightarrow>
    (\<forall>j<k. g ! ((succ_of g ^^ j) c) = [(succ_of g ^^ Suc j) c]) \<Longrightarrow>
    \<exists>walk. cycle_walk fuel g first c = Some walk"
proof (induction fuel arbitrary: k c)
  case (Suc f)
  have c: "g ! c = [succ_of g c]" using Suc.prems(1,4) by (metis funpow_0 funpow.simps(2) o_apply)
  show ?case
  proof (cases "succ_of g c = first")
    case True
    then show ?thesis by (simp add: cycle_walk.simps c)
  next
    case False
    obtain k' where k': "k = Suc k'" using Suc.prems(1) by (cases k) auto
    have "0 < k'" using False Suc.prems(3) k' by (cases k') auto
    moreover have "(succ_of g ^^ j) (succ_of g c) = (succ_of g ^^ Suc j) c" for j
      by (simp add: funpow_swap1)
    ultimately have "\<exists>walk. cycle_walk f g first (succ_of g c) = Some walk"
      using Suc.IH [of k' "succ_of g c"] Suc.prems(2-4) k' by fastforce
    then show ?thesis using False by (auto simp: cycle_walk.simps [of "Suc f"] c)
  qed
qed simp

lemma funpow_period:
  assumes "(f ^^ k) x = x" and "i < j" and "j < k" and "(f ^^ i) x = (f ^^ j) x"
  shows "\<exists>m. 0 < m \<and> m < k \<and> (f ^^ m) x = x"
proof -
  have "(f ^^ (k - j + i)) x = (f ^^ (k - j)) ((f ^^ j) x)" using assms(4) by (simp add: funpow_add)
  also have "\<dots> = (f ^^ (k - j + j)) x" by (simp only: funpow_add o_apply)
  also have "\<dots> = x" using assms(1,3) by simp
  finally show ?thesis using assms(2,3) by (intro exI [of _ "k - j + i"]) auto
qed

lemma cycle_walk_ends:
  assumes "one_out g" and "in_range g" and "(v, v) \<in> (arcs g)\<^sup>+"
  shows "\<exists>walk. cycle_walk (length g) g v v = Some walk"
proof -
  let ?P = "\<lambda>k. 0 < k \<and> (succ_of g ^^ k) v = v"
  obtain k0 where k0: "0 < k0" "(succ_of g ^^ k0) v = v"
    "\<forall>j<k0. g ! ((succ_of g ^^ j) v) = [(succ_of g ^^ Suc j) v]"
    using trancl_iterate [OF assms(1,3)] by blast
  define k where "k = (LEAST k. ?P k)"
  have k: "?P k" unfolding k_def by (rule LeastI [of ?P k0]) (use k0 in simp)
  have le: "k \<le> k0" unfolding k_def by (rule Least_le) (use k0 in simp)
  have least: "\<not> (0 < m \<and> m < k \<and> (succ_of g ^^ m) v = v)" for m
    unfolding k_def using not_less_Least by blast
  have inj: "inj_on (\<lambda>j. (succ_of g ^^ j) v) {..<k}"
  proof (rule inj_onI)
    fix i j
    assume ij: "i \<in> {..<k}" "j \<in> {..<k}" "(succ_of g ^^ i) v = (succ_of g ^^ j) v"
    then show "i = j"
      using funpow_period [of k "succ_of g" v i j] funpow_period [of k "succ_of g" v j i] k least
      by (metis lessThan_iff linorder_neqE_nat)
  qed
  have v: "v < length g" using assms(2,3) arcs_range by (meson tranclD)
  have range: "(succ_of g ^^ j) v < length g" if "j < k" for j
  proof (cases j)
    case (Suc i)
    have "(succ_of g ^^ i) v < length g \<Longrightarrow> ((succ_of g ^^ i) v, (succ_of g ^^ Suc i) v) \<in> arcs g"
      using k0(3) that le Suc by (simp add: arcs_def)
    moreover have "i < k \<longrightarrow> (succ_of g ^^ i) v < length g" for i
    proof (induction i)
      case (Suc i)
      have "((succ_of g ^^ i) v, (succ_of g ^^ Suc i) v) \<in> arcs g" if "Suc i < k"
        using Suc.IH k0(3) that le by (simp add: arcs_def)
      then show ?case using arcs_range [OF assms(2)] by blast
    qed (simp add: v)
    ultimately show ?thesis using that by blast
  qed (simp add: v)
  have "card ((\<lambda>j. (succ_of g ^^ j) v) ` {..<k}) \<le> card {..<length g}"
    by (rule card_mono) (use range in auto)
  then have "k \<le> length g" using card_image [OF inj] by simp
  then show ?thesis
    using cycle_walk_steps [of k "length g" g v v] k k0(3) le by auto
qed

lemma unit_edges_one: "length (unit_edges ids node) \<le> 1"
  by (simp add: unit_edges_def split: option.split)

lemma one_out_units: "one_out (map (unit_edges ids) units)"
  using unit_edges_one by (simp add: one_out_def list_all_iff)

lemma all_some_ends: "list_all (\<lambda>x. \<exists>y. x = Some y) xs \<Longrightarrow> \<exists>ys. all_some xs = Some ys \<and> length ys = length xs"
  by (induction xs rule: all_some.induct) auto

lemma component_head:
  assumes "set nodes = scc g v" and "(v, v) \<in> (arcs g)\<^sup>+"
  shows "(hd nodes, hd nodes) \<in> (arcs g)\<^sup>+"
proof -
  have "nodes \<noteq> []" using assms(1) scc_refl [of v g] by (metis empty_iff list.set(1))
  then have "hd nodes \<in> scc g v" using assms(1) hd_in_set by blast
  then show ?thesis by (rule scc_cyclic [OF _ assms(2)])
qed

lemma unit_cycles_end:
  assumes "indexed units ids" and "components (map (unit_edges ids) units) = Some groups"
  shows "\<exists>cycles. all_some (map (unit_cycle units (map (unit_edges ids) units)) groups) = Some cycles \<and>
    length cycles = length groups"
proof -
  let ?g = "map (unit_edges ids) units"
  have "\<exists>d. unit_cycle units ?g nodes = Some d" if "nodes \<in> set groups" for nodes
  proof -
    have "set nodes \<in> {scc ?g v |v. v < length ?g \<and> (v, v) \<in> (arcs ?g)\<^sup>+}"
      using components_exact [OF unit_edges_range [OF assms(1)]] assms(2) that by auto
    then obtain v where "set nodes = scc ?g v" "(v, v) \<in> (arcs ?g)\<^sup>+" by blast
    note h = component_head [OF this]
    obtain walk where "cycle_walk (length ?g) ?g (hd nodes) (hd nodes) = Some walk"
      using cycle_walk_ends [OF one_out_units unit_edges_range [OF assms(1)] h] by blast
    then show ?thesis by (simp add: unit_cycle_def Let_def)
  qed
  then show ?thesis
    using all_some_ends [of "map (unit_cycle units ?g) groups"] by (simp add: list_all_iff)
qed

lemma checkUnitGraph_parts:
  obtains dims ids ds1 ds2 dgroups ugroups cycles where
    "index_nodes document False (list_of (get document ''dimensions'')) = (dims, ds1)"
    "index_nodes document True (list_of (get document ''units'')) = (ids, ds2)"
    "components (map (unit_edges ids) (list_of (get document ''units''))) = Some ugroups"
    "components (map (\<lambda>e. fst (check_dimension dims e))
       (List.enumerate 0 (list_of (get document ''dimensions'')))) = Some dgroups"
    "length cycles = length ugroups"
    "checkUnitGraph document = Some (ds1 @ ds2 @
       concat (map (\<lambda>e. snd (check_dimension dims e)) (List.enumerate 0 (list_of (get document ''dimensions'')))) @
       map (dimension_cycle (list_of (get document ''dimensions'')) dims) dgroups @
       u_diags (check_units dims ids (list_of (get document ''units''))) @ cycles)"
proof -
  define dimensions where "dimensions = list_of (get document ''dimensions'')"
  define units where "units = list_of (get document ''units'')"
  obtain dims ds1 where d: "index_nodes document False dimensions = (dims, ds1)" by fastforce
  obtain ids ds2 where u: "index_nodes document True units = (ids, ds2)" by fastforce
  have di: "indexed dimensions dims" using index_nodes_indexed [of dimensions document False] d by simp
  have ui: "indexed units ids" using index_nodes_indexed [of units document True] u by simp
  obtain dgroups where dg: "components (map (\<lambda>e. fst (check_dimension dims e)) (List.enumerate 0 dimensions)) = Some dgroups"
    using components_exact [OF dimension_edges_range [OF di]] by blast
  obtain ugroups where ug: "components (map (unit_edges ids) units) = Some ugroups"
    using components_exact [OF unit_edges_range [OF ui]] by blast
  obtain cycles where c: "all_some (map (unit_cycle units (map (unit_edges ids) units)) ugroups) = Some cycles"
    "length cycles = length ugroups"
    using unit_cycles_end [OF ui ug] by blast
  have "checkUnitGraph document = Some (ds1 @ ds2 @
       concat (map (\<lambda>e. snd (check_dimension dims e)) (List.enumerate 0 dimensions)) @
       map (dimension_cycle dimensions dims) dgroups @ u_diags (check_units dims ids units) @ cycles)"
    unfolding checkUnitGraph_def Let_def dimensions_def [symmetric] units_def [symmetric] d u
    by (simp add: check_units_edges ug dg c(1) o_def)
  then show ?thesis
    using that d u ug dg c(2) unfolding dimensions_def units_def by blast
qed

section \<open>A clean graph of units\<close>

definition is_root :: "jsval \<Rightarrow> bool" where
  "is_root node \<longleftrightarrow> is_object node \<and> get node ''target'' = Undefined"

text \<open>What a silent pass over the units leaves, given the roots seen before.\<close>

lemma check_units_silent:
  "u_diags (fold (check_unit dims ids units) (List.enumerate n ns) st) = [] \<Longrightarrow>
    u_diags st = [] \<and>
    (\<forall>i<length ns. is_object (ns ! i) \<longrightarrow>
      unit_diags dims (js ''/ir/units/'' @ nat_text (n + i)) (ns ! i) = [] \<and>
      (if is_root (ns ! i)
       then slot (u_roots st) (get (ns ! i) ''dimension'') = None \<and>
         root_diags units (js ''/ir/units/'' @ nat_text (n + i)) (ns ! i) None = []
       else target_diags_of dims units (js ''/ir/units/'' @ nat_text (n + i)) (ns ! i)
         (slot ids (get (ns ! i) ''target'')) = [])) \<and>
    (\<forall>i j. i < j \<longrightarrow> j < length ns \<longrightarrow> is_root (ns ! i) \<longrightarrow> is_root (ns ! j) \<longrightarrow>
      \<not> strict_eq (get (ns ! i) ''dimension'') (get (ns ! j) ''dimension''))"
proof (induction ns arbitrary: n st)
  case (Cons node ns)
  define at_ptr where "at_ptr = js ''/ir/units/'' @ nat_text n"
  define st1 where "st1 = check_unit dims ids units (n, node) st"
  have f: "u_diags (fold (check_unit dims ids units) (List.enumerate (Suc n) ns) st1) = []"
    using Cons.prems by (simp add: st1_def)
  note IH = Cons.IH [OF f]
  have d1: "u_diags st1 = []" using IH by blast
  have here: "u_diags st = [] \<and> (is_object node \<longrightarrow> unit_diags dims at_ptr node = [] \<and>
      (if is_root node then slot (u_roots st) (get node ''dimension'') = None \<and>
         root_diags units at_ptr node None = [] \<and>
         u_roots st1 = u_roots st @ [(get node ''dimension'', n)]
       else target_diags_of dims units at_ptr node (slot ids (get node ''target'')) = [] \<and>
         u_roots st1 = u_roots st)) \<and> (\<not> is_object node \<longrightarrow> u_roots st1 = u_roots st)"
    using d1 unfolding st1_def check_unit_def is_root_def at_ptr_def
    by (auto simp: Let_def root_diags_def split: if_splits option.splits)
  have grow: "slot (u_roots st1) k = None \<Longrightarrow> slot (u_roots st) k = None" for k
    using here by (cases "is_object node"; cases "is_root node") (auto simp: slot_append)
  have each: "is_object ((node # ns) ! i) \<longrightarrow>
      unit_diags dims (js ''/ir/units/'' @ nat_text (n + i)) ((node # ns) ! i) = [] \<and>
      (if is_root ((node # ns) ! i)
       then slot (u_roots st) (get ((node # ns) ! i) ''dimension'') = None \<and>
         root_diags units (js ''/ir/units/'' @ nat_text (n + i)) ((node # ns) ! i) None = []
       else target_diags_of dims units (js ''/ir/units/'' @ nat_text (n + i)) ((node # ns) ! i)
         (slot ids (get ((node # ns) ! i) ''target'')) = [])" if "i < length (node # ns)" for i
  proof (cases i)
    case 0
    then show ?thesis using here by (auto simp: at_ptr_def split: if_splits)
  next
    case (Suc k)
    then have "k < length ns" using that by simp
    then show ?thesis using IH grow Suc by (auto split: if_splits)
  qed
  have apart: "\<not> strict_eq (get ((node # ns) ! i) ''dimension'') (get ((node # ns) ! j) ''dimension'')"
    if ij: "i < j" "j < length (node # ns)" "is_root ((node # ns) ! i)" "is_root ((node # ns) ! j)" for i j
  proof (cases i)
    case 0
    obtain k where k: "j = Suc k" "k < length ns" using ij(1,2) by (cases j) auto
    have r: "is_root (ns ! k)" "is_object (ns ! k)" using ij(4) k by (simp_all add: is_root_def)
    have "is_root node" "is_object node" using ij(3) 0 by (simp_all add: is_root_def)
    then have roots: "u_roots st1 = u_roots st @ [(get node ''dimension'', n)]" using here by simp
    have "slot (u_roots st1) (get (ns ! k) ''dimension'') = None" using IH k(2) r by auto
    then show ?thesis unfolding roots slot_append using k 0 by simp
  next
    case (Suc i')
    obtain k where k: "j = Suc k" "k < length ns" using ij(1,2) by (cases j) auto
    then show ?thesis using IH ij Suc by auto
  qed
  show ?case using here each apart by blast
qed simp

definition unit_link :: "jsval list \<Rightarrow> (nat \<times> nat) set" where
  "unit_link units =
     {(p, q). p < length units \<and> q < length units \<and> is_object (units ! p) \<and> is_object (units ! q) \<and>
        get (units ! p) ''target'' \<noteq> Undefined \<and>
        get (units ! q) ''identity'' = get (units ! p) ''target''}"

definition base_units :: "jsval list \<Rightarrow> jsval \<Rightarrow> nat set" where
  "base_units units dimension =
     {r. r < length units \<and> is_root (units ! r) \<and> get (units ! r) ''dimension'' = dimension}"

definition is_base :: "jsval \<Rightarrow> bool" where
  "is_base node \<longleftrightarrow>
     is_root node \<and> get node ''scale'' = Str (js ''1'') \<and> get node ''offset'' = Str (js ''0'')"

lemma silent_rational: "rational_diags at_ptr node name = [] \<Longrightarrow> readable_rational (get node name)"
  by (auto simp: rational_diags_def readable_rational_def split: operand.splits)

lemma silent_root:
  "root_diags units at_ptr node None = [] \<Longrightarrow> unit_diags dims at_ptr node = [] \<Longrightarrow> is_root node \<Longrightarrow> is_base node"
  using silent_rational [of at_ptr node]
  by (auto simp: root_diags_def unit_diags_def is_base_def split: if_splits)

lemma silent_dimension: "unit_diags dims at_ptr node = [] \<Longrightarrow> slot dims (get node ''dimension'') \<noteq> None"
  by (auto simp: unit_diags_def split: if_splits)

lemma silent_target:
  assumes "target_diags_of dims units at_ptr node (slot ids (get node ''target'')) = []"
    and "slot dims (get node ''dimension'') \<noteq> None"
  obtains t where "slot ids (get node ''target'') = Some t"
    "slot dims (get (units ! t) ''dimension'') \<noteq> None \<Longrightarrow>
      get (units ! t) ''dimension'' = get node ''dimension''"
  using assms by (auto simp: target_diags_of_def Let_def split: option.splits if_splits dest: strict_eq_imp_eq)

lemma slot_reflects: "slot m k \<noteq> None \<Longrightarrow> strict_eq k k"
  using slot_Some [of m k] strict_eq_imp_eq by fastforce

lemma acyclic_units:
  assumes "indexed units ids" and "components (map (unit_edges ids) units) = Some []"
  shows "wf ((arcs (map (unit_edges ids) units))\<inverse>)"
proof -
  let ?g = "map (unit_edges ids) units"
  have r: "in_range ?g" by (rule unit_edges_range [OF assms(1)])
  have "(v, v) \<notin> (arcs ?g)\<^sup>+" for v
  proof
    assume v: "(v, v) \<in> (arcs ?g)\<^sup>+"
    then have "v < length ?g" using arcs_range [OF r] by (meson tranclD)
    then show False using v components_exact [OF r] assms(2) by auto
  qed
  then have "acyclic (arcs ?g)" by (simp add: acyclic_def)
  moreover have "finite (arcs ?g)"
    by (rule finite_subset [of _ "{..<length ?g} \<times> {..<length ?g}"]) (use arcs_range [OF r] in auto)
  ultimately show ?thesis by (rule finite_acyclic_wf_converse [rotated])
qed

lemma silent_unit:
  assumes "u_diags (check_units dims ids units) = []" and "i < length units" and "is_object (units ! i)"
  obtains at_ptr where "unit_diags dims at_ptr (units ! i) = []"
    "is_root (units ! i) \<Longrightarrow> root_diags units at_ptr (units ! i) None = []"
    "\<not> is_root (units ! i) \<Longrightarrow>
      target_diags_of dims units at_ptr (units ! i) (slot ids (get (units ! i) ''target'')) = []"
proof -
  note s = conjunct1 [OF conjunct2 [OF check_units_silent [OF assms(1) [unfolded check_units_def]]]]
  show ?thesis
    by (rule that [of "js ''/ir/units/'' @ nat_text (0 + i)"])
      (use s [rule_format, OF assms(2,3)] in \<open>auto split: if_splits\<close>)
qed

lemma silent_apart:
  assumes "u_diags (check_units dims ids units) = []" and "i < j" and "j < length units"
    and "is_root (units ! i)" and "is_root (units ! j)"
  shows "\<not> strict_eq (get (units ! i) ''dimension'') (get (units ! j) ''dimension'')"
  using check_units_silent [OF assms(1) [unfolded check_units_def]] assms(2-) by blast

text \<open>Following the targets of a clean document's units reaches a base unit of the same dimension.\<close>

lemma silent_reaches:
  assumes ids: "indexed units ids" and wf: "wf ((arcs (map (unit_edges ids) units))\<inverse>)"
    and silent: "u_diags (check_units dims ids units) = []"
  shows "p < length units \<Longrightarrow> is_object (units ! p) \<Longrightarrow>
    \<exists>r. (p, r) \<in> (unit_link units)\<^sup>* \<and> r < length units \<and> is_base (units ! r) \<and>
      get (units ! r) ''dimension'' = get (units ! p) ''dimension''"
proof (induction p rule: wf_induct_rule [OF wf])
  case (1 p)
  have d: "slot dims (get (units ! q) ''dimension'') \<noteq> None" if "q < length units" "is_object (units ! q)" for q
    by (rule silent_unit [OF silent that]) (rule silent_dimension)
  obtain at_ptr where at: "unit_diags dims at_ptr (units ! p) = []"
    "is_root (units ! p) \<Longrightarrow> root_diags units at_ptr (units ! p) None = []"
    "\<not> is_root (units ! p) \<Longrightarrow>
      target_diags_of dims units at_ptr (units ! p) (slot ids (get (units ! p) ''target'')) = []"
    using silent_unit [OF silent "1.prems"] by blast
  show ?case
  proof (cases "is_root (units ! p)")
    case True
    then have "is_base (units ! p)" using at(1,2) silent_root by blast
    then show ?thesis using "1.prems" by blast
  next
    case False
    obtain t where t: "slot ids (get (units ! p) ''target'') = Some t"
      "slot dims (get (units ! t) ''dimension'') \<noteq> None \<Longrightarrow>
        get (units ! t) ''dimension'' = get (units ! p) ''dimension''"
      using silent_target [OF at(3) [OF False]] d [OF "1.prems"] by blast
    note ti = slot_indexed [OF ids t(1)]
    have u: "get (units ! p) ''target'' \<noteq> Undefined" using False "1.prems" by (simp add: is_root_def)
    have "(p, t) \<in> arcs (map (unit_edges ids) units)"
      using "1.prems" u t(1) by (simp add: arcs_def unit_edges_def)
    then obtain r where "(t, r) \<in> (unit_link units)\<^sup>*" "r < length units" "is_base (units ! r)"
      "get (units ! r) ''dimension'' = get (units ! t) ''dimension''"
      using "1.IH" [of t] ti by auto
    moreover have "(p, t) \<in> unit_link units" using "1.prems" u ti by (simp add: unit_link_def)
    moreover have "get (units ! t) ''dimension'' = get (units ! p) ''dimension''" using t(2) d ti by blast
    ultimately show ?thesis by (metis converse_rtrancl_into_rtrancl)
  qed
qed

lemma silent_one_root:
  assumes silent: "u_diags (check_units dims ids units) = []"
    and "q \<in> base_units units d" and "r \<in> base_units units d"
  shows "q = r"
proof (rule ccontr)
  assume "q \<noteq> r"
  have q: "q < length units" "is_root (units ! q)" "get (units ! q) ''dimension'' = d"
    and r: "r < length units" "is_root (units ! r)" "get (units ! r) ''dimension'' = d"
    using assms(2,3) by (simp_all add: base_units_def)
  have o: "is_object (units ! q)" using q(2) by (simp add: is_root_def)
  have "slot dims d \<noteq> None"
    by (rule silent_unit [OF silent q(1) o]) (use q(3) silent_dimension in blast)
  then have "strict_eq d d" by (rule slot_reflects)
  moreover consider "q < r" | "r < q" using \<open>q \<noteq> r\<close> by linarith
  then have "\<not> strict_eq d d"
    using silent_apart [OF silent _ _ q(2) r(2)] silent_apart [OF silent _ _ r(2) q(2)] q r by cases auto
  ultimately show False by simp
qed

section \<open>Properties\<close>

text \<open>
  \<open>checkUnitGraph\<close> returns on every document, whatever its dimension and unit graphs.\<close>

lemma checkUnitGraph_ends: "\<exists>ds. checkUnitGraph document = Some ds"
  by (rule checkUnitGraph_parts [of document]) blast

text \<open>
  C12. In a document whose unit graph raises nothing, every unit converts to exactly one base unit:
  following its targets reaches a unit without target, of the same dimension, with scale 1 and
  offset 0, and no other unit without target has that dimension.
\<close>

theorem clean_units_have_one_base:
  assumes "checkUnitGraph document = Some []" and "units = list_of (get document ''units'')"
    and "p < length units" and "is_object (units ! p)"
  shows "\<exists>r. (p, r) \<in> (unit_link units)\<^sup>* \<and> is_base (units ! r) \<and>
    base_units units (get (units ! p) ''dimension'') = {r}"
proof (rule checkUnitGraph_parts [of document])
  fix dims ids ds1 ds2 dgroups ugroups cycles
  assume ids: "index_nodes document True (list_of (get document ''units'')) = (ids, ds2)"
    and groups: "components (map (unit_edges ids) (list_of (get document ''units''))) = Some ugroups"
    and len: "length cycles = length ugroups"
    and eq: "checkUnitGraph document = Some (ds1 @ ds2 @
       concat (map (\<lambda>e. snd (check_dimension dims e)) (List.enumerate 0 (list_of (get document ''dimensions'')))) @
       map (dimension_cycle (list_of (get document ''dimensions'')) dims) dgroups @
       u_diags (check_units dims ids (list_of (get document ''units''))) @ cycles)"
  have silent: "u_diags (check_units dims ids units) = []" "cycles = []"
    using eq assms(1,2) by simp_all
  have i: "indexed units ids" using index_nodes_indexed [of units document True] ids assms(2) by simp
  have "ugroups = []" using len silent(2) by simp
  then have wf: "wf ((arcs (map (unit_edges ids) units))\<inverse>)"
    using acyclic_units [OF i] groups assms(2) by simp
  obtain r where r: "(p, r) \<in> (unit_link units)\<^sup>*" "r < length units" "is_base (units ! r)"
    "get (units ! r) ''dimension'' = get (units ! p) ''dimension''"
    using silent_reaches [OF i wf silent(1) assms(3,4)] by blast
  have "r \<in> base_units units (get (units ! p) ''dimension'')"
    using r by (simp add: base_units_def is_base_def)
  then have "base_units units (get (units ! p) ''dimension'') = {r}"
    using silent_one_root [OF silent(1)] by blast
  then show ?thesis using r by blast
qed

definition demo_units :: "jsval list" where
  "demo_units =
     [Obj [(js ''identity'', Str (js ''ix://p/unit/cm'')), (js ''name'', Str (js ''cm'')),
        (js ''dimension'', Str (js ''ix://p/dimension/len'')), (js ''scale'', Str (js ''1/100'')),
        (js ''offset'', Str (js ''0'')), (js ''target'', Str (js ''ix://p/unit/m''))],
      Obj [(js ''identity'', Str (js ''ix://p/unit/m'')), (js ''name'', Str (js ''m'')),
        (js ''dimension'', Str (js ''ix://p/dimension/len'')), (js ''scale'', Str (js ''1'')),
        (js ''offset'', Str (js ''0''))]]"

definition demo_document :: jsval where
  "demo_document =
     Obj [(js ''package'', Obj [(js ''identity'', Str (js ''p''))]),
       (js ''dimensions'', Arr [Obj [(js ''identity'', Str (js ''ix://p/dimension/len'')),
          (js ''name'', Str (js ''len'')), (js ''base'', Bool True)]]),
       (js ''units'', Arr demo_units)]"

lemma demo_clean: "checkUnitGraph demo_document = Some []"
  by code_simp

theorem clean_units_have_one_base_witness:
  "\<exists>r. (0, r) \<in> (unit_link demo_units)\<^sup>* \<and> is_base (demo_units ! r) \<and>
    base_units demo_units (get (demo_units ! 0) ''dimension'') = {r}"
  by (rule clean_units_have_one_base [OF demo_clean])
    (simp_all add: demo_document_def, simp_all add: demo_units_def)

end
