(* ===== verification/ConstructModel.thy ===== *)
theory ConstructModel
  imports Constructs UnitGraph
begin

text \<open>
  \<open>src/src/compiler/constructs.mjs\<close>, second half: what the model members of a document mean -
  supertypes, effective fields, identity fields, the facts a backend carries beside a type, and
  the advisories for members no backend enforces. A \<open>Set\<close> of member values is a list searched with
  \<open>===\<close>; a type index maps the identity of a type to the last type declaring it.
\<close>

type_synonym type_index = "(jsstr \<times> jsval) list"

definition typeIndex :: "jsval \<Rightarrow> type_index" where
  "typeIndex ir =
     map_from (map (\<lambda>ty. (to_text (get ty ''identity''), ty))
       (filter (\<lambda>ty. is_object ty \<and> is_string (get ty ''identity'')) (list_of (get ir ''types''))))"

definition type_at :: "type_index \<Rightarrow> jsval \<Rightarrow> jsval option" where
  "type_at ix identity = (case identity of Str s \<Rightarrow> map_of ix s | _ \<Rightarrow> None)"

definition has_value :: "jsval list \<Rightarrow> jsval \<Rightarrow> bool" where
  "has_value vs v = list_ex (strict_eq v) vs"

definition supertypes_of :: "jsval \<Rightarrow> jsval list" where
  "supertypes_of ty = list_of (get ty ''supertypes'')"

section \<open>Supertypes\<close>

text \<open>
  \<open>visit\<close> of \<open>ancestorsOf\<close> on a list of supertype identities: the identities seen and the types in
  post-order. A nested visit takes one unit of fuel; \<open>ancestors_end\<close> shows that one per indexed
  type is enough.
\<close>

fun visit_supertypes ::
  "nat \<Rightarrow> type_index \<Rightarrow> jsval list \<Rightarrow> jsval list \<times> jsval list \<Rightarrow> (jsval list \<times> jsval list) option" where
  "visit_supertypes fuel ix [] st = Some st"
| "visit_supertypes fuel ix (identity # rest) (visited, ordered) =
     (if has_value visited identity then visit_supertypes fuel ix rest (visited, ordered)
      else (case type_at ix identity of
          None \<Rightarrow> visit_supertypes fuel ix rest (visited @ [identity], ordered)
        | Some ty \<Rightarrow>
            (case fuel of
               0 \<Rightarrow> None
             | Suc f \<Rightarrow>
                 (case visit_supertypes f ix (supertypes_of ty) (visited @ [identity], ordered) of
                    None \<Rightarrow> None
                  | Some (visited', ordered') \<Rightarrow>
                      visit_supertypes fuel ix rest (visited', ordered' @ [ty])))))"

declare visit_supertypes.simps(2) [simp del]

definition ancestorsOf :: "jsval \<Rightarrow> type_index \<Rightarrow> jsval list" where
  "ancestorsOf ty ix =
     (case visit_supertypes (length ix) ix (supertypes_of ty) ([get ty ''identity''], []) of
        None \<Rightarrow> []
      | Some (_, ordered) \<Rightarrow> ordered)"

definition abstractAncestors :: "jsval \<Rightarrow> type_index \<Rightarrow> jsval list" where
  "abstractAncestors ty ix = filter (\<lambda>one. get one ''abstract'' = Bool True) (ancestorsOf ty ix)"

section \<open>Fields\<close>

definition fields_list :: "jsval \<Rightarrow> jsval list" where
  "fields_list ty = list_of (get ty ''fields'')"

definition declared_fields :: "jsval \<Rightarrow> type_index \<Rightarrow> jsval list" where
  "declared_fields ty ix =
     filter is_object (concat (map fields_list (ancestorsOf ty ix)) @ fields_list ty)"

definition redefined_identities :: "jsval list \<Rightarrow> jsval list" where
  "redefined_identities declared = filter is_string (map (\<lambda>f. get f ''redefines'') declared)"

fun keep_fields :: "jsval list \<Rightarrow> jsval list \<Rightarrow> jsval list \<Rightarrow> jsval list" where
  "keep_fields redefined visited [] = []"
| "keep_fields redefined visited (f # fs) =
     (if has_value redefined (get f ''identity'') \<or> has_value visited (get f ''identity'')
      then keep_fields redefined visited fs
      else f # keep_fields redefined (visited @ [get f ''identity'']) fs)"

definition effectiveFields :: "jsval \<Rightarrow> type_index \<Rightarrow> jsval list" where
  "effectiveFields ty ix =
     (let declared = declared_fields ty ix
      in keep_fields (redefined_identities declared) [] declared)"

definition fieldIndex :: "jsval \<Rightarrow> type_index \<Rightarrow> (jsval \<times> jsval) list" where
  "fieldIndex ty ix =
     rev (map (\<lambda>f. (get f ''identity'', f))
       (filter is_object (concat (map fields_list (ty # ancestorsOf ty ix)))))"

definition identityFieldNames :: "construct_table \<Rightarrow> jsval \<Rightarrow> type_index \<Rightarrow> jsval list option" where
  "identityFieldNames table ty ix =
     (if equalityOf table ty \<noteq> Some (js ''identity'') then None
      else Some (filter is_string (map (\<lambda>identity.
        case slot (fieldIndex ty ix) identity of None \<Rightarrow> Undefined | Some f \<Rightarrow> get f ''name'')
        (list_of (get ty ''identityFields'')))))"

text \<open>The object spread \<open>{ ...value, name: member }\<close>.\<close>

definition with_member :: "jsval \<Rightarrow> string \<Rightarrow> jsval \<Rightarrow> jsval" where
  "with_member v name w = Obj (AList.update (js name) w (members_of v))"

definition renderingView :: "jsval \<Rightarrow> jsval" where
  "renderingView ir =
     (if \<not> is_object ir \<or> \<not> is_array (get ir ''types'') then ir
      else
        let ix = typeIndex ir; table = constructTable ir
        in with_member ir ''types'' (Arr (map (\<lambda>ty.
             if is_object ty \<and> isRecordShaped table ty \<and> supertypes_of ty \<noteq> []
             then with_member ty ''fields'' (Arr (effectiveFields ty ix)) else ty)
             (list_of (get ir ''types'')))))"

section \<open>The facts of a construct\<close>

definition texts :: "jsval \<Rightarrow> string \<Rightarrow> jsval" where
  "texts v name = Arr (list_of (get v name))"

definition fact :: "bool \<Rightarrow> string \<Rightarrow> jsval \<Rightarrow> (jsstr \<times> jsval) list" where
  "fact holds name v = (if holds then [(js name, v)] else [])"

definition inline_clauses :: "jsval \<Rightarrow> string \<Rightarrow> (jsstr \<times> jsval) list" where
  "inline_clauses operation member =
     (let inline = filter is_object (list_of (get operation member))
      in fact (inline \<noteq> []) member (Arr (map (\<lambda>clause.
           Obj [(js ''language'', get clause ''language''), (js ''text'', get clause ''text'')]) inline)))"

definition operationContract :: "jsval \<Rightarrow> jsval option" where
  "operationContract operation =
     (let frame = get operation ''frame'';
          contract = fact (is_object frame) ''frame''
              (Obj [(js ''modifies'', texts frame ''modifies''), (js ''creates'', texts frame ''creates''),
                (js ''deletes'', texts frame ''deletes'')]) @
            inline_clauses operation ''pre'' @ inline_clauses operation ''post''
      in if contract = [] then None else Some (Obj contract))"

definition named_pairs :: "jsval \<Rightarrow> string \<Rightarrow> (jsval \<times> jsval) list" where
  "named_pairs ty member =
     rev (map (\<lambda>one. (get one ''identity'', get one ''name'')) (list_of (get ty member)))"

definition slot_or :: "(jsval \<times> jsval) list \<Rightarrow> jsval \<Rightarrow> jsval" where
  "slot_or m k = (case slot m k of None \<Rightarrow> k | Some v \<Rightarrow> coalesce v k)"

definition rendered_transition :: "jsval \<Rightarrow> jsval \<Rightarrow> jsval" where
  "rendered_transition ty t =
     Obj ([(js ''identity'', get t ''identity''),
       (js ''from'', slot_or (named_pairs ty ''states'') (get t ''from'')),
       (js ''to'', slot_or (named_pairs ty ''states'') (get t ''to'')),
       (js ''trigger'', slot_or (named_pairs ty ''operations'') (get t ''trigger'')),
       (js ''emits'', texts t ''emits'')] @
       fact (is_string (get t ''guard'')) ''guard'' (get t ''guard''))"

definition rendered_step :: "jsval \<Rightarrow> jsval" where
  "rendered_step s =
     Obj [(js ''identity'', get s ''identity''), (js ''name'', get s ''name''),
       (js ''stepKind'', get s ''stepKind''), (js ''consumes'', texts s ''consumes''),
       (js ''emits'', texts s ''emits'')]"

definition field_name :: "(jsval \<times> jsval) list \<Rightarrow> jsval \<Rightarrow> jsval" where
  "field_name ixf identity =
     (case slot ixf identity of None \<Rightarrow> identity | Some f \<Rightarrow> coalesce (get f ''name'') identity)"

text \<open>Assignments \<open>object[key] = value\<close>, in order.\<close>

definition assign_all :: "(jsval \<times> jsval) list \<Rightarrow> (jsstr \<times> jsval) list" where
  "assign_all ps = fold (\<lambda>(k, v). AList.update (to_text k) v) ps []"

definition own_fields :: "jsval \<Rightarrow> jsval list" where
  "own_fields ty = filter is_object (fields_list ty)"

definition field_facts :: "(jsval \<times> jsval) list \<Rightarrow> jsval \<Rightarrow> (jsstr \<times> jsval) list" where
  "field_facts ixf ty =
     (let subsets = assign_all (concat (map (\<lambda>f.
            if list_of (get f ''subsets'') \<noteq> []
            then [(get f ''name'', Arr (map (field_name ixf) (list_of (get f ''subsets''))))] else [])
            (own_fields ty)));
          redefines = assign_all (concat (map (\<lambda>f.
            if is_string (get f ''redefines'')
            then [(get f ''name'', field_name ixf (get f ''redefines''))] else []) (own_fields ty)));
          contracts = assign_all (concat (map (\<lambda>one.
            case operationContract one of None \<Rightarrow> [] | Some c \<Rightarrow> [(get one ''name'', c)])
            (filter is_object (list_of (get ty ''operations'')))))
      in fact (subsets \<noteq> []) ''subsets'' (Obj subsets) @ fact (redefines \<noteq> []) ''redefines'' (Obj redefines) @
         fact (contracts \<noteq> []) ''operationContracts'' (Obj contracts))"

definition member_facts :: "construct_table \<Rightarrow> (jsval \<times> jsval) list \<Rightarrow> jsval \<Rightarrow> (jsstr \<times> jsval) list" where
  "member_facts table ixf ty =
     fact (admits table ty ''owner'' \<and> is_string (get ty ''owner'')) ''owner'' (get ty ''owner'') @
     fact (admits table ty ''members'') ''members'' (texts ty ''members'') @
     fact (admits table ty ''occurrenceField'' \<and> is_string (get ty ''occurrenceField'')) ''occurrenceField''
       (field_name ixf (get ty ''occurrenceField'')) @
     fact (equalityOf table ty = Some (js ''value'')) ''equality'' (Str (js ''value'')) @
     fact (case declarationOf table ty of None \<Rightarrow> False | Some d \<Rightarrow> map_of (dc_flags d) (js ''immutable'') = Some True)
       ''immutable'' (Bool True) @
     fact (admits table ty ''states'') ''states''
       (Arr (map (\<lambda>s. get s ''name'') (list_of (get ty ''states'')))) @
     fact (admits table ty ''transitions'') ''transitions''
       (Arr (map (rendered_transition ty) (list_of (get ty ''transitions'')))) @
     fact (admits table ty ''steps'') ''steps'' (Arr (map rendered_step (list_of (get ty ''steps'')))) @
     fact (admits table ty ''persists'') ''persists'' (texts ty ''persists'') @
     fact (admits table ty ''vocabulary'') ''vocabulary''
       (Arr (map (\<lambda>t. Obj [(js ''term'', get t ''term''), (js ''doc'', get t ''doc'')])
         (list_of (get ty ''vocabulary''))))"

definition constructOf :: "construct_table \<Rightarrow> jsval \<Rightarrow> type_index \<Rightarrow> jsval option" where
  "constructOf table ty ix =
     (if \<not> is_object ty then None
      else
        let construct = declarationOf table ty \<noteq> None;
            ixf = fieldIndex ty ix;
            facts = fact construct ''kind'' (Str (kindName (get ty ''kind''))) @
              fact (supertypes_of ty \<noteq> []) ''supertypes'' (Arr (supertypes_of ty)) @
              fact (get ty ''abstract'' = Bool True) ''abstract'' (Bool True) @
              (case identityFieldNames table ty ix of None \<Rightarrow> []
               | Some names \<Rightarrow> [(js ''identityFields'', Arr names)]) @
              member_facts table ixf ty @ field_facts ixf ty
        in if construct \<or> facts \<noteq> [] then Some (Obj facts) else None)"

definition populationsOf :: "jsval \<Rightarrow> jsval list" where
  "populationsOf ir =
     map (\<lambda>p. Obj [(js ''identity'', get p ''identity''), (js ''displayName'', get p ''displayName''),
       (js ''kind'', Obj (members_of (get p ''kind''))), (js ''members'', texts p ''members''),
       (js ''extent'', get p ''extent'')])
       (list_of (get ir ''populations''))"

section \<open>Name collisions\<close>

fun repeated_names :: "jsstr \<Rightarrow> jsval list \<Rightarrow> jsval list \<Rightarrow> (jsstr \<times> jsval) list" where
  "repeated_names pointer visited [] = []"
| "repeated_names pointer visited (f # fs) =
     (if has_value visited (get f ''name'') then [(pointer, get f ''name'')] else []) @
     repeated_names pointer (visited @ [get f ''name'']) fs"

definition inheritedNameCollisions :: "jsval \<Rightarrow> (jsstr \<times> jsval) list" where
  "inheritedNameCollisions ir =
     (let ix = typeIndex ir; table = constructTable ir
      in concat (map (\<lambda>(n, ty).
           if is_object ty \<and> isRecordShaped table ty \<and> supertypes_of ty \<noteq> []
           then repeated_names (js ''/types/'' @ nat_text n @ js ''/fields'') [] (effectiveFields ty ix)
           else []) (List.enumerate 0 (list_of (get ir ''types'')))))"

section \<open>Unenforced members\<close>

definition UNENFORCED_MEMBERS :: "(string \<times> string) list" where
  "UNENFORCED_MEMBERS =
     [(''clauses'', ''agent-ix/filament-core-data#159''), (''guards'', ''agent-ix/filament-core-data#160''),
      (''transitions'', ''agent-ix/filament-core-data#161''), (''subsets'', ''agent-ix/filament-core-data#162''),
      (''frames'', ''agent-ix/filament-core-data#163''), (''populations'', ''agent-ix/filament-core-data#164'')]"

text \<open>The calls of \<open>note\<close> for one type, in order; only the first of each member counts.\<close>

definition operation_notes :: "jsstr \<Rightarrow> nat \<times> jsval \<Rightarrow> (string \<times> jsstr) list" where
  "operation_notes at_ptr e =
     (let (position, operation) = e; here = at_ptr @ js ''/operations/'' @ nat_text position
      in concat (map (\<lambda>member.
           if list_ex is_object (list_of (get operation member))
           then [(''clauses'', here @ js ''/'' @ js member)] else []) [''pre'', ''post'']) @
         (if is_object (get operation ''frame'') then [(''frames'', here @ js ''/frame'')] else []))"

definition type_notes :: "nat \<times> jsval \<Rightarrow> (string \<times> jsstr) list" where
  "type_notes e =
     (let (index, ty) = e; at_ptr = js ''/ir/types/'' @ nat_text index
      in if \<not> is_object ty then []
         else (if list_of (get ty ''clauses'') \<noteq> [] then [(''clauses'', at_ptr @ js ''/clauses'')] else []) @
           concat (map (operation_notes at_ptr) (List.enumerate 0 (list_of (get ty ''operations'')))) @
           concat (map (\<lambda>(position, t).
             (''transitions'', at_ptr @ js ''/transitions/'' @ nat_text position) #
             (if is_string (get t ''guard'')
              then [(''guards'', at_ptr @ js ''/transitions/'' @ nat_text position @ js ''/guard'')] else []))
             (List.enumerate 0 (list_of (get ty ''transitions'')))) @
           concat (map (\<lambda>(position, f).
             if list_of (get f ''subsets'') \<noteq> []
             then [(''subsets'', at_ptr @ js ''/fields/'' @ nat_text position @ js ''/subsets'')] else [])
             (List.enumerate 0 (fields_list ty))))"

definition unenforcedMemberPointers :: "jsval \<Rightarrow> (string \<times> jsstr) list" where
  "unenforcedMemberPointers ir =
     (if get ir ''contractVersion'' \<noteq> Str (js ''2.0.0'') then []
      else
        let notes = concat (map type_notes (List.enumerate 0 (list_of (get ir ''types'')))) @
          (if list_of (get ir ''populations'') \<noteq> [] then [(''populations'', js ''/ir/populations'')] else [])
        in fold (\<lambda>(member, pointer) found.
             if map_of found member = None then found @ [(member, pointer)] else found) notes [])"

definition unenforcedMemberAdvisories :: "jsval \<Rightarrow> jsstr \<Rightarrow> diag list" where
  "unenforcedMemberAdvisories ir backend =
     (let pointers = unenforcedMemberPointers ir
      in concat (map (\<lambda>(member, issue).
           case map_of pointers member of
             None \<Rightarrow> []
           | Some pointer \<Rightarrow> [diag_named ''CONSTRUCT_MEMBER_UNENFORCED''
               (pointer @ js '': the '' @ backend @ js '' backend carries '' @ js member
                 @ js '' as data and enforces none (declared loss, '' @ js issue @ js '')'') [] [] None])
           UNENFORCED_MEMBERS))"

section \<open>What the supertype search visits\<close>

definition super_rel :: "type_index \<Rightarrow> (jsval \<times> jsval) set" where
  "super_rel ix = {(i, j). \<exists>ty. type_at ix i = Some ty \<and> j \<in> set (supertypes_of ty)}"

lemma type_at_Some: "type_at ix k = Some ty \<Longrightarrow> \<exists>s. k = Str s \<and> (s, ty) \<in> set ix"
  by (auto simp: type_at_def split: jsval.splits dest: map_of_SomeD)

lemma has_value_set: "has_value vs v \<Longrightarrow> v \<in> set vs"
  by (auto simp: has_value_def list_ex_iff dest: strict_eq_imp_eq)

lemma has_value_Str [simp]: "has_value vs (Str s) \<longleftrightarrow> Str s \<in> set vs"
  by (force simp: has_value_def list_ex_iff dest: strict_eq_imp_eq)

text \<open>The types a search adds, by their keys.\<close>

definition adds :: "type_index \<Rightarrow> jsval list \<Rightarrow> jsval list \<Rightarrow> jsval list \<Rightarrow> jsval list \<Rightarrow> bool" where
  "adds ix visited visited' ordered ordered' \<longleftrightarrow>
     (\<exists>ks. ordered' = ordered @ map (\<lambda>k. the (type_at ix k)) ks \<and> distinct ks \<and>
        set ks = {k \<in> set visited' - set visited. type_at ix k \<noteq> None})"

lemma adds_refl: "adds ix v v o1 o1"
  unfolding adds_def by (intro exI [of _ "[]"]) auto

lemma adds_trans:
  assumes "adds ix v1 v2 o1 o2" and "adds ix v2 v3 o2 o3" and "set v1 \<subseteq> set v2" and "set v2 \<subseteq> set v3"
  shows "adds ix v1 v3 o1 o3"
proof -
  obtain ks where ks: "o2 = o1 @ map (\<lambda>k. the (type_at ix k)) ks" "distinct ks"
    "set ks = {k \<in> set v2 - set v1. type_at ix k \<noteq> None}"
    using assms(1) unfolding adds_def by blast
  obtain ls where ls: "o3 = o2 @ map (\<lambda>k. the (type_at ix k)) ls" "distinct ls"
    "set ls = {k \<in> set v3 - set v2. type_at ix k \<noteq> None}"
    using assms(2) unfolding adds_def by blast
  show ?thesis
    unfolding adds_def by (intro exI [of _ "ks @ ls"]) (use ks ls assms(3,4) in auto)
qed

lemma adds_skip: "type_at ix i = None \<Longrightarrow> adds ix v (v @ [i]) o1 o1"
  unfolding adds_def by (intro exI [of _ "[]"]) auto

lemma adds_type:
  assumes "type_at ix i = Some ty" and "i \<notin> set v" and "adds ix (v @ [i]) v' o1 o2" and "set (v @ [i]) \<subseteq> set v'"
  shows "adds ix v v' o1 (o2 @ [ty])"
proof -
  obtain ks where ks: "o2 = o1 @ map (\<lambda>k. the (type_at ix k)) ks" "distinct ks"
    "set ks = {k \<in> set v' - set (v @ [i]). type_at ix k \<noteq> None}"
    using assms(3) unfolding adds_def by blast
  show ?thesis
    unfolding adds_def by (intro exI [of _ "ks @ [i]"]) (use ks assms in auto)
qed

lemma visit_right:
  "visit_supertypes fuel ix is (visited, ordered) = Some (visited', ordered') \<Longrightarrow>
    set visited \<union> set is \<subseteq> set visited' \<and> adds ix visited visited' ordered ordered' \<and>
    (\<forall>j\<in>set visited' - set visited. (\<exists>i\<in>set is. (i, j) \<in> (super_rel ix)\<^sup>*) \<and>
      super_rel ix `` {j} \<subseteq> set visited')"
proof (induction fuel ix "is" "(visited, ordered)" arbitrary: visited ordered visited' ordered'
    rule: visit_supertypes.induct)
  case (1 fuel ix visited ordered)
  then show ?case by (simp add: adds_refl)
next
  case (2 fuel ix i rest visited ordered visited' ordered')
  show ?case
  proof (cases "has_value visited i")
    case True
    then have "visit_supertypes fuel ix rest (visited, ordered) = Some (visited', ordered')"
      using "2.prems" by (simp add: visit_supertypes.simps)
    note IH = "2.hyps"(1) [OF True this]
    then show ?thesis using has_value_set [OF True] by auto
  next
    case False
    show ?thesis
    proof (cases "type_at ix i")
      case None
      then have "visit_supertypes fuel ix rest (visited @ [i], ordered) = Some (visited', ordered')"
        using "2.prems" False by (simp add: visit_supertypes.simps)
      note IH = "2.hyps"(2) [OF False None this]
      have "super_rel ix `` {i} = {}" using None by (auto simp: super_rel_def)
      moreover have "adds ix visited visited' ordered ordered'"
        by (rule adds_trans [OF adds_skip [OF None]]) (use IH in auto)
      ultimately show ?thesis using IH by auto
    next
      case (Some ty)
      obtain f where f: "fuel = Suc f"
        using "2.prems" False Some by (cases fuel) (simp_all add: visit_supertypes.simps)
      obtain v1 o1 where v1: "visit_supertypes f ix (supertypes_of ty) (visited @ [i], ordered) = Some (v1, o1)"
        and v2: "visit_supertypes fuel ix rest (v1, o1 @ [ty]) = Some (visited', ordered')"
        using "2.prems" False Some f by (auto simp: visit_supertypes.simps split: option.splits)
      note IH1 = "2.hyps"(3) [OF False Some f v1]
      note IH2 = "2.hyps"(4) [OF False Some f v1 refl v2]
      have ni: "i \<notin> set visited" using False type_at_Some [OF Some] by auto
      have "adds ix visited v1 ordered (o1 @ [ty])"
        by (rule adds_type [OF Some ni]) (use IH1 in auto)
      then have a: "adds ix visited visited' ordered ordered'"
        by (rule adds_trans) (use IH1 IH2 in auto)
      have s: "super_rel ix `` {i} = set (supertypes_of ty)" using Some by (auto simp: super_rel_def)
      have r: "(\<exists>k\<in>set (i # rest). (k, j) \<in> (super_rel ix)\<^sup>*) \<and> super_rel ix `` {j} \<subseteq> set visited'"
        if j: "j \<in> set visited' - set visited" for j
      proof -
        consider "j = i" | "j \<in> set v1 - set (visited @ [i])" | "j \<in> set visited' - set v1"
          using j by auto
        then show ?thesis
        proof cases
          case 1
          then show ?thesis using s IH1 IH2 by auto
        next
          case 2
          then obtain k where "k \<in> set (supertypes_of ty)" "(k, j) \<in> (super_rel ix)\<^sup>*"
            "super_rel ix `` {j} \<subseteq> set v1" using IH1 by blast
          moreover from this have "(i, k) \<in> super_rel ix" using s by blast
          ultimately show ?thesis using IH2 by (auto intro: converse_rtrancl_into_rtrancl)
        next
          case 3
          then show ?thesis using IH2 by auto
        qed
      qed
      then show ?thesis using a IH1 IH2 by auto
    qed
  qed
qed

definition unseen_types :: "type_index \<Rightarrow> jsval list \<Rightarrow> nat" where
  "unseen_types ix visited = card (Str ` fst ` set ix - set visited)"

lemma unseen_types_step:
  assumes "type_at ix i = Some ty" and "i \<notin> set visited"
  shows "unseen_types ix (visited @ [i]) < unseen_types ix visited"
  unfolding unseen_types_def
proof (rule psubset_card_mono)
  have "i \<in> Str ` fst ` set ix" using type_at_Some [OF assms(1)] by force
  then show "Str ` fst ` set ix - set (visited @ [i]) \<subset> Str ` fst ` set ix - set visited"
    using assms(2) by auto
qed simp

lemma unseen_types_mono: "set v \<subseteq> set v' \<Longrightarrow> unseen_types ix v' \<le> unseen_types ix v"
  unfolding unseen_types_def by (intro card_mono) auto

lemma visit_supertypes_end:
  "unseen_types ix visited \<le> fuel \<Longrightarrow> \<exists>st. visit_supertypes fuel ix is (visited, ordered) = Some st"
proof (induction fuel ix "is" "(visited, ordered)" arbitrary: visited ordered rule: visit_supertypes.induct)
  case (2 fuel ix i rest visited ordered)
  show ?case
  proof (cases "has_value visited i")
    case True
    then show ?thesis using 2 by (simp add: visit_supertypes.simps)
  next
    case False
    show ?thesis
    proof (cases "type_at ix i")
      case None
      have "unseen_types ix (visited @ [i]) \<le> fuel"
        using unseen_types_mono [of visited "visited @ [i]" ix] "2.prems"
        by (simp add: subset_insertI)
      then show ?thesis using 2(2) False None by (simp add: visit_supertypes.simps)
    next
      case (Some ty)
      have ni: "i \<notin> set visited" using False type_at_Some [OF Some] by auto
      then obtain f where f: "fuel = Suc f" "unseen_types ix (visited @ [i]) \<le> f"
        using unseen_types_step [OF Some ni] "2.prems" by (cases fuel) auto
      obtain v1 o1 where v1: "visit_supertypes f ix (supertypes_of ty) (visited @ [i], ordered) = Some (v1, o1)"
        using "2.hyps"(3) [OF False Some f(1) f(2)] by auto
      have "set visited \<subseteq> set v1" using visit_right [OF v1] by auto
      then have "unseen_types ix v1 \<le> fuel"
        using unseen_types_mono "2.prems" order_trans by blast
      then show ?thesis
        using "2.hyps"(4) [OF False Some f(1) v1 refl] False Some f(1) v1
        by (simp add: visit_supertypes.simps)
    qed
  qed
qed simp

lemma ancestors_end: "\<exists>st. visit_supertypes (length ix) ix is (visited, ordered) = Some st"
proof (rule visit_supertypes_end)
  have "unseen_types ix visited \<le> card (Str ` fst ` set ix)"
    unfolding unseen_types_def by (intro card_mono) auto
  also have "\<dots> \<le> card (set ix)" by (simp add: card_image_le order_trans [OF card_image_le])
  also have "\<dots> \<le> length ix" by (rule card_length)
  finally show "unseen_types ix visited \<le> length ix" .
qed

section \<open>What the field filter keeps\<close>

lemma has_value_append: "has_value (vs @ [w]) v \<longleftrightarrow> has_value vs v \<or> strict_eq v w"
  by (auto simp: has_value_def)

lemma keep_fields_identities:
  "(\<lambda>f. get f ''identity'') ` set (keep_fields redefined visited fs) =
    {i \<in> (\<lambda>f. get f ''identity'') ` set fs. \<not> has_value redefined i \<and> \<not> has_value visited i}"
proof (induction redefined visited fs rule: keep_fields.induct)
  case (2 redefined visited f fs)
  show ?case
  proof (cases "has_value redefined (get f ''identity'') \<or> has_value visited (get f ''identity'')")
    case True
    then show ?thesis using 2 by auto
  next
    case False
    then have "(\<lambda>f. get f ''identity'') ` set (keep_fields redefined visited (f # fs)) =
        insert (get f ''identity'') {i \<in> (\<lambda>f. get f ''identity'') ` set fs.
          \<not> has_value redefined i \<and> \<not> has_value (visited @ [get f ''identity'']) i}"
      using 2 by simp
    also have "\<dots> = {i \<in> (\<lambda>f. get f ''identity'') ` set (f # fs).
          \<not> has_value redefined i \<and> \<not> has_value visited i}"
      using False strict_eq_imp_eq by (auto simp: has_value_append)
    finally show ?thesis .
  qed
qed simp

lemma keep_fields_distinct:
  "distinct (filter is_string (map (\<lambda>f. get f ''identity'') (keep_fields redefined visited fs)))"
proof (induction redefined visited fs rule: keep_fields.induct)
  case (2 redefined visited f fs)
  show ?case
  proof (cases "has_value redefined (get f ''identity'') \<or> has_value visited (get f ''identity'')")
    case True
    then show ?thesis using 2 by simp
  next
    case False
    have "get f ''identity'' \<notin> (\<lambda>f. get f ''identity'') ` set (keep_fields redefined
        (visited @ [get f ''identity'']) fs)" if "is_string (get f ''identity'')"
    proof -
      from that obtain t where "get f ''identity'' = Str t" by (cases "get f ''identity''") simp_all
      then show ?thesis unfolding keep_fields_identities by (simp add: has_value_append)
    qed
    then show ?thesis using False 2 by auto
  qed
qed simp

lemma has_value_strings: "list_all is_string vs \<Longrightarrow> has_value vs v \<longleftrightarrow> v \<in> set vs"
  by (cases v) (auto simp: has_value_def list_ex_iff list_all_iff dest: strict_eq_imp_eq
      intro: bexI [of _ "Str _"])

section \<open>Properties\<close>

text \<open>
  \<open>ancestorsOf\<close> lists exactly the indexed types reachable from the type through declared
  supertypes, each once and never the type itself, also when the supertype graph has cycles or
  names types the document does not declare.
\<close>

lemma ancestorsOf_exact:
  assumes "type_at ix (get ty ''identity'') = Some ty"
  shows "\<exists>ks. ancestorsOf ty ix = map (\<lambda>k. the (type_at ix k)) ks \<and> distinct ks \<and>
    set ks = {j. (get ty ''identity'', j) \<in> (super_rel ix)\<^sup>+ \<and> j \<noteq> get ty ''identity'' \<and> type_at ix j \<noteq> None}"
proof -
  let ?o = "get ty ''identity''"
  obtain v' o' where v: "visit_supertypes (length ix) ix (supertypes_of ty) ([?o], []) = Some (v', o')"
    using ancestors_end [of ix "supertypes_of ty" "[?o]" "[]"] by auto
  have own: "super_rel ix `` {?o} = set (supertypes_of ty)" using assms by (auto simp: super_rel_def)
  note r = visit_right [OF v]
  obtain ks where ks: "o' = map (\<lambda>k. the (type_at ix k)) ks" "distinct ks"
    "set ks = {k \<in> set v' - {?o}. type_at ix k \<noteq> None}"
    using r unfolding adds_def by auto
  have "j \<in> set v'" if "(?o, j) \<in> (super_rel ix)\<^sup>+" for j
    using that
  proof (induction rule: trancl_induct)
    case (base j)
    then show ?case using own r by blast
  next
    case (step i j)
    then show ?case using own r by (cases "i = ?o") auto
  qed
  moreover have "(?o, j) \<in> (super_rel ix)\<^sup>+" if j: "j \<in> set v' - {?o}" for j
  proof -
    have "j \<in> set v' - set [?o]" using j by simp
    then obtain i where "i \<in> set (supertypes_of ty)" "(i, j) \<in> (super_rel ix)\<^sup>*" using r by blast
    moreover from this have "(?o, i) \<in> super_rel ix" using own by blast
    ultimately show ?thesis by (metis rtrancl_into_trancl2)
  qed
  ultimately have "set ks = {j. (?o, j) \<in> (super_rel ix)\<^sup>+ \<and> j \<noteq> ?o \<and> type_at ix j \<noteq> None}"
    using ks(3) by auto
  then show ?thesis using ks(1,2) v by (auto simp: ancestorsOf_def)
qed

definition demo_type :: "string \<Rightarrow> string list \<Rightarrow> jsval" where
  "demo_type identity supers =
     Obj [(js ''identity'', Str (js identity)), (js ''supertypes'', Arr (map (\<lambda>s. Str (js s)) supers))]"

definition demo_types :: type_index where
  "demo_types = map (\<lambda>(n, supers). (js n, demo_type n supers))
     [(''a'', [''b'', ''c'']), (''b'', [''d'', ''gone'']), (''c'', [''d'', ''a'']), (''d'', [])]"

lemma demo_ancestors:
  "map (\<lambda>t. get t ''identity'') (ancestorsOf (demo_type ''a'' [''b'', ''c'']) demo_types) =
    map (\<lambda>s. Str (js s)) [''d'', ''b'', ''c'']"
  by code_simp

lemma ancestorsOf_exact_witness:
  "\<exists>ks. ancestorsOf (demo_type ''a'' [''b'', ''c'']) demo_types = map (\<lambda>k. the (type_at demo_types k)) ks \<and>
    distinct ks \<and>
    set ks = {j. (Str (js ''a''), j) \<in> (super_rel demo_types)\<^sup>+ \<and> j \<noteq> Str (js ''a'') \<and> type_at demo_types j \<noteq> None}"
  using ancestorsOf_exact [of demo_types "demo_type ''a'' [''b'', ''c'']"]
  by (simp add: demo_type_def demo_types_def type_at_def)

text \<open>
  C15. The effective fields of a type are its declared and inherited fields, less the redefined ones,
  with no identity twice: the identities they carry are exactly the declared identities that no
  declared field redefines.
\<close>

theorem effectiveFields_exact:
  "(\<lambda>f. get f ''identity'') ` set (effectiveFields ty ix) =
     (\<lambda>f. get f ''identity'') ` set (declared_fields ty ix) -
     set (redefined_identities (declared_fields ty ix)) \<and>
   distinct (filter is_string (map (\<lambda>f. get f ''identity'') (effectiveFields ty ix)))"
proof -
  have "list_all is_string (redefined_identities ds)" for ds
    by (simp add: redefined_identities_def list_all_iff)
  then have "has_value (redefined_identities ds) v \<longleftrightarrow> v \<in> set (redefined_identities ds)" for ds v
    by (rule has_value_strings)
  then show ?thesis
    unfolding effectiveFields_def Let_def keep_fields_identities
    using keep_fields_distinct by (auto simp: has_value_def)
qed

end
