(* ===== verification/Applicability.thy ===== *)
theory Applicability
  imports JsVal
begin

text \<open>
  The applicability table of \<open>src/src/compiler/ir/applicability.mjs\<close> with the edge vocabulary of
  \<open>edge-vocabulary.json\<close>: which constraint keyword applies to which subject, the closed edge
  categories and the admitted clause languages.
\<close>

section \<open>Edges\<close>

definition PART_OF :: jsstr where
  "PART_OF = js ''part_of''"

text \<open>A row of the vocabulary: the verb, its category and its inverse label.\<close>

definition edge_row :: "string \<Rightarrow> string \<Rightarrow> string option \<Rightarrow> jsstr \<times> jsstr \<times> jsstr option" where
  "edge_row verb category opposite = (js verb, js category, map_option js opposite)"

definition EDGE_VOCABULARY :: "(jsstr \<times> jsstr \<times> jsstr option) list" where
  "EDGE_VOCABULARY =
     [edge_row ''contains'' ''structural'' (Some ''part_of''),
      edge_row ''aggregates'' ''structural'' (Some ''part_of''),
      edge_row ''composes'' ''structural'' (Some ''composed_by''),
      edge_row ''contained_by'' ''structural'' (Some ''contains''),
      edge_row ''calls'' ''behavioral'' (Some ''called_by''),
      edge_row ''triggers'' ''behavioral'' None,
      edge_row ''reads'' ''dataflow'' None,
      edge_row ''writes'' ''dataflow'' None,
      edge_row ''publishes'' ''dataflow'' (Some ''consumed_by''),
      edge_row ''depends_on'' ''dependency'' None,
      edge_row ''implements'' ''dependency'' (Some ''implemented_by''),
      edge_row ''persists'' ''dependency'' None,
      edge_row ''operates_on'' ''realization'' None,
      edge_row ''references'' ''traceability'' None,
      edge_row ''traces_to'' ''traceability'' None,
      edge_row ''derives_from'' ''traceability'' (Some ''derives_into''),
      edge_row ''verifies'' ''traceability'' None]"

definition EDGE_CATEGORIES :: "jsstr list" where
  "EDGE_CATEGORIES = map js [''structural'', ''behavioral'', ''dataflow'', ''dependency'',
     ''realization'', ''governance'', ''traceability'']"

section \<open>Constraint keywords\<close>

definition ordered_subjects :: "jsstr list" where
  "ordered_subjects = map js [''integer'', ''number'', ''decimal'', ''float32'', ''float64'',
     ''date'', ''datetime'', ''duration'']"

definition KEYWORD_APPLICABILITY :: "(jsstr \<times> jsstr list) list" where
  "KEYWORD_APPLICABILITY =
     [(js ''min'', ordered_subjects),
      (js ''max'', ordered_subjects),
      (js ''exclusiveMin'', ordered_subjects),
      (js ''exclusiveMax'', ordered_subjects),
      (js ''minLength'', map js [''string'', ''bytes'']),
      (js ''maxLength'', map js [''string'', ''bytes'']),
      (js ''pattern'', [js ''string'']),
      (js ''enumValues'', map js [''boolean'', ''integer'', ''number'', ''decimal'', ''float32'',
         ''float64'', ''string'', ''bytes'', ''date'', ''datetime'', ''duration'', ''uuid'']),
      (js ''nonEmpty'', map js [''string'', ''bytes'', ''sequence'', ''map'']),
      (js ''unique'', [js ''sequence'']),
      (js ''format'', [js ''string''])]"

definition CONSTRAINT_KEYWORDS :: "jsstr list" where
  "CONSTRAINT_KEYWORDS = map fst KEYWORD_APPLICABILITY"

definition isKeyword :: "jsstr \<Rightarrow> bool" where
  "isKeyword keyword \<longleftrightarrow> map_of KEYWORD_APPLICABILITY keyword \<noteq> None"

text \<open>The scalar is the name a reference resolved to, or \<open>None\<close> for \<open>undefined\<close>.\<close>

definition applies :: "jsstr \<Rightarrow> jsstr \<Rightarrow> jsstr option \<Rightarrow> bool" where
  "applies keyword kind scalar =
     (if \<not> isKeyword keyword then False
      else (if kind = js ''scalar'' then (case scalar of None \<Rightarrow> js ''undefined'' | Some s \<Rightarrow> s) else kind)
        \<in> set (the (map_of KEYWORD_APPLICABILITY keyword)))"

section \<open>Clause languages\<close>

definition CORE_CLAUSE_LANGUAGES :: "jsstr list" where
  "CORE_CLAUSE_LANGUAGES = map js [''quire'', ''ocl'', ''sysml'', ''fretish'']"

definition lower_unit :: "16 word \<Rightarrow> bool" where
  "lower_unit u \<longleftrightarrow> 97 \<le> u \<and> u \<le> 122"

definition upper_unit :: "16 word \<Rightarrow> bool" where
  "upper_unit u \<longleftrightarrow> 65 \<le> u \<and> u \<le> 90"

definition letter_unit :: "16 word \<Rightarrow> bool" where
  "letter_unit u \<longleftrightarrow> lower_unit u \<or> upper_unit u"

text \<open>A text whose first unit is of one class and whose other units are of another.\<close>

definition headed :: "(16 word \<Rightarrow> bool) \<Rightarrow> (16 word \<Rightarrow> bool) \<Rightarrow> jsstr \<Rightarrow> bool" where
  "headed h t s = (case s of [] \<Rightarrow> False | u # us \<Rightarrow> h u \<and> list_all t us)"

text \<open>
  \<open>/^[a-z0-9][a-z0-9.-]*:[A-Za-z0-9][A-Za-z0-9._-]*$/\<close>. Neither class holds the colon, so a text
  matches exactly when it has one colon and both sides match.
\<close>

definition NAMESPACED_LANGUAGE :: "jsstr \<Rightarrow> bool" where
  "NAMESPACED_LANGUAGE s =
     (case split_at 58 s of
        [p, q] \<Rightarrow>
          headed (\<lambda>u. lower_unit u \<or> is_digit_unit u)
            (\<lambda>u. lower_unit u \<or> is_digit_unit u \<or> u = 46 \<or> u = 45) p \<and>
          headed (\<lambda>u. letter_unit u \<or> is_digit_unit u)
            (\<lambda>u. letter_unit u \<or> is_digit_unit u \<or> u = 46 \<or> u = 95 \<or> u = 45) q
      | _ \<Rightarrow> False)"

text \<open>Every verb of the vocabulary draws its category from the closed set.\<close>

lemma edge_vocabulary_closed: "list_all (\<lambda>(_, c, _). c \<in> set EDGE_CATEGORIES) EDGE_VOCABULARY"
  by code_simp

text \<open>Only the two containment verbs are composite, that is, have the inverse \<open>part_of\<close>.\<close>

lemma composite_verbs:
  "map fst (filter (\<lambda>(_, _, i). i = Some PART_OF) EDGE_VOCABULARY) = map js [''contains'', ''aggregates'']"
  by code_simp

lemma applies_table:
  "applies k kind scalar \<longleftrightarrow>
     (\<exists>row. map_of KEYWORD_APPLICABILITY k = Some row \<and>
        (if kind = js ''scalar'' then (case scalar of None \<Rightarrow> js ''undefined'' | Some s \<Rightarrow> s) else kind) \<in> set row)"
  by (auto simp: applies_def isKeyword_def)

lemma core_languages_plain: "list_all (\<lambda>l. \<not> NAMESPACED_LANGUAGE l) CORE_CLAUSE_LANGUAGES"
  by code_simp

end
