(* ===== verification/ReaderChecks.thy ===== *)
theory ReaderChecks
  imports ReaderTypes
begin

text \<open>
  The checks of the IR reader on multiplicities, clock and quantity members, fields and constraints
  (\<open>checkMultiplicity\<close>, \<open>specialMember\<close>, \<open>checkField\<close>, \<open>checkSpecialConstraint\<close> and
  \<open>checkConstraint\<close> of \<open>src/src/compiler/ir/reader.mjs\<close>). A check is the list of what it raises
  and suppresses, in order. \<open>new RegExp\<close> is the parameter \<open>rc_regex\<close>: the message of the error a
  pattern is refused with, or nothing.
\<close>

datatype finding = Raised diag | Suppressed (sup_rule: jsstr) (sup_identity: jsstr)

record reader_context =
  rc_index :: reader_index
  rc_known :: "jsstr list"
  rc_unknown :: bool
  rc_package :: "jsstr option"
  rc_limits :: limits
  rc_regex :: "jsstr \<Rightarrow> jsstr option"

definition raised :: "string \<Rightarrow> jsstr \<Rightarrow> jsval \<Rightarrow> finding" where
  "raised name message locus = Raised (raise_at name message locus)"

text \<open>\<open>locusOf(a) ?? locusOf(b)\<close>.\<close>

definition locus_or :: "jsval \<Rightarrow> jsval \<Rightarrow> jsval" where
  "locus_or a b = coalesce (source_of a) (source_of b)"

definition code_named :: "string \<Rightarrow> jsstr" where
  "code_named name = (case map_of DIAGNOSTIC_CODES name of None \<Rightarrow> [] | Some e \<Rightarrow> code e)"

section \<open>Multiplicities\<close>

definition is_integer_value :: "jsval \<Rightarrow> bool" where
  "is_integer_value v = (case v of Num n \<Rightarrow> num_is_integer n | _ \<Rightarrow> False)"

definition checkMultiplicity :: "jsval \<Rightarrow> jsval \<Rightarrow> finding list" where
  "checkMultiplicity v own =
     (let lower = get v ''lower''; upper = get v ''upper''
      in if \<not> is_object v then []
         else if \<not> is_integer_value lower \<or> js_less lower (Num (Fin 0)) then
           [raised ''INVALID_MULTIPLICITY'' (js ''the lower bound must be a non-negative integer'')
             (source_of own)]
         else if upper \<noteq> Undefined \<and> (\<not> is_integer_value upper \<or> js_less upper lower) then
           [raised ''INVALID_MULTIPLICITY''
             (js ''the upper bound must be an integer not less than the lower bound'') (source_of own)]
         else if \<not> is_boolean (get v ''ordered'') \<or> \<not> is_boolean (get v ''unique'') then
           [raised ''INVALID_MULTIPLICITY''
             (js ''ordered and unique are required booleans on every multiplicity'') (source_of own)]
         else [])"

definition declared_multiplicity :: "jsval \<Rightarrow> finding list" where
  "declared_multiplicity field =
     (if get field ''multiplicity'' = Undefined
      then [raised ''MISSING_MULTIPLICITY'' (js ''a field declares its multiplicity'') (source_of field)]
      else checkMultiplicity (get field ''multiplicity'') field)"

section \<open>Clock and quantity members\<close>

definition member_finding :: "bool \<Rightarrow> string \<Rightarrow> jsstr \<Rightarrow> string \<Rightarrow> jsval \<Rightarrow> finding" where
  "member_finding clock name pointer member v =
     raised name (js ''/ir'' @ pointer @ js ''/'' @ js member @ js '': invalid '' @
       (if clock then js ''Clock'' else js ''quantity'') @ js '' member'') (source_of v)"

text \<open>\<open>specialMember\<close>: \<open>None\<close> when it answers that the member is an ordinary one.\<close>

definition specialMember :: "reader_index \<Rightarrow> jsstr \<Rightarrow> jsval \<Rightarrow> finding list option" where
  "specialMember ix pointer v =
     (case special_of ix (get v ''typeRef'') of
        None \<Rightarrow> None
      | Some Malformed \<Rightarrow>
          Some (case get v ''typeRef'' of
            Str r \<Rightarrow> if starts_with r quantityPrefix
              then [member_finding False ''UNRESOLVED_TYPE_REF'' pointer ''typeRef'' v] else []
          | _ \<Rightarrow> [])
      | Some special \<Rightarrow>
          (let clock = (special = Clock);
               name = (if clock then ''INVALID_CLOCK_MEMBER'' else ''INVALID_QUANTITY_MEMBER'')
           in Some
             (map (\<lambda>m. member_finding clock name pointer m v)
                (filter (has_own v) [''unit'', ''decimal'', ''textProfile'', ''defaultValue'']) @
              (if has_own v ''defaultKind'' \<and> get v ''defaultKind'' \<noteq> Str (js ''none'')
               then [member_finding clock name pointer ''defaultKind'' v] else []) @
              (if list_of (get v ''constraints'') \<noteq> []
               then [member_finding clock name pointer ''constraints'' v] else []) @
              (if clock \<and> get v ''nullable'' \<noteq> Bool False
               then [member_finding clock name pointer ''nullable'' v] else []))))"

section \<open>Constraints\<close>

definition checkSpecialConstraint :: "jsval \<Rightarrow> jsval \<Rightarrow> jsstr \<Rightarrow> special \<Rightarrow> finding list" where
  "checkSpecialConstraint constraint own pointer special =
     (let keyword = to_text (get constraint ''keyword'');
          locus = locus_or constraint own;
          at_ptr = js ''/ir'' @ pointer @ js ''/operands/value'';
          named = (if special = Clock then js ''clock'' else js ''quantity'')
      in if keyword \<noteq> js ''min'' \<and> keyword \<noteq> js ''max'' then
           [raised ''CONSTRAINT_NOT_APPLICABLE'' (js ''/ir'' @ pointer @ js ''/keyword: ''
             @ fragment (Str keyword) @ js '' does not bound a '' @ named) locus]
         else
           (let refused = raised ''INVALID_OPERAND'' (at_ptr @ js '': a '' @ named @ js '' bound is a ''
                  @ (if special = Clock then js ''non-negative '' else []) @ js ''canonical rational'') locus
            in case rationalOperand (get (get constraint ''operands'') ''value'') of
                 OpOutside \<Rightarrow> [raised ''INTEGER_OUTSIDE_I128''
                   (at_ptr @ js '': the bound is outside the exact i128 domain'') locus]
               | OpInvalid \<Rightarrow> [refused]
               | OpValue n \<Rightarrow> if special = Clock \<and> n < 0 then [refused] else []))"

definition bound_keywords :: "jsstr list" where
  "bound_keywords = map js [''min'', ''max'', ''exclusiveMin'', ''exclusiveMax'']"

definition numeric_scalars :: "jsstr list" where
  "numeric_scalars = map js [''integer'', ''number'', ''decimal'', ''float32'', ''float64'']"

definition scalar_text :: "jsstr option \<Rightarrow> jsstr" where
  "scalar_text scalar = (case scalar of None \<Rightarrow> js ''undefined'' | Some s \<Rightarrow> s)"

definition outside_i128 :: "jsstr option \<Rightarrow> jsval \<Rightarrow> bool" where
  "outside_i128 scalar v =
     (is_scalar scalar ''integer'' \<and>
        (case v of Str s \<Rightarrow> canonical_integer s \<and> \<not> withinI128 s | _ \<Rightarrow> False))"

definition i128_text :: jsstr where
  "i128_text = js '' is outside the exact i128 domain ['' @
     js ''-170141183460469231731687303715884105728, 170141183460469231731687303715884105727]''"

definition decimal_diags :: "decimal_walk option \<Rightarrow> jsval \<Rightarrow> finding list" where
  "decimal_diags walked locus =
     (case walked of
        None \<Rightarrow> []
      | Some w \<Rightarrow>
          if is_scalar (dw_scalar w) ''decimal'' \<and> dw_policies w = [] then
            [raised ''DECIMAL_POLICY_MISSING'' (js ''a decimal constraint carries a decimal policy'') locus]
          else if is_scalar (dw_scalar w) ''decimal'' \<and> 1 < length (dw_policies w) then
            [raised ''DECIMAL_POLICY_CONFLICT'' (js ''a decimal resolution walk carries more than one policy'')
              (source_of (snd (hd (dw_policies w))))]
          else [])"

definition pattern_diags :: "(jsstr \<Rightarrow> jsstr option) \<Rightarrow> jsval \<Rightarrow> jsval \<Rightarrow> finding list" where
  "pattern_diags regex operands locus =
     (case regex (to_text (get operands ''regex'')) of
        None \<Rightarrow> []
      | Some message \<Rightarrow> [raised ''INVALID_PATTERN''
          (js ''the regex does not compile under ECMA-262: '' @ fragment (Str message)) locus])"

definition bound_diags :: "jsstr \<Rightarrow> jsstr option \<Rightarrow> jsstr \<Rightarrow> jsval \<Rightarrow> jsval \<Rightarrow> jsval \<Rightarrow> finding list" where
  "bound_diags keyword scalar pointer v policy locus =
     (if operandAdmitted (case scalar of None \<Rightarrow> False | Some s \<Rightarrow> s \<in> set numeric_scalars) scalar v policy
      then []
      else if outside_i128 scalar v then
        [raised ''INTEGER_OUTSIDE_I128'' (fragment (Str keyword) @ js '' operand '' @ pointer
          @ js ''/operands/value '' @ fragment (Str (to_text v)) @ i128_text) locus]
      else
        [raised ''INVALID_OPERAND'' (fragment (Str keyword) @ js '' operand '' @ pointer
          @ js ''/operands/value on '' @ fragment (Str (scalar_text scalar))
          @ js '' takes an exact numeric operand'') locus])"

definition enum_diags :: "jsstr option \<Rightarrow> jsval \<Rightarrow> jsval \<Rightarrow> nat \<times> jsval \<Rightarrow> finding list" where
  "enum_diags scalar policy locus e =
     (let (i, v) = e; operand = js ''enum operand /operands/values/'' @ nat_text i
      in if valueAdmitted scalar v policy then []
         else if outside_i128 scalar v then
           [raised ''INTEGER_OUTSIDE_I128'' (operand @ js '' '' @ fragment (Str (to_text v)) @ i128_text) locus]
         else
           [raised ''INVALID_OPERAND'' (operand @ js '' on '' @ fragment (Str (scalar_text scalar))
             @ js '' is outside the exact scalar wire domain'') locus])"

text \<open>The node a reference names, a field before a type.\<close>

definition named_node :: "reader_index \<Rightarrow> jsval \<Rightarrow> node option" where
  "named_node ix ref =
     (case ref of
        Str r \<Rightarrow> (case map_of (ix_fields ix) r of Some f \<Rightarrow> Some f | None \<Rightarrow> map_of (ix_types ix) r)
      | _ \<Rightarrow> None)"

definition operand_diags ::
  "reader_context \<Rightarrow> jsval \<Rightarrow> jsval \<Rightarrow> jsstr \<Rightarrow> jsstr \<Rightarrow> resolved \<Rightarrow> finding list" where
  "operand_diags ctx constraint own pointer keyword resolved =
     (let appliesTo = get constraint ''appliesTo'';
          scalar = res_scalar resolved;
          is_sc = (res_kind resolved = js ''scalar'');
          walked = walkDecimal (rc_index ctx) appliesTo (named_node (rc_index ctx) appliesTo);
          policy = first_policy (policies_of walked);
          locus = locus_or constraint own;
          operands = (if is_object (get constraint ''operands'') then get constraint ''operands'' else Obj [])
      in decimal_diags walked locus @
         (if applies keyword (res_kind resolved) scalar then []
          else [raised ''CONSTRAINT_NOT_APPLICABLE'' (fragment (Str keyword) @ js '' does not apply to ''
            @ fragment (Str (if is_sc then scalar_text scalar else res_kind resolved))) locus]) @
         (if keyword = js ''pattern'' then pattern_diags (rc_regex ctx) operands locus else []) @
         (if keyword \<in> set bound_keywords \<and> is_sc
          then bound_diags keyword scalar pointer (get operands ''value'') policy locus else []) @
         (if keyword = js ''enumValues'' \<and> is_sc
          then concat (map (enum_diags scalar policy locus) (List.enumerate 0 (list_of (get operands ''values''))))
          else []))"

definition checkConstraint :: "reader_context \<Rightarrow> jsval \<Rightarrow> jsval \<Rightarrow> jsstr \<Rightarrow> finding list" where
  "checkConstraint ctx constraint own pointer =
     (let appliesTo = get constraint ''appliesTo'';
          keyword = to_text (get constraint ''keyword'');
          special = special_of (rc_index ctx) appliesTo;
          locus = locus_or constraint own
      in if special = Some Malformed then
           (case appliesTo of
              Str r \<Rightarrow> if starts_with r quantityPrefix
                then [raised ''UNRESOLVED_TYPE_REF'' (js ''/ir'' @ pointer
                  @ js ''/appliesTo: a quantity type reference must be well formed'') locus] else []
            | _ \<Rightarrow> [])
         else if \<not> isKeyword keyword then
           [raised ''UNKNOWN_CONSTRAINT_KEYWORD'' (fragment (Str keyword)
             @ js '' is outside the closed constraint vocabulary'') locus]
         else (case special of
             Some sp \<Rightarrow> checkSpecialConstraint constraint own pointer sp
           | None \<Rightarrow>
               (case resolveKind (rc_index ctx) True appliesTo of
                  None \<Rightarrow> [raised ''UNRESOLVED_TYPE_REF'' (js ''appliesTo '' @ fragment appliesTo
                    @ js '' resolves to no definition'') locus]
                | Some resolved \<Rightarrow> operand_diags ctx constraint own pointer keyword resolved)))"

definition check_constraints :: "reader_context \<Rightarrow> jsval \<Rightarrow> jsstr \<Rightarrow> finding list" where
  "check_constraints ctx own pointer =
     concat (map (\<lambda>(i, c). checkConstraint ctx c own (pointer @ js ''/constraints/'' @ nat_text i))
       (List.enumerate 0 (as_array (get own ''constraints''))))"

section \<open>Fields\<close>

text \<open>
  A reference that resolves to nothing: suppressed when no resolution was supplied and it may name
  another package, raised otherwise.
\<close>

definition may_be_foreign :: "reader_context \<Rightarrow> jsstr \<Rightarrow> bool" where
  "may_be_foreign ctx r =
     (rc_unknown ctx \<and>
        (case rc_package ctx of
           None \<Rightarrow> False
         | Some p \<Rightarrow> \<not> starts_with r (js ''ix://'' @ p @ js ''/'') \<and> \<not> starts_with r NATIVE_PREFIX))"

definition unresolved_field :: "reader_context \<Rightarrow> jsval \<Rightarrow> finding list" where
  "unresolved_field ctx field =
     (case get field ''typeRef'' of
        Str r \<Rightarrow>
          if may_be_foreign ctx r
          then [Suppressed (code_named ''UNRESOLVED_TYPE_REF'') (to_text (get field ''identity''))]
          else [raised ''UNRESOLVED_TYPE_REF'' (js ''the type reference '' @ fragment (Str r)
            @ js '' resolves to no definition'') (source_of field)]
      | v \<Rightarrow> [raised ''UNRESOLVED_TYPE_REF'' (js ''the type reference '' @ fragment v
            @ js '' resolves to no definition'') (source_of field)])"

definition unit_findings :: "resolved option \<Rightarrow> jsval \<Rightarrow> finding list" where
  "unit_findings resolved field =
     (let u = get field ''unit''
      in if u = Undefined then []
         else if \<not> is_string u \<or> u = Str [] then
           [raised ''INVALID_UNIT'' (js ''a unit is a non-empty symbol'') (source_of field)]
         else (case resolved of
             None \<Rightarrow> []
           | Some r \<Rightarrow> if res_kind r \<noteq> js ''scalar'' then
               [raised ''UNIT_ON_NON_SCALAR'' (js ''a unit applies only to a scalar field (resolved ''
                 @ fragment (Str (res_kind r)) @ js '')'') (source_of field)] else []))"

definition scalar_findings :: "reader_context \<Rightarrow> jsstr \<Rightarrow> jsval \<Rightarrow> jsstr option \<Rightarrow> finding list" where
  "scalar_findings ctx pointer field scalar =
     (let policies = policies_of (walkDecimal (rc_index ctx) (get field ''typeRef'') (Some (pointer, field)));
          decimal = is_scalar scalar ''decimal''
      in (if decimal \<and> policies = [] then
            [raised ''DECIMAL_POLICY_MISSING'' (js ''a decimal field carries a decimal policy'') (source_of field)]
          else if decimal \<and> 1 < length policies then
            [raised ''DECIMAL_POLICY_CONFLICT'' (js ''a decimal resolution walk carries more than one policy'')
              (source_of (snd (hd policies)))]
          else if \<not> decimal \<and> policies \<noteq> [] then
            [raised ''DECIMAL_POLICY_CONFLICT'' (js ''a decimal policy applies only to a decimal field'')
              (source_of field)]
          else []) @
         (if has_own field ''defaultValue'' \<and> \<not> defaultValueAdmitted field scalar (first_policy policies) then
            [raised ''INVALID_DEFAULT_VALUE'' (js ''the default value is outside the exact scalar wire domain'')
              (source_of field)]
          else []))"

definition option_presence :: "reader_index \<Rightarrow> jsstr \<Rightarrow> jsval \<Rightarrow> finding list" where
  "option_presence ix pointer field =
     (if get field ''presence'' = Str (js ''optional'') \<and>
         get (get field ''multiplicity'') ''lower'' = Num (Fin 1) \<and>
         get (get field ''multiplicity'') ''upper'' = Num (Fin 1) \<and>
         get (target_node (optionTarget ix (get field ''typeRef''))) ''kind'' = Str (js ''option'')
      then [raised ''INVALID_OPTION_PRESENCE'' (js ''/ir'' @ pointer
        @ js ''/presence: an optional single-valued field of option type would nest options'') (source_of field)]
      else [])"

definition checkField :: "reader_context \<Rightarrow> jsstr \<Rightarrow> jsval \<Rightarrow> finding list" where
  "checkField ctx pointer field =
     (case specialMember (rc_index ctx) pointer field of
        Some fs \<Rightarrow> fs @ declared_multiplicity field
      | None \<Rightarrow>
          (let resolved = resolveKind (rc_index ctx) False (get field ''typeRef'')
           in option_presence (rc_index ctx) pointer field @
              (if resolved = None \<and> to_text (get field ''typeRef'') \<notin> set (rc_known ctx)
               then unresolved_field ctx field else []) @
              declared_multiplicity field @
              unit_findings resolved field @
              (case resolved of
                 Some r \<Rightarrow> if res_kind r = js ''scalar''
                   then scalar_findings ctx pointer field (res_scalar r) else []
               | None \<Rightarrow> []) @
              check_constraints ctx field pointer))"

end
