(* ===== verification/ReaderDefinitions.thy ===== *)
theory ReaderDefinitions
  imports ReaderChecks
begin

text \<open>
  \<open>checkDefinition\<close> of \<open>src/src/compiler/ir/reader.mjs\<close>: what the reader raises and suppresses at one
  type of the document, part by part in the order of the code.
\<close>

section \<open>References of the definition itself\<close>

definition option_inner_code :: "reader_index \<Rightarrow> jsstr \<Rightarrow> string option" where
  "option_inner_code ix inner =
     (let target = target_node (optionTarget ix (Str inner))
      in if (starts_with inner NATIVE_PREFIX \<and> nativeScalar (Str inner) = None) \<or>
            special_of ix (Str inner) = Some Clock then Some ''INVALID_OPTION_INNER''
         else if nativeScalar (Str inner) \<noteq> None \<or> starts_with inner quantityPrefix then None
         else if map_of (ix_types ix) inner = None then Some ''UNRESOLVED_OPTION_INNER''
         else if get target ''kind'' = Str (js ''option'') \<or>
            (case declarationOf (ix_table ix) target of
               None \<Rightarrow> False
             | Some d \<Rightarrow> dc_shape d \<in> set (map js [''namespace'', ''state_machine'', ''interface'', ''sequence'']))
           then Some ''INVALID_OPTION_INNER''
         else None)"

definition option_inner :: "reader_index \<Rightarrow> jsstr \<Rightarrow> jsval \<Rightarrow> finding list" where
  "option_inner ix pointer d =
     (if get d ''kind'' = Str (js ''option'') then
        (case get d ''inner'' of
           Str inner \<Rightarrow>
             (case option_inner_code ix inner of
                None \<Rightarrow> []
              | Some name \<Rightarrow> [raised name (js ''/ir'' @ pointer
                  @ js ''/inner: an option inner names a non-option value type'') (source_of d)])
         | _ \<Rightarrow> [])
      else [])"

definition is_reference :: "jsval \<Rightarrow> bool" where
  "is_reference d \<longleftrightarrow> get d ''kind'' = Str (js ''reference'')"

definition reference_target :: "reader_index \<Rightarrow> jsstr \<Rightarrow> jsval \<Rightarrow> finding list" where
  "reference_target ix pointer d =
     (if is_reference d \<and>
         get (target_node (optionTarget ix (get d ''target''))) ''kind'' = Str (js ''option'')
      then [raised ''UNRESOLVED_TYPE_REF'' (js ''/ir'' @ pointer
        @ js ''/target: a reference cannot target an option value type'') (source_of d)]
      else [])"

definition self_findings :: "reader_index \<Rightarrow> jsstr \<Rightarrow> jsval \<Rightarrow> finding list" where
  "self_findings ix pointer d =
     (case resolveKind ix False (get d ''identity'') of
        None \<Rightarrow> []
      | Some r \<Rightarrow>
          if res_kind r \<noteq> js ''scalar'' then []
          else (let policies = policies_of (walkDecimal ix (get d ''identity'') (Some (pointer, d)));
                    decimal = is_scalar (res_scalar r) ''decimal''
            in (if is_scalar (res_scalar r) ''number'' then
                  [raised ''SCHEMA_VIOLATION''
                    (js ''the legacy number scalar is not admitted; use float32 or float64'') (source_of d)]
                else []) @
               (if decimal \<and> 1 < length policies then
                  [raised ''DECIMAL_POLICY_CONFLICT''
                    (js ''a decimal resolution walk carries more than one policy'') (source_of (snd (hd policies)))]
                else if \<not> decimal \<and> policies \<noteq> [] then
                  [raised ''DECIMAL_POLICY_CONFLICT'' (js ''a decimal policy applies only to a decimal subject'')
                    (source_of d)]
                else [])))"

definition quantityRefused :: "jsval \<Rightarrow> jsstr \<Rightarrow> jsval \<Rightarrow> finding list" where
  "quantityRefused ref pointer own =
     (case ref of
        Str r \<Rightarrow>
          if starts_with r quantityPrefix \<and> \<not> quantityName r
          then [raised ''UNRESOLVED_TYPE_REF'' (pointer @ js '': a quantity type reference must be well formed'')
            (source_of own)]
          else []
      | _ \<Rightarrow> [])"

definition indexed :: "jsval \<Rightarrow> string \<Rightarrow> (nat \<times> jsval) list" where
  "indexed v member = List.enumerate 0 (as_array (get v member))"

definition variant_findings :: "reader_index \<Rightarrow> jsstr \<Rightarrow> nat \<times> jsval \<Rightarrow> finding list" where
  "variant_findings ix pointer e =
     (let (i, v) = e;
          at_ptr = js ''/ir'' @ pointer @ js ''/variants/'' @ nat_text i @ js ''/payloadType''
      in quantityRefused (get v ''payloadType'') at_ptr v @
         (if special_of ix (get v ''payloadType'') = Some Clock
          then [raised ''INVALID_CLOCK_MEMBER'' (at_ptr @ js '': a union variant payload is never a clock'')
            (source_of v)]
          else []))"

definition quantity_findings :: "reader_index \<Rightarrow> jsstr \<Rightarrow> jsval \<Rightarrow> finding list" where
  "quantity_findings ix pointer d =
     concat (map (\<lambda>m. quantityRefused (get d m) (js ''/ir'' @ pointer @ js ''/'' @ js m) d)
       [''target'', ''items'', ''values'', ''inner'']) @
     (if is_reference d \<and> special_of ix (get d ''target'') = Some Quantity
      then [raised ''UNRESOLVED_TYPE_REF'' (js ''/ir'' @ pointer
        @ js ''/target: a reference names an object and a quantity has no identity'') (source_of d)]
      else []) @
     concat (map (variant_findings ix pointer) (indexed d ''variants'')) @
     concat (map (\<lambda>(i, p). quantityRefused (get p ''typeRef'')
       (js ''/ir'' @ pointer @ js ''/positions/'' @ nat_text i @ js ''/typeRef'') p) (indexed d ''positions''))"

text \<open>
  \<open>checkCompositeDecimalRef\<close>: on a native \<open>Decimal\<close> the policy walk ends at once, so the only policy
  it can meet is the owner's.
\<close>

definition checkCompositeDecimalRef :: "reader_index \<Rightarrow> jsval \<Rightarrow> jsval \<Rightarrow> finding list" where
  "checkCompositeDecimalRef ix typeRef own =
     (if nativeScalar typeRef \<noteq> Some (js ''decimal'') then []
      else (case walkDecimal ix typeRef (Some ([], own)) of
         None \<Rightarrow> []
       | Some w \<Rightarrow>
           if \<not> is_scalar (dw_scalar w) ''decimal'' \<or> dw_policies w \<noteq> [] then []
           else [raised ''DECIMAL_POLICY_MISSING'' (js ''a decimal subject carries a decimal policy'')
             (source_of own)]))"

definition composite_decimals :: "reader_index \<Rightarrow> jsval \<Rightarrow> finding list" where
  "composite_decimals ix d =
     (if get d ''kind'' = Str (js ''sequence'') then checkCompositeDecimalRef ix (get d ''items'') d else []) @
     (if get d ''kind'' = Str (js ''map'') then checkCompositeDecimalRef ix (get d ''values'') d else []) @
     (if is_reference d then checkCompositeDecimalRef ix (get d ''target'') d else []) @
     concat (map (\<lambda>v. checkCompositeDecimalRef ix (get v ''payloadType'') v) (as_array (get d ''variants''))) @
     concat (map (\<lambda>p. checkCompositeDecimalRef ix (get p ''typeRef'') p) (as_array (get d ''positions'')))"

section \<open>Size, clauses\<close>

definition bounded_lists :: "string list" where
  "bounded_lists = [''fields'', ''variants'', ''positions'', ''constraints'', ''relationships'',
     ''operations'', ''clauses'', ''extensions'']"

definition too_long :: "limits \<Rightarrow> jsval \<Rightarrow> string option" where
  "too_long ls d = find (\<lambda>k. maxCollectionItems ls < length (list_of (get d k))) bounded_lists"

definition too_long_finding :: "limits \<Rightarrow> jsval \<Rightarrow> string \<Rightarrow> finding" where
  "too_long_finding ls d k =
     raised ''LIMIT_MAX_COLLECTION_ITEMS'' (js ''a '' @ js k @ js '' list of ''
       @ nat_text (length (list_of (get d k))) @ js '' exceeds the maxCollectionItems limit of ''
       @ nat_text (maxCollectionItems ls)) (source_of d)"

definition nodes_on_non_record :: "jsval \<Rightarrow> finding list" where
  "nodes_on_non_record d =
     (if \<not> (isConstructKind (get d ''kind'') \<or> get d ''kind'' = Str (js ''record'')) \<and>
         (get d ''relationships'' \<noteq> Undefined \<or> get d ''operations'' \<noteq> Undefined)
      then [raised ''NODES_ON_NON_RECORD'' (js ''relationships and operations require a record (got ''
        @ fragment (get d ''kind'') @ js '')'') (source_of d)]
      else [])"

text \<open>One clause, with the clause ids met before it.\<close>

definition check_clause ::
  "jsval \<Rightarrow> jsval \<Rightarrow> jsstr list \<times> finding list \<Rightarrow> jsstr list \<times> finding list" where
  "check_clause d clause st =
     (let (ids, fs) = st; clauseId = to_text (get clause ''clauseId'');
          language = to_text (get clause ''language''); locus = locus_or clause d
      in (set_add clauseId ids,
          fs @
          (if clauseId \<in> set ids then [raised ''DUPLICATE_CLAUSE_ID''
             (js ''the clause id '' @ fragment (Str clauseId) @ js '' is declared twice'') locus] else []) @
          (if language \<notin> set CORE_CLAUSE_LANGUAGES \<and> \<not> NAMESPACED_LANGUAGE language
           then [raised ''UNKNOWN_CLAUSE_LANGUAGE'' (js ''the clause language '' @ fragment (Str language)
             @ js '' is neither core nor namespaced'') locus] else []) @
          (if is_object (get clause ''origin'') \<and> has_own (get clause ''origin'') ''source'' \<and>
              nullish (get clause ''sourceSpan'')
           then [raised ''MISSING_SOURCE_SPAN'' (js ''a source-originated clause carries a sourceSpan'') locus]
           else [])))"

definition check_clauses :: "jsval \<Rightarrow> jsstr list \<times> finding list" where
  "check_clauses d = fold (check_clause d) (as_array (get d ''clauses'')) ([], [])"

section \<open>Relationships\<close>

definition relationship_target :: "jsval \<Rightarrow> jsstr" where
  "relationship_target r = to_text (get (get r ''targetEnd'') ''type'')"

definition check_target :: "reader_context \<Rightarrow> jsval \<Rightarrow> jsval \<Rightarrow> finding list" where
  "check_target ctx d r =
     (let target = relationship_target r
      in if map_of (ix_types (rc_index ctx)) target \<noteq> None \<or> target \<in> set (rc_known ctx) then []
         else if may_be_foreign ctx target
           then [Suppressed (code_named ''UNRESOLVED_RELATIONSHIP_TARGET'') (to_text (get r ''identity''))]
         else [raised ''UNRESOLVED_RELATIONSHIP_TARGET'' (js ''the relationship target ''
           @ fragment (Str target) @ js '' resolves to no definition and no imported export'') (locus_or r d)])"

definition check_relationship :: "reader_context \<Rightarrow> jsval \<Rightarrow> jsval \<Rightarrow> finding list" where
  "check_relationship ctx d r =
     check_target ctx d r @
     (case get (get r ''sourceEnd'') ''type'' of
        Str s \<Rightarrow> if s \<noteq> to_text (get d ''identity'')
          then [raised ''INVALID_RELATIONSHIP_SOURCE''
            (js ''a relationship's source end names the type declaring it'') (locus_or r d)] else []
      | _ \<Rightarrow> []) @
     (if to_text (get r ''category'') \<notin> set EDGE_CATEGORIES
      then [raised ''UNKNOWN_EDGE_CATEGORY'' (js ''the edge category '' @ fragment (get r ''category'')
        @ js '' is outside the closed set'') (locus_or r d)] else []) @
     checkMultiplicity (get (get r ''sourceEnd'') ''multiplicity'') r @
     checkMultiplicity (get (get r ''targetEnd'') ''multiplicity'') r"

section \<open>Operations\<close>

definition check_param ::
  "reader_context \<Rightarrow> jsstr \<Rightarrow> jsval \<Rightarrow> nat \<times> jsval \<Rightarrow> jsstr list \<times> finding list \<Rightarrow> jsstr list \<times> finding list" where
  "check_param ctx pointer operation e st =
     (let (i, p) = e; (names, fs) = st; name = to_text (get p ''name'')
      in (set_add name names,
          fs @
          (if name \<in> set names then [raised ''DUPLICATE_PARAM'' (js ''the parameter ''
             @ fragment (Str name) @ js '' is declared twice'') (locus_or p operation)] else []) @
          checkField ctx (pointer @ js ''/params/'' @ nat_text i) p))"

definition check_returns :: "reader_context \<Rightarrow> jsstr \<Rightarrow> jsval \<Rightarrow> finding list" where
  "check_returns ctx pointer operation =
     (let ret = get operation ''returns''; ix = rc_index ctx
      in if \<not> is_object ret then []
         else (case specialMember ix (pointer @ js ''/returns'') ret of
                 Some fs \<Rightarrow> fs
               | None \<Rightarrow>
                   if resolveKind ix False (get ret ''typeRef'') = None
                   then [raised ''UNRESOLVED_TYPE_REF''
                     (js ''the return type reference resolves to no definition'') (source_of operation)]
                   else []) @
              checkCompositeDecimalRef ix (get ret ''typeRef'') ret @
              checkMultiplicity (get ret ''multiplicity'') operation)"

definition unchecked_clauses :: "jsval \<Rightarrow> string \<Rightarrow> finding list" where
  "unchecked_clauses operation side =
     concat (map (\<lambda>clause. if get clause ''language'' = Str (js ''quire'') then []
       else [raised ''CLAUSE_LANGUAGE_UNCHECKED'' (js side @ js '' clause language ''
         @ fragment (get clause ''language'') @ js '' is carried unchecked'') (locus_or clause operation)])
       (as_array (get operation side)))"

definition dangling_clauses :: "jsstr list \<Rightarrow> jsval \<Rightarrow> string \<Rightarrow> finding list" where
  "dangling_clauses ids operation side =
     concat (map (\<lambda>c. if is_object c \<or> to_text c \<in> set ids then []
       else [raised ''DANGLING_CLAUSE_REF'' (js side @ js '' names the clause id '' @ fragment c
         @ js '', which this type does not declare'') (source_of operation)])
       (list_of (get operation side)))"

definition check_operation ::
  "reader_context \<Rightarrow> jsstr \<Rightarrow> jsstr list \<Rightarrow> nat \<times> jsval \<Rightarrow> finding list" where
  "check_operation ctx pointer ids e =
     (let (i, operation) = e; at_ptr = pointer @ js ''/operations/'' @ nat_text i
      in snd (fold (check_param ctx at_ptr operation) (indexed operation ''params'') ([], [])) @
         check_returns ctx at_ptr operation @
         unchecked_clauses operation ''pre'' @ unchecked_clauses operation ''post'' @
         dangling_clauses ids operation ''pre'' @ dangling_clauses ids operation ''post'')"

section \<open>Member identities, the definition\<close>

definition check_member ::
  "jsval \<Rightarrow> string \<times> jsval \<Rightarrow> jsstr list \<times> finding list \<Rightarrow> jsstr list \<times> finding list" where
  "check_member d e st =
     (let (label, m) = e; (ids, fs) = st; identity = to_text (get m ''identity'')
      in (set_add identity ids,
          fs @ (if identity \<in> set ids then [raised ''DUPLICATE_IDENTITY'' (js ''the '' @ js label
            @ js '' identity '' @ fragment (Str identity) @ js '' is declared twice'') (locus_or m d)] else [])))"

definition member_labels :: "string list" where
  "member_labels = [''fields'', ''variants'', ''positions'', ''constraints'', ''relationships'',
     ''operations'', ''clauses'']"

definition labelled_members :: "jsval \<Rightarrow> (string \<times> jsval) list" where
  "labelled_members d = concat (map (\<lambda>k. map (Pair k) (as_array (get d k))) member_labels)"

definition check_members :: "jsval \<Rightarrow> finding list" where
  "check_members d = snd (fold (check_member d) (labelled_members d) ([], []))"

definition early_findings :: "reader_index \<Rightarrow> jsstr \<Rightarrow> jsval \<Rightarrow> finding list" where
  "early_findings ix pointer d =
     option_inner ix pointer d @ reference_target ix pointer d @ self_findings ix pointer d @
     quantity_findings ix pointer d @ composite_decimals ix d"

definition checkDefinition :: "reader_context \<Rightarrow> nat \<times> jsval \<Rightarrow> finding list" where
  "checkDefinition ctx e =
     (let (i, d) = e; pointer = js ''/types/'' @ nat_text i;
          early = early_findings (rc_index ctx) pointer d
      in case too_long (rc_limits ctx) d of
           Some k \<Rightarrow> early @ [too_long_finding (rc_limits ctx) d k]
         | None \<Rightarrow>
             (let (ids, clause_findings) = check_clauses d
              in early @
                 concat (map (\<lambda>(j, f). checkField ctx (pointer @ js ''/fields/'' @ nat_text j) f)
                   (indexed d ''fields'')) @
                 check_constraints ctx d pointer @
                 nodes_on_non_record d @
                 clause_findings @
                 concat (map (check_relationship ctx d) (as_array (get d ''relationships''))) @
                 concat (map (check_operation ctx pointer ids) (indexed d ''operations'')) @
                 check_members d))"

end
