(* ===== verification/DepthSearch.thy ===== *)
theory DepthSearch
  imports Prelude
begin

text \<open>
  The depth-first search several components write out: a node is open while its edges are followed
  and done afterwards, and an edge that meets an open node closes a cycle. A node is searched once;
  an edge to what is no node of the graph is skipped. The recursion is bounded by fuel, a unit per
  open node, and one unit per node of the graph is enough (\<open>search_graph_right\<close>). The search meets a
  closing edge exactly when the graph has a cycle.
\<close>

datatype mark = MOpen | MDone

type_synonym ('k, 'e) edge_table = "('k \<times> 'e list) list"

record ('k, 'e) depth_search =
  ds_marks :: "('k \<times> mark) list"
  ds_closing :: "('k \<times> 'e) list"

definition mark_node :: "'k \<Rightarrow> mark \<Rightarrow> ('k, 'e) depth_search \<Rightarrow> ('k, 'e) depth_search" where
  "mark_node n m st = st\<lparr>ds_marks := AList.update n m (ds_marks st)\<rparr>"

definition closes :: "'k \<Rightarrow> 'e \<Rightarrow> ('k, 'e) depth_search \<Rightarrow> ('k, 'e) depth_search" where
  "closes n e st = st\<lparr>ds_closing := ds_closing st @ [(n, e)]\<rparr>"

definition edges_at :: "('k, 'e) edge_table \<Rightarrow> 'k \<Rightarrow> 'e list" where
  "edges_at g n = (case map_of g n of None \<Rightarrow> [] | Some es \<Rightarrow> es)"

text \<open>The loop over the edges of the open node \<open>cur\<close>; \<open>tgt\<close> reads the node an edge leads to.\<close>

fun dfs :: "('e \<Rightarrow> 'k) \<Rightarrow> nat \<Rightarrow> ('k, 'e) edge_table \<Rightarrow> 'k \<Rightarrow> 'e list \<Rightarrow>
    ('k, 'e) depth_search \<Rightarrow> ('k, 'e) depth_search option" where
  "dfs tgt fuel g cur [] st = Some st"
| "dfs tgt fuel g cur (e # rest) st =
     (case map_of (ds_marks st) (tgt e) of
        Some MOpen \<Rightarrow> dfs tgt fuel g cur rest (closes cur e st)
      | Some MDone \<Rightarrow> dfs tgt fuel g cur rest st
      | None \<Rightarrow>
          if map_of g (tgt e) = None then dfs tgt fuel g cur rest st
          else (case fuel of
              0 \<Rightarrow> None
            | Suc f \<Rightarrow>
                (case dfs tgt f g (tgt e) (edges_at g (tgt e)) (mark_node (tgt e) MOpen st) of
                   None \<Rightarrow> None
                 | Some st' \<Rightarrow> dfs tgt fuel g cur rest (mark_node (tgt e) MDone st'))))"

fun dfs_roots :: "('e \<Rightarrow> 'k) \<Rightarrow> nat \<Rightarrow> ('k, 'e) edge_table \<Rightarrow> 'k list \<Rightarrow>
    ('k, 'e) depth_search \<Rightarrow> ('k, 'e) depth_search option" where
  "dfs_roots tgt fuel g [] st = Some st"
| "dfs_roots tgt fuel g (k # ks) st =
     (if map_of (ds_marks st) k \<noteq> None then dfs_roots tgt fuel g ks st
      else (case dfs tgt fuel g k (edges_at g k) (mark_node k MOpen st) of
          None \<Rightarrow> None
        | Some st' \<Rightarrow> dfs_roots tgt fuel g ks (mark_node k MDone st')))"

definition search_graph :: "('e \<Rightarrow> 'k) \<Rightarrow> ('k, 'e) edge_table \<Rightarrow> ('k, 'e) depth_search option" where
  "search_graph tgt g =
     dfs_roots tgt (length g) g (map fst g) \<lparr>ds_marks = [], ds_closing = []\<rparr>"

section \<open>Marks\<close>

definition edge_rel :: "('e \<Rightarrow> 'k) \<Rightarrow> ('k, 'e) edge_table \<Rightarrow> ('k \<times> 'k) set" where
  "edge_rel tgt g = {(i, tgt e) | i e. e \<in> set (edges_at g i) \<and> map_of g (tgt e) \<noteq> None}"

definition marked :: "('k, 'e) depth_search \<Rightarrow> 'k set" where
  "marked st = dom (map_of (ds_marks st))"

definition being :: "('k, 'e) depth_search \<Rightarrow> 'k set" where
  "being st = {n. map_of (ds_marks st) n = Some MOpen}"

definition closed_nodes :: "('k, 'e) depth_search \<Rightarrow> 'k set" where
  "closed_nodes st = {n. map_of (ds_marks st) n = Some MDone}"

lemma mark_node_simps [simp]:
  "marked (mark_node n m st) = insert n (marked st)"
  "being (mark_node n MOpen st) = insert n (being st)"
  "being (mark_node n MDone st) = being st - {n}"
  "closed_nodes (mark_node n MDone st) = insert n (closed_nodes st)"
  "n \<notin> closed_nodes st \<Longrightarrow> closed_nodes (mark_node n MOpen st) = closed_nodes st"
  "ds_closing (mark_node n m st) = ds_closing st"
  by (auto simp: marked_def being_def closed_nodes_def mark_node_def update_conv')

lemma closes_simps [simp]:
  "marked (closes n e st) = marked st" "being (closes n e st) = being st"
  "closed_nodes (closes n e st) = closed_nodes st"
  "ds_closing (closes n e st) = ds_closing st @ [(n, e)]"
  by (simp_all add: marked_def being_def closed_nodes_def closes_def)

lemma mark_cases:
  "map_of (ds_marks st) n = None \<longleftrightarrow> n \<notin> marked st"
  "map_of (ds_marks st) n = Some MOpen \<longleftrightarrow> n \<in> being st"
  "map_of (ds_marks st) n = Some MDone \<longleftrightarrow> n \<in> closed_nodes st"
  "marked st = being st \<union> closed_nodes st"
  "being st \<inter> closed_nodes st = {}"
  by (auto simp: marked_def being_def closed_nodes_def) (metis mark.exhaust)

text \<open>The three ways one edge is handled.\<close>

lemma dfs_step:
  assumes "dfs tgt fuel g cur (e # rest) st = Some st'"
  obtains (skip) "dfs tgt fuel g cur rest st = Some st'"
      "map_of g (tgt e) \<noteq> None \<Longrightarrow> tgt e \<in> closed_nodes st"
    | (cycle) "tgt e \<in> being st" "dfs tgt fuel g cur rest (closes cur e st) = Some st'"
    | (child) f st1 where "fuel = Suc f" "tgt e \<notin> marked st" "map_of g (tgt e) \<noteq> None"
      "dfs tgt f g (tgt e) (edges_at g (tgt e)) (mark_node (tgt e) MOpen st) = Some st1"
      "dfs tgt fuel g cur rest (mark_node (tgt e) MDone st1) = Some st'"
proof (cases "map_of (ds_marks st) (tgt e)")
  case None
  then have t: "tgt e \<notin> marked st" by (simp add: mark_cases(1))
  show thesis
  proof (cases "map_of g (tgt e) = None")
    case True
    then show thesis using skip assms None by simp
  next
    case False
    then show thesis using child assms None t by (auto split: nat.splits option.splits)
  qed
next
  case (Some m)
  then show thesis
    using skip cycle assms by (cases m) (auto simp: closed_nodes_def being_def)
qed

text \<open>What a search leaves as it found it.\<close>

definition kept :: "('k, 'e) edge_table \<Rightarrow> ('k, 'e) depth_search \<Rightarrow> ('k, 'e) depth_search \<Rightarrow> bool" where
  "kept g st st' \<longleftrightarrow>
     being st' = being st \<and> closed_nodes st \<subseteq> closed_nodes st' \<and>
     marked st' \<subseteq> marked st \<union> dom (map_of g) \<and>
     (\<exists>cs. ds_closing st' = ds_closing st @ cs)"

lemma kept_refl [simp]: "kept g st st"
  by (simp add: kept_def)

lemma kept_trans: "kept g st st' \<Longrightarrow> kept g st' st'' \<Longrightarrow> kept g st st''"
  unfolding kept_def by (elim conjE exE) (intro conjI; (blast | simp))

lemma kept_closes: "kept g st (closes n e st)"
  by (simp add: kept_def)

lemma kept_marked: "kept g st st' \<Longrightarrow> marked st \<subseteq> marked st'"
  unfolding kept_def mark_cases(4) by auto

lemma kept_visit:
  assumes "n \<notin> marked st" and "map_of g n \<noteq> None" and "kept g (mark_node n MOpen st) st'"
  shows "kept g st (mark_node n MDone st')"
proof -
  have "n \<notin> closed_nodes st" "n \<notin> being st" using assms(1) mark_cases(4) [of st] by auto
  then show ?thesis using assms(2,3) unfolding kept_def by auto
qed

lemma dfs_kept: "dfs tgt fuel g cur es st = Some st' \<Longrightarrow> kept g st st'"
proof (induction fuel es arbitrary: cur st st' rule: fuel_list_induct)
  case (Cons fuel e rest)
  from Cons.prems show ?case
  proof (cases rule: dfs_step)
    case skip
    then show ?thesis using Cons.IH(1) by blast
  next
    case cycle
    from Cons.IH(1) [OF this(2)] show ?thesis by (rule kept_trans [OF kept_closes])
  next
    case (child f st1)
    show ?thesis
      by (rule kept_trans [OF kept_visit [OF child(2,3) Cons.IH(2) [OF child(1,4)]] Cons.IH(1) [OF child(5)]])
  qed
qed simp

section \<open>The search ends\<close>

definition unmarked :: "('k, 'e) edge_table \<Rightarrow> ('k, 'e) depth_search \<Rightarrow> nat" where
  "unmarked g st = card (dom (map_of g) - marked st)"

lemma unmarked_mono: "marked st \<subseteq> marked st' \<Longrightarrow> unmarked g st' \<le> unmarked g st"
  unfolding unmarked_def by (intro card_mono) (auto simp: finite_dom_map_of)

lemma unmarked_mark:
  "map_of g n \<noteq> None \<Longrightarrow> n \<notin> marked st \<Longrightarrow> unmarked g (mark_node n m st) < unmarked g st"
  unfolding unmarked_def by (intro psubset_card_mono) (auto simp: finite_dom_map_of)

lemma dfs_end: "unmarked g st \<le> fuel \<Longrightarrow> \<exists>st'. dfs tgt fuel g cur es st = Some st'"
proof (induction fuel es arbitrary: cur st rule: fuel_list_induct)
  case (Cons fuel e rest)
  have rest: "\<exists>st'. dfs tgt fuel g cur rest st1 = Some st'" if "marked st \<subseteq> marked st1" for st1
    using Cons.IH(1) unmarked_mono [OF that] Cons.prems le_trans by blast
  show ?case
  proof (cases "map_of (ds_marks st) (tgt e)")
    case None
    show ?thesis
    proof (cases "map_of g (tgt e) = None")
      case False
      have t: "tgt e \<notin> marked st" using None by (simp add: mark_cases(1))
      then obtain f where f: "fuel = Suc f" "unmarked g (mark_node (tgt e) MOpen st) \<le> f"
        using unmarked_mark [OF False t, of MOpen] Cons.prems by (cases fuel) auto
      then obtain st1 where st1:
        "dfs tgt f g (tgt e) (edges_at g (tgt e)) (mark_node (tgt e) MOpen st) = Some st1"
        using Cons.IH(2) by blast
      then have "marked st \<subseteq> marked (mark_node (tgt e) MDone st1)"
        using kept_marked [OF dfs_kept [OF st1]] by auto
      then show ?thesis using rest None False f st1 by simp
    qed (use None rest in simp)
  next
    case (Some m)
    then show ?thesis using rest by (cases m) simp_all
  qed
qed simp

lemma roots_end: "unmarked g st \<le> fuel \<Longrightarrow> \<exists>st'. dfs_roots tgt fuel g ks st = Some st'"
proof (induction ks arbitrary: st)
  case (Cons k ks)
  show ?case
  proof (cases "map_of (ds_marks st) k = None")
    case True
    have u: "unmarked g (mark_node k MOpen st) \<le> fuel"
      by (rule le_trans [OF unmarked_mono Cons.prems]) auto
    from dfs_end [OF u] obtain st1
      where st1: "dfs tgt fuel g k (edges_at g k) (mark_node k MOpen st) = Some st1" by blast
    have "unmarked g (mark_node k MDone st1) \<le> fuel"
      by (rule le_trans [OF unmarked_mono u]) (use kept_marked [OF dfs_kept [OF st1]] in auto)
    then show ?thesis using Cons.IH True st1 by simp
  qed (use Cons in simp)
qed simp

section \<open>What a search without a closing edge shows\<close>

definition sound_marks :: "('e \<Rightarrow> 'k) \<Rightarrow> ('k, 'e) edge_table \<Rightarrow> ('k, 'e) depth_search \<Rightarrow> bool" where
  "sound_marks tgt g st \<longleftrightarrow>
     (\<forall>a\<in>closed_nodes st. \<forall>b. (a, b) \<in> edge_rel tgt g \<longrightarrow> b \<in> closed_nodes st) \<and>
     acyclic (edge_rel tgt g \<inter> closed_nodes st \<times> closed_nodes st)"

lemma sound_marks_done:
  assumes "sound_marks tgt g st" and "n \<notin> closed_nodes st"
    and "\<forall>b. (n, b) \<in> edge_rel tgt g \<longrightarrow> b \<in> closed_nodes st"
  shows "sound_marks tgt g (mark_node n MDone st)"
  using assms acyclic_insert [of "closed_nodes st" "edge_rel tgt g" n]
  by (auto simp: sound_marks_def)

lemma sound_marks_open:
  "n \<notin> closed_nodes st \<Longrightarrow> sound_marks tgt g (mark_node n MOpen st) = sound_marks tgt g st"
  by (simp add: sound_marks_def)

definition targets_closed :: "('e \<Rightarrow> 'k) \<Rightarrow> ('k, 'e) edge_table \<Rightarrow> 'e list \<Rightarrow> ('k, 'e) depth_search \<Rightarrow> bool" where
  "targets_closed tgt g es st \<longleftrightarrow>
     (\<forall>e\<in>set es. map_of g (tgt e) \<noteq> None \<longrightarrow> tgt e \<in> closed_nodes st)"

lemma visited_child:
  assumes t: "t \<notin> marked st" and k: "kept g (mark_node t MOpen st) st1"
    and s: "sound_marks tgt g st1" and d: "targets_closed tgt g (edges_at g t) st1"
  shows "sound_marks tgt g (mark_node t MDone st1)"
proof (rule sound_marks_done [OF s])
  have "t \<in> being st1" using k by (simp add: kept_def)
  then show "t \<notin> closed_nodes st1" using mark_cases(5) [of st1] by auto
  show "\<forall>b. (t, b) \<in> edge_rel tgt g \<longrightarrow> b \<in> closed_nodes st1"
    using d by (auto simp: targets_closed_def edge_rel_def)
qed

lemma kept_quiet:
  assumes "kept g st st1" and "kept g st2 st'"
    and "ds_closing st2 = ds_closing st1" and "ds_closing st' = ds_closing st"
  shows "ds_closing st1 = ds_closing st" and "ds_closing st' = ds_closing st2"
proof -
  obtain cs ds where "ds_closing st1 = ds_closing st @ cs" "ds_closing st' = ds_closing st2 @ ds"
    using assms(1,2) unfolding kept_def by blast
  then show "ds_closing st1 = ds_closing st" "ds_closing st' = ds_closing st2"
    using assms(3,4) by simp_all
qed

lemma closed_grows: "kept g st st' \<Longrightarrow> n \<in> closed_nodes st \<Longrightarrow> n \<in> closed_nodes st'"
  by (auto simp: kept_def)

text \<open>Such a search closes every node its edges lead to.\<close>

lemma dfs_settles:
  "dfs tgt fuel g cur es st = Some st' \<Longrightarrow> ds_closing st' = ds_closing st \<Longrightarrow>
     sound_marks tgt g st \<Longrightarrow> sound_marks tgt g st' \<and> targets_closed tgt g es st'"
proof (induction fuel es arbitrary: cur st st' rule: fuel_list_induct)
  case (Nil fuel)
  then show ?case by (simp add: targets_closed_def)
next
  case (Cons fuel e rest)
  from Cons.prems(1) show ?case
  proof (cases rule: dfs_step)
    case skip
    have "sound_marks tgt g st' \<and> targets_closed tgt g rest st'"
      using Cons.IH(1) [OF skip(1) Cons.prems(2,3)] .
    moreover have "tgt e \<in> closed_nodes st'" if "map_of g (tgt e) \<noteq> None"
      using closed_grows [OF dfs_kept [OF skip(1)] skip(2) [OF that]] .
    ultimately show ?thesis by (auto simp: targets_closed_def)
  next
    case cycle
    have "kept g (closes cur e st) st'" using cycle(2) by (rule dfs_kept)
    then obtain cs where "ds_closing st' = ds_closing (closes cur e st) @ cs"
      unfolding kept_def by blast
    then show ?thesis using Cons.prems(2) by simp
  next
    case (child f st1)
    note k1 = dfs_kept [OF child(4)] and k2 = dfs_kept [OF child(5)]
    have t: "tgt e \<notin> closed_nodes st" using child(2) mark_cases(4) [of st] by auto
    have q: "ds_closing st1 = ds_closing (mark_node (tgt e) MOpen st)"
      "ds_closing st' = ds_closing (mark_node (tgt e) MDone st1)"
      by (rule kept_quiet [OF k1 k2]; simp add: Cons.prems(2))+
    have "sound_marks tgt g (mark_node (tgt e) MOpen st)" using Cons.prems(3) t by (simp add: sound_marks_open)
    from Cons.IH(2) [OF child(1,4) q(1) this]
    have "sound_marks tgt g (mark_node (tgt e) MDone st1)" using visited_child [OF child(2) k1] by blast
    from Cons.IH(1) [OF child(5) q(2) this]
    have "sound_marks tgt g st' \<and> targets_closed tgt g rest st'" .
    moreover have "tgt e \<in> closed_nodes st'" using closed_grows [OF k2] by simp
    ultimately show ?thesis by (auto simp: targets_closed_def)
  qed
qed

text \<open>On an acyclic relation no open node is met again: every open node leads to the current one.\<close>

definition leads_here :: "('e \<Rightarrow> 'k) \<Rightarrow> ('k, 'e) edge_table \<Rightarrow> 'k \<Rightarrow> ('k, 'e) depth_search \<Rightarrow> bool" where
  "leads_here tgt g cur st \<longleftrightarrow>
     being st \<subseteq> {n. map_of g n \<noteq> None \<and> (n, cur) \<in> (edge_rel tgt g)\<^sup>*}"

lemma leads_here_child:
  assumes "leads_here tgt g cur st" and "(cur, t) \<in> edge_rel tgt g" and "map_of g t \<noteq> None"
  shows "leads_here tgt g t (mark_node t MOpen st)"
  using assms unfolding leads_here_def by (auto intro: rtrancl_into_rtrancl)

lemma dfs_silent:
  assumes ac: "acyclic (edge_rel tgt g)"
  shows "dfs tgt fuel g cur es st = Some st' \<Longrightarrow> set es \<subseteq> set (edges_at g cur) \<Longrightarrow>
     leads_here tgt g cur st \<Longrightarrow> ds_closing st' = ds_closing st"
proof (induction fuel es arbitrary: st st' cur rule: fuel_list_induct)
  case (Cons fuel e rest)
  have edge: "(cur, tgt e) \<in> edge_rel tgt g" if "map_of g (tgt e) \<noteq> None"
    using that Cons.prems(2) by (auto simp: edge_rel_def)
  have sub: "set rest \<subseteq> set (edges_at g cur)" using Cons.prems(2) by simp
  from Cons.prems(1) show ?case
  proof (cases rule: dfs_step)
    case skip
    then show ?thesis using Cons.IH(1) sub Cons.prems(3) by blast
  next
    case cycle
    then have "map_of g (tgt e) \<noteq> None" "(tgt e, cur) \<in> (edge_rel tgt g)\<^sup>*"
      using Cons.prems(3) by (auto simp: leads_here_def)
    then have "(tgt e, tgt e) \<in> (edge_rel tgt g)\<^sup>+" using edge by (meson rtrancl_into_trancl1)
    then show ?thesis using ac by (auto simp: acyclic_def)
  next
    case (child f st1)
    have "ds_closing st1 = ds_closing (mark_node (tgt e) MOpen st)"
      by (rule Cons.IH(2) [OF child(1,4) order_refl
            leads_here_child [OF Cons.prems(3) edge [OF child(3)] child(3)]])
    moreover have "tgt e \<notin> being st" using child(2) mark_cases(4) [of st] by auto
    then have "being (mark_node (tgt e) MDone st1) = being st"
      using dfs_kept [OF child(4)] by (auto simp: kept_def)
    then have "leads_here tgt g cur (mark_node (tgt e) MDone st1)"
      using Cons.prems(3) by (simp add: leads_here_def)
    then have "ds_closing st' = ds_closing (mark_node (tgt e) MDone st1)"
      by (rule Cons.IH(1) [OF child(5) sub])
    ultimately show ?thesis by simp
  qed
qed simp

section \<open>The roots\<close>

lemma roots_step:
  assumes "dfs_roots tgt fuel g (k # ks) st = Some st'"
  obtains (again) "k \<in> marked st" "dfs_roots tgt fuel g ks st = Some st'"
    | (visit) st1 where "k \<notin> marked st"
      "dfs tgt fuel g k (edges_at g k) (mark_node k MOpen st) = Some st1"
      "dfs_roots tgt fuel g ks (mark_node k MDone st1) = Some st'"
  using assms mark_cases(1) [of st k]
  by (cases "map_of (ds_marks st) k = None") (auto split: option.splits)

lemma roots_kept:
  "dfs_roots tgt fuel g ks st = Some st' \<Longrightarrow> set ks \<subseteq> dom (map_of g) \<Longrightarrow>
     kept g st st' \<and> set ks \<subseteq> marked st'"
proof (induction ks arbitrary: st)
  case (Cons k ks)
  from Cons.prems(1) show ?case
  proof (cases rule: roots_step)
    case again
    have "kept g st st' \<and> set ks \<subseteq> marked st'"
      using Cons.IH [OF again(2)] Cons.prems(2) by simp
    then show ?thesis using again(1) kept_marked [of g st st'] by auto
  next
    case (visit st1)
    have "kept g st (mark_node k MDone st1)"
      using visit Cons.prems(2) dfs_kept [OF visit(2)] by (intro kept_visit) auto
    moreover have "kept g (mark_node k MDone st1) st' \<and> set ks \<subseteq> marked st'"
      using Cons.IH [OF visit(3)] Cons.prems(2) by simp
    moreover from this have "k \<in> marked st'"
      using kept_marked [of g "mark_node k MDone st1" st'] by auto
    ultimately show ?thesis by (auto intro: kept_trans)
  qed
qed simp

lemma roots_right:
  "dfs_roots tgt fuel g ks st = Some st' \<Longrightarrow> set ks \<subseteq> dom (map_of g) \<Longrightarrow> being st = {} \<Longrightarrow>
     (ds_closing st' = ds_closing st \<longrightarrow> sound_marks tgt g st \<longrightarrow> sound_marks tgt g st') \<and>
     (acyclic (edge_rel tgt g) \<longrightarrow> ds_closing st' = ds_closing st)"
proof (induction ks arbitrary: st)
  case (Cons k ks)
  from Cons.prems(1) show ?case
  proof (cases rule: roots_step)
    case again
    then show ?thesis using Cons by simp
  next
    case (visit st1)
    have k: "k \<notin> closed_nodes st" using visit(1) mark_cases(4) [of st] by auto
    note k1 = dfs_kept [OF visit(2)]
    have b: "being (mark_node k MDone st1) = {}" using k1 Cons.prems(3) by (auto simp: kept_def)
    have sub: "set ks \<subseteq> dom (map_of g)" using Cons.prems(2) by simp
    note k2 = conjunct1 [OF roots_kept [OF visit(3) sub]]
    note IH = Cons.IH [OF visit(3) sub b]
    have "sound_marks tgt g st'" if q: "ds_closing st' = ds_closing st" and s: "sound_marks tgt g st"
    proof -
      have q: "ds_closing st1 = ds_closing (mark_node k MOpen st)"
        "ds_closing st' = ds_closing (mark_node k MDone st1)"
        by (rule kept_quiet [OF k1 k2]; simp add: q)+
      have "sound_marks tgt g (mark_node k MOpen st)" using s k by (simp add: sound_marks_open)
      from dfs_settles [OF visit(2) q(1) this] have "sound_marks tgt g (mark_node k MDone st1)"
        using visited_child [OF visit(1) k1] by blast
      then show ?thesis using IH q(2) by blast
    qed
    moreover have "ds_closing st' = ds_closing st" if ac: "acyclic (edge_rel tgt g)"
    proof -
      have "leads_here tgt g k (mark_node k MOpen st)"
        using Cons.prems by (auto simp: leads_here_def)
      then have "ds_closing st1 = ds_closing (mark_node k MOpen st)"
        by (rule dfs_silent [OF ac visit(2) order_refl])
      then show ?thesis using IH ac by simp
    qed
    ultimately show ?thesis by blast
  qed
qed simp

lemma search_graph_right:
  "\<exists>st. search_graph tgt g = Some st \<and> (ds_closing st = [] \<longleftrightarrow> acyclic (edge_rel tgt g))"
proof -
  let ?st = "\<lparr>ds_marks = [], ds_closing = []\<rparr>"
  have s: "being ?st = {}" "closed_nodes ?st = {}" "marked ?st = {}"
    by (auto simp: being_def closed_nodes_def marked_def)
  have "unmarked g ?st \<le> length g"
    unfolding unmarked_def s dom_map_of_conv_image_fst
    by simp (metis card_length length_map order_trans set_map)
  then obtain st' where st': "dfs_roots tgt (length g) g (map fst g) ?st = Some st'"
    using roots_end [of g ?st "length g" tgt "map fst g"] by blast
  have sub: "set (map fst g) \<subseteq> dom (map_of g)" by (simp add: dom_map_of_conv_image_fst)
  have k: "kept g ?st st'" "set (map fst g) \<subseteq> marked st'"
    using roots_kept [OF st' sub] by simp_all
  have "closed_nodes st' = dom (map_of g)"
    using k s unfolding kept_def mark_cases(4) by (auto simp: dom_map_of_conv_image_fst)
  moreover have "edge_rel tgt g \<subseteq> dom (map_of g) \<times> dom (map_of g)"
    by (auto simp: edge_rel_def edges_at_def dom_def dest: sym split: option.splits)
  ultimately have all: "edge_rel tgt g \<inter> closed_nodes st' \<times> closed_nodes st' = edge_rel tgt g" by auto
  have "sound_marks tgt g ?st" by (simp add: sound_marks_def s acyclic_def)
  then have "ds_closing st' = [] \<longleftrightarrow> acyclic (edge_rel tgt g)"
    using roots_right [OF st' sub s(1)] all by (auto simp: sound_marks_def)
  then show ?thesis using st' by (simp add: search_graph_def)
qed

text \<open>A closing edge is an edge of the graph between nodes of it.\<close>

lemma dfs_closing_edges:
  "dfs tgt fuel g cur es st = Some st' \<Longrightarrow> set es \<subseteq> set (edges_at g cur) \<Longrightarrow>
     (\<forall>(n, e)\<in>set (ds_closing st). e \<in> set (edges_at g n)) \<Longrightarrow>
     \<forall>(n, e)\<in>set (ds_closing st'). e \<in> set (edges_at g n)"
proof (induction fuel es arbitrary: cur st st' rule: fuel_list_induct)
  case (Cons fuel e rest)
  have e: "e \<in> set (edges_at g cur)" "set rest \<subseteq> set (edges_at g cur)" using Cons.prems(2) by auto
  from Cons.prems(1) show ?case
  proof (cases rule: dfs_step)
    case skip
    then show ?thesis using Cons.IH(1) e Cons.prems(3) by blast
  next
    case cycle
    show ?thesis by (rule Cons.IH(1) [OF cycle(2) e(2)]) (use e Cons.prems(3) in auto)
  next
    case (child f st1)
    have "\<forall>(n, e)\<in>set (ds_closing st1). e \<in> set (edges_at g n)"
      by (rule Cons.IH(2) [OF child(1,4) order_refl]) (use Cons.prems(3) in simp)
    then show ?thesis using Cons.IH(1) [OF child(5) e(2)] by simp
  qed
qed simp

lemma roots_closing_edges:
  "dfs_roots tgt fuel g ks st = Some st' \<Longrightarrow>
     (\<forall>(n, e)\<in>set (ds_closing st). e \<in> set (edges_at g n)) \<Longrightarrow>
     \<forall>(n, e)\<in>set (ds_closing st'). e \<in> set (edges_at g n)"
proof (induction ks arbitrary: st)
  case (Cons k ks)
  from Cons.prems(1) show ?case
  proof (cases rule: roots_step)
    case again
    then show ?thesis using Cons by blast
  next
    case (visit st1)
    have "\<forall>(n, e)\<in>set (ds_closing st1). e \<in> set (edges_at g n)"
      by (rule dfs_closing_edges [OF visit(2) order_refl]) (use Cons.prems(2) in simp)
    then show ?thesis using Cons.IH [OF visit(3)] by simp
  qed
qed simp

lemma search_graph_closing:
  "search_graph tgt g = Some st \<Longrightarrow> (n, e) \<in> set (ds_closing st) \<Longrightarrow> e \<in> set (edges_at g n)"
  using roots_closing_edges [of tgt "length g" g "map fst g" "\<lparr>ds_marks = [], ds_closing = []\<rparr>" st]
  by (auto simp: search_graph_def)

end
