(* ===== verification/CompositeCycles.thy ===== *)
theory CompositeCycles
  imports ReaderDefinitions DepthSearch
begin

text \<open>
  The composite-relationship check at the end of \<open>readContractIr\<close>
  (\<open>src/src/compiler/ir/reader.mjs\<close>): a depth-first traversal of the types over their composite
  relationships that marks each type open while it is visited and done afterwards. The recursion of
  \<open>visit\<close> is bounded by fuel; one unit per type is enough. It is the search of DepthSearch over the
  composite relationships, each raising its finding where it closes a cycle.
\<close>

type_synonym type_map = "(jsstr \<times> node) list"

record composite_search =
  cs_marks :: "(jsstr \<times> mark) list"
  cs_findings :: "finding list"

definition relationships_at :: "type_map \<Rightarrow> jsstr \<Rightarrow> jsval list" where
  "relationships_at types identity =
     (case map_of types identity of
        None \<Rightarrow> []
      | Some d \<Rightarrow> as_array (get (snd d) ''relationships''))"

definition mark_type :: "jsstr \<Rightarrow> mark \<Rightarrow> composite_search \<Rightarrow> composite_search" where
  "mark_type identity m st = st\<lparr>cs_marks := AList.update identity m (cs_marks st)\<rparr>"

definition cycle_finding :: "jsval \<Rightarrow> finding" where
  "cycle_finding r =
     raised ''COMPOSITE_CYCLE''
       (js ''a composite relationship closes a cycle at '' @ fragment (Str (relationship_target r)))
       (source_of r)"

definition closes_cycle :: "jsval \<Rightarrow> composite_search \<Rightarrow> composite_search" where
  "closes_cycle r st = st\<lparr>cs_findings := cs_findings st @ [cycle_finding r]\<rparr>"

text \<open>The loop of \<open>visit\<close> over the relationships of an open type.\<close>

fun visit_composites ::
  "nat \<Rightarrow> type_map \<Rightarrow> jsval list \<Rightarrow> composite_search \<Rightarrow> composite_search option" where
  "visit_composites fuel types [] st = Some st"
| "visit_composites fuel types (r # rest) st =
     (if get r ''composite'' \<noteq> Bool True then visit_composites fuel types rest st
      else (case map_of (cs_marks st) (relationship_target r) of
          Some MOpen \<Rightarrow> visit_composites fuel types rest (closes_cycle r st)
        | Some MDone \<Rightarrow> visit_composites fuel types rest st
        | None \<Rightarrow>
            if map_of types (relationship_target r) = None then visit_composites fuel types rest st
            else (case fuel of
                0 \<Rightarrow> None
              | Suc f \<Rightarrow>
                  (case visit_composites f types (relationships_at types (relationship_target r))
                     (mark_type (relationship_target r) MOpen st) of
                     None \<Rightarrow> None
                   | Some st' \<Rightarrow>
                       visit_composites fuel types rest (mark_type (relationship_target r) MDone st')))))"

fun composite_roots ::
  "nat \<Rightarrow> type_map \<Rightarrow> jsstr list \<Rightarrow> composite_search \<Rightarrow> composite_search option" where
  "composite_roots fuel types [] st = Some st"
| "composite_roots fuel types (k # ks) st =
     (if map_of (cs_marks st) k \<noteq> None then composite_roots fuel types ks st
      else (case visit_composites fuel types (relationships_at types k) (mark_type k MOpen st) of
          None \<Rightarrow> None
        | Some st' \<Rightarrow> composite_roots fuel types ks (mark_type k MDone st')))"

definition compositeCycles :: "type_map \<Rightarrow> finding list option" where
  "compositeCycles types =
     map_option cs_findings
       (composite_roots (length types) types (map fst types) \<lparr>cs_marks = [], cs_findings = []\<rparr>)"

section \<open>The traversal as a depth-first search\<close>

definition composite_rel :: "type_map \<Rightarrow> (jsstr \<times> jsstr) set" where
  "composite_rel types =
     {(i, j). \<exists>r\<in>set (relationships_at types i).
        get r ''composite'' = Bool True \<and> relationship_target r = j \<and> map_of types j \<noteq> None}"

definition composites :: "jsval list \<Rightarrow> jsval list" where
  "composites rs = filter (\<lambda>r. get r ''composite'' = Bool True) rs"

definition composite_table :: "type_map \<Rightarrow> (jsstr, jsval) edge_table" where
  "composite_table types =
     map (\<lambda>(k, d). (k, composites (as_array (get (snd d) ''relationships'')))) types"

definition as_composite :: "(jsstr, jsval) depth_search \<Rightarrow> composite_search" where
  "as_composite d =
     \<lparr>cs_marks = ds_marks d, cs_findings = map (\<lambda>c. cycle_finding (snd c)) (ds_closing d)\<rparr>"

lemma composite_table_at:
  "map_of (composite_table types) k =
     map_option (\<lambda>d. composites (as_array (get (snd d) ''relationships''))) (map_of types k)"
  unfolding composite_table_def by (induction types) auto

lemma composite_edges_at: "edges_at (composite_table types) k = composites (relationships_at types k)"
  by (simp add: edges_at_def composite_table_at relationships_at_def composites_def split: option.splits)

lemma as_composite_simps [simp]:
  "cs_marks (as_composite d) = ds_marks d"
  "mark_type k m (as_composite d) = as_composite (mark_node k m d)"
  by (simp_all add: as_composite_def mark_type_def mark_node_def)

lemma as_composite_closes: "closes_cycle r (as_composite d) = as_composite (closes n r d)"
  by (simp add: as_composite_def closes_cycle_def closes_def)

lemma composites_simps [simp]:
  "composites [] = []"
  "composites (r # rest) = (if get r ''composite'' = Bool True then r # composites rest else composites rest)"
  by (simp_all add: composites_def)

lemma visit_as_search:
  "visit_composites fuel types rs (as_composite d) =
     map_option as_composite
       (dfs relationship_target fuel (composite_table types) cur (composites rs) d)"
proof (induction fuel rs arbitrary: cur d rule: fuel_list_induct)
  case (Cons fuel r rest)
  note IH = Cons.IH(1) [of _ cur]
  show ?case
  proof (cases "get r ''composite'' = Bool True")
    case c: True
    show ?thesis
    proof (cases "map_of (ds_marks d) (relationship_target r)")
      case None
      show ?thesis
      proof (cases fuel)
        case (Suc f)
        show ?thesis
          using c None IH
          by (simp add: Suc Cons.IH(2) [OF Suc, of _ _ "relationship_target r"] composite_table_at
              composite_edges_at split: option.splits)
      qed (use c None IH in \<open>simp add: composite_table_at\<close>)
    next
      case (Some m)
      then show ?thesis using c IH by (cases m) (simp_all add: as_composite_closes [of r d cur])
    qed
  qed (use IH in simp)
qed simp

lemma roots_as_search:
  "composite_roots fuel types ks (as_composite d) =
     map_option as_composite (dfs_roots relationship_target fuel (composite_table types) ks d)"
proof (induction ks arbitrary: d)
  case (Cons k ks)
  then show ?case
    by (simp add: visit_as_search [of _ _ _ _ k] composite_edges_at split: option.splits)
qed simp

lemma compositeCycles_search:
  "compositeCycles types =
     map_option (\<lambda>d. map (\<lambda>c. cycle_finding (snd c)) (ds_closing d))
       (search_graph relationship_target (composite_table types))"
proof -
  have "\<lparr>cs_marks = [], cs_findings = []\<rparr> = as_composite \<lparr>ds_marks = [], ds_closing = []\<rparr>"
    by (simp add: as_composite_def)
  moreover have "map fst (composite_table types) = map fst types"
    "length (composite_table types) = length types"
    by (auto simp: composite_table_def)
  ultimately have "compositeCycles types =
      map_option cs_findings (map_option as_composite (search_graph relationship_target (composite_table types)))"
    by (simp only: compositeCycles_def search_graph_def roots_as_search)
  then show ?thesis by (simp add: option.map_comp comp_def as_composite_def)
qed

lemma composite_rel_edges: "edge_rel relationship_target (composite_table types) = composite_rel types"
  by (auto simp: edge_rel_def composite_rel_def composite_edges_at composite_table_at composites_def)

lemma compositeCycles_right:
  "\<exists>fs. compositeCycles types = Some fs \<and> (fs = [] \<longleftrightarrow> acyclic (composite_rel types))"
  using search_graph_right [of relationship_target "composite_table types"]
  by (auto simp: compositeCycles_search composite_rel_edges)

section \<open>Property\<close>

text \<open>
  C18. The traversal of the composite relationships ends, and it raises nothing exactly when the
  composite relation between the types of the document is acyclic.
\<close>

theorem compositeCycles_exact:
  "\<exists>fs. compositeCycles types = Some fs \<and> (fs = [] \<longleftrightarrow> acyclic (composite_rel types))"
  by (rule compositeCycles_right)

end
