(* ===== verification/DocumentConstructs.thy ===== *)
theory DocumentConstructs
  imports ReaderChecks
begin

text \<open>
  \<open>checkConstructs\<close> of \<open>src/src/compiler/ir/reader.mjs\<close>: the construct table of a document, and each
  type's and population's conformance to the entry of its kind.
\<close>

record table_entry =
  te_label :: jsstr
  te_declaration :: "construct_decl option"
  te_at :: jsstr
  te_used :: bool
  te_meaning :: jsval

definition invalid :: "jsstr \<Rightarrow> jsstr \<Rightarrow> jsval \<Rightarrow> finding" where
  "invalid pointer message node = raised ''INVALID_IR'' (pointer @ js '': '' @ message) (source_of node)"

text \<open>A kind with a text module and a text name.\<close>

definition named_kind :: "jsval \<Rightarrow> bool" where
  "named_kind kind \<longleftrightarrow> is_object kind \<and> is_string (get kind ''module'') \<and> is_string (get kind ''name'')"

definition labelled :: "jsstr \<Rightarrow> table_entry list \<Rightarrow> table_entry option" where
  "labelled label entries = find (\<lambda>e. te_label e = label) entries"

definition add_entry :: "nat \<times> jsval \<Rightarrow> table_entry list \<times> finding list \<Rightarrow> table_entry list \<times> finding list" where
  "add_entry e st =
     (let (position, v) = e; (entries, fs) = st;
          at_ptr = js ''/ir/constructs/'' @ nat_text position;
          read = (if get v ''construct'' = Undefined then None else Some (readDeclaration (get v ''construct'')));
          refused = (case read of
            Some (Inl (pointer, message)) \<Rightarrow> [invalid (at_ptr @ js ''/construct'' @ pointer) message Undefined]
          | _ \<Rightarrow> []);
          declaration = (case read of Some (Inr d) \<Rightarrow> Some d | _ \<Rightarrow> None);
          kind = get v ''kind''; label = kindLabel kind
      in if \<not> is_object v then (entries, fs)
         else if \<not> named_kind kind then (entries, fs @ refused)
         else if labelled label entries \<noteq> None then
           (entries, fs @ refused @ [invalid (at_ptr @ js ''/kind'')
             (js ''constructs declares the kind '' @ label @ js '' once'') Undefined])
         else (entries @ [\<lparr>te_label = label, te_declaration = declaration, te_at = at_ptr @ js ''/kind'',
             te_used = False, te_meaning = get (get v ''construct'') ''meaning''\<rparr>], fs @ refused))"

definition table_entries :: "jsval \<Rightarrow> table_entry list \<times> finding list" where
  "table_entries document =
     fold add_entry (List.enumerate 0 (list_of (get document ''constructs''))) ([], [])"

definition mark_used :: "jsstr \<Rightarrow> table_entry list \<Rightarrow> table_entry list" where
  "mark_used label entries = map (\<lambda>e. if te_label e = label then e\<lparr>te_used := True\<rparr> else e) entries"

text \<open>What a declaration asks of the members of a type of its kind.\<close>

definition has_member :: "jsval \<Rightarrow> jsstr \<Rightarrow> bool" where
  "has_member d m \<longleftrightarrow> map_of (members_of d) m \<noteq> None"

definition presence_findings :: "construct_decl \<Rightarrow> jsstr \<Rightarrow> jsval \<Rightarrow> jsstr \<Rightarrow> finding list" where
  "presence_findings decl at_ptr d member =
     (let presence = presenceOf decl member; name = to_text (get (get d ''kind'') ''name'')
      in (if presence = Some (js ''required'') \<and> \<not> has_member d member
          then [invalid at_ptr (js ''a '' @ name @ js '' construct requires '' @ member) d] else []) @
         (if presence = Some (js ''forbidden'') \<and> has_member d member
          then [invalid (at_ptr @ js ''/'' @ member) (js ''a '' @ name @ js '' construct carries no '' @ member) d]
          else []))"

definition rule_findings :: "jsstr \<Rightarrow> jsval \<Rightarrow> jsstr \<Rightarrow> finding list" where
  "rule_findings at_ptr d rule =
     (case ruleOf rule of
        None \<Rightarrow> []
      | Some r \<Rightarrow>
          if vr_nonEmpty r \<and> get_at d (vr_member r) = Arr []
          then [invalid (at_ptr @ js ''/'' @ vr_member r)
            (js ''a '' @ to_text (get (get d ''kind'') ''name'') @ js '' construct declares at least one of ''
              @ vr_member r) d]
          else [])"

definition conforms :: "construct_decl \<Rightarrow> jsstr \<Rightarrow> jsval \<Rightarrow> finding list" where
  "conforms decl at_ptr d =
     concat (map (presence_findings decl at_ptr d) (map vm_name MEMBERS)) @
     concat (map (rule_findings at_ptr d) (dc_rules decl))"

definition check_type_construct ::
  "nat \<times> jsval \<Rightarrow> table_entry list \<times> finding list \<Rightarrow> table_entry list \<times> finding list" where
  "check_type_construct e st =
     (let (position, d) = e; (entries, fs) = st;
          at_ptr = js ''/ir/types/'' @ nat_text position; label = kindLabel (get d ''kind'')
      in if \<not> isConstructKind (get d ''kind'') then
           (entries, fs @ concat (map (\<lambda>m. if has_member d m
             then [invalid (at_ptr @ js ''/'' @ m) (m @ js '' is carried by a construct kind only'') d] else [])
             constructOnlyMembers))
         else (case labelled label entries of
             None \<Rightarrow> (entries, fs @ [invalid (at_ptr @ js ''/kind'')
               (js ''the kind '' @ label @ js '' names no constructs entry'') d])
           | Some en \<Rightarrow> (mark_used label entries,
               fs @ (case te_declaration en of None \<Rightarrow> [] | Some decl \<Rightarrow> conforms decl at_ptr d))))"

definition check_population ::
  "nat \<times> jsval \<Rightarrow> table_entry list \<times> finding list \<Rightarrow> table_entry list \<times> finding list" where
  "check_population e st =
     (let (position, p) = e; (entries, fs) = st; kind = get p ''kind''; label = kindLabel kind
      in if \<not> named_kind kind then (entries, fs)
         else if labelled label entries = None then
           (entries, fs @ [invalid (js ''/ir/populations/'' @ nat_text position @ js ''/kind'')
             (js ''the kind '' @ label @ js '' names no constructs entry'') p])
         else (mark_used label entries, fs))"

definition unused_findings :: "table_entry list \<Rightarrow> finding list" where
  "unused_findings entries =
     map (\<lambda>e. invalid (te_at e) (js ''constructs declares '' @ te_label e
         @ js '', and no type definition or population is of that kind'') Undefined)
       (filter (\<lambda>e. \<not> te_used e \<and>
         te_meaning e \<noteq> Str (js ''quire.meaning.model.population/v1'')) entries)"

definition checkConstructs :: "jsval \<Rightarrow> jsval list \<Rightarrow> finding list" where
  "checkConstructs document definitions =
     (let st1 = table_entries document;
          st2 = fold check_type_construct (List.enumerate 0 definitions) st1;
          (entries, fs) = fold check_population
            (List.enumerate 0 (as_array (get document ''populations''))) st2
      in fs @ unused_findings entries)"

end
