(* ===== verification/ReaderWalks.thy ===== *)
theory ReaderWalks
  imports ReaderTypes
begin

text \<open>
  What the reference walks of the reader compute. The four loops share one shape: a reference ends
  the walk or hands over to the next one, and a reference met twice ends it with nothing. The locale
  \<open>reference_walk\<close> states that shape and proves what such a walk returns; \<open>memoised_walk\<close> adds the
  memo of \<open>specialOf\<close> and proves that it never changes an answer.
\<close>

section \<open>Walks\<close>

datatype 'r hop = Done "'r option" | Hop jsval

definition hops_of :: "(jsstr \<Rightarrow> 'r hop) \<Rightarrow> (jsstr \<times> jsstr) set" where
  "hops_of hop = {(r, s). hop r = Hop (Str s)}"

lemma hop_unique: "(r, s) \<in> hops_of hop \<Longrightarrow> (r, s') \<in> hops_of hop \<Longrightarrow> s = s'"
  by (simp add: hops_of_def)

lemma done_no_hop: "hop t = Done d \<Longrightarrow> (t, s) \<notin> hops_of hop"
  by (simp add: hops_of_def)

lemma done_no_cycle:
  assumes "(r, t) \<in> (hops_of hop)\<^sup>*" and "hop t = Done d"
  shows "(r, r) \<notin> (hops_of hop)\<^sup>+"
  using assms(1)
proof (induction rule: converse_rtrancl_induct)
  case base
  show ?case using done_no_hop [of hop t, OF assms(2)] by (meson tranclD)
next
  case (step r s)
  show ?case
  proof
    assume "(r, r) \<in> (hops_of hop)\<^sup>+"
    then obtain s' where "(r, s') \<in> hops_of hop" "(s', r) \<in> (hops_of hop)\<^sup>*" by (meson tranclD)
    then have "(s, r) \<in> (hops_of hop)\<^sup>*" using step.hyps(1) hop_unique by metis
    then have "(s, s) \<in> (hops_of hop)\<^sup>+" using step.hyps(1) by (rule rtrancl_into_trancl1)
    then show False using step.IH by simp
  qed
qed

locale reference_walk =
  fixes walk :: "jsval \<Rightarrow> jsstr list \<Rightarrow> 'r option"
    and hop :: "jsstr \<Rightarrow> 'r hop"
  assumes walk_other: "\<not> is_string v \<Longrightarrow> walk v visited = None"
    and walk_known: "r \<in> set visited \<Longrightarrow> walk (Str r) visited = None"
    and walk_done: "r \<notin> set visited \<Longrightarrow> hop r = Done d \<Longrightarrow> walk (Str r) visited = d"
    and walk_hop: "r \<notin> set visited \<Longrightarrow> hop r = Hop v \<Longrightarrow> walk (Str r) visited = walk v (visited @ [r])"
    and finite_hops: "finite {r. \<exists>v. hop r = Hop v}"
begin

lemma open_hops_less:
  assumes "hop r = Hop v" and "r \<notin> set visited"
  shows "card ({r. \<exists>v. hop r = Hop v} - set (visited @ [r])) < card ({r. \<exists>v. hop r = Hop v} - set visited)"
  using assms finite_hops by (intro psubset_card_mono) auto

lemma walk_reaches:
  "walk v visited = Some x \<Longrightarrow>
     \<exists>r t. v = Str r \<and> (r, t) \<in> (hops_of hop)\<^sup>* \<and> hop t = Done (Some x)"
proof (induction "card ({r. \<exists>v. hop r = Hop v} - set visited)" arbitrary: v visited rule: less_induct)
  case less
  obtain r where v: "v = Str r" using less.prems walk_other [of v] by (cases v) auto
  have n: "r \<notin> set visited" using less.prems walk_known v by fastforce
  show ?case
  proof (cases "hop r")
    case (Done d)
    then show ?thesis using less.prems n v walk_done by auto
  next
    case (Hop w)
    have "walk w (visited @ [r]) = Some x" using less.prems n v walk_hop [OF n Hop] by simp
    then obtain s t where s: "w = Str s" "(s, t) \<in> (hops_of hop)\<^sup>*" "hop t = Done (Some x)"
      using less.hyps [OF open_hops_less [OF Hop n]] by blast
    then have "(r, s) \<in> hops_of hop" using Hop by (simp add: hops_of_def)
    then show ?thesis using s v by (blast intro: converse_rtrancl_into_rtrancl)
  qed
qed

lemma reaches_walk:
  assumes "(r, t) \<in> (hops_of hop)\<^sup>*" and t: "hop t = Done (Some x)"
    and "\<And>u. (r, u) \<in> (hops_of hop)\<^sup>* \<Longrightarrow> u \<notin> set visited"
  shows "walk (Str r) visited = Some x"
  using assms(1,3)
proof (induction arbitrary: visited rule: converse_rtrancl_induct)
  case base
  then show ?case using walk_done [OF _ t] by simp
next
  case (step r s)
  have n: "r \<notin> set visited" using step.prems by simp
  have h: "hop r = Hop (Str s)" using step.hyps(1) by (simp add: hops_of_def)
  have "(r, t) \<in> (hops_of hop)\<^sup>*" using step.hyps by (rule converse_rtrancl_into_rtrancl)
  then have c: "(r, r) \<notin> (hops_of hop)\<^sup>+" using t by (rule done_no_cycle)
  have "walk (Str s) (visited @ [r]) = Some x"
  proof (rule step.IH)
    fix u
    assume u: "(s, u) \<in> (hops_of hop)\<^sup>*"
    then have "(r, u) \<in> (hops_of hop)\<^sup>*" using step.hyps(1) by (meson converse_rtrancl_into_rtrancl)
    moreover have "u \<noteq> r" using c u step.hyps(1) by (meson rtrancl_into_trancl2)
    ultimately show "u \<notin> set (visited @ [r])" using step.prems by simp
  qed
  then show ?case using walk_hop [OF n h] by simp
qed

theorem walk_exact:
  "walk (Str r) [] = Some x \<longleftrightarrow> (\<exists>t. (r, t) \<in> (hops_of hop)\<^sup>* \<and> hop t = Done (Some x))"
  using walk_reaches [of "Str r" "[]" x] reaches_walk [of r _ x "[]"] by auto

text \<open>The answer of a reference is that of the one it hands over to.\<close>

lemma answer_hop: "hop r = Hop v \<Longrightarrow> walk (Str r) [] = walk v []"
proof (cases "is_string v")
  case False
  moreover assume "hop r = Hop v"
  ultimately show ?thesis using walk_hop [of r "[]"] walk_other by simp
next
  case True
  assume h: "hop r = Hop v"
  from True obtain s where s: "v = Str s" by (cases v) auto
  have "(\<exists>t. (r, t) \<in> (hops_of hop)\<^sup>* \<and> hop t = Done (Some x)) \<longleftrightarrow>
      (\<exists>t. (s, t) \<in> (hops_of hop)\<^sup>* \<and> hop t = Done (Some x))" for x
  proof -
    have rs: "(r, s) \<in> hops_of hop" using h s by (simp add: hops_of_def)
    have "(s, t) \<in> (hops_of hop)\<^sup>*" if "(r, t) \<in> (hops_of hop)\<^sup>*" "hop t = Done (Some x)" for t
      using that h by (cases rule: converse_rtranclE) (auto simp: hops_of_def s)
    then show ?thesis using rs by (meson converse_rtrancl_into_rtrancl)
  qed
  then have "walk (Str r) [] = Some x \<longleftrightarrow> walk v [] = Some x" for x
    unfolding s walk_exact .
  then show ?thesis by (metis not_None_eq)
qed

lemma answer_cycle: "(r, r) \<in> (hops_of hop)\<^sup>+ \<Longrightarrow> walk (Str r) [] = None"
  using walk_exact [of r] done_no_cycle [of r _ hop] by (metis not_None_eq)

end

text \<open>A walk that also consults a memo, and says which references it passed.\<close>

locale memoised_walk = reference_walk walk hop
  for walk :: "jsval \<Rightarrow> jsstr list \<Rightarrow> 'r option" and hop :: "jsstr \<Rightarrow> 'r hop" +
  fixes mwalk :: "(jsstr \<times> 'r option) list \<Rightarrow> jsval \<Rightarrow> jsstr list \<Rightarrow> 'r option \<times> jsstr list"
    and eager :: "jsstr \<Rightarrow> bool"
  assumes mwalk_other: "\<not> is_string v \<Longrightarrow> mwalk m v w = (None, w)"
    and mwalk_known: "r \<in> set w \<Longrightarrow> mwalk m (Str r) w = (None, w)"
    and mwalk_eager: "r \<notin> set w \<Longrightarrow> eager r \<Longrightarrow> hop r = Done d \<Longrightarrow> mwalk m (Str r) w = (d, w)"
    and mwalk_memo: "r \<notin> set w \<Longrightarrow> \<not> eager r \<Longrightarrow> map_of m r = Some d \<Longrightarrow> mwalk m (Str r) w = (d, w)"
    and mwalk_done: "r \<notin> set w \<Longrightarrow> \<not> eager r \<Longrightarrow> map_of m r = None \<Longrightarrow> hop r = Done d \<Longrightarrow>
      mwalk m (Str r) w = (d, w @ [r])"
    and mwalk_hop: "r \<notin> set w \<Longrightarrow> \<not> eager r \<Longrightarrow> map_of m r = None \<Longrightarrow> hop r = Hop v \<Longrightarrow>
      mwalk m (Str r) w = mwalk m v (w @ [r])"
    and eager_done: "eager r \<Longrightarrow> \<exists>d. hop r = Done d"
begin

definition faithful_memo :: "(jsstr \<times> 'r option) list \<Rightarrow> bool" where
  "faithful_memo m \<longleftrightarrow> (\<forall>k d. map_of m k = Some d \<longrightarrow> d = walk (Str k) [])"

lemma mwalk_answers:
  assumes m: "faithful_memo m"
    and "\<And>u. u \<in> set w \<Longrightarrow> walk (Str u) [] = walk v []"
    and "\<And>u r. u \<in> set w \<Longrightarrow> v = Str r \<Longrightarrow> (u, r) \<in> (hops_of hop)\<^sup>+"
  shows "fst (mwalk m v w) = walk v [] \<and> (\<forall>u\<in>set (snd (mwalk m v w)). walk (Str u) [] = walk v [])"
  using assms(2,3)
proof (induction "card ({r. \<exists>v. hop r = Hop v} - set w)" arbitrary: v w rule: less_induct)
  case less
  show ?case
  proof (cases "is_string v")
    case False
    then show ?thesis using less.prems(1) by (auto simp: mwalk_other walk_other)
  next
    case True
    then obtain r where v: "v = Str r" by (cases v) auto
    show ?thesis
    proof (cases "r \<in> set w")
      case True
      then have "(r, r) \<in> (hops_of hop)\<^sup>+" using less.prems(2) v by simp
      then show ?thesis using less.prems(1) True v answer_cycle by (auto simp: mwalk_known)
    next
      case n: False
      show ?thesis
      proof (cases "eager r")
        case True
        then obtain d where d: "hop r = Done d" using eager_done by blast
        then show ?thesis using less.prems(1) v mwalk_eager [OF n True d] walk_done [of r "[]" d] by simp
      next
        case e: False
        show ?thesis
        proof (cases "map_of m r")
          case (Some d)
          then have "d = walk (Str r) []" using m by (simp add: faithful_memo_def)
          then show ?thesis using less.prems(1) v mwalk_memo [OF n e Some] by simp
        next
          case None
          show ?thesis
          proof (cases "hop r")
            case (Done d)
            then show ?thesis using less.prems(1) v mwalk_done [OF n e None Done] walk_done [of r "[]" d]
              by auto
          next
            case (Hop v')
            have a: "walk v [] = walk v' []" using answer_hop [OF Hop] v by simp
            have step: "(u, r') \<in> (hops_of hop)\<^sup>+" if "u \<in> set (w @ [r])" "v' = Str r'" for u r'
            proof -
              have "(r, r') \<in> hops_of hop" using Hop that(2) by (simp add: hops_of_def)
              then show ?thesis using that(1) less.prems(2) [of u r] v by (auto intro: trancl_into_trancl)
            qed
            have "fst (mwalk m v' (w @ [r])) = walk v' [] \<and>
                (\<forall>u\<in>set (snd (mwalk m v' (w @ [r]))). walk (Str u) [] = walk v' [])"
              using less.hyps [OF open_hops_less [OF Hop n], of v'] less.prems(1) a v step by auto
            then show ?thesis using mwalk_hop [OF n e None Hop] v a by simp
          qed
        qed
      qed
    qed
  qed
qed

lemma fold_memo:
  "map_of (fold (\<lambda>k. AList.update k d) ks m) j = (if j \<in> set ks then Some d else map_of m j)"
  by (induction ks arbitrary: m) (auto simp: update_conv')

lemma faithful_update:
  assumes "faithful_memo m"
  shows "fst (mwalk m v []) = walk v []"
    and "faithful_memo (fold (\<lambda>k. AList.update k (fst (mwalk m v []))) (snd (mwalk m v [])) m)"
  using mwalk_answers [OF assms, of "[]" v] assms
  by (auto simp: faithful_memo_def fold_memo split: if_splits)

end

section \<open>The walks of the reader\<close>

definition kind_hop :: "reader_index \<Rightarrow> bool \<Rightarrow> jsstr \<Rightarrow> resolved hop" where
  "kind_hop ix allowField r =
     (case nativeScalar (Str r) of
        Some s \<Rightarrow> Done (Some \<lparr>res_kind = js ''scalar'', res_scalar = Some s\<rparr>)
      | None \<Rightarrow>
          (case (if allowField then map_of (ix_fields ix) r else None) of
             Some f \<Rightarrow> Hop (get (snd f) ''typeRef'')
           | None \<Rightarrow>
               (case map_of (ix_types ix) r of
                  None \<Rightarrow> Done None
                | Some d \<Rightarrow>
                    if isAliasShaped (ix_table ix) (snd d) then Hop (get (snd d) ''target'')
                    else Done (Some \<lparr>res_kind = to_text (get (snd d) ''kind''),
                           res_scalar = text_option (get (snd d) ''scalar'')\<rparr>))))"

definition option_hop :: "reader_index \<Rightarrow> jsstr \<Rightarrow> (jsstr \<times> node option) hop" where
  "option_hop ix r =
     (case map_of (ix_types ix) r of
        None \<Rightarrow> Done (Some (r, None))
      | Some d \<Rightarrow>
          if isAliasShaped (ix_table ix) (snd d) then Hop (get (snd d) ''target'')
          else Done (Some (r, Some d)))"

definition quick_special :: "jsstr \<Rightarrow> bool" where
  "quick_special r \<longleftrightarrow> r = clockRef \<or> quantityName r \<or> starts_with r quantityPrefix"

definition special_hop :: "reader_index \<Rightarrow> jsstr \<Rightarrow> special hop" where
  "special_hop ix r =
     (if r = clockRef then Done (Some Clock)
      else if quantityName r then Done (Some Quantity)
      else if starts_with r quantityPrefix then Done (Some Malformed)
      else if nativeScalar (Str r) \<noteq> None then Done None
      else (case map_of (ix_fields ix) r of
         Some f \<Rightarrow> Hop (get (snd f) ''typeRef'')
       | None \<Rightarrow>
           (case map_of (ix_types ix) r of
              None \<Rightarrow> Done None
            | Some d \<Rightarrow>
                if isAliasShaped (ix_table ix) (snd d) then Hop (get (snd d) ''target'')
                else Done None)))"

lemma finite_in_index:
  "(\<And>r v. hop r = Hop v \<Longrightarrow> r \<in> set (index_keys ix)) \<Longrightarrow> finite {r. \<exists>v. hop r = Hop v}"
  by (rule finite_subset [of _ "set (index_keys ix)"]) auto

lemma kind_hop_key: "kind_hop ix a r = Hop v \<Longrightarrow> r \<in> set (index_keys ix)"
  by (auto simp: kind_hop_def intro: index_key_field index_key_type split: option.splits if_splits)

lemma option_hop_key: "option_hop ix r = Hop v \<Longrightarrow> r \<in> set (index_keys ix)"
  by (auto simp: option_hop_def intro: index_key_type split: option.splits if_splits)

lemma special_hop_key: "special_hop ix r = Hop v \<Longrightarrow> r \<in> set (index_keys ix)"
  by (auto simp: special_hop_def intro: index_key_field index_key_type split: option.splits if_splits)

lemmas resolve_walk_Str = resolve_walk.simps [of ix a "Str r" visited for ix a r visited, unfolded jsval.case]

lemmas option_walk_Str = option_walk.simps [of ix "Str r" visited for ix r visited, unfolded jsval.case]

lemmas special_loop_Str = special_loop.simps [of ix m "Str r" w for ix m r w, unfolded jsval.case]

interpretation kinds: reference_walk "resolve_walk ix a" "kind_hop ix a" for ix a
proof
  show "resolve_walk ix a v visited = None" if "\<not> is_string v" for v visited
    using that by (cases v) (simp_all add: resolve_walk.simps)
  show "finite {r. \<exists>v. kind_hop ix a r = Hop v}" by (rule finite_in_index) (rule kind_hop_key)
qed (auto simp: resolve_walk_Str kind_hop_def split: option.splits if_splits)

interpretation aliases: reference_walk "option_walk ix" "option_hop ix" for ix
proof
  show "option_walk ix v visited = None" if "\<not> is_string v" for v visited
    using that by (cases v) (simp_all add: option_walk.simps)
  show "finite {r. \<exists>v. option_hop ix r = Hop v}" by (rule finite_in_index) (rule option_hop_key)
qed (auto simp: option_walk_Str option_hop_def split: option.splits if_splits)

interpretation specials: memoised_walk "\<lambda>v w. fst (special_loop ix [] v w)" "special_hop ix"
  "special_loop ix" quick_special for ix
proof
  show "fst (special_loop ix [] v visited) = None" "special_loop ix m v visited = (None, visited)"
    if "\<not> is_string v" for m v visited
    using that by (cases v; simp add: special_loop.simps)+
  show "finite {r. \<exists>v. special_hop ix r = Hop v}" by (rule finite_in_index) (rule special_hop_key)
qed (auto simp: special_loop_Str special_hop_def quick_special_def split: option.splits if_splits)

section \<open>Properties\<close>

text \<open>
  \<open>resolveKind\<close> resolves a reference to a kind exactly when the aliases (and, where allowed, the
  fields) it hands over to reach a node of that kind: cycles, dangling references and targets that
  are no references resolve to nothing, and nothing else does.
\<close>

lemma resolveKind_exact:
  "resolveKind ix allowField (Str r) = Some k \<longleftrightarrow>
     (\<exists>t. (r, t) \<in> (hops_of (kind_hop ix allowField))\<^sup>* \<and> kind_hop ix allowField t = Done (Some k))"
  unfolding resolveKind_def by (rule kinds.walk_exact)

lemma optionTarget_exact:
  "optionTarget ix (Str r) = Some x \<longleftrightarrow>
     (\<exists>t. (r, t) \<in> (hops_of (option_hop ix))\<^sup>* \<and> option_hop ix t = Done (Some x))"
  unfolding optionTarget_def by (rule aliases.walk_exact)

text \<open>The answers of \<open>specialOf\<close> to a sequence of references, its memo handed on from call to call.\<close>

fun ask_in_turn :: "reader_index \<Rightarrow> special_memo \<Rightarrow> jsval list \<Rightarrow> special option list" where
  "ask_in_turn ix memo [] = []"
| "ask_in_turn ix memo (ref # refs) =
     (case specialOf ix memo ref of (found, memo') \<Rightarrow> found # ask_in_turn ix memo' refs)"

lemma special_of_loop: "special_of ix v = fst (special_loop ix [] v [])"
  by (simp add: special_of_def specialOf_def split: prod.split)

lemma specialOf_split:
  "specialOf ix m v = (fst (special_loop ix m v []),
     fold (\<lambda>k. AList.update k (fst (special_loop ix m v []))) (snd (special_loop ix m v [])) m)"
  by (simp add: specialOf_def split: prod.split)

lemma ask_in_turn_faithful:
  "specials.faithful_memo ix m \<Longrightarrow> ask_in_turn ix m refs = map (special_of ix) refs"
proof (induction refs arbitrary: m)
  case (Cons ref refs)
  show ?case
    using specials.faithful_update [OF Cons.prems, of ref] Cons.IH
    by (simp add: specialOf_split special_of_loop)
qed simp

text \<open>
  The memo of \<open>specialOf\<close> is transparent: whatever references were asked before, in whatever
  order and with whatever cycles among them, every answer is the one a fresh walk gives.
\<close>

lemma specialOf_memo: "ask_in_turn ix [] refs = map (special_of ix) refs"
  by (rule ask_in_turn_faithful) (simp add: specials.faithful_memo_def)

lemma special_exact:
  "special_of ix (Str r) = Some k \<longleftrightarrow>
     (\<exists>t. (r, t) \<in> (hops_of (special_hop ix))\<^sup>* \<and> special_hop ix t = Done (Some k))"
  unfolding special_of_loop by (rule specials.walk_exact)

lemma special_other: "\<not> is_string v \<Longrightarrow> special_of ix v = None"
  unfolding special_of_loop by (rule specials.walk_other)

definition own_policies :: "node list \<Rightarrow> bool" where
  "own_policies ps \<longleftrightarrow> distinct (map fst ps) \<and> list_all (\<lambda>n. has_own (snd n) ''decimal'') ps"

lemma own_add_policy: "own_policies ps \<Longrightarrow> own_policies (add_policy n ps)"
  by (auto simp: own_policies_def add_policy_def split: option.split)

lemma walk_decimal_scalar:
  "map_option dw_scalar (walk_decimal ix ref n ps visited) =
     map_option res_scalar (resolve_walk ix True ref visited)"
proof (induction ix ref n ps visited rule: walk_decimal.induct)
  case (1 ix ref n ps visited)
  then show ?case
    by (subst walk_decimal.simps, subst resolve_walk.simps)
      (auto simp: Let_def split: jsval.split option.split)
qed

lemma walk_decimal_policies:
  "own_policies ps \<Longrightarrow> walk_decimal ix ref n ps visited = Some w \<Longrightarrow> own_policies (dw_policies w)"
proof (induction ix ref n ps visited rule: walk_decimal.induct)
  case (1 ix ref n ps visited)
  show ?case
    using "1.prems" "1.IH" own_add_policy
    by (subst (asm) walk_decimal.simps)
      (auto simp: Let_def split: jsval.splits option.splits if_splits)
qed

text \<open>
  The policy walk agrees with \<open>resolveKind\<close>: it ends at a scalar exactly when the reference
  resolves, and at the same scalar, and every policy it gathered belongs to a different node that
  declares one.
\<close>

lemma walkDecimal_follows_resolveKind:
  "map_option dw_scalar (walkDecimal ix ref initialNode) = map_option res_scalar (resolveKind ix True ref) \<and>
   distinct (map fst (policies_of (walkDecimal ix ref initialNode))) \<and>
   list_all (\<lambda>n. has_own (snd n) ''decimal'') (policies_of (walkDecimal ix ref initialNode))"
  using walk_decimal_scalar [of ix ref initialNode "[]" "[]"]
    walk_decimal_policies [of "[]" ix ref initialNode "[]"]
  by (auto simp: walkDecimal_def resolveKind_def policies_of_def own_policies_def split: option.split)

end
