(* ===== verification/Reader.thy ===== *)
theory Reader
  imports CompositeCycles DocumentConstructs ReaderWalks UnitGraph
begin

text \<open>
  \<open>readContractIr\<close> of \<open>src/src/compiler/ir/reader.mjs\<close>, composed of the checks of the other reader
  theories, with its size and depth limits. Its properties: it returns on every document, and a
  document it raises nothing about is well formed.
\<close>

section \<open>Depth\<close>

text \<open>The depth of a value, followed only until it exceeds the bound.\<close>

fun depthOf :: "nat \<Rightarrow> nat \<Rightarrow> jsval \<Rightarrow> nat"
  and deepest_item :: "nat \<Rightarrow> nat \<Rightarrow> nat \<Rightarrow> jsval list \<Rightarrow> nat"
  and deepest_member :: "nat \<Rightarrow> nat \<Rightarrow> nat \<Rightarrow> (jsstr \<times> jsval) list \<Rightarrow> nat" where
  "depthOf bound depth v =
     (if bound < depth then depth
      else (case v of
          Arr xs \<Rightarrow> deepest_item bound depth depth xs
        | Obj ms \<Rightarrow> deepest_member bound depth depth ms
        | _ \<Rightarrow> depth))"
| "deepest_item bound depth deepest [] = deepest"
| "deepest_item bound depth deepest (x # xs) =
     (let d = max deepest (depthOf bound (depth + 1) x)
      in if bound < d then d else deepest_item bound depth d xs)"
| "deepest_member bound depth deepest [] = deepest"
| "deepest_member bound depth deepest (m # ms) =
     (let d = max deepest (depthOf bound (depth + 1) (snd m))
      in if bound < d then d else deepest_member bound depth d ms)"

declare depthOf.simps [simp del]

section \<open>The index\<close>

definition definition_pointer :: "nat \<Rightarrow> jsstr" where
  "definition_pointer i = js ''/types/'' @ nat_text i"

definition located_types :: "jsval list \<Rightarrow> (jsstr \<times> node) list" where
  "located_types definitions =
     map_from (map (\<lambda>(i, d). (to_text (get d ''identity''), (definition_pointer i, d)))
       (List.enumerate 0 definitions))"

definition identified :: "jsstr \<Rightarrow> string \<Rightarrow> nat \<times> jsval \<Rightarrow> (jsstr \<times> node) list" where
  "identified pointer member e =
     (case get (snd e) ''identity'' of
        Str s \<Rightarrow> [(s, (pointer @ js ''/'' @ js member @ js ''/'' @ nat_text (fst e), snd e))]
      | _ \<Rightarrow> [])"

definition fields_of_definition :: "nat \<times> jsval \<Rightarrow> (jsstr \<times> node) list" where
  "fields_of_definition e =
     (let (i, d) = e; pointer = definition_pointer i
      in concat (map (identified pointer ''fields'') (indexed d ''fields'')) @
         concat (map (\<lambda>(k, operation).
           concat (map (identified (pointer @ js ''/operations/'' @ nat_text k) ''params'')
             (indexed operation ''params''))) (indexed d ''operations'')))"

definition located_fields :: "jsval list \<Rightarrow> (jsstr \<times> node) list" where
  "located_fields definitions =
     map_from (concat (map fields_of_definition (List.enumerate 0 definitions)))"

definition indexed_document :: "jsval \<Rightarrow> jsval list \<Rightarrow> reader_index" where
  "indexed_document document definitions =
     \<lparr>ix_table = constructTable document, ix_types = located_types definitions,
      ix_fields = located_fields definitions\<rparr>"

section \<open>The reader\<close>

text \<open>\<open>options.importedExports\<close>: \<open>None\<close> for no resolution.\<close>

definition document_context ::
  "(jsstr \<Rightarrow> jsstr option) \<Rightarrow> limits \<Rightarrow> jsstr list option \<Rightarrow> jsval \<Rightarrow> reader_context" where
  "document_context regex ls exports document =
     \<lparr>rc_index = indexed_document document (as_array (get document ''types'')),
      rc_known = (case exports of None \<Rightarrow> [] | Some ks \<Rightarrow> ks),
      rc_unknown = (exports = None),
      rc_package = text_option (get (get document ''package'') ''identity''),
      rc_limits = ls, rc_regex = regex\<rparr>"

definition check_identity ::
  "reader_context \<Rightarrow> nat \<times> jsval \<Rightarrow> jsstr list \<times> finding list \<Rightarrow> jsstr list \<times> finding list" where
  "check_identity ctx e st =
     (let (i, d) = e; (ids, fs) = st; identity = to_text (get d ''identity'')
      in (set_add identity ids,
          fs @ (if identity \<in> set ids then [raised ''DUPLICATE_IDENTITY'' (js ''the type identity ''
            @ fragment (Str identity) @ js '' is declared twice'') (source_of d)] else []) @
          checkDefinition ctx e))"

definition check_definitions :: "reader_context \<Rightarrow> jsval list \<Rightarrow> finding list" where
  "check_definitions ctx definitions =
     snd (fold (check_identity ctx) (List.enumerate 0 definitions) ([], []))"

definition unlocated :: "string \<Rightarrow> jsstr \<Rightarrow> finding" where
  "unlocated name message = raised name message Undefined"

definition refused_document :: "limits \<Rightarrow> jsval \<Rightarrow> finding option" where
  "refused_document ls document =
     (let definitions = as_array (get document ''types'');
          unitNodes = length (list_of (get document ''dimensions'')) + length (list_of (get document ''units''))
      in if \<not> is_object document then
           Some (unlocated ''INVALID_DOCUMENT'' (js ''the IR document is not an object''))
         else if get document ''contractVersion'' \<noteq> Str (js ''2.0.0'') then
           Some (unlocated ''UNKNOWN_CONTRACT_VERSION'' (js ''the IR document declares contract version ''
             @ fragment (Str (to_text (get document ''contractVersion'')))
             @ js ''; this compiler supports 2.0.0''))
         else if maxNodes ls < length definitions then
           Some (unlocated ''LIMIT_MAX_NODES'' (js ''the document declares '' @ nat_text (length definitions)
             @ js '' types, over the maxNodes limit of '' @ nat_text (maxNodes ls)))
         else if maxNodes ls - length definitions < unitNodes then
           Some (unlocated ''LIMIT_MAX_NODES'' (js ''dimension and unit graph exceeds the maxNodes limit''))
         else if list_ex (\<lambda>d. maxCollectionItems ls < length (list_of (get d ''terms'')))
             (as_array (get document ''dimensions'')) then
           Some (unlocated ''LIMIT_MAX_COLLECTION_ITEMS''
             (js ''dimension terms exceed the maxCollectionItems limit''))
         else None)"

definition depth_finding :: "limits \<Rightarrow> finding" where
  "depth_finding ls = unlocated ''LIMIT_MAX_DEPTH''
     (js ''the document nests past the maxDepth limit of '' @ nat_text (maxDepth ls))"

definition reader_findings ::
  "(jsstr \<Rightarrow> jsstr option) \<Rightarrow> limits \<Rightarrow> jsstr list option \<Rightarrow> jsval \<Rightarrow> finding list option" where
  "reader_findings regex ls exports document =
     (case refused_document ls document of
        Some f \<Rightarrow> Some [f]
      | None \<Rightarrow>
          (let definitions = as_array (get document ''types'');
               ctx = document_context regex ls exports document
           in case checkUnitGraph document of
                None \<Rightarrow> None
              | Some graph \<Rightarrow>
                  (let checked = map Raised graph @ checkConstructs document definitions @
                         check_definitions ctx definitions
                   in if maxDepth ls < depthOf (maxDepth ls) 0 document
                      then Some (checked @ [depth_finding ls])
                      else map_option (\<lambda>cycles. checked @ cycles)
                        (compositeCycles (ix_types (rc_index ctx))))))"

definition raised_diags :: "finding list \<Rightarrow> diag list" where
  "raised_diags fs = concat (map (\<lambda>f. case f of Raised d \<Rightarrow> [d] | Suppressed _ _ \<Rightarrow> []) fs)"

definition suppressions :: "finding list \<Rightarrow> (jsstr \<times> jsstr) list" where
  "suppressions fs = concat (map (\<lambda>f. case f of Raised d \<Rightarrow> [] | Suppressed r i \<Rightarrow> [(r, i)]) fs)"

text \<open>The diagnostics and the suppressions.\<close>

definition readContractIr ::
  "(jsstr \<Rightarrow> jsstr option) \<Rightarrow> limits \<Rightarrow> jsstr list option \<Rightarrow> jsval \<Rightarrow>
     (diag list \<times> (jsstr \<times> jsstr) list) option" where
  "readContractIr regex ls exports document =
     map_option (\<lambda>fs. (raised_diags fs, suppressions fs)) (reader_findings regex ls exports document)"

end
