(* ===== verification/ReaderSound.thy ===== *)
theory ReaderSound
  imports Reader
begin

text \<open>
  The documents \<open>readContractIr\<close> raises nothing about. \<open>sound_document\<close> states what such a document
  is, node by node and without a diagnostic; each lemma shows that a check is silent exactly when the
  node it checks is sound, and \<open>clean_document_exact\<close> puts them together. A type reference is malformed
  where it has the prefix of the quantities and no unit behind it; the checks refuse such a reference
  where it is written, so in a clean document no walk through aliases and fields ends at one.
\<close>

section \<open>Depth\<close>

lemma depthOf_bounded:
  "depthOf b depth v \<le> b \<longleftrightarrow> depth + value_depth v \<le> b"
  "deepest_item b depth deepest xs \<le> b \<longleftrightarrow> deepest \<le> b \<and> (\<forall>x\<in>set xs. Suc depth + value_depth x \<le> b)"
  "deepest_member b depth deepest ms \<le> b \<longleftrightarrow>
     deepest \<le> b \<and> (\<forall>m\<in>set ms. Suc depth + value_depth (snd m) \<le> b)"
proof (induction b depth v and b depth deepest xs and b depth deepest ms
    rule: depthOf_deepest_item_deepest_member.induct)
  case (1 b depth v)
  show ?case
  proof (cases "b < depth")
    case True
    then show ?thesis by (simp add: depthOf.simps)
  next
    case False
    then show ?thesis using 1 by (cases v) (auto simp: depthOf.simps add_fold_max_le)
  qed
qed (auto simp: Let_def)

section \<open>Silence\<close>

definition silent :: "finding list \<Rightarrow> bool" where
  "silent fs \<longleftrightarrow> raised_diags fs = []"

lemma silent_simps [simp]:
  "silent []" "silent (fs @ gs) \<longleftrightarrow> silent fs \<and> silent gs" "\<not> silent (raised n m l # fs)"
  "silent (Suppressed r i # fs) \<longleftrightarrow> silent fs" "silent (map Raised ds) \<longleftrightarrow> ds = []"
  "\<not> silent (invalid p m at_node # fs)" "\<not> silent (unlocated n m # fs)"
  "\<not> silent (member_finding c n p k v # fs)" "\<not> silent (too_long_finding ls v k # fs)"
  "\<not> silent (depth_finding ls # fs)"
  by (auto simp: silent_def raised_diags_def raised_def invalid_def unlocated_def member_finding_def
      too_long_finding_def depth_finding_def)

lemma silent_concat: "silent (concat (map f xs)) \<longleftrightarrow> (\<forall>x\<in>set xs. silent (f x))"
  by (induction xs) simp_all

lemma enumerated: "x \<in> set xs \<Longrightarrow> \<exists>i. (i, x) \<in> set (List.enumerate n xs)"
  by (induction xs arbitrary: n) auto

lemma silent_optional [simp]: "silent (if P then raised n m l # fs else gs) \<longleftrightarrow> \<not> P \<and> silent gs"
  by simp

lemma silent_members_found [simp]: "silent (map (\<lambda>m. member_finding c n p m v) ms) \<longleftrightarrow> ms = []"
  by (cases ms) simp_all

text \<open>A loop that adds a key per entry and raises where the key is already there.\<close>

lemma keyed_fold_silent:
  assumes step: "\<And>x ids fs. g x (ids, fs) = (set_add (k x) ids, fs @ a x ids @ h x)"
    and again: "\<And>x ids. silent (a x ids) \<longleftrightarrow> k x \<notin> set ids"
  shows "silent (snd (fold g xs (ids, fs))) \<longleftrightarrow>
    silent fs \<and> distinct (map k xs) \<and> set ids \<inter> k ` set xs = {} \<and> (\<forall>x\<in>set xs. silent (h x))"
proof (induction xs arbitrary: ids fs)
  case (Cons x xs)
  show ?case using Cons.IH [of "set_add (k x) ids" "fs @ a x ids @ h x"] by (auto simp: step again)
qed simp

section \<open>Members\<close>

definition sound_multiplicity :: "jsval \<Rightarrow> bool" where
  "sound_multiplicity v \<longleftrightarrow>
     (\<exists>l::nat. get v ''lower'' = Num (Fin (of_nat l)) \<and>
        (get v ''upper'' = Undefined \<or> (\<exists>u::nat. get v ''upper'' = Num (Fin (of_nat u)) \<and> l \<le> u))) \<and>
     is_boolean (get v ''ordered'') \<and> is_boolean (get v ''unique'')"

lemma integer_value: "is_integer_value v \<longleftrightarrow> (\<exists>i::int. v = Num (Fin (of_int i)))"
proof
  assume "is_integer_value v"
  then show "\<exists>i::int. v = Num (Fin (of_int i))"
    by (auto simp: is_integer_value_def num_is_integer_def split: jsval.splits jsnum.splits)
qed (auto simp: is_integer_value_def num_is_integer_def)

lemma natural_value:
  "is_integer_value w \<and> \<not> js_less w (Num (Fin 0)) \<longleftrightarrow> (\<exists>l::nat. w = Num (Fin (of_nat l)))"
proof
  assume "is_integer_value w \<and> \<not> js_less w (Num (Fin 0))"
  then obtain i :: int where i: "w = Num (Fin (of_int i))" "0 \<le> i" by (auto simp: integer_value)
  then have "(of_int i :: rat) = of_nat (nat i)" by simp
  then show "\<exists>l::nat. w = Num (Fin (of_nat l))" using i(1) by metis
next
  assume "\<exists>l::nat. w = Num (Fin (of_nat l))"
  then obtain l :: nat where "w = Num (Fin (of_nat l))" by blast
  then show "is_integer_value w \<and> \<not> js_less w (Num (Fin 0))"
    by (auto simp: is_integer_value_def num_is_integer_def)
qed

lemma upper_value:
  "is_integer_value w \<and> \<not> js_less w (Num (Fin (of_nat l))) \<longleftrightarrow>
     (\<exists>u::nat. w = Num (Fin (of_nat u)) \<and> l \<le> u)"
proof
  assume w: "is_integer_value w \<and> \<not> js_less w (Num (Fin (of_nat l)))"
  then obtain i :: int where i: "w = Num (Fin (of_int i))" by (auto simp: integer_value)
  have "(of_nat l :: rat) \<le> of_int i" using w by (simp add: i)
  then have "int l \<le> i" by (metis of_int_le_iff of_int_of_nat_eq)
  then have "(of_int i :: rat) = of_nat (nat i) \<and> l \<le> nat i" by auto
  then show "\<exists>u::nat. w = Num (Fin (of_nat u)) \<and> l \<le> u" using i by metis
next
  assume "\<exists>u::nat. w = Num (Fin (of_nat u)) \<and> l \<le> u"
  then show "is_integer_value w \<and> \<not> js_less w (Num (Fin (of_nat l)))"
    by (auto simp: is_integer_value_def num_is_integer_def)
qed

lemma silent_multiplicity:
  "silent (checkMultiplicity v own) \<longleftrightarrow> \<not> is_object v \<or> sound_multiplicity v"
proof (cases "is_object v")
  case True
  show ?thesis
  proof (cases "is_integer_value (get v ''lower'') \<and> \<not> js_less (get v ''lower'') (Num (Fin 0))")
    case False
    moreover from this have "\<not> sound_multiplicity v"
      unfolding sound_multiplicity_def natural_value by blast
    ultimately show ?thesis using True by (auto simp: checkMultiplicity_def Let_def)
  next
    case l: True
    then obtain l :: nat where low: "get v ''lower'' = Num (Fin (of_nat l))"
      unfolding natural_value by blast
    have "sound_multiplicity v \<longleftrightarrow>
        (get v ''upper'' = Undefined \<or> (\<exists>u::nat. get v ''upper'' = Num (Fin (of_nat u)) \<and> l \<le> u)) \<and>
        is_boolean (get v ''ordered'') \<and> is_boolean (get v ''unique'')"
      by (simp add: sound_multiplicity_def low)
    also have "\<dots> \<longleftrightarrow> silent (checkMultiplicity v own)"
      unfolding upper_value [symmetric] using True l by (auto simp: checkMultiplicity_def Let_def low)
    finally show ?thesis using True by simp
  qed
qed (simp add: checkMultiplicity_def Let_def)

section \<open>Malformed references\<close>

definition malformed :: "jsval \<Rightarrow> bool" where
  "malformed v \<longleftrightarrow> (case v of Str r \<Rightarrow> starts_with r quantityPrefix \<and> \<not> quantityName r | _ \<Rightarrow> False)"

text \<open>The references a walk follows are not malformed.\<close>

definition well_referenced :: "reader_index \<Rightarrow> bool" where
  "well_referenced ix \<longleftrightarrow>
     list_all (\<lambda>(k, f). \<not> malformed (get (snd f) ''typeRef'')) (ix_fields ix) \<and>
     list_all (\<lambda>(k, d). \<not> malformed (get (snd d) ''target'')) (ix_types ix)"

lemma clock_not_quantity: "\<not> starts_with clockRef quantityPrefix"
  by code_simp

lemma malformed_special: "malformed v \<Longrightarrow> special_of ix v = Some Malformed"
  using clock_not_quantity
  by (cases v) (auto simp: malformed_def special_of_loop special_loop.simps [of ix "[]" "Str r" "[]" for r])

lemma well_referenced_field: "well_referenced ix \<Longrightarrow> map_of (ix_fields ix) r = Some f \<Longrightarrow> \<not> malformed (get (snd f) ''typeRef'')"
  by (auto simp: well_referenced_def list_all_iff dest!: map_of_SomeD)

lemma well_referenced_type: "well_referenced ix \<Longrightarrow> map_of (ix_types ix) r = Some d \<Longrightarrow> \<not> malformed (get (snd d) ''target'')"
  by (auto simp: well_referenced_def list_all_iff dest!: map_of_SomeD)

lemma special_loop_malformed:
  "well_referenced ix \<Longrightarrow> special_loop ix [] ref walked = (Some Malformed, w) \<Longrightarrow> malformed ref"
proof (induction ix "[] :: special_memo" ref walked rule: special_loop.induct)
  case (1 ix ref walked)
  show ?case
  proof (cases ref)
    case (Str r)
    show ?thesis
    proof (cases "r \<in> set walked \<or> r = clockRef \<or> quantityName r \<or> starts_with r quantityPrefix \<or> nativeScalar ref \<noteq> None")
      case True
      then show ?thesis using 1(4)
        by (auto simp: Str malformed_def special_loop.simps [of ix "[]" "Str r" walked] split: if_splits)
    next
      case F: False
      then have r: "r \<notin> set walked" "r \<noteq> clockRef" "\<not> quantityName r" "\<not> starts_with r quantityPrefix"
        "nativeScalar (Str r) = None" "nativeScalar ref = None" by (auto simp: Str)
      note step = 1(4) [unfolded Str special_loop.simps [of ix "[]" "Str r" walked]]
      show ?thesis
      proof (cases "map_of (ix_fields ix) r")
        case (Some f)
        have "special_loop ix [] (get (snd f) ''typeRef'') (walked @ [r]) = (Some Malformed, w)"
          using step r Some by simp
        from 1(2) [OF Str r(1-4) _ _ Some 1(3) this] have "malformed (get (snd f) ''typeRef'')" using r by simp
        then show ?thesis using well_referenced_field [OF 1(3) Some] by simp
      next
        case None
        then obtain d where d: "map_of (ix_types ix) r = Some d" "isAliasShaped (ix_table ix) (snd d)"
          "special_loop ix [] (get (snd d) ''target'') (walked @ [r]) = (Some Malformed, w)"
          using step r by (auto split: option.splits if_splits)
        from 1(1) [OF Str r(1-4) _ _ None d(1,2) 1(3) d(3)] have "malformed (get (snd d) ''target'')"
          using r by simp
        then show ?thesis using well_referenced_type [OF 1(3) d(1)] by simp
      qed
    qed
  qed (use 1(4) in \<open>simp_all add: special_loop.simps\<close>)
qed

lemma special_malformed: "well_referenced ix \<Longrightarrow> special_of ix v = Some Malformed \<longleftrightarrow> malformed v"
  using malformed_special [of v ix] special_loop_malformed [of ix v "[]"]
  by (cases "special_loop ix [] v []") (auto simp: special_of_loop)

section \<open>Constraints\<close>

definition one_policy :: "jsstr option \<Rightarrow> node list \<Rightarrow> bool" where
  "one_policy scalar policies \<longleftrightarrow> (scalar = Some (js ''decimal'') \<longrightarrow> length policies = 1)"

text \<open>A constraint on what resolves to a kind.\<close>

definition sound_operands :: "reader_context \<Rightarrow> jsval \<Rightarrow> jsstr \<Rightarrow> resolved \<Rightarrow> bool" where
  "sound_operands ctx c keyword r \<longleftrightarrow>
     (let walked = walkDecimal (rc_index ctx) (get c ''appliesTo'') (named_node (rc_index ctx) (get c ''appliesTo''));
          policy = first_policy (policies_of walked);
          operands = (if is_object (get c ''operands'') then get c ''operands'' else Obj [])
      in (case walked of None \<Rightarrow> True | Some w \<Rightarrow> one_policy (dw_scalar w) (dw_policies w)) \<and>
         applies keyword (res_kind r) (res_scalar r) \<and>
         (keyword = js ''pattern'' \<longrightarrow> rc_regex ctx (to_text (get operands ''regex'')) = None) \<and>
         (keyword \<in> set bound_keywords \<and> res_kind r = js ''scalar'' \<longrightarrow>
            operandAdmitted (case res_scalar r of None \<Rightarrow> False | Some s \<Rightarrow> s \<in> set numeric_scalars)
              (res_scalar r) (get operands ''value'') policy) \<and>
         (keyword = js ''enumValues'' \<and> res_kind r = js ''scalar'' \<longrightarrow>
            list_all (\<lambda>v. valueAdmitted (res_scalar r) v policy) (list_of (get operands ''values''))))"

text \<open>A constraint on a clock or a quantity bounds it by an exact rational.\<close>

definition sound_bound :: "bool \<Rightarrow> jsval \<Rightarrow> bool" where
  "sound_bound clock c \<longleftrightarrow>
     to_text (get c ''keyword'') \<in> {js ''min'', js ''max''} \<and>
     (\<exists>n. rationalOperand (get (get c ''operands'') ''value'') = OpValue n \<and> (clock \<longrightarrow> 0 \<le> n))"

definition sound_constraint :: "reader_context \<Rightarrow> jsval \<Rightarrow> bool" where
  "sound_constraint ctx c \<longleftrightarrow>
     (case special_of (rc_index ctx) (get c ''appliesTo'') of
        Some Malformed \<Rightarrow> False
      | Some Clock \<Rightarrow> sound_bound True c
      | Some Quantity \<Rightarrow> sound_bound False c
      | None \<Rightarrow>
          (case resolveKind (rc_index ctx) True (get c ''appliesTo'') of
             None \<Rightarrow> False
           | Some r \<Rightarrow> sound_operands ctx c (to_text (get c ''keyword'')) r))"

lemma length_one: "length xs = 1 \<longleftrightarrow> xs \<noteq> [] \<and> \<not> 1 < length xs"
  by (cases xs) auto

lemma silent_decimal:
  "silent (decimal_diags walked l) \<longleftrightarrow>
     (case walked of None \<Rightarrow> True | Some w \<Rightarrow> one_policy (dw_scalar w) (dw_policies w))"
  unfolding one_policy_def length_one by (auto simp: decimal_diags_def is_scalar_def split: option.split)

lemma silent_enum: "silent (enum_diags s policy l (i, v)) \<longleftrightarrow> valueAdmitted s v policy"
  by (simp add: enum_diags_def Let_def)

lemma silent_enums:
  "silent (concat (map (enum_diags s policy l) (List.enumerate n vs))) \<longleftrightarrow> list_all (\<lambda>v. valueAdmitted s v policy) vs"
  by (induction vs arbitrary: n) (simp_all add: silent_enum)

lemma silent_pattern: "silent (pattern_diags regex operands l) \<longleftrightarrow> regex (to_text (get operands ''regex'')) = None"
  by (simp add: pattern_diags_def split: option.split)

lemma silent_bound:
  "silent (bound_diags k s pointer v policy l) \<longleftrightarrow>
     operandAdmitted (case s of None \<Rightarrow> False | Some t \<Rightarrow> t \<in> set numeric_scalars) s v policy"
  by (simp add: bound_diags_def)

lemma silent_if [simp]: "silent (if b then fs else []) \<longleftrightarrow> (b \<longrightarrow> silent fs)"
  by simp

lemma silent_operand:
  "silent (operand_diags ctx c own pointer keyword r) \<longleftrightarrow> sound_operands ctx c keyword r"
  by (simp add: operand_diags_def sound_operands_def Let_def silent_decimal silent_enums silent_pattern
      silent_bound cong: if_cong)

lemma applies_keyword: "applies k kind scalar \<Longrightarrow> isKeyword k"
  by (simp add: applies_def split: if_splits)

lemma bound_keyword: "k \<in> {js ''min'', js ''max''} \<Longrightarrow> isKeyword k"
proof -
  have "isKeyword (js ''min'')" "isKeyword (js ''max'')" by code_simp+
  then show "k \<in> {js ''min'', js ''max''} \<Longrightarrow> isKeyword k" by auto
qed

lemma silent_special:
  "sp \<noteq> Malformed \<Longrightarrow> silent (checkSpecialConstraint c own pointer sp) \<longleftrightarrow> sound_bound (sp = Clock) c"
  by (auto simp: checkSpecialConstraint_def sound_bound_def Let_def split: operand.splits)

lemma silent_constraint:
  assumes w: "well_referenced (rc_index ctx)"
  shows "silent (checkConstraint ctx c own pointer) \<longleftrightarrow> sound_constraint ctx c"
proof (cases "special_of (rc_index ctx) (get c ''appliesTo'')")
  case None
  show ?thesis
  proof (cases "resolveKind (rc_index ctx) True (get c ''appliesTo'')")
    case (Some r)
    have "sound_operands ctx c k r \<Longrightarrow> isKeyword k" for k
      using applies_keyword by (auto simp: sound_operands_def Let_def)
    then show ?thesis using None Some
      by (auto simp: checkConstraint_def sound_constraint_def Let_def silent_operand)
  qed (use None in \<open>simp add: checkConstraint_def sound_constraint_def Let_def\<close>)
next
  case (Some sp)
  show ?thesis
  proof (cases "sp = Malformed")
    case True
    then have "malformed (get c ''appliesTo'')" using Some special_malformed [OF w] by simp
    then show ?thesis using Some True
      by (auto simp: checkConstraint_def sound_constraint_def Let_def malformed_def split: jsval.splits)
  next
    case False
    then show ?thesis using Some silent_special [OF False] bound_keyword [of "to_text (get c ''keyword'')"]
      by (cases sp) (auto simp: checkConstraint_def sound_constraint_def Let_def sound_bound_def)
  qed
qed

definition sound_constraints :: "reader_context \<Rightarrow> jsval \<Rightarrow> bool" where
  "sound_constraints ctx own \<longleftrightarrow> list_all (sound_constraint ctx) (as_array (get own ''constraints''))"

lemma silent_enumerate:
  assumes "\<And>i x. silent (f (i, x)) \<longleftrightarrow> P x"
  shows "silent (concat (map f (List.enumerate n xs))) \<longleftrightarrow> list_all P xs"
  by (induction xs arbitrary: n) (simp_all add: assms)

lemma silent_constraints:
  "well_referenced (rc_index ctx) \<Longrightarrow> silent (check_constraints ctx own pointer) \<longleftrightarrow> sound_constraints ctx own"
  unfolding check_constraints_def sound_constraints_def
  by (rule silent_enumerate) (simp add: silent_constraint)

section \<open>Fields\<close>

text \<open>
  A multiplicity that is written: one that is an object has its bounds in order. (The schema of the
  document refuses one that is no object; the reader does not look at it.)
\<close>

definition declares_multiplicity :: "jsval \<Rightarrow> bool" where
  "declares_multiplicity f \<longleftrightarrow> get f ''multiplicity'' \<noteq> Undefined \<and>
     (is_object (get f ''multiplicity'') \<longrightarrow> sound_multiplicity (get f ''multiplicity''))"

lemma silent_declared: "silent (declared_multiplicity f) \<longleftrightarrow> declares_multiplicity f"
  by (auto simp: declared_multiplicity_def declares_multiplicity_def silent_multiplicity)

text \<open>A member of clock or quantity type carries nothing but its type and its name.\<close>

definition bare_member :: "bool \<Rightarrow> jsval \<Rightarrow> bool" where
  "bare_member clock v \<longleftrightarrow>
     list_all (\<lambda>m. \<not> has_own v m) [''unit'', ''decimal'', ''textProfile'', ''defaultValue''] \<and>
     (has_own v ''defaultKind'' \<longrightarrow> get v ''defaultKind'' = Str (js ''none'')) \<and>
     list_of (get v ''constraints'') = [] \<and>
     (clock \<longrightarrow> get v ''nullable'' = Bool False)"

text \<open>The type of a member: what the reader does for a clock, a quantity, or any other type.\<close>

definition typed_member :: "reader_index \<Rightarrow> jsval \<Rightarrow> bool \<Rightarrow> bool" where
  "typed_member ix v ordinary \<longleftrightarrow>
     (case special_of ix (get v ''typeRef'') of
        Some Malformed \<Rightarrow> False
      | Some Clock \<Rightarrow> bare_member True v
      | Some Quantity \<Rightarrow> bare_member False v
      | None \<Rightarrow> ordinary)"

lemma silent_typed:
  assumes w: "well_referenced ix"
  shows "silent (case specialMember ix pointer v of Some fs \<Rightarrow> fs @ gs | None \<Rightarrow> other) \<longleftrightarrow>
    (if special_of ix (get v ''typeRef'') = None then silent other
     else typed_member ix v True \<and> silent gs)"
proof (cases "special_of ix (get v ''typeRef'')")
  case (Some sp)
  have m: "malformed (get v ''typeRef'')" if "sp = Malformed" using Some special_malformed [OF w] that by simp
  then have "silent (case get v ''typeRef'' of Str r \<Rightarrow> if starts_with r quantityPrefix
      then [member_finding False ''UNRESOLVED_TYPE_REF'' pointer ''typeRef'' v] else [] | _ \<Rightarrow> []) = False"
    if "sp = Malformed" using that by (auto simp: malformed_def split: jsval.splits)
  then show ?thesis using Some
    by (cases sp) (auto simp: specialMember_def typed_member_def bare_member_def Let_def)
qed (simp add: specialMember_def)

definition sound_unit :: "resolved option \<Rightarrow> jsval \<Rightarrow> bool" where
  "sound_unit k f \<longleftrightarrow> get f ''unit'' = Undefined \<or>
     is_string (get f ''unit'') \<and> get f ''unit'' \<noteq> Str [] \<and>
     (case k of None \<Rightarrow> True | Some r \<Rightarrow> res_kind r = js ''scalar'')"

text \<open>A decimal has exactly one policy and no other scalar has one; a default is a value of the scalar.\<close>

definition sound_scalar :: "reader_context \<Rightarrow> jsstr \<Rightarrow> jsval \<Rightarrow> jsstr option \<Rightarrow> bool" where
  "sound_scalar ctx pointer f scalar \<longleftrightarrow>
     (let policies = policies_of (walkDecimal (rc_index ctx) (get f ''typeRef'') (Some (pointer, f)))
      in length policies = (if scalar = Some (js ''decimal'') then 1 else 0) \<and>
         (has_own f ''defaultValue'' \<longrightarrow> defaultValueAdmitted f scalar (first_policy policies)))"

text \<open>No optional single value of an option type, which would nest options.\<close>

definition nests_options :: "reader_index \<Rightarrow> jsval \<Rightarrow> bool" where
  "nests_options ix f \<longleftrightarrow>
     get f ''presence'' = Str (js ''optional'') \<and>
     get (get f ''multiplicity'') ''lower'' = Num (Fin 1) \<and> get (get f ''multiplicity'') ''upper'' = Num (Fin 1) \<and>
     get (target_node (optionTarget ix (get f ''typeRef''))) ''kind'' = Str (js ''option'')"

definition ordinary_field :: "reader_context \<Rightarrow> jsstr \<Rightarrow> jsval \<Rightarrow> bool" where
  "ordinary_field ctx pointer f \<longleftrightarrow>
     (let k = resolveKind (rc_index ctx) False (get f ''typeRef'')
      in \<not> nests_options (rc_index ctx) f \<and>
         (k \<noteq> None \<or> to_text (get f ''typeRef'') \<in> set (rc_known ctx)) \<and>
         sound_unit k f \<and>
         (case k of None \<Rightarrow> True
          | Some r \<Rightarrow> res_kind r = js ''scalar'' \<longrightarrow> sound_scalar ctx pointer f (res_scalar r)) \<and>
         sound_constraints ctx f)"

definition sound_field :: "reader_context \<Rightarrow> jsstr \<Rightarrow> jsval \<Rightarrow> bool" where
  "sound_field ctx pointer f \<longleftrightarrow>
     typed_member (rc_index ctx) f (ordinary_field ctx pointer f) \<and> declares_multiplicity f"

lemma silent_units: "silent (unit_findings k f) \<longleftrightarrow> sound_unit k f"
  by (auto simp: unit_findings_def sound_unit_def Let_def split: option.splits)

lemma silent_scalar: "silent (scalar_findings ctx pointer f scalar) \<longleftrightarrow> sound_scalar ctx pointer f scalar"
proof -
  define ps where "ps = policies_of (walkDecimal (rc_index ctx) (get f ''typeRef'') (Some (pointer, f)))"
  have "length ps = (if scalar = Some (js ''decimal'') then 1 else 0) \<longleftrightarrow>
      (if scalar = Some (js ''decimal'') then ps \<noteq> [] \<and> \<not> 1 < length ps else ps = [])"
    using length_one [of ps] by simp
  then show ?thesis
    by (simp add: scalar_findings_def sound_scalar_def is_scalar_def Let_def ps_def [symmetric] split del: if_split)
      (simp split: if_split)
qed

lemma silent_unresolved: "\<not> rc_unknown ctx \<Longrightarrow> \<not> silent (unresolved_field ctx f)"
  by (simp add: unresolved_field_def may_be_foreign_def split: jsval.split)

lemma silent_field:
  assumes k: "\<not> rc_unknown ctx" and w: "well_referenced (rc_index ctx)"
  shows "silent (checkField ctx pointer f) \<longleftrightarrow> sound_field ctx pointer f"
proof -
  have "silent (option_presence (rc_index ctx) pointer f) \<longleftrightarrow> \<not> nests_options (rc_index ctx) f"
    by (simp add: option_presence_def nests_options_def)
  then show ?thesis
    unfolding checkField_def silent_typed [OF w] sound_field_def
    using silent_unresolved [OF k, of f]
    by (cases "special_of (rc_index ctx) (get f ''typeRef'')")
      (auto simp: typed_member_def ordinary_field_def Let_def silent_declared silent_units silent_scalar
        silent_constraints [OF w] split: option.splits special.splits)
qed

section \<open>What a type refers to\<close>

text \<open>The inner type of an option: a native or quantity type, or a declared one that is a value type.\<close>

definition sound_inner :: "reader_index \<Rightarrow> jsstr \<Rightarrow> bool" where
  "sound_inner ix s \<longleftrightarrow>
     (let target = target_node (optionTarget ix (Str s))
      in special_of ix (Str s) \<noteq> Some Clock \<and>
         (starts_with s NATIVE_PREFIX \<longrightarrow> nativeScalar (Str s) \<noteq> None) \<and>
         (nativeScalar (Str s) \<noteq> None \<or> starts_with s quantityPrefix \<or>
          map_of (ix_types ix) s \<noteq> None \<and> get target ''kind'' \<noteq> Str (js ''option'') \<and>
          (case declarationOf (ix_table ix) target of
             None \<Rightarrow> True
           | Some d \<Rightarrow> dc_shape d \<notin> set (map js [''namespace'', ''state_machine'', ''interface'', ''sequence'']))))"

definition native_decimal_policed :: "jsval \<Rightarrow> jsval \<Rightarrow> bool" where
  "native_decimal_policed ref own \<longleftrightarrow> (nativeScalar ref = Some (js ''decimal'') \<longrightarrow> has_own own ''decimal'')"

definition sound_self :: "reader_index \<Rightarrow> jsstr \<Rightarrow> jsval \<Rightarrow> bool" where
  "sound_self ix pointer d \<longleftrightarrow>
     (case resolveKind ix False (get d ''identity'') of
        None \<Rightarrow> True
      | Some r \<Rightarrow> res_kind r = js ''scalar'' \<longrightarrow>
          res_scalar r \<noteq> Some (js ''number'') \<and>
          length (policies_of (walkDecimal ix (get d ''identity'') (Some (pointer, d)))) \<le>
            (if res_scalar r = Some (js ''decimal'') then 1 else 0))"

definition sound_references :: "reader_index \<Rightarrow> jsstr \<Rightarrow> jsval \<Rightarrow> bool" where
  "sound_references ix pointer d \<longleftrightarrow>
     (get d ''kind'' = Str (js ''option'') \<longrightarrow>
        (case get d ''inner'' of Str s \<Rightarrow> sound_inner ix s | _ \<Rightarrow> True)) \<and>
     (is_reference d \<longrightarrow>
        get (target_node (optionTarget ix (get d ''target''))) ''kind'' \<noteq> Str (js ''option'') \<and>
        special_of ix (get d ''target'') \<noteq> Some Quantity) \<and>
     sound_self ix pointer d \<and>
     list_all (\<lambda>m. \<not> malformed (get d m)) [''target'', ''items'', ''values'', ''inner''] \<and>
     list_all (\<lambda>v. \<not> malformed (get v ''payloadType'') \<and> special_of ix (get v ''payloadType'') \<noteq> Some Clock)
       (as_array (get d ''variants'')) \<and>
     list_all (\<lambda>p. \<not> malformed (get p ''typeRef'')) (as_array (get d ''positions'')) \<and>
     (get d ''kind'' = Str (js ''sequence'') \<longrightarrow> native_decimal_policed (get d ''items'') d) \<and>
     (get d ''kind'' = Str (js ''map'') \<longrightarrow> native_decimal_policed (get d ''values'') d) \<and>
     (is_reference d \<longrightarrow> native_decimal_policed (get d ''target'') d) \<and>
     list_all (\<lambda>v. native_decimal_policed (get v ''payloadType'') v) (as_array (get d ''variants'')) \<and>
     list_all (\<lambda>p. native_decimal_policed (get p ''typeRef'') p) (as_array (get d ''positions''))"

lemma inner_code: "option_inner_code ix s = None \<longleftrightarrow> sound_inner ix s"
  by (auto simp: option_inner_code_def sound_inner_def Let_def split: option.splits)

lemma silent_option_inner:
  "silent (option_inner ix pointer d) \<longleftrightarrow>
     (get d ''kind'' = Str (js ''option'') \<longrightarrow>
        (case get d ''inner'' of Str s \<Rightarrow> sound_inner ix s | _ \<Rightarrow> True))"
  unfolding option_inner_def by (auto simp: inner_code [symmetric] split: jsval.split option.split)

lemma silent_self: "silent (self_findings ix pointer d) \<longleftrightarrow> sound_self ix pointer d"
proof -
  have l: "length ps \<le> 1 \<longleftrightarrow> \<not> Suc 0 < length ps" for ps :: "node list" by auto
  show ?thesis
    by (auto simp: self_findings_def sound_self_def is_scalar_def Let_def l split: option.split)
qed

lemma silent_refused: "silent (quantityRefused ref pointer own) \<longleftrightarrow> \<not> malformed ref"
  by (auto simp: quantityRefused_def malformed_def split: jsval.split)

lemma silent_composite: "silent (checkCompositeDecimalRef ix ref own) \<longleftrightarrow> native_decimal_policed ref own"
proof (cases "nativeScalar ref = Some (js ''decimal'')")
  case True
  then obtain r where r: "ref = Str r" by (cases ref) (simp_all add: nativeScalar_def)
  have "walkDecimal ix ref (Some ([], own)) =
      Some \<lparr>dw_scalar = Some (js ''decimal''), dw_policies = add_policy (Some ([], own)) []\<rparr>"
    using True by (simp add: r walkDecimal_def walk_decimal.simps [of ix "Str r"] Let_def)
  then show ?thesis using True
    by (simp add: checkCompositeDecimalRef_def native_decimal_policed_def is_scalar_def add_policy_def)
qed (simp add: checkCompositeDecimalRef_def native_decimal_policed_def)

lemma silent_variants:
  "silent (concat (map (variant_findings ix pointer) (indexed d ''variants''))) \<longleftrightarrow>
     list_all (\<lambda>v. \<not> malformed (get v ''payloadType'') \<and> special_of ix (get v ''payloadType'') \<noteq> Some Clock)
       (as_array (get d ''variants''))"
  unfolding indexed_def by (rule silent_enumerate) (simp add: variant_findings_def Let_def silent_refused)

lemma silent_positions:
  "silent (concat (map (\<lambda>(i, p). quantityRefused (get p ''typeRef'') (f i) p) (indexed d ''positions''))) \<longleftrightarrow>
     list_all (\<lambda>p. \<not> malformed (get p ''typeRef'')) (as_array (get d ''positions''))"
  unfolding indexed_def by (rule silent_enumerate) (simp add: silent_refused)

lemma silent_list: "silent (concat (map f xs)) \<longleftrightarrow> list_all (\<lambda>x. silent (f x)) xs"
  by (simp add: silent_concat list_all_iff)

lemma silent_quantities:
  "silent (quantity_findings ix pointer d) \<longleftrightarrow>
     list_all (\<lambda>m. \<not> malformed (get d m)) [''target'', ''items'', ''values'', ''inner''] \<and>
     (is_reference d \<longrightarrow> special_of ix (get d ''target'') \<noteq> Some Quantity) \<and>
     list_all (\<lambda>v. \<not> malformed (get v ''payloadType'') \<and> special_of ix (get v ''payloadType'') \<noteq> Some Clock)
       (as_array (get d ''variants'')) \<and>
     list_all (\<lambda>p. \<not> malformed (get p ''typeRef'')) (as_array (get d ''positions''))"
  unfolding quantity_findings_def silent_simps(2) silent_list [of _ "[''target'', ''items'', ''values'', ''inner'']"]
    silent_variants silent_positions silent_refused
  by auto

lemma silent_composites:
  "silent (composite_decimals ix d) \<longleftrightarrow>
     (get d ''kind'' = Str (js ''sequence'') \<longrightarrow> native_decimal_policed (get d ''items'') d) \<and>
     (get d ''kind'' = Str (js ''map'') \<longrightarrow> native_decimal_policed (get d ''values'') d) \<and>
     (is_reference d \<longrightarrow> native_decimal_policed (get d ''target'') d) \<and>
     list_all (\<lambda>v. native_decimal_policed (get v ''payloadType'') v) (as_array (get d ''variants'')) \<and>
     list_all (\<lambda>p. native_decimal_policed (get p ''typeRef'') p) (as_array (get d ''positions''))"
  unfolding composite_decimals_def silent_simps(2) silent_list silent_if silent_composite ..

lemma silent_early: "silent (early_findings ix pointer d) \<longleftrightarrow> sound_references ix pointer d"
proof -
  have "silent (reference_target ix pointer d) \<longleftrightarrow> (is_reference d \<longrightarrow>
      get (target_node (optionTarget ix (get d ''target''))) ''kind'' \<noteq> Str (js ''option''))"
    by (auto simp: reference_target_def)
  then show ?thesis
    unfolding early_findings_def silent_simps(2) silent_option_inner silent_self silent_quantities silent_composites
      sound_references_def by blast
qed

section \<open>The parts of a type\<close>

definition sound_clause :: "jsval \<Rightarrow> bool" where
  "sound_clause c \<longleftrightarrow>
     (to_text (get c ''language'') \<in> set CORE_CLAUSE_LANGUAGES \<or> NAMESPACED_LANGUAGE (to_text (get c ''language''))) \<and>
     (is_object (get c ''origin'') \<and> has_own (get c ''origin'') ''source'' \<longrightarrow> \<not> nullish (get c ''sourceSpan''))"

definition clause_ids :: "jsval \<Rightarrow> jsstr list" where
  "clause_ids d = map (\<lambda>c. to_text (get c ''clauseId'')) (as_array (get d ''clauses''))"

definition sound_relationship :: "reader_context \<Rightarrow> jsval \<Rightarrow> jsval \<Rightarrow> bool" where
  "sound_relationship ctx d r \<longleftrightarrow>
     (map_of (ix_types (rc_index ctx)) (relationship_target r) \<noteq> None \<or>
        relationship_target r \<in> set (rc_known ctx)) \<and>
     (case get (get r ''sourceEnd'') ''type'' of Str s \<Rightarrow> s = to_text (get d ''identity'') | _ \<Rightarrow> True) \<and>
     to_text (get r ''category'') \<in> set EDGE_CATEGORIES \<and>
     list_all (\<lambda>end_name. is_object (get (get r end_name) ''multiplicity'') \<longrightarrow>
        sound_multiplicity (get (get r end_name) ''multiplicity'')) [''sourceEnd'', ''targetEnd'']"

text \<open>What an operation returns; where it declares a multiplicity, its bounds are in order.\<close>

definition sound_returns :: "reader_context \<Rightarrow> jsval \<Rightarrow> bool" where
  "sound_returns ctx ret \<longleftrightarrow>
     typed_member (rc_index ctx) ret (resolveKind (rc_index ctx) False (get ret ''typeRef'') \<noteq> None) \<and>
     native_decimal_policed (get ret ''typeRef'') ret \<and>
     (is_object (get ret ''multiplicity'') \<longrightarrow> sound_multiplicity (get ret ''multiplicity''))"

definition sound_condition :: "jsval \<Rightarrow> jsval \<Rightarrow> bool" where
  "sound_condition d c \<longleftrightarrow>
     (if is_object c then get c ''language'' = Str (js ''quire'') else to_text c \<in> set (clause_ids d))"

definition sound_operation :: "reader_context \<Rightarrow> jsstr \<Rightarrow> jsval \<Rightarrow> nat \<times> jsval \<Rightarrow> bool" where
  "sound_operation ctx pointer d e \<longleftrightarrow>
     (let (i, operation) = e
      in distinct (map (\<lambda>(_, p). to_text (get p ''name'')) (indexed operation ''params'')) \<and>
         list_all (\<lambda>(j, p). sound_field ctx
             (pointer @ js ''/operations/'' @ nat_text i @ js ''/params/'' @ nat_text j) p)
           (indexed operation ''params'') \<and>
         (is_object (get operation ''returns'') \<longrightarrow> sound_returns ctx (get operation ''returns'')) \<and>
         list_all (\<lambda>side. list_all (sound_condition d) (list_of (get operation side))) [''pre'', ''post''])"

definition sound_type :: "reader_context \<Rightarrow> nat \<times> jsval \<Rightarrow> bool" where
  "sound_type ctx e \<longleftrightarrow>
     (let (i, d) = e; pointer = definition_pointer i
      in sound_references (rc_index ctx) pointer d \<and>
         list_all (\<lambda>k. length (list_of (get d k)) \<le> maxCollectionItems (rc_limits ctx)) bounded_lists \<and>
         list_all (\<lambda>(j, f). sound_field ctx (pointer @ js ''/fields/'' @ nat_text j) f) (indexed d ''fields'') \<and>
         sound_constraints ctx d \<and>
         (isConstructKind (get d ''kind'') \<or> get d ''kind'' = Str (js ''record'') \<or>
            get d ''relationships'' = Undefined \<and> get d ''operations'' = Undefined) \<and>
         distinct (clause_ids d) \<and> list_all sound_clause (as_array (get d ''clauses'')) \<and>
         list_all (sound_relationship ctx d) (as_array (get d ''relationships'')) \<and>
         list_all (sound_operation ctx pointer d) (indexed d ''operations'') \<and>
         distinct (map (\<lambda>(_, m). to_text (get m ''identity'')) (labelled_members d)))"

lemma silent_relationship:
  assumes k: "\<not> rc_unknown ctx"
  shows "silent (check_relationship ctx d r) \<longleftrightarrow> sound_relationship ctx d r"
proof -
  have "silent (check_target ctx d r) \<longleftrightarrow>
      map_of (ix_types (rc_index ctx)) (relationship_target r) \<noteq> None \<or> relationship_target r \<in> set (rc_known ctx)"
    using k by (simp add: check_target_def may_be_foreign_def Let_def)
  moreover have "silent (case get (get r ''sourceEnd'') ''type'' of
      Str s \<Rightarrow> if s \<noteq> i then raised n m l # [] else [] | _ \<Rightarrow> []) \<longleftrightarrow>
      (case get (get r ''sourceEnd'') ''type'' of Str s \<Rightarrow> s = i | _ \<Rightarrow> True)" for i n m l
    by (simp split: jsval.split)
  ultimately show ?thesis
    unfolding check_relationship_def sound_relationship_def silent_simps(2) silent_multiplicity by auto
qed

lemma silent_clauses:
  "silent (snd (check_clauses d)) \<longleftrightarrow> distinct (clause_ids d) \<and> list_all sound_clause (as_array (get d ''clauses''))"
proof -
  define k where "k = (\<lambda>c. to_text (get c ''clauseId''))"
  define a where "a = (\<lambda>c ids. if k c \<in> set ids then [raised ''DUPLICATE_CLAUSE_ID''
     (js ''the clause id '' @ fragment (Str (k c)) @ js '' is declared twice'') (locus_or c d)] else [])"
  define h where "h = (\<lambda>c. snd (check_clause d c ([], [])))"
  have step: "check_clause d c (ids, fs) = (set_add (k c) ids, fs @ a c ids @ h c)" for c ids fs
    by (simp add: check_clause_def Let_def k_def a_def h_def)
  have again: "silent (a c ids) \<longleftrightarrow> k c \<notin> set ids" for c ids by (simp add: a_def)
  have "silent (h c) \<longleftrightarrow> sound_clause c" for c
    by (auto simp: h_def check_clause_def sound_clause_def Let_def)
  then show ?thesis
    unfolding check_clauses_def keyed_fold_silent [where g = "check_clause d" and k = k and a = a and h = h, OF step again]
    by (simp add: clause_ids_def k_def [symmetric] list_all_iff)
qed

lemma check_clauses_ids: "fst (check_clauses d) = set_from (clause_ids d)"
proof -
  have "fst (fold (check_clause d) cs (ids, fs)) = fold set_add (map (\<lambda>c. to_text (get c ''clauseId'')) cs) ids" for cs ids fs
    by (induction cs arbitrary: ids fs) (simp_all add: check_clause_def Let_def)
  then show ?thesis by (simp add: check_clauses_def clause_ids_def set_from_def)
qed

lemma silent_members:
  "silent (check_members d) \<longleftrightarrow> distinct (map (\<lambda>(_, m). to_text (get m ''identity'')) (labelled_members d))"
proof -
  define k where "k = (\<lambda>(_ :: string, m). to_text (get m ''identity''))"
  define a where "a = (\<lambda>(label, m) ids. if k (label, m) \<in> set ids then [raised ''DUPLICATE_IDENTITY''
     (js ''the '' @ js label @ js '' identity '' @ fragment (Str (k (label, m))) @ js '' is declared twice'')
     (locus_or m d)] else [])"
  have step: "check_member d e (ids, fs) = (set_add (k e) ids, fs @ a e ids @ [])" for e ids fs
    by (simp add: check_member_def Let_def k_def a_def split: prod.split)
  have again: "silent (a e ids) \<longleftrightarrow> k e \<notin> set ids" for e ids by (simp add: a_def split: prod.split)
  show ?thesis
    unfolding check_members_def keyed_fold_silent [where g = "check_member d" and k = k and a = a and h = "\<lambda>_. []", OF step again]
    by (simp add: k_def)
qed

lemma silent_params:
  assumes u: "\<not> rc_unknown ctx" and w: "well_referenced (rc_index ctx)"
  shows "silent (snd (fold (check_param ctx pointer operation) ps ([], []))) \<longleftrightarrow>
    distinct (map (\<lambda>(_, p). to_text (get p ''name'')) ps) \<and>
    list_all (\<lambda>(j, p). sound_field ctx (pointer @ js ''/params/'' @ nat_text j) p) ps"
proof -
  define k where "k = (\<lambda>(_ :: nat, p). to_text (get p ''name''))"
  define a where "a = (\<lambda>(i :: nat, p) ids. if k (i, p) \<in> set ids then [raised ''DUPLICATE_PARAM''
     (js ''the parameter '' @ fragment (Str (k (i, p))) @ js '' is declared twice'') (locus_or p operation)] else [])"
  define h where "h = (\<lambda>(i, p). checkField ctx (pointer @ js ''/params/'' @ nat_text i) p)"
  have step: "check_param ctx pointer operation e (ids, fs) = (set_add (k e) ids, fs @ a e ids @ h e)" for e ids fs
    by (simp add: check_param_def Let_def k_def a_def h_def split: prod.split)
  have again: "silent (a e ids) \<longleftrightarrow> k e \<notin> set ids" for e ids by (simp add: a_def split: prod.split)
  show ?thesis
    unfolding keyed_fold_silent [where g = "check_param ctx pointer operation" and k = k and a = a and h = h, OF step again]
    using silent_field [OF u w] by (auto simp: k_def h_def list_all_iff)
qed

lemma silent_returns:
  assumes w: "well_referenced (rc_index ctx)"
  shows "silent (check_returns ctx pointer operation) \<longleftrightarrow>
    (is_object (get operation ''returns'') \<longrightarrow> sound_returns ctx (get operation ''returns''))"
proof -
  let ?v = "get operation ''returns''"
  have "silent (case specialMember (rc_index ctx) q ?v of Some fs \<Rightarrow> fs | None \<Rightarrow> other) \<longleftrightarrow>
      typed_member (rc_index ctx) ?v (silent other)" for q other
    using silent_typed [OF w, where pointer = q and v = "?v" and gs = "[]" and other = other, unfolded append_Nil2]
    by (cases "special_of (rc_index ctx) (get ?v ''typeRef'')")
      (simp_all add: typed_member_def split: special.split)
  then show ?thesis
    unfolding check_returns_def Let_def sound_returns_def
    by (auto simp: silent_composite silent_multiplicity)
qed

lemma silent_conditions:
  "silent (unchecked_clauses operation side) \<and> silent (dangling_clauses (fst (check_clauses d)) operation side) \<longleftrightarrow>
     list_all (sound_condition d) (list_of (get operation side))"
proof -
  have "silent (unchecked_clauses operation side) \<longleftrightarrow>
      list_all (\<lambda>c. is_object c \<longrightarrow> get c ''language'' = Str (js ''quire'')) (list_of (get operation side))"
    by (cases "get operation side")
      (auto simp: unchecked_clauses_def silent_concat list_all_iff as_array_def list_of_def)
  moreover have "silent (dangling_clauses (fst (check_clauses d)) operation side) \<longleftrightarrow>
      list_all (\<lambda>c. is_object c \<or> to_text c \<in> set (clause_ids d)) (list_of (get operation side))"
    by (auto simp: dangling_clauses_def silent_concat list_all_iff check_clauses_ids)
  ultimately show ?thesis by (auto simp: list_all_iff sound_condition_def)
qed

lemma silent_operation:
  assumes k: "\<not> rc_unknown ctx" and w: "well_referenced (rc_index ctx)"
  shows "silent (check_operation ctx pointer (fst (check_clauses d)) (i, operation)) \<longleftrightarrow>
    sound_operation ctx pointer d (i, operation)"
  using silent_params [OF k w] silent_conditions [of operation "''pre''" d] silent_conditions [of operation "''post''" d]
  by (auto simp: check_operation_def sound_operation_def Let_def silent_returns [OF w])

lemma too_long_none:
  "too_long ls d = None \<longleftrightarrow> list_all (\<lambda>k. length (list_of (get d k)) \<le> maxCollectionItems ls) bounded_lists"
  by (auto simp: too_long_def find_None_iff list_all_iff not_less)

lemma silent_definition:
  assumes k: "\<not> rc_unknown ctx" and w: "well_referenced (rc_index ctx)"
  shows "silent (checkDefinition ctx (i, d)) \<longleftrightarrow> sound_type ctx (i, d)"
proof (cases "too_long (rc_limits ctx) d")
  case (Some m)
  then have "\<not> list_all (\<lambda>k. length (list_of (get d k)) \<le> maxCollectionItems (rc_limits ctx)) bounded_lists"
    using too_long_none [of "rc_limits ctx" d] by simp
  then show ?thesis using Some by (simp add: checkDefinition_def sound_type_def Let_def)
next
  case None
  let ?p = "definition_pointer i"
  have t: "list_all (\<lambda>k. length (list_of (get d k)) \<le> maxCollectionItems (rc_limits ctx)) bounded_lists"
    using None too_long_none [of "rc_limits ctx" d] by simp
  have f: "silent (concat (map (\<lambda>(j, f). checkField ctx (?p @ js ''/fields/'' @ nat_text j) f) (indexed d ''fields''))) \<longleftrightarrow>
      list_all (\<lambda>(j, f). sound_field ctx (?p @ js ''/fields/'' @ nat_text j) f) (indexed d ''fields'')"
    using silent_field [OF k w] by (auto simp: silent_list list_all_iff)
  have o: "silent (concat (map (check_operation ctx ?p (fst (check_clauses d))) (indexed d ''operations''))) \<longleftrightarrow>
      list_all (sound_operation ctx ?p d) (indexed d ''operations'')"
    using silent_operation [OF k w] by (auto simp: silent_list list_all_iff)
  have r: "silent (concat (map (check_relationship ctx d) (as_array (get d ''relationships'')))) \<longleftrightarrow>
      list_all (sound_relationship ctx d) (as_array (get d ''relationships''))"
    using silent_relationship [OF k] by (simp add: silent_list)
  have n: "silent (nodes_on_non_record d) \<longleftrightarrow> isConstructKind (get d ''kind'') \<or> get d ''kind'' = Str (js ''record'') \<or>
      get d ''relationships'' = Undefined \<and> get d ''operations'' = Undefined"
    by (auto simp: nodes_on_non_record_def)
  show ?thesis
    using None t f o r n
    by (simp add: checkDefinition_def sound_type_def Let_def definition_pointer_def silent_early silent_clauses
        silent_members silent_constraints [OF w] case_prod_beta conj_assoc)
qed

lemma silent_definitions:
  assumes k: "\<not> rc_unknown ctx" and w: "well_referenced (rc_index ctx)"
  shows "silent (check_definitions ctx ds) \<longleftrightarrow>
    distinct (map (\<lambda>d. to_text (get d ''identity'')) ds) \<and> list_all (sound_type ctx) (List.enumerate 0 ds)"
proof -
  define key where "key = (\<lambda>(_ :: nat, d). to_text (get d ''identity''))"
  define a where "a = (\<lambda>(i :: nat, d) ids. if key (i, d) \<in> set ids then [raised ''DUPLICATE_IDENTITY''
     (js ''the type identity '' @ fragment (Str (key (i, d))) @ js '' is declared twice'') (source_of d)] else [])"
  have step: "check_identity ctx e (ids, fs) = (set_add (key e) ids, fs @ a e ids @ checkDefinition ctx e)" for e ids fs
    by (simp add: check_identity_def Let_def key_def a_def split: prod.split)
  have again: "silent (a e ids) \<longleftrightarrow> key e \<notin> set ids" for e ids by (simp add: a_def split: prod.split)
  have "map key (List.enumerate n ds) = map (\<lambda>d. to_text (get d ''identity'')) ds" for n
    by (induction ds arbitrary: n) (simp_all add: key_def)
  then show ?thesis
    unfolding check_definitions_def
      keyed_fold_silent [where g = "check_identity ctx" and k = key and a = a and h = "checkDefinition ctx", OF step again]
    using silent_definition [OF k w] by (auto simp: list_all_iff)
qed

section \<open>The document\<close>

lemma context_parts [simp]:
  "rc_index (document_context regex ls exports document) = indexed_document document (as_array (get document ''types''))"
  "rc_limits (document_context regex ls exports document) = ls"
  "\<not> rc_unknown (document_context regex ls (Some known) document)"
  by (simp_all add: document_context_def)

lemma context_types:
  "ix_types (rc_index (document_context regex ls exports document)) = located_types (as_array (get document ''types''))"
  by (simp add: document_context_def indexed_document_def)

lemma map_from_member: "(k, v) \<in> set (map_from ps) \<Longrightarrow> (k, v) \<in> set ps"
proof -
  assume "(k, v) \<in> set (map_from ps)"
  then have "map_of (map_from ps) k = Some v" by (simp add: distinct_map_from)
  then show ?thesis by (auto simp: map_of_map_from dest: map_of_SomeD)
qed

text \<open>If no reference written in a type is malformed, the walks meet none.\<close>

definition names_units :: "jsval \<Rightarrow> bool" where
  "names_units d \<longleftrightarrow> \<not> malformed (get d ''target'') \<and>
     (\<forall>f\<in>set (as_array (get d ''fields'')). \<not> malformed (get f ''typeRef'')) \<and>
     (\<forall>op\<in>set (as_array (get d ''operations'')). \<forall>p\<in>set (as_array (get op ''params'')). \<not> malformed (get p ''typeRef''))"

lemma enumerated_value: "(i, x) \<in> set (List.enumerate n xs) \<Longrightarrow> x \<in> set xs"
  by (induction xs arbitrary: n) auto

lemma identified_value: "(k, f) \<in> set (identified pointer m e) \<Longrightarrow> snd f = snd e"
  by (auto simp: identified_def split: jsval.splits)

lemma names_units_walks:
  assumes "\<forall>d\<in>set ds. names_units d"
  shows "well_referenced (indexed_document document ds)"
proof -
  have "\<not> malformed (get (snd f) ''typeRef'')" if "(k, f) \<in> set (located_fields ds)" for k f
  proof -
    from map_from_member [OF that [unfolded located_fields_def]] obtain i d where
      d: "(i, d) \<in> set (List.enumerate 0 ds)" "(k, f) \<in> set (fields_of_definition (i, d))" by auto
    from d(2) have "snd f \<in> set (as_array (get d ''fields'')) \<or>
        (\<exists>op\<in>set (as_array (get d ''operations'')). snd f \<in> set (as_array (get op ''params'')))"
      by (auto simp: fields_of_definition_def indexed_def Let_def dest!: identified_value enumerated_value)
    then show ?thesis using assms enumerated_value [OF d(1)] by (auto simp: names_units_def)
  qed
  moreover have "\<not> malformed (get (snd d) ''target'')" if "(k, d) \<in> set (located_types ds)" for k d
    using map_from_member [OF that [unfolded located_types_def]] assms
    by (auto simp: names_units_def dest!: enumerated_value)
  ultimately show ?thesis by (auto simp: well_referenced_def indexed_document_def list_all_iff)
qed

lemma typed_well: "typed_member ix v b \<Longrightarrow> \<not> malformed (get v ''typeRef'')"
  using malformed_special [of "get v ''typeRef''" ix] by (auto simp: typed_member_def)

lemma sound_names_units: "sound_type ctx (i, d) \<Longrightarrow> names_units d"
proof -
  assume s: "sound_type ctx (i, d)"
  have "\<not> malformed (get f ''typeRef'')" if f: "f \<in> set (as_array (get d ''fields''))" for f
  proof -
    obtain j where "(j, f) \<in> set (indexed d ''fields'')" using enumerated [OF f] by (auto simp: indexed_def)
    then show ?thesis using s typed_well by (auto simp: sound_type_def Let_def list_all_iff sound_field_def)
  qed
  moreover have "\<not> malformed (get p ''typeRef'')"
    if op: "op \<in> set (as_array (get d ''operations''))" and p: "p \<in> set (as_array (get op ''params''))" for op p
  proof -
    obtain j where "(j, op) \<in> set (indexed d ''operations'')" using enumerated [OF op] by (auto simp: indexed_def)
    then have "sound_operation ctx (definition_pointer i) d (j, op)"
      using s by (auto simp: sound_type_def Let_def list_all_iff)
    moreover obtain k where "(k, p) \<in> set (indexed op ''params'')" using enumerated [OF p] by (auto simp: indexed_def)
    ultimately show ?thesis using typed_well by (auto simp: sound_operation_def list_all_iff sound_field_def)
  qed
  moreover have "\<not> malformed (get d ''target'')" using s by (auto simp: sound_type_def sound_references_def Let_def)
  ultimately show ?thesis by (simp add: names_units_def)
qed

lemma refused_member: "malformed (get f ''typeRef'') \<Longrightarrow> \<not> silent (checkField ctx pointer f)"
proof -
  assume m: "malformed (get f ''typeRef'')"
  then obtain r where "get f ''typeRef'' = Str r" "starts_with r quantityPrefix"
    by (auto simp: malformed_def split: jsval.splits)
  then show ?thesis using malformed_special [OF m] by (simp add: checkField_def specialMember_def)
qed

lemma silent_fold_step:
  assumes "\<And>x ids fs. g x (ids, fs) = (set_add (k x) ids, fs @ a x ids @ h x)"
  shows "silent (snd (fold g xs (ids, fs))) \<Longrightarrow> silent fs \<and> (\<forall>x\<in>set xs. silent (h x))"
proof (induction xs arbitrary: ids fs)
  case (Cons x xs)
  then show ?case using Cons.IH [of "set_add (k x) ids" "fs @ a x ids @ h x"] by (simp add: assms)
qed simp

lemma silent_names_units:
  assumes "silent (checkDefinition ctx (i, d))"
  shows "names_units d"
proof -
  have n: "too_long (rc_limits ctx) d = None"
    using assms by (cases "too_long (rc_limits ctx) d") (auto simp: checkDefinition_def Let_def)
  let ?p = "js ''/types/'' @ nat_text i"
  have parts: "silent (early_findings (rc_index ctx) ?p d)"
    "silent (concat (map (\<lambda>(j, f). checkField ctx (?p @ js ''/fields/'' @ nat_text j) f) (indexed d ''fields'')))"
    "silent (concat (map (check_operation ctx ?p (fst (check_clauses d))) (indexed d ''operations'')))"
    using assms n by (simp_all add: checkDefinition_def Let_def split: prod.splits)
  have "\<not> malformed (get f ''typeRef'')" if f: "f \<in> set (as_array (get d ''fields''))" for f
  proof -
    obtain j where "(j, f) \<in> set (indexed d ''fields'')" using enumerated [OF f] by (auto simp: indexed_def)
    then have "silent (checkField ctx (?p @ js ''/fields/'' @ nat_text j) f)"
      using parts(2) by (auto simp: silent_concat)
    then show ?thesis using refused_member by blast
  qed
  moreover have "\<not> malformed (get p ''typeRef'')"
    if op: "op \<in> set (as_array (get d ''operations''))" and p: "p \<in> set (as_array (get op ''params''))" for op p
  proof -
    obtain j where "(j, op) \<in> set (indexed d ''operations'')" using enumerated [OF op] by (auto simp: indexed_def)
    then have "silent (check_operation ctx ?p (fst (check_clauses d)) (j, op))" using parts(3) by (auto simp: silent_concat)
    then have s: "silent (snd (fold (check_param ctx (?p @ js ''/operations/'' @ nat_text j) op) (indexed op ''params'') ([], [])))"
      by (simp add: check_operation_def Let_def)
    define q where "q = ?p @ js ''/operations/'' @ nat_text j"
    have "check_param ctx q op e (ids, fs) = (set_add (to_text (get (snd e) ''name'')) ids, fs @
        (if to_text (get (snd e) ''name'') \<in> set ids then [raised ''DUPLICATE_PARAM'' (js ''the parameter '' @
          fragment (Str (to_text (get (snd e) ''name''))) @ js '' is declared twice'') (locus_or (snd e) op)] else []) @
        checkField ctx (q @ js ''/params/'' @ nat_text (fst e)) (snd e))" for e ids fs
      by (simp add: check_param_def Let_def split: prod.split)
    from silent_fold_step [where g = "check_param ctx q op", OF this s [folded q_def]]
    have "\<forall>e\<in>set (indexed op ''params''). silent (checkField ctx (q @ js ''/params/'' @ nat_text (fst e)) (snd e))"
      by blast
    moreover obtain k where "(k, p) \<in> set (indexed op ''params'')" using enumerated [OF p] by (auto simp: indexed_def)
    ultimately show ?thesis using refused_member by fastforce
  qed
  moreover have "\<not> malformed (get d ''target'')"
    using parts(1) by (simp add: silent_early sound_references_def)
  ultimately show ?thesis by (simp add: names_units_def)
qed

lemma check_definitions_exact:
  assumes ctx: "ctx = document_context regex ls (Some known) document" and ds_def: "ds = as_array (get document ''types'')"
  shows "silent (check_definitions ctx ds) \<longleftrightarrow>
    distinct (map (\<lambda>d. to_text (get d ''identity'')) ds) \<and> list_all (sound_type ctx) (List.enumerate 0 ds)"
    (is "?l \<longleftrightarrow> ?r")
proof -
  have u: "\<not> rc_unknown ctx" by (simp add: ctx)
  have "\<forall>d\<in>set ds. names_units d" if l: ?l
  proof
    fix d assume "d \<in> set ds"
    then obtain i where i: "(i, d) \<in> set (List.enumerate 0 ds)" using enumerated by fast
    have "check_identity ctx e (ids, fs) = (set_add (to_text (get (snd e) ''identity'')) ids, fs @
        (if to_text (get (snd e) ''identity'') \<in> set ids then [raised ''DUPLICATE_IDENTITY''
           (js ''the type identity '' @ fragment (Str (to_text (get (snd e) ''identity''))) @ js '' is declared twice'')
           (source_of (snd e))] else []) @ checkDefinition ctx e)" for e ids fs
      by (simp add: check_identity_def Let_def split: prod.split)
    from silent_fold_step [where g = "check_identity ctx", OF this l [unfolded check_definitions_def]]
    show "names_units d" using i silent_names_units by blast
  qed
  moreover have "\<forall>d\<in>set ds. names_units d" if ?r
    using that enumerated [of _ ds 0] sound_names_units by (fastforce simp: list_all_iff)
  moreover have "?l \<longleftrightarrow> ?r" if "\<forall>d\<in>set ds. names_units d"
    using silent_definitions [OF u, of ds] names_units_walks [OF that, of document] by (simp add: ctx ds_def)
  ultimately show ?thesis by blast
qed

lemma silent_cycles: "compositeCycles types = Some fs \<Longrightarrow> silent fs \<longleftrightarrow> fs = []"
proof -
  assume "compositeCycles types = Some fs"
  then obtain d where "search_graph relationship_target (composite_table types) = Some d"
    "fs = map (\<lambda>c. cycle_finding (snd c)) (ds_closing d)"
    by (auto simp: compositeCycles_search)
  then show ?thesis by (cases "ds_closing d") (simp_all add: cycle_finding_def)
qed

text \<open>Within the limits on what is read before any check.\<close>

definition readable_document :: "limits \<Rightarrow> jsval \<Rightarrow> bool" where
  "readable_document ls document \<longleftrightarrow>
     is_object document \<and> get document ''contractVersion'' = Str (js ''2.0.0'') \<and>
     length (as_array (get document ''types'')) + length (list_of (get document ''dimensions'')) +
       length (list_of (get document ''units'')) \<le> maxNodes ls \<and>
     list_all (\<lambda>d. length (list_of (get d ''terms'')) \<le> maxCollectionItems ls) (as_array (get document ''dimensions''))"

lemma readable: "refused_document ls document = None \<longleftrightarrow> readable_document ls document"
  by (auto simp: refused_document_def readable_document_def Let_def list_all_iff list_ex_iff not_le [symmetric])

definition sound_document :: "(jsstr \<Rightarrow> jsstr option) \<Rightarrow> limits \<Rightarrow> jsstr list \<Rightarrow> jsval \<Rightarrow> bool" where
  "sound_document regex ls known document \<longleftrightarrow>
     (let types = as_array (get document ''types'')
      in readable_document ls document \<and> checkUnitGraph document = Some [] \<and>
         raised_diags (checkConstructs document types) = [] \<and>
         distinct (map (\<lambda>d. to_text (get d ''identity'')) types) \<and>
         list_all (sound_type (document_context regex ls (Some known) document)) (List.enumerate 0 types) \<and>
         value_depth document \<le> maxDepth ls \<and>
         acyclic (composite_rel (located_types types)))"

lemma silent_reader:
  assumes f: "reader_findings regex ls (Some known) document = Some fs"
  shows "silent fs \<longleftrightarrow> sound_document regex ls known document"
proof (cases "refused_document ls document")
  case (Some g)
  then have "\<not> silent [g]" by (auto simp: refused_document_def Let_def split: if_splits)
  moreover have "\<not> readable_document ls document" using Some readable [of ls document] by simp
  ultimately show ?thesis using f Some by (simp add: reader_findings_def sound_document_def Let_def)
next
  case None
  let ?ds = "as_array (get document ''types'')"
  let ?ctx = "document_context regex ls (Some known) document"
  obtain graph where g: "checkUnitGraph document = Some graph"
    using f None by (cases "checkUnitGraph document") (auto simp: reader_findings_def Let_def)
  define checked where "checked = map Raised graph @ checkConstructs document ?ds @ check_definitions ?ctx ?ds"
  obtain cycles where c: "compositeCycles (located_types ?ds) = Some cycles"
    using compositeCycles_right [of "located_types ?ds"] by blast
  have a: "cycles = [] \<longleftrightarrow> acyclic (composite_rel (located_types ?ds))"
    using compositeCycles_right [of "located_types ?ds"] c by auto
  have "fs = (if maxDepth ls < depthOf (maxDepth ls) 0 document then checked @ [depth_finding ls]
      else checked @ cycles)"
    using f None g c unfolding reader_findings_def checked_def Let_def
    by (simp only: option.case context_types option.map split: if_splits) simp_all
  then have "silent fs \<longleftrightarrow> silent checked \<and> depthOf (maxDepth ls) 0 document \<le> maxDepth ls \<and> silent cycles"
    by auto
  moreover have "silent checked \<longleftrightarrow> graph = [] \<and> raised_diags (checkConstructs document ?ds) = [] \<and>
      silent (check_definitions ?ctx ?ds)"
    by (simp add: checked_def) (simp add: silent_def)
  ultimately show ?thesis
    using None readable [of ls document] g silent_cycles [OF c] a
      check_definitions_exact [OF refl refl, of regex ls known document]
    by (auto simp: sound_document_def Let_def depthOf_bounded(1))
qed

lemma readContractIr_returns: "\<exists>r. readContractIr regex ls exports document = Some r"
proof -
  obtain graph where "checkUnitGraph document = Some graph"
    by (rule checkUnitGraph_parts [of document]) blast
  moreover have "\<exists>cycles. compositeCycles types = Some cycles" for types
    using compositeCycles_right by blast
  ultimately show ?thesis
    by (auto simp: readContractIr_def reader_findings_def Let_def split: option.split)
qed

section \<open>Properties\<close>


definition text_member :: "string \<Rightarrow> string \<Rightarrow> jsstr \<times> jsval" where
  "text_member k v = (js k, Str (js v))"

definition demo_multiplicity :: "jsstr \<times> jsval" where
  "demo_multiplicity = (js ''multiplicity'',
     Obj [(js ''lower'', Num (Fin 1)), (js ''upper'', Num (Fin 1)),
          (js ''ordered'', Bool False), (js ''unique'', Bool True)])"

definition demo_read :: jsval where
  "demo_read = Obj [text_member ''contractVersion'' ''2.0.0'',
     (js ''types'', Arr
       [Obj [text_member ''identity'' ''ix://p/Name'', text_member ''kind'' ''alias'',
             text_member ''target'' ''ix://quire/native/String'',
             (js ''constraints'', Arr [Obj [text_member ''identity'' ''k1'', text_member ''keyword'' ''minLength'',
                text_member ''appliesTo'' ''ix://p/Name'']])],
        Obj [text_member ''identity'' ''ix://p/Order'', text_member ''kind'' ''record'',
             (js ''fields'', Arr [Obj [text_member ''identity'' ''f1'', text_member ''typeRef'' ''ix://p/Name'',
                demo_multiplicity]]),
             (js ''relationships'', Arr [Obj [text_member ''identity'' ''r1'', text_member ''category'' ''structural'',
                (js ''composite'', Bool True),
                (js ''targetEnd'', Obj [text_member ''type'' ''ix://p/Name'', demo_multiplicity])]])]])]"

definition demo_limits :: limits where
  "demo_limits = \<lparr>maxInputBytes = 9, maxDepth = 8, maxNodes = 4, maxCollectionItems = 4, maxDiagnostics = 4\<rparr>"

lemma demo_definitions:
  "check_definitions (document_context (\<lambda>_. None) demo_limits (Some []) demo_read)
     (as_array (get demo_read ''types'')) = []"
  by code_simp

lemma demo_checks:
  "refused_document demo_limits demo_read = None"
  "checkUnitGraph demo_read = Some []"
  "checkConstructs demo_read (as_array (get demo_read ''types'')) = []"
  "compositeCycles (located_types (as_array (get demo_read ''types''))) = Some []"
  "\<not> maxDepth demo_limits < depthOf (maxDepth demo_limits) 0 demo_read"
  by code_simp+

lemma demo_read_clean:
  "readContractIr (\<lambda>_. None) demo_limits (Some []) demo_read = Some ([], [])"
  unfolding readContractIr_def reader_findings_def Let_def demo_checks demo_definitions option.case context_types
  by (simp add: demo_checks(5) raised_diags_def suppressions_def)

text \<open>
  C17. The reader returns on every document whose values \<open>String\<close> can print, whatever its reference,
  unit and composite graphs. (It throws where a member it prints is an object with a member
  \<open>toString\<close>, as \<open>{contractVersion: {toString: 1}}\<close>.)
\<close>

theorem readContractIr_ends:
  assumes "all_print document"
  shows "\<exists>r. readContractIr regex ls exports document = Some r"
  by (rule readContractIr_returns)

theorem readContractIr_ends_witness: "\<exists>r. readContractIr (\<lambda>_. None) demo_limits (Some []) demo_read = Some r"
proof -
  have "all_print demo_read" by code_simp
  from readContractIr_ends [OF this] show ?thesis .
qed

text \<open>
  Stopping as soon as the bound is exceeded changes no verdict: \<open>depthOf\<close> exceeds the bound
  exactly when the nesting depth of the value does.
\<close>

lemma depthOf_verdict: "depthOf bound 0 v \<le> bound \<longleftrightarrow> value_depth v \<le> bound"
  by (simp add: depthOf_bounded(1))

text \<open>
  \<open>checkMultiplicity\<close> raises nothing about an object exactly when its bounds are natural numbers
  in order (the upper one may be absent) and \<open>ordered\<close> and \<open>unique\<close> are booleans.
\<close>

lemma checkMultiplicity_exact:
  "raised_diags (checkMultiplicity v own) = [] \<longleftrightarrow> (if is_object v then sound_multiplicity v else True)"
  using silent_multiplicity [of v own] by (simp add: silent_def)

end
