(* ===== verification/Host.thy ===== *)
theory Host
  imports JsVal
begin

text \<open>
  The host of \<open>src/src/compiler/host.mjs\<close>, through which every read, write and module load of the
  compiler passes. An absolute path is the list of its segments (POSIX); the operations take the
  path \<open>resolve\<close> has made absolute. The file system is not the program's: \<open>os\<close> holds the calls of
  \<open>node:fs\<close> on a file system of any type, \<open>None\<close> standing for a call that throws.
\<close>

section \<open>Paths\<close>

type_synonym path = "jsstr list"

type_synonym bytes = "8 word list"

definition path_text :: "path \<Rightarrow> jsstr" where
  "path_text p = (if p = [] then js ''/'' else concat (map (\<lambda>s. js ''/'' @ s) p))"

definition toPosix :: "jsstr \<Rightarrow> jsstr" where
  "toPosix s = map (\<lambda>u. if u = 92 then 47 else u) s"

text \<open>\<open>resolve\<close> of \<open>node:path\<close>, from a directory.\<close>

definition resolve_step :: "jsstr \<Rightarrow> path \<Rightarrow> path" where
  "resolve_step s p =
     (if s = [] \<or> s = js ''.'' then p else if s = js ''..'' then butlast p else p @ [s])"

definition resolve_path :: "path \<Rightarrow> jsstr \<Rightarrow> path" where
  "resolve_path cwd s = fold resolve_step (split_at 47 s) (if starts_with s (js ''/'') then [] else cwd)"

text \<open>\<open>relative\<close> of \<open>node:path\<close>, between absolute paths.\<close>

fun strip_common :: "path \<Rightarrow> path \<Rightarrow> path \<times> path" where
  "strip_common (a # as) (b # bs) = (if a = b then strip_common as bs else (a # as, b # bs))"
| "strip_common as bs = (as, bs)"

definition relative_text :: "path \<Rightarrow> path \<Rightarrow> jsstr" where
  "relative_text base p =
     (case strip_common base p of (up, down) \<Rightarrow> join (js ''/'') (replicate (length up) (js ''..'') @ down))"

definition within_root :: "path \<Rightarrow> path \<Rightarrow> bool" where
  "within_root parent child =
     (child = parent \<or>
      (let rel = relative_text parent child
       in rel \<noteq> [] \<and> \<not> starts_with rel (js ''..'') \<and>
          \<not> starts_with (path_text (resolve_path parent rel)) (js ''..'')))"

section \<open>The host\<close>

record 'fs os =
  os_realpath :: "'fs \<Rightarrow> path \<Rightarrow> path option"
  os_read :: "'fs \<Rightarrow> path \<Rightarrow> bytes option"
  os_exists :: "'fs \<Rightarrow> path \<Rightarrow> bool"
  os_isDirectory :: "'fs \<Rightarrow> path \<Rightarrow> bool option"
  os_size :: "'fs \<Rightarrow> path \<Rightarrow> nat option"
  os_readdir :: "'fs \<Rightarrow> path \<Rightarrow> jsstr list option"
  os_mkdir :: "'fs \<Rightarrow> path \<Rightarrow> 'fs option"
  os_write :: "'fs \<Rightarrow> path \<Rightarrow> bytes \<Rightarrow> 'fs option"
  os_rename :: "'fs \<Rightarrow> path \<Rightarrow> path \<Rightarrow> 'fs option"

record host_config =
  hc_readRoots :: "path list"
  hc_moduleRoots :: "path list"
  hc_writeTargets :: "path list"
  hc_descending :: bool

record 'fs host_state =
  hs_fs :: 'fs
  hs_reads :: "jsstr list"
  hs_refusedReads :: "jsstr list"
  hs_moduleLoads :: "jsstr list"
  hs_refusedModules :: "jsstr list"
  hs_writes :: "jsstr list"
  hs_refusedWrites :: "jsstr list"

datatype host_error = PathEscape jsstr | UntrustedModule jsstr | NoReadRoots | IoError

type_synonym ('fs, 'r) outcome = "(host_error + 'r) \<times> 'fs host_state"

definition createHost ::
  "path \<Rightarrow> jsstr list \<Rightarrow> jsstr list \<Rightarrow> jsstr list \<Rightarrow> bool \<Rightarrow> 'fs \<Rightarrow>
     host_error + host_config \<times> 'fs host_state" where
  "createHost cwd readRoots moduleRoots writeTargets descending fs =
     (if readRoots = [] then Inl NoReadRoots
      else Inr (\<lparr>hc_readRoots = map (resolve_path cwd) readRoots,
          hc_moduleRoots = map (resolve_path cwd) moduleRoots,
          hc_writeTargets = set_from (map (resolve_path cwd) writeTargets),
          hc_descending = descending\<rparr>,
        \<lparr>hs_fs = fs, hs_reads = [], hs_refusedReads = [], hs_moduleLoads = [], hs_refusedModules = [],
          hs_writes = [], hs_refusedWrites = []\<rparr>))"

definition realOf :: "'fs os \<Rightarrow> 'fs \<Rightarrow> path \<Rightarrow> path" where
  "realOf os fs p = (case os_realpath os fs p of Some r \<Rightarrow> r | None \<Rightarrow> p)"

definition posix :: "path \<Rightarrow> jsstr" where
  "posix p = toPosix (path_text p)"

definition allowRead :: "'fs os \<Rightarrow> host_config \<Rightarrow> path \<Rightarrow> 'fs host_state \<Rightarrow> ('fs, path) outcome" where
  "allowRead os cfg p st =
     (let actual = realOf os (hs_fs st) p
      in if list_ex (\<lambda>r. within_root r actual) (hc_readRoots cfg) then (Inr actual, st)
         else (Inl (PathEscape (posix actual)), st\<lparr>hs_refusedReads := hs_refusedReads st @ [posix actual]\<rparr>))"

text \<open>A call on the real path of an allowed read; \<open>None\<close> is a call that throws.\<close>

definition on_allowed ::
  "'fs os \<Rightarrow> host_config \<Rightarrow> path \<Rightarrow> (path \<Rightarrow> 'fs host_state \<Rightarrow> ('fs, 'r) outcome) \<Rightarrow> 'fs host_state \<Rightarrow>
     ('fs, 'r) outcome" where
  "on_allowed os cfg p f st =
     (case allowRead os cfg p st of
        (Inl e, st') \<Rightarrow> (Inl e, st')
      | (Inr actual, st') \<Rightarrow> f actual st')"

definition thrown :: "'r option \<Rightarrow> host_error + 'r" where
  "thrown r = (case r of None \<Rightarrow> Inl IoError | Some x \<Rightarrow> Inr x)"

definition readBytes :: "'fs os \<Rightarrow> host_config \<Rightarrow> path \<Rightarrow> 'fs host_state \<Rightarrow> ('fs, bytes) outcome" where
  "readBytes os cfg p st =
     on_allowed os cfg p (\<lambda>actual st.
       (thrown (os_read os (hs_fs st) actual), st\<lparr>hs_reads := hs_reads st @ [posix actual]\<rparr>)) st"

definition sizeOf :: "'fs os \<Rightarrow> host_config \<Rightarrow> path \<Rightarrow> 'fs host_state \<Rightarrow> nat option \<times> 'fs host_state" where
  "sizeOf os cfg p st =
     (case on_allowed os cfg p (\<lambda>actual st. (thrown (os_size os (hs_fs st) actual), st)) st of
        (Inl e, st') \<Rightarrow> (None, st')
      | (Inr n, st') \<Rightarrow> (Some n, st'))"

definition exists_at :: "'fs os \<Rightarrow> host_config \<Rightarrow> path \<Rightarrow> 'fs host_state \<Rightarrow> ('fs, bool) outcome" where
  "exists_at os cfg p st = on_allowed os cfg p (\<lambda>actual st. (Inr (os_exists os (hs_fs st) actual), st)) st"

definition isDirectory :: "'fs os \<Rightarrow> host_config \<Rightarrow> path \<Rightarrow> 'fs host_state \<Rightarrow> ('fs, bool) outcome" where
  "isDirectory os cfg p st =
     on_allowed os cfg p (\<lambda>actual st. (Inr (os_isDirectory os (hs_fs st) actual = Some True), st)) st"

definition readDir :: "'fs os \<Rightarrow> host_config \<Rightarrow> path \<Rightarrow> 'fs host_state \<Rightarrow> ('fs, jsstr list) outcome" where
  "readDir os cfg p st =
     on_allowed os cfg p (\<lambda>actual st.
       (thrown (map_option (\<lambda>names.
          let sorted_names = sort_on (\<lambda>n. n) names
          in if hc_descending cfg then rev sorted_names else sorted_names) (os_readdir os (hs_fs st) actual)), st)) st"

section \<open>Walking a directory\<close>

text \<open>A step, then the rest unless it threw (or ran out of fuel).\<close>

definition and_then ::
  "('fs, 'a) outcome option \<Rightarrow> ('a \<Rightarrow> 'fs host_state \<Rightarrow> ('fs, 'b) outcome option) \<Rightarrow> ('fs, 'b) outcome option" where
  "and_then m f =
     (case m of
        None \<Rightarrow> None
      | Some (Inl e, st) \<Rightarrow> Some (Inl e, st)
      | Some (Inr x, st) \<Rightarrow> f x st)"

lemma and_then_cong [fundef_cong]:
  "m = m' \<Longrightarrow> (\<And>x st. m' = Some (Inr x, st) \<Longrightarrow> f x st = g x st) \<Longrightarrow> and_then m f = and_then m' g"
  by (auto simp: and_then_def split: option.split sum.split)

text \<open>
  The loop of \<open>visit\<close> over the names of an open directory. Each nested directory costs one unit of
  fuel; \<open>walk_dir_ends\<close> shows that one unit per real directory is enough.
\<close>

fun walk_entries ::
  "'fs os \<Rightarrow> host_config \<Rightarrow> path \<Rightarrow> nat \<Rightarrow> path \<Rightarrow> jsstr list \<Rightarrow> path list \<times> jsstr list \<Rightarrow> 'fs host_state \<Rightarrow>
     ('fs, path list \<times> jsstr list) outcome option" where
  "walk_entries os cfg base fuel current [] acc st = Some (Inr acc, st)"
| "walk_entries os cfg base fuel current (n # ns) acc st =
     and_then (Some (isDirectory os cfg (resolve_path current n) st)) (\<lambda>directory st1.
       if \<not> directory then
         walk_entries os cfg base fuel current ns
           (fst acc, snd acc @ [toPosix (relative_text base (resolve_path current n))]) st1
       else if realOf os (hs_fs st1) (resolve_path current n) \<in> set (fst acc) then
         walk_entries os cfg base fuel current ns acc st1
       else (case fuel of
           0 \<Rightarrow> None
         | Suc f \<Rightarrow>
             and_then (Some (readDir os cfg (resolve_path current n) st1)) (\<lambda>names st2.
               and_then (walk_entries os cfg base f (resolve_path current n) names
                   (fst acc @ [realOf os (hs_fs st1) (resolve_path current n)], snd acc) st2)
                 (\<lambda>acc' st3. walk_entries os cfg base fuel current ns acc' st3))))"

definition walk_dir ::
  "nat \<Rightarrow> 'fs os \<Rightarrow> host_config \<Rightarrow> path \<Rightarrow> path \<Rightarrow> 'fs host_state \<Rightarrow> ('fs, jsstr list) outcome option" where
  "walk_dir fuel os cfg p base st =
     and_then (Some (isDirectory os cfg p st)) (\<lambda>directory st1.
       if \<not> directory then Some (Inr [], st1)
       else and_then (Some (readDir os cfg p st1)) (\<lambda>names st2.
         and_then (walk_entries os cfg base fuel p names ([realOf os (hs_fs st1) p], []) st2)
           (\<lambda>acc st3. Some (Inr (sort_on (\<lambda>t. t) (snd acc)), st3))))"

section \<open>Modules and writes\<close>

definition mayLoadModule :: "'fs os \<Rightarrow> host_config \<Rightarrow> path \<Rightarrow> 'fs host_state \<Rightarrow> bool" where
  "mayLoadModule os cfg p st \<longleftrightarrow>
     list_ex (\<lambda>r. within_root r (realOf os (hs_fs st) p)) (hc_moduleRoots cfg)"

definition noteModuleLoad :: "'fs os \<Rightarrow> host_config \<Rightarrow> path \<Rightarrow> 'fs host_state \<Rightarrow> ('fs, unit) outcome" where
  "noteModuleLoad os cfg p st =
     (let actual = posix (realOf os (hs_fs st) p)
      in if mayLoadModule os cfg p st
         then (Inr (), st\<lparr>hs_moduleLoads := hs_moduleLoads st @ [actual]\<rparr>)
         else (Inl (UntrustedModule actual), st\<lparr>hs_refusedModules := hs_refusedModules st @ [actual]\<rparr>))"

definition temporary_of :: "path \<Rightarrow> path" where
  "temporary_of p = (if p = [] then [js ''.tmp''] else butlast p @ [last p @ js ''.tmp''])"

definition writeFile :: "'fs os \<Rightarrow> host_config \<Rightarrow> path \<Rightarrow> bytes \<Rightarrow> 'fs host_state \<Rightarrow> ('fs, unit) outcome" where
  "writeFile os cfg p content st =
     (if hc_writeTargets cfg \<noteq> [] \<and> p \<notin> set (hc_writeTargets cfg)
      then (Inl (PathEscape (posix p)), st\<lparr>hs_refusedWrites := hs_refusedWrites st @ [posix p]\<rparr>)
      else (case os_mkdir os (hs_fs st) (butlast p) of
          None \<Rightarrow> (Inl IoError, st)
        | Some fs1 \<Rightarrow>
            (case os_write os fs1 (temporary_of p) content of
               None \<Rightarrow> (Inl IoError, st\<lparr>hs_fs := fs1\<rparr>)
             | Some fs2 \<Rightarrow>
                 (case os_rename os fs2 (temporary_of p) p of
                    None \<Rightarrow> (Inl IoError, st\<lparr>hs_fs := fs2\<rparr>)
                  | Some fs3 \<Rightarrow>
                      (Inr (), st\<lparr>hs_fs := fs3,
                        hs_writes := hs_writes st @ [posix p, posix (temporary_of p)]\<rparr>)))))"

section \<open>Runs\<close>

text \<open>One call on the host, whatever it returns.\<close>

inductive host_step :: "'fs os \<Rightarrow> host_config \<Rightarrow> 'fs host_state \<Rightarrow> 'fs host_state \<Rightarrow> bool"
  for os :: "'fs os" and cfg :: host_config where
  step_read: "readBytes os cfg p st = (r, st') \<Longrightarrow> host_step os cfg st st'"
| step_size: "sizeOf os cfg p st = (n, st') \<Longrightarrow> host_step os cfg st st'"
| step_exists: "exists_at os cfg p st = (b, st') \<Longrightarrow> host_step os cfg st st'"
| step_directory: "isDirectory os cfg p st = (b, st') \<Longrightarrow> host_step os cfg st st'"
| step_names: "readDir os cfg p st = (ns, st') \<Longrightarrow> host_step os cfg st st'"
| step_walk: "walk_dir fuel os cfg p base st = Some (ns, st') \<Longrightarrow> host_step os cfg st st'"
| step_module: "noteModuleLoad os cfg p st = (u, st') \<Longrightarrow> host_step os cfg st st'"
| step_write: "writeFile os cfg p content st = (u, st') \<Longrightarrow> host_step os cfg st st'"

inductive_cases host_stepE [elim]: "host_step os cfg st st'"

end
