(* ===== verification/HostConfined.thy ===== *)
theory HostConfined
  imports Host
begin

text \<open>
  What the host confines: every recorded read and module load lies under a declared root and every
  recorded write is a declared target or its \<open>.tmp\<close> sibling, in every reachable state; and what a
  read returns depends on nothing outside the roots, nor on the order a directory is listed in.
\<close>

section \<open>Paths under a root\<close>

lemma strip_common_split: "strip_common a b = (up, down) \<Longrightarrow> \<exists>c. a = c @ up \<and> b = c @ down"
proof (induction a b arbitrary: up down rule: strip_common.induct)
  case (1 a as b bs)
  show ?case
  proof (cases "a = b")
    case True
    then obtain c where "as = c @ up" "bs = c @ down" using 1 by auto
    then show ?thesis using True by (intro exI [of _ "a # c"]) simp
  qed (use 1 in auto)
qed auto

lemma join_head: "starts_with (join sep (s # ss)) s"
  by (cases ss) (simp_all add: starts_with_def)

lemma within_prefix:
  assumes "within_root r p"
  shows "\<exists>rest. p = r @ rest"
proof (cases "p = r")
  case False
  obtain up down where s: "strip_common r p = (up, down)" by (cases "strip_common r p")
  have "\<not> starts_with (relative_text r p) (js ''..'')"
    using assms False by (simp add: within_root_def Let_def)
  then have "up = []" using join_head by (cases up) (auto simp: relative_text_def s)
  then show ?thesis using strip_common_split [OF s] by auto
qed simp

section \<open>The invariant\<close>

definition under_roots :: "path list \<Rightarrow> jsstr \<Rightarrow> bool" where
  "under_roots roots t \<longleftrightarrow> (\<exists>r\<in>set roots. \<exists>rest. t = posix (r @ rest))"

definition write_admitted :: "path list \<Rightarrow> jsstr \<Rightarrow> bool" where
  "write_admitted targets t \<longleftrightarrow>
     targets = [] \<or> (\<exists>p\<in>set targets. t = posix p \<or> t = posix (temporary_of p))"

definition confined :: "host_config \<Rightarrow> 'fs host_state \<Rightarrow> bool" where
  "confined cfg st \<longleftrightarrow>
     list_all (under_roots (hc_readRoots cfg)) (hs_reads st) \<and>
     list_all (under_roots (hc_moduleRoots cfg)) (hs_moduleLoads st) \<and>
     list_all (write_admitted (hc_writeTargets cfg)) (hs_writes st)"

lemma confined_other [simp]:
  "confined cfg (st\<lparr>hs_refusedReads := a\<rparr>) = confined cfg st"
  "confined cfg (st\<lparr>hs_refusedModules := a\<rparr>) = confined cfg st"
  "confined cfg (st\<lparr>hs_refusedWrites := a\<rparr>) = confined cfg st"
  "confined cfg (st\<lparr>hs_fs := fs\<rparr>) = confined cfg st"
  by (simp_all add: confined_def)

text \<open>A read call that records nothing but refusals keeps the file system and the invariant.\<close>

definition quiet :: "'fs host_state \<Rightarrow> 'fs host_state \<Rightarrow> bool" where
  "quiet st st' \<longleftrightarrow> (\<exists>a. st' = st\<lparr>hs_refusedReads := a\<rparr>)"

lemma quiet_refl [simp]: "quiet st st"
  by (auto simp: quiet_def intro: exI [of _ "hs_refusedReads st"])

lemma quiet_refused [simp]: "quiet st (st\<lparr>hs_refusedReads := a\<rparr>)"
  by (auto simp: quiet_def)

lemma quiet_trans: "quiet st st' \<Longrightarrow> quiet st' st'' \<Longrightarrow> quiet st st''"
  by (auto simp: quiet_def)

lemma quiet_confined: "quiet st st' \<Longrightarrow> confined cfg st' = confined cfg st"
  by (auto simp: quiet_def)

lemma quiet_fs: "quiet st st' \<Longrightarrow> hs_fs st' = hs_fs st"
  by (auto simp: quiet_def)

lemma allowRead_cases:
  obtains (allowed) r where "allowRead os cfg p st = (Inr (realOf os (hs_fs st) p), st)"
      "r \<in> set (hc_readRoots cfg)" "within_root r (realOf os (hs_fs st) p)"
    | (refused) e st' where "allowRead os cfg p st = (Inl e, st')" "quiet st st'"
  by (cases "list_ex (\<lambda>r. within_root r (realOf os (hs_fs st) p)) (hc_readRoots cfg)")
    (auto simp: allowRead_def Let_def list_ex_iff intro: that)

lemma on_allowed_quiet:
  assumes "\<And>q. quiet st (snd (f q st))"
  shows "quiet st (snd (on_allowed os cfg p f st))"
  by (cases rule: allowRead_cases [of os cfg p st]) (simp_all add: on_allowed_def assms)

lemma exists_quiet: "quiet st (snd (exists_at os cfg p st))"
  unfolding exists_at_def by (rule on_allowed_quiet) simp

lemma isDirectory_quiet: "quiet st (snd (isDirectory os cfg p st))"
  unfolding isDirectory_def by (rule on_allowed_quiet) simp

lemma readDir_quiet: "quiet st (snd (readDir os cfg p st))"
  unfolding readDir_def by (rule on_allowed_quiet) simp

lemma sizeOf_quiet: "quiet st (snd (sizeOf os cfg p st))"
proof -
  have "quiet st (snd (on_allowed os cfg p (\<lambda>q st. (thrown (os_size os (hs_fs st) q), st)) st))"
    by (rule on_allowed_quiet) simp
  then show ?thesis by (auto simp: sizeOf_def split: prod.split sum.split)
qed

lemma and_then_quiet:
  assumes "and_then m f = Some (r, st')"
    and "\<And>r1 st1. m = Some (r1, st1) \<Longrightarrow> quiet st st1"
    and "\<And>x st1. m = Some (Inr x, st1) \<Longrightarrow> f x st1 = Some (r, st') \<Longrightarrow> quiet st1 st'"
  shows "quiet st st'"
proof (cases m)
  case (Some p)
  obtain r1 st1 where m: "m = Some (r1, st1)" using Some by (cases p) simp
  show ?thesis
  proof (cases r1)
    case (Inl e)
    then show ?thesis using assms(1,2) m by (simp add: and_then_def)
  next
    case (Inr x)
    then have "f x st1 = Some (r, st')" using assms(1) m by (simp add: and_then_def)
    then show ?thesis using assms(2,3) m Inr quiet_trans by blast
  qed
qed (use assms(1) in \<open>simp add: and_then_def\<close>)

lemma walk_entries_quiet:
  "walk_entries os cfg base fuel current ns acc st = Some (r, st') \<Longrightarrow> quiet st st'"
proof (induction fuel ns arbitrary: current acc st r st' rule: fuel_list_induct)
  case (Cons fuel n ns)
  let ?c = "resolve_path current n"
  from Cons.prems [unfolded walk_entries.simps(2)] show ?case
  proof (rule and_then_quiet)
    show "quiet st st1" if "Some (isDirectory os cfg ?c st) = Some (d, st1)" for d st1
      using isDirectory_quiet [of st os cfg ?c] that by simp
  next
    fix directory st1
    assume s: "(if \<not> directory then
         walk_entries os cfg base fuel current ns (fst acc, snd acc @ [toPosix (relative_text base ?c)]) st1
       else if realOf os (hs_fs st1) ?c \<in> set (fst acc) then
         walk_entries os cfg base fuel current ns acc st1
       else (case fuel of
           0 \<Rightarrow> None
         | Suc f \<Rightarrow>
             and_then (Some (readDir os cfg ?c st1)) (\<lambda>names st2.
               and_then (walk_entries os cfg base f ?c names (fst acc @ [realOf os (hs_fs st1) ?c], snd acc) st2)
                 (\<lambda>acc' st3. walk_entries os cfg base fuel current ns acc' st3)))) = Some (r, st')"
    show "quiet st1 st'"
    proof (cases "directory \<and> realOf os (hs_fs st1) ?c \<notin> set (fst acc)")
      case True
      then obtain f where f: "fuel = Suc f" using s by (cases fuel) auto
      have "and_then (Some (readDir os cfg ?c st1)) (\<lambda>names st2.
               and_then (walk_entries os cfg base f ?c names (fst acc @ [realOf os (hs_fs st1) ?c], snd acc) st2)
                 (\<lambda>acc' st3. walk_entries os cfg base fuel current ns acc' st3)) = Some (r, st')"
        using s True f by simp
      then show ?thesis
      proof (rule and_then_quiet)
        show "quiet st1 st2" if "Some (readDir os cfg ?c st1) = Some (ks, st2)" for ks st2
          using readDir_quiet [of st1 os cfg ?c] that by simp
      next
        fix names st2
        assume "and_then (walk_entries os cfg base f ?c names (fst acc @ [realOf os (hs_fs st1) ?c], snd acc) st2)
          (\<lambda>acc' st3. walk_entries os cfg base fuel current ns acc' st3) = Some (r, st')"
        then show "quiet st2 st'" by (rule and_then_quiet) (use Cons.IH f in blast)+
      qed
    next
      case False
      then show ?thesis using s Cons.IH(1) by (auto split: if_splits)
    qed
  qed
qed simp

lemma walk_dir_quiet: "walk_dir fuel os cfg p base st = Some (r, st') \<Longrightarrow> quiet st st'"
  unfolding walk_dir_def
proof (erule and_then_quiet)
  show "quiet st st1" if "Some (isDirectory os cfg p st) = Some (d, st1)" for d st1
    using isDirectory_quiet [of st os cfg p] that by simp
next
  fix directory st1
  assume "(if \<not> directory then Some (Inr [], st1)
       else and_then (Some (readDir os cfg p st1)) (\<lambda>names st2.
         and_then (walk_entries os cfg base fuel p names ([realOf os (hs_fs st1) p], []) st2)
           (\<lambda>acc st3. Some (Inr (sort_on (\<lambda>t. t) (snd acc)), st3)))) = Some (r, st')"
  then show "quiet st1 st'"
  proof (cases directory)
    case True
    assume "(if \<not> directory then Some (Inr [], st1)
       else and_then (Some (readDir os cfg p st1)) (\<lambda>names st2.
         and_then (walk_entries os cfg base fuel p names ([realOf os (hs_fs st1) p], []) st2)
           (\<lambda>acc st3. Some (Inr (sort_on (\<lambda>t. t) (snd acc)), st3)))) = Some (r, st')"
    then have "and_then (Some (readDir os cfg p st1)) (\<lambda>names st2.
         and_then (walk_entries os cfg base fuel p names ([realOf os (hs_fs st1) p], []) st2)
           (\<lambda>acc st3. Some (Inr (sort_on (\<lambda>t. t) (snd acc)), st3))) = Some (r, st')"
      using True by simp
    then show ?thesis
    proof (rule and_then_quiet)
      show "quiet st1 st2" if "Some (readDir os cfg p st1) = Some (ks, st2)" for ks st2
        using readDir_quiet [of st1 os cfg p] that by simp
    qed (erule and_then_quiet, use walk_entries_quiet in blast, simp)
  qed simp
qed

section \<open>Every step keeps the invariant\<close>

lemma read_confined: "readBytes os cfg p st = (r, st') \<Longrightarrow> confined cfg st \<Longrightarrow> confined cfg st'"
proof (cases rule: allowRead_cases [of os cfg p st])
  case (allowed root)
  assume s: "readBytes os cfg p st = (r, st')" and c: "confined cfg st"
  obtain rest where "realOf os (hs_fs st) p = root @ rest" using within_prefix [OF allowed(3)] by blast
  then have "under_roots (hc_readRoots cfg) (posix (realOf os (hs_fs st) p))"
    using allowed(2) by (auto simp: under_roots_def)
  moreover have "st' = st\<lparr>hs_reads := hs_reads st @ [posix (realOf os (hs_fs st) p)]\<rparr>"
    using s allowed(1) by (auto simp: readBytes_def on_allowed_def)
  ultimately show ?thesis using c by (simp add: confined_def)
next
  case (refused e st1)
  assume "readBytes os cfg p st = (r, st')" and "confined cfg st"
  then show ?thesis using refused quiet_confined by (auto simp: readBytes_def on_allowed_def)
qed

lemma module_confined: "noteModuleLoad os cfg p st = (r, st') \<Longrightarrow> confined cfg st \<Longrightarrow> confined cfg st'"
proof (cases "mayLoadModule os cfg p st")
  case True
  assume s: "noteModuleLoad os cfg p st = (r, st')" and c: "confined cfg st"
  obtain root where root: "root \<in> set (hc_moduleRoots cfg)" "within_root root (realOf os (hs_fs st) p)"
    using True by (auto simp: mayLoadModule_def list_ex_iff)
  then obtain rest where "realOf os (hs_fs st) p = root @ rest" using within_prefix by blast
  then have "under_roots (hc_moduleRoots cfg) (posix (realOf os (hs_fs st) p))"
    using root(1) by (auto simp: under_roots_def)
  then show ?thesis using s c True by (auto simp: noteModuleLoad_def Let_def confined_def)
qed (auto simp: noteModuleLoad_def Let_def)

lemma write_confined: "writeFile os cfg p b st = (r, st') \<Longrightarrow> confined cfg st \<Longrightarrow> confined cfg st'"
proof -
  assume s: "writeFile os cfg p b st = (r, st')" and c: "confined cfg st"
  show ?thesis
  proof (cases "hc_writeTargets cfg \<noteq> [] \<and> p \<notin> set (hc_writeTargets cfg)")
    case True
    then show ?thesis using s c by (auto simp: writeFile_def)
  next
    case False
    then have "write_admitted (hc_writeTargets cfg) (posix p)"
      "write_admitted (hc_writeTargets cfg) (posix (temporary_of p))"
      by (auto simp: write_admitted_def)
    then show ?thesis using s c False
      by (auto simp: writeFile_def confined_def split: option.splits if_splits)
  qed
qed

lemma step_confined: "host_step os cfg st st' \<Longrightarrow> confined cfg st \<Longrightarrow> confined cfg st'"
proof (induction rule: host_step.induct)
  case (step_read p st r st')
  then show ?case by (rule read_confined)
next
  case (step_module p st u st')
  then show ?case by (rule module_confined)
next
  case (step_write p b st u st')
  then show ?case by (rule write_confined)
next
  case (step_size p st n st')
  then show ?case using quiet_confined sizeOf_quiet by (metis snd_conv)
next
  case (step_exists p st b st')
  then show ?case using quiet_confined exists_quiet by (metis snd_conv)
next
  case (step_directory p st b st')
  then show ?case using quiet_confined isDirectory_quiet by (metis snd_conv)
next
  case (step_names p st ns st')
  then show ?case using quiet_confined readDir_quiet by (metis snd_conv)
next
  case (step_walk fuel p base st ns st')
  then show ?case using quiet_confined walk_dir_quiet by blast
qed

lemma run_confined: "(host_step os cfg)\<^sup>*\<^sup>* st st' \<Longrightarrow> confined cfg st \<Longrightarrow> confined cfg st'"
  by (induction rule: rtranclp_induct) (auto intro: step_confined)

section \<open>Reads see nothing outside the roots\<close>

text \<open>
  Two file systems with the same links, everywhere, that agree on every path under a read root; a
  directory may list its names in different orders.
\<close>

definition same_inside :: "host_config \<Rightarrow> 'fs \<Rightarrow> 'fs os \<Rightarrow> 'fs os \<Rightarrow> bool" where
  "same_inside cfg fs os os' \<longleftrightarrow>
     os_realpath os fs = os_realpath os' fs \<and>
     (\<forall>r\<in>set (hc_readRoots cfg). \<forall>rest.
        os_read os fs (r @ rest) = os_read os' fs (r @ rest) \<and>
        os_exists os fs (r @ rest) = os_exists os' fs (r @ rest) \<and>
        os_isDirectory os fs (r @ rest) = os_isDirectory os' fs (r @ rest) \<and>
        os_size os fs (r @ rest) = os_size os' fs (r @ rest) \<and>
        map_option mset (os_readdir os fs (r @ rest)) = map_option mset (os_readdir os' fs (r @ rest)))"

lemma same_realOf: "same_inside cfg fs os os' \<Longrightarrow> realOf os fs = realOf os' fs"
  by (simp add: same_inside_def realOf_def fun_eq_iff)

lemma same_on_allowed:
  assumes s: "same_inside cfg (hs_fs st) os os'"
    and f: "\<And>r rest. r \<in> set (hc_readRoots cfg) \<Longrightarrow> f (r @ rest) st = f' (r @ rest) st"
  shows "on_allowed os cfg p f st = on_allowed os' cfg p f' st"
proof -
  have a: "allowRead os cfg p st = allowRead os' cfg p st"
    using same_realOf [OF s] by (simp add: allowRead_def)
  show ?thesis
  proof (cases rule: allowRead_cases [of os cfg p st])
    case (allowed r)
    then show ?thesis using a f within_prefix [OF allowed(3)] by (auto simp: on_allowed_def)
  next
    case (refused e st')
    then show ?thesis using a by (simp add: on_allowed_def)
  qed
qed

lemma same_readBytes: "same_inside cfg (hs_fs st) os os' \<Longrightarrow> readBytes os cfg p st = readBytes os' cfg p st"
  unfolding readBytes_def by (rule same_on_allowed) (auto simp: same_inside_def)

lemma same_exists: "same_inside cfg (hs_fs st) os os' \<Longrightarrow> exists_at os cfg p st = exists_at os' cfg p st"
  unfolding exists_at_def by (rule same_on_allowed) (auto simp: same_inside_def)

lemma same_isDirectory: "same_inside cfg (hs_fs st) os os' \<Longrightarrow> isDirectory os cfg p st = isDirectory os' cfg p st"
  unfolding isDirectory_def by (rule same_on_allowed) (auto simp: same_inside_def)

lemma same_sizeOf: "same_inside cfg (hs_fs st) os os' \<Longrightarrow> sizeOf os cfg p st = sizeOf os' cfg p st"
proof -
  assume s: "same_inside cfg (hs_fs st) os os'"
  have "on_allowed os cfg p (\<lambda>q st. (thrown (os_size os (hs_fs st) q), st)) st =
      on_allowed os' cfg p (\<lambda>q st. (thrown (os_size os' (hs_fs st) q), st)) st"
    by (rule same_on_allowed [OF s]) (use s in \<open>auto simp: same_inside_def\<close>)
  then show ?thesis by (simp add: sizeOf_def)
qed

text \<open>Sorting makes the listing order irrelevant.\<close>

lemma sort_names_eq: "mset ns = mset ns' \<Longrightarrow> sort_on (\<lambda>n. n) ns = sort_on (\<lambda>n. n) ns'"
  by (rule sort_on_perm) simp_all

lemma sorted_listing:
  assumes "map_option mset a = map_option mset b"
  shows "map_option (\<lambda>ns. g (sort_on (\<lambda>n. n) ns)) a = map_option (\<lambda>ns. g (sort_on (\<lambda>n. n) ns)) b"
proof (cases a)
  case (Some ns)
  then obtain ns' where "b = Some ns'" "mset ns = mset ns'" using assms by (cases b) simp_all
  then show ?thesis using Some sort_names_eq [of ns ns'] by simp
qed (use assms in simp)

lemma same_readDir:
  assumes s: "same_inside cfg (hs_fs st) os os'"
  shows "readDir os cfg p st = readDir os' cfg p st"
  unfolding readDir_def Let_def
proof (rule same_on_allowed [OF s])
  fix r rest
  assume "r \<in> set (hc_readRoots cfg)"
  then have "map_option mset (os_readdir os (hs_fs st) (r @ rest)) =
      map_option mset (os_readdir os' (hs_fs st) (r @ rest))"
    using s by (simp add: same_inside_def)
  from sorted_listing [OF this, of "\<lambda>ns. if hc_descending cfg then rev ns else ns"]
  show "(thrown (map_option (\<lambda>names. if hc_descending cfg then rev (sort_on (\<lambda>n. n) names)
          else sort_on (\<lambda>n. n) names) (os_readdir os (hs_fs st) (r @ rest))), st) =
      (thrown (map_option (\<lambda>names. if hc_descending cfg then rev (sort_on (\<lambda>n. n) names)
          else sort_on (\<lambda>n. n) names) (os_readdir os' (hs_fs st) (r @ rest))), st)"
    by simp
qed

lemma and_then_eq:
  assumes "m = m'" and "\<And>x st1. m = Some (Inr x, st1) \<Longrightarrow> f x st1 = f' x st1"
  shows "and_then m f = and_then m' f'"
  using assms by (cases m) (auto simp: and_then_def split: sum.splits)

lemma quiet_fs_of: "isDirectory os cfg p st = (r, st1) \<Longrightarrow> hs_fs st1 = hs_fs st"
  "readDir os cfg p st = (ns, st1) \<Longrightarrow> hs_fs st1 = hs_fs st"
  using isDirectory_quiet [of st os cfg p] readDir_quiet [of st os cfg p] quiet_fs by auto

lemma same_after_readDir:
  assumes s: "same_inside cfg (hs_fs st) os os'"
    and g: "\<And>names st2. hs_fs st2 = hs_fs st \<Longrightarrow> g names st2 = g' names st2"
  shows "and_then (Some (readDir os cfg p st)) g = and_then (Some (readDir os' cfg p st)) g'"
proof (rule and_then_eq)
  show "Some (readDir os cfg p st) = Some (readDir os' cfg p st)" using same_readDir [OF s] by simp
  show "g names st2 = g' names st2" if "Some (readDir os cfg p st) = Some (Inr names, st2)" for names st2
    using g quiet_fs_of(2) that by blast
qed

lemma same_walk_entries:
  "same_inside cfg (hs_fs st) os os' \<Longrightarrow>
     walk_entries os cfg base fuel current ns acc st = walk_entries os' cfg base fuel current ns acc st"
proof (induction fuel ns arbitrary: current acc st rule: fuel_list_induct)
  case (Cons fuel n ns)
  let ?c = "resolve_path current n"
  have IH: "walk_entries os cfg base fuel d ns a st1 = walk_entries os' cfg base fuel d ns a st1"
    if "hs_fs st1 = hs_fs st" for d a st1
    using Cons.IH(1) Cons.prems that by simp
  have inner: "and_then (walk_entries os cfg base f ?c names a st2) (\<lambda>b st3. walk_entries os cfg base fuel current ns b st3) =
      and_then (walk_entries os' cfg base f ?c names a st2) (\<lambda>b st3. walk_entries os' cfg base fuel current ns b st3)"
    if f: "fuel = Suc f" "hs_fs st2 = hs_fs st" for f names a st2
  proof (rule and_then_eq)
    show "walk_entries os cfg base f ?c names a st2 = walk_entries os' cfg base f ?c names a st2"
      using Cons.IH(2) [OF f(1)] Cons.prems f(2) by simp
    show "walk_entries os cfg base fuel current ns b st3 = walk_entries os' cfg base fuel current ns b st3"
      if "walk_entries os cfg base f ?c names a st2 = Some (Inr b, st3)" for b st3
      using IH quiet_fs [OF walk_entries_quiet [OF that]] f(2) by simp
  qed
  show ?case
    unfolding walk_entries.simps(2)
  proof (rule and_then_eq, goal_cases)
    case 1
    then show ?case using same_isDirectory [OF Cons.prems] by simp
  next
    case (2 directory st1)
    then have f1: "hs_fs st1 = hs_fs st" using quiet_fs_of(1) by blast
    then have s1: "same_inside cfg (hs_fs st1) os os'" using Cons.prems by simp
    show ?case
    proof (cases "directory \<and> realOf os (hs_fs st1) ?c \<notin> set (fst acc)")
      case True
      then show ?thesis
      proof (cases fuel)
        case (Suc f)
        then show ?thesis
          using True same_realOf [OF s1] by (auto intro!: same_after_readDir [OF s1] inner [unfolded Suc] simp: f1)
      qed (use same_realOf [OF s1] in simp)
    next
      case False
      then show ?thesis using IH [OF f1] same_realOf [OF s1] by auto
    qed
  qed
qed simp

lemma same_walk_dir:
  assumes s: "same_inside cfg (hs_fs st) os os'"
  shows "walk_dir fuel os cfg p base st = walk_dir fuel os' cfg p base st"
  unfolding walk_dir_def
proof (rule and_then_eq, goal_cases)
  case 1
  then show ?case using same_isDirectory [OF s] by simp
next
  case (2 directory st1)
  then have s1: "same_inside cfg (hs_fs st1) os os'" using quiet_fs_of(1) s by fastforce
  have "and_then (Some (readDir os cfg p st1)) (\<lambda>names st2.
      and_then (walk_entries os cfg base fuel p names a st2) g) =
    and_then (Some (readDir os' cfg p st1)) (\<lambda>names st2.
      and_then (walk_entries os' cfg base fuel p names a st2) g)" for a and g :: "_ \<Rightarrow> _ \<Rightarrow> ('a, jsstr list) outcome option"
    by (rule same_after_readDir [OF s1]) (use s1 same_walk_entries in \<open>metis (no_types)\<close>)
  then show ?case using same_realOf [OF s1] by simp
qed

section \<open>The walk ends\<close>

lemma and_then_simps [simp]:
  "and_then (Some (Inr x, st)) f = f x st" "and_then (Some (Inl e, st)) f = Some (Inl e, st)"
  by (simp_all add: and_then_def)

lemma and_then_some:
  "and_then m f = Some (Inr y, st') \<longleftrightarrow> (\<exists>x st1. m = Some (Inr x, st1) \<and> f x st1 = Some (Inr y, st'))"
  by (auto simp: and_then_def split: option.split sum.split)

lemma and_then_none:
  "and_then m f = None \<longleftrightarrow> m = None \<or> (\<exists>x st1. m = Some (Inr x, st1) \<and> f x st1 = None)"
  by (auto simp: and_then_def split: option.split sum.split)

lemma walk_entries_grow:
  "walk_entries os cfg base fuel current ns acc st = Some (Inr acc', st') \<Longrightarrow> set (fst acc) \<subseteq> set (fst acc')"
proof (induction fuel ns arbitrary: current acc st acc' st' rule: fuel_list_induct)
  case (Cons fuel n ns)
  let ?c = "resolve_path current n"
  obtain directory st1 where d: "isDirectory os cfg ?c st = (Inr directory, st1)"
    using Cons.prems by (auto simp: and_then_some)
  show ?case
  proof (cases "directory \<and> realOf os (hs_fs st1) ?c \<notin> set (fst acc)")
    case True
    then obtain f where f: "fuel = Suc f" using Cons.prems d by (cases fuel) (auto simp: and_then_def)
    then obtain names st2 a st3 where w:
      "walk_entries os cfg base f ?c names (fst acc @ [realOf os (hs_fs st1) ?c], snd acc) st2 = Some (Inr a, st3)"
      "walk_entries os cfg base fuel current ns a st3 = Some (Inr acc', st')"
      using Cons.prems d True by (auto simp: and_then_some)
    show ?thesis using Cons.IH(2) [OF f w(1)] Cons.IH(1) [OF w(2)] by auto
  next
    case False
    then have "\<exists>out. walk_entries os cfg base fuel current ns (fst acc, out) st1 = Some (Inr acc', st')"
      using Cons.prems d by (cases directory) (auto, metis prod.collapse)
    then show ?thesis using Cons.IH(1) by fastforce
  qed
qed simp

definition unwalked :: "path list \<Rightarrow> path list \<times> jsstr list \<Rightarrow> nat" where
  "unwalked dirs acc = card (set dirs - set (fst acc))"

lemma unwalked_less: "d \<in> set dirs \<Longrightarrow> d \<notin> set (fst acc) \<Longrightarrow> unwalked dirs (fst acc @ [d], out) < unwalked dirs acc"
  unfolding unwalked_def by (intro psubset_card_mono) auto

lemma unwalked_mono: "set (fst acc) \<subseteq> set (fst acc') \<Longrightarrow> unwalked dirs acc' \<le> unwalked dirs acc"
  unfolding unwalked_def by (intro card_mono) auto

lemma isDirectory_real:
  "isDirectory os cfg p st = (Inr True, st1) \<Longrightarrow> os_isDirectory os (hs_fs st) (realOf os (hs_fs st) p) = Some True"
  by (cases rule: allowRead_cases [of os cfg p st]) (auto simp: isDirectory_def on_allowed_def)

lemma walk_entries_end:
  assumes dirs: "\<And>p. os_isDirectory os fs p = Some True \<Longrightarrow> p \<in> set dirs"
  shows "hs_fs st = fs \<Longrightarrow> unwalked dirs acc \<le> fuel \<Longrightarrow>
    walk_entries os cfg base fuel current ns acc st \<noteq> None"
proof (induction fuel ns arbitrary: current acc st rule: fuel_list_induct)
  case (Cons fuel n ns)
  let ?c = "resolve_path current n"
  obtain r st1 where d: "isDirectory os cfg ?c st = (r, st1)" by fastforce
  have f1: "hs_fs st1 = fs" using quiet_fs_of(1) [OF d] Cons.prems(1) by simp
  show ?case
  proof (cases "r = Inr True \<and> realOf os fs ?c \<notin> set (fst acc)")
    case True
    then have "realOf os fs ?c \<in> set dirs" using isDirectory_real [of os cfg ?c st st1] d Cons.prems(1) dirs by simp
    then obtain f where f: "fuel = Suc f" "unwalked dirs (fst acc @ [realOf os fs ?c], snd acc) \<le> f"
      using unwalked_less [of "realOf os fs ?c" dirs acc "snd acc"] True Cons.prems(2) by (cases fuel) auto
    have "and_then (walk_entries os cfg base f ?c names (fst acc @ [realOf os fs ?c], snd acc) st2)
        (\<lambda>acc' st3. walk_entries os cfg base fuel current ns acc' st3) \<noteq> None"
      if n: "readDir os cfg ?c st1 = (Inr names, st2)" for names st2
    proof -
      have f2: "hs_fs st2 = fs" using quiet_fs_of(2) [OF n] f1 by simp
      have "walk_entries os cfg base fuel current ns acc' st3 \<noteq> None"
        if w: "walk_entries os cfg base f ?c names (fst acc @ [realOf os fs ?c], snd acc) st2 = Some (Inr acc', st3)"
        for acc' st3
      proof (rule Cons.IH(1))
        show "hs_fs st3 = fs" using quiet_fs [OF walk_entries_quiet [OF w]] f2 by simp
        show "unwalked dirs acc' \<le> fuel"
          using unwalked_mono [OF walk_entries_grow [OF w], of dirs] f by simp
      qed
      then show ?thesis using Cons.IH(2) [OF f(1) f2 f(2)] by (auto simp: and_then_none)
    qed
    then have "and_then (Some (readDir os cfg ?c st1)) (\<lambda>names st2.
        and_then (walk_entries os cfg base f ?c names (fst acc @ [realOf os fs ?c], snd acc) st2)
          (\<lambda>acc' st3. walk_entries os cfg base fuel current ns acc' st3)) \<noteq> None"
      unfolding and_then_none [of "Some (readDir os cfg ?c st1)"] by blast
    then show ?thesis using d True f(1) f1 by simp
  next
    case False
    then show ?thesis
      using d f1 Cons.IH(1) [OF f1] Cons.prems(2) by (auto simp: and_then_none unwalked_def)
  qed
qed simp

lemma walk_dir_ends:
  assumes "\<And>p. os_isDirectory os (hs_fs st) p = Some True \<Longrightarrow> p \<in> set dirs" and "length dirs \<le> fuel"
  shows "walk_dir fuel os cfg p base st \<noteq> None"
proof -
  have "unwalked dirs acc \<le> fuel" for acc
    unfolding unwalked_def
    by (meson assms(2) card_length card_mono Diff_subset List.finite_set order_trans)
  then have "walk_entries os cfg base fuel p names acc st2 \<noteq> None" if "hs_fs st2 = hs_fs st" for names acc st2
    using walk_entries_end [where dirs = dirs, OF assms(1) that] by blast
  note ends = this
  have "and_then (Some (readDir os cfg p st1)) (\<lambda>names st2.
      and_then (walk_entries os cfg base fuel p names acc st2)
        (\<lambda>acc st3. Some (Inr (sort_on (\<lambda>t. t) (snd acc)), st3))) \<noteq> None"
    if f1: "hs_fs st1 = hs_fs st" for st1 acc
  proof -
    have "walk_entries os cfg base fuel p names acc st2 \<noteq> None" if "readDir os cfg p st1 = (r, st2)" for names r st2
      using ends quiet_fs_of(2) [OF that] f1 by simp
    then show ?thesis unfolding and_then_none by blast
  qed
  note nested = this
  obtain r st1 where d: "isDirectory os cfg p st = (r, st1)" by fastforce
  from nested [OF quiet_fs_of(1) [OF d]] show ?thesis
    by (cases r) (auto simp: walk_dir_def d)
qed

section \<open>Properties\<close>

text \<open>
  C19. In every state a host reaches from its creation by any calls on any file system, every
  recorded read lies under a read root and every recorded module load under a module root, after
  symbolic links; and where write targets were named, every recorded write is a target or its
  \<open>.tmp\<close> sibling.
\<close>

theorem host_confined:
  assumes "createHost cwd readRoots moduleRoots writeTargets descending fs = Inr (cfg, st)"
    and "(host_step os cfg)\<^sup>*\<^sup>* st st'"
  shows "confined cfg st'"
proof -
  have "confined cfg st" using assms(1) by (auto simp: createHost_def confined_def split: if_splits)
  then show ?thesis by (rule run_confined [OF assms(2)])
qed

text \<open>A file system that is a list of files, without links.\<close>

type_synonym files = "(path \<times> bytes) list"

definition demo_os :: "files os" where
  "demo_os = \<lparr>os_realpath = \<lambda>fs p. None, os_read = map_of, os_exists = \<lambda>fs p. map_of fs p \<noteq> None,
     os_isDirectory = \<lambda>fs p. Some (map_of fs p = None), os_size = \<lambda>fs p. map_option length (map_of fs p),
     os_readdir = \<lambda>fs p. Some (map (last \<circ> fst) (filter (\<lambda>f. butlast (fst f) = p) fs)),
     os_mkdir = \<lambda>fs p. Some fs, os_write = \<lambda>fs p b. Some (AList.update p b fs),
     os_rename = \<lambda>fs a b. map_option (\<lambda>c. AList.update b c (AList.delete a fs)) (map_of fs a)\<rparr>"

definition demo_files :: files where
  "demo_files = [([js ''src'', js ''b''], [2]), ([js ''src'', js ''a''], [1]), ([js ''etc'', js ''key''], [9])]"

definition demo_host :: "host_error + host_config \<times> files host_state" where
  "demo_host = createHost [] [js ''/src''] [] [js ''/out''] False demo_files"

definition demo_config :: host_config where
  "demo_config = \<lparr>hc_readRoots = [[js ''src'']], hc_moduleRoots = [], hc_writeTargets = [[js ''out'']],
     hc_descending = False\<rparr>"

definition demo_start :: "files host_state" where
  "demo_start = \<lparr>hs_fs = demo_files, hs_reads = [], hs_refusedReads = [], hs_moduleLoads = [],
     hs_refusedModules = [], hs_writes = [], hs_refusedWrites = []\<rparr>"

lemma demo_created: "demo_host = Inr (demo_config, demo_start)"
  by code_simp

definition demo_end :: "files host_state" where
  "demo_end = snd (writeFile demo_os demo_config [js ''out''] [7]
     (snd (readBytes demo_os demo_config [js ''etc'', js ''key'']
       (snd (readBytes demo_os demo_config [js ''src'', js ''a''] demo_start)))))"

lemma demo_steps: "(host_step demo_os demo_config)\<^sup>*\<^sup>* demo_start demo_end"
  unfolding demo_end_def
  by (rule rtranclp.rtrancl_into_rtrancl [OF rtranclp.rtrancl_into_rtrancl [OF rtranclp.rtrancl_into_rtrancl
        [OF rtranclp.rtrancl_refl]]])
    (rule step_read [OF prod.collapse [symmetric]] step_write [OF prod.collapse [symmetric]])+

lemma demo_record:
  "hs_reads demo_end = [js ''/src/a''] \<and> hs_refusedReads demo_end = [js ''/etc/key''] \<and>
   hs_writes demo_end = [js ''/out'', js ''/out.tmp''] \<and> map_of (hs_fs demo_end) [js ''out''] = Some [7]"
  by code_simp

theorem host_confined_witness: "confined demo_config demo_end"
  by (rule host_confined [OF demo_created [unfolded demo_host_def] demo_steps])

text \<open>
  C20. Where the links lead is all the host sees of what is outside the read roots. Two file systems in
  which every path, inside the roots or outside, has the same real path, and which agree on the content
  of every path under a root, answer every read, size, existence and directory call and every walk
  alike, and leave the same record, also when they list the names of a directory in different orders.
\<close>

theorem reads_see_only_roots:
  assumes "same_inside cfg (hs_fs st) os os'"
  shows "readBytes os cfg p st = readBytes os' cfg p st \<and> sizeOf os cfg p st = sizeOf os' cfg p st \<and>
    exists_at os cfg p st = exists_at os' cfg p st \<and> isDirectory os cfg p st = isDirectory os' cfg p st \<and>
    readDir os cfg p st = readDir os' cfg p st \<and>
    walk_dir fuel os cfg p base st = walk_dir fuel os' cfg p base st"
  using assms
  by (intro conjI same_readBytes same_sizeOf same_exists same_isDirectory same_readDir same_walk_dir)

definition other_os :: "files os" where
  "other_os = demo_os\<lparr>os_read := \<lambda>fs p. if take 1 p = [js ''src''] then map_of fs p else Some [],
     os_readdir := \<lambda>fs p. map_option rev (os_readdir demo_os fs p)\<rparr>"

lemma demo_same: "same_inside demo_config demo_files demo_os other_os"
  by (simp add: same_inside_def demo_config_def other_os_def demo_os_def)

theorem reads_see_only_roots_witness:
  "readDir demo_os demo_config [js ''src''] demo_start = readDir other_os demo_config [js ''src''] demo_start"
  using reads_see_only_roots [of demo_config demo_start demo_os other_os] demo_same
  by (simp add: demo_start_def)

text \<open>
  Where a directory is a link to another, the walk names its files after whichever is met first, so
  the enumeration order of the host does reach the result.
\<close>

definition linked_os :: "unit os" where
  "linked_os = \<lparr>os_realpath = \<lambda>fs p. if p = [js ''r'', js ''b''] then Some [js ''r'', js ''a''] else Some p,
     os_read = \<lambda>fs p. Some [], os_exists = \<lambda>fs p. True,
     os_isDirectory = \<lambda>fs p. Some (p \<in> {[js ''r''], [js ''r'', js ''a'']}), os_size = \<lambda>fs p. Some 0,
     os_readdir = \<lambda>fs p. Some (if p = [js ''r''] then [js ''a'', js ''b''] else [js ''x'']),
     os_mkdir = \<lambda>fs p. Some fs, os_write = \<lambda>fs p b. Some fs, os_rename = \<lambda>fs a b. Some fs\<rparr>"

definition linked_walk :: "bool \<Rightarrow> host_error + jsstr list" where
  "linked_walk descending =
     (case walk_dir 2 linked_os \<lparr>hc_readRoots = [[js ''r'']], hc_moduleRoots = [], hc_writeTargets = [],
        hc_descending = descending\<rparr> [js ''r''] [js ''r'']
        \<lparr>hs_fs = (), hs_reads = [], hs_refusedReads = [], hs_moduleLoads = [], hs_refusedModules = [],
          hs_writes = [], hs_refusedWrites = []\<rparr> of
        None \<Rightarrow> Inl IoError
      | Some r \<Rightarrow> fst r)"

lemma enumeration_order_shows:
  "linked_walk False = Inr [js ''a/x''] \<and> linked_walk True = Inr [js ''b/x'']"
  by code_simp

end
