(* ===== verification/CompatNumeric.thy ===== *)
theory CompatNumeric
  imports Canonical Operands Results
begin

text \<open>
  The first part of \<open>src/src/compiler/compat/diff.mjs\<close>: the ranking of dispositions, the
  comparison of two documents' values by their canonical text, and the classification of numeric
  changes (integer ranges, decimal limits and policies, exact bounds, effective numeric subjects,
  scalars, multiplicities, additions). A disposition the code returns as \<open>undefined\<close> is \<open>None\<close>. An
  exception is a left value: the canonicaliser's own, the \<open>TypeError\<close> of a member read on \<open>null\<close>
  or \<open>undefined\<close> and of an iteration over a value that is not iterable, or the
  \<open>ContractRefusalError\<close> with its diagnostic.
\<close>

datatype thrown = CanonThrew canon_error | TypeThrew | ContractRefusal diag

section \<open>Dispositions\<close>

datatype disposition = Patch | Additive | Conditional | UnknownEvidence | Breaking | Invalid

definition DISPOSITION_RANK :: "(string \<times> disposition) list" where
  "DISPOSITION_RANK =
     [(''patch'', Patch), (''additive'', Additive), (''conditional'', Conditional),
      (''unknown'', UnknownEvidence), (''breaking'', Breaking), (''invalid'', Invalid)]"

primrec disposition_rank :: "disposition \<Rightarrow> nat" where
  "disposition_rank Patch = 0"
| "disposition_rank Additive = 1"
| "disposition_rank Conditional = 2"
| "disposition_rank UnknownEvidence = 3"
| "disposition_rank Breaking = 4"
| "disposition_rank Invalid = 5"

lemma disposition_rank_index: "map snd DISPOSITION_RANK ! disposition_rank d = d"
  by (cases d) (simp_all add: DISPOSITION_RANK_def)

lemma disposition_rank_inject [simp]: "disposition_rank d = disposition_rank e \<longleftrightarrow> d = e"
  by (metis disposition_rank_index)

instantiation disposition :: linorder
begin

definition less_eq_disposition :: "disposition \<Rightarrow> disposition \<Rightarrow> bool" where
  "d \<le> e \<longleftrightarrow> disposition_rank d \<le> disposition_rank e"

definition less_disposition :: "disposition \<Rightarrow> disposition \<Rightarrow> bool" where
  "d < e \<longleftrightarrow> disposition_rank d < disposition_rank e"

instance
  by standard (auto simp: less_eq_disposition_def less_disposition_def)

end

lemma Patch_least [simp]: "Patch \<le> d"
  by (simp add: less_eq_disposition_def)

text \<open>
  \<open>DISPOSITION_RANK.indexOf\<close> gives \<open>-1\<close> for a value outside the ranking, which is never greater
  than the rank of \<open>worst\<close>.
\<close>

definition read_disposition :: "jsval \<Rightarrow> disposition option" where
  "read_disposition v = map_of (map (\<lambda>(name, d). (Str (js name), d)) DISPOSITION_RANK) v"

definition worse :: "disposition option \<Rightarrow> disposition \<Rightarrow> disposition" where
  "worse d worst = (case d of None \<Rightarrow> worst | Some e \<Rightarrow> if worst < e then e else worst)"

definition mostRestrictive :: "disposition option list \<Rightarrow> disposition" where
  "mostRestrictive ds = fold worse ds Patch"

section \<open>Reading and comparing values\<close>

definition iterate :: "jsval \<Rightarrow> thrown + jsval list" where
  "iterate v =
     (case v of
        Arr xs \<Rightarrow> Inr xs
      | Str s \<Rightarrow> Inr (map Str (code_points s))
      | _ \<Rightarrow> Inl TypeThrew)"

text \<open>\<open>v ?? []\<close>, iterated.\<close>

definition items_of :: "jsval \<Rightarrow> thrown + jsval list" where
  "items_of v = iterate (coalesce v (Arr []))"

definition member :: "jsval \<Rightarrow> string \<Rightarrow> thrown + jsval" where
  "member v k = (if nullish v then Inl TypeThrew else Inr (get v k))"

definition add_identified :: "jsval \<Rightarrow> (jsstr \<times> jsval) list \<Rightarrow> thrown + (jsstr \<times> jsval) list" where
  "add_identified entry m =
     try_then (member entry ''identity'') (\<lambda>i. Inr (AList.update (to_text i) entry m))"

definition identity_map :: "jsval \<Rightarrow> thrown + (jsstr \<times> jsval) list" where
  "identity_map v = try_fold add_identified (list_of v) []"

definition canonical_text :: "jsval \<Rightarrow> thrown + jsstr" where
  "canonical_text v =
     (case canonicalize (coalesce v Null) of Inl e \<Rightarrow> Inl (CanonThrew e) | Inr t \<Rightarrow> Inr t)"

definition same :: "jsval \<Rightarrow> jsval \<Rightarrow> thrown + bool" where
  "same left right =
     try_then (canonical_text left) (\<lambda>l. try_then (canonical_text right) (\<lambda>r. Inr (l = r)))"

text \<open>The default depth bound as a literal, for the evaluation of closed terms.\<close>

lemma canonicalize_depth [code]: "canonicalize v = canonicalize_with [] 128 v"
  by (simp add: canonicalize_def DEFAULT_LIMITS_def)

section \<open>Integer ranges\<close>

definition SAFE_INTEGER :: int where
  "SAFE_INTEGER = 2 ^ 53 - 1"

record int_range =
  lower :: int
  upper :: int
  lowerExplicit :: bool
  upperExplicit :: bool

definition is_keyword :: "jsval \<Rightarrow> string \<Rightarrow> bool" where
  "is_keyword c name \<longleftrightarrow> get c ''keyword'' = Str (js name)"

definition operand_value :: "jsval \<Rightarrow> jsval" where
  "operand_value c = get (get c ''operands'') ''value''"

definition integer_literal :: "jsval \<Rightarrow> int option" where
  "integer_literal v =
     (case v of Str s \<Rightarrow> if canonical_integer s then Some (big_int s) else None | _ \<Rightarrow> None)"

definition narrow_range :: "jsval \<Rightarrow> int_range \<Rightarrow> int_range" where
  "narrow_range c st =
     (case integer_literal (operand_value c) of
        None \<Rightarrow> st
      | Some n \<Rightarrow>
          let b = (if is_keyword c ''exclusiveMin'' then n + 1
                   else if is_keyword c ''exclusiveMax'' then n - 1 else n);
              st' = (if is_keyword c ''min'' \<or> is_keyword c ''exclusiveMin''
                then st\<lparr>lower := (if lowerExplicit st \<and> b < lower st then lower st else b),
                        lowerExplicit := True\<rparr>
                else st)
          in if is_keyword c ''max'' \<or> is_keyword c ''exclusiveMax''
             then st'\<lparr>upper := (if upperExplicit st' \<and> upper st' < b then upper st' else b),
                      upperExplicit := True\<rparr>
             else st')"

definition integerRange :: "jsval list \<Rightarrow> int_range" where
  "integerRange constraints =
     fold narrow_range constraints
       \<lparr>lower = - SAFE_INTEGER, upper = SAFE_INTEGER, lowerExplicit = False, upperExplicit = False\<rparr>"

definition wideInteger :: "jsval list \<Rightarrow> bool" where
  "wideInteger constraints =
     (let r = integerRange constraints
      in lower r < - SAFE_INTEGER \<or> SAFE_INTEGER < lower r \<or>
         upper r < - SAFE_INTEGER \<or> SAFE_INTEGER < upper r)"

definition integerDomainWidened :: "jsval list \<Rightarrow> jsval list \<Rightarrow> bool" where
  "integerDomainWidened before after =
     (let oldRange = integerRange before; newRange = integerRange after
      in lower newRange \<le> lower oldRange \<and> upper oldRange \<le> upper newRange \<and>
         (lower newRange < lower oldRange \<or> upper oldRange < upper newRange))"

section \<open>Exact bounds\<close>

record bound =
  coefficient :: int
  scale :: nat

definition exact_decimal :: "jsstr \<Rightarrow> bound option" where
  "exact_decimal s =
     (if \<not> canonical_decimal s then None
      else let parts = split_at 46 (unsigned_part s);
               whole = hd parts;
               fraction = (case parts of _ # f # _ \<Rightarrow> f | _ \<Rightarrow> []);
               digits = int_of_digits (whole @ fraction)
           in Some \<lparr>coefficient = (if starts_with s (js ''-'') then - digits else digits),
                    scale = length fraction\<rparr>)"

definition exactBound :: "jsval \<Rightarrow> jsval \<Rightarrow> bound option" where
  "exactBound v scalar =
     (case v of
        Str s \<Rightarrow>
          if scalar = Str (js ''integer'')
            then (if canonical_integer s then Some \<lparr>coefficient = big_int s, scale = 0\<rparr> else None)
          else if scalar = Str (js ''decimal'') then exact_decimal s
          else None
      | _ \<Rightarrow> None)"

definition compare_bounds :: "bound \<Rightarrow> bound \<Rightarrow> int" where
  "compare_bounds left right =
     (let s = max (scale left) (scale right);
          l = coefficient left * 10 ^ (s - scale left);
          r = coefficient right * 10 ^ (s - scale right)
      in if l < r then -1 else if r < l then 1 else 0)"

definition compareExactBounds :: "jsval \<Rightarrow> jsval \<Rightarrow> jsval \<Rightarrow> int option" where
  "compareExactBounds before after scalar =
     (case (exactBound before scalar, exactBound after scalar) of
        (Some left, Some right) \<Rightarrow> Some (compare_bounds left right)
      | _ \<Rightarrow> None)"

section \<open>Decimal limits\<close>

record limit =
  limit_value :: jsval
  exclusive :: bool

datatype side = Lower | Upper

definition compareLimit ::
  "limit option \<Rightarrow> limit option \<Rightarrow> jsval \<Rightarrow> side \<Rightarrow> int option" where
  "compareLimit left right scalar side =
     (case (left, right) of
        (None, None) \<Rightarrow> Some 0
      | (None, Some _) \<Rightarrow> Some (if side = Lower then -1 else 1)
      | (Some _, None) \<Rightarrow> Some (if side = Lower then 1 else -1)
      | (Some l, Some r) \<Rightarrow>
          let v = compareExactBounds (limit_value l) (limit_value r) scalar
          in if v \<noteq> Some 0 then v
             else if exclusive l = exclusive r then Some 0
             else if side = Lower then Some (if exclusive l then 1 else -1)
             else Some (if exclusive l then -1 else 1))"

text \<open>A comparison of \<open>undefined\<close> with a number is false.\<close>

definition holds :: "(int \<Rightarrow> bool) \<Rightarrow> int option \<Rightarrow> bool" where
  "holds P v = (case v of None \<Rightarrow> False | Some i \<Rightarrow> P i)"

type_synonym limits_pair = "limit option \<times> limit option"

definition DECIMAL :: jsval where
  "DECIMAL = Str (js ''decimal'')"

definition is_bound_keyword :: "jsval \<Rightarrow> bool" where
  "is_bound_keyword c \<longleftrightarrow>
     is_keyword c ''min'' \<or> is_keyword c ''exclusiveMin'' \<or> is_keyword c ''max'' \<or>
     is_keyword c ''exclusiveMax''"

text \<open>
  Among the four keywords \<open>startsWith("exclusive")\<close> selects the two exclusive ones and
  \<open>endsWith("Min")\<close>, with the test for \<open>min\<close>, the two lower ones.
\<close>

definition tighten_limits :: "jsval \<Rightarrow> limits_pair \<Rightarrow> limits_pair" where
  "tighten_limits c st =
     (let v = operand_value c; (lo, up) = st;
          entry = \<lparr>limit_value = v,
                   exclusive = is_keyword c ''exclusiveMin'' \<or> is_keyword c ''exclusiveMax''\<rparr>
      in if \<not> is_bound_keyword c \<or> exactBound v DECIMAL = None then st
         else if is_keyword c ''exclusiveMin'' \<or> is_keyword c ''min''
           then (if lo = None \<or> holds (\<lambda>i. 0 < i) (compareLimit (Some entry) lo DECIMAL Lower)
                 then (Some entry, up) else st)
         else if up = None \<or> holds (\<lambda>i. i < 0) (compareLimit (Some entry) up DECIMAL Upper)
           then (lo, Some entry)
         else st)"

text \<open>\<open>constraint.keyword\<close> is read from every element before anything else.\<close>

definition decimalLimits :: "jsval list \<Rightarrow> thrown + limits_pair" where
  "decimalLimits constraints =
     try_fold (\<lambda>c st. try_then (member c ''keyword'') (\<lambda>_. Inr (tighten_limits c st)))
       constraints (None, None)"

section \<open>Numeric changes\<close>

definition integer_bound_change :: "jsval list \<Rightarrow> jsval list \<Rightarrow> disposition option" where
  "integer_bound_change before after =
     (let oldRange = integerRange before; newRange = integerRange after
      in if lower oldRange = lower newRange \<and> upper oldRange = upper newRange then None
         else Some (if integerDomainWidened before after then Conditional else Breaking))"

definition limits_change :: "limits_pair \<Rightarrow> limits_pair \<Rightarrow> disposition option" where
  "limits_change oldRange newRange =
     (let lo = compareLimit (fst newRange) (fst oldRange) DECIMAL Lower;
          up = compareLimit (snd newRange) (snd oldRange) DECIMAL Upper
      in if lo = Some 0 \<and> up = Some 0 then None
         else Some (if holds (\<lambda>i. i \<le> 0) lo \<and> holds (\<lambda>i. 0 \<le> i) up then Conditional
                    else Breaking))"

definition numericBoundChange ::
  "jsval list \<Rightarrow> jsval list \<Rightarrow> jsval \<Rightarrow> thrown + disposition option" where
  "numericBoundChange before after scalar =
     (if scalar = Str (js ''integer'') then Inr (integer_bound_change before after)
      else if scalar \<noteq> DECIMAL then Inr None
      else try_then (decimalLimits before) (\<lambda>oldRange.
           try_then (decimalLimits after) (\<lambda>newRange. Inr (limits_change oldRange newRange))))"

definition integer_places :: "jsval \<Rightarrow> jsnum" where
  "integer_places policy =
     num_sub (to_number (get policy ''precision'')) (to_number (get policy ''scale''))"

definition decimalPolicyChange :: "jsval \<Rightarrow> jsval \<Rightarrow> thrown + disposition option" where
  "decimalPolicyChange before after =
     try_then (same before after) (\<lambda>equal_policies. Inr
       (if equal_policies then None
        else if \<not> truthy before \<or> \<not> truthy after then Some Breaking
        else if js_ge (get after ''scale'') (get before ''scale'') \<and>
            num_le (integer_places before) (integer_places after)
          then Some Conditional
        else Some Breaking))"

section \<open>Effective numeric subjects\<close>

definition NATIVE_NUMERIC :: "(string \<times> string) list" where
  "NATIVE_NUMERIC =
     [(''Integer'', ''integer''), (''Decimal'', ''decimal''), (''Float32'', ''float32''),
      (''Float64'', ''float64'')]"

definition native_numeric :: "jsstr \<Rightarrow> jsval" where
  "native_numeric identity =
     (let prefix = js ''ix://quire/native/''
      in if \<not> starts_with identity prefix then Undefined
         else case map_of (map (\<lambda>(k, v). (js k, v)) NATIVE_NUMERIC)
             (drop (length prefix) identity) of
           None \<Rightarrow> Undefined
         | Some name \<Rightarrow> Str (js name))"

record subject =
  sub_scalar :: jsval
  sub_constraints :: "jsval list"
  sub_decimal :: jsval

type_synonym type_map = "(jsstr \<times> jsval) list"

lemma unseen_less:
  "map_of m k = Some v \<Longrightarrow> k \<notin> set seen \<Longrightarrow>
     length (filter (\<lambda>e. fst e \<notin> set (k # seen)) m) < length (filter (\<lambda>e. fst e \<notin> set seen) m)"
proof -
  assume k: "map_of m k = Some v" "k \<notin> set seen"
  have "(k, v) \<in> set m" using k(1) by (rule map_of_SomeD)
  then have "(k, v) \<in> set (filter (\<lambda>e. fst e \<notin> set seen) m)" using k(2) by simp
  moreover have "filter (\<lambda>e. fst e \<notin> set (k # seen)) m =
      filter (\<lambda>e. fst e \<noteq> k) (filter (\<lambda>e. fst e \<notin> set seen) m)"
    by (auto intro: filter_cong)
  ultimately show ?thesis by (metis (mono_tags, lifting) fst_conv length_filter_less)
qed

text \<open>An alias or reference hands over to its target; the walk stops at a type met before.\<close>

function subject_walk ::
  "type_map \<Rightarrow> jsval \<Rightarrow> jsstr list \<Rightarrow> jsval list \<Rightarrow> jsval \<Rightarrow> thrown + subject" where
  "subject_walk types current seen constraints dec =
     (case current of
        Str c \<Rightarrow>
          if c \<in> set seen
          then Inr \<lparr>sub_scalar = Undefined, sub_constraints = constraints, sub_decimal = dec\<rparr>
          else (case map_of types c of
              None \<Rightarrow>
                Inr \<lparr>sub_scalar = native_numeric c, sub_constraints = constraints, sub_decimal = dec\<rparr>
            | Some t \<Rightarrow>
                if \<not> truthy t
                then Inr \<lparr>sub_scalar = native_numeric c, sub_constraints = constraints,
                          sub_decimal = dec\<rparr>
                else try_then (items_of (get t ''constraints'')) (\<lambda>own.
                  let constraints' = constraints @ own; dec' = coalesce dec (get t ''decimal'');
                      kind = get t ''kind''
                  in if kind = Str (js ''scalar'')
                     then Inr \<lparr>sub_scalar = get t ''scalar'', sub_constraints = constraints',
                               sub_decimal = dec'\<rparr>
                     else if kind \<noteq> Str (js ''alias'') \<and> kind \<noteq> Str (js ''reference'')
                     then Inr \<lparr>sub_scalar = Undefined, sub_constraints = constraints',
                               sub_decimal = dec'\<rparr>
                     else subject_walk types (get t ''target'') (c # seen) constraints' dec'))
      | _ \<Rightarrow> Inr \<lparr>sub_scalar = Undefined, sub_constraints = constraints, sub_decimal = dec\<rparr>)"
  by pat_completeness auto
termination
  by (relation "measure (\<lambda>(types, _, seen, _). length (filter (\<lambda>e. fst e \<notin> set seen) types))")
    (use unseen_less in auto)

declare subject_walk.simps [simp del]

definition numericSubject :: "type_map \<Rightarrow> jsval \<Rightarrow> thrown + subject" where
  "numericSubject types identity = subject_walk types identity [] [] Undefined"

section \<open>Scalars, references, multiplicities, additions\<close>

definition WIDENINGS :: "string list" where
  "WIDENINGS = [''date>datetime'', ''float32>float64'']"

definition scalarChange :: "jsval \<Rightarrow> jsval \<Rightarrow> disposition option" where
  "scalarChange before after =
     (if strict_eq before after then None
      else if to_text before @ js ''>'' @ to_text after \<in> set (map js WIDENINGS)
        then Some Conditional
      else Some Breaking)"

definition with_own :: "subject \<Rightarrow> jsval \<Rightarrow> thrown + jsval list" where
  "with_own subject field =
     try_then (items_of (get field ''constraints'')) (\<lambda>own. Inr (sub_constraints subject @ own))"

definition numericRefDisposition ::
  "jsval \<Rightarrow> jsval \<Rightarrow> subject \<Rightarrow> subject \<Rightarrow> thrown + disposition" where
  "numericRefDisposition original field oldSubject newSubject =
     (if \<not> strict_eq (sub_scalar oldSubject) (sub_scalar newSubject)
      then Inr (case scalarChange (sub_scalar oldSubject) (sub_scalar newSubject) of
          None \<Rightarrow> Breaking | Some d \<Rightarrow> d)
      else try_then (with_own oldSubject original) (\<lambda>before.
        try_then (with_own newSubject field) (\<lambda>after.
          if sub_scalar oldSubject = Str (js ''integer'')
          then Inr (if wideInteger before \<noteq> wideInteger after then Breaking
                    else case integer_bound_change before after of None \<Rightarrow> Breaking | Some d \<Rightarrow> d)
          else if sub_scalar oldSubject = DECIMAL
          then try_then
            (decimalPolicyChange (coalesce (get original ''decimal'') (sub_decimal oldSubject))
              (coalesce (get field ''decimal'') (sub_decimal newSubject))) (\<lambda>policy.
            try_then (numericBoundChange before after DECIMAL) (\<lambda>bounds.
              Inr (if policy = Some Breaking \<or> bounds = Some Breaking then Breaking
                   else if policy = Some Conditional \<or> bounds = Some Conditional then Conditional
                   else Breaking)))
          else Inr Breaking)))"

definition multiplicityChange :: "jsval \<Rightarrow> jsval \<Rightarrow> thrown + disposition option" where
  "multiplicityChange before after =
     try_then (same before after) (\<lambda>equal_bounds.
       let flag = (\<lambda>v k. coalesce (get v k) (Bool False));
           up = (\<lambda>v. coalesce (get v ''upper'') (Num PosInf));
           lo = (\<lambda>v. coalesce (get v ''lower'') (Num (Fin 0)))
       in Inr (if equal_bounds then None
          else if \<not> strict_eq (flag before ''ordered'') (flag after ''ordered'') \<or>
              \<not> strict_eq (flag before ''unique'') (flag after ''unique'')
            then Some Breaking
          else Some (if js_ge (lo before) (lo after) \<and> js_ge (up after) (up before)
                     then Additive else Breaking)))"

text \<open>\<open>policies.some(\<dots>)\<close> stops at the first policy that rejects what it does not know.\<close>

definition rejects_unknown :: "jsval \<Rightarrow> bool" where
  "rejects_unknown policy \<longleftrightarrow>
     get policy ''unknownExtensions'' = Str (js ''reject'') \<or>
     get policy ''unknownModules'' = Str (js ''reject'')"

fun some_rejects :: "jsval list \<Rightarrow> thrown + bool" where
  "some_rejects [] = Inr False"
| "some_rejects (p # ps) =
     (if nullish p then Inl TypeThrew else if rejects_unknown p then Inr True else some_rejects ps)"

definition UNKNOWN :: jsval where
  "UNKNOWN = Str (js ''unknown'')"

definition additionDisposition :: "jsval \<Rightarrow> jsval \<Rightarrow> thrown + disposition" where
  "additionDisposition consumerPolicies evidence =
     (if evidence = UNKNOWN then Inr UnknownEvidence
      else try_then (some_rejects (list_of consumerPolicies)) (\<lambda>rejected.
        Inr (if rejected then Breaking
             else if evidence = Str (js ''stale'') then Conditional
             else Additive)))"

end
