(* ===== verification/CompatDomains.thy ===== *)
theory CompatDomains
  imports CompatNumeric
begin

text \<open>
  What the numeric classification of \<open>src/src/compiler/compat/diff.mjs\<close> means for the values a
  consumer may see. An integer or decimal constraint list denotes the set of numbers it admits; the
  ranges and limits the code computes are exactly these sets, and a change is \<open>conditional\<close> exactly
  when the new set strictly contains the old one.
\<close>

section \<open>The aggregate of dispositions\<close>

lemma worse_max: "worse d w = (case d of None \<Rightarrow> w | Some e \<Rightarrow> max w e)"
  by (auto simp: worse_def max_def split: option.splits)

lemma fold_worse_ge: "w \<le> fold worse ds w"
proof (induction ds arbitrary: w)
  case (Cons d ds)
  have "w \<le> worse d w" by (simp add: worse_max split: option.splits)
  then show ?case using Cons [of "worse d w"] by simp
qed simp

lemma fold_worse_upper: "Some e \<in> set ds \<Longrightarrow> e \<le> fold worse ds w"
proof (induction ds arbitrary: w)
  case (Cons d ds)
  show ?case
  proof (cases "d = Some e")
    case True
    then have "e \<le> worse d w" by (simp add: worse_max)
    then show ?thesis using fold_worse_ge [of "worse d w" ds] by simp
  qed (use Cons in auto)
qed simp

lemma fold_worse_member: "fold worse ds w = w \<or> Some (fold worse ds w) \<in> set ds"
proof (induction ds arbitrary: w)
  case (Cons d ds)
  have "worse d w = w \<or> d = Some (worse d w)" by (auto simp: worse_def split: option.splits)
  then show ?case using Cons [of "worse d w"] by auto
qed simp

lemma mostRestrictive_upper: "Some e \<in> set ds \<Longrightarrow> e \<le> mostRestrictive ds"
  by (simp add: mostRestrictive_def fold_worse_upper)

lemma mostRestrictive_member: "mostRestrictive ds = Patch \<or> Some (mostRestrictive ds) \<in> set ds"
  using fold_worse_member [of ds Patch] by (simp add: mostRestrictive_def)

lemma mostRestrictive_least: "(\<And>e. Some e \<in> set ds \<Longrightarrow> e \<le> b) \<Longrightarrow> mostRestrictive ds \<le> b"
  using mostRestrictive_member [of ds] by auto

lemma mostRestrictive_mono: "set ds \<subseteq> set es \<Longrightarrow> mostRestrictive ds \<le> mostRestrictive es"
  by (meson mostRestrictive_least mostRestrictive_upper subsetD)

section \<open>Up-sets and down-sets\<close>

text \<open>
  A domain between two bounds is the meet of an up-set and a down-set. Where it is inhabited,
  inclusion of domains is inclusion of both parts.
\<close>

definition up_set :: "'a :: linorder set \<Rightarrow> bool" where
  "up_set L \<longleftrightarrow> (\<forall>x \<in> L. \<forall>y. x \<le> y \<longrightarrow> y \<in> L)"

definition down_set :: "'a :: linorder set \<Rightarrow> bool" where
  "down_set U \<longleftrightarrow> (\<forall>x \<in> U. \<forall>y. y \<le> x \<longrightarrow> y \<in> U)"

lemma up_setD: "up_set L \<Longrightarrow> x \<in> L \<Longrightarrow> x \<le> y \<Longrightarrow> y \<in> L"
  by (auto simp: up_set_def)

lemma down_setD: "down_set U \<Longrightarrow> x \<in> U \<Longrightarrow> y \<le> x \<Longrightarrow> y \<in> U"
  by (auto simp: down_set_def)

lemma meet_subset:
  assumes "up_set L" "up_set L'" "down_set U" "down_set U'" and q: "q \<in> L \<inter> U"
  shows "L \<inter> U \<subseteq> L' \<inter> U' \<longleftrightarrow> L \<subseteq> L' \<and> U \<subseteq> U'"
proof
  assume sub: "L \<inter> U \<subseteq> L' \<inter> U'"
  have "x \<in> L'" if "x \<in> L" for x
  proof -
    have "min x q \<in> L" using that q by (simp add: min_def)
    moreover have "min x q \<in> U" using q assms(3) by (auto intro: down_setD)
    ultimately show ?thesis using sub assms(2) by (meson Int_iff min.cobounded1 subsetD up_setD)
  qed
  moreover have "x \<in> U'" if "x \<in> U" for x
  proof -
    have "max x q \<in> U" using that q by (simp add: max_def)
    moreover have "max x q \<in> L" using q assms(1) by (auto intro: up_setD)
    ultimately show ?thesis using sub assms(4) by (meson Int_iff max.cobounded1 subsetD down_setD)
  qed
  ultimately show "L \<subseteq> L' \<and> U \<subseteq> U'" by blast
qed blast

section \<open>Integer domains\<close>

text \<open>What a constraint says of an integer, read directly from its keyword and operand.\<close>

definition integer_lower :: "jsval \<Rightarrow> int option" where
  "integer_lower c =
     (case integer_literal (operand_value c) of
        None \<Rightarrow> None
      | Some n \<Rightarrow> if is_keyword c ''min'' then Some n
          else if is_keyword c ''exclusiveMin'' then Some (n + 1) else None)"

definition integer_upper :: "jsval \<Rightarrow> int option" where
  "integer_upper c =
     (case integer_literal (operand_value c) of
        None \<Rightarrow> None
      | Some n \<Rightarrow> if is_keyword c ''max'' then Some n
          else if is_keyword c ''exclusiveMax'' then Some (n - 1) else None)"

text \<open>
  The integers a constraint list admits. A side nothing bounds explicitly ends at the largest
  magnitude a binary64 number holds exactly.
\<close>

definition integer_domain :: "jsval list \<Rightarrow> int set" where
  "integer_domain cs =
     {i. (\<forall>b. Some b \<in> integer_lower ` set cs \<longrightarrow> b \<le> i) \<and>
         (\<forall>b. Some b \<in> integer_upper ` set cs \<longrightarrow> i \<le> b) \<and>
         (integer_lower ` set cs \<subseteq> {None} \<longrightarrow> - SAFE_INTEGER \<le> i) \<and>
         (integer_upper ` set cs \<subseteq> {None} \<longrightarrow> i \<le> SAFE_INTEGER)}"

lemma keyword_unique: "is_keyword c a \<Longrightarrow> is_keyword c b \<longleftrightarrow> a = b"
  by (auto simp: is_keyword_def)

definition raise_lower :: "int option \<Rightarrow> int_range \<Rightarrow> int_range" where
  "raise_lower b st = (case b of None \<Rightarrow> st
     | Some n \<Rightarrow> st\<lparr>lower := (if lowerExplicit st then max n (lower st) else n), lowerExplicit := True\<rparr>)"

definition drop_upper :: "int option \<Rightarrow> int_range \<Rightarrow> int_range" where
  "drop_upper b st = (case b of None \<Rightarrow> st
     | Some n \<Rightarrow> st\<lparr>upper := (if upperExplicit st then min n (upper st) else n), upperExplicit := True\<rparr>)"

lemma narrow_range_bounds:
  "narrow_range c st = drop_upper (integer_upper c) (raise_lower (integer_lower c) st)"
proof (cases "integer_literal (operand_value c)")
  case (Some n)
  consider "is_keyword c ''min''" | "is_keyword c ''exclusiveMin''" | "is_keyword c ''max''" |
    "is_keyword c ''exclusiveMax''" | "\<not> is_keyword c ''min''" "\<not> is_keyword c ''exclusiveMin''"
    "\<not> is_keyword c ''max''" "\<not> is_keyword c ''exclusiveMax''" by blast
  then show ?thesis
    by cases (simp_all add: narrow_range_def raise_lower_def drop_upper_def integer_lower_def
        integer_upper_def Some keyword_unique max_def min_def Let_def)
qed (simp add: narrow_range_def raise_lower_def drop_upper_def integer_lower_def integer_upper_def)

text \<open>The state of the loop: each side is the tightest explicit bound so far, or its default.\<close>

definition range_of :: "jsval list \<Rightarrow> int_range \<Rightarrow> bool" where
  "range_of cs st \<longleftrightarrow>
     (if lowerExplicit st
      then Some (lower st) \<in> integer_lower ` set cs \<and>
        (\<forall>b. Some b \<in> integer_lower ` set cs \<longrightarrow> b \<le> lower st)
      else lower st = - SAFE_INTEGER \<and> integer_lower ` set cs \<subseteq> {None}) \<and>
     (if upperExplicit st
      then Some (upper st) \<in> integer_upper ` set cs \<and>
        (\<forall>b. Some b \<in> integer_upper ` set cs \<longrightarrow> upper st \<le> b)
      else upper st = SAFE_INTEGER \<and> integer_upper ` set cs \<subseteq> {None})"

lemma range_of_step: "range_of cs st \<Longrightarrow> range_of (cs @ [c]) (narrow_range c st)"
  by (cases "integer_lower c"; cases "integer_upper c"; cases "lowerExplicit st";
      cases "upperExplicit st")
    (auto simp: range_of_def narrow_range_bounds raise_lower_def drop_upper_def max_def min_def)

lemma range_of_integerRange: "range_of cs (integerRange cs)"
proof (induction cs rule: rev_induct)
  case (snoc c cs)
  then show ?case using range_of_step [of cs "integerRange cs" c] by (simp add: integerRange_def)
qed (simp add: integerRange_def range_of_def)

lemma integer_domain_range: "integer_domain cs = {lower (integerRange cs)..upper (integerRange cs)}"
proof -
  have r: "range_of cs (integerRange cs)" by (rule range_of_integerRange)
  show ?thesis
    using r unfolding range_of_def integer_domain_def
    by (cases "lowerExplicit (integerRange cs)"; cases "upperExplicit (integerRange cs)")
      (auto intro: order_trans)
qed

lemma integer_domain_subset:
  assumes "integer_domain before \<noteq> {}"
  shows "integer_domain before \<subseteq> integer_domain after \<longleftrightarrow>
    lower (integerRange after) \<le> lower (integerRange before) \<and>
    upper (integerRange before) \<le> upper (integerRange after)"
  using assms by (auto simp: integer_domain_range)

lemma integer_bound_change_cases:
  assumes "integer_domain before \<noteq> {}"
  shows "integer_bound_change before after =
    (if integer_domain before = integer_domain after then None
     else if integer_domain before \<subset> integer_domain after then Some Conditional
     else Some Breaking)"
proof -
  let ?B = "integerRange before" and ?A = "integerRange after"
  have eq: "integer_domain before = integer_domain after \<longleftrightarrow> lower ?B = lower ?A \<and> upper ?B = upper ?A"
    using assms by (auto simp: integer_domain_range Icc_eq_Icc)
  have "integerDomainWidened before after \<longleftrightarrow> integer_domain before \<subset> integer_domain after"
    if "integer_domain before \<noteq> integer_domain after"
    using integer_domain_subset [OF assms, of after] that
    by (auto simp: integerDomainWidened_def eq psubset_eq Let_def)
  then show ?thesis by (simp add: integer_bound_change_def eq Let_def)
qed

section \<open>Exact bounds\<close>

definition bound_value :: "bound \<Rightarrow> rat" where
  "bound_value b = of_int (coefficient b) / 10 ^ scale b"

lemma scaled_value:
  assumes "scale b \<le> s"
  shows "of_int (coefficient b * 10 ^ (s - scale b)) = bound_value b * 10 ^ s"
proof -
  have "(10 :: rat) ^ s = 10 ^ (s - scale b) * 10 ^ scale b"
    using assms by (simp flip: power_add)
  then show ?thesis by (simp add: bound_value_def)
qed

lemma compare_bounds_value:
  "compare_bounds l r = (if bound_value l < bound_value r then -1 else if bound_value r < bound_value l then 1 else 0)"
proof -
  let ?s = "max (scale l) (scale r)"
  let ?l = "coefficient l * 10 ^ (?s - scale l)" and ?r = "coefficient r * 10 ^ (?s - scale r)"
  have "(of_int ?l :: rat) = bound_value l * 10 ^ ?s" "(of_int ?r :: rat) = bound_value r * 10 ^ ?s"
    by (rule scaled_value, simp)+
  moreover have "?l < ?r \<longleftrightarrow> (of_int ?l :: rat) < of_int ?r" "?r < ?l \<longleftrightarrow> (of_int ?r :: rat) < of_int ?l"
    by (rule of_int_less_iff [symmetric])+
  ultimately have "?l < ?r \<longleftrightarrow> bound_value l < bound_value r" "?r < ?l \<longleftrightarrow> bound_value r < bound_value l"
    by (simp_all only: mult_less_cancel_right_pos zero_less_power zero_less_numeral)
  then show ?thesis by (simp add: compare_bounds_def Let_def)
qed

text \<open>
  The number a decimal text denotes in a JavaScript numeric literal, before it is rounded to
  binary64.
\<close>

definition literal_value :: "jsstr \<Rightarrow> rat option" where
  "literal_value s = (case signed_part s of (sign, u) \<Rightarrow> map_option (\<lambda>q. of_int sign * q) (decimal_literal u))"

lemma digits_no_exponent:
  "list_all (\<lambda>c. is_digit_unit c \<or> c = 46) u \<Longrightarrow> takeWhile (\<lambda>c. c \<noteq> 101 \<and> c \<noteq> 69) u = u"
  by (simp add: list_all_iff takeWhile_eq_all_conv)
    (auto simp: is_digit_unit_def word_le_def)

lemma decimal_literal_plain:
  assumes "list_all is_digit_unit w" "list_all is_digit_unit f" "w \<noteq> []"
  shows "decimal_literal w = Some (of_int (int_of_digits w))"
    and "decimal_literal (w @ 46 # f) = Some (of_int (int_of_digits (w @ f)) / 10 ^ length f)"
proof -
  have dot: "\<not> is_digit_unit 46" by (simp add: is_digit_unit_def word_le_def)
  have w: "takeWhile is_digit_unit w = w" using assms(1) by (simp add: list_all_iff takeWhile_eq_all_conv)
  have wf: "takeWhile is_digit_unit (w @ 46 # f) = w"
    using assms(1) dot by (simp add: list_all_iff takeWhile_append2)
  have nw: "takeWhile (\<lambda>c. c \<noteq> 101 \<and> c \<noteq> 69) w = w"
    by (rule digits_no_exponent) (use assms(1) in \<open>simp add: list_all_iff\<close>)
  have nwf: "takeWhile (\<lambda>c. c \<noteq> 101 \<and> c \<noteq> 69) (w @ 46 # f) = w @ 46 # f"
    by (rule digits_no_exponent) (use assms in \<open>auto simp: list_all_iff\<close>)
  show "decimal_literal w = Some (of_int (int_of_digits w))"
    using assms(3) by (simp add: decimal_literal_def nw w signed_part_def power_of_def Let_def split: prod.splits list.splits)
  show "decimal_literal (w @ 46 # f) = Some (of_int (int_of_digits (w @ f)) / 10 ^ length f)"
    using assms by (simp add: decimal_literal_def nwf wf signed_part_def power_of_def Let_def divide_inverse
      split: prod.splits list.splits)
qed

lemma canonical_decimal_parts:
  assumes "canonical_decimal s"
  obtains w where "unsigned_part s = w" "split_at 46 (unsigned_part s) = [w]" "w \<noteq> []"
      "list_all is_digit_unit w"
  | w f where "unsigned_part s = w @ 46 # f" "split_at 46 (unsigned_part s) = [w, f]" "w \<noteq> []"
      "list_all is_digit_unit w" "list_all is_digit_unit f"
proof -
  have zero: "list_all is_digit_unit (js ''0'')" "js ''0'' \<noteq> []"
    by (simp_all add: js_zero is_digit_unit_def word_le_def)
  show thesis
  proof (cases "s = js ''0''")
    case True
    have "split_at 46 (js ''0'') = [js ''0'']" "unsigned_part (js ''0'') = js ''0''"
      by (simp_all add: js_zero unsigned_part_def starts_with_minus)
    with True zero show thesis using that(1) [of "js ''0''"] by simp
  next
    case False
    with assms consider w where "split_at 46 (unsigned_part s) = [w]" "positive_digits w"
      | w f where "split_at 46 (unsigned_part s) = [w, f]" "w = js ''0'' \<or> positive_digits w"
          "fraction_digits f"
      by (auto simp: canonical_decimal_def split: list.splits)
    then show thesis
    proof cases
      case 1
      then show thesis using that(1) [of w] split_at_one by (auto simp: positive_digits_def)
    next
      case 2
      then show thesis using that(2) [of w f] split_at_two [of 46 "unsigned_part s" w f] zero
        by (auto simp: positive_digits_def fraction_digits_def)
    qed
  qed
qed

lemma signed_part_unsigned:
  assumes "unsigned_part s = c # cs" "is_digit_unit c"
  shows "signed_part s = (if starts_with s (js ''-'') then -1 else 1, unsigned_part s)"
proof (cases "starts_with s (js ''-'')")
  case True
  then obtain t where "s = 45 # t" by (auto simp: starts_with_minus)
  then show ?thesis using True by (simp add: signed_part_def)
next
  case False
  then have "s = c # cs" using assms(1) by (simp add: unsigned_other)
  moreover have "c \<noteq> 45" "c \<noteq> 43" using assms(2) by (auto simp: is_digit_unit_def word_le_def)
  ultimately show ?thesis using False unsigned_other [OF False] by (simp add: signed_part_def)
qed

lemma digit_head: "w \<noteq> [] \<Longrightarrow> list_all is_digit_unit w \<Longrightarrow> \<exists>c cs. w = c # cs \<and> is_digit_unit c"
  by (cases w) auto

lemma exact_decimal_value: "exact_decimal s = Some b \<Longrightarrow> literal_value s = Some (bound_value b)"
proof -
  assume b: "exact_decimal s = Some b"
  then have c: "canonical_decimal s" by (simp add: exact_decimal_def split: if_splits)
  from c show ?thesis
  proof (cases rule: canonical_decimal_parts)
    case (1 w)
    obtain d ds where "unsigned_part s = d # ds" "is_digit_unit d" using digit_head [OF 1(3,4)] 1(1) by auto
    note sp = signed_part_unsigned [OF this]
    have "decimal_literal (unsigned_part s) = Some (of_int (int_of_digits w))"
      using decimal_literal_plain(1) [OF 1(4) _ 1(3), of "[]"] 1(1) by simp
    then show ?thesis using b c 1(2) sp
      by (auto simp: exact_decimal_def literal_value_def bound_value_def Let_def split: if_splits)
  next
    case (2 w f)
    obtain d ds where "unsigned_part s = d # ds" "is_digit_unit d" using digit_head [OF 2(3,4)] 2(1) by auto
    note sp = signed_part_unsigned [OF this]
    have "decimal_literal (unsigned_part s) = Some (of_int (int_of_digits (w @ f)) / 10 ^ length f)"
      using decimal_literal_plain(2) [OF 2(4,5,3)] 2(1) by simp
    then show ?thesis using b c 2(2) sp
      by (auto simp: exact_decimal_def literal_value_def bound_value_def Let_def split: if_splits)
  qed
qed

lemma exactBound_decimal: "exactBound v DECIMAL = Some b \<longleftrightarrow> (\<exists>s. v = Str s \<and> exact_decimal s = Some b)"
  by (cases v) (simp_all add: exactBound_def DECIMAL_def)

section \<open>Decimal domains\<close>

text \<open>What a constraint says of a rational number.\<close>

definition decimal_bound :: "jsval \<Rightarrow> rat option" where
  "decimal_bound v = map_option bound_value (exactBound v DECIMAL)"

definition decimal_admits :: "jsval \<Rightarrow> rat \<Rightarrow> bool" where
  "decimal_admits c q =
     (case decimal_bound (operand_value c) of
        None \<Rightarrow> True
      | Some b \<Rightarrow> if is_keyword c ''min'' then b \<le> q else if is_keyword c ''exclusiveMin'' then b < q
          else if is_keyword c ''max'' then q \<le> b else if is_keyword c ''exclusiveMax'' then q < b
          else True)"

definition decimal_domain :: "jsval list \<Rightarrow> rat set" where
  "decimal_domain cs = {q. list_all (\<lambda>c. decimal_admits c q) cs}"

definition limit_bound :: "limit \<Rightarrow> rat" where
  "limit_bound l = the (decimal_bound (limit_value l))"

definition above_limit :: "limit option \<Rightarrow> rat set" where
  "above_limit lo = (case lo of None \<Rightarrow> UNIV | Some l \<Rightarrow> {q. if exclusive l then limit_bound l < q else limit_bound l \<le> q})"

definition below_limit :: "limit option \<Rightarrow> rat set" where
  "below_limit up = (case up of None \<Rightarrow> UNIV | Some l \<Rightarrow> {q. if exclusive l then q < limit_bound l else q \<le> limit_bound l})"

definition proper :: "limit option \<Rightarrow> bool" where
  "proper lo \<longleftrightarrow> (case lo of None \<Rightarrow> True | Some l \<Rightarrow> decimal_bound (limit_value l) \<noteq> None)"

lemma up_set_above: "up_set (above_limit lo)"
  by (auto simp: up_set_def above_limit_def split: option.splits if_splits)

lemma down_set_below: "down_set (below_limit up)"
  by (auto simp: down_set_def below_limit_def split: option.splits if_splits)

lemma compare_limit_values:
  assumes "proper (Some l)" "proper (Some r)"
  shows "compareExactBounds (limit_value l) (limit_value r) DECIMAL =
    Some (if limit_bound l < limit_bound r then -1 else if limit_bound r < limit_bound l then 1 else 0)"
  using assms
  by (auto simp: proper_def decimal_bound_def limit_bound_def compareExactBounds_def compare_bounds_value)

lemma above_subset:
  "above_limit (Some l) \<subseteq> above_limit (Some r) \<longleftrightarrow>
     limit_bound r < limit_bound l \<or> limit_bound r = limit_bound l \<and> (exclusive r \<longrightarrow> exclusive l)"
proof
  assume sub: "above_limit (Some l) \<subseteq> above_limit (Some r)"
  show "limit_bound r < limit_bound l \<or> limit_bound r = limit_bound l \<and> (exclusive r \<longrightarrow> exclusive l)"
  proof (cases "limit_bound l < limit_bound r")
    case True
    then obtain m where "limit_bound l < m" "m < limit_bound r" using dense by blast
    then have "m \<in> above_limit (Some l)" "m \<notin> above_limit (Some r)" by (auto simp: above_limit_def)
    with sub show ?thesis by blast
  next
    case False
    have "limit_bound l \<in> above_limit (Some l) \<Longrightarrow> limit_bound l \<in> above_limit (Some r)" using sub by blast
    then show ?thesis using False by (cases "exclusive l") (auto simp: above_limit_def)
  qed
qed (auto simp: above_limit_def split: if_splits)

lemma below_subset:
  "below_limit (Some l) \<subseteq> below_limit (Some r) \<longleftrightarrow>
     limit_bound l < limit_bound r \<or> limit_bound r = limit_bound l \<and> (exclusive r \<longrightarrow> exclusive l)"
proof
  assume sub: "below_limit (Some l) \<subseteq> below_limit (Some r)"
  show "limit_bound l < limit_bound r \<or> limit_bound r = limit_bound l \<and> (exclusive r \<longrightarrow> exclusive l)"
  proof (cases "limit_bound r < limit_bound l")
    case True
    then obtain m where "limit_bound r < m" "m < limit_bound l" using dense by blast
    then have "m \<in> below_limit (Some l)" "m \<notin> below_limit (Some r)" by (auto simp: below_limit_def)
    with sub show ?thesis by blast
  next
    case False
    have "limit_bound l \<in> below_limit (Some l) \<Longrightarrow> limit_bound l \<in> below_limit (Some r)" using sub by blast
    then show ?thesis using False by (cases "exclusive l") (auto simp: below_limit_def)
  qed
qed (auto simp: below_limit_def split: if_splits)

lemma above_unbounded [simp]: "above_limit None = UNIV" "above_limit (Some l) \<noteq> UNIV"
proof -
  have "limit_bound l - 1 \<notin> above_limit (Some l)" by (simp add: above_limit_def)
  then show "above_limit (Some l) \<noteq> UNIV" by blast
qed (simp add: above_limit_def)

lemma below_unbounded [simp]: "below_limit None = UNIV" "below_limit (Some l) \<noteq> UNIV"
proof -
  have "limit_bound l + 1 \<notin> below_limit (Some l)" by (simp add: below_limit_def)
  then show "below_limit (Some l) \<noteq> UNIV" by blast
qed (simp add: below_limit_def)

lemma compareLimit_lower:
  assumes "proper l" "proper r"
  obtains i where "compareLimit l r DECIMAL Lower = Some i" "i \<le> 0 \<longleftrightarrow> above_limit r \<subseteq> above_limit l"
    "i = 0 \<longleftrightarrow> above_limit r = above_limit l" "0 < i \<longleftrightarrow> above_limit l \<subset> above_limit r"
proof -
  have "\<exists>i. compareLimit l r DECIMAL Lower = Some i \<and> (i \<le> 0 \<longleftrightarrow> above_limit r \<subseteq> above_limit l) \<and>
      (0 \<le> i \<longleftrightarrow> above_limit l \<subseteq> above_limit r)"
  proof (cases l; cases r)
    fix a b
    assume "l = Some a" "r = Some b"
    then show ?thesis using assms
      by (auto simp: compareLimit_def compare_limit_values above_subset Let_def)
  qed (simp_all add: compareLimit_def top.extremum_unique)
  then obtain i where i: "compareLimit l r DECIMAL Lower = Some i" "i \<le> 0 \<longleftrightarrow> above_limit r \<subseteq> above_limit l"
      "0 \<le> i \<longleftrightarrow> above_limit l \<subseteq> above_limit r" by blast
  show thesis by (rule that [OF i(1,2)]) (use i(2,3) in auto)
qed

lemma compareLimit_upper:
  assumes "proper l" "proper r"
  obtains i where "compareLimit l r DECIMAL Upper = Some i" "0 \<le> i \<longleftrightarrow> below_limit r \<subseteq> below_limit l"
    "i = 0 \<longleftrightarrow> below_limit r = below_limit l" "i < 0 \<longleftrightarrow> below_limit l \<subset> below_limit r"
proof -
  have "\<exists>i. compareLimit l r DECIMAL Upper = Some i \<and> (0 \<le> i \<longleftrightarrow> below_limit r \<subseteq> below_limit l) \<and>
      (i \<le> 0 \<longleftrightarrow> below_limit l \<subseteq> below_limit r)"
  proof (cases l; cases r)
    fix a b
    assume "l = Some a" "r = Some b"
    then show ?thesis using assms
      by (auto simp: compareLimit_def compare_limit_values below_subset Let_def)
  qed (simp_all add: compareLimit_def top.extremum_unique)
  then obtain i where i: "compareLimit l r DECIMAL Upper = Some i" "0 \<le> i \<longleftrightarrow> below_limit r \<subseteq> below_limit l"
      "i \<le> 0 \<longleftrightarrow> below_limit l \<subseteq> below_limit r" by blast
  show thesis by (rule that [OF i(1,2)]) (use i(2,3) in auto)
qed

text \<open>One constraint narrows the limits to the numbers it admits.\<close>

definition limits_domain :: "limits_pair \<Rightarrow> rat set" where
  "limits_domain p = above_limit (fst p) \<inter> below_limit (snd p)"

lemma tighten_lower:
  assumes "proper (Some e)" "proper lo"
  shows "above_limit (if lo = None \<or> holds (\<lambda>i. 0 < i) (compareLimit (Some e) lo DECIMAL Lower)
      then Some e else lo) = above_limit lo \<inter> above_limit (Some e)"
  by (rule compareLimit_lower [OF assms]) (auto simp: holds_def)

lemma tighten_upper:
  assumes "proper (Some e)" "proper up"
  shows "below_limit (if up = None \<or> holds (\<lambda>i. i < 0) (compareLimit (Some e) up DECIMAL Upper)
      then Some e else up) = below_limit up \<inter> below_limit (Some e)"
  by (rule compareLimit_upper [OF assms]) (auto simp: holds_def)

lemma admits_limit:
  assumes b: "decimal_bound (operand_value c) = Some b"
    and e: "e = \<lparr>limit_value = operand_value c,
      exclusive = is_keyword c ''exclusiveMin'' \<or> is_keyword c ''exclusiveMax''\<rparr>"
  shows "is_keyword c ''exclusiveMin'' \<or> is_keyword c ''min'' \<Longrightarrow>
      {q. decimal_admits c q} = above_limit (Some e)"
    and "is_keyword c ''exclusiveMax'' \<or> is_keyword c ''max'' \<Longrightarrow>
      {q. decimal_admits c q} = below_limit (Some e)"
  by (auto simp: decimal_admits_def above_limit_def below_limit_def limit_bound_def b e keyword_unique)

lemma tighten_limits_domain:
  assumes p: "proper lo" "proper up"
  shows "proper (fst (tighten_limits c (lo, up))) \<and> proper (snd (tighten_limits c (lo, up))) \<and>
    limits_domain (tighten_limits c (lo, up)) = limits_domain (lo, up) \<inter> {q. decimal_admits c q}"
proof (cases "\<not> is_bound_keyword c \<or> exactBound (operand_value c) DECIMAL = None")
  case True
  then have "tighten_limits c (lo, up) = (lo, up)" by (auto simp: tighten_limits_def Let_def)
  moreover have "{q. decimal_admits c q} = UNIV" using True
    by (auto simp: decimal_admits_def is_bound_keyword_def decimal_bound_def split: option.splits)
  ultimately show ?thesis using p by simp
next
  case False
  then obtain b where b: "decimal_bound (operand_value c) = Some b" by (auto simp: decimal_bound_def)
  have k: "is_bound_keyword c" "exactBound (operand_value c) DECIMAL \<noteq> None" using False by simp_all
  let ?e = "\<lparr>limit_value = operand_value c,
    exclusive = is_keyword c ''exclusiveMin'' \<or> is_keyword c ''exclusiveMax''\<rparr>"
  have e: "proper (Some ?e)" using b by (simp add: proper_def)
  show ?thesis
  proof (cases "is_keyword c ''exclusiveMin'' \<or> is_keyword c ''min''")
    case True
    then have "tighten_limits c (lo, up) =
        (if lo = None \<or> holds (\<lambda>i. 0 < i) (compareLimit (Some ?e) lo DECIMAL Lower) then Some ?e else lo, up)"
      using k by (auto simp: tighten_limits_def Let_def)
    then show ?thesis
      using tighten_lower [OF e p(1)] admits_limit(1) [OF b refl True] e p
      by (auto simp: limits_domain_def)
  next
    case upper: False
    then have m: "is_keyword c ''exclusiveMax'' \<or> is_keyword c ''max''"
      using False by (auto simp: is_bound_keyword_def)
    have "tighten_limits c (lo, up) =
        (lo, if up = None \<or> holds (\<lambda>i. i < 0) (compareLimit (Some ?e) up DECIMAL Upper) then Some ?e else up)"
      using k upper by (auto simp: tighten_limits_def Let_def)
    then show ?thesis
      using tighten_upper [OF e p(2)] admits_limit(2) [OF b refl m] e p
      by (auto simp: limits_domain_def)
  qed
qed

lemma try_fold_append: "try_fold f (xs @ ys) acc = try_then (try_fold f xs acc) (try_fold f ys)"
  by (induction xs arbitrary: acc) (auto simp: try_then_def split: sum.splits)

lemma decimalLimits_domain:
  "decimalLimits cs = Inr p \<Longrightarrow>
     proper (fst p) \<and> proper (snd p) \<and> limits_domain p = decimal_domain cs"
proof (induction cs arbitrary: p rule: rev_induct)
  case Nil
  then show ?case
    by (auto simp: decimalLimits_def proper_def limits_domain_def decimal_domain_def)
next
  case (snoc c cs)
  then obtain lo up where lu: "decimalLimits cs = Inr (lo, up)" "p = tighten_limits c (lo, up)"
    by (auto simp: decimalLimits_def try_fold_append try_then_Inr)
  have IH: "proper lo" "proper up" "limits_domain (lo, up) = decimal_domain cs"
    using snoc.IH [OF lu(1)] by simp_all
  have "decimal_domain (cs @ [c]) = decimal_domain cs \<inter> {q. decimal_admits c q}"
    by (auto simp: decimal_domain_def)
  then show ?case using tighten_limits_domain [OF IH(1,2), of c] IH(3) lu(2) by simp
qed

lemma limits_change_cases:
  assumes "proper (fst p)" "proper (snd p)" "proper (fst q)" "proper (snd q)"
    and "limits_domain p \<noteq> {}"
  shows "limits_change p q =
    (if limits_domain p = limits_domain q then None
     else if limits_domain p \<subset> limits_domain q then Some Conditional else Some Breaking)"
proof -
  obtain i where i: "compareLimit (fst q) (fst p) DECIMAL Lower = Some i"
      "i \<le> 0 \<longleftrightarrow> above_limit (fst p) \<subseteq> above_limit (fst q)"
      "i = 0 \<longleftrightarrow> above_limit (fst p) = above_limit (fst q)"
    by (rule compareLimit_lower [OF assms(3,1)])
  obtain j where j: "compareLimit (snd q) (snd p) DECIMAL Upper = Some j"
      "0 \<le> j \<longleftrightarrow> below_limit (snd p) \<subseteq> below_limit (snd q)"
      "j = 0 \<longleftrightarrow> below_limit (snd p) = below_limit (snd q)"
    by (rule compareLimit_upper [OF assms(4,2)])
  obtain x where x: "x \<in> limits_domain p" using assms(5) by blast
  note m = meet_subset [OF up_set_above up_set_above down_set_below down_set_below]
  have sub: "limits_domain p \<subseteq> limits_domain q \<longleftrightarrow> i \<le> 0 \<and> 0 \<le> j"
    using m [of x "fst p" "snd p" "fst q" "snd q"] x i(2) j(2) by (simp add: limits_domain_def)
  have eq: "limits_domain p = limits_domain q \<longleftrightarrow> i = 0 \<and> j = 0"
  proof
    assume e: "limits_domain p = limits_domain q"
    then have "x \<in> limits_domain q" "limits_domain q \<subseteq> limits_domain p" using x by simp_all
    then have "above_limit (fst q) \<subseteq> above_limit (fst p) \<and> below_limit (snd q) \<subseteq> below_limit (snd p)"
      using m [of x "fst q" "snd q" "fst p" "snd p"] by (simp add: limits_domain_def)
    then show "i = 0 \<and> j = 0" using sub e i(2,3) j(2,3) by auto
  next
    assume "i = 0 \<and> j = 0"
    then show "limits_domain p = limits_domain q" using i(3) j(3) by (simp add: limits_domain_def)
  qed
  show ?thesis using sub eq by (auto simp: limits_change_def i(1) j(1) holds_def Let_def)
qed

section \<open>What a numeric change means\<close>

text \<open>
  C8. Integer bounds are classified by the sets of integers they admit: where the old constraints
  admit some integer, no change is reported exactly when the new constraints admit the same
  integers, \<open>conditional\<close> exactly when they admit strictly more, and \<open>breaking\<close> exactly when an
  integer that was admitted no longer is.
\<close>

theorem integer_bound_change_exact:
  assumes "integer_domain before \<noteq> {}"
  shows "numericBoundChange before after (Str (js ''integer'')) = Inr
    (if integer_domain before = integer_domain after then None
     else if integer_domain before \<subset> integer_domain after then Some Conditional
     else Some Breaking)"
  using integer_bound_change_cases [OF assms, of after] by (simp add: numericBoundChange_def)

definition bound_constraint :: "string \<Rightarrow> string \<Rightarrow> jsval" where
  "bound_constraint keyword v =
     Obj [(js ''keyword'', Str (js keyword)), (js ''operands'', Obj [(js ''value'', Str (js v))])]"

theorem integer_bound_change_exact_witness:
  "integer_domain [bound_constraint ''min'' ''3'', bound_constraint ''exclusiveMax'' ''9''] = {3..8} \<and>
   integer_domain [bound_constraint ''min'' ''3'', bound_constraint ''exclusiveMax'' ''9''] \<subset>
     integer_domain [bound_constraint ''min'' ''3'', bound_constraint ''max'' ''9'']"
proof -
  let ?B = "[bound_constraint ''min'' ''3'', bound_constraint ''exclusiveMax'' ''9'']"
  let ?A = "[bound_constraint ''min'' ''3'', bound_constraint ''max'' ''9'']"
  have "lower (integerRange ?B) = 3" "upper (integerRange ?B) = 8" by code_simp+
  then have d: "integer_domain ?B = {3..8}" by (simp only: integer_domain_range)
  then have "integer_domain ?B \<noteq> {}" by simp
  note t = integer_bound_change_exact [OF this, of ?A]
  have "numericBoundChange ?B ?A (Str (js ''integer'')) = Inr (Some Conditional)" by code_simp
  then have "integer_domain ?B \<subset> integer_domain ?A" unfolding t by (simp split: if_splits)
  with d show ?thesis by simp
qed

text \<open>
  Decimal bounds are classified by the sets of rational numbers they admit, whatever the number
  of digits of the bounds: where the limits are read without an exception and the old constraints
  admit some number, no change means the same set, \<open>conditional\<close> means strictly more numbers, and
  \<open>breaking\<close> means that a number that was admitted no longer is.
\<close>

lemma decimal_bound_change_exact:
  assumes "decimalLimits before = Inr p" "decimalLimits after = Inr q"
    and "decimal_domain before \<noteq> {}"
  shows "numericBoundChange before after DECIMAL = Inr
    (if decimal_domain before = decimal_domain after then None
     else if decimal_domain before \<subset> decimal_domain after then Some Conditional
     else Some Breaking)"
proof -
  note b = decimalLimits_domain [OF assms(1)] and a = decimalLimits_domain [OF assms(2)]
  have "limits_change p q =
    (if limits_domain p = limits_domain q then None
     else if limits_domain p \<subset> limits_domain q then Some Conditional else Some Breaking)"
    by (rule limits_change_cases) (use a b assms(3) in simp_all)
  then show ?thesis
    using a b assms(1,2) by (simp add: numericBoundChange_def DECIMAL_def)
qed

lemma decimal_bound_change_exact_witness:
  "1 \<in> decimal_domain [bound_constraint ''min'' ''0.5''] \<and>
   decimal_domain [bound_constraint ''min'' ''0.5''] \<subset>
     decimal_domain [bound_constraint ''exclusiveMin'' ''-0.25'']"
proof -
  let ?B = "[bound_constraint ''min'' ''0.5'']" and ?A = "[bound_constraint ''exclusiveMin'' ''-0.25'']"
  have "list_all (\<lambda>c. decimal_admits c 1) ?B" by code_simp
  then have one: "1 \<in> decimal_domain ?B" by (simp only: decimal_domain_def mem_Collect_eq)
  then have ne: "decimal_domain ?B \<noteq> {}" by blast
  have r: "numericBoundChange ?B ?A DECIMAL = Inr (Some Conditional)" by code_simp
  have "\<exists>p. decimalLimits ?B = Inr p" "\<exists>q. decimalLimits ?A = Inr q"
    by (simp_all add: decimalLimits_def member_def bound_constraint_def nullish_def)
  then obtain p q where "decimalLimits ?B = Inr p" "decimalLimits ?A = Inr q" by blast
  note t = decimal_bound_change_exact [OF this ne]
  have "decimal_domain ?B \<subset> decimal_domain ?A" using r unfolding t by (simp split: if_splits)
  with one show ?thesis by simp
qed

text \<open>
  The exact comparison of two bound texts is the order of the numbers the texts denote, for
  integer and for decimal texts of any length and sign; texts that are not canonical compare as
  \<open>undefined\<close>.
\<close>

lemma compareExactBounds_order:
  "compareExactBounds (Str a) (Str b) DECIMAL =
     (if canonical_decimal a \<and> canonical_decimal b
      then Some (if the (literal_value a) < the (literal_value b) then -1
                 else if the (literal_value b) < the (literal_value a) then 1 else 0)
      else None)"
proof -
  have v: "\<exists>x. exact_decimal s = Some x \<and> literal_value s = Some (bound_value x)" if "canonical_decimal s" for s
    using that exact_decimal_value [of s] by (auto simp: exact_decimal_def Let_def)
  have n: "exact_decimal s = None" if "\<not> canonical_decimal s" for s
    using that by (simp add: exact_decimal_def)
  show ?thesis
  proof (cases "canonical_decimal a \<and> canonical_decimal b")
    case True
    then obtain x y where "exact_decimal a = Some x" "literal_value a = Some (bound_value x)"
      "exact_decimal b = Some y" "literal_value b = Some (bound_value y)" using v by blast
    then show ?thesis using True
      by (simp add: compareExactBounds_def exactBound_def DECIMAL_def compare_bounds_value)
  next
    case False
    then show ?thesis using n
      by (auto simp: compareExactBounds_def exactBound_def DECIMAL_def split: option.splits)
  qed
qed

section \<open>Decimal policies\<close>

lemma num_le_trans: "num_le a b \<Longrightarrow> num_le b c \<Longrightarrow> num_le a c"
  by (cases a; cases b; cases c) (auto simp: num_le_def num_less_def num_eq_def)

lemma admitted_wider:
  assumes "decimalAdmitted v before" "truthy after"
    and "js_ge (get after ''scale'') (get before ''scale'')"
    and "get before ''scale'' = Num a" "get after ''scale'' = Num b"
    and "num_le (integer_places before) (integer_places after)"
  shows "decimalAdmitted v after"
proof -
  obtain s where s: "v = Str s" using assms(1) by (cases v) (auto simp: decimalAdmitted_def)
  have "num_le a b" using assms(3-5) by simp
  then show ?thesis
    using assms(1,2,6) unfolding s
    by (auto simp: decimalAdmitted_def Let_def integer_places_def assms(4,5) to_number_def
        intro: num_le_trans)
qed

text \<open>
  A decimal policy change reported as \<open>conditional\<close> never narrows what the reader admits: a
  value the reader admits under the old policy it admits under the new one.
\<close>

lemma decimal_policy_conditional:
  assumes "decimalPolicyChange before after = Inr (Some Conditional)"
    and "get before ''scale'' = Num a" "get after ''scale'' = Num b"
    and "decimalAdmitted v before"
  shows "decimalAdmitted v after"
proof -
  from assms(1) obtain eq where "same before after = Inr eq"
    and c: "(if eq then None else if \<not> truthy before \<or> \<not> truthy after then Some Breaking
        else if js_ge (get after ''scale'') (get before ''scale'') \<and>
            num_le (integer_places before) (integer_places after)
          then Some Conditional else Some Breaking) = Some Conditional"
    by (auto simp: decimalPolicyChange_def try_then_Inr)
  from c have "truthy after" "js_ge (get after ''scale'') (get before ''scale'')"
    "num_le (integer_places before) (integer_places after)" by (auto split: if_splits)
  then show ?thesis using admitted_wider [OF assms(4)] assms(2,3) by blast
qed

definition policy :: "rat \<Rightarrow> rat \<Rightarrow> jsval" where
  "policy p s = Obj [(js ''precision'', Num (Fin p)), (js ''scale'', Num (Fin s))]"

lemma digit_text:
  assumes "0 < d" "d < 10" "round64 (of_int d) = Fin (of_int d)"
  shows "num_text (Fin (of_int d)) = [digit_unit d]"
proof -
  have e: "decimal_exponent (of_int d) = 1"
    using assms by (simp add: decimal_exponent_def numeral_eq_Suc power_of_def)
  have s: "shortest f 1 (of_int d) 1 = (d, 0)" for f
    using assms(3) by (subst shortest.simps) (simp add: power_of_def Let_def)
  show ?thesis using assms(1,2)
    by (simp add: positive_text_def e s Let_def digits_of.simps [of d] decimal_layout_def del: One_nat_def)
qed

lemma small_doubles: "round64 (of_int 2) = Fin (of_int 2)" "round64 (of_int 3) = Fin (of_int 3)" by code_simp+

lemma small_texts: "num_text (Fin 2) = js ''2''" "num_text (Fin 3) = js ''3''"
  using digit_text [OF _ _ small_doubles(1)] digit_text [OF _ _ small_doubles(2)]
  by (simp_all add: digit_unit_def js_def unit_of_def)

lemma policy_keys:
  "utf16_ok (js ''precision'')" "utf16_ok (js ''scale'')" "by_code_units (js ''precision'') (js ''scale'') = -1"
  by code_simp+

lemma policy_text:
  "canonical_text (policy p s) = Inr (js ''{'' @ (quote (js ''precision'') @ js '':'' @ num_text (Fin p)) @
     js '','' @ (quote (js ''scale'') @ js '':'' @ num_text (Fin s)) @ js ''}'')"
proof -
  have "sort_on fst [(js ''precision'', a), (js ''scale'', b)] = [(js ''precision'', a), (js ''scale'', b)]"
    for a b :: jsval
    by (simp add: sort_on_def stable_sort_def policy_keys)
  then show ?thesis
    by (simp add: canonical_text_def policy_def coalesce_def nullish_def canonicalize_depth
        canonicalize_with_def canon_walk.simps renderString_def policy_keys num_is_finite_def)
qed

lemma policies_differ: "same (policy 2 0) (policy 3 s) = Inr False"
  by (simp add: same_def policy_text small_texts js_def del: num_text.simps)
lemma policy_places: "num_le (integer_places (policy 2 0)) (integer_places (policy 3 1))"
  by code_simp

lemma policy_admits: "decimalAdmitted (Str (js ''12'')) (policy 2 0)"
  by code_simp

lemma decimal_policy_conditional_witness: "decimalAdmitted (Str (js ''12'')) (policy 3 1)"
proof -
  have s: "get (policy 2 0) ''scale'' = Num (Fin 0)" "get (policy 3 1) ''scale'' = Num (Fin 1)"
    "truthy (policy 2 0)" "truthy (policy 3 1)"
    by (simp_all add: policy_def truthy_def)
  have "decimalPolicyChange (policy 2 0) (policy 3 1) = Inr (Some Conditional)"
    by (simp add: decimalPolicyChange_def policies_differ policy_places s)
  from decimal_policy_conditional [OF this s(1,2) policy_admits] show ?thesis .
qed

end
