(* ===== verification/CompatDiff.thy ===== *)
theory CompatDiff
  imports CompatNumeric Constructs
begin

text \<open>
  The observations of \<open>src/src/compiler/compat/diff.mjs\<close>: what each part of the comparison sees in
  two versions of a definition, a field, a constraint list, a population, a construct table entry or
  a declared vocabulary. Every helper of the source calls \<open>record\<close> as it goes, which only appends;
  here a helper returns the list of its events. An event is an observation to record or an exception,
  and what comes after an exception is never recorded.
\<close>

section \<open>Events\<close>

record observation =
  ob_identity :: jsval
  ob_family :: string
  ob_disposition :: disposition
  ob_rationale :: jsstr

datatype event = Seen observation | Threw thrown

definition see :: "jsval \<Rightarrow> string \<Rightarrow> disposition \<Rightarrow> jsstr \<Rightarrow> event list" where
  "see identity observed d rationale =
     [Seen \<lparr>ob_identity = identity, ob_family = observed, ob_disposition = d,
            ob_rationale = rationale\<rparr>]"

definition with_value :: "thrown + 'a \<Rightarrow> ('a \<Rightarrow> event list) \<Rightarrow> event list" where
  "with_value r f = (case r of Inl e \<Rightarrow> [Threw e] | Inr x \<Rightarrow> f x)"

definition only_if :: "bool \<Rightarrow> event list \<Rightarrow> event list" where
  "only_if b evs = (if b then evs else [])"

lemma with_value_simps [simp]: "with_value (Inl e) f = [Threw e]" "with_value (Inr x) f = f x"
  by (simp_all add: with_value_def)

lemma only_if_simps [simp]: "only_if True evs = evs" "only_if False evs = []"
  by (simp_all add: only_if_def)

text \<open>What the comparison is told about the consumers.\<close>

record diff_context =
  cx_policies :: jsval
  cx_evidence :: jsval
  cx_targets :: jsval

section \<open>Reading values\<close>

text \<open>\<open>Map.get\<close> followed by a test of the result.\<close>

definition lookup_entry :: "type_map \<Rightarrow> jsstr \<Rightarrow> jsval option" where
  "lookup_entry m k =
     (case map_of m k of None \<Rightarrow> None | Some v \<Rightarrow> if truthy v then Some v else None)"

definition has_key :: "type_map \<Rightarrow> jsstr \<Rightarrow> bool" where
  "has_key m k \<longleftrightarrow> map_of m k \<noteq> None"

text \<open>\<open>(a ?? null) !== (b ?? null)\<close>, and \<open>${v ?? "none"}\<close>.\<close>

definition differs :: "jsval \<Rightarrow> jsval \<Rightarrow> bool" where
  "differs a b \<longleftrightarrow> \<not> strict_eq (coalesce a Null) (coalesce b Null)"

definition or_none :: "jsval \<Rightarrow> jsstr" where
  "or_none v = to_text (coalesce v (Str (js ''none'')))"

definition flag_of :: "jsval \<Rightarrow> string \<Rightarrow> jsval" where
  "flag_of v k = coalesce (get v k) (Bool False)"

definition name_text :: "jsval \<Rightarrow> jsstr" where
  "name_text v = to_text (get v ''name'')"

text \<open>
  A method of arrays called on \<open>v ?? []\<close>: on anything but an array it is not a function.
\<close>

definition array_of :: "jsval \<Rightarrow> thrown + jsval list" where
  "array_of v = (case coalesce v (Arr []) of Arr xs \<Rightarrow> Inr xs | _ \<Rightarrow> Inl TypeThrew)"

text \<open>
  A \<open>Set\<close> of values: two objects of different documents are never the same member.
\<close>

definition js_has :: "jsval list \<Rightarrow> jsval \<Rightarrow> bool" where
  "js_has s v \<longleftrightarrow> list_ex (\<lambda>x. strict_eq x v) s"

definition js_set :: "jsval list \<Rightarrow> jsval list" where
  "js_set xs = fold (\<lambda>x s. if js_has s x then s else s @ [x]) xs []"

text \<open>\<open>Object.entries\<close> and \<open>Object.keys(\<dots>).length\<close>.\<close>

definition own_entries :: "jsval \<Rightarrow> (jsstr \<times> jsval) list" where
  "own_entries v =
     (case v of
        Obj ms \<Rightarrow> ms
      | Arr xs \<Rightarrow> map (\<lambda>(n, x). (nat_text n, x)) (enumerate 0 xs)
      | Str s \<Rightarrow> map (\<lambda>(n, u). (nat_text n, Str [u])) (enumerate 0 s)
      | _ \<Rightarrow> [])"

text \<open>
  Indexing an object by a computed key also finds the functions of \<open>Object.prototype\<close>; the inherited
  \<open>__proto__\<close> is an object without enumerable members.
\<close>

datatype indexed = Own jsval | Inherited

definition OBJECT_METHODS :: "string list" where
  "OBJECT_METHODS =
     [''constructor'', ''__defineGetter__'', ''__defineSetter__'', ''hasOwnProperty'',
      ''__lookupGetter__'', ''__lookupSetter__'', ''isPrototypeOf'', ''propertyIsEnumerable'',
      ''toString'', ''valueOf'', ''toLocaleString'']"

definition index_by :: "jsval \<Rightarrow> jsstr \<Rightarrow> indexed" where
  "index_by v k =
     (case map_of (own_entries v) k of
        Some w \<Rightarrow> Own w
      | None \<Rightarrow> if k \<in> set (map js OBJECT_METHODS) then Inherited
          else if k = js ''__proto__'' then Own (Obj [])
          else Own Undefined)"

section \<open>Constraints\<close>

definition keys_count :: "jsval \<Rightarrow> nat" where
  "keys_count v = length (own_entries v)"

definition numeric_scalars :: "jsval \<Rightarrow> jsval \<Rightarrow> bool" where
  "numeric_scalars beforeScalar afterScalar \<longleftrightarrow>
     strict_eq beforeScalar afterScalar \<and>
     (afterScalar = Str (js ''integer'') \<or> afterScalar = Str (js ''decimal''))"

definition keyword_text :: "jsval \<Rightarrow> jsstr" where
  "keyword_text c = to_text (get c ''keyword'')"

definition operand_disposition :: "jsval \<Rightarrow> jsval \<Rightarrow> jsval \<Rightarrow> jsval \<Rightarrow> disposition" where
  "operand_disposition original constraint beforeScalar afterScalar =
     (if numeric_scalars beforeScalar afterScalar \<and>
         strict_eq (get original ''keyword'') (get constraint ''keyword'') \<and>
         is_bound_keyword constraint \<and>
         keys_count (get original ''operands'') = 1 \<and> keys_count (get constraint ''operands'') = 1
      then let direction = compareExactBounds (operand_value original) (operand_value constraint)
                 afterScalar
           in if direction = Some 0 then Patch
              else if (if is_keyword constraint ''min'' \<or> is_keyword constraint ''exclusiveMin''
                       then holds (\<lambda>i. 0 < i) direction else holds (\<lambda>i. i < 0) direction)
              then Conditional else Breaking
      else Breaking)"

definition constraint_kept ::
  "jsstr \<Rightarrow> jsval \<Rightarrow> jsval \<Rightarrow> jsval \<Rightarrow> jsval \<Rightarrow> event list" where
  "constraint_kept identity original constraint beforeScalar afterScalar =
     with_value (same (get original ''operands'') (get constraint ''operands'')) (\<lambda>same_operands.
       if same_operands
       then with_value (same original constraint) (\<lambda>unchanged.
         only_if (\<not> unchanged)
           (see (Str identity) ''constraint'' Patch
             (js ''the constraint changed with no semantic operand change'')))
       else see (Str identity) ''constraint''
         (operand_disposition original constraint beforeScalar afterScalar)
         (js ''the '' @ keyword_text constraint @ js '' operands changed''))"

definition diffConstraints :: "jsval \<Rightarrow> jsval \<Rightarrow> jsval \<Rightarrow> jsval \<Rightarrow> event list" where
  "diffConstraints previous nxt beforeScalar afterScalar =
     with_value (identity_map (get previous ''constraints'')) (\<lambda>before.
     with_value (identity_map (get nxt ''constraints'')) (\<lambda>after.
       concat (map (\<lambda>(identity, constraint). only_if (\<not> has_key after identity)
         (see (Str identity) ''constraint''
           (if numeric_scalars beforeScalar afterScalar \<and> is_bound_keyword constraint
            then Conditional else Breaking)
           (js ''the '' @ keyword_text constraint @ js '' constraint was removed''))) before) @
       concat (map (\<lambda>(identity, constraint).
         case lookup_entry before identity of
           None \<Rightarrow> see (Str identity) ''constraint'' Breaking
             (js ''the '' @ keyword_text constraint @ js '' constraint was added'')
         | Some original \<Rightarrow>
             constraint_kept identity original constraint beforeScalar afterScalar) after)))"

section \<open>Fields\<close>

definition wide_change :: "subject \<Rightarrow> subject \<Rightarrow> jsval \<Rightarrow> jsval \<Rightarrow> thrown + bool" where
  "wide_change oldSubject newSubject original field =
     (if sub_scalar oldSubject = Str (js ''integer'') \<and> sub_scalar newSubject = Str (js ''integer'')
      then try_then (with_own oldSubject original) (\<lambda>before.
           try_then (with_own newSubject field) (\<lambda>after.
             Inr (wideInteger before \<noteq> wideInteger after)))
      else Inr False)"

definition required :: "jsval \<Rightarrow> bool" where
  "required field \<longleftrightarrow> get field ''presence'' = Str (js ''required'')"

definition nullable :: "jsval \<Rightarrow> bool" where
  "nullable field \<longleftrightarrow> get field ''nullable'' = Bool True"

definition change_text :: "string \<Rightarrow> jsval \<Rightarrow> jsval \<Rightarrow> jsstr" where
  "change_text what before after = js what @ js '' changed from '' @ to_text before @ js '' to '' @ to_text after"

definition change_or_none :: "string \<Rightarrow> jsval \<Rightarrow> jsval \<Rightarrow> jsstr" where
  "change_or_none what before after =
     js what @ js '' changed from '' @ or_none before @ js '' to '' @ or_none after"

text \<open>The default: the values are compared only where the kinds agree.\<close>

definition default_changed :: "jsval \<Rightarrow> jsval \<Rightarrow> thrown + bool" where
  "default_changed original field =
     (if \<not> strict_eq (get original ''defaultKind'') (get field ''defaultKind'') then Inr True
      else try_then (same (get original ''defaultValue'') (get field ''defaultValue''))
        (\<lambda>eq. Inr (\<not> eq)))"

definition list_member :: "jsval \<Rightarrow> string \<Rightarrow> jsval" where
  "list_member v k = coalesce (get v k) (Arr [])"

definition field_shape_events ::
  "jsstr \<Rightarrow> jsval \<Rightarrow> jsval \<Rightarrow> subject \<Rightarrow> subject \<Rightarrow> event list" where
  "field_shape_events identity original field oldSubject newSubject =
     with_value (multiplicityChange (get original ''multiplicity'') (get field ''multiplicity''))
       (\<lambda>m. case m of
          None \<Rightarrow> []
        | Some d \<Rightarrow>
            with_value (canonical_text (get original ''multiplicity'')) (\<lambda>o_text.
            with_value (canonical_text (get field ''multiplicity'')) (\<lambda>n_text.
              see (Str identity) ''multiplicity'' d
                (js ''multiplicity changed from '' @ o_text @ js '' to '' @ n_text)))) @
     only_if (differs (get original ''unit'') (get field ''unit''))
       (see (Str identity) ''unit'' Breaking
         (change_or_none ''the unit'' (get original ''unit'') (get field ''unit''))) @
     only_if (\<not> strict_eq (get original ''typeRef'') (get field ''typeRef''))
       (with_value (numericRefDisposition original field oldSubject newSubject) (\<lambda>d.
         see (Str identity) ''type'' d
           (change_text ''the field's type reference'' (get original ''typeRef'')
             (get field ''typeRef'')))) @
     with_value (decimalPolicyChange (get original ''decimal'') (get field ''decimal''))
       (\<lambda>p. case p of
          None \<Rightarrow> []
        | Some d \<Rightarrow> see (Str identity) ''type'' d (js ''the field's decimal policy changed''))"

definition field_value_events :: "jsstr \<Rightarrow> jsval \<Rightarrow> jsval \<Rightarrow> event list" where
  "field_value_events identity original field =
     only_if (nullable original \<noteq> nullable field)
       (see (Str identity) ''field'' (if nullable field then Conditional else Breaking)
         (js ''the field became '' @
           (if nullable field then js ''nullable'' else js ''non-nullable''))) @
     with_value (default_changed original field) (\<lambda>changed.
       only_if changed (see (Str identity) ''field'' Conditional
         (change_text ''the default'' (get original ''defaultKind'') (get field ''defaultKind'')))) @
     only_if (differs (get original ''presence'') (get field ''presence''))
       (see (Str identity) ''field'' (if required field then Breaking else Additive)
         (change_text ''presence'' (get original ''presence'') (get field ''presence''))) @
     with_value (same (list_member original ''subsets'') (list_member field ''subsets'')) (\<lambda>eq.
       only_if (\<not> eq) (see (Str identity) ''subsets'' Breaking
         (js ''the subsetted supertype fields changed''))) @
     only_if (differs (get original ''redefines'') (get field ''redefines''))
       (see (Str identity) ''redefines'' Breaking
         (change_or_none ''the redefined field'' (get original ''redefines'')
           (get field ''redefines'')))"

definition field_kept ::
  "type_map \<Rightarrow> type_map \<Rightarrow> jsstr \<Rightarrow> jsval \<Rightarrow> jsval \<Rightarrow> event list" where
  "field_kept oldTypes newTypes identity original field =
     with_value (numericSubject oldTypes (get original ''typeRef'')) (\<lambda>oldSubject.
     with_value (numericSubject newTypes (get field ''typeRef'')) (\<lambda>newSubject.
       with_value (wide_change oldSubject newSubject original field) (\<lambda>wide.
         only_if wide (see (Str identity) ''type'' Breaking
           (js ''the field's integer wire form changed between safe and wide''))) @
       diffConstraints original field (sub_scalar oldSubject) (sub_scalar newSubject) @
       field_shape_events identity original field oldSubject newSubject @
       field_value_events identity original field))"

definition field_added :: "diff_context \<Rightarrow> jsstr \<Rightarrow> jsval \<Rightarrow> event list" where
  "field_added cx identity field =
     (if required field
      then see (Str identity) ''field'' Breaking
        (js ''the required field '' @ name_text field @ js '' was added'')
      else with_value (additionDisposition (cx_policies cx) (cx_evidence cx)) (\<lambda>d.
        see (Str identity) ''field'' d
          (js ''the optional field '' @ name_text field @ js '' was added'')))"

definition diffFields ::
  "diff_context \<Rightarrow> type_map \<Rightarrow> type_map \<Rightarrow> jsval \<Rightarrow> jsval \<Rightarrow> event list" where
  "diffFields cx oldTypes newTypes previous nxt =
     with_value (identity_map (get previous ''fields'')) (\<lambda>before.
     with_value (identity_map (get nxt ''fields'')) (\<lambda>after.
       concat (map (\<lambda>(identity, field). only_if (\<not> has_key after identity)
         (see (Str identity) ''field'' Breaking
           (js ''the field '' @ name_text field @ js '' was removed''))) before) @
       concat (map (\<lambda>(identity, field). only_if (\<not> has_key before identity)
         (field_added cx identity field)) after) @
       concat (map (\<lambda>(identity, field).
         case lookup_entry before identity of
           None \<Rightarrow> []
         | Some original \<Rightarrow> field_kept oldTypes newTypes identity original field) after)))"

section \<open>Tuple positions\<close>

function ref_walk :: "type_map \<Rightarrow> jsval \<Rightarrow> jsstr list \<Rightarrow> jsval" where
  "ref_walk types current seen =
     (case current of
        Str c \<Rightarrow>
          (case map_of types c of
             None \<Rightarrow> current
           | Some t \<Rightarrow>
               if c \<in> set seen then current
               else if (get t ''kind'' = Str (js ''alias'') \<or> get t ''kind'' = Str (js ''reference'')) \<and>
                   truthy (get t ''target'')
               then ref_walk types (get t ''target'') (c # seen)
               else current)
      | _ \<Rightarrow> current)"
  by pat_completeness auto
termination
  by (relation "measure (\<lambda>(types, _, seen). length (filter (\<lambda>e. fst e \<notin> set seen) types))")
    (use unseen_less in auto)

declare ref_walk.simps [simp del]

definition resolvedRef :: "jsval \<Rightarrow> type_map \<Rightarrow> jsval" where
  "resolvedRef ref types = ref_walk types ref []"

definition position_events ::
  "type_map \<Rightarrow> type_map \<Rightarrow> nat \<Rightarrow> jsval \<Rightarrow> jsval \<Rightarrow> event list" where
  "position_events oldTypes newTypes index old current =
     with_value (member old ''typeRef'') (\<lambda>old_ref.
     with_value (member current ''typeRef'') (\<lambda>new_ref.
       only_if (to_text (get old ''identity'') \<noteq> to_text (get current ''identity'') \<or>
           \<not> strict_eq (resolvedRef old_ref oldTypes) (resolvedRef new_ref newTypes))
         (see (Str (to_text (get current ''identity''))) ''tuple'' Breaking
           (js ''the tuple position '' @ nat_text index @ js '' changed identity or type''))))"

definition diffPositions :: "type_map \<Rightarrow> type_map \<Rightarrow> jsval \<Rightarrow> jsval \<Rightarrow> event list" where
  "diffPositions oldTypes newTypes previous nxt =
     (let before = list_of (get previous ''positions''); after = list_of (get nxt ''positions'')
      in if before = [] \<and> after = [] then []
         else only_if (length before \<noteq> length after)
             (see (Str (to_text (get nxt ''identity''))) ''tuple'' Breaking
               (js ''the tuple position count changed from '' @ nat_text (length before) @
                js '' to '' @ nat_text (length after))) @
           concat (map (\<lambda>(index, old, current). position_events oldTypes newTypes index old current)
             (enumerate 0 (zip before after))))"

section \<open>Variants\<close>

definition variant_kept :: "string \<Rightarrow> jsstr \<Rightarrow> jsval \<Rightarrow> jsval \<Rightarrow> event list" where
  "variant_kept kind identity original variant =
     with_value (same (get original ''payloadType'') (get variant ''payloadType'')) (\<lambda>eq.
       only_if (\<not> eq) (see (Str identity) kind Breaking
         (change_or_none ''the variant payload'' (get original ''payloadType'')
           (get variant ''payloadType''))))"

definition variant_added :: "diff_context \<Rightarrow> string \<Rightarrow> jsstr \<Rightarrow> jsval \<Rightarrow> event list" where
  "variant_added cx kind identity variant =
     with_value (some_rejects (list_of (cx_policies cx))) (\<lambda>closed.
     with_value
       (if kind \<noteq> ''enum'' then Inr Additive
        else if closed then Inr Breaking
        else additionDisposition (cx_policies cx) (cx_evidence cx)) (\<lambda>d.
       see (Str identity) kind d (js ''the variant '' @ name_text variant @ js '' was added'')))"

definition diffVariants :: "diff_context \<Rightarrow> jsval \<Rightarrow> jsval \<Rightarrow> event list" where
  "diffVariants cx previous nxt =
     (let kind = (if get nxt ''kind'' = Str (js ''union'') then ''union'' else ''enum'')
      in with_value (identity_map (get previous ''variants'')) (\<lambda>before.
         with_value (identity_map (get nxt ''variants'')) (\<lambda>after.
           concat (map (\<lambda>(identity, variant). only_if (\<not> has_key after identity)
             (see (Str identity) kind Breaking
               (js ''the variant '' @ name_text variant @ js '' was removed''))) before) @
           concat (map (\<lambda>(identity, variant).
             case lookup_entry before identity of
               Some original \<Rightarrow> variant_kept kind identity original variant
             | None \<Rightarrow> variant_added cx kind identity variant) after))))"

section \<open>Relationships, operations and clauses\<close>

text \<open>
  The comparison of two identified lists whose entries change as a whole, which
  \<open>diffPopulations\<close> shares with its own notion of a change.
\<close>

definition diff_whole ::
  "string \<Rightarrow> (string \<Rightarrow> jsstr) \<Rightarrow> (jsstr \<Rightarrow> jsval \<Rightarrow> jsval \<Rightarrow> event list) \<Rightarrow> jsval \<Rightarrow> jsval \<Rightarrow>
     event list" where
  "diff_whole observed says kept previous nxt =
     with_value (identity_map previous) (\<lambda>before.
     with_value (identity_map nxt) (\<lambda>after.
       concat (map (\<lambda>(identity, node). only_if (\<not> has_key after identity)
         (see (Str identity) observed Breaking (says ''removed''))) before) @
       concat (map (\<lambda>(identity, node).
         case lookup_entry before identity of
           None \<Rightarrow> see (Str identity) observed Additive (says ''added'')
         | Some original \<Rightarrow> kept identity original node) after)))"

definition node_kept :: "string \<Rightarrow> jsstr \<Rightarrow> jsval \<Rightarrow> jsval \<Rightarrow> event list" where
  "node_kept observed identity original node =
     with_value (same original node) (\<lambda>eq. only_if (\<not> eq)
       (see (Str identity) observed Breaking (js (''a '' @ observed @ '' changed''))))"

definition node_lists :: "(string \<times> string) list" where
  "node_lists =
     [(''relationships'', ''relationship''), (''operations'', ''operation''), (''clauses'', ''clause'')]"

definition diffNodes :: "jsval \<Rightarrow> jsval \<Rightarrow> event list" where
  "diffNodes previous nxt =
     concat (map (\<lambda>(key, observed).
       diff_whole observed (\<lambda>what. js (''a '' @ observed @ '' was '' @ what)) (node_kept observed)
         (get previous key) (get nxt key)) node_lists)"

section \<open>Populations\<close>

definition named_when :: "bool \<Rightarrow> string \<Rightarrow> jsstr list" where
  "named_when b name = (if b then [js name] else [])"

definition changed_text :: "jsstr \<Rightarrow> jsstr list \<Rightarrow> jsstr" where
  "changed_text what changed = what @ join (js '', '') changed @ js '' changed''"

definition population_kept :: "jsstr \<Rightarrow> jsval \<Rightarrow> jsval \<Rightarrow> event list" where
  "population_kept identity original population =
     with_value (same (get original ''kind'') (get population ''kind'')) (\<lambda>kinds.
     with_value (same (list_member original ''members'') (list_member population ''members''))
       (\<lambda>members.
       let changed = named_when (\<not> kinds) ''kind'' @ named_when (\<not> members) ''members'' @
             named_when (\<not> strict_eq (get original ''extent'') (get population ''extent'')) ''extent''
       in only_if (changed \<noteq> [])
         (see (Str identity) ''populations'' Breaking
           (changed_text (js ''a population's '') changed))))"

definition diffPopulations :: "jsval \<Rightarrow> jsval \<Rightarrow> event list" where
  "diffPopulations previous nxt =
     diff_whole ''populations'' (\<lambda>what. js (''a population was '' @ what)) population_kept
       (get previous ''populations'') (get nxt ''populations'')"

section \<open>The construct table\<close>

definition constructKey :: "jsval \<Rightarrow> jsstr" where
  "constructKey entry =
     to_text (get (get entry ''kind'') ''module'') @ js ''/'' @
     to_text (get (get entry ''kind'') ''name'')"

definition constructIdentity :: "jsval \<Rightarrow> jsstr" where
  "constructIdentity entry =
     js ''ix://'' @ to_text (get (get entry ''kind'') ''module'') @ js ''/construct/'' @
     to_text (get (get entry ''kind'') ''name'')"

definition construct_map :: "jsval \<Rightarrow> thrown + type_map" where
  "construct_map document =
     try_then (array_of (get document ''constructs'')) (\<lambda>entries.
       Inr (map_from (map (\<lambda>e. (constructKey e, e)) entries)))"

definition object_member :: "jsval \<Rightarrow> string \<Rightarrow> jsval" where
  "object_member v k = coalesce (get v k) (Obj [])"

definition construct_kept :: "jsstr \<Rightarrow> jsval \<Rightarrow> jsval \<Rightarrow> event list" where
  "construct_kept key original entry =
     with_value (member entry ''construct'') (\<lambda>now.
       let was = get original ''construct'';
           moved = (\<lambda>k. \<not> strict_eq (get was k) (get now k))
       in with_value (same (object_member was ''members'') (object_member now ''members'')) (\<lambda>members.
          with_value (same (list_member was ''rules'') (list_member now ''rules'')) (\<lambda>rules.
          with_value (same (object_member was ''references'') (object_member now ''references''))
            (\<lambda>references.
            let changed = named_when (moved ''identity'') ''identity'' @
                  named_when (moved ''shape'') ''shape'' @ named_when (\<not> members) ''members'' @
                  named_when (\<not> rules) ''rules'' @ named_when (\<not> references) ''references'' @
                  named_when (\<not> strict_eq (flag_of was ''immutable'') (flag_of now ''immutable''))
                    ''immutable'' @
                  named_when (moved ''meaning'') ''meaning''
            in only_if (changed \<noteq> [])
              (see (Str (constructIdentity entry)) ''construct'' Breaking
                (changed_text (js ''the construct '' @ key @ js '''s '') changed))))))"

definition diffConstructs :: "jsval \<Rightarrow> jsval \<Rightarrow> event list" where
  "diffConstructs previous nxt =
     with_value (construct_map previous) (\<lambda>before.
     with_value (construct_map nxt) (\<lambda>after.
       concat (map (\<lambda>(key, entry). only_if (\<not> has_key after key)
         (see (Str (constructIdentity entry)) ''construct'' Breaking
           (js ''the construct '' @ key @ js '' was removed''))) before) @
       concat (map (\<lambda>(key, entry).
         case lookup_entry before key of
           None \<Rightarrow> see (Str (constructIdentity entry)) ''construct'' Additive
             (js ''the construct '' @ key @ js '' was added'')
         | Some original \<Rightarrow> construct_kept key original entry) after)))"

section \<open>The declared vocabulary\<close>

definition keyword_events :: "jsval \<Rightarrow> jsval list \<Rightarrow> jsval list \<Rightarrow> event list" where
  "keyword_events identity oldKeywords newKeywords =
     concat (map (\<lambda>k. only_if (\<not> js_has newKeywords k)
       (see identity ''constraint-vocabulary'' Breaking
         (js ''the keyword '' @ to_text k @ js '' was removed''))) oldKeywords) @
     concat (map (\<lambda>k. only_if (\<not> js_has oldKeywords k)
       (see identity ''constraint-vocabulary'' Additive
         (js ''the keyword '' @ to_text k @ js '' was added''))) newKeywords)"

text \<open>
  A function inherited from \<open>Object.prototype\<close> has no JSON text, so it differs from every operand
  list whose own text can be written.
\<close>

definition operands_retyped :: "indexed \<Rightarrow> jsval \<Rightarrow> thrown + bool" where
  "operands_retyped original operands =
     (case original of
        Own v \<Rightarrow>
          if v = Undefined then Inr False else try_then (same v operands) (\<lambda>eq. Inr (\<not> eq))
      | Inherited \<Rightarrow> try_then (canonical_text operands) (\<lambda>_. Inr True))"

definition operand_events :: "jsval \<Rightarrow> jsval \<Rightarrow> jsval \<Rightarrow> event list" where
  "operand_events identity old_operands new_operands =
     concat (map (\<lambda>(keyword, operands).
       with_value (operands_retyped (index_by old_operands keyword) operands) (\<lambda>retyped.
         only_if retyped (see identity ''constraint-vocabulary'' Breaking
           (js ''the operands of '' @ keyword @ js '' were retyped'')))) (own_entries new_operands))"

definition scalar_events :: "jsval \<Rightarrow> type_map \<Rightarrow> type_map \<Rightarrow> event list" where
  "scalar_events identity oldScalars newScalars =
     concat (map (\<lambda>(name, _). only_if (\<not> has_key newScalars name)
       (see identity ''kernel-scalar'' Breaking
         (js ''the kernel scalar '' @ name @ js '' was removed''))) oldScalars) @
     concat (map (\<lambda>(name, representation).
       case map_of oldScalars name of
         None \<Rightarrow> see identity ''kernel-scalar'' Additive
           (js ''the kernel scalar '' @ name @ js '' was added'')
       | Some was \<Rightarrow> with_value (same was representation) (\<lambda>eq. only_if (\<not> eq)
           (see identity ''kernel-scalar'' Breaking
             (js ''the kernel scalar '' @ name @ js '' was re-represented'')))) newScalars)"

definition diffVocabulary :: "jsval \<Rightarrow> event list" where
  "diffVocabulary vocabulary =
     (let identity = coalesce (get vocabulary ''identity'')
            (Str (js ''ix://agent-ix/filament-core-data/vocabulary''));
          old = get vocabulary ''old''; nxt = get vocabulary ''new''
      in with_value (items_of (get old ''constraintKeywords'')) (\<lambda>oldKeywords.
         with_value (items_of (get nxt ''constraintKeywords'')) (\<lambda>newKeywords.
           keyword_events identity (js_set oldKeywords) (js_set newKeywords) @
           operand_events identity (get old ''operands'') (get nxt ''operands'') @
           scalar_events identity (own_entries (get old ''kernelScalars''))
             (own_entries (get nxt ''kernelScalars'')))))"

end
