(* ===== verification/CompatReport.thy ===== *)
theory CompatReport
  imports CompatDiff
begin

text \<open>
  The entry point \<open>diffSemanticContract\<close> of \<open>src/src/compiler/compat/diff.mjs\<close>: the contract
  refusal, the comparison of the type graphs, the families that come from declared inputs with the
  gates an absent input adds, and the report. The family map is the data of
  \<open>src/src/compiler/compat/family-map.json\<close>.
\<close>

section \<open>Recording\<close>

text \<open>Observed family, report family, surface.\<close>

definition familyMap :: "(string \<times> string \<times> string) list" where
  "familyMap =
     [(''abstract'', ''type'', ''semantic''), (''authority'', ''authority'', ''profile''),
      (''clause'', ''type'', ''semantic''), (''constraint'', ''constraint'', ''semantic''),
      (''constraint-vocabulary'', ''constraint'', ''semantic''),
      (''construct'', ''type'', ''semantic''),
      (''contract-version'', ''generated-api'', ''target''),
      (''documentation'', ''documentation'', ''semantic''),
      (''dimension'', ''type'', ''semantic''),
      (''dimension-equivalence'', ''type'', ''semantic''), (''enum'', ''enum'', ''semantic''),
      (''field'', ''field'', ''semantic''), (''generalization'', ''type'', ''semantic''),
      (''generated-api'', ''generated-api'', ''target''),
      (''identity'', ''identity'', ''semantic''), (''kernel-scalar'', ''type'', ''semantic''),
      (''loss'', ''loss'', ''representation''), (''mapping'', ''mapping'', ''mapping''),
      (''multiplicity'', ''field'', ''semantic''), (''operation'', ''type'', ''semantic''),
      (''populations'', ''type'', ''semantic''), (''profile'', ''profile'', ''profile''),
      (''protobuf-reservation'', ''protobuf-reservation'', ''target''),
      (''redefines'', ''field'', ''semantic''), (''relationship'', ''type'', ''semantic''),
      (''subsets'', ''field'', ''semantic''), (''tuple'', ''type'', ''semantic''),
      (''type'', ''type'', ''semantic''), (''union'', ''union'', ''semantic''),
      (''unit'', ''field'', ''semantic''), (''unit-definition'', ''type'', ''semantic''),
      (''unknown-policy'', ''unknown-policy'', ''semantic'')]"

record change =
  ch_identity :: jsval
  ch_family :: string
  ch_surface :: string
  ch_disposition :: disposition
  ch_rationale :: jsstr
  ch_consumers :: "jsval list"
  ch_targets :: "(jsval \<times> jsval) list"

primrec try_map :: "('a \<Rightarrow> 'e + 'b) \<Rightarrow> 'a list \<Rightarrow> 'e + 'b list" where
  "try_map f [] = Inr []"
| "try_map f (x # xs) =
     try_then (f x) (\<lambda>y. try_then (try_map f xs) (\<lambda>ys. Inr (y # ys)))"

text \<open>\<open>targetResults[identity] ?? targetResults["*"] ?? []\<close>, on which \<open>map\<close> is called.\<close>

definition target_list :: "jsval \<Rightarrow> jsval \<Rightarrow> thrown + jsval list" where
  "target_list targets identity =
     (if nullish targets then Inl TypeThrew
      else case index_by targets (to_text identity) of
          Inherited \<Rightarrow> Inl TypeThrew
        | Own v \<Rightarrow> array_of (coalesce v (get targets ''*'')))"

definition read_target :: "jsval \<Rightarrow> thrown + (jsval \<times> jsval)" where
  "read_target item =
     try_then (member item ''target'') (\<lambda>t. Inr (t, get item ''disposition''))"

text \<open>Unknown evidence is one more disposition, a floor under the others.\<close>

definition recorded_disposition ::
  "diff_context \<Rightarrow> disposition \<Rightarrow> (jsval \<times> jsval) list \<Rightarrow> disposition" where
  "recorded_disposition cx d targets =
     mostRestrictive (Some d # map (\<lambda>t. read_disposition (snd t)) targets @
       (if cx_evidence cx = UNKNOWN then [Some UnknownEvidence] else []))"

definition record_change :: "diff_context \<Rightarrow> observation \<Rightarrow> thrown + change" where
  "record_change cx ob =
     (case map_of familyMap (ob_family ob) of
        None \<Rightarrow> Inl TypeThrew
      | Some (family, surface) \<Rightarrow>
          try_then (target_list (cx_targets cx) (ob_identity ob)) (\<lambda>perTarget.
          try_then (try_map read_target perTarget) (\<lambda>targets.
          try_then (try_map (\<lambda>p. member p ''consumer'') (list_of (cx_policies cx))) (\<lambda>consumers.
            Inr \<lparr>ch_identity = ob_identity ob, ch_family = family, ch_surface = surface,
                 ch_disposition = recorded_disposition cx (ob_disposition ob) targets,
                 ch_rationale = ob_rationale ob, ch_consumers = consumers,
                 ch_targets = targets\<rparr>))))"

text \<open>The changes recorded so far, or the first exception.\<close>

fun collect_changes :: "diff_context \<Rightarrow> event list \<Rightarrow> thrown + change list" where
  "collect_changes cx [] = Inr []"
| "collect_changes cx (Threw e # _) = Inl e"
| "collect_changes cx (Seen ob # evs) =
     try_then (record_change cx ob) (\<lambda>c.
       try_then (collect_changes cx evs) (\<lambda>cs. Inr (c # cs)))"

section \<open>The type graph\<close>

definition typesOf :: "jsval \<Rightarrow> thrown + type_map" where
  "typesOf document = identity_map (get document ''types'')"

definition display_text :: "jsval \<Rightarrow> jsstr" where
  "display_text ty = to_text (get ty ''displayName'')"

definition renamed_type :: "type_map \<Rightarrow> type_map \<Rightarrow> jsval \<Rightarrow> jsval option" where
  "renamed_type oldTypes newTypes ty =
     (case find (\<lambda>(_, candidate). display_text candidate = display_text ty \<and>
           \<not> has_key oldTypes (to_text (get candidate ''identity''))) newTypes of
        None \<Rightarrow> None
      | Some (_, candidate) \<Rightarrow> if truthy candidate then Some candidate else None)"

definition removed_types :: "type_map \<Rightarrow> type_map \<Rightarrow> event list" where
  "removed_types oldTypes newTypes =
     concat (map (\<lambda>(identity, ty). only_if (\<not> has_key newTypes identity)
       (case renamed_type oldTypes newTypes ty of
          Some renamed \<Rightarrow> see (Str identity) ''identity'' Breaking
            (js ''the stable identity of '' @ display_text ty @ js '' changed to '' @
             to_text (get renamed ''identity''))
        | None \<Rightarrow> see (Str identity) ''type'' Breaking
            (js ''the type '' @ display_text ty @ js '' was removed''))) oldTypes)"

definition added_types :: "type_map \<Rightarrow> type_map \<Rightarrow> event list" where
  "added_types oldTypes newTypes =
     concat (map (\<lambda>(identity, ty).
       only_if (\<not> has_key oldTypes identity \<and> display_text ty \<notin> (display_text \<circ> snd) ` set oldTypes)
         (see (Str identity) ''type'' Additive
           (js ''the type '' @ display_text ty @ js '' was added''))) newTypes)"

definition is_alias :: "jsval \<Rightarrow> bool" where
  "is_alias ty \<longleftrightarrow>
     get ty ''kind'' = Str (js ''alias'') \<or> get ty ''kind'' = Str (js ''reference'')"

definition kind_events :: "jsstr \<Rightarrow> jsval \<Rightarrow> jsval \<Rightarrow> subject \<Rightarrow> subject \<Rightarrow> event list" where
  "kind_events identity previous nxt oldSubject newSubject =
     (let before = sub_scalar oldSubject; after = sub_scalar newSubject
      in if kindLabel (get previous ''kind'') \<noteq> kindLabel (get nxt ''kind'')
         then see (Str identity) ''type'' Breaking
           (js ''the structural kind changed from '' @ kindLabel (get previous ''kind'') @
            js '' to '' @ kindLabel (get nxt ''kind''))
         else
           (case scalarChange before after of
              None \<Rightarrow> []
            | Some d \<Rightarrow> see (Str identity) ''type'' d
                (change_text ''the scalar domain'' (get previous ''scalar'') (get nxt ''scalar''))) @
           with_value (decimalPolicyChange (sub_decimal oldSubject) (sub_decimal newSubject))
             (\<lambda>policy. case policy of
                None \<Rightarrow> []
              | Some d \<Rightarrow> see (Str identity) ''type'' d (js ''the decimal policy changed'')) @
           only_if (is_alias previous \<and>
               \<not> strict_eq (get previous ''target'') (get nxt ''target'') \<and>
               numeric_scalars before after)
             (with_value (numericRefDisposition (Obj []) (Obj []) oldSubject newSubject) (\<lambda>d.
               see (Str identity) ''type'' d
                 (js ''the alias target changed its effective numeric domain''))) @
           only_if (before = Str (js ''integer'') \<and> after = Str (js ''integer'') \<and>
               wideInteger (sub_constraints oldSubject) \<noteq> wideInteger (sub_constraints newSubject))
             (see (Str identity) ''type'' Breaking
               (js ''the integer wire form changed between safe and wide'')))"

definition header_events :: "jsstr \<Rightarrow> jsval \<Rightarrow> jsval \<Rightarrow> event list" where
  "header_events identity previous nxt =
     with_value (same (list_member previous ''supertypes'') (list_member nxt ''supertypes'')) (\<lambda>eq.
       only_if (\<not> eq) (see (Str identity) ''generalization'' Breaking
         (js ''the supertypes changed''))) @
     only_if (\<not> strict_eq (flag_of previous ''abstract'') (flag_of nxt ''abstract''))
       (if get nxt ''abstract'' = Bool True
        then see (Str identity) ''abstract'' Breaking
          (js ''the type became abstract, disallowing the direct instances it previously allowed'')
        else see (Str identity) ''abstract'' Additive
          (js ''the type became concrete, allowing direct instances it previously disallowed'')) @
     only_if (\<not> strict_eq (get previous ''unknownPolicy'') (get nxt ''unknownPolicy''))
       (see (Str identity) ''unknown-policy''
         (if get previous ''unknownPolicy'' = Str (js ''preserve'') \<and>
             get nxt ''unknownPolicy'' = Str (js ''reject'') then Breaking else Conditional)
         (change_text ''the unknown policy'' (get previous ''unknownPolicy'')
           (get nxt ''unknownPolicy'')))"

section \<open>Documentation\<close>

definition keep_extension :: "jsval \<Rightarrow> jsval list \<Rightarrow> thrown + jsval list" where
  "keep_extension extension kept =
     try_then (member extension ''identity'') (\<lambda>i.
       Inr (if ends_with (to_text i) (js ''/ext/doc'') then kept else kept @ [extension]))"

definition strip_node :: "jsval \<Rightarrow> thrown + jsval" where
  "strip_node node =
     (case get node ''extensions'' of
        Arr xs \<Rightarrow> try_then (try_fold keep_extension xs []) (\<lambda>kept.
          Inr (set_member ''extensions'' (Arr kept) node))
      | _ \<Rightarrow> Inr node)"

text \<open>Iterating a string strips its characters, which changes nothing.\<close>

definition stripDocumentation :: "jsval \<Rightarrow> thrown + jsval" where
  "stripDocumentation ty =
     try_then (strip_node ty) (\<lambda>copy.
       case get copy ''fields'' of
         Arr fs \<Rightarrow> try_then (try_map strip_node fs) (\<lambda>stripped.
           Inr (set_member ''fields'' (Arr stripped) copy))
       | v \<Rightarrow> try_then (items_of v) (\<lambda>_. Inr copy))"

definition documentation_only :: "jsval \<Rightarrow> jsval \<Rightarrow> thrown + bool" where
  "documentation_only previous nxt =
     try_then (stripDocumentation previous) (\<lambda>p.
     try_then (stripDocumentation nxt) (\<lambda>n.
     try_then (same p n) (\<lambda>meaning.
       if \<not> meaning then Inr False
       else try_then (same previous nxt) (\<lambda>eq. Inr (\<not> eq)))))"

definition kept_type ::
  "diff_context \<Rightarrow> type_map \<Rightarrow> type_map \<Rightarrow> jsstr \<Rightarrow> jsval \<Rightarrow> jsval \<Rightarrow> event list" where
  "kept_type cx oldTypes newTypes identity previous nxt =
     with_value (numericSubject oldTypes (Str identity)) (\<lambda>oldSubject.
     with_value (numericSubject newTypes (Str identity)) (\<lambda>newSubject.
       kind_events identity previous nxt oldSubject newSubject @
       header_events identity previous nxt @
       diffFields cx oldTypes newTypes previous nxt @
       diffVariants cx previous nxt @
       diffPositions oldTypes newTypes previous nxt @
       diffConstraints previous nxt (sub_scalar oldSubject) (sub_scalar newSubject) @
       diffNodes previous nxt @
       with_value (same (list_member previous ''roles'') (list_member nxt ''roles'')) (\<lambda>eq.
         only_if (\<not> eq) (see (Str identity) ''type'' Conditional
           (js ''the declared roles changed''))) @
       with_value (documentation_only previous nxt) (\<lambda>only.
         only_if only (see (Str identity) ''documentation'' Patch
           (js ''only documentation changed; no semantic value moved'')))))"

definition type_events :: "diff_context \<Rightarrow> jsval \<Rightarrow> jsval \<Rightarrow> event list" where
  "type_events cx before after =
     with_value (typesOf before) (\<lambda>oldTypes.
     with_value (typesOf after) (\<lambda>newTypes.
       removed_types oldTypes newTypes @
       added_types oldTypes newTypes @
       concat (map (\<lambda>(identity, nxt).
         case lookup_entry oldTypes identity of
           None \<Rightarrow> []
         | Some previous \<Rightarrow> kept_type cx oldTypes newTypes identity previous nxt) newTypes)))"

section \<open>Families that come from declared inputs\<close>

definition both_given :: "jsval \<Rightarrow> bool" where
  "both_given inputs \<longleftrightarrow> truthy (get inputs ''old'') \<and> truthy (get inputs ''new'')"

text \<open>\<open>includes\<close>: of an array its members, of a string its substrings.\<close>

definition includes_value :: "jsval \<Rightarrow> jsval \<Rightarrow> thrown + bool" where
  "includes_value v x =
     (case coalesce v (Arr []) of
        Arr xs \<Rightarrow> Inr (js_has xs x)
      | Str s \<Rightarrow> Inr (list_ex (\<lambda>n. starts_with (drop n s) (to_text x)) [0..<Suc (length s)])
      | _ \<Rightarrow> Inl TypeThrew)"

definition keep_omission :: "jsval \<Rightarrow> jsval \<Rightarrow> jsval list \<Rightarrow> thrown + jsval list" where
  "keep_omission old_omissions identity kept =
     try_then (includes_value old_omissions identity) (\<lambda>known.
       Inr (if known then kept else kept @ [identity]))"

definition profile_events :: "jsval \<Rightarrow> event list" where
  "profile_events profiles =
     (let old = get profiles ''old''; nxt = get profiles ''new''; identity = get nxt ''identity''
      in with_value (array_of (get nxt ''allowedOmissions'')) (\<lambda>omissions.
         with_value (try_fold (keep_omission (get old ''allowedOmissions'')) omissions [])
           (\<lambda>gained.
           concat (map (\<lambda>omitted. see omitted ''profile'' Breaking
             (js ''the profile gained an allowed omission'')) gained) @
           only_if (\<not> strict_eq (get old ''editDirection'') (get nxt ''editDirection''))
             (see identity ''mapping'' Conditional
               (change_text ''edit direction'' (get old ''editDirection'')
                 (get nxt ''editDirection''))) @
           only_if (\<not> strict_eq (get old ''authority'') (get nxt ''authority''))
             (see identity ''authority'' Breaking
               (change_text ''authority'' (get old ''authority'') (get nxt ''authority''))))))"

definition observed_drops :: "jsval \<Rightarrow> jsstr \<Rightarrow> thrown + jsval list" where
  "observed_drops observedLoss identity =
     (if nullish observedLoss then Inl TypeThrew
      else case index_by observedLoss identity of Inherited \<Rightarrow> Inl TypeThrew | Own v \<Rightarrow> array_of v)"

definition slashed :: "jsval \<Rightarrow> jsstr" where
  "slashed t = to_text (get t ''kind'') @ js ''/'' @ to_text (get t ''purity'')"

definition mapping_kept :: "jsval \<Rightarrow> jsstr \<Rightarrow> jsval \<Rightarrow> jsval \<Rightarrow> event list" where
  "mapping_kept observedLoss identity previous nxt =
     (let before = object_member previous ''transformation''; now = object_member nxt ''transformation''
      in only_if (\<not> strict_eq (get before ''kind'') (get now ''kind'') \<or>
             \<not> strict_eq (get before ''purity'') (get now ''purity''))
           (see (Str identity) ''mapping'' Conditional
             (js ''the transformation changed from '' @ slashed before @ js '' to '' @ slashed now)) @
         only_if (differs (get before ''preservation'') (get now ''preservation''))
           (see (Str identity) ''mapping'' Conditional
             (change_or_none ''preservation'' (get before ''preservation'')
               (get now ''preservation''))) @
         with_value (observed_drops observedLoss identity) (\<lambda>dropped.
         with_value (items_of (get now ''omittedIdentities'')) (\<lambda>declared.
           let undeclared = filter (\<lambda>item. \<not> js_has (js_set declared) item) dropped
           in only_if (undeclared \<noteq> []) (see (Str identity) ''loss'' Breaking
             (js ''loss is present and undeclared for '' @ join_values (js '', '') undeclared)))))"

definition mapping_events :: "jsval \<Rightarrow> jsval \<Rightarrow> event list" where
  "mapping_events observedLoss mappings =
     with_value (identity_map (get mappings ''old'')) (\<lambda>oldMappings.
     with_value (identity_map (get mappings ''new'')) (\<lambda>newMappings.
       concat (map (\<lambda>(identity, nxt).
         case lookup_entry oldMappings identity of
           None \<Rightarrow> []
         | Some previous \<Rightarrow> mapping_kept observedLoss identity previous nxt) newMappings)))"

definition reservation_events :: "jsval \<Rightarrow> event list" where
  "reservation_events reservations =
     (let old = get reservations ''old''; nxt = get reservations ''new''
      in with_value (items_of (get nxt ''used'')) (\<lambda>used.
           concat (map (\<lambda>entry.
             with_value (includes_value (get old ''reserved'') entry) (\<lambda>reserved.
               only_if reserved (see (get nxt ''identity'') ''protobuf-reservation'' Invalid
                 (js ''the reserved Protobuf entry '' @ to_text entry @ js '' was reused'')))) used)))"

definition same_name :: "indexed \<Rightarrow> jsval \<Rightarrow> bool" where
  "same_name old name = (case old of Own v \<Rightarrow> strict_eq v name | Inherited \<Rightarrow> False)"

definition generated_events :: "jsval \<Rightarrow> event list" where
  "generated_events generatedNames =
     concat (map (\<lambda>(identity, name).
       only_if (\<not> same_name (index_by (get generatedNames ''old'') identity) name)
         (see (Str identity) ''generated-api'' Patch
           (js ''a generated name changed with no semantic identity change'')))
       (own_entries (get generatedNames ''new'')))"

section \<open>The report\<close>

record diff_request =
  rq_old :: jsval
  rq_new :: jsval
  rq_policies :: jsval
  rq_evidence :: jsval
  rq_targets :: jsval
  rq_profiles :: jsval
  rq_mappings :: jsval
  rq_reservations :: jsval
  rq_vocabulary :: jsval
  rq_generatedNames :: jsval
  rq_observedLoss :: jsval
  rq_retainedBridges :: jsval

record report =
  rp_evidence :: jsval
  rp_changes :: "change list"
  rp_aggregate :: disposition
  rp_gates :: "jsstr list"
  rp_bridges :: "jsval list"

text \<open>The default of a destructured member, which only \<open>undefined\<close> selects.\<close>

definition defaulted :: "jsval \<Rightarrow> jsval \<Rightarrow> jsval" where
  "defaulted v d = (if v = Undefined then d else v)"

definition context_of :: "diff_request \<Rightarrow> diff_context" where
  "context_of rq =
     \<lparr>cx_policies = rq_policies rq,
      cx_evidence = defaulted (rq_evidence rq) (Str (js ''current'')),
      cx_targets = defaulted (rq_targets rq) (Obj [])\<rparr>"

definition supported :: "jsval \<Rightarrow> bool" where
  "supported document \<longleftrightarrow> get document ''contractVersion'' = Str (js ''2.0.0'')"

definition refuse_contract :: "string \<Rightarrow> jsval \<Rightarrow> thrown + unit" where
  "refuse_contract role document =
     refuse_if (\<not> supported document) (ContractRefusal
       (diag_named ''UNKNOWN_CONTRACT_VERSION''
         (js ''the '' @ js role @ js '' document declares contract version '' @
          fragment (Str (to_text (get document ''contractVersion''))) @
          js ''; this compiler supports 2.0.0'') [] [] None))"

definition input_events :: "diff_request \<Rightarrow> event list" where
  "input_events rq =
     only_if (both_given (rq_profiles rq)) (profile_events (rq_profiles rq)) @
     only_if (both_given (rq_mappings rq))
       (mapping_events (defaulted (rq_observedLoss rq) (Obj [])) (rq_mappings rq)) @
     only_if (both_given (rq_reservations rq)) (reservation_events (rq_reservations rq)) @
     only_if (both_given (rq_vocabulary rq)) (diffVocabulary (rq_vocabulary rq)) @
     (if both_given (rq_generatedNames rq) then generated_events (rq_generatedNames rq)
      else only_if (rq_targets rq = Null) [Threw TypeThrew])"

definition required_gates :: "diff_request \<Rightarrow> jsstr list" where
  "required_gates rq =
     map snd (filter fst
       [(\<not> both_given (rq_profiles rq), js ''profile and authority families need profile documents''),
        (\<not> both_given (rq_mappings rq), js ''mapping and loss families need mapping documents''),
        (\<not> both_given (rq_reservations rq),
         js ''the protobuf-reservation family needs a Protobuf reservation registry''),
        (\<not> both_given (rq_vocabulary rq),
         js ''the constraint-vocabulary and kernel-scalar families need a declared constraint vocabulary''),
        (\<not> both_given (rq_generatedNames rq) \<and> keys_count (cx_targets (context_of rq)) = 0,
         js ''the generated-api family needs per-target dispositions'')])"

definition all_events :: "diff_request \<Rightarrow> event list" where
  "all_events rq =
     type_events (context_of rq) (rq_old rq) (rq_new rq) @
     diffPopulations (rq_old rq) (rq_new rq) @
     diffConstructs (rq_old rq) (rq_new rq) @
     input_events rq"

definition no_change_event :: "diff_request \<Rightarrow> observation" where
  "no_change_event rq =
     \<lparr>ob_identity = Str (to_text (coalesce (get (get (rq_new rq) ''source'') ''identity'')
          (Str (js ''ix://agent-ix/unknown/source'')))),
      ob_family = ''documentation'', ob_disposition = Patch,
      ob_rationale = js ''the two contracts have no classified surface changes''\<rparr>"

definition compare_changes :: "change \<Rightarrow> change \<Rightarrow> int" where
  "compare_changes left right =
     (if js_less (ch_identity left) (ch_identity right) then -1
      else if js_less (ch_identity right) (ch_identity left) then 1
      else if ch_rationale left < ch_rationale right then -1
      else if ch_rationale right < ch_rationale left then 1 else 0)"

text \<open>\<open>sort()\<close> without a comparator: by text, \<open>undefined\<close> last.\<close>

definition compare_default :: "jsval \<Rightarrow> jsval \<Rightarrow> int" where
  "compare_default a b =
     (if a = Undefined then (if b = Undefined then 0 else 1)
      else if b = Undefined then -1
      else if to_text a < to_text b then -1 else if to_text b < to_text a then 1 else 0)"

definition report_of :: "diff_request \<Rightarrow> change list \<Rightarrow> jsval list \<Rightarrow> report" where
  "report_of rq changes bridges =
     \<lparr>rp_evidence = cx_evidence (context_of rq),
      rp_changes = stable_sort compare_changes changes,
      rp_aggregate = mostRestrictive
        (map (\<lambda>c. Some (ch_disposition c)) (stable_sort compare_changes changes)),
      rp_gates = sort (required_gates rq),
      rp_bridges = stable_sort compare_default bridges\<rparr>"

definition diffSemanticContract :: "diff_request \<Rightarrow> thrown + report" where
  "diffSemanticContract rq =
     try_then (refuse_contract ''old'' (rq_old rq)) (\<lambda>_.
     try_then (refuse_contract ''new'' (rq_new rq)) (\<lambda>_.
     try_then (collect_changes (context_of rq) (all_events rq)) (\<lambda>changes.
     try_then (if changes = [] then collect_changes (context_of rq) [Seen (no_change_event rq)]
               else Inr changes) (\<lambda>recorded.
     try_then (iterate (defaulted (rq_retainedBridges rq) (Arr []))) (\<lambda>bridges.
       Inr (report_of rq recorded bridges))))))"

end
