(* ===== verification/CompatSound.thy ===== *)
theory CompatSound
  imports CompatDomains CompatReport
begin

text \<open>
  What a compatibility report of \<open>src/src/compiler/compat/diff.mjs\<close> promises: its changes are in
  order and its aggregate is their maximum, no part of the comparison is relaxed on the way into the
  report, what is removed breaks, and a contract compared with itself yields one documentation patch.
\<close>

section \<open>Collected changes\<close>

lemma collect_changes_Inr:
  "collect_changes cx evs = Inr cs \<Longrightarrow> Seen ob \<in> set evs \<Longrightarrow>
     \<exists>c \<in> set cs. record_change cx ob = Inr c"
proof (induction cx evs arbitrary: cs rule: collect_changes.induct)
  case (3 cx ob' evs)
  then show ?case by (auto simp: try_then_Inr)
qed auto

lemma collect_changes_from:
  "collect_changes cx evs = Inr cs \<Longrightarrow> c \<in> set cs \<Longrightarrow>
     \<exists>ob. Seen ob \<in> set evs \<and> record_change cx ob = Inr c"
proof (induction cx evs arbitrary: cs rule: collect_changes.induct)
  case (3 cx ob' evs)
  then show ?case by (fastforce simp: try_then_Inr)
qed auto

lemma record_change_parts:
  assumes "record_change cx ob = Inr c"
  shows "ch_identity c = ob_identity ob" "ob_disposition ob \<le> ch_disposition c"
    "cx_evidence cx = UNKNOWN \<Longrightarrow> UnknownEvidence \<le> ch_disposition c"
    "ch_rationale c = ob_rationale ob"
    "t \<in> set (ch_targets c) \<Longrightarrow> read_disposition (snd t) = Some d \<Longrightarrow> d \<le> ch_disposition c"
  using assms
  by (auto simp: record_change_def try_then_Inr recorded_disposition_def
      split: option.splits intro!: mostRestrictive_upper)
    (metis image_eqI)+

lemma report_parts:
  assumes "diffSemanticContract rq = Inr rp"
  shows "\<exists>cs changes bridges. supported (rq_old rq) \<and> supported (rq_new rq) \<and>
    collect_changes (context_of rq) (all_events rq) = Inr cs \<and>
    collect_changes (context_of rq) (if cs = [] then [Seen (no_change_event rq)] else all_events rq) =
      Inr changes \<and>
    rp = report_of rq changes bridges \<and> (cs \<noteq> [] \<longrightarrow> changes = cs)"
proof -
  from assms obtain cs :: "change list" and changes bridges where c: "supported (rq_old rq)" "supported (rq_new rq)"
    "collect_changes (context_of rq) (all_events rq) = Inr cs"
    "(if cs = [] then collect_changes (context_of rq) [Seen (no_change_event rq)] else Inr cs) = Inr changes"
    "rp = report_of rq changes bridges"
    by (auto simp: diffSemanticContract_def try_then_Inr refuse_contract_def)
  then show ?thesis by (intro exI [of _ cs] exI [of _ changes] exI [of _ bridges]) (auto split: if_splits)
qed

lemma report_of_seen:
  assumes "diffSemanticContract rq = Inr rp" and "Seen ob \<in> set (all_events rq)"
  shows "\<exists>c \<in> set (rp_changes rp). record_change (context_of rq) ob = Inr c"
proof -
  obtain cs :: "change list" and changes bridges where r: "collect_changes (context_of rq) (all_events rq) = Inr cs"
      "rp = report_of rq changes bridges" "cs \<noteq> [] \<longrightarrow> changes = cs"
    using report_parts [OF assms(1)] by blast
  from collect_changes_Inr [OF r(1) assms(2)] obtain c where "c \<in> set cs" "record_change (context_of rq) ob = Inr c"
    by blast
  moreover from this have "changes = cs" using r(3) by auto
  ultimately show ?thesis by (auto simp: r(2) report_of_def)
qed

lemma report_recorded:
  assumes "diffSemanticContract rq = Inr rp" and "c \<in> set (rp_changes rp)"
  shows "\<exists>ob. record_change (context_of rq) ob = Inr c"
proof -
  obtain cs :: "change list" and changes bridges where r:
      "collect_changes (context_of rq) (if cs = [] then [Seen (no_change_event rq)] else all_events rq) = Inr changes"
      "rp = report_of rq changes bridges"
    using report_parts [OF assms(1)] by blast
  from assms(2) have "c \<in> set changes" by (simp add: r(2) report_of_def)
  from collect_changes_from [OF r(1) this] show ?thesis by blast
qed

lemma report_changes_nonempty: "diffSemanticContract rq = Inr rp \<Longrightarrow> rp_changes rp \<noteq> []"
proof -
  assume d: "diffSemanticContract rq = Inr rp"
  obtain cs :: "change list" and changes bridges where r:
      "collect_changes (context_of rq) (if cs = [] then [Seen (no_change_event rq)] else all_events rq) = Inr changes"
      "rp = report_of rq changes bridges" "cs \<noteq> [] \<longrightarrow> changes = cs"
    using report_parts [OF d] by blast
  have "changes \<noteq> []" using r(1,3) by (cases "cs = []") (auto simp: try_then_Inr)
  then show ?thesis using r(2) by (metis length_0_conv length_stable_sort report.select_convs(2) report_of_def)
qed

lemma report_aggregate_max:
  assumes "diffSemanticContract rq = Inr rp"
  shows "rp_aggregate rp = Max (ch_disposition ` set (rp_changes rp))"
proof -
  obtain cs :: "change list" and changes bridges where r: "rp = report_of rq changes bridges"
    using report_parts [OF assms] by blast
  let ?ds = "map (\<lambda>c. Some (ch_disposition c)) (rp_changes rp)"
  have a: "rp_aggregate rp = mostRestrictive ?ds" by (simp add: r report_of_def)
  obtain c where c: "c \<in> set (rp_changes rp)"
    using report_changes_nonempty [OF assms] by (cases "rp_changes rp") auto
  show ?thesis
  proof (rule Max_eqI [symmetric])
    show "finite (ch_disposition ` set (rp_changes rp))" by simp
    show "y \<le> rp_aggregate rp" if "y \<in> ch_disposition ` set (rp_changes rp)" for y
      unfolding a by (rule mostRestrictive_upper) (use that in auto)
    show "rp_aggregate rp \<in> ch_disposition ` set (rp_changes rp)"
    proof (cases "mostRestrictive ?ds = Patch")
      case True
      have "ch_disposition c \<le> mostRestrictive ?ds" by (rule mostRestrictive_upper) (use c in auto)
      then have "ch_disposition c = Patch" using True by (simp add: antisym)
      then show ?thesis using c True a by force
    next
      case False
      then show ?thesis using mostRestrictive_member [of ?ds] a by auto
    qed
  qed
qed

text \<open>The order of the changes, on identities that are strings.\<close>

definition change_key :: "change \<Rightarrow> jsstr \<times> jsstr" where
  "change_key c = (to_text (ch_identity c), ch_rationale c)"

definition compare_pairs :: "jsstr \<times> jsstr \<Rightarrow> jsstr \<times> jsstr \<Rightarrow> int" where
  "compare_pairs a b = (if a < b then -1 else if b < a then 1 else 0)"

interpretation pairs: comparator_law compare_pairs
  by unfold_locales (auto simp: compare_pairs_def split: if_splits)

lemma compare_changes_key:
  assumes "is_string (ch_identity a)" "is_string (ch_identity b)"
  shows "compare_changes a b = compare_pairs (change_key a) (change_key b)"
proof -
  obtain x y where "ch_identity a = Str x" "ch_identity b = Str y"
    using assms by (cases "ch_identity a"; cases "ch_identity b") auto
  then show ?thesis
    by (auto simp: compare_changes_def compare_pairs_def change_key_def less_prod_def)
qed

lemma compare_pairs_le: "compare_pairs a b \<le> 0 \<longleftrightarrow> a \<le> b"
  by (auto simp: compare_pairs_def)

lemma report_sorted:
  assumes "diffSemanticContract rq = Inr rp" and "\<forall>c \<in> set (rp_changes rp). is_string (ch_identity c)"
  shows "sorted (map change_key (rp_changes rp))"
proof -
  obtain cs :: "change list" and changes bridges where r: "rp = report_of rq changes bridges"
    using report_parts [OF assms(1)] by blast
  have s: "rp_changes rp = stable_sort compare_changes changes" by (simp add: r report_of_def)
  have "stable_sort compare_changes changes =
      stable_sort (\<lambda>a b. compare_pairs (change_key a) (change_key b)) changes"
    by (rule stable_sort_cong) (use assms(2) s in \<open>simp add: compare_changes_key\<close>)
  then have "map change_key (rp_changes rp) = stable_sort compare_pairs (map change_key changes)"
    by (simp add: s stable_sort_map)
  then show ?thesis
    using pairs.sorted_stable_sort [of "map change_key changes"]
    by (simp add: compare_pairs_le)
qed

section \<open>What is removed breaks\<close>

lemma seen_append: "Seen ob \<in> set (xs @ ys) \<longleftrightarrow> Seen ob \<in> set xs \<or> Seen ob \<in> set ys"
  by simp

lemma seen_concat_map: "x \<in> set xs \<Longrightarrow> Seen ob \<in> set (f x) \<Longrightarrow> Seen ob \<in> set (concat (map f xs))"
  by auto

lemma seen_see: "Seen \<lparr>ob_identity = i, ob_family = f, ob_disposition = d, ob_rationale = r\<rparr> \<in> set (see i f d r)"
  by (simp add: see_def)

text \<open>
  What a consumer of the old contract relied on and no longer finds, or must now supply: a type, a
  field or a variant was removed, a required field was added, the structural kind changed.
\<close>

definition gone :: "jsval \<Rightarrow> jsval \<Rightarrow> jsstr \<Rightarrow> bool" where
  "gone before after k \<longleftrightarrow>
     (case (identity_map before, identity_map after) of
        (Inr b, Inr a) \<Rightarrow> has_key b k \<and> \<not> has_key a k
      | _ \<Rightarrow> False)"

definition demanded :: "jsval \<Rightarrow> jsval \<Rightarrow> jsstr \<Rightarrow> bool" where
  "demanded before after k \<longleftrightarrow>
     (case (identity_map before, identity_map after) of
        (Inr b, Inr a) \<Rightarrow> \<not> has_key b k \<and>
          (case map_of a k of None \<Rightarrow> False | Some f \<Rightarrow> required f)
      | _ \<Rightarrow> False)"

definition breaks_type :: "jsval \<Rightarrow> jsval \<Rightarrow> jsstr \<Rightarrow> bool" where
  "breaks_type previous nxt k \<longleftrightarrow>
     gone (get previous ''fields'') (get nxt ''fields'') k \<or>
     demanded (get previous ''fields'') (get nxt ''fields'') k \<or>
     gone (get previous ''variants'') (get nxt ''variants'') k"

lemma gone_maps:
  assumes "gone before after k"
  obtains b a v where "identity_map before = Inr b" "identity_map after = Inr a"
    "(k, v) \<in> set b" "\<not> has_key a k"
  using assms by (auto simp: gone_def has_key_def split: sum.splits dest: map_of_SomeD)

lemma demanded_maps:
  assumes "demanded before after k"
  obtains b a v where "identity_map before = Inr b" "identity_map after = Inr a"
    "(k, v) \<in> set a" "\<not> has_key b k" "required v"
  using assms by (auto simp: demanded_def split: sum.splits option.splits dest: map_of_SomeD)

definition breaking_at :: "jsstr \<Rightarrow> event list \<Rightarrow> bool" where
  "breaking_at k evs \<longleftrightarrow> (\<exists>ob. Seen ob \<in> set evs \<and> ob_identity ob = Str k \<and> ob_disposition ob = Breaking)"

lemma breaking_at_append [simp]: "breaking_at k (xs @ ys) \<longleftrightarrow> breaking_at k xs \<or> breaking_at k ys"
  by (auto simp: breaking_at_def)

lemma breaking_at_concat: "x \<in> set xs \<Longrightarrow> breaking_at k (f x) \<Longrightarrow> breaking_at k (concat (map f xs))"
  by (auto simp: breaking_at_def)

lemma breaking_at_see [simp]: "breaking_at k (see (Str k) f Breaking r)"
  by (auto simp: breaking_at_def see_def)

lemma fields_gone: "gone (get previous ''fields'') (get nxt ''fields'') k \<Longrightarrow>
    breaking_at k (diffFields cx olds news previous nxt)"
  by (erule gone_maps)
    (auto simp: diffFields_def intro!: disjI1 breaking_at_concat)

lemma fields_demanded: "demanded (get previous ''fields'') (get nxt ''fields'') k \<Longrightarrow>
    breaking_at k (diffFields cx olds news previous nxt)"
proof (elim demanded_maps)
  fix b a v
  assume m: "identity_map (get previous ''fields'') = Inr b" "identity_map (get nxt ''fields'') = Inr a"
    "(k, v) \<in> set a" "\<not> has_key b k" "required v"
  have "breaking_at k (concat (map (\<lambda>(identity, field). only_if (\<not> has_key b identity)
      (field_added cx identity field)) a))"
    by (rule breaking_at_concat [OF m(3)]) (simp add: m(4,5) field_added_def)
  then show ?thesis by (simp add: diffFields_def m(1,2))
qed

lemma variants_gone: "gone (get previous ''variants'') (get nxt ''variants'') k \<Longrightarrow>
    breaking_at k (diffVariants cx previous nxt)"
  by (erule gone_maps)
    (auto simp: diffVariants_def Let_def intro!: disjI1 breaking_at_concat)

lemma type_breaks: "breaks_type previous nxt k \<Longrightarrow>
    numericSubject olds (Str t) = Inr s \<Longrightarrow> numericSubject news (Str t) = Inr s' \<Longrightarrow>
    breaking_at k (kept_type cx olds news t previous nxt)"
  using fields_gone fields_demanded variants_gone
  by (auto simp: breaks_type_def kept_type_def)

text \<open>A report exists only where nothing was thrown.\<close>

lemma collect_changes_calm: "collect_changes cx evs = Inr cs \<Longrightarrow> Threw e \<notin> set evs"
  by (induction cx evs arbitrary: cs rule: collect_changes.induct) (auto simp: try_then_Inr)

definition calm :: "event list \<Rightarrow> bool" where
  "calm evs \<longleftrightarrow> (\<forall>e. Threw e \<notin> set evs)"

lemma calm_append [simp]: "calm (xs @ ys) \<longleftrightarrow> calm xs \<and> calm ys"
  by (auto simp: calm_def)

lemma calm_concat: "calm (concat (map f xs)) \<Longrightarrow> x \<in> set xs \<Longrightarrow> calm (f x)"
  by (auto simp: calm_def)

lemma calm_with_value: "calm (with_value r f) \<Longrightarrow> \<exists>x. r = Inr x \<and> calm (f x)"
  by (cases r) (auto simp: calm_def)

lemma report_calm: "diffSemanticContract rq = Inr rp \<Longrightarrow> calm (all_events rq)"
  using report_parts [of rq rp] collect_changes_calm by (auto simp: calm_def)

lemma type_events_break:
  assumes maps: "typesOf before = Inr olds" "typesOf after = Inr news"
    and calm: "calm (type_events cx before after)"
    and lost: "has_key olds k \<and> \<not> has_key news k \<or>
      (\<exists>t previous nxt. lookup_entry olds t = Some previous \<and> (t, nxt) \<in> set news \<and>
        breaks_type previous nxt k)"
  shows "breaking_at k (type_events cx before after)"
  using lost
proof
  assume k: "has_key olds k \<and> \<not> has_key news k"
  then obtain v where v: "(k, v) \<in> set olds" by (auto simp: has_key_def dest: map_of_SomeD)
  have "breaking_at k (removed_types olds news)"
    unfolding removed_types_def
    by (rule breaking_at_concat [OF v]) (use k in \<open>simp split: option.splits\<close>)
  then show ?thesis by (simp add: type_events_def maps)
next
  assume "\<exists>t previous nxt. lookup_entry olds t = Some previous \<and> (t, nxt) \<in> set news \<and>
    breaks_type previous nxt k"
  then obtain t previous nxt where t: "lookup_entry olds t = Some previous" "(t, nxt) \<in> set news"
    "breaks_type previous nxt k" by blast
  define f where "f = (\<lambda>(identity, nxt). case lookup_entry olds identity of
      None \<Rightarrow> [] | Some previous \<Rightarrow> kept_type cx olds news identity previous nxt)"
  have e: "type_events cx before after =
      removed_types olds news @ added_types olds news @ concat (map f news)"
    by (simp add: type_events_def maps f_def)
  have "calm (f (t, nxt))" using calm t(2) unfolding e by (auto intro: calm_concat)
  then have "calm (kept_type cx olds news t previous nxt)" by (simp add: f_def t(1))
  then obtain s s' where "numericSubject olds (Str t) = Inr s" "numericSubject news (Str t) = Inr s'"
    unfolding kept_type_def by (blast dest: calm_with_value)
  then have "breaking_at k (kept_type cx olds news t previous nxt)" by (rule type_breaks [OF t(3)])
  then have "breaking_at k (f (t, nxt))" by (simp add: f_def t(1))
  then have "breaking_at k (concat (map f news))" by (rule breaking_at_concat [OF t(2)])
  then show ?thesis by (simp add: e)
qed

lemma report_breaks:
  assumes "diffSemanticContract rq = Inr rp" and "breaking_at k (all_events rq)"
  shows "\<exists>c \<in> set (rp_changes rp). ch_identity c = Str k \<and> Breaking \<le> ch_disposition c"
proof -
  obtain ob where ob: "Seen ob \<in> set (all_events rq)" "ob_identity ob = Str k" "ob_disposition ob = Breaking"
    using assms(2) by (auto simp: breaking_at_def)
  from report_of_seen [OF assms(1) ob(1)] obtain c where
    "c \<in> set (rp_changes rp)" "record_change (context_of rq) ob = Inr c" by blast
  then show ?thesis using record_change_parts(1,2) ob by metis
qed

section \<open>What a report promises\<close>

text \<open>
  C5. A report has at least one change, its changes are in the order of their identities and
  rationales (where the identities are strings), and its aggregate disposition is the most
  restrictive one among them. No change is less restrictive than any of its per-target dispositions,
  and under unknown evidence none is less restrictive than \<open>unknown\<close>.
\<close>

theorem report_sound:
  assumes "diffSemanticContract rq = Inr rp"
  shows "rp_changes rp \<noteq> [] \<and> rp_aggregate rp = Max (ch_disposition ` set (rp_changes rp)) \<and>
    (if list_all (\<lambda>c. is_string (ch_identity c)) (rp_changes rp)
     then sorted (map change_key (rp_changes rp)) else True) \<and>
    list_all (\<lambda>c. list_all (\<lambda>t. case read_disposition (snd t) of
        None \<Rightarrow> True | Some d \<Rightarrow> d \<le> ch_disposition c) (ch_targets c)) (rp_changes rp) \<and>
    (if rq_evidence rq = UNKNOWN
     then list_all (\<lambda>c. UnknownEvidence \<le> ch_disposition c) (rp_changes rp) else True)"
proof -
  have t: "d \<le> ch_disposition c"
    if "c \<in> set (rp_changes rp)" "t \<in> set (ch_targets c)" "read_disposition (snd t) = Some d" for c t d
    using report_recorded [OF assms that(1)] record_change_parts(5) that by blast
  have u: "UnknownEvidence \<le> ch_disposition c"
    if "c \<in> set (rp_changes rp)" "rq_evidence rq = UNKNOWN" for c
    using report_recorded [OF assms that(1)] record_change_parts(3) that(2)
    by (force simp: context_of_def defaulted_def UNKNOWN_def)
  show ?thesis
    using report_changes_nonempty [OF assms] report_aggregate_max [OF assms] report_sorted [OF assms] t u
    by (auto simp: list_all_iff split: option.splits)
qed

text \<open>
  C4. What a consumer of the old contract loses is never reported below \<open>breaking\<close>: for a removed
  type, and in a type both contracts have for a removed field, a required field that was not there
  before or a removed variant, the report has a change of that identity at \<open>breaking\<close> or above, and
  so is its aggregate.
\<close>

theorem removals_break:
  assumes "diffSemanticContract rq = Inr rp"
    and "typesOf (rq_old rq) = Inr olds" "typesOf (rq_new rq) = Inr news"
    and "has_key olds k \<and> \<not> has_key news k \<or>
      (\<exists>t previous nxt. lookup_entry olds t = Some previous \<and> (t, nxt) \<in> set news \<and>
        breaks_type previous nxt k)"
  shows "\<exists>c \<in> set (rp_changes rp). ch_identity c = Str k \<and> Breaking \<le> ch_disposition c \<and>
    Breaking \<le> rp_aggregate rp"
proof -
  have "calm (type_events (context_of rq) (rq_old rq) (rq_new rq))"
    using report_calm [OF assms(1)] by (simp add: all_events_def)
  then have "breaking_at k (all_events rq)"
    using type_events_break [OF assms(2,3) _ assms(4)] by (simp add: all_events_def)
  from report_breaks [OF assms(1) this] obtain c where
    c: "c \<in> set (rp_changes rp)" "ch_identity c = Str k" "Breaking \<le> ch_disposition c" by blast
  have "ch_disposition c \<le> rp_aggregate rp"
    unfolding report_aggregate_max [OF assms(1)] by (rule Max_ge) (use c(1) in auto)
  then show ?thesis using c by force
qed

definition bare_type :: "string \<Rightarrow> jsval" where
  "bare_type k = Obj [(js ''identity'', Str (js k)), (js ''displayName'', Str (js k))]"

definition bare_contract :: "string list \<Rightarrow> jsval" where
  "bare_contract ks =
     Obj [(js ''contractVersion'', Str (js ''2.0.0'')), (js ''types'', Arr (map bare_type ks))]"

definition bare_request :: "string list \<Rightarrow> string list \<Rightarrow> diff_request" where
  "bare_request old nxt =
     \<lparr>rq_old = bare_contract old, rq_new = bare_contract nxt, rq_policies = Undefined,
      rq_evidence = UNKNOWN, rq_targets = Undefined, rq_profiles = Undefined,
      rq_mappings = Undefined, rq_reservations = Undefined, rq_vocabulary = Undefined,
      rq_generatedNames = Undefined, rq_observedLoss = Undefined, rq_retainedBridges = Undefined\<rparr>"

lemma bare_collected: "case collect_changes (context_of (bare_request [''a''] [''b'']))
    (all_events (bare_request [''a''] [''b''])) of Inr cs \<Rightarrow> cs \<noteq> [] | Inl e \<Rightarrow> False"
  by code_simp

lemma bare_answers: "\<exists>rp. diffSemanticContract (bare_request [''a''] [''b'']) = Inr rp"
proof -
  let ?rq = "bare_request [''a''] [''b'']"
  have s: "supported (rq_old ?rq)" "supported (rq_new ?rq)" "rq_retainedBridges ?rq = Undefined"
    by (simp_all add: bare_request_def bare_contract_def supported_def)
  obtain cs where "collect_changes (context_of ?rq) (all_events ?rq) = Inr cs" "cs \<noteq> []"
    using bare_collected by (auto split: sum.splits)
  then show ?thesis
    by (simp add: diffSemanticContract_def refuse_contract_def refuse_if_def s defaulted_def iterate_def)
qed

theorem report_sound_witness:
  "\<exists>rp. diffSemanticContract (bare_request [''a''] [''b'']) = Inr rp \<and> rp_changes rp \<noteq> [] \<and>
     rp_aggregate rp = Max (ch_disposition ` set (rp_changes rp))"
proof -
  obtain rp where r: "diffSemanticContract (bare_request [''a''] [''b'']) = Inr rp"
    using bare_answers by blast
  from report_sound [OF r] r show ?thesis by blast
qed

theorem removals_break_witness:
  "\<exists>rp. diffSemanticContract (bare_request [''a''] [''b'']) = Inr rp \<and> Breaking \<le> rp_aggregate rp"
proof -
  let ?rq = "bare_request [''a''] [''b'']"
  obtain rp where r: "diffSemanticContract ?rq = Inr rp"
    using bare_answers by blast
  have o: "typesOf (rq_old ?rq) = Inr [(js ''a'', bare_type ''a'')]" by code_simp
  have n: "typesOf (rq_new ?rq) = Inr [(js ''b'', bare_type ''b'')]" by code_simp
  from removals_break [OF r o n, of "js ''a''"] r show ?thesis by (auto simp: has_key_def)
qed

end
