(* ===== verification/CompatSelf.thy ===== *)
theory CompatSelf
  imports CompatSound
begin

text \<open>
  A contract compared with itself: where the values the code compares by reference are not objects,
  no part of the comparison of \<open>src/src/compiler/compat/diff.mjs\<close> observes anything, so the report
  is the one documentation patch. And what the comparison reads of the two documents.
\<close>

section \<open>Silent comparisons\<close>

text \<open>No observation: at most exceptions.\<close>

definition quiet :: "event list \<Rightarrow> bool" where
  "quiet evs \<longleftrightarrow> (\<forall>ob. Seen ob \<notin> set evs)"

lemma quiet_Nil [simp]: "quiet []"
  by (simp add: quiet_def)

lemma quiet_Threw [simp]: "quiet [Threw e]"
  by (simp add: quiet_def)

lemma quiet_append [simp]: "quiet (xs @ ys) \<longleftrightarrow> quiet xs \<and> quiet ys"
  by (auto simp: quiet_def)

lemma quiet_concat: "(\<And>x. x \<in> set xs \<Longrightarrow> quiet (f x)) \<Longrightarrow> quiet (concat (map f xs))"
  by (auto simp: quiet_def)

lemma quiet_with: "(\<And>x. r = Inr x \<Longrightarrow> quiet (f x)) \<Longrightarrow> quiet (with_value r f)"
  by (cases r) (auto simp: quiet_def)

lemma quiet_only_if: "(b \<Longrightarrow> quiet evs) \<Longrightarrow> quiet (only_if b evs)"
  by (cases b) simp_all

lemma quiet_calm: "quiet evs \<Longrightarrow> calm evs \<Longrightarrow> evs = []"
  by (metis calm_def event.exhaust list.set_intros(1) neq_Nil_conv quiet_def)

text \<open>Values \<open>===\<close> finds equal to themselves when parsed twice: all but objects, arrays and \<open>NaN\<close>.\<close>

definition comparable :: "jsval \<Rightarrow> bool" where
  "comparable v \<longleftrightarrow> strict_eq v v"

lemma comparable_simps [simp]:
  "comparable Undefined" "comparable Null" "comparable (Bool b)" "comparable (Str s)"
  by (simp_all add: comparable_def)

lemma comparable_differs [simp]: "comparable v \<Longrightarrow> \<not> differs v v"
  by (simp add: comparable_def differs_def coalesce_def)

lemma comparable_coalesce [simp]: "comparable v \<Longrightarrow> comparable w \<Longrightarrow> comparable (coalesce v w)"
  by (simp add: coalesce_def)

lemma comparable_flag [simp]: "comparable (get v k) \<Longrightarrow> comparable (flag_of v k)"
  by (simp add: flag_of_def)

lemma comparable_strict: "comparable v \<Longrightarrow> strict_eq v v"
  by (simp add: comparable_def)

lemma same_self: "same v v = Inr b \<Longrightarrow> b"
  by (auto simp: same_def try_then_Inr)

lemma same_not_self [simp]: "same v v \<noteq> Inr False"
  using same_self [of v False] by auto

lemma scalarChange_self: "comparable v \<Longrightarrow> scalarChange v v = None"
  by (simp add: scalarChange_def comparable_def)

lemma policy_self: "decimalPolicyChange v v = Inr p \<Longrightarrow> p = None"
  by (auto simp: decimalPolicyChange_def try_then_Inr dest: same_self)

lemma multiplicity_self: "multiplicityChange v v = Inr p \<Longrightarrow> p = None"
  by (auto simp: multiplicityChange_def try_then_Inr Let_def dest: same_self)

section \<open>Maps by identity\<close>

lemma set_update_snd: "set (map snd (AList.update k v m)) \<subseteq> insert v (set (map snd m))"
  by (induction m) auto

lemma add_identified_update: "add_identified x acc = Inr m \<Longrightarrow> \<exists>i. m = AList.update i x acc"
  by (auto simp: add_identified_def try_then_Inr)

lemma identity_fold:
  "try_fold add_identified xs acc = Inr m \<Longrightarrow> distinct (map fst acc) \<Longrightarrow>
     distinct (map fst m) \<and> set (map snd m) \<subseteq> set (map snd acc) \<union> set xs"
proof (induction xs arbitrary: acc)
  case (Cons x xs)
  from Cons.prems(1) obtain acc' where "add_identified x acc = Inr acc'"
    and f: "try_fold add_identified xs acc' = Inr m" by (auto simp: try_then_Inr)
  then obtain i where i: "acc' = AList.update i x acc" using add_identified_update by blast
  have "distinct (map fst acc')" unfolding i by (rule distinct_update [OF Cons.prems(2)])
  from Cons.IH [OF f this] set_update_snd [of i x acc] show ?case unfolding i
    by (auto simp del: set_map)
qed simp

lemma identity_map_keys: "identity_map v = Inr m \<Longrightarrow> distinct (map fst m) \<and> set (map snd m) \<subseteq> set (list_of v)"
  using identity_fold [of "list_of v" "[]" m] by (simp add: identity_map_def)

lemma identity_map_get: "identity_map v = Inr m \<Longrightarrow> (k, x) \<in> set m \<Longrightarrow> map_of m k = Some x"
  using identity_map_keys [of v m] by simp

lemma identity_map_has: "(k, x) \<in> set m \<Longrightarrow> has_key m k"
  by (auto simp: has_key_def weak_map_of_SomeI)

lemma identity_map_value: "identity_map v = Inr m \<Longrightarrow> (k, x) \<in> set m \<Longrightarrow> x \<in> set (list_of v)"
  using identity_map_keys [of v m] by force

lemma self_lookup:
  "identity_map v = Inr m \<Longrightarrow> (k, x) \<in> set m \<Longrightarrow>
     lookup_entry m k = (if truthy x then Some x else None)"
  by (simp add: lookup_entry_def identity_map_get)

section \<open>Parts that see nothing\<close>

text \<open>The entries of an identified list are objects, so none of them tests as false.\<close>

definition entries_of :: "jsval \<Rightarrow> bool" where
  "entries_of l \<longleftrightarrow> list_all truthy (list_of l)"

lemma entries_truthy: "entries_of l \<Longrightarrow> identity_map l = Inr m \<Longrightarrow> (k, v) \<in> set m \<Longrightarrow> truthy v"
  using identity_map_value [of l m k v] by (simp add: entries_of_def list_all_iff)

lemma self_lookup_truthy:
  "entries_of l \<Longrightarrow> identity_map l = Inr m \<Longrightarrow> (k, x) \<in> set m \<Longrightarrow> lookup_entry m k = Some x"
  by (simp add: self_lookup entries_truthy)

lemma constraints_self: "entries_of (get v ''constraints'') \<Longrightarrow> quiet (diffConstraints v v s t)"
  by (auto simp: diffConstraints_def constraint_kept_def identity_map_has self_lookup_truthy
      intro!: quiet_with quiet_concat quiet_only_if dest!: same_self)

text \<open>What the code compares by \<open>===\<close> in a field, a type, a population and a construct entry.\<close>

definition comparable_field :: "jsval \<Rightarrow> bool" where
  "comparable_field f \<longleftrightarrow>
     list_all (\<lambda>k. comparable (get f k)) [''unit'', ''typeRef'', ''defaultKind'', ''presence'', ''redefines''] \<and>
     entries_of (get f ''constraints'')"

definition comparable_type :: "jsval \<Rightarrow> bool" where
  "comparable_type t \<longleftrightarrow>
     list_all (\<lambda>k. comparable (get t k)) [''target'', ''scalar'', ''unknownPolicy'', ''abstract''] \<and>
     list_all comparable_field (list_of (get t ''fields'')) \<and>
     list_all (\<lambda>p. comparable (get p ''typeRef'')) (list_of (get t ''positions'')) \<and>
     list_all (\<lambda>k. entries_of (get t k))
       [''constraints'', ''variants'', ''relationships'', ''operations'', ''clauses'']"

definition comparable_construct :: "jsval \<Rightarrow> bool" where
  "comparable_construct e \<longleftrightarrow>
     list_all (\<lambda>k. comparable (get (get e ''construct'') k)) [''identity'', ''shape'', ''immutable'', ''meaning'']"

definition comparable_document :: "jsval \<Rightarrow> bool" where
  "comparable_document d \<longleftrightarrow>
     list_all comparable_type (list_of (get d ''types'')) \<and> entries_of (get d ''populations'') \<and>
     entries_of (get d ''constructs'') \<and>
     list_all (\<lambda>p. comparable (get p ''extent'')) (list_of (get d ''populations'')) \<and>
     list_all comparable_construct (list_of (get d ''constructs''))"

lemma default_self: "comparable (get f ''defaultKind'') \<Longrightarrow> default_changed f f = Inr b \<Longrightarrow> \<not> b"
  by (auto simp: default_changed_def comparable_def try_then_Inr dest: same_self)

lemma field_shape_self: "comparable_field f \<Longrightarrow> quiet (field_shape_events k f f s s)"
  by (auto simp: field_shape_events_def comparable_field_def comparable_strict
      intro!: quiet_with dest: multiplicity_self policy_self)

lemma field_value_self: "comparable_field f \<Longrightarrow> quiet (field_value_events k f f)"
  by (auto simp: field_value_events_def comparable_field_def
      intro!: quiet_with quiet_only_if dest: same_self default_self)

lemma wide_self: "wide_change s s f f = Inr b \<Longrightarrow> \<not> b"
  by (auto simp: wide_change_def try_then_Inr split: if_splits)

lemma field_self: "comparable_field f \<Longrightarrow> quiet (field_kept m m k f f)"
  by (auto simp: field_kept_def field_shape_self field_value_self constraints_self
        comparable_field_def [of f]
      intro!: quiet_with quiet_only_if dest: wide_self)

lemma fields_self:
  assumes "list_all comparable_field (list_of (get t ''fields''))"
  shows "quiet (diffFields cx m m t t)"
proof -
  have f: "comparable_field f" if "identity_map (get t ''fields'') = Inr fm" "(k, f) \<in> set fm" for fm k f
    using assms identity_map_value [OF that] by (simp add: list_all_iff)
  show ?thesis
    by (auto simp: diffFields_def identity_map_has self_lookup f field_self
        intro!: quiet_with quiet_concat quiet_only_if)
qed

lemma variants_self: "entries_of (get t ''variants'') \<Longrightarrow> quiet (diffVariants cx t t)"
  by (auto simp: diffVariants_def Let_def identity_map_has self_lookup_truthy variant_kept_def
      intro!: quiet_with quiet_concat quiet_only_if)

lemma diff_whole_self:
  assumes "\<And>k v. v \<in> set (list_of l) \<Longrightarrow> quiet (kept k v v)" and "entries_of l"
  shows "quiet (diff_whole observed says kept l l)"
  using assms identity_map_value [of l]
  by (auto simp: diff_whole_def identity_map_has self_lookup_truthy
      intro!: quiet_with quiet_concat quiet_only_if)

lemma nodes_self:
  assumes "list_all (\<lambda>k. entries_of (get t k)) [''relationships'', ''operations'', ''clauses'']"
  shows "quiet (diffNodes t t)"
proof -
  have "quiet (node_kept observed k v v)" for observed k v
    by (auto simp: node_kept_def intro!: quiet_with quiet_only_if)
  then show ?thesis using assms
    by (auto simp: diffNodes_def node_lists_def intro!: diff_whole_self)
qed

lemma populations_self:
  assumes "list_all (\<lambda>p. comparable (get p ''extent'')) (list_of (get d ''populations''))"
    and "entries_of (get d ''populations'')"
  shows "quiet (diffPopulations d d)"
proof -
  have "quiet (population_kept k v v)" if "comparable (get v ''extent'')" for k v
    using that by (auto simp: population_kept_def named_when_def comparable_strict
        intro!: quiet_with quiet_only_if)
  then show ?thesis using assms
    by (auto simp: diffPopulations_def list_all_iff intro!: diff_whole_self)
qed

lemma construct_self:
  assumes "comparable_construct e"
  shows "quiet (construct_kept k e e)"
  using assms
  by (auto simp: construct_kept_def comparable_construct_def named_when_def comparable_strict Let_def
      member_def intro!: quiet_with quiet_only_if split: if_splits)

lemma constructs_self:
  assumes "list_all comparable_construct (list_of (get d ''constructs''))"
    and "entries_of (get d ''constructs'')"
  shows "quiet (diffConstructs d d)"
proof -
  have m: "map_of m k = Some e \<and> truthy e \<and> comparable_construct e"
    if "construct_map d = Inr m" "(k, e) \<in> set m" for m k e
  proof -
    from that(1) obtain es where es: "array_of (get d ''constructs'') = Inr es"
      and m: "m = map_from (map (\<lambda>e. (constructKey e, e)) es)"
      by (auto simp: construct_map_def try_then_Inr)
    have k: "map_of m k = Some e" using that(2) map_of_is_SomeI [OF distinct_map_from] by (simp add: m)
    then have "(k, e) \<in> set (map (\<lambda>e. (constructKey e, e)) es)"
      unfolding m map_of_map_from by (auto dest: map_of_SomeD)
    then have "e \<in> set (list_of (get d ''constructs''))"
      using es by (auto simp: array_of_def coalesce_def split: jsval.splits if_splits)
    then show ?thesis using assms k by (simp add: list_all_iff entries_of_def)
  qed
  then show ?thesis
    by (auto simp: diffConstructs_def identity_map_has lookup_entry_def construct_self
        intro!: quiet_with quiet_concat quiet_only_if)
qed

section \<open>Types\<close>

definition comparable_map :: "type_map \<Rightarrow> bool" where
  "comparable_map m \<longleftrightarrow> (\<forall>t \<in> snd ` set m. comparable_type t)"

lemma comparable_map_get: "comparable_map m \<Longrightarrow> map_of m k = Some t \<Longrightarrow> comparable_type t"
  unfolding comparable_map_def by (metis image_eqI map_of_SomeD snd_conv)

lemma comparable_typeD:
  "comparable_type t \<Longrightarrow> comparable (get t ''target'')" "comparable_type t \<Longrightarrow> comparable (get t ''scalar'')"
  "comparable_type t \<Longrightarrow> comparable (get t ''unknownPolicy'')"
  "comparable_type t \<Longrightarrow> comparable (get t ''abstract'')"
  by (simp_all add: comparable_type_def)

lemma native_comparable [simp]: "comparable (native_numeric c)"
  by (simp add: native_numeric_def Let_def split: option.splits)

lemma subject_comparable:
  "comparable_map types \<Longrightarrow> subject_walk types current seen constraints dec = Inr s \<Longrightarrow>
     comparable (sub_scalar s)"
proof (induction types current seen constraints dec arbitrary: s rule: subject_walk.induct)
  case (1 types current seen constraints dec)
  show ?case
  proof (cases "\<exists>c t. current = Str c \<and> c \<notin> set seen \<and> map_of types c = Some t \<and> truthy t")
    case False
    then show ?thesis using "1.prems"
      by (auto simp: subject_walk.simps [of types current] split: jsval.splits if_splits option.splits)
  next
    case True
    then obtain c t where c: "current = Str c" "c \<notin> set seen" "map_of types c = Some t" "truthy t"
      by blast
    from "1.prems"(2) obtain own where own: "items_of (get t ''constraints'') = Inr own"
      unfolding c(1) by (auto simp: subject_walk.simps [of types "Str c"] c(2-4) try_then_Inr)
    note IH = "1.IH" [OF c(1,2,3) _ own refl refl refl]
    have "comparable (get t ''scalar'')" using comparable_map_get [OF "1.prems"(1) c(3)] by (simp add: comparable_typeD)
    then show ?thesis using "1.prems" IH unfolding c(1)
      by (auto simp: subject_walk.simps [of types "Str c"] c(2-4) own Let_def split: if_splits)
  qed
qed

lemma numericSubject_comparable:
  "comparable_map types \<Longrightarrow> numericSubject types v = Inr s \<Longrightarrow> comparable (sub_scalar s)"
  unfolding numericSubject_def by (rule subject_comparable)

lemma ref_comparable:
  "comparable_map types \<Longrightarrow> comparable current \<Longrightarrow> comparable (ref_walk types current seen)"
proof (induction types current seen rule: ref_walk.induct)
  case (1 types current seen)
  show ?case
    using 1 by (subst ref_walk.simps)
      (auto split: jsval.splits option.splits dest: comparable_map_get comparable_typeD)
qed

lemma kind_self:
  assumes "comparable_type t" "comparable (sub_scalar s)"
  shows "quiet (kind_events k t t s s)"
  using assms
  by (auto simp: kind_events_def Let_def scalarChange_self comparable_strict comparable_typeD
      intro!: quiet_with quiet_only_if dest: policy_self)

lemma header_self: "comparable_type t \<Longrightarrow> quiet (header_events k t t)"
  by (auto simp: header_events_def comparable_strict comparable_typeD intro!: quiet_with quiet_only_if)

lemma positions_self:
  assumes m: "comparable_map m" and t: "comparable_type t"
  shows "quiet (diffPositions m m t t)"
proof -
  have q: "quiet (position_events m m n p p)" if "p \<in> set (list_of (get t ''positions''))" for n p
  proof -
    have "comparable (get p ''typeRef'')" using t that by (simp add: comparable_type_def list_all_iff)
    then have "strict_eq (resolvedRef (get p ''typeRef'') m) (resolvedRef (get p ''typeRef'') m)"
      using ref_comparable [OF m] by (simp add: resolvedRef_def comparable_def)
    then show ?thesis
      by (auto simp: position_events_def member_def intro!: quiet_with split: if_splits)
  qed
  have "quiet (concat (map (\<lambda>(n, old, current). position_events m m n old current)
      (enumerate 0 (zip (list_of (get t ''positions'')) (list_of (get t ''positions''))))))"
  proof (rule quiet_concat, clarify)
    fix n a b
    assume "(n, a, b) \<in> set (enumerate 0 (zip (list_of (get t ''positions'')) (list_of (get t ''positions''))))"
    then have "(a, b) \<in> set (zip (list_of (get t ''positions'')) (list_of (get t ''positions'')))"
      unfolding enumerate_eq_zip by (rule set_zip_rightD)
    then have "a = b \<and> a \<in> set (list_of (get t ''positions''))" by (auto simp: zip_same_conv_map)
    then show "quiet (position_events m m n a b)" using q by auto
  qed
  then show ?thesis by (simp add: diffPositions_def Let_def)
qed

lemma documentation_self: "documentation_only t t = Inr b \<Longrightarrow> \<not> b"
  by (auto simp: documentation_only_def try_then_Inr split: if_splits)

lemma kept_self:
  assumes m: "comparable_map m" and t: "comparable_type t"
  shows "quiet (kept_type cx m m k t t)"
proof -
  have f: "list_all comparable_field (list_of (get t ''fields''))" "entries_of (get t ''variants'')"
    "entries_of (get t ''constraints'')"
    "list_all (\<lambda>k. entries_of (get t k)) [''relationships'', ''operations'', ''clauses'']"
    using t by (simp_all add: comparable_type_def)
  show ?thesis
    using kind_self [OF t] header_self [OF t] fields_self [OF f(1)] variants_self [OF f(2)]
      positions_self [OF m t] constraints_self [OF f(3)] nodes_self [OF f(4)]
      numericSubject_comparable [OF m]
    by (auto simp: kept_type_def intro!: quiet_with quiet_only_if dest: documentation_self)
qed

lemma types_self:
  assumes "list_all comparable_type (list_of (get d ''types''))"
  shows "quiet (type_events cx d d)"
proof (unfold type_events_def, rule quiet_with, rule quiet_with)
  fix m m'
  assume m: "typesOf d = Inr m" "typesOf d = Inr m'"
  then have e: "m' = m" by simp
  have i: "identity_map (get d ''types'') = Inr m" using m(1) by (simp add: typesOf_def)
  have t: "comparable_type t" if "(k, t) \<in> set m" for k t
    using assms identity_map_value [OF i that] by (simp add: list_all_iff)
  then have c: "comparable_map m" by (auto simp: comparable_map_def)
  have "quiet (removed_types m m)" "quiet (added_types m m)"
    by (auto simp: removed_types_def added_types_def identity_map_has intro!: quiet_concat)
  moreover have "quiet (concat (map (\<lambda>(k, nxt). case lookup_entry m k of None \<Rightarrow> []
      | Some previous \<Rightarrow> kept_type cx m m k previous nxt) m))"
    by (rule quiet_concat) (auto simp: self_lookup [OF i] intro: kept_self [OF c t])
  ultimately show "quiet (removed_types m m' @ added_types m m' @
      concat (map (\<lambda>(k, nxt). case lookup_entry m k of None \<Rightarrow> []
        | Some previous \<Rightarrow> kept_type cx m m' k previous nxt) m'))"
    unfolding e by simp
qed

section \<open>A contract compared with itself\<close>

text \<open>A request without declared inputs.\<close>

definition plain_request :: "jsval \<Rightarrow> jsval \<Rightarrow> diff_request" where
  "plain_request old nxt =
     \<lparr>rq_old = old, rq_new = nxt, rq_policies = Undefined, rq_evidence = Undefined,
      rq_targets = Undefined, rq_profiles = Undefined, rq_mappings = Undefined,
      rq_reservations = Undefined, rq_vocabulary = Undefined, rq_generatedNames = Undefined,
      rq_observedLoss = Undefined, rq_retainedBridges = Undefined\<rparr>"

lemma plain_events:
  "all_events (plain_request old nxt) =
     type_events (context_of (plain_request old nxt)) old nxt @ diffPopulations old nxt @
     diffConstructs old nxt"
  by (simp add: all_events_def plain_request_def input_events_def both_given_def truthy_def)

lemma self_events:
  assumes "comparable_document d"
  shows "quiet (all_events (plain_request d d))"
  using assms types_self [of d] populations_self [of d] constructs_self [of d]
  by (simp add: plain_events comparable_document_def)

lemma plain_targets [simp]: "cx_targets (context_of (plain_request old nxt)) = Obj []"
  "cx_policies (context_of (plain_request old nxt)) = Undefined"
  "cx_evidence (context_of (plain_request old nxt)) = Str (js ''current'')"
  by (simp_all add: context_of_def plain_request_def defaulted_def)

lemma self_report:
  assumes "comparable_document d" and r: "diffSemanticContract (plain_request d d) = Inr rp"
  shows "\<exists>c. rp_changes rp = [c] \<and> ob_identity (no_change_event (plain_request d d)) = ch_identity c \<and>
    ch_family c = ''documentation'' \<and> ch_disposition c = Patch \<and> rp_aggregate rp = Patch"
proof -
  let ?rq = "plain_request d d"
  obtain cs :: "change list" and changes bridges where
    cs: "collect_changes (context_of ?rq) (all_events ?rq) = Inr cs" and
    ch: "collect_changes (context_of ?rq) (if cs = [] then [Seen (no_change_event ?rq)] else all_events ?rq) = Inr changes"
    and rp: "rp = report_of ?rq changes bridges"
    using report_parts [OF r] by blast
  have "all_events ?rq = []"
    by (rule quiet_calm [OF self_events [OF assms(1)] report_calm [OF r]])
  with cs have "cs = []" by simp
  with ch obtain c where c: "record_change (context_of ?rq) (no_change_event ?rq) = Inr c" "changes = [c]"
    by (auto simp: try_then_Inr)
  have f: "map_of familyMap ''documentation'' = Some (''documentation'', ''semantic'')"
    by (simp add: familyMap_def)
  have n: "target_list (Obj []) i = Inr ts \<Longrightarrow> ts = []" for i ts
    by (auto simp: target_list_def nullish_def index_by_def own_entries_def array_of_def coalesce_def
        split: if_splits)
  have p: "ch_identity c = ob_identity (no_change_event ?rq) \<and> ch_family c = ''documentation'' \<and>
      ch_disposition c = Patch"
    using c(1)
    by (auto simp: record_change_def no_change_event_def f try_then_Inr recorded_disposition_def
        mostRestrictive_def worse_def UNKNOWN_def dest!: n)
  moreover have "rp_changes rp = [c]" "rp_aggregate rp = mostRestrictive [Some (ch_disposition c)]"
    by (simp_all add: rp report_of_def c(2) stable_sort_def)
  ultimately show ?thesis by (simp add: mostRestrictive_def worse_def)
qed

text \<open>
  C6. Comparing a contract with itself, without declared inputs, yields one change: a documentation
  patch identified by the source of the contract, and the aggregate \<open>patch\<close>, wherever the comparison
  answers and the members the code compares by \<open>===\<close> are no objects.
\<close>

theorem self_diff:
  assumes "comparable_document d" and "diffSemanticContract (plain_request d d) = Inr rp"
  shows "\<exists>c. rp_changes rp = [c] \<and> ob_identity (no_change_event (plain_request d d)) = ch_identity c \<and>
    ch_family c = ''documentation'' \<and> ch_disposition c = Patch \<and> rp_aggregate rp = Patch"
  by (rule self_report [OF assms])

definition small_type :: "jsval list \<Rightarrow> jsval" where
  "small_type fs =
     Obj [(js ''identity'', Str (js ''t'')), (js ''fields'', Arr fs)]"

definition small_contract :: "jsval list \<Rightarrow> jsval list \<Rightarrow> jsval" where
  "small_contract fs us =
     Obj [(js ''contractVersion'', Str (js ''2.0.0'')),
          (js ''source'', Obj [(js ''identity'', Str (js ''s''))]),
          (js ''types'', Arr [small_type fs]), (js ''units'', Arr us)]"

definition small_field :: "string \<Rightarrow> jsval" where
  "small_field presence =
     Obj [(js ''identity'', Str (js ''f'')), (js ''presence'', Str (js presence))]"

definition small_unit :: jsval where
  "small_unit = Obj [(js ''identity'', Str (js ''u''))]"

definition small_request :: diff_request where
  "small_request =
     plain_request (small_contract [small_field ''optional''] []) (small_contract [small_field ''optional''] [])"

lemma small_events: "all_events small_request = []"
  by code_simp

lemma small_recorded: "case collect_changes (context_of small_request) [Seen (no_change_event small_request)] of
    Inr cs \<Rightarrow> True | Inl e \<Rightarrow> False"
  by code_simp

lemma small_answers: "\<exists>rp. diffSemanticContract small_request = Inr rp"
proof -
  have s: "supported (rq_old small_request)" "supported (rq_new small_request)"
    "rq_retainedBridges small_request = Undefined" by code_simp+
  obtain cs where "collect_changes (context_of small_request) [Seen (no_change_event small_request)] = Inr cs"
    using small_recorded by (auto split: sum.splits)
  then show ?thesis
    unfolding diffSemanticContract_def small_events
    by (simp add: refuse_contract_def refuse_if_def s defaulted_def iterate_def)
qed

theorem self_diff_witness:
  "\<exists>rp c. diffSemanticContract small_request = Inr rp \<and> rp_changes rp = [c] \<and> ch_disposition c = Patch"
proof -
  have d: "comparable_document (small_contract [small_field ''optional''] [])" by code_simp
  obtain rp where r: "diffSemanticContract small_request = Inr rp" using small_answers by blast
  from self_diff [OF d r [unfolded small_request_def]] show ?thesis using r by blast
qed

section \<open>What the comparison reads\<close>

definition agree_on :: "string list \<Rightarrow> jsval \<Rightarrow> jsval \<Rightarrow> bool" where
  "agree_on ks d e \<longleftrightarrow> list_all (\<lambda>k. get d k = get e k) ks"

definition READ_MEMBERS :: "string list" where
  "READ_MEMBERS = [''contractVersion'', ''types'', ''populations'', ''constructs'']"

lemma events_read:
  assumes "agree_on READ_MEMBERS (rq_old rq) old" "agree_on READ_MEMBERS (rq_new rq) nxt"
  shows "all_events (rq\<lparr>rq_old := old, rq_new := nxt\<rparr>) = all_events rq"
  using assms
  by (simp add: all_events_def type_events_def typesOf_def diffPopulations_def diffConstructs_def
      construct_map_def context_of_def input_events_def agree_on_def READ_MEMBERS_def)



section \<open>Unknown evidence\<close>

definition rejecting_consumer :: jsval where
  "rejecting_consumer = Arr [Obj [(js ''consumer'', Str (js ''c'')), (js ''unknownExtensions'', Str (js ''reject''))]]"

definition optional_field_added :: "jsval \<Rightarrow> diff_request" where
  "optional_field_added evidence =
     (plain_request (small_contract [] []) (small_contract [small_field ''optional''] []))
       \<lparr>rq_policies := rejecting_consumer, rq_evidence := evidence\<rparr>"

text \<open>
  For a consumer that rejects what it does not know, an optional field added to a type is
  \<open>breaking\<close>; declaring that the evidence about the consumers is unknown turns the same report into
  \<open>unknown\<close>, which ranks below \<open>breaking\<close>.
\<close>

lemma unknown_evidence_relaxes:
  "map_sum (\<lambda>_. ()) rp_aggregate (diffSemanticContract (optional_field_added (Str (js ''current'')))) =
     Inr Breaking \<and>
   map_sum (\<lambda>_. ()) rp_aggregate (diffSemanticContract (optional_field_added UNKNOWN)) =
     Inr UnknownEvidence \<and>
   UnknownEvidence < Breaking"
proof -
  have a: "map_sum (\<lambda>_. ()) rp_aggregate (diffSemanticContract (optional_field_added e)) = Inr d"
    if c: "map_sum (\<lambda>_. ()) (map ch_disposition) (collect_changes (context_of (optional_field_added e))
        (all_events (optional_field_added e))) = Inr [d]" for e d
  proof -
    let ?rq = "optional_field_added e"
    have s: "supported (rq_old ?rq)" "supported (rq_new ?rq)" "rq_retainedBridges ?rq = Undefined"
      by (simp_all add: optional_field_added_def plain_request_def small_contract_def supported_def)
    from c obtain x where x: "collect_changes (context_of ?rq) (all_events ?rq) = Inr [x]"
      "ch_disposition x = d"
      by (cases "collect_changes (context_of ?rq) (all_events ?rq)") auto
    have m: "mostRestrictive [Some d] = d"
      by (cases d) (simp_all add: mostRestrictive_def worse_def less_disposition_def)
    show ?thesis
      by (simp add: diffSemanticContract_def refuse_contract_def refuse_if_def s x defaulted_def
          iterate_def report_of_def stable_sort_def m)
  qed
  have "map_sum (\<lambda>_. ()) (map ch_disposition) (collect_changes
      (context_of (optional_field_added (Str (js ''current''))))
      (all_events (optional_field_added (Str (js ''current''))))) = Inr [Breaking]" by code_simp
  moreover have "map_sum (\<lambda>_. ()) (map ch_disposition) (collect_changes
      (context_of (optional_field_added UNKNOWN)) (all_events (optional_field_added UNKNOWN))) =
      Inr [UnknownEvidence]" by code_simp
  ultimately show ?thesis using a by (simp add: less_disposition_def)
qed

end
