(* ===== verification/GraphBlocks.thy ===== *)
theory GraphBlocks
  imports PackageGraph
begin

text \<open>
  Every diagnostic of \<open>resolvePackageGraph\<close> blocks: the codes it raises are none of the advisory
  ones of \<open>src/src/compiler/diagnostics.mjs\<close>. A resolution that does not stop the compile is
  therefore a clean one.
\<close>

lemma diag_named_blocking: "d_blocking (diag_named n m cs rs l) \<longleftrightarrow> n \<notin> set ADVISORY_NAMES"
proof (cases "map_of DIAGNOSTIC_CODES n")
  case None
  have "n \<in> set ADVISORY_NAMES \<Longrightarrow> map_of DIAGNOSTIC_CODES n \<noteq> None"
    by (auto simp: ADVISORY_NAMES_def registry_lookup extra_entries_def)
  then show ?thesis using None by (auto simp: diag_named_def diagnostic_def)
next
  case (Some e)
  then have "(n, e) \<in> set DIAGNOSTIC_CODES" by (rule map_of_SomeD)
  then show ?thesis
    using registry_blocking by (simp add: diag_named_def diagnostic_registered [OF Some])
qed

definition blocks :: "diag list \<Rightarrow> bool" where
  "blocks ds \<longleftrightarrow> list_all d_blocking ds"

lemma blocks_simps [simp]:
  "blocks []" "blocks (d # ds) \<longleftrightarrow> d_blocking d \<and> blocks ds" "blocks (xs @ ys) \<longleftrightarrow> blocks xs \<and> blocks ys"
  by (simp_all add: blocks_def)

lemma blocks_concat: "(\<And>x. x \<in> set xs \<Longrightarrow> blocks (f x)) \<Longrightarrow> blocks (concat (map f xs))"
  by (induction xs) auto

lemma blocks_map: "(\<And>x. x \<in> set xs \<Longrightarrow> d_blocking (f x)) \<Longrightarrow> blocks (map f xs)"
  by (induction xs) auto

lemma blocks_has: "blocks ds \<Longrightarrow> \<not> hasBlocking ds \<Longrightarrow> ds = []"
  by (cases ds) (simp_all add: hasBlocking_def)

lemmas named_blocks = diag_named_blocking ADVISORY_NAMES_def

lemma readDocument_blocks:
  assumes "readDocument h lims p dir sn en identity = Inl ds" and "en \<notin> set ADVISORY_NAMES"
  shows "blocks ds"
proof -
  have l: "d_blocking (over_limit path b n loc)" for path b n loc
    by (simp add: over_limit_def named_blocks)
  have "blocks ds" if "parsed_document h path sn en identity input = Inl ds" for path input
    using that assms(2)
    by (auto simp: parsed_document_def Let_def diag_named_blocking split: option.splits sum.splits
        scan_error.splits if_splits intro!: blocks_map)
  then show ?thesis using assms
    by (auto simp: readDocument_def Let_def l diag_named_blocking ADVISORY_NAMES_def split: sum.splits if_splits)
qed

section \<open>Discovery\<close>

lemma discover_entry_blocks: "blocks (s_diags st) \<Longrightarrow> blocks (s_diags (discover_entry h lims n dir name st))"
  by (auto simp: discover_entry_def Let_def named_blocks split: sum.splits bool.splits option.splits)

lemma discover_fold_blocks:
  "blocks (s_diags st) \<Longrightarrow> blocks (s_diags (fold (discover_entry h lims n dir) names st))"
  by (induction names arbitrary: st) (simp_all add: discover_entry_blocks)

lemma discover_roots_blocks:
  "discover_roots h lims n dirs st = Inr found \<Longrightarrow> blocks (s_diags st) \<Longrightarrow> blocks (s_diags found)"
  by (induction dirs arbitrary: n st)
    (auto simp: Let_def discover_fold_blocks split: sum.splits bool.splits)

section \<open>The queue\<close>

lemma import_step_blocks: "blocks (r_diags st) \<Longrightarrow> blocks (r_diags (import_step g rej cur e st))"
  by (auto simp: import_step_def Let_def report_def record_constraint_def choose_candidate_def named_blocks
      split: option.splits prod.splits list.splits)

lemma process_blocks: "blocks (r_diags st) \<Longrightarrow> blocks (r_diags (process g rej cur st))"
proof -
  have "blocks (r_diags s) \<Longrightarrow> blocks (r_diags (fold (import_step g rej cur) es s))" for es s
    by (induction es arbitrary: s) (simp_all add: import_step_blocks)
  then show "blocks (r_diags st) \<Longrightarrow> ?thesis" by (simp add: process_def)
qed

lemma resolve_loop_blocks:
  "resolve_loop fuel g rej limit over st = Some r \<Longrightarrow> d_blocking over \<Longrightarrow> blocks (r_diags st) \<Longrightarrow>
     blocks (r_diags (case r of Inl s \<Rightarrow> s | Inr s \<Rightarrow> s))"
proof (induction fuel g rej limit over st rule: resolve_loop.induct)
  case (1 fuel g rej limit over st)
  show ?case
  proof (cases "r_queue st")
    case Nil
    then show ?thesis using 1 by (auto simp: resolve_loop.simps [of fuel])
  next
    case (Cons cur rest)
    then show ?thesis using 1
      by (auto simp: resolve_loop.simps [of fuel] report_def process_blocks split: nat.splits if_splits)
  qed
qed

section \<open>The checks\<close>

lemma conflict_blocks: "blocks (conflict_diags sel cons)"
  by (auto simp: conflict_diags_def Let_def named_blocks intro!: blocks_concat split: option.splits)

lemma report_cycle_blocks: "blocks (v_diags st) \<Longrightarrow> blocks (v_diags (report_cycle edges t st))"
  by (simp add: report_cycle_def Let_def named_blocks)

lemma visit_blocks:
  "visit f edges node st = Some st' \<Longrightarrow> blocks (v_diags st) \<Longrightarrow> blocks (v_diags st')"
  "visit_edges f edges es st = Some st' \<Longrightarrow> blocks (v_diags st) \<Longrightarrow> blocks (v_diags st')"
proof (induction f edges node st and f edges es st arbitrary: st' and st' rule: visit_visit_edges.induct)
  case (4 f edges e es st)
  then show ?case
    by (auto simp: report_cycle_blocks split: option.splits bool.splits)
qed (auto simp: open_node_def close_node_def)

lemma cycles_blocks: "detectCycles edges = Some found \<Longrightarrow> blocks (v_diags found)"
proof -
  have "visit_roots f edges ns st = Some st' \<Longrightarrow> blocks (v_diags st) \<Longrightarrow> blocks (v_diags st')" for f ns st st'
    by (induction ns arbitrary: st) (auto split: option.splits if_splits dest: visit_blocks(1))
  then show "detectCycles edges = Some found \<Longrightarrow> ?thesis" by (force simp: detectCycles_def)
qed

lemma scan_export_blocks: "blocks (n_diags st) \<Longrightarrow> blocks (n_diags (scan_export p e st))"
  by (auto simp: scan_export_def Let_def named_blocks split: prod.splits option.splits)

lemma scan_package_blocks: "blocks (n_diags st) \<Longrightarrow> blocks (n_diags (scan_package p st))"
proof -
  have "blocks (n_diags s) \<Longrightarrow> blocks (n_diags (fold (scan_export p) es s))" for es s
    by (induction es arbitrary: s) (simp_all add: scan_export_blocks)
  then show "blocks (n_diags st) \<Longrightarrow> ?thesis" by (simp add: scan_package_def)
qed

lemma scan_exports_blocks: "blocks (n_diags (scan_exports ps))"
proof -
  have "blocks (n_diags s) \<Longrightarrow> blocks (n_diags (fold scan_package ps s))" for s
    by (induction ps arbitrary: s) (simp_all add: scan_package_blocks)
  then show ?thesis by (simp add: scan_exports_def)
qed

lemma import_diags_blocks: "blocks (all_import_diags sel ps)"
  by (auto simp: all_import_diags_def import_diags_def named_export_diags_def capability_diags_def
      Let_def named_blocks intro!: blocks_concat split: option.splits prod.splits)

lemma choose_profile_blocks: "choose_profile doc ps name = (f, ds) \<Longrightarrow> blocks ds"
  by (auto simp: choose_profile_def named_blocks split: option.splits list.splits)

lemma profile_document_blocks: "profile_document h lims dir m f = Inr (pd, ds) \<Longrightarrow> blocks ds"
  by (auto simp: profile_document_def Let_def ADVISORY_NAMES_def dest: readDocument_blocks
      split: sum.splits bool.splits)

lemma read_mapping_blocks:
  "read_mapping h lims dir doc m f n e st = Inr st' \<Longrightarrow> blocks (snd st) \<Longrightarrow> blocks (snd st')"
  by (cases e; cases st)
    (auto simp: read_mapping_def Let_def named_blocks dest: readDocument_blocks
      split: sum.splits bool.splits if_splits)

lemma read_mappings_blocks:
  "read_mappings h lims dir doc m f n es st = Inr st' \<Longrightarrow> blocks (snd st) \<Longrightarrow> blocks (snd st')"
  by (induction es arbitrary: st) (auto split: sum.splits dest: read_mapping_blocks)

lemma target_blocks: "blocks (target_diags doc m f n)"
  by (auto simp: target_diags_def named_blocks intro!: blocks_concat)

lemma files_blocks: "blocks (snd (files_of h p))"
  by (auto simp: files_of_def named_blocks split: sum.splits prod.splits)

lemma profile_stage_blocks: "profile_stage h lims dir start chosen = Inr (pd, ms, ds) \<Longrightarrow> blocks ds"
proof -
  assume s: "profile_stage h lims dir start chosen = Inr (pd, ms, ds)"
  show "blocks ds"
  proof (cases chosen)
    case (Some f)
    with s obtain pd0 ds0 ms1 ds1 where p: "profile_document h lims dir (p_manifest start) f = Inr (pd0, ds0)"
      "read_mappings h lims dir (p_document start) (p_manifest start) f
         (index_of f (m_profiles (p_manifest start))) (List.enumerate 0 (f_mappings f)) ([], ds0) = Inr (ms1, ds1)"
      "ds = ds1 @ target_diags (p_document start) (p_manifest start) f (index_of f (m_profiles (p_manifest start)))"
      by (auto simp: profile_stage_def Let_def split: sum.splits prod.splits)
    show ?thesis
      using read_mappings_blocks [OF p(2)] profile_document_blocks [OF p(1)] target_blocks by (simp add: p(3))
  qed (use s in \<open>simp add: profile_stage_def\<close>)
qed

lemma finish_graph_blocks:
  assumes "finish_graph h lims dir pn start st = Inr g" and "blocks (r_diags st)"
  shows "blocks (pg_diags g)"
proof -
  obtain chosen pds where c: "choose_profile (p_document start) (m_profiles (p_manifest start)) pn = (chosen, pds)"
    by force
  with assms(1) obtain pd ms ds where s: "profile_stage h lims dir start chosen = Inr (pd, ms, ds)"
    and g: "pg_diags g = graph_diags st @ pds @ ds @ concat (map (\<lambda>p. snd (files_of h p)) (sorted_packages st))"
    by (auto simp: finish_graph_def Let_def split: sum.splits prod.splits)
  have "blocks (graph_diags st)"
    using assms(2) conflict_blocks scan_exports_blocks import_diags_blocks cycles_blocks
    by (auto simp: graph_diags_def split: option.splits)
  then show ?thesis
    using choose_profile_blocks [OF c] profile_stage_blocks [OF s] files_blocks
    by (auto simp: g intro!: blocks_concat)
qed

lemma resolvePackageGraph_blocks:
  "resolvePackageGraph h dir sp pn lims = Some (Inr (Inr g)) \<Longrightarrow> blocks (pg_diags g)"
  "resolvePackageGraph h dir sp pn lims = Some (Inr (Inl ds)) \<Longrightarrow> blocks ds \<and> ds \<noteq> []"
proof -
  assume r: "resolvePackageGraph h dir sp pn lims = Some (Inr (Inr g))"
  obtain d found over cs st where found: "discoverCandidates h sp lims = Inr found"
    and over: "d_blocking over"
    and run: "resolve_loop (Suc (length cs)) (byIdentity cs) (s_rejected found) (maxNodes lims) over
        (initial_state (root_package h dir d) (s_diags found)) = Some st"
    and g: "finish_graph h lims dir pn (root_package h dir d) (case st of Inl s \<Rightarrow> s | Inr s \<Rightarrow> s) = Inr g"
  proof (cases "readDocument h lims (h_resolve h [dir, js ''package-manifest.json'']) dir
      ''package-manifest.schema.json'' ''INVALID_MANIFEST'' manifest_source")
    case (Inl ds)
    then show ?thesis using r by (simp add: resolvePackageGraph_def Let_def)
  next
    case (Inr d)
    show ?thesis
    proof (cases "discoverCandidates h sp lims")
      case (Inl m)
      then show ?thesis using r Inr by (simp add: resolvePackageGraph_def Let_def)
    next
      case (Inr found)
      note e = r [unfolded resolvePackageGraph_def Let_def \<open>readDocument _ _ _ _ _ _ _ = _\<close> Inr sum.case
          map_option_eq_Some map_sum_graph]
      have o: "d_blocking (diag_named ''LIMIT_MAX_NODES'' m c l p)" for m c l p
        by (simp add: named_blocks)
      show ?thesis using e that [OF Inr o, of "map snd (s_candidates found)"] by blast
    qed
  qed
  have "blocks (s_diags found)"
    using found discover_roots_blocks by (force simp: discoverCandidates_def)
  then have "blocks (r_diags (initial_state (root_package h dir d) (s_diags found)))"
    by (simp add: initial_state_def)
  from finish_graph_blocks [OF g resolve_loop_blocks [OF run over this]] show "blocks (pg_diags g)" .
next
  assume r: "resolvePackageGraph h dir sp pn lims = Some (Inr (Inl ds))"
  have "x \<noteq> Inr (Inl ds)" if "x = map_sum id Inr y" for x :: "jsstr + diag list + package_graph" and y
    using that by (cases y) auto
  with r have "readDocument h lims (h_resolve h [dir, js ''package-manifest.json'']) dir
      ''package-manifest.schema.json'' ''INVALID_MANIFEST'' manifest_source = Inl ds"
    by (auto simp: resolvePackageGraph_def Let_def split: sum.splits)
  then show "blocks ds \<and> ds \<noteq> []"
    using readDocument_blocks readDocument_defect by (force simp: ADVISORY_NAMES_def)
qed

end
