(* ===== verification/Pipeline.thy ===== *)
theory Pipeline
  imports GraphBlocks Results
begin

text \<open>
  \<open>src/src/compiler/frontend/seam.mjs\<close> (the frontend registry and its contract),
  \<open>src/src/compiler/ir/schema.mjs\<close> (schema validation of an IR document) and
  \<open>src/src/compiler/pipeline.mjs\<close> (\<open>compilePackage\<close>, the five phases). A frontend is a function of
  its request, a parameter: the two registered ones drive the TypeSpec compiler and an external
  process. The caller's \<open>onPhase\<close> is called with the entries of \<open>phases\<close> as they are pushed.
\<close>

section \<open>The frontend seam\<close>

record frontend_request =
  q_dialect :: jsstr
  q_graph :: package_graph
  q_block :: jsval
  q_entrypoint :: jsval
  q_limits :: limits
  q_moduleRoots :: jsval

record frontend_result =
  fr_ir :: jsval
  fr_diagnostics :: "diag list option"

text \<open>\<open>re_run\<close> is \<open>None\<close> where the entry carries no frontend.\<close>

record registration =
  re_run :: "(frontend_request \<Rightarrow> jsstr + frontend_result) option"
  re_implemented :: bool
  re_owner :: jsval

type_synonym registry = "(jsstr \<times> registration) list"

datatype seam_error =
    UnknownDialect jsstr
  | BrokenContract jsstr
  | NoFrontend jsstr
  | FrontendThrew jsstr

definition notImplemented :: "jsstr \<Rightarrow> jsval \<Rightarrow> frontend_result" where
  "notImplemented dialect owned_by =
     \<lparr>fr_ir = Null,
      fr_diagnostics = Some [diag_named ''FRONTEND_NOT_IMPLEMENTED''
        (js ''the '' @ fragment (Str dialect) @ js '' frontend is not implemented in this repository; it is ''
          @ fragment (coalesce owned_by (Str (js ''unattributed'')))) [] [] None]\<rparr>"

definition selectFrontend :: "jsstr \<Rightarrow> registry \<Rightarrow> seam_error + registration" where
  "selectFrontend dialect registry =
     (case map_of registry dialect of None \<Rightarrow> Inl (UnknownDialect dialect) | Some e \<Rightarrow> Inr e)"

definition isImplemented :: "jsstr \<Rightarrow> registry \<Rightarrow> seam_error + bool" where
  "isImplemented dialect registry =
     try_then (selectFrontend dialect registry) (\<lambda>e. Inr (re_implemented e))"

definition registryWith :: "registry \<Rightarrow> registry \<Rightarrow> registry" where
  "registryWith committed overrides =
     fold (\<lambda>(dialect, e) m. AList.update dialect e m) overrides committed"

definition reported :: "frontend_result \<Rightarrow> diag list" where
  "reported result = (case fr_diagnostics result of None \<Rightarrow> [] | Some ds \<Rightarrow> ds)"

definition assertFrontendContract ::
  "jsstr \<Rightarrow> frontend_result \<Rightarrow> seam_error + jsval \<times> diag list" where
  "assertFrontendContract dialect result =
     (if hasBlocking (reported result) \<and> \<not> nullish (fr_ir result) then Inl (BrokenContract dialect)
      else Inr (coalesce (fr_ir result) Null, reported result))"

definition lift_thrown :: "jsstr + 'a \<Rightarrow> seam_error + 'a" where
  "lift_thrown r = (case r of Inl m \<Rightarrow> Inl (FrontendThrew m) | Inr x \<Rightarrow> Inr x)"

definition runFrontend :: "frontend_request \<Rightarrow> registry \<Rightarrow> seam_error + jsval \<times> diag list" where
  "runFrontend request registry =
     try_then (selectFrontend (q_dialect request) registry) (\<lambda>entry.
     try_then
       (case re_run entry of
          Some run \<Rightarrow> lift_thrown (run request)
        | None \<Rightarrow> if re_implemented entry then Inl (NoFrontend (q_dialect request))
            else Inr (notImplemented (q_dialect request) (re_owner entry)))
       (assertFrontendContract (q_dialect request)))"

section \<open>Schema validation\<close>

text \<open>\<open>replace(/~1/g, "/")\<close>, then \<open>replace(/~0/g, "~")\<close>.\<close>

fun replace_pair :: "16 word \<Rightarrow> 16 word \<Rightarrow> jsstr \<Rightarrow> jsstr" where
  "replace_pair u v (a # b # s) =
     (if a = 126 \<and> b = u then v # replace_pair u v s else a # replace_pair u v (b # s))"
| "replace_pair u v s = s"

definition unescape_token :: "jsstr \<Rightarrow> jsstr" where
  "unescape_token s = replace_pair 48 126 (replace_pair 49 47 s)"

text \<open>\<open>node[Number(key)]\<close> on an array: an own element only at a natural number below its length.\<close>

definition element_at :: "jsval list \<Rightarrow> jsnum \<Rightarrow> jsval" where
  "element_at xs n =
     (case n of
        Fin q \<Rightarrow> if 0 \<le> q \<and> of_int \<lfloor>q\<rfloor> = q \<and> nat \<lfloor>q\<rfloor> < length xs then xs ! nat \<lfloor>q\<rfloor> else Undefined
      | _ \<Rightarrow> Undefined)"

definition step_into :: "jsval \<Rightarrow> jsstr \<Rightarrow> jsval" where
  "step_into node key =
     (case node of Arr xs \<Rightarrow> element_at xs (string_to_number key) | _ \<Rightarrow> get_at node key)"

text \<open>The nodes on the way, innermost first.\<close>

fun trail_of :: "jsval \<Rightarrow> jsstr list \<Rightarrow> jsval list \<Rightarrow> jsval list" where
  "trail_of node [] trail = trail"
| "trail_of node (segment # rest) trail =
     (let next_node = step_into node (unescape_token segment)
      in if next_node = Undefined then trail else trail_of next_node rest (next_node # trail))"

definition origin_source :: "jsval \<Rightarrow> jsval" where
  "origin_source node = get (get node ''origin'') ''source''"

definition originLocusFor :: "jsval \<Rightarrow> jsstr \<Rightarrow> jsval option" where
  "originLocusFor document pointer =
     map_option origin_source
       (find (\<lambda>n. truthy (origin_source n))
         (trail_of document (filter (\<lambda>s. s \<noteq> []) (split_at 47 pointer)) [document]))"

definition validateIrDocument :: "host \<Rightarrow> jsval \<Rightarrow> diag list" where
  "validateIrDocument h document =
     map (\<lambda>e. diag_named ''INVALID_IR'' (fragment (Str (errorMessage e))) [] []
         (originLocusFor document (errorPointer e)))
       (h_schemaErrors h ''semantic-ir.schema.json'' document)"

section \<open>The phases\<close>

definition PHASES :: "string list" where
  "PHASES = [''resolve'', ''graph'', ''frontend'', ''validate'', ''assemble'']"

record compile_request =
  c_packageRoot :: jsstr
  c_searchPath :: "jsstr list"
  c_profileName :: "jsstr option"
  c_dialect :: jsstr
  c_entrypoint :: jsval
  c_limits :: limits
  c_moduleRoots :: jsval

record compile_result =
  cr_ir :: jsval
  cr_graph :: "jsval option"
  cr_diagnostics :: "diag list"
  cr_state :: string
  cr_phases :: "string list"

datatype compile_error = HostThrew jsstr | SeamThrew seam_error

definition stopped :: "compile_request \<Rightarrow> diag list \<Rightarrow> string list \<Rightarrow> compile_result" where
  "stopped rq ds phases =
     \<lparr>cr_ir = Null, cr_graph = None,
      cr_diagnostics = applyDiagnosticLimit ds (maxDiagnostics (c_limits rq)),
      cr_state = ''invalid'', cr_phases = phases\<rparr>"

text \<open>
  \<open>resolution.packageBlock\<close>; the version is that of the package the graph holds under the root
  identity.
\<close>

definition package_block :: "package_graph \<Rightarrow> jsval" where
  "package_block g =
     Obj [(js ''identity'', Str (fst (pg_root g))),
          (js ''version'', (case find (\<lambda>p. g_identity p = fst (pg_root g)) (pg_packages g) of
             None \<Rightarrow> Undefined | Some p \<Rightarrow> Str (g_version p))),
          (js ''mappingVersions'', Arr (map (\<lambda>m. get (doc_value (p_mapping_document m)) ''version'')
             (pg_mappings g))),
          (js ''profileVersions'', Arr (case pg_profile g of
             None \<Rightarrow> [] | Some f \<Rightarrow> [Str (f_version f)]))]"

definition request_of :: "compile_request \<Rightarrow> package_graph \<Rightarrow> frontend_request" where
  "request_of rq g =
     \<lparr>q_dialect = c_dialect rq, q_graph = g, q_block = package_block g,
      q_entrypoint = c_entrypoint rq, q_limits = c_limits rq, q_moduleRoots = c_moduleRoots rq\<rparr>"

text \<open>From the \<open>validate\<close> phase on.\<close>

definition finish_compile ::
  "host \<Rightarrow> compile_request \<Rightarrow> package_graph \<Rightarrow> jsval \<Rightarrow> diag list \<Rightarrow> compile_result" where
  "finish_compile h rq g ir ds =
     (let ds' = ds @ validateIrDocument h ir
      in if hasBlocking ds' then stopped rq ds' (take 4 PHASES)
         else \<lparr>cr_ir = ir, cr_graph = Some (resolvedPackageGraph g CONTRACT_IR_VERSION),
               cr_diagnostics = applyDiagnosticLimit ds' (maxDiagnostics (c_limits rq)),
               cr_state = (if ds' \<noteq> [] then ''partial'' else ''success''),
               cr_phases = PHASES\<rparr>)"

definition compile_graph ::
  "host \<Rightarrow> registry \<Rightarrow> compile_request \<Rightarrow> package_graph \<Rightarrow> compile_error + compile_result" where
  "compile_graph h registry rq g =
     (if hasBlocking (pg_diags g) then Inr (stopped rq (pg_diags g) (take 1 PHASES))
      else case runFrontend (request_of rq g) registry of
          Inl e \<Rightarrow> Inl (SeamThrew e)
        | Inr (ir, ds) \<Rightarrow>
            let ds' = pg_diags g @ ds
            in if hasBlocking ds' then Inr (stopped rq ds' (take 3 PHASES))
               else Inr (finish_compile h rq g ir ds'))"

text \<open>\<open>None\<close>, out of rounds in the resolution, never happens.\<close>

definition compilePackage ::
  "host \<Rightarrow> registry \<Rightarrow> compile_request \<Rightarrow> (compile_error + compile_result) option" where
  "compilePackage h registry rq =
     map_option (\<lambda>r. case r of
         Inl message \<Rightarrow> Inl (HostThrew message)
       | Inr (Inl ds) \<Rightarrow> Inr (stopped rq ds (take 1 PHASES))
       | Inr (Inr g) \<Rightarrow> compile_graph h registry rq g)
       (resolvePackageGraph h (c_packageRoot rq) (c_searchPath rq) (c_profileName rq) (c_limits rq))"

lemma stopped_simps [simp]:
  "cr_ir (stopped rq ds phases) = Null" "cr_graph (stopped rq ds phases) = None"
  "cr_diagnostics (stopped rq ds phases) = applyDiagnosticLimit ds (maxDiagnostics (c_limits rq))"
  "cr_state (stopped rq ds phases) = ''invalid''" "cr_phases (stopped rq ds phases) = phases"
  by (simp_all add: stopped_def)

section \<open>The limited report\<close>

lemma sortDiagnostics_mset [simp]: "mset (sortDiagnostics ds) = mset ds"
  by (simp add: sortDiagnostics_def)

lemma sortDiagnostics_set [simp]: "set (sortDiagnostics ds) = set ds"
  by (rule mset_eq_setD) simp

lemma sortDiagnostics_length [simp]: "length (sortDiagnostics ds) = length ds"
  by (rule mset_eq_length) simp

lemma report_blocking:
  "hasBlocking (applyDiagnosticLimit ds n) \<Longrightarrow> hasBlocking ds"
  using in_set_takeD [of _ n "sortDiagnostics ds"] diag_named_limit_reached
  by (auto simp: applyDiagnosticLimit_def Let_def hasBlocking_def list_ex_iff split: if_splits)

lemma report_keeps:
  "hasBlocking ds \<Longrightarrow> hasBlocking (applyDiagnosticLimit ds n) \<or> length (applyDiagnosticLimit ds n) = Suc n"
  by (auto simp: applyDiagnosticLimit_def Let_def hasBlocking_def list_ex_iff)

lemma report_empty: "applyDiagnosticLimit ds n = [] \<longleftrightarrow> ds = []"
proof -
  have "sortDiagnostics ds = [] \<longleftrightarrow> ds = []" by (metis set_empty sortDiagnostics_set)
  then show ?thesis by (auto simp: applyDiagnosticLimit_def Let_def)
qed

section \<open>What a compile went through\<close>

text \<open>A compile was stopped in a phase, or it finished: the resolution was clean, and neither the
  frontend nor the schema raised a diagnostic that blocks.\<close>

lemma compilePackage_cases:
  assumes "compilePackage h registry rq = Some (Inr r)"
  obtains (stopped) ds n where "r = stopped rq ds (take n PHASES)" "n < 5" "hasBlocking ds"
  | (finished) g ir ds where
      "resolvePackageGraph h (c_packageRoot rq) (c_searchPath rq) (c_profileName rq) (c_limits rq) =
        Some (Inr (Inr g))" "pg_diags g = []"
      "runFrontend (request_of rq g) registry = Inr (ir, ds)"
      "\<not> hasBlocking (ds @ validateIrDocument h ir)" "r = finish_compile h rq g ir ds"
proof -
  obtain res where res: "resolvePackageGraph h (c_packageRoot rq) (c_searchPath rq) (c_profileName rq) (c_limits rq) =
      Some (Inr res)"
    and out: "(case res of Inl ds \<Rightarrow> Inr (Pipeline.stopped rq ds (take 1 PHASES)) | Inr g \<Rightarrow> compile_graph h registry rq g) = Inr r"
  proof -
    obtain z where z: "resolvePackageGraph h (c_packageRoot rq) (c_searchPath rq) (c_profileName rq) (c_limits rq) = Some z"
      and "(case z of Inl message \<Rightarrow> Inl (HostThrew message)
         | Inr (Inl ds) \<Rightarrow> Inr (Pipeline.stopped rq ds (take 1 PHASES))
         | Inr (Inr g) \<Rightarrow> compile_graph h registry rq g) = Inr r"
      using assms by (auto simp: compilePackage_def)
    then show thesis using that by (cases z) simp_all
  qed
  show thesis
  proof (cases res)
    case (Inl ds)
    then have "blocks ds \<and> ds \<noteq> []" using res resolvePackageGraph_blocks(2) by blast
    then have "hasBlocking ds" by (cases ds) (simp_all add: hasBlocking_def)
    then show ?thesis using out Inl that(1) [of ds 1] by simp
  next
    case (Inr g)
    show ?thesis
    proof (cases "hasBlocking (pg_diags g)")
      case True
      then show ?thesis using out Inr that(1) [of "pg_diags g" 1] by (simp add: compile_graph_def)
    next
      case False
      then have clean: "pg_diags g = []" using resolvePackageGraph_blocks(1) blocks_has res Inr by blast
      then obtain ir ds where f: "runFrontend (request_of rq g) registry = Inr (ir, ds)"
        and fin: "(if hasBlocking ds then Pipeline.stopped rq ds (take 3 PHASES) else finish_compile h rq g ir ds) = r"
        using out Inr by (auto simp: compile_graph_def hasBlocking_def Let_def split: sum.splits prod.splits if_splits)
      consider "hasBlocking ds" | "\<not> hasBlocking ds" "hasBlocking (ds @ validateIrDocument h ir)"
        | "\<not> hasBlocking (ds @ validateIrDocument h ir)" "\<not> hasBlocking ds"
        by (auto simp: hasBlocking_def)
      then show ?thesis
        using fin that(1) [of ds 3] that(1) [of "ds @ validateIrDocument h ir" 4] that(2) [of g ir ds] res Inr clean f
        by cases (simp_all add: finish_compile_def Let_def)
    qed
  qed
qed

lemma validateIrDocument_valid:
  "\<not> hasBlocking (validateIrDocument h ir) \<Longrightarrow> h_schemaErrors h ''semantic-ir.schema.json'' ir = []"
  by (cases "h_schemaErrors h ''semantic-ir.schema.json'' ir")
    (simp_all add: validateIrDocument_def hasBlocking_def named_blocks)

lemma finish_compile_clean:
  assumes "\<not> hasBlocking (ds @ validateIrDocument h ir)"
  shows "finish_compile h rq g ir ds =
    \<lparr>cr_ir = ir, cr_graph = Some (resolvedPackageGraph g CONTRACT_IR_VERSION),
     cr_diagnostics = applyDiagnosticLimit ds (maxDiagnostics (c_limits rq)),
     cr_state = (if ds \<noteq> [] then ''partial'' else ''success''), cr_phases = PHASES\<rparr>"
    and "h_schemaErrors h ''semantic-ir.schema.json'' ir = []"
proof -
  show valid: "h_schemaErrors h ''semantic-ir.schema.json'' ir = []"
    using assms by (auto intro: validateIrDocument_valid simp: hasBlocking_def)
  then have "validateIrDocument h ir = []" by (simp add: validateIrDocument_def)
  then show "finish_compile h rq g ir ds =
    \<lparr>cr_ir = ir, cr_graph = Some (resolvedPackageGraph g CONTRACT_IR_VERSION),
     cr_diagnostics = applyDiagnosticLimit ds (maxDiagnostics (c_limits rq)),
     cr_state = (if ds \<noteq> [] then ''partial'' else ''success''), cr_phases = PHASES\<rparr>"
    using assms by (simp add: finish_compile_def)
qed

text \<open>Where an error of the seam comes from.\<close>

lemma runFrontend_errors:
  assumes "runFrontend rq registry = Inl e"
  shows "case e of
      UnknownDialect d \<Rightarrow> d = q_dialect rq \<and> map_of registry d = None
    | BrokenContract d \<Rightarrow> d = q_dialect rq \<and> (\<exists>entry run result. map_of registry d = Some entry \<and>
        re_run entry = Some run \<and> run rq = Inr result \<and> \<not> nullish (fr_ir result) \<and>
        hasBlocking (reported result))
    | NoFrontend d \<Rightarrow> d = q_dialect rq \<and> (\<exists>entry. map_of registry d = Some entry \<and>
        re_implemented entry \<and> re_run entry = None)
    | FrontendThrew m \<Rightarrow> \<exists>entry run. map_of registry (q_dialect rq) = Some entry \<and>
        re_run entry = Some run \<and> run rq = Inl m"
  using assms
  by (auto simp: runFrontend_def selectFrontend_def try_then_Inl assertFrontendContract_def
      lift_thrown_def notImplemented_def nullish_def split: option.splits sum.splits if_splits)

section \<open>A concrete compile\<close>

definition demo_frontend :: registration where
  "demo_frontend = \<lparr>re_run = Some (\<lambda>q. Inr \<lparr>fr_ir = Obj [(js ''package'', q_block q)], fr_diagnostics = None\<rparr>),
     re_implemented = True, re_owner = Undefined\<rparr>"

definition demo_compile :: compile_request where
  "demo_compile = \<lparr>c_packageRoot = js ''app'', c_searchPath = [js ''lib''], c_profileName = None,
     c_dialect = js ''typespec'', c_entrypoint = Str (js ''main.tsp''), c_limits = demo_lims,
     c_moduleRoots = Arr []\<rparr>"

lemma demo_compiles:
  "\<exists>r. compilePackage demo_host [(js ''typespec'', demo_frontend)] demo_compile = Some (Inr r) \<and>
    cr_state r = ''success''"
proof -
  obtain g where g: "resolvePackageGraph demo_host (js ''app'') [js ''lib''] None demo_lims = Some (Inr (Inr g))"
    "pg_diags g = []"
    using demo_resolved by blast
  have "validateIrDocument demo_host ir = []" for ir
    by (simp add: validateIrDocument_def demo_host_def)
  moreover have "runFrontend (request_of demo_compile g) [(js ''typespec'', demo_frontend)] =
      Inr (Obj [(js ''package'', package_block g)], [])"
    by (simp add: runFrontend_def request_of_def demo_compile_def demo_frontend_def selectFrontend_def
        lift_thrown_def assertFrontendContract_def reported_def hasBlocking_def
        coalesce_def nullish_def)
  ultimately show ?thesis
    using g by (simp add: compilePackage_def compile_graph_def demo_compile_def finish_compile_def
        hasBlocking_def request_of_def)
qed

section \<open>Properties\<close>

text \<open>
  C21. The compile is a gate. A compile that did not end in the state \<open>invalid\<close> ran all five phases
  in order; its document satisfies the published schema, none of the diagnostics it reports blocks,
  and it is a \<open>success\<close> exactly when it reports none. An invalid one stopped after a proper prefix
  of the phases and returns neither a document nor a graph; its report holds a diagnostic that
  blocks, or was cut at the limit, in which case the blocking ones may all have been dropped.
\<close>

theorem compile_gate:
  assumes "compilePackage h registry rq = Some (Inr r)"
  shows "if cr_state r = ''invalid''
    then cr_ir r = Null \<and> cr_graph r = None \<and> length (cr_phases r) < length PHASES \<and>
      cr_phases r = take (length (cr_phases r)) PHASES \<and>
      (hasBlocking (cr_diagnostics r) \<or> length (cr_diagnostics r) = Suc (maxDiagnostics (c_limits rq)))
    else cr_phases r = PHASES \<and> \<not> hasBlocking (cr_diagnostics r) \<and>
      h_schemaErrors h ''semantic-ir.schema.json'' (cr_ir r) = [] \<and>
      cr_state r = (if cr_diagnostics r = [] then ''success'' else ''partial'')"
  using assms
proof (cases rule: compilePackage_cases)
  case (stopped ds n)
  have "length PHASES = 5" by (simp add: PHASES_def)
  then show ?thesis using report_keeps [OF stopped(3)] stopped(2) by (simp add: stopped(1))
next
  case (finished g ir ds)
  note r = finish_compile_clean [OF finished(4)]
  have "\<not> hasBlocking (applyDiagnosticLimit ds n)" for n
    using finished(4) report_blocking by (auto simp: hasBlocking_def)
  then show ?thesis unfolding finished(5) r(1) using r(2) by (simp add: report_empty)
qed

theorem compile_gate_witness:
  "\<exists>r. compilePackage demo_host [(js ''typespec'', demo_frontend)] demo_compile = Some (Inr r) \<and>
    cr_phases r = PHASES \<and> cr_diagnostics r = []"
proof -
  obtain r where r: "compilePackage demo_host [(js ''typespec'', demo_frontend)] demo_compile = Some (Inr r)"
    "cr_state r = ''success''"
    using demo_compiles by blast
  show ?thesis using r compile_gate [OF r(1)] by (auto split: if_splits)
qed

text \<open>
  C22. The document of a compile that was not stopped is the one the frontend returned for a sound
  package graph: every identity is held once, every import of every package is met, and no package
  imports itself through others. This joins the resolution, the frontend seam and the phases.
\<close>

theorem compile_over_sound_graph:
  assumes "compilePackage h registry rq = Some (Inr r)" and "cr_state r \<noteq> ''invalid''"
  shows "\<exists>g ds. runFrontend (request_of rq g) registry = Inr (cr_ir r, ds) \<and> \<not> hasBlocking ds \<and>
    cr_graph r = Some (resolvedPackageGraph g CONTRACT_IR_VERSION) \<and>
    distinct (map g_identity (pg_packages g)) \<and> acyclic (graph_imports g) \<and>
    list_all (\<lambda>p. list_all (resolved_import g) (m_imports (p_manifest (g_package p)))) (pg_packages g)"
  using assms(1)
proof (cases rule: compilePackage_cases)
  case (finished g ir ds)
  note r = finish_compile_clean(1) [OF finished(4)]
  have "distinct (map g_identity (pg_packages g)) \<and> acyclic (graph_imports g) \<and>
    list_all (\<lambda>p. list_all (resolved_import g) (m_imports (p_manifest (g_package p)))) (pg_packages g)"
    by (rule resolvePackageGraph_run [OF finished(1,2)])
      (use graph_complete(1) graph_acyclic graph_distinct finished(2) in \<open>simp add: list_all_iff\<close>)
  then show ?thesis using finished(3,4) unfolding finished(5) r by (auto simp: hasBlocking_def)
qed (use assms(2) in simp)

theorem compile_over_sound_graph_witness:
  "\<exists>r g ds. compilePackage demo_host [(js ''typespec'', demo_frontend)] demo_compile = Some (Inr r) \<and>
    runFrontend (request_of demo_compile g) [(js ''typespec'', demo_frontend)] = Inr (cr_ir r, ds) \<and>
    acyclic (graph_imports g)"
proof -
  obtain r where r: "compilePackage demo_host [(js ''typespec'', demo_frontend)] demo_compile = Some (Inr r)"
    "cr_state r \<noteq> ''invalid''"
    using demo_compiles by fastforce
  show ?thesis using r(1) compile_over_sound_graph [OF r] by blast
qed

text \<open>
  C23. \<open>compilePackage\<close> returns on every host, registry and request, and throws only where the host
  threw in the resolution, or the frontend registry does not name the dialect, has no frontend for
  it, or has one that throws or returns a document beside a diagnostic that blocks.
\<close>

theorem compile_ends:
  "case compilePackage h registry rq of
     None \<Rightarrow> False
   | Some (Inr r) \<Rightarrow> True
   | Some (Inl (HostThrew m)) \<Rightarrow>
       resolvePackageGraph h (c_packageRoot rq) (c_searchPath rq) (c_profileName rq) (c_limits rq) = Some (Inl m)
   | Some (Inl (SeamThrew e)) \<Rightarrow> (case e of
       UnknownDialect d \<Rightarrow> map_of registry d = None
     | BrokenContract d \<Rightarrow> \<exists>entry run q result. map_of registry d = Some entry \<and> re_run entry = Some run \<and>
         run q = Inr result \<and> \<not> nullish (fr_ir result) \<and>
         hasBlocking (reported result)
     | NoFrontend d \<Rightarrow> \<exists>entry. map_of registry d = Some entry \<and> re_implemented entry \<and> re_run entry = None
     | FrontendThrew m \<Rightarrow> \<exists>d entry run q. map_of registry d = Some entry \<and> re_run entry = Some run \<and> run q = Inl m)"
proof -
  obtain out where out: "resolvePackageGraph h (c_packageRoot rq) (c_searchPath rq) (c_profileName rq) (c_limits rq) = Some out"
    using resolvePackageGraph_returns by blast
  show ?thesis
  proof (cases out)
    case (Inl m)
    then show ?thesis using out by (simp add: compilePackage_def)
  next
    case (Inr res)
    show ?thesis
    proof (cases res)
      case (Inl ds)
      then show ?thesis using out Inr by (simp add: compilePackage_def)
    next
      case (Inr g)
      have "case e of
         UnknownDialect d \<Rightarrow> map_of registry d = None
       | BrokenContract d \<Rightarrow> \<exists>entry run q result. map_of registry d = Some entry \<and> re_run entry = Some run \<and>
           run q = Inr result \<and> \<not> nullish (fr_ir result) \<and>
           hasBlocking (reported result)
       | NoFrontend d \<Rightarrow> \<exists>entry. map_of registry d = Some entry \<and> re_implemented entry \<and> re_run entry = None
       | FrontendThrew m \<Rightarrow> \<exists>d entry run q. map_of registry d = Some entry \<and> re_run entry = Some run \<and> run q = Inl m"
        if "runFrontend (request_of rq g) registry = Inl e" for e
        using runFrontend_errors [OF that] by (cases e) auto
      then show ?thesis using out \<open>out = Inr res\<close> Inr
        by (auto simp: compilePackage_def compile_graph_def Let_def split: sum.split)
    qed
  qed
qed

end
