(* ===== verification/BackendSeam.thy ===== *)
theory BackendSeam
  imports Host Constructs Pipeline
begin

text \<open>
  The generation seam of \<open>src/src/compiler/backends/seam.mjs\<close>: the target registry, the contract a
  backend is held to, and \<open>generateTarget\<close>. A backend is the record of the members the seam reads;
  its \<open>generate\<close> and the caller's formatter are functions, parameters that may throw.
\<close>

section \<open>Backends\<close>

record generated_file =
  gf_path :: jsval
  gf_text :: jsstr
  gf_identities :: "jsval list option"
  gf_mediaType :: "jsstr option"

record generation =
  gn_state :: "string option"
  gn_files :: "generated_file list option"
  gn_diagnostics :: "diag list option"

type_synonym formatter = "jsstr \<Rightarrow> jsval \<Rightarrow> jsstr + jsstr"

text \<open>A member the object does not have is \<open>Undefined\<close>, or \<open>None\<close>.\<close>

record backend =
  bk_identity :: jsval
  bk_version :: jsval
  bk_irVersions :: "jsval list option"
  bk_features :: "jsval list option"
  bk_generate :: "(jsval \<Rightarrow> formatter \<Rightarrow> jsstr + generation) option"
  bk_owningIssue :: jsval

record target_entry =
  te_target :: jsstr
  te_owner :: jsval
  te_backend :: "backend option"
  te_implemented :: bool

type_synonym target_registry = "(jsstr \<times> target_entry) list"

datatype generate_error =
    UnknownTarget jsval
  | MissingMember string
  | OutsideRoot jsval jsval
  | Unprintable jsval
  | GenerateThrew jsstr
  | FormatThrew jsstr

definition declaredUnimplemented :: "jsstr \<Rightarrow> jsval \<Rightarrow> target_entry" where
  "declaredUnimplemented target owned_by =
     \<lparr>te_target = target, te_owner = owned_by, te_backend = None, te_implemented = False\<rparr>"

text \<open>\<open>REGISTRY\<close>, over the six backends the module imports.\<close>

definition TARGETS :: "jsstr list" where
  "TARGETS = [js ''typescript'', js ''rust'', js ''python-pydantic-v2'', js ''python-dataclass'',
     js ''json-schema'', js ''sysml-v2-textual'']"

definition REGISTRY :: "(jsstr \<Rightarrow> backend) \<Rightarrow> target_registry" where
  "REGISTRY imported =
     map (\<lambda>t. (t, \<lparr>te_target = t, te_owner = bk_owningIssue (imported t), te_backend = Some (imported t),
       te_implemented = True\<rparr>)) TARGETS"

definition selectBackend :: "jsval \<Rightarrow> target_registry \<Rightarrow> generate_error + target_entry" where
  "selectBackend target registry =
     (case (case target of Str t \<Rightarrow> map_of registry t | _ \<Rightarrow> None) of
        None \<Rightarrow> Inl (UnknownTarget target) | Some e \<Rightarrow> Inr e)"

definition isBackendImplemented :: "jsval \<Rightarrow> target_registry \<Rightarrow> generate_error + bool" where
  "isBackendImplemented target registry =
     try_then (selectBackend target registry) (\<lambda>e. Inr (te_implemented e))"

definition backendRegistrations :: "target_registry \<Rightarrow> (jsstr \<times> jsval \<times> bool) list" where
  "backendRegistrations registry =
     map (\<lambda>(_, e). (te_target e, te_owner e, te_implemented e)) registry"

definition targetsWith :: "target_registry \<Rightarrow> target_registry \<Rightarrow> target_registry" where
  "targetsWith committed overrides = fold (\<lambda>(target, e). AList.update target e) overrides committed"

section \<open>The contract of a backend\<close>

definition isWithinRoot :: "jsval \<Rightarrow> bool" where
  "isWithinRoot path =
     (case path of
        Str p \<Rightarrow>
          p \<noteq> [] \<and> \<not> starts_with p (js ''/'') \<and>
          \<not> (case p of
               c # d # _ \<Rightarrow> (65 \<le> c \<and> c \<le> 90 \<or> 97 \<le> c \<and> c \<le> 122) \<and> d = 58
             | _ \<Rightarrow> False) \<and>
          92 \<notin> set p \<and>
          \<not> list_ex (\<lambda>segment. segment = js ''..'' \<or> segment = [] \<or> segment = js ''.'') (split_at 47 p)
      | _ \<Rightarrow> False)"

definition missing_members :: "backend \<Rightarrow> string list" where
  "missing_members b =
     map fst (filter snd
       [(''identity'', bk_identity b = Undefined), (''version'', bk_version b = Undefined),
        (''supportedIrVersions'', bk_irVersions b = None), (''supportedFeatures'', bk_features b = None),
        (''generate'', bk_generate b = None)])"

text \<open>Without a generation, and with one.\<close>

definition assertBackendMembers :: "backend option \<Rightarrow> generate_error + backend" where
  "assertBackendMembers b =
     (case b of
        None \<Rightarrow> Inl (MissingMember ''identity'')
      | Some b \<Rightarrow> (case missing_members b of [] \<Rightarrow> Inr b | m # _ \<Rightarrow> Inl (MissingMember m)))"

definition files_in :: "generation \<Rightarrow> generated_file list" where
  "files_in generation = (case gn_files generation of None \<Rightarrow> [] | Some fs \<Rightarrow> fs)"

definition assertBackendContract :: "backend option \<Rightarrow> generation \<Rightarrow> generate_error + backend" where
  "assertBackendContract b generation =
     try_then (assertBackendMembers b) (\<lambda>b.
       case find (\<lambda>f. \<not> isWithinRoot (gf_path f)) (files_in generation) of
         Some f \<Rightarrow> Inl (OutsideRoot (bk_identity b) (gf_path f))
       | None \<Rightarrow> Inr b)"

section \<open>The manifest\<close>

record listed_file =
  lf_path :: jsval
  lf_mediaType :: jsstr
  lf_identities :: "jsval list"

record output_manifest =
  om_backend :: jsval
  om_state :: string
  om_files :: "listed_file list"
  om_diagnostics :: "diag list"

definition MEDIA_TYPES :: "(jsstr \<times> jsstr) list" where
  "MEDIA_TYPES =
     [(js ''.ts'', js ''text/typescript''), (js ''.mts'', js ''text/typescript''),
      (js ''.json'', js ''application/json''), (js ''.md'', js ''text/markdown'')]"

text \<open>\<open>path.slice(path.lastIndexOf("."))\<close>, when the path has a dot.\<close>

definition extension_of :: "jsstr \<Rightarrow> jsstr option" where
  "extension_of p =
     (if 46 \<in> set p then Some (46 # rev (takeWhile (\<lambda>c. c \<noteq> 46) (rev p))) else None)"

definition mediaTypeFor :: "jsstr \<Rightarrow> jsstr" where
  "mediaTypeFor p =
     (case extension_of p of
        None \<Rightarrow> js ''text/plain''
      | Some ext \<Rightarrow> (case map_of MEDIA_TYPES ext of None \<Rightarrow> js ''text/plain'' | Some m \<Rightarrow> m))"

definition packageIdentityOf :: "jsval \<Rightarrow> jsval option" where
  "packageIdentityOf ir =
     (case get (get ir ''package'') ''identity'' of
        Str i \<Rightarrow> if i \<noteq> [] then Some (Str (js ''ix://'' @ i)) else None
      | _ \<Rightarrow> None)"

definition manifest_for :: "jsval \<Rightarrow> string \<Rightarrow> listed_file list \<Rightarrow> diag list \<Rightarrow> output_manifest" where
  "manifest_for identity state files ds =
     \<lparr>om_backend = identity, om_state = state, om_files = files, om_diagnostics = sortDiagnostics ds\<rparr>"

definition unimplementedIdentity :: "target_entry \<Rightarrow> jsval" where
  "unimplementedIdentity e = Str (js ''ix://agent-ix/filament-core-data/backend/'' @ te_target e)"

definition entry_identity :: "target_entry \<Rightarrow> jsval" where
  "entry_identity e =
     coalesce (case te_backend e of None \<Rightarrow> Undefined | Some b \<Rightarrow> bk_identity b) (unimplementedIdentity e)"

section \<open>Generation\<close>

text \<open>Printing a value of the request, which throws where \<open>String\<close> does.\<close>

definition print_then :: "jsval \<Rightarrow> generate_error + 'a \<Rightarrow> generate_error + 'a" where
  "print_then v r = (if prints v then r else Inl (Unprintable v))"

text \<open>One diagnostic per schema error.\<close>

definition request_diagnostic :: "jsval \<Rightarrow> jsval \<Rightarrow> diag list \<Rightarrow> generate_error + diag list" where
  "request_diagnostic request e ds =
     (let version = get (get request ''ir'') ''contractVersion''
      in if errorPointer e = js ''/ir/contractVersion''
         then print_then version (Inr (ds @ [diag_named ''UNKNOWN_CONTRACT_VERSION''
           (js ''the IR document declares contract version '' @ fragment (Str (to_text version))
             @ js ''; this compiler supports 2.0.0'') [] [] None]))
         else Inr (ds @ [diag_named ''INVALID_REQUEST''
           ((if errorPointer e = [] then js ''(document root)'' else errorPointer e) @ js '': ''
             @ fragment (Str (errorMessage e))) [] [] None]))"

definition request_diagnostics :: "jsval \<Rightarrow> jsval list \<Rightarrow> generate_error + diag list" where
  "request_diagnostics request errors = try_fold (request_diagnostic request) errors []"

definition list_file :: "jsval \<Rightarrow> generated_file \<Rightarrow> listed_file" where
  "list_file ir f =
     \<lparr>lf_path = gf_path f,
      lf_mediaType = (case gf_mediaType f of None \<Rightarrow> mediaTypeFor (to_text (gf_path f)) | Some m \<Rightarrow> m),
      lf_identities = (case gf_identities f of
          Some (i # is) \<Rightarrow> i # is
        | _ \<Rightarrow> (case packageIdentityOf ir of None \<Rightarrow> [] | Some p \<Rightarrow> [p]))\<rparr>"

text \<open>Each text passes through the caller's formatter, which keeps it or throws.\<close>

definition format_file ::
  "formatter \<Rightarrow> jsval \<Rightarrow> generated_file \<Rightarrow> listed_file list \<Rightarrow> generate_error + listed_file list" where
  "format_file format ir f files =
     (case format (gf_text f) (gf_path f) of
        Inl m \<Rightarrow> Inl (FormatThrew m) | Inr _ \<Rightarrow> Inr (files @ [list_file ir f]))"

definition refusal_states :: "string list" where
  "refusal_states = [''invalid'', ''unsupported'', ''unavailable'']"

definition finish_generation ::
  "formatter \<Rightarrow> jsval \<Rightarrow> backend \<Rightarrow> generation \<Rightarrow> generate_error + output_manifest" where
  "finish_generation format ir b generation =
     (let ds = (case gn_diagnostics generation of None \<Rightarrow> [] | Some ds \<Rightarrow> ds);
          state = (case gn_state generation of None \<Rightarrow> ''success'' | Some s \<Rightarrow> s)
      in if state \<in> set refusal_states
         then Inr (manifest_for (bk_identity b) state []
           (if ds \<noteq> [] then ds
            else [diag_named ''BACKEND_CONTRACT_VIOLATION''
              (js ''backend '' @ fragment (bk_identity b) @ js '' reported '' @ fragment (Str (js state))
                @ js '' with no diagnostic; a refusal must name its reason'') [] [] None]))
         else try_then (try_fold (format_file format ir) (files_in generation) []) (\<lambda>files.
           Inr (manifest_for (bk_identity b) (if hasBlocking ds then ''invalid'' else state)
             (if hasBlocking ds then [] else files) ds)))"

definition generate_with ::
  "jsval \<Rightarrow> formatter \<Rightarrow> backend \<Rightarrow> generate_error + output_manifest" where
  "generate_with request format b =
     (let ir = get request ''ir''; version = get ir ''contractVersion'';
          supported = (case bk_irVersions b of None \<Rightarrow> [] | Some vs \<Rightarrow> vs)
      in if \<not> list_ex (\<lambda>v. strict_eq v version) supported
         then print_then version (Inr (manifest_for (bk_identity b) ''unsupported'' []
           [diag_named ''UNSUPPORTED_IR_VERSION''
             (js ''backend '' @ fragment (bk_identity b) @ js '' does not support contract version ''
               @ fragment version @ js ''; it declares '' @ join_values (js '', '') supported) [] [] None]))
         else case firstUnrenderedType ir of
             Some u \<Rightarrow> print_then (un_identity u) (Inr (manifest_for (bk_identity b) ''unsupported'' []
               [diag_named ''UNSUPPORTED_CONSTRUCT_SHAPE''
                 (js ''backend '' @ fragment (bk_identity b) @ js '' renders no '' @ fragment (Str (un_shape u))
                   @ js '' construct; '' @ fragment (Str (to_text (un_identity u))) @ js '' at ''
                   @ un_pointer u @ js '' is one'') [] [] None]))
           | None \<Rightarrow>
               (case bk_generate b of
                  None \<Rightarrow> Inl (MissingMember ''generate'')
                | Some generate \<Rightarrow>
                    (case generate request format of
                       Inl m \<Rightarrow> Inl (GenerateThrew m)
                     | Inr generation \<Rightarrow>
                         try_then (assertBackendContract (Some b) generation) (\<lambda>b.
                           finish_generation format ir b generation))))"

definition generateTarget ::
  "host \<Rightarrow> target_registry \<Rightarrow> formatter \<Rightarrow> jsval \<Rightarrow> jsval \<Rightarrow> generate_error + output_manifest" where
  "generateTarget h registry format target request =
     try_then (selectBackend target registry) (\<lambda>e.
       let errors = h_schemaErrors h ''compiler-request.schema.json'' request
       in if errors \<noteq> []
          then try_then (request_diagnostics request errors) (\<lambda>ds.
            Inr (manifest_for (entry_identity e) ''invalid'' [] ds))
          else if \<not> te_implemented e
          then Inr (manifest_for (unimplementedIdentity e) ''unavailable'' []
            [diag_named ''BACKEND_NOT_IMPLEMENTED''
              (js ''the '' @ fragment (Str (te_target e))
                @ js '' generation backend is not implemented in this repository; it is ''
                @ fragment (te_owner e)) [] [] None])
          else try_then (assertBackendMembers (te_backend e)) (generate_with request format))"

section \<open>Paths inside the root\<close>

lemma fold_resolve_proper:
  "list_all (\<lambda>s. s \<noteq> [] \<and> s \<noteq> js ''.'' \<and> s \<noteq> js ''..'') segments \<Longrightarrow>
    fold resolve_step segments base = base @ segments"
  by (induction segments arbitrary: base) (simp_all add: resolve_step_def)

lemma isWithinRoot_resolves:
  assumes "isWithinRoot v"
  obtains p where "v = Str p" "resolve_path base p = base @ split_at 47 p" "split_at 47 p \<noteq> []"
proof -
  obtain p where v: "v = Str p" and p: "\<not> starts_with p (js ''/'')"
    "\<not> list_ex (\<lambda>segment. segment = js ''..'' \<or> segment = [] \<or> segment = js ''.'') (split_at 47 p)"
    using assms by (cases v) (simp_all add: isWithinRoot_def)
  have "list_all (\<lambda>s. s \<noteq> [] \<and> s \<noteq> js ''.'' \<and> s \<noteq> js ''..'') (split_at 47 p)"
    using p(2) by (auto simp: list_ex_iff list_all_iff)
  then show thesis using that [OF v] p(1) by (simp add: resolve_path_def fold_resolve_proper)
qed

section \<open>What a generation returns\<close>

lemma manifest_for_simps [simp]:
  "om_backend (manifest_for i s fs ds) = i" "om_state (manifest_for i s fs ds) = s"
  "om_files (manifest_for i s fs ds) = fs" "om_diagnostics (manifest_for i s fs ds) = sortDiagnostics ds"
  by (simp_all add: manifest_for_def)

lemma sortDiagnostics_empty [simp]: "sortDiagnostics ds = [] \<longleftrightarrow> ds = []"
  by (metis set_empty sortDiagnostics_set)

lemma hasBlocking_sorted [simp]: "hasBlocking (sortDiagnostics ds) = hasBlocking ds"
  by (simp add: hasBlocking_def list_ex_iff)

lemma hasBlocking_Nil [simp]: "\<not> hasBlocking []"
  by (simp add: hasBlocking_def)

lemma request_diagnostics_nonempty:
  assumes "try_fold (request_diagnostic request) errors acc = Inr ds" and "errors \<noteq> []"
  shows "ds \<noteq> []"
proof -
  have grows: "length acc + length errors \<le> length ds"
    if "try_fold (request_diagnostic request) errors acc = Inr ds" for errors acc
    using that
  proof (induction errors arbitrary: acc)
    case (Cons e es)
    then obtain a where a: "request_diagnostic request e acc = Inr a"
      "try_fold (request_diagnostic request) es a = Inr ds" by (auto simp: try_then_Inr)
    have "length a = Suc (length acc)"
      using a(1) by (auto simp: request_diagnostic_def Let_def print_then_def split: if_splits)
    with Cons.IH [OF a(2)] show ?case by simp
  qed simp
  show ?thesis using grows [OF assms(1)] assms(2) by (cases ds) auto
qed

lemma format_file_Inr:
  "format_file format ir f acc = Inr a \<Longrightarrow> a = acc @ [list_file ir f]"
  by (auto simp: format_file_def split: sum.splits)

lemma format_files:
  "try_fold (format_file format ir) fs acc = Inr out \<Longrightarrow> out = acc @ map (list_file ir) fs"
proof (induction fs arbitrary: acc)
  case (Cons f fs)
  then have "try_fold (format_file format ir) fs (acc @ [list_file ir f]) = Inr out"
    by (auto simp: try_then_Inr dest: format_file_Inr)
  from Cons.IH [OF this] show ?case by simp
qed simp

definition manifest_ok :: "output_manifest \<Rightarrow> bool" where
  "manifest_ok m \<longleftrightarrow>
     (if om_state m \<in> set refusal_states then om_files m = [] \<and> om_diagnostics m \<noteq> []
      else \<not> hasBlocking (om_diagnostics m))"

text \<open>A manifest is one of the seam's own refusals, or the reconciled generation of the backend.\<close>

lemma generateTarget_cases:
  assumes "generateTarget h registry format target request = Inr m"
  obtains (refused) i s ds where "m = manifest_for i s [] ds" "s \<in> set refusal_states" "ds \<noteq> []"
  | (generated) b generation where "list_all (isWithinRoot \<circ> gf_path) (files_in generation)"
      "finish_generation format (get request ''ir'') b generation = Inr m"
proof -
  obtain e where e: "selectBackend target registry = Inr e"
    using assms by (auto simp: generateTarget_def try_then_Inr)
  note r = assms [unfolded generateTarget_def Let_def e try_then_simps]
  consider (errors) "h_schemaErrors h ''compiler-request.schema.json'' request \<noteq> []"
    | (unbuilt) "h_schemaErrors h ''compiler-request.schema.json'' request = []" "\<not> te_implemented e"
    | (built) "h_schemaErrors h ''compiler-request.schema.json'' request = []" "te_implemented e" by blast
  then show thesis
  proof cases
    case errors
    then obtain ds where ds: "request_diagnostics request (h_schemaErrors h ''compiler-request.schema.json'' request) = Inr ds"
      and m: "m = manifest_for (entry_identity e) ''invalid'' [] ds"
      using r by (auto simp: try_then_Inr)
    then show thesis using that(1) [OF m] request_diagnostics_nonempty [OF ds [unfolded request_diagnostics_def] errors]
      by (simp add: refusal_states_def)
  next
    case unbuilt
    then show thesis using r that(1) by (force simp: refusal_states_def)
  next
    case built
    then obtain b where w: "generate_with request format b = Inr m"
      using r by (auto simp: try_then_Inr)
    note w = w [unfolded generate_with_def Let_def]
    show thesis
    proof (cases "list_ex (\<lambda>v. strict_eq v (get (get request ''ir'') ''contractVersion''))
        (case bk_irVersions b of None \<Rightarrow> [] | Some vs \<Rightarrow> vs)")
      case False
      then show thesis using w that(1) by (force simp: refusal_states_def print_then_def split: if_splits)
    next
      case supported: True
      show thesis
      proof (cases "firstUnrenderedType (get request ''ir'')")
        case (Some u)
        then show thesis using w supported that(1)
          by (force simp: refusal_states_def print_then_def split: if_splits)
      next
        case None
        then obtain generate generation b' where g: "assertBackendContract (Some b) generation = Inr b'"
          "finish_generation format (get request ''ir'') b' generation = Inr m"
          using w supported by (auto simp: try_then_Inr split: option.splits sum.splits)
        have "list_all (isWithinRoot \<circ> gf_path) (files_in generation)"
          using g(1) by (auto simp: assertBackendContract_def try_then_Inr find_None_iff list_all_iff
              split: option.splits)
        then show thesis using that(2) g(2) by blast
      qed
    qed
  qed
qed

text \<open>Where an error of a generation comes from.\<close>

lemma request_diagnostics_errors:
  "try_fold (request_diagnostic request) errors acc = Inl e \<Longrightarrow>
    \<not> prints (get (get request ''ir'') ''contractVersion'') \<and>
    e = Unprintable (get (get request ''ir'') ''contractVersion'')"
proof (induction errors arbitrary: acc)
  case (Cons x xs)
  then show ?case
    by (auto simp: try_then_Inl request_diagnostic_def Let_def print_then_def split: if_splits)
qed simp

lemma finish_generation_errors:
  assumes "finish_generation format ir b generation = Inl e"
  shows "\<exists>m text path. e = FormatThrew m \<and> format text path = Inl m"
proof -
  have "\<exists>m text path. e = FormatThrew m \<and> format text path = Inl m"
    if "try_fold (format_file format ir) fs acc = Inl e" for fs acc
    using that
    by (induction fs arbitrary: acc) (auto simp: try_then_Inl format_file_def split: sum.splits)
  then show ?thesis
    using assms by (auto simp: finish_generation_def Let_def try_then_Inl split: if_splits)
qed

lemma assertBackendMembers_Inr: "assertBackendMembers b = Inr c \<longleftrightarrow> b = Some c \<and> missing_members c = []"
  by (auto simp: assertBackendMembers_def split: option.splits list.splits)

lemma assertBackendMembers_Inl:
  "assertBackendMembers b = Inl x \<Longrightarrow>
    \<exists>m. x = MissingMember m \<and> (case b of None \<Rightarrow> True | Some c \<Rightarrow> m \<in> set (missing_members c))"
  by (auto simp: assertBackendMembers_def split: option.splits list.splits)

lemma generate_with_errors:
  assumes "generate_with request format b = Inl x" and whole: "missing_members b = []"
  obtains (unprintable) v where "x = Unprintable v" "\<not> prints v"
  | (throws) g m where "x = GenerateThrew m" "bk_generate b = Some g" "g request format = Inl m"
  | (outside) g generation f where "x = OutsideRoot (bk_identity b) (gf_path f)" "bk_generate b = Some g"
      "g request format = Inr generation" "f \<in> set (files_in generation)" "\<not> isWithinRoot (gf_path f)"
  | (formatter) t path m where "x = FormatThrew m" "format t path = Inl m"
proof -
  note r = assms(1) [unfolded generate_with_def Let_def]
  obtain g where g: "bk_generate b = Some g" using whole
    by (cases "bk_generate b") (simp_all add: missing_members_def split: if_splits)
  show thesis
  proof (cases "list_ex (\<lambda>v. strict_eq v (get (get request ''ir'') ''contractVersion''))
        (case bk_irVersions b of None \<Rightarrow> [] | Some vs \<Rightarrow> vs)")
    case False
    then show thesis using r unprintable by (auto simp: print_then_def split: if_splits)
  next
    case supported: True
    show thesis
    proof (cases "firstUnrenderedType (get request ''ir'')")
      case (Some u)
      then show thesis using r supported unprintable by (auto simp: print_then_def split: if_splits)
    next
      case None
      show thesis
      proof (cases "g request format")
        case (Inl m)
        then show thesis using r supported None g throws [of m g] by simp
      next
        case (Inr generation)
        have m: "assertBackendMembers (Some b) = Inr b" using whole by (simp add: assertBackendMembers_Inr)
        show thesis
        proof (cases "find (\<lambda>f. \<not> isWithinRoot (gf_path f)) (files_in generation)")
          case (Some f)
          then have "f \<in> set (files_in generation)" "\<not> isWithinRoot (gf_path f)"
            by (auto simp: find_Some_iff)
          then show thesis using r supported None g Inr Some m outside [of f g generation] by (simp add: assertBackendContract_def)
        next
          case none: None
          then have "finish_generation format (get request ''ir'') b generation = Inl x"
            using r supported None g Inr m by (simp add: assertBackendContract_def)
          then show thesis using finish_generation_errors formatter by blast
        qed
      qed
    qed
  qed
qed

section \<open>Concrete generations\<close>

definition demo_backend :: backend where
  "demo_backend =
     \<lparr>bk_identity = Str (js ''b''), bk_version = Str (js ''1''), bk_irVersions = Some [Str (js ''2.0.0'')],
      bk_features = Some [],
      bk_generate = Some (\<lambda>request format. Inr \<lparr>gn_state = None,
        gn_files = Some [\<lparr>gf_path = Str (js ''src/a.ts''), gf_text = [], gf_identities = None, gf_mediaType = None\<rparr>],
        gn_diagnostics = None\<rparr>),
      bk_owningIssue = Undefined\<rparr>"

definition demo_targets :: target_registry where
  "demo_targets = REGISTRY (\<lambda>t. demo_backend)"

definition demo_request :: "jsval \<Rightarrow> jsval" where
  "demo_request version = Obj [(js ''ir'', Obj [(js ''contractVersion'', version)])]"

text \<open>A host whose validator refuses the contract version, as an enumeration error there does.\<close>

definition refusing_host :: host where
  "refusing_host = demo_host \<lparr>h_schemaErrors := \<lambda>s v.
     [Obj [(js ''instancePath'', Str (js ''/ir/contractVersion''))]]\<rparr>"

lemma demo_generation:
  "generateTarget demo_host demo_targets (\<lambda>text path. Inr text) (Str (js ''rust''))
    (demo_request (Str (js ''2.0.0''))) =
   Inr (manifest_for (Str (js ''b'')) ''success''
     [\<lparr>lf_path = Str (js ''src/a.ts''), lf_mediaType = js ''text/typescript'', lf_identities = []\<rparr>] [])"
proof -
  have e: "h_schemaErrors demo_host s v = []" for s v by (simp add: demo_host_def)
  show ?thesis unfolding generateTarget_def e Let_def by code_simp
qed

section \<open>Properties\<close>

text \<open>
  C24. Every manifest \<open>generateTarget\<close> returns is coherent: in one of the states \<open>invalid\<close>,
  \<open>unsupported\<close> and \<open>unavailable\<close> it lists no file and gives at least one reason, and in any other
  state none of its diagnostics blocks.
\<close>

theorem generateTarget_coherent:
  assumes "generateTarget h registry format target request = Inr m"
  shows "if om_state m \<in> set refusal_states then om_files m = [] \<and> om_diagnostics m \<noteq> []
    else \<not> hasBlocking (om_diagnostics m)"
  using assms
proof (cases rule: generateTarget_cases)
  case (generated b generation)
  then show ?thesis
    by (auto simp: finish_generation_def Let_def try_then_Inr refusal_states_def split: if_splits option.splits)
qed simp

theorem generateTarget_coherent_witness:
  "\<not> hasBlocking (om_diagnostics (manifest_for (Str (js ''b'')) ''success''
     [\<lparr>lf_path = Str (js ''src/a.ts''), lf_mediaType = js ''text/typescript'', lf_identities = []\<rparr>] []))"
  using generateTarget_coherent [OF demo_generation] by (simp add: refusal_states_def)

text \<open>
  C25. A generation never leaves its root: wherever the caller's root is, every file a manifest lists
  resolves to a path that extends the root by at least one segment. Its list is that of the backend,
  in order, and each file is listed with the identities the backend gave or that of the package.
\<close>

theorem generateTarget_confined:
  assumes "generateTarget h registry format target request = Inr m"
  shows "list_all (\<lambda>f. \<exists>p segments. lf_path f = Str p \<and> segments \<noteq> [] \<and>
      resolve_path base p = base @ segments) (om_files m)"
  using assms
proof (cases rule: generateTarget_cases)
  case (generated b generation)
  have "om_files m = [] \<or> om_files m = map (list_file (get request ''ir'')) (files_in generation)"
    using generated(2) by (auto simp: finish_generation_def Let_def try_then_Inr dest: format_files split: if_splits)
  moreover have "list_all (\<lambda>f. \<exists>p segments. lf_path (list_file ir f) = Str p \<and> segments \<noteq> [] \<and>
      resolve_path base p = base @ segments) (files_in generation)" for ir
    using generated(1) by (auto simp: list_all_iff list_file_def elim!: isWithinRoot_resolves [where base = base])
  ultimately show ?thesis by (auto simp: list_all_iff)
qed simp

theorem generateTarget_confined_witness:
  "\<exists>segments. segments \<noteq> [] \<and>
    resolve_path [js ''out''] (js ''src/a.ts'') = [js ''out''] @ segments"
  using generateTarget_confined [OF demo_generation, of "[js ''out'']"] by simp

text \<open>
  What makes \<open>generateTarget\<close> throw: a target the registry does not hold; a registered backend
  without a required member, that throws, or that names a path outside the root; a formatter that
  throws; or a value of the request that \<open>String\<close> cannot print. A request of printable values never
  does.
\<close>

lemma generateTarget_errors:
  "case generateTarget h registry format target request of
     Inr m \<Rightarrow> True
   | Inl (UnknownTarget t) \<Rightarrow> t = target \<and> (case target of Str s \<Rightarrow> map_of registry s = None | _ \<Rightarrow> True)
   | Inl (MissingMember m) \<Rightarrow> \<exists>s e. target = Str s \<and> map_of registry s = Some e \<and> te_implemented e \<and>
       (case te_backend e of None \<Rightarrow> True | Some b \<Rightarrow> m \<in> set (missing_members b))
   | Inl (OutsideRoot i p) \<Rightarrow> \<exists>s e b g generation f. target = Str s \<and> map_of registry s = Some e \<and>
       te_backend e = Some b \<and> bk_generate b = Some g \<and> g request format = Inr generation \<and>
       f \<in> set (files_in generation) \<and> p = gf_path f \<and> \<not> isWithinRoot p
   | Inl (Unprintable v) \<Rightarrow> \<not> prints v
   | Inl (GenerateThrew m) \<Rightarrow> \<exists>s e b g. target = Str s \<and> map_of registry s = Some e \<and>
       te_backend e = Some b \<and> bk_generate b = Some g \<and> g request format = Inl m
   | Inl (FormatThrew m) \<Rightarrow> \<exists>text path. format text path = Inl m"
proof (cases "selectBackend target registry")
  case (Inl e)
  then show ?thesis by (auto simp: generateTarget_def selectBackend_def split: jsval.splits option.splits)
next
  case (Inr e)
  then obtain s where s: "target = Str s" "map_of registry s = Some e"
    by (auto simp: selectBackend_def split: jsval.splits option.splits)
  show ?thesis
  proof (cases "generateTarget h registry format target request")
    case err: (Inl x)
    note r = err [unfolded generateTarget_def Let_def Inr try_then_simps]
    show ?thesis
    proof (cases "h_schemaErrors h ''compiler-request.schema.json'' request = []")
      case False
      then have "request_diagnostics request (h_schemaErrors h ''compiler-request.schema.json'' request) = Inl x"
        using r by (simp add: try_then_Inl)
      then have "\<exists>v. x = Unprintable v \<and> \<not> prints v"
        unfolding request_diagnostics_def by (blast dest: request_diagnostics_errors)
      then show ?thesis using err by auto
    next
      case True
      then have built: "te_implemented e" using r by (simp split: if_splits)
      show ?thesis
      proof (cases "assertBackendMembers (te_backend e)")
        case (Inl y)
        then have "y = x" using r True built by simp
        with assertBackendMembers_Inl [OF Inl] s built err show ?thesis by auto
      next
        case (Inr b)
        then have b: "te_backend e = Some b" "missing_members b = []" by (auto simp: assertBackendMembers_Inr)
        from Inr r True built have "generate_with request format b = Inl x" by simp
        from this b(2) show ?thesis
        proof (cases rule: generate_with_errors)
          case (outside g generation f)
          then show ?thesis using err s b(1) by auto
        qed (use err s b(1) in auto)
      qed
    qed
  qed simp
qed

text \<open>
  A request can make the seam throw: where the validator refuses the contract version and that
  version is an object with a member \<open>toString\<close>, the message of the diagnostic cannot be built,
  although a defect of the request is meant to be a diagnostic.
\<close>

lemma generateTarget_unprintable:
  "generateTarget refusing_host (REGISTRY imported) format (Str (js ''rust''))
     (demo_request (Obj [(js ''toString'', v)])) = Inl (Unprintable (Obj [(js ''toString'', v)]))"
proof -
  have e: "h_schemaErrors refusing_host s w = [Obj [(js ''instancePath'', Str (js ''/ir/contractVersion''))]]" for s w
    by (simp add: refusing_host_def)
  have p: "errorPointer (Obj [(js ''instancePath'', Str (js ''/ir/contractVersion''))]) = js ''/ir/contractVersion''"
    by code_simp
  have "\<exists>x. selectBackend (Str (js ''rust'')) (REGISTRY imported) = Inr x"
    by (simp add: selectBackend_def REGISTRY_def TARGETS_def js_def unit_of_def)
  moreover have "get (get (demo_request w) ''ir'') ''contractVersion'' = w" for w
    by (simp add: demo_request_def get_def get_at_def members_of_def js_def unit_of_def)
  ultimately show ?thesis
    by (auto simp: generateTarget_def e request_diagnostics_def request_diagnostic_def p print_then_def Let_def)
qed

end
