(* ===== verification/Patterns.thy ===== *)
theory Patterns
  imports "HOL-Library.Extended_Nat" JsVal Results
begin

text \<open>
  The pattern parser of \<open>src/src/compiler/backends/rust-serde/patterns.mjs\<close>: the declared subset of
  ECMA-262 patterns over UTF-16 code units, its syntax trees and the classes of code units. The
  parser's \<open>text\<close> and \<open>at\<close> are the rest of the text it has not consumed; an offset is recovered from
  the length of the text.
\<close>

section \<open>Classes of code units\<close>

type_synonym unit_range = "int \<times> int"

definition LINE_TERMINATORS :: "int list" where
  "LINE_TERMINATORS = [0x000a, 0x000d, 0x2028, 0x2029]"

definition DIGIT_RANGES :: "unit_range list" where
  "DIGIT_RANGES = [(0x30, 0x39)]"

definition WORD_RANGES :: "unit_range list" where
  "WORD_RANGES = [(0x30, 0x39), (0x41, 0x5a), (0x5f, 0x5f), (0x61, 0x7a)]"

definition SPACE_RANGES :: "unit_range list" where
  "SPACE_RANGES =
     [(0x0009, 0x000d), (0x0020, 0x0020), (0x00a0, 0x00a0), (0x1680, 0x1680), (0x2000, 0x200a),
      (0x2028, 0x2029), (0x202f, 0x202f), (0x205f, 0x205f), (0x3000, 0x3000), (0xfeff, 0xfeff)]"

text \<open>The comparator of the sort, \<open>a[0] - b[0] || a[1] - b[1]\<close>.\<close>

definition by_bounds :: "unit_range \<Rightarrow> unit_range \<Rightarrow> int" where
  "by_bounds a b = (if fst a - fst b \<noteq> 0 then fst a - fst b else snd a - snd b)"

text \<open>The merged ranges so far, the last one first.\<close>

fun merge_ranges :: "unit_range list \<Rightarrow> unit_range list \<Rightarrow> unit_range list" where
  "merge_ranges [] merged = rev merged"
| "merge_ranges ((lo, hi) # rest) merged =
     (case merged of
        (l, h) # earlier \<Rightarrow>
          if lo \<le> h + 1 then merge_ranges rest ((l, max h hi) # earlier)
          else merge_ranges rest ((lo, hi) # merged)
      | [] \<Rightarrow> merge_ranges rest [(lo, hi)])"

definition normalizeRanges :: "unit_range list \<Rightarrow> unit_range list" where
  "normalizeRanges ranges = merge_ranges (stable_sort by_bounds ranges) []"

fun complement_from :: "int \<Rightarrow> unit_range list \<Rightarrow> unit_range list" where
  "complement_from cursor [] = (if cursor \<le> 0xffff then [(cursor, 0xffff)] else [])"
| "complement_from cursor ((lo, hi) # rest) =
     (if cursor < lo then [(cursor, lo - 1)] else []) @ complement_from (hi + 1) rest"

definition complement :: "unit_range list \<Rightarrow> unit_range list" where
  "complement ranges = complement_from 0 (normalizeRanges ranges)"

section \<open>Syntax trees\<close>

datatype node =
    Chr int
  | Dot
  | Cls bool "unit_range list"
  | Bol
  | Eol
  | Seq "node list"
  | Alt "node list"
  | Rep node enat enat bool

text \<open>
  \<open>Unsupported\<close> names the construct and its offset. \<open>PatternTypeError\<close> is the \<open>TypeError\<close> of reading
  a member of \<open>undefined\<close>; the fuel of the recursion is proved to be enough.
\<close>

datatype pattern_error = Unsupported jsstr nat | PatternTypeError | PatternFuel

fun matchesEmpty :: "node \<Rightarrow> bool" where
  "matchesEmpty (Chr u) = False"
| "matchesEmpty Dot = False"
| "matchesEmpty (Cls negated ranges) = False"
| "matchesEmpty Bol = True"
| "matchesEmpty Eol = True"
| "matchesEmpty (Seq terms) = list_all (\<lambda>t. matchesEmpty t) terms"
| "matchesEmpty (Alt branches) = list_ex (\<lambda>b. matchesEmpty b) branches"
| "matchesEmpty (Rep atom lo hi lazy) \<longleftrightarrow> lo = 0 \<or> matchesEmpty atom"

definition classEscape :: "16 word \<Rightarrow> (bool \<times> unit_range list) option" where
  "classEscape c =
     (if c = 100 then Some (False, DIGIT_RANGES)
      else if c = 68 then Some (True, DIGIT_RANGES)
      else if c = 119 then Some (False, WORD_RANGES)
      else if c = 87 then Some (True, WORD_RANGES)
      else if c = 115 then Some (False, SPACE_RANGES)
      else if c = 83 then Some (True, SPACE_RANGES)
      else None)"

section \<open>Quantifiers\<close>

definition quote_unit :: "16 word \<Rightarrow> jsstr" where
  "quote_unit c = js ''`'' @ [c] @ js ''`''"

text \<open>\<open>(value ?? 0) * 10 + Number(digit)\<close> on binary64 values.\<close>

definition digit_step :: "jsnum \<Rightarrow> 16 word \<Rightarrow> jsnum" where
  "digit_step n c =
     (case n of
        Fin q \<Rightarrow> (case round64 (q * 10) of Fin r \<Rightarrow> round64 (r + of_int (digit_value c)) | m \<Rightarrow> m)
      | m \<Rightarrow> m)"

fun pattern_digits :: "jsnum option \<Rightarrow> jsstr \<Rightarrow> jsnum option \<times> jsstr" where
  "pattern_digits found [] = (found, [])"
| "pattern_digits found (c # s) =
     (if is_digit_unit c
      then pattern_digits (Some (digit_step (case found of None \<Rightarrow> Fin 0 | Some n \<Rightarrow> n) c)) s
      else (found, c # s))"

text \<open>A quantifier's count as the loops of the lowering read it.\<close>

definition count_of :: "jsnum \<Rightarrow> enat" where
  "count_of n = (case n of Fin q \<Rightarrow> enat (nat \<lfloor>q\<rfloor>) | _ \<Rightarrow> \<infinity>)"

text \<open>After the opening brace; \<open>None\<close> restores the position, and the brace is a literal.\<close>

definition braceQuantifier ::
  "nat \<Rightarrow> jsstr \<Rightarrow> pattern_error + ((enat \<times> enat) \<times> jsstr) option" where
  "braceQuantifier start s =
     (case pattern_digits None s of
        (None, _) \<Rightarrow> Inr None
      | (Some first, []) \<Rightarrow> Inr None
      | (Some first, c # s1) \<Rightarrow>
          if c = 125 then Inr (Some ((count_of first, count_of first), s1))
          else if c \<noteq> 44 then Inr None
          else (case s1 of
              [] \<Rightarrow> Inr None
            | d # s2 \<Rightarrow>
                if d = 125 then Inr (Some ((count_of first, \<infinity>), s2))
                else (case pattern_digits None s1 of
                    (Some second, e # s3) \<Rightarrow>
                      if e \<noteq> 125 then Inr None
                      else if num_less second first
                      then Inl (Unsupported (js ''an inverted {m,n} bound'') start)
                      else Inr (Some ((count_of first, count_of second), s3))
                  | _ \<Rightarrow> Inr None)))"

text \<open>The quantifier the rest of the text opens with: its bounds and what follows it.\<close>

definition read_quantifier :: "nat \<Rightarrow> jsstr \<Rightarrow> pattern_error + ((enat \<times> enat) \<times> jsstr) option" where
  "read_quantifier n s =
     (case s of
        [] \<Rightarrow> Inr None
      | c # r \<Rightarrow>
          if c = 42 then Inr (Some ((0, \<infinity>), r))
          else if c = 43 then Inr (Some ((1, \<infinity>), r))
          else if c = 63 then Inr (Some ((0, 1), r))
          else if c = 123 then braceQuantifier (n - length s) r
          else Inr None)"

definition quantified :: "nat \<Rightarrow> node \<Rightarrow> jsstr \<Rightarrow> pattern_error + node \<times> jsstr" where
  "quantified n a s =
     try_then (read_quantifier n s) (\<lambda>q.
       case q of
         None \<Rightarrow> Inr (a, s)
       | Some ((lo, hi), r) \<Rightarrow>
           let lazy = (r \<noteq> [] \<and> hd r = 63); rest = (if lazy then tl r else r)
           in if a = Bol \<or> a = Eol
              then Inl (Unsupported (js ''a quantified assertion'') (n - length rest))
              else if hi = \<infinity> \<and> matchesEmpty a
              then Inl (Unsupported
                (js ''an unbounded quantifier over an atom that can match the empty string'')
                (n - length rest))
              else Inr (Rep a lo hi lazy, rest))"

section \<open>Escapes\<close>

definition hex_digits :: "nat \<Rightarrow> jsstr \<Rightarrow> int option" where
  "hex_digits k s =
     (if length s < k \<or> \<not> list_all (\<lambda>c. hex_value c \<noteq> None) (take k s) then None
      else Some (foldl (\<lambda>v c. 16 * v + (case hex_value c of None \<Rightarrow> 0 | Some d \<Rightarrow> d)) 0 (take k s)))"

definition is_letter :: "16 word \<Rightarrow> bool" where
  "is_letter c \<longleftrightarrow> 65 \<le> c \<and> c \<le> 90 \<or> 97 \<le> c \<and> c \<le> 122"

definition simple_units :: "(16 word \<times> int) list" where
  "simple_units = [(110, 0x0a), (114, 0x0d), (116, 0x09), (102, 0x0c), (118, 0x0b)]"

text \<open>After the backslash. An escape at the end of the text reads a member of \<open>undefined\<close>.\<close>

definition characterEscape :: "nat \<Rightarrow> jsstr \<Rightarrow> pattern_error + int \<times> jsstr" where
  "characterEscape n s =
     (let start = n - length s
      in case s of
           [] \<Rightarrow> Inl PatternTypeError
         | c # r \<Rightarrow>
             (case map_of simple_units c of
                Some u \<Rightarrow> Inr (u, r)
              | None \<Rightarrow>
                  if c = 48
                  then if r \<noteq> [] \<and> is_digit_unit (hd r)
                    then Inl (Unsupported (js ''a legacy octal escape'') start) else Inr (0, r)
                  else if c = 120
                  then (case hex_digits 2 r of
                      None \<Rightarrow> Inl (Unsupported (js ''a malformed `'' @ [92] @ js ''xHH` escape'') start)
                    | Some u \<Rightarrow> Inr (u, drop 2 r))
                  else if c = 117
                  then if r \<noteq> [] \<and> hd r = 123
                    then Inl (Unsupported
                      (js ''a code-point escape `'' @ [92] @ js ''u{'' @ [0x2026] @ js ''}`'') start)
                    else (case hex_digits 4 r of
                        None \<Rightarrow> Inl (Unsupported (js ''a malformed `'' @ [92] @ js ''uHHHH` escape'') start)
                      | Some u \<Rightarrow> Inr (u, drop 4 r))
                  else if c = 99
                  then (case r of
                      l # r' \<Rightarrow> if is_letter l then Inr (uint l mod 32, r')
                        else Inl (Unsupported (js ''a malformed control escape `'' @ [92] @ js ''c`'') start)
                    | [] \<Rightarrow> Inl (Unsupported (js ''a malformed control escape `'' @ [92] @ js ''c`'') start))
                  else Inr (uint c, r)))"

definition refuse_property :: "nat \<Rightarrow> pattern_error" where
  "refuse_property start =
     Unsupported (js ''a Unicode property escape `'' @ [92] @ js ''p{'' @ [0x2026] @ js ''}`'') start"

definition refuse_named :: "nat \<Rightarrow> pattern_error" where
  "refuse_named start = Unsupported (js ''a named backreference `'' @ [92] @ js ''k<name>`'') start"

text \<open>After the backslash; the text starts there at \<open>start\<close>.\<close>

definition atomEscape :: "nat \<Rightarrow> jsstr \<Rightarrow> pattern_error + node \<times> jsstr" where
  "atomEscape n s =
     (let start = n - Suc (length s)
      in case s of
           [] \<Rightarrow> Inl (Unsupported (js ''a trailing backslash'') start)
         | c # r \<Rightarrow>
             if c = 98 then Inl (Unsupported (js ''the word boundary `'' @ [92] @ js ''b`'') start)
             else if c = 66 then Inl (Unsupported (js ''the non-word boundary `'' @ [92] @ js ''B`'') start)
             else if c = 112 \<or> c = 80 then Inl (refuse_property start)
             else if c = 107 then Inl (refuse_named start)
             else if 49 \<le> c \<and> c \<le> 57
             then Inl (Unsupported (js ''a backreference `'' @ [92, c] @ js ''`'') start)
             else (case classEscape c of
                 Some (negated, ranges) \<Rightarrow> Inr (Cls negated ranges, r)
               | None \<Rightarrow> try_then (characterEscape n s) (\<lambda>(u, r). Inr (Chr u, r))))"

section \<open>Character classes\<close>

datatype class_atom = UnitAtom int | RangesAtom "unit_range list"

definition classAtom :: "nat \<Rightarrow> jsstr \<Rightarrow> pattern_error + class_atom \<times> jsstr" where
  "classAtom n s =
     (let start = n - length s
      in case s of
           [] \<Rightarrow> Inl PatternTypeError
         | c # r \<Rightarrow>
             if c \<noteq> 92 then Inr (UnitAtom (uint c), r)
             else (case r of
                 [] \<Rightarrow> try_then (characterEscape n r) (\<lambda>(u, r). Inr (UnitAtom u, r))
               | d # r' \<Rightarrow>
                   if d = 98 then Inr (UnitAtom 8, r')
                   else if d = 66 then Inl (Unsupported (js ''`'' @ [92] @ js ''B` inside a class'') start)
                   else if d = 112 \<or> d = 80 then Inl (refuse_property start)
                   else if d = 107 then Inl (refuse_named start)
                   else (case classEscape d of
                       Some (negated, ranges) \<Rightarrow>
                         Inr (RangesAtom (if negated then complement ranges else ranges), r')
                     | None \<Rightarrow> try_then (characterEscape n r) (\<lambda>(u, r). Inr (UnitAtom u, r)))))"

text \<open>The loop over the members of a class, one round per unit of fuel.\<close>

fun class_members ::
  "nat \<Rightarrow> nat \<Rightarrow> nat \<Rightarrow> unit_range list \<Rightarrow> jsstr \<Rightarrow> pattern_error + unit_range list \<times> jsstr" where
  "class_members n start 0 ranges s = Inl PatternFuel"
| "class_members n start (Suc fuel) ranges s =
     (case s of
        [] \<Rightarrow> Inl (Unsupported (js ''an unterminated class'') start)
      | c # r \<Rightarrow>
          if c = 93 then Inr (ranges, r)
          else try_then (classAtom n s) (\<lambda>(first, s1).
            case first of
              RangesAtom rs \<Rightarrow> class_members n start fuel (ranges @ rs) s1
            | UnitAtom u \<Rightarrow>
                (case s1 of
                   d # e # s2 \<Rightarrow>
                     if d = 45 \<and> e \<noteq> 93
                     then try_then (classAtom n (e # s2)) (\<lambda>(second, s3).
                       case second of
                         RangesAtom rs \<Rightarrow>
                           Inl (Unsupported (js ''a class escape as a range bound'') (n - length s3))
                       | UnitAtom v \<Rightarrow>
                           if v < u then Inl (Unsupported (js ''an inverted class range'') (n - length s3))
                           else class_members n start fuel (ranges @ [(u, v)]) s3)
                     else class_members n start fuel (ranges @ [(u, u)]) s1
                 | _ \<Rightarrow> class_members n start fuel (ranges @ [(u, u)]) s1)))"

text \<open>After the opening bracket.\<close>

definition characterClass :: "nat \<Rightarrow> jsstr \<Rightarrow> pattern_error + node \<times> jsstr" where
  "characterClass n s =
     (let start = n - Suc (length s);
          negated = (s \<noteq> [] \<and> hd s = 94);
          s' = (if negated then tl s else s)
      in try_then (class_members n start (Suc (length s')) [] s') (\<lambda>(ranges, r).
           Inr (Cls negated (normalizeRanges ranges), r)))"

section \<open>The grammar\<close>

text \<open>\<open>(?\<close> and what may follow it: the body of a non-capturing group, or a refusal.\<close>

definition group_body :: "nat \<Rightarrow> jsstr \<Rightarrow> pattern_error + jsstr" where
  "group_body n s =
     (let start = n - Suc (length s)
      in case s of
           c # r \<Rightarrow>
             if c \<noteq> 63 then Inr s
             else (case r of
                 d # r' \<Rightarrow>
                   if d = 58 then Inr r'
                   else if d = 61 then Inl (Unsupported (js ''a lookahead `(?=`'') start)
                   else if d = 33 then Inl (Unsupported (js ''a negative lookahead `(?!`'') start)
                   else if d = 60
                   then if r' \<noteq> [] \<and> hd r' = 61 then Inl (Unsupported (js ''a lookbehind `(?<=`'') start)
                     else if r' \<noteq> [] \<and> hd r' = 33
                     then Inl (Unsupported (js ''a negative lookbehind `(?<!`'') start)
                     else Inl (Unsupported (js ''a named group `(?<name>`'') start)
                   else Inl (Unsupported (js ''an unsupported group modifier'') start)
               | [] \<Rightarrow> Inl (Unsupported (js ''an unsupported group modifier'') start))
         | [] \<Rightarrow> Inr s)"

definition expect_close :: "nat \<Rightarrow> node \<times> jsstr \<Rightarrow> pattern_error + node \<times> jsstr" where
  "expect_close n r =
     (case snd r of
        c # s \<Rightarrow> if c = 41 then Inr (fst r, s)
          else Inl (Unsupported (js ''an unterminated group'') (n - length (snd r)))
      | [] \<Rightarrow> Inl (Unsupported (js ''an unterminated group'') (n - length (snd r))))"

definition ends_alternative :: "jsstr \<Rightarrow> bool" where
  "ends_alternative s \<longleftrightarrow> s = [] \<or> hd s = 124 \<or> hd s = 41"

text \<open>
  The recursion goes through groups only: \<open>inner\<close> parses the disjunction of a group. The two loops
  take one unit of fuel per round.
\<close>

type_synonym 'a parse_result = "pattern_error + 'a \<times> jsstr"

definition parse_atom :: "(jsstr \<Rightarrow> node parse_result) \<Rightarrow> nat \<Rightarrow> jsstr \<Rightarrow> node parse_result" where
  "parse_atom inner n s =
     (case s of
        [] \<Rightarrow> Inl (Unsupported (js ''an empty atom'') n)
      | c # r \<Rightarrow>
          if c = 46 then Inr (Dot, r)
          else if c = 40 then try_then (group_body n r) (\<lambda>s1. try_then (inner s1) (expect_close n))
          else if c = 91 then characterClass n r
          else if c = 92 then atomEscape n r
          else if c = 42 \<or> c = 43 \<or> c = 63
          then Inl (Unsupported (js ''a quantifier with no atom'') (n - length s))
          else Inr (Chr (uint c), r))"

definition parse_term :: "(jsstr \<Rightarrow> node parse_result) \<Rightarrow> nat \<Rightarrow> jsstr \<Rightarrow> node parse_result" where
  "parse_term inner n s =
     (if s \<noteq> [] \<and> hd s = 94 then Inr (Bol, tl s)
      else if s \<noteq> [] \<and> hd s = 36 then Inr (Eol, tl s)
      else try_then (parse_atom inner n s) (\<lambda>(a, s1). quantified n a s1))"

fun parse_terms ::
  "(jsstr \<Rightarrow> node parse_result) \<Rightarrow> nat \<Rightarrow> nat \<Rightarrow> node list \<Rightarrow> jsstr \<Rightarrow> node list parse_result" where
  "parse_terms inner n 0 terms s = Inl PatternFuel"
| "parse_terms inner n (Suc fuel) terms s =
     (if ends_alternative s then Inr (terms, s)
      else try_then (parse_term inner n s) (\<lambda>(t, s1). parse_terms inner n fuel (terms @ [t]) s1))"

definition alternative :: "(jsstr \<Rightarrow> node parse_result) \<Rightarrow> nat \<Rightarrow> jsstr \<Rightarrow> node parse_result" where
  "alternative inner n s =
     try_then (parse_terms inner n (Suc (length s)) [] s) (\<lambda>(terms, s1). Inr (Seq terms, s1))"

fun alternatives ::
  "(jsstr \<Rightarrow> node parse_result) \<Rightarrow> nat \<Rightarrow> nat \<Rightarrow> node list \<Rightarrow> jsstr \<Rightarrow> node list parse_result" where
  "alternatives inner n 0 branches s = Inl PatternFuel"
| "alternatives inner n (Suc fuel) branches s =
     (if s \<noteq> [] \<and> hd s = 124
      then try_then (alternative inner n (tl s)) (\<lambda>(a, s1). alternatives inner n fuel (branches @ [a]) s1)
      else Inr (branches, s))"

definition branches_of :: "(jsstr \<Rightarrow> node parse_result) \<Rightarrow> nat \<Rightarrow> jsstr \<Rightarrow> node parse_result" where
  "branches_of inner n s =
     try_then (alternative inner n s) (\<lambda>(a, s1).
     try_then (alternatives inner n (Suc (length s1)) [a] s1) (\<lambda>(branches, s2).
       Inr (if length branches = 1 then hd branches else Alt branches, s2)))"

primrec disjunction :: "nat \<Rightarrow> nat \<Rightarrow> jsstr \<Rightarrow> node parse_result" where
  "disjunction 0 n s = Inl PatternFuel"
| "disjunction (Suc depth) n s = branches_of (disjunction depth n) n s"

text \<open>Groups are nested no deeper than the text is long.\<close>

definition parsePattern :: "jsstr \<Rightarrow> pattern_error + node" where
  "parsePattern regex =
     try_then (disjunction (Suc (length regex)) (length regex) regex) (\<lambda>(a, s).
       case s of
         [] \<Rightarrow> Inr a
       | c # r \<Rightarrow> Inl (Unsupported (quote_unit c) (length regex - length s)))"

end
