(* ===== verification/PatternMachine.thy ===== *)
theory PatternMachine
  imports Patterns
begin

text \<open>
  The matcher of \<open>src/src/compiler/backends/rust-serde/patterns.mjs\<close>: the lowering of a syntax tree
  to a program with jumps, and the backtracking machine that runs it under a step bound
  (\<open>runProgram\<close>, the twin of the matcher the generated crate carries).
\<close>

section \<open>Programs\<close>

datatype inst =
    IChar int
  | IAny
  | IClass bool "unit_range list"
  | IBol
  | IEol
  | ISplit nat nat
  | IJump nat
  | IMatch

definition MAX_PROGRAM_LENGTH :: nat where
  "MAX_PROGRAM_LENGTH = 200000"

fun shift_inst :: "nat \<Rightarrow> inst \<Rightarrow> inst" where
  "shift_inst delta (IJump x) = IJump (x + delta)"
| "shift_inst delta (ISplit x y) = ISplit (x + delta) (y + delta)"
| "shift_inst delta i = i"

definition shift :: "inst list \<Rightarrow> nat \<Rightarrow> inst list" where
  "shift code delta = map (shift_inst delta) code"

definition guard :: "inst list \<Rightarrow> pattern_error + inst list" where
  "guard code =
     (if length code > MAX_PROGRAM_LENGTH
      then Inl (Unsupported
        (js ''a lowering longer than the declared '' @ nat_text MAX_PROGRAM_LENGTH
          @ js ''-instruction bound'') 0)
      else Inr code)"

definition star_code :: "inst list \<Rightarrow> bool \<Rightarrow> inst list" where
  "star_code body lazy =
     (if lazy then ISplit (1 + length body + 1) 1 else ISplit 1 (1 + length body + 1))
       # shift body 1 @ [IJump 0]"

definition plus_code :: "inst list \<Rightarrow> bool \<Rightarrow> inst list" where
  "plus_code body lazy =
     body @ [if lazy then ISplit (length body + 1) 0 else ISplit 0 (length body + 1)]"

definition opt_code :: "inst list \<Rightarrow> bool \<Rightarrow> inst list" where
  "opt_code body lazy =
     (if lazy then ISplit (1 + length body) 1 else ISplit 1 (1 + length body)) # shift body 1"

text \<open>\<open>out.concat(shift(body, out.length))\<close>.\<close>

definition append_code :: "inst list \<Rightarrow> inst list \<Rightarrow> inst list" where
  "append_code out body = out @ shift body (length out)"

text \<open>
  The loop over the required copies. Copies of an empty body change nothing; a body of at least one
  instruction stops an unbounded count at the guard.
\<close>

fun required_copies :: "inst list \<Rightarrow> nat \<Rightarrow> inst list \<Rightarrow> pattern_error + inst list" where
  "required_copies body 0 out = Inr out"
| "required_copies body (Suc n) out =
     try_then (guard (append_code out body)) (required_copies body n)"

definition rounds :: "enat \<Rightarrow> nat" where
  "rounds n = (case n of enat k \<Rightarrow> k | \<infinity> \<Rightarrow> Suc MAX_PROGRAM_LENGTH)"

definition copies :: "inst list \<Rightarrow> enat \<Rightarrow> inst list \<Rightarrow> pattern_error + inst list" where
  "copies body n out = (if body = [] then Inr out else required_copies body (rounds n) out)"

fun optional_copies :: "inst list \<Rightarrow> bool \<Rightarrow> nat \<Rightarrow> inst list \<Rightarrow> pattern_error + inst list" where
  "optional_copies body lazy 0 optional = Inr optional"
| "optional_copies body lazy (Suc n) optional =
     try_then (guard (opt_code (append_code body optional) lazy)) (optional_copies body lazy n)"

definition compileRepeat :: "inst list \<Rightarrow> enat \<Rightarrow> enat \<Rightarrow> bool \<Rightarrow> pattern_error + inst list" where
  "compileRepeat body lo hi lazy =
     (if hi = \<infinity>
      then if lo = 0 then Inr (star_code body lazy)
        else try_then (copies body (lo - 1) []) (\<lambda>out. guard (append_code out (plus_code body lazy)))
      else try_then (copies body lo []) (\<lambda>out.
           try_then (optional_copies body lazy (rounds (hi - lo)) []) (\<lambda>optional.
             guard (append_code out optional))))"

definition alternate :: "inst list \<Rightarrow> inst list \<Rightarrow> inst list" where
  "alternate left right =
     [ISplit 1 (1 + length left + 1)] @ shift left 1 @ [IJump (1 + length left + 1 + length right)]
       @ shift right (1 + length left + 1)"

fun compile :: "node \<Rightarrow> pattern_error + inst list"
  and compile_seq :: "node list \<Rightarrow> inst list \<Rightarrow> pattern_error + inst list"
  and compile_alt :: "node list \<Rightarrow> pattern_error + inst list" where
  "compile (Chr u) = Inr [IChar u]"
| "compile Dot = Inr [IAny]"
| "compile (Cls negated ranges) = Inr [IClass negated ranges]"
| "compile Bol = Inr [IBol]"
| "compile Eol = Inr [IEol]"
| "compile (Seq terms) = compile_seq terms []"
| "compile (Alt branches) = (if length branches < 2 then Inl PatternTypeError else compile_alt branches)"
| "compile (Rep atom lo hi lazy) =
     try_then (compile atom) (\<lambda>body. try_then (compileRepeat body lo hi lazy) guard)"
| "compile_seq [] out = Inr out"
| "compile_seq (t # ts) out =
     try_then (compile t) (\<lambda>code. try_then (guard (append_code out code)) (compile_seq ts))"
| "compile_alt [] = Inl PatternTypeError"
| "compile_alt [b] = compile b"
| "compile_alt (b # bs) =
     try_then (compile b) (\<lambda>left. try_then (compile_alt bs) (\<lambda>right. guard (alternate left right)))"

definition lowerPattern :: "jsstr \<Rightarrow> pattern_error + inst list" where
  "lowerPattern regex =
     try_then (parsePattern regex) (\<lambda>ast. try_then (compile ast) (\<lambda>body. Inr (body @ [IMatch])))"

section \<open>The machine\<close>

definition in_ranges :: "unit_range list \<Rightarrow> int \<Rightarrow> bool" where
  "in_ranges ranges u \<longleftrightarrow> list_ex (\<lambda>(lo, hi). lo \<le> u \<and> u \<le> hi) ranges"

text \<open>The frames an instruction pushes, the one popped next first.\<close>

fun frames :: "jsstr \<Rightarrow> inst \<Rightarrow> nat \<Rightarrow> nat \<Rightarrow> (nat \<times> nat) list" where
  "frames w (IChar u) pc i = (if i < length w \<and> uint (w ! i) = u then [(pc + 1, i + 1)] else [])"
| "frames w IAny pc i =
     (if i < length w \<and> uint (w ! i) \<notin> set LINE_TERMINATORS then [(pc + 1, i + 1)] else [])"
| "frames w (IClass negated ranges) pc i =
     (if i < length w \<and> in_ranges ranges (uint (w ! i)) \<noteq> negated then [(pc + 1, i + 1)] else [])"
| "frames w IBol pc i = (if i = 0 then [(pc + 1, i)] else [])"
| "frames w IEol pc i = (if i = length w then [(pc + 1, i)] else [])"
| "frames w (ISplit x y) pc i = [(x, i), (y, i)]"
| "frames w (IJump x) pc i = [(x, i)]"
| "frames w IMatch pc i = []"

datatype verdict = Bounded | Matched bool | Crashed

text \<open>
  The loop over the stack, with the steps left of the bound; \<open>Inr\<close> is the number left once the
  stack is empty. A program counter outside the program crashes.
\<close>

fun run_stack :: "inst list \<Rightarrow> jsstr \<Rightarrow> nat \<Rightarrow> (nat \<times> nat) list \<Rightarrow> verdict + nat" where
  "run_stack P w steps [] = Inr steps"
| "run_stack P w 0 (c # stack) = Inl Bounded"
| "run_stack P w (Suc steps) ((pc, i) # stack) =
     (if length P \<le> pc then Inl Crashed
      else if P ! pc = IMatch then Inl (Matched True)
      else run_stack P w steps (frames w (P ! pc) pc i @ stack))"

fun run_starts :: "inst list \<Rightarrow> jsstr \<Rightarrow> nat list \<Rightarrow> nat \<Rightarrow> verdict" where
  "run_starts P w [] steps = Matched False"
| "run_starts P w (start # rest) steps =
     (case run_stack P w steps [(0, start)] of Inl v \<Rightarrow> v | Inr left \<Rightarrow> run_starts P w rest left)"

definition runProgram :: "inst list \<Rightarrow> jsstr \<Rightarrow> nat \<Rightarrow> verdict" where
  "runProgram P w bound = run_starts P w [0..<Suc (length w)] bound"

section \<open>Classification\<close>

datatype pattern_class = Expressible | Proved | UnsupportedPattern

text \<open>The registry of hand-written validators is a parameter: the patterns it has an entry for.\<close>

definition classifyPattern :: "(jsstr \<Rightarrow> bool) \<Rightarrow> jsstr \<Rightarrow> pattern_error + pattern_class" where
  "classifyPattern registered regex =
     (case parsePattern regex of
        Inr _ \<Rightarrow> Inr Expressible
      | Inl (Unsupported what offset) \<Rightarrow>
          Inr (if registered regex then Proved else UnsupportedPattern)
      | Inl e \<Rightarrow> Inl e)"

definition unsupportedConstruct :: "(jsstr \<Rightarrow> bool) \<Rightarrow> jsstr \<Rightarrow> pattern_error + jsstr option" where
  "unsupportedConstruct registered regex =
     (case parsePattern regex of
        Inr _ \<Rightarrow> Inr None
      | Inl (Unsupported what offset) \<Rightarrow>
          Inr (if registered regex then None else Some what)
      | Inl e \<Rightarrow> Inl e)"

end
