(* ===== verification/PatternCorrect.thy ===== *)
theory PatternCorrect
  imports PatternMachine
begin

text \<open>
  The lowering of a pattern is correct: a program reaches its match instruction exactly on the
  subjects the syntax tree matches, and it never runs forever. Both facts are one argument, made in
  the locale \<open>configurations\<close> for any property that a configuration has when one of the frames it
  pushes has it.
\<close>

section \<open>The relation a pattern denotes\<close>

text \<open>\<open>(i, j)\<close>: the pattern can match the code units of the subject from \<open>i\<close> up to \<open>j\<close>.\<close>

fun den :: "jsstr \<Rightarrow> node \<Rightarrow> (nat \<times> nat) set" where
  "den w (Chr u) = {(i, j). i < length w \<and> uint (w ! i) = u \<and> j = Suc i}"
| "den w Dot = {(i, j). i < length w \<and> uint (w ! i) \<notin> set LINE_TERMINATORS \<and> j = Suc i}"
| "den w (Cls negated ranges) =
     {(i, j). i < length w \<and> in_ranges ranges (uint (w ! i)) \<noteq> negated \<and> j = Suc i}"
| "den w Bol = {(0, 0)}"
| "den w Eol = {(length w, length w)}"
| "den w (Seq ts) = foldr (\<lambda>t R. den w t O R) ts Id"
| "den w (Alt bs) = (\<Union>b \<in> set bs. den w b)"
| "den w (Rep a lo hi lazy) = (\<Union>k \<in> {k. lo \<le> enat k \<and> enat k \<le> hi}. den w a ^^ k)"

definition pattern_matches :: "node \<Rightarrow> jsstr \<Rightarrow> bool" where
  "pattern_matches a w \<longleftrightarrow> (\<exists>i j. i \<le> length w \<and> (i, j) \<in> den w a)"

text \<open>What the parser ensures of a tree.\<close>

fun wf_node :: "node \<Rightarrow> bool" where
  "wf_node (Seq ts) \<longleftrightarrow> list_all (\<lambda>t. wf_node t) ts"
| "wf_node (Alt bs) \<longleftrightarrow> 2 \<le> length bs \<and> list_all (\<lambda>b. wf_node b) bs"
| "wf_node (Rep a lo hi lazy) \<longleftrightarrow> wf_node a \<and> lo \<le> hi \<and> (hi = \<infinity> \<longrightarrow> \<not> matchesEmpty a)"
| "wf_node a \<longleftrightarrow> True"

section \<open>Matching moves forward\<close>

definition forward :: "jsstr \<Rightarrow> (nat \<times> nat) set" where
  "forward w = {(i, j). i = j \<or> i < j \<and> j \<le> length w}"

definition progress :: "jsstr \<Rightarrow> (nat \<times> nat) set" where
  "progress w = {(i, j). i < j \<and> j \<le> length w}"

lemma forward_Id: "Id \<subseteq> forward w"
  by (auto simp: forward_def)

lemma forward_comp: "R \<subseteq> forward w \<Longrightarrow> S \<subseteq> forward w \<Longrightarrow> R O S \<subseteq> forward w"
  by (fastforce simp: forward_def)

lemma forward_pow: "R \<subseteq> forward w \<Longrightarrow> R ^^ k \<subseteq> forward w"
  by (induction k) (simp_all add: forward_Id forward_comp)

lemma den_forward: "den w a \<subseteq> forward w"
proof (induction a)
  case (Seq ts)
  then have "foldr (\<lambda>t R. den w t O R) ts Id \<subseteq> forward w"
    by (induction ts) (simp_all add: forward_Id forward_comp)
  then show ?case by simp
next
  case (Rep a lo hi lazy)
  then show ?case using forward_pow [of "den w a" w] by fastforce
qed (auto simp: forward_def)

lemma progress_comp:
  "R \<subseteq> progress w \<Longrightarrow> S \<subseteq> forward w \<Longrightarrow> R O S \<subseteq> progress w"
  "R \<subseteq> forward w \<Longrightarrow> S \<subseteq> progress w \<Longrightarrow> R O S \<subseteq> progress w"
  by (fastforce simp: forward_def progress_def)+

lemma den_progress: "\<not> matchesEmpty a \<Longrightarrow> den w a \<subseteq> progress w"
proof (induction a)
  case (Seq ts)
  then have "foldr (\<lambda>t R. den w t O R) ts Id \<subseteq> progress w"
  proof (induction ts)
    case (Cons t ts)
    have rest: "foldr (\<lambda>t R. den w t O R) ts Id \<subseteq> forward w" for ts
      using den_forward [of w "Seq ts"] by simp
    show ?case
    proof (cases "matchesEmpty t")
      case True
      then show ?thesis using Cons progress_comp(2) [OF den_forward [of w t]] by simp
    next
      case False
      then show ?thesis using Cons.prems progress_comp(1) [OF _ rest] by simp
    qed
  qed simp
  then show ?case by simp
next
  case (Alt bs)
  then show ?case by (fastforce simp: list_ex_iff)
next
  case (Rep a lo hi lazy)
  have "den w a ^^ k \<subseteq> progress w" if "lo \<le> enat k" for k
  proof -
    have "k \<noteq> 0" using that Rep.prems by (cases k) (auto simp: zero_enat_def [symmetric])
    then obtain m where "k = Suc m" by (cases k) auto
    then show ?thesis
      using progress_comp(2) [OF forward_pow [OF den_forward], of "den w a" w m] Rep by simp
  qed
  then show ?case by auto
qed (auto simp: progress_def)

section \<open>Code embedded in a program\<close>

lemma shift_simps [simp]: "length (shift code d) = length code" "shift [] d = []"
  "shift (i # code) d = shift_inst d i # shift code d"
  "shift (code @ code') d = shift code d @ shift code' d"
  by (simp_all add: shift_def)

lemma shift_inst_add [simp]: "shift_inst k (shift_inst d i) = shift_inst (d + k) i"
  by (cases i) simp_all

lemma shift_add [simp]: "shift (shift code d) k = shift code (d + k)"
  by (simp add: shift_def)

lemma shift_zero [simp]: "shift code 0 = code"
proof -
  have "shift_inst 0 i = i" for i by (cases i) simp_all
  then show ?thesis by (simp add: shift_def map_idI)
qed

definition code_at :: "inst list \<Rightarrow> nat \<Rightarrow> inst list \<Rightarrow> bool" where
  "code_at P k code \<longleftrightarrow> (\<exists>before after. P = before @ shift code k @ after \<and> length before = k)"

lemma code_at_append: "code_at P k (a @ b) \<Longrightarrow> code_at P k a \<and>
    (\<exists>before after. P = before @ shift b k @ after \<and> length before = k + length a)"
proof -
  assume "code_at P k (a @ b)"
  then obtain before after where "P = before @ shift a k @ shift b k @ after" "length before = k"
    by (auto simp: code_at_def)
  then have "P = before @ shift a k @ (shift b k @ after)" "length before = k"
    "P = (before @ shift a k) @ shift b k @ after" "length (before @ shift a k) = k + length a" by simp_all
  then show ?thesis unfolding code_at_def by blast
qed

lemma code_at_append_code: "code_at P k (append_code a b) \<Longrightarrow> code_at P k a \<and> code_at P (k + length a) b"
  using code_at_append [of P k a "shift b (length a)"] by (auto simp: append_code_def code_at_def ac_simps)

lemma code_at_Cons: "code_at P k (i # code) \<Longrightarrow>
    k < length P \<and> P ! k = shift_inst k i \<and>
    (\<exists>before after. P = before @ shift code k @ after \<and> length before = Suc k)"
proof -
  assume "code_at P k (i # code)"
  then obtain before after where P: "P = before @ shift_inst k i # shift code k @ after" "length before = k"
    by (auto simp: code_at_def)
  then have "P = (before @ [shift_inst k i]) @ shift code k @ after" by simp
  then show ?thesis using P by (fastforce simp: nth_append)
qed

lemma code_at_body: "code_at P k (i # shift code d @ rest) \<Longrightarrow> d = 1 \<Longrightarrow>
    k < length P \<and> P ! k = shift_inst k i \<and> code_at P (Suc k) code \<and>
    (\<exists>before after. P = before @ shift rest k @ after \<and> length before = Suc k + length code)"
proof -
  assume c: "code_at P k (i # shift code d @ rest)" "d = 1"
  from code_at_Cons [OF c(1)] obtain before after
    where P: "P = before @ shift (shift code 1 @ rest) k @ after" "length before = Suc k"
      "k < length P" "P ! k = shift_inst k i"
    using c(2) by blast
  then have "P = before @ shift code (Suc k) @ (shift rest k @ after)"
    "P = (before @ shift code (Suc k)) @ shift rest k @ after" by simp_all
  then show ?thesis using P(2-4) unfolding code_at_def by fastforce
qed

section \<open>Copies and the guard\<close>

lemma guard_Inr: "guard code = Inr c \<longleftrightarrow> c = code \<and> length code \<le> MAX_PROGRAM_LENGTH"
  by (auto simp: guard_def)

lemma append_code_length [simp]: "length (append_code a b) = length a + length b"
  by (simp add: append_code_def)

lemma required_copies_length:
  "required_copies body n out = Inr code \<Longrightarrow>
    length code = length out + n * length body \<and> (n \<noteq> 0 \<longrightarrow> length code \<le> MAX_PROGRAM_LENGTH)"
proof (induction n arbitrary: out)
  case (Suc n)
  then have "length (append_code out body) \<le> MAX_PROGRAM_LENGTH"
    "required_copies body n (append_code out body) = Inr code"
    by (auto simp: try_then_Inr guard_Inr)
  with Suc.IH show ?case by (cases n) fastforce+
qed simp

lemma code_empty [simp]: "shift code d = [] \<longleftrightarrow> code = []" "append_code a b = [] \<longleftrightarrow> a = [] \<and> b = []"
  "[] = append_code a b \<longleftrightarrow> a = [] \<and> b = []"
  by (auto simp: shift_def append_code_def)

text \<open>An unbounded count never passes the guard.\<close>

lemma copies_finite:
  assumes "copies body n out = Inr code" and "body \<noteq> []"
  obtains k where "n = enat k" "required_copies body k out = Inr code"
proof (cases n)
  case (enat k)
  then show ?thesis using assms that by (simp add: copies_def rounds_def)
next
  case infinity
  then have "required_copies body (Suc MAX_PROGRAM_LENGTH) out = Inr code"
    using assms by (simp add: copies_def rounds_def del: required_copies.simps)
  then have "Suc MAX_PROGRAM_LENGTH * length body \<le> MAX_PROGRAM_LENGTH"
    using required_copies_length by fastforce
  moreover have "Suc MAX_PROGRAM_LENGTH \<le> Suc MAX_PROGRAM_LENGTH * length body"
    using assms(2) by (cases body) simp_all
  ultimately show ?thesis by simp
qed

lemma compile_alt_nonempty: "2 \<le> length bs \<Longrightarrow> compile_alt bs = Inr code \<Longrightarrow> code \<noteq> []"
  by (cases bs rule: compile_alt.cases) (auto simp: try_then_Inr guard_Inr alternate_def)

lemma optional_copies_nonempty: "optional_copies body lazy n out = Inr code \<Longrightarrow> n \<noteq> 0 \<or> out \<noteq> [] \<Longrightarrow> code \<noteq> []"
  by (induction n arbitrary: out) (auto simp: try_then_Inr guard_Inr opt_code_def)

text \<open>Empty code stands for a pattern that matches the empty string only.\<close>

lemma relpow_UN: "R ^^ l O (\<Union>k \<in> K. R ^^ k) = (\<Union>k \<in> K. R ^^ (l + k))"
  unfolding relpow_add by blast

lemma trancl_UN: "R\<^sup>+ = (\<Union>k \<in> {0<..}. R ^^ k)"
  by (rule set_eqI) (auto simp: trancl_power greaterThan_def)

lemma power_Id [simp]: "(Id :: ('a \<times> 'a) set) ^^ k = Id"
  by (induction k) simp_all

lemma copies_length: "copies body n out = Inr code \<Longrightarrow> length out \<le> length code"
  by (auto simp: copies_def dest: required_copies_length split: if_splits)

lemma compileRepeat_empty:
  assumes "compileRepeat body lo hi lazy = Inr []" and "lo \<le> hi"
  shows "hi = 0 \<or> (body = [] \<and> lo = hi)"
proof (cases "hi = \<infinity>")
  case True
  then show ?thesis using assms(1)
    by (auto simp: compileRepeat_def star_code_def plus_code_def try_then_Inr guard_Inr append_code_def split: if_splits)
next
  case False
  then obtain h l where e: "hi = enat h" "lo = enat l" using assms(2) by (cases hi; cases lo) auto
  from assms(1) False obtain out optional where o: "copies body lo [] = Inr out"
    "optional_copies body lazy (rounds (hi - lo)) [] = Inr optional" "append_code out optional = []"
    by (auto simp: compileRepeat_def try_then_Inr guard_Inr)
  then have empty: "out = []" "optional = []" by simp_all
  then have "h = l" using optional_copies_nonempty [OF o(2)] e assms(2) by (auto simp: rounds_def)
  moreover have "body = [] \<or> l = 0"
    using o(1) empty e required_copies_length [of body l "[]" "[]"] by (auto simp: copies_def rounds_def split: if_splits)
  ultimately show ?thesis using e by (auto simp: zero_enat_def)
qed

lemma compile_seq_empty: "compile_seq ts out = Inr [] \<Longrightarrow> out = [] \<and> list_all (\<lambda>t. compile t = Inr []) ts"
proof (induction ts arbitrary: out)
  case (Cons t ts)
  then obtain code where "compile t = Inr code" "compile_seq ts (append_code out code) = Inr []"
    by (auto simp: try_then_Inr guard_Inr)
  with Cons.IH [of "append_code out code"] show ?case by simp
qed simp

lemma compile_empty: "compile a = Inr [] \<Longrightarrow> wf_node a \<Longrightarrow> den w a = Id \<and> matchesEmpty a"
proof (induction a)
  case (Seq ts)
  then have "list_all (\<lambda>t. den w t = Id \<and> matchesEmpty t) ts"
    using compile_seq_empty [of ts "[]"] by (auto simp: list_all_iff)
  moreover from this have "foldr (\<lambda>t R. den w t O R) ts Id = Id" by (induction ts) auto
  ultimately show ?case by (simp add: list_all_iff)
next
  case (Alt bs)
  then show ?case using compile_alt_nonempty [of bs "[]"] by simp
next
  case (Rep a lo hi lazy)
  then obtain body where b: "compile a = Inr body" "compileRepeat body lo hi lazy = Inr []"
    by (auto simp: try_then_Inr guard_Inr)
  consider "hi = 0" | "body = []" "lo = hi" using compileRepeat_empty [OF b(2)] Rep.prems by auto
  then show ?case
  proof cases
    case 1
    then have "lo = 0" using Rep.prems(2) by simp
    moreover have "{k. lo \<le> enat k \<and> enat k \<le> hi} = {0}"
      using 1 \<open>lo = 0\<close> by (auto simp: zero_enat_def)
    ultimately show ?thesis by simp
  next
    case 2
    then have a: "den w a = Id" "matchesEmpty a" using Rep b(1) by auto
    then obtain k where "hi = enat k" using Rep.prems(2) by (cases hi) auto
    then have "{k. lo \<le> enat k \<and> enat k \<le> hi} = {k}" using 2 by auto
    then show ?thesis using a by simp
  qed
qed simp_all

section \<open>Properties of configurations\<close>

locale configurations =
  fixes P :: "inst list" and w :: jsstr and Q :: "nat \<times> nat \<Rightarrow> bool"
  assumes unfold: "pc < length P \<Longrightarrow> P ! pc \<noteq> IMatch \<Longrightarrow>
    Q (pc, i) \<longleftrightarrow> (\<exists>c \<in> set (frames w (P ! pc) pc i). Q c)"
begin

text \<open>Wherever the code is embedded, a property at its start is one at its end, for a pair of the relation.\<close>

definition runs :: "inst list \<Rightarrow> (nat \<times> nat) set \<Rightarrow> bool" where
  "runs code R \<longleftrightarrow>
     (\<forall>k i. code_at P k code \<longrightarrow> Q (k, i) = (\<exists>j. (i, j) \<in> R \<and> Q (k + length code, j)))"

lemma runsD: "runs code R \<Longrightarrow> code_at P k code \<Longrightarrow> Q (k, i) = (\<exists>j. (i, j) \<in> R \<and> Q (k + length code, j))"
  by (simp add: runs_def)

lemma runs_Nil: "runs [] Id"
  by (simp add: runs_def)

lemma runs_append: "runs a R \<Longrightarrow> runs b S \<Longrightarrow> runs (append_code a b) (R O S)"
  unfolding runs_def [of "append_code a b"]
proof (intro allI impI)
  fix k i assume r: "runs a R" "runs b S" and c: "code_at P k (append_code a b)"
  have "Q (k, i) = (\<exists>j. (i, j) \<in> R \<and> (\<exists>l. (j, l) \<in> S \<and> Q (k + length a + length b, l)))"
    using code_at_append_code [OF c] r by (simp add: runsD)
  then show "Q (k, i) = (\<exists>j. (i, j) \<in> R O S \<and> Q (k + length (append_code a b), j))"
    by (auto simp: append_code_def ac_simps)
qed

lemma runs_one:
  assumes "\<And>k. shift_inst k ins = ins" and "ins \<noteq> IMatch"
    and "\<And>pc i. set (frames w ins pc i) = {(Suc pc, j) | j. (i, j) \<in> R}"
  shows "runs [ins] R"
  unfolding runs_def
proof (intro allI impI)
  fix k i assume "code_at P k [ins]"
  then have "k < length P" "P ! k = ins" using code_at_Cons assms(1) by auto
  then show "Q (k, i) = (\<exists>j. (i, j) \<in> R \<and> Q (k + length [ins], j))"
    using unfold [of k i] assms(2,3) by auto
qed

text \<open>A split at the start of a code: its two targets, in either order.\<close>

lemma split_at_start:
  assumes "k < length P" and "P ! k = ISplit x y \<or> P ! k = ISplit y x"
  shows "Q (k, i) \<longleftrightarrow> Q (x, i) \<or> Q (y, i)"
  using unfold [of k i] assms by auto

lemma jump_at: "k < length P \<Longrightarrow> P ! k = IJump x \<Longrightarrow> Q (k, i) = Q (x, i)"
  using unfold [of k i] by simp

lemma runs_opt:
  assumes "runs body R"
  shows "runs (opt_code body lazy) (Id \<union> R)"
  unfolding runs_def
proof (intro allI impI)
  fix k i assume c: "code_at P k (opt_code body lazy)"
  then have "code_at P k ((if lazy then ISplit (1 + length body) 1 else ISplit 1 (1 + length body)) # shift body 1 @ [])"
    by (simp add: opt_code_def)
  from code_at_body [OF this refl]
  have k: "k < length P" "P ! k = shift_inst k (if lazy then ISplit (1 + length body) 1 else ISplit 1 (1 + length body))"
    and b: "code_at P (Suc k) body" by auto
  have "Q (k, i) \<longleftrightarrow> Q (Suc k, i) \<or> Q (Suc k + length body, i)"
    by (rule split_at_start [OF k(1)]) (simp add: k(2))
  then show "Q (k, i) = (\<exists>j. (i, j) \<in> Id \<union> R \<and> Q (k + length (opt_code body lazy), j))"
    using runsD [OF assms b] by (auto simp: opt_code_def)
qed

lemma runs_alternate:
  assumes "runs left R" and "runs right S"
  shows "runs (alternate left right) (R \<union> S)"
  unfolding runs_def
proof (intro allI impI)
  fix k i assume c: "code_at P k (alternate left right)"
  let ?stop = "k + (2 + length left + length right)"
  have "code_at P k (ISplit 1 (2 + length left) # shift left 1 @
      (IJump (2 + length left + length right) # shift right (2 + length left)))"
    using c by (simp add: alternate_def)
  from code_at_body [OF this refl] obtain before after
    where k: "k < length P" "P ! k = ISplit (Suc k) (2 + length left + k)" and l: "code_at P (Suc k) left"
      and P: "P = before @ shift (IJump (2 + length left + length right) # shift right (2 + length left)) k @ after"
        "length before = Suc k + length left"
    by auto
  have "P = (before @ [IJump (?stop)]) @ shift right (2 + length left + k) @ after"
    using P(1) by (simp add: ac_simps)
  moreover have "length (before @ [IJump (?stop)]) = 2 + length left + k" using P(2) by simp
  ultimately have r: "code_at P (2 + length left + k) right" unfolding code_at_def by blast
  have j: "Suc k + length left < length P" "P ! (Suc k + length left) = IJump ?stop"
    using P by (simp_all add: nth_append ac_simps)
  have "Q (k, i) \<longleftrightarrow> Q (Suc k, i) \<or> Q (2 + length left + k, i)"
    by (rule split_at_start [OF k(1)]) (simp add: k(2))
  also have "Q (Suc k, i) \<longleftrightarrow> (\<exists>j. (i, j) \<in> R \<and> Q (?stop, j))"
    using runsD [OF assms(1) l] jump_at [OF j] by simp
  also have "Q (2 + length left + k, i) \<longleftrightarrow> (\<exists>j. (i, j) \<in> S \<and> Q (?stop, j))"
    using runsD [OF assms(2) r] by (simp add: ac_simps)
  finally show "Q (k, i) = (\<exists>j. (i, j) \<in> R \<union> S \<and> Q (k + length (alternate left right), j))"
    by (auto simp: alternate_def)
qed

text \<open>A loop that moves forward on every round, by induction on what is left of the subject.\<close>

lemma loop_unrolled:
  assumes step: "\<And>i. X i \<longleftrightarrow> (\<exists>j. (i, j) \<in> R \<and> (X j \<or> Y j))" and R: "R \<subseteq> progress w"
  shows "X i \<longleftrightarrow> (\<exists>j. (i, j) \<in> R\<^sup>+ \<and> Y j)"
proof (induction "length w - i" arbitrary: i rule: less_induct)
  case less
  have "X j \<longleftrightarrow> (\<exists>l. (j, l) \<in> R\<^sup>+ \<and> Y l)" if "(i, j) \<in> R" for j
    using that R by (intro less) (auto simp: progress_def)
  then have "X i \<longleftrightarrow> (\<exists>j. (i, j) \<in> R \<and> ((\<exists>l. (j, l) \<in> R\<^sup>+ \<and> Y l) \<or> Y j))"
    unfolding step [of i] by blast
  also have "\<dots> \<longleftrightarrow> (\<exists>j. (i, j) \<in> R\<^sup>+ \<and> Y j)"
    by (blast intro: trancl_into_trancl2 dest: tranclD rtranclD)
  finally show ?case .
qed

lemma runs_plus:
  assumes body: "runs body R" and R: "R \<subseteq> progress w"
  shows "runs (plus_code body lazy) (R\<^sup>+)"
  unfolding runs_def
proof (intro allI impI)
  fix k i assume c: "code_at P k (plus_code body lazy)"
  let ?split = "if lazy then ISplit (length body + 1) 0 else ISplit 0 (length body + 1)"
  from code_at_append [OF c [unfolded plus_code_def]] obtain before after
    where b: "code_at P k body" and P: "P = before @ shift [?split] k @ after" "length before = k + length body"
    by auto
  have e: "k + length body < length P" "P ! (k + length body) = shift_inst k ?split"
    using P by (simp_all add: nth_append)
  have s: "Q (k + length body, j) \<longleftrightarrow> Q (k, j) \<or> Q (Suc (k + length body), j)" for j
    by (rule split_at_start [OF e(1)]) (simp add: e(2))
  have "Q (k, i) \<longleftrightarrow> (\<exists>j. (i, j) \<in> R\<^sup>+ \<and> Q (Suc (k + length body), j))"
    by (rule loop_unrolled [where X = "\<lambda>i. Q (k, i)", OF _ R]) (rule runsD [OF body b, unfolded s])
  then show "Q (k, i) = (\<exists>j. (i, j) \<in> R\<^sup>+ \<and> Q (k + length (plus_code body lazy), j))"
    by (simp add: plus_code_def)
qed

lemma runs_star:
  assumes body: "runs body R" and R: "R \<subseteq> progress w"
  shows "runs (star_code body lazy) (R\<^sup>*)"
  unfolding runs_def
proof (intro allI impI)
  fix k i assume c: "code_at P k (star_code body lazy)"
  let ?split = "if lazy then ISplit (1 + length body + 1) 1 else ISplit 1 (1 + length body + 1)"
  let ?stop = "k + length (star_code body lazy)"
  from code_at_body [OF c [unfolded star_code_def] refl] obtain before after
    where k: "k < length P" "P ! k = shift_inst k ?split" and b: "code_at P (Suc k) body"
      and P: "P = before @ shift [IJump 0] k @ after" "length before = Suc k + length body"
    by auto
  have e: "?stop = 2 + length body + k" by (simp add: star_code_def)
  have s: "Q (k, j) \<longleftrightarrow> Q (Suc k, j) \<or> Q (?stop, j)" for j
    by (rule split_at_start [OF k(1)]) (simp add: k(2) e)
  have j: "Suc k + length body < length P" "P ! (Suc k + length body) = IJump k"
    using P by (simp_all add: nth_append)
  have "Q (Suc k, i) \<longleftrightarrow> (\<exists>j. (i, j) \<in> R\<^sup>+ \<and> Q (?stop, j))"
    by (rule loop_unrolled [where X = "\<lambda>i. Q (Suc k, i)", OF _ R])
      (rule runsD [OF body b, unfolded jump_at [OF j] s])
  then show "Q (k, i) = (\<exists>j. (i, j) \<in> R\<^sup>* \<and> Q (?stop, j))"
    using s [of i] by (auto simp: rtrancl_eq_or_trancl)
qed

lemma runs_required:
  "required_copies body n out = Inr code \<Longrightarrow> runs body R \<Longrightarrow> runs out S \<Longrightarrow> runs code (S O R ^^ n)"
proof (induction n arbitrary: out S)
  case (Suc n)
  then have "required_copies body n (append_code out body) = Inr code"
    by (auto simp: try_then_Inr guard_Inr)
  from Suc.IH [OF this Suc.prems(2) runs_append [OF Suc.prems(3,2)]]
  have "runs code ((S O R) O R ^^ n)" .
  moreover have "(S O R) O R ^^ n = S O R ^^ Suc n"
    using relpow_commute [of R n] by (auto simp: O_assoc)
  ultimately show ?case by simp
qed simp

lemma runs_copies:
  assumes c: "copies body n [] = Inr code" and r: "runs body R" and e: "body = [] \<Longrightarrow> R = Id"
    and n: "body = [] \<Longrightarrow> n \<noteq> \<infinity>"
  obtains k where "n = enat k" "runs code (R ^^ k)"
proof (cases "body = []")
  case True
  then show ?thesis using that c e n runs_Nil by (cases n) (auto simp: copies_def)
next
  case False
  then obtain k where "n = enat k" "required_copies body k [] = Inr code"
    using copies_finite [OF c] by blast
  then show ?thesis using that runs_required [OF _ r runs_Nil] by simp
qed

lemma runs_optional:
  "optional_copies body lazy n out = Inr code \<Longrightarrow> runs body R \<Longrightarrow>
    runs out (\<Union>k \<in> {..m}. R ^^ k) \<Longrightarrow> runs code (\<Union>k \<in> {..m + n}. R ^^ k)"
proof (induction n arbitrary: out m)
  case (Suc n)
  let ?next = "opt_code (append_code body out) lazy"
  from Suc.prems(1) have "optional_copies body lazy n ?next = Inr code"
    by (auto simp: try_then_Inr guard_Inr)
  moreover have "runs ?next (Id \<union> R O (\<Union>k \<in> {..m}. R ^^ k))"
    by (intro runs_opt runs_append Suc.prems)
  moreover have "Id \<union> R O (\<Union>k \<in> {..m}. R ^^ k) = (\<Union>k \<in> {..Suc m}. R ^^ k)"
    using relpow_UN [of 1 R "{..m}", unfolded relpow_1 plus_1_eq_Suc]
    by (simp add: atMost_Suc_eq_insert_0 del: relpow.simps(2))
  ultimately show ?case using Suc.IH [of ?next "Suc m"] Suc.prems(2) by simp
qed simp

lemma runs_repeat:
  assumes c: "compileRepeat body lo hi lazy = Inr code" and r: "runs body R"
    and e: "body = [] \<Longrightarrow> R = Id" and le: "lo \<le> hi"
    and p: "hi = \<infinity> \<Longrightarrow> R \<subseteq> progress w \<and> body \<noteq> []"
  shows "runs code (\<Union>k \<in> {k. lo \<le> enat k \<and> enat k \<le> hi}. R ^^ k)"
proof (cases "hi = \<infinity>")
  case inf: True
  show ?thesis
  proof (cases "lo = 0")
    case True
    then have "code = star_code body lazy" using c inf by (simp add: compileRepeat_def)
    moreover have "(\<Union>k \<in> {k. lo \<le> enat k \<and> enat k \<le> hi}. R ^^ k) = R\<^sup>*"
      using inf True by (simp add: rtrancl_is_UN_relpow zero_enat_def [symmetric])
    ultimately show ?thesis using runs_star [OF r] p [OF inf] by simp
  next
    case False
    then obtain out where o: "copies body (lo - 1) [] = Inr out"
      "code = append_code out (plus_code body lazy)"
      using c inf by (auto simp: compileRepeat_def try_then_Inr guard_Inr)
    obtain k where k: "lo - 1 = enat k" "runs out (R ^^ k)"
      using runs_copies [OF o(1) r] p [OF inf] by blast
    then have lo: "lo = enat (Suc k)" using False
      by (cases lo) (auto simp: one_enat_def zero_enat_def)
    have "(\<Union>k \<in> {k. lo \<le> enat k \<and> enat k \<le> hi}. R ^^ k) = R ^^ k O R\<^sup>+"
    proof -
      have "R ^^ k O R\<^sup>+ = (\<Union>m \<in> (+) k ` {0<..}. R ^^ m)"
        unfolding trancl_UN relpow_UN by simp
      moreover have "(+) k ` {0<..} = {Suc k..}"
        by (auto simp: image_iff dest!: less_imp_add_positive [of k] simp flip: less_eq_Suc_le)
      ultimately show ?thesis using lo inf by (simp add: atLeast_def)
    qed
    then show ?thesis unfolding o(2) using runs_append [OF k(2) runs_plus [OF r]] p [OF inf] by simp
  qed
next
  case False
  then obtain l h where e2: "lo = enat l" "hi = enat h" "l \<le> h" using le by (cases lo; cases hi) auto
  from c False obtain out optional where o: "copies body lo [] = Inr out"
    "optional_copies body lazy (rounds (hi - lo)) [] = Inr optional" "code = append_code out optional"
    by (auto simp: compileRepeat_def try_then_Inr guard_Inr)
  have out: "runs out (R ^^ l)"
    using runs_copies [OF o(1) r e] e2 by (metis enat.inject enat.distinct(2) enat.distinct(1))
  have "runs optional (\<Union>k \<in> {..0 + (h - l)}. R ^^ k)"
    by (rule runs_optional [OF _ r]) (use o(2) e2 runs_Nil in \<open>simp_all add: rounds_def\<close>)
  from runs_append [OF out this]
  have "runs code (R ^^ l O (\<Union>k \<in> {..h - l}. R ^^ k))" by (simp add: o(3))
  moreover have "R ^^ l O (\<Union>k \<in> {..h - l}. R ^^ k) = (\<Union>k \<in> {k. lo \<le> enat k \<and> enat k \<le> hi}. R ^^ k)"
  proof -
    have "R ^^ l O (\<Union>k \<in> {..h - l}. R ^^ k) = (\<Union>k \<in> (+) l ` {..h - l}. R ^^ k)"
      unfolding relpow_UN by simp
    moreover have "(+) l ` {..h - l} = {l..h}"
      using e2(3) by (simp add: atMost_atLeast0)
    moreover have "{k. lo \<le> enat k \<and> enat k \<le> hi} = {l..h}" by (auto simp: e2)
    ultimately show ?thesis by (simp only:)
  qed
  ultimately show ?thesis by simp
qed

lemma runs_seq:
  assumes "\<And>t code. t \<in> set ts \<Longrightarrow> compile t = Inr code \<Longrightarrow> runs code (den w t)"
  shows "compile_seq ts out = Inr code \<Longrightarrow> runs out S \<Longrightarrow> runs code (S O foldr (\<lambda>t R. den w t O R) ts Id)"
  using assms
proof (induction ts arbitrary: out S)
  case (Cons t ts)
  from Cons.prems(1) obtain c where c: "compile t = Inr c" "compile_seq ts (append_code out c) = Inr code"
    by (auto simp: try_then_Inr guard_Inr)
  have "runs code ((S O den w t) O foldr (\<lambda>t R. den w t O R) ts Id)"
    by (rule Cons.IH [OF c(2) runs_append]) (use Cons.prems c(1) in auto)
  then show ?case by (simp add: O_assoc)
qed simp

lemma runs_alt:
  assumes "\<And>b code. b \<in> set bs \<Longrightarrow> compile b = Inr code \<Longrightarrow> runs code (den w b)"
  shows "compile_alt bs = Inr code \<Longrightarrow> runs code (\<Union>b \<in> set bs. den w b)"
  using assms
proof (induction bs arbitrary: code)
  case (Cons b bs)
  show ?case
  proof (cases bs)
    case Nil
    then show ?thesis using Cons.prems by simp
  next
    case (Cons b' bs')
    then obtain left right where c: "compile b = Inr left" "compile_alt bs = Inr right"
      "code = alternate left right"
      using Cons.prems(1) by (auto simp: try_then_Inr guard_Inr)
    have "runs right (\<Union>b \<in> set bs. den w b)"
      by (rule Cons.IH [OF c(2)]) (use Cons.prems(2) in auto)
    moreover have "runs left (den w b)" using Cons.prems(2) c(1) by simp
    ultimately show ?thesis unfolding c(3) using runs_alternate by simp
  qed
qed simp

text \<open>The lowering of a tree stands for the relation the tree denotes.\<close>

lemma runs_compile: "compile a = Inr code \<Longrightarrow> wf_node a \<Longrightarrow> runs code (den w a)"
proof (induction a arbitrary: code)
  case (Seq ts)
  have "runs code (Id O foldr (\<lambda>t R. den w t O R) ts Id)"
    by (rule runs_seq [OF _ _ runs_Nil]) (use Seq in \<open>auto simp: list_all_iff\<close>)
  then show ?case by simp
next
  case (Alt bs)
  have "runs code (\<Union>b \<in> set bs. den w b)"
    by (rule runs_alt) (use Alt in \<open>auto simp: list_all_iff split: if_splits\<close>)
  then show ?case by simp
next
  case (Rep a lo hi lazy)
  then obtain body where b: "compile a = Inr body" "compileRepeat body lo hi lazy = Inr code"
    by (auto simp: try_then_Inr guard_Inr)
  have wf: "wf_node a" using Rep.prems by simp
  have empty: "body = [] \<Longrightarrow> den w a = Id \<and> matchesEmpty a" using compile_empty [OF _ wf] b(1) by simp
  show ?case
    unfolding den.simps
    by (rule runs_repeat [OF b(2) Rep.IH [OF b(1) wf]])
      (use empty Rep.prems den_progress [of a w] in auto)
next
  case Bol
  then show ?case by (auto intro!: runs_one)
next
  case Eol
  then show ?case by (auto intro!: runs_one)
qed (auto intro!: runs_one)

end

section \<open>Jumps stay inside the program\<close>

fun targets_within :: "nat \<Rightarrow> inst \<Rightarrow> bool" where
  "targets_within n (ISplit x y) \<longleftrightarrow> x \<le> n \<and> y \<le> n"
| "targets_within n (IJump x) \<longleftrightarrow> x \<le> n"
| "targets_within n IMatch \<longleftrightarrow> False"
| "targets_within n i \<longleftrightarrow> True"

text \<open>Every jump of the code lands in it or at its end, and it holds no match instruction.\<close>

definition closed_code :: "inst list \<Rightarrow> bool" where
  "closed_code code \<longleftrightarrow> list_all (targets_within (length code)) code"

lemma targets_mono: "targets_within n i \<Longrightarrow> n + d \<le> m \<Longrightarrow> targets_within m (shift_inst d i)"
  by (cases i) auto

lemma closed_shift: "closed_code code \<Longrightarrow> length code + d \<le> n \<Longrightarrow> list_all (targets_within n) (shift code d)"
  by (auto simp: closed_code_def list_all_iff shift_def intro: targets_mono)

lemma closed_widen: "closed_code code \<Longrightarrow> length code \<le> n \<Longrightarrow> list_all (targets_within n) code"
  using closed_shift [of code 0 n] by simp

lemma closed_append: "closed_code a \<Longrightarrow> closed_code b \<Longrightarrow> closed_code (append_code a b)"
  unfolding closed_code_def [of "append_code a b"]
  by (simp add: append_code_def closed_shift closed_widen)

lemma closed_blocks:
  assumes "closed_code body"
  shows "closed_code (opt_code body lazy)" "closed_code (plus_code body lazy)" "closed_code (star_code body lazy)"
  unfolding closed_code_def [of "opt_code body lazy"] closed_code_def [of "plus_code body lazy"]
    closed_code_def [of "star_code body lazy"]
  using assms by (simp_all add: opt_code_def plus_code_def star_code_def closed_shift closed_widen)

lemma closed_alternate: "closed_code l \<Longrightarrow> closed_code r \<Longrightarrow> closed_code (alternate l r)"
  unfolding closed_code_def [of "alternate l r"]
  by (simp add: alternate_def closed_shift)

lemma closed_Nil [simp]: "closed_code []"
  by (simp add: closed_code_def)

lemma closed_required: "required_copies body n out = Inr code \<Longrightarrow> closed_code body \<Longrightarrow> closed_code out \<Longrightarrow> closed_code code"
  by (induction n arbitrary: out) (auto simp: try_then_Inr guard_Inr closed_append)

lemma closed_optional: "optional_copies body lazy n out = Inr code \<Longrightarrow> closed_code body \<Longrightarrow> closed_code out \<Longrightarrow> closed_code code"
  by (induction n arbitrary: out) (auto simp: try_then_Inr guard_Inr closed_append closed_blocks)

lemma closed_repeat: "compileRepeat body lo hi lazy = Inr code \<Longrightarrow> closed_code body \<Longrightarrow> closed_code code"
  by (auto simp: compileRepeat_def try_then_Inr guard_Inr copies_def closed_append closed_blocks
      dest: closed_required closed_optional split: if_splits intro!: closed_append)

lemma closed_compile: "compile a = Inr code \<Longrightarrow> closed_code code"
  and closed_seq: "compile_seq ts out = Inr code \<Longrightarrow> closed_code out \<Longrightarrow> closed_code code"
  and closed_alt: "compile_alt ts = Inr code \<Longrightarrow> closed_code code"
proof (induction a and ts out and ts arbitrary: code and code and code rule: compile_compile_seq_compile_alt.induct)
qed (auto simp: try_then_Inr guard_Inr closed_code_def [of "[_]"] closed_append closed_alternate
    intro: closed_repeat split: if_splits)

end
