(* ===== verification/PatternRuns.thy ===== *)
theory PatternRuns
  imports PatternCorrect
begin

text \<open>
  The machine of \<open>PatternMachine\<close> against the configurations of \<open>PatternCorrect\<close>: which
  configurations reach the match instruction, that none runs forever, and what the stack of
  \<open>runProgram\<close> makes of both under its step bound.
\<close>

section \<open>Accepting and diverging configurations\<close>

inductive accepts :: "inst list \<Rightarrow> jsstr \<Rightarrow> nat \<times> nat \<Rightarrow> bool" for P w where
  at_match: "pc < length P \<Longrightarrow> P ! pc = IMatch \<Longrightarrow> accepts P w (pc, i)"
| step_on: "pc < length P \<Longrightarrow> P ! pc \<noteq> IMatch \<Longrightarrow> c \<in> set (frames w (P ! pc) pc i) \<Longrightarrow> accepts P w c \<Longrightarrow>
    accepts P w (pc, i)"

inductive_simps accepts_simps: "accepts P w (pc, i)"

lemma accepts_step: "pc < length P \<Longrightarrow> P ! pc \<noteq> IMatch \<Longrightarrow>
    accepts P w (pc, i) \<longleftrightarrow> (\<exists>c \<in> set (frames w (P ! pc) pc i). accepts P w c)"
  using accepts_simps [of P w pc i] by auto

interpretation accepting: configurations P w "accepts P w" for P w
  by unfold_locales (rule accepts_step)

definition pushes :: "inst list \<Rightarrow> jsstr \<Rightarrow> ((nat \<times> nat) \<times> (nat \<times> nat)) set" where
  "pushes P w = {(c, (pc, i)) | c pc i. pc < length P \<and> c \<in> set (frames w (P ! pc) pc i)}"

definition diverges :: "inst list \<Rightarrow> jsstr \<Rightarrow> nat \<times> nat \<Rightarrow> bool" where
  "diverges P w c \<longleftrightarrow> c \<notin> Wellfounded.acc (pushes P w)"

lemma diverges_step:
  "diverges P w (pc, i) \<longleftrightarrow> pc < length P \<and> (\<exists>c \<in> set (frames w (P ! pc) pc i). diverges P w c)"
proof -
  have "x \<in> Wellfounded.acc r \<longleftrightarrow> (\<forall>y. (y, x) \<in> r \<longrightarrow> y \<in> Wellfounded.acc r)" for x :: "nat \<times> nat" and r
    by (blast intro: accI dest: acc_downward)
  from this [of "(pc, i)" "pushes P w"] show ?thesis
    unfolding diverges_def by (auto simp: pushes_def)
qed

interpretation diverging: configurations P w "diverges P w" for P w
  by unfold_locales (subst diverges_step, blast)

section \<open>Programs of the lowering\<close>

definition whole_program :: "inst list \<Rightarrow> bool" where
  "whole_program P \<longleftrightarrow> (\<exists>code. P = code @ [IMatch] \<and> closed_code code)"

lemma program_code_at: "code_at (code @ [IMatch]) 0 code"
  by (auto simp: code_at_def)

lemma program_exact:
  assumes "compile a = Inr code" and "wf_node a"
  shows "accepts (code @ [IMatch]) w (0, i) \<longleftrightarrow> (\<exists>j. (i, j) \<in> den w a)"
    and "\<not> diverges (code @ [IMatch]) w (0, i)"
proof -
  have "accepts (code @ [IMatch]) w (length code, j)" for j
    by (rule at_match) simp_all
  then show "accepts (code @ [IMatch]) w (0, i) \<longleftrightarrow> (\<exists>j. (i, j) \<in> den w a)"
    using accepting.runsD [OF accepting.runs_compile [OF assms] program_code_at] by simp
  have "\<not> diverges (code @ [IMatch]) w (length code, j)" for j
    by (simp add: diverges_step)
  then show "\<not> diverges (code @ [IMatch]) w (0, i)"
    using diverging.runsD [OF diverging.runs_compile [OF assms] program_code_at] by simp
qed

lemma frames_inside:
  assumes "whole_program P" and "pc < length P" and "c \<in> set (frames w (P ! pc) pc i)"
  shows "fst c < length P"
proof -
  obtain code where P: "P = code @ [IMatch]" "closed_code code"
    using assms(1) by (auto simp: whole_program_def)
  show ?thesis
  proof (cases "pc < length code")
    case True
    then have "targets_within (length code) (P ! pc)"
      using P by (simp add: nth_append closed_code_def list_all_length)
    then show ?thesis using assms(3) True P(1) by (cases "P ! pc") (auto split: if_splits)
  next
    case False
    then have "P ! pc = IMatch" using assms(2) P(1) by (simp add: nth_append)
    then show ?thesis using assms(3) by simp
  qed
qed

section \<open>The stack\<close>

text \<open>Whatever the bound, an answer of the stack is right.\<close>

lemma run_stack_right:
  "whole_program P \<Longrightarrow> list_all (\<lambda>c. fst c < length P) stack \<Longrightarrow>
    (case run_stack P w steps stack of
       Inl Bounded \<Rightarrow> True
     | Inl (Matched b) \<Rightarrow> b \<and> (\<exists>c \<in> set stack. accepts P w c)
     | Inl Crashed \<Rightarrow> False
     | Inr rest \<Rightarrow> \<forall>c \<in> set stack. \<not> accepts P w c)"
proof (induction P w steps stack rule: run_stack.induct)
  case (3 P w steps pc i stack)
  then have inside: "pc < length P" by simp
  show ?case
  proof (cases "P ! pc = IMatch")
    case True
    then show ?thesis using inside by (auto intro: at_match)
  next
    case False
    have "list_all (\<lambda>c. fst c < length P) (frames w (P ! pc) pc i @ stack)"
      using frames_inside [OF 3(2) inside] 3(3) by (auto simp: list_all_iff)
    from 3(1) [OF _ False 3(2) this] inside show ?thesis
      using False accepts_simps [of P w pc i]
      by (auto split: sum.splits verdict.splits)
  qed
qed simp_all

text \<open>A bound that a configuration is done within, whatever lies below it on the stack.\<close>

definition settles :: "inst list \<Rightarrow> jsstr \<Rightarrow> (nat \<times> nat) list \<Rightarrow> nat \<Rightarrow> bool" where
  "settles P w cs n \<longleftrightarrow>
     (\<forall>steps stack. n \<le> steps \<longrightarrow> run_stack P w steps (cs @ stack) =
        (if list_ex (accepts P w) cs then Inl (Matched True) else run_stack P w (steps - n) stack))"

lemma settles_Nil: "settles P w [] 0"
  by (simp add: settles_def)

lemma settles_Cons:
  assumes "settles P w [c] m" and "settles P w cs n"
  shows "settles P w (c # cs) (m + n)"
  unfolding settles_def
proof (intro allI impI)
  fix steps stack assume le: "m + n \<le> steps"
  have "run_stack P w steps (c # cs @ stack) =
      (if accepts P w c then Inl (Matched True) else run_stack P w (steps - m) (cs @ stack))"
    using assms(1) [unfolded settles_def, rule_format, of steps "cs @ stack"] le by simp
  moreover have "run_stack P w (steps - m) (cs @ stack) =
      (if list_ex (accepts P w) cs then Inl (Matched True) else run_stack P w (steps - m - n) stack)"
    using assms(2) le by (simp add: settles_def)
  ultimately show "run_stack P w steps ((c # cs) @ stack) =
      (if list_ex (accepts P w) (c # cs) then Inl (Matched True) else run_stack P w (steps - (m + n)) stack)"
    by simp
qed

lemma settles_list: "(\<And>c. c \<in> set cs \<Longrightarrow> \<exists>n. settles P w [c] n) \<Longrightarrow> \<exists>n. settles P w cs n"
proof (induction cs)
  case (Cons c cs)
  then obtain m n where "settles P w [c] m" "settles P w cs n" by (metis list.set_intros)
  then show ?case using settles_Cons by blast
qed (use settles_Nil in blast)

lemma settles_one:
  assumes "pc < length P" and "settles P w (frames w (P ! pc) pc i) n"
  shows "settles P w [(pc, i)] (Suc n)"
  unfolding settles_def
proof (intro allI impI)
  fix steps stack assume "Suc n \<le> steps"
  then obtain s where s: "steps = Suc s" "n \<le> s" by (cases steps) auto
  show "run_stack P w steps ([(pc, i)] @ stack) =
      (if list_ex (accepts P w) [(pc, i)] then Inl (Matched True) else run_stack P w (steps - Suc n) stack)"
  proof (cases "P ! pc = IMatch")
    case True
    then have "accepts P w (pc, i)" using assms(1) by (auto intro: at_match)
    then show ?thesis using True assms(1) s by simp
  next
    case False
    then have "accepts P w (pc, i) \<longleftrightarrow> list_ex (accepts P w) (frames w (P ! pc) pc i)"
      using assms(1) accepts_simps [of P w pc i] by (auto simp: list_ex_iff)
    then show ?thesis using False assms s by (simp add: settles_def)
  qed
qed

lemma terminating_settles:
  assumes "c \<in> Wellfounded.acc (pushes P w)" and "whole_program P" and "fst c < length P"
  shows "\<exists>n. settles P w [c] n"
  using assms(1,3)
proof (induction rule: acc.induct)
  case (accI c)
  obtain pc i where c: "c = (pc, i)" by (cases c)
  have "\<exists>n. settles P w [d] n" if "d \<in> set (frames w (P ! pc) pc i)" for d
    using accI.IH [of d] accI.prems frames_inside [OF assms(2) _ that] that c
    by (cases d) (auto simp: pushes_def)
  then obtain n where "settles P w (frames w (P ! pc) pc i) n" using settles_list by blast
  from settles_one [OF _ this] show ?case using accI.prems c by (intro exI) simp
qed

section \<open>The starts\<close>

lemma run_starts_right:
  assumes "whole_program P"
  shows "case run_starts P w starts steps of
       Bounded \<Rightarrow> True
     | Matched b \<Rightarrow> b = list_ex (\<lambda>i. accepts P w (0, i)) starts
     | Crashed \<Rightarrow> False"
proof (induction starts arbitrary: steps)
  case (Cons start rest)
  have "0 < length P" using assms by (auto simp: whole_program_def)
  then have "list_all (\<lambda>c. fst c < length P) [(0, start)]" by simp
  note first = run_stack_right [OF assms this, of w steps]
  show ?case
  proof (cases "run_stack P w steps [(0, start)]")
    case (Inl v)
    then show ?thesis using first by (auto split: verdict.splits)
  next
    case (Inr left)
    then show ?thesis using first Cons.IH [of left] by (simp split: verdict.splits)
  qed
qed simp

lemma run_starts_settles:
  assumes "\<And>i. i \<in> set starts \<Longrightarrow> \<exists>n. settles P w [(0, i)] n"
  shows "\<exists>n. \<forall>steps \<ge> n. run_starts P w starts steps = Matched (list_ex (\<lambda>i. accepts P w (0, i)) starts)"
  using assms
proof (induction starts)
  case (Cons start rest)
  then obtain n where n: "\<And>steps. n \<le> steps \<Longrightarrow>
      run_starts P w rest steps = Matched (list_ex (\<lambda>i. accepts P w (0, i)) rest)"
    by auto
  from Cons.prems obtain m where m: "settles P w [(0, start)] m" by auto
  have "run_starts P w (start # rest) steps = Matched (list_ex (\<lambda>i. accepts P w (0, i)) (start # rest))"
    if "m + n \<le> steps" for steps
  proof -
    have "run_stack P w steps [(0, start)] =
        (if accepts P w (0, start) then Inl (Matched True) else Inr (steps - m))"
      using m that unfolding settles_def by (fastforce dest: spec [of _ "[]"])
    then show ?thesis using n [of "steps - m"] that by simp
  qed
  then show ?case by blast
qed simp

lemma pattern_matches_accepts:
  assumes "compile a = Inr code" and "wf_node a"
  shows "list_ex (\<lambda>i. accepts (code @ [IMatch]) w (0, i)) [0..<Suc (length w)] = pattern_matches a w"
proof -
  have "list_ex (\<lambda>i. accepts (code @ [IMatch]) w (0, i)) [0..<Suc (length w)] \<longleftrightarrow>
      (\<exists>i \<le> length w. \<exists>j. (i, j) \<in> den w a)"
    by (auto simp: list_ex_iff program_exact(1) [OF assms] less_Suc_eq_le simp del: upt_Suc)
  then show ?thesis by (auto simp: pattern_matches_def)
qed

text \<open>The machine decides the pattern: no bound makes it answer wrongly, and some bound is enough.\<close>

lemma runProgram_decides:
  assumes "compile a = Inr code" and "wf_node a"
  shows "runProgram (code @ [IMatch]) w bound \<in> {Bounded, Matched (pattern_matches a w)}"
    and "\<exists>n. \<forall>bound \<ge> n. runProgram (code @ [IMatch]) w bound = Matched (pattern_matches a w)"
proof -
  let ?P = "code @ [IMatch]"
  have whole: "whole_program ?P"
    using closed_compile [OF assms(1)] by (auto simp: whole_program_def)
  note exact = pattern_matches_accepts [OF assms]
  show "runProgram ?P w bound \<in> {Bounded, Matched (pattern_matches a w)}"
    using run_starts_right [OF whole, of w "[0..<Suc (length w)]" bound]
    unfolding runProgram_def exact by (auto split: verdict.splits simp del: upt_Suc)
  have "\<exists>n. settles ?P w [(0, i)] n" for i
    by (rule terminating_settles [OF _ whole]) (use program_exact(2) [OF assms, of w i] in \<open>simp_all add: diverges_def\<close>)
  from run_starts_settles [OF this, where starts = "[0..<Suc (length w)]"]
  show "\<exists>n. \<forall>bound \<ge> n. runProgram ?P w bound = Matched (pattern_matches a w)"
    unfolding runProgram_def exact .
qed

end
