(* ===== verification/PatternParse.thy ===== *)
theory PatternParse
  imports PatternRuns
begin

text \<open>
  What the parser of \<open>Patterns\<close> ensures: it returns on every text within its fuel, every loop and
  group consumes text, the trees it builds are those the lowering is correct for, and the classes of
  code units it builds are exact.
\<close>

section \<open>Classes as sets\<close>

definition covered :: "unit_range list \<Rightarrow> int set" where
  "covered ranges = {u. in_ranges ranges u}"

lemma in_ranges_simps [simp]:
  "\<not> in_ranges [] u" "in_ranges (r # rs) u \<longleftrightarrow> (fst r \<le> u \<and> u \<le> snd r) \<or> in_ranges rs u"
  "in_ranges (rs @ rs') u \<longleftrightarrow> in_ranges rs u \<or> in_ranges rs' u"
  by (auto simp: in_ranges_def split: prod.splits)

lemma in_ranges_set: "set rs = set rs' \<Longrightarrow> in_ranges rs u = in_ranges rs' u"
  by (auto simp: in_ranges_def list_ex_iff)

lemma in_ranges_rev [simp]: "in_ranges (rev rs) u = in_ranges rs u"
  by (rule in_ranges_set) simp

text \<open>Ranges in order, none empty, with a gap between each two.\<close>

fun separated :: "unit_range list \<Rightarrow> bool" where
  "separated [] = True"
| "separated [(l, h)] \<longleftrightarrow> l \<le> h"
| "separated ((l, h) # (l', h') # rs) \<longleftrightarrow> l \<le> h \<and> h + 1 < l' \<and> separated ((l', h') # rs)"

fun separated_down :: "unit_range list \<Rightarrow> bool" where
  "separated_down [] = True"
| "separated_down [(l, h)] \<longleftrightarrow> l \<le> h"
| "separated_down ((l, h) # (l', h') # rs) \<longleftrightarrow> l \<le> h \<and> h' + 1 < l \<and> separated_down ((l', h') # rs)"

lemma separated_snoc:
  "separated (rs @ [(l, h), (l', h')]) \<longleftrightarrow> separated (rs @ [(l, h)]) \<and> h + 1 < l' \<and> l' \<le> h'"
  by (induction rs rule: separated.induct) auto

lemma separated_rev: "separated_down rs \<Longrightarrow> separated (rev rs)"
proof (induction rs rule: separated_down.induct)
  case (3 l h l' h' rs)
  then show ?case using separated_snoc [of "rev rs" l' h' l h] by simp
qed simp_all

interpretation bounds: comparator_law by_bounds
  by unfold_locales (auto simp: by_bounds_def split: if_splits)

lemma merge_ranges_exact:
  "sorted_wrt (\<lambda>a b. by_bounds a b \<le> 0) rest \<Longrightarrow> list_all (\<lambda>(lo, hi). lo \<le> hi) rest \<Longrightarrow>
    separated_down merged \<Longrightarrow>
    (merged \<noteq> [] \<Longrightarrow> rest \<noteq> [] \<Longrightarrow> fst (hd merged) \<le> fst (hd rest)) \<Longrightarrow>
    separated (merge_ranges rest merged) \<and>
    (\<forall>u. in_ranges (merge_ranges rest merged) u \<longleftrightarrow> in_ranges rest u \<or> in_ranges merged u)"
proof (induction rest merged rule: merge_ranges.induct)
  case (1 merged)
  then show ?case by (simp add: separated_rev)
next
  case (2 lo hi rest merged)
  have order: "sorted_wrt (\<lambda>a b. by_bounds a b \<le> 0) rest" "list_all (\<lambda>(lo, hi). lo \<le> hi) rest" "lo \<le> hi"
    using 2(4,5) by simp_all
  have after: "rest \<noteq> [] \<Longrightarrow> lo \<le> fst (hd rest)"
    using 2(4) by (cases rest) (auto simp: by_bounds_def split: if_splits)
  show ?case
  proof (cases merged)
    case Nil
    then show ?thesis using 2(1) [OF Nil order(1,2)] order(3) after by auto
  next
    case (Cons m earlier)
    obtain l h where m: "m = (l, h)" by (cases m)
    have l: "l \<le> lo" "l \<le> h" using 2(6,7) Cons m by (cases earlier; auto)+
    show ?thesis
    proof (cases "lo \<le> h + 1")
      case True
      have "separated_down ((l, max h hi) # earlier)"
        using 2(6) Cons m l by (cases earlier) auto
      from 2(2) [OF Cons m [symmetric] True order(1,2) this] show ?thesis
        using True Cons m l after order(3) by force
    next
      case False
      have "separated_down ((lo, hi) # merged)"
        using 2(6) Cons m False order(3) by simp
      from 2(3) [OF Cons m [symmetric] False order(1,2) this] show ?thesis
        using False Cons m after by auto
    qed
  qed
qed

lemma normalizeRanges_exact:
  assumes "list_all (\<lambda>(lo, hi). lo \<le> hi) ranges"
  shows "separated (normalizeRanges ranges)"
    and "in_ranges (normalizeRanges ranges) u = in_ranges ranges u"
proof -
  have "list_all (\<lambda>(lo, hi). lo \<le> hi) (stable_sort by_bounds ranges)"
    using assms by (simp add: list_all_iff)
  note m = merge_ranges_exact [OF bounds.sorted_stable_sort this, of "[]"]
  show "separated (normalizeRanges ranges)"
    using m by (simp add: normalizeRanges_def)
  have "in_ranges (normalizeRanges ranges) u = in_ranges (stable_sort by_bounds ranges) u"
    using m by (simp add: normalizeRanges_def)
  then show "in_ranges (normalizeRanges ranges) u = in_ranges ranges u"
    using in_ranges_set [OF set_stable_sort] by simp
qed

text \<open>Every range lies between two units.\<close>

definition within_units :: "unit_range list \<Rightarrow> bool" where
  "within_units ranges \<longleftrightarrow> list_all (\<lambda>(lo, hi). 0 \<le> lo \<and> lo \<le> hi \<and> hi \<le> 0xffff) ranges"

lemma within_units_in: "within_units ranges \<Longrightarrow> in_ranges ranges u \<Longrightarrow> 0 \<le> u \<and> u \<le> 0xffff"
  by (auto simp: within_units_def in_ranges_def list_all_iff list_ex_iff)

lemma separated_first: "separated ((l, h) # rs) \<Longrightarrow> l \<le> h"
  by (cases rs) auto

lemma separated_head: "separated ((l, h) # rs) \<Longrightarrow> in_ranges rs u \<Longrightarrow> h + 1 < u"
proof (induction "(l, h) # rs" arbitrary: l h rs rule: separated.induct)
  case (3 l h l' h' rs)
  from 3 separated_first [of l' h' rs] show ?case by force
qed auto

lemma separated_tail: "separated (r # rs) \<Longrightarrow> separated rs"
  by (cases r; cases rs) auto

lemma complement_from_exact:
  "separated rs \<Longrightarrow> (rs \<noteq> [] \<Longrightarrow> cursor \<le> fst (hd rs)) \<Longrightarrow>
    list_all (\<lambda>(l, h). h \<le> 0xffff) rs \<Longrightarrow>
    in_ranges (complement_from cursor rs) u \<longleftrightarrow> cursor \<le> u \<and> u \<le> 0xffff \<and> \<not> in_ranges rs u"
proof (induction cursor rs rule: complement_from.induct)
  case (2 cursor lo hi rest)
  have lh: "lo \<le> hi" using 2(2) by (cases rest) auto
  have next_lo: "hi + 1 \<le> fst (hd rest)" if "rest \<noteq> []" using 2(2) that by (cases rest) auto
  have IH: "in_ranges (complement_from (hi + 1) rest) u \<longleftrightarrow> hi + 1 \<le> u \<and> u \<le> 0xffff \<and> \<not> in_ranges rest u"
    using 2(1) [OF separated_tail [OF 2(2)] next_lo] 2(4) by simp
  have above: "in_ranges rest u \<Longrightarrow> hi + 1 < u" by (rule separated_head [OF 2(2)])
  show ?case using IH above 2(3,4) lh by auto
qed auto

lemma separated_ordered: "separated rs \<Longrightarrow> (l, h) \<in> set rs \<Longrightarrow> l \<le> h"
  by (induction rs rule: separated.induct) auto

lemma range_ends: "(l, h) \<in> set rs \<Longrightarrow> l \<le> h \<Longrightarrow> in_ranges rs l \<and> in_ranges rs h"
  by (force simp: in_ranges_def list_ex_iff)

lemma within_ordered: "within_units ranges \<Longrightarrow> list_all (\<lambda>(lo, hi). lo \<le> hi) ranges"
  by (auto simp: within_units_def list_all_iff)

lemma normalize_within:
  assumes "within_units ranges"
  shows "within_units (normalizeRanges ranges)"
proof -
  note n = normalizeRanges_exact [OF within_ordered [OF assms]]
  have "0 \<le> l \<and> l \<le> h \<and> h \<le> 0xffff" if "(l, h) \<in> set (normalizeRanges ranges)" for l h
  proof -
    have le: "l \<le> h" using separated_ordered [OF n(1) that] .
    then have "in_ranges ranges l" "in_ranges ranges h" using range_ends [OF that] n(2) by auto
    then show ?thesis using within_units_in [OF assms] le by blast
  qed
  then show ?thesis by (auto simp: within_units_def list_all_iff)
qed

lemma complement_in:
  assumes "within_units ranges"
  shows "in_ranges (complement ranges) u \<longleftrightarrow> 0 \<le> u \<and> u \<le> 0xffff \<and> \<not> in_ranges ranges u"
proof -
  note n = normalizeRanges_exact [OF within_ordered [OF assms]]
  have w: "within_units (normalizeRanges ranges)" by (rule normalize_within [OF assms])
  then have "normalizeRanges ranges \<noteq> [] \<Longrightarrow> 0 \<le> fst (hd (normalizeRanges ranges))"
    by (cases "normalizeRanges ranges") (auto simp: within_units_def)
  moreover have "list_all (\<lambda>(l, h). h \<le> 0xffff) (normalizeRanges ranges)"
    using w by (auto simp: within_units_def list_all_iff)
  ultimately show ?thesis
    using complement_from_exact [OF n(1), of 0 u] n(2) by (simp add: complement_def)
qed

section \<open>Counts\<close>

definition is_count :: "jsnum \<Rightarrow> bool" where
  "is_count n = (case n of Fin q \<Rightarrow> 0 \<le> q | PosInf \<Rightarrow> True | _ \<Rightarrow> False)"

lemma round64_count: "0 \<le> q \<Longrightarrow> is_count (round64 q)"
proof -
  assume q: "0 \<le> q"
  have "0 \<le> round_half_even x" if "0 \<le> x" for x
    using that by (simp add: round_half_even_def Let_def)
  moreover have "0 \<le> power_of 2 e" for e using power_of_pos [of 2 e] by simp
  ultimately show ?thesis
    using q by (auto simp: round64_def round_binary_def Let_def is_count_def)
qed

lemma digit_step_count: "is_count n \<Longrightarrow> is_digit_unit c \<Longrightarrow> is_count (digit_step n c)"
proof -
  assume n: "is_count n" and c: "is_digit_unit c"
  have d: "0 \<le> digit_value c"
    using c by (simp add: digit_value_def is_digit_unit_def word_le_def)
  show ?thesis
  proof (cases n)
    case (Fin q)
    then have "is_count (round64 (q * 10))" using n by (intro round64_count) (simp add: is_count_def)
    then consider r where "round64 (q * 10) = Fin r" "0 \<le> r" | "round64 (q * 10) = PosInf"
      by (cases "round64 (q * 10)") (auto simp: is_count_def)
    then show ?thesis using Fin d round64_count
      by cases (simp_all add: digit_step_def is_count_def)
  qed (use n in \<open>simp_all add: digit_step_def is_count_def\<close>)
qed

lemma pattern_digits_count:
  "pattern_digits found s = (Some n, r) \<Longrightarrow> (case found of None \<Rightarrow> True | Some m \<Rightarrow> is_count m) \<Longrightarrow>
    is_count n \<and> length r \<le> length s"
proof (induction found s rule: pattern_digits.induct)
  case (2 found c s)
  show ?case
  proof (cases "is_digit_unit c")
    case True
    then have "is_count (digit_step (case found of None \<Rightarrow> Fin 0 | Some n \<Rightarrow> n) c)"
      using 2(3) by (intro digit_step_count) (auto simp: is_count_def split: option.splits)
    then show ?thesis using 2(1) [OF True] 2(2) True by fastforce
  qed (use 2(2,3) in auto)
qed simp

lemmas pattern_digits_read = pattern_digits_count [where found = None, simplified]

lemma count_of_mono: "is_count m \<Longrightarrow> is_count n \<Longrightarrow> \<not> num_less n m \<Longrightarrow> count_of m \<le> count_of n"
  by (cases m; cases n) (auto simp: is_count_def count_of_def num_less_def intro!: nat_mono floor_mono)

lemma read_quantifier_good:
  "read_quantifier n s = Inr (Some ((lo, hi), r)) \<Longrightarrow> lo \<le> hi \<and> length r < length s"
  "read_quantifier n s = Inl e \<Longrightarrow> e \<noteq> PatternFuel"
proof -
  have brace: "lo \<le> hi \<and> length r \<le> length s" if "braceQuantifier start s = Inr (Some ((lo, hi), r))" for start s
    using that
    by (auto simp: braceQuantifier_def split: prod.splits option.splits list.splits if_splits
        simp del: pattern_digits.simps dest!: pattern_digits_read intro: count_of_mono)
  show "read_quantifier n s = Inr (Some ((lo, hi), r)) \<Longrightarrow> lo \<le> hi \<and> length r < length s"
    by (auto simp: read_quantifier_def split: list.splits if_splits dest!: brace)
  show "read_quantifier n s = Inl e \<Longrightarrow> e \<noteq> PatternFuel"
    by (auto simp: read_quantifier_def braceQuantifier_def
        split: list.splits if_splits prod.splits option.splits)
qed

section \<open>Every parser consumes text\<close>

text \<open>It is not out of fuel, and a result is as stated and leaves less text than the bound.\<close>

definition parses :: "('a \<Rightarrow> bool) \<Rightarrow> nat \<Rightarrow> 'a parse_result \<Rightarrow> bool" where
  "parses W n r = (case r of Inl e \<Rightarrow> e \<noteq> PatternFuel | Inr (x, s) \<Rightarrow> W x \<and> length s < n)"

lemma parses_simps [simp]:
  "parses W n (Inl e) \<longleftrightarrow> e \<noteq> PatternFuel" "parses W n (Inr (x, s)) \<longleftrightarrow> W x \<and> length s < n"
  by (simp_all add: parses_def)

lemma parses_bind:
  "parses W n r \<Longrightarrow> (\<And>x s. W x \<Longrightarrow> length s < n \<Longrightarrow> parses V m (f (x, s))) \<Longrightarrow> parses V m (try_then r f)"
  by (cases r) auto

lemma parses_weaken: "parses W n r \<Longrightarrow> n \<le> m \<Longrightarrow> parses W m r"
  by (cases r) auto

abbreviation "anything \<equiv> \<lambda>_. True"

lemma characterEscape_parses: "parses anything (length s) (characterEscape n s)"
proof (cases s)
  case (Cons c r)
  then show ?thesis
    by (cases "map_of simple_units c"; cases "hex_digits 2 r"; cases "hex_digits 4 r"; cases r)
      (auto simp: characterEscape_def Let_def)
qed (simp add: characterEscape_def)

lemma atomEscape_parses: "parses wf_node (length s) (atomEscape n s)"
proof (cases s)
  case (Cons c r)
  have "parses wf_node (length s) (try_then (characterEscape n s) (\<lambda>(u, r). Inr (Chr u, r)))"
    by (rule parses_bind [OF characterEscape_parses]) simp
  then show ?thesis
    unfolding Cons
    by (auto simp: atomEscape_def Let_def refuse_property_def refuse_named_def split: option.splits)
qed (simp add: atomEscape_def)

lemma classAtom_parses: "parses anything (length s) (classAtom n s)"
proof (cases s)
  case (Cons c r)
  have "parses anything (length s) (try_then (characterEscape n r) (\<lambda>(u, r). Inr (UnitAtom u, r)))"
    by (rule parses_bind [OF characterEscape_parses]) (simp add: Cons)
  then show ?thesis
    by (auto simp: Cons classAtom_def Let_def refuse_property_def refuse_named_def split: list.splits option.splits)
qed (simp add: classAtom_def)

lemma class_members_parses: "length s < fuel \<Longrightarrow> parses anything (length s) (class_members n start fuel ranges s)"
proof (induction fuel arbitrary: ranges s)
  case (Suc fuel)
  have on: "parses anything (length s) (class_members n start fuel rs s')" if "length s' < length s" for rs s'
    by (rule parses_weaken [OF Suc.IH]) (use Suc.prems that in auto)
  show ?case
  proof (cases s)
    case (Cons c r)
    have second: "parses anything (length s) (try_then (classAtom n s1) (\<lambda>(second, s3).
         case second of
           RangesAtom rs \<Rightarrow> Inl (Unsupported m (k s3))
         | UnitAtom v \<Rightarrow> if v < u then Inl (Unsupported m' (k s3)) else class_members n start fuel (g v) s3))"
      if "length s1 < length s" for s1 m m' k u g
    proof (rule parses_bind [OF classAtom_parses])
      fix x and s3 :: jsstr assume "length s3 < length s1"
      then show "parses anything (length s) (case (x, s3) of (second, s3) \<Rightarrow>
         case second of
           RangesAtom rs \<Rightarrow> Inl (Unsupported m (k s3))
         | UnitAtom v \<Rightarrow> if v < u then Inl (Unsupported m' (k s3)) else class_members n start fuel (g v) s3)"
        using that on by (simp split: class_atom.split)
    qed
    have "parses anything (length s) (try_then (classAtom n s) (\<lambda>(first, s1).
            case first of
              RangesAtom rs \<Rightarrow> class_members n start fuel (ranges @ rs) s1
            | UnitAtom u \<Rightarrow>
                (case s1 of
                   d # e # s2 \<Rightarrow>
                     if d = 45 \<and> e \<noteq> 93
                     then try_then (classAtom n (e # s2)) (\<lambda>(second, s3).
                       case second of
                         RangesAtom rs \<Rightarrow>
                           Inl (Unsupported (js ''a class escape as a range bound'') (n - length s3))
                       | UnitAtom v \<Rightarrow>
                           if v < u then Inl (Unsupported (js ''an inverted class range'') (n - length s3))
                           else class_members n start fuel (ranges @ [(u, v)]) s3)
                     else class_members n start fuel (ranges @ [(u, u)]) s1
                 | _ \<Rightarrow> class_members n start fuel (ranges @ [(u, u)]) s1)))"
      (is "parses _ _ (try_then _ ?k)")
    proof (rule parses_bind [OF classAtom_parses])
      fix x and s1 :: jsstr assume "length s1 < length s"
      note on1 = on [OF this]
      show "parses anything (length s) (?k (x, s1))"
      proof (cases x)
        case (UnitAtom u)
        show ?thesis
        proof (cases "\<exists>d e s2. s1 = d # e # s2")
          case True
          then obtain d e s2 where s1: "s1 = d # e # s2" by blast
          then have "length (e # s2) < length s" using \<open>length s1 < length s\<close> by simp
          from second [OF this, of u _ "\<lambda>s3. n - length s3" "\<lambda>v. ranges @ [(u, v)]"]
          show ?thesis using on1 by (simp add: UnitAtom s1)
        next
          case False
          then show ?thesis using on1 by (auto simp: UnitAtom split: list.split)
        qed
      qed (use on1 in simp)
    qed
    then show ?thesis unfolding Cons class_members.simps list.case by (auto simp only: if_True if_False parses_simps length_Cons lessI split: if_split)
  qed simp
qed simp

lemma characterClass_parses: "parses wf_node (Suc (length s)) (characterClass n s)"
proof -
  have "parses wf_node (Suc (length s)) (try_then (class_members n start (Suc (length s')) [] s') (\<lambda>(ranges, r).
      Inr (Cls negated (normalizeRanges ranges), r)))" if "length s' \<le> length s" for start s' negated
    by (rule parses_bind [OF class_members_parses]) (use that in auto)
  then show ?thesis by (simp add: characterClass_def Let_def)
qed

lemma group_body_shrinks:
  "group_body n s = Inr s' \<Longrightarrow> length s' \<le> length s" "group_body n s = Inl e \<Longrightarrow> e \<noteq> PatternFuel"
  by (auto simp: group_body_def Let_def split: list.splits if_splits)

lemma expect_close_parses: "wf_node a \<Longrightarrow> parses wf_node (length s) (expect_close n (a, s))"
  by (auto simp: expect_close_def split: list.split)

lemma quantified_parses: "wf_node a \<Longrightarrow> parses wf_node (Suc (length s)) (quantified n a s)"
proof (cases "read_quantifier n s")
  case (Inr q)
  assume a: "wf_node a"
  show ?thesis
  proof (cases q)
    case None
    then show ?thesis using a Inr by (simp add: quantified_def)
  next
    case (Some t)
    obtain lo hi r where t: "t = ((lo, hi), r)" by (metis prod.exhaust)
    have "lo \<le> hi" "length r < length s" using read_quantifier_good(1) Inr Some t by auto
    then show ?thesis using a Inr Some t by (auto simp: quantified_def Let_def)
  qed
qed (use read_quantifier_good(2) in \<open>auto simp: quantified_def\<close>)

section \<open>The grammar\<close>

locale group_parser =
  fixes inner :: "jsstr \<Rightarrow> node parse_result" and depth :: nat
  assumes inner_parses: "length s < depth \<Longrightarrow> parses wf_node (Suc (length s)) (inner s)"
begin

lemma parse_atom_parses:
  assumes "length s \<le> depth"
  shows "parses wf_node (length s) (parse_atom inner n s)"
proof (cases s)
  case (Cons c r)
  have close: "parses wf_node (length s) (try_then (inner s1) (expect_close n))" if "length s1 \<le> length r" for s1
  proof (rule parses_bind [OF inner_parses])
    show "length s1 < depth" using that assms Cons by simp
    fix a and s2 :: jsstr assume "wf_node a" "length s2 < Suc (length s1)"
    then show "parses wf_node (length s) (expect_close n (a, s2))"
      using that Cons by (intro parses_weaken [OF expect_close_parses]) auto
  qed
  have "parses wf_node (length s) (try_then (group_body n r) (\<lambda>s1. try_then (inner s1) (expect_close n)))"
  proof (cases "group_body n r")
    case (Inl e)
    then show ?thesis using group_body_shrinks(2) by simp
  next
    case (Inr s1)
    then show ?thesis using group_body_shrinks(1) [OF Inr] close by simp
  qed
  then show ?thesis
    using characterClass_parses [of r n] parses_weaken [OF atomEscape_parses [of r n], of "length s"] Cons
    by (auto simp: parse_atom_def)
qed (simp add: parse_atom_def)

lemma parse_term_parses:
  assumes "length s \<le> depth"
  shows "parses wf_node (length s) (parse_term inner n s)"
proof -
  have "parses wf_node (length s) (try_then (parse_atom inner n s) (\<lambda>(a, s1). quantified n a s1))"
  proof (rule parses_bind [OF parse_atom_parses [OF assms]])
    fix a and s1 :: jsstr assume "wf_node a" "length s1 < length s"
    then have "parses wf_node (length s) (quantified n a s1)"
      by (intro parses_weaken [OF quantified_parses]) auto
    then show "parses wf_node (length s) (case (a, s1) of (a, s1) \<Rightarrow> quantified n a s1)" by simp
  qed
  then show ?thesis by (cases s) (auto simp: parse_term_def)
qed

lemma parse_terms_parses:
  "length s < fuel \<Longrightarrow> length s \<le> depth \<Longrightarrow> list_all wf_node terms \<Longrightarrow>
    parses (list_all wf_node) (Suc (length s)) (parse_terms inner n fuel terms s)"
proof (induction fuel arbitrary: terms s)
  case (Suc fuel)
  have "parses (list_all wf_node) (Suc (length s))
      (try_then (parse_term inner n s) (\<lambda>(t, s1). parse_terms inner n fuel (terms @ [t]) s1))"
  proof (rule parses_bind [OF parse_term_parses [OF Suc.prems(2)]])
    fix t and s1 :: jsstr assume "wf_node t" "length s1 < length s"
    then have "parses (list_all wf_node) (Suc (length s)) (parse_terms inner n fuel (terms @ [t]) s1)"
      using Suc.prems by (intro parses_weaken [OF Suc.IH]) auto
    then show "parses (list_all wf_node) (Suc (length s))
      (case (t, s1) of (t, s1) \<Rightarrow> parse_terms inner n fuel (terms @ [t]) s1)" by simp
  qed
  then show ?case using Suc.prems(3) by simp
qed simp

lemma alternative_parses:
  assumes "length s \<le> depth"
  shows "parses wf_node (Suc (length s)) (alternative inner n s)"
  unfolding alternative_def
  by (rule parses_bind [OF parse_terms_parses]) (use assms in auto)

lemma alternatives_parses:
  "length s < fuel \<Longrightarrow> length s \<le> depth \<Longrightarrow> list_all wf_node branches \<Longrightarrow> branches \<noteq> [] \<Longrightarrow>
    parses (\<lambda>bs. list_all wf_node bs \<and> bs \<noteq> []) (Suc (length s)) (alternatives inner n fuel branches s)"
proof (induction fuel arbitrary: branches s)
  case (Suc fuel)
  have "parses (\<lambda>bs. list_all wf_node bs \<and> bs \<noteq> []) (Suc (length s))
      (try_then (alternative inner n (tl s)) (\<lambda>(a, s1). alternatives inner n fuel (branches @ [a]) s1))"
    if "s \<noteq> []"
  proof (rule parses_bind [OF alternative_parses])
    show "length (tl s) \<le> depth" using Suc.prems(2) by simp
    fix a and s1 :: jsstr assume "wf_node a" "length s1 < Suc (length (tl s))"
    then have "parses (\<lambda>bs. list_all wf_node bs \<and> bs \<noteq> []) (Suc (length s)) (alternatives inner n fuel (branches @ [a]) s1)"
      using Suc.prems that by (intro parses_weaken [OF Suc.IH]) (auto simp: neq_Nil_conv)
    then show "parses (\<lambda>bs. list_all wf_node bs \<and> bs \<noteq> []) (Suc (length s))
      (case (a, s1) of (a, s1) \<Rightarrow> alternatives inner n fuel (branches @ [a]) s1)" by simp
  qed
  then show ?case using Suc.prems by simp
qed simp

lemma branches_of_parses:
  assumes "length s \<le> depth"
  shows "parses wf_node (Suc (length s)) (branches_of inner n s)"
  unfolding branches_of_def
proof (rule parses_bind [OF alternative_parses [OF assms]])
  fix a and s1 :: jsstr assume a: "wf_node a" "length s1 < Suc (length s)"
  have "parses wf_node (Suc (length s)) (try_then (alternatives inner n (Suc (length s1)) [a] s1) (\<lambda>(branches, s2).
       Inr (if length branches = 1 then hd branches else Alt branches, s2)))"
  proof (rule parses_bind [OF alternatives_parses])
    fix bs and s2 :: jsstr assume "list_all wf_node bs \<and> bs \<noteq> []" "length s2 < Suc (length s1)"
    moreover from this have "length bs \<noteq> 1 \<Longrightarrow> 2 \<le> length bs" by (cases bs rule: list.exhaust; cases "tl bs") auto
    ultimately show "parses wf_node (Suc (length s)) (case (bs, s2) of (branches, s2) \<Rightarrow>
        Inr (if length branches = 1 then hd branches else Alt branches, s2))"
      using a(2) by (cases bs) auto
  qed (use a assms in auto)
  then show "parses wf_node (Suc (length s)) (case (a, s1) of (a, s1) \<Rightarrow>
      try_then (alternatives inner n (Suc (length s1)) [a] s1) (\<lambda>(branches, s2).
       Inr (if length branches = 1 then hd branches else Alt branches, s2)))" by simp
qed

end

lemma disjunction_parses: "length s < depth \<Longrightarrow> parses wf_node (Suc (length s)) (disjunction depth n s)"
proof (induction depth arbitrary: s)
  case (Suc depth)
  then have "parses wf_node (Suc (length s)) (branches_of (disjunction depth n) n s)"
    by (intro group_parser.branches_of_parses [OF group_parser.intro, where depth = depth]) auto
  then show ?case by simp
qed simp

interpretation group: group_parser "disjunction depth n" depth for depth n
  by unfold_locales (rule disjunction_parses)

section \<open>Where a parser fails\<close>

text \<open>
  What a parser leaves is an end of its text; an offset it reports is inside the pattern; and it
  throws a \<open>TypeError\<close> only on a text with the property \<open>E\<close>, one that longer texts keep.
\<close>

definition stays :: "(jsstr \<Rightarrow> bool) \<Rightarrow> nat \<Rightarrow> jsstr \<Rightarrow> 'a parse_result \<Rightarrow> bool" where
  "stays E n s r =
     (case r of
        Inr (x, s') \<Rightarrow> \<exists>p. s = p @ s'
      | Inl (Unsupported m k) \<Rightarrow> k \<le> n
      | Inl PatternTypeError \<Rightarrow> E s
      | Inl PatternFuel \<Rightarrow> True)"

definition kept_by_longer :: "(jsstr \<Rightarrow> bool) \<Rightarrow> bool" where
  "kept_by_longer E \<longleftrightarrow> (\<forall>p s. E s \<longrightarrow> E (p @ s))"

lemma stays_simps [simp]:
  "stays E n s (Inr (x, s')) \<longleftrightarrow> (\<exists>p. s = p @ s')" "stays E n s (Inl (Unsupported m k)) \<longleftrightarrow> k \<le> n"
  "stays E n s (Inl PatternTypeError) \<longleftrightarrow> E s" "stays E n s (Inl PatternFuel)"
  by (simp_all add: stays_def)

lemma stays_longer: "kept_by_longer E \<Longrightarrow> stays E n s r \<Longrightarrow> stays E n (p @ s) r"
  by (auto simp: stays_def kept_by_longer_def split: sum.splits pattern_error.splits)

lemma stays_cons: "kept_by_longer E \<Longrightarrow> stays E n s r \<Longrightarrow> stays E n (c # s) r"
  using stays_longer [of E n s r "[c]"] by simp

lemma stays_bind:
  assumes "kept_by_longer E" and "stays E n s r" and "\<And>x s'. r = Inr (x, s') \<Longrightarrow> stays E n s' (f (x, s'))"
  shows "stays E n s (try_then r f)"
proof (cases r)
  case (Inl e)
  then show ?thesis using assms(2) by (cases e) simp_all
next
  case (Inr y)
  obtain x s' where y: "y = (x, s')" by (cases y)
  then obtain p where "s = p @ s'" using assms(2) Inr by auto
  then show ?thesis using stays_longer [OF assms(1) assms(3)] Inr y by simp
qed

lemma stays_weaken: "stays E n s r \<Longrightarrow> (\<And>t. E t \<Longrightarrow> F t) \<Longrightarrow> stays F n s r"
  by (auto simp: stays_def split: sum.splits pattern_error.splits)

definition ends_escaping :: "jsstr \<Rightarrow> bool" where
  "ends_escaping s \<longleftrightarrow> s \<noteq> [] \<and> last s = 92"

definition opens_class :: "jsstr \<Rightarrow> bool" where
  "opens_class s \<longleftrightarrow> s \<noteq> [] \<and> last s = 92 \<and> 91 \<in> set s"

lemma kept [simp]: "kept_by_longer ends_escaping" "kept_by_longer opens_class" "kept_by_longer (\<lambda>_. False)"
  by (auto simp: kept_by_longer_def ends_escaping_def opens_class_def)

lemma drop_ends: "\<exists>p. xs = p @ drop k xs"
  by (metis append_take_drop_id)

lemma characterEscape_stays: "s \<noteq> [] \<Longrightarrow> stays E n s (characterEscape n s)"
proof (cases s)
  case (Cons c r)
  have "\<exists>p. c # r = p @ r" "\<exists>p. c # d # r = p @ r" for c d :: "16 word" and r by (simp_all add: exI [of _ "[c]"] exI [of _ "[c, d]"])
  moreover have "\<exists>p. c # r = p @ drop k r" for k using drop_ends [of "c # r" "Suc k"] by simp
  moreover have "\<exists>p. c # d # r = p @ drop k r" for c d :: "16 word" and r k
    using drop_ends [of "c # d # r" "Suc (Suc k)"] by simp
  ultimately show ?thesis
    by (cases "map_of simple_units c"; cases "hex_digits 2 r"; cases "hex_digits 4 r"; cases r)
      (auto simp: Cons characterEscape_def Let_def)
qed simp

lemma atomEscape_stays: "stays E n s (atomEscape n s)"
proof (cases s)
  case (Cons c r)
  have "stays (\<lambda>_. False) n s (try_then (characterEscape n s) (\<lambda>(u, r). Inr (Chr u, r)))"
    by (rule stays_bind [OF kept(3) characterEscape_stays]) (use Cons in \<open>auto intro: exI [of _ "[]"]\<close>)
  then have "stays E n s (try_then (characterEscape n s) (\<lambda>(u, r). Inr (Chr u, r)))"
    by (rule stays_weaken) simp
  moreover have "\<exists>p. c # r = p @ r" by (rule exI [of _ "[c]"]) simp
  ultimately show ?thesis
    unfolding Cons
    by (auto simp: atomEscape_def Let_def refuse_property_def refuse_named_def split: option.splits)
qed (simp add: atomEscape_def)

lemma classAtom_stays: "s \<noteq> [] \<Longrightarrow> stays ends_escaping n s (classAtom n s)"
proof (cases s)
  case (Cons c r)
  have e: "stays ends_escaping n (c # d # r') (try_then (characterEscape n (d # r')) (\<lambda>(u, r). Inr (UnitAtom u, r)))"
    for d r'
  proof (rule stays_cons [OF kept(1)], rule stays_bind [OF kept(1) characterEscape_stays])
    show "stays ends_escaping n s' (case (x, s') of (u, r) \<Rightarrow> Inr (UnitAtom u, r))" for x s'
      by (auto intro: exI [of _ "[]"])
  qed simp
  have "\<exists>p. c # r = p @ r" "\<exists>p. c # d # r' = p @ r'" for d r' by (simp_all add: exI [of _ "[c]"] exI [of _ "[c, d]"])
  then show ?thesis using e
    by (auto simp: Cons classAtom_def characterEscape_def [of n "[]"] ends_escaping_def Let_def
        refuse_property_def refuse_named_def split: list.splits option.splits)
qed simp

lemma class_members_stays: "stays ends_escaping n s (class_members n start fuel ranges s)" if "start \<le> n"
proof (induction fuel arbitrary: ranges s)
  case (Suc fuel)
  show ?case
  proof (cases s)
    case (Cons c r)
    have "stays ends_escaping n s (try_then (classAtom n s) (\<lambda>(first, s1).
            case first of
              RangesAtom rs \<Rightarrow> class_members n start fuel (ranges @ rs) s1
            | UnitAtom u \<Rightarrow>
                (case s1 of
                   d # e # s2 \<Rightarrow>
                     if d = 45 \<and> e \<noteq> 93
                     then try_then (classAtom n (e # s2)) (\<lambda>(second, s3).
                       case second of
                         RangesAtom rs \<Rightarrow>
                           Inl (Unsupported (js ''a class escape as a range bound'') (n - length s3))
                       | UnitAtom v \<Rightarrow>
                           if v < u then Inl (Unsupported (js ''an inverted class range'') (n - length s3))
                           else class_members n start fuel (ranges @ [(u, v)]) s3)
                     else class_members n start fuel (ranges @ [(u, u)]) s1
                 | _ \<Rightarrow> class_members n start fuel (ranges @ [(u, u)]) s1)))"
    proof (rule stays_bind [OF kept(1) classAtom_stays], goal_cases)
      case (2 x s1)
      have "stays ends_escaping n (d # e # s2) (try_then (classAtom n (e # s2)) (\<lambda>(second, s3).
          case second of
            RangesAtom rs \<Rightarrow> Inl (Unsupported (js ''a class escape as a range bound'') (n - length s3))
          | UnitAtom v \<Rightarrow>
              if v < u then Inl (Unsupported (js ''an inverted class range'') (n - length s3))
              else class_members n start fuel (ranges @ [(u, v)]) s3))" for d e s2 u
        by (rule stays_cons [OF kept(1)], rule stays_bind [OF kept(1) classAtom_stays])
          (auto simp: Suc split: class_atom.split)
      then show ?case by (auto simp: Suc split: class_atom.split list.split)
    qed (simp add: Cons)
    moreover have "\<exists>p. s = p @ r" by (rule exI [of _ "[c]"]) (simp add: Cons)
    ultimately show ?thesis by (simp add: Cons)
  qed (use that in simp)
qed simp

lemma characterClass_stays: "stays ends_escaping n s (characterClass n s)"
proof -
  have "stays ends_escaping n t (try_then (class_members n start fuel [] t) (\<lambda>(ranges, r).
      Inr (Cls negated (normalizeRanges ranges), r)))" if "start \<le> n" for start t negated fuel
    by (rule stays_bind [OF kept(1) class_members_stays [OF that]]) (auto intro: exI [of _ "[]"])
  note run = this
  define t where "t = (if s \<noteq> [] \<and> hd s = 94 then tl s else s)"
  have "stays ends_escaping n t (characterClass n s)"
    unfolding characterClass_def Let_def t_def [symmetric] by (rule run) simp
  moreover obtain p where "s = p @ t"
  proof (cases s)
    case (Cons c r)
    then show ?thesis using that [of "[94]"] that [of "[]"] by (cases "c = 94") (simp_all add: t_def)
  qed (use that [of "[]"] in \<open>simp add: t_def\<close>)
  ultimately show ?thesis using stays_longer [OF kept(1), of n t _ p] by (simp only: )
qed

lemma group_body_stays: "stays E n s (map_sum id (Pair ()) (group_body n s))"
proof -
  have "\<exists>p. c # r = p @ r" "\<exists>p. c # d # r = p @ r" for c d :: "16 word" and r by (simp_all add: exI [of _ "[c]"] exI [of _ "[c, d]"])
  then show ?thesis by (auto simp: group_body_def Let_def intro: exI [of _ "[]"] split: list.splits)
qed

lemma expect_close_stays: "stays E n s (expect_close n (a, s))"
proof -
  have "\<exists>p. c # r = p @ r" for c :: "16 word" and r by (rule exI [of _ "[c]"]) simp
  then show ?thesis by (auto simp: expect_close_def split: list.split)
qed

lemma braceQuantifier_stays:
  "start \<le> n \<Longrightarrow> case braceQuantifier start s of Inl (Unsupported m k) \<Rightarrow> k \<le> n | Inl _ \<Rightarrow> False
     | Inr None \<Rightarrow> True | Inr (Some (b, r)) \<Rightarrow> \<exists>p. s = p @ r"
proof -
  have d: "\<exists>p. t = p @ r" if "pattern_digits f t = (x, r)" for f t x r
    using that by (induction f t rule: pattern_digits.induct) (force split: if_splits)+
  have "\<exists>p. s = p @ r" if "pattern_digits None s = (x, c # r)" for x c r
    using d [OF that] by (metis append.assoc append_Cons append_Nil)
  moreover have "\<exists>p. s = p @ r" if "pattern_digits None s = (x, c # t)" "pattern_digits None t = (y, e # r)" for x c t y e r
    using d [OF that(1)] d [OF that(2)] by (metis append.assoc append_Cons append_Nil)
  moreover have "\<exists>p. s = p @ r" if "pattern_digits None s = (x, c # e # r)" for x c e r
    using d [OF that] by (metis append.assoc append_Cons append_Nil)
  moreover assume "start \<le> n"
  ultimately show ?thesis
    by (auto simp: braceQuantifier_def split: prod.splits option.splits list.splits simp del: pattern_digits.simps)
qed

lemma quantified_stays: "stays E n s (quantified n a s)"
proof -
  have q: "case read_quantifier n s of Inl (Unsupported m k) \<Rightarrow> k \<le> n | Inl _ \<Rightarrow> False
     | Inr None \<Rightarrow> True | Inr (Some (b, r)) \<Rightarrow> \<exists>p. s = p @ r"
  proof (cases s)
    case (Cons c r)
    have "\<exists>p. c # r = p @ t" if "\<exists>p. r = p @ t" for t using that by (metis append_Cons)
    moreover have "\<exists>p. c # r = p @ r" by (rule exI [of _ "[c]"]) simp
    ultimately show ?thesis
      using braceQuantifier_stays [of "n - length s" n r]
      by (auto simp: Cons read_quantifier_def split: sum.splits option.splits pattern_error.splits)
  qed (simp add: read_quantifier_def)
  have "\<exists>p. s = p @ tl r" if "\<exists>p. s = p @ r" for r
  proof (cases r)
    case (Cons c t)
    then show ?thesis using that by (metis append.assoc append_Cons append_Nil list.sel(3))
  qed (use that in simp)
  then show ?thesis
    using q by (auto simp: quantified_def Let_def intro: exI [of _ "[]"] split: sum.splits option.splits pattern_error.splits)
qed

locale group_failures =
  fixes inner :: "jsstr \<Rightarrow> node parse_result" and n :: nat
  assumes inner_stays: "stays opens_class n s (inner s)"
begin

lemma parse_atom_stays: "stays opens_class n s (parse_atom inner n s)"
proof (cases s)
  case (Cons c r)
  have "stays opens_class n r (try_then (group_body n r) (\<lambda>s1. try_then (inner s1) (expect_close n)))"
  proof (cases "group_body n r")
    case (Inl e)
    then show ?thesis using group_body_stays [of opens_class n r] by (cases e) simp_all
  next
    case (Inr s1)
    then obtain p where "r = p @ s1" using group_body_stays [of opens_class n r] by auto
    moreover have "stays opens_class n s1 (try_then (inner s1) (expect_close n))"
      by (rule stays_bind [OF kept(2) inner_stays expect_close_stays])
    ultimately show ?thesis using stays_longer [OF kept(2)] Inr by simp
  qed
  moreover have "stays opens_class n (91 # r) (characterClass n r)"
    using stays_cons [OF kept(1) characterClass_stays [of n r], of 91]
    by (auto simp: stays_def ends_escaping_def opens_class_def split: sum.splits pattern_error.splits)
  moreover have "\<exists>p. c # r = p @ r" by (rule exI [of _ "[c]"]) simp
  ultimately show ?thesis
    using stays_cons [OF kept(2)] atomEscape_stays [of opens_class n r] by (auto simp: Cons parse_atom_def)
qed (simp add: parse_atom_def)

lemma parse_term_stays: "stays opens_class n s (parse_term inner n s)"
proof -
  have "stays opens_class n s (try_then (parse_atom inner n s) (\<lambda>(a, s1). quantified n a s1))"
    by (rule stays_bind [OF kept(2) parse_atom_stays]) (simp add: quantified_stays)
  moreover have "\<exists>p. s = p @ tl s" by (cases s) (auto intro: exI [of _ "[hd s]"])
  ultimately show ?thesis unfolding parse_term_def by (simp only: stays_simps split: if_split) blast
qed

lemma parse_terms_stays: "stays opens_class n s (parse_terms inner n fuel terms s)"
proof (induction fuel arbitrary: terms s)
  case (Suc fuel)
  have "stays opens_class n s (try_then (parse_term inner n s) (\<lambda>(t, s1). parse_terms inner n fuel (terms @ [t]) s1))"
    by (rule stays_bind [OF kept(2) parse_term_stays]) (simp add: Suc)
  then show ?case by (auto intro: exI [of _ "[]"])
qed simp

lemma alternative_stays: "stays opens_class n s (alternative inner n s)"
  unfolding alternative_def
  by (rule stays_bind [OF kept(2) parse_terms_stays]) (auto intro: exI [of _ "[]"])

lemma alternatives_stays: "stays opens_class n s (alternatives inner n fuel branches s)"
proof (induction fuel arbitrary: branches s)
  case (Suc fuel)
  have "stays opens_class n (tl s) (try_then (alternative inner n (tl s))
      (\<lambda>(a, s1). alternatives inner n fuel (branches @ [a]) s1))"
    by (rule stays_bind [OF kept(2) alternative_stays]) (simp add: Suc)
  then show ?case
    by (cases s) (auto intro: exI [of _ "[]"] stays_cons [OF kept(2)])
qed simp

lemma branches_of_stays: "stays opens_class n s (branches_of inner n s)"
  unfolding branches_of_def
proof (rule stays_bind [OF kept(2) alternative_stays], goal_cases)
  case (1 a s1)
  have "stays opens_class n s1 (try_then (alternatives inner n (Suc (length s1)) [a] s1) (\<lambda>(branches, s2).
      Inr (if length branches = 1 then hd branches else Alt branches, s2)))"
    by (rule stays_bind [OF kept(2) alternatives_stays]) (auto intro: exI [of _ "[]"])
  then show ?case by simp
qed

end

lemma disjunction_stays: "stays opens_class n s (disjunction depth n s)"
proof (induction depth arbitrary: s)
  case (Suc depth)
  then have "stays opens_class n s (branches_of (disjunction depth n) n s)"
    by (intro group_failures.branches_of_stays group_failures.intro)
  then show ?case by simp
qed simp

interpretation failures: group_failures "disjunction depth n" n for depth n
  by unfold_locales (rule disjunction_stays)

lemma parsePattern_stays:
  "stays opens_class (length regex) regex (map_sum id (\<lambda>a. (a, [])) (parsePattern regex))"
proof (cases "disjunction (Suc (length regex)) (length regex) regex")
  case (Inl e)
  then show ?thesis
    using disjunction_stays [of "length regex" regex "Suc (length regex)"]
    by (cases e) (simp_all add: parsePattern_def del: disjunction.simps)
next
  case (Inr r)
  then show ?thesis
    by (cases r; cases "snd r") (simp_all add: parsePattern_def del: disjunction.simps)
qed

end
