(* ===== verification/PatternProperties.thy ===== *)
theory PatternProperties
  imports PatternParse
begin

text \<open>
  The properties of the pattern classifier and the matcher lowering
  (\<open>src/src/compiler/backends/rust-serde/patterns.mjs\<close>).
\<close>

section \<open>What a lowered pattern is\<close>

lemma parsePattern_good: "case parsePattern regex of Inl e \<Rightarrow> e \<noteq> PatternFuel | Inr a \<Rightarrow> wf_node a"
proof -
  have d: "parses wf_node (Suc (length regex)) (disjunction (Suc (length regex)) (length regex) regex)"
    by (rule disjunction_parses) simp
  show ?thesis
  proof (cases "disjunction (Suc (length regex)) (length regex) regex")
    case (Inl e)
    then show ?thesis using d by (simp add: parsePattern_def del: disjunction.simps)
  next
    case (Inr r)
    then show ?thesis using d
      by (cases r; cases "snd r") (simp_all add: parsePattern_def del: disjunction.simps)
  qed
qed

lemma parsePattern_wf: "parsePattern regex = Inr a \<Longrightarrow> wf_node a"
  using parsePattern_good [of regex] by simp

lemma lowerPattern_parts:
  assumes "lowerPattern regex = Inr P"
  obtains a code where "parsePattern regex = Inr a" "wf_node a" "compile a = Inr code" "P = code @ [IMatch]"
  using assms parsePattern_wf by (auto simp: lowerPattern_def try_then_Inr)

lemma compile_length: "compile a = Inr code \<Longrightarrow> length code \<le> MAX_PROGRAM_LENGTH"
proof (cases a)
  case (Seq ts)
  have "compile_seq ts out = Inr code \<Longrightarrow> length out \<le> MAX_PROGRAM_LENGTH \<Longrightarrow> length code \<le> MAX_PROGRAM_LENGTH"
    for out
    by (induction ts arbitrary: out) (auto simp: try_then_Inr guard_Inr)
  from this [of "[]"] show "compile a = Inr code \<Longrightarrow> ?thesis" by (simp add: Seq)
next
  case (Alt bs)
  then show "compile a = Inr code \<Longrightarrow> ?thesis"
    by (cases bs rule: compile_alt.cases) (auto simp: try_then_Inr guard_Inr split: if_splits)
qed (auto simp: try_then_Inr guard_Inr MAX_PROGRAM_LENGTH_def)

lemma demo_tree: "parsePattern (js ''^a+$'') = Inr (Seq [Bol, Rep (Chr 97) 1 \<infinity> False, Eol])"
  by code_simp

lemma demo_pattern: "lowerPattern (js ''^a+$'') = Inr [IBol, IChar 97, ISplit 1 3, IEol, IMatch]"
  by (simp add: lowerPattern_def demo_tree compileRepeat_def copies_def rounds_def guard_def append_code_def
      plus_code_def shift_def MAX_PROGRAM_LENGTH_def one_enat_def zero_enat_def)

section \<open>Properties\<close>

text \<open>
  C26. The lowering refines the pattern: whatever the subject and the step bound, the machine running
  the lowered program either reports that the bound was exceeded or answers whether the pattern's
  tree matches somewhere in the subject. It never crashes and never answers wrongly.
\<close>

theorem lowered_pattern_right:
  assumes "lowerPattern regex = Inr P"
  shows "\<exists>a. parsePattern regex = Inr a \<and>
    runProgram P w bound \<in> {Bounded, Matched (pattern_matches a w)}"
  by (rule lowerPattern_parts [OF assms]) (use runProgram_decides(1) in blast)

theorem lowered_pattern_right_witness:
  "runProgram [IBol, IChar 97, ISplit 1 3, IEol, IMatch] (js ''aa'') 20 = Matched True \<and>
   pattern_matches (Seq [Bol, Rep (Chr 97) 1 \<infinity> False, Eol]) (js ''aa'')"
proof -
  have "runProgram [IBol, IChar 97, ISplit 1 3, IEol, IMatch] (js ''aa'') 20 = Matched True" by code_simp
  with lowered_pattern_right [OF demo_pattern, of "js ''aa''" 20] show ?thesis by (simp add: demo_tree)
qed

text \<open>
  C27. The matcher terminates: for every lowered pattern and every subject there is a step bound from
  which on the machine answers. The refusal of unbounded quantifiers over what can match the empty
  string is what makes it so.
\<close>

theorem lowered_pattern_decides:
  assumes "lowerPattern regex = Inr P"
  shows "\<exists>a n. parsePattern regex = Inr a \<and>
    (\<forall>bound. runProgram P w (n + bound) = Matched (pattern_matches a w))"
proof (rule lowerPattern_parts [OF assms])
  fix a code assume a: "parsePattern regex = Inr a" "wf_node a" "compile a = Inr code" "P = code @ [IMatch]"
  obtain n where "\<forall>bound \<ge> n. runProgram P w bound = Matched (pattern_matches a w)"
    using runProgram_decides(2) [OF a(3,2)] a(4) by blast
  then show ?thesis using a(1) by (meson le_add1)
qed

theorem lowered_pattern_decides_witness:
  "\<exists>n answer. \<forall>bound. runProgram [IBol, IChar 97, ISplit 1 3, IEol, IMatch] (js ''aab'') (n + bound) = Matched answer"
  using lowered_pattern_decides [OF demo_pattern, of "js ''aab''"] by blast

text \<open>
  A lowered program stays within the declared instruction bound, one match instruction apart, and
  every jump of it lands on one of its instructions.
\<close>

lemma lowered_pattern_bounded:
  assumes "lowerPattern regex = Inr P"
  shows "length P \<le> MAX_PROGRAM_LENGTH + 1 \<and> last P = IMatch \<and>
    list_all (\<lambda>i. case i of ISplit x y \<Rightarrow> x < length P \<and> y < length P | IJump x \<Rightarrow> x < length P | _ \<Rightarrow> True) P"
proof (rule lowerPattern_parts [OF assms])
  fix a code assume a: "compile a = Inr code" "P = code @ [IMatch]"
  have "(case i of ISplit x y \<Rightarrow> x < length P \<and> y < length P | IJump x \<Rightarrow> x < length P | _ \<Rightarrow> True)"
    if "targets_within (length code) i" for i
    using that a(2) by (cases i) auto
  then show ?thesis
    using closed_compile [OF a(1)] compile_length [OF a(1)] a(2) by (auto simp: closed_code_def list_all_iff)
qed

lemma lowered_pattern_bounded_witness: "length [IBol, IChar 97, ISplit 1 3, IEol, IMatch] \<le> MAX_PROGRAM_LENGTH + 1"
  using lowered_pattern_bounded [OF demo_pattern] by blast

text \<open>
  C28. The parser ends on every text, in one of three ways. It returns a tree the matcher can run: every
  quantifier is in order and no unbounded one is over what can match the empty string. Or it refuses a
  construct at an offset inside the text. Or it throws the \<open>TypeError\<close> of reading a member of
  \<open>undefined\<close>, which it does only on a text that opens a class and ends in a backslash.
\<close>

theorem parsePattern_ends:
  "case parsePattern regex of
     Inr a \<Rightarrow> wf_node a
   | Inl (Unsupported refused offset) \<Rightarrow> offset \<le> length regex
   | Inl PatternTypeError \<Rightarrow> regex \<noteq> [] \<and> last regex = 92 \<and> 91 \<in> set regex
   | Inl PatternFuel \<Rightarrow> False"
  using parsePattern_good [of regex] parsePattern_stays [of regex]
  by (auto simp: stays_def opens_class_def split: sum.splits pattern_error.splits)

text \<open>
  The classes of code units are exact: normalising ranges keeps the units they cover and leaves
  them in order with a gap between each two, and the complement covers exactly the other code units.
\<close>

lemma unit_classes_exact:
  assumes "within_units ranges"
  shows "separated (normalizeRanges ranges) \<and>
    covered (normalizeRanges ranges) = covered ranges \<and>
    covered (complement ranges) = {0..0xffff} - covered ranges"
  using normalizeRanges_exact [OF within_ordered [OF assms]] complement_in [OF assms]
  by (auto simp: covered_def)

lemma unit_classes_exact_witness:
  "covered (complement [(48, 57), (50, 70)]) = {0..0xffff} - covered [(48, 57), (50, 70)]"
  using unit_classes_exact [of "[(48, 57), (50, 70)]"] by (simp add: within_units_def)

text \<open>
  Three classes are not read as ECMA-262 reads them, and one text is not refused but makes the
  parser read a member of \<open>undefined\<close>: an octal escape in a class stands for its digit; after a class
  escape and a dash, a further dash opens a range, so \<open>[\d-a-z]\<close> holds the letter \<open>b\<close>; and a class
  that ends in a backslash throws.
\<close>

lemma class_divergences:
  "parsePattern (js ''['' @ [92] @ js ''1]'') = Inr (Seq [Cls False [(49, 49)]]) \<and>
   (case parsePattern (js ''['' @ [92] @ js ''d-a-z]'') of
      Inr (Seq [Cls negated ranges]) \<Rightarrow> \<not> negated \<and> in_ranges ranges 98
    | _ \<Rightarrow> False) \<and>
   parsePattern (js ''['' @ [92]) = Inl PatternTypeError"
  by (intro conjI) code_simp+

end
