(* ===== verification/RustDiagnostics.thy ===== *)
theory RustDiagnostics
  imports Canonical
begin

text \<open>
  \<open>src/src/compiler/backends/rust-serde/diagnostics.mjs\<close>: the closed registry of the Rust backend,
  the construction of a diagnostic, the truncation of input-derived text by code points, and the
  order and limit of a report, which sorts as the compiler's own does. A registry entry is the
  record of the compiler's registry; the rule text an entry also carries is documentation and is not
  kept. \<open>json_text\<close> is \<open>JSON.stringify\<close> without indentation, which the messages of the backend use.
\<close>

section \<open>\<open>JSON.stringify\<close>\<close>

fun json_text :: "jsval \<Rightarrow> jsstr option" where
  "json_text Undefined = None"
| "json_text Null = Some (js ''null'')"
| "json_text (Bool b) = Some (if b then js ''true'' else js ''false'')"
| "json_text (Num n) = Some (if num_is_finite n then num_text n else js ''null'')"
| "json_text (Str s) = Some (quote s)"
| "json_text (Arr xs) =
     Some (js ''['' @
       join (js '','') (map (\<lambda>x. case json_text x of None \<Rightarrow> js ''null'' | Some t \<Rightarrow> t) xs) @ js '']'')"
| "json_text (Obj ms) =
     Some (js ''{'' @
       join (js '','')
         (concat (map (\<lambda>(k, v). case json_text v of None \<Rightarrow> [] | Some t \<Rightarrow> [quote k @ js '':'' @ t]) ms))
       @ js ''}'')"

section \<open>The registry\<close>

definition RUST_OWNER :: jsstr where
  "RUST_OWNER = js ''ix://agent-ix/filament-core-data/rust-backend''"

definition RUST_BLOCKING :: "string list" where
  "RUST_BLOCKING =
     [''UNSUPPORTED_CONSTRUCT'', ''UNSUPPORTED_PATTERN'', ''UNSUPPORTED_SCALAR'',
      ''UNSUPPORTED_MULTIPLICITY'', ''PAYLOAD_ON_ENUM_VARIANT'', ''UNORDERED_SUBJECT'',
      ''UNREPRESENTABLE_DEFAULT_VALUE'', ''UNKNOWN_FORMAT'', ''UNRENDERABLE_NAME'',
      ''NAME_COLLISION'', ''UNSAFE_OUTPUT_ROOT'', ''LIMIT_EXCEEDED'']"

definition RUST_ADVISORY :: "string list" where
  "RUST_ADVISORY = [''DECLARED_LOSS'', ''UNKNOWN_MEMBER_SURFACED'', ''DIAGNOSTIC_LIMIT_REACHED'']"

definition IR_SHAPE :: "string list" where
  "IR_SHAPE =
     [''UNKNOWN_REQUIRED_EXTENSION'', ''CONSTRAINT_NOT_APPLICABLE'', ''INVALID_OPERAND'',
      ''UNRESOLVED_TYPE_REF'', ''UNDECLARED_LOSS'']"

text \<open>The names of the two tables are disjoint, so no assignment replaces another.\<close>

definition RUST_BACKEND_CODES :: "(string \<times> entry) list" where
  "RUST_BACKEND_CODES =
     map (\<lambda>n. (n, blocking_entry (js (''agent-ix.rust-backend.'' @ n)) RUST_OWNER)) RUST_BLOCKING @
     map (\<lambda>n. (n, advisory_entry (js (''agent-ix.rust-backend.'' @ n)) RUST_OWNER)) RUST_ADVISORY @
     map (\<lambda>n. (n, blocking_entry (js (''agent-ix.semantic-ir.'' @ n)) READER)) IR_SHAPE"

section \<open>Fragments and diagnostics\<close>

definition rust_fragment :: "jsval \<Rightarrow> jsstr" where
  "rust_fragment v =
     (let t = collapse_spaces (to_text v)
      in if length (code_points t) \<le> MAX_MESSAGE_FRAGMENT then t
         else concat (take (MAX_MESSAGE_FRAGMENT - 1) (code_points t)) @ [0x2026])"

definition rust_diagnostic :: "entry \<Rightarrow> diag_options \<Rightarrow> type_error + diag" where
  "rust_diagnostic e opts =
     (if e \<notin> snd ` set RUST_BACKEND_CODES then Inl (UnregisteredCode (code e))
      else Inr (Diag (code e) (severity e)
        (case o_message opts of None \<Rightarrow> code e | Some m \<Rightarrow> m) (owner e) (blocking e)
        (o_causes opts) (o_related opts)
        (case o_locus opts of None \<Rightarrow> None | Some l \<Rightarrow> if truthy l then Some l else None)))"

text \<open>A call that names a member of the registry, a message and perhaps a locus.\<close>

definition rust_diag :: "string \<Rightarrow> jsstr \<Rightarrow> jsval option \<Rightarrow> diag" where
  "rust_diag name message locus =
     (case map_of RUST_BACKEND_CODES name of
        Some e \<Rightarrow>
          (case rust_diagnostic e
             \<lparr>o_message = Some message, o_causes = [], o_related = [], o_locus = locus\<rparr> of
             Inr d \<Rightarrow> d
           | Inl _ \<Rightarrow> Diag [] SevError message [] True [] [] None)
      | None \<Rightarrow> Diag [] SevError message [] True [] [] None)"

text \<open>A limit that is not a number, \<open>None\<close>, leaves the report whole.\<close>

definition rust_applyDiagnosticLimit :: "diag list \<Rightarrow> nat option \<Rightarrow> diag list" where
  "rust_applyDiagnosticLimit ds max_count =
     (let sorted_ds = sortDiagnostics ds
      in case max_count of
           None \<Rightarrow> sorted_ds
         | Some n \<Rightarrow>
             if length sorted_ds \<le> n then sorted_ds
             else take n sorted_ds @
               [rust_diag ''DIAGNOSTIC_LIMIT_REACHED''
                  (js ''diagnostic limit '' @ digits_of (int n) @ js '' reached; ''
                     @ digits_of (int (length sorted_ds - n))
                     @ js '' further diagnostics were not reported'') None])"

section \<open>Lemmas\<close>

lemma rust_names_distinct: "distinct (map fst RUST_BACKEND_CODES)"
  by code_simp

lemma rust_diag_value:
  assumes "map_of RUST_BACKEND_CODES name = Some e"
  shows "rust_diag name message locus =
     Diag (code e) (severity e) message (owner e) (blocking e) [] []
       (case locus of None \<Rightarrow> None | Some l \<Rightarrow> if truthy l then Some l else None)"
proof -
  have "e \<in> snd ` set RUST_BACKEND_CODES"
    using map_of_SomeD [OF assms] by force
  then show ?thesis by (simp add: rust_diag_def rust_diagnostic_def assms)
qed

text \<open>Every code but the three advisories blocks generation.\<close>

lemma rust_blocking_names:
  "list_all (\<lambda>n. case map_of RUST_BACKEND_CODES n of None \<Rightarrow> False | Some e \<Rightarrow> blocking e)
     (RUST_BLOCKING @ IR_SHAPE)"
  by code_simp

lemma rust_diag_blocking [simp]:
  assumes "name \<in> set (RUST_BLOCKING @ IR_SHAPE)"
  shows "d_blocking (rust_diag name message locus)"
proof -
  have "case map_of RUST_BACKEND_CODES name of None \<Rightarrow> False | Some e \<Rightarrow> blocking e"
    using rust_blocking_names assms unfolding list_all_iff by (rule bspec)
  then obtain e where "map_of RUST_BACKEND_CODES name = Some e" and "blocking e"
    by (auto split: option.splits)
  then show ?thesis by (simp add: rust_diag_value)
qed

text \<open>A fragment has at most 120 code points, so a message cannot be made long by its input.\<close>

lemma rust_fragment_length: "length (rust_fragment v) \<le> 2 * MAX_MESSAGE_FRAGMENT"
proof -
  have c: "length (concat ps) \<le> 2 * length ps" if "\<forall>p\<in>set ps. length p \<le> 2" for ps :: "jsstr list"
    using that by (induction ps) auto
  define t where "t = collapse_spaces (to_text v)"
  have "length (concat (take n (code_points t))) \<le> 2 * length (take n (code_points t))" for n
    by (rule c) (auto dest!: in_set_takeD dest: code_points_small)
  from this [of "MAX_MESSAGE_FRAGMENT - 1"] this [of "length (code_points t)"] show ?thesis
    unfolding rust_fragment_def t_def [symmetric] by (auto simp: Let_def MAX_MESSAGE_FRAGMENT_def)
qed

end
