(* ===== verification/CivilDates.thy ===== *)
theory CivilDates
  imports Prelude
begin

text \<open>
  The instants of \<open>src/src/compiler/backends/rust-serde/constraints.mjs\<close>: \<open>daysFromCivil\<close>,
  \<open>validCivil\<close>, \<open>dateInstant\<close> and \<open>dateTimeInstant\<close>, which normalise the operand of a date bound
  when the Rust crate is generated. The years are the four digits of the texts, so every number
  the code forms below \<open>BigInt\<close> is a small integer and \<open>Math.floor\<close> of a quotient is the flooring
  division. The reference is the calendar itself: the days of the whole years and months that have
  passed. A moment in time is an exact rational number of seconds.
\<close>

section \<open>The code\<close>

definition daysFromCivil :: "int \<Rightarrow> int \<Rightarrow> int \<Rightarrow> int" where
  "daysFromCivil year month day =
     (let y = year - (if month \<le> 2 then 1 else 0);
          era = y div 400;
          yoe = y - era * 400;
          doy = (153 * (month + (if month > 2 then -3 else 9)) + 2) div 5 + day - 1;
          doe = yoe * 365 + yoe div 4 - yoe div 100 + doy
      in era * 146097 + doe - 719468)"

definition leap_year :: "int \<Rightarrow> bool" where
  "leap_year year \<longleftrightarrow> year mod 4 = 0 \<and> year mod 100 \<noteq> 0 \<or> year mod 400 = 0"

definition month_lengths :: "int \<Rightarrow> int list" where
  "month_lengths year =
     [31, if leap_year year then 29 else 28, 31, 30, 31, 30, 31, 31, 30, 31, 30, 31]"

definition validCivil :: "int \<Rightarrow> int \<Rightarrow> int \<Rightarrow> bool" where
  "validCivil year month day =
     (if month < 1 \<or> month > 12 \<or> day < 1 then False
      else day \<le> month_lengths year ! nat (month - 1))"

text \<open>The match of \<open>DATE\<close>: the three groups of digits.\<close>

definition DATE :: "jsstr \<Rightarrow> (jsstr \<times> jsstr \<times> jsstr) option" where
  "DATE s =
     (let y = take 4 s; m = take 2 (drop 5 s); d = take 2 (drop 8 s)
      in if length s = 10 \<and> list_all is_digit_unit (y @ m @ d) \<and>
            s ! 4 = unit_of (CHR ''-'') \<and> s ! 7 = unit_of (CHR ''-'')
         then Some (y, m, d) else None)"

definition dateInstant :: "jsstr \<Rightarrow> int option" where
  "dateInstant s =
     (case DATE s of
        None \<Rightarrow> None
      | Some (ys, ms, ds) \<Rightarrow>
          (let y = int_of_digits ys; m = int_of_digits ms; d = int_of_digits ds
           in if validCivil y m d then Some (daysFromCivil y m d * 86400000000000) else None))"

text \<open>
  The groups of \<open>DATE_TIME\<close>, absent ones \<open>None\<close>: the six numbers, the digits of the fraction, and
  the sign, hours and minutes of the offset.
\<close>

record moment =
  mo_year :: int
  mo_month :: int
  mo_day :: int
  mo_hour :: int
  mo_minute :: int
  mo_second :: int
  mo_fraction :: "jsstr option"
  mo_offset :: "(bool \<times> int \<times> int) option"

definition two_and_two :: "jsstr \<Rightarrow> bool" where
  "two_and_two s \<longleftrightarrow>
     length s = 5 \<and> list_all is_digit_unit (take 2 s @ drop 3 s) \<and> s ! 2 = unit_of (CHR '':'')"

definition time_part :: "jsstr \<Rightarrow> bool" where
  "time_part s \<longleftrightarrow>
     length s = 8 \<and> list_all is_digit_unit (take 2 s @ take 2 (drop 3 s) @ drop 6 s) \<and>
     s ! 2 = unit_of (CHR '':'') \<and> s ! 5 = unit_of (CHR '':'')"

definition fraction_part :: "jsstr \<Rightarrow> jsstr option \<times> jsstr" where
  "fraction_part s =
     (case s of
        u # r \<Rightarrow>
          if u = unit_of (CHR ''.'') \<and> takeWhile is_digit_unit r \<noteq> []
          then (Some (takeWhile is_digit_unit r), dropWhile is_digit_unit r) else (None, s)
      | [] \<Rightarrow> (None, s))"

definition zone_part :: "jsstr \<Rightarrow> (bool \<times> int \<times> int) option option" where
  "zone_part s =
     (case s of
        [] \<Rightarrow> None
      | u # r \<Rightarrow>
          if (u = unit_of (CHR ''Z'') \<or> u = unit_of (CHR ''z'')) \<and> r = [] then Some None
          else if (u = unit_of (CHR ''+'') \<or> u = unit_of (CHR ''-'')) \<and> two_and_two r
          then Some (Some (u = unit_of (CHR ''+''), int_of_digits (take 2 r), int_of_digits (drop 3 r)))
          else None)"

definition DATE_TIME :: "jsstr \<Rightarrow> moment option" where
  "DATE_TIME s =
     (let t = take 8 (drop 11 s); (fraction, rest) = fraction_part (drop 19 s)
      in case DATE (take 10 s) of
           None \<Rightarrow> None
         | Some (y, m, d) \<Rightarrow>
             if 19 \<le> length s \<and> (s ! 10 = unit_of (CHR ''T'') \<or> s ! 10 = unit_of (CHR ''t'')) \<and>
                time_part t
             then (case zone_part rest of
                     None \<Rightarrow> None
                   | Some zone \<Rightarrow>
                       Some \<lparr>mo_year = int_of_digits y, mo_month = int_of_digits m,
                         mo_day = int_of_digits d, mo_hour = int_of_digits (take 2 t),
                         mo_minute = int_of_digits (take 2 (drop 3 t)),
                         mo_second = int_of_digits (drop 6 t), mo_fraction = fraction,
                         mo_offset = zone\<rparr>)
             else None)"

text \<open>\<open>slice(0, 9).padEnd(9, "0")\<close> of the fraction.\<close>

definition nano_digits :: "jsstr option \<Rightarrow> jsstr" where
  "nano_digits f =
     (let t = take 9 (case f of None \<Rightarrow> [] | Some ds \<Rightarrow> ds)
      in t @ replicate (9 - length t) (unit_of (CHR ''0'')))"

definition dateTimeInstant :: "jsstr \<Rightarrow> int option" where
  "dateTimeInstant s =
     (case DATE_TIME s of
        None \<Rightarrow> None
      | Some t \<Rightarrow>
          if \<not> validCivil (mo_year t) (mo_month t) (mo_day t) then None
          else if mo_hour t > 23 \<or> mo_minute t > 59 \<or> mo_second t > 59 then None
          else
            (let nanos = daysFromCivil (mo_year t) (mo_month t) (mo_day t) * 86400000000000
                   + mo_hour t * 3600000000000 + mo_minute t * 60000000000
                   + mo_second t * 1000000000 + int_of_digits (nano_digits (mo_fraction t))
             in case mo_offset t of
                  None \<Rightarrow> Some nanos
                | Some (ahead, offsetHour, offsetMinute) \<Rightarrow>
                    if offsetHour > 23 \<or> offsetMinute > 59 then None
                    else
                      (let offset = (offsetHour * 3600 + offsetMinute * 60) * 1000000000
                       in Some (if ahead then nanos - offset else nanos + offset))))"

section \<open>The calendar\<close>

definition year_length :: "int \<Rightarrow> int" where
  "year_length y = (if leap_year y then 366 else 365)"

text \<open>The days from the first of January 1970 to the first of January of a year.\<close>

definition year_start :: "int \<Rightarrow> int" where
  "year_start y =
     (if 1970 \<le> y then (\<Sum>k \<in> {1970..<y}. year_length k) else - (\<Sum>k \<in> {y..<1970}. year_length k))"

text \<open>The days from the first of January 1970 to a date.\<close>

definition calendar_days :: "int \<Rightarrow> int \<Rightarrow> int \<Rightarrow> int" where
  "calendar_days y m d =
     year_start y + sum_list (take (nat (m - 1)) (month_lengths y)) + (d - 1)"

lemma year_start_Suc: "year_start (y + 1) = year_start y + year_length y"
proof (cases "1970 \<le> y")
  case True
  then have "{1970..<y + 1} = insert y {1970..<y}" by auto
  with True show ?thesis by (simp add: year_start_def)
next
  case False
  then have "{y..<1970} = insert y {y + 1..<1970}" by auto
  with False show ?thesis by (auto simp: year_start_def)
qed

lemma year_start_1970 [simp]: "year_start 1970 = 0"
  by (simp add: year_start_def)

definition closed_start :: "int \<Rightarrow> int" where
  "closed_start y = 365 * y + y div 4 - y div 100 + y div 400"

lemma days_closed:
  "daysFromCivil year month day =
     closed_start (year - (if month \<le> 2 then 1 else 0)) +
     (153 * (month + (if month > 2 then -3 else 9)) + 2) div 5 + day - 1 - 719468"
proof -
  define y where "y = year - (if month \<le> 2 then 1 else 0)"
  define e r where "e = y div 400" and "r = y mod 400"
  have y: "y = e * 400 + r" by (simp add: e_def r_def)
  have "(e * 400 + r) div 4 = e * 100 + r div 4" "(e * 400 + r) div 100 = e * 4 + r div 100"
    using div_mult_self1 [of 4 r "e * 100"] div_mult_self1 [of 100 r "e * 4"] by (simp_all add: ac_simps)
  then have q: "y div 4 = e * 100 + r div 4" "y div 100 = e * 4 + r div 100"
    by (simp_all only: y)
  have "y - e * 400 = r" using y by simp
  then show ?thesis
    unfolding daysFromCivil_def Let_def y_def [symmetric] closed_start_def e_def [symmetric] q
    by (simp add: y)
qed

lemma div_step:
  assumes "0 < n"
  shows "y div n - (y - 1) div n = (if y mod n = 0 then 1 else (0 :: int))"
proof -
  define q r where "q = y div n" and "r = y mod n"
  have y: "y = n * q + r" and r: "0 \<le> r" "r < n"
    using assms by (simp_all add: q_def r_def)
  have "(y - 1) div n = (if r = 0 then q - 1 else q)"
  proof (cases "r = 0")
    case True
    have "(y - 1) div n = q - 1"
      by (rule int_div_pos_eq [of _ _ _ "n - 1"]) (use y True assms in \<open>simp_all add: algebra_simps\<close>)
    with True show ?thesis by simp
  next
    case False
    have "(y - 1) div n = q"
      by (rule int_div_pos_eq [of _ _ _ "r - 1"]) (use y r False in simp_all)
    with False show ?thesis by simp
  qed
  then show ?thesis by (simp add: q_def r_def)
qed

lemma closed_step: "closed_start y = closed_start (y - 1) + year_length y"
proof -
  have d: "y mod 400 = 0 \<Longrightarrow> y mod 100 = 0" "y mod 100 = 0 \<Longrightarrow> y mod 4 = 0"
    by (auto simp: mod_eq_0_iff_dvd intro: dvd_trans [of 100 400] dvd_trans [of 4 100])
  have s: "y div 4 - (y - 1) div 4 = (if y mod 4 = 0 then 1 else 0)"
    "y div 100 - (y - 1) div 100 = (if y mod 100 = 0 then 1 else 0)"
    "y div 400 - (y - 1) div 400 = (if y mod 400 = 0 then 1 else 0)"
    by (rule div_step; simp)+
  have "closed_start y - closed_start (y - 1) = 365 + (y div 4 - (y - 1) div 4)
      - (y div 100 - (y - 1) div 100) + (y div 400 - (y - 1) div 400)"
    by (simp add: closed_start_def)
  also have "\<dots> = year_length y"
    unfolding s year_length_def leap_year_def using d by auto
  finally show ?thesis by simp
qed

lemma year_start_closed: "year_start y = closed_start (y - 1) + 306 - 719468"
proof (induction y rule: int_induct [of _ 1970])
  case base
  show ?case by (simp add: closed_start_def)
next
  case (step1 i)
  then show ?case using year_start_Suc [of i] closed_step [of i] by simp
next
  case (step2 i)
  then show ?case using year_start_Suc [of "i - 1"] closed_step [of "i - 1"] by simp
qed

text \<open>The arithmetic of the code counts the days of the calendar.\<close>

lemma daysFromCivil_calendar:
  assumes "1 \<le> m" and "m \<le> 12"
  shows "daysFromCivil y m d = calendar_days y m d"
proof -
  have "m = 1 \<or> m = 2 \<or> m = 3 \<or> m = 4 \<or> m = 5 \<or> m = 6 \<or> m = 7 \<or> m = 8 \<or> m = 9 \<or>
      m = 10 \<or> m = 11 \<or> m = 12"
    using assms by presburger
  then show ?thesis
    using closed_step [of y]
    by (auto simp: days_closed calendar_days_def year_start_closed month_lengths_def
        year_length_def split: if_splits)
qed

section \<open>The calendar is ordered\<close>

definition month_start :: "int \<Rightarrow> int \<Rightarrow> int" where
  "month_start y m = sum_list (take (nat (m - 1)) (month_lengths y))"

lemma month_cases:
  fixes m :: int
  assumes "1 \<le> m" and "m \<le> 12"
  shows "m \<in> {1, 2, 3, 4, 5, 6, 7, 8, 9, 10, 11, 12}"
  using assms by (simp, presburger)

lemma validCivil_day:
  "validCivil y m d \<longleftrightarrow> 1 \<le> m \<and> m \<le> 12 \<and> 1 \<le> d \<and> d \<le> month_lengths y ! nat (m - 1)"
  by (auto simp: validCivil_def)

lemma month_step:
  assumes "1 \<le> m" and "m \<le> 12"
  shows "0 \<le> month_start y m" and "month_start y m + month_lengths y ! nat (m - 1) \<le> year_length y"
    and "1 \<le> k \<Longrightarrow> k < m \<Longrightarrow> month_start y k + month_lengths y ! nat (k - 1) \<le> month_start y m"
proof -
  show "0 \<le> month_start y m" "month_start y m + month_lengths y ! nat (m - 1) \<le> year_length y"
    using month_cases [OF assms]
    by (auto simp: month_start_def month_lengths_def year_length_def)
  assume k: "1 \<le> k" "k < m"
  have "month_start y k + month_lengths y ! nat (k - 1) = sum_list (take (nat k) (month_lengths y))"
    using month_cases [of k] k assms
    by (auto simp: month_start_def month_lengths_def)
  also have "\<dots> \<le> month_start y m"
  proof -
    have "take (nat (m - 1)) (month_lengths y) =
        take (nat k) (month_lengths y) @ take (nat (m - 1) - nat k) (drop (nat k) (month_lengths y))"
      using k by (simp flip: take_add)
    moreover have "0 \<le> sum_list (take (nat (m - 1) - nat k) (drop (nat k) (month_lengths y)))"
      by (rule sum_list_nonneg) (auto simp: month_lengths_def dest!: in_set_takeD in_set_dropD)
    ultimately show ?thesis by (simp add: month_start_def)
  qed
  finally show "month_start y k + month_lengths y ! nat (k - 1) \<le> month_start y m" .
qed

lemma year_step: "y < z \<Longrightarrow> year_start y + year_length y \<le> year_start z"
proof (induction z rule: int_gr_induct)
  case base
  show ?case by (simp add: year_start_Suc)
next
  case (step z)
  have "0 \<le> year_length z" by (simp add: year_length_def)
  with step show ?case by (simp add: year_start_Suc)
qed

lemma calendar_less:
  assumes "validCivil y m d" and "validCivil y' m' d'" and "(y, m, d) < (y', m', d')"
  shows "calendar_days y m d < calendar_days y' m' d'"
proof -
  note v = assms(1,2) [unfolded validCivil_day]
  have c: "calendar_days y m d = year_start y + month_start y m + (d - 1)"
    "calendar_days y' m' d' = year_start y' + month_start y' m' + (d' - 1)"
    by (simp_all add: calendar_days_def month_start_def)
  consider "y < y'" | "y = y'" "m < m'" | "y = y'" "m = m'" "d < d'"
    using assms(3) by (auto simp: less_prod_def order_le_less)
  then show ?thesis
  proof cases
    case 1
    then show ?thesis
      using year_step [OF 1] month_step(2) [of m y] month_step(1) [of m' y'] v unfolding c by linarith
  next
    case 2
    then show ?thesis
      using month_step(3) [of m' m y] v unfolding c by auto
  next
    case 3
    then show ?thesis unfolding c by simp
  qed
qed

lemma calendar_order:
  assumes "validCivil y m d" and "validCivil y' m' d'"
  shows "calendar_days y m d < calendar_days y' m' d' \<longleftrightarrow> (y, m, d) < (y', m', d')"
  using calendar_less [OF assms] calendar_less [OF assms(2,1)]
    less_linear [of "(y, m, d)" "(y', m', d')"] by auto

section \<open>Digits of a fixed width\<close>

fun fixed_digits :: "nat \<Rightarrow> int \<Rightarrow> jsstr" where
  "fixed_digits 0 n = []"
| "fixed_digits (Suc k) n = fixed_digits k (n div 10) @ [digit_unit (n mod 10)]"

lemma length_fixed [simp]: "length (fixed_digits k n) = k"
  by (induction k arbitrary: n) auto

lemma fixed_all_digits [simp]: "list_all is_digit_unit (fixed_digits k n)"
  by (induction k arbitrary: n) (auto simp: digit_unit_is_digit)

lemma fixed_value_range: "is_digit_unit u \<Longrightarrow> 0 \<le> digit_value u \<and> digit_value u < 10"
  by (simp add: is_digit_unit_def digit_value_def word_le_def)

lemma fixed_unit_value: "is_digit_unit u \<Longrightarrow> digit_unit (digit_value u) = u"
  by (simp add: digit_unit_def digit_value_def)

lemma int_of_fixed: "0 \<le> n \<Longrightarrow> n < 10 ^ k \<Longrightarrow> int_of_digits (fixed_digits k n) = n"
proof (induction k arbitrary: n)
  case (Suc k)
  then have "int_of_digits (fixed_digits k (n div 10)) = n div 10"
    by (intro Suc.IH) (auto simp: pos_imp_zdiv_nonneg_iff)
  then show ?case by (simp add: int_of_digits_snoc digit_value_unit)
qed (simp add: int_of_digits_def)

lemma fixed_of_digits:
  "list_all is_digit_unit s \<Longrightarrow> fixed_digits (length s) (int_of_digits s) = s \<and>
     0 \<le> int_of_digits s \<and> int_of_digits s < 10 ^ length s"
proof (induction s rule: rev_induct)
  case (snoc u s)
  then have u: "0 \<le> digit_value u" "digit_value u < 10" "digit_unit (digit_value u) = u"
    using fixed_value_range [of u] fixed_unit_value [of u] by simp_all
  have "(10 * int_of_digits s + digit_value u) div 10 = int_of_digits s"
    "(10 * int_of_digits s + digit_value u) mod 10 = digit_value u"
    using u by simp_all
  with snoc u show ?case by (simp add: int_of_digits_snoc)
qed (simp add: int_of_digits_def)

lemma fixed_digits_append:
  "int_of_digits (s @ t) = int_of_digits s * 10 ^ length t + int_of_digits t"
proof (induction t rule: rev_induct)
  case (snoc u t)
  then show ?case by (simp add: int_of_digits_snoc flip: append_assoc)
qed (simp add: int_of_digits_def)

lemma digits_order:
  "length s = length t \<Longrightarrow> list_all is_digit_unit s \<Longrightarrow> list_all is_digit_unit t \<Longrightarrow>
     s < t \<Longrightarrow> int_of_digits s < int_of_digits t"
proof (induction s t rule: list_induct2)
  case (Cons u s v t)
  have c: "int_of_digits (w # r) = digit_value w * 10 ^ length r + int_of_digits r" for w r
    using fixed_digits_append [of "[w]" r] by (simp add: int_of_digits_def)
  show ?case
  proof (cases "u = v")
    case True
    with Cons show ?thesis by (simp add: c)
  next
    case False
    with Cons.prems have "digit_value u < digit_value v"
      by (auto simp: digit_value_def word_less_def)
    then have "(digit_value u + 1) * 10 ^ length s \<le> digit_value v * 10 ^ length s"
      by (intro mult_right_mono) simp_all
    moreover have "int_of_digits s < 10 ^ length s" "0 \<le> int_of_digits t"
      using fixed_of_digits [of s] fixed_of_digits [of t] Cons.prems by simp_all
    ultimately show ?thesis
      using Cons.hyps by (simp add: c algebra_simps)
  qed
qed simp

lemma digits_order_iff:
  assumes "length s = length t" and "list_all is_digit_unit s" and "list_all is_digit_unit t"
  shows "int_of_digits s < int_of_digits t \<longleftrightarrow> s < t" "int_of_digits s = int_of_digits t \<longleftrightarrow> s = t"
  using digits_order [OF assms] digits_order [OF assms(1) [symmetric] assms(3,2)]
    less_linear [of s t] by auto

lemma append_order:
  fixes a b :: jsstr
  shows "length a = length b \<Longrightarrow> a @ s < b @ t \<longleftrightarrow> a < b \<or> a = b \<and> s < t"
  by (induction a b rule: list_induct2) auto

section \<open>Dates\<close>

definition dash :: "16 word" where
  "dash = unit_of (CHR ''-'')"

text \<open>The RFC 3339 full-date of a day.\<close>

definition date_text :: "int \<Rightarrow> int \<Rightarrow> int \<Rightarrow> jsstr" where
  "date_text y m d = fixed_digits 4 y @ dash # fixed_digits 2 m @ dash # fixed_digits 2 d"

lemma DATE_append:
  assumes "length y = 4" and "length m = 2" and "length d = 2" and "list_all is_digit_unit (y @ m @ d)"
  shows "DATE (y @ dash # m @ dash # d) = Some (y, m, d)"
  using assms by (simp add: DATE_def dash_def nth_append)

lemma DATE_Some:
  assumes "DATE s = Some (y, m, d)"
  shows "s = y @ dash # m @ dash # d" and "length y = 4" and "length m = 2" and "length d = 2"
    and "list_all is_digit_unit y" and "list_all is_digit_unit m" and "list_all is_digit_unit d"
proof -
  from assms have l: "length s = 10" and y: "y = take 4 s" and m: "m = take 2 (drop 5 s)"
    and d: "d = take 2 (drop 8 s)" and u: "s ! 4 = dash" "s ! 7 = dash"
    and a: "list_all is_digit_unit (y @ m @ d)"
    by (auto simp: DATE_def Let_def dash_def split: if_splits)
  show "length y = 4" "length m = 2" "length d = 2" using l y m d by simp_all
  show "list_all is_digit_unit y" "list_all is_digit_unit m" "list_all is_digit_unit d"
    using a by simp_all
  have "s = take 4 s @ s ! 4 # take 2 (drop 5 s) @ s ! 7 # drop 8 s"
    using l id_take_nth_drop [of 4 s] id_take_nth_drop [of 2 "drop 5 s"] by simp
  moreover have "drop 8 s = d" using l d by simp
  ultimately show "s = y @ dash # m @ dash # d" using u y m by simp
qed

lemma month_lengths_le: "1 \<le> m \<Longrightarrow> m \<le> 12 \<Longrightarrow> month_lengths y ! nat (m - 1) \<le> 31"
  using month_cases [of m] by (auto simp: month_lengths_def)

lemma valid_width:
  assumes "validCivil y m d" and "0 \<le> y" and "y \<le> 9999"
  shows "int_of_digits (fixed_digits 4 y) = y" and "int_of_digits (fixed_digits 2 m) = m"
    and "int_of_digits (fixed_digits 2 d) = d"
  using assms month_lengths_le [of m y]
  by (auto simp: validCivil_day simp del: fixed_digits.simps intro!: int_of_fixed)

definition DAY_NANOS :: int where
  "DAY_NANOS = 86400000000000"

lemma dateInstant_iff:
  "dateInstant s = Some n \<longleftrightarrow>
     (\<exists>y m d. 0 \<le> y \<and> y \<le> 9999 \<and> validCivil y m d \<and> s = date_text y m d \<and>
        n = DAY_NANOS * calendar_days y m d)" (is "?L \<longleftrightarrow> ?R")
proof
  assume ?L
  then obtain ys ms ds where D: "DATE s = Some (ys, ms, ds)"
    and v: "validCivil (int_of_digits ys) (int_of_digits ms) (int_of_digits ds)"
    and n: "n = daysFromCivil (int_of_digits ys) (int_of_digits ms) (int_of_digits ds) * DAY_NANOS"
    by (auto simp: dateInstant_def Let_def DAY_NANOS_def split: option.splits if_splits)
  note p = DATE_Some [OF D]
  have "s = date_text (int_of_digits ys) (int_of_digits ms) (int_of_digits ds)"
    using p fixed_of_digits [OF p(5)] fixed_of_digits [OF p(6)] fixed_of_digits [OF p(7)]
    by (simp add: date_text_def del: fixed_digits.simps)
  moreover have "0 \<le> int_of_digits ys" "int_of_digits ys \<le> 9999"
    using fixed_of_digits [OF p(5)] p(2) by simp_all
  moreover have "n = DAY_NANOS * calendar_days (int_of_digits ys) (int_of_digits ms) (int_of_digits ds)"
    using n v by (simp add: daysFromCivil_calendar validCivil_day)
  ultimately show ?R using v by blast
next
  assume ?R
  then obtain y m d where y: "0 \<le> y" "y \<le> 9999" and v: "validCivil y m d"
    and s: "s = date_text y m d" and n: "n = DAY_NANOS * calendar_days y m d" by blast
  have "DATE s = Some (fixed_digits 4 y, fixed_digits 2 m, fixed_digits 2 d)"
    unfolding s date_text_def by (rule DATE_append) (simp_all del: fixed_digits.simps)
  then show ?L
    using v n y by (simp add: dateInstant_def valid_width [OF v y] DAY_NANOS_def
        daysFromCivil_calendar validCivil_day del: fixed_digits.simps)
qed

lemma date_text_order:
  assumes "validCivil y m d" and "0 \<le> y" and "y \<le> 9999"
    and "validCivil y' m' d'" and "0 \<le> y'" and "y' \<le> 9999"
  shows "date_text y m d < date_text y' m' d' \<longleftrightarrow> (y, m, d) < (y', m', d')"
proof -
  have o: "fixed_digits k a < fixed_digits k b \<longleftrightarrow> int_of_digits (fixed_digits k a) < int_of_digits (fixed_digits k b)"
    "fixed_digits k a = fixed_digits k b \<longleftrightarrow> int_of_digits (fixed_digits k a) = int_of_digits (fixed_digits k b)"
    for k a b
    using digits_order_iff [of "fixed_digits k a" "fixed_digits k b"] by simp_all
  show ?thesis
    unfolding date_text_def
    by (simp add: append_order o valid_width [OF assms(1-3)] valid_width [OF assms(4-6)] less_prod_def
        order_le_less del: fixed_digits.simps) auto
qed

text \<open>
  C31. A text has a date instant exactly when it is the RFC 3339 full-date of a day of the calendar
  in the years 0 to 9999, and the instant is the nanoseconds of the days the calendar counts from
  the first of January 1970; so two dates are ordered by their instants as their texts are.
\<close>
theorem dateInstant_exact:
  "(dateInstant s = Some n \<longleftrightarrow>
      (\<exists>y m d. 0 \<le> y \<and> y \<le> 9999 \<and> validCivil y m d \<and> s = date_text y m d \<and>
         n = DAY_NANOS * calendar_days y m d)) \<and>
   (case (dateInstant s, dateInstant t) of
      (Some a, Some b) \<Rightarrow> a < b \<longleftrightarrow> s < t
    | _ \<Rightarrow> True)"
proof -
  have "a < b \<longleftrightarrow> s < t" if ab: "dateInstant s = Some a" "dateInstant t = Some b" for a b
  proof -
    from ab(1) obtain y m d where s: "0 \<le> y" "y \<le> 9999" "validCivil y m d" "s = date_text y m d"
      "a = DAY_NANOS * calendar_days y m d" by (auto simp: dateInstant_iff)
    from ab(2) obtain y' m' d' where t: "0 \<le> y'" "y' \<le> 9999" "validCivil y' m' d'"
      "t = date_text y' m' d'" "b = DAY_NANOS * calendar_days y' m' d'"
      by (auto simp: dateInstant_iff)
    have "a < b \<longleftrightarrow> calendar_days y m d < calendar_days y' m' d'"
      unfolding s(5) t(5) by (simp add: DAY_NANOS_def)
    also have "\<dots> \<longleftrightarrow> s < t"
      unfolding s(4) t(4) calendar_order [OF s(3) t(3)]
        date_text_order [OF s(3,1,2) t(3,1,2)] ..
    finally show ?thesis .
  qed
  then show ?thesis
    using dateInstant_iff [of s n] by (simp split: option.splits)
qed

section \<open>Date-times\<close>

text \<open>The seconds from the first of January 1970, 00:00 UTC, to a moment, exactly.\<close>

definition fraction_value :: "jsstr option \<Rightarrow> rat" where
  "fraction_value f =
     (case f of None \<Rightarrow> 0 | Some ds \<Rightarrow> of_int (int_of_digits ds) / 10 ^ length ds)"

definition offset_seconds :: "(bool \<times> int \<times> int) option \<Rightarrow> int" where
  "offset_seconds z =
     (case z of None \<Rightarrow> 0 | Some (ahead, h, m) \<Rightarrow> (if ahead then 1 else - 1) * (3600 * h + 60 * m))"

definition exact_seconds :: "moment \<Rightarrow> rat" where
  "exact_seconds t =
     of_int (86400 * calendar_days (mo_year t) (mo_month t) (mo_day t) + 3600 * mo_hour t +
       60 * mo_minute t + mo_second t - offset_seconds (mo_offset t)) + fraction_value (mo_fraction t)"

definition moment_ok :: "moment \<Rightarrow> bool" where
  "moment_ok t \<longleftrightarrow>
     validCivil (mo_year t) (mo_month t) (mo_day t) \<and>
     mo_hour t \<le> 23 \<and> mo_minute t \<le> 59 \<and> mo_second t \<le> 59 \<and>
     (case mo_offset t of None \<Rightarrow> True | Some (_, h, m) \<Rightarrow> h \<le> 23 \<and> m \<le> 59)"

lemma fraction_part_digits:
  "fraction_part s = (Some ds, r) \<Longrightarrow> list_all is_digit_unit ds"
  by (auto simp: fraction_part_def list_all_iff dest: set_takeWhileD split: list.splits if_splits)

lemma DATE_TIME_fraction:
  "DATE_TIME s = Some t \<Longrightarrow> (case mo_fraction t of None \<Rightarrow> True | Some ds \<Rightarrow> list_all is_digit_unit ds)"
  by (auto simp: DATE_TIME_def Let_def dest: fraction_part_digits
      split: option.splits if_splits prod.splits)

lemma int_of_zeros: "int_of_digits (s @ replicate k (unit_of (CHR ''0''))) = int_of_digits s * 10 ^ k"
proof -
  have z: "digit_value (unit_of (CHR ''0'')) = 0" by (simp add: digit_value_def unit_of_def)
  have "int_of_digits (replicate k (unit_of (CHR ''0''))) = 0"
  proof (induction k)
    case (Suc k)
    then show ?case
      by (simp only: replicate_Suc replicate_append_same [symmetric] int_of_digits_snoc z)
  qed (simp add: int_of_digits_def)
  then show ?thesis by (simp add: fixed_digits_append)
qed

lemma floor_fraction:
  assumes "list_all is_digit_unit ds"
  shows "int_of_digits (nano_digits (Some ds)) = \<lfloor>(1000000000 :: rat) * fraction_value (Some ds)\<rfloor>"
proof (cases "length ds \<le> 9")
  case True
  have "(10 :: rat) ^ 9 = 10 ^ (9 - length ds) * 10 ^ length ds"
    using True by (simp flip: power_add)
  then have "(1000000000 :: rat) * fraction_value (Some ds) = of_int (int_of_digits ds * 10 ^ (9 - length ds))"
    by (simp add: fraction_value_def field_simps)
  then have "\<lfloor>(1000000000 :: rat) * fraction_value (Some ds)\<rfloor> = int_of_digits ds * 10 ^ (9 - length ds)"
    by (simp only: floor_of_int)
  then show ?thesis
    using True by (simp add: nano_digits_def int_of_zeros)
next
  case False
  define k where "k = length ds - 9"
  have k: "length ds = k + 9" using False by (simp add: k_def)
  have v: "int_of_digits ds = int_of_digits (take 9 ds) * 10 ^ k + int_of_digits (drop 9 ds)"
    using fixed_digits_append [of "take 9 ds" "drop 9 ds"] by (simp add: k)
  have "list_all is_digit_unit (drop 9 ds)"
    using assms by (auto simp: list_all_iff dest: in_set_dropD)
  from fixed_of_digits [OF this] have r: "0 \<le> int_of_digits (drop 9 ds)" "int_of_digits (drop 9 ds) < 10 ^ k"
    by (simp_all add: k)
  have "(1000000000 :: rat) * fraction_value (Some ds) = of_int (int_of_digits ds) / of_int (10 ^ k)"
    by (simp add: fraction_value_def k power_add)
  then have "\<lfloor>(1000000000 :: rat) * fraction_value (Some ds)\<rfloor> = int_of_digits ds div 10 ^ k"
    by (simp only: floor_divide_of_int_eq)
  also have "\<dots> = int_of_digits (take 9 ds)"
    by (rule int_div_pos_eq [of _ _ _ "int_of_digits (drop 9 ds)"]) (use v r in simp_all)
  finally show ?thesis using False by (simp add: nano_digits_def)
qed

lemma dateTimeInstant_floor:
  "dateTimeInstant s =
     (case DATE_TIME s of
        None \<Rightarrow> None
      | Some t \<Rightarrow> if moment_ok t then Some \<lfloor>1000000000 * exact_seconds t\<rfloor> else None)"
proof (cases "DATE_TIME s")
  case None
  then show ?thesis by (simp add: dateTimeInstant_def)
next
  case (Some t)
  define f where "f = int_of_digits (nano_digits (mo_fraction t))"
  have f: "\<lfloor>(1000000000 :: rat) * fraction_value (mo_fraction t)\<rfloor> = f"
  proof (cases "mo_fraction t")
    case None
    show ?thesis
      unfolding f_def None using int_of_zeros [of "[]" 9]
      by (simp add: fraction_value_def nano_digits_def int_of_digits_def)
  next
    case (Some ds)
    then have "list_all is_digit_unit ds"
      using DATE_TIME_fraction [OF \<open>DATE_TIME s = Some t\<close>] by simp
    from floor_fraction [OF this] show ?thesis by (simp add: f_def Some)
  qed
  have "\<lfloor>(1000000000 :: rat) * exact_seconds t\<rfloor> =
      1000000000 * (86400 * calendar_days (mo_year t) (mo_month t) (mo_day t) + 3600 * mo_hour t +
        60 * mo_minute t + mo_second t - offset_seconds (mo_offset t)) + f"
    (is "_ = 1000000000 * ?z + f")
  proof -
    have "(1000000000 :: rat) * exact_seconds t =
        of_int (1000000000 * ?z) + 1000000000 * fraction_value (mo_fraction t)"
      unfolding exact_seconds_def by (simp only: of_int_mult of_int_numeral distrib_left)
    then show ?thesis by (simp only: floor_add_int [symmetric] f add.commute floor_add2)
  qed
  then show ?thesis
    by (auto simp: dateTimeInstant_def Some moment_ok_def f_def [symmetric] offset_seconds_def
        Let_def daysFromCivil_calendar validCivil_day algebra_simps split: option.splits)
qed

text \<open>Two moments a tenth of a nanosecond apart.\<close>

definition close_moments :: "jsstr \<times> jsstr" where
  "close_moments = (js ''2020-01-01T00:00:00Z'', js ''2020-01-01T00:00:00.0000000001Z'')"

lemma close_moments_same: "dateTimeInstant (fst close_moments) = dateTimeInstant (snd close_moments)"
  by code_simp

lemma close_moments_apart:
  "map_option mo_fraction (DATE_TIME (fst close_moments)) = Some None \<and>
   map_option mo_fraction (DATE_TIME (snd close_moments)) = Some (Some (js ''0000000001'')) \<and>
   map_option (mo_fraction_update (\<lambda>_. None)) (DATE_TIME (fst close_moments)) =
   map_option (mo_fraction_update (\<lambda>_. None)) (DATE_TIME (snd close_moments))"
  by code_simp

text \<open>
  C32. \<open>dateTimeInstant\<close> accepts exactly the date-times of the code's grammar on a calendar day with
  hours, minutes, seconds and offset in range, no leap second among them, and the instant is the
  exact moment of the text, its offset taken off, rounded down to the nanosecond. The rounding is
  observable: two texts of different moments have one instant.
\<close>
theorem dateTimeInstant_exact:
  "dateTimeInstant s =
     (case DATE_TIME s of
        None \<Rightarrow> None
      | Some t \<Rightarrow> if moment_ok t then Some \<lfloor>1000000000 * exact_seconds t\<rfloor> else None) \<and>
   dateTimeInstant (fst close_moments) = dateTimeInstant (snd close_moments) \<and>
   map_option exact_seconds (DATE_TIME (fst close_moments)) \<noteq>
   map_option exact_seconds (DATE_TIME (snd close_moments))"
proof -
  obtain a b where ab: "DATE_TIME (fst close_moments) = Some a" "DATE_TIME (snd close_moments) = Some b"
    "mo_fraction a = None" "mo_fraction b = Some (js ''0000000001'')"
    "mo_fraction_update (\<lambda>_. None) a = mo_fraction_update (\<lambda>_. None) b"
    using close_moments_apart by auto
  have same: "mo_year a = mo_year b" "mo_month a = mo_month b" "mo_day a = mo_day b"
    "mo_hour a = mo_hour b" "mo_minute a = mo_minute b" "mo_second a = mo_second b"
    "mo_offset a = mo_offset b"
    using ab(5) by (cases a; cases b; simp)+
  have "fraction_value (mo_fraction b) \<noteq> fraction_value (mo_fraction a)"
  proof -
    have "int_of_digits (js ''0000000001'') = 1" by code_simp
    then show ?thesis unfolding ab(3,4) fraction_value_def by (simp add: js_def)
  qed
  then have "exact_seconds a \<noteq> exact_seconds b" by (simp add: exact_seconds_def same)
  then show ?thesis
    using dateTimeInstant_floor [of s] close_moments_same by (simp add: ab(1,2))
qed

end
