(* ===== verification/RustConstraints.thy ===== *)
theory RustConstraints
  imports RustDiagnostics CivilDates PatternProperties Applicability Operands
begin

text \<open>
  \<open>lowerConstraints\<close> of \<open>src/src/compiler/backends/rust-serde/constraints.mjs\<close> and the functions
  it is made of: every constraint of a type becomes a check of the generated crate or a diagnostic.
  The subject is the structural kind and, for a scalar, the scalar name that the caller resolved.
  The registry of proved validators, a pinned table, and the function naming a matcher program are
  parameters. A \<open>TypeError\<close> that the pattern parser throws leaves the function: it is the left value
  of the result. The documents are those the reader accepted, whose constraints are an array.
\<close>

datatype check_form =
    LengthCheck jsval
  | ProvedCheck jsstr jsval
  | MatcherCheck jsstr "inst list" jsval
  | EnumCheck "jsstr option" "jsval list"
  | NonEmptyCheck jsstr
  | UniqueCheck
  | FormatCheck jsstr
  | NumericCheck jsstr jsval
  | DecimalCheck jsstr jsval
  | InstantCheck jsstr jsval int

record check =
  ck_identity :: jsstr
  ck_keyword :: jsstr
  ck_form :: check_form

record constraint_subject =
  su_kind :: jsstr
  su_scalar :: "jsstr option"

record lowering_options =
  lo_entries :: "(jsstr \<times> jsval) list"
  lo_programName :: "jsstr \<Rightarrow> jsval"

type_synonym lowering = "check option \<times> diag list"

definition FORMAT_REGISTRY :: "(jsstr \<times> jsval) list" where
  "FORMAT_REGISTRY = []"

definition BOUNDS :: "jsstr list" where
  "BOUNDS = map js [''min'', ''max'', ''exclusiveMin'', ''exclusiveMax'']"

definition UNORDERED :: "jsstr list" where
  "UNORDERED = [js ''duration'']"

section \<open>Messages\<close>

text \<open>\<open>fragment(JSON.stringify(value))\<close>: \<open>String\<close> of an absent text is \<open>undefined\<close>.\<close>

definition value_fragment :: "jsval \<Rightarrow> jsstr" where
  "value_fragment v =
     rust_fragment (case json_text v of None \<Rightarrow> Undefined | Some t \<Rightarrow> Str t)"

definition name_fragment :: "jsstr \<Rightarrow> jsstr" where
  "name_fragment s = rust_fragment (Str s)"

definition scalar_name :: "jsstr option \<Rightarrow> jsstr" where
  "scalar_name s = (case s of None \<Rightarrow> js ''undefined'' | Some t \<Rightarrow> t)"

text \<open>\<open>raise(entry, message)\<close> followed by \<open>return undefined\<close>.\<close>

definition refuse :: "jsval option \<Rightarrow> string \<Rightarrow> jsstr list \<Rightarrow> lowering" where
  "refuse locus name parts = (None, [rust_diag name (concat parts) locus])"

definition lowered :: "jsstr \<Rightarrow> string \<Rightarrow> check_form \<Rightarrow> lowering" where
  "lowered ident keyword form =
     (Some \<lparr>ck_identity = ident, ck_keyword = js keyword, ck_form = form\<rparr>, [])"

section \<open>Bounds\<close>

definition bound_fits :: "jsstr \<Rightarrow> bool" where
  "bound_fits s \<longleftrightarrow> canonical_integer s \<and> - (2 ^ 127) \<le> big_int s \<and> big_int s \<le> 2 ^ 127 - 1"

definition float_scalar :: "jsstr option \<Rightarrow> bool" where
  "float_scalar s \<longleftrightarrow> s \<in> {Some (js ''number''), Some (js ''float32''), Some (js ''float64'')}"

definition finite_number :: "jsval \<Rightarrow> bool" where
  "finite_number v = (case v of Num n \<Rightarrow> num_is_finite n | _ \<Rightarrow> False)"

definition lowerBound :: "jsval option \<Rightarrow> jsval \<Rightarrow> jsstr \<Rightarrow> jsstr \<Rightarrow> constraint_subject \<Rightarrow> lowering" where
  "lowerBound locus constraint keyword ident resolved =
     (let v = get (get constraint ''operands'') ''value'';
          scalar = su_scalar resolved;
          made = (\<lambda>form. (Some \<lparr>ck_identity = ident, ck_keyword = keyword, ck_form = form\<rparr>, []));
          bounds = js ''the constraint '' @ name_fragment ident @ js '' bounds a '' @
            scalar_name scalar @ js '' subject with ''
      in if scalar = Some (js ''integer'') \<and> is_string v then
           (if \<not> bound_fits (to_text v) then
              refuse locus ''INVALID_OPERAND''
                [js ''the constraint '', name_fragment ident, js '' bounds an integer subject with '',
                 value_fragment v, js '', which is not a canonical decimal integer within i128'']
            else made (NumericCheck (scalar_name scalar) v))
         else if float_scalar scalar then
           (if \<not> finite_number v \<or>
               (scalar = Some (js ''float32'') \<and> \<not> num_eq (fround (to_number v)) (to_number v)) then
              refuse locus ''INVALID_OPERAND''
                [bounds, value_fragment v, js '', which is not a finite JSON number'']
            else made (NumericCheck (scalar_name scalar) v))
         else if scalar = Some (js ''decimal'') \<and> is_string v then made (DecimalCheck (scalar_name scalar) v)
         else if \<not> is_string v then
           refuse locus ''INVALID_OPERAND''
             [bounds, value_fragment v, js '', which is not a JSON string'']
         else
           (case (if scalar = Some (js ''date'') then dateInstant (to_text v)
                  else dateTimeInstant (to_text v)) of
              None \<Rightarrow>
                refuse locus ''INVALID_OPERAND''
                  [bounds, rust_fragment v, js '', which is not an RFC 3339 '', scalar_name scalar]
            | Some instant \<Rightarrow> made (InstantCheck (scalar_name scalar) v instant)))"

section \<open>Patterns and enumerated values\<close>

definition pattern_prefix :: "jsstr \<Rightarrow> jsstr \<Rightarrow> jsstr" where
  "pattern_prefix ident regex =
     js ''the constraint '' @ name_fragment ident @ js '' carries the pattern '' @
     name_fragment regex @ js '', which this backend cannot express: ''"

definition lowerPatternConstraint ::
  "lowering_options \<Rightarrow> jsval option \<Rightarrow> jsval \<Rightarrow> jsstr \<Rightarrow> pattern_error + lowering" where
  "lowerPatternConstraint opts locus constraint ident =
     (let regex = to_text (coalesce (get (get constraint ''operands'') ''regex'') (Str []));
          registered = (\<lambda>r. map_of (lo_entries opts) r \<noteq> None)
      in case classifyPattern registered regex of
           Inl e \<Rightarrow> Inl e
         | Inr UnsupportedPattern \<Rightarrow>
             (case unsupportedConstruct registered regex of
                Inl e \<Rightarrow> Inl e
              | Inr what \<Rightarrow>
                  Inr (refuse locus ''UNSUPPORTED_PATTERN''
                    [pattern_prefix ident regex, scalar_name what]))
         | Inr Proved \<Rightarrow>
             Inr (lowered ident ''pattern''
               (ProvedCheck regex (get (the (map_of (lo_entries opts) regex)) ''validator'')))
         | Inr Expressible \<Rightarrow>
             (case lowerPattern regex of
                Inr program \<Rightarrow>
                  Inr (lowered ident ''pattern''
                    (MatcherCheck regex program (coalesce (lo_programName opts ident) Undefined)))
              | Inl (Unsupported what offset) \<Rightarrow>
                  Inr (refuse locus ''UNSUPPORTED_PATTERN'' [pattern_prefix ident regex, what])
              | Inl e \<Rightarrow> Inl e))"

definition enum_admits :: "jsstr option \<Rightarrow> jsval \<Rightarrow> bool" where
  "enum_admits scalar v =
     (if scalar = Some (js ''boolean'') then is_boolean v
      else if scalar = Some (js ''integer'') then is_string v \<and> bound_fits (to_text v)
      else if float_scalar scalar then
        finite_number v \<and>
        (scalar = Some (js ''number'') \<or> scalar = Some (js ''float64'') \<or>
          num_eq (fround (to_number v)) (to_number v))
      else if scalar = Some (js ''decimal'') then is_string v \<and> canonical_decimal (to_text v)
      else is_string v)"

definition lowerEnumValues :: "jsval option \<Rightarrow> jsval \<Rightarrow> jsstr \<Rightarrow> constraint_subject \<Rightarrow> lowering" where
  "lowerEnumValues locus constraint ident resolved =
     (let vs = list_of (get (get constraint ''operands'') ''values'');
          scalar = su_scalar resolved
      in case filter (\<lambda>v. \<not> enum_admits scalar v) vs of
           v # _ \<Rightarrow>
             refuse locus ''INVALID_OPERAND''
               [js ''the constraint '', name_fragment ident, js '' admits '', value_fragment v,
                js '', whose JSON type a '', scalar_name scalar, js '' subject does not admit'']
         | [] \<Rightarrow> lowered ident ''enumValues'' (EnumCheck scalar vs))"

section \<open>One constraint\<close>

definition length_operand :: "jsval \<Rightarrow> bool" where
  "length_operand v = (case v of Num n \<Rightarrow> num_is_integer n \<and> \<not> num_less n (Fin 0) | _ \<Rightarrow> False)"

definition lowerOne ::
  "lowering_options \<Rightarrow> jsval option \<Rightarrow> jsval \<Rightarrow> jsstr \<Rightarrow> jsstr \<Rightarrow> constraint_subject \<Rightarrow> pattern_error + lowering" where
  "lowerOne opts locus constraint keyword ident resolved =
     (let operands = get constraint ''operands''
      in if keyword \<in> set BOUNDS then Inr (lowerBound locus constraint keyword ident resolved)
         else if keyword = js ''minLength'' \<or> keyword = js ''maxLength'' then
           (let v = get operands ''value''
            in if \<not> length_operand v then
                 Inr (refuse locus ''INVALID_OPERAND''
                   [js ''the constraint '', name_fragment ident,
                    js '' takes a non-negative integer length, not '', value_fragment v])
               else Inr (Some \<lparr>ck_identity = ident, ck_keyword = keyword, ck_form = LengthCheck v\<rparr>, []))
         else if keyword = js ''pattern'' then lowerPatternConstraint opts locus constraint ident
         else if keyword = js ''enumValues'' then Inr (lowerEnumValues locus constraint ident resolved)
         else if keyword = js ''nonEmpty'' then
           Inr (lowered ident ''nonEmpty'' (NonEmptyCheck (su_kind resolved)))
         else if keyword = js ''unique'' then Inr (lowered ident ''unique'' UniqueCheck)
         else if keyword = js ''format'' then
           (let name = to_text (get operands ''name'')
            in if map_of FORMAT_REGISTRY name = None then
                 Inr (refuse locus ''UNKNOWN_FORMAT''
                   [js ''the constraint '', name_fragment ident, js '' names the format '',
                    name_fragment name, js '', which the generated registry does not carry''])
               else Inr (lowered ident ''format'' (FormatCheck name)))
         else
           Inr (refuse locus ''UNSUPPORTED_CONSTRUCT''
             [js ''the constraint '', name_fragment ident, js '' selects no lowering row'']))"

text \<open>The body of the loop over the constraints.\<close>

definition lower_constraint ::
  "lowering_options \<Rightarrow> jsval option \<Rightarrow> constraint_subject option \<Rightarrow> jsval \<Rightarrow> pattern_error + lowering" where
  "lower_constraint opts locus resolved constraint =
     (let keyword = to_text (get constraint ''keyword'');
          ident = to_text (get constraint ''identity'');
          names = js ''the constraint '' @ name_fragment ident @ js '' names the keyword ''
      in if \<not> isKeyword keyword then
           Inr (refuse locus ''UNSUPPORTED_CONSTRUCT''
             [names, name_fragment keyword, js '', which is outside the closed eleven-keyword vocabulary''])
         else (case resolved of
             None \<Rightarrow>
               Inr (refuse locus ''UNRESOLVED_TYPE_REF''
                 [js ''the constraint '', name_fragment ident, js '' applies to '',
                  rust_fragment (get constraint ''appliesTo''), js '', which resolves to nothing''])
           | Some subj \<Rightarrow>
               if keyword \<in> set BOUNDS \<and>
                  (case su_scalar subj of None \<Rightarrow> False | Some s \<Rightarrow> s \<in> set UNORDERED) then
                 Inr (refuse locus ''UNORDERED_SUBJECT''
                   [js ''the constraint '', name_fragment ident, js '' bounds a '',
                    scalar_name (su_scalar subj),
                    js '' subject, and the contract states no order over it''])
               else if \<not> applies keyword (su_kind subj) (su_scalar subj) then
                 Inr (refuse locus ''CONSTRAINT_NOT_APPLICABLE''
                   [names, keyword, js '', which does not apply to a subject of kind '', su_kind subj,
                    (case su_scalar subj of
                       None \<Rightarrow> []
                     | Some s \<Rightarrow> if s = [] then [] else js '' ('' @ s @ js '')'')])
               else lowerOne opts locus constraint keyword ident subj))"

fun lower_all ::
  "lowering_options \<Rightarrow> jsval option \<Rightarrow> constraint_subject option \<Rightarrow> jsval list \<Rightarrow> check list \<times> diag list \<Rightarrow>
    pattern_error + check list \<times> diag list" where
  "lower_all opts locus resolved [] acc = Inr acc"
| "lower_all opts locus resolved (c # cs) (checks, diags) =
     (case lower_constraint opts locus resolved c of
        Inl e \<Rightarrow> Inl e
      | Inr (made, raised) \<Rightarrow>
          lower_all opts locus resolved cs
            (case made of None \<Rightarrow> checks | Some k \<Rightarrow> checks @ [k], diags @ raised))"

definition lowerConstraints ::
  "lowering_options \<Rightarrow> jsval \<Rightarrow> constraint_subject option \<Rightarrow> pattern_error + check list \<times> diag list" where
  "lowerConstraints opts definition_value resolved =
     (let source = get (get definition_value ''origin'') ''source'';
          locus = (if truthy source then Some source else None)
      in lower_all opts locus resolved (list_of (get definition_value ''constraints'')) ([], []))"

section \<open>Which constraints become checks\<close>

text \<open>The operand of a bound the generated crate can compare with.\<close>

definition bound_operand :: "jsstr option \<Rightarrow> jsval \<Rightarrow> bool" where
  "bound_operand scalar v =
     (if scalar = Some (js ''integer'') then integerAdmitted v
      else if float_scalar scalar then floatAdmitted (scalar = Some (js ''float32'')) v
      else if scalar = Some (js ''decimal'') then is_string v
      else (case v of
          Str s \<Rightarrow> (if scalar = Some (js ''date'') then dateInstant s else dateTimeInstant s) \<noteq> None
        | _ \<Rightarrow> False))"

text \<open>A pattern the backend can run: it lowers to a program, or it has a registered validator.\<close>

definition pattern_operand :: "lowering_options \<Rightarrow> jsval \<Rightarrow> bool" where
  "pattern_operand opts v =
     (let regex = to_text (coalesce v (Str []))
      in case parsePattern regex of
           Inr _ \<Rightarrow> \<not> isl (lowerPattern regex)
         | Inl _ \<Rightarrow> map_of (lo_entries opts) regex \<noteq> None)"

text \<open>The operand rule of each keyword.\<close>

definition operand_accepted :: "lowering_options \<Rightarrow> jsstr \<Rightarrow> constraint_subject \<Rightarrow> jsval \<Rightarrow> bool" where
  "operand_accepted opts keyword subj operands =
     (if keyword \<in> set BOUNDS then bound_operand (su_scalar subj) (get operands ''value'')
      else if keyword = js ''minLength'' \<or> keyword = js ''maxLength''
        then length_operand (get operands ''value'')
      else if keyword = js ''pattern'' then pattern_operand opts (get operands ''regex'')
      else if keyword = js ''enumValues''
        then list_all (enum_admits (su_scalar subj)) (list_of (get operands ''values''))
      else keyword = js ''nonEmpty'' \<or> keyword = js ''unique'')"

definition constraint_accepted :: "lowering_options \<Rightarrow> constraint_subject option \<Rightarrow> jsval \<Rightarrow> bool" where
  "constraint_accepted opts resolved c =
     (let keyword = to_text (get c ''keyword'')
      in case resolved of
           None \<Rightarrow> False
         | Some subj \<Rightarrow>
             applies keyword (su_kind subj) (su_scalar subj) \<and>
             \<not> (keyword \<in> set BOUNDS \<and> su_scalar subj = Some (js ''duration'')) \<and>
             operand_accepted opts keyword subj (get c ''operands''))"

text \<open>What the outcome of one constraint has to be: a check that carries its identity, or one
  blocking diagnostic.\<close>

definition outcome_ok :: "bool \<Rightarrow> jsval \<Rightarrow> lowering \<Rightarrow> bool" where
  "outcome_ok accepted c r =
     (case r of (made, raised) \<Rightarrow>
        if accepted
        then raised = [] \<and>
          (case made of
             None \<Rightarrow> False
           | Some k \<Rightarrow> ck_identity k = to_text (get c ''identity'') \<and>
               ck_keyword k = to_text (get c ''keyword''))
        else made = None \<and> length raised = 1 \<and> list_all d_blocking raised)"

definition blocking_name :: "string \<Rightarrow> bool" where
  "blocking_name name \<longleftrightarrow> name \<in> set (RUST_BLOCKING @ IR_SHAPE)"

lemma refuse_ok: "blocking_name name \<Longrightarrow> \<not> a \<Longrightarrow> outcome_ok a c (refuse locus name parts)"
  unfolding blocking_name_def
  by (simp add: outcome_ok_def refuse_def rust_diag_blocking del: set_append)

lemma lowered_ok:
  "to_text (get c ''keyword'') = js k \<Longrightarrow> a \<Longrightarrow>
     outcome_ok a c (lowered (to_text (get c ''identity'')) k form)"
  by (simp add: outcome_ok_def lowered_def)

lemma made_ok:
  "ident = to_text (get c ''identity'') \<Longrightarrow> to_text (get c ''keyword'') = keyword \<Longrightarrow> a \<Longrightarrow>
     outcome_ok a c (Some \<lparr>ck_identity = ident, ck_keyword = keyword, ck_form = form\<rparr>, [])"
  by (simp add: outcome_ok_def)

lemma refusal_names [simp]:
  "blocking_name ''UNSUPPORTED_CONSTRUCT''" "blocking_name ''UNSUPPORTED_PATTERN''"
  "blocking_name ''UNORDERED_SUBJECT''" "blocking_name ''UNKNOWN_FORMAT''"
  "blocking_name ''CONSTRAINT_NOT_APPLICABLE''" "blocking_name ''INVALID_OPERAND''"
  "blocking_name ''UNRESOLVED_TYPE_REF''"
  by (simp_all add: blocking_name_def RUST_BLOCKING_def IR_SHAPE_def)

lemma bound_fits_admitted: "is_string v \<and> bound_fits (to_text v) \<longleftrightarrow> integerAdmitted v"
  by (cases v) (simp_all add: bound_fits_def integerAdmitted_def withinI128_def I128_MIN_def I128_MAX_def)

lemma float_admitted:
  "finite_number v \<and> (single \<longrightarrow> num_eq (fround (to_number v)) (to_number v)) \<longleftrightarrow> floatAdmitted single v"
  by (cases v) (auto simp: finite_number_def floatAdmitted_def to_number_def)

lemma lowerBound_ok:
  assumes "keyword = to_text (get c ''keyword'')" and "ident = to_text (get c ''identity'')"
  shows "outcome_ok (bound_operand (su_scalar subj) (get (get c ''operands'') ''value'')) c
     (lowerBound locus c keyword ident subj)"
proof -
  define v where "v = get (get c ''operands'') ''value''"
  consider "su_scalar subj = Some (js ''integer'')" | "float_scalar (su_scalar subj)"
    | "su_scalar subj = Some (js ''decimal'')"
    | "su_scalar subj \<noteq> Some (js ''integer'')" "\<not> float_scalar (su_scalar subj)"
      "su_scalar subj \<noteq> Some (js ''decimal'')" by blast
  then show ?thesis
  proof cases
    case 1
    then show ?thesis
      using bound_fits_admitted [of v]
      by (auto simp: lowerBound_def Let_def v_def [symmetric] bound_operand_def float_scalar_def
          assms intro!: refuse_ok made_ok)
  next
    case 2
    then show ?thesis
      using float_admitted [of v "su_scalar subj = Some (js ''float32'')"]
      by (auto simp: lowerBound_def Let_def v_def [symmetric] bound_operand_def float_scalar_def
          assms intro!: refuse_ok made_ok)
  next
    case 3
    then show ?thesis
      by (auto simp: lowerBound_def Let_def v_def [symmetric] bound_operand_def float_scalar_def
          assms intro!: refuse_ok made_ok)
  next
    case 4
    then show ?thesis
      by (cases v) (auto simp: lowerBound_def Let_def v_def [symmetric] bound_operand_def
          assms intro!: refuse_ok made_ok split: option.splits)
  qed
qed


section \<open>What the lowering of a parsed pattern can raise\<close>

text \<open>The compiler of a parsed pattern raises nothing but refusals.\<close>

definition refuses_only :: "pattern_error + 'a \<Rightarrow> bool" where
  "refuses_only r = (case r of Inl (Unsupported _ _) \<Rightarrow> True | Inl _ \<Rightarrow> False | Inr _ \<Rightarrow> True)"

lemma refuses_Inr [simp]: "refuses_only (Inr x)"
  by (simp add: refuses_only_def)

lemma refuses_then:
  "refuses_only r \<Longrightarrow> (\<And>x. r = Inr x \<Longrightarrow> refuses_only (f x)) \<Longrightarrow> refuses_only (try_then r f)"
  by (auto simp: refuses_only_def try_then_def split: sum.splits pattern_error.splits)

lemma refuses_guard [simp]: "refuses_only (guard prog)"
  by (simp add: guard_def refuses_only_def)

lemma refuses_required [simp]: "refuses_only (required_copies body n out)"
  by (induction n arbitrary: out) (auto intro: refuses_then)

lemma refuses_optional [simp]: "refuses_only (optional_copies body lazy n out)"
  by (induction n arbitrary: out) (auto intro: refuses_then)

lemma refuses_copies [simp]: "refuses_only (copies body n out)"
  by (simp add: copies_def)

lemma refuses_repeat [simp]: "refuses_only (compileRepeat body lo hi lazy)"
  by (auto simp: compileRepeat_def intro!: refuses_then)

lemma refuses_compile:
  "wf_node a \<Longrightarrow> refuses_only (compile a)"
  "list_all wf_node ts \<Longrightarrow> refuses_only (compile_seq ts out)"
  "list_all wf_node bs \<Longrightarrow> bs \<noteq> [] \<Longrightarrow> refuses_only (compile_alt bs)"
proof (induction a and ts out and bs rule: compile_compile_seq_compile_alt.induct)
  case (6 terms)
  then show ?case by simp
next
  case (7 branches)
  then show ?case by (cases branches) auto
qed (auto intro!: refuses_then simp: list_all_iff)

lemma lowerPattern_refuses:
  assumes "parsePattern regex = Inr a"
  shows "refuses_only (lowerPattern regex)"
proof -
  have "wf_node a" using parsePattern_good [of regex] assms by simp
  then have "refuses_only (compile a)" by (rule refuses_compile)
  then have "refuses_only (try_then (compile a) (\<lambda>body. Inr (body @ [IMatch])))"
    by (rule refuses_then) simp
  then show ?thesis by (simp add: lowerPattern_def assms try_then_def)
qed


section \<open>The outcome of one constraint\<close>

definition parses_or_refuses :: "jsval \<Rightarrow> bool" where
  "parses_or_refuses v = refuses_only (parsePattern (to_text (coalesce v (Str []))))"

lemma pattern_ok:
  assumes "to_text (get c ''keyword'') = js ''pattern''"
  shows "case lowerPatternConstraint opts locus c (to_text (get c ''identity'')) of
      Inl e \<Rightarrow> \<not> parses_or_refuses (get (get c ''operands'') ''regex'')
    | Inr l \<Rightarrow> outcome_ok (pattern_operand opts (get (get c ''operands'') ''regex'')) c l"
proof -
  define v where "v = get (get c ''operands'') ''regex''"
  define regex where "regex = to_text (coalesce v (Str []))"
  note defs = lowerPatternConstraint_def Let_def v_def [symmetric] regex_def [symmetric]
    pattern_operand_def parses_or_refuses_def classifyPattern_def unsupportedConstruct_def refuses_only_def
  show ?thesis
  proof (cases "parsePattern regex")
    case (Inr a)
    note good = lowerPattern_refuses [OF Inr]
    show ?thesis
    proof (cases "lowerPattern regex")
      case bad: (Inl e)
      with good obtain what offset where "e = Unsupported what offset"
        by (cases e) (simp_all add: refuses_only_def)
      then show ?thesis by (simp add: defs Inr bad refuse_ok)
    next
      case made: (Inr program)
      then show ?thesis by (simp add: defs Inr made lowered_ok assms)
    qed
  next
    case (Inl e)
    then show ?thesis
      by (cases e) (auto simp: defs intro!: refuse_ok lowered_ok assms split: option.splits)
  qed
qed

lemma enum_ok:
  assumes "to_text (get c ''keyword'') = js ''enumValues''"
  shows "outcome_ok (list_all (enum_admits (su_scalar subj)) (list_of (get (get c ''operands'') ''values''))) c
     (lowerEnumValues locus c (to_text (get c ''identity'')) subj)"
proof -
  define vs where "vs = list_of (get (get c ''operands'') ''values'')"
  have "filter (\<lambda>v. \<not> enum_admits (su_scalar subj) v) vs = [] \<longleftrightarrow> list_all (enum_admits (su_scalar subj)) vs"
    by (auto simp: filter_empty_conv list_all_iff)
  then show ?thesis
    by (auto simp: lowerEnumValues_def Let_def vs_def [symmetric] intro!: refuse_ok lowered_ok assms
        split: list.splits)
qed

lemma keyword_cases:
  assumes "isKeyword k"
  shows "k \<in> set BOUNDS \<or> k = js ''minLength'' \<or> k = js ''maxLength'' \<or> k = js ''pattern'' \<or>
     k = js ''enumValues'' \<or> k = js ''nonEmpty'' \<or> k = js ''unique'' \<or> k = js ''format''"
  using assms by (auto simp: isKeyword_def KEYWORD_APPLICABILITY_def BOUNDS_def split: if_splits)

lemma bounds_are: "k \<in> set BOUNDS \<longleftrightarrow> k \<in> js ` {''min'', ''max'', ''exclusiveMin'', ''exclusiveMax''}"
  by (simp add: BOUNDS_def)

lemma lowerOne_ok:
  assumes "isKeyword (to_text (get c ''keyword''))"
  shows "case lowerOne opts locus c (to_text (get c ''keyword'')) (to_text (get c ''identity'')) subj of
      Inl e \<Rightarrow> to_text (get c ''keyword'') = js ''pattern'' \<and>
        \<not> parses_or_refuses (get (get c ''operands'') ''regex'')
    | Inr l \<Rightarrow> outcome_ok
        (operand_accepted opts (to_text (get c ''keyword'')) subj (get c ''operands'')) c l"
proof (cases "to_text (get c ''keyword'') = js ''pattern''")
  case True
  from pattern_ok [OF this, of opts locus] show ?thesis
    by (auto simp: lowerOne_def operand_accepted_def Let_def bounds_are True split: sum.splits)
next
  case False
  then show ?thesis
    using keyword_cases [OF assms] lowerBound_ok [of _ c _ subj locus] enum_ok [of c subj locus]
    by (auto simp: lowerOne_def operand_accepted_def Let_def bounds_are FORMAT_REGISTRY_def
        intro!: refuse_ok lowered_ok made_ok)
qed


definition identity_and_keyword :: "jsval \<Rightarrow> jsstr \<times> jsstr" where
  "identity_and_keyword c = (to_text (get c ''identity''), to_text (get c ''keyword''))"

text \<open>The parser throws a \<open>TypeError\<close> on the pattern of the constraint.\<close>

definition crashing_pattern :: "jsval \<Rightarrow> bool" where
  "crashing_pattern c \<longleftrightarrow> to_text (get c ''keyword'') = js ''pattern'' \<and>
     parsePattern (to_text (coalesce (get (get c ''operands'') ''regex'') (Str []))) = Inl PatternTypeError"

lemma crashing_iff:
  "\<not> parses_or_refuses v \<Longrightarrow> parsePattern (to_text (coalesce v (Str []))) = Inl PatternTypeError"
  using parsePattern_good [of "to_text (coalesce v (Str []))"]
  by (auto simp: parses_or_refuses_def refuses_only_def split: sum.splits pattern_error.splits)

lemma lower_constraint_ok:
  "case lower_constraint opts locus resolved c of
     Inl e \<Rightarrow> crashing_pattern c
   | Inr l \<Rightarrow> outcome_ok (constraint_accepted opts resolved c) c l"
proof (cases "isKeyword (to_text (get c ''keyword''))")
  case False
  then show ?thesis
    by (auto simp: lower_constraint_def constraint_accepted_def Let_def applies_def refuse_ok
        split: option.splits)
next
  case True
  show ?thesis
  proof (cases resolved)
    case None
    with True show ?thesis
      by (simp add: lower_constraint_def constraint_accepted_def Let_def refuse_ok)
  next
    case (Some subj)
    define k where "k = to_text (get c ''keyword'')"
    have dur: "(case su_scalar subj of None \<Rightarrow> False | Some s \<Rightarrow> s \<in> set UNORDERED) \<longleftrightarrow>
        su_scalar subj = Some (js ''duration'')"
      by (simp add: UNORDERED_def split: option.splits)
    show ?thesis
    proof (cases "k \<in> set BOUNDS \<and> su_scalar subj = Some (js ''duration'') \<or>
        \<not> applies k (su_kind subj) (su_scalar subj)")
      case True: True
      then show ?thesis
        using \<open>isKeyword (to_text (get c ''keyword''))\<close>
        by (auto simp: lower_constraint_def constraint_accepted_def Let_def Some dur k_def refuse_ok)
    next
      case False
      then have "lower_constraint opts locus resolved c =
          lowerOne opts locus c k (to_text (get c ''identity'')) subj"
        using True by (auto simp: lower_constraint_def Let_def Some dur k_def)
      moreover have "constraint_accepted opts resolved c =
          operand_accepted opts k subj (get c ''operands'')"
        using False by (auto simp: constraint_accepted_def Let_def Some k_def)
      ultimately show ?thesis
        using lowerOne_ok [OF True, where opts = opts and locus = locus and subj = subj]
        by (auto simp: k_def crashing_pattern_def dest!: crashing_iff split: sum.splits)
    qed
  qed
qed

lemma lower_all_ok:
  "case lower_all opts locus resolved cs (checks, diags) of
     Inl e \<Rightarrow> list_ex crashing_pattern cs
   | Inr (checks', diags') \<Rightarrow>
       (\<exists>made raised. checks' = checks @ made \<and> diags' = diags @ raised \<and>
          map (\<lambda>k. (ck_identity k, ck_keyword k)) made =
            map identity_and_keyword (filter (constraint_accepted opts resolved) cs) \<and>
          length raised = length (filter (\<lambda>c. \<not> constraint_accepted opts resolved c) cs) \<and>
          list_all d_blocking raised)"
proof (induction cs arbitrary: checks diags)
  case (Cons c cs)
  show ?case
  proof (cases "lower_constraint opts locus resolved c")
    case (Inl e)
    then show ?thesis using lower_constraint_ok [where opts = opts and locus = locus and resolved = resolved and c = c] by simp
  next
    case (Inr l)
    obtain made raised where l: "l = (made, raised)" by (cases l)
    have o: "outcome_ok (constraint_accepted opts resolved c) c (made, raised)"
      using lower_constraint_ok [where opts = opts and locus = locus and resolved = resolved and c = c] by (simp add: Inr l)
    define checks1 where "checks1 = (case made of None \<Rightarrow> checks | Some k \<Rightarrow> checks @ [k])"
    have step: "lower_all opts locus resolved (c # cs) (checks, diags) =
        lower_all opts locus resolved cs (checks1, diags @ raised)"
      by (simp add: Inr l checks1_def)
    show ?thesis
    proof (cases "lower_all opts locus resolved cs (checks1, diags @ raised)")
      case stop: (Inl e)
      then show ?thesis
        using Cons.IH [where checks = checks1 and diags = "diags @ raised"] unfolding step by simp
    next
      case (Inr r)
      obtain checks' diags' where r: "r = (checks', diags')" by (cases r)
      from Cons.IH [where checks = checks1 and diags = "diags @ raised"] obtain made' raised' where
        ih: "checks' = checks1 @ made'" "diags' = (diags @ raised) @ raised'"
        "map (\<lambda>k. (ck_identity k, ck_keyword k)) made' =
          map identity_and_keyword (filter (constraint_accepted opts resolved) cs)"
        "length raised' = length (filter (\<lambda>c. \<not> constraint_accepted opts resolved c) cs)"
        "list_all d_blocking raised'"
        by (auto simp: Inr r)
      define new where "new = (case made of None \<Rightarrow> [] | Some k \<Rightarrow> [k])"
      have "checks' = checks @ (new @ made')" "diags' = diags @ (raised @ raised')"
        using ih(1,2) by (auto simp: checks1_def new_def split: option.splits)
      moreover have "map (\<lambda>k. (ck_identity k, ck_keyword k)) (new @ made') =
          map identity_and_keyword (filter (constraint_accepted opts resolved) (c # cs)) \<and>
        length (raised @ raised') = length (filter (\<lambda>c. \<not> constraint_accepted opts resolved c) (c # cs)) \<and>
        list_all d_blocking (raised @ raised')"
        using o ih(3-5)
        by (auto simp: outcome_ok_def new_def identity_and_keyword_def split: if_splits option.splits)
      ultimately show ?thesis by (simp only: step Inr r sum.case prod.case) blast
    qed
  qed
qed simp

text \<open>
  C33. No constraint of a type is dropped: when \<open>lowerConstraints\<close> returns, the accepted ones have each
  become one check, in order and under their own identity and keyword, and every other one has raised
  one blocking diagnostic. A constraint is accepted exactly when its keyword applies to the resolved
  subject, it is no bound on a duration, and its operand passes the rule of the code for its keyword
  and subject. It fails to return only on a pattern the parser crashes on. (The rule for a bound on a
  decimal takes every string; the canonical decimal string that FR-057 and FR-144 ask for is not
  checked here but by the reader before.)
\<close>
theorem lowerConstraints_exact:
  "case lowerConstraints opts d resolved of
     Inl e \<Rightarrow> list_ex crashing_pattern (list_of (get d ''constraints''))
   | Inr (checks, diags) \<Rightarrow>
       map (\<lambda>k. (ck_identity k, ck_keyword k)) checks =
         map identity_and_keyword
           (filter (constraint_accepted opts resolved) (list_of (get d ''constraints''))) \<and>
       length diags =
         length (filter (\<lambda>c. \<not> constraint_accepted opts resolved c) (list_of (get d ''constraints''))) \<and>
       list_all d_blocking diags"
proof -
  obtain locus where "lowerConstraints opts d resolved =
      lower_all opts locus resolved (list_of (get d ''constraints'')) ([], [])"
    by (auto simp: lowerConstraints_def Let_def)
  then show ?thesis
    using lower_all_ok [where opts = opts and locus = locus and resolved = resolved and
        cs = "list_of (get d ''constraints'')" and checks = "[]" and diags = "[]"]
    by (auto split: sum.splits)
qed

section \<open>The reader and the backend agree on bounds\<close>

definition numeric_subject :: "jsstr \<Rightarrow> bool" where
  "numeric_subject s \<longleftrightarrow> s \<in> js ` {''integer'', ''number'', ''decimal'', ''float32'', ''float64''}"

text \<open>A constraint with one operand, and a scalar subject.\<close>

definition bound_on :: "jsval \<Rightarrow> jsval" where
  "bound_on v = Obj [(js ''operands'', Obj [(js ''value'', v)])]"

definition scalar_subject :: "jsstr \<Rightarrow> constraint_subject" where
  "scalar_subject s = \<lparr>su_kind = js ''scalar'', su_scalar = Some s\<rparr>"

lemma bound_on_value [simp]: "get (get (bound_on v) ''operands'') ''value'' = v"
  by (simp add: bound_on_def)

lemma admitted_operand:
  assumes "numeric_subject s"
  shows "operandAdmitted True (Some s) v policy \<longrightarrow> bound_operand (Some s) v"
    and "s \<noteq> js ''decimal'' \<Longrightarrow> bound_operand (Some s) v \<longrightarrow> operandAdmitted True (Some s) v policy"
  using assms
  by (cases v; auto simp: numeric_subject_def operandAdmitted_def bound_operand_def is_scalar_def
      float_scalar_def decimalAdmitted_def)+

lemma numeric_bound_form:
  assumes "numeric_subject s" and "bound_operand (Some s) v"
  shows "\<exists>form. form \<in> {NumericCheck s v, DecimalCheck s v} \<and>
    lowerBound locus (bound_on v) keyword ident (scalar_subject s) =
      (Some \<lparr>ck_identity = ident, ck_keyword = keyword, ck_form = form\<rparr>, [])"
proof -
  have i: "integerAdmitted v \<Longrightarrow> is_string v \<and> bound_fits (to_text v)"
    by (simp only: bound_fits_admitted)
  have f: "floatAdmitted single v \<Longrightarrow> finite_number v \<and> (single \<longrightarrow> num_eq (fround (to_number v)) (to_number v))"
    for single by (simp only: float_admitted)
  from assms(1) consider "s = js ''integer''" | "s = js ''decimal''"
    | "s \<in> {js ''number'', js ''float64''}" | "s = js ''float32''"
    by (auto simp: numeric_subject_def)
  then show ?thesis
  proof cases
    case 1
    with assms(2) i have "lowerBound locus (bound_on v) keyword ident (scalar_subject s) =
        (Some \<lparr>ck_identity = ident, ck_keyword = keyword, ck_form = NumericCheck s v\<rparr>, [])"
      by (simp add: lowerBound_def Let_def scalar_subject_def bound_operand_def scalar_name_def)
    then show ?thesis by blast
  next
    case 2
    with assms(2) have "lowerBound locus (bound_on v) keyword ident (scalar_subject s) =
        (Some \<lparr>ck_identity = ident, ck_keyword = keyword, ck_form = DecimalCheck s v\<rparr>, [])"
      by (simp add: lowerBound_def Let_def scalar_subject_def bound_operand_def scalar_name_def
          float_scalar_def)
    then show ?thesis by blast
  next
    case 3
    then have s: "s \<noteq> js ''integer''" "s \<noteq> js ''float32''" "float_scalar (Some s)"
      by (auto simp: float_scalar_def)
    with assms(2) have "finite_number v"
      using f [of False] by (simp add: bound_operand_def)
    with s have "lowerBound locus (bound_on v) keyword ident (scalar_subject s) =
        (Some \<lparr>ck_identity = ident, ck_keyword = keyword, ck_form = NumericCheck s v\<rparr>, [])"
      by (simp add: lowerBound_def Let_def scalar_subject_def scalar_name_def)
    then show ?thesis by blast
  next
    case 4
    then have s: "float_scalar (Some s)" by (simp add: float_scalar_def)
    with 4 assms(2) have "finite_number v" "num_eq (fround (to_number v)) (to_number v)"
      using f [of True] by (simp_all add: bound_operand_def)
    with s 4 have "lowerBound locus (bound_on v) keyword ident (scalar_subject s) =
        (Some \<lparr>ck_identity = ident, ck_keyword = keyword, ck_form = NumericCheck s v\<rparr>, [])"
      by (simp add: lowerBound_def Let_def scalar_subject_def scalar_name_def)
    then show ?thesis by blast
  qed
qed

text \<open>
  C34. A bound on a numeric subject that the reader of the IR admits is never refused by the Rust
  backend: it becomes a check that carries the operand as written. Off the decimals, whose texts the
  backend takes as the reader left them, the backend also refuses every operand the reader refuses,
  with a blocking diagnostic.
\<close>
theorem admitted_bounds_lower:
  assumes "numeric_subject s" and "keyword \<in> set BOUNDS"
  shows "if operandAdmitted True (Some s) v policy
    then \<exists>form. form \<in> {NumericCheck s v, DecimalCheck s v} \<and>
       lowerOne opts locus (bound_on v) keyword ident (scalar_subject s) =
         Inr (Some \<lparr>ck_identity = ident, ck_keyword = keyword, ck_form = form\<rparr>, [])
    else s = js ''decimal'' \<or>
      (\<exists>d. lowerOne opts locus (bound_on v) keyword ident (scalar_subject s) = Inr (None, [d]) \<and>
         d_blocking d)"
proof -
  have l: "lowerOne opts locus c keyword ident subj = Inr (lowerBound locus c keyword ident subj)" for c subj
    using assms(2) by (simp add: lowerOne_def)
  show ?thesis
  proof (cases "bound_operand (Some s) v")
    case True
    from numeric_bound_form [OF assms(1) True] obtain form where
      "form \<in> {NumericCheck s v, DecimalCheck s v}"
      "lowerOne opts locus (bound_on v) keyword ident (scalar_subject s) =
         Inr (Some \<lparr>ck_identity = ident, ck_keyword = keyword, ck_form = form\<rparr>, [])"
      unfolding l by blast
    moreover have "operandAdmitted True (Some s) v policy \<or> s = js ''decimal''"
      using admitted_operand(2) [OF assms(1), of v policy] True by blast
    ultimately show ?thesis by metis
  next
    case False
    define c where "c = Obj [(js ''identity'', Str ident), (js ''keyword'', Str keyword),
        (js ''operands'', Obj [(js ''value'', v)])]"
    define r where "r = lowerBound locus (bound_on v) keyword ident (scalar_subject s)"
    have v: "get (get c ''operands'') ''value'' = v" by (simp add: c_def)
    have k: "keyword = to_text (get c ''keyword'')" "ident = to_text (get c ''identity'')"
      by (simp_all add: c_def)
    have r: "lowerBound locus c keyword ident (scalar_subject s) = r"
      unfolding r_def lowerBound_def v bound_on_value ..
    have "su_scalar (scalar_subject s) = Some s" by (simp add: scalar_subject_def)
    then have "bound_operand (su_scalar (scalar_subject s)) (get (get c ''operands'') ''value'') = False"
      using False by (simp only: v)
    with lowerBound_ok [OF k, of "scalar_subject s" locus] have "outcome_ok False c r"
      by (simp only: r)
    then obtain d where "r = (None, [d])" "d_blocking d"
      unfolding outcome_ok_def by (cases r) (auto simp: length_Suc_conv)
    then have "lowerOne opts locus (bound_on v) keyword ident (scalar_subject s) = Inr (None, [d])"
      by (simp only: l r_def)
    moreover have "\<not> operandAdmitted True (Some s) v policy"
      using admitted_operand(1) [OF assms(1)] False by blast
    ultimately show ?thesis using \<open>d_blocking d\<close> by metis
  qed
qed

theorem admitted_bounds_lower_witness:
  "operandAdmitted True (Some (js ''integer'')) (Str (js ''12'')) Undefined \<and>
   (\<exists>form. form \<in> {NumericCheck (js ''integer'') (Str (js ''12'')), DecimalCheck (js ''integer'') (Str (js ''12''))} \<and>
      lowerOne \<lparr>lo_entries = [], lo_programName = (\<lambda>_. Undefined)\<rparr> None (bound_on (Str (js ''12'')))
        (js ''min'') [] (scalar_subject (js ''integer'')) =
      Inr (Some \<lparr>ck_identity = [], ck_keyword = js ''min'', ck_form = form\<rparr>, []))"
proof -
  have a: "operandAdmitted True (Some (js ''integer'')) (Str (js ''12'')) Undefined" by code_simp
  have s: "numeric_subject (js ''integer'')" by (simp add: numeric_subject_def)
  have k: "js ''min'' \<in> set BOUNDS" by (simp add: BOUNDS_def)
  from admitted_bounds_lower [OF s k, where v = "Str (js ''12'')" and policy = Undefined and locus = None
      and opts = "\<lparr>lo_entries = [], lo_programName = (\<lambda>_. Undefined)\<rparr>" and ident = "[]"]
  show ?thesis by (simp only: a if_True simp_thms)
qed

end
