(* ===== verification/Tarjan.thy ===== *)
theory Tarjan
  imports Prelude
begin

text \<open>
  \<open>components\<close> of \<open>src/src/compiler/backends/rust-serde/graph.mjs\<close>: the strong components of a
  graph by Tarjan's algorithm with an explicit stack of call_frames. The maps \<open>index\<close> and \<open>low\<close> are only
  read at a key, so they are maps; a stack is a list with its top at the head. The fuel of the
  \<open>while\<close> loop is the number of nodes and edges, and \<open>tarjan_groups\<close> shows that it never runs out
  and that the groups found are the strong components.
\<close>

section \<open>The algorithm\<close>

record 'n tarjan =
  ta_index :: "'n \<rightharpoonup> nat"
  ta_low :: "'n \<rightharpoonup> nat"
  ta_onStack :: "'n set"
  ta_stack :: "'n list"
  ta_found :: "'n list list"
  ta_counter :: nat

type_synonym 'n call_frames = "('n \<times> nat) list"

text \<open>\<open>index.set\<close>, \<open>low.set\<close>, the counter, \<open>stack.push\<close> and \<open>onStack.add\<close> of a new node.\<close>

definition visit :: "'n \<Rightarrow> 'n tarjan \<Rightarrow> 'n tarjan" where
  "visit v st =
     st\<lparr>ta_index := (ta_index st)(v \<mapsto> ta_counter st), ta_low := (ta_low st)(v \<mapsto> ta_counter st),
        ta_onStack := insert v (ta_onStack st), ta_stack := v # ta_stack st,
        ta_counter := Suc (ta_counter st)\<rparr>"

definition discovery_of :: "'n tarjan \<Rightarrow> 'n \<Rightarrow> nat" where
  "discovery_of st v = the (ta_index st v)"

definition low_of :: "'n tarjan \<Rightarrow> 'n \<Rightarrow> nat" where
  "low_of st v = the (ta_low st v)"

definition lower :: "'n \<Rightarrow> nat \<Rightarrow> 'n tarjan \<Rightarrow> 'n tarjan" where
  "lower v n st = st\<lparr>ta_low := (ta_low st)(v \<mapsto> min (low_of st v) n)\<rparr>"

text \<open>The inner \<open>for (;;)\<close>: it pops up to the node, and never ends when the node is not there.\<close>

fun pop_group :: "'n \<Rightarrow> 'n list \<Rightarrow> ('n list \<times> 'n list) option" where
  "pop_group v [] = None"
| "pop_group v (x # xs) =
     (if x = v then Some ([x], xs)
      else (case pop_group v xs of None \<Rightarrow> None | Some (g, rest) \<Rightarrow> Some (x # g, rest)))"

definition close_group :: "'n \<Rightarrow> 'n tarjan \<Rightarrow> 'n tarjan option" where
  "close_group v st =
     (if low_of st v = discovery_of st v
      then (case pop_group v (ta_stack st) of
          None \<Rightarrow> None
        | Some (g, rest) \<Rightarrow>
            Some (st\<lparr>ta_stack := rest, ta_onStack := ta_onStack st - set g, ta_found := ta_found st @ [g]\<rparr>))
      else Some st)"

text \<open>One round of the \<open>while\<close> loop.\<close>

definition tarjan_step ::
  "('n \<Rightarrow> 'n list) \<Rightarrow> 'n \<Rightarrow> nat \<Rightarrow> 'n call_frames \<Rightarrow> 'n tarjan \<Rightarrow> ('n call_frames \<times> 'n tarjan) option" where
  "tarjan_step out v i rest st =
     (if i < length (out v) then
        (let target = out v ! i
         in if ta_index st target = None then Some ((target, 0) # (v, Suc i) # rest, visit target st)
            else if target \<in> ta_onStack st
              then Some ((v, Suc i) # rest, lower v (discovery_of st target) st)
            else Some ((v, Suc i) # rest, st))
      else
        (let st = (case rest of [] \<Rightarrow> st | (parent, _) # _ \<Rightarrow> lower parent (low_of st v) st)
         in case close_group v st of None \<Rightarrow> None | Some st \<Rightarrow> Some (rest, st)))"

fun tarjan_loop :: "nat \<Rightarrow> ('n \<Rightarrow> 'n list) \<Rightarrow> 'n call_frames \<Rightarrow> 'n tarjan \<Rightarrow> 'n tarjan option" where
  "tarjan_loop fuel out [] st = Some st"
| "tarjan_loop fuel out ((v, i) # rest) st =
     (case fuel of
        0 \<Rightarrow> None
      | Suc f \<Rightarrow>
          (case tarjan_step out v i rest st of
             None \<Rightarrow> None
           | Some (work, st) \<Rightarrow> tarjan_loop f out work st))"

declare tarjan_loop.simps(2) [simp del]

fun tarjan_roots :: "nat \<Rightarrow> ('n \<Rightarrow> 'n list) \<Rightarrow> 'n list \<Rightarrow> 'n tarjan \<Rightarrow> 'n tarjan option" where
  "tarjan_roots fuel out [] st = Some st"
| "tarjan_roots fuel out (r # rs) st =
     (if ta_index st r \<noteq> None then tarjan_roots fuel out rs st
      else (case tarjan_loop fuel out [(r, 0)] (visit r st) of
          None \<Rightarrow> None
        | Some st \<Rightarrow> tarjan_roots fuel out rs st))"

definition tarjan_start :: "'n tarjan" where
  "tarjan_start =
     \<lparr>ta_index = Map.empty, ta_low = Map.empty, ta_onStack = {}, ta_stack = [], ta_found = [],
      ta_counter = 0\<rparr>"

definition tarjan_fuel :: "('n \<Rightarrow> 'n list) \<Rightarrow> 'n list \<Rightarrow> nat" where
  "tarjan_fuel out nodes = (\<Sum>v\<leftarrow>nodes. Suc (length (out v)))"

section \<open>The invariant\<close>

definition edges_of :: "('n \<Rightarrow> 'n list) \<Rightarrow> 'n set \<Rightarrow> ('n \<times> 'n) set" where
  "edges_of out N = {(u, v). u \<in> N \<and> v \<in> set (out u)}"

definition strong :: "('n \<times> 'n) set \<Rightarrow> 'n \<Rightarrow> 'n set" where
  "strong E v = {w. (v, w) \<in> E\<^sup>* \<and> (w, v) \<in> E\<^sup>*}"

definition in_groups :: "'n tarjan \<Rightarrow> 'n set" where
  "in_groups st = \<Union> (set ` set (ta_found st))"

text \<open>The successors of a node that its frame has gone past; all of them off the frames.\<close>

definition explored :: "('n \<Rightarrow> 'n list) \<Rightarrow> 'n call_frames \<Rightarrow> 'n \<Rightarrow> 'n set" where
  "explored out work x = set (case map_of work x of Some i \<Rightarrow> take i (out x) | None \<Rightarrow> out x)"

text \<open>The stacks: the discovered nodes are on the stack or settled, both stacks are in the order of
  discovery, and the call_frames are on the stack.\<close>

definition stacks_ok :: "'n set \<Rightarrow> 'n call_frames \<Rightarrow> 'n tarjan \<Rightarrow> bool" where
  "stacks_ok N work st \<longleftrightarrow>
     ta_onStack st = set (ta_stack st) \<and>
     dom (ta_index st) = set (ta_stack st) \<union> in_groups st \<and>
     set (ta_stack st) \<inter> in_groups st = {} \<and>
     dom (ta_index st) \<subseteq> N \<and>
     sorted_wrt (\<lambda>x y. discovery_of st y < discovery_of st x) (ta_stack st) \<and>
     (\<forall>x \<in> dom (ta_index st). discovery_of st x < ta_counter st) \<and>
     sorted_wrt (\<lambda>x y. discovery_of st y < discovery_of st x) (map fst work) \<and>
     set (map fst work) \<subseteq> set (ta_stack st)"

text \<open>What has been explored has been discovered; what is settled is closed and in components.\<close>

definition settled_ok :: "('n \<Rightarrow> 'n list) \<Rightarrow> 'n set \<Rightarrow> 'n call_frames \<Rightarrow> 'n tarjan \<Rightarrow> bool" where
  "settled_ok out N work st \<longleftrightarrow>
     (\<forall>x \<in> dom (ta_index st). explored out work x \<subseteq> dom (ta_index st)) \<and>
     (\<forall>x \<in> in_groups st. set (out x) \<subseteq> in_groups st) \<and>
     (\<forall>g \<in> set (ta_found st). \<forall>x \<in> set g. strong (edges_of out N) x = set g)"

text \<open>A frame reaches everything above it; a stacked node off the frames reaches an older one.\<close>

definition paths_ok :: "('n \<Rightarrow> 'n list) \<Rightarrow> 'n set \<Rightarrow> 'n call_frames \<Rightarrow> 'n tarjan \<Rightarrow> bool" where
  "paths_ok out N work st \<longleftrightarrow>
     (\<forall>x \<in> set (ta_stack st) - set (map fst work).
        \<exists>y \<in> set (ta_stack st). discovery_of st y < discovery_of st x \<and> (x, y) \<in> (edges_of out N)\<^sup>*) \<and>
     (\<forall>p \<in> set (map fst work). \<forall>x \<in> set (ta_stack st). discovery_of st p \<le> discovery_of st x \<longrightarrow>
        (p, x) \<in> (edges_of out N)\<^sup>*)"

text \<open>The frame a stacked node belongs to: the newest one that is not newer than the node.\<close>

definition governs :: "'n call_frames \<Rightarrow> 'n tarjan \<Rightarrow> 'n \<Rightarrow> 'n \<Rightarrow> bool" where
  "governs work st p x \<longleftrightarrow> p \<in> set (map fst work) \<and> discovery_of st p \<le> discovery_of st x \<and>
     (\<forall>q \<in> set (map fst work). discovery_of st q \<le> discovery_of st x \<longrightarrow> discovery_of st q \<le> discovery_of st p)"

text \<open>The low number of a frame is a reachable stacked node, at or below it, and no explored edge of
  its nodes goes to a stacked node below that.\<close>

definition lows_ok :: "('n \<Rightarrow> 'n list) \<Rightarrow> 'n set \<Rightarrow> 'n call_frames \<Rightarrow> 'n tarjan \<Rightarrow> bool" where
  "lows_ok out N work st \<longleftrightarrow>
     (\<forall>p \<in> set (map fst work). low_of st p \<le> discovery_of st p \<and>
        (\<exists>y \<in> set (ta_stack st). low_of st p = discovery_of st y \<and> (p, y) \<in> (edges_of out N)\<^sup>*)) \<and>
     (\<forall>p x y. governs work st p x \<longrightarrow> x \<in> set (ta_stack st) \<longrightarrow> y \<in> explored out work x \<longrightarrow>
        y \<in> set (ta_stack st) \<longrightarrow> low_of st p \<le> discovery_of st y)"

definition tarjan_inv :: "('n \<Rightarrow> 'n list) \<Rightarrow> 'n set \<Rightarrow> 'n call_frames \<Rightarrow> 'n tarjan \<Rightarrow> bool" where
  "tarjan_inv out N work st \<longleftrightarrow>
     stacks_ok N work st \<and> settled_ok out N work st \<and> paths_ok out N work st \<and> lows_ok out N work st"

section \<open>Exploring an edge\<close>

definition same_but_low :: "'n tarjan \<Rightarrow> 'n tarjan \<Rightarrow> bool" where
  "same_but_low st st' \<longleftrightarrow>
     ta_index st' = ta_index st \<and> ta_onStack st' = ta_onStack st \<and> ta_stack st' = ta_stack st \<and>
     ta_found st' = ta_found st \<and> ta_counter st' = ta_counter st"

lemma same_index: "same_but_low st st' \<Longrightarrow> discovery_of st' = discovery_of st"
  by (simp add: same_but_low_def discovery_of_def fun_eq_iff)

lemma same_settled: "same_but_low st st' \<Longrightarrow> in_groups st' = in_groups st"
  by (simp add: same_but_low_def in_groups_def)

lemma lower_same [simp]: "same_but_low st (lower v n st)"
  by (simp add: same_but_low_def lower_def)

lemma same_refl [simp]: "same_but_low st st"
  by (simp add: same_but_low_def)

lemma low_lower [simp]: "low_of (lower v n st) p = (if p = v then min (low_of st v) n else low_of st p)"
  by (simp add: low_of_def lower_def)

lemma descending_distinct: "sorted_wrt (\<lambda>x y. f y < (f x :: nat)) xs \<Longrightarrow> distinct xs"
  by (induction xs) auto

lemma work_top:
  assumes "stacks_ok N ((v, i) # rest) st"
  shows "v \<in> set (ta_stack st)" and "v \<notin> set (map fst rest)"
    and "\<And>q. q \<in> set (map fst rest) \<Longrightarrow> discovery_of st q < discovery_of st v"
  using assms by (auto simp: stacks_ok_def)

lemma governs_top:
  assumes "stacks_ok N ((v, i) # rest) st" and "governs ((v, j) # rest) st p x"
    and "discovery_of st v \<le> discovery_of st x"
  shows "p = v"
  using assms(2,3) work_top(3) [OF assms(1), of p] by (auto simp: governs_def)

lemma explored_step:
  "i < length (out v) \<Longrightarrow> explored out ((v, Suc i) # rest) x =
     (if x = v then insert (out v ! i) (explored out ((v, i) # rest) x)
      else explored out ((v, i) # rest) x)"
  by (simp add: explored_def take_Suc_conv_app_nth)

lemma explored_successors: "explored out work x \<subseteq> set (out x)"
  by (auto simp: explored_def dest: in_set_takeD split: option.splits)

lemma edges_of_nth: "v \<in> N \<Longrightarrow> i < length (out v) \<Longrightarrow> (v, out v ! i) \<in> (edges_of out N)\<^sup>*"
  by (rule r_into_rtrancl) (simp add: edges_of_def)

lemma explore_inv:
  assumes inv: "tarjan_inv out N ((v, i) # rest) st" and i: "i < length (out v)"
    and y: "out v ! i \<in> dom (ta_index st)" and s: "same_but_low st st'"
    and low: "\<And>p. low_of st' p = (if p = v then m else low_of st p)"
    and m: "m \<le> low_of st v"
      "m = low_of st v \<or> out v ! i \<in> set (ta_stack st) \<and> m = discovery_of st (out v ! i)"
      "out v ! i \<in> set (ta_stack st) \<Longrightarrow> m \<le> discovery_of st (out v ! i)"
  shows "tarjan_inv out N ((v, Suc i) # rest) st'"
proof -
  note f = same_index [OF s] same_settled [OF s]
  have eq: "ta_index st' = ta_index st" "ta_onStack st' = ta_onStack st" "ta_stack st' = ta_stack st"
    "ta_found st' = ta_found st" "ta_counter st' = ta_counter st"
    using s by (simp_all add: same_but_low_def)
  have st: "stacks_ok N ((v, i) # rest) st" and se: "settled_ok out N ((v, i) # rest) st"
    and pa: "paths_ok out N ((v, i) # rest) st" and lo: "lows_ok out N ((v, i) # rest) st"
    using inv by (simp_all add: tarjan_inv_def)
  have v: "v \<in> set (ta_stack st)" by (rule work_top(1) [OF st])
  then have vN: "v \<in> N" using st by (auto simp: stacks_ok_def)
  have "stacks_ok N ((v, Suc i) # rest) st'"
    using st unfolding stacks_ok_def f eq list.map fst_conv .
  moreover have "settled_ok out N ((v, Suc i) # rest) st'"
    using se y i by (auto simp: settled_ok_def f eq explored_step)
  moreover have "paths_ok out N ((v, Suc i) # rest) st'"
    using pa by (simp add: paths_ok_def f eq)
  moreover have "lows_ok out N ((v, Suc i) # rest) st'"
  proof -
    have gov: "governs ((v, Suc i) # rest) st' p x \<longleftrightarrow> governs ((v, i) # rest) st p x" for p x
      by (simp add: governs_def f)
    have "low_of st' p \<le> discovery_of st p \<and>
        (\<exists>y \<in> set (ta_stack st). low_of st' p = discovery_of st y \<and> (p, y) \<in> (edges_of out N)\<^sup>*)"
      if p: "p \<in> insert v (set (map fst rest))" for p
    proof -
      have old: "low_of st p \<le> discovery_of st p"
        "\<exists>y \<in> set (ta_stack st). low_of st p = discovery_of st y \<and> (p, y) \<in> (edges_of out N)\<^sup>*"
        using lo p by (auto simp: lows_ok_def)
      show ?thesis
      proof (cases "p = v \<and> m \<noteq> low_of st v")
        case True
        then have "out v ! i \<in> set (ta_stack st)" "m = discovery_of st (out v ! i)" using m(2) by auto
        then show ?thesis using True old(1) m(1) low edges_of_nth [of v N i out] vN i by auto
      next
        case False
        then have "low_of st' p = low_of st p" using low by auto
        then show ?thesis using old by simp
      qed
    qed
    moreover have "low_of st' p \<le> discovery_of st y"
      if g: "governs ((v, i) # rest) st p x" and x: "x \<in> set (ta_stack st)"
        and e: "y \<in> explored out ((v, Suc i) # rest) x" and ys: "y \<in> set (ta_stack st)" for p x y
    proof (cases "y \<in> explored out ((v, i) # rest) x")
      case True
      then have "low_of st p \<le> discovery_of st y" using lo g x ys unfolding lows_ok_def by blast
      then show ?thesis using low [of p] m(1) by (auto split: if_splits)
    next
      case False
      with e i have "x = v" "y = out v ! i" by (auto simp: explored_step split: if_splits)
      moreover from this have "p = v" using governs_top [OF st g] by simp
      ultimately show ?thesis using low [of p] m(3) ys by simp
    qed
    ultimately show ?thesis by (simp add: lows_ok_def gov f eq)
  qed
  ultimately show ?thesis by (simp add: tarjan_inv_def)
qed

section \<open>Discovering a node\<close>

lemma visit_simps [simp]:
  "ta_onStack (visit w st) = insert w (ta_onStack st)" "ta_stack (visit w st) = w # ta_stack st"
  "ta_found (visit w st) = ta_found st" "ta_counter (visit w st) = Suc (ta_counter st)"
  "dom (ta_index (visit w st)) = insert w (dom (ta_index st))" "in_groups (visit w st) = in_groups st"
  "discovery_of (visit w st) x = (if x = w then ta_counter st else discovery_of st x)"
  "low_of (visit w st) x = (if x = w then ta_counter st else low_of st x)"
  by (simp_all add: visit_def discovery_of_def low_of_def in_groups_def)

lemma explored_fresh: "explored out ((w, 0) # work) x = (if x = w then {} else explored out work x)"
  by (simp add: explored_def)

lemma visit_inv:
  assumes inv: "tarjan_inv out N work st" and fst: "map fst work' = map fst work"
    and ex: "\<And>x. explored out work' x \<subseteq> insert w (explored out work x)"
    and w: "w \<notin> dom (ta_index st)" "w \<in> N"
    and reach: "\<And>p. p \<in> set (map fst work) \<Longrightarrow> (p, w) \<in> (edges_of out N)\<^sup>*"
  shows "tarjan_inv out N ((w, 0) # work') (visit w st)"
proof -
  have st: "stacks_ok N work st" and se: "settled_ok out N work st"
    and pa: "paths_ok out N work st" and lo: "lows_ok out N work st"
    using inv by (simp_all add: tarjan_inv_def)
  have old: "x \<noteq> w \<and> discovery_of st x < ta_counter st" if "x \<in> set (ta_stack st)" for x
    using st w that by (auto simp: stacks_ok_def)
  have call_frames: "p \<in> set (ta_stack st)" if "p \<in> set (map fst work)" for p
    using st that unfolding stacks_ok_def by blast
  have fresh: "w \<notin> in_groups st" using st w by (auto simp: stacks_ok_def)
  have "stacks_ok N ((w, 0) # work') (visit w st)"
  proof -
    have desc: "sorted_wrt (\<lambda>x y. discovery_of (visit w st) y < discovery_of (visit w st) x) (w # xs)"
      if "sorted_wrt (\<lambda>x y. discovery_of st y < discovery_of st x) xs" and "set xs \<subseteq> set (ta_stack st)" for xs
    proof -
      have "sorted_wrt (\<lambda>x y. discovery_of (visit w st) y < discovery_of (visit w st) x) xs"
        by (rule sorted_wrt_mono_rel [OF _ that(1)]) (use that(2) old in auto)
      then show ?thesis using that(2) old by auto
    qed
    have s: "ta_onStack st = set (ta_stack st)" "dom (ta_index st) = set (ta_stack st) \<union> in_groups st"
      "set (ta_stack st) \<inter> in_groups st = {}" "dom (ta_index st) \<subseteq> N"
      "sorted_wrt (\<lambda>x y. discovery_of st y < discovery_of st x) (ta_stack st)"
      "\<And>x. x \<in> dom (ta_index st) \<Longrightarrow> discovery_of st x < ta_counter st"
      "sorted_wrt (\<lambda>x y. discovery_of st y < discovery_of st x) (map fst work)"
      "set (map fst work) \<subseteq> set (ta_stack st)"
      using st unfolding stacks_ok_def by blast+
    have idx: "\<forall>x\<in>insert w (dom (ta_index st)). discovery_of (visit w st) x < Suc (ta_counter st)"
      by (auto intro!: less_SucI s(6))
    show ?thesis
      unfolding stacks_ok_def visit_simps(1-6) list.map(2) fst_conv fst list.set(2)
    proof (intro conjI)
      show "insert w (ta_onStack st) = insert w (set (ta_stack st))" by (simp only: s(1))
      show "insert w (dom (ta_index st)) = insert w (set (ta_stack st)) \<union> in_groups st"
        by (simp only: s(2)) simp
      show "insert w (set (ta_stack st)) \<inter> in_groups st = {}" using s(3) fresh by simp
      show "insert w (dom (ta_index st)) \<subseteq> N" using s(4) w(2) by (rule insert_subsetI [rotated])
      show "insert w (set (map fst work)) \<subseteq> insert w (set (ta_stack st))"
        using s(8) by (rule insert_mono)
    qed (rule desc [OF s(5) order.refl] idx desc [OF s(7,8)])+
  qed
  moreover have "settled_ok out N ((w, 0) # work') (visit w st)"
  proof -
    have "explored out work' x \<subseteq> insert w (dom (ta_index st))" if "x \<in> dom (ta_index st)" for x
    proof -
      have "explored out work x \<subseteq> dom (ta_index st)" using se that unfolding settled_ok_def by blast
      then show ?thesis using ex [of x] by blast
    qed
    then show ?thesis
      using se unfolding settled_ok_def visit_simps(3,5,6) explored_fresh by simp
  qed
  moreover have "paths_ok out N ((w, 0) # work') (visit w st)"
  proof -
    have "\<exists>y \<in> insert w (set (ta_stack st)). discovery_of (visit w st) y < discovery_of (visit w st) x \<and>
        (x, y) \<in> (edges_of out N)\<^sup>*"
      if x: "x \<in> insert w (set (ta_stack st)) - insert w (set (map fst work))" for x
    proof -
      from pa x obtain y where "y \<in> set (ta_stack st)" "discovery_of st y < discovery_of st x"
        "(x, y) \<in> (edges_of out N)\<^sup>*" unfolding paths_ok_def by blast
      then show ?thesis using x old [of y] by auto
    qed
    moreover have "(p, x) \<in> (edges_of out N)\<^sup>*"
      if p: "p \<in> insert w (set (map fst work))" and x: "x \<in> insert w (set (ta_stack st))"
        and le: "discovery_of (visit w st) p \<le> discovery_of (visit w st) x" for p x
    proof (cases "p = w")
      case True
      then have "x = w" using x le old [of x] by auto
      with True show ?thesis by simp
    next
      case False
      then have pw: "p \<in> set (map fst work)" using p by simp
      show ?thesis
      proof (cases "x = w")
        case True
        then show ?thesis using reach [OF pw] by simp
      next
        case xw: False
        then have "x \<in> set (ta_stack st)" "discovery_of st p \<le> discovery_of st x" using x le False by simp_all
        then show ?thesis using pa pw unfolding paths_ok_def by blast
      qed
    qed
    ultimately show ?thesis
      unfolding paths_ok_def visit_simps(2) list.map(2) fst_conv fst list.set(2) by blast
  qed
  moreover have "lows_ok out N ((w, 0) # work') (visit w st)"
  proof -
    have "low_of (visit w st) p \<le> discovery_of (visit w st) p \<and>
        (\<exists>y \<in> set (w # ta_stack st). low_of (visit w st) p = discovery_of (visit w st) y \<and>
           (p, y) \<in> (edges_of out N)\<^sup>*)" if p: "p \<in> insert w (set (map fst work))" for p
    proof (cases "p = w")
      case False
      then have p: "p \<in> set (map fst work)" using p by simp
      from lo p obtain y where "low_of st p \<le> discovery_of st p" "y \<in> set (ta_stack st)"
        "low_of st p = discovery_of st y" "(p, y) \<in> (edges_of out N)\<^sup>*"
        unfolding lows_ok_def by blast
      then show ?thesis using False old [of y] by auto
    qed auto
    moreover have "low_of (visit w st) p \<le> discovery_of (visit w st) y"
      if g: "governs ((w, 0) # work') (visit w st) p x" and x: "x \<in> insert w (set (ta_stack st))"
        and e: "y \<in> explored out ((w, 0) # work') x" and ys: "y \<in> insert w (set (ta_stack st))" for p x y
    proof -
      have xw: "x \<noteq> w" and e': "y \<in> explored out work' x"
        using e by (auto simp: explored_fresh split: if_splits)
      then have xs: "x \<in> set (ta_stack st)" using x by simp
      have pw: "p \<noteq> w"
        using g xw old [OF xs] by (auto simp: governs_def)
      then have pf: "p \<in> set (map fst work)" using g by (simp add: governs_def fst)
      have g': "governs work st p x"
        using g xw pw pf call_frames old unfolding governs_def list.map fst_conv fst visit_simps(7)
        by (auto split: if_splits)
      show ?thesis
      proof (cases "y = w")
        case True
        have "low_of st p \<le> discovery_of st p" using lo pf unfolding lows_ok_def by blast
        then show ?thesis using True pw old [OF call_frames [OF pf]] by simp
      next
        case False
        then have "y \<in> explored out work x" "y \<in> set (ta_stack st)" using ex e' ys by auto
        then have "low_of st p \<le> discovery_of st y" using lo g' xs unfolding lows_ok_def by blast
        then show ?thesis using False pw by simp
      qed
    qed
    ultimately show ?thesis
      unfolding lows_ok_def visit_simps(2) list.map fst_conv fst list.set by blast
  qed
  ultimately show ?thesis by (simp add: tarjan_inv_def)
qed

section \<open>Leaving a node\<close>

definition hand_up :: "'n call_frames \<Rightarrow> nat \<Rightarrow> 'n tarjan \<Rightarrow> 'n tarjan" where
  "hand_up rest n st = (case rest of [] \<Rightarrow> st | (parent, _) # _ \<Rightarrow> lower parent n st)"

lemma hand_up_same [simp]: "same_but_low st (hand_up rest n st)"
  by (simp add: hand_up_def split: list.splits prod.splits)

lemma low_hand_up:
  "low_of (hand_up rest n st) p =
     (if rest \<noteq> [] \<and> p = fst (hd rest) then min (low_of st p) n else low_of st p)"
  by (simp add: hand_up_def split: list.splits prod.splits)

lemma explored_leave:
  assumes "v \<notin> set (map fst rest)" and "\<not> i < length (out v)"
  shows "explored out rest x = explored out ((v, i) # rest) x"
proof -
  have "map_of rest v = None" using assms(1) by (simp add: map_of_eq_None_iff)
  then show ?thesis using assms(2) by (simp add: explored_def)
qed

text \<open>The governing frame of a node above the frame left is the next one down.\<close>

lemma governs_leave:
  assumes st: "stacks_ok N ((v, i) # rest) st" and g: "governs rest st p x"
    and ge: "discovery_of st v \<le> discovery_of st x"
  shows "rest \<noteq> [] \<and> p = fst (hd rest)"
proof -
  obtain p' j rest' where rest: "rest = (p', j) # rest'"
    using g by (cases rest) (auto simp: governs_def)
  have p'v: "discovery_of st p' \<le> discovery_of st x"
    using work_top(3) [OF st, of p'] ge by (simp add: rest)
  then have "discovery_of st p' \<le> discovery_of st p" using g by (simp add: governs_def rest)
  moreover have "\<forall>q \<in> set (map fst rest'). discovery_of st q < discovery_of st p'"
    using st by (auto simp: stacks_ok_def rest)
  moreover have "p \<in> set (map fst rest)" using g by (simp add: governs_def)
  ultimately show ?thesis by (auto simp: rest)
qed

lemma governs_below:
  assumes "\<not> discovery_of st v \<le> discovery_of st x"
  shows "governs ((v, i) # rest) st p x \<longleftrightarrow> governs rest st p x"
  using assms by (auto simp: governs_def)

lemma keep_inv:
  assumes inv: "tarjan_inv out N ((v, i) # rest) st" and i: "\<not> i < length (out v)"
    and low: "low_of st v \<noteq> discovery_of st v"
  shows "tarjan_inv out N rest (hand_up rest (low_of st v) st)" (is "tarjan_inv out N rest ?st'")
proof -
  note s = hand_up_same [of st rest "low_of st v"]
  note f = same_index [OF s] same_settled [OF s]
  have eq: "ta_index ?st' = ta_index st" "ta_onStack ?st' = ta_onStack st" "ta_stack ?st' = ta_stack st"
    "ta_found ?st' = ta_found st" "ta_counter ?st' = ta_counter st"
    using s by (simp_all add: same_but_low_def)
  have st: "stacks_ok N ((v, i) # rest) st" and se: "settled_ok out N ((v, i) # rest) st"
    and pa: "paths_ok out N ((v, i) # rest) st" and lo: "lows_ok out N ((v, i) # rest) st"
    using inv by (simp_all add: tarjan_inv_def)
  note top = work_top [OF st]
  have ex: "explored out rest x = explored out ((v, i) # rest) x" for x
    by (rule explored_leave) (use top(2) i in auto)
  have old: "low_of st p \<le> discovery_of st p"
    "\<exists>y \<in> set (ta_stack st). low_of st p = discovery_of st y \<and> (p, y) \<in> (edges_of out N)\<^sup>*"
    if "p \<in> insert v (set (map fst rest))" for p
    using lo that by (auto simp: lows_ok_def)
  have reach: "(p, x) \<in> (edges_of out N)\<^sup>*"
    if "p \<in> insert v (set (map fst rest))" "x \<in> set (ta_stack st)" "discovery_of st p \<le> discovery_of st x" for p x
    using pa that by (auto simp: paths_ok_def)
  have "stacks_ok N rest ?st'"
    using st unfolding stacks_ok_def f eq by auto
  moreover have "settled_ok out N rest ?st'"
    using se unfolding settled_ok_def f eq ex by blast
  moreover have "paths_ok out N rest ?st'"
  proof -
    from old [of v] low obtain y where "y \<in> set (ta_stack st)" "discovery_of st y < discovery_of st v"
      "(v, y) \<in> (edges_of out N)\<^sup>*" by force
    moreover have "\<exists>y \<in> set (ta_stack st). discovery_of st y < discovery_of st x \<and> (x, y) \<in> (edges_of out N)\<^sup>*"
      if "x \<in> set (ta_stack st)" "x \<noteq> v" "x \<notin> set (map fst rest)" for x
      using pa that by (auto simp: paths_ok_def)
    ultimately show ?thesis using reach unfolding paths_ok_def f eq by blast
  qed
  moreover have "lows_ok out N rest ?st'"
  proof -
    have "low_of ?st' p \<le> discovery_of st p \<and>
        (\<exists>y \<in> set (ta_stack st). low_of ?st' p = discovery_of st y \<and> (p, y) \<in> (edges_of out N)\<^sup>*)"
      if p: "p \<in> set (map fst rest)" for p
    proof (cases "low_of ?st' p = low_of st p")
      case True
      then show ?thesis using old [of p] p by auto
    next
      case False
      then have l: "low_of ?st' p = low_of st v" "low_of st v \<le> low_of st p"
        by (auto simp: low_hand_up min_def split: if_splits)
      obtain y where y: "y \<in> set (ta_stack st)" "low_of st v = discovery_of st y"
        "(v, y) \<in> (edges_of out N)\<^sup>*" using old(2) [of v] by auto
      have "(p, v) \<in> (edges_of out N)\<^sup>*" using reach [of p v] p top(1) top(3) [OF p] by simp
      then have "(p, y) \<in> (edges_of out N)\<^sup>*" using y(3) by (rule rtrancl_trans)
      then show ?thesis using y l old(1) [of p] p by auto
    qed
    moreover have "low_of ?st' p \<le> discovery_of st y"
      if g: "governs rest st p x" and x: "x \<in> set (ta_stack st)"
        and e: "y \<in> explored out rest x" and ys: "y \<in> set (ta_stack st)" for p x y
    proof (cases "discovery_of st v \<le> discovery_of st x")
      case True
      have "governs ((v, i) # rest) st v x"
        using True top(3) by (auto simp: governs_def intro: less_imp_le)
      then have "low_of st v \<le> discovery_of st y" using lo x e ys unfolding lows_ok_def ex by blast
      then show ?thesis using governs_leave [OF st g True] by (simp add: low_hand_up)
    next
      case False
      then have "governs ((v, i) # rest) st p x" using g governs_below by metis
      then have "low_of st p \<le> discovery_of st y" using lo x e ys unfolding lows_ok_def ex by blast
      then show ?thesis by (auto simp: low_hand_up)
    qed
    moreover have "governs rest ?st' p x = governs rest st p x" for p x by (simp add: governs_def f)
    ultimately show ?thesis unfolding lows_ok_def f eq by blast
  qed
  ultimately show ?thesis by (simp add: tarjan_inv_def)
qed

lemma pop_group_split:
  "v \<in> set xs \<Longrightarrow> \<exists>A B. xs = A @ v # B \<and> pop_group v xs = Some (A @ [v], B)"
proof (induction xs)
  case (Cons x xs)
  show ?case
  proof (cases "x = v")
    case True
    then show ?thesis by (intro exI [of _ "[]"] exI [of _ xs]) simp
  next
    case False
    then obtain A B where "xs = A @ v # B" "pop_group v xs = Some (A @ [v], B)"
      using Cons by auto
    then show ?thesis using False by (intro exI [of _ "x # A"] exI [of _ B]) simp
  qed
qed simp

text \<open>
  The situation when the top frame is left with its low number its own: the stack is split at the
  node, and the nodes from it upwards are a strong component.
\<close>

lemma split_order:
  assumes "stacks_ok N work st" and "ta_stack st = A @ v # B"
  shows "\<forall>x \<in> set A. discovery_of st v < discovery_of st x" and "\<forall>x \<in> set B. discovery_of st x < discovery_of st v"
  using assms by (auto simp: stacks_ok_def sorted_wrt_append)

lemma group_closed:
  assumes inv: "tarjan_inv out N ((v, i) # rest) st" and i: "\<not> i < length (out v)"
    and low: "low_of st v = discovery_of st v" and split: "ta_stack st = A @ v # B"
    and x: "x \<in> set (A @ [v])"
  shows "set (out x) \<subseteq> set (A @ [v]) \<union> in_groups st"
proof
  fix y assume y: "y \<in> set (out x)"
  have st: "stacks_ok N ((v, i) # rest) st" and se: "settled_ok out N ((v, i) # rest) st"
    and lo: "lows_ok out N ((v, i) # rest) st"
    using inv by (simp_all add: tarjan_inv_def)
  note ord = split_order [OF st split]
  have xs: "x \<in> set (ta_stack st)" using x split by auto
  have ge: "discovery_of st v \<le> discovery_of st x" using x ord(1) by auto
  have "x \<notin> set (map fst rest)" using work_top(3) [OF st, of x] ge by auto
  then have "map_of rest x = None" by (simp add: map_of_eq_None_iff)
  then have e: "y \<in> explored out ((v, i) # rest) x"
    using y i by (auto simp: explored_def)
  then have "y \<in> dom (ta_index st)"
    using se st xs unfolding settled_ok_def stacks_ok_def by blast
  then have "y \<in> set (ta_stack st) \<union> in_groups st" using st by (simp add: stacks_ok_def)
  moreover have "y \<notin> set B"
  proof
    assume B: "y \<in> set B"
    have "governs ((v, i) # rest) st v x"
      using ge work_top(3) [OF st] by (auto simp: governs_def intro: less_imp_le)
    moreover have "y \<in> set (ta_stack st)" using B split by simp
    ultimately have "low_of st v \<le> discovery_of st y"
      using lo xs e unfolding lows_ok_def by blast
    then show False using ord(2) B low by auto
  qed
  ultimately show "y \<in> set (A @ [v]) \<union> in_groups st" using split by auto
qed

lemma group_strong:
  assumes inv: "tarjan_inv out N ((v, i) # rest) st" and i: "\<not> i < length (out v)"
    and low: "low_of st v = discovery_of st v" and split: "ta_stack st = A @ v # B"
    and x: "x \<in> set (A @ [v])"
  shows "strong (edges_of out N) x = set (A @ [v])"
proof -
  let ?E = "edges_of out N" and ?G = "set (A @ [v])"
  have st: "stacks_ok N ((v, i) # rest) st" and se: "settled_ok out N ((v, i) # rest) st"
    and pa: "paths_ok out N ((v, i) # rest) st"
    using inv by (simp_all add: tarjan_inv_def)
  note ord = split_order [OF st split]
  have disj: "set (ta_stack st) \<inter> in_groups st = {}" using st by (simp add: stacks_ok_def)
  have closed: "z \<in> ?G \<union> in_groups st" if "y \<in> ?G \<union> in_groups st" "(y, z) \<in> ?E\<^sup>*" for y z
    using that(2,1)
  proof (induction rule: rtrancl_induct)
    case (step a b)
    then have "b \<in> set (out a)" by (simp add: edges_of_def)
    then show ?case
      using step group_closed [OF inv i low split, of a] se unfolding settled_ok_def by blast
  qed
  have down: "(v, y) \<in> ?E\<^sup>*" if "y \<in> ?G" for y
    using pa that ord(1) split unfolding paths_ok_def by (auto intro: less_imp_le)
  have up: "(y, v) \<in> ?E\<^sup>*" if "y \<in> ?G" for y
    using that
  proof (induction "discovery_of st y" arbitrary: y rule: less_induct)
    case less
    show ?case
    proof (cases "y = v")
      case False
      then have yA: "y \<in> set A" using less.prems by simp
      then have "\<not> discovery_of st y < discovery_of st v" using ord(1) by auto
      then have "y \<notin> set (map fst ((v, i) # rest))" using work_top(3) [OF st, of y] False
        unfolding list.map fst_conv list.set by blast
      then obtain z where z: "z \<in> set (ta_stack st)" "discovery_of st z < discovery_of st y" "(y, z) \<in> ?E\<^sup>*"
        using pa yA split unfolding paths_ok_def by (metis DiffI Un_iff set_append)
      have "z \<in> ?G" using closed [of y z] less.prems z disj by blast
      then have "(z, v) \<in> ?E\<^sup>*" using less.hyps z(2) by blast
      with z(3) show ?thesis by (rule rtrancl_trans)
    qed simp
  qed
  have "y \<in> ?G" if "(x, y) \<in> ?E\<^sup>*" "(y, x) \<in> ?E\<^sup>*" for y
  proof (rule ccontr)
    assume "y \<notin> ?G"
    then have "y \<in> in_groups st" using closed [of x y] x that(1) by blast
    from that(2) this have "x \<in> in_groups st"
    proof (induction rule: rtrancl_induct)
      case (step a b)
      then show ?case using se by (auto simp: settled_ok_def edges_of_def)
    qed
    then show False using disj x split by auto
  qed
  moreover have "(x, y) \<in> ?E\<^sup>* \<and> (y, x) \<in> ?E\<^sup>*" if "y \<in> ?G" for y
    using rtrancl_trans [OF up [OF x] down [OF that]] rtrancl_trans [OF up [OF that] down [OF x]] by blast
  ultimately show ?thesis unfolding strong_def by blast
qed

lemma group_inv:
  assumes inv: "tarjan_inv out N ((v, i) # rest) st" and i: "\<not> i < length (out v)"
    and low: "low_of st v = discovery_of st v"
  shows "\<exists>st'. close_group v (hand_up rest (low_of st v) st) = Some st' \<and> tarjan_inv out N rest st'"
proof -
  define st1 where "st1 = hand_up rest (low_of st v) st"
  have s: "same_but_low st st1" by (simp add: st1_def)
  note f = same_index [OF s] same_settled [OF s]
  have eq: "ta_index st1 = ta_index st" "ta_onStack st1 = ta_onStack st" "ta_stack st1 = ta_stack st"
    "ta_found st1 = ta_found st" "ta_counter st1 = ta_counter st"
    using s by (simp_all add: same_but_low_def)
  have st: "stacks_ok N ((v, i) # rest) st" and se: "settled_ok out N ((v, i) # rest) st"
    and pa: "paths_ok out N ((v, i) # rest) st" and lo: "lows_ok out N ((v, i) # rest) st"
    using inv by (simp_all add: tarjan_inv_def)
  note top = work_top [OF st]
  have low1: "low_of st1 p = low_of st p" for p
  proof (cases "rest \<noteq> [] \<and> p = fst (hd rest)")
    case True
    then have p: "p \<in> set (map fst rest)" by (cases rest) auto
    then have "low_of st p \<le> discovery_of st p" using lo by (auto simp: lows_ok_def)
    then have "min (low_of st p) (low_of st v) = low_of st p" using top(3) [OF p] low by linarith
    then show ?thesis using True unfolding st1_def low_hand_up by metis
  next
    case False
    then show ?thesis unfolding st1_def low_hand_up by (simp only: if_False)
  qed
  obtain A B where split: "ta_stack st = A @ v # B" and pop: "pop_group v (ta_stack st) = Some (A @ [v], B)"
    using pop_group_split [OF top(1)] by blast
  note ord = split_order [OF st split]
  define st' where "st' = st1\<lparr>ta_stack := B, ta_onStack := ta_onStack st1 - set (A @ [v]),
      ta_found := ta_found st1 @ [A @ [v]]\<rparr>"
  have made: "close_group v st1 = Some st'"
    by (simp add: close_group_def low1 low f eq pop st'_def)
  have f': "discovery_of st' = discovery_of st" "low_of st' = low_of st" "in_groups st' = in_groups st \<union> set (A @ [v])"
    "ta_stack st' = B" "ta_onStack st' = ta_onStack st - set (A @ [v])" "ta_index st' = ta_index st"
    "ta_found st' = ta_found st @ [A @ [v]]" "ta_counter st' = ta_counter st"
    using low1 by (auto simp: st'_def discovery_of_def low_of_def in_groups_def eq fun_eq_iff)
  have dist: "distinct (A @ v # B)"
    using st split descending_distinct [of "discovery_of st" "ta_stack st"] by (simp add: stacks_ok_def)
  have restB: "set (map fst rest) \<subseteq> set B"
  proof
    fix p assume p: "p \<in> set (map fst rest)"
    then have "p \<in> set (ta_stack st)" using st by (auto simp: stacks_ok_def)
    then show "p \<in> set B" using top(3) [OF p] ord(1) split by auto
  qed
  have ex: "explored out rest x = explored out ((v, i) # rest) x" for x
    by (rule explored_leave) (use top(2) i in auto)
  have "stacks_ok N rest st'"
    using st restB dist unfolding stacks_ok_def f' split by (auto simp: sorted_wrt_append)
  moreover have "settled_ok out N rest st'"
  proof -
    have "set (out x) \<subseteq> in_groups st \<union> set (A @ [v])" if "x \<in> in_groups st \<union> set (A @ [v])" for x
      using that group_closed [OF inv i low split, of x] se unfolding settled_ok_def by blast
    moreover have "strong (edges_of out N) x = set (A @ [v])" if "x \<in> set (A @ [v])" for x
      by (rule group_strong [OF inv i low split that])
    ultimately show ?thesis using se unfolding settled_ok_def f' ex by simp
  qed
  moreover have "paths_ok out N rest st'"
  proof -
    have "\<exists>y \<in> set B. discovery_of st y < discovery_of st x \<and> (x, y) \<in> (edges_of out N)\<^sup>*"
      if x: "x \<in> set B" "x \<notin> set (map fst rest)" for x
    proof -
      have "x \<noteq> v" using dist x by auto
      then have "x \<in> set (ta_stack st) - set (map fst ((v, i) # rest))" using x split by simp
      then obtain y where y: "y \<in> set (ta_stack st)" "discovery_of st y < discovery_of st x"
        "(x, y) \<in> (edges_of out N)\<^sup>*" using pa unfolding paths_ok_def by blast
      moreover have "discovery_of st x < discovery_of st v" using ord(2) x by blast
      ultimately have "y \<in> set B" using ord(1) split by auto
      with y show ?thesis by blast
    qed
    moreover have "(p, x) \<in> (edges_of out N)\<^sup>*"
      if "p \<in> set (map fst rest)" "x \<in> set B" "discovery_of st p \<le> discovery_of st x" for p x
      using pa that split unfolding paths_ok_def by auto
    ultimately show ?thesis unfolding paths_ok_def f' by blast
  qed
  moreover have "lows_ok out N rest st'"
  proof -
    have "low_of st p \<le> discovery_of st p \<and>
        (\<exists>y \<in> set B. low_of st p = discovery_of st y \<and> (p, y) \<in> (edges_of out N)\<^sup>*)"
      if p: "p \<in> set (map fst rest)" for p
    proof -
      obtain y where y: "y \<in> set (ta_stack st)" "low_of st p = discovery_of st y"
        "(p, y) \<in> (edges_of out N)\<^sup>*" and le: "low_of st p \<le> discovery_of st p"
        using lo p by (auto simp: lows_ok_def)
      have "discovery_of st y < discovery_of st v" using y(2) le top(3) [OF p] by linarith
      then have "y \<in> set B" using y(1) ord(1) split by auto
      with y le show ?thesis by blast
    qed
    moreover have "low_of st p \<le> discovery_of st y"
      if g: "governs rest st' p x" and x: "x \<in> set B" and e: "y \<in> explored out rest x"
        and ys: "y \<in> set B" for p x y
    proof -
      have "governs rest st p x" using g by (simp add: governs_def f')
      then have "governs ((v, i) # rest) st p x"
        using governs_below [of st v x i rest p] ord(2) x by (simp add: not_le)
      moreover have "x \<in> set (ta_stack st)" "y \<in> set (ta_stack st)" using x ys split by simp_all
      ultimately show ?thesis using lo e unfolding lows_ok_def ex by blast
    qed
    ultimately show ?thesis unfolding lows_ok_def f' by blast
  qed
  ultimately show ?thesis using made unfolding st1_def by (auto simp: tarjan_inv_def)
qed

section \<open>The loop ends and keeps the invariant\<close>

definition work_left :: "('n \<Rightarrow> 'n list) \<Rightarrow> 'n set \<Rightarrow> 'n call_frames \<Rightarrow> 'n tarjan \<Rightarrow> nat" where
  "work_left out N work st =
     (\<Sum>(v, i)\<leftarrow>work. Suc (length (out v) - i)) + (\<Sum>u \<in> N - dom (ta_index st). Suc (length (out u)))"

lemma work_left_visit:
  assumes "finite N" and "w \<in> N" and "w \<notin> dom (ta_index st)"
  shows "work_left out N ((w, 0) # work) (visit w st) = work_left out N work st"
proof -
  have "(\<Sum>u \<in> N - dom (ta_index st). Suc (length (out u))) =
      Suc (length (out w)) + (\<Sum>u \<in> N - dom (ta_index st) - {w}. Suc (length (out u)))"
    using assms by (intro sum.remove) auto
  moreover have "N - dom (ta_index st) - {w} = N - insert w (dom (ta_index st))" by blast
  ultimately show ?thesis unfolding work_left_def visit_simps(5) by simp
qed

lemma tarjan_step_ok:
  assumes inv: "tarjan_inv out N ((v, i) # rest) st" and fin: "finite N"
    and N: "\<And>u. u \<in> N \<Longrightarrow> set (out u) \<subseteq> N"
  shows "\<exists>work' st'. tarjan_step out v i rest st = Some (work', st') \<and> tarjan_inv out N work' st' \<and>
    work_left out N work' st' < work_left out N ((v, i) # rest) st \<and>
    dom (ta_index st) \<subseteq> dom (ta_index st')"
proof -
  have st: "stacks_ok N ((v, i) # rest) st" using inv by (simp add: tarjan_inv_def)
  have vN: "v \<in> N" using work_top(1) [OF st] st by (auto simp: stacks_ok_def)
  show ?thesis
  proof (cases "i < length (out v)")
    case i: True
    define w where "w = out v ! i"
    have wN: "w \<in> N" using N [OF vN] i by (auto simp: w_def)
    have less: "work_left out N ((v, Suc i) # rest) st < work_left out N ((v, i) # rest) st"
      using i by (simp add: work_left_def)
    show ?thesis
    proof (cases "ta_index st w")
      case None
      then have fresh: "w \<notin> dom (ta_index st)" by auto
      have "(p, w) \<in> (edges_of out N)\<^sup>*" if p: "p \<in> set (map fst ((v, i) # rest))" for p
      proof -
        have "discovery_of st p \<le> discovery_of st v"
          using p work_top(3) [OF st, of p] less_imp_le unfolding list.map fst_conv list.set by blast
        then have "(p, v) \<in> (edges_of out N)\<^sup>*"
          using inv p work_top(1) [OF st] unfolding tarjan_inv_def paths_ok_def by blast
        also have "(v, w) \<in> (edges_of out N)\<^sup>*" unfolding w_def using vN i by (rule edges_of_nth)
        finally show ?thesis .
      qed
      then have "tarjan_inv out N ((w, 0) # (v, Suc i) # rest) (visit w st)"
        by (intro visit_inv [OF inv]) (use i wN fresh in \<open>auto simp: explored_step w_def\<close>)
      moreover have "tarjan_step out v i rest st = Some ((w, 0) # (v, Suc i) # rest, visit w st)"
        using i None by (simp add: tarjan_step_def w_def Let_def)
      moreover have "work_left out N ((w, 0) # (v, Suc i) # rest) (visit w st) <
          work_left out N ((v, i) # rest) st"
        using less by (simp only: work_left_visit [OF fin wN fresh])
      moreover have "dom (ta_index st) \<subseteq> dom (ta_index (visit w st))"
        unfolding visit_simps(5) by blast
      ultimately show ?thesis by blast
    next
      case (Some n)
      then have dom: "out v ! i \<in> dom (ta_index st)" by (auto simp: w_def)
      define st' where "st' = (if w \<in> ta_onStack st then lower v (discovery_of st w) st else st)"
      have on: "w \<in> ta_onStack st \<longleftrightarrow> w \<in> set (ta_stack st)" using st by (simp add: stacks_ok_def)
      have "tarjan_inv out N ((v, Suc i) # rest) st'"
        by (rule explore_inv [OF inv i dom, where m = "low_of st' v"])
          (auto simp: st'_def on [unfolded w_def] w_def min_def)
      moreover have "tarjan_step out v i rest st = Some ((v, Suc i) # rest, st')"
        using i Some by (simp add: tarjan_step_def st'_def w_def Let_def)
      moreover have "ta_index st' = ta_index st" by (simp add: st'_def lower_def)
      ultimately show ?thesis using less by (auto simp: work_left_def)
    qed
  next
    case False
    define st1 where "st1 = hand_up rest (low_of st v) st"
    have step: "tarjan_step out v i rest st =
        (case close_group v st1 of None \<Rightarrow> None | Some st' \<Rightarrow> Some (rest, st'))"
      using False by (simp add: tarjan_step_def st1_def hand_up_def)
    have st1v: "low_of st1 v = low_of st v" "discovery_of st1 = discovery_of st" "ta_index st1 = ta_index st"
      using work_top(2) [OF st] hand_up_same [of st rest "low_of st v"] same_index
      by (auto simp: st1_def low_hand_up same_but_low_def dest: hd_in_set)
    obtain st' where st': "close_group v st1 = Some st'" "tarjan_inv out N rest st'"
    proof (cases "low_of st v = discovery_of st v")
      case True
      then show ?thesis using group_inv [OF inv False True] that unfolding st1_def by blast
    next
      case low: False
      then have "close_group v st1 = Some st1" by (simp add: close_group_def st1v)
      then show ?thesis using keep_inv [OF inv False low] that unfolding st1_def by blast
    qed
    have "ta_index st' = ta_index st1"
      using st'(1) by (auto simp: close_group_def split: if_splits option.splits)
    then show ?thesis
      using st' by (simp add: step work_left_def st1v)
  qed
qed

lemma tarjan_loop_ok:
  assumes "finite N" and "\<And>u. u \<in> N \<Longrightarrow> set (out u) \<subseteq> N"
  shows "tarjan_inv out N work st \<Longrightarrow> work_left out N work st \<le> fuel \<Longrightarrow>
    \<exists>st'. tarjan_loop fuel out work st = Some st' \<and> tarjan_inv out N [] st' \<and>
      dom (ta_index st) \<subseteq> dom (ta_index st')"
proof (induction fuel arbitrary: work st)
  case 0
  then show ?case by (cases work) (auto simp: work_left_def)
next
  case (Suc f)
  show ?case
  proof (cases work)
    case Nil
    then show ?thesis using Suc.prems by simp
  next
    case (Cons top rest)
    obtain v i where top: "top = (v, i)" by (cases top)
    from tarjan_step_ok [OF Suc.prems(1) [unfolded Cons top] assms] obtain work' st' where
      s: "tarjan_step out v i rest st = Some (work', st')" "tarjan_inv out N work' st'"
      "work_left out N work' st' < work_left out N work st" "dom (ta_index st) \<subseteq> dom (ta_index st')"
      by (auto simp: Cons top)
    then have "work_left out N work' st' \<le> f" using Suc.prems(2) by simp
    from Suc.IH [OF s(2) this] s show ?thesis
      by (auto simp: Cons top tarjan_loop.simps(2))
  qed
qed

text \<open>With no frame left, nothing is left on the stack.\<close>

lemma idle_stack: "tarjan_inv out N [] st \<Longrightarrow> ta_stack st = []"
proof (rule ccontr)
  assume inv: "tarjan_inv out N [] st" and "ta_stack st \<noteq> []"
  then obtain x where x: "x \<in> set (ta_stack st)" by (cases "ta_stack st") auto
  have "\<exists>y \<in> set (ta_stack st). discovery_of st y < discovery_of st x" if "x \<in> set (ta_stack st)" for x
    using inv that unfolding tarjan_inv_def paths_ok_def by force
  then have "x \<notin> set (ta_stack st)" for x
    by (induction "discovery_of st x" arbitrary: x rule: less_induct) blast
  with x show False by blast
qed

lemma root_inv:
  assumes "tarjan_inv out N [] st" and "r \<notin> dom (ta_index st)" and "r \<in> N"
  shows "tarjan_inv out N [(r, 0)] (visit r st)"
  by (rule visit_inv [OF assms(1)]) (use assms in \<open>auto simp: explored_def\<close>)

lemma tarjan_roots_ok:
  assumes "finite N" and "\<And>u. u \<in> N \<Longrightarrow> set (out u) \<subseteq> N" and "(\<Sum>u \<in> N. Suc (length (out u))) \<le> fuel"
  shows "tarjan_inv out N [] st \<Longrightarrow> set rs \<subseteq> N \<Longrightarrow>
    \<exists>st'. tarjan_roots fuel out rs st = Some st' \<and> tarjan_inv out N [] st' \<and>
      dom (ta_index st) \<union> set rs \<subseteq> dom (ta_index st')"
proof (induction rs arbitrary: st)
  case (Cons r rs)
  show ?case
  proof (cases "ta_index st r")
    case (Some n)
    obtain st' where s: "tarjan_roots fuel out rs st = Some st'" "tarjan_inv out N [] st'"
      "dom (ta_index st) \<union> set rs \<subseteq> dom (ta_index st')"
      using Cons.IH [OF Cons.prems(1)] Cons.prems(2) by auto
    have "r \<in> dom (ta_index st')" using s(3) Some by blast
    with s Some show ?thesis by simp
  next
    case None
    then have fresh: "r \<notin> dom (ta_index st)" by auto
    have rN: "r \<in> N" using Cons.prems(2) by simp
    have "work_left out N [(r, 0)] (visit r st) = work_left out N [] st"
      by (rule work_left_visit [OF assms(1) rN fresh])
    also have "\<dots> \<le> (\<Sum>u \<in> N. Suc (length (out u)))"
      unfolding work_left_def using assms(1) by (simp add: sum_mono2)
    finally have "work_left out N [(r, 0)] (visit r st) \<le> fuel" using assms(3) by simp
    from tarjan_loop_ok [OF assms(1,2) root_inv [OF Cons.prems(1) fresh rN] this]
    obtain st1 where s: "tarjan_loop fuel out [(r, 0)] (visit r st) = Some st1"
      "tarjan_inv out N [] st1" "insert r (dom (ta_index st)) \<subseteq> dom (ta_index st1)" by auto
    from Cons.IH [OF s(2)] Cons.prems(2) obtain st' where
      "tarjan_roots fuel out rs st1 = Some st'" "tarjan_inv out N [] st'"
      "dom (ta_index st1) \<union> set rs \<subseteq> dom (ta_index st')" by auto
    moreover have "r \<in> dom (ta_index st1)" "dom (ta_index st) \<subseteq> dom (ta_index st1)" using s(3) by blast+
    ultimately show ?thesis using s(1) None by (intro exI [of _ st']) (simp, blast)
  qed
qed simp

lemma start_inv: "tarjan_inv out N [] tarjan_start"
  by (simp add: tarjan_inv_def stacks_ok_def settled_ok_def paths_ok_def lows_ok_def governs_def
      tarjan_start_def in_groups_def)

lemma fuel_enough: "(\<Sum>u \<in> set nodes. Suc (length (out u))) \<le> tarjan_fuel out nodes"
proof (induction nodes)
  case (Cons u us)
  have "(\<Sum>u \<in> set (u # us). Suc (length (out u))) \<le> Suc (length (out u)) + (\<Sum>u \<in> set us. Suc (length (out u)))"
    by (cases "u \<in> set us") (simp_all add: insert_absorb)
  with Cons show ?case by (simp add: tarjan_fuel_def)
qed (simp add: tarjan_fuel_def)

text \<open>The groups found partition the nodes into the strong components.\<close>

lemma tarjan_groups:
  assumes "\<And>u. u \<in> set nodes \<Longrightarrow> set (out u) \<subseteq> set nodes"
  shows "\<exists>st. tarjan_roots (tarjan_fuel out nodes) out nodes tarjan_start = Some st \<and>
    \<Union> (set ` set (ta_found st)) = set nodes \<and>
    (\<forall>g \<in> set (ta_found st). \<forall>x \<in> set g. strong (edges_of out (set nodes)) x = set g)"
proof -
  obtain st where st: "tarjan_roots (tarjan_fuel out nodes) out nodes tarjan_start = Some st"
    "tarjan_inv out (set nodes) [] st" "set nodes \<subseteq> dom (ta_index st)"
    using tarjan_roots_ok [where out = out and rs = nodes,
        OF finite_set assms fuel_enough start_inv order.refl] by auto
  have "dom (ta_index st) = in_groups st" "dom (ta_index st) \<subseteq> set nodes"
    using st(2) idle_stack [OF st(2)] by (auto simp: tarjan_inv_def stacks_ok_def)
  then show ?thesis
    using st by (auto simp: in_groups_def tarjan_inv_def settled_ok_def)
qed

section \<open>Numbering\<close>

text \<open>\<open>componentOf\<close>: the group of a member. The group object is identified with its list.\<close>

definition group_map :: "'n list list \<Rightarrow> ('n \<rightharpoonup> 'n list)" where
  "group_map found = fold (\<lambda>g m. fold (\<lambda>x m. m(x \<mapsto> g)) g m) found Map.empty"

definition number_node ::
  "('n \<Rightarrow> 'g) \<Rightarrow> 'n \<Rightarrow> ('g \<rightharpoonup> nat) \<times> nat \<times> ('n \<rightharpoonup> nat) \<Rightarrow> ('g \<rightharpoonup> nat) \<times> nat \<times> ('n \<rightharpoonup> nat)" where
  "number_node group_of node s =
     (case s of (ranks, next_rank, numbers) \<Rightarrow>
        (case ranks (group_of node) of
           None \<Rightarrow>
             (ranks(group_of node \<mapsto> next_rank), Suc next_rank, numbers(node \<mapsto> next_rank))
         | Some r \<Rightarrow> (ranks, next_rank, numbers(node \<mapsto> r))))"

definition adjacency :: "'n list \<Rightarrow> ('n \<times> 'n) list \<Rightarrow> 'n \<Rightarrow> 'n list" where
  "adjacency nodes edges v =
     map snd (filter (\<lambda>(a, b). a \<in> set nodes \<and> b \<in> set nodes \<and> a = v) edges)"

definition component_numbers :: "'n list \<Rightarrow> ('n \<times> 'n) list \<Rightarrow> ('n \<rightharpoonup> nat) option" where
  "component_numbers nodes edges =
     (let out = adjacency nodes edges
      in case tarjan_roots (tarjan_fuel out nodes) out nodes tarjan_start of
           None \<Rightarrow> None
         | Some st \<Rightarrow>
             Some (snd (snd (fold (number_node (group_map (ta_found st))) nodes (Map.empty, 0, Map.empty)))))"

text \<open>The number of components that appear in a list of nodes before the one of a given node.\<close>

definition earlier :: "('n \<Rightarrow> 'g) \<Rightarrow> 'n list \<Rightarrow> 'g \<Rightarrow> nat" where
  "earlier f nodes k = card (f ` set (takeWhile (\<lambda>w. f w \<noteq> k) nodes))"

lemma fold_numbers:
  "fold (number_node f) nodes (Map.empty, 0, Map.empty) =
     (\<lambda>k. if k \<in> f ` set nodes then Some (earlier f nodes k) else None, card (f ` set nodes),
      \<lambda>v. if v \<in> set nodes then Some (earlier f nodes (f v)) else None)"
proof (induction nodes rule: rev_induct)
  case (snoc x xs)
  have keep: "earlier f (xs @ [x]) k = earlier f xs k" if k: "k \<in> f ` set xs" for k
  proof -
    from k obtain w where "w \<in> set xs" "f w = k" by blast
    then have "takeWhile (\<lambda>w. f w \<noteq> k) (xs @ [x]) = takeWhile (\<lambda>w. f w \<noteq> k) xs"
      by (intro takeWhile_append1) auto
    then show ?thesis by (simp add: earlier_def)
  qed
  have new: "earlier f (xs @ [x]) (f x) = card (f ` set xs)" if "f x \<notin> f ` set xs"
  proof -
    have "takeWhile (\<lambda>w. f w \<noteq> f x) xs = xs"
      using that by (intro takeWhile_eq_all_conv [THEN iffD2]) (auto dest: sym)
    then have "takeWhile (\<lambda>w. f w \<noteq> f x) (xs @ [x]) = xs"
      by (simp add: takeWhile_append)
    then show ?thesis by (simp add: earlier_def)
  qed
  have step: "fold (number_node f) (xs @ [x]) s = number_node f x (fold (number_node f) xs s)" for s
    by simp
  show ?case
  proof (cases "f x \<in> f ` set xs")
    case True
    then show ?thesis
      unfolding step snoc.IH using keep by (auto simp: number_node_def insert_absorb fun_eq_iff)
  next
    case False
    then show ?thesis
      unfolding step snoc.IH using keep new by (auto simp: number_node_def fun_eq_iff)
  qed
qed simp

lemma group_map_last:
  "group_map found v = (case filter (\<lambda>g. v \<in> set g) (rev found) of [] \<Rightarrow> None | g # _ \<Rightarrow> Some g)"
proof (induction found rule: rev_induct)
  case (snoc g gs)
  have inner: "fold (\<lambda>x m. m(x \<mapsto> g)) h m v = (if v \<in> set h then Some g else m v)" for h and m :: "'a \<rightharpoonup> 'a list"
    by (induction h arbitrary: m) auto
  have "group_map (gs @ [g]) = fold (\<lambda>x m. m(x \<mapsto> g)) g (group_map gs)"
    by (simp add: group_map_def)
  then show ?case using snoc by (simp add: inner)
qed (simp add: group_map_def)

lemma group_map_strong:
  assumes "\<And>g x. g \<in> set found \<Longrightarrow> x \<in> set g \<Longrightarrow> strong E x = set g" and "\<Union> (set ` set found) = N"
    and "v \<in> N" and "w \<in> N"
  shows "group_map found v = group_map found w \<longleftrightarrow> strong E v = strong E w"
proof -
  have mem: "x \<in> set g \<longleftrightarrow> strong E x = set g" if "g \<in> set found" for g x
    using assms(1) [OF that] by (auto simp: strong_def)
  have "\<exists>g \<in> set found. group_map found x = Some g \<and> x \<in> set g" if "x \<in> N" for x
  proof -
    from that assms(2) obtain h where "h \<in> set found" "x \<in> set h" by auto
    then have "filter (\<lambda>g. x \<in> set g) (rev found) \<noteq> []" by (auto simp: filter_empty_conv)
    then obtain g gs where f: "filter (\<lambda>g. x \<in> set g) (rev found) = g # gs" by (auto simp: neq_Nil_conv)
    have "g \<in> set (filter (\<lambda>g. x \<in> set g) (rev found))" unfolding f by simp
    then have "g \<in> set found" "x \<in> set g" by simp_all
    with f show ?thesis by (simp add: group_map_last)
  qed
  from this [OF assms(3)] this [OF assms(4)] have "group_map found v = group_map found w \<Longrightarrow> strong E v = strong E w"
    using mem by fastforce
  moreover have "strong E v = strong E w \<Longrightarrow> group_map found v = group_map found w"
  proof -
    assume "strong E v = strong E w"
    then have "filter (\<lambda>g. v \<in> set g) (rev found) = filter (\<lambda>g. w \<in> set g) (rev found)"
      using mem by (intro filter_cong) auto
    then show ?thesis by (simp add: group_map_last)
  qed
  ultimately show ?thesis by blast
qed

lemma card_image_same:
  assumes "\<And>x y. x \<in> S \<Longrightarrow> y \<in> S \<Longrightarrow> f x = f y \<longleftrightarrow> h x = h y"
  shows "card (f ` S) = card (h ` S)"
proof -
  define t where "t = (\<lambda>k. h (inv_into S f k))"
  have "t (f x) = h x" if "x \<in> S" for x
  proof -
    have "inv_into S f (f x) \<in> S" "f (inv_into S f (f x)) = f x"
      using that by (auto intro: inv_into_into f_inv_into_f)
    then show ?thesis using assms [of "inv_into S f (f x)" x] that by (simp add: t_def)
  qed
  then have "h ` S = t ` f ` S" "inj_on t (f ` S)"
    using assms by (force simp: inj_on_def)+
  then show ?thesis by (simp add: card_image)
qed

lemma earlier_same:
  assumes "\<And>x y. x \<in> set nodes \<Longrightarrow> y \<in> set nodes \<Longrightarrow> f x = f y \<longleftrightarrow> h x = h y" and "v \<in> set nodes"
  shows "earlier f nodes (f v) = earlier h nodes (h v)"
proof -
  have "takeWhile (\<lambda>w. f w \<noteq> f v) nodes = takeWhile (\<lambda>w. h w \<noteq> h v) nodes"
    using assms by (intro takeWhile_cong) auto
  moreover have "card (f ` set (takeWhile P nodes)) = card (h ` set (takeWhile P nodes))" for P
    by (rule card_image_same) (use assms(1) in \<open>auto dest: set_takeWhileD\<close>)
  ultimately show ?thesis by (simp add: earlier_def)
qed

text \<open>The edges of the graph that join two of its nodes.\<close>

definition inner_edges :: "'n list \<Rightarrow> ('n \<times> 'n) list \<Rightarrow> ('n \<times> 'n) set" where
  "inner_edges nodes edges = set edges \<inter> set nodes \<times> set nodes"

lemma adjacency_edges: "edges_of (adjacency nodes edges) (set nodes) = inner_edges nodes edges"
proof -
  have "b \<in> set (adjacency nodes edges a) \<longleftrightarrow> (a, b) \<in> set edges \<and> a \<in> set nodes \<and> b \<in> set nodes" for a b
    by (force simp: adjacency_def)
  then show ?thesis by (auto simp: edges_of_def inner_edges_def)
qed

lemma component_numbers_value:
  "component_numbers nodes edges =
     Some (\<lambda>v. if v \<in> set nodes
       then Some (earlier (strong (inner_edges nodes edges)) nodes (strong (inner_edges nodes edges) v))
       else None)"
proof -
  define out where "out = adjacency nodes edges"
  have "set (out u) \<subseteq> set nodes" for u by (auto simp: out_def adjacency_def)
  from tarjan_groups [where nodes = nodes and out = out, OF this]
  obtain st where st: "tarjan_roots (tarjan_fuel out nodes) out nodes tarjan_start = Some st"
    "\<Union> (set ` set (ta_found st)) = set nodes"
    "\<And>g x. g \<in> set (ta_found st) \<Longrightarrow> x \<in> set g \<Longrightarrow> strong (edges_of out (set nodes)) x = set g"
    by metis
  have "earlier (group_map (ta_found st)) nodes (group_map (ta_found st) v) =
      earlier (strong (inner_edges nodes edges)) nodes (strong (inner_edges nodes edges) v)"
    if "v \<in> set nodes" for v
    using group_map_strong [OF st(3,2)] that
    unfolding out_def adjacency_edges by (intro earlier_same) auto
  then show ?thesis
    by (auto simp: component_numbers_def Let_def out_def [symmetric] st(1) fold_numbers fun_eq_iff)
qed

lemma earlier_inject:
  assumes "v \<in> set nodes" and "w \<in> set nodes"
  shows "earlier f nodes (f v) = earlier f nodes (f w) \<longleftrightarrow> f v = f w"
  using assms
proof (induction nodes arbitrary: v w rule: rev_induct)
  case (snoc x xs)
  have lt: "earlier f xs (f u) < card (f ` set xs)" if "f u \<in> f ` set xs" for u
  proof -
    have "f u \<notin> f ` set (takeWhile (\<lambda>w. f w \<noteq> f u) xs)" by (auto dest: set_takeWhileD)
    then have "f ` set (takeWhile (\<lambda>w. f w \<noteq> f u) xs) \<subset> f ` set xs"
      using that by (auto dest: set_takeWhileD)
    then show ?thesis unfolding earlier_def by (intro psubset_card_mono) auto
  qed
  have keep: "earlier f (xs @ [x]) k = earlier f xs k" if "k \<in> f ` set xs" for k
    using that by (auto simp: earlier_def takeWhile_append1)
  have new: "earlier f (xs @ [x]) (f x) = card (f ` set xs)" if "f x \<notin> f ` set xs"
  proof -
    have "takeWhile (\<lambda>w. f w \<noteq> f x) (xs @ [x]) = xs"
      using that by (subst takeWhile_append2) (auto dest: sym)
    then show ?thesis by (simp add: earlier_def)
  qed
  have old: "earlier f xs (f a) = earlier f xs (f b) \<longleftrightarrow> f a = f b"
    if "f a \<in> f ` set xs" "f b \<in> f ` set xs" for a b
  proof -
    from that obtain a' b' where "a' \<in> set xs" "f a' = f a" "b' \<in> set xs" "f b' = f b" by force
    then show ?thesis using snoc.IH by metis
  qed
  show ?case
  proof (cases "f v \<in> f ` set xs"; cases "f w \<in> f ` set xs")
    assume "f v \<in> f ` set xs" "f w \<in> f ` set xs"
    then show ?thesis using keep old by simp
  next
    assume a: "f v \<in> f ` set xs" "f w \<notin> f ` set xs"
    then have "w = x" using snoc.prems by auto
    then show ?thesis using a keep lt [OF a(1)] new by auto
  next
    assume a: "f v \<notin> f ` set xs" "f w \<in> f ` set xs"
    then have "v = x" using snoc.prems by auto
    then show ?thesis using a keep lt [OF a(2)] new by auto
  next
    assume a: "f v \<notin> f ` set xs" "f w \<notin> f ` set xs"
    then have "v = x" "w = x" using snoc.prems by auto
    then show ?thesis by simp
  qed
qed simp

end
