(* ===== verification/RustGraph.thy ===== *)
theory RustGraph
  imports Constructs Tarjan
begin

text \<open>
  \<open>src/src/compiler/backends/rust-serde/graph.mjs\<close>: the reference edges of a document with the
  position at which each materialises its target, and the decision which of them the Rust crate
  puts behind a \<open>Box\<close>. The properties are those the decision is made for: no type of the crate
  contains itself without an indirection, and an edge is boxed only where it lies on a cycle.
\<close>

section \<open>Edges\<close>

datatype edge_position = Direct | Collection | Identity | Metadata

record type_edge =
  ed_from :: jsval
  ed_to :: jsval
  ed_position :: edge_position
  ed_key :: jsstr

definition isCollection :: "jsval \<Rightarrow> bool" where
  "isCollection multiplicity =
     (if nullish multiplicity then False
      else let upper = get multiplicity ''upper''
        in if upper = Undefined then True else js_less (Num (Fin 1)) upper)"

text \<open>\<open>push\<close>: an edge to a string, and nothing otherwise.\<close>

definition push_edge :: "jsval \<Rightarrow> jsval \<Rightarrow> edge_position \<Rightarrow> jsstr \<Rightarrow> type_edge list" where
  "push_edge a b p k =
     (if is_string b then [\<lparr>ed_from = a, ed_to = b, ed_position = p, ed_key = k\<rparr>] else [])"

definition own_edges :: "construct_table \<Rightarrow> jsval \<Rightarrow> type_edge list" where
  "own_edges table d =
     (let a = get d ''identity'';
          key = (\<lambda>suffix. to_text a @ js suffix);
          rendering = renderingOf table d
      in if rendering = Some (js ''alias'') then push_edge a (get d ''target'') Direct (key ''#target'')
         else if rendering = Some (js ''reference'')
           then push_edge a (get d ''target'') Identity (key ''#target'')
         else if rendering = Some (js ''sequence'')
           then push_edge a (get d ''items'') Collection (key ''#items'')
         else if rendering = Some (js ''map'')
           then push_edge a (get d ''values'') Collection (key ''#values'')
         else [])"

definition field_edges :: "jsval \<Rightarrow> jsval \<Rightarrow> type_edge list" where
  "field_edges a field =
     push_edge a (get field ''typeRef'')
       (if isCollection (get field ''multiplicity'') then Collection else Direct)
       (to_text (get field ''identity'') @ js ''#typeRef'')"

definition variant_edges :: "jsval \<Rightarrow> jsval \<Rightarrow> type_edge list" where
  "variant_edges a variant =
     (if get variant ''payloadType'' = Undefined then []
      else push_edge a (get variant ''payloadType'') Direct
        (to_text (get variant ''identity'') @ js ''#payloadType''))"

definition operation_edges :: "jsval \<Rightarrow> jsval \<Rightarrow> type_edge list" where
  "operation_edges a operation =
     concat (map (\<lambda>param.
         push_edge a (get param ''typeRef'') Metadata (to_text (get param ''identity'') @ js ''#typeRef''))
       (list_of (get operation ''params''))) @
     (if get operation ''returns'' \<noteq> Undefined
      then push_edge a (get (get operation ''returns'') ''typeRef'') Metadata
        (to_text (get operation ''identity'') @ js ''#returns'')
      else [])"

definition type_edges :: "construct_table \<Rightarrow> jsval \<Rightarrow> type_edge list" where
  "type_edges table d =
     (let a = get d ''identity''
      in own_edges table d @
         concat (map (field_edges a) (list_of (get d ''fields''))) @
         concat (map (variant_edges a) (list_of (get d ''variants''))) @
         concat (map (operation_edges a) (list_of (get d ''operations''))))"

definition collectEdges :: "construct_table \<Rightarrow> jsval \<Rightarrow> type_edge list" where
  "collectEdges table ir = concat (map (type_edges table) (list_of (get ir ''types'')))"

section \<open>The decision\<close>

record type_graph =
  tg_edges :: "type_edge list"
  tg_componentOf :: "jsval \<rightharpoonup> nat"
  tg_boxed :: "jsstr list"

definition edge_boxed :: "(jsval \<rightharpoonup> nat) \<Rightarrow> type_edge \<Rightarrow> bool" where
  "edge_boxed componentOf e \<longleftrightarrow>
     ed_position e = Direct \<and> componentOf (ed_from e) \<noteq> None \<and> componentOf (ed_to e) \<noteq> None \<and>
     componentOf (ed_from e) = componentOf (ed_to e)"

definition type_nodes :: "jsval \<Rightarrow> jsval list" where
  "type_nodes ir = map (\<lambda>d. get d ''identity'') (list_of (get ir ''types''))"

definition buildGraph :: "construct_table \<Rightarrow> jsval \<Rightarrow> type_graph option" where
  "buildGraph table ir =
     (let nodes = type_nodes ir;
          edges = collectEdges table ir
      in case component_numbers nodes (map (\<lambda>e. (ed_from e, ed_to e)) edges) of
           None \<Rightarrow> None
         | Some componentOf \<Rightarrow>
             Some \<lparr>tg_edges = edges, tg_componentOf = componentOf,
               tg_boxed = set_from (map ed_key (filter (edge_boxed componentOf) edges))\<rparr>)"

section \<open>What the decision guarantees\<close>

text \<open>The references between the types of a document.\<close>

definition references :: "construct_table \<Rightarrow> jsval \<Rightarrow> (jsval \<times> jsval) set" where
  "references table ir =
     inner_edges (type_nodes ir) (map (\<lambda>e. (ed_from e, ed_to e)) (collectEdges table ir))"

text \<open>The members a Rust type holds inline: direct references whose key is not boxed.\<close>

definition inline_members :: "construct_table \<Rightarrow> jsval \<Rightarrow> jsstr list \<Rightarrow> (jsval \<times> jsval) set" where
  "inline_members table ir boxed =
     {(ed_from e, ed_to e) | e. e \<in> set (collectEdges table ir) \<and> ed_position e = Direct \<and>
        ed_key e \<notin> set boxed \<and> ed_from e \<in> set (type_nodes ir) \<and> ed_to e \<in> set (type_nodes ir)}"

text \<open>
  C35. Tarjan's algorithm over the type references always ends, and it numbers every type by the
  number of strong components that appear before its own in document order: two types have one number
  exactly when each is reachable from the other, and the numbers are a function of the document alone.
\<close>
theorem components_are_strong:
  "component_numbers nodes edges =
     Some (\<lambda>v. if v \<in> set nodes
       then Some (earlier (strong (inner_edges nodes edges)) nodes (strong (inner_edges nodes edges) v))
       else None)"
  by (rule component_numbers_value)

lemma strong_iff: "strong E v = strong E w \<longleftrightarrow> (v, w) \<in> E\<^sup>* \<and> (w, v) \<in> E\<^sup>*"
proof
  assume "strong E v = strong E w"
  moreover have "v \<in> strong E v" by (simp add: strong_def)
  ultimately show "(v, w) \<in> E\<^sup>* \<and> (w, v) \<in> E\<^sup>*" by (simp add: strong_def)
next
  assume "(v, w) \<in> E\<^sup>* \<and> (w, v) \<in> E\<^sup>*"
  then show "strong E v = strong E w" by (auto simp: strong_def intro: rtrancl_trans)
qed

lemma edge_boxed_iff:
  assumes "component_numbers (type_nodes ir) (map (\<lambda>e. (ed_from e, ed_to e)) (collectEdges table ir)) = Some m"
    and "e \<in> set (collectEdges table ir)"
  shows "edge_boxed m e \<longleftrightarrow>
    ed_position e = Direct \<and> ed_from e \<in> set (type_nodes ir) \<and> ed_to e \<in> set (type_nodes ir) \<and>
    (ed_to e, ed_from e) \<in> (references table ir)\<^sup>*"
proof -
  define S where "S = strong (references table ir)"
  have m: "m = (\<lambda>v. if v \<in> set (type_nodes ir) then Some (earlier S (type_nodes ir) (S v)) else None)"
    using assms(1) unfolding component_numbers_value references_def [symmetric] S_def by simp
  have "(ed_from e, ed_to e) \<in> references table ir"
    if "ed_from e \<in> set (type_nodes ir)" "ed_to e \<in> set (type_nodes ir)"
    using that assms(2) by (auto simp: references_def inner_edges_def)
  moreover have "earlier S (type_nodes ir) (S v) = earlier S (type_nodes ir) (S w) \<longleftrightarrow>
      (v, w) \<in> (references table ir)\<^sup>* \<and> (w, v) \<in> (references table ir)\<^sup>*"
    if "v \<in> set (type_nodes ir)" "w \<in> set (type_nodes ir)" for v w
    using earlier_inject [OF that, of S] by (simp add: S_def strong_iff)
  ultimately show ?thesis by (auto simp: edge_boxed_def m)
qed

lemma buildGraph_boxed:
  "\<exists>g. buildGraph table ir = Some g \<and> tg_edges g = collectEdges table ir \<and>
     set (tg_boxed g) = {ed_key e | e. e \<in> set (collectEdges table ir) \<and> ed_position e = Direct \<and>
       ed_from e \<in> set (type_nodes ir) \<and> ed_to e \<in> set (type_nodes ir) \<and>
       (ed_to e, ed_from e) \<in> (references table ir)\<^sup>*}"
proof -
  obtain m where m: "component_numbers (type_nodes ir)
      (map (\<lambda>e. (ed_from e, ed_to e)) (collectEdges table ir)) = Some m"
    by (simp add: component_numbers_value)
  define g where "g = \<lparr>tg_edges = collectEdges table ir, tg_componentOf = m,
      tg_boxed = set_from (map ed_key (filter (edge_boxed m) (collectEdges table ir)))\<rparr>"
  have "buildGraph table ir = Some g" by (simp add: buildGraph_def Let_def m g_def)
  moreover have "set (tg_boxed g) = ed_key ` {e \<in> set (collectEdges table ir). edge_boxed m e}"
    by (simp add: g_def)
  ultimately show ?thesis
    using edge_boxed_iff [OF m] by (intro exI [of _ g]) (auto simp: g_def)
qed

text \<open>
  C36. \<open>buildGraph\<close> always returns; the keys it boxes are exactly those of the direct references between
  types of the document that lie on a cycle of references; and with those behind an indirection no
  type of the crate contains itself inline, through any chain of fields, aliases and payloads.
\<close>
theorem boxing_breaks_cycles:
  "case buildGraph table ir of
     None \<Rightarrow> False
   | Some g \<Rightarrow>
       set (tg_boxed g) = {ed_key e | e. e \<in> set (collectEdges table ir) \<and> ed_position e = Direct \<and>
         ed_from e \<in> set (type_nodes ir) \<and> ed_to e \<in> set (type_nodes ir) \<and>
         (ed_to e, ed_from e) \<in> (references table ir)\<^sup>*} \<and>
       acyclic (inline_members table ir (tg_boxed g))"
proof -
  obtain g where g: "buildGraph table ir = Some g"
    and boxed: "set (tg_boxed g) = {ed_key e | e. e \<in> set (collectEdges table ir) \<and> ed_position e = Direct \<and>
       ed_from e \<in> set (type_nodes ir) \<and> ed_to e \<in> set (type_nodes ir) \<and>
       (ed_to e, ed_from e) \<in> (references table ir)\<^sup>*}"
    using buildGraph_boxed by blast
  let ?I = "inline_members table ir (tg_boxed g)"
  have sub: "?I \<subseteq> references table ir"
    by (auto simp: inline_members_def references_def inner_edges_def)
  have out: "(b, a) \<notin> (references table ir)\<^sup>*" if "(a, b) \<in> ?I" for a b
    using that boxed by (auto simp: inline_members_def)
  have "acyclic ?I"
  proof (rule acyclicI, rule allI, rule notI)
    fix x assume "(x, x) \<in> ?I\<^sup>+"
    then obtain y where "(x, y) \<in> ?I" "(y, x) \<in> ?I\<^sup>*" by (meson tranclD)
    then show False using out rtrancl_mono [OF sub] by blast
  qed
  then show ?thesis using boxed by (simp add: g)
qed

end
