(* ===== verification/TsNames.thy ===== *)
theory TsNames
  imports JsVal
begin

text \<open>
  \<open>src/src/compiler/backends/typescript-v1/names.mjs\<close>: the TypeScript identifier minted from a
  display name, the module name minted from an identity, and \<open>reserveNames\<close>, which mints an
  identifier for every declaration and reports the identifiers that several declarations share.
  The last two sections show that every minted identifier is a legal TypeScript name outside the
  reserved list, and that the report is exactly the sharing, whatever the order of the
  declarations.
\<close>

section \<open>Minting\<close>

definition RESERVED_NAMES :: "jsstr list" where
  "RESERVED_NAMES = map js
     [''any'', ''as'', ''asserts'', ''await'', ''bigint'', ''boolean'', ''break'', ''case'',
      ''catch'', ''class'', ''const'', ''continue'', ''debugger'', ''declare'', ''default'',
      ''delete'', ''do'', ''else'', ''enum'', ''export'', ''extends'', ''false'', ''finally'',
      ''for'', ''function'', ''if'', ''implements'', ''import'', ''in'', ''infer'',
      ''instanceof'', ''interface'', ''is'', ''keyof'', ''let'', ''module'', ''namespace'',
      ''never'', ''new'', ''null'', ''number'', ''object'', ''package'', ''private'',
      ''protected'', ''public'', ''readonly'', ''return'', ''static'', ''string'', ''super'',
      ''switch'', ''symbol'', ''this'', ''throw'', ''true'', ''try'', ''type'', ''typeof'',
      ''undefined'', ''unique'', ''unknown'', ''var'', ''void'', ''while'', ''with'', ''yield'',
      ''__proto__'', ''constructor'', ''hasOwnProperty'', ''isPrototypeOf'',
      ''propertyIsEnumerable'', ''prototype'', ''toLocaleString'', ''toString'', ''valueOf'',
      ''UNION_DISCRIMINANT'', ''UNKNOWN_POLICY_MARKER'', ''ValidationError'',
      ''ValidationResult'', ''VALIDATION_CODES'', ''SEMANTIC_METADATA'', ''TYPE_IDENTITIES'',
      ''FIELD_IDENTITIES'', ''TYPE_ROLES'', ''TYPE_UNKNOWN_POLICIES'', ''TYPE_EXTENSIONS'',
      ''FIELD_EXTENSIONS'', ''FIELD_UNITS'', ''RELATIONSHIPS'', ''OCCURRENCES'',
      ''DOCUMENT_EXTENSIONS'']"

definition isIdentifierPart :: "int \<Rightarrow> bool" where
  "isIdentifierPart p \<longleftrightarrow>
     0x30 \<le> p \<and> p \<le> 0x39 \<or> 0x41 \<le> p \<and> p \<le> 0x5a \<or> 0x61 \<le> p \<and> p \<le> 0x7a \<or> p = 0x5f \<or> p = 0x24"

text \<open>\<open>codePointAt(0)\<close> of one member of \<open>[...text]\<close>.\<close>

definition code_point_value :: "jsstr \<Rightarrow> int" where
  "code_point_value p =
     (case p of
        [h, l] \<Rightarrow> 0x10000 + (uint h - 0xD800) * 0x400 + (uint l - 0xDC00)
      | h # _ \<Rightarrow> uint h
      | [] \<Rightarrow> 0)"

text \<open>\<open>toString(16)\<close> of a natural number, and \<open>padStart(4, "0")\<close>.\<close>

definition hex_digit_unit :: "int \<Rightarrow> 16 word" where
  "hex_digit_unit d = word_of_int (if d < 10 then 48 + d else 87 + d)"

function hex_digits_of :: "int \<Rightarrow> jsstr" where
  "hex_digits_of n =
     (if n < 16 then [hex_digit_unit n] else hex_digits_of (n div 16) @ [hex_digit_unit (n mod 16)])"
  by pat_completeness auto
termination
  by (relation "measure nat") auto

declare hex_digits_of.simps [simp del]

definition pad_start :: "nat \<Rightarrow> 16 word \<Rightarrow> jsstr \<Rightarrow> jsstr" where
  "pad_start n u s = replicate (n - length s) u @ s"

definition escapeCodePoint :: "int \<Rightarrow> jsstr" where
  "escapeCodePoint p = js ''_u'' @ pad_start 4 (unit_of (CHR ''0'')) (hex_digits_of p)"

text \<open>The loop both halves of \<open>identifierFor\<close> run over the characters of a text.\<close>

definition escaped_text :: "jsstr \<Rightarrow> jsstr" where
  "escaped_text s =
     concat (map (\<lambda>character.
         let p = code_point_value character
         in if isIdentifierPart p then character else escapeCodePoint p) (code_points s))"

text \<open>\<open>split("/").pop()\<close> of an identity that is a string, else the empty string.\<close>

definition identity_segment :: "jsval \<Rightarrow> jsstr" where
  "identity_segment v = (case v of Str s \<Rightarrow> last (split_at (unit_of (CHR ''/'')) s) | _ \<Rightarrow> [])"

definition identifierFor :: "jsval \<Rightarrow> jsval \<Rightarrow> jsstr" where
  "identifierFor ident displayName =
     (let source = (case displayName of Str s \<Rightarrow> s | _ \<Rightarrow> []);
          minted = escaped_text source;
          minted = (case minted of
                      u # _ \<Rightarrow> if 0x30 \<le> u \<and> u \<le> 0x39 then js ''_'' @ minted else minted
                    | [] \<Rightarrow> minted);
          minted = (if length minted = 0 then js ''Type'' @ escaped_text (identity_segment ident)
                    else minted)
      in if minted \<in> set RESERVED_NAMES then minted @ js ''_'' else minted)"

definition moduleNameFor :: "jsval \<Rightarrow> jsstr" where
  "moduleNameFor ident =
     (let segment = identity_segment ident;
          name = concat (map (\<lambda>character.
              if isIdentifierPart (code_point_value character) then character else js ''-'')
            (code_points segment))
      in if 0 < length name then name else js ''type'')"

section \<open>Reserving\<close>

record name_collision =
  nc_code :: jsstr
  nc_construct :: jsstr
  nc_owner :: jsstr
  nc_pointer :: jsstr
  nc_detail :: jsstr

definition IDENTIFIER_COLLISION :: jsstr where
  "IDENTIFIER_COLLISION = js ''agent-ix.typescript-backend.IDENTIFIER_COLLISION''"

definition identity_text :: "jsval \<Rightarrow> jsstr" where
  "identity_text d = to_text (get d ''identity'')"

definition minted_for :: "jsval \<Rightarrow> jsstr" where
  "minted_for d = identifierFor (Str (identity_text d)) (get d ''displayName'')"

definition claim_identifier ::
  "jsval \<Rightarrow> (jsstr \<times> jsstr) list \<times> (jsstr \<times> jsstr list) list \<Rightarrow>
    (jsstr \<times> jsstr) list \<times> (jsstr \<times> jsstr list) list" where
  "claim_identifier d st =
     (case st of (identifiers, byIdentifier) \<Rightarrow>
        (let ident = identity_text d;
             identifier = minted_for d;
             identifiers = AList.update ident identifier identifiers
         in case map_of byIdentifier identifier of
              None \<Rightarrow> (identifiers, AList.update identifier [ident] byIdentifier)
            | Some claimed \<Rightarrow>
                (identifiers, AList.update identifier (claimed @ [ident]) byIdentifier)))"

definition collision_of :: "jsstr \<times> jsstr list \<Rightarrow> name_collision" where
  "collision_of e =
     \<lparr>nc_code = IDENTIFIER_COLLISION, nc_construct = js ''identifier-collision'',
      nc_owner = hd (snd e), nc_pointer = js ''/ir/types'',
      nc_detail = fst e @ js '' is minted by '' @ join (js '', '') (snd e)\<rparr>"

definition reserveNames :: "jsval list \<Rightarrow> (jsstr \<times> jsstr) list \<times> name_collision list" where
  "reserveNames definitions =
     (let ordered = sort_on identity_text definitions;
          (identifiers, byIdentifier) = fold claim_identifier ordered ([], [])
      in (identifiers,
          map collision_of (filter (\<lambda>e. \<not> length (snd e) < 2) (sort_on fst byIdentifier))))"

section \<open>Every minted identifier is legal\<close>

definition identifier_unit :: "16 word \<Rightarrow> bool" where
  "identifier_unit u \<longleftrightarrow> isIdentifierPart (uint u)"

text \<open>What ECMA-262 accepts as an identifier made of ASCII units.\<close>

definition legal_identifier :: "jsstr \<Rightarrow> bool" where
  "legal_identifier s \<longleftrightarrow>
     s \<noteq> [] \<and> list_all identifier_unit s \<and> \<not> is_digit_unit (hd s)"

lemma uint_hex_digit_unit: "0 \<le> d \<Longrightarrow> d < 16 \<Longrightarrow>
    uint (hex_digit_unit d) = (if d < 10 then 48 + d else 87 + d)"
  by (simp add: hex_digit_unit_def uint_word_of_int take_bit_int_eq_self del: of_int_add)

lemma hex_digits_identifier: "0 \<le> n \<Longrightarrow> list_all identifier_unit (hex_digits_of n)"
proof (induction n rule: hex_digits_of.induct)
  case (1 n)
  have unit: "0 \<le> d \<Longrightarrow> d < 16 \<Longrightarrow> identifier_unit (hex_digit_unit d)" for d
    by (simp add: identifier_unit_def isIdentifierPart_def uint_hex_digit_unit)
  show ?case
    using 1 by (cases "n < 16") (simp_all add: hex_digits_of.simps [of n] unit)
qed

lemma escape_identifier: "0 \<le> p \<Longrightarrow> list_all identifier_unit (escapeCodePoint p)"
  using hex_digits_identifier [of p]
  by (auto simp: escapeCodePoint_def pad_start_def js_def list_all_iff identifier_unit_def
      isIdentifierPart_def unit_of_def)

lemma escape_nonempty [simp]: "escapeCodePoint p \<noteq> []"
  by (simp add: escapeCodePoint_def js_def)

lemma code_point_value_nonneg:
  "c \<in> set (code_points s) \<Longrightarrow> 0 \<le> code_point_value c \<and>
     (isIdentifierPart (code_point_value c) \<longrightarrow> list_all identifier_unit c)"
proof (induction s rule: code_points.induct)
  case (3 h l ds)
  have "0xD800 \<le> uint h" "0xDC00 \<le> uint l" if "high_surrogate h" "low_surrogate l"
    using that by (simp_all add: high_surrogate_def low_surrogate_def word_le_def)
  with 3 show ?case
    by (auto simp: code_point_value_def isIdentifierPart_def identifier_unit_def split: if_splits)
qed (auto simp: code_point_value_def identifier_unit_def)

lemma escaped_text_identifier: "list_all identifier_unit (escaped_text s)"
proof -
  have "list_all identifier_unit
      (if isIdentifierPart (code_point_value c) then c else escapeCodePoint (code_point_value c))"
    if "c \<in> set (code_points s)" for c
    using code_point_value_nonneg [OF that] by (simp add: escape_identifier)
  then show ?thesis
    by (auto simp: escaped_text_def Let_def list_all_iff)
qed

lemma escaped_text_Nil [simp]: "escaped_text s = [] \<longleftrightarrow> s = []"
proof
  assume e: "escaped_text s = []"
  have "code_points s = []"
  proof (rule ccontr)
    assume "code_points s \<noteq> []"
    then obtain c where c: "c \<in> set (code_points s)" by (cases "code_points s") auto
    with e have "(if isIdentifierPart (code_point_value c) then c
        else escapeCodePoint (code_point_value c)) = []"
      by (simp add: escaped_text_def Let_def)
    then show False using code_points_small [OF c] by (simp split: if_splits)
  qed
  then show "s = []" using concat_code_points [of s] by simp
qed (simp add: escaped_text_def)


lemma reserved_no_tail: "list_all (\<lambda>r. js ''_'' \<noteq> [last r] \<or> butlast r \<notin> set RESERVED_NAMES) RESERVED_NAMES"
  by code_simp

lemma reserved_escape: "s \<in> set RESERVED_NAMES \<Longrightarrow> s @ js ''_'' \<notin> set RESERVED_NAMES"
proof
  assume s: "s \<in> set RESERVED_NAMES" and t: "s @ js ''_'' \<in> set RESERVED_NAMES"
  have "js ''_'' \<noteq> [last (s @ js ''_'')] \<or> butlast (s @ js ''_'') \<notin> set RESERVED_NAMES"
    using reserved_no_tail t unfolding list_all_iff by (rule bspec)
  moreover have "last (s @ js ''_'') = unit_of (CHR ''_'')" "butlast (s @ js ''_'') = s"
    by (simp_all add: js_def)
  ultimately show False using s by (simp add: js_def)
qed

lemma legal_tail: "legal_identifier s \<Longrightarrow> legal_identifier (s @ js ''_'')"
  by (simp add: legal_identifier_def js_def identifier_unit_def isIdentifierPart_def unit_of_def)

lemma legal_head:
  "list_all identifier_unit (u # s) \<Longrightarrow>
     legal_identifier (if 0x30 \<le> u \<and> u \<le> 0x39 then js ''_'' @ u # s else u # s)"
  by (simp add: legal_identifier_def js_def identifier_unit_def isIdentifierPart_def unit_of_def
      is_digit_unit_def)

lemma legal_Type: "list_all identifier_unit s \<Longrightarrow> legal_identifier (js ''Type'' @ s)"
  by (simp add: legal_identifier_def js_def identifier_unit_def isIdentifierPart_def unit_of_def
      is_digit_unit_def)

lemma escape_reserved:
  "legal_identifier m \<Longrightarrow>
     legal_identifier (if m \<in> set RESERVED_NAMES then m @ js ''_'' else m) \<and>
     (if m \<in> set RESERVED_NAMES then m @ js ''_'' else m) \<notin> set RESERVED_NAMES"
  using legal_tail reserved_escape by simp

text \<open>
  C29. Every identifier minted for a declaration, from any identity and any display name, strings or
  not, is a legal TypeScript identifier and none of the reserved words, prototype members and names
  of the generated package's own surface.
\<close>
theorem identifierFor_legal:
  "legal_identifier (identifierFor ident displayName) \<and>
   identifierFor ident displayName \<notin> set RESERVED_NAMES"
proof -
  define source where "source = (case displayName of Str s \<Rightarrow> s | _ \<Rightarrow> [])"
  have e: "list_all identifier_unit (escaped_text source)" by (rule escaped_text_identifier)
  show ?thesis
  proof (cases "escaped_text source")
    case Nil
    have "identifierFor ident displayName =
        (let m = js ''Type'' @ escaped_text (identity_segment ident)
         in if m \<in> set RESERVED_NAMES then m @ js ''_'' else m)"
      by (simp only: identifierFor_def source_def [symmetric] Let_def Nil list.simps list.size refl if_True)
    then show ?thesis
      using escape_reserved [OF legal_Type [OF escaped_text_identifier]]
      by (simp only: Let_def simp_thms)
  next
    case (Cons u us)
    define m where "m = (if 0x30 \<le> u \<and> u \<le> 0x39 then js ''_'' @ u # us else u # us)"
    have "length m \<noteq> 0" by (simp add: m_def)
    then have "identifierFor ident displayName =
        (if m \<in> set RESERVED_NAMES then m @ js ''_'' else m)"
      unfolding identifierFor_def source_def [symmetric] Let_def Cons list.simps m_def [symmetric]
      by (simp only: if_False)
    moreover have "legal_identifier m"
      unfolding m_def using e by (intro legal_head) (simp only: Cons)
    ultimately show ?thesis using escape_reserved [of m] by (simp only: simp_thms)
  qed
qed

section \<open>The collisions reported are the identifiers shared\<close>

definition minters :: "jsstr \<Rightarrow> jsval list \<Rightarrow> jsval list" where
  "minters x ds = filter (\<lambda>d. minted_for d = x) ds"

lemma claim_all:
  assumes "distinct (map fst idents @ map identity_text ds)" and "distinct (map fst by)"
  shows "case fold claim_identifier ds (idents, by) of (idents', by') \<Rightarrow>
     idents' = idents @ map (\<lambda>d. (identity_text d, minted_for d)) ds \<and> distinct (map fst by') \<and>
     (\<forall>x. map_of by' x =
       (case map_of by x of
          None \<Rightarrow> (if minters x ds = [] then None else Some (map identity_text (minters x ds)))
        | Some claimed \<Rightarrow> Some (claimed @ map identity_text (minters x ds))))"
  using assms
proof (induction ds arbitrary: idents "by")
  case Nil
  then show ?case by (simp add: minters_def split: option.splits)
next
  case (Cons d ds)
  have fresh: "AList.update k v m = m @ [(k, v)]" if "k \<notin> set (map fst m)"
    for k v and m :: "(jsstr \<times> jsstr) list"
    using that by (induction m) auto
  define by1 where "by1 = (case map_of by (minted_for d) of
      None \<Rightarrow> AList.update (minted_for d) [identity_text d] by
    | Some claimed \<Rightarrow> AList.update (minted_for d) (claimed @ [identity_text d]) by)"
  have step: "claim_identifier d (idents, by) = (idents @ [(identity_text d, minted_for d)], by1)"
    using Cons.prems(1) by (simp add: claim_identifier_def fresh by1_def Let_def split: option.splits)
  have "distinct (map fst by1)"
    using Cons.prems(2) by (simp add: by1_def distinct_update split: option.splits)
  moreover have "map_of by1 x =
      (if x = minted_for d then
         Some ((case map_of by x of None \<Rightarrow> [] | Some c \<Rightarrow> c) @ [identity_text d])
       else map_of by x)" for x
    by (auto simp: by1_def update_conv' split: option.splits)
  ultimately show ?case
    using Cons.IH [of "idents @ [(identity_text d, minted_for d)]" by1] Cons.prems(1)
    by (auto simp: step minters_def split: prod.splits option.splits)
qed

text \<open>The declarations that mint an identifier, and the identifiers several of them mint.\<close>

definition sharing :: "jsval list \<Rightarrow> jsstr \<Rightarrow> jsstr set" where
  "sharing ds x = {identity_text d |d. d \<in> set ds \<and> minted_for d = x}"

definition shared_identifiers :: "jsval list \<Rightarrow> jsstr set" where
  "shared_identifiers ds =
     {x. \<exists>d \<in> set ds. \<exists>e \<in> set ds. d \<noteq> e \<and> minted_for d = x \<and> minted_for e = x}"


lemma filter_distinct_sorted:
  assumes "distinct (map f ds)"
  shows "map f (filter P (sort_on f ds)) = sorted_list_of_set (f ` {d \<in> set ds. P d})"
proof -
  have "sorted (map f (filter P (sort_on f ds)))"
    by (rule sorted_filter) (rule sorted_sort_on)
  moreover have "distinct (map f (filter P (sort_on f ds)))"
    using assms by (intro distinct_map_filter) simp
  moreover have "set (map f (filter P (sort_on f ds))) = f ` {d \<in> set ds. P d}" by auto
  ultimately show ?thesis by (metis sorted_list_of_set.idem_if_sorted_distinct)
qed

lemma minters_sharing:
  assumes "distinct (map identity_text ds)"
  shows "map identity_text (minters x (sort_on identity_text ds)) = sorted_list_of_set (sharing ds x)"
proof -
  have "sharing ds x = identity_text ` {d \<in> set ds. minted_for d = x}"
    by (auto simp: sharing_def)
  then show ?thesis
    unfolding minters_def filter_distinct_sorted [OF assms] by simp
qed

lemma card_sharing:
  assumes "distinct (map identity_text ds)"
  shows "2 \<le> card (sharing ds x) \<longleftrightarrow> x \<in> shared_identifiers ds"
proof -
  define M where "M = {d \<in> set ds. minted_for d = x}"
  have inj: "inj_on identity_text M"
    using assms by (auto simp: distinct_map M_def inj_on_def)
  have "sharing ds x = identity_text ` M" by (auto simp: sharing_def M_def)
  then have "card (sharing ds x) = card M" by (simp add: card_image [OF inj])
  also have "2 \<le> card M \<longleftrightarrow> \<not> (\<forall>d \<in> M. \<forall>e \<in> M. d = e)"
    using card_le_Suc0_iff_eq [of M] by (auto simp: M_def)
  finally show ?thesis by (auto simp: shared_identifiers_def M_def)
qed

lemma sharing_nonempty: "sharing ds x \<noteq> {} \<longleftrightarrow> x \<in> minted_for ` set ds"
  by (auto simp: sharing_def)

lemma finite_sharing [simp]: "finite (sharing ds x)"
proof -
  have "sharing ds x \<subseteq> identity_text ` set ds" by (auto simp: sharing_def)
  then show ?thesis by (rule finite_subset) simp
qed

lemma shared_minted: "shared_identifiers ds \<subseteq> minted_for ` set ds"
  by (auto simp: shared_identifiers_def)

text \<open>The claims after the loop: each identifier with all the identities that mint it.\<close>

definition claimed :: "jsval list \<Rightarrow> (jsstr \<times> jsstr list) list" where
  "claimed ds = snd (fold claim_identifier (sort_on identity_text ds) ([], []))"

definition shared_claims :: "jsval list \<Rightarrow> (jsstr \<times> jsstr list) list" where
  "shared_claims ds = filter (\<lambda>e. \<not> length (snd e) < 2) (sort_on fst (claimed ds))"

lemma claimed_facts:
  assumes "distinct (map identity_text ds)"
  shows claimed_fold: "fold claim_identifier (sort_on identity_text ds) ([], []) =
      (map (\<lambda>d. (identity_text d, minted_for d)) (sort_on identity_text ds), claimed ds)"
    and claimed_distinct: "distinct (map fst (claimed ds))"
    and claimed_get: "map_of (claimed ds) x = (if sharing ds x = {} then None
        else Some (sorted_list_of_set (sharing ds x)))"
proof -
  have "distinct (map fst [] @ map identity_text (sort_on identity_text ds))"
    using assms by simp
  from claim_all [OF this, of "[]"]
  show "fold claim_identifier (sort_on identity_text ds) ([], []) =
      (map (\<lambda>d. (identity_text d, minted_for d)) (sort_on identity_text ds), claimed ds)"
    and "distinct (map fst (claimed ds))"
    and "map_of (claimed ds) x = (if sharing ds x = {} then None
        else Some (sorted_list_of_set (sharing ds x)))"
    by (auto simp: claimed_def minters_sharing [OF assms, symmetric] map_is_Nil_conv [symmetric]
        sorted_list_of_set_eq_Nil_iff [symmetric] split: prod.splits)
qed

lemma claimed_entry:
  assumes "distinct (map identity_text ds)" and "e \<in> set (claimed ds)"
  shows "snd e = sorted_list_of_set (sharing ds (fst e)) \<and> sharing ds (fst e) \<noteq> {}"
  using map_of_is_SomeI [OF claimed_distinct [OF assms(1)], of "fst e" "snd e"] assms(2)
    claimed_get [OF assms(1), of "fst e"]
  by (auto split: if_splits)

lemma kept_keys:
  assumes "distinct (map identity_text ds)"
  shows "map fst (shared_claims ds) = sorted_list_of_set (shared_identifiers ds)"
proof -
  have "map fst (shared_claims ds) = sorted_list_of_set (fst ` {e \<in> set (claimed ds). \<not> length (snd e) < 2})"
    unfolding shared_claims_def by (rule filter_distinct_sorted) (rule claimed_distinct [OF assms])
  also have "fst ` {e \<in> set (claimed ds). \<not> length (snd e) < 2} = shared_identifiers ds"
    (is "?L = ?R")
  proof
    show "?L \<subseteq> ?R" using claimed_entry [OF assms] card_sharing [OF assms] by fastforce
    show "?R \<subseteq> ?L"
    proof
      fix x assume x: "x \<in> ?R"
      then have "2 \<le> card (sharing ds x)" by (simp add: card_sharing [OF assms])
      moreover from this have "sharing ds x \<noteq> {}" by auto
      ultimately show "x \<in> ?L"
        using claimed_get [OF assms, of x]
        by (force dest: map_of_SomeD intro!: image_eqI [of _ fst "(x, _)"])
    qed
  qed
  finally show ?thesis .
qed

lemma reserveNames_value:
  assumes "distinct (map identity_text ds)"
  shows "reserveNames ds =
      (map (\<lambda>d. (identity_text d, minted_for d)) (sort_on identity_text ds),
       map (\<lambda>x. collision_of (x, sorted_list_of_set (sharing ds x)))
         (sorted_list_of_set (shared_identifiers ds)))"
proof -
  have "e = (fst e, sorted_list_of_set (sharing ds (fst e)))" if "e \<in> set (shared_claims ds)" for e
    using that claimed_entry [OF assms, of e] by (simp add: shared_claims_def prod_eq_iff)
  then have "map collision_of (shared_claims ds) =
      map (\<lambda>x. collision_of (x, sorted_list_of_set (sharing ds x))) (map fst (shared_claims ds))"
    by (simp cong: map_cong)
  then show ?thesis
    by (simp add: reserveNames_def claimed_fold [OF assms] shared_claims_def [symmetric] kept_keys [OF assms])
qed

text \<open>
  C30. Over declarations with distinct identities, \<open>reserveNames\<close> gives every declaration the
  identifier minted for it, in the order of the identities, and its collisions are exactly the
  identifiers that two declarations share, in code-unit order, each with all the identities that
  mint it; so there is none exactly when no two declarations mint one identifier, and the answer
  does not depend on the order of the declarations.
\<close>
theorem reserveNames_exact:
  assumes "distinct (map identity_text ds)"
  shows "reserveNames ds =
      (map (\<lambda>d. (identity_text d, minted_for d)) (sort_on identity_text ds),
       map (\<lambda>x. collision_of (x, sorted_list_of_set (sharing ds x)))
         (sorted_list_of_set (shared_identifiers ds))) \<and>
    (snd (reserveNames ds) = [] \<longleftrightarrow> inj_on minted_for (set ds)) \<and>
    (mset es = mset ds \<longrightarrow> reserveNames es = reserveNames ds)"
proof -
  have "finite (shared_identifiers ds)"
    by (rule finite_subset [OF shared_minted]) simp
  moreover have "shared_identifiers ds = {} \<longleftrightarrow> inj_on minted_for (set ds)"
    by (auto simp: shared_identifiers_def inj_on_def)
  moreover have "reserveNames es = reserveNames ds" if "mset es = mset ds"
  proof -
    have "sort_on identity_text es = sort_on identity_text ds"
      using assms that mset_eq_setD [OF that] by (intro sort_on_perm) (auto simp: distinct_map)
    then show ?thesis by (simp add: reserveNames_def)
  qed
  ultimately show ?thesis using reserveNames_value [OF assms] by simp
qed

definition example_declaration :: "string \<Rightarrow> string \<Rightarrow> jsval" where
  "example_declaration i n = Obj [(js ''identity'', Str (js i)), (js ''displayName'', Str (js n))]"

definition example_declarations :: "jsval list" where
  "example_declarations =
     [example_declaration ''ix://m/b'' ''a_u0020b'', example_declaration ''ix://m/a'' ''a b'',
      example_declaration ''ix://m/c'' ''type'']"

theorem reserveNames_exact_witness:
  "length (snd (reserveNames (rev example_declarations))) = 1 \<and>
   map snd (fst (reserveNames example_declarations)) = [js ''a_u0020b'', js ''a_u0020b'', js ''type_'']"
proof -
  have d: "distinct (map identity_text example_declarations)" by code_simp
  have v: "map snd (fst (reserveNames example_declarations)) =
      [js ''a_u0020b'', js ''a_u0020b'', js ''type_'']"
    "length (snd (reserveNames example_declarations)) = 1"
    by code_simp+
  have "reserveNames (rev example_declarations) = reserveNames example_declarations"
    using reserveNames_exact [OF d, of "rev example_declarations"] by simp
  with v show ?thesis by simp
qed

end
