(* ===== verification/TsCanonical.thy ===== *)
theory TsCanonical
  imports CanonicalForm
begin

text \<open>
  \<open>src/src/compiler/backends/typescript-v1/canonical.mjs\<close>: the second, independent canonicaliser of
  the repository, with its own traversal by path segments, its own depth bound and an order of sets
  that falls back to the members' texts. The properties relate its normal form to the compiler's
  (Canonical), and show that the extended form forgets the order of every declared set, duplicate
  identities included.
\<close>

section \<open>Set paths\<close>

definition IDENTITY_SET_PATHS :: "jsstr list" where
  "IDENTITY_SET_PATHS = map js
    [''/types'', ''/types/*/variants'', ''/types/*/constraints'', ''/types/*/relationships'',
     ''/types/*/operations'', ''/types/*/clauses'', ''/types/*/extensions'',
     ''/types/*/fields/*/extensions'', ''/types/*/operations/*/params/*/extensions'',
     ''/occurrences'', ''/extensions'']"

definition MAX_CANONICAL_DEPTH :: nat where
  "MAX_CANONICAL_DEPTH = 256"

text \<open>\<open>path.slice(1).split("/")\<close>.\<close>

definition SET_MATCHERS :: "jsstr list list" where
  "SET_MATCHERS = map (\<lambda>p. split_at (unit_of (CHR ''/'')) (drop 1 p)) IDENTITY_SET_PATHS"

definition matcher_matches :: "jsstr list \<Rightarrow> jsstr list \<Rightarrow> bool" where
  "matcher_matches matcher segments =
     list_all2 (\<lambda>m s. m = js ''*'' \<or> m = s) matcher segments"

definition isIdentitySet :: "jsstr list \<Rightarrow> bool" where
  "isIdentitySet segments = list_ex (\<lambda>m. matcher_matches m segments) SET_MATCHERS"

section \<open>The canonicaliser\<close>

datatype ts_canon_error =
    TsTooDeep jsstr
  | TsSurrogate jsstr
  | TsNonFinite jsnum jsstr
  | TsNoJson jsstr

definition pointer_of :: "jsstr list \<Rightarrow> jsstr" where
  "pointer_of segments = js ''/'' @ join (js ''/'') segments"

definition ts_renderString :: "jsstr \<Rightarrow> jsstr \<Rightarrow> ts_canon_error + jsstr" where
  "ts_renderString s pointer = (if utf16_ok s then Inr (quote s) else Inl (TsSurrogate pointer))"

text \<open>A rendered member of an array: its index, its text and its identity where that is a string.\<close>

type_synonym ts_member = "nat \<times> jsstr \<times> jsstr option"

definition member_identity :: "jsval \<Rightarrow> jsstr option" where
  "member_identity v =
     (if is_object v then (case get v ''identity'' of Str s \<Rightarrow> Some s | _ \<Rightarrow> None) else None)"

definition compare_members :: "ts_member \<Rightarrow> ts_member \<Rightarrow> int" where
  "compare_members l r =
     (case (l, r) of
        ((i, s, a), (j, t, b)) \<Rightarrow>
          (let by_text = (if by_code_units s t \<noteq> 0 then by_code_units s t else int i - int j)
           in case (a, b) of
                (Some x, Some y) \<Rightarrow> if by_code_units x y \<noteq> 0 then by_code_units x y else by_text
              | (Some x, None) \<Rightarrow> -1
              | (None, Some y) \<Rightarrow> 1
              | (None, None) \<Rightarrow> by_text))"

definition sortSet :: "ts_member list \<Rightarrow> ts_member list" where
  "sortSet members = stable_sort compare_members members"

function (sequential)
      ts_render :: "bool \<Rightarrow> jsval \<Rightarrow> jsstr list \<Rightarrow> nat \<Rightarrow> ts_canon_error + jsstr"
  and ts_items :: "bool \<Rightarrow> nat \<Rightarrow> jsval list \<Rightarrow> jsstr list \<Rightarrow> nat \<Rightarrow> ts_canon_error + ts_member list"
  and ts_members ::
    "bool \<Rightarrow> (jsstr \<times> jsval) list \<Rightarrow> jsstr list \<Rightarrow> nat \<Rightarrow> ts_canon_error + jsstr list"
where
  "ts_render sets v segments depth =
     (if MAX_CANONICAL_DEPTH < depth then Inl (TsTooDeep (pointer_of segments))
      else (case v of
          Null \<Rightarrow> Inr (js ''null'')
        | Bool b \<Rightarrow> Inr (if b then js ''true'' else js ''false'')
        | Num n \<Rightarrow>
            if num_is_finite n then Inr (num_text n) else Inl (TsNonFinite n (pointer_of segments))
        | Str s \<Rightarrow> ts_renderString s (pointer_of segments)
        | Arr xs \<Rightarrow>
            (case ts_items sets 0 xs segments (Suc depth) of
               Inl e \<Rightarrow> Inl e
             | Inr members \<Rightarrow>
                 (let ordered = (if sets \<and> isIdentitySet segments then sortSet members else members)
                  in Inr (js ''['' @ join (js '','') (map (\<lambda>m. fst (snd m)) ordered) @ js '']'')))
        | Obj ms \<Rightarrow>
            (case ts_members sets (sort_on fst (filter (\<lambda>m. snd m \<noteq> Undefined) ms))
                segments (Suc depth) of
               Inl e \<Rightarrow> Inl e
             | Inr ts \<Rightarrow> Inr (js ''{'' @ join (js '','') ts @ js ''}''))
        | Undefined \<Rightarrow> Inl (TsNoJson (pointer_of segments))))"
| "ts_items sets i [] segments depth = Inr []"
| "ts_items sets i (x # xs) segments depth =
     (case ts_render sets x (segments @ [nat_text i]) depth of
        Inl e \<Rightarrow> Inl e
      | Inr t \<Rightarrow>
          (case ts_items sets (Suc i) xs segments depth of
             Inl e \<Rightarrow> Inl e
           | Inr ms \<Rightarrow> Inr ((i, t, member_identity x) # ms)))"
| "ts_members sets [] segments depth = Inr []"
| "ts_members sets ((k, v) # ms) segments depth =
     (case ts_renderString k (pointer_of (segments @ [k])) of
        Inl e \<Rightarrow> Inl e
      | Inr kt \<Rightarrow>
          (case ts_render sets v (segments @ [k]) depth of
             Inl e \<Rightarrow> Inl e
           | Inr vt \<Rightarrow>
               (case ts_members sets ms segments depth of
                  Inl e \<Rightarrow> Inl e
                | Inr ts \<Rightarrow> Inr ((kt @ js '':'' @ vt) # ts))))"
  by pat_completeness auto
termination
  by (relation "measure (\<lambda>x. case x of
        Inl (_, v, _) \<Rightarrow> size v
      | Inr (Inl (_, _, xs, _)) \<Rightarrow> size_list size xs
      | Inr (Inr (_, ms, _)) \<Rightarrow> size_list (size_prod (\<lambda>_. 0) size) ms)")
    (auto simp: less_Suc_eq_le intro: size_list_filter_less)

declare ts_render.simps [simp del]

definition ts_canonicalize :: "jsval \<Rightarrow> bool \<Rightarrow> ts_canon_error + jsstr" where
  "ts_canonicalize v sets = ts_render sets v [] 0"

section \<open>The normalised document\<close>

definition materializeField :: "jsval \<Rightarrow> jsval" where
  "materializeField field =
     (if \<not> is_object field then field
      else set_member ''nullable'' (Bool (get field ''nullable'' = Bool True)) field)"

text \<open>An assignment \<open>o.k = o.k.map(f)\<close> under \<open>Array.isArray(o.k)\<close>.\<close>

definition map_array :: "string \<Rightarrow> (jsval \<Rightarrow> jsval) \<Rightarrow> jsval \<Rightarrow> jsval" where
  "map_array k f v =
     (case get v k of Arr xs \<Rightarrow> set_member k (Arr (map f xs)) v | _ \<Rightarrow> v)"

definition normalize_operation :: "jsval \<Rightarrow> jsval" where
  "normalize_operation operation = map_array ''params'' materializeField operation"

definition normalize_type :: "jsval \<Rightarrow> jsval" where
  "normalize_type ty =
     map_array ''operations'' normalize_operation (map_array ''fields'' materializeField ty)"

definition ts_normalizeIr :: "jsval \<Rightarrow> jsval" where
  "ts_normalizeIr document =
     (if \<not> is_object document then document
      else
        (let copy = set_member ''canonicalization''
               (Obj [(js ''algorithm'', Str (js ''rfc8785-v1''))]) document
         in map_array ''types'' normalize_type copy))"

definition normalizeIrForTarget :: "jsval \<Rightarrow> ts_canon_error + jsstr" where
  "normalizeIrForTarget document = ts_canonicalize (ts_normalizeIr document) False"

section \<open>Without sets the two canonicalisers agree\<close>

text \<open>The values \<open>JSON.parse\<close> makes, as far as the canonicalisers can tell them from others.\<close>

fun no_holes :: "jsval \<Rightarrow> bool" where
  "no_holes (Arr xs) = list_all (\<lambda>x. x \<noteq> Undefined \<and> no_holes x) xs"
| "no_holes (Obj ms) = list_all (\<lambda>m. no_holes (snd m)) ms"
| "no_holes v = True"

definition same_outcome :: "'e + jsstr \<Rightarrow> 'f + jsstr \<Rightarrow> bool" where
  "same_outcome a b =
     (case (a, b) of (Inr s, Inr t) \<Rightarrow> s = t | (Inl _, Inl _) \<Rightarrow> True | _ \<Rightarrow> False)"

lemma no_holes_sorted:
  "no_holes (Obj ms) \<Longrightarrow> list_all (\<lambda>m. snd m \<noteq> Undefined \<and> no_holes (snd m))
     (sort_on fst (filter (\<lambda>m. snd m \<noteq> Undefined) ms))"
  by (auto simp: list_all_iff)

lemma ts_render_agrees:
  "v \<noteq> Undefined \<Longrightarrow> no_holes v \<Longrightarrow>
     same_outcome (ts_render False v segments depth) (canon_walk [] MAX_CANONICAL_DEPTH v path depth)"
  "list_all (\<lambda>x. x \<noteq> Undefined \<and> no_holes x) xs \<Longrightarrow>
     (case (ts_items False i xs segments depth, canon_items [] MAX_CANONICAL_DEPTH xs path depth) of
        (Inr ms, Inr ts) \<Rightarrow> map (\<lambda>m. fst (snd m)) ms = ts | (Inl _, Inl _) \<Rightarrow> True | _ \<Rightarrow> False)"
  "list_all (\<lambda>m. snd m \<noteq> Undefined \<and> no_holes (snd m)) ms \<Longrightarrow>
     (case (ts_members False ms segments depth, canon_members [] MAX_CANONICAL_DEPTH ms path depth) of
        (Inr ss, Inr ts) \<Rightarrow> ss = ts | (Inl _, Inl _) \<Rightarrow> True | _ \<Rightarrow> False)"
proof (induction False v segments depth and False i xs segments depth and False ms segments depth
    arbitrary: path and path and path rule: ts_render_ts_items_ts_members.induct)
  case (1 v segments depth)
  show ?case
  proof (cases "MAX_CANONICAL_DEPTH < depth")
    case True
    then show ?thesis by (simp add: ts_render.simps canon_walk.simps same_outcome_def)
  next
    case False
    show ?thesis
    proof (cases v)
      case (Arr xs)
      show ?thesis
        using 1(1) [OF False Arr, of "path @ js ''/*''"] 1(4) False
        by (simp add: Arr ts_render.simps canon_walk.simps same_outcome_def split: sum.splits)
    next
      case (Obj ms)
      show ?thesis
        using 1(2) [OF False Obj no_holes_sorted, of path] 1(4) False
        by (simp add: Obj ts_render.simps canon_walk.simps same_outcome_def split: sum.splits)
    qed (use 1 False in \<open>simp_all add: ts_render.simps canon_walk.simps same_outcome_def
        ts_renderString_def renderString_def\<close>)
  qed
next
  case (3 i x xs segments depth)
  have a: "same_outcome (ts_render False x (segments @ [nat_text i]) depth)
      (canon_walk [] MAX_CANONICAL_DEPTH x path depth)"
    using 3(1) [of path] 3(3) by simp
  show ?case
  proof (cases "ts_render False x (segments @ [nat_text i]) depth")
    case (Inl e)
    then show ?thesis using a by (auto simp: same_outcome_def split: sum.splits)
  next
    case (Inr t)
    then have "canon_walk [] MAX_CANONICAL_DEPTH x path depth = Inr t"
      using a by (auto simp: same_outcome_def split: sum.splits)
    then show ?thesis using 3(2) [OF Inr, of path] 3(3) by (auto simp: Inr split: sum.splits)
  qed
next
  case (5 k v ms segments depth)
  define q where "q = path @ js ''/'' @ k"
  show ?case
  proof (cases "utf16_ok k")
    case False
    then show ?thesis by (simp add: ts_renderString_def renderString_def)
  next
    case True
    then have k: "ts_renderString k (pointer_of (segments @ [k])) = Inr (quote k)"
      "renderString k q = Inr (quote k)"
      by (simp_all add: ts_renderString_def renderString_def)
    have a: "same_outcome (ts_render False v (segments @ [k]) depth)
        (canon_walk [] MAX_CANONICAL_DEPTH v q depth)"
      using 5(1) [OF k(1), of q] 5(3) by simp
    show ?thesis
    proof (cases "ts_render False v (segments @ [k]) depth")
      case (Inl e)
      then show ?thesis using a k
        by (auto simp: same_outcome_def q_def [symmetric] split: sum.splits)
    next
      case (Inr t)
      then have "canon_walk [] MAX_CANONICAL_DEPTH v q depth = Inr t"
        using a by (auto simp: same_outcome_def split: sum.splits)
      then show ?thesis using 5(2) [OF k(1) Inr, of path] 5(3) k
        by (auto simp: Inr q_def [symmetric] split: sum.splits)
    qed
  qed
qed simp_all

lemma wf_no_holes: "wf_value v \<Longrightarrow> v \<noteq> Undefined \<and> no_holes v"
proof (induction v)
  case (Arr xs)
  then show ?case by (auto simp: list_all_iff)
next
  case (Obj ms)
  then show ?case by (fastforce simp: list_all_iff)
qed auto

section \<open>The normalised documents agree\<close>

lemma map_objects_same:
  "(\<And>x. \<not> is_object x \<Longrightarrow> f x = x) \<Longrightarrow> map_objects f (Arr xs) = Arr (map f xs)"
  by (auto simp: map_objects_def)

lemma map_array_member:
  assumes "\<And>x. \<not> is_object x \<Longrightarrow> f x = x" and "is_object v"
  shows "map_array k f v = map_member k (map_objects f) v"
proof (cases "get v k")
  case (Arr xs)
  then show ?thesis using map_objects_same [of f xs] assms(1) by (simp add: map_array_def map_member_def)
qed (auto simp: map_array_def map_member_def map_objects_def intro!: set_member_same [symmetric])

lemma map_array_other [simp]: "\<not> is_object v \<Longrightarrow> map_array k f v = v"
  by (cases v) (simp_all add: map_array_def)

lemma map_objects_cong: "(\<And>x. is_object x \<Longrightarrow> f x = g x) \<Longrightarrow> map_objects f v = map_objects g v"
  by (cases v) (auto simp: map_objects_def)

lemma materializeField_same: "is_object x \<Longrightarrow> materializeField x = materialize x"
  by (simp add: materializeField_def materialize_def)

lemma materializeField_other: "\<not> is_object x \<Longrightarrow> materializeField x = x"
  by (simp add: materializeField_def)

lemma fields_same: "map_objects materializeField = map_objects materialize"
  by (intro ext map_objects_cong) (rule materializeField_same)

lemma normalize_operation_same:
  "is_object x \<Longrightarrow> normalize_operation x = materialize_operation x"
  unfolding normalize_operation_def materialize_operation_def
  by (simp add: map_array_member materializeField_other fields_same)

lemma normalize_operation_other: "\<not> is_object x \<Longrightarrow> normalize_operation x = x"
  by (simp add: normalize_operation_def)

lemma operations_same: "map_objects normalize_operation = map_objects materialize_operation"
  by (intro ext map_objects_cong) (rule normalize_operation_same)

lemma normalize_type_same: "is_object x \<Longrightarrow> normalize_type x = materialize_definition x"
  unfolding normalize_type_def materialize_definition_def
  by (simp add: map_array_member materializeField_other normalize_operation_other fields_same
      operations_same)

lemma normalize_type_other: "\<not> is_object x \<Longrightarrow> normalize_type x = x"
  by (simp add: normalize_type_def)

lemma types_same: "map_objects normalize_type = map_objects materialize_definition"
  by (intro ext map_objects_cong) (rule normalize_type_same)

lemma ts_normalizeIr_same:
  "ts_normalizeIr d = (if is_object d then materialize_document d else d)"
  by (simp add: ts_normalizeIr_def materialize_document_def map_array_member normalize_type_other
      types_same)

lemma wf_set_member: "wf_value v \<Longrightarrow> wf_value w \<Longrightarrow> wf_value (set_member k w v)"
proof -
  have "set (AList.update j w ms) \<subseteq> insert (j, w) (set ms)" for j :: jsstr and ms
    by (induction ms) auto
  then show "wf_value v \<Longrightarrow> wf_value w \<Longrightarrow> wf_value (set_member k w v)"
    by (cases v) (fastforce simp: set_member_def list_all_iff distinct_update)+
qed

lemma wf_map_member:
  "wf_value v \<Longrightarrow> (\<And>x. wf_value x \<Longrightarrow> wf_value (f x)) \<Longrightarrow> wf_value (map_member k f v)"
  by (simp add: map_member_def wf_set_member wf_value_get)

lemma wf_map_objects:
  "wf_value v \<Longrightarrow> (\<And>x. wf_value x \<Longrightarrow> wf_value (f x)) \<Longrightarrow> wf_value (map_objects f v)"
  by (cases v) (auto simp: map_objects_def list_all_iff)

lemma wf_materialize: "wf_value x \<Longrightarrow> wf_value (materialize x)"
  by (simp add: materialize_def wf_set_member)

lemma wf_operation: "wf_value x \<Longrightarrow> wf_value (materialize_operation x)"
  unfolding materialize_operation_def by (intro wf_map_member wf_map_objects wf_materialize)

lemma wf_definition: "wf_value x \<Longrightarrow> wf_value (materialize_definition x)"
  unfolding materialize_definition_def by (intro wf_map_member wf_map_objects wf_materialize wf_operation)

lemma wf_document: "wf_value d \<Longrightarrow> wf_value (materialize_document d)"
  unfolding materialize_document_def
  by (intro wf_map_member wf_map_objects wf_definition wf_set_member) simp_all

lemma wf_normalized: "wf_value d \<Longrightarrow> wf_value (ts_normalizeIr d)"
  by (simp add: ts_normalizeIr_same wf_document)

section \<open>The two normal forms\<close>

lemma normalizeIr_same: "normalizeIr sets maxd document = canonicalIr sets maxd (ts_normalizeIr document)"
  by (simp add: normalizeIr_def ts_normalizeIr_same)

text \<open>The TypeScript normal form, against the specification of the compiler's canonicaliser.\<close>

lemma ts_normal_text:
  assumes "wf_value document"
  shows "normalizeIrForTarget document = Inr u \<longleftrightarrow>
    storable (canon_form [] [] (ts_normalizeIr document)) \<and>
    value_depth (canon_form [] [] (ts_normalizeIr document)) \<le> MAX_CANONICAL_DEPTH \<and>
    u = render (canon_form [] [] (ts_normalizeIr document))"
proof -
  have "same_outcome (normalizeIrForTarget document)
      (canonicalize_with [] MAX_CANONICAL_DEPTH (ts_normalizeIr document))"
    using ts_render_agrees(1) [of "ts_normalizeIr document" "[]" 0 "[]"] wf_no_holes [OF wf_normalized [OF assms]]
    by (simp add: normalizeIrForTarget_def ts_canonicalize_def canonicalize_with_def)
  then have "normalizeIrForTarget document = Inr u \<longleftrightarrow>
      canonicalize_with [] MAX_CANONICAL_DEPTH (ts_normalizeIr document) = Inr u"
    by (auto simp: same_outcome_def split: sum.splits)
  then show ?thesis by (simp only: canonicalize_succeeds)
qed

text \<open>Sorting the sets changes neither the depth of a form nor whether it can be written.\<close>

lemma value_depth_le:
  "value_depth (Arr xs) \<le> b \<longleftrightarrow> (\<forall>x\<in>set xs. Suc (value_depth x) \<le> b)"
  "value_depth (Obj ms) \<le> b \<longleftrightarrow> (\<forall>m\<in>set ms. Suc (value_depth (snd m)) \<le> b)"
  using add_fold_max_le [of 0 "map (\<lambda>x. Suc (value_depth x)) xs" b]
    add_fold_max_le [of 0 "map (\<lambda>m. Suc (value_depth (snd m))) ms" b] by simp_all

lemma form_sets:
  "(storable (canon_form sets path v) \<longleftrightarrow> storable (canon_form [] path' v)) \<and>
   (\<forall>b. value_depth (canon_form sets path v) \<le> b \<longleftrightarrow> value_depth (canon_form [] path' v) \<le> b)"
proof (induction sets path v arbitrary: path' rule: canon_form.induct)
  case (1 sets path xs)
  have x: "(storable (canon_form sets (path @ js ''/*'') x) \<longleftrightarrow> storable (canon_form [] (path' @ js ''/*'') x)) \<and>
      (value_depth (canon_form sets (path @ js ''/*'') x) \<le> b \<longleftrightarrow> value_depth (canon_form [] (path' @ js ''/*'') x) \<le> b)"
    if "x \<in> set xs" for x b
    using 1 that by auto
  have "Suc (value_depth (canon_form sets (path @ js ''/*'') x)) \<le> b \<longleftrightarrow>
      Suc (value_depth (canon_form [] (path' @ js ''/*'') x)) \<le> b" if "x \<in> set xs" for x b
    using x [OF that, of "b - 1"] by (cases b) auto
  then show ?case using x by (simp add: value_depth_le list_all_iff del: value_depth.simps(1))
next
  case (2 sets path ms)
  have x: "(storable (canon_form sets (path @ js ''/'' @ fst m) (snd m)) \<longleftrightarrow>
        storable (canon_form [] (path' @ js ''/'' @ fst m) (snd m))) \<and>
      (value_depth (canon_form sets (path @ js ''/'' @ fst m) (snd m)) \<le> b \<longleftrightarrow>
        value_depth (canon_form [] (path' @ js ''/'' @ fst m) (snd m)) \<le> b)"
    if "m \<in> set ms" "snd m \<noteq> Undefined" for m b
    using 2 that by auto
  have "Suc (value_depth (canon_form sets (path @ js ''/'' @ fst m) (snd m))) \<le> b \<longleftrightarrow>
      Suc (value_depth (canon_form [] (path' @ js ''/'' @ fst m) (snd m))) \<le> b"
    if "m \<in> set ms" "snd m \<noteq> Undefined" for m b
    using x [OF that, of "b - 1"] by (cases b) auto
  then show ?case using x by (simp add: value_depth_le list_all_iff del: value_depth.simps(2))
qed simp_all

text \<open>The normalised document with every declared set put in the order of its identities.\<close>

definition in_identity_order :: "jsval \<Rightarrow> bool" where
  "in_identity_order v \<longleftrightarrow> canon_form IDENTITY_SETS [] v = canon_form [] [] v"

section \<open>The order of a set\<close>

definition set_key :: "ts_member \<Rightarrow> bool \<times> jsstr \<times> jsstr" where
  "set_key m = (case m of (_, t, a) \<Rightarrow> (a = None, case a of None \<Rightarrow> [] | Some x \<Rightarrow> x, t))"

lemma compare_members_order:
  "compare_members l r \<le> 0 \<longleftrightarrow> (set_key l, fst l) \<le> (set_key r, fst r)"
  by (cases l; cases r)
    (auto simp: compare_members_def set_key_def Let_def by_code_units_def less_eq_prod_def
      less_prod_def order_le_less split: option.splits if_splits)

lemma first_le: "(a, i) \<le> (b, j) \<Longrightarrow> a \<le> b"
  for a b :: "'a :: linorder" and i j :: nat
  by (auto simp: less_eq_prod_def)

lemma sortSet_keys: "map set_key (sortSet ms) = sort (map set_key ms)"
proof -
  have "sortSet ms = stable_sort (\<lambda>l r. by_order (set_key l, fst l) (set_key r, fst r)) ms"
    unfolding sortSet_def by (rule stable_sort_cong) (simp add: compare_members_order)
  then have "sorted_wrt (\<lambda>l r. by_order (set_key l, fst l) (set_key r, fst r) \<le> 0) (sortSet ms)"
    using comparator_law.sorted_stable_sort [OF comparator_law_key [OF orders.comparator_law_axioms,
        of "\<lambda>m. (set_key m, fst m)"]] by simp
  then have "sorted_wrt (\<lambda>l r. set_key l \<le> set_key r) (sortSet ms)"
    by (rule sorted_wrt_mono_rel [rotated]) (simp only: by_order_le first_le)
  then have "sorted (map set_key (sortSet ms))" by (simp add: sorted_map)
  moreover have "mset (map set_key (sortSet ms)) = mset (map set_key ms)"
    by (simp add: sortSet_def)
  ultimately show ?thesis by (metis properties_for_sort)
qed

section \<open>Texts without their error\<close>

definition text_of :: "'e + 'a \<Rightarrow> 'a option" where
  "text_of r = (case r of Inl _ \<Rightarrow> None | Inr t \<Rightarrow> Some t)"

lemma text_of_simps [simp]: "text_of (Inl e) = None" "text_of (Inr t) = Some t"
  by (simp_all add: text_of_def)

lemma same_outcome_text: "text_of a = text_of b \<Longrightarrow> same_outcome a b"
  by (auto simp: text_of_def same_outcome_def split: sum.splits)

definition bracketed :: "string \<Rightarrow> string \<Rightarrow> jsstr list \<Rightarrow> jsstr" where
  "bracketed l r ts = js l @ join (js '','') ts @ js r"

text \<open>What an item of an array contributes: its key, if it has a text.\<close>

definition item_key :: "bool \<Rightarrow> jsstr list \<Rightarrow> nat \<Rightarrow> nat \<Rightarrow> jsval \<Rightarrow> (bool \<times> jsstr \<times> jsstr) option" where
  "item_key sets segments depth i x =
     map_option (\<lambda>t. set_key (0, t, member_identity x)) (text_of (ts_render sets x (segments @ [nat_text i]) depth))"

definition member_text :: "bool \<Rightarrow> jsstr list \<Rightarrow> nat \<Rightarrow> jsstr \<times> jsval \<Rightarrow> jsstr option" where
  "member_text sets segments depth m =
     (if utf16_ok (fst m)
      then map_option (\<lambda>t. quote (fst m) @ js '':'' @ t) (text_of (ts_render sets (snd m) (segments @ [fst m]) depth))
      else None)"

lemma ts_items_keys:
  "map_option (map set_key) (text_of (ts_items sets i xs segments depth)) =
     those (map (\<lambda>(i, x). item_key sets segments depth i x) (List.enumerate i xs))"
proof (induction xs arbitrary: i)
  case (Cons x xs)
  have "set_key (i, t, a) = set_key (0, t, a)" for t a by (simp add: set_key_def)
  then show ?case
    using Cons.IH [of "Suc i"]
    by (auto simp: item_key_def split: sum.splits option.splits) (metis text_of_simps option.map)+
qed simp

lemma ts_members_texts:
  "text_of (ts_members sets ms segments depth) = those (map (member_text sets segments depth) ms)"
proof (induction ms)
  case (Cons m ms)
  obtain k v where m: "m = (k, v)" by (cases m)
  have "text_of (ts_members sets (m # ms) segments depth) =
      (case member_text sets segments depth m of
         None \<Rightarrow> None
       | Some y \<Rightarrow> map_option (Cons y) (text_of (ts_members sets ms segments depth)))"
    by (auto simp: m member_text_def ts_renderString_def split: sum.splits)
  then show ?case by (simp only: Cons.IH list.map those.simps)
qed simp

lemma ts_render_Arr:
  "text_of (ts_render sets (Arr xs) segments depth) =
     (if MAX_CANONICAL_DEPTH < depth then None
      else map_option (\<lambda>ks. bracketed ''['' '']'' (map (\<lambda>k. snd (snd k))
          (if sets \<and> isIdentitySet segments then sort ks else ks)))
        (those (map (\<lambda>(i, x). item_key sets segments (Suc depth) i x) (List.enumerate 0 xs))))"
proof -
  have k: "map (\<lambda>m. fst (snd m)) ms = map (\<lambda>k. snd (snd k)) (map set_key ms)" for ms
    by (auto simp: set_key_def)
  have "text_of (ts_render sets (Arr xs) segments depth) =
     (if MAX_CANONICAL_DEPTH < depth then None
      else map_option (\<lambda>ks. bracketed ''['' '']'' (map (\<lambda>k. snd (snd k))
          (if sets \<and> isIdentitySet segments then sort ks else ks)))
        (map_option (map set_key) (text_of (ts_items sets 0 xs segments (Suc depth)))))"
    by (auto simp: ts_render.simps Let_def k bracketed_def sortSet_keys simp del: map_map
        split: sum.splits)
  then show ?thesis by (simp only: ts_items_keys)
qed

lemma ts_render_Obj:
  "text_of (ts_render sets (Obj ms) segments depth) =
     (if MAX_CANONICAL_DEPTH < depth then None
      else map_option (bracketed ''{'' ''}'')
        (those (map (member_text sets segments (Suc depth))
          (sort_on fst (filter (\<lambda>m. snd m \<noteq> Undefined) ms)))))"
  unfolding ts_members_texts [symmetric]
  by (auto simp: ts_render.simps bracketed_def split: sum.splits)

section \<open>The fingerprint forgets the order of sets\<close>

text \<open>Two path segments a set path cannot tell apart: equal, or both outside its literals.\<close>

definition set_literals :: "jsstr list" where
  "set_literals = filter (\<lambda>m. m \<noteq> js ''*'') (concat SET_MATCHERS)"

definition alike :: "jsstr list \<Rightarrow> jsstr list \<Rightarrow> bool" where
  "alike = list_all2 (\<lambda>s t. s = t \<or> s \<notin> set set_literals \<and> t \<notin> set set_literals)"

lemma alike_set:
  assumes "alike a b"
  shows "isIdentitySet a = isIdentitySet b"
proof -
  have "matcher_matches m a = matcher_matches m b" if "m \<in> set SET_MATCHERS" for m
  proof -
    have lit: "c = js ''*'' \<or> c \<in> set set_literals" if "c \<in> set m" for c
      using that \<open>m \<in> set SET_MATCHERS\<close> by (auto simp: set_literals_def)
    have len: "length a = length b" using assms by (simp add: alike_def list_all2_lengthD)
    have same: "(m ! i = js ''*'' \<or> m ! i = a ! i) = (m ! i = js ''*'' \<or> m ! i = b ! i)"
      if "i < length m" "length m = length a" for i
    proof -
      have "a ! i = b ! i \<or> a ! i \<notin> set set_literals \<and> b ! i \<notin> set set_literals"
        using list_all2_nthD [OF assms [unfolded alike_def], of i] that by simp
      moreover have "m ! i = js ''*'' \<or> m ! i \<in> set set_literals" using lit that by simp
      ultimately show ?thesis by metis
    qed
    show ?thesis
      unfolding matcher_matches_def list_all2_conv_all_nth len [symmetric]
      by (intro conj_cong refl all_cong imp_cong same) simp_all
  qed
  then show ?thesis unfolding isIdentitySet_def list_ex_iff by blast
qed

lemma alike_snoc: "alike a b \<Longrightarrow> alike (a @ [s]) (b @ [s])"
  by (simp add: alike_def list_all2_appendI)

lemma literal_heads: "list_all (\<lambda>m. m \<noteq> [] \<and> \<not> is_digit_unit (hd m)) set_literals"
  by code_simp

lemma index_alike: "alike a b \<Longrightarrow> alike (a @ [nat_text i]) (b @ [nat_text j])"
proof -
  have n: "nat_text k \<notin> set set_literals" for k
  proof
    assume "nat_text k \<in> set set_literals"
    then have "\<not> is_digit_unit (hd (nat_text k))" using literal_heads by (auto simp: list_all_iff)
    moreover have "hd (nat_text k) \<in> set (nat_text k)" by (intro hd_in_set) (simp add: nat_text_def)
    ultimately show False using digits_of_digits [of "int k"] by (simp add: nat_text_def)
  qed
  assume "alike a b"
  then show ?thesis using n by (simp add: alike_def list_all2_appendI)
qed

lemma ts_alike:
  "alike a b \<Longrightarrow> text_of (ts_render sets v a depth) = text_of (ts_render sets v b depth)"
proof (induction v arbitrary: a b depth)
  case (Arr xs)
  have "item_key sets a (Suc depth) i x = item_key sets b (Suc depth) i x" if "x \<in> set xs" for i x
    by (simp only: item_key_def Arr.IH [OF that index_alike [OF Arr.prems, of i i], of "Suc depth"])
  then have "map (\<lambda>(i, x). item_key sets a (Suc depth) i x) (List.enumerate 0 xs) =
      map (\<lambda>(i, x). item_key sets b (Suc depth) i x) (List.enumerate 0 xs)"
    by (intro map_cong refl) (auto simp: in_set_enumerate_eq)
  then show ?case by (simp only: ts_render_Arr alike_set [OF Arr.prems])
next
  case (Obj ms)
  have "member_text sets a (Suc depth) m = member_text sets b (Suc depth) m" if "m \<in> set ms" for m
  proof -
    have "text_of (ts_render sets (snd m) (a @ [fst m]) (Suc depth)) =
        text_of (ts_render sets (snd m) (b @ [fst m]) (Suc depth))"
      by (cases m) (auto intro!: Obj.IH [OF that _ alike_snoc [OF Obj.prems]])
    then show ?thesis by (simp only: member_text_def)
  qed
  then have "map (member_text sets a (Suc depth)) (sort_on fst (filter (\<lambda>m. snd m \<noteq> Undefined) ms)) =
      map (member_text sets b (Suc depth)) (sort_on fst (filter (\<lambda>m. snd m \<noteq> Undefined) ms))"
    by (intro map_cong) auto
  then show ?case by (simp only: ts_render_Obj)
qed (simp_all add: ts_render.simps ts_renderString_def)

lemma item_key_index: "item_key sets a depth i x = item_key sets a depth 0 x"
  using ts_alike [OF index_alike [of a a i 0]] by (simp add: item_key_def alike_def list_all2_refl)

lemma enumerate_keys:
  "map (\<lambda>(i, x). item_key sets a depth i x) (List.enumerate n xs) = map (item_key sets a depth 0) xs"
proof (induction xs arbitrary: n)
  case (Cons x xs)
  show ?case
    by (simp only: enumerate_simps list.map prod.case Cons.IH item_key_index [of sets a depth n x])
qed simp

lemma ts_render_keys:
  "text_of (ts_render sets (Arr xs) segments depth) =
     (if MAX_CANONICAL_DEPTH < depth then None
      else map_option (\<lambda>ks. bracketed ''['' '']'' (map (\<lambda>k. snd (snd k))
          (if sets \<and> isIdentitySet segments then sort ks else ks)))
        (those (map (item_key sets segments (Suc depth) 0) xs)))"
  by (simp only: ts_render_Arr enumerate_keys)

text \<open>
  The same data written differently: members of an object in another order, items of a declared
  set in another order whatever their identities, at any depth.
\<close>

inductive ts_same :: "jsstr list \<Rightarrow> jsval \<Rightarrow> jsval \<Rightarrow> bool" where
  ts_refl: "ts_same segments v v"
| ts_trans: "ts_same segments u v \<Longrightarrow> ts_same segments v w \<Longrightarrow> ts_same segments u w"
| ts_swap: "mset ms = mset ns \<Longrightarrow> distinct (map fst ms) \<Longrightarrow> ts_same segments (Obj ms) (Obj ns)"
| ts_set: "isIdentitySet segments \<Longrightarrow> mset xs = mset ys \<Longrightarrow> ts_same segments (Arr xs) (Arr ys)"
| ts_member: "ts_same (segments @ [k]) v w \<Longrightarrow>
    ts_same segments (Obj (ms @ (k, v) # ns)) (Obj (ms @ (k, w) # ns))"
| ts_item: "ts_same (segments @ [nat_text (length xs)]) v w \<Longrightarrow>
    ts_same segments (Arr (xs @ v # ys)) (Arr (xs @ w # ys))"

lemma ts_same_shape:
  "ts_same segments v w \<Longrightarrow> v = w \<or> is_array v \<and> is_array w \<or> is_object v \<and> is_object w"
  by (induction rule: ts_same.induct) (auto simp: is_array_iff is_object_iff)

lemma ts_same_identity: "ts_same segments v w \<Longrightarrow> member_identity v = member_identity w"
proof (induction rule: ts_same.induct)
  case (ts_swap ms ns segments)
  have "mset (map fst ms) = mset (map fst ns)" using ts_swap(1) by simp
  from mset_eq_imp_distinct_iff [OF this] have "distinct (map fst ns)" using ts_swap(2) by simp
  then have "map_of ms = map_of ns"
    using ts_swap(2) mset_eq_setD [OF ts_swap(1)] by (simp add: map_of_inject_set)
  then show ?case by (simp add: member_identity_def get_def get_at_def members_of_def)
next
  case (ts_member segments k v w ms ns)
  then show ?case using ts_same_shape [OF ts_member.hyps]
    by (auto simp: member_identity_def get_def get_at_def members_of_def map_add_def
        split: option.splits jsval.splits)
qed (simp_all add: member_identity_def)

lemma those_map: "those (map f xs) = (if None \<in> f ` set xs then None else Some (map (\<lambda>x. the (f x)) xs))"
  by (induction xs) (auto split: option.splits)

lemma those_sort:
  "mset xs = mset ys \<Longrightarrow> map_option sort (those (map f xs)) = map_option sort (those (map f ys))"
proof -
  assume m: "mset xs = mset ys"
  then have "mset (map g xs) = mset (map g ys)" for g :: "'a \<Rightarrow> 'b" by (metis mset_map)
  then have "sort (map g xs) = sort (map g ys)" for g :: "'a \<Rightarrow> 'b"
    by (metis mset_sort properties_for_sort sorted_sort)
  then show ?thesis using mset_eq_setD [OF m] by (simp add: those_map)
qed

lemma ts_same_text:
  "ts_same segments v w \<Longrightarrow>
     text_of (ts_render True v segments depth) = text_of (ts_render True w segments depth)"
proof (induction arbitrary: depth rule: ts_same.induct)
  case (ts_swap ms ns segments)
  have "sort_on fst (filter (\<lambda>m. snd m \<noteq> Undefined) ms) =
      sort_on fst (filter (\<lambda>m. snd m \<noteq> Undefined) ns)"
    using ts_swap by (intro sort_on_perm) (auto simp: distinct_map intro: inj_on_subset)
  then show ?case by (simp only: ts_render_Obj)
next
  case (ts_set segments xs ys)
  have s: "map_option (\<lambda>ks. bracketed ''['' '']'' (map (\<lambda>k. snd (snd k)) (sort ks))) z =
      map_option (\<lambda>ks. bracketed ''['' '']'' (map (\<lambda>k. snd (snd k)) ks)) (map_option sort z)"
    for z :: "(bool \<times> jsstr \<times> jsstr) list option"
    by (simp add: option.map_comp comp_def)
  show ?case using ts_set(1) those_sort [OF ts_set(2), of "item_key True segments (Suc depth) 0"]
    by (simp add: ts_render_keys s)
next
  case (ts_member segments k v w ms ns)
  have d: "v = Undefined \<longleftrightarrow> w = Undefined" using ts_same_shape [OF ts_member.hyps] by auto
  have "member_text True segments (Suc depth) (k, v) = member_text True segments (Suc depth) (k, w)"
    by (simp add: member_text_def ts_member.IH)
  then have "map (member_text True segments (Suc depth))
        (sort_on fst (filter (\<lambda>m. snd m \<noteq> Undefined) (ms @ (k, v) # ns))) =
      map (member_text True segments (Suc depth))
        (sort_on fst (filter (\<lambda>m. snd m \<noteq> Undefined) (ms @ (k, w) # ns)))"
    using d by (intro sort_on_pairs) auto
  then show ?case by (simp only: ts_render_Obj)
next
  case (ts_item segments xs v w ys)
  have "text_of (ts_render True x (segments @ [nat_text 0]) (Suc depth)) =
      text_of (ts_render True x (segments @ [nat_text (length xs)]) (Suc depth))" for x
    by (intro ts_alike index_alike) (simp add: alike_def list_all2_refl)
  then have "item_key True segments (Suc depth) 0 v = item_key True segments (Suc depth) 0 w"
    by (simp add: item_key_def ts_item.IH ts_same_identity [OF ts_item.hyps])
  then have "map (item_key True segments (Suc depth) 0) (xs @ v # ys) =
      map (item_key True segments (Suc depth) 0) (xs @ w # ys)" by simp
  then show ?case by (simp only: ts_render_keys)
qed auto

section \<open>Properties\<close>

text \<open>
  C37. The two normal forms of the repository, each with the options its callers use. On a document
  \<open>JSON.parse\<close> can make, the TypeScript backend's text is the compact rendering of the normalised document
  with its arrays as written (FR-145) and exists exactly for finite numbers, well-formed strings and
  at most 256 levels. The compiler's text exists for the same documents up to 128 levels only, and it
  is the rendering with the declared sets in the order of their identities (FR-050-AC-7). So every
  document the compiler normalises the backend normalises, and the two texts are equal exactly when
  the declared sets of the document are in that order already.
\<close>
theorem ts_normalized_relates:
  assumes "wf_value document"
  shows "(normalizeIrForTarget document = Inr u \<longleftrightarrow>
      storable (canon_form [] [] (ts_normalizeIr document)) \<and>
      value_depth (canon_form [] [] (ts_normalizeIr document)) \<le> 256 \<and>
      u = render (canon_form [] [] (ts_normalizeIr document))) \<and>
    (normalizeIr None None document = Inr t \<longleftrightarrow>
      (\<exists>u. normalizeIrForTarget document = Inr u) \<and>
      value_depth (canon_form [] [] (ts_normalizeIr document)) \<le> 128 \<and>
      t = render (canon_form IDENTITY_SETS [] (ts_normalizeIr document))) \<and>
    (normalizeIr None None document = Inr t \<and> normalizeIrForTarget document = Inr u \<longrightarrow>
      (t = u \<longleftrightarrow> in_identity_order (ts_normalizeIr document)))"
proof -
  let ?n = "ts_normalizeIr document"
  note ts = ts_normal_text [OF assms, unfolded MAX_CANONICAL_DEPTH_def]
  have sets: "storable (canon_form IDENTITY_SETS [] ?n) \<longleftrightarrow> storable (canon_form [] [] ?n)"
    "value_depth (canon_form IDENTITY_SETS [] ?n) \<le> 128 \<longleftrightarrow> value_depth (canon_form [] [] ?n) \<le> 128"
    using form_sets [of IDENTITY_SETS "[]" ?n "[]"] by blast+
  have compiler: "normalizeIr None None document = Inr t \<longleftrightarrow>
      storable (canon_form [] [] ?n) \<and> value_depth (canon_form [] [] ?n) \<le> 128 \<and>
      t = render (canon_form IDENTITY_SETS [] ?n)"
    unfolding normalizeIr_same canonicalIr_def option.case canonicalize_succeeds sets(1)
    by (simp add: DEFAULT_LIMITS_def sets(2))
  have "t = u \<longleftrightarrow> in_identity_order ?n"
    if "normalizeIr None None document = Inr t" "normalizeIrForTarget document = Inr u"
  proof -
    have "exact (canon_form IDENTITY_SETS [] ?n)" "exact (canon_form [] [] ?n)"
      using exact_canon_form [OF wf_normalized [OF assms]] that sets(1) by (simp_all add: ts compiler)
    then show ?thesis using that render_inject by (simp add: ts compiler in_identity_order_def)
  qed
  then show ?thesis using ts compiler by auto
qed

definition example_type :: "string \<Rightarrow> jsval" where
  "example_type n = Obj [(js ''identity'', Str (js n)), (js ''name'', Str (js ''T'')),
     (js ''fields'', Arr [Obj [(js ''name'', Str (js ''f''))]])]"

definition unordered_document :: jsval where
  "unordered_document = Obj [(js ''types'', Arr [example_type ''b'', example_type ''a''])]"

text \<open>On a document with two types out of order both give a text, and the texts differ.\<close>

theorem ts_normalized_relates_witness:
  "\<exists>t u. normalizeIr None None unordered_document = Inr t \<and>
     normalizeIrForTarget unordered_document = Inr u \<and> t \<noteq> u"
proof -
  have wf: "wf_value unordered_document" by code_simp
  have s: "storable (canon_form [] [] (ts_normalizeIr unordered_document))" by code_simp
  have d: "value_depth (canon_form [] [] (ts_normalizeIr unordered_document)) \<le> 128" by code_simp
  have o: "\<not> in_identity_order (ts_normalizeIr unordered_document)" by code_simp
  have d2: "value_depth (canon_form [] [] (ts_normalizeIr unordered_document)) \<le> 256" using d by (rule order.trans) simp
  define u where "u = render (canon_form [] [] (ts_normalizeIr unordered_document))"
  define t where "t = render (canon_form IDENTITY_SETS [] (ts_normalizeIr unordered_document))"
  note r = ts_normalized_relates [OF wf, of u t]
  have u: "normalizeIrForTarget unordered_document = Inr u"
    using conjunct1 [OF r] s d2 by (simp only: u_def simp_thms)
  have t: "normalizeIr None None unordered_document = Inr t"
    using conjunct1 [OF conjunct2 [OF r]] u d by (simp only: t_def simp_thms) blast
  have "t \<noteq> u" using conjunct2 [OF conjunct2 [OF r]] t u o by blast
  with t u show ?thesis by blast
qed

text \<open>
  C40. The extended form, what \<open>canonicalize\<close> gives when no option is set, forgets how a document was
  written: exchanging the members of any object and the items of any of the eleven declared sets,
  duplicate identities or items without one included, at any depth, leaves the text unchanged, and a
  refused document is still refused. (FR-069 asks the opposite of arrays: the authored order, so that
  a permutation changes the bytes. The code keeps that order only under \<open>sets: false\<close>, as the callers
  in the repository pass but for the last tie-break between two rows of an admission; the default is
  that of the comment at the head of the module.)
\<close>
theorem fingerprint_order_free:
  assumes "ts_same [] v w"
  shows "same_outcome (ts_canonicalize v True) (ts_canonicalize w True)"
  using ts_same_text [OF assms] by (simp add: ts_canonicalize_def same_outcome_text)

theorem fingerprint_order_free_witness:
  "same_outcome (ts_canonicalize (Obj [(js ''types'', Arr [example_type ''B'', example_type ''A''])]) True)
     (ts_canonicalize (Obj [(js ''types'', Arr [example_type ''A'', example_type ''B''])]) True)"
proof (rule fingerprint_order_free)
  have "isIdentitySet ([] @ [js ''types''])" by code_simp
  then have "ts_same ([] @ [js ''types'']) (Arr [example_type ''B'', example_type ''A''])
      (Arr [example_type ''A'', example_type ''B''])"
    by (rule ts_set) (simp add: add_mset_commute)
  from ts_member [OF this, of "[]" "[]"]
  show "ts_same [] (Obj [(js ''types'', Arr [example_type ''B'', example_type ''A''])])
      (Obj [(js ''types'', Arr [example_type ''A'', example_type ''B''])])"
    by simp
qed

end
