(* ===== verification/TsAdmission.thy ===== *)
theory TsAdmission
  imports TsCanonical Pipeline ReaderChecks DepthSearch
begin

text \<open>
  The ground of \<open>src/src/compiler/backends/typescript-v1/admit.mjs\<close>, the TypeScript backend's own
  reader of a bundle: its codes and limits, pointers, rows, the loci of nodes, the references it
  follows, the applicability of constraints and their operands, the collapse of schema errors and the
  verdict it returns. A Map of the code is an association list over JavaScript values, so a missing
  member is a key like any other.
\<close>

section \<open>Codes and limits\<close>

definition ADMISSIBILITY_CODES :: "string list" where
  "ADMISSIBILITY_CODES =
     [''SCHEMA_VIOLATION'', ''INVALID_DOCUMENT'', ''INVALID_MULTIPLICITY'', ''UNIT_ON_NON_SCALAR'',
      ''UNRESOLVED_TYPE_REF'', ''UNRESOLVED_ELEMENT_TYPE'', ''UNRESOLVED_VARIANT_PAYLOAD'',
      ''UNRESOLVED_OCCURRENCE_DEFINITION'', ''ALIAS_CYCLE'', ''DEPTH_LIMIT_EXCEEDED'',
      ''DUPLICATE_IDENTITY'', ''DUPLICATE_FIELD_NAME'', ''DUPLICATE_PARAM'', ''DUPLICATE_CLAUSE_ID'',
      ''DANGLING_CLAUSE_REF'', ''MISSING_SOURCE_SPAN'', ''CONSTRAINT_NOT_APPLICABLE'',
      ''INVALID_OPERAND'', ''INVALID_PATTERN'', ''UNRESOLVED_RELATIONSHIP_TARGET'',
      ''INVALID_RELATIONSHIP_SOURCE'', ''COMPOSITE_CYCLE'', ''UNRESOLVED_IMPORT'', ''PACKAGE_CYCLE'',
      ''UNKNOWN_MAPPING_TARGET'', ''UNDECLARED_LOSS'', ''UNKNOWN_REQUIRED_EXTENSION'']"

definition admissibility_code :: "string \<Rightarrow> jsstr" where
  "admissibility_code name = js (''agent-ix.semantic-ir.'' @ name)"

record admit_limits =
  al_maxDepth :: nat
  al_maxNodes :: nat
  al_maxCollectionItems :: nat
  al_maxDiagnostics :: nat

definition DECLARED_LIMITS :: admit_limits where
  "DECLARED_LIMITS = \<lparr>al_maxDepth = 256, al_maxNodes = 1000000, al_maxCollectionItems = 100000,
     al_maxDiagnostics = 1000\<rparr>"

definition BACKEND_IDENTITY :: jsstr where
  "BACKEND_IDENTITY = js ''ix://agent-ix/filament-core-data/backend/typescript''"

section \<open>Pointers\<close>

definition escapeSegment :: "jsstr \<Rightarrow> jsstr" where
  "escapeSegment s =
     concat (map (\<lambda>c. if c = 47 then [126, 49] else [c])
       (concat (map (\<lambda>c. if c = 126 then [126, 48] else [c]) s)))"

definition pointerOf :: "jsstr list \<Rightarrow> jsstr" where
  "pointerOf segments = concat (map (\<lambda>s. 47 # escapeSegment s) segments)"

definition depthOf_pointer :: "jsstr \<Rightarrow> nat" where
  "depthOf_pointer pointer = (if pointer = [] then 0 else length (split_at 47 pointer) - 1)"

definition parentOf :: "jsstr \<Rightarrow> jsstr" where
  "parentOf pointer = parent_pointer pointer"

lemma length_parentOf [termination_simp]: "pointer \<noteq> [] \<Longrightarrow> length (parentOf pointer) < length pointer"
  by (simp add: parentOf_def length_parent_pointer)

text \<open>The \<open>while\<close> loop of \<open>commonPrefix\<close>.\<close>

fun climb_to :: "jsstr \<Rightarrow> jsstr \<Rightarrow> jsstr" where
  "climb_to prefix pointer =
     (if prefix \<noteq> [] \<and> \<not> starts_with (pointer @ [47]) (prefix @ [47]) then climb_to (parentOf prefix) pointer
      else prefix)"

declare climb_to.simps [simp del]

definition commonPrefix :: "jsstr list \<Rightarrow> jsstr" where
  "commonPrefix pointers = foldl climb_to (hd pointers) (tl pointers)"

section \<open>Loci and rows\<close>

definition positive_integer :: "jsval \<Rightarrow> bool" where
  "positive_integer v = (is_integer_value v \<and> js_ge v (Num (Fin 1)))"

definition usableLocus :: "jsval \<Rightarrow> bool" where
  "usableLocus value =
     (is_object value \<and> is_string (get value ''sourceIdentity'') \<and> is_string (get value ''path'') \<and>
      get value ''path'' \<noteq> Str [] \<and> positive_integer (get value ''startLine'') \<and>
      positive_integer (get value ''startColumn''))"

text \<open>A row of the answer: the pointer beside the diagnostic. The causes and the related are empty.\<close>

record admit_row =
  aw_pointer :: jsstr
  aw_code :: jsstr
  aw_severity :: severity
  aw_message :: jsstr
  aw_owner :: jsval
  aw_blocking :: bool
  aw_locus :: "jsval option"

definition admit_diagnostic :: "string \<Rightarrow> jsstr \<Rightarrow> string \<Rightarrow> jsval \<Rightarrow> jsval \<Rightarrow> admit_row" where
  "admit_diagnostic name pointer message who locus =
     \<lparr>aw_pointer = pointer, aw_code = admissibility_code name, aw_severity = SevError,
      aw_message = js message, aw_owner = coalesce who (Str BACKEND_IDENTITY), aw_blocking = True,
      aw_locus = (if usableLocus locus then Some locus else None)\<rparr>"

definition locusOf :: "jsval \<Rightarrow> jsval" where
  "locusOf node =
     (if \<not> is_object node then Undefined
      else if is_object (get node ''origin'') \<and> usableLocus (get (get node ''origin'') ''source'')
        then get (get node ''origin'') ''source''
      else if usableLocus (get node ''sourceSpan'') then get node ''sourceSpan''
      else Undefined)"

definition nearestLocus :: "jsval list \<Rightarrow> jsval" where
  "nearestLocus nodes =
     (case find (\<lambda>n. locusOf n \<noteq> Undefined) nodes of None \<Rightarrow> Undefined | Some n \<Rightarrow> locusOf n)"

definition owns_identity :: "jsval \<Rightarrow> bool" where
  "owns_identity node =
     (is_object node \<and>
      (case get node ''identity'' of Str s \<Rightarrow> starts_with s (js ''ix://'') | _ \<Rightarrow> False))"

definition nearestOwner :: "jsval list \<Rightarrow> jsval" where
  "nearestOwner nodes =
     (case find owns_identity nodes of None \<Rightarrow> Undefined | Some n \<Rightarrow> get n ''identity'')"

section \<open>The type graph\<close>

type_synonym node_map = "(jsval \<times> jsval) list"

text \<open>\<open>if (!map.has(k)) map.set(k, v)\<close>.\<close>

definition add_first :: "jsval \<Rightarrow> jsval \<Rightarrow> node_map \<Rightarrow> node_map" where
  "add_first k v m = (if map_of m k = None then m @ [(k, v)] else m)"

definition nodes_by_identity :: "jsval list \<Rightarrow> node_map" where
  "nodes_by_identity nodes = foldl (\<lambda>m n. if is_object n then add_first (get n ''identity'') n m else m) [] nodes"

definition ALIAS_KINDS :: "jsval list" where
  "ALIAS_KINDS = [Str (js ''alias''), Str (js ''reference'')]"

definition TS_NATIVE_SCALARS :: "(jsstr \<times> jsstr) list" where
  "TS_NATIVE_SCALARS = map (\<lambda>(n, s). (js n, js s))
     [(''UUID'', ''uuid''), (''Boolean'', ''boolean''), (''Integer'', ''integer''),
      (''Decimal'', ''decimal''), (''Float32'', ''float32''), (''Float64'', ''float64''),
      (''String'', ''string''), (''Timestamp'', ''datetime''), (''Duration'', ''duration''),
      (''Bytes'', ''bytes''), (''JsonObject'', ''any'')]"

definition ts_nativeScalar :: "jsval \<Rightarrow> jsstr option" where
  "ts_nativeScalar identity =
     (case identity of
        Str s \<Rightarrow>
          if starts_with s (js ''ix://quire/native/'')
          then map_of TS_NATIVE_SCALARS (drop (length (js ''ix://quire/native/'')) s)
          else None
      | _ \<Rightarrow> None)"

definition resolvable :: "node_map \<Rightarrow> node_map \<Rightarrow> jsval \<Rightarrow> bool" where
  "resolvable types fieldmap identity =
     (map_of types identity \<noteq> None \<or> map_of fieldmap identity \<noteq> None \<or> ts_nativeScalar identity \<noteq> None)"

datatype chain = ChainResolved jsval | ChainAbsent | ChainCycle | ChainDepth

text \<open>The synthetic node of a native type.\<close>

definition native_node :: "jsstr \<Rightarrow> jsval" where
  "native_node scalar = Obj [(js ''kind'', Str (js ''scalar'')), (js ''scalar'', Str scalar)]"

function follow_chain ::
  "node_map \<Rightarrow> node_map \<Rightarrow> nat \<Rightarrow> jsval list \<Rightarrow> nat \<Rightarrow> jsval \<Rightarrow> chain" where
  "follow_chain types fieldmap depth_cap past steps current =
     (if \<not> is_string current then ChainAbsent
      else (case ts_nativeScalar current of
          Some scalar \<Rightarrow> ChainResolved (native_node scalar)
        | None \<Rightarrow>
            if current \<in> set past then ChainCycle
            else (case map_of fieldmap current of
                Some field \<Rightarrow>
                  if depth_cap < Suc steps then ChainDepth
                  else follow_chain types fieldmap depth_cap (past @ [current]) (Suc steps) (get field ''typeRef'')
              | None \<Rightarrow>
                  (case map_of types current of
                     None \<Rightarrow> ChainAbsent
                   | Some ty \<Rightarrow>
                       if get ty ''kind'' \<notin> set ALIAS_KINDS then ChainResolved ty
                       else if depth_cap < Suc steps then ChainDepth
                       else follow_chain types fieldmap depth_cap (past @ [current]) (Suc steps)
                         (get ty ''target'')))))"
  by pat_completeness auto
termination
  by (relation "measure (\<lambda>(types, fieldmap, depth_cap, past, steps, current). Suc depth_cap - steps)") auto

declare follow_chain.simps [simp del]

definition resolveChain :: "node_map \<Rightarrow> node_map \<Rightarrow> jsval \<Rightarrow> nat \<Rightarrow> chain" where
  "resolveChain types fieldmap identity depth_cap = follow_chain types fieldmap depth_cap [] 0 identity"

definition resolvedScalar :: "node_map \<Rightarrow> node_map \<Rightarrow> jsval \<Rightarrow> nat \<Rightarrow> jsval" where
  "resolvedScalar types fieldmap identity depth_cap =
     (case resolveChain types fieldmap identity depth_cap of
        ChainResolved ty \<Rightarrow> if get ty ''kind'' = Str (js ''scalar'') then get ty ''scalar'' else Undefined
      | _ \<Rightarrow> Undefined)"

definition ts_resolvedKind :: "node_map \<Rightarrow> node_map \<Rightarrow> jsval \<Rightarrow> nat \<Rightarrow> jsval" where
  "ts_resolvedKind types fieldmap identity depth_cap =
     (case resolveChain types fieldmap identity depth_cap of
        ChainResolved ty \<Rightarrow> get ty ''kind''
      | _ \<Rightarrow> Undefined)"

section \<open>Constraints\<close>

definition ordered_scalars :: "string list" where
  "ordered_scalars =
     [''integer'', ''number'', ''decimal'', ''float32'', ''float64'', ''date'', ''datetime'', ''duration'']"

text \<open>The keys a constraint keyword may apply to; the schema admits no other keyword.\<close>

definition TS_APPLICABILITY :: "(string \<times> string list) list" where
  "TS_APPLICABILITY =
     [(''min'', ordered_scalars), (''max'', ordered_scalars), (''exclusiveMin'', ordered_scalars),
      (''exclusiveMax'', ordered_scalars), (''minLength'', [''string'', ''bytes'']),
      (''maxLength'', [''string'', ''bytes'']), (''pattern'', [''string'']),
      (''enumValues'',
        [''boolean'', ''integer'', ''number'', ''decimal'', ''float32'', ''float64'', ''string'',
         ''bytes'', ''date'', ''datetime'', ''duration'', ''uuid'']),
      (''nonEmpty'', [''string'', ''bytes'', ''sequence'', ''map'']), (''unique'', [''sequence'']),
      (''format'', [''string''])]"

definition admitted_kinds :: "jsval \<Rightarrow> jsval list" where
  "admitted_kinds keyword =
     (case map_of (map (\<lambda>(k, ks). (Str (js k), map (\<lambda>s. Str (js s)) ks)) TS_APPLICABILITY) keyword of
        None \<Rightarrow> [] | Some ks \<Rightarrow> ks)"

definition applies_to :: "jsval \<Rightarrow> jsval \<Rightarrow> jsval \<Rightarrow> bool" where
  "applies_to keyword subject kind =
     ((subject \<noteq> Undefined \<and> subject \<in> set (admitted_kinds keyword)) \<or>
      (kind \<noteq> Undefined \<and> kind \<in> set (admitted_kinds keyword)))"

definition NUMERIC_SCALARS :: "jsval list" where
  "NUMERIC_SCALARS = map (\<lambda>s. Str (js s)) [''integer'', ''number'', ''decimal'', ''float32'', ''float64'']"

definition TEMPORAL_SCALARS :: "jsval list" where
  "TEMPORAL_SCALARS = map (\<lambda>s. Str (js s)) [''date'', ''datetime'', ''duration'']"

definition is_number :: "jsval \<Rightarrow> bool" where
  "is_number v = (case v of Num _ \<Rightarrow> True | _ \<Rightarrow> False)"

text \<open>The operand member at fault, if any.\<close>

definition operandDefect :: "jsval \<Rightarrow> jsval \<Rightarrow> string option" where
  "operandDefect constraint subject =
     (let keyword = get constraint ''keyword''; operands = get constraint ''operands'';
          value = get operands ''value''
      in if keyword \<in> {Str (js ''min''), Str (js ''max''), Str (js ''exclusiveMin''), Str (js ''exclusiveMax'')}
         then
           (if subject \<in> set NUMERIC_SCALARS \<and> \<not> is_number value then
              (case value of
                 Str s \<Rightarrow>
                   if subject = Str (js ''integer'') \<and> canonical_integer s \<or>
                      subject = Str (js ''decimal'') \<and> canonical_decimal s
                   then None else Some ''value''
               | _ \<Rightarrow> Some ''value'')
            else if subject \<in> set TEMPORAL_SCALARS \<and> \<not> is_string value then Some ''value''
            else None)
         else if keyword \<in> {Str (js ''minLength''), Str (js ''maxLength'')} then
           (if is_integer_value value \<and> js_ge value (Num (Fin 0)) then None else Some ''value'')
         else if keyword = Str (js ''enumValues'') then
           (case get operands ''values'' of Arr (_ # _) \<Rightarrow> None | _ \<Rightarrow> Some ''values'')
         else None)"

section \<open>Counting\<close>

text \<open>The members a traversal pushes, the last on top.\<close>

definition pushed :: "jsval \<Rightarrow> jsval list" where
  "pushed node =
     (case node of Arr xs \<Rightarrow> rev xs | Obj ms \<Rightarrow> rev (map snd ms) | _ \<Rightarrow> [])"

lemma stack_shrinks:
  "sum_list (map (\<lambda>v. Suc (size v)) (pushed node @ stack)) < sum_list (map (\<lambda>v. Suc (size v)) (node # stack))"
proof (cases node)
  case (Arr xs)
  have "sum_list (map (\<lambda>v. Suc (size v)) xs) \<le> size_list size xs" by (induction xs) auto
  then show ?thesis by (simp add: Arr pushed_def rev_map [symmetric] sum_list_rev)
next
  case (Obj ms)
  have "sum_list (map (\<lambda>m. Suc (size (snd m))) ms) \<le> size_list (size_prod (\<lambda>_. 0) size) ms"
    by (induction ms) auto
  then show ?thesis by (simp add: Obj pushed_def rev_map [symmetric] sum_list_rev comp_def)
qed (simp_all add: pushed_def)

function count_from :: "nat \<Rightarrow> nat \<Rightarrow> jsval list \<Rightarrow> nat" where
  "count_from cap past [] = past"
| "count_from cap past (node # stack) =
     (if cap < past then past else count_from cap (Suc past) (pushed node @ stack))"
  by pat_completeness auto
termination
  by (relation "measure (\<lambda>(cap, past, stack). sum_list (map (\<lambda>v. Suc (size v)) stack))")
    (use stack_shrinks in simp_all)

definition countNodes :: "jsval \<Rightarrow> nat \<Rightarrow> nat" where
  "countNodes value cap = count_from cap 0 [value]"

function widest_from :: "nat \<Rightarrow> jsval list \<Rightarrow> nat" where
  "widest_from widest [] = widest"
| "widest_from widest (node # stack) =
     widest_from (case node of Arr xs \<Rightarrow> max widest (length xs) | _ \<Rightarrow> widest) (pushed node @ stack)"
  by pat_completeness auto
termination
  by (relation "measure (\<lambda>(widest, stack). sum_list (map (\<lambda>v. Suc (size v)) stack))")
    (use stack_shrinks in simp_all)

definition widestCollection :: "jsval \<Rightarrow> nat" where
  "widestCollection value = widest_from 0 [value]"

section \<open>The collapse of schema errors\<close>

text \<open>\<open>node[segment]\<close> of an object or an array; the length of an array is no node of a document.\<close>

fun ancestry :: "jsval \<Rightarrow> jsstr list \<Rightarrow> jsval list \<Rightarrow> jsval list" where
  "ancestry node [] chain = chain"
| "ancestry node (raw # rest) chain =
     (if \<not> is_object node \<and> \<not> is_array node then chain
      else (let inner = step_into node (unescape_token raw) in ancestry inner rest (inner # chain)))"

definition ancestryOf :: "jsval \<Rightarrow> jsstr \<Rightarrow> jsval list" where
  "ancestryOf bundle pointer =
     (if pointer = [] then [bundle] else ancestry bundle (split_at 47 (drop 1 pointer)) [bundle])"

text \<open>\<open>while (ancestor !== "" && !locations.has(ancestor)) ancestor = parentOf(ancestor)\<close>.\<close>

fun reported_ancestor :: "jsstr list \<Rightarrow> jsstr \<Rightarrow> jsstr" where
  "reported_ancestor locations ancestor =
     (if ancestor \<noteq> [] \<and> ancestor \<notin> set locations then reported_ancestor locations (parentOf ancestor)
      else ancestor)"

declare reported_ancestor.simps [simp del]

text \<open>\<open>locations\<close>: the instance paths, each once, in the order they are first reported.\<close>

definition error_locations :: "jsstr list \<Rightarrow> jsstr list" where
  "error_locations paths = rev (remdups (rev paths))"

definition collapse_sites :: "jsstr list \<Rightarrow> jsstr list" where
  "collapse_sites paths =
     (let locations = error_locations paths;
          deepest = foldl (\<lambda>best p. max best (depthOf_pointer p)) 0 locations;
          tied = filter (\<lambda>p. depthOf_pointer p = deepest) locations
      in if locations = [] then []
         else if 1 < length tied then
           (let ancestor = reported_ancestor locations (commonPrefix tied)
            in sort_on (\<lambda>s. s) (if ancestor \<noteq> [] then [ancestor] else tied))
         else sort_on (\<lambda>s. s) tied)"

definition collapseSchemaErrors :: "jsstr list \<Rightarrow> jsval \<Rightarrow> admit_row list" where
  "collapseSchemaErrors paths bundle =
     map (\<lambda>p. admit_diagnostic ''SCHEMA_VIOLATION'' p
         ''the value satisfies the published schema for its bundle member''
         (nearestOwner (ancestryOf bundle p)) (nearestLocus (ancestryOf bundle p)))
       (collapse_sites paths)"

section \<open>The verdict\<close>

record admit_verdict =
  av_state :: string
  av_rows :: "admit_row list"
  av_suppressions :: "(jsstr \<times> jsval) list"

definition resultStateOf :: "admit_row list \<Rightarrow> string" where
  "resultStateOf rows =
     (if rows = [] then ''success''
      else if list_ex (\<lambda>r. aw_severity r = SevError) rows then ''invalid'' else ''lossy'')"

definition severity_text :: "severity \<Rightarrow> jsstr" where
  "severity_text s =
     (case s of SevError \<Rightarrow> js ''error'' | SevWarning \<Rightarrow> js ''warning'' | SevInfo \<Rightarrow> js ''info'')"

text \<open>The object a row is, as \<open>canonicalize\<close> meets it.\<close>

definition row_value :: "admit_row \<Rightarrow> jsval" where
  "row_value r =
     Obj [(js ''pointer'', Str (aw_pointer r)),
       (js ''diagnostic'', Obj
         ([(js ''code'', Str (aw_code r)), (js ''severity'', Str (severity_text (aw_severity r))),
           (js ''message'', Str (aw_message r)), (js ''owner'', aw_owner r),
           (js ''blocking'', Bool (aw_blocking r)), (js ''causes'', Arr []), (js ''related'', Arr [])] @
          (case aw_locus r of None \<Rightarrow> [] | Some l \<Rightarrow> [(js ''locus'', l)])))]"

definition row_text :: "admit_row \<Rightarrow> jsstr" where
  "row_text r = (case ts_canonicalize (row_value r) True of Inl _ \<Rightarrow> [] | Inr t \<Rightarrow> t)"

definition row_key :: "admit_row \<Rightarrow> jsstr \<times> jsstr \<times> jsstr" where
  "row_key r = (aw_pointer r, aw_code r, aw_message r)"

definition compare_rows :: "admit_row \<Rightarrow> admit_row \<Rightarrow> int" where
  "compare_rows l r =
     (if by_code_units (aw_pointer l) (aw_pointer r) \<noteq> 0 then by_code_units (aw_pointer l) (aw_pointer r)
      else if by_code_units (aw_code l) (aw_code r) \<noteq> 0 then by_code_units (aw_code l) (aw_code r)
      else if by_code_units (aw_message l) (aw_message r) \<noteq> 0
        then by_code_units (aw_message l) (aw_message r)
      else by_code_units (row_text l) (row_text r))"

text \<open>
  A sort compares each of two or more rows of equal pointer, code and message with another of them,
  and then asks for their canonical texts: the call throws exactly when one of those has none.
\<close>

definition finish_verdict ::
  "admit_row list \<Rightarrow> (jsstr \<times> jsval) list \<Rightarrow> admit_limits \<Rightarrow> ts_canon_error + admit_verdict" where
  "finish_verdict rows suppressions limits =
     (let bounded = take (al_maxDiagnostics limits) (stable_sort compare_rows rows)
      in case find (\<lambda>r. 1 < length (filter (\<lambda>q. row_key q = row_key r) rows) \<and>
            isl (ts_canonicalize (row_value r) True)) rows of
           Some r \<Rightarrow> Inl (projl (ts_canonicalize (row_value r) True))
         | None \<Rightarrow> Inr \<lparr>av_state = resultStateOf bounded, av_rows = bounded,
             av_suppressions = suppressions\<rparr>)"

end
