(* ===== verification/TsAdmit.thy ===== *)
theory TsAdmit
  imports TsAdmission
begin

text \<open>
  \<open>admitIr\<close> of \<open>src/src/compiler/backends/typescript-v1/admit.mjs\<close>. The closures of the code push rows
  and suppressions and claim identities in a set they share; a definition here returns the list of
  what it pushes and claims, in order, and \<open>replay\<close> threads the set through the list. The rules are
  those of the code on the bundles the published schema admits: there a list member is an array or
  absent, a type is an object, and a role is a text. The searches for cycles recurse in the code; a chain
  long enough to exhaust the stack of the engine is not modelled.
\<close>

section \<open>Events\<close>

text \<open>\<open>Claims identity row\<close>: the row is pushed if the identity was claimed before.\<close>

datatype admit_event =
    Emits admit_row
  | Claims jsval admit_row
  | Suppresses jsstr jsval

fun replay :: "jsval list \<Rightarrow> admit_event list \<Rightarrow> admit_row list" where
  "replay claimed [] = []"
| "replay claimed (Emits r # es) = r # replay claimed es"
| "replay claimed (Claims i r # es) =
     (if i \<in> set claimed then r # replay claimed es else replay (claimed @ [i]) es)"
| "replay claimed (Suppresses rule i # es) = replay claimed es"

definition suppressed_in :: "admit_event list \<Rightarrow> (jsstr \<times> jsval) list" where
  "suppressed_in es = concat (map (\<lambda>e. case e of Suppresses rule i \<Rightarrow> [(rule, i)] | _ \<Rightarrow> []) es)"

definition emit_if :: "bool \<Rightarrow> string \<Rightarrow> jsstr \<Rightarrow> string \<Rightarrow> jsval \<Rightarrow> jsval \<Rightarrow> admit_event list" where
  "emit_if c name pointer message who locus =
     (if c then [Emits (admit_diagnostic name pointer message who locus)] else [])"

definition claimIdentity :: "jsval \<Rightarrow> jsstr \<Rightarrow> jsval \<Rightarrow> jsval \<Rightarrow> admit_event list" where
  "claimIdentity node pointer who locus =
     (case get node ''identity'' of
        Str s \<Rightarrow> [Claims (Str s) (admit_diagnostic ''DUPLICATE_IDENTITY'' (pointer @ js ''/identity'')
          ''a semantic identity is declared once in one document'' (coalesce who (Str s)) locus)]
      | _ \<Rightarrow> [])"

fun extension_claims :: "jsstr \<Rightarrow> jsval \<Rightarrow> jsval \<Rightarrow> jsval list \<Rightarrow> nat \<Rightarrow> jsval list \<Rightarrow> admit_event list" where
  "extension_claims pointer who locus past i [] = []"
| "extension_claims pointer who locus past i (x # xs) =
     (if \<not> is_string (get x ''identity'') then extension_claims pointer who locus past (Suc i) xs
      else if get x ''identity'' \<in> set past then
        Emits (admit_diagnostic ''DUPLICATE_IDENTITY''
            (pointer @ js ''/extensions/'' @ nat_text i @ js ''/identity'')
            ''an extension identity is declared once by one node''
            (coalesce who (get x ''identity'')) locus) #
          extension_claims pointer who locus past (Suc i) xs
      else extension_claims pointer who locus (past @ [get x ''identity'']) (Suc i) xs)"

definition claimExtensions :: "jsval \<Rightarrow> jsstr \<Rightarrow> jsval \<Rightarrow> jsval \<Rightarrow> admit_event list" where
  "claimExtensions node pointer who locus =
     extension_claims pointer who locus [] 0 (list_of (get node ''extensions''))"

definition claims_of :: "jsval \<Rightarrow> jsstr \<Rightarrow> jsval \<Rightarrow> jsval \<Rightarrow> admit_event list" where
  "claims_of node pointer who locus =
     claimIdentity node pointer who locus @ claimExtensions node pointer who locus"

text \<open>
  A loop over a list that keeps the set of the values the object items have at a key; the body is
  told whether an item repeats one.
\<close>

fun each_named :: "(nat \<Rightarrow> jsval \<Rightarrow> bool \<Rightarrow> admit_event list) \<Rightarrow> string \<Rightarrow> jsval list \<Rightarrow> nat \<Rightarrow> jsval list \<Rightarrow>
    admit_event list" where
  "each_named body key past i [] = []"
| "each_named body key past i (x # xs) =
     body i x (get x key \<in> set past) @
       each_named body key (if is_object x then past @ [get x key] else past) (Suc i) xs"

definition each_item :: "(nat \<Rightarrow> jsval \<Rightarrow> admit_event list) \<Rightarrow> jsval \<Rightarrow> admit_event list" where
  "each_item body v = concat (map (\<lambda>(i, x). body i x) (List.enumerate 0 (list_of v)))"

section \<open>Constraints and fields\<close>

record admit_context =
  ax_types :: node_map
  ax_fields :: node_map
  ax_depth :: nat
  ax_compiles :: "jsval \<Rightarrow> bool"
  ax_strict :: bool
  ax_exported :: "jsval list"

definition constraint_events :: "admit_context \<Rightarrow> jsstr \<Rightarrow> jsval \<Rightarrow> jsval \<Rightarrow> admit_event list" where
  "constraint_events ctx pointer locus constraint =
     (let subject = resolvedScalar (ax_types ctx) (ax_fields ctx) (get constraint ''appliesTo'') (ax_depth ctx);
          kind = ts_resolvedKind (ax_types ctx) (ax_fields ctx) (get constraint ''appliesTo'') (ax_depth ctx);
          who = get constraint ''identity''
      in if \<not> is_object constraint then []
         else if \<not> applies_to (get constraint ''keyword'') subject kind then
           emit_if True ''CONSTRAINT_NOT_APPLICABLE'' pointer
             ''a constraint keyword applies to the kind its subject resolves to'' who locus
         else
           (case operandDefect constraint subject of
              None \<Rightarrow> []
            | Some member \<Rightarrow> emit_if True ''INVALID_OPERAND'' (pointer @ js ''/operands/'' @ js member)
                ''a bound operand is typed for the scalar its subject resolves to'' who locus) @
           emit_if (get constraint ''keyword'' = Str (js ''pattern'') \<and>
               \<not> ax_compiles ctx (coalesce (get (get constraint ''operands'') ''regex'') (Str [])))
             ''INVALID_PATTERN'' (pointer @ js ''/operands/regex'')
             ''a pattern operand compiles under the declared dialect'' who locus)"

definition constraintChecks :: "admit_context \<Rightarrow> jsval \<Rightarrow> jsstr \<Rightarrow> jsval list \<Rightarrow> admit_event list" where
  "constraintChecks ctx constraints ownerPointer ancestors =
     each_item (\<lambda>i constraint.
       let pointer = ownerPointer @ js ''/constraints/'' @ nat_text i;
           locus = nearestLocus (constraint # ancestors)
       in claims_of constraint pointer (get constraint ''identity'') locus @
          constraint_events ctx pointer locus constraint) constraints"

definition fieldChecks :: "admit_context \<Rightarrow> jsval \<Rightarrow> jsstr \<Rightarrow> jsval \<Rightarrow> jsval \<Rightarrow> admit_event list" where
  "fieldChecks ctx field pointer locus ty =
     (let who = get field ''identity''; multiplicity = get field ''multiplicity'';
          upper = get multiplicity ''upper''; typeRef = get field ''typeRef''
      in emit_if (is_object multiplicity \<and> is_number upper \<and> js_less upper (get multiplicity ''lower''))
           ''INVALID_MULTIPLICITY'' (pointer @ js ''/multiplicity/upper'')
           ''a multiplicity upper bound is not below its lower bound'' who locus @
         emit_if (get field ''unit'' \<noteq> Undefined \<and>
             resolvedScalar (ax_types ctx) (ax_fields ctx) typeRef (ax_depth ctx) = Undefined)
           ''UNIT_ON_NON_SCALAR'' (pointer @ js ''/unit'')
           ''a unit appears only on a field resolving to a scalar'' who locus @
         emit_if (\<not> resolvable (ax_types ctx) (ax_fields ctx) typeRef)
           ''UNRESOLVED_TYPE_REF'' (pointer @ js ''/typeRef'')
           ''a field type reference resolves to a declared type'' who locus @
         constraintChecks ctx (get field ''constraints'') pointer [field, ty])"

section \<open>The parts of a type\<close>

definition element_events :: "admit_context \<Rightarrow> jsstr \<Rightarrow> jsval \<Rightarrow> admit_event list" where
  "element_events ctx pointer ty =
     emit_if (get ty ''kind'' = Str (js ''sequence'') \<and>
         \<not> resolvable (ax_types ctx) (ax_fields ctx) (get ty ''items''))
       ''UNRESOLVED_ELEMENT_TYPE'' (pointer @ js ''/items'')
       ''a sequence item type resolves to a declared type'' (get ty ''identity'') (locusOf ty) @
     emit_if (get ty ''kind'' = Str (js ''map'') \<and>
         \<not> resolvable (ax_types ctx) (ax_fields ctx) (get ty ''values''))
       ''UNRESOLVED_ELEMENT_TYPE'' (pointer @ js ''/values'')
       ''a map value type resolves to a declared type'' (get ty ''identity'') (locusOf ty)"

definition alias_events :: "admit_context \<Rightarrow> jsstr \<Rightarrow> jsval \<Rightarrow> admit_event list" where
  "alias_events ctx pointer ty =
     (if get ty ''kind'' \<notin> set ALIAS_KINDS then []
      else (let strictReference = (get ty ''kind'' \<noteq> Str (js ''reference'') \<or> ax_strict ctx);
                spot = pointer @ js ''/target''; who = get ty ''identity''; locus = locusOf ty
            in case resolveChain (ax_types ctx) (ax_fields ctx) who (ax_depth ctx) of
                 ChainCycle \<Rightarrow> emit_if True ''ALIAS_CYCLE'' spot
                   ''an alias chain closes on itself and resolves to nothing'' who locus
               | ChainDepth \<Rightarrow> emit_if True ''DEPTH_LIMIT_EXCEEDED'' spot
                   ''alias expansion is bounded at the declared finite depth'' who locus
               | _ \<Rightarrow> emit_if (\<not> resolvable (ax_types ctx) (ax_fields ctx) (get ty ''target'') \<and> strictReference)
                   ''UNRESOLVED_TYPE_REF'' spot
                   ''the alias target resolves to no declared type'' who locus))"

definition variant_events :: "admit_context \<Rightarrow> jsstr \<Rightarrow> jsval \<Rightarrow> nat \<Rightarrow> jsval \<Rightarrow> admit_event list" where
  "variant_events ctx typePointer ty i variant =
     (let pointer = typePointer @ js ''/variants/'' @ nat_text i;
          locus = nearestLocus [variant, ty]; who = get variant ''identity''
      in claims_of variant pointer who locus @
         emit_if (get variant ''payloadType'' \<noteq> Undefined \<and>
             \<not> resolvable (ax_types ctx) (ax_fields ctx) (get variant ''payloadType''))
           ''UNRESOLVED_VARIANT_PAYLOAD'' (pointer @ js ''/payloadType'')
           ''a variant payload type resolves to a declared type'' who locus)"

definition field_events :: "admit_context \<Rightarrow> jsstr \<Rightarrow> jsval \<Rightarrow> nat \<Rightarrow> jsval \<Rightarrow> bool \<Rightarrow> admit_event list" where
  "field_events ctx typePointer ty i field repeats =
     (let pointer = typePointer @ js ''/fields/'' @ nat_text i;
          locus = nearestLocus [field, ty]; who = get field ''identity''
      in claims_of field pointer who locus @
         (if \<not> is_object field then []
          else emit_if repeats ''DUPLICATE_FIELD_NAME'' (pointer @ js ''/name'')
              ''field names are unique within a record'' who locus @
            fieldChecks ctx field pointer locus ty))"

definition relationship_events :: "admit_context \<Rightarrow> jsstr \<Rightarrow> jsval \<Rightarrow> nat \<Rightarrow> jsval \<Rightarrow> admit_event list" where
  "relationship_events ctx typePointer ty i relationship =
     (let pointer = typePointer @ js ''/relationships/'' @ nat_text i;
          locus = nearestLocus [relationship, ty]; who = get relationship ''identity'';
          targetType = get (get relationship ''targetEnd'') ''type'';
          sourceType = get (get relationship ''sourceEnd'') ''type''
      in claims_of relationship pointer who locus @
         (if \<not> is_object relationship then []
          else emit_if (map_of (ax_types ctx) targetType = None \<and> targetType \<notin> set (ax_exported ctx))
              ''UNRESOLVED_RELATIONSHIP_TARGET'' (pointer @ js ''/targetEnd/type'')
              ''a relationship target resolves to a document type or a lock export'' who locus @
            emit_if (sourceType \<noteq> Undefined \<and> sourceType \<noteq> get ty ''identity'')
              ''INVALID_RELATIONSHIP_SOURCE'' (pointer @ js ''/sourceEnd/type'')
              ''a relationship's source end names the type declaring it'' who locus))"

definition param_events :: "admit_context \<Rightarrow> jsstr \<Rightarrow> jsval \<Rightarrow> jsval \<Rightarrow> nat \<Rightarrow> jsval \<Rightarrow> bool \<Rightarrow> admit_event list" where
  "param_events ctx operationPointer operation ty i param repeats =
     (let pointer = operationPointer @ js ''/params/'' @ nat_text i;
          locus = nearestLocus [param, operation, ty]; who = get param ''identity''
      in claims_of param pointer who locus @
         (if \<not> is_object param then []
          else emit_if repeats ''DUPLICATE_PARAM'' (pointer @ js ''/name'')
              ''parameter names are unique within an operation'' who locus @
            fieldChecks ctx param pointer locus Undefined))"

definition condition_events :: "jsval list \<Rightarrow> jsstr \<Rightarrow> jsval \<Rightarrow> jsval \<Rightarrow> string \<Rightarrow> admit_event list" where
  "condition_events declared operationPointer operation locus member =
     each_item (\<lambda>i reference.
       emit_if (is_string reference \<and> reference \<notin> set declared)
         ''DANGLING_CLAUSE_REF'' (operationPointer @ js ''/'' @ js member @ js ''/'' @ nat_text i)
         ''a precondition names a clauseId the type declares'' (get operation ''identity'') locus)
       (get operation member)"

definition operation_events :: "admit_context \<Rightarrow> jsstr \<Rightarrow> jsval \<Rightarrow> nat \<Rightarrow> jsval \<Rightarrow> admit_event list" where
  "operation_events ctx typePointer ty i operation =
     (let pointer = typePointer @ js ''/operations/'' @ nat_text i;
          locus = nearestLocus [operation, ty]; who = get operation ''identity'';
          declared = map (\<lambda>c. get c ''clauseId'') (list_of (get ty ''clauses''));
          returned = get operation ''returns''
      in claims_of operation pointer who locus @
         (if \<not> is_object operation then []
          else each_named (param_events ctx pointer operation ty) ''name'' [] 0 (list_of (get operation ''params'')) @
            condition_events declared pointer operation locus ''pre'' @
            condition_events declared pointer operation locus ''post'' @
            emit_if (is_object returned \<and>
                \<not> resolvable (ax_types ctx) (ax_fields ctx) (get returned ''typeRef''))
              ''UNRESOLVED_TYPE_REF'' (pointer @ js ''/returns/typeRef'')
              ''an operation return type resolves to a declared type'' who locus))"

definition clause_events :: "jsstr \<Rightarrow> jsval \<Rightarrow> nat \<Rightarrow> jsval \<Rightarrow> bool \<Rightarrow> admit_event list" where
  "clause_events typePointer ty i clause repeats =
     (let pointer = typePointer @ js ''/clauses/'' @ nat_text i;
          locus = nearestLocus [clause, ty]; who = get clause ''identity''
      in claims_of clause pointer who locus @
         (if \<not> is_object clause then []
          else emit_if repeats ''DUPLICATE_CLAUSE_ID'' (pointer @ js ''/clauseId'')
              ''a clauseId is declared once per type'' who locus @
            emit_if (is_object (get clause ''origin'') \<and> get (get clause ''origin'') ''source'' \<noteq> Undefined \<and>
                \<not> usableLocus (get clause ''sourceSpan''))
              ''MISSING_SOURCE_SPAN'' (pointer @ js ''/sourceSpan'')
              ''a source-originated clause carries a source span'' who locus))"

definition admit_type_events :: "admit_context \<Rightarrow> nat \<Rightarrow> jsval \<Rightarrow> admit_event list" where
  "admit_type_events ctx i ty =
     (let pointer = pointerOf [js ''ir'', js ''types'', nat_text i]
      in claims_of ty pointer (get ty ''identity'') (locusOf ty) @
         element_events ctx pointer ty @
         alias_events ctx pointer ty @
         each_item (variant_events ctx pointer ty) (get ty ''variants'') @
         constraintChecks ctx (get ty ''constraints'') pointer [ty] @
         each_named (field_events ctx pointer ty) ''name'' [] 0 (list_of (get ty ''fields'')) @
         each_item (relationship_events ctx pointer ty) (get ty ''relationships'') @
         each_item (operation_events ctx pointer ty) (get ty ''operations'') @
         each_named (clause_events pointer ty) ''clauseId'' [] 0 (list_of (get ty ''clauses'')))"

section \<open>The document and the packages\<close>

definition occurrence_events :: "admit_context \<Rightarrow> nat \<Rightarrow> jsval \<Rightarrow> admit_event list" where
  "occurrence_events ctx i occurrence =
     (let pointer = pointerOf [js ''ir'', js ''occurrences'', nat_text i]; who = get occurrence ''identity''
      in claims_of occurrence pointer who Undefined @
         emit_if (is_object occurrence \<and> map_of (ax_types ctx) (get occurrence ''definition'') = None)
           ''UNRESOLVED_OCCURRENCE_DEFINITION'' (pointer @ js ''/definition'')
           ''an occurrence names a definition a type declares'' who Undefined)"

definition composite_edges :: "jsval \<Rightarrow> (nat \<times> jsval) list" where
  "composite_edges ty =
     filter (\<lambda>(j, r). is_object r \<and> get r ''composite'' = Bool True)
       (List.enumerate 0 (list_of (get ty ''relationships'')))"

definition edge_end :: "jsval \<Rightarrow> jsval" where
  "edge_end r = get (get r ''targetEnd'') ''type''"

definition outgoing_table :: "jsval list \<Rightarrow> (jsval \<times> jsval list) list" where
  "outgoing_table types =
     foldl (\<lambda>m ty. if is_object ty
         then AList.update (get ty ''identity'') (map (\<lambda>(j, r). edge_end r) (composite_edges ty)) m
         else m) [] types"

text \<open>The two identities as texts, a NUL between them.\<close>

definition edge_key :: "jsval \<Rightarrow> jsval \<Rightarrow> jsstr" where
  "edge_key identity target = to_text identity @ 0 # to_text target"

definition edge_site :: "nat \<Rightarrow> jsval \<Rightarrow> nat \<times> jsval \<Rightarrow> jsstr \<times> admit_row" where
  "edge_site i ty e =
     (case e of (j, r) \<Rightarrow>
       (edge_key (get ty ''identity'') (edge_end r),
        admit_diagnostic ''COMPOSITE_CYCLE''
          (pointerOf [js ''ir'', js ''types'', nat_text i, js ''relationships'', nat_text j,
             js ''targetEnd'', js ''type''])
          ''the graph of composite relationships is acyclic''
          (get r ''identity'') (nearestLocus [r, ty])))"

text \<open>\<open>locate\<close>: where an edge is declared last.\<close>

definition edge_sites :: "jsval list \<Rightarrow> (jsstr \<times> admit_row) list" where
  "edge_sites types =
     foldl (\<lambda>m (k, s). AList.update k s m) []
       (concat (map (\<lambda>(i, ty). if is_object ty then map (edge_site i ty) (composite_edges ty) else [])
         (List.enumerate 0 types)))"

fun cycle_events :: "(jsstr \<times> admit_row) list \<Rightarrow> jsstr list \<Rightarrow> (jsval \<times> jsval) list \<Rightarrow> admit_event list" where
  "cycle_events sites done_keys [] = []"
| "cycle_events sites done_keys ((n, t) # rest) =
     (if edge_key n t \<in> set done_keys then cycle_events sites done_keys rest
      else (case map_of sites (edge_key n t) of None \<Rightarrow> [] | Some r \<Rightarrow> [Emits r]) @
        cycle_events sites (done_keys @ [edge_key n t]) rest)"

definition ts_compositeCycles :: "jsval list \<Rightarrow> admit_event list" where
  "ts_compositeCycles types =
     (case search_graph (\<lambda>t. t) (outgoing_table types) of
        None \<Rightarrow> []
      | Some st \<Rightarrow> cycle_events (edge_sites types) [] (ds_closing st))"

definition document_extension :: "jsval \<Rightarrow> nat \<Rightarrow> jsval \<Rightarrow> admit_event list" where
  "document_extension bundle i extension =
     (let policy = get bundle ''consumerPolicy'';
          declared = list_of (get (get bundle ''manifest'') ''extensions'')
      in if get extension ''required'' \<noteq> Bool True then []
         else if \<not> is_object policy
           then [Suppresses (js ''unknown-required-extension'') (get extension ''identity'')]
         else emit_if (get policy ''unknownExtensions'' = Str (js ''reject'') \<and>
             get extension ''identity'' \<notin> set declared)
           ''UNKNOWN_REQUIRED_EXTENSION''
           (pointerOf [js ''ir'', js ''extensions'', nat_text i] @ js ''/identity'')
           ''a required extension names a capability the consumer policy admits''
           (get extension ''identity'') Undefined)"

text \<open>\<open>index\<close> of \<open>reportPackageCycle\<close>: each identity with its last position and entry.\<close>

definition package_index :: "jsval list \<Rightarrow> (jsval \<times> nat \<times> jsval) list" where
  "package_index packages =
     foldl (\<lambda>m (i, entry). if is_object entry then AList.update (get entry ''identity'') (i, entry) m else m) []
       (List.enumerate 0 packages)"

definition import_table :: "(jsval \<times> nat \<times> jsval) list \<Rightarrow> (jsval \<times> jsval list) list" where
  "import_table packages = map (\<lambda>(k, i, entry). (k, list_of (get entry ''imports''))) packages"

fun package_cycle_events ::
  "(jsval \<times> nat \<times> jsval) list \<Rightarrow> jsval list \<Rightarrow> (jsval \<times> jsval) list \<Rightarrow> admit_event list" where
  "package_cycle_events packages done_keys [] = []"
| "package_cycle_events packages done_keys ((n, t) # rest) =
     (if n \<in> set done_keys then package_cycle_events packages done_keys rest
      else (case map_of packages n of
              None \<Rightarrow> []
            | Some (i, entry) \<Rightarrow> emit_if True ''PACKAGE_CYCLE''
                (pointerOf [js ''packageGraph'', js ''packages'', nat_text i, js ''imports''])
                ''the selected package graph is acyclic'' Undefined Undefined) @
        package_cycle_events packages (done_keys @ [n]) rest)"

definition reportPackageCycle :: "jsval \<Rightarrow> admit_event list" where
  "reportPackageCycle graph =
     (let packages = package_index (list_of (get graph ''packages''))
      in case search_graph (\<lambda>t. t) (import_table packages) of
           None \<Rightarrow> []
         | Some st \<Rightarrow> package_cycle_events packages [] (ds_closing st))"

definition import_events :: "jsval \<Rightarrow> jsval \<Rightarrow> admit_event list" where
  "import_events manifest graph =
     (let resolved = map (\<lambda>e. get e ''identity'') (list_of (get graph ''packages''))
      in if \<not> is_object manifest then [Suppresses (js ''unresolved-import'') (Str (js ''manifest''))]
         else if \<not> is_object graph then [Suppresses (js ''unresolved-import'') (Str (js ''packageGraph''))]
         else each_item (\<lambda>i entry.
           emit_if (get entry ''packageIdentity'' \<notin> set resolved) ''UNRESOLVED_IMPORT''
             (pointerOf [js ''manifest'', js ''imports'', nat_text i, js ''packageIdentity''])
             ''an import names a package the package graph resolves'' Undefined Undefined)
           (get manifest ''imports''))"

definition is_entity :: "jsval \<Rightarrow> bool" where
  "is_entity ty =
     list_ex (\<lambda>role. case role of Str s \<Rightarrow> ends_with s (js '':entity'') | _ \<Rightarrow> False) (list_of (get ty ''roles''))"

definition loss_events :: "jsval \<Rightarrow> jsval list \<Rightarrow> admit_event list" where
  "loss_events bundle types =
     (let manifest = get bundle ''manifest'';
          exported = map (\<lambda>e. get e ''typeIdentity'') (list_of (get manifest ''exports''));
          omitted = list_of (get (get bundle ''profile'') ''allowedOmissions'')
      in if \<not> is_object manifest then [Suppresses (js ''undeclared-loss'') (Str (js ''manifest''))]
         else each_item (\<lambda>i ty.
           emit_if (is_object ty \<and> is_entity ty \<and>
               \<not> (get ty ''identity'' \<in> set exported \<or> get ty ''identity'' \<in> set omitted))
             ''UNDECLARED_LOSS'' (pointerOf [js ''ir'', js ''types'', nat_text i, js ''identity''])
             ''an entity type the manifest exports or the profile declares omitted''
             (get ty ''identity'') (locusOf ty)) (Arr types))"

definition mapping_target_events :: "node_map \<Rightarrow> jsval \<Rightarrow> admit_event list" where
  "mapping_target_events types mappings =
     (if \<not> is_array mappings then [Suppresses (js ''unknown-mapping-target'') (Str (js ''mappings''))]
      else each_item (\<lambda>i mapping.
        emit_if (is_object mapping \<and> map_of types (get mapping ''sourceType'') = None)
          ''UNKNOWN_MAPPING_TARGET'' (pointerOf [js ''mappings'', nat_text i, js ''sourceType''])
          ''a mapping names a semantic identity a declaration owns'' (get mapping ''identity'') Undefined)
        mappings)"

definition packageChecks :: "jsval \<Rightarrow> jsval list \<Rightarrow> node_map \<Rightarrow> admit_event list" where
  "packageChecks bundle documentTypes types =
     import_events (get bundle ''manifest'') (get bundle ''packageGraph'') @
     (if \<not> is_object (get bundle ''packageGraph'')
      then [Suppresses (js ''package-cycle'') (Str (js ''packageGraph''))]
      else reportPackageCycle (get bundle ''packageGraph'')) @
     mapping_target_events types (get bundle ''mappings'') @
     loss_events bundle documentTypes @
     (if is_object (get bundle ''consumerPolicy'') then []
      else [Suppresses (js ''unknown-required-extension'') (Str (js ''consumerPolicy''))])"

section \<open>The reader\<close>

definition admit_context_of :: "(jsval \<Rightarrow> bool) \<Rightarrow> bool \<Rightarrow> nat \<Rightarrow> jsval \<Rightarrow> admit_context" where
  "admit_context_of compiles strict depth_cap bundle =
     (let types = list_of (get (get bundle ''ir'') ''types'')
      in \<lparr>ax_types = nodes_by_identity types,
          ax_fields = nodes_by_identity (concat (map (\<lambda>ty. list_of (get ty ''fields'')) types)),
          ax_depth = depth_cap, ax_compiles = compiles, ax_strict = strict,
          ax_exported = filter is_string
            (map (\<lambda>e. get e ''typeIdentity'') (list_of (get (get bundle ''manifest'') ''exports'')))\<rparr>)"

definition cross_field_events :: "admit_context \<Rightarrow> jsval \<Rightarrow> admit_event list" where
  "cross_field_events ctx bundle =
     (let ir = get bundle ''ir''
      in each_item (admit_type_events ctx) (get ir ''types'') @
         each_item (occurrence_events ctx) (get ir ''occurrences'') @
         ts_compositeCycles (list_of (get ir ''types'')) @
         claimExtensions ir (pointerOf [js ''ir'']) (get (get ir ''package'') ''identity'') Undefined @
         each_item (document_extension bundle) (get ir ''extensions'') @
         packageChecks bundle (list_of (get ir ''types'')) (ax_types ctx))"

datatype admit_error = NoSchemas | NoCanonicalText ts_canon_error

definition finish_with ::
  "admit_row list \<Rightarrow> (jsstr \<times> jsval) list \<Rightarrow> admit_limits \<Rightarrow> admit_error + admit_verdict" where
  "finish_with rows suppressions limits =
     (case finish_verdict rows suppressions limits of
        Inl e \<Rightarrow> Inl (NoCanonicalText e) | Inr v \<Rightarrow> Inr v)"

text \<open>
  \<open>validate\<close> stands for the compiled schema of the bundle: \<open>None\<close> for a valid one, else the instance
  paths of its errors; it is missing where the caller supplies no schemas. \<open>compiles\<close> is whether
  \<open>new RegExp\<close> accepts a pattern, \<open>strict\<close> the reference policy.
\<close>

definition admitIr ::
  "(jsval \<Rightarrow> jsstr list option) option \<Rightarrow> (jsval \<Rightarrow> bool) \<Rightarrow> bool \<Rightarrow> admit_limits \<Rightarrow> jsval \<Rightarrow>
     admit_error + admit_verdict" where
  "admitIr schemas compiles strict limits bundle =
     (if \<not> is_object bundle \<or> \<not> is_object (get bundle ''ir'') then
        finish_with [admit_diagnostic ''INVALID_DOCUMENT'' []
          ''the value is not a conformance input bundle'' Undefined Undefined] [] limits
      else (case schemas of
          None \<Rightarrow> Inl NoSchemas
        | Some validate \<Rightarrow>
            (case validate bundle of
               Some paths \<Rightarrow> finish_with (collapseSchemaErrors paths bundle) [] limits
             | None \<Rightarrow>
                 if al_maxNodes limits < countNodes (get bundle ''ir'') (al_maxNodes limits) then
                   finish_with [] [(js ''cross-field-rules'', Str (js ''maxNodes''))] limits
                 else if al_maxCollectionItems limits < widestCollection (get bundle ''ir'') then
                   finish_with [] [(js ''cross-field-rules'', Str (js ''maxCollectionItems''))] limits
                 else
                   (let es = cross_field_events
                        (admit_context_of compiles strict (al_maxDepth limits) bundle) bundle
                    in finish_with (replay [] es) (suppressed_in es) limits))))"

end
