(* ===== verification/TsChains.thy ===== *)
theory TsChains
  imports TsAdmission
begin

text \<open>
  What the reference walk of the TypeScript reader computes: the references from a start are a path,
  each given by the field or the alias the one before it names, and the outcome of \<open>resolveChain\<close> is
  told from the first \<open>depth_cap\<close> steps of that path.
\<close>

section \<open>The path of a reference\<close>

definition ref_next :: "node_map \<Rightarrow> node_map \<Rightarrow> jsval \<Rightarrow> jsval option" where
  "ref_next types fieldmap r =
     (if \<not> is_string r \<or> ts_nativeScalar r \<noteq> None then None
      else (case map_of fieldmap r of
          Some field \<Rightarrow> Some (get field ''typeRef'')
        | None \<Rightarrow>
            (case map_of types r of
               Some ty \<Rightarrow> if get ty ''kind'' \<in> set ALIAS_KINDS then Some (get ty ''target'') else None
             | None \<Rightarrow> None)))"

fun ref_at :: "node_map \<Rightarrow> node_map \<Rightarrow> jsval \<Rightarrow> nat \<Rightarrow> jsval option" where
  "ref_at types fieldmap r 0 = Some r"
| "ref_at types fieldmap r (Suc n) = Option.bind (ref_at types fieldmap r n) (ref_next types fieldmap)"

text \<open>What a reference that leads to no further one stands for.\<close>

definition chain_end :: "node_map \<Rightarrow> jsval \<Rightarrow> chain" where
  "chain_end types r =
     (if \<not> is_string r then ChainAbsent
      else (case ts_nativeScalar r of
          Some scalar \<Rightarrow> ChainResolved (native_node scalar)
        | None \<Rightarrow> (case map_of types r of None \<Rightarrow> ChainAbsent | Some ty \<Rightarrow> ChainResolved ty)))"

text \<open>The path ends, or comes back to itself, within \<open>cap\<close> steps.\<close>

definition path_ends :: "node_map \<Rightarrow> node_map \<Rightarrow> jsval \<Rightarrow> nat \<Rightarrow> jsval \<Rightarrow> bool" where
  "path_ends types fieldmap r cap c \<longleftrightarrow>
     (\<exists>n\<le>cap. ref_at types fieldmap r n = Some c \<and> ref_next types fieldmap c = None)"

definition path_loops :: "node_map \<Rightarrow> node_map \<Rightarrow> jsval \<Rightarrow> nat \<Rightarrow> bool" where
  "path_loops types fieldmap r cap \<longleftrightarrow>
     (\<exists>n\<le>cap. \<exists>m<n. ref_at types fieldmap r n \<noteq> None \<and> ref_at types fieldmap r n = ref_at types fieldmap r m)"

lemma chain_end_cases: "chain_end types c \<noteq> ChainCycle" "chain_end types c \<noteq> ChainDepth"
  by (auto simp: chain_end_def split: option.splits)

text \<open>One step of the walk.\<close>

lemma follow_chain_step:
  "follow_chain types fieldmap cap past k c =
     (case ref_next types fieldmap c of
        None \<Rightarrow> if c \<in> set past \<and> is_string c \<and> ts_nativeScalar c = None then ChainCycle else chain_end types c
      | Some d \<Rightarrow>
          if c \<in> set past then ChainCycle
          else if cap < Suc k then ChainDepth
          else follow_chain types fieldmap cap (past @ [c]) (Suc k) d)"
  by (subst follow_chain.simps) (auto simp: ref_next_def chain_end_def split: option.splits)

text \<open>The references seen after \<open>k\<close> steps.\<close>

definition path_prefix :: "node_map \<Rightarrow> node_map \<Rightarrow> jsval \<Rightarrow> nat \<Rightarrow> jsval list" where
  "path_prefix types fieldmap r k = map (\<lambda>n. the (ref_at types fieldmap r n)) [0..<k]"

lemma ref_at_earlier:
  "ref_at types fieldmap r n \<noteq> None \<Longrightarrow> m \<le> n \<Longrightarrow> ref_at types fieldmap r m \<noteq> None"
  by (induction n) (auto simp: le_Suc_eq split: bind_splits)

lemma ref_at_shift:
  "ref_at types fieldmap r n = ref_at types fieldmap r m \<Longrightarrow>
     ref_at types fieldmap r (n + j) = ref_at types fieldmap r (m + j)"
  by (induction j) auto

lemma walk_outcome:
  assumes "k \<le> cap" and "ref_at types fieldmap r k = Some c"
    and "distinct (path_prefix types fieldmap r k)"
  shows "case follow_chain types fieldmap cap (path_prefix types fieldmap r k) k c of
      ChainCycle \<Rightarrow> path_loops types fieldmap r cap
    | ChainDepth \<Rightarrow> ref_at types fieldmap r (Suc cap) \<noteq> None \<and> distinct (path_prefix types fieldmap r (Suc cap))
    | x \<Rightarrow> \<exists>e. path_ends types fieldmap r cap e \<and> x = chain_end types e"
  using assms
proof (induction "cap - k" arbitrary: k c rule: less_induct)
  case (less k c)
  note at = less.prems(2)
  have pre: "path_prefix types fieldmap r (Suc k) = path_prefix types fieldmap r k @ [c]"
    using at by (simp add: path_prefix_def)
  have mem: "\<exists>m<k. ref_at types fieldmap r m = Some x" if "x \<in> set (path_prefix types fieldmap r k)" for x
  proof -
    from that obtain m where m: "m < k" "x = the (ref_at types fieldmap r m)"
      by (auto simp: path_prefix_def)
    then have "ref_at types fieldmap r m \<noteq> None" using ref_at_earlier [of types fieldmap r k m] at by simp
    then show ?thesis using m by auto
  qed
  show ?case
  proof (cases "ref_next types fieldmap c")
    case None
    have "c \<notin> set (path_prefix types fieldmap r k)"
    proof
      assume "c \<in> set (path_prefix types fieldmap r k)"
      from mem [OF this] obtain m where m: "m < k" "ref_at types fieldmap r m = Some c" by blast
      then have "ref_at types fieldmap r (Suc m) = None" using None by simp
      then show False using ref_at_earlier [of types fieldmap r k "Suc m"] m(1) at by simp
    qed
    then have f: "follow_chain types fieldmap cap (path_prefix types fieldmap r k) k c = chain_end types c"
      by (simp add: follow_chain_step [of _ _ _ _ _ c] None)
    have "path_ends types fieldmap r cap c" using less.prems(1) at None by (auto simp: path_ends_def)
    then show ?thesis unfolding f by (cases "chain_end types c") (auto simp: chain_end_cases dest: sym)
  next
    case (Some d)
    then have next_at: "ref_at types fieldmap r (Suc k) = Some d" using at by simp
    show ?thesis
    proof (cases "c \<in> set (path_prefix types fieldmap r k)")
      case True
      from mem [OF this] obtain m where "m < k" "ref_at types fieldmap r m = Some c" by blast
      then have "path_loops types fieldmap r cap"
        using less.prems(1) at unfolding path_loops_def by (intro exI [of _ k]) auto
      then show ?thesis by (simp add: follow_chain_step [of _ _ _ _ _ c] Some True)
    next
      case False
      have d: "distinct (path_prefix types fieldmap r (Suc k))" using less.prems(3) False by (simp add: pre)
      show ?thesis
      proof (cases "cap < Suc k")
        case True
        then have "k = cap" using less.prems(1) by simp
        then show ?thesis using False True next_at d by (simp add: follow_chain_step [of _ _ _ _ _ c] Some)
      next
        case deeper: False
        have "follow_chain types fieldmap cap (path_prefix types fieldmap r k) k c =
            follow_chain types fieldmap cap (path_prefix types fieldmap r (Suc k)) (Suc k) d"
          using False deeper by (simp add: follow_chain_step [of _ _ _ _ _ c] Some pre)
        then show ?thesis using less.hyps [OF _ _ next_at d] deeper by simp
      qed
    qed
  qed
qed

text \<open>A path that comes back to itself never ends.\<close>

lemma loop_never_ends:
  assumes "m < n" and "ref_at types fieldmap r n \<noteq> None"
    and "ref_at types fieldmap r n = ref_at types fieldmap r m"
  shows "ref_at types fieldmap r j \<noteq> None"
proof (induction j rule: less_induct)
  case (less j)
  show ?case
  proof (cases "j \<le> n")
    case True
    then show ?thesis by (rule ref_at_earlier [OF assms(2)])
  next
    case False
    then have "ref_at types fieldmap r j = ref_at types fieldmap r (m + (j - n))"
      using ref_at_shift [OF assms(3), of "j - n"] by simp
    then show ?thesis using less.IH [of "m + (j - n)"] False assms(1) by simp
  qed
qed

lemma loops_not_ends: "path_loops types fieldmap r cap \<Longrightarrow> \<not> path_ends types fieldmap r cap' c"
proof
  assume "path_loops types fieldmap r cap" and "path_ends types fieldmap r cap' c"
  then obtain n where "ref_at types fieldmap r n = Some c" "ref_next types fieldmap c = None"
    "\<And>j. ref_at types fieldmap r j \<noteq> None"
    using loop_never_ends unfolding path_loops_def path_ends_def by blast
  moreover from this have "ref_at types fieldmap r (Suc n) = None" by simp
  ultimately show False by blast
qed

lemma path_ends_once:
  assumes "path_ends types fieldmap r cap c" and "path_ends types fieldmap r cap' d"
  shows "c = d"
proof -
  obtain n m where n: "ref_at types fieldmap r n = Some c" "ref_next types fieldmap c = None"
    and m: "ref_at types fieldmap r m = Some d" "ref_next types fieldmap d = None"
    using assms by (auto simp: path_ends_def)
  have "\<not> m < n" using ref_at_earlier [of types fieldmap r n "Suc m"] n m by auto
  moreover have "\<not> n < m" using ref_at_earlier [of types fieldmap r m "Suc n"] n m by auto
  ultimately show ?thesis using n m by (cases m n rule: linorder_cases) auto
qed

lemma long_path:
  assumes "ref_at types fieldmap r (Suc cap) \<noteq> None"
    and "distinct (path_prefix types fieldmap r (Suc cap))"
  shows "\<not> path_ends types fieldmap r cap c" and "\<not> path_loops types fieldmap r cap"
proof -
  show "\<not> path_ends types fieldmap r cap c"
  proof
    assume "path_ends types fieldmap r cap c"
    then obtain n where "n \<le> cap" "ref_at types fieldmap r (Suc n) = None" by (auto simp: path_ends_def)
    then show False using ref_at_earlier [OF assms(1), of "Suc n"] by simp
  qed
  show "\<not> path_loops types fieldmap r cap"
  proof
    assume "path_loops types fieldmap r cap"
    then obtain n m where nm: "n \<le> cap" "m < n"
      "ref_at types fieldmap r n = ref_at types fieldmap r m" by (auto simp: path_loops_def)
    have "path_prefix types fieldmap r (Suc cap) ! n = path_prefix types fieldmap r (Suc cap) ! m"
      using nm by (simp add: path_prefix_def del: upt_Suc)
    moreover have "length (path_prefix types fieldmap r (Suc cap)) = Suc cap"
      by (simp add: path_prefix_def del: upt_Suc)
    ultimately show False using nth_eq_iff_index_eq [OF assms(2), of n m] nm by simp
  qed
qed

lemma resolveChain_cases:
  "case resolveChain types fieldmap r cap of
      ChainCycle \<Rightarrow> path_loops types fieldmap r cap
    | ChainDepth \<Rightarrow> ref_at types fieldmap r (Suc cap) \<noteq> None \<and> distinct (path_prefix types fieldmap r (Suc cap))
    | x \<Rightarrow> \<exists>e. path_ends types fieldmap r cap e \<and> x = chain_end types e"
  using walk_outcome [of 0 cap types fieldmap r r] by (simp add: resolveChain_def path_prefix_def)

section \<open>The outcome of the walk\<close>

text \<open>
  The reference walk always returns, and what it returns is told from the path of references: it
  is what the last reference of the path stands for where the path ends within the depth limit, a
  cycle exactly where the path comes back to an earlier reference within it, and the depth outcome
  exactly where neither happens. A path that comes back to itself only after more steps than the limit is a
  depth outcome, where FR-068 asks for a cycle.
\<close>

lemma resolveChain_exact:
  "(resolveChain types fieldmap r cap = ChainResolved ty \<longleftrightarrow>
      (\<exists>c. path_ends types fieldmap r cap c \<and> chain_end types c = ChainResolved ty)) \<and>
   (resolveChain types fieldmap r cap = ChainAbsent \<longleftrightarrow>
      (\<exists>c. path_ends types fieldmap r cap c \<and> chain_end types c = ChainAbsent)) \<and>
   (resolveChain types fieldmap r cap = ChainCycle \<longleftrightarrow> path_loops types fieldmap r cap) \<and>
   (resolveChain types fieldmap r cap = ChainDepth \<longleftrightarrow>
      (\<nexists>c. path_ends types fieldmap r cap c) \<and> \<not> path_loops types fieldmap r cap)"
proof (cases "resolveChain types fieldmap r cap")
  case ChainCycle
  then have l: "path_loops types fieldmap r cap" using resolveChain_cases [of types fieldmap r cap] by simp
  then show ?thesis using loops_not_ends by (simp add: ChainCycle)
next
  case ChainDepth
  then have "ref_at types fieldmap r (Suc cap) \<noteq> None" "distinct (path_prefix types fieldmap r (Suc cap))"
    using resolveChain_cases [of types fieldmap r cap] by simp_all
  from long_path [OF this] show ?thesis by (simp add: ChainDepth)
next
  case (ChainResolved t)
  then obtain e where e: "path_ends types fieldmap r cap e" "chain_end types e = ChainResolved t"
    using resolveChain_cases [of types fieldmap r cap] by auto
  have "path_ends types fieldmap r cap c \<longleftrightarrow> c = e" for c using path_ends_once e(1) by blast
  moreover have "\<not> path_loops types fieldmap r cap" using loops_not_ends e(1) by blast
  ultimately show ?thesis using e(2) by (auto simp: ChainResolved)
next
  case ChainAbsent
  then obtain e where e: "path_ends types fieldmap r cap e" "chain_end types e = ChainAbsent"
    using resolveChain_cases [of types fieldmap r cap] by auto
  have "path_ends types fieldmap r cap c \<longleftrightarrow> c = e" for c using path_ends_once e(1) by blast
  moreover have "\<not> path_loops types fieldmap r cap" using loops_not_ends e(1) by blast
  ultimately show ?thesis using e(2) by (auto simp: ChainAbsent)
qed

end
