(* ===== verification/TsAdmitSound.thy ===== *)
theory TsAdmitSound
  imports TsAdmit TsChains
begin

text \<open>
  What the verdict of the TypeScript reader means. \<open>admissible\<close> states the rules of the document and
  of its packages as conditions on the bundle; a bundle the schema accepts gets the state \<open>success\<close>
  exactly when it meets them, or is larger than the bounds under which the rules are run.
\<close>

section \<open>Rows and claims of a list of events\<close>

definition emitted :: "admit_event list \<Rightarrow> admit_row list" where
  "emitted es = concat (map (\<lambda>e. case e of Emits r \<Rightarrow> [r] | _ \<Rightarrow> []) es)"

definition claimed_ids :: "admit_event list \<Rightarrow> jsval list" where
  "claimed_ids es = concat (map (\<lambda>e. case e of Claims i r \<Rightarrow> [i] | _ \<Rightarrow> []) es)"

definition emits_nothing :: "admit_event list \<Rightarrow> bool" where
  "emits_nothing es \<longleftrightarrow> emitted es = []"

lemma event_simps [simp]:
  "emits_nothing []" "emits_nothing (es @ fs) \<longleftrightarrow> emits_nothing es \<and> emits_nothing fs" "\<not> emits_nothing (Emits r # es)"
  "emits_nothing (Claims i r # es) \<longleftrightarrow> emits_nothing es" "emits_nothing (Suppresses rule i # es) \<longleftrightarrow> emits_nothing es"
  "claimed_ids [] = []" "claimed_ids (es @ fs) = claimed_ids es @ claimed_ids fs"
  "claimed_ids (Emits r # es) = claimed_ids es" "claimed_ids (Claims i r # es) = i # claimed_ids es"
  "claimed_ids (Suppresses rule i # es) = claimed_ids es"
  "emits_nothing (emit_if c n p m w l) \<longleftrightarrow> \<not> c" "claimed_ids (emit_if c n p m w l) = []"
  by (auto simp: emits_nothing_def emitted_def claimed_ids_def emit_if_def)

lemma replay_silent:
  "replay past es = [] \<longleftrightarrow> emits_nothing es \<and> distinct (claimed_ids es) \<and> set (claimed_ids es) \<inter> set past = {}"
  by (induction past es rule: replay.induct) auto

lemma emits_nothing_concat: "emits_nothing (concat ess) \<longleftrightarrow> (\<forall>es\<in>set ess. emits_nothing es)"
  by (induction ess) auto

lemma claimed_concat: "claimed_ids (concat ess) = concat (map claimed_ids ess)"
  by (induction ess) auto

lemma each_item_quiet:
  assumes "\<And>i x. emits_nothing (f i x) = P x"
  shows "emits_nothing (each_item f v) \<longleftrightarrow> (\<forall>x\<in>set (list_of v). P x)"
proof -
  have "emits_nothing (each_item f v) \<longleftrightarrow> (\<forall>x\<in>snd ` set (List.enumerate 0 (list_of v)). P x)"
    using assms by (auto simp: each_item_def emits_nothing_concat)
  also have "snd ` set (List.enumerate 0 (list_of v)) = set (list_of v)"
    by (metis list.set_map map_snd_enumerate)
  finally show ?thesis .
qed

lemma each_item_claims:
  assumes "\<And>i x. claimed_ids (f i x) = C x"
  shows "claimed_ids (each_item f v) = concat (map C (list_of v))"
proof -
  have "claimed_ids (each_item f v) = concat (map C (map snd (List.enumerate 0 (list_of v))))"
    unfolding each_item_def claimed_concat map_map comp_def
    by (intro arg_cong [of _ _ concat] map_cong) (auto simp: assms)
  then show ?thesis by simp
qed

lemma each_named_quiet:
  assumes "\<And>i x repeats. emits_nothing (body i x repeats) \<longleftrightarrow> P x \<and> (is_object x \<longrightarrow> \<not> repeats)"
  shows "emits_nothing (each_named body key past i xs) \<longleftrightarrow>
    (\<forall>x\<in>set xs. P x) \<and> distinct (map (\<lambda>x. get x key) (filter is_object xs)) \<and>
    set (map (\<lambda>x. get x key) (filter is_object xs)) \<inter> set past = {}"
  by (induction xs arbitrary: past i) (auto simp: assms)

lemma each_named_claims:
  assumes "\<And>i x repeats. claimed_ids (body i x repeats) = C x"
  shows "claimed_ids (each_named body key past i xs) = concat (map C xs)"
  by (induction xs arbitrary: past i) (auto simp: assms)

section \<open>Identities\<close>

definition identity_of :: "jsval \<Rightarrow> jsval list" where
  "identity_of v = filter is_string [get v ''identity'']"

definition part_ids :: "jsval \<Rightarrow> string \<Rightarrow> jsval list" where
  "part_ids v k = concat (map identity_of (list_of (get v k)))"

definition extensions_ok :: "jsval \<Rightarrow> bool" where
  "extensions_ok v \<longleftrightarrow> distinct (part_ids v ''extensions'')"

lemma extension_claims_quiet:
  "emits_nothing (extension_claims p w l past i xs) \<longleftrightarrow>
     distinct (concat (map identity_of xs)) \<and> set (concat (map identity_of xs)) \<inter> set past = {}"
  by (induction p w l past i xs rule: extension_claims.induct) (auto simp: identity_of_def)

lemma extension_claims_claims [simp]: "claimed_ids (extension_claims p w l past i xs) = []"
  by (induction p w l past i xs rule: extension_claims.induct) auto

lemma claims_of_simps [simp]:
  "emits_nothing (claims_of v p w l) \<longleftrightarrow> extensions_ok v" "claimed_ids (claims_of v p w l) = identity_of v"
  "emits_nothing (claimExtensions v p w l) \<longleftrightarrow> extensions_ok v" "claimed_ids (claimExtensions v p w l) = []"
  by (auto simp: claims_of_def claimIdentity_def claimExtensions_def extension_claims_quiet
      extensions_ok_def part_ids_def identity_of_def split: jsval.splits)

section \<open>The rules of a type\<close>

definition constraint_ok :: "admit_context \<Rightarrow> jsval \<Rightarrow> bool" where
  "constraint_ok ctx c \<longleftrightarrow> extensions_ok c \<and>
     (is_object c \<longrightarrow>
       (let subject = resolvedScalar (ax_types ctx) (ax_fields ctx) (get c ''appliesTo'') (ax_depth ctx);
            kind = ts_resolvedKind (ax_types ctx) (ax_fields ctx) (get c ''appliesTo'') (ax_depth ctx)
        in applies_to (get c ''keyword'') subject kind \<and> operandDefect c subject = None \<and>
           (get c ''keyword'' = Str (js ''pattern'') \<longrightarrow>
             ax_compiles ctx (coalesce (get (get c ''operands'') ''regex'') (Str [])))))"

definition constraints_ok :: "admit_context \<Rightarrow> jsval \<Rightarrow> bool" where
  "constraints_ok ctx v \<longleftrightarrow> (\<forall>c\<in>set (list_of (get v ''constraints'')). constraint_ok ctx c)"

definition names_distinct :: "jsval \<Rightarrow> string \<Rightarrow> string \<Rightarrow> bool" where
  "names_distinct v part key \<longleftrightarrow> distinct (map (\<lambda>x. get x key) (filter is_object (list_of (get v part))))"

definition refers :: "admit_context \<Rightarrow> jsval \<Rightarrow> bool" where
  "refers ctx r \<longleftrightarrow> resolvable (ax_types ctx) (ax_fields ctx) r"

definition field_ok :: "admit_context \<Rightarrow> jsval \<Rightarrow> bool" where
  "field_ok ctx f \<longleftrightarrow> extensions_ok f \<and>
     (is_object f \<longrightarrow>
       \<not> (is_object (get f ''multiplicity'') \<and> is_number (get (get f ''multiplicity'') ''upper'') \<and>
           js_less (get (get f ''multiplicity'') ''upper'') (get (get f ''multiplicity'') ''lower'')) \<and>
       (get f ''unit'' \<noteq> Undefined \<longrightarrow>
         resolvedScalar (ax_types ctx) (ax_fields ctx) (get f ''typeRef'') (ax_depth ctx) \<noteq> Undefined) \<and>
       refers ctx (get f ''typeRef'') \<and> constraints_ok ctx f)"

definition alias_ok :: "admit_context \<Rightarrow> jsval \<Rightarrow> bool" where
  "alias_ok ctx ty \<longleftrightarrow>
     (get ty ''kind'' \<in> set ALIAS_KINDS \<longrightarrow>
       resolveChain (ax_types ctx) (ax_fields ctx) (get ty ''identity'') (ax_depth ctx) \<noteq> ChainCycle \<and>
       resolveChain (ax_types ctx) (ax_fields ctx) (get ty ''identity'') (ax_depth ctx) \<noteq> ChainDepth \<and>
       (refers ctx (get ty ''target'') \<or> get ty ''kind'' = Str (js ''reference'') \<and> \<not> ax_strict ctx))"

definition variant_ok :: "admit_context \<Rightarrow> jsval \<Rightarrow> bool" where
  "variant_ok ctx v \<longleftrightarrow> extensions_ok v \<and>
     (get v ''payloadType'' \<noteq> Undefined \<longrightarrow> refers ctx (get v ''payloadType''))"

definition relationship_ok :: "admit_context \<Rightarrow> jsval \<Rightarrow> jsval \<Rightarrow> bool" where
  "relationship_ok ctx ty r \<longleftrightarrow> extensions_ok r \<and>
     (is_object r \<longrightarrow>
       (map_of (ax_types ctx) (edge_end r) \<noteq> None \<or> edge_end r \<in> set (ax_exported ctx)) \<and>
       (get (get r ''sourceEnd'') ''type'' = Undefined \<or>
        get (get r ''sourceEnd'') ''type'' = get ty ''identity''))"

definition operation_ok :: "admit_context \<Rightarrow> jsval \<Rightarrow> jsval \<Rightarrow> bool" where
  "operation_ok ctx ty p \<longleftrightarrow> extensions_ok p \<and>
     (is_object p \<longrightarrow>
       (\<forall>x\<in>set (list_of (get p ''params'')). field_ok ctx x) \<and> names_distinct p ''params'' ''name'' \<and>
       (\<forall>k\<in>{''pre'', ''post''}. \<forall>x\<in>set (list_of (get p k)). is_string x \<longrightarrow>
         x \<in> (\<lambda>c. get c ''clauseId'') ` set (list_of (get ty ''clauses''))) \<and>
       (is_object (get p ''returns'') \<longrightarrow> refers ctx (get (get p ''returns'') ''typeRef'')))"

definition clause_ok :: "jsval \<Rightarrow> bool" where
  "clause_ok c \<longleftrightarrow> extensions_ok c \<and>
     (is_object (get c ''origin'') \<and> get (get c ''origin'') ''source'' \<noteq> Undefined \<longrightarrow>
       usableLocus (get c ''sourceSpan''))"

definition type_ok :: "admit_context \<Rightarrow> jsval \<Rightarrow> bool" where
  "type_ok ctx ty \<longleftrightarrow> extensions_ok ty \<and>
     (get ty ''kind'' = Str (js ''sequence'') \<longrightarrow> refers ctx (get ty ''items'')) \<and>
     (get ty ''kind'' = Str (js ''map'') \<longrightarrow> refers ctx (get ty ''values'')) \<and>
     alias_ok ctx ty \<and>
     (\<forall>v\<in>set (list_of (get ty ''variants'')). variant_ok ctx v) \<and>
     constraints_ok ctx ty \<and>
     (\<forall>f\<in>set (list_of (get ty ''fields'')). field_ok ctx f) \<and> names_distinct ty ''fields'' ''name'' \<and>
     (\<forall>r\<in>set (list_of (get ty ''relationships'')). relationship_ok ctx ty r) \<and>
     (\<forall>p\<in>set (list_of (get ty ''operations'')). operation_ok ctx ty p) \<and>
     (\<forall>c\<in>set (list_of (get ty ''clauses'')). clause_ok c) \<and> names_distinct ty ''clauses'' ''clauseId''"

definition field_ids :: "jsval \<Rightarrow> jsval list" where
  "field_ids f = identity_of f @ part_ids f ''constraints''"

definition operation_ids :: "jsval \<Rightarrow> jsval list" where
  "operation_ids p = identity_of p @ concat (map field_ids (list_of (get p ''params'')))"

definition type_ids :: "jsval \<Rightarrow> jsval list" where
  "type_ids ty =
     identity_of ty @ part_ids ty ''variants'' @ part_ids ty ''constraints'' @
     concat (map field_ids (list_of (get ty ''fields''))) @ part_ids ty ''relationships'' @
     concat (map operation_ids (list_of (get ty ''operations''))) @ part_ids ty ''clauses''"

lemma get_non_object: "\<not> is_object v \<Longrightarrow> get v k = Undefined"
  using get_not_Undefined_object by blast

lemma constraint_events_simps [simp]:
  "emits_nothing (claims_of c p w l @ constraint_events ctx p' l' c) \<longleftrightarrow> constraint_ok ctx c"
  "claimed_ids (constraint_events ctx p' l' c) = []"
  by (auto simp: constraint_events_def constraint_ok_def Let_def split: option.splits)

lemma constraintChecks_simps [simp]:
  "emits_nothing (constraintChecks ctx (get v ''constraints'') p as) \<longleftrightarrow> constraints_ok ctx v"
  "claimed_ids (constraintChecks ctx (get v ''constraints'') p as) = part_ids v ''constraints''"
  unfolding constraintChecks_def constraints_ok_def part_ids_def Let_def
  by (rule each_item_quiet each_item_claims; simp del: event_simps(2))+

lemma fieldChecks_simps [simp]:
  "emits_nothing (claims_of f p w l @ fieldChecks ctx f p' l' ty) \<longleftrightarrow> extensions_ok f \<and> emits_nothing (fieldChecks ctx f p' l' ty)"
  "claimed_ids (fieldChecks ctx f p l ty) = part_ids f ''constraints''"
  by (simp_all add: fieldChecks_def Let_def)

lemma non_object_ids [simp]: "\<not> is_object v \<Longrightarrow> identity_of v = []" "\<not> is_object v \<Longrightarrow> part_ids v k = []"
  by (simp_all add: identity_of_def part_ids_def get_non_object)

lemma field_ok_checks:
  "field_ok ctx f \<longleftrightarrow> extensions_ok f \<and> (is_object f \<longrightarrow> emits_nothing (fieldChecks ctx f p l ty))"
  by (auto simp: field_ok_def fieldChecks_def Let_def refers_def)

lemma field_events_simps:
  "emits_nothing (field_events ctx p ty i f repeats) \<longleftrightarrow> field_ok ctx f \<and> (is_object f \<longrightarrow> \<not> repeats)"
  "claimed_ids (field_events ctx p ty i f repeats) = field_ids f"
  by (auto simp: field_events_def Let_def field_ids_def
      field_ok_checks [of ctx f "p @ js ''/fields/'' @ nat_text i" "nearestLocus [f, ty]" ty])

lemma param_events_simps:
  "emits_nothing (param_events ctx p op ty i f repeats) \<longleftrightarrow> field_ok ctx f \<and> (is_object f \<longrightarrow> \<not> repeats)"
  "claimed_ids (param_events ctx p op ty i f repeats) = field_ids f"
  by (auto simp: param_events_def Let_def field_ids_def
      field_ok_checks [of ctx f "p @ js ''/params/'' @ nat_text i" "nearestLocus [f, op, ty]" Undefined])

lemma variant_events_simps:
  "emits_nothing (variant_events ctx p ty i v) = variant_ok ctx v"
  "claimed_ids (variant_events ctx p ty i v) = identity_of v"
  by (auto simp: variant_events_def variant_ok_def Let_def refers_def)

lemma relationship_events_simps:
  "emits_nothing (relationship_events ctx p ty i r) = relationship_ok ctx ty r"
  "claimed_ids (relationship_events ctx p ty i r) = identity_of r"
  by (auto simp: relationship_events_def relationship_ok_def Let_def edge_end_def)

lemma condition_events_simps:
  "emits_nothing (condition_events declared p op l k) \<longleftrightarrow>
     (\<forall>x\<in>set (list_of (get op k)). is_string x \<longrightarrow> x \<in> set declared)"
  "claimed_ids (condition_events declared p op l k) = []"
proof -
  show "emits_nothing (condition_events declared p op l k) \<longleftrightarrow>
     (\<forall>x\<in>set (list_of (get op k)). is_string x \<longrightarrow> x \<in> set declared)"
    unfolding condition_events_def by (rule each_item_quiet) auto
  have "claimed_ids (condition_events declared p op l k) = concat (map (\<lambda>x. []) (list_of (get op k)))"
    unfolding condition_events_def by (rule each_item_claims) simp
  then show "claimed_ids (condition_events declared p op l k) = []" by simp
qed

lemma operation_events_simps:
  "emits_nothing (operation_events ctx p ty i op) = operation_ok ctx ty op"
  "claimed_ids (operation_events ctx p ty i op) = operation_ids op"
proof -
  show "emits_nothing (operation_events ctx p ty i op) = operation_ok ctx ty op"
    by (auto simp: operation_events_def operation_ok_def Let_def condition_events_simps names_distinct_def refers_def
        each_named_quiet [where P = "field_ok ctx", OF param_events_simps(1)])
  show "claimed_ids (operation_events ctx p ty i op) = operation_ids op"
    by (auto simp: operation_events_def operation_ids_def Let_def condition_events_simps get_non_object
        each_named_claims [where C = field_ids, OF param_events_simps(2)])
qed

lemma clause_events_simps:
  "emits_nothing (clause_events p ty i c repeats) \<longleftrightarrow> clause_ok c \<and> (is_object c \<longrightarrow> \<not> repeats)"
  "claimed_ids (clause_events p ty i c repeats) = identity_of c"
  by (auto simp: clause_events_def clause_ok_def Let_def get_non_object)

lemma element_events_simps:
  "emits_nothing (element_events ctx p ty) \<longleftrightarrow>
     (get ty ''kind'' = Str (js ''sequence'') \<longrightarrow> refers ctx (get ty ''items'')) \<and>
     (get ty ''kind'' = Str (js ''map'') \<longrightarrow> refers ctx (get ty ''values''))"
  "claimed_ids (element_events ctx p ty) = []"
  by (auto simp: element_events_def refers_def)

lemma alias_events_simps:
  "emits_nothing (alias_events ctx p ty) = alias_ok ctx ty"
  "claimed_ids (alias_events ctx p ty) = []"
  by (auto simp: alias_events_def alias_ok_def Let_def refers_def split: chain.splits)

lemma each_variants_simps:
  "emits_nothing (each_item (variant_events ctx p ty) v) \<longleftrightarrow> (\<forall>x\<in>set (list_of v). variant_ok ctx x)"
  "claimed_ids (each_item (variant_events ctx p ty) v) = concat (map identity_of (list_of v))"
  by (rule each_item_quiet each_item_claims; simp add: variant_events_simps)+

lemma each_relationships_simps:
  "emits_nothing (each_item (relationship_events ctx p ty) v) \<longleftrightarrow> (\<forall>x\<in>set (list_of v). relationship_ok ctx ty x)"
  "claimed_ids (each_item (relationship_events ctx p ty) v) = concat (map identity_of (list_of v))"
  by (rule each_item_quiet each_item_claims; simp add: relationship_events_simps)+

lemma each_operations_simps:
  "emits_nothing (each_item (operation_events ctx p ty) v) \<longleftrightarrow> (\<forall>x\<in>set (list_of v). operation_ok ctx ty x)"
  "claimed_ids (each_item (operation_events ctx p ty) v) = concat (map operation_ids (list_of v))"
  by (rule each_item_quiet each_item_claims; simp add: operation_events_simps)+

lemma admit_type_events_simps:
  "emits_nothing (admit_type_events ctx i ty) = type_ok ctx ty"
  "claimed_ids (admit_type_events ctx i ty) = type_ids ty"
proof -
  show "emits_nothing (admit_type_events ctx i ty) = type_ok ctx ty"
    by (simp add: admit_type_events_def type_ok_def Let_def element_events_simps alias_events_simps
        each_variants_simps each_relationships_simps each_operations_simps names_distinct_def
        each_named_quiet [where P = "field_ok ctx", OF field_events_simps(1)]
        each_named_quiet [where P = clause_ok, OF clause_events_simps(1)])
  show "claimed_ids (admit_type_events ctx i ty) = type_ids ty"
    by (simp add: admit_type_events_def type_ids_def Let_def element_events_simps alias_events_simps
        each_variants_simps each_relationships_simps each_operations_simps part_ids_def
        each_named_claims [where C = field_ids, OF field_events_simps(2)]
        each_named_claims [where C = identity_of, OF clause_events_simps(2)])
qed

section \<open>The cycle checks\<close>

lemma foldl_update_dom:
  "map_of (foldl (\<lambda>m (k, s). AList.update k s m) m xs) k \<noteq> None \<longleftrightarrow> map_of m k \<noteq> None \<or> k \<in> fst ` set xs"
proof (induction xs arbitrary: m)
  case (Cons x xs)
  then show ?case by (cases x) (auto simp: update_conv')
qed simp

lemma cycle_events_quiet:
  assumes "\<forall>(n, t)\<in>set cs. map_of sites (edge_key n t) \<noteq> None"
  shows "emits_nothing (cycle_events sites [] cs) \<longleftrightarrow> cs = []"
  using assms by (cases cs) auto

lemma cycle_events_claims: "claimed_ids (cycle_events sites past cs) = []"
  by (induction sites past cs rule: cycle_events.induct) (auto split: option.splits)

lemma outgoing_entry:
  assumes "map_of (outgoing_table types) n = Some ts"
  shows "\<exists>ty\<in>set types. is_object ty \<and> get ty ''identity'' = n \<and>
    ts = map (\<lambda>(j, r). edge_end r) (composite_edges ty)"
proof -
  have "map_of (foldl (\<lambda>m ty. if is_object ty
         then AList.update (get ty ''identity'') (map (\<lambda>(j, r). edge_end r) (composite_edges ty)) m
         else m) m types) n = Some ts \<Longrightarrow>
      map_of m n = Some ts \<or> (\<exists>ty\<in>set types. is_object ty \<and> get ty ''identity'' = n \<and>
        ts = map (\<lambda>(j, r). edge_end r) (composite_edges ty))" for m
  proof (induction types arbitrary: m)
    case (Cons ty types)
    from Cons.IH [OF Cons.prems [unfolded foldl_Cons]] show ?case
      by (auto simp: update_conv' split: if_splits)
  qed simp
  from this [of "[]"] show ?thesis using assms by (auto simp: outgoing_table_def)
qed

lemma edges_at_entry: "t \<in> set (edges_at g n) \<Longrightarrow> \<exists>ts. map_of g n = Some ts \<and> t \<in> set ts"
  by (cases "map_of g n") (simp_all add: edges_at_def)

lemma outgoing_site:
  assumes "t \<in> set (edges_at (outgoing_table types) n)"
  shows "map_of (edge_sites types) (edge_key n t) \<noteq> None"
proof -
  obtain ts where "map_of (outgoing_table types) n = Some ts" "t \<in> set ts"
    using edges_at_entry [OF assms] by blast
  then obtain ty j r where ty: "ty \<in> set types" "is_object ty" "get ty ''identity'' = n"
    and r: "(j, r) \<in> set (composite_edges ty)" "t = edge_end r"
    using outgoing_entry [of types n ts] by auto
  obtain i where "(i, ty) \<in> set (List.enumerate 0 types)"
    using ty(1) by (metis map_snd_enumerate in_set_conv_nth list.set_map imageE prod.collapse)
  then have "edge_site i ty (j, r) \<in> set (concat (map (\<lambda>(i, ty).
      if is_object ty then map (edge_site i ty) (composite_edges ty) else []) (List.enumerate 0 types)))"
    using ty(2) r(1) by auto
  from imageI [OF this, of fst] have "edge_key n t \<in> fst ` set (concat (map (\<lambda>(i, ty).
      if is_object ty then map (edge_site i ty) (composite_edges ty) else []) (List.enumerate 0 types)))"
    by (simp only: edge_site_def prod.case fst_conv ty(3) r(2))
  then show ?thesis unfolding edge_sites_def foldl_update_dom by blast
qed

lemma ts_compositeCycles_simps:
  "emits_nothing (ts_compositeCycles types) \<longleftrightarrow> acyclic (edge_rel (\<lambda>t. t) (outgoing_table types))"
  "claimed_ids (ts_compositeCycles types) = []"
proof -
  obtain st where st: "search_graph (\<lambda>t. t) (outgoing_table types) = Some st"
    "ds_closing st = [] \<longleftrightarrow> acyclic (edge_rel (\<lambda>t. t) (outgoing_table types))"
    using search_graph_right by blast
  have "\<forall>(n, t)\<in>set (ds_closing st). map_of (edge_sites types) (edge_key n t) \<noteq> None"
    using search_graph_closing [OF st(1)] outgoing_site by blast
  then show "emits_nothing (ts_compositeCycles types) \<longleftrightarrow> acyclic (edge_rel (\<lambda>t. t) (outgoing_table types))"
    using st by (simp add: ts_compositeCycles_def cycle_events_quiet)
  show "claimed_ids (ts_compositeCycles types) = []"
    by (simp add: ts_compositeCycles_def st(1) cycle_events_claims)
qed

text \<open>The composite relation of a list of types.\<close>

definition composite_links :: "jsval list \<Rightarrow> (jsval \<times> jsval) set" where
  "composite_links types =
     {(get ty ''identity'', edge_end r) | ty r. ty \<in> set types \<and> r \<in> set (list_of (get ty ''relationships'')) \<and>
        is_object r \<and> get r ''composite'' = Bool True \<and> edge_end r \<in> (\<lambda>ty. get ty ''identity'') ` set types}"

lemma composite_edges_ends:
  "snd ` set (composite_edges ty) =
     {r \<in> set (list_of (get ty ''relationships'')). is_object r \<and> get r ''composite'' = Bool True}"
proof -
  have "snd ` set (composite_edges ty) =
      {r \<in> snd ` set (List.enumerate 0 (list_of (get ty ''relationships''))).
        is_object r \<and> get r ''composite'' = Bool True}"
    unfolding composite_edges_def by force
  then show ?thesis by (metis list.set_map map_snd_enumerate)
qed

lemma outgoing_distinct:
  assumes "distinct (map (\<lambda>ty. get ty ''identity'') types)" and "\<forall>ty\<in>set types. is_object ty"
  shows "outgoing_table types =
    map (\<lambda>ty. (get ty ''identity'', map (\<lambda>(j, r). edge_end r) (composite_edges ty))) types"
proof -
  have new: "AList.update k v m = m @ [(k, v)]" if "k \<notin> fst ` set m"
    for k :: jsval and v :: "jsval list" and m
    using that by (induction m) auto
  have "foldl (\<lambda>m ty. if is_object ty
         then AList.update (get ty ''identity'') (map (\<lambda>(j, r). edge_end r) (composite_edges ty)) m
         else m) m types =
      m @ map (\<lambda>ty. (get ty ''identity'', map (\<lambda>(j, r). edge_end r) (composite_edges ty))) types"
    if "fst ` set m \<inter> set (map (\<lambda>ty. get ty ''identity'') types) = {}" for m
    using that assms
  proof (induction types arbitrary: m)
    case (Cons ty types)
    then show ?case by (subst foldl_Cons) (auto simp: new Cons.IH)
  qed simp
  from this [of "[]"] show ?thesis by (simp add: outgoing_table_def)
qed

lemma composite_links_edges:
  assumes "distinct (map (\<lambda>ty. get ty ''identity'') types)" and "\<forall>ty\<in>set types. is_object ty"
  shows "edge_rel (\<lambda>t. t) (outgoing_table types) = composite_links types"
proof -
  let ?e = "\<lambda>ty. map (\<lambda>(j, r). edge_end r) (composite_edges ty)"
  have m: "map_of (outgoing_table types) (get ty ''identity'') = Some (?e ty)" if "ty \<in> set types" for ty
    unfolding outgoing_distinct [OF assms]
    by (rule map_of_is_SomeI) (use assms(1) that in \<open>auto simp: comp_def\<close>)
  have d: "map_of (outgoing_table types) n \<noteq> None \<longleftrightarrow> n \<in> (\<lambda>ty. get ty ''identity'') ` set types" for n
    unfolding outgoing_distinct [OF assms] by (auto simp: map_of_eq_None_iff image_image)
  have s: "set (?e ty) = edge_end ` (snd ` set (composite_edges ty))" for ty
    by (auto simp: image_iff) force+
  have "(n, t) \<in> edge_rel (\<lambda>t. t) (outgoing_table types) \<longleftrightarrow>
      (\<exists>ty\<in>set types. n = get ty ''identity'' \<and> t \<in> set (?e ty) \<and> t \<in> (\<lambda>ty. get ty ''identity'') ` set types)"
    for n t
  proof
    assume "(n, t) \<in> edge_rel (\<lambda>t. t) (outgoing_table types)"
    then have t: "t \<in> set (edges_at (outgoing_table types) n)" "t \<in> (\<lambda>ty. get ty ''identity'') ` set types"
      using d by (auto simp: edge_rel_def)
    then obtain ts where "map_of (outgoing_table types) n = Some ts" "t \<in> set ts"
      using edges_at_entry [OF t(1)] by blast
    then show "\<exists>ty\<in>set types. n = get ty ''identity'' \<and> t \<in> set (?e ty) \<and>
        t \<in> (\<lambda>ty. get ty ''identity'') ` set types"
      using outgoing_entry t(2) by blast
  next
    assume "\<exists>ty\<in>set types. n = get ty ''identity'' \<and> t \<in> set (?e ty) \<and>
        t \<in> (\<lambda>ty. get ty ''identity'') ` set types"
    then show "(n, t) \<in> edge_rel (\<lambda>t. t) (outgoing_table types)"
      using m d by (force simp: edge_rel_def edges_at_def)
  qed
  moreover have "(n, t) \<in> composite_links types \<longleftrightarrow>
      (\<exists>ty\<in>set types. n = get ty ''identity'' \<and> t \<in> edge_end ` {r \<in> set (list_of (get ty ''relationships'')).
        is_object r \<and> get r ''composite'' = Bool True} \<and> t \<in> (\<lambda>ty. get ty ''identity'') ` set types)"
    for n t
    unfolding composite_links_def by blast
  ultimately have "(n, t) \<in> edge_rel (\<lambda>t. t) (outgoing_table types) \<longleftrightarrow> (n, t) \<in> composite_links types" for n t
    by (simp only: s composite_edges_ends)
  then show ?thesis by auto
qed

lemma package_cycle_quiet:
  assumes "\<forall>(n, t)\<in>set cs. map_of packages n \<noteq> None"
  shows "emits_nothing (package_cycle_events packages [] cs) \<longleftrightarrow> cs = []"
  using assms by (cases cs) auto

lemma package_cycle_claims: "claimed_ids (package_cycle_events packages past cs) = []"
  by (induction packages past cs rule: package_cycle_events.induct) (auto split: option.splits)

definition package_links :: "jsval \<Rightarrow> (jsval \<times> jsval) set" where
  "package_links graph = edge_rel (\<lambda>t. t) (import_table (package_index (list_of (get graph ''packages''))))"

lemma reportPackageCycle_simps:
  "emits_nothing (reportPackageCycle graph) \<longleftrightarrow> acyclic (package_links graph)"
  "claimed_ids (reportPackageCycle graph) = []"
proof -
  define packages where "packages = package_index (list_of (get graph ''packages''))"
  obtain st where st: "search_graph (\<lambda>t. t) (import_table packages) = Some st"
    "ds_closing st = [] \<longleftrightarrow> acyclic (edge_rel (\<lambda>t. t) (import_table packages))"
    using search_graph_right by blast
  have "map_of packages n \<noteq> None" if "t \<in> set (edges_at (import_table packages) n)" for n t
    using that unfolding edges_at_def import_table_def by (induction packages) (auto split: if_splits)
  then have "\<forall>(n, t)\<in>set (ds_closing st). map_of packages n \<noteq> None"
    using search_graph_closing [OF st(1)] by blast
  then show "emits_nothing (reportPackageCycle graph) \<longleftrightarrow> acyclic (package_links graph)"
    using st by (simp add: reportPackageCycle_def package_links_def packages_def [symmetric] package_cycle_quiet)
  show "claimed_ids (reportPackageCycle graph) = []"
    using st(1) by (simp add: reportPackageCycle_def packages_def [symmetric] package_cycle_claims)
qed

section \<open>The document and its packages\<close>

definition occurrence_ok :: "admit_context \<Rightarrow> jsval \<Rightarrow> bool" where
  "occurrence_ok ctx v \<longleftrightarrow> extensions_ok v \<and>
     (is_object v \<longrightarrow> map_of (ax_types ctx) (get v ''definition'') \<noteq> None)"

definition document_extension_ok :: "jsval \<Rightarrow> jsval \<Rightarrow> bool" where
  "document_extension_ok bundle x \<longleftrightarrow>
     (get x ''required'' = Bool True \<and> is_object (get bundle ''consumerPolicy'') \<and>
      get (get bundle ''consumerPolicy'') ''unknownExtensions'' = Str (js ''reject'') \<longrightarrow>
      get x ''identity'' \<in> set (list_of (get (get bundle ''manifest'') ''extensions'')))"

definition imports_ok :: "jsval \<Rightarrow> jsval \<Rightarrow> bool" where
  "imports_ok manifest graph \<longleftrightarrow>
     (is_object manifest \<and> is_object graph \<longrightarrow>
       (\<forall>e\<in>set (list_of (get manifest ''imports'')).
         get e ''packageIdentity'' \<in> (\<lambda>p. get p ''identity'') ` set (list_of (get graph ''packages''))))"

definition mappings_ok :: "node_map \<Rightarrow> jsval \<Rightarrow> bool" where
  "mappings_ok types mappings \<longleftrightarrow>
     (\<forall>m\<in>set (list_of mappings). is_object m \<longrightarrow> map_of types (get m ''sourceType'') \<noteq> None)"

definition losses_ok :: "jsval \<Rightarrow> jsval list \<Rightarrow> bool" where
  "losses_ok bundle types \<longleftrightarrow>
     (is_object (get bundle ''manifest'') \<longrightarrow>
       (\<forall>ty\<in>set types. is_object ty \<and> is_entity ty \<longrightarrow>
         get ty ''identity'' \<in> (\<lambda>e. get e ''typeIdentity'') ` set (list_of (get (get bundle ''manifest'') ''exports'')) \<or>
         get ty ''identity'' \<in> set (list_of (get (get bundle ''profile'') ''allowedOmissions''))))"

definition document_ids :: "jsval \<Rightarrow> jsval list" where
  "document_ids ir = concat (map type_ids (list_of (get ir ''types''))) @ part_ids ir ''occurrences''"

definition admissible :: "admit_context \<Rightarrow> jsval \<Rightarrow> bool" where
  "admissible ctx bundle \<longleftrightarrow>
     (let ir = get bundle ''ir''; types = list_of (get ir ''types'');
          graph = get bundle ''packageGraph''
      in distinct (document_ids ir) \<and> extensions_ok ir \<and>
         (\<forall>ty\<in>set types. type_ok ctx ty) \<and>
         acyclic (composite_links types) \<and>
         (\<forall>v\<in>set (list_of (get ir ''occurrences'')). occurrence_ok ctx v) \<and>
         (\<forall>x\<in>set (list_of (get ir ''extensions'')). document_extension_ok bundle x) \<and>
         imports_ok (get bundle ''manifest'') graph \<and>
         (is_object graph \<longrightarrow> acyclic (package_links graph)) \<and>
         mappings_ok (ax_types ctx) (get bundle ''mappings'') \<and>
         losses_ok bundle types)"

lemma each_types_simps:
  "emits_nothing (each_item (admit_type_events ctx) v) \<longleftrightarrow> (\<forall>ty\<in>set (list_of v). type_ok ctx ty)"
  "claimed_ids (each_item (admit_type_events ctx) v) = concat (map type_ids (list_of v))"
  by (rule each_item_quiet each_item_claims; simp add: admit_type_events_simps)+

lemma each_occurrences_simps:
  "emits_nothing (each_item (occurrence_events ctx) v) \<longleftrightarrow> (\<forall>x\<in>set (list_of v). occurrence_ok ctx x)"
  "claimed_ids (each_item (occurrence_events ctx) v) = concat (map identity_of (list_of v))"
  by (rule each_item_quiet each_item_claims;
      auto simp: occurrence_events_def occurrence_ok_def Let_def)+

lemma each_item_no_claims:
  "(\<And>i x. claimed_ids (f i x) = []) \<Longrightarrow> claimed_ids (each_item f v) = []"
  using each_item_claims [of f "\<lambda>x. []" v] by simp

lemma each_extensions_simps:
  "emits_nothing (each_item (document_extension bundle) v) \<longleftrightarrow> (\<forall>x\<in>set (list_of v). document_extension_ok bundle x)"
  "claimed_ids (each_item (document_extension bundle) v) = []"
  by (rule each_item_quiet each_item_no_claims;
      auto simp: document_extension_def document_extension_ok_def Let_def)+

lemma import_events_simps:
  "emits_nothing (import_events manifest graph) = imports_ok manifest graph"
  "claimed_ids (import_events manifest graph) = []"
  by (auto simp: import_events_def imports_ok_def Let_def intro!: each_item_no_claims
      each_item_quiet [where P = "\<lambda>e. get e ''packageIdentity'' \<in> (\<lambda>p. get p ''identity'') ` set (list_of (get graph ''packages''))",
        THEN iffD2] dest!: each_item_quiet [where P = "\<lambda>e. get e ''packageIdentity'' \<in> (\<lambda>p. get p ''identity'') ` set (list_of (get graph ''packages''))",
        THEN iffD1, rotated])

lemma mapping_events_simps:
  "emits_nothing (mapping_target_events types mappings) = mappings_ok types mappings"
  "claimed_ids (mapping_target_events types mappings) = []"
proof -
  have "emits_nothing (each_item (\<lambda>i m. emit_if (is_object m \<and> map_of types (get m ''sourceType'') = None)
      ''UNKNOWN_MAPPING_TARGET'' (pointerOf [js ''mappings'', nat_text i, js ''sourceType''])
      ''a mapping names a semantic identity a declaration owns'' (get m ''identity'') Undefined) mappings) =
    mappings_ok types mappings"
    unfolding mappings_ok_def by (rule each_item_quiet) auto
  moreover have "\<not> is_array mappings \<Longrightarrow> mappings_ok types mappings"
    by (cases mappings) (simp_all add: mappings_ok_def)
  ultimately show "emits_nothing (mapping_target_events types mappings) = mappings_ok types mappings"
    by (simp add: mapping_target_events_def)
  show "claimed_ids (mapping_target_events types mappings) = []"
    by (simp add: mapping_target_events_def each_item_no_claims)
qed

lemma loss_events_simps:
  "emits_nothing (loss_events bundle types) = losses_ok bundle types"
  "claimed_ids (loss_events bundle types) = []"
proof -
  define P where "P ty \<longleftrightarrow> (is_object ty \<and> is_entity ty \<longrightarrow>
         get ty ''identity'' \<in> (\<lambda>e. get e ''typeIdentity'') ` set (list_of (get (get bundle ''manifest'') ''exports'')) \<or>
         get ty ''identity'' \<in> set (list_of (get (get bundle ''profile'') ''allowedOmissions'')))" for ty
  have "emits_nothing (loss_events bundle types) \<longleftrightarrow> (is_object (get bundle ''manifest'') \<longrightarrow> (\<forall>ty\<in>set (list_of (Arr types)). P ty))"
    unfolding loss_events_def Let_def
    by (cases "is_object (get bundle ''manifest'')")
      (simp_all only: if_False if_True not_True_eq_False not_False_eq_True simp_thms event_simps,
        rule each_item_quiet, auto simp: P_def)
  then show "emits_nothing (loss_events bundle types) = losses_ok bundle types"
    by (simp add: losses_ok_def P_def)
  show "claimed_ids (loss_events bundle types) = []"
    by (simp add: loss_events_def Let_def each_item_no_claims)
qed

lemma packageChecks_simps:
  "emits_nothing (packageChecks bundle documentTypes types) \<longleftrightarrow>
     imports_ok (get bundle ''manifest'') (get bundle ''packageGraph'') \<and>
     (is_object (get bundle ''packageGraph'') \<longrightarrow> acyclic (package_links (get bundle ''packageGraph''))) \<and>
     mappings_ok types (get bundle ''mappings'') \<and> losses_ok bundle documentTypes"
  "claimed_ids (packageChecks bundle documentTypes types) = []"
  by (simp_all add: packageChecks_def import_events_simps mapping_events_simps loss_events_simps
      reportPackageCycle_simps)

lemma distinct_type_ids:
  assumes "distinct (concat (map type_ids types))" and "\<forall>ty\<in>set types. is_string (get ty ''identity'')"
  shows "distinct (map (\<lambda>ty. get ty ''identity'') types)"
  using assms
proof (induction types)
  case (Cons ty types)
  have own: "get t ''identity'' \<in> set (type_ids t)" if "t \<in> set (ty # types)" for t
    using that Cons.prems(2) by (auto simp: type_ids_def identity_of_def)
  have "get ty ''identity'' \<noteq> get t ''identity''" if "t \<in> set types" for t
    using own [of ty] own [of t] that Cons.prems(1) by auto
  then have "get ty ''identity'' \<notin> (\<lambda>t. get t ''identity'') ` set types" by blast
  then show ?case using Cons by simp
qed simp

lemma cross_field_silent:
  assumes "\<forall>ty\<in>set (list_of (get (get bundle ''ir'') ''types'')).
      is_object ty \<and> is_string (get ty ''identity'')"
  shows "replay [] (cross_field_events ctx bundle) = [] \<longleftrightarrow> admissible ctx bundle"
proof -
  let ?types = "list_of (get (get bundle ''ir'') ''types'')"
  have "distinct (document_ids (get bundle ''ir'')) \<Longrightarrow>
      edge_rel (\<lambda>t. t) (outgoing_table ?types) = composite_links ?types"
    using assms by (intro composite_links_edges distinct_type_ids) (simp_all add: document_ids_def)
  then show ?thesis
    by (auto simp: replay_silent cross_field_events_def admissible_def Let_def each_types_simps
        each_occurrences_simps ts_compositeCycles_simps each_extensions_simps packageChecks_simps
        document_ids_def part_ids_def)
qed

section \<open>The verdict\<close>

lemma finish_state:
  assumes "0 < al_maxDiagnostics limits"
  shows "(\<exists>v. finish_with rows suppressions limits = Inr v \<and> av_state v = ''success'') \<longleftrightarrow> rows = []"
proof -
  have e: "take (al_maxDiagnostics limits) (stable_sort compare_rows rows) = [] \<longleftrightarrow> rows = []"
  proof -
    have "stable_sort compare_rows rows = [] \<longleftrightarrow> rows = []" by (simp flip: length_0_conv)
    then show ?thesis using assms by simp
  qed
  show ?thesis
  proof (cases "rows = []")
    case True
    then show ?thesis by (simp add: finish_with_def finish_verdict_def resultStateOf_def)
  next
    case False
    then have "resultStateOf (take (al_maxDiagnostics limits) (stable_sort compare_rows rows)) \<noteq> ''success''"
      using e by (simp add: resultStateOf_def)
    then show ?thesis using False
      by (auto simp: finish_with_def finish_verdict_def Let_def split: option.splits)
  qed
qed

section \<open>The sites of schema errors\<close>

lemma set_error_locations [simp]: "set (error_locations paths) = set paths"
  by (simp add: error_locations_def)

lemma error_locations_Nil [simp]: "error_locations paths = [] \<longleftrightarrow> paths = []"
  by (simp add: error_locations_def)

lemma deepest_reached:
  fixes f :: "'a \<Rightarrow> nat"
  shows "(\<forall>p\<in>set xs. f p \<le> foldl (\<lambda>best p. max best (f p)) b xs) \<and> b \<le> foldl (\<lambda>best p. max best (f p)) b xs \<and>
    (foldl (\<lambda>best p. max best (f p)) b xs = b \<or> (\<exists>p\<in>set xs. f p = foldl (\<lambda>best p. max best (f p)) b xs))"
proof (induction xs arbitrary: b)
  case (Cons x xs)
  from Cons [of "max b (f x)"] show ?case by (auto simp: max_def split: if_splits)
qed simp

text \<open>\<open>q\<close> is \<open>p\<close> or one of the pointers above it.\<close>

definition at_or_above :: "jsstr \<Rightarrow> jsstr \<Rightarrow> bool" where
  "at_or_above q p \<longleftrightarrow> q = [] \<or> starts_with (p @ [47]) (q @ [47])"

lemma at_or_above_refl [simp]: "at_or_above p p"
  by (simp add: at_or_above_def starts_with_def)

lemma parentOf_cut: "parentOf q = [] \<or> (\<exists>b. q = parentOf q @ 47 # b)"
proof -
  define tail where "tail = takeWhile (\<lambda>c. c \<noteq> (47 :: 16 word)) (rev q)"
  show ?thesis
  proof (cases "length tail < length q")
    case True
    have "length tail + length (dropWhile (\<lambda>c. c \<noteq> 47) (rev q)) = length q"
      by (simp only: tail_def length_append [symmetric] takeWhile_dropWhile_id length_rev)
    then have "dropWhile (\<lambda>c. c \<noteq> 47) (rev q) \<noteq> []"
      using True by (metis add.right_neutral less_irrefl list.size(3))
    from hd_dropWhile [OF this] obtain r where r: "dropWhile (\<lambda>c. c \<noteq> 47) (rev q) = 47 # r"
      using \<open>dropWhile (\<lambda>c. c \<noteq> 47) (rev q) \<noteq> []\<close> by (cases "dropWhile (\<lambda>c. c \<noteq> 47) (rev q)") auto
    have "rev q = tail @ 47 # r" by (simp only: tail_def r [symmetric] takeWhile_dropWhile_id)
    from arg_cong [OF this, of rev] have q: "q = rev r @ 47 # rev tail" by simp
    have "parentOf q = take (length q - length tail - 1) q"
      by (simp only: parentOf_def parent_pointer_def Let_def tail_def [symmetric] True if_True)
    also have "\<dots> = rev r" by (simp add: q)
    finally have "parentOf q = rev r" .
    then show ?thesis using q by auto
  next
    case False
    then show ?thesis by (simp add: parentOf_def parent_pointer_def tail_def [symmetric] Let_def)
  qed
qed

lemma parentOf_above: "at_or_above q p \<Longrightarrow> at_or_above (parentOf q) p"
proof -
  assume q: "at_or_above q p"
  show ?thesis
  proof (cases "parentOf q = []")
    case False
    then obtain b where b: "q = parentOf q @ 47 # b" using parentOf_cut [of q] by blast
    then have "q \<noteq> []" using False by (metis append_is_Nil_conv)
    then obtain r where "p @ [47] = (q @ [47]) @ r" using q by (auto simp: at_or_above_def starts_with_iff)
    then have "p @ [47] = (parentOf q @ [47]) @ (b @ [47] @ r)" using b by (metis append.assoc append_Cons append_Nil)
    then show ?thesis unfolding at_or_above_def starts_with_iff by blast
  qed (simp add: at_or_above_def)
qed

lemma climb_above: "at_or_above (climb_to q p) p \<and> (at_or_above q p' \<longrightarrow> at_or_above (climb_to q p) p')"
proof (induction q p rule: climb_to.induct)
  case (1 q p)
  show ?case
  proof (cases "q \<noteq> [] \<and> \<not> starts_with (p @ [47]) (q @ [47])")
    case True
    then show ?thesis using 1 parentOf_above [of q p'] by (subst (1 2) climb_to.simps) simp
  next
    case False
    then show ?thesis by (subst (1 2) climb_to.simps) (auto simp: at_or_above_def)
  qed
qed

lemma climbs_above:
  "p \<in> set ps \<or> at_or_above q p \<Longrightarrow> at_or_above (foldl climb_to q ps) p"
proof (induction ps arbitrary: q)
  case (Cons x ps)
  show ?case unfolding foldl_Cons
    by (rule Cons.IH) (use Cons.prems climb_above [of q x x] climb_above [of q x p] in auto)
qed simp

lemma commonPrefix_above: "p \<in> set ps \<Longrightarrow> at_or_above (commonPrefix ps) p"
  unfolding commonPrefix_def by (rule climbs_above) (cases ps; auto)

lemma reported_ancestor_above:
  "(at_or_above q p \<longrightarrow> at_or_above (reported_ancestor ls q) p) \<and>
   (reported_ancestor ls q = [] \<or> reported_ancestor ls q \<in> set ls)"
proof (induction ls q rule: reported_ancestor.induct)
  case (1 ls q)
  show ?case
  proof (cases "q \<noteq> [] \<and> q \<notin> set ls")
    case True
    then show ?thesis using 1 parentOf_above [of q p] by (subst (1 2 3) reported_ancestor.simps) simp
  next
    case False
    then show ?thesis by (subst (1 2 3) reported_ancestor.simps) auto
  qed
qed

definition deepest_errors :: "jsstr list \<Rightarrow> jsstr set" where
  "deepest_errors paths = {p \<in> set paths. \<forall>q\<in>set paths. depthOf_pointer q \<le> depthOf_pointer p}"

lemma collapse_right:
  assumes "paths \<noteq> []"
  shows "collapse_sites paths \<noteq> [] \<and> set (collapse_sites paths) \<subseteq> set paths \<and>
    (\<forall>p\<in>deepest_errors paths. \<exists>q\<in>set (collapse_sites paths). at_or_above q p)"
proof -
  define ls where "ls = error_locations paths"
  define deepest where "deepest = foldl (\<lambda>best p. max best (depthOf_pointer p)) 0 ls"
  define tied where "tied = filter (\<lambda>p. depthOf_pointer p = deepest) ls"
  define a where "a = reported_ancestor ls (commonPrefix tied)"
  have ls: "set ls = set paths" "ls \<noteq> []" using assms by (simp_all add: ls_def)
  have d: "\<forall>p\<in>set paths. depthOf_pointer p \<le> deepest" "deepest = 0 \<or> (\<exists>p\<in>set paths. depthOf_pointer p = deepest)"
    using deepest_reached [of ls depthOf_pointer 0] ls(1) unfolding deepest_def by auto
  have reach: "\<exists>p\<in>set paths. depthOf_pointer p = deepest"
    using d assms by (metis le_zero_eq last_in_set)
  have t: "set tied = deepest_errors paths"
    using d(1) reach ls(1) unfolding tied_def deepest_errors_def by (auto intro: antisym)
  have ne: "tied \<noteq> []" using reach ls(1) by (auto simp: tied_def filter_empty_conv)
  have sites: "collapse_sites paths = sort_on (\<lambda>s. s) (if 1 < length tied \<and> a \<noteq> [] then [a] else tied)"
    using ls(2) by (simp add: collapse_sites_def Let_def ls_def [symmetric] deepest_def [symmetric]
        tied_def [symmetric] a_def)
  have sub: "set tied \<subseteq> set paths" by (auto simp: t deepest_errors_def)
  show ?thesis
  proof (cases "1 < length tied \<and> a \<noteq> []")
    case True
    then have "a \<in> set paths" using reported_ancestor_above [of "commonPrefix tied" _ ls] ls(1) a_def by blast
    moreover have "at_or_above a p" if "p \<in> deepest_errors paths" for p
      using reported_ancestor_above [of "commonPrefix tied" p ls] commonPrefix_above [of p tied] that t
      by (simp add: a_def)
    moreover have "collapse_sites paths = [a]"
      using True by (simp add: sites sort_on_def stable_sort_Cons)
    ultimately show ?thesis by simp
  next
    case False
    then have s: "collapse_sites paths = sort_on (\<lambda>s. s) tied" by (auto simp: sites)
    have "set (collapse_sites paths) = set tied" by (simp add: s)
    moreover have "collapse_sites paths \<noteq> []" using ne calculation by auto
    moreover have "at_or_above p p" for p by simp
    ultimately show ?thesis using sub t by blast
  qed
qed

lemma collapse_sites_nonempty: "collapse_sites paths = [] \<longleftrightarrow> paths = []"
  using collapse_right [of paths] by (auto simp: collapse_sites_def Let_def)

text \<open>The bounds under which the rules are not run.\<close>

definition over_bounds :: "admit_limits \<Rightarrow> jsval \<Rightarrow> bool" where
  "over_bounds limits ir \<longleftrightarrow>
     al_maxNodes limits < countNodes ir (al_maxNodes limits) \<or>
     al_maxCollectionItems limits < widestCollection ir"

section \<open>Properties\<close>


text \<open>One record; the same record twice.\<close>

definition sample_type :: jsval where
  "sample_type = Obj [(js ''identity'', Str (js ''t'')), (js ''kind'', Str (js ''record''))]"

definition sample_bundle :: "jsval list \<Rightarrow> jsval" where
  "sample_bundle types = Obj [(js ''ir'', Obj [(js ''types'', Arr types)])]"

definition sample_limits :: admit_limits where
  "sample_limits = \<lparr>al_maxDepth = 2, al_maxNodes = 20, al_maxCollectionItems = 5, al_maxDiagnostics = 3\<rparr>"


end
