(* ===== verification/TsAdmitTotal.thy ===== *)
theory TsAdmitTotal
  imports TsAdmitSound
begin

text \<open>
  The rows of a bundle are told apart by their pointer, code and message, so the sort of the verdict
  never asks for a canonical text, and \<open>admitIr\<close> returns on every bundle. The pointers of a node and
  of its parts form areas, the node's own pointer and everything below it; different parts have
  different areas.
\<close>

section \<open>The rows a list of events may push\<close>

definition may_emit :: "admit_event list \<Rightarrow> admit_row list" where
  "may_emit es = concat (map (\<lambda>e. case e of Emits r \<Rightarrow> [r] | Claims i r \<Rightarrow> [r] | Suppresses rule i \<Rightarrow> []) es)"

definition all_rows :: "(admit_row \<Rightarrow> bool) \<Rightarrow> admit_event list \<Rightarrow> bool" where
  "all_rows Q es \<longleftrightarrow> (\<forall>r\<in>set (may_emit es). Q r)"

definition sole :: "admit_event list \<Rightarrow> bool" where
  "sole es \<longleftrightarrow> distinct (map row_key (may_emit es))"

lemma may_emit_simps [simp]:
  "may_emit [] = []" "may_emit (es @ fs) = may_emit es @ may_emit fs"
  "may_emit (Emits r # es) = r # may_emit es" "may_emit (Claims i r # es) = r # may_emit es"
  "may_emit (Suppresses rule i # es) = may_emit es"
  by (simp_all add: may_emit_def)

lemma may_emit_concat: "may_emit (concat ess) = concat (map may_emit ess)"
  by (induction ess) auto

lemma all_rows_simps [simp]:
  "all_rows Q []" "all_rows Q (es @ fs) \<longleftrightarrow> all_rows Q es \<and> all_rows Q fs"
  "all_rows Q (Emits r # es) \<longleftrightarrow> Q r \<and> all_rows Q es"
  "all_rows Q (Claims i r # es) \<longleftrightarrow> Q r \<and> all_rows Q es"
  "all_rows Q (Suppresses rule i # es) \<longleftrightarrow> all_rows Q es"
  "all_rows Q (emit_if c n p m w l) \<longleftrightarrow> (c \<longrightarrow> Q (admit_diagnostic n p m w l))"
  by (auto simp: all_rows_def emit_if_def)

lemma sole_simps [simp]:
  "sole []" "sole (emit_if c n p m w l)" "sole (Suppresses rule i # es) = sole es"
  "sole [Emits r]" "sole [Claims i r]"
  by (simp_all add: sole_def emit_if_def)

lemma all_rows_mono: "all_rows P es \<Longrightarrow> (\<And>r. P r \<Longrightarrow> Q r) \<Longrightarrow> all_rows Q es"
  by (simp add: all_rows_def)

lemma all_rows_each: "(\<And>i x. all_rows Q (f i x)) \<Longrightarrow> all_rows Q (each_item f v)"
  by (auto simp: each_item_def all_rows_def may_emit_concat)

lemma all_rows_named: "(\<And>i x b. all_rows Q (body i x b)) \<Longrightarrow> all_rows Q (each_named body key past i xs)"
  by (induction xs arbitrary: past i) auto

lemma all_rows_extensions:
  "(\<And>i w. Q (admit_diagnostic ''DUPLICATE_IDENTITY'' (p @ js ''/extensions/'' @ nat_text i @ js ''/identity'')
      ''an extension identity is declared once by one node'' w l)) \<Longrightarrow>
    all_rows Q (extension_claims p who l past i xs)"
  by (induction p who l past i xs rule: extension_claims.induct) auto

text \<open>What is replayed is a part of it.\<close>

lemma replay_rows: "set (replay past es) \<subseteq> set (may_emit es)"
  by (induction past es rule: replay.induct) auto

lemma replay_sole: "sole es \<Longrightarrow> distinct (map row_key (replay past es))"
proof (induction past es rule: replay.induct)
  case (2 past r es)
  then show ?case using replay_rows [of past es] by (auto simp: sole_def)
next
  case (3 past i r es)
  then show ?case using replay_rows [of past es] by (auto simp: sole_def)
qed (simp_all add: sole_def)

section \<open>Areas\<close>

definition in_area :: "jsstr \<Rightarrow> admit_row \<Rightarrow> bool" where
  "in_area p r \<longleftrightarrow> aw_pointer r = p \<or> (\<exists>s. aw_pointer r = p @ 47 # s)"

lemma in_area_self [simp]: "in_area p (admit_diagnostic n p m w l)"
  by (simp add: in_area_def admit_diagnostic_def)

lemma in_area_below [simp]: "in_area p (admit_diagnostic n (p @ 47 # s) m w l)"
  by (simp add: in_area_def admit_diagnostic_def)

lemma in_area_up: "in_area (p @ 47 # s) r \<Longrightarrow> in_area p r"
  by (auto simp: in_area_def)

lemma segment_unique:
  assumes "s @ x = t @ y" and "x = [] \<or> hd x = 47" and "y = [] \<or> hd y = 47"
    and "47 \<notin> set s" and "47 \<notin> set t"
  shows "s = t"
proof -
  have "takeWhile (\<lambda>c. c \<noteq> 47) (s @ x) = s" using assms(2,4) by (cases x) (auto simp: takeWhile_append)
  moreover have "takeWhile (\<lambda>c. c \<noteq> 47) (t @ y) = t" using assms(3,5) by (cases y) (auto simp: takeWhile_append)
  ultimately show ?thesis using assms(1) by simp
qed

lemma areas_apart:
  assumes "in_area (p @ 47 # s) r" and "in_area (p @ 47 # t) q" and "aw_pointer r = aw_pointer q"
    and "47 \<notin> set s" and "47 \<notin> set t"
  shows "s = t"
proof -
  from assms(1) obtain x where x: "aw_pointer r = p @ 47 # s @ x" "x = [] \<or> hd x = 47"
    unfolding in_area_def by (metis append.assoc append_Cons append_Nil2 list.sel(1))
  from assms(2) obtain y where y: "aw_pointer q = p @ 47 # t @ y" "y = [] \<or> hd y = 47"
    unfolding in_area_def by (metis append.assoc append_Cons append_Nil2 list.sel(1))
  have "s @ x = t @ y" using assms(3) x(1) y(1) by simp
  then show ?thesis by (rule segment_unique) (use x y assms(4,5) in auto)
qed

text \<open>Events in different parts of a node.\<close>

lemma sole_parts:
  assumes "distinct (map fst ps)"
    and "\<forall>(s, es)\<in>set ps. 47 \<notin> set s \<and> all_rows (in_area (p @ 47 # s)) es \<and> sole es"
  shows "sole (concat (map snd ps)) \<and> all_rows (in_area p) (concat (map snd ps))"
  using assms
proof (induction ps)
  case (Cons e ps)
  obtain s es where e: "e = (s, es)" by (cases e)
  have IH: "sole (concat (map snd ps))" "all_rows (in_area p) (concat (map snd ps))"
    using Cons by auto
  have "row_key r \<noteq> row_key q" if r: "r \<in> set (may_emit es)" and q: "q \<in> set (may_emit (concat (map snd ps)))" for r q
  proof
    assume k: "row_key r = row_key q"
    obtain t fs where t: "(t, fs) \<in> set ps" "q \<in> set (may_emit fs)"
      using q by (auto simp: may_emit_concat)
    have a: "in_area (p @ 47 # s) r" "47 \<notin> set s" using Cons.prems(2) r by (simp_all add: e all_rows_def)
    have "\<forall>(s, es)\<in>set ps. 47 \<notin> set s \<and> all_rows (in_area (p @ 47 # s)) es \<and> sole es"
      using Cons.prems(2) by simp
    from bspec [OF this t(1)] have b: "in_area (p @ 47 # t) q" "47 \<notin> set t"
      using t(2) by (simp_all add: all_rows_def)
    have "aw_pointer r = aw_pointer q" using k by (simp add: row_key_def)
    from areas_apart [OF a(1) b(1) this a(2) b(2)] have "s \<in> fst ` set ps" using t(1) by force
    then show False using Cons.prems(1) by (simp add: e)
  qed
  then have "sole (concat (map snd (e # ps)))"
    using IH(1) Cons.prems(2) by (fastforce simp: sole_def e simp del: mset_map)
  moreover have "all_rows (in_area p) es"
    using Cons.prems(2) by (auto simp: e intro: all_rows_mono in_area_up)
  ultimately show ?case using IH(2) by (simp add: e)
qed simp

lemma nat_text_no_slash: "47 \<notin> set (nat_text i)"
proof
  assume "47 \<in> set (nat_text i)"
  then have "is_digit_unit 47" using digits_of_digits [of "int i" 47] by (simp add: nat_text_def)
  then show False by (simp add: is_digit_unit_def word_le_nat_alt)
qed

lemma nat_text_inject [simp]: "nat_text i = nat_text j \<longleftrightarrow> i = j"
  by (simp add: nat_text_def digits_of_inject)

lemma sole_each:
  assumes "\<And>i x. all_rows (in_area (p @ 47 # nat_text i)) (f i x)" and "\<And>i x. sole (f i x)"
  shows "sole (each_item f v)" and "all_rows (in_area p) (each_item f v)"
proof -
  let ?ps = "map (\<lambda>(i, x). (nat_text i, f i x)) (List.enumerate 0 (list_of v))"
  have "map fst ?ps = map nat_text (map fst (List.enumerate 0 (list_of v)))"
    unfolding map_map by (intro map_cong) auto
  then have d: "distinct (map fst ?ps)" by (simp add: distinct_map inj_on_def)
  have e: "each_item f v = concat (map snd ?ps)"
    unfolding each_item_def map_map comp_def by (intro arg_cong [of _ _ concat] map_cong) auto
  have "sole (concat (map snd ?ps)) \<and> all_rows (in_area p) (concat (map snd ?ps))"
    using d by (rule sole_parts) (auto simp: assms nat_text_no_slash)
  then show "sole (each_item f v)" "all_rows (in_area p) (each_item f v)" by (simp_all add: e)
qed

text \<open>The loops with names, as parts from the index \<open>i\<close> on.\<close>

lemma each_named_parts:
  "\<exists>bs. each_named body key past i xs =
     concat (map snd (map (\<lambda>(j, x, b). (nat_text j, body j x b)) (zip [i..<i + length xs] (zip xs bs)))) \<and>
     length bs = length xs"
proof (induction xs arbitrary: past i)
  case (Cons x xs)
  from Cons.IH [of "if is_object x then past @ [get x key] else past" "Suc i"]
  obtain bs where bs: "each_named body key (if is_object x then past @ [get x key] else past) (Suc i) xs =
      concat (map snd (map (\<lambda>(j, x, b). (nat_text j, body j x b)) (zip [Suc i..<Suc i + length xs] (zip xs bs))))"
    "length bs = length xs" by blast
  have "[i..<i + length (x # xs)] = i # [Suc i..<Suc i + length xs]" by (simp add: upt_conv_Cons del: upt_Suc)
  then show ?case using bs by (intro exI [of _ "(get x key \<in> set past) # bs"]) (simp del: upt_Suc)
qed simp

lemma sole_named:
  assumes "\<And>i x b. all_rows (in_area (p @ 47 # nat_text i)) (body i x b)" and "\<And>i x b. sole (body i x b)"
  shows "sole (each_named body key past i xs)" and "all_rows (in_area p) (each_named body key past i xs)"
proof -
  obtain bs where bs: "each_named body key past i xs =
     concat (map snd (map (\<lambda>(j, x, b). (nat_text j, body j x b)) (zip [i..<i + length xs] (zip xs bs))))"
    "length bs = length xs" using each_named_parts by blast
  let ?ps = "map (\<lambda>(j, x, b). (nat_text j, body j x b)) (zip [i..<i + length xs] (zip xs bs))"
  have "map fst ?ps = map nat_text (map fst (zip [i..<i + length xs] (zip xs bs)))"
    unfolding map_map by (intro map_cong) auto
  then have d: "distinct (map fst ?ps)" using bs(2) by (simp add: distinct_map inj_on_def)
  have "sole (concat (map snd ?ps)) \<and> all_rows (in_area p) (concat (map snd ?ps))"
    using d by (rule sole_parts) (auto simp: assms nat_text_no_slash)
  then show "sole (each_named body key past i xs)" "all_rows (in_area p) (each_named body key past i xs)"
    by (simp_all add: bs(1))
qed

section \<open>The parts of a type\<close>

lemma segment_texts:
  "js ''/identity'' = 47 # js ''identity''" "js ''/extensions/'' = 47 # js ''extensions'' @ [47]"
  "js ''/constraints/'' = 47 # js ''constraints'' @ [47]" "js ''/variants/'' = 47 # js ''variants'' @ [47]"
  "js ''/fields/'' = 47 # js ''fields'' @ [47]" "js ''/relationships/'' = 47 # js ''relationships'' @ [47]"
  "js ''/operations/'' = 47 # js ''operations'' @ [47]" "js ''/params/'' = 47 # js ''params'' @ [47]"
  "js ''/clauses/'' = 47 # js ''clauses'' @ [47]" "js ''/operands/'' = 47 # js ''operands'' @ [47]"
  "js ''/operands/regex'' = 47 # js ''operands/regex''" "js ''/items'' = 47 # js ''items''"
  "js ''/values'' = 47 # js ''values''" "js ''/target'' = 47 # js ''target''"
  "js ''/payloadType'' = 47 # js ''payloadType''" "js ''/name'' = 47 # js ''name''"
  "js ''/unit'' = 47 # js ''unit''" "js ''/typeRef'' = 47 # js ''typeRef''"
  "js ''/multiplicity/upper'' = 47 # js ''multiplicity'' @ js ''/upper''"
  "js ''/targetEnd/type'' = 47 # js ''targetEnd'' @ js ''/type''"
  "js ''/sourceEnd/type'' = 47 # js ''sourceEnd'' @ js ''/type''"
  "js ''/returns/typeRef'' = 47 # js ''returns'' @ js ''/typeRef''"
  "js ''/clauseId'' = 47 # js ''clauseId''" "js ''/sourceSpan'' = 47 # js ''sourceSpan''"
  "js ''/definition'' = 47 # js ''definition''" "js ''/upper'' = 47 # js ''upper''"
  "js ''/type'' = 47 # js ''type''" "js ''/'' = [47]"
  by (simp_all add: js_def unit_of_def)

definition part_names :: "string list" where
  "part_names = [''identity'', ''extensions'', ''items'', ''values'', ''target'', ''variants'', ''constraints'',
     ''fields'', ''relationships'', ''operations'', ''clauses'', ''name'', ''unit'', ''typeRef'',
     ''multiplicity'', ''payloadType'', ''targetEnd'', ''sourceEnd'', ''params'', ''pre'', ''post'',
     ''returns'', ''clauseId'', ''sourceSpan'', ''types'', ''occurrences'', ''definition'']"

lemma part_names_ok: "distinct (map js part_names)" "list_all (\<lambda>n. 47 \<notin> set (js n)) part_names"
  by code_simp+

lemma in_area_row [simp]:
  "in_area p (admit_diagnostic n q m w l) \<longleftrightarrow> q = p \<or> (\<exists>s. q = p @ 47 # s)"
  by (simp add: in_area_def admit_diagnostic_def)

lemma area_extensions:
  "all_rows (in_area (p @ 47 # js ''extensions'')) (extension_claims p w l past i xs)"
  by (rule all_rows_extensions) (simp add: segment_texts)

lemma extension_rows:
  "r \<in> set (may_emit (extension_claims p w l past i xs)) \<Longrightarrow>
     \<exists>j\<ge>i. aw_pointer r = p @ js ''/extensions/'' @ nat_text j @ js ''/identity''"
proof (induction p w l past i xs rule: extension_claims.induct)
  case (2 p w l past i x xs)
  then show ?case
    by (auto simp: admit_diagnostic_def split: if_splits dest!: Suc_leD)
qed simp

lemma sole_extensions: "sole (extension_claims p w l past i xs)"
proof (induction p w l past i xs rule: extension_claims.induct)
  case (2 p w l past i x xs)
  have "row_key (admit_diagnostic n (p @ js ''/extensions/'' @ nat_text i @ js ''/identity'') m u l) \<noteq> row_key r"
    if "r \<in> set (may_emit (extension_claims p w l past' (Suc i) xs))" for r n m u past'
    using extension_rows [OF that] by (auto simp: row_key_def admit_diagnostic_def)
  then show ?case using 2 by (auto simp: sole_def simp del: mset_map)
qed simp

lemma sole_codes:
  assumes "sole es" and "sole fs" and "all_rows (\<lambda>r. aw_code r \<in> C) es" and "all_rows (\<lambda>r. aw_code r \<notin> C) fs"
  shows "sole (es @ fs)"
  using assms by (auto simp: sole_def all_rows_def row_key_def)

lemma admissibility_code_inject [simp]: "admissibility_code m = admissibility_code n \<longleftrightarrow> m = n"
  by (simp add: admissibility_code_def)

lemma admit_code [simp]: "aw_code (admit_diagnostic n p m w l) = admissibility_code n"
  by (simp add: admit_diagnostic_def)

abbreviation duplicate :: "admit_row \<Rightarrow> bool" where
  "duplicate r \<equiv> aw_code r \<in> {admissibility_code ''DUPLICATE_IDENTITY''}"

lemma claims_duplicate: "all_rows duplicate (claims_of v p w l)"
  by (auto simp: claims_of_def claimIdentity_def claimExtensions_def intro!: all_rows_extensions
      split: jsval.splits)

lemma area_identity: "all_rows (in_area (p @ 47 # js ''identity'')) (claimIdentity v p w l)"
  by (auto simp: claimIdentity_def segment_texts split: jsval.splits)

lemma sole_identity: "sole (claimIdentity v p w l)"
  by (auto simp: claimIdentity_def split: jsval.splits)

lemmas claim_parts = area_identity sole_identity area_extensions sole_extensions

lemma claims_of_sole:
  "sole (claims_of v p w l)" "all_rows (in_area p) (claims_of v p w l)"
proof -
  have "sole (concat (map snd [(js ''identity'', claimIdentity v p w l), (js ''extensions'', claimExtensions v p w l)])) \<and>
    all_rows (in_area p) (concat (map snd [(js ''identity'', claimIdentity v p w l), (js ''extensions'', claimExtensions v p w l)]))"
    using part_names_ok by (intro sole_parts) (simp_all add: part_names_def claim_parts claimExtensions_def)
  then show "sole (claims_of v p w l)" "all_rows (in_area p) (claims_of v p w l)"
    by (simp_all add: claims_of_def)
qed

lemma constraint_events_sole:
  "sole (constraint_events ctx p l c)" "all_rows (in_area p) (constraint_events ctx p l c)"
  "all_rows (\<lambda>r. \<not> duplicate r) (constraint_events ctx p l c)"
proof -
  have "sole (emit_if a ''INVALID_OPERAND'' q m w k @ emit_if b ''INVALID_PATTERN'' q' m' w' k')" for a b q q' m m' w w' k k'
    by (rule sole_codes [where C = "{admissibility_code ''INVALID_OPERAND''}"]) simp_all
  then show "sole (constraint_events ctx p l c)"
    by (auto simp: constraint_events_def Let_def split: option.splits)
  show "all_rows (in_area p) (constraint_events ctx p l c)"
    "all_rows (\<lambda>r. \<not> duplicate r) (constraint_events ctx p l c)"
    by (auto simp: constraint_events_def Let_def segment_texts split: option.splits)
qed

lemma constraintChecks_sole:
  "sole (constraintChecks ctx cs p as)" "all_rows (in_area (p @ 47 # js ''constraints'')) (constraintChecks ctx cs p as)"
proof -
  define f where "f i c = claims_of c ((p @ 47 # js ''constraints'') @ 47 # nat_text i) (get c ''identity'') (nearestLocus (c # as)) @
      constraint_events ctx ((p @ 47 # js ''constraints'') @ 47 # nat_text i) (nearestLocus (c # as)) c" for i c
  have e: "constraintChecks ctx cs p as = each_item f cs"
    by (simp add: constraintChecks_def Let_def f_def [abs_def] segment_texts)
  have "sole (f i c)" "all_rows (in_area ((p @ 47 # js ''constraints'') @ 47 # nat_text i)) (f i c)" for i c
    unfolding f_def
    by (rule sole_codes [OF claims_of_sole(1) constraint_events_sole(1) claims_duplicate constraint_events_sole(3)])
      (simp only: all_rows_simps claims_of_sole constraint_events_sole simp_thms)
  then show "sole (constraintChecks ctx cs p as)"
    "all_rows (in_area (p @ 47 # js ''constraints'')) (constraintChecks ctx cs p as)"
    unfolding e by (intro sole_each; blast)+
qed

text \<open>A field or a parameter, its name told as a repeat or not.\<close>

lemma field_parts:
  "sole (claims_of f p w l @ (if \<not> is_object f then []
      else emit_if b name (p @ js ''/name'') m w l @ fieldChecks ctx f p l ty)) \<and>
   all_rows (in_area p) (claims_of f p w l @ (if \<not> is_object f then []
      else emit_if b name (p @ js ''/name'') m w l @ fieldChecks ctx f p l ty))"
proof (cases "is_object f")
  case True
  define ps where "ps =
     [(js ''identity'', claimIdentity f p w l), (js ''extensions'', claimExtensions f p w l),
      (js ''name'', emit_if b name (p @ js ''/name'') m w l),
      (js ''multiplicity'', emit_if (is_object (get f ''multiplicity'') \<and>
          is_number (get (get f ''multiplicity'') ''upper'') \<and>
          js_less (get (get f ''multiplicity'') ''upper'') (get (get f ''multiplicity'') ''lower''))
         ''INVALID_MULTIPLICITY'' (p @ js ''/multiplicity/upper'')
         ''a multiplicity upper bound is not below its lower bound'' (get f ''identity'') l),
      (js ''unit'', emit_if (get f ''unit'' \<noteq> Undefined \<and>
          resolvedScalar (ax_types ctx) (ax_fields ctx) (get f ''typeRef'') (ax_depth ctx) = Undefined)
         ''UNIT_ON_NON_SCALAR'' (p @ js ''/unit'')
         ''a unit appears only on a field resolving to a scalar'' (get f ''identity'') l),
      (js ''typeRef'', emit_if (\<not> resolvable (ax_types ctx) (ax_fields ctx) (get f ''typeRef''))
         ''UNRESOLVED_TYPE_REF'' (p @ js ''/typeRef'')
         ''a field type reference resolves to a declared type'' (get f ''identity'') l),
      (js ''constraints'', constraintChecks ctx (get f ''constraints'') p [f, ty])]"
  have "sole (concat (map snd ps)) \<and> all_rows (in_area p) (concat (map snd ps))"
    using part_names_ok
    by (intro sole_parts)
      (simp_all add: ps_def part_names_def claim_parts claimExtensions_def constraintChecks_sole segment_texts)
  then show ?thesis using True by (simp add: ps_def claims_of_def fieldChecks_def Let_def)
qed (simp add: claims_of_sole)

lemma area_texts:
  "(p @ 47 # js ''fields'') @ 47 # nat_text i = p @ js ''/fields/'' @ nat_text i"
  "(p @ 47 # js ''params'') @ 47 # nat_text i = p @ js ''/params/'' @ nat_text i"
  "(p @ 47 # js ''variants'') @ 47 # nat_text i = p @ js ''/variants/'' @ nat_text i"
  "(p @ 47 # js ''relationships'') @ 47 # nat_text i = p @ js ''/relationships/'' @ nat_text i"
  "(p @ 47 # js ''operations'') @ 47 # nat_text i = p @ js ''/operations/'' @ nat_text i"
  "(p @ 47 # js ''clauses'') @ 47 # nat_text i = p @ js ''/clauses/'' @ nat_text i"
  by (simp_all add: segment_texts)

lemma field_events_sole:
  "sole (field_events ctx p ty i f b)" "all_rows (in_area ((p @ 47 # js ''fields'') @ 47 # nat_text i)) (field_events ctx p ty i f b)"
  using field_parts [of f "p @ js ''/fields/'' @ nat_text i" "get f ''identity''" "nearestLocus [f, ty]" b
      "''DUPLICATE_FIELD_NAME''" "''field names are unique within a record''" ctx ty]
  unfolding area_texts field_events_def Let_def by blast+

lemma param_events_sole:
  "sole (param_events ctx p op ty i f b)" "all_rows (in_area ((p @ 47 # js ''params'') @ 47 # nat_text i)) (param_events ctx p op ty i f b)"
  using field_parts [of f "p @ js ''/params/'' @ nat_text i" "get f ''identity''" "nearestLocus [f, op, ty]" b
      "''DUPLICATE_PARAM''" "''parameter names are unique within an operation''" ctx Undefined]
  unfolding area_texts param_events_def Let_def by blast+

lemma variant_events_sole:
  "sole (variant_events ctx p ty i v)"
  "all_rows (in_area ((p @ 47 # js ''variants'') @ 47 # nat_text i)) (variant_events ctx p ty i v)"
proof -
  define q where "q = p @ js ''/variants/'' @ nat_text i"
  define l where "l = nearestLocus [v, ty]"
  define c where "c = (get v ''payloadType'' \<noteq> Undefined \<and>
    \<not> resolvable (ax_types ctx) (ax_fields ctx) (get v ''payloadType''))"
  define ps where "ps =
     [(js ''identity'', claimIdentity v q (get v ''identity'') l),
      (js ''extensions'', claimExtensions v q (get v ''identity'') l),
      (js ''payloadType'', emit_if c ''UNRESOLVED_VARIANT_PAYLOAD'' (q @ js ''/payloadType'')
         ''a variant payload type resolves to a declared type'' (get v ''identity'') l)]"
  have "sole (concat (map snd ps)) \<and> all_rows (in_area q) (concat (map snd ps))"
    using part_names_ok
    by (intro sole_parts) (simp_all add: ps_def part_names_def claim_parts claimExtensions_def segment_texts)
  moreover have "variant_events ctx p ty i v = concat (map snd ps)"
    by (simp add: variant_events_def Let_def ps_def claims_of_def q_def l_def c_def)
  ultimately show "sole (variant_events ctx p ty i v)"
    "all_rows (in_area ((p @ 47 # js ''variants'') @ 47 # nat_text i)) (variant_events ctx p ty i v)"
    unfolding area_texts by (simp_all add: q_def)
qed

lemma relationship_events_sole:
  "sole (relationship_events ctx p ty i v)"
  "all_rows (in_area ((p @ 47 # js ''relationships'') @ 47 # nat_text i)) (relationship_events ctx p ty i v)"
proof -
  define q where "q = p @ js ''/relationships/'' @ nat_text i"
  define l where "l = nearestLocus [v, ty]"
  define a b where "a = (is_object v \<and> map_of (ax_types ctx) (get (get v ''targetEnd'') ''type'') = None \<and>
      get (get v ''targetEnd'') ''type'' \<notin> set (ax_exported ctx))"
    and "b = (is_object v \<and> get (get v ''sourceEnd'') ''type'' \<noteq> Undefined \<and>
      get (get v ''sourceEnd'') ''type'' \<noteq> get ty ''identity'')"
  define ps where "ps =
     [(js ''identity'', claimIdentity v q (get v ''identity'') l),
      (js ''extensions'', claimExtensions v q (get v ''identity'') l),
      (js ''targetEnd'', emit_if a ''UNRESOLVED_RELATIONSHIP_TARGET'' (q @ js ''/targetEnd/type'')
         ''a relationship target resolves to a document type or a lock export'' (get v ''identity'') l),
      (js ''sourceEnd'', emit_if b ''INVALID_RELATIONSHIP_SOURCE'' (q @ js ''/sourceEnd/type'')
         ''a relationship's source end names the type declaring it'' (get v ''identity'') l)]"
  have "sole (concat (map snd ps)) \<and> all_rows (in_area q) (concat (map snd ps))"
    using part_names_ok
    by (intro sole_parts) (simp_all add: ps_def part_names_def claim_parts claimExtensions_def segment_texts)
  moreover have "relationship_events ctx p ty i v = concat (map snd ps)"
    by (simp add: relationship_events_def Let_def ps_def claims_of_def q_def l_def a_def b_def emit_if_def)
  ultimately show "sole (relationship_events ctx p ty i v)"
    "all_rows (in_area ((p @ 47 # js ''relationships'') @ 47 # nat_text i)) (relationship_events ctx p ty i v)"
    unfolding area_texts by (simp_all add: q_def)
qed

lemma clause_events_sole:
  "sole (clause_events p ty i v b)"
  "all_rows (in_area ((p @ 47 # js ''clauses'') @ 47 # nat_text i)) (clause_events p ty i v b)"
proof -
  define q where "q = p @ js ''/clauses/'' @ nat_text i"
  define l where "l = nearestLocus [v, ty]"
  define c where "c = (is_object v \<and> is_object (get v ''origin'') \<and> get (get v ''origin'') ''source'' \<noteq> Undefined \<and>
      \<not> usableLocus (get v ''sourceSpan''))"
  define ps where "ps =
     [(js ''identity'', claimIdentity v q (get v ''identity'') l),
      (js ''extensions'', claimExtensions v q (get v ''identity'') l),
      (js ''clauseId'', emit_if (is_object v \<and> b) ''DUPLICATE_CLAUSE_ID'' (q @ js ''/clauseId'')
         ''a clauseId is declared once per type'' (get v ''identity'') l),
      (js ''sourceSpan'', emit_if c ''MISSING_SOURCE_SPAN'' (q @ js ''/sourceSpan'')
         ''a source-originated clause carries a source span'' (get v ''identity'') l)]"
  have "sole (concat (map snd ps)) \<and> all_rows (in_area q) (concat (map snd ps))"
    using part_names_ok
    by (intro sole_parts) (simp_all add: ps_def part_names_def claim_parts claimExtensions_def segment_texts)
  moreover have "clause_events p ty i v b = concat (map snd ps)"
    by (simp add: clause_events_def Let_def ps_def claims_of_def q_def l_def c_def emit_if_def)
  ultimately show "sole (clause_events p ty i v b)"
    "all_rows (in_area ((p @ 47 # js ''clauses'') @ 47 # nat_text i)) (clause_events p ty i v b)"
    unfolding area_texts by (simp_all add: q_def)
qed

lemma condition_events_sole:
  "sole (condition_events ds p op l k)" "all_rows (in_area (p @ 47 # js k)) (condition_events ds p op l k)"
proof -
  define f where "f i x = emit_if (is_string x \<and> x \<notin> set ds) ''DANGLING_CLAUSE_REF''
      ((p @ 47 # js k) @ 47 # nat_text i) ''a precondition names a clauseId the type declares''
      (get op ''identity'') l" for i x
  have e: "condition_events ds p op l k = each_item f (get op k)"
    by (simp add: condition_events_def f_def [abs_def] segment_texts)
  have "sole (f i x)" "all_rows (in_area ((p @ 47 # js k) @ 47 # nat_text i)) (f i x)" for i x
    by (simp_all add: f_def)
  then show "sole (condition_events ds p op l k)" "all_rows (in_area (p @ 47 # js k)) (condition_events ds p op l k)"
    unfolding e by (intro sole_each; blast)+
qed

lemma operation_events_sole:
  "sole (operation_events ctx p ty i v)"
  "all_rows (in_area ((p @ 47 # js ''operations'') @ 47 # nat_text i)) (operation_events ctx p ty i v)"
proof -
  define q where "q = p @ js ''/operations/'' @ nat_text i"
  define l where "l = nearestLocus [v, ty]"
  define ds where "ds = map (\<lambda>c. get c ''clauseId'') (list_of (get ty ''clauses''))"
  define c where "c = (is_object (get v ''returns'') \<and>
      \<not> resolvable (ax_types ctx) (ax_fields ctx) (get (get v ''returns'') ''typeRef''))"
  define ps where "ps =
     [(js ''identity'', claimIdentity v q (get v ''identity'') l),
      (js ''extensions'', claimExtensions v q (get v ''identity'') l),
      (js ''params'', each_named (param_events ctx q v ty) ''name'' [] 0 (list_of (get v ''params''))),
      (js ''pre'', condition_events ds q v l ''pre''), (js ''post'', condition_events ds q v l ''post''),
      (js ''returns'', emit_if c ''UNRESOLVED_TYPE_REF'' (q @ js ''/returns/typeRef'')
         ''an operation return type resolves to a declared type'' (get v ''identity'') l)]"
  have "sole (concat (map snd ps)) \<and> all_rows (in_area q) (concat (map snd ps))"
    using part_names_ok
    by (intro sole_parts) (simp_all add: ps_def part_names_def claim_parts claimExtensions_def segment_texts
        condition_events_sole sole_named [OF param_events_sole(2,1)])
  moreover have "operation_events ctx p ty i v = concat (map snd ps)" if "is_object v"
    using that by (simp add: operation_events_def Let_def ps_def claims_of_def q_def l_def c_def ds_def)
  moreover have "operation_events ctx p ty i v = claims_of v q (get v ''identity'') l" if "\<not> is_object v"
    using that by (simp add: operation_events_def Let_def q_def l_def)
  ultimately show "sole (operation_events ctx p ty i v)"
    "all_rows (in_area ((p @ 47 # js ''operations'') @ 47 # nat_text i)) (operation_events ctx p ty i v)"
    unfolding area_texts q_def [symmetric] by (cases "is_object v"; simp add: claims_of_sole)+
qed

lemma alias_events_sole:
  "sole (alias_events ctx p ty)" "all_rows (in_area (p @ 47 # js ''target'')) (alias_events ctx p ty)"
  by (auto simp: alias_events_def Let_def segment_texts split: chain.splits)

lemma escapeSegment_id: "47 \<notin> set s \<Longrightarrow> 126 \<notin> set s \<Longrightarrow> escapeSegment s = s"
proof -
  assume s: "47 \<notin> set s" "126 \<notin> set s"
  have "concat (map (\<lambda>c. if c = u then v else [c]) t) = t" if "u \<notin> set t" for u :: "16 word" and v t
    using that by (induction t) auto
  then show ?thesis using s by (simp add: escapeSegment_def)
qed

lemma escape_nat_text [simp]: "escapeSegment (nat_text i) = nat_text i"
proof (rule escapeSegment_id [OF nat_text_no_slash], rule notI)
  assume "126 \<in> set (nat_text i)"
  then have "is_digit_unit 126" using digits_of_digits [of "int i" 126] by (simp add: nat_text_def)
  then show False by (simp add: is_digit_unit_def word_le_nat_alt)
qed

lemma escape_names [simp]:
  "escapeSegment (js ''ir'') = js ''ir''" "escapeSegment (js ''types'') = js ''types''"
  "escapeSegment (js ''occurrences'') = js ''occurrences''" "escapeSegment (js ''extensions'') = js ''extensions''"
  "escapeSegment (js ''relationships'') = js ''relationships''" "escapeSegment (js ''targetEnd'') = js ''targetEnd''"
  "escapeSegment (js ''type'') = js ''type''" "escapeSegment (js ''packageGraph'') = js ''packageGraph''"
  "escapeSegment (js ''packages'') = js ''packages''" "escapeSegment (js ''imports'') = js ''imports''"
  "escapeSegment (js ''manifest'') = js ''manifest''" "escapeSegment (js ''packageIdentity'') = js ''packageIdentity''"
  "escapeSegment (js ''mappings'') = js ''mappings''" "escapeSegment (js ''sourceType'') = js ''sourceType''"
  "escapeSegment (js ''identity'') = js ''identity''"
  by code_simp+

lemma pointerOf_simps [simp]: "pointerOf [] = []" "pointerOf (s # ss) = 47 # escapeSegment s @ pointerOf ss"
  by (simp_all add: pointerOf_def)

lemma admit_type_events_sole:
  "sole (admit_type_events ctx i ty)"
  "all_rows (in_area (((47 # js ''ir'') @ 47 # js ''types'') @ 47 # nat_text i)) (admit_type_events ctx i ty)"
proof -
  define p where "p = pointerOf [js ''ir'', js ''types'', nat_text i]"
  define w l where "w = get ty ''identity''" and "l = locusOf ty"
  define a b where "a = (get ty ''kind'' = Str (js ''sequence'') \<and>
      \<not> resolvable (ax_types ctx) (ax_fields ctx) (get ty ''items''))"
    and "b = (get ty ''kind'' = Str (js ''map'') \<and>
      \<not> resolvable (ax_types ctx) (ax_fields ctx) (get ty ''values''))"
  define ps where "ps =
     [(js ''identity'', claimIdentity ty p w l), (js ''extensions'', claimExtensions ty p w l),
      (js ''items'', emit_if a ''UNRESOLVED_ELEMENT_TYPE'' (p @ js ''/items'')
         ''a sequence item type resolves to a declared type'' w l),
      (js ''values'', emit_if b ''UNRESOLVED_ELEMENT_TYPE'' (p @ js ''/values'')
         ''a map value type resolves to a declared type'' w l),
      (js ''target'', alias_events ctx p ty),
      (js ''variants'', each_item (variant_events ctx p ty) (get ty ''variants'')),
      (js ''constraints'', constraintChecks ctx (get ty ''constraints'') p [ty]),
      (js ''fields'', each_named (field_events ctx p ty) ''name'' [] 0 (list_of (get ty ''fields''))),
      (js ''relationships'', each_item (relationship_events ctx p ty) (get ty ''relationships'')),
      (js ''operations'', each_item (operation_events ctx p ty) (get ty ''operations'')),
      (js ''clauses'', each_named (clause_events p ty) ''clauseId'' [] 0 (list_of (get ty ''clauses'')))]"
  have "sole (concat (map snd ps)) \<and> all_rows (in_area p) (concat (map snd ps))"
    using part_names_ok
    by (intro sole_parts) (simp_all add: ps_def part_names_def claim_parts claimExtensions_def segment_texts
        alias_events_sole constraintChecks_sole sole_each [OF variant_events_sole(2,1)]
        sole_each [OF relationship_events_sole(2,1)] sole_each [OF operation_events_sole(2,1)]
        sole_named [OF field_events_sole(2,1)] sole_named [OF clause_events_sole(2,1)])
  moreover have "admit_type_events ctx i ty = concat (map snd ps)"
    by (simp add: admit_type_events_def Let_def ps_def claims_of_def element_events_def p_def w_def l_def a_def b_def)
  ultimately show "sole (admit_type_events ctx i ty)"
    "all_rows (in_area (((47 # js ''ir'') @ 47 # js ''types'') @ 47 # nat_text i)) (admit_type_events ctx i ty)"
    by (simp_all add: p_def)
qed

lemma occurrence_events_sole:
  "sole (occurrence_events ctx i v)"
  "all_rows (in_area (((47 # js ''ir'') @ 47 # js ''occurrences'') @ 47 # nat_text i)) (occurrence_events ctx i v)"
proof -
  define p where "p = pointerOf [js ''ir'', js ''occurrences'', nat_text i]"
  define ps where "ps =
     [(js ''identity'', claimIdentity v p (get v ''identity'') Undefined),
      (js ''extensions'', claimExtensions v p (get v ''identity'') Undefined),
      (js ''definition'', emit_if (is_object v \<and> map_of (ax_types ctx) (get v ''definition'') = None)
         ''UNRESOLVED_OCCURRENCE_DEFINITION'' (p @ js ''/definition'')
         ''an occurrence names a definition a type declares'' (get v ''identity'') Undefined)]"
  have "sole (concat (map snd ps)) \<and> all_rows (in_area p) (concat (map snd ps))"
    using part_names_ok
    by (intro sole_parts) (simp_all add: ps_def part_names_def claim_parts claimExtensions_def segment_texts)
  moreover have "occurrence_events ctx i v = concat (map snd ps)"
    by (simp add: occurrence_events_def Let_def ps_def claims_of_def p_def)
  ultimately show "sole (occurrence_events ctx i v)"
    "all_rows (in_area (((47 # js ''ir'') @ 47 # js ''occurrences'') @ 47 # nat_text i)) (occurrence_events ctx i v)"
    by (simp_all add: p_def)
qed

section \<open>Cycles\<close>

lemma two_indices:
  assumes "nat_text i @ 47 # s @ 47 # nat_text j @ 47 # t = nat_text i' @ 47 # s @ 47 # nat_text j' @ 47 # t'"
  shows "i = i' \<and> j = j'"
proof -
  have "nat_text i = nat_text i'"
    using assms by (rule segment_unique) (simp_all add: nat_text_no_slash)
  then have "nat_text j @ 47 # t = nat_text j' @ 47 # t'" using assms by simp
  then have "nat_text j = nat_text j'" by (rule segment_unique) (simp_all add: nat_text_no_slash)
  then show ?thesis using \<open>nat_text i = nat_text i'\<close> by simp
qed

lemma foldl_update_entry:
  "map_of (foldl (\<lambda>m (k, s). AList.update k s m) m xs) k = Some s \<Longrightarrow> map_of m k = Some s \<or> (k, s) \<in> set xs"
proof (induction xs arbitrary: m)
  case (Cons x xs)
  obtain a b where x: "x = (a, b)" by (cases x)
  from Cons.IH [of "AList.update a b m"] Cons.prems show ?case
    by (auto simp: x update_conv' split: if_splits)
qed simp

definition site_of :: "jsval list \<Rightarrow> nat \<Rightarrow> nat \<Rightarrow> jsstr" where
  "site_of types i j =
     edge_key (get (types ! i) ''identity'') (edge_end (list_of (get (types ! i) ''relationships'') ! j))"

lemma edge_sites_entry:
  assumes "map_of (edge_sites types) k = Some r"
  shows "\<exists>i j. k = site_of types i j \<and> aw_code r = admissibility_code ''COMPOSITE_CYCLE'' \<and>
    aw_severity r = SevError \<and> aw_blocking r \<and>
    aw_pointer r = pointerOf [js ''ir'', js ''types'', nat_text i, js ''relationships'', nat_text j,
      js ''targetEnd'', js ''type'']"
proof -
  have "(k, r) \<in> set (concat (map (\<lambda>(i, ty). if is_object ty then map (edge_site i ty) (composite_edges ty) else [])
         (List.enumerate 0 types)))"
    using assms foldl_update_entry [of "[]"] unfolding edge_sites_def by fastforce
  then obtain i ty j v where "(i, ty) \<in> set (List.enumerate 0 types)" "(j, v) \<in> set (composite_edges ty)"
    "(k, r) = edge_site i ty (j, v)"
    by (auto split: if_splits)
  then have "types ! i = ty" "list_of (get ty ''relationships'') ! j = v" "(k, r) = edge_site i ty (j, v)"
    by (auto simp: composite_edges_def in_set_enumerate_eq)
  then show ?thesis
    by (intro exI [of _ i] exI [of _ j]) (simp add: edge_site_def site_of_def admit_diagnostic_def)
qed

lemma cycle_events_rows:
  "r \<in> set (may_emit (cycle_events sites past cs)) \<Longrightarrow> \<exists>k. k \<notin> set past \<and> map_of sites k = Some r"
proof (induction sites past cs rule: cycle_events.induct)
  case (2 sites past n t rest)
  then show ?case by (auto split: if_splits option.splits)
qed simp

lemma cycle_events_sole:
  assumes "\<And>k k' r r'. map_of sites k = Some r \<Longrightarrow> map_of sites k' = Some r' \<Longrightarrow>
      row_key r = row_key r' \<Longrightarrow> k = k'"
  shows "sole (cycle_events sites past cs)"
  using assms
proof (induction sites past cs rule: cycle_events.induct)
  case (2 sites past n t rest)
  show ?case
  proof (cases "map_of sites (edge_key n t)")
    case None
    then show ?thesis using 2 by (simp add: sole_def)
  next
    case (Some r)
    have "row_key r \<noteq> row_key q" if "q \<in> set (may_emit (cycle_events sites (past @ [edge_key n t]) rest))" for q
      using cycle_events_rows [OF that] Some 2(3) by fastforce
    then show ?thesis using 2 Some by (auto simp: sole_def simp del: mset_map)
  qed
qed simp

lemma ts_compositeCycles_sole: "sole (ts_compositeCycles types)"
proof -
  have "k = k'" if e: "map_of (edge_sites types) k = Some r" "map_of (edge_sites types) k' = Some r'"
    "row_key r = row_key r'" for k k' r r'
  proof -
    obtain i j where a: "k = site_of types i j" "aw_pointer r = pointerOf [js ''ir'', js ''types'', nat_text i,
        js ''relationships'', nat_text j, js ''targetEnd'', js ''type'']"
      using edge_sites_entry [OF e(1)] by blast
    obtain i' j' where b: "k' = site_of types i' j'" "aw_pointer r' = pointerOf [js ''ir'', js ''types'',
        nat_text i', js ''relationships'', nat_text j', js ''targetEnd'', js ''type'']"
      using edge_sites_entry [OF e(2)] by blast
    have "aw_pointer r = aw_pointer r'" using e(3) by (simp add: row_key_def)
    then have "nat_text i @ 47 # js ''relationships'' @ 47 # nat_text j @ 47 # js ''targetEnd'' @ 47 # js ''type'' =
        nat_text i' @ 47 # js ''relationships'' @ 47 # nat_text j' @ 47 # js ''targetEnd'' @ 47 # js ''type''"
      by (simp only: a b pointerOf_simps escape_names escape_nat_text append_Nil2 append_Cons append.assoc
          list.inject same_append_eq simp_thms)
    from two_indices [OF this] show ?thesis by (simp add: a b)
  qed
  then show ?thesis
    by (auto simp: ts_compositeCycles_def intro!: cycle_events_sole split: option.splits)
qed

lemma package_index_entry:
  assumes "map_of (package_index packages) n = Some (i, e)"
  shows "i < length packages \<and> get (packages ! i) ''identity'' = n"
proof -
  have "map_of (foldl (\<lambda>m (i, entry). if is_object entry then AList.update (get entry ''identity'') (i, entry) m else m)
      m xs) n = Some (i, e) \<Longrightarrow> map_of m n = Some (i, e) \<or> ((i, e) \<in> set xs \<and> get e ''identity'' = n)" for m xs
  proof (induction xs arbitrary: m)
    case (Cons x xs)
    obtain a b where x: "x = (a, b)" by (cases x)
    from Cons.IH [OF Cons.prems [unfolded foldl_Cons]] show ?case
      by (auto simp: x update_conv' split: if_splits)
  qed simp
  from this [of "[]" "List.enumerate 0 packages"] assms show ?thesis
    by (auto simp: package_index_def in_set_enumerate_eq)
qed

lemma package_cycle_rows:
  "r \<in> set (may_emit (package_cycle_events packages past cs)) \<Longrightarrow>
     \<exists>n i e. n \<notin> set past \<and> map_of packages n = Some (i, e) \<and>
       aw_pointer r = pointerOf [js ''packageGraph'', js ''packages'', nat_text i, js ''imports'']"
proof (induction packages past cs rule: package_cycle_events.induct)
  case (2 packages past n t rest)
  then show ?case
    by (fastforce simp: emit_if_def admit_diagnostic_def split: if_splits option.splits)
qed simp

lemma package_cycle_events_sole:
  "sole (package_cycle_events (package_index ps) past cs)"
proof (induction "package_index ps" past cs rule: package_cycle_events.induct)
  case (2 past n t rest)
  show ?case
  proof (cases "map_of (package_index ps) n")
    case None
    then show ?thesis using 2 by (simp add: sole_def)
  next
    case (Some ie)
    obtain i e where ie: "ie = (i, e)" by (cases ie)
    let ?r = "admit_diagnostic ''PACKAGE_CYCLE''
      (pointerOf [js ''packageGraph'', js ''packages'', nat_text i, js ''imports''])
      ''the selected package graph is acyclic'' Undefined Undefined"
    have "row_key ?r \<noteq> row_key q"
      if q: "q \<in> set (may_emit (package_cycle_events (package_index ps) (past @ [n]) rest))" for q
    proof
      assume k: "row_key ?r = row_key q"
      obtain m j e' where m: "m \<noteq> n" "map_of (package_index ps) m = Some (j, e')"
        "aw_pointer q = pointerOf [js ''packageGraph'', js ''packages'', nat_text j, js ''imports'']"
        using package_cycle_rows [OF q] by auto
      have "i = j" using k m(3) by (simp add: row_key_def admit_diagnostic_def)
      then show False using package_index_entry [OF m(2)] package_index_entry [of ps n i e] Some ie m(1) by simp
    qed
    then show ?thesis using 2 Some ie by (auto simp: sole_def emit_if_def simp del: mset_map pointerOf_simps)
  qed
qed simp


lemma composite_rows: "all_rows (\<lambda>r. aw_code r = admissibility_code ''COMPOSITE_CYCLE'') (ts_compositeCycles types)"
  using cycle_events_rows edge_sites_entry
  by (fastforce simp: all_rows_def ts_compositeCycles_def split: option.splits)

section \<open>The packages\<close>

lemma coded_package_cycles:
  "all_rows (\<lambda>r. aw_code r = admissibility_code ''PACKAGE_CYCLE'') (package_cycle_events packages past cs)"
  by (induction packages past cs rule: package_cycle_events.induct) (auto split: option.splits)

lemma package_cycles_sole:
  "sole (reportPackageCycle graph)"
  "all_rows (\<lambda>r. aw_code r = admissibility_code ''PACKAGE_CYCLE'') (reportPackageCycle graph)"
  by (auto simp: reportPackageCycle_def Let_def package_cycle_events_sole coded_package_cycles split: option.splits)

lemma import_events_sole:
  "sole (import_events manifest graph)"
  "all_rows (\<lambda>r. aw_code r = admissibility_code ''UNRESOLVED_IMPORT'') (import_events manifest graph)"
proof -
  have "sole (each_item (\<lambda>i entry. emit_if (P entry) n
      (pointerOf [js ''manifest'', js ''imports'', nat_text i, js ''packageIdentity'']) m u w) v)" for P n m u w v
    by (rule sole_each(1) [where p = "(47 # js ''manifest'') @ 47 # js ''imports''"]) simp_all
  then show "sole (import_events manifest graph)" by (simp add: import_events_def Let_def)
  show "all_rows (\<lambda>r. aw_code r = admissibility_code ''UNRESOLVED_IMPORT'') (import_events manifest graph)"
    by (auto simp: import_events_def Let_def intro!: all_rows_each)
qed

lemma loss_events_sole:
  "sole (loss_events bundle types)"
  "all_rows (\<lambda>r. aw_code r = admissibility_code ''UNDECLARED_LOSS'') (loss_events bundle types)"
proof -
  have "sole (each_item (\<lambda>i ty. emit_if (P ty) n
      (pointerOf [js ''ir'', js ''types'', nat_text i, js ''identity'']) m (u ty) (w ty)) v)" for P n m u w v
    by (rule sole_each(1) [where p = "(47 # js ''ir'') @ 47 # js ''types''"]) simp_all
  then show "sole (loss_events bundle types)" by (simp add: loss_events_def Let_def)
  show "all_rows (\<lambda>r. aw_code r = admissibility_code ''UNDECLARED_LOSS'') (loss_events bundle types)"
    by (auto simp: loss_events_def Let_def intro!: all_rows_each)
qed

lemma mapping_events_sole:
  "sole (mapping_target_events types mappings)"
  "all_rows (\<lambda>r. aw_code r = admissibility_code ''UNKNOWN_MAPPING_TARGET'') (mapping_target_events types mappings)"
proof -
  have "sole (each_item (\<lambda>i x. emit_if (P x) n
      (pointerOf [js ''mappings'', nat_text i, js ''sourceType'']) m (u x) w) v)" for P n m u w v
    by (rule sole_each(1) [where p = "47 # js ''mappings''"]) simp_all
  then show "sole (mapping_target_events types mappings)" by (simp add: mapping_target_events_def)
  show "all_rows (\<lambda>r. aw_code r = admissibility_code ''UNKNOWN_MAPPING_TARGET'') (mapping_target_events types mappings)"
    by (auto simp: mapping_target_events_def intro!: all_rows_each)
qed

lemma document_extensions_sole:
  "sole (each_item (document_extension bundle) v)"
  "all_rows (\<lambda>r. aw_code r = admissibility_code ''UNKNOWN_REQUIRED_EXTENSION'') (each_item (document_extension bundle) v)"
proof -
  show "sole (each_item (document_extension bundle) v)"
    by (rule sole_each(1) [where p = "(47 # js ''ir'') @ 47 # js ''extensions''"])
      (simp_all add: document_extension_def Let_def segment_texts)
  show "all_rows (\<lambda>r. aw_code r = admissibility_code ''UNKNOWN_REQUIRED_EXTENSION'')
      (each_item (document_extension bundle) v)"
    by (rule all_rows_each) (simp add: document_extension_def Let_def)
qed

section \<open>The rows of a bundle\<close>

definition late_codes :: "jsstr set" where
  "late_codes = admissibility_code ` {''COMPOSITE_CYCLE'', ''UNKNOWN_REQUIRED_EXTENSION'', ''UNRESOLVED_IMPORT'',
     ''PACKAGE_CYCLE'', ''UNKNOWN_MAPPING_TARGET'', ''UNDECLARED_LOSS''}"

abbreviation early :: "admit_event list \<Rightarrow> bool" where
  "early es \<equiv> all_rows (\<lambda>r. aw_code r \<notin> late_codes) es"

lemma early_emits [simp]: "early (emit_if c n p m w l) \<longleftrightarrow> (c \<longrightarrow> admissibility_code n \<notin> late_codes)"
  by simp

lemma early_code [simp]:
  "admissibility_code n \<in> late_codes \<longleftrightarrow> n \<in> {''COMPOSITE_CYCLE'', ''UNKNOWN_REQUIRED_EXTENSION'',
     ''UNRESOLVED_IMPORT'', ''PACKAGE_CYCLE'', ''UNKNOWN_MAPPING_TARGET'', ''UNDECLARED_LOSS''}"
  by (auto simp: late_codes_def)

text \<open>A law of rows that every row of a node of the document meets, by the name of its code.\<close>

definition NODE_CODES :: "string list" where
  "NODE_CODES = filter (\<lambda>n. admissibility_code n \<notin> late_codes) ADMISSIBILITY_CODES"

lemma node_codes [simp]:
  "n \<in> set NODE_CODES \<longleftrightarrow> n \<in> set ADMISSIBILITY_CODES \<and> admissibility_code n \<notin> late_codes"
  by (auto simp: NODE_CODES_def)

locale node_law =
  fixes Q :: "admit_row \<Rightarrow> bool"
  assumes node: "n \<in> set NODE_CODES \<Longrightarrow> Q (admit_diagnostic n p m w l)"
begin

lemma emits [simp]: "n \<in> set NODE_CODES \<Longrightarrow> all_rows Q (emit_if c n p m w l)"
  using node by simp

lemma claims: "all_rows Q (claims_of v p w l)" "all_rows Q (claimExtensions v p w l)"
  by (auto simp: claims_of_def claimIdentity_def claimExtensions_def ADMISSIBILITY_CODES_def
      intro!: all_rows_extensions node split: jsval.splits)

lemma constraints: "all_rows Q (constraintChecks ctx cs p as)"
  by (auto simp: constraintChecks_def constraint_events_def Let_def claims ADMISSIBILITY_CODES_def
      intro!: all_rows_each node split: option.splits)

lemma field_rows: "all_rows Q (fieldChecks ctx f p l ty)"
  by (simp add: fieldChecks_def Let_def constraints node ADMISSIBILITY_CODES_def)

lemma type_rows: "all_rows Q (admit_type_events ctx i ty)"
proof -
  have "all_rows Q (variant_events ctx p ty j v)" "all_rows Q (field_events ctx p ty j v b)"
    "all_rows Q (relationship_events ctx p ty j v)" "all_rows Q (clause_events p ty j v b)"
    "all_rows Q (param_events ctx p op ty j v b)" "all_rows Q (condition_events ds p op l k)" for p j v b op ds l k
    by (auto simp: variant_events_def field_events_def relationship_events_def clause_events_def param_events_def
        condition_events_def Let_def claims field_rows ADMISSIBILITY_CODES_def intro!: all_rows_each node)
  moreover from this have "all_rows Q (operation_events ctx p ty j v)" for p j v
    by (auto simp: operation_events_def Let_def claims ADMISSIBILITY_CODES_def intro!: all_rows_named node)
  moreover have "all_rows Q (element_events ctx p ty)" "all_rows Q (alias_events ctx p ty)" for p
    by (auto simp: element_events_def alias_events_def Let_def ADMISSIBILITY_CODES_def intro!: node
        split: chain.splits)
  ultimately show ?thesis
    by (auto simp: admit_type_events_def Let_def claims constraints intro!: all_rows_each all_rows_named)
qed

lemma occurrence_rows: "all_rows Q (occurrence_events ctx i v)"
  by (simp add: occurrence_events_def Let_def claims node ADMISSIBILITY_CODES_def)

lemma document_rows:
  "all_rows Q (each_item (admit_type_events ctx) v @ each_item (occurrence_events ctx) w @ claimExtensions ir p u l)"
  unfolding all_rows_simps(2) by (intro conjI all_rows_each type_rows occurrence_rows claims)

end

interpretation early_rows: node_law "\<lambda>r. aw_code r \<notin> late_codes"
  by unfold_locales simp

text \<open>What a row of the register is.\<close>

definition registered :: "admit_row \<Rightarrow> bool" where
  "registered r \<longleftrightarrow> aw_severity r = SevError \<and> aw_blocking r \<and>
     aw_code r \<in> admissibility_code ` set ADMISSIBILITY_CODES"

lemma registered_row [simp]: "registered (admit_diagnostic n p m w l) \<longleftrightarrow> n \<in> set ADMISSIBILITY_CODES"
  by (auto simp: registered_def admit_diagnostic_def)

interpretation registered_rows: node_law registered
  by unfold_locales simp

text \<open>Events told apart by a group their codes belong to.\<close>

lemma sole_groups:
  assumes "distinct (map fst ps)"
    and "\<forall>(t, es)\<in>set ps. sole es \<and> all_rows (\<lambda>r. kin (aw_code r) = t) es"
  shows "sole (concat (map snd ps))"
  using assms
proof (induction ps)
  case (Cons e ps)
  obtain t es where e: "e = (t, es)" by (cases e)
  have "row_key r \<noteq> row_key q" if r: "r \<in> set (may_emit es)" and q: "q \<in> set (may_emit (concat (map snd ps)))" for r q
  proof
    assume k: "row_key r = row_key q"
    obtain u fs where u: "(u, fs) \<in> set ps" "q \<in> set (may_emit fs)"
      using q by (auto simp: may_emit_concat)
    have "\<forall>(t, es)\<in>set ps. sole es \<and> all_rows (\<lambda>r. kin (aw_code r) = t) es" using Cons.prems(2) by simp
    from bspec [OF this u(1)] have "kin (aw_code q) = u" using u(2) by (simp add: all_rows_def)
    moreover have "kin (aw_code r) = t" using Cons.prems(2) r by (simp add: e all_rows_def)
    ultimately have "t \<in> fst ` set ps" using k u(1) by (force simp: row_key_def)
    then show False using Cons.prems(1) by (simp add: e)
  qed
  then show ?case using Cons by (fastforce simp: sole_def e simp del: mset_map)
qed simp

definition late_group :: "jsstr \<Rightarrow> jsstr" where
  "late_group c = (if c \<in> late_codes then c else [])"

lemma late_groups:
  "early es \<Longrightarrow> all_rows (\<lambda>r. late_group (aw_code r) = []) es"
  "all_rows (\<lambda>r. aw_code r = admissibility_code n) es \<Longrightarrow> admissibility_code n \<in> late_codes \<Longrightarrow>
    all_rows (\<lambda>r. late_group (aw_code r) = admissibility_code n) es"
  by (erule all_rows_mono; simp add: late_group_def)+

lemma sole_mset: "mset (may_emit es) = mset (may_emit fs) \<Longrightarrow> sole es = sole fs"
  unfolding sole_def by (metis mset_eq_imp_distinct_iff mset_map)

lemma document_nodes_sole:
  "sole (each_item (admit_type_events ctx) v @ each_item (occurrence_events ctx) w @
     claimExtensions ir (pointerOf [js ''ir'']) u Undefined)"
proof -
  define ps where "ps = [(js ''types'', each_item (admit_type_events ctx) v),
     (js ''occurrences'', each_item (occurrence_events ctx) w),
     (js ''extensions'', claimExtensions ir (pointerOf [js ''ir'']) u Undefined)]"
  have "sole (concat (map snd ps)) \<and> all_rows (in_area (47 # js ''ir'')) (concat (map snd ps))"
    using part_names_ok area_extensions [of "47 # js ''ir''"] sole_each(2) [OF admit_type_events_sole(2,1)]
      sole_each(2) [OF occurrence_events_sole(2,1)]
    by (intro sole_parts) (simp_all add: part_names_def ps_def claimExtensions_def
        sole_each(1) [OF admit_type_events_sole(2,1)] sole_each(1) [OF occurrence_events_sole(2,1)] sole_extensions)
  then show ?thesis by (simp add: ps_def)
qed

lemma package_cycles_part:
  "sole (if c then [Suppresses a b] else reportPackageCycle graph)"
  "all_rows (\<lambda>r. aw_code r = admissibility_code ''PACKAGE_CYCLE'') (if c then [Suppresses a b] else reportPackageCycle graph)"
  by (simp_all add: package_cycles_sole)

lemma admissibility_code_nonempty: "admissibility_code n \<noteq> []"
  by (simp add: admissibility_code_def js_def)

lemma cross_field_sole: "sole (cross_field_events ctx bundle)"
proof -
  let ?ir = "get bundle ''ir''" and ?policy = "get bundle ''consumerPolicy''"
  define last where "last = (if is_object ?policy then []
     else [Suppresses (js ''unknown-required-extension'') (Str (js ''consumerPolicy''))])"
  define nodes where "nodes = each_item (admit_type_events ctx) (get ?ir ''types'') @
     each_item (occurrence_events ctx) (get ?ir ''occurrences'') @
     claimExtensions ?ir (pointerOf [js ''ir'']) (get (get ?ir ''package'') ''identity'') Undefined"
  define cycles where "cycles = ts_compositeCycles (list_of (get ?ir ''types''))"
  define ps where "ps = [([], nodes), (admissibility_code ''COMPOSITE_CYCLE'', cycles),
     (admissibility_code ''UNKNOWN_REQUIRED_EXTENSION'', each_item (document_extension bundle) (get ?ir ''extensions'')),
     (admissibility_code ''UNRESOLVED_IMPORT'', import_events (get bundle ''manifest'') (get bundle ''packageGraph'')),
     (admissibility_code ''PACKAGE_CYCLE'', if \<not> is_object (get bundle ''packageGraph'')
        then [Suppresses (js ''package-cycle'') (Str (js ''packageGraph''))]
        else reportPackageCycle (get bundle ''packageGraph'')),
     (admissibility_code ''UNKNOWN_MAPPING_TARGET'', mapping_target_events (ax_types ctx) (get bundle ''mappings'')),
     (admissibility_code ''UNDECLARED_LOSS'', loss_events bundle (list_of (get ?ir ''types'')))]"
  have early: "early nodes"
    unfolding nodes_def by (rule early_rows.document_rows)
  have "sole nodes" by (simp only: nodes_def document_nodes_sole)
  moreover have "sole cycles" "all_rows (\<lambda>r. aw_code r = admissibility_code ''COMPOSITE_CYCLE'') cycles"
    by (simp_all only: cycles_def ts_compositeCycles_sole composite_rows)
  ultimately have "\<forall>(t, es)\<in>set ps. sole es \<and> all_rows (\<lambda>r. late_group (aw_code r) = t) es"
    unfolding ps_def list.set ball_simps prod.case
    by (intro conjI TrueI late_groups early document_extensions_sole import_events_sole package_cycles_part
        mapping_events_sole loss_events_sole early_code [THEN iffD2]; simp)
  moreover have "distinct (map fst ps)"
    by (simp add: ps_def admissibility_code_nonempty admissibility_code_nonempty [symmetric])
  ultimately have "sole (concat (map snd ps))" by (intro sole_groups)
  moreover have "may_emit last = []" by (simp add: last_def)
  ultimately show ?thesis
    by (subst sole_mset [of _ "concat (map snd ps)"])
      (simp_all add: cross_field_events_def packageChecks_def Let_def ps_def nodes_def cycles_def last_def)
qed

lemma cross_field_registered: "all_rows registered (cross_field_events ctx bundle)"
proof -
  let ?ir = "get bundle ''ir''"
  have nodes: "all_rows registered (each_item (admit_type_events ctx) v)"
    "all_rows registered (each_item (occurrence_events ctx) w)" "all_rows registered (claimExtensions ir p u l)"
    for v w ir p u l
    by (intro all_rows_each registered_rows.type_rows registered_rows.occurrence_rows registered_rows.claims)+
  have cycles: "all_rows registered (ts_compositeCycles (list_of (get ?ir ''types'')))"
    using cycle_events_rows edge_sites_entry
    by (fastforce simp: all_rows_def ts_compositeCycles_def registered_def ADMISSIBILITY_CODES_def split: option.splits)
  have loops: "all_rows registered (package_cycle_events packages past cs)" for packages past cs
    by (induction packages past cs rule: package_cycle_events.induct)
      (auto simp: ADMISSIBILITY_CODES_def split: option.splits)
  have "all_rows registered (each_item (document_extension bundle) (get ?ir ''extensions''))"
    by (rule all_rows_each) (simp add: document_extension_def Let_def ADMISSIBILITY_CODES_def)
  moreover have "all_rows registered (packageChecks bundle (list_of (get ?ir ''types'')) (ax_types ctx))"
    by (auto simp: packageChecks_def import_events_def reportPackageCycle_def mapping_target_events_def loss_events_def
        Let_def loops ADMISSIBILITY_CODES_def intro!: all_rows_each split: option.splits)
  ultimately show ?thesis by (simp add: cross_field_events_def Let_def nodes cycles)
qed

section \<open>The verdict returns\<close>

lemma collapse_sites_distinct: "distinct (collapse_sites paths)"
proof -
  have "distinct (error_locations paths)" by (simp add: error_locations_def)
  then show ?thesis by (auto simp: collapse_sites_def Let_def sort_on_def)
qed

lemma collapsed_rows:
  "distinct (map row_key (collapseSchemaErrors paths bundle))"
  "list_all registered (collapseSchemaErrors paths bundle)"
proof -
  have "map fst (map row_key (collapseSchemaErrors paths bundle)) = collapse_sites paths"
    by (simp add: collapseSchemaErrors_def comp_def row_key_def admit_diagnostic_def)
  then show "distinct (map row_key (collapseSchemaErrors paths bundle))"
    using collapse_sites_distinct [of paths] by (metis distinct_map)
  show "list_all registered (collapseSchemaErrors paths bundle)"
    by (simp add: collapseSchemaErrors_def list_all_iff ADMISSIBILITY_CODES_def)
qed

lemma one_of_key:
  "distinct (map row_key rows) \<Longrightarrow> r \<in> set rows \<Longrightarrow> length (filter (\<lambda>q. row_key q = row_key r) rows) = 1"
  by (induction rows) (auto simp: filter_empty_conv image_iff)

lemma compare_rows_key:
  assumes "row_key r \<noteq> row_key q"
  shows "compare_rows r q < 0 \<longleftrightarrow> row_key r < row_key q" and "compare_rows r q \<noteq> 0"
  using assms by (auto simp: compare_rows_def row_key_def less_prod_def)

lemma compare_rows_law: "comparator_law compare_rows"
  by unfold_locales (auto simp: compare_rows_def by_code_units_def split: if_splits)

text \<open>The rows in order, cut at the limit.\<close>

definition verdict_of :: "admit_row list \<Rightarrow> (jsstr \<times> jsval) list \<Rightarrow> admit_limits \<Rightarrow> admit_verdict" where
  "verdict_of rows sups limits =
     (let bounded = take (al_maxDiagnostics limits) (stable_sort compare_rows rows)
      in \<lparr>av_state = resultStateOf bounded, av_rows = bounded, av_suppressions = sups\<rparr>)"

lemma finish_distinct:
  assumes "distinct (map row_key rows)"
  shows "finish_with rows sups limits = Inr (verdict_of rows sups limits)"
proof -
  have "find (\<lambda>r. 1 < length (filter (\<lambda>q. row_key q = row_key r) rows) \<and>
      isl (ts_canonicalize (row_value r) True)) rows = None"
    using one_of_key [OF assms] by (auto simp: find_None_iff)
  then show ?thesis by (simp add: finish_with_def finish_verdict_def verdict_of_def Let_def)
qed

lemma strictly_ordered:
  "distinct (map row_key rows) \<Longrightarrow> sorted_wrt (\<lambda>a b. compare_rows a b \<le> 0) rows \<Longrightarrow>
    sorted_wrt (\<lambda>r q. row_key r < row_key q) rows"
proof (induction rows)
  case (Cons r rows)
  have "row_key r < row_key q" if "q \<in> set rows" for q
  proof -
    have n: "row_key r \<noteq> row_key q" using that Cons.prems(1) by auto
    have "compare_rows r q \<le> 0" using that Cons.prems(2) by simp
    then show ?thesis using compare_rows_key [OF n] by linarith
  qed
  then show ?case using Cons by simp
qed simp

lemma verdict_sorted:
  assumes "distinct (map row_key rows)"
  shows "sorted_wrt (\<lambda>r q. row_key r < row_key q) (av_rows (verdict_of rows sups limits))"
proof -
  have "sorted_wrt (\<lambda>r q. row_key r < row_key q) (stable_sort compare_rows rows)"
    using assms by (intro strictly_ordered comparator_law.sorted_stable_sort [OF compare_rows_law]) simp
  then show ?thesis by (simp add: verdict_of_def Let_def sorted_wrt_take)
qed

definition proper_verdict :: "admit_limits \<Rightarrow> admit_verdict \<Rightarrow> bool" where
  "proper_verdict limits v \<longleftrightarrow>
     sorted_wrt (\<lambda>r q. row_key r < row_key q) (av_rows v) \<and>
     length (av_rows v) \<le> al_maxDiagnostics limits \<and> list_all registered (av_rows v) \<and>
     av_state v = (if av_rows v = [] then ''success'' else ''invalid'')"

lemma registered_state:
  "list_all registered rows \<Longrightarrow> resultStateOf rows = (if rows = [] then ''success'' else ''invalid'')"
  by (cases rows) (auto simp: resultStateOf_def registered_def)

lemma finish_proper:
  assumes "distinct (map row_key rows)" and "list_all registered rows"
  shows "\<exists>v. finish_with rows sups limits = Inr v \<and> proper_verdict limits v"
proof -
  let ?v = "verdict_of rows sups limits"
  have all: "list_all registered (av_rows ?v)"
    using assms(2) by (auto simp: verdict_of_def Let_def list_all_iff dest: in_set_takeD)
  have "length (av_rows ?v) \<le> al_maxDiagnostics limits" by (simp add: verdict_of_def Let_def)
  moreover have "av_state ?v = resultStateOf (av_rows ?v)" by (simp add: verdict_of_def Let_def)
  ultimately show ?thesis
    using all verdict_sorted [OF assms(1)] registered_state [OF all]
    by (simp add: finish_distinct [OF assms(1)] proper_verdict_def)
qed

lemma bundle_rows:
  "distinct (map row_key (replay [] (cross_field_events ctx bundle)))"
  "list_all registered (replay [] (cross_field_events ctx bundle))"
proof -
  show "distinct (map row_key (replay [] (cross_field_events ctx bundle)))"
    by (rule replay_sole [OF cross_field_sole])
  show "list_all registered (replay [] (cross_field_events ctx bundle))"
    using subsetD [OF replay_rows [of "[]"]] cross_field_registered [of ctx "bundle"]
    by (auto simp: list_all_iff all_rows_def)
qed

lemma admitIr_cases:
  "(is_object bundle \<and> is_object (get bundle ''ir'') \<and> schemas = None \<and>
      admitIr schemas compiles strict limits bundle = Inl NoSchemas) \<or>
   (\<not> (is_object bundle \<and> is_object (get bundle ''ir'') \<and> schemas = None) \<and>
      (\<exists>v. admitIr schemas compiles strict limits bundle = Inr v \<and> proper_verdict limits v))"
proof -
  have "\<exists>v. finish_with [] sups limits = Inr v \<and> proper_verdict limits v" for sups
    by (rule finish_proper) simp_all
  moreover have "\<exists>v. finish_with [admit_diagnostic ''INVALID_DOCUMENT'' p m w l] sups limits = Inr v \<and>
      proper_verdict limits v" for p m w l sups
    by (rule finish_proper) (simp_all add: ADMISSIBILITY_CODES_def)
  moreover have "\<exists>v. finish_with (collapseSchemaErrors paths bundle) sups limits = Inr v \<and> proper_verdict limits v"
    for paths sups by (intro finish_proper collapsed_rows)
  moreover have "\<exists>v. finish_with (replay [] (cross_field_events ctx bundle)) sups limits = Inr v \<and>
      proper_verdict limits v" for ctx sups by (intro finish_proper bundle_rows)
  ultimately show ?thesis by (auto simp: admitIr_def Let_def split: option.splits)
qed

section \<open>Properties\<close>


end
