(* ===== verification/Spec2Isabelle.thy ===== *)
theory Spec2Isabelle
  imports CanonicalForm PackageGraph ConstructModel ReaderSound HostConfined CompatSelf BackendSeam PatternProperties
    RustConstraints RustGraph TsNames TsAdmitTotal
begin

text \<open>
  A verification development of the schema compiler of filament-core-data.

  \<^bold>\<open>The program.\<close> \<open>src/src/compiler\<close> compiles a package of semantic declarations to a document, the
  intermediate representation, and generates language packages from it. A compile
  (\<open>pipeline.mjs\<close>) resolves the package and its imports on a search path (\<open>packages/\<close>), runs a
  frontend on the resolved graph (\<open>frontend/seam.mjs\<close>), validates the document against the published
  schema (\<open>ir/schema.mjs\<close>) and returns it. A consumer reads a document back under the rules no
  schema states (\<open>ir/reader.mjs\<close>), compares two of them (\<open>compat/diff.mjs\<close>), or generates from one
  (\<open>backends/seam.mjs\<close> and a backend). Every file passes through one host (\<open>host.mjs\<close>), every defect
  is a diagnostic of one registry (\<open>diagnostics.mjs\<close>), located by a scan of the JSON text
  (\<open>json-locus.mjs\<close>), and every document has one canonical text (\<open>packages/canonical.mjs\<close>).

  \<^bold>\<open>Data.\<close> A JavaScript value is a \<open>jsval\<close> (JsVal): an object is the list of its members in
  insertion order, a string its UTF-16 code units as 16-bit words, a number the rational an IEEE 754
  value denotes, with rounding computed (JsNumber, NumberText). Objects and closures of the program
  are records. An exception is the left value of a sum (Results), a missing value \<open>None\<close> or
  \<open>Undefined\<close>; a JavaScript \<open>Map\<close> or \<open>Set\<close> is an association list or a list without repetition, in
  insertion order. State that the code keeps in local variables of a loop is a record threaded
  through the steps.

  \<^bold>\<open>Theories and code.\<close>
  Prelude holds the lists, texts, orders and the stable sort all components share, with the comparator
  laws as locales.
  Diagnostics: \<open>diagnostics.mjs\<close>, the registry, fragments, order and limit of a report.
  DepthSearch: the loop with an explicit path that the package and composite cycle searches share.
  JsonLocus: \<open>json-locus.mjs\<close>, the scanner and the pointer index.
  Canonical and CanonicalForm: \<open>packages/canonical.mjs\<close> and \<open>ir/normalize.mjs\<close>.
  Manifest, Versions, Resolve, Selection, PackageCycles, PackageGraph and GraphBlocks:
  \<open>packages/manifest.mjs\<close>, \<open>packages/resolve.mjs\<close> and \<open>packages/graph.mjs\<close>; the queue of the
  resolver is the record \<open>resolution\<close>, one round is \<open>process\<close>, and \<open>resolvePackageGraph\<close> composes
  discovery, the loop, the cycle search, the export and import checks and the profile.
  Operands, Components and UnitGraph: \<open>ir/unit-graph.mjs\<close> and the literal operands of the reader.
  Constructs and ConstructModel: \<open>constructs.mjs\<close>.
  Applicability: \<open>ir/applicability.mjs\<close>.
  ReaderTypes, ReaderChecks, ReaderDefinitions, DocumentConstructs, CompositeCycles, ReaderWalks,
  Reader and ReaderSound: \<open>ir/reader.mjs\<close>, one definition per check, \<open>readContractIr\<close> their
  composition.
  Host and HostConfined: \<open>host.mjs\<close>, its operations as steps on an abstract file system.
  CompatNumeric, CompatDomains, CompatDiff, CompatReport, CompatSound and CompatSelf:
  \<open>compat/diff.mjs\<close>; a helper that records changes returns the list of what it records.
  Pipeline: \<open>pipeline.mjs\<close>, \<open>frontend/seam.mjs\<close> and \<open>ir/schema.mjs\<close>.
  BackendSeam: \<open>backends/seam.mjs\<close>.
  Patterns, PatternMachine, PatternCorrect, PatternRuns, PatternParse and PatternProperties:
  \<open>backends/rust-serde/patterns.mjs\<close>, the pattern parser, its lowering and the matcher.
  RustDiagnostics, CivilDates and RustConstraints: \<open>backends/rust-serde/constraints.mjs\<close> and the
  diagnostics it raises; the calendar and the instants of dates stand in CivilDates.
  Tarjan and RustGraph: \<open>backends/rust-serde/graph.mjs\<close>; the arrays and the frame stack of the
  component search are the record a step of Tarjan rewrites.
  TsNames: \<open>backends/typescript-v1/names.mjs\<close>, the identifiers a package exports.
  TsCanonical: \<open>backends/typescript-v1/canonical.mjs\<close>, the normal and the extended form of a document.
  TsAdmission, TsAdmit, TsChains, TsAdmitSound and TsAdmitTotal: \<open>backends/typescript-v1/admit.mjs\<close>,
  the backend's own reader of a bundle; the closures that push rows return the list of what they push.

  \<^bold>\<open>What is shown.\<close>
  Canonical text identifies a value up to the order of members and identity sets, and is refused
  exactly off the storable values. The scanner ends on every text. A limited report keeps the least
  diagnostics. The resolver returns on every host, selects the highest admitted candidate, reports a
  cycle exactly when there is one, and a graph without diagnostics is sound. The unit graph, the
  construct declarations, the ancestors and effective fields, and the composite cycles are each shown
  equal to their mathematical meaning, and the reader raises nothing about a document exactly when the
  document is sound. The host never reads or writes outside its roots, and what lies outside them
  changes nothing it reads, as long as every path leads through links where it led before. A comparison report is ordered, its aggregate is its most
  restrictive change, removals break, bounds are classified by the sets of numbers they admit, and a
  contract compared with itself yields one documentation patch. A compile returns a document only
  over a sound graph and after all five phases; a generation never leaves its root, and its manifest
  is coherent. The pattern lowering is a correct compiler: the matcher decides the denotation of the
  pattern under every bound, and some bound is always enough; the parser returns a well-formed tree
  or a refusal on every text, but for the one shape of text on which the code throws. A constraint
  becomes one check or one blocking diagnostic, and the instants it compares are the calendar's. The
  components of the type graph are its strong components, and exactly the references on a cycle are
  boxed. A minted identifier is legal and not reserved, and the collisions are the shared identifiers.
  The normal form of the TypeScript backend and the one of the compiler are related, each under its
  own defaults. Its reader admits a bundle exactly when the bundle meets every rule the reader has, or
  is over the bounds under which the rules run, and it answers every value with registered rows in
  strict order.

  \<^bold>\<open>Fuel.\<close> Recursion that is not structural takes fuel, and \<open>None\<close> or a value of the error type
  stands for running out: the scanner takes the length of the text, the selection one round per
  candidate plus one, a depth-first search one unit per node it opens, the component search the nodes
  and edges of the graph, the pattern parser the length of the pattern. Each is proved to be enough, so the theorems that an operation returns have no
  hypothesis on fuel. The step bound of the pattern matcher is the program's own.

  \<^bold>\<open>Parameters.\<close> Code that is not in the repository is an argument of the definitions that use it:
  the file system behind \<open>host.mjs\<close>, \<open>JSON.parse\<close> and the Ajv validators (the record \<open>host\<close> of
  Manifest), the verdict of \<open>new RegExp\<close> on a pattern, the frontends and backends behind the seams,
  the formatter, and the registry of proved validators.

  \<^bold>\<open>Limits of the model.\<close> \<open>String(v)\<close> throws on an object with a member \<open>toString\<close>; the seam models
  this (\<open>prints\<close>), the other components are modelled on documents without such a member
  (\<open>all_print\<close>). Paths are POSIX. Asynchronous calls are sequential: no component awaits two
  at once. Where the type graph reads a member of a null definition or of null returns, which throws,
  the model reads a missing member. The lowering of a required count over an empty body passes over
  the rounds that add nothing. The order of diagnostics is by UTF-16 code unit, as the code compares.
  Where a requirement document asks something else of the code (the decimal bounds of FR-057 and
  FR-144, the set order of FR-069 and FR-145, the code points of FR-049, the units of FR-051, the rules
  and the cycle report of FR-068), the model follows the code, and the text of the property or a
  finding of the manifest says so.

  \<^bold>\<open>Not modelled.\<close> The TypeSpec frontend lowers the program graph of the TypeSpec compiler, a
  third-party library. The text generators (\<open>backends/rust-serde/crate.mjs\<close>,
  \<open>backends/typescript-v1/validators.mjs\<close> and their like) concatenate target-language source, whose
  meaning lies in compilers outside the repository. The generated TypeScript packages are their
  output. The conformance corpus, the harnesses and the scripts are test infrastructure. The command
  line's file and process effects, \<open>schema-validate.mjs\<close> beyond its messages and
  the modules that only read a table from disk are input and output.
\<close>

end
